(* ===== verification/Kupl_Prelude.thy ===== *)
theory Kupl_Prelude
  imports Main "HOL-Library.Word" "HOL-Library.Signed_Division" "HOL-Library.Multiset"
begin

text \<open>
  What every component of the model shares: the status codes of \<open>src/src/kupl.h\<close>, the
  widths of the C integer types, signed 64-bit arithmetic with overflow as an explicit
  outcome, the outcomes of the allocator, and generic lemmas on lists, words and division.

  Conventions.  A pointer parameter that the code compares with \<open>nullptr\<close> is an option.
  A function that may be stopped by undefined behaviour or a non-terminating loop returns an
  option around its result, \<open>None\<close> being that outcome.  A call of the allocator is a
  boolean argument that says whether the call succeeds.
\<close>

section \<open>Status codes and integer types\<close>

type_synonym u32 = "32 word"
type_synonym u64 = "64 word"

definition KUPL_OK :: int where [simp]: "KUPL_OK = 0"
definition KUPL_ERROR :: int where [simp]: "KUPL_ERROR = -1"

definition SIZE_MAX :: u64 where "SIZE_MAX = 18446744073709551615"

lemma unat_SIZE_MAX [simp]: "unat SIZE_MAX = 2 ^ 64 - 1"
  by (simp add: SIZE_MAX_def)

definition kupl_bit :: "nat \<Rightarrow> u64" where "kupl_bit i = push_bit i 1"

section \<open>Signed 64-bit arithmetic\<close>

text \<open>
  \<open>int64_t\<close> values are integers in range.  An operation whose exact result is out of range is
  undefined behaviour in C++: the checked operations return \<open>None\<close> there.  Division truncates
  towards zero (\<open>sdiv\<close>); dividing by zero, or the least value by \<open>-1\<close>, is undefined.
\<close>

definition INT64_MAX :: int where "INT64_MAX = 9223372036854775807"
definition INT64_MIN :: int where "INT64_MIN = -9223372036854775808"

definition int64 :: "int \<Rightarrow> bool" where
  "int64 x \<longleftrightarrow> INT64_MIN \<le> x \<and> x \<le> INT64_MAX"

definition chk64 :: "int \<Rightarrow> int option" where
  "chk64 x = (if int64 x then Some x else None)"

definition add64 :: "int \<Rightarrow> int \<Rightarrow> int option" where "add64 a b = chk64 (a + b)"
definition sub64 :: "int \<Rightarrow> int \<Rightarrow> int option" where "sub64 a b = chk64 (a - b)"
definition mul64 :: "int \<Rightarrow> int \<Rightarrow> int option" where "mul64 a b = chk64 (a * b)"
definition neg64 :: "int \<Rightarrow> int option" where "neg64 a = chk64 (- a)"
definition div64 :: "int \<Rightarrow> int \<Rightarrow> int option" where
  "div64 a b = (if b = 0 then None else chk64 (a sdiv b))"

named_theorems int64_defs \<open>unfolding the checked 64-bit operations\<close>

lemmas [int64_defs] = int64_def INT64_MAX_def INT64_MIN_def chk64_def
  add64_def sub64_def mul64_def neg64_def div64_def

lemma chk64_Some [simp]: "chk64 x = Some y \<longleftrightarrow> int64 x \<and> y = x"
  by (auto simp: chk64_def)

lemma sdiv_nonneg_pos: "0 \<le> a \<Longrightarrow> 0 < b \<Longrightarrow> a sdiv b = a div (b :: int)"
  by (simp add: signed_divide_int_def sgn_if)

lemma sdiv_neg_neg: "a \<le> 0 \<Longrightarrow> b < 0 \<Longrightarrow> a sdiv b = (- a) div (- b :: int)"
  by (auto simp: signed_divide_int_def sgn_if)

lemma smod_nonneg_pos: "0 \<le> a \<Longrightarrow> 0 < b \<Longrightarrow> a smod b = a mod (b :: int)"
  by (auto simp: signed_modulo_int_def sgn_if)

section \<open>Macros of kupl\_math.h\<close>

definition kupl_min :: "'a :: linorder \<Rightarrow> 'a \<Rightarrow> 'a" where
  "kupl_min a b = (if a < b then a else b)"

definition kupl_max :: "'a :: linorder \<Rightarrow> 'a \<Rightarrow> 'a" where
  "kupl_max a b = (if a > b then a else b)"

definition kupl_divup :: "int \<Rightarrow> int \<Rightarrow> int" where
  "kupl_divup a b = (a + b - 1) sdiv b"

lemma kupl_min_eq: "kupl_min a b = min a b"
  by (auto simp: kupl_min_def min_def)

lemma kupl_max_eq: "kupl_max a b = max a b"
  by (auto simp: kupl_max_def max_def)

lemma kupl_divup_pos: "0 < a \<Longrightarrow> 0 < b \<Longrightarrow> kupl_divup a b = (a + b - 1) div b"
  by (simp add: kupl_divup_def sdiv_nonneg_pos)

text \<open>The rounded-up quotient is the least number of blocks of length \<open>b\<close> that cover \<open>a\<close>.\<close>

lemma kupl_divup_cover:
  assumes "0 < a" and "0 < b"
  shows "a \<le> kupl_divup a b * b" and "(kupl_divup a b - 1) * b < a"
proof -
  let ?q = "(a + b - 1) div b"
  have eq: "?q * b = (a + b - 1) - (a + b - 1) mod b" by (simp add: minus_mod_eq_div_mult)
  have r: "0 \<le> (a + b - 1) mod b" "(a + b - 1) mod b < b" using assms by simp_all
  have q: "kupl_divup a b = ?q" using assms by (rule kupl_divup_pos)
  show "a \<le> kupl_divup a b * b" unfolding q eq using r by linarith
  have "(kupl_divup a b - 1) * b = ?q * b - b" by (simp add: q left_diff_distrib)
  then show "(kupl_divup a b - 1) * b < a" unfolding eq using r by linarith
qed

lemma kupl_divup_ge_1: "0 < a \<Longrightarrow> 0 < b \<Longrightarrow> 1 \<le> kupl_divup a b"
  by (simp add: kupl_divup_pos pos_imp_zdiv_pos_iff int_one_le_iff_zero_less)

lemma kupl_divup_le: "0 < a \<Longrightarrow> 0 < b \<Longrightarrow> kupl_divup a b \<le> a"
proof -
  assume ab: "0 < a" "0 < b"
  have "(a + b - 1) div b \<le> (a * b) div b"
  proof (rule zdiv_mono1)
    have "0 \<le> (a - 1) * (b - 1)" using ab by simp
    then show "a + b - 1 \<le> a * b" by (simp add: algebra_simps)
  qed (use ab in simp)
  then show ?thesis using ab by (simp add: kupl_divup_pos)
qed

section \<open>Generic lemmas\<close>

lemma unat_u64_less: "unat (x :: u64) < 18446744073709551616"
  by (rule order.strict_trans2[OF unsigned_less]) simp

lemma unat_push_bit_1: "n < 64 \<Longrightarrow> unat (push_bit n (1 :: u64)) = 2 ^ n"
proof -
  assume "n < 64"
  then have lt: "(2 :: nat) ^ n < 2 ^ 64" by (intro power_strict_increasing) simp_all
  have "unat (push_bit n (1 :: u64)) = take_bit 64 (push_bit n 1)"
    by (simp only: unsigned_push_bit_eq unsigned_1) simp
  also have "\<dots> = 2 ^ n" using lt by (simp add: take_bit_eq_mod push_bit_eq_mult)
  finally show ?thesis .
qed

lemma word_mod_dvd_add:
  fixes a b c :: "'a :: len word"
  assumes "unat c dvd 2 ^ LENGTH('a)"
  shows "unat ((a + b) mod c) = (unat a + unat b) mod unat c"
  using assms by (simp add: unat_mod unat_word_ariths mod_mod_cancel)

end
