(* ===== verification/Kupl_Vector.thy ===== *)
theory Kupl_Vector
  imports Kupl_Prelude
begin

text \<open>
  The ring buffers of \<open>src/src/tools/struct/kupl_vector.h\<close>, \<open>kupl_vector.cpp\<close> and
  \<open>kupl_pool.h\<close>.  The two counters \<open>head\<close> and \<open>tail\<close> are \<open>size_t\<close> values that are never
  reduced modulo the capacity: they run through all 64 bits and wrap.  The slot of a counter
  value is its remainder by the capacity, which is a power of two.

  The abstraction of a vector is the list of its elements in queue order.  The lemmas show that
  the operations are those of a bounded FIFO queue whatever the counters are, the wrap-around of
  \<open>tail\<close> included.  A slot is a value of the element type; \<open>calloc\<close> fills the slots with the
  all-zero value, a parameter \<open>z\<close> of the two create functions.
\<close>

section \<open>State\<close>

record 'a kupl_vector =
  v_name :: string
  v_head :: u64
  v_tail :: u64
  v_capacity :: u64
  v_elem_size :: u64
  v_data :: "'a list"

section \<open>Operations\<close>

text \<open>The loop that rounds the capacity: \<open>while (actual < capacity) actual <<= 1\<close>.\<close>

partial_function (option) round_capacity :: "u64 \<Rightarrow> u64 \<Rightarrow> u64 option" where
  "round_capacity actual capacity =
     (if actual < capacity then round_capacity (push_bit 1 actual) capacity else Some actual)"

definition sizeof_kupl_vector :: u64 where "sizeof_kupl_vector = 48"

text \<open>
  The outer option is the loop, the inner one the returned pointer; \<open>ok\<close> is the outcome of
  \<open>kupl_calloc\<close>.
\<close>

definition kupl_vector_create ::
  "'a \<Rightarrow> bool \<Rightarrow> u64 \<Rightarrow> u64 \<Rightarrow> string \<Rightarrow> 'a kupl_vector option option" where
  "kupl_vector_create z ok capacity elem_size name =
     (if elem_size = 0 then Some None
      else (case round_capacity 1 capacity of
          None \<Rightarrow> None
        | Some actual \<Rightarrow>
            if elem_size > (SIZE_MAX - sizeof_kupl_vector) div actual then Some None
            else if \<not> ok then Some None
            else Some (Some \<lparr>v_name = name, v_head = 0, v_tail = 0, v_capacity = actual,
                              v_elem_size = elem_size, v_data = replicate (unat actual) z\<rparr>)))"

definition kupl_vector_cleanup :: "'a kupl_vector option \<Rightarrow> 'a kupl_vector option" where
  \<comment> \<open>the fields are cleared and the block is freed: no vector is left\<close>
  "kupl_vector_cleanup vector = (case vector of None \<Rightarrow> None | Some v \<Rightarrow> None)"

definition kupl_vector_empty :: "'a kupl_vector option \<Rightarrow> bool" where
  "kupl_vector_empty vector =
     (case vector of None \<Rightarrow> False | Some v \<Rightarrow> v_head v = v_tail v)"

definition kupl_vector_size :: "'a kupl_vector option \<Rightarrow> u64" where
  "kupl_vector_size vector = (case vector of None \<Rightarrow> 0 | Some v \<Rightarrow> v_tail v - v_head v)"

definition kupl_vector_push_back ::
  "'a kupl_vector option \<Rightarrow> 'a option \<Rightarrow> int \<times> 'a kupl_vector option" where
  "kupl_vector_push_back vector elem =
     (case (vector, elem) of
        (Some v, Some x) \<Rightarrow>
          if v_tail v - v_head v + 1 \<ge> v_capacity v then (KUPL_ERROR, vector)
          else (let push_index = v_tail v mod v_capacity v
                in (KUPL_OK, Some (v\<lparr>v_data := (v_data v)[unat push_index := x],
                                     v_tail := v_tail v + 1\<rparr>)))
      | _ \<Rightarrow> (KUPL_ERROR, vector))"

definition kupl_vector_pop_front :: "'a kupl_vector option \<Rightarrow> 'a kupl_vector option" where
  "kupl_vector_pop_front vector =
     (case vector of
        None \<Rightarrow> None
      | Some v \<Rightarrow> if v_head v = v_tail v then Some v else Some (v\<lparr>v_head := v_head v + 1\<rparr>))"

text \<open>A read returns the status and, when it is \<open>KUPL_OK\<close>, the copied element.\<close>

definition kupl_vector_get :: "'a kupl_vector option \<Rightarrow> u64 \<Rightarrow> int \<times> 'a option" where
  "kupl_vector_get vector idx =
     (case vector of
        None \<Rightarrow> (KUPL_ERROR, None)
      | Some v \<Rightarrow>
          if idx \<ge> kupl_vector_size vector then (KUPL_ERROR, None)
          else (KUPL_OK, Some (v_data v ! unat ((v_head v + idx) mod v_capacity v))))"

definition kupl_vector_set ::
  "'a kupl_vector option \<Rightarrow> u64 \<Rightarrow> 'a option \<Rightarrow> int \<times> 'a kupl_vector option" where
  "kupl_vector_set vector idx elem =
     (case (vector, elem) of
        (Some v, Some x) \<Rightarrow>
          if idx \<ge> kupl_vector_size vector then (KUPL_ERROR, vector)
          else (KUPL_OK, Some (v\<lparr>v_data :=
                 (v_data v)[unat ((v_head v + idx) mod v_capacity v) := x]\<rparr>))
      | _ \<Rightarrow> (KUPL_ERROR, vector))"

definition kupl_vector_front :: "'a kupl_vector option \<Rightarrow> int \<times> 'a option" where
  "kupl_vector_front vector =
     (case vector of
        None \<Rightarrow> (KUPL_ERROR, None)
      | Some v \<Rightarrow> if v_tail v \<le> v_head v then (KUPL_ERROR, None) else kupl_vector_get vector 0)"

definition kupl_vector_back :: "'a kupl_vector option \<Rightarrow> int \<times> 'a option" where
  "kupl_vector_back vector =
     (case vector of
        None \<Rightarrow> (KUPL_ERROR, None)
      | Some v \<Rightarrow> if v_tail v \<le> v_head v then (KUPL_ERROR, None)
                  else kupl_vector_get vector (v_tail v - v_head v - 1))"

text \<open>The unchecked macros that the schedulers use on their queues.\<close>

definition kupl_vector_push_back_macro :: "'a kupl_vector \<Rightarrow> 'a \<Rightarrow> int \<times> 'a kupl_vector" where
  "kupl_vector_push_back_macro v elem =
     (let tail = v_tail v; head = v_head v
      in if tail - head + 1 < v_capacity v
         then (KUPL_OK, v\<lparr>v_data := (v_data v)[unat (tail mod v_capacity v) := elem],
                          v_tail := tail + 1\<rparr>)
         else (KUPL_ERROR, v))"

definition kupl_vector_front_macro :: "'a kupl_vector \<Rightarrow> 'a" where
  "kupl_vector_front_macro v = v_data v ! unat (v_head v mod v_capacity v)"

definition kupl_vector_back_macro :: "'a kupl_vector \<Rightarrow> 'a" where
  "kupl_vector_back_macro v = v_data v ! unat ((v_tail v - 1) mod v_capacity v)"

definition kupl_vector_empty_macro :: "'a kupl_vector \<Rightarrow> bool" where
  "kupl_vector_empty_macro v \<longleftrightarrow> v_head v = v_tail v"

definition kupl_vector_pop_front_macro :: "'a kupl_vector \<Rightarrow> 'a kupl_vector" where
  "kupl_vector_pop_front_macro v = v\<lparr>v_head := v_head v + 1\<rparr>"

section \<open>Invariant and abstraction\<close>

definition vec_len :: "'a kupl_vector \<Rightarrow> nat" where
  "vec_len v = unat (v_tail v - v_head v)"

definition vec_slot :: "'a kupl_vector \<Rightarrow> nat \<Rightarrow> nat" where
  "vec_slot v i = (unat (v_head v) + i) mod unat (v_capacity v)"

definition vec_inv :: "'a kupl_vector \<Rightarrow> bool" where
  "vec_inv v \<longleftrightarrow> 0 < unat (v_capacity v) \<and> unat (v_capacity v) dvd 2 ^ 64 \<and>
     length (v_data v) = unat (v_capacity v) \<and> vec_len v < unat (v_capacity v)"

definition vec_list :: "'a kupl_vector \<Rightarrow> 'a list" where
  "vec_list v = map (\<lambda>i. v_data v ! vec_slot v i) [0..<vec_len v]"

text \<open>The number of elements a vector can hold: one slot always stays empty.\<close>

definition vec_room :: "'a kupl_vector \<Rightarrow> nat" where
  "vec_room v = unat (v_capacity v) - 1"

named_theorems vec_defs \<open>unfolding the vector operations\<close>

lemmas [vec_defs] = kupl_vector_empty_def kupl_vector_size_def kupl_vector_push_back_def
  kupl_vector_pop_front_def kupl_vector_get_def kupl_vector_set_def kupl_vector_front_def
  kupl_vector_back_def kupl_vector_push_back_macro_def kupl_vector_front_macro_def
  kupl_vector_empty_macro_def kupl_vector_pop_front_macro_def

lemma length_vec_list [simp]: "length (vec_list v) = vec_len v"
  by (simp add: vec_list_def)

lemma vec_list_nth: "i < vec_len v \<Longrightarrow> vec_list v ! i = v_data v ! vec_slot v i"
  by (simp add: vec_list_def)

lemma vec_slot_less: "vec_inv v \<Longrightarrow> vec_slot v i < length (v_data v)"
  by (simp add: vec_inv_def vec_slot_def)

text \<open>The word arithmetic of the code agrees with the slot numbers, wrap-around included.\<close>

lemma vec_slot_word:
  assumes "vec_inv v"
  shows "unat ((v_head v + i) mod v_capacity v) = vec_slot v (unat i)"
  using assms by (simp add: vec_inv_def vec_slot_def word_mod_dvd_add)

lemma vec_slot_tail:
  assumes "vec_inv v"
  shows "unat (v_tail v mod v_capacity v) = vec_slot v (vec_len v)"
  using vec_slot_word[OF assms, of "v_tail v - v_head v"] by (simp add: vec_len_def)

lemma vec_slot_head:
  assumes "vec_inv v"
  shows "unat (v_head v mod v_capacity v) = vec_slot v 0"
  using vec_slot_word[OF assms, of 0] by simp

lemma mod_shift_inj:
  assumes "i < c" "j < c" "((h :: nat) + i) mod c = (h + j) mod c"
  shows "i = j"
  using assms
proof (induction i j rule: linorder_wlog)
  case (le i j)
  then have "c dvd j - i" using mod_eq_dvd_iff_nat[of "h + i" "h + j" c] by simp
  then have "j - i = 0" using le(3) by (metis dvd_imp_le gr0I less_imp_diff_less not_le)
  then show ?case using le(1) by simp
qed simp

lemma vec_full_iff:
  assumes "vec_inv v"
  shows "v_tail v - v_head v + 1 < v_capacity v \<longleftrightarrow> vec_len v < vec_room v"
proof -
  have lt: "vec_len v < unat (v_capacity v)" using assms by (simp add: vec_inv_def)
  have "vec_len v + 1 < 2 ^ 64" using lt unat_u64_less[of "v_capacity v"] by simp
  then have "unat (v_tail v - v_head v + 1) = vec_len v + 1"
    by (simp add: vec_len_def unat_word_ariths)
  then show ?thesis using lt by (simp add: word_less_nat_alt vec_room_def) linarith
qed

lemma vec_empty_iff: "v_head v = v_tail v \<longleftrightarrow> vec_list v = []"
proof -
  have "vec_list v = [] \<longleftrightarrow> unat (v_tail v - v_head v) = 0"
    by (simp add: vec_list_def vec_len_def)
  also have "\<dots> \<longleftrightarrow> v_head v = v_tail v" by (auto simp: unat_eq_0)
  finally show ?thesis by simp
qed

section \<open>Each operation keeps the invariant and acts on the abstract list\<close>

text \<open>Writing slot \<open>i\<close> changes element \<open>i\<close> of the list and no other.\<close>

lemma vec_list_write:
  assumes inv: "vec_inv v" and i: "i < unat (v_capacity v)"
    and w: "w = v\<lparr>v_data := (v_data v)[vec_slot v i := x]\<rparr>"
  shows "vec_list w = (vec_list v)[i := x]"
proof (rule nth_equalityI)
  show "length (vec_list w) = length ((vec_list v)[i := x])"
    by (simp add: w vec_len_def)
  fix k assume "k < length (vec_list w)"
  then have k: "k < vec_len v" by (simp add: w vec_len_def)
  then have kc: "k < unat (v_capacity v)" using inv by (simp add: vec_inv_def)
  have "vec_slot v k = vec_slot v i \<longleftrightarrow> k = i"
    using mod_shift_inj[OF kc i] by (auto simp: vec_slot_def)
  moreover have "vec_slot w k = vec_slot v k" by (simp add: w vec_slot_def)
  moreover have "vec_len w = vec_len v" by (simp add: w vec_len_def)
  ultimately show "vec_list w ! k = (vec_list v)[i := x] ! k"
    using k vec_slot_less[OF inv, of i]
    by (auto simp: vec_list_nth w nth_list_update)
qed

lemma vec_inv_write:
  "vec_inv v \<Longrightarrow> vec_inv (v\<lparr>v_data := (v_data v)[n := x]\<rparr>)"
  by (simp add: vec_inv_def vec_len_def)

lemma vec_push:
  assumes inv: "vec_inv v" and room: "vec_len v < vec_room v"
    and w: "w = v\<lparr>v_data := (v_data v)[unat (v_tail v mod v_capacity v) := x],
                 v_tail := v_tail v + 1\<rparr>"
  shows "vec_list w = vec_list v @ [x]" and "vec_inv w" and "vec_room w = vec_room v"
proof -
  let ?n = "vec_len v" and ?u = "v\<lparr>v_data := (v_data v)[vec_slot v (vec_len v) := x]\<rparr>"
  have n: "?n < unat (v_capacity v)" "?n + 1 < unat (v_capacity v)"
    using room by (simp_all add: vec_room_def)
  have len: "vec_len w = ?n + 1"
  proof -
    have "unat (v_tail v - v_head v + 1) = ?n + 1"
      using n unat_u64_less[of "v_capacity v"] by (simp add: vec_len_def unat_word_ariths)
    then show ?thesis by (simp add: w vec_len_def algebra_simps)
  qed
  show "vec_inv w" using inv n len by (simp add: vec_inv_def w)
  show "vec_room w = vec_room v" by (simp add: w vec_room_def)
  show "vec_list w = vec_list v @ [x]"
  proof (rule nth_equalityI)
    show "length (vec_list w) = length (vec_list v @ [x])" by (simp add: len)
    fix i assume "i < length (vec_list w)"
    then have i: "i < ?n + 1" by (simp add: len)
    have slot: "vec_slot w i = vec_slot v i" by (simp add: w vec_slot_def)
    have "vec_slot v i = vec_slot v ?n \<longleftrightarrow> i = ?n"
      using mod_shift_inj[of i "unat (v_capacity v)" ?n "unat (v_head v)"] n i
      by (auto simp: vec_slot_def)
    moreover have "vec_list w ! i = v_data w ! vec_slot v i"
      using i slot by (simp add: vec_list_nth len)
    moreover have "v_data w = (v_data v)[vec_slot v ?n := x]"
      by (simp add: w vec_slot_tail[OF inv])
    ultimately show "vec_list w ! i = (vec_list v @ [x]) ! i"
      using i vec_slot_less[OF inv, of ?n]
      by (auto simp: vec_list_nth nth_append nth_list_update)
  qed
qed

lemma vec_pop:
  assumes inv: "vec_inv v" and ne: "vec_list v \<noteq> []"
    and w: "w = v\<lparr>v_head := v_head v + 1\<rparr>"
  shows "vec_list w = tl (vec_list v)" and "vec_inv w" and "vec_room w = vec_room v"
proof -
  have pos: "0 < vec_len v" using ne by (simp add: vec_list_def)
  have "unat (v_tail v - v_head v - 1) = vec_len v - 1"
    using pos unat_minus_one[of "v_tail v - v_head v"] by (cases "v_tail v = v_head v") (auto simp: vec_len_def)
  then have len: "vec_len w = vec_len v - 1" by (simp add: w vec_len_def algebra_simps)
  have "vec_len v - 1 < unat (v_capacity v)" using inv by (simp add: vec_inv_def less_imp_diff_less)
  then show "vec_inv w" using inv len by (simp add: vec_inv_def w)
  show "vec_room w = vec_room v" by (simp add: w vec_room_def)
  have slot: "vec_slot w i = vec_slot v (Suc i)" for i
  proof -
    let ?c = "unat (v_capacity v)" and ?h = "unat (v_head v)"
    have dvd: "?c dvd 2 ^ 64" using inv by (simp add: vec_inv_def)
    have "vec_slot w i = ((?h + 1) mod 2 ^ 64 + i) mod ?c"
      by (simp add: w vec_slot_def unat_word_ariths)
    also have "\<dots> = ((?h + 1) mod 2 ^ 64 mod ?c + i) mod ?c" by (simp add: mod_add_left_eq)
    also have "\<dots> = (?h + 1 + i) mod ?c" by (simp only: mod_mod_cancel[OF dvd] mod_add_left_eq)
    finally show ?thesis by (simp add: vec_slot_def)
  qed
  show "vec_list w = tl (vec_list v)"
    by (rule nth_equalityI) (simp_all add: len vec_list_nth nth_tl slot, simp add: w)
qed

text \<open>The rounding loop, and the vector that \<open>kupl_vector_create\<close> returns.\<close>

lemma round_capacity_aux:
  "n \<le> 63 \<Longrightarrow> unat capacity \<le> 2 ^ 63 \<Longrightarrow>
   \<exists>k. n \<le> k \<and> k \<le> 63 \<and> round_capacity (push_bit n 1) capacity = Some (push_bit k 1)
       \<and> unat capacity \<le> 2 ^ k \<and> (n < k \<longrightarrow> 2 ^ (k - 1) < unat capacity)"
proof (induction "63 - n" arbitrary: n)
  case 0
  then have "n = 63" by simp
  then show ?case
    using 0 unat_push_bit_1[of 63] by (auto simp: round_capacity.simps word_less_nat_alt)
next
  case (Suc d)
  show ?case
  proof (cases "push_bit n 1 < capacity")
    case True
    have step: "Suc n \<le> 63" "d = 63 - Suc n" using Suc.hyps by linarith+
    from Suc.hyps(1)[OF step(2) step(1) Suc.prems(2)]
    obtain k where k: "Suc n \<le> k" "k \<le> 63"
      "round_capacity (push_bit (Suc n) 1) capacity = Some (push_bit k 1)"
      "unat capacity \<le> 2 ^ k" "Suc n < k \<longrightarrow> 2 ^ (k - 1) < unat capacity" by blast
    have "2 ^ n < unat capacity"
      using True unat_push_bit_1[of n] Suc.prems by (simp add: word_less_nat_alt)
    then have "2 ^ (k - 1) < unat capacity"
      using k by (cases "Suc n = k") auto
    moreover have "round_capacity (push_bit n 1) capacity = Some (push_bit k 1)"
      by (subst round_capacity.simps) (use True k(3) in \<open>simp add: mult.commute\<close>)
    ultimately show ?thesis using k by (intro exI[of _ k]) auto
  next
    case False
    then have "round_capacity (push_bit n 1) capacity = Some (push_bit n 1)"
      by (subst round_capacity.simps) simp
    with False show ?thesis using Suc.prems unat_push_bit_1[of n]
      by (intro exI[of _ n]) (simp add: word_less_nat_alt)
  qed
qed

lemma round_capacity_power:
  assumes "unat capacity \<le> 2 ^ 63"
  obtains k where "k \<le> 63" "round_capacity 1 capacity = Some (push_bit k 1)"
    "unat capacity \<le> 2 ^ k" "0 < k \<longrightarrow> 2 ^ (k - 1) < unat capacity"
  using round_capacity_aux[of 0 capacity] assms by auto

lemma kupl_vector_create_inv:
  assumes "kupl_vector_create z ok capacity elem_size name = Some (Some v)"
    and "unat capacity \<le> 2 ^ 63"
  shows "vec_inv v" and "vec_list v = []" and "unat capacity \<le> unat (v_capacity v)"
proof -
  obtain k where k: "k \<le> 63" "round_capacity 1 capacity = Some (push_bit k 1)"
    "unat capacity \<le> 2 ^ k" using round_capacity_power[OF assms(2)] .
  have cap: "unat (push_bit k (1 :: u64)) = 2 ^ k" using k(1) by (intro unat_push_bit_1) simp
  have v: "v = \<lparr>v_name = name, v_head = 0, v_tail = 0, v_capacity = push_bit k 1,
                v_elem_size = elem_size, v_data = replicate (unat (push_bit k (1 :: u64))) z\<rparr>"
    using assms(1) k(2) by (auto simp: kupl_vector_create_def simp del: push_bit_of_1
      split: if_splits)
  have dvd: "(2 :: nat) ^ k dvd 2 ^ 64" using k(1) by (intro le_imp_power_dvd) simp
  show "vec_inv v" unfolding v vec_inv_def vec_len_def kupl_vector.simps cap using dvd by simp
  show "vec_list v = []" by (simp add: v vec_list_def vec_len_def)
  show "unat capacity \<le> unat (v_capacity v)" unfolding v kupl_vector.simps cap by (rule k(3))
qed

section \<open>Correctness\<close>

text \<open>
  \<open>kupl_vector_create\<close> rounds the capacity up to a power of two and returns an empty, well
  formed vector, for every request the rounding loop can serve (at most 2 to the 63); the usable
  room is one less than the rounded capacity, so it is at least the request minus one.
\<close>

theorem vector_create_correct:
  assumes "kupl_vector_create z ok capacity elem_size name = Some (Some v)"
    and "unat capacity \<le> 2 ^ 63"
  shows "vec_inv v \<and> vec_list v = [] \<and> unat capacity - 1 \<le> vec_room v"
  using kupl_vector_create_inv[OF assms] by (simp add: vec_room_def)

lemma replicate_4: "replicate 4 x = [x, x, x, x]"
  by (simp add: numeral_eq_Suc)

theorem vector_create_correct_witness:
  "vec_inv \<lparr>v_name = ''q'', v_head = 0, v_tail = 0, v_capacity = 4, v_elem_size = 8,
             v_data = [0, 0, 0, 0 :: nat]\<rparr>"
proof -
  have "round_capacity 1 3 = Some 4" by (simp add: round_capacity.simps)
  then have "kupl_vector_create (0 :: nat) True 3 8 ''q'' =
    Some (Some \<lparr>v_name = ''q'', v_head = 0, v_tail = 0, v_capacity = 4, v_elem_size = 8,
                v_data = [0, 0, 0, 0]\<rparr>)"
    by (simp add: kupl_vector_create_def SIZE_MAX_def sizeof_kupl_vector_def replicate_4)
  from vector_create_correct[OF this] show ?thesis by simp
qed

lemma vector_push_back_macro_full:
  "vec_inv v \<Longrightarrow> vec_room v \<le> vec_len v \<Longrightarrow>
   kupl_vector_push_back_macro v x = (KUPL_ERROR, v)"
  using vec_full_iff[of v] by (simp add: kupl_vector_push_back_macro_def Let_def)

lemma vector_push_back_macro_room:
  assumes "vec_inv v" and "vec_len v < vec_room v"
  shows "fst (kupl_vector_push_back_macro v x) = KUPL_OK"
    and "vec_list (snd (kupl_vector_push_back_macro v x)) = vec_list v @ [x]"
    and "vec_inv (snd (kupl_vector_push_back_macro v x))"
    and "vec_room (snd (kupl_vector_push_back_macro v x)) = vec_room v"
  using vec_push[OF assms refl, of x] vec_full_iff[OF assms(1)] assms(2)
  by (simp_all add: kupl_vector_push_back_macro_def Let_def)

lemma vector_front_macro:
  "vec_inv v \<Longrightarrow> vec_list v \<noteq> [] \<Longrightarrow> kupl_vector_front_macro v = hd (vec_list v)"
  by (simp add: kupl_vector_front_macro_def vec_slot_head hd_conv_nth vec_list_nth
      flip: length_greater_0_conv)

text \<open>
  C20: \<open>kupl_vector_push_back\<close> appends its element to the abstract queue while there is room and
  otherwise fails and changes nothing, whatever the values of the two 64-bit counters.
\<close>

theorem vector_push_back_fifo:
  assumes "vec_inv v"
  shows "kupl_vector_push_back (Some v) (Some x) =
      (if vec_len v < vec_room v
       then (KUPL_OK, Some (snd (kupl_vector_push_back_macro v x)))
       else (KUPL_ERROR, Some v)) \<and>
    (vec_len v < vec_room v \<longrightarrow>
       vec_list (snd (kupl_vector_push_back_macro v x)) = vec_list v @ [x] \<and>
       vec_inv (snd (kupl_vector_push_back_macro v x)))"
  using vec_full_iff[OF assms] vector_push_back_macro_room[OF assms, of x]
  by (auto simp: kupl_vector_push_back_def kupl_vector_push_back_macro_def Let_def not_less)

definition wrap_vector :: "nat kupl_vector" where
  "wrap_vector = \<lparr>v_name = ''w'', v_head = -2, v_tail = 0, v_capacity = 4, v_elem_size = 8,
                  v_data = [7, 7, 5, 6]\<rparr>"

lemma wrap_vector_inv: "vec_inv wrap_vector" and wrap_vector_list: "vec_list wrap_vector = [5, 6]"
  by (simp_all add: wrap_vector_def vec_inv_def vec_len_def vec_list_def vec_slot_def
      upt_rec)

theorem vector_push_back_fifo_witness:
  "vec_list (snd (kupl_vector_push_back_macro wrap_vector 9)) = [5, 6, 9]"
proof -
  have "vec_len wrap_vector < vec_room wrap_vector"
    by (simp add: wrap_vector_def vec_len_def vec_room_def)
  then show ?thesis
    using vector_push_back_fifo[OF wrap_vector_inv, of 9] wrap_vector_list by simp
qed

text \<open>
  \<open>kupl_vector_get\<close> at an index below the size returns that element of the queue, any other
  index is refused; \<open>kupl_vector_set\<close> replaces exactly that element.
\<close>

theorem vector_get_set:
  assumes "vec_inv v"
  shows "kupl_vector_get (Some v) i =
      (if unat i < vec_len v then (KUPL_OK, Some (vec_list v ! unat i)) else (KUPL_ERROR, None)) \<and>
    (unat i < vec_len v \<longrightarrow>
      map_option vec_list (snd (kupl_vector_set (Some v) i (Some x))) =
        Some ((vec_list v)[unat i := x]))"
proof -
  have le: "kupl_vector_size (Some v) \<le> i \<longleftrightarrow> vec_len v \<le> unat i"
    by (simp add: kupl_vector_size_def word_le_nat_alt vec_len_def)
  have g: "kupl_vector_get (Some v) i =
      (if unat i < vec_len v then (KUPL_OK, Some (vec_list v ! unat i)) else (KUPL_ERROR, None))"
    using le by (simp add: kupl_vector_get_def vec_list_nth vec_slot_word[OF assms])
  have s: "map_option vec_list (snd (kupl_vector_set (Some v) i (Some x))) =
        Some ((vec_list v)[unat i := x])" if i: "unat i < vec_len v"
  proof -
    have "unat i < unat (v_capacity v)" using i assms by (simp add: vec_inv_def)
    from vec_list_write[OF assms this refl, of x] i le
    show ?thesis by (simp add: kupl_vector_set_def vec_slot_word[OF assms])
  qed
  from g s show ?thesis by simp
qed

theorem vector_get_set_witness: "kupl_vector_get (Some wrap_vector) 1 = (KUPL_OK, Some 6)"
  using vector_get_set[OF wrap_vector_inv, of 1] wrap_vector_list
  by (simp add: wrap_vector_def vec_len_def)

end
