(* ===== verification/Kupl_Taskbase.thy ===== *)
theory Kupl_Taskbase
  imports Kupl_Prelude
begin

text \<open>
  The task base of \<open>src/src/mt/kupl_taskbase.h\<close>: the part that tasks and user-level threads
  share, its flags and states, its initialisation from a user description, and its counters.
  Addresses are natural numbers (\<open>ptr\<close>); a nullable pointer is an option.
\<close>

unbundle bit_operations_syntax

type_synonym ptr = nat

definition KUPL_AGAIN :: int where "KUPL_AGAIN = -2"
definition KUPL_FINISHED :: int where "KUPL_FINISHED = -3"

definition KUPL_TB_STATE_CREATED :: u32 where "KUPL_TB_STATE_CREATED = 1"
definition KUPL_TB_STATE_INIT :: u32 where "KUPL_TB_STATE_INIT = 2"
definition KUPL_TB_STATE_READY :: u32 where "KUPL_TB_STATE_READY = 4"
definition KUPL_TB_STATE_EXECUTED :: u32 where "KUPL_TB_STATE_EXECUTED = 8"
definition KUPL_TB_STATE_FINISHED :: u32 where "KUPL_TB_STATE_FINISHED = 16"

datatype kupl_tb_type = KUPL_TB_TYPE_UNKNOW | KUPL_TB_TYPE_ULT | KUPL_TB_TYPE_TASK

definition KUPL_TB_CORE_ID_DEFAULT :: int where "KUPL_TB_CORE_ID_DEFAULT = -1"
definition KUPL_TB_EXECUTOR_ID_DEFAULT :: int where "KUPL_TB_EXECUTOR_ID_DEFAULT = -1"
definition KUPL_TB_EXECUTOR_ID_PLACE :: int where "KUPL_TB_EXECUTOR_ID_PLACE = -2"

definition KUPL_TB_FLAG_IMM :: u64 where "KUPL_TB_FLAG_IMM = 1"
definition KUPL_TB_FLAG_PRIORITY :: u64 where "KUPL_TB_FLAG_PRIORITY = 2"
definition KUPL_TB_FLAG_REUSE :: u64 where "KUPL_TB_FLAG_REUSE = 4"
definition KUPL_TB_FLAG_TRACE :: u64 where "KUPL_TB_FLAG_TRACE = 8"
definition KUPL_TB_FLAG_SCHED_STATIC :: u64 where "KUPL_TB_FLAG_SCHED_STATIC = 16"
definition KUPL_TB_FLAG_HYBRID_OUTER :: u64 where "KUPL_TB_FLAG_HYBRID_OUTER = 32"
definition KUPL_TB_FLAG_HYBRID_INNER :: u64 where "KUPL_TB_FLAG_HYBRID_INNER = 64"
definition KUPL_TB_FLAG_NOTIFY_REUSE :: u64 where "KUPL_TB_FLAG_NOTIFY_REUSE = 128"

definition KUPL_TB_DESC_FIELD_NAME :: u64 where "KUPL_TB_DESC_FIELD_NAME = 1"
definition KUPL_TB_DESC_FIELD_PRIORITY :: u64 where "KUPL_TB_DESC_FIELD_PRIORITY = 2"
definition KUPL_TB_DESC_FIELD_FLAG :: u64 where "KUPL_TB_DESC_FIELD_FLAG = 4"
definition KUPL_TB_DESC_FIELD_EGROUP :: u64 where "KUPL_TB_DESC_FIELD_EGROUP = 8"
definition KUPL_TB_DESC_FIELD_EXECUTOR_ID :: u64 where "KUPL_TB_DESC_FIELD_EXECUTOR_ID = 16"

named_theorems tb_consts \<open>the numeric values of the flags, fields and states\<close>

lemmas [tb_consts] = KUPL_AGAIN_def KUPL_FINISHED_def KUPL_TB_STATE_CREATED_def KUPL_TB_STATE_INIT_def
  KUPL_TB_STATE_READY_def KUPL_TB_STATE_EXECUTED_def KUPL_TB_STATE_FINISHED_def
  KUPL_TB_CORE_ID_DEFAULT_def KUPL_TB_EXECUTOR_ID_DEFAULT_def KUPL_TB_EXECUTOR_ID_PLACE_def
  KUPL_TB_FLAG_IMM_def KUPL_TB_FLAG_PRIORITY_def KUPL_TB_FLAG_REUSE_def KUPL_TB_FLAG_TRACE_def
  KUPL_TB_FLAG_SCHED_STATIC_def KUPL_TB_FLAG_HYBRID_OUTER_def KUPL_TB_FLAG_HYBRID_INNER_def
  KUPL_TB_FLAG_NOTIFY_REUSE_def KUPL_TB_DESC_FIELD_NAME_def KUPL_TB_DESC_FIELD_PRIORITY_def
  KUPL_TB_DESC_FIELD_FLAG_def KUPL_TB_DESC_FIELD_EGROUP_def KUPL_TB_DESC_FIELD_EXECUTOR_ID_def

text \<open>
  The union \<open>graph/sgraph\<close> is one pointer \<open>tb_graph\<close>.  The operation table is determined by
  the type, and the counter \<open>tb_count\<close> is the address of a graph's counter.
\<close>

record kupl_taskbase =
  tb_type :: kupl_tb_type
  tb_name :: "string option"
  tb_id :: nat
  tb_graph :: "ptr option"
  tb_egroup :: "ptr option"
  tb_func :: "ptr option"
  tb_args :: "ptr option"
  tb_priority :: int
  tb_core_id :: int
  tb_executor_id :: int
  tb_flag :: u64
  tb_cp :: nat
  tb_ref :: int
  tb_state :: u32
  tb_count :: "ptr option"

record kupl_tb_desc =
  td_field_mask :: u64
  td_func :: "ptr option"
  td_args :: "ptr option"
  td_name :: string
  td_priority :: int
  td_flag :: u32
  td_executor_id :: int
  td_egroup :: "ptr option"

record kupl_tb_param =
  tp_type :: kupl_tb_type
  tp_user_desc :: kupl_tb_desc
  tp_graph :: "ptr option"
  tp_count :: "ptr option"

text \<open>
  \<open>kupl_tb_init\<close>.  \<open>cp\<close> is the compute place of the calling executor's core, a value the
  executor backend computes.  Every field that the function does not write keeps its value
  (\<open>tb_priority\<close> too, when the priority field is not enabled).  The trace flag belongs to the
  optional build \<open>ENABLE_KUPL_TRACE\<close> and is left out.
\<close>

definition kupl_tb_init :: "kupl_taskbase \<Rightarrow> kupl_tb_param \<Rightarrow> nat \<Rightarrow> kupl_taskbase" where
  "kupl_tb_init tb param cp =
     (let d = tp_user_desc param;
          tb = tb\<lparr>tb_type := tp_type param,
                  tb_graph := tp_graph param,
                  tb_core_id := KUPL_TB_CORE_ID_DEFAULT,
                  tb_cp := cp,
                  tb_count := tp_count param,
                  tb_func := td_func d,
                  tb_args := td_args d,
                  tb_executor_id := (if td_field_mask d AND KUPL_TB_DESC_FIELD_EXECUTOR_ID \<noteq> 0
                                     then td_executor_id d else KUPL_TB_EXECUTOR_ID_DEFAULT),
                  tb_flag := (if td_field_mask d AND KUPL_TB_DESC_FIELD_FLAG \<noteq> 0
                              then ucast (td_flag d) else 0),
                  tb_name := (if td_field_mask d AND KUPL_TB_DESC_FIELD_NAME \<noteq> 0
                              then Some (td_name d) else None),
                  tb_egroup := (if td_field_mask d AND KUPL_TB_DESC_FIELD_EGROUP \<noteq> 0
                                then td_egroup d else None)\<rparr>
      in if td_field_mask d AND KUPL_TB_DESC_FIELD_PRIORITY \<noteq> 0
         then tb\<lparr>tb_flag := tb_flag tb OR KUPL_TB_FLAG_PRIORITY, tb_priority := td_priority d\<rparr>
         else tb)"

definition kupl_tb_is_finished :: "kupl_taskbase \<Rightarrow> bool" where
  "kupl_tb_is_finished tb \<longleftrightarrow> tb_state tb AND KUPL_TB_STATE_FINISHED \<noteq> 0"

text \<open>The counters are atomic 32-bit words, one per counter address.\<close>

definition kupl_tb_count_add :: "(ptr \<Rightarrow> u32) \<Rightarrow> kupl_taskbase \<Rightarrow> (ptr \<Rightarrow> u32)" where
  "kupl_tb_count_add counts tb =
     (case tb_count tb of None \<Rightarrow> counts | Some c \<Rightarrow> counts(c := counts c + 1))"

definition kupl_tb_count_sub :: "(ptr \<Rightarrow> u32) \<Rightarrow> kupl_taskbase \<Rightarrow> (ptr \<Rightarrow> u32)" where
  "kupl_tb_count_sub counts tb =
     (case tb_count tb of None \<Rightarrow> counts | Some c \<Rightarrow> counts(c := counts c - 1))"

definition kupl_tb_test :: "kupl_taskbase option \<Rightarrow> int" where
  "kupl_tb_test tb =
     (case tb of
        None \<Rightarrow> KUPL_ERROR
      | Some t \<Rightarrow> if kupl_tb_is_finished t then KUPL_OK else KUPL_AGAIN)"

section \<open>Facts\<close>

lemma kupl_tb_init_frame [simp]:
  "tb_ref (kupl_tb_init tb p cp) = tb_ref tb" "tb_state (kupl_tb_init tb p cp) = tb_state tb"
  "tb_graph (kupl_tb_init tb p cp) = tp_graph p" "tb_count (kupl_tb_init tb p cp) = tp_count p"
  "tb_type (kupl_tb_init tb p cp) = tp_type p" "tb_id (kupl_tb_init tb p cp) = tb_id tb"
  by (simp_all add: kupl_tb_init_def Let_def)

text \<open>Setting the finished bit makes a task finished, and it stays finished under any \<open>OR\<close>.\<close>

lemma finished_bit: "kupl_tb_is_finished tb \<longleftrightarrow> bit (tb_state tb) 4"
  using and_exp_eq_0_iff_not_bit[of "tb_state tb" 4]
  by (simp add: kupl_tb_is_finished_def KUPL_TB_STATE_FINISHED_def)

lemma count_add_sub: "kupl_tb_count_sub (kupl_tb_count_add counts tb) tb = counts"
  by (auto simp: kupl_tb_count_add_def kupl_tb_count_sub_def split: option.splits)

end
