(* ===== verification/Kupl_Sched_Queue.thy ===== *)
theory Kupl_Sched_Queue
  imports Kupl_Vector Kupl_Taskbase
begin

text \<open>
  The queues that the scheduler plugins are built from: the \<open>queue_t\<close> of the plugins \<open>mq\<close>,
  \<open>static_mq\<close> and \<open>expand_static_mq\<close> (three textually equal copies), and the shared priority
  queue of \<open>plugin/kupl_sched_plugin_api.h\<close>, in which a ring buffer receives the tasks and the
  consumers move them into a \<open>std::priority_queue\<close>.

  The spin locks of the queues serialise the producers among themselves and the consumers among
  themselves, so an operation is one atomic step here.  Creation takes the outcomes of its
  allocations as a list, in the order in which the code makes them.
\<close>

section \<open>A bounded FIFO queue as an interface\<close>

locale fifo =
  fixes enq :: "'q \<Rightarrow> 'a \<Rightarrow> int \<times> 'q"
    and deq :: "'q \<Rightarrow> 'a option \<times> 'q"
    and cont :: "'q \<Rightarrow> 'a list"
    and room :: "'q \<Rightarrow> nat"
    and qinv :: "'q \<Rightarrow> bool"
  assumes enq_room: "qinv q \<Longrightarrow> length (cont q) < room q \<Longrightarrow> fst (enq q x) = KUPL_OK"
    and enq_cont: "qinv q \<Longrightarrow> length (cont q) < room q \<Longrightarrow> cont (snd (enq q x)) = cont q @ [x]"
    and enq_full: "qinv q \<Longrightarrow> room q \<le> length (cont q) \<Longrightarrow> enq q x = (KUPL_ERROR, q)"
    and enq_inv: "qinv q \<Longrightarrow> qinv (snd (enq q x))"
    and enq_cap: "qinv q \<Longrightarrow> room (snd (enq q x)) = room q"
    and deq_empty: "qinv q \<Longrightarrow> cont q = [] \<Longrightarrow> deq q = (None, q)"
    and deq_first: "qinv q \<Longrightarrow> cont q \<noteq> [] \<Longrightarrow> fst (deq q) = Some (hd (cont q))"
    and deq_cont: "qinv q \<Longrightarrow> cont q \<noteq> [] \<Longrightarrow> cont (snd (deq q)) = tl (cont q)"
    and deq_inv: "qinv q \<Longrightarrow> qinv (snd (deq q))"
    and deq_cap: "qinv q \<Longrightarrow> room (snd (deq q)) = room q"
begin

text \<open>What an operation does to the multiset of the queued elements.\<close>

lemma enq_mset:
  assumes "qinv q"
  shows "fst (enq q x) = KUPL_OK \<and> mset (cont (snd (enq q x))) = add_mset x (mset (cont q)) \<or>
         enq q x = (KUPL_ERROR, q)"
  using assms enq_room enq_cont enq_full by (cases "length (cont q) < room q") auto

lemma deq_mset:
  assumes "qinv q"
  shows "mset (cont q) = (case fst (deq q) of None \<Rightarrow> {#} | Some x \<Rightarrow> {#x#}) +
                         mset (cont (snd (deq q)))"
proof (cases "cont q = []")
  case True
  then show ?thesis using assms by (simp add: deq_empty)
next
  case False
  then have "mset (cont q) = add_mset (hd (cont q)) (mset (tl (cont q)))"
    by (cases "cont q") simp_all
  with False show ?thesis using assms by (simp add: deq_first deq_cont)
qed

lemma deq_None: "qinv q \<Longrightarrow> fst (deq q) = None \<longleftrightarrow> cont q = []"
  using deq_empty deq_first by (cases "cont q = []") auto

end

text \<open>A run of operations: \<open>Inl x\<close> adds, \<open>Inr ()\<close> takes; the result is what was taken.\<close>

fun fifo_run :: "('q \<Rightarrow> 'a \<Rightarrow> int \<times> 'q) \<Rightarrow> ('q \<Rightarrow> 'a option \<times> 'q) \<Rightarrow>
    'q \<Rightarrow> ('a + unit) list \<Rightarrow> 'a list \<times> 'a list \<times> 'q" where
  "fifo_run enq deq q [] = ([], [], q)"
| "fifo_run enq deq q (Inl x # ops) =
     (let (r, q') = enq q x; (ins, outs, q'') = fifo_run enq deq q' ops
      in (if r = KUPL_OK then x # ins else ins, outs, q''))"
| "fifo_run enq deq q (Inr u # ops) =
     (let (r, q') = deq q; (ins, outs, q'') = fifo_run enq deq q' ops
      in (ins, (case r of None \<Rightarrow> outs | Some x \<Rightarrow> x # outs), q''))"

context fifo
begin

text \<open>
  Over any run, what was taken followed by what is left is what was there followed by what was
  accepted: nothing is lost, duplicated or reordered.
\<close>

lemma run_order:
  "qinv q \<Longrightarrow> fifo_run enq deq q ops = (ins, outs, q') \<Longrightarrow>
   cont q @ ins = outs @ cont q' \<and> qinv q'"
proof (induction ops arbitrary: q ins outs q')
  case Nil
  then show ?case by simp
next
  case (Cons a ops)
  show ?case
  proof (cases a)
    case (Inl x)
    obtain r q1 where e: "enq q x = (r, q1)" by fastforce
    obtain i o' q2 where f: "fifo_run enq deq q1 ops = (i, o', q2)" by (metis prod_cases3)
    have inv1: "qinv q1" using enq_inv[of q x] Cons.prems e by simp
    have "r = KUPL_OK \<and> cont q1 = cont q @ [x] \<or> r = KUPL_ERROR \<and> q1 = q"
      using enq_room[of q x] enq_cont[of q x] enq_full[of q x] Cons.prems e
      by (cases "length (cont q) < room q") auto
    then show ?thesis using Cons.IH[OF inv1 f] Cons.prems(2) Inl e f by auto
  next
    case (Inr u)
    obtain r q1 where e: "deq q = (r, q1)" by fastforce
    obtain i o' q2 where f: "fifo_run enq deq q1 ops = (i, o', q2)" by (metis prod_cases3)
    have inv1: "qinv q1" using deq_inv[of q] Cons.prems e by simp
    have "r = None \<and> cont q = [] \<and> q1 = q \<or> (\<exists>x. r = Some x \<and> cont q = x # cont q1)"
      using deq_empty[of q] deq_first[of q] deq_cont[of q] Cons.prems e by (cases "cont q") auto
    then show ?thesis using Cons.IH[OF inv1 f] Cons.prems(2) Inr e f by auto
  qed
qed

end

section \<open>The queues of the plugins\<close>

type_synonym queue_t = "ptr kupl_vector"

text \<open>
  \<open>queue_create\<close>: the descriptor, the vector and the two locks.  If one of them is missing the
  rest is destroyed and a null pointer is returned.
\<close>

definition queue_create :: "bool list \<Rightarrow> int \<Rightarrow> queue_t option option" where
  "queue_create ok sz =
     (if \<not> ok ! 0 then Some None
      else (case kupl_vector_create 0 (ok ! 1) (word_of_int sz) 8 ''sched static_mq queue'' of
          None \<Rightarrow> None
        | Some q \<Rightarrow> if q = None \<or> \<not> ok ! 2 \<or> \<not> ok ! 3 then Some None else Some q))"

definition queue_add_tb :: "queue_t option \<Rightarrow> ptr \<Rightarrow> int \<times> queue_t option" where
  "queue_add_tb queue tb =
     (case queue of
        None \<Rightarrow> (KUPL_ERROR, None)
      | Some q \<Rightarrow> map_prod id Some (kupl_vector_push_back_macro q tb))"

definition queue_get_tb :: "queue_t option \<Rightarrow> ptr option \<times> queue_t option" where
  "queue_get_tb queue =
     (case queue of
        None \<Rightarrow> (None, None)
      | Some q \<Rightarrow>
          if \<not> kupl_vector_empty_macro q
          then (Some (kupl_vector_front_macro q), Some (kupl_vector_pop_front_macro q))
          else (None, Some q))"

definition queue_cont :: "queue_t option \<Rightarrow> ptr list" where
  "queue_cont queue = (case queue of None \<Rightarrow> [] | Some q \<Rightarrow> vec_list q)"

definition queue_room :: "queue_t option \<Rightarrow> nat" where
  "queue_room queue = (case queue of None \<Rightarrow> 0 | Some q \<Rightarrow> vec_room q)"

definition queue_inv :: "queue_t option \<Rightarrow> bool" where
  "queue_inv queue \<longleftrightarrow> (\<forall>q. queue = Some q \<longrightarrow> vec_inv q)"

text \<open>A null queue is the queue of room zero, which the checks of the code treat it as.\<close>

interpretation tbq: fifo queue_add_tb queue_get_tb queue_cont queue_room queue_inv
proof
  fix q :: "queue_t option" and x
  assume inv: "queue_inv q"
  show "fst (queue_add_tb q x) = KUPL_OK"
    and "queue_cont (snd (queue_add_tb q x)) = queue_cont q @ [x]"
    if "length (queue_cont q) < queue_room q"
    using that inv vector_push_back_macro_room(1,2)[of _ x]
    by (auto simp: queue_add_tb_def queue_cont_def queue_room_def queue_inv_def split: option.splits)
  show "queue_add_tb q x = (KUPL_ERROR, q)" if "queue_room q \<le> length (queue_cont q)"
    using that inv vector_push_back_macro_full[of _ x]
    by (auto simp: queue_add_tb_def queue_cont_def queue_room_def queue_inv_def split: option.splits)
  show "queue_inv (snd (queue_add_tb q x))"
    and "queue_room (snd (queue_add_tb q x)) = queue_room q"
    using inv vector_push_back_macro_room(3,4)[of _ x] vector_push_back_macro_full[of _ x]
    by (auto simp: queue_add_tb_def queue_inv_def queue_room_def split: option.splits)
       (metis not_le snd_conv)+
  show "queue_get_tb q = (None, q)" if "queue_cont q = []"
    using that by (auto simp: queue_get_tb_def queue_cont_def kupl_vector_empty_macro_def
        vec_empty_iff split: option.splits)
  show "fst (queue_get_tb q) = Some (hd (queue_cont q))"
    and "queue_cont (snd (queue_get_tb q)) = tl (queue_cont q)" if "queue_cont q \<noteq> []"
    using that inv vector_front_macro vec_pop(1)[OF _ _ refl]
    by (auto simp: queue_get_tb_def queue_cont_def queue_inv_def kupl_vector_empty_macro_def
        vec_empty_iff kupl_vector_pop_front_macro_def split: option.splits)
  show "queue_inv (snd (queue_get_tb q))"
    and "queue_room (snd (queue_get_tb q)) = queue_room q"
    using inv vec_pop(2,3)[OF _ _ refl]
    by (auto simp: queue_get_tb_def queue_inv_def queue_room_def kupl_vector_empty_macro_def
        vec_empty_iff kupl_vector_pop_front_macro_def split: option.splits)
qed

section \<open>The priority queue\<close>

text \<open>
  \<open>pq_q\<close> is the content of the \<open>std::priority_queue\<close>, in insertion order.  Its \<open>top\<close> is an
  element of greatest priority; the standard leaves open which one, and the model takes the
  earliest inserted.  No statement below depends on that choice.  The argument \<open>prio\<close> reads the
  priority field of a task.
\<close>

record priority_queue =
  pq_q :: "ptr list"
  pq_spsc :: "ptr kupl_vector"
  pq_tb_cnt :: int
  pq_size :: int

fun pq_top :: "(ptr \<Rightarrow> int) \<Rightarrow> ptr list \<Rightarrow> ptr" where
  "pq_top prio [] = 0"
| "pq_top prio [x] = x"
| "pq_top prio (x # xs) = (let m = pq_top prio xs in if prio x < prio m then m else x)"

definition priority_queue_create :: "bool list \<Rightarrow> int \<Rightarrow> priority_queue option option" where
  "priority_queue_create ok sz =
     (if \<not> ok ! 0 then Some None
      else (case kupl_vector_create 0 (ok ! 2) (word_of_int sz) 8 ''sched mq priority queue'' of
          None \<Rightarrow> None
        | Some None \<Rightarrow> Some None
        | Some (Some spsc) \<Rightarrow>
            if \<not> ok ! 1 \<or> \<not> ok ! 3 \<or> \<not> ok ! 4 then Some None
            else Some (Some \<lparr>pq_q = [], pq_spsc = spsc, pq_tb_cnt = 0, pq_size = sz\<rparr>)))"

definition priority_queue_add_tb ::
  "priority_queue option \<Rightarrow> ptr \<Rightarrow> int \<times> priority_queue option" where
  "priority_queue_add_tb queue tb =
     (case queue of
        None \<Rightarrow> (KUPL_ERROR, None)
      | Some q \<Rightarrow> (let (err, spsc) = kupl_vector_push_back_macro (pq_spsc q) tb
                   in (err, Some (q\<lparr>pq_spsc := spsc\<rparr>))))"

text \<open>The loop that moves tasks from the ring buffer into the ordered queue.\<close>

lemma pop_front_measure:
  "v_head v \<noteq> v_tail v \<Longrightarrow> vec_len (kupl_vector_pop_front_macro v) < vec_len v"
proof -
  assume "v_head v \<noteq> v_tail v"
  then have "v_tail v - v_head v \<noteq> 0" by simp
  then have "unat (v_tail v - v_head v - 1) < unat (v_tail v - v_head v)"
    using unat_minus_one[of "v_tail v - v_head v"] unat_gt_0[of "v_tail v - v_head v"] by linarith
  then show ?thesis
    by (simp add: vec_len_def kupl_vector_pop_front_macro_def algebra_simps)
qed

function pq_drain :: "priority_queue \<Rightarrow> priority_queue" where
  "pq_drain q =
     (if \<not> kupl_vector_empty_macro (pq_spsc q)
      then if int (length (pq_q q)) \<ge> pq_size q then q
           else pq_drain (q\<lparr>pq_q := pq_q q @ [kupl_vector_front_macro (pq_spsc q)],
                           pq_spsc := kupl_vector_pop_front_macro (pq_spsc q)\<rparr>)
      else q)"
  by pat_completeness auto
termination
  by (relation "measure (\<lambda>q. vec_len (pq_spsc q))")
     (auto simp: kupl_vector_empty_macro_def pop_front_measure)

declare pq_drain.simps [simp del]

definition priority_queue_get_tb ::
  "(ptr \<Rightarrow> int) \<Rightarrow> priority_queue option \<Rightarrow> ptr option \<times> priority_queue option" where
  "priority_queue_get_tb prio queue =
     (case queue of
        None \<Rightarrow> (None, None)
      | Some q \<Rightarrow>
          if pq_tb_cnt q \<le> 0 \<and> kupl_vector_empty_macro (pq_spsc q) then (None, Some q)
          else
            (let q = pq_drain q;
                 (tb, rest) = (if pq_q q \<noteq> []
                               then (Some (pq_top prio (pq_q q)),
                                     remove1 (pq_top prio (pq_q q)) (pq_q q))
                               else (None, pq_q q))
             in (tb, Some (q\<lparr>pq_q := rest, pq_tb_cnt := int (length rest)\<rparr>))))"

definition pq_inv :: "priority_queue \<Rightarrow> bool" where
  "pq_inv q \<longleftrightarrow> vec_inv (pq_spsc q) \<and> pq_tb_cnt q = int (length (pq_q q)) \<and> 0 < pq_size q"

definition pq_pending :: "priority_queue \<Rightarrow> ptr multiset" where
  "pq_pending q = mset (pq_q q) + mset (vec_list (pq_spsc q))"

lemma pq_top_in: "xs \<noteq> [] \<Longrightarrow> pq_top prio xs \<in> set xs"
  by (induction prio xs rule: pq_top.induct) (auto simp: Let_def)

lemma pq_top_max: "x \<in> set xs \<Longrightarrow> prio x \<le> prio (pq_top prio xs)"
  by (induction prio xs rule: pq_top.induct) (auto simp: Let_def)

text \<open>The drain moves a prefix of the ring buffer: all of it, unless the bound is reached.\<close>

lemma pq_drain_spec:
  "vec_inv (pq_spsc q) \<Longrightarrow>
   \<exists>n. pq_q (pq_drain q) = pq_q q @ take n (vec_list (pq_spsc q)) \<and>
       vec_list (pq_spsc (pq_drain q)) = drop n (vec_list (pq_spsc q)) \<and>
       vec_inv (pq_spsc (pq_drain q)) \<and> pq_size (pq_drain q) = pq_size q \<and>
       n = min (vec_len (pq_spsc q)) (nat (pq_size q) - length (pq_q q))"
proof (induction q rule: pq_drain.induct)
  case (1 q)
  let ?v = "pq_spsc q"
  show ?case
  proof (cases "v_head ?v = v_tail ?v \<or> int (length (pq_q q)) \<ge> pq_size q")
    case True
    moreover have "v_head ?v = v_tail ?v \<Longrightarrow> vec_len ?v = 0" by (simp add: vec_len_def)
    ultimately show ?thesis
      using 1(2) by (auto simp: pq_drain.simps[of q] kupl_vector_empty_macro_def)
  next
    case False
    let ?w = "kupl_vector_pop_front_macro ?v"
    let ?q = "q\<lparr>pq_q := pq_q q @ [kupl_vector_front_macro ?v], pq_spsc := ?w\<rparr>"
    have ne: "vec_list ?v \<noteq> []" using False by (simp add: vec_empty_iff)
    note pop = vec_pop[OF 1(2) ne, of ?w, unfolded kupl_vector_pop_front_macro_def, OF refl]
    have w: "vec_list ?w = tl (vec_list ?v)" "vec_inv ?w"
      using pop by (simp_all add: kupl_vector_pop_front_macro_def)
    have len: "vec_len ?w = vec_len ?v - 1" by (metis length_tl length_vec_list w(1))
    have lpos: "0 < vec_len ?v" using ne by (metis length_greater_0_conv length_vec_list)
    obtain n where n: "pq_q (pq_drain ?q) = pq_q ?q @ take n (vec_list ?w)"
      "vec_list (pq_spsc (pq_drain ?q)) = drop n (vec_list ?w)"
      "vec_inv (pq_spsc (pq_drain ?q))" "pq_size (pq_drain ?q) = pq_size q"
      "n = min (vec_len ?w) (nat (pq_size q) - length (pq_q ?q))"
      using 1(1) False w by (auto simp: kupl_vector_empty_macro_def)
    have eq: "pq_drain q = pq_drain ?q"
      using False by (subst pq_drain.simps) (simp add: kupl_vector_empty_macro_def)
    have hd: "kupl_vector_front_macro ?v = hd (vec_list ?v)"
      by (rule vector_front_macro[OF 1(2) ne])
    have "Suc n = min (vec_len ?v) (nat (pq_size q) - length (pq_q q))"
      using n(5) False lpos len by (simp add: min_def) linarith
    moreover have "pq_q (pq_drain q) = pq_q q @ take (Suc n) (vec_list ?v)"
      using n(1) eq hd w ne by (cases "vec_list ?v") auto
    moreover have "vec_list (pq_spsc (pq_drain q)) = drop (Suc n) (vec_list ?v)"
      using n(2) eq w ne by (cases "vec_list ?v") auto
    ultimately show ?thesis using n(3,4) eq by (intro exI[of _ "Suc n"]) simp
  qed
qed

text \<open>What a get does, written out: drain, then take the top of the drained queue.\<close>

lemma priority_queue_get_cases:
  assumes inv: "pq_inv q"
  obtains
    (empty) "pq_pending q = {#}" "priority_queue_get_tb prio (Some q) = (None, Some q)"
  | (take) d t q' where "d = pq_drain q" "pq_q d \<noteq> []" "t = pq_top prio (pq_q d)"
      "priority_queue_get_tb prio (Some q) = (Some t, Some q')"
      "q' = d\<lparr>pq_q := remove1 t (pq_q d), pq_tb_cnt := int (length (remove1 t (pq_q d)))\<rparr>"
      "pq_pending q = mset (pq_q d) + mset (vec_list (pq_spsc d))"
      "vec_inv (pq_spsc d)" "pq_size d = pq_size q"
      "set (pq_q d) \<supseteq> set (take (nat (pq_size q)) (pq_q q @ vec_list (pq_spsc q)))"
proof (cases "pq_tb_cnt q \<le> 0 \<and> kupl_vector_empty_macro (pq_spsc q)")
  case True
  then have "pq_pending q = {#}"
    using inv by (simp add: pq_pending_def pq_inv_def kupl_vector_empty_macro_def vec_empty_iff)
  with True show ?thesis by (intro empty) (simp_all add: priority_queue_get_tb_def)
next
  case False
  let ?d = "pq_drain q" and ?l = "vec_list (pq_spsc q)"
  obtain n where n: "pq_q ?d = pq_q q @ take n ?l" "vec_list (pq_spsc ?d) = drop n ?l"
    "vec_inv (pq_spsc ?d)" "pq_size ?d = pq_size q"
    "n = min (vec_len (pq_spsc q)) (nat (pq_size q) - length (pq_q q))"
    using pq_drain_spec[of q] inv by (auto simp: pq_inv_def)
  have ne: "pq_q ?d \<noteq> []"
  proof (cases "pq_q q")
    case Nil
    then have "?l \<noteq> []"
      using False inv by (simp add: pq_inv_def kupl_vector_empty_macro_def vec_empty_iff)
    then have "0 < n" using n(5) Nil inv by (simp add: pq_inv_def flip: length_greater_0_conv)
    then show ?thesis using n(1) \<open>?l \<noteq> []\<close> by simp
  qed (simp add: n(1))
  have "mset (take n ?l) + mset (drop n ?l) = mset ?l" by (metis append_take_drop_id mset_append)
  then have pend: "pq_pending q = mset (pq_q ?d) + mset (vec_list (pq_spsc ?d))"
    by (simp add: pq_pending_def n(1,2) union_assoc)
  have "set (take (nat (pq_size q)) (pq_q q @ ?l)) \<subseteq> set (pq_q ?d)"
    using n(1,5) by (auto simp: min_def dest: in_set_takeD)
  with False ne pend n(3,4) show ?thesis
    by (intro take[of ?d "pq_top prio (pq_q ?d)"]) (simp_all add: priority_queue_get_tb_def Let_def)
qed

lemma pq_get_conserves:
  assumes "pq_inv q" and "priority_queue_get_tb prio (Some q) = (r, Some q')"
  shows "pq_pending q = (case r of None \<Rightarrow> {#} | Some t \<Rightarrow> {#t#}) + pq_pending q' \<and> pq_inv q'"
    and "r = None \<longleftrightarrow> pq_pending q = {#}"
proof -
  have "pq_pending q = (case r of None \<Rightarrow> {#} | Some t \<Rightarrow> {#t#}) + pq_pending q' \<and> pq_inv q' \<and>
        (r = None \<longleftrightarrow> pq_pending q = {#})"
    using assms(1)
  proof (cases rule: priority_queue_get_cases[where prio = prio])
    case empty
    then show ?thesis using assms by simp
  next
    case (take d t p)
    have "t \<in> set (pq_q d)" using take(2,3) by (simp add: pq_top_in)
    then have "mset (pq_q d) = add_mset t (mset (remove1 t (pq_q d)))" by simp
    then show ?thesis
      using take assms by (auto simp: pq_pending_def pq_inv_def)
  qed
  then show "pq_pending q = (case r of None \<Rightarrow> {#} | Some t \<Rightarrow> {#t#}) + pq_pending q' \<and> pq_inv q'"
    and "r = None \<longleftrightarrow> pq_pending q = {#}" by auto
qed

text \<open>
  \<open>priority_queue_get_tb\<close> neither loses nor invents a task: it returns nothing exactly when
  nothing is pending, and otherwise the task it returns is removed once from what was pending.
\<close>

theorem priority_queue_get_conserves:
  assumes "pq_inv q" and "priority_queue_get_tb prio (Some q) = (r, Some q')"
  shows "pq_pending q = (case r of None \<Rightarrow> {#} | Some t \<Rightarrow> {#t#}) + pq_pending q' \<and>
         (r = None \<longleftrightarrow> pq_pending q = {#}) \<and> pq_inv q'"
  using pq_get_conserves[OF assms] by blast

definition pq_example :: priority_queue where
  "pq_example = \<lparr>pq_q = [3], pq_spsc = wrap_vector, pq_tb_cnt = 1, pq_size = 4\<rparr>"

lemma pq_example_inv: "pq_inv pq_example"
  using wrap_vector_inv by (simp add: pq_example_def pq_inv_def)

lemma pq_example_get:
  "fst (priority_queue_get_tb int (Some pq_example)) = Some 6"
  by (simp add: pq_example_def priority_queue_get_tb_def wrap_vector_def pq_drain.simps
      kupl_vector_empty_macro_def kupl_vector_front_macro_def kupl_vector_pop_front_macro_def)

theorem priority_queue_get_conserves_witness:
  "\<exists>q'. pq_pending pq_example = {#6#} + pq_pending q'"
proof -
  obtain q' where "priority_queue_get_tb int (Some pq_example) = (Some 6, Some q')"
    using pq_example_get pq_example_inv
    by (cases rule: priority_queue_get_cases[OF pq_example_inv, where prio = int]) auto
  from priority_queue_get_conserves[OF pq_example_inv this] show ?thesis by auto
qed

text \<open>
  The task that \<open>priority_queue_get_tb\<close> returns has the greatest priority of all pending tasks,
  whenever the pending tasks fit the bound of the ordered queue; in general, the greatest of the
  first \<open>pq_size\<close> of them.
\<close>

theorem priority_queue_get_greatest:
  assumes "pq_inv q" and "priority_queue_get_tb prio (Some q) = (Some t, Some q')"
    and "u \<in> set (take (nat (pq_size q)) (pq_q q @ vec_list (pq_spsc q)))"
  shows "prio u \<le> prio t"
  using assms(1)
proof (cases rule: priority_queue_get_cases[where prio = prio])
  case empty
  then show ?thesis using assms by simp
next
  case (take d s p)
  then have "t = pq_top prio (pq_q d)" "u \<in> set (pq_q d)" using assms by auto
  then show ?thesis by (simp add: pq_top_max)
qed

theorem priority_queue_get_greatest_witness: "int 5 \<le> int 6"
proof -
  obtain q' where "priority_queue_get_tb int (Some pq_example) = (Some 6, Some q')"
    using pq_example_get pq_example_inv
    by (cases rule: priority_queue_get_cases[OF pq_example_inv, where prio = int]) auto
  from priority_queue_get_greatest[OF pq_example_inv this, of 5] show ?thesis
    by (simp add: pq_example_def wrap_vector_list)
qed

end
