(* ===== verification/Kupl_Sched_Plugin.thy ===== *)
theory Kupl_Sched_Plugin
  imports Kupl_Sched_Queue
begin

text \<open>
  The scheduler plugins \<open>static_mq\<close>, \<open>expand_static_mq\<close> and \<open>mq\<close> of
  \<open>src/src/mt/scheduler/plugin\<close>, and the contract that a plugin gives the scheduler.

  A task is an address; \<open>tbs\<close> reads its task base.  \<open>geid\<close> is the executor number of the calling
  thread (\<open>-1\<close> for a thread that the library does not manage) and \<open>ep\<close> the option
  \<open>KUPL_ENABLE_PRIORITY\<close>.  An access of \<open>queues[eid]\<close> outside the array is undefined behaviour:
  the operation is \<open>None\<close> there.
\<close>

definition KUPL_EIDCID_INIT :: int where "KUPL_EIDCID_INIT = -1"

definition at_queue :: "'q list \<Rightarrow> int \<Rightarrow> 'q option" where
  "at_queue qs i = (if 0 \<le> i \<and> i < int (length qs) then Some (qs ! nat i) else None)"

section \<open>The contract of a plugin\<close>

text \<open>
  \<open>accepts\<close> says which tasks may be given to the plugin and \<open>serves\<close> which threads may call it.
  A call that returns keeps the invariant, changes the pending tasks by exactly the task it
  accepted or handed out, and leaves them alone when it fails or returns nothing.
\<close>

locale sched_plugin =
  fixes add :: "int \<Rightarrow> 's \<Rightarrow> ptr \<Rightarrow> (int \<times> 's) option"
    and get :: "int \<Rightarrow> 's \<Rightarrow> (ptr option \<times> 's) option"
    and pending :: "'s \<Rightarrow> ptr multiset"
    and sinv :: "'s \<Rightarrow> bool"
  assumes add_inv: "sinv s \<Longrightarrow> add g s t = Some (r, s') \<Longrightarrow> sinv s'"
    and add_pending: "sinv s \<Longrightarrow> add g s t = Some (r, s') \<Longrightarrow>
      pending s' = (if r = KUPL_OK then add_mset t (pending s) else pending s)"
    and get_inv: "sinv s \<Longrightarrow> get g s = Some (x, s') \<Longrightarrow> sinv s'"
    and get_pending: "sinv s \<Longrightarrow> get g s = Some (x, s') \<Longrightarrow>
      pending s = (case x of None \<Rightarrow> {#} | Some t \<Rightarrow> {#t#}) + pending s'"

text \<open>A run of calls: the tasks that were accepted, those handed out, and the final state.\<close>

datatype sched_call = Add int ptr | Get int

fun sched_run :: "(int \<Rightarrow> 's \<Rightarrow> ptr \<Rightarrow> (int \<times> 's) option) \<Rightarrow>
    (int \<Rightarrow> 's \<Rightarrow> (ptr option \<times> 's) option) \<Rightarrow> 's \<Rightarrow> sched_call list \<Rightarrow>
    (ptr multiset \<times> ptr multiset \<times> 's) option" where
  "sched_run add get s [] = Some ({#}, {#}, s)"
| "sched_run add get s (Add g t # cs) =
     (case add g s t of
        None \<Rightarrow> None
      | Some (r, s') \<Rightarrow> map_option (\<lambda>(i, j, u). (if r = KUPL_OK then add_mset t i else i, j, u))
                        (sched_run add get s' cs))"
| "sched_run add get s (Get g # cs) =
     (case get g s of
        None \<Rightarrow> None
      | Some (x, s') \<Rightarrow>
          map_option (\<lambda>(i, j, u). (i, (case x of None \<Rightarrow> {#} | Some t \<Rightarrow> {#t#}) + j, u))
            (sched_run add get s' cs))"

context sched_plugin
begin

lemma run_conserves:
  "sinv s \<Longrightarrow> sched_run add get s cs = Some (i, j, s') \<Longrightarrow>
   pending s + i = j + pending s' \<and> sinv s'"
proof (induction cs arbitrary: s i j)
  case Nil
  then show ?case by simp
next
  case (Cons c cs)
  show ?case
  proof (cases c)
    case (Add g t)
    with Cons.prems obtain r u i' where u: "add g s t = Some (r, u)"
      "sched_run add get u cs = Some (i', j, s')" "i = (if r = KUPL_OK then add_mset t i' else i')"
      by (auto split: option.splits)
    have "pending u + i' = j + pending s' \<and> sinv s'"
      by (rule Cons.IH[OF add_inv[OF Cons.prems(1) u(1)] u(2)])
    then show ?thesis using add_pending[OF Cons.prems(1) u(1)] u(3) by (auto split: if_splits)
  next
    case (Get g)
    with Cons.prems obtain x u j' where u: "get g s = Some (x, u)"
      "sched_run add get u cs = Some (i, j', s')"
      "j = (case x of None \<Rightarrow> {#} | Some t \<Rightarrow> {#t#}) + j'"
      by (auto split: option.splits)
    have "pending u + i = j' + pending s' \<and> sinv s'"
      by (rule Cons.IH[OF get_inv[OF Cons.prems(1) u(1)] u(2)])
    then show ?thesis using get_pending[OF Cons.prems(1) u(1)] u(3)
      by (auto simp: union_assoc split: option.splits)
  qed
qed

end

section \<open>Priority queues in a plugin\<close>

definition opq_pending :: "priority_queue option \<Rightarrow> ptr multiset" where
  "opq_pending p = (case p of None \<Rightarrow> {#} | Some q \<Rightarrow> pq_pending q)"

definition opq_inv :: "priority_queue option \<Rightarrow> bool" where
  "opq_inv p \<longleftrightarrow> (\<forall>q. p = Some q \<longrightarrow> pq_inv q)"

lemma opq_add:
  assumes "opq_inv p" and "priority_queue_add_tb p t = (r, p')"
  shows "opq_inv p'"
    and "opq_pending p' = (if r = KUPL_OK then add_mset t (opq_pending p) else opq_pending p)"
proof -
  have *: "opq_inv p' \<and> opq_pending p' =
    (if r = KUPL_OK then add_mset t (opq_pending p) else opq_pending p)"
  proof (cases p)
    case None
    then show ?thesis using assms by (auto simp: priority_queue_add_tb_def opq_inv_def)
  next
    case (Some q)
    then have inv: "vec_inv (pq_spsc q)" and q: "pq_inv q"
      using assms(1) by (simp_all add: opq_inv_def pq_inv_def)
    show ?thesis
      using assms(2) Some q vector_push_back_macro_room[OF inv, of t]
        vector_push_back_macro_full[OF inv, of t]
      by (cases "vec_len (pq_spsc q) < vec_room (pq_spsc q)")
         (auto simp: priority_queue_add_tb_def opq_inv_def opq_pending_def pq_inv_def
            pq_pending_def split: prod.splits)
  qed
  show "opq_inv p'" using * by simp
  show "opq_pending p' = (if r = KUPL_OK then add_mset t (opq_pending p) else opq_pending p)"
    using * by simp
qed

lemma opq_get:
  assumes "opq_inv p" and "priority_queue_get_tb prio p = (x, p')"
  shows "opq_inv p'"
    and "opq_pending p = (case x of None \<Rightarrow> {#} | Some t \<Rightarrow> {#t#}) + opq_pending p'"
proof -
  have *: "opq_inv p' \<and>
    opq_pending p = (case x of None \<Rightarrow> {#} | Some t \<Rightarrow> {#t#}) + opq_pending p'"
  proof (cases p)
    case None
    then show ?thesis using assms by (auto simp: priority_queue_get_tb_def opq_pending_def)
  next
    case (Some q)
    then have q: "pq_inv q" using assms(1) by (simp add: opq_inv_def)
    then obtain q' where p': "p' = Some q'"
      using assms(2) Some by (cases rule: priority_queue_get_cases[OF q, where prio = prio]) auto
    have c: "pq_pending q = (case x of None \<Rightarrow> {#} | Some t \<Rightarrow> {#t#}) + pq_pending q' \<and> pq_inv q'"
      using pq_get_conserves[OF q, of prio x q'] assms(2) Some p' by simp
    then show ?thesis using Some p' by (simp add: opq_pending_def opq_inv_def)
  qed
  show "opq_inv p'" using * by simp
  show "opq_pending p = (case x of None \<Rightarrow> {#} | Some t \<Rightarrow> {#t#}) + opq_pending p'" using * by simp
qed

section \<open>Queue arrays in a plugin\<close>

definition qs_pending :: "queue_t option list \<Rightarrow> ptr multiset" where
  "qs_pending qs = (\<Sum>q\<leftarrow>qs. mset (queue_cont q))"

definition qs_inv :: "queue_t option list \<Rightarrow> bool" where
  "qs_inv qs \<longleftrightarrow> (\<forall>q\<in>set qs. queue_inv q)"

lemma qs_pending_update:
  "i < length qs \<Longrightarrow>
   qs_pending (qs[i := q]) + mset (queue_cont (qs ! i)) = qs_pending qs + mset (queue_cont q)"
proof (induction qs arbitrary: i)
  case (Cons a qs)
  show ?case
  proof (cases i)
    case 0
    then show ?thesis by (simp add: qs_pending_def)
  next
    case (Suc j)
    then have IH: "qs_pending (qs[j := q]) + mset (queue_cont (qs ! j)) =
        qs_pending qs + mset (queue_cont q)" using Cons by simp
    have "qs_pending (a # qs[j := q]) + mset (queue_cont (qs ! j)) =
        mset (queue_cont a) + (qs_pending (qs[j := q]) + mset (queue_cont (qs ! j)))"
      by (simp add: qs_pending_def union_assoc)
    also have "\<dots> = qs_pending (a # qs) + mset (queue_cont q)"
      unfolding IH by (simp add: qs_pending_def union_assoc)
    finally show ?thesis using Suc by simp
  qed
qed simp

lemma qs_inv_update: "qs_inv qs \<Longrightarrow> queue_inv q \<Longrightarrow> qs_inv (qs[i := q])"
  unfolding qs_inv_def by (metis insertE set_update_subset_insert subsetD)

lemma qs_add:
  assumes "qs_inv qs" and "i < length qs" and "queue_add_tb (qs ! i) t = (r, q)"
  shows "qs_inv (qs[i := q])"
    and "qs_pending (qs[i := q]) = (if r = KUPL_OK then add_mset t (qs_pending qs) else qs_pending qs)"
proof -
  have inv: "queue_inv (qs ! i)" using assms by (simp add: qs_inv_def)
  show "qs_inv (qs[i := q])"
    using tbq.enq_inv[OF inv, of t] assms by (intro qs_inv_update) simp_all
  show "qs_pending (qs[i := q]) = (if r = KUPL_OK then add_mset t (qs_pending qs) else qs_pending qs)"
    using tbq.enq_mset[OF inv, of t] qs_pending_update[OF assms(2), of q] assms(3) by auto
qed

lemma qs_get:
  assumes "qs_inv qs" and "i < length qs" and "queue_get_tb (qs ! i) = (x, q)"
  shows "qs_inv (qs[i := q])"
    and "qs_pending qs = (case x of None \<Rightarrow> {#} | Some t \<Rightarrow> {#t#}) + qs_pending (qs[i := q])"
proof -
  have inv: "queue_inv (qs ! i)" using assms by (simp add: qs_inv_def)
  show "qs_inv (qs[i := q])"
    using tbq.deq_inv[OF inv] assms by (intro qs_inv_update) simp_all
  show "qs_pending qs = (case x of None \<Rightarrow> {#} | Some t \<Rightarrow> {#t#}) + qs_pending (qs[i := q])"
    using tbq.deq_mset[OF inv] qs_pending_update[OF assms(2), of q] assms(3)
    by (auto simp: union_assoc union_commute union_lcomm split: option.splits)
qed

section \<open>static\_mq\<close>

record kupl_sched_static_mq =
  sm_num_executors :: int
  sm_queue_size :: int
  sm_priority :: "priority_queue option"
  sm_queues :: "queue_t option list"

text \<open>
  The loop that creates the queues of the executors \<open>i, \<dots>, n - 1\<close>: \<open>Some None\<close> when one of them
  cannot be created.  \<open>qok i\<close> are the outcomes of the allocations of queue \<open>i\<close>.
\<close>

fun create_queues :: "(nat \<Rightarrow> bool list) \<Rightarrow> int \<Rightarrow> nat \<Rightarrow> nat \<Rightarrow> queue_t option list option option" where
  "create_queues qok sz i 0 = Some (Some [])"
| "create_queues qok sz i (Suc n) =
     (case queue_create (qok i) sz of
        None \<Rightarrow> None
      | Some None \<Rightarrow> Some None
      | Some q \<Rightarrow> map_option (map_option (\<lambda>qs. q # qs)) (create_queues qok sz (Suc i) n))"

text \<open>
  \<open>kupl_sched_static_mq_create\<close>: \<open>Some None\<close> is the null pointer returned after the cleanup,
  \<open>None\<close> a rounding loop of a vector that does not end.
\<close>

definition kupl_sched_static_mq_create ::
  "int \<Rightarrow> int \<Rightarrow> bool \<Rightarrow> bool \<Rightarrow> bool list \<Rightarrow> (nat \<Rightarrow> bool list) \<Rightarrow>
   kupl_sched_static_mq option option" where
  "kupl_sched_static_mq_create num_executors queue_size ok okq pqok qok =
     (if \<not> ok then Some None
      else (case priority_queue_create pqok queue_size of
          None \<Rightarrow> None
        | Some pq \<Rightarrow>
            if \<not> okq \<or> pq = None then Some None
            else map_option (map_option (\<lambda>qs.
                   \<lparr>sm_num_executors = num_executors, sm_queue_size = queue_size,
                    sm_priority = pq, sm_queues = qs\<rparr>))
                   (create_queues qok queue_size 0 (nat num_executors))))"

definition kupl_sched_static_mq_add_tb ::
  "bool \<Rightarrow> (ptr \<Rightarrow> kupl_taskbase) \<Rightarrow> int \<Rightarrow> kupl_sched_static_mq \<Rightarrow> ptr \<Rightarrow>
   (int \<times> kupl_sched_static_mq) option" where
  "kupl_sched_static_mq_add_tb ep tbs geid sched tb =
     (if geid = KUPL_EIDCID_INIT then Some (KUPL_ERROR, sched)
      else
        (let eid = tb_executor_id (tbs tb);
             eid = (if eid \<le> KUPL_TB_EXECUTOR_ID_DEFAULT then geid else eid)
         in if ep \<and> tb_flag (tbs tb) AND KUPL_TB_FLAG_PRIORITY \<noteq> 0
            then (let (r, pq) = priority_queue_add_tb (sm_priority sched) tb
                  in Some (r, sched\<lparr>sm_priority := pq\<rparr>))
            else (case at_queue (sm_queues sched) eid of
                    None \<Rightarrow> None
                  | Some q \<Rightarrow> (let (r, q') = queue_add_tb q tb
                              in Some (r, sched\<lparr>sm_queues := (sm_queues sched)[nat eid := q']\<rparr>)))))"

definition kupl_sched_static_mq_get_tb ::
  "bool \<Rightarrow> (ptr \<Rightarrow> kupl_taskbase) \<Rightarrow> int \<Rightarrow> kupl_sched_static_mq \<Rightarrow>
   (ptr option \<times> kupl_sched_static_mq) option" where
  "kupl_sched_static_mq_get_tb ep tbs eid sched =
     (if eid = KUPL_EIDCID_INIT then Some (None, sched)
      else
        (let (tb, sched) = (if ep then (let (t, pq) = priority_queue_get_tb (\<lambda>t. tb_priority (tbs t))
                                                        (sm_priority sched)
                                        in (t, sched\<lparr>sm_priority := pq\<rparr>))
                            else (None, sched))
         in if tb \<noteq> None then Some (tb, sched)
            else (case at_queue (sm_queues sched) eid of
                    None \<Rightarrow> None
                  | Some q \<Rightarrow> (let (t, q') = queue_get_tb q
                              in Some (t, sched\<lparr>sm_queues := (sm_queues sched)[nat eid := q']\<rparr>)))))"

definition sm_pending :: "kupl_sched_static_mq \<Rightarrow> ptr multiset" where
  "sm_pending s = opq_pending (sm_priority s) + qs_pending (sm_queues s)"

definition sm_inv :: "kupl_sched_static_mq \<Rightarrow> bool" where
  "sm_inv s \<longleftrightarrow> opq_inv (sm_priority s) \<and> qs_inv (sm_queues s)"

lemma at_queue_Some: "at_queue qs i = Some q \<longleftrightarrow> 0 \<le> i \<and> nat i < length qs \<and> q = qs ! nat i"
  by (auto simp: at_queue_def)

lemma static_mq_add:
  assumes "sm_inv s" and "kupl_sched_static_mq_add_tb ep tbs g s t = Some (r, s')"
  shows "sm_inv s'" and "sm_pending s' = (if r = KUPL_OK then add_mset t (sm_pending s) else sm_pending s)"
  using assms opq_add[of "sm_priority s" t r] qs_add[of "sm_queues s" _ t r]
  by (auto simp: kupl_sched_static_mq_add_tb_def sm_inv_def sm_pending_def Let_def at_queue_Some
      split: if_splits prod.splits option.splits)

lemma static_mq_get:
  assumes "sm_inv s" and "kupl_sched_static_mq_get_tb ep tbs g s = Some (x, s')"
  shows "sm_inv s'" and "sm_pending s = (case x of None \<Rightarrow> {#} | Some t \<Rightarrow> {#t#}) + sm_pending s'"
proof -
  let ?p = "\<lambda>t. tb_priority (tbs t)"
  obtain y p' where p: "priority_queue_get_tb ?p (sm_priority s) = (y, p')" by fastforce
  have P: "opq_inv p'" "opq_pending (sm_priority s) =
      (case y of None \<Rightarrow> {#} | Some t \<Rightarrow> {#t#}) + opq_pending p'"
    using opq_get[OF _ p] assms(1) by (simp_all add: sm_inv_def)
  show "sm_inv s'"
    using assms P(1) p qs_get(1)[of "sm_queues s"]
    by (auto simp: kupl_sched_static_mq_get_tb_def sm_inv_def Let_def at_queue_Some
        split: if_splits prod.splits option.splits)
  show "sm_pending s = (case x of None \<Rightarrow> {#} | Some t \<Rightarrow> {#t#}) + sm_pending s'"
    using assms P p qs_get(2)[of "sm_queues s"]
    by (auto simp: kupl_sched_static_mq_get_tb_def sm_inv_def sm_pending_def Let_def at_queue_Some
        split: if_splits prod.splits option.splits)
qed

interpretation static_mq: sched_plugin
  "kupl_sched_static_mq_add_tb ep tbs" "kupl_sched_static_mq_get_tb ep tbs" sm_pending sm_inv
  for ep tbs
  by unfold_locales (auto dest: static_mq_add static_mq_get)

text \<open>The calls of a managed thread never leave the array of queues.\<close>

lemma static_mq_total:
  assumes "0 \<le> g" and "g < int (length (sm_queues s))"
  shows "kupl_sched_static_mq_get_tb ep tbs g s \<noteq> None"
    and "tb_executor_id (tbs t) < int (length (sm_queues s)) \<Longrightarrow>
         kupl_sched_static_mq_add_tb ep tbs g s t \<noteq> None"
  using assms
  by (auto simp: kupl_sched_static_mq_get_tb_def kupl_sched_static_mq_add_tb_def Let_def
      at_queue_def tb_consts KUPL_EIDCID_INIT_def split: prod.splits option.splits if_splits)

section \<open>expand\_static\_mq\<close>

text \<open>
  The plugin of the executors that are added after the start: its array of queues has one slot
  for every processing unit (\<open>pu_cnt\<close>), and the slots are filled one by one by the expand call.
\<close>

record kupl_sched_expand_static_mq =
  se_max_num_executors :: int
  se_num_executors :: int
  se_queue_size :: int
  se_priority :: "priority_queue option"
  se_queues :: "queue_t option list"

definition kupl_sched_expand_static_mq_create ::
  "int \<Rightarrow> int \<Rightarrow> bool \<Rightarrow> bool \<Rightarrow> bool list \<Rightarrow> (nat \<Rightarrow> bool list) \<Rightarrow>
   kupl_sched_expand_static_mq option option" where
  "kupl_sched_expand_static_mq_create pu_cnt queue_size ok okq pqok qok =
     (let num_executors = 1 in
      if \<not> ok then Some None
      else (case priority_queue_create pqok queue_size of
          None \<Rightarrow> None
        | Some pq \<Rightarrow>
            if \<not> okq \<or> pq = None then Some None
            else map_option (map_option (\<lambda>qs.
                   \<lparr>se_max_num_executors = pu_cnt, se_num_executors = num_executors,
                    se_queue_size = queue_size, se_priority = pq,
                    se_queues = qs @ replicate (nat pu_cnt - length qs) None\<rparr>))
                   (create_queues qok queue_size 0 (nat num_executors))))"

text \<open>The expand call: the instance is destroyed and the pointer is null when it cannot grow.\<close>

definition kupl_sched_expand_static_mq_expand ::
  "bool list \<Rightarrow> kupl_sched_expand_static_mq \<Rightarrow> kupl_sched_expand_static_mq option option" where
  "kupl_sched_expand_static_mq_expand qok sched =
     (if se_num_executors sched + 1 > se_max_num_executors sched then Some None
      else (case queue_create qok (se_queue_size sched) of
          None \<Rightarrow> None
        | Some None \<Rightarrow> Some None
        | Some q \<Rightarrow> Some (Some (sched\<lparr>se_queues := (se_queues sched)[nat (se_num_executors sched) := q],
                                      se_num_executors := se_num_executors sched + 1\<rparr>))))"

text \<open>\<open>lnum\<close> is \<open>kupl_get_local_executor_num\<close>: the slot of an expanded executor.\<close>

definition kupl_sched_expand_static_mq_add_tb ::
  "(int \<Rightarrow> int) \<Rightarrow> bool \<Rightarrow> (ptr \<Rightarrow> kupl_taskbase) \<Rightarrow> int \<Rightarrow> kupl_sched_expand_static_mq \<Rightarrow> ptr \<Rightarrow>
   (int \<times> kupl_sched_expand_static_mq) option" where
  "kupl_sched_expand_static_mq_add_tb lnum ep tbs geid sched tb =
     (if geid = KUPL_EIDCID_INIT then Some (KUPL_ERROR, sched)
      else
        (let eid = tb_executor_id (tbs tb);
             eid = (if eid \<le> KUPL_TB_EXECUTOR_ID_DEFAULT then geid else eid)
         in if eid \<noteq> geid then Some (KUPL_ERROR, sched)
            else if ep \<and> tb_flag (tbs tb) AND KUPL_TB_FLAG_PRIORITY \<noteq> 0
            then (let (r, pq) = priority_queue_add_tb (se_priority sched) tb
                  in Some (r, sched\<lparr>se_priority := pq\<rparr>))
            else (case at_queue (se_queues sched) (lnum eid) of
                    None \<Rightarrow> None
                  | Some q \<Rightarrow> (let (r, q') = queue_add_tb q tb
                              in Some (r, sched\<lparr>se_queues :=
                                             (se_queues sched)[nat (lnum eid) := q']\<rparr>)))))"

definition kupl_sched_expand_static_mq_get_tb ::
  "(int \<Rightarrow> int) \<Rightarrow> bool \<Rightarrow> (ptr \<Rightarrow> kupl_taskbase) \<Rightarrow> int \<Rightarrow> kupl_sched_expand_static_mq \<Rightarrow>
   (ptr option \<times> kupl_sched_expand_static_mq) option" where
  "kupl_sched_expand_static_mq_get_tb lnum ep tbs eid sched =
     (if eid = KUPL_EIDCID_INIT then Some (None, sched)
      else
        (let eid = lnum eid;
             (tb, sched) = (if ep then (let (t, pq) = priority_queue_get_tb (\<lambda>t. tb_priority (tbs t))
                                                        (se_priority sched)
                                        in (t, sched\<lparr>se_priority := pq\<rparr>))
                            else (None, sched))
         in if tb \<noteq> None then Some (tb, sched)
            else (case at_queue (se_queues sched) eid of
                    None \<Rightarrow> None
                  | Some q \<Rightarrow> (let (t, q') = queue_get_tb q
                              in Some (t, sched\<lparr>se_queues := (se_queues sched)[nat eid := q']\<rparr>)))))"

definition se_pending :: "kupl_sched_expand_static_mq \<Rightarrow> ptr multiset" where
  "se_pending s = opq_pending (se_priority s) + qs_pending (se_queues s)"

definition se_inv :: "kupl_sched_expand_static_mq \<Rightarrow> bool" where
  "se_inv s \<longleftrightarrow> opq_inv (se_priority s) \<and> qs_inv (se_queues s)"

lemma expand_static_mq_add:
  assumes "se_inv s" and "kupl_sched_expand_static_mq_add_tb l ep tbs g s t = Some (r, s')"
  shows "se_inv s'" and "se_pending s' = (if r = KUPL_OK then add_mset t (se_pending s) else se_pending s)"
  using assms opq_add[of "se_priority s" t r] qs_add[of "se_queues s" _ t r]
  by (auto simp: kupl_sched_expand_static_mq_add_tb_def se_inv_def se_pending_def Let_def
      at_queue_Some split: if_splits prod.splits option.splits)

lemma expand_static_mq_get:
  assumes "se_inv s" and "kupl_sched_expand_static_mq_get_tb l ep tbs g s = Some (x, s')"
  shows "se_inv s'" and "se_pending s = (case x of None \<Rightarrow> {#} | Some t \<Rightarrow> {#t#}) + se_pending s'"
proof -
  let ?p = "\<lambda>t. tb_priority (tbs t)"
  obtain y p' where p: "priority_queue_get_tb ?p (se_priority s) = (y, p')" by fastforce
  have P: "opq_inv p'" "opq_pending (se_priority s) =
      (case y of None \<Rightarrow> {#} | Some t \<Rightarrow> {#t#}) + opq_pending p'"
    using opq_get[OF _ p] assms(1) by (simp_all add: se_inv_def)
  show "se_inv s'"
    using assms P(1) p qs_get(1)[of "se_queues s"]
    by (auto simp: kupl_sched_expand_static_mq_get_tb_def se_inv_def Let_def at_queue_Some
        split: if_splits prod.splits option.splits)
  show "se_pending s = (case x of None \<Rightarrow> {#} | Some t \<Rightarrow> {#t#}) + se_pending s'"
    using assms P p qs_get(2)[of "se_queues s"]
    by (auto simp: kupl_sched_expand_static_mq_get_tb_def se_inv_def se_pending_def Let_def
        at_queue_Some split: if_splits prod.splits option.splits)
qed

interpretation expand_static_mq: sched_plugin
  "kupl_sched_expand_static_mq_add_tb l ep tbs" "kupl_sched_expand_static_mq_get_tb l ep tbs"
  se_pending se_inv
  for l ep tbs
  by unfold_locales (auto dest: expand_static_mq_add expand_static_mq_get)

section \<open>Properties\<close>

definition example_tb :: kupl_taskbase where
  "example_tb = \<lparr>tb_type = KUPL_TB_TYPE_TASK, tb_name = None, tb_id = 0, tb_graph = None,
     tb_egroup = None, tb_func = Some 1, tb_args = None, tb_priority = 0, tb_core_id = -1,
     tb_executor_id = -1, tb_flag = 0, tb_cp = 0, tb_ref = 1, tb_state = 2, tb_count = None\<rparr>"

definition empty_vector :: "ptr kupl_vector" where
  "empty_vector = \<lparr>v_name = [], v_head = 0, v_tail = 0, v_capacity = 4, v_elem_size = 8,
                   v_data = [0, 0, 0, 0]\<rparr>"

definition example_sm :: kupl_sched_static_mq where
  "example_sm = \<lparr>sm_num_executors = 2, sm_queue_size = 4,
     sm_priority = Some \<lparr>pq_q = [], pq_spsc = empty_vector, pq_tb_cnt = 0, pq_size = 4\<rparr>,
     sm_queues = [Some empty_vector, Some empty_vector]\<rparr>"

lemma empty_vector_inv: "vec_inv empty_vector" "vec_list empty_vector = []"
  by (simp_all add: empty_vector_def vec_inv_def vec_len_def vec_list_def)

lemma example_sm_inv: "sm_inv example_sm" "sm_pending example_sm = {#}"
  using empty_vector_inv
  by (simp_all add: sm_inv_def sm_pending_def opq_inv_def qs_inv_def queue_inv_def pq_inv_def
      example_sm_def opq_pending_def pq_pending_def qs_pending_def queue_cont_def)

lemmas plugin_eval = kupl_sched_static_mq_add_tb_def kupl_sched_static_mq_get_tb_def
  at_queue_def queue_add_tb_def queue_get_tb_def kupl_vector_push_back_macro_def
  kupl_vector_empty_macro_def kupl_vector_front_macro_def kupl_vector_pop_front_macro_def
  priority_queue_get_tb_def priority_queue_add_tb_def pq_drain.simps empty_vector_def
  KUPL_EIDCID_INIT_def tb_consts Let_def

text \<open>
  C14: In every run of add and get calls on a \<open>static_mq\<close> scheduler, from any number of threads,
  the tasks that were pending together with those accepted are the tasks handed out together with
  those still pending: no task is lost or executed twice.
\<close>

theorem static_mq_conserves:
  assumes "sm_inv s"
    and "sched_run (kupl_sched_static_mq_add_tb ep tbs) (kupl_sched_static_mq_get_tb ep tbs) s cs =
         Some (i, j, s')"
  shows "sm_pending s + i = j + sm_pending s' \<and> sm_inv s'"
  using assms by (rule static_mq.run_conserves)

theorem static_mq_conserves_witness:
  "\<exists>s'. sm_pending example_sm + {#9#} = {#9#} + sm_pending s'"
proof -
  have "\<exists>s'. sched_run (kupl_sched_static_mq_add_tb False (\<lambda>_. example_tb))
    (kupl_sched_static_mq_get_tb False (\<lambda>_. example_tb)) example_sm [Add 0 9, Get 1, Get 0] =
      Some ({#9#}, {#9#}, s')"
    by (simp add: plugin_eval example_sm_def example_tb_def)
  then show ?thesis using static_mq_conserves[OF example_sm_inv(1)] by blast
qed

end
