(* ===== verification/Kupl_Sched_Mq.thy ===== *)
theory Kupl_Sched_Mq
  imports Kupl_Sched_Plugin
begin

text \<open>
  The work-stealing plugin \<open>src/src/mt/scheduler/plugin/mq/kupl_sched_mq.cpp\<close>: the generator of
  its random numbers, the parser of the place-queue affinity, the local and place queues, and the
  search order of a get call: priority queue, own queue, place queues, the last victim, and one
  random victim.
\<close>

section \<open>Random victims\<close>

definition kupl_primes :: "u32 list" where
  "kupl_primes = [
    0x9e3779b1, 0xe1626741, 0x9677cd4d, 0x99afc3fd, 0x3d9910ed, 0x46eb5ea7, 0xffe6cc59, 0x79695e6b,
    0xbe3a6929, 0xf3f16801, 0x2e687b5b, 0x6c97d5ed, 0x2109f6dd, 0xbc98c09f, 0xadc6a877, 0xe222cfff,
    0x29609227, 0xb07dd827, 0x43977ab5, 0xd5bee2b3, 0xdcf0674b, 0x24ba5fdb, 0x6eb081f1, 0x085a3d61,
    0xba5703f5, 0x287488f9, 0xbe4d6fe9, 0x0620452d, 0x0954c4e1, 0x972702cd, 0xb495a877, 0x3af18231,
    0x5f15e201, 0x79f149e3, 0x9d114db9, 0xc8b93f49, 0xbec333cd, 0x542acfa9, 0xef1affc7, 0x5d2e980b,
    0x3549366b, 0xb98294e5, 0xe9f3ffa7, 0x6bdef3c9, 0x5ca19031, 0xe6baf34b, 0x343377f7, 0xf2480f45,
    0x54581edb, 0xf0a9f391, 0x892d9483, 0x629750ad, 0x3d2402a3, 0x0742d917, 0x40c9520f, 0x85fa0ca7,
    0xfc411073, 0x3ccc14db, 0xb3e6bd7b, 0xb892d829, 0xc3749363, 0xc235baf3, 0xe6d9293b, 0x0bb9288f]"

text \<open>The thread-local pair \<open>(th_x, th_a)\<close>; \<open>None\<close> before the first initialisation.\<close>

type_synonym rnd = "(u32 \<times> u32) option"

definition kupl_get_random :: "u32 \<times> u32 \<Rightarrow> int \<times> (u32 \<times> u32)" where
  "kupl_get_random xa = (let (x, a) = xa in (uint (ucast (drop_bit 16 x) :: 16 word), (x * a + 1, a)))"

definition kupl_init_random :: "int \<Rightarrow> rnd \<Rightarrow> u32 \<times> u32" where
  "kupl_init_random executor_id st =
     (case st of
        Some xa \<Rightarrow> xa
      | None \<Rightarrow> (let seed = (word_of_int executor_id :: u32);
                    a = kupl_primes ! unat (seed mod 64)
                in ((seed + 1) * a + 1, a)))"

text \<open>
  The loop that draws a victim other than the caller: \<open>continue\<close> repeats the draw, so the loop
  may in principle not end; \<open>None\<close> is that outcome.
\<close>

partial_function (option) steal_draw :: "int \<Rightarrow> int \<Rightarrow> u32 \<times> u32 \<Rightarrow> (int \<times> (u32 \<times> u32)) option" where
  "steal_draw n own xa =
     (let (r, xa') = kupl_get_random xa; steal_eid = r mod n
      in if own = steal_eid then steal_draw n own xa' else Some (steal_eid, xa'))"

section \<open>The affinity of the place queues\<close>

text \<open>
  \<open>strtok_r\<close> over one delimiter yields the non-empty pieces in order; \<open>strtol\<close> in base ten reads
  blanks, a sign and digits, and \<open>parse_eid\<close> requires that it stops at the end of the token.
  \<open>erange\<close> is the value of \<open>errno = ERANGE\<close> before the call, which the code does not reset.
\<close>

fun split_at_char :: "char \<Rightarrow> string \<Rightarrow> string list" where
  "split_at_char d [] = [[]]"
| "split_at_char d (c # cs) =
     (if c = d then [] # split_at_char d cs
      else (case split_at_char d cs of [] \<Rightarrow> [[c]] | w # ws \<Rightarrow> (c # w) # ws))"

definition strtok_pieces :: "char \<Rightarrow> string \<Rightarrow> string list" where
  "strtok_pieces d s = filter (\<lambda>w. w \<noteq> []) (split_at_char d s)"

definition is_digit :: "char \<Rightarrow> bool" where
  "is_digit c \<longleftrightarrow> 48 \<le> (of_char c :: nat) \<and> (of_char c :: nat) \<le> 57"

definition is_blank :: "char \<Rightarrow> bool" where
  "is_blank c \<longleftrightarrow> c = CHR '' '' \<or> 9 \<le> (of_char c :: nat) \<and> (of_char c :: nat) \<le> 13"

fun digits_value :: "int \<Rightarrow> string \<Rightarrow> int" where
  "digits_value acc [] = acc"
| "digits_value acc (c # cs) = digits_value (acc * 10 + (of_char c - 48)) cs"

text \<open>\<open>Some v\<close> when the whole token is a number, \<open>None\<close> when \<open>strtol\<close> stops earlier.\<close>

definition strtol_all :: "string \<Rightarrow> int option" where
  "strtol_all token =
     (let s = dropWhile is_blank token;
          (sg, ds) = (case s of
              [] \<Rightarrow> (1, [])
            | c # cs \<Rightarrow> if c = CHR ''-'' then (-1, cs) else if c = CHR ''+'' then (1, cs) else (1, s))
      in if ds = [] \<or> \<not> list_all is_digit ds then None else Some (sg * digits_value 0 ds))"

definition CPU_SETSIZE :: int where "CPU_SETSIZE = 1024"

definition parse_eid :: "bool \<Rightarrow> string \<Rightarrow> int" where
  "parse_eid erange token =
     (case strtol_all token of
        None \<Rightarrow> KUPL_EIDCID_INIT
      | Some eid \<Rightarrow>
          if erange \<or> \<not> int64 eid then KUPL_EIDCID_INIT
          else if eid < 0 \<or> eid \<ge> CPU_SETSIZE then KUPL_EIDCID_INIT else eid)"

text \<open>
  The loop over the pieces of a comma-separated place.  On an invalid piece the code continues
  without taking the next token, so it looks at the same piece again.
\<close>

partial_function (option) parse_place_scatter ::
  "bool \<Rightarrow> string list \<Rightarrow> int set \<Rightarrow> int set option" where
  "parse_place_scatter erange tokens eid_set =
     (case tokens of
        [] \<Rightarrow> Some eid_set
      | token # rest \<Rightarrow>
          (let eid = parse_eid erange token
           in if eid = KUPL_EIDCID_INIT then parse_place_scatter erange tokens eid_set
              else parse_place_scatter erange rest (insert eid eid_set)))"

definition parse_place_range :: "bool \<Rightarrow> string \<Rightarrow> int set \<Rightarrow> int set" where
  "parse_place_range erange str eid_set =
     (let ts = strtok_pieces CHR ''-'' str;
          range_start = (case ts of [] \<Rightarrow> 0 | t # _ \<Rightarrow> parse_eid erange t);
          range_end = (case ts of _ # t # _ \<Rightarrow> parse_eid erange t | _ \<Rightarrow> 0)
      in if range_start < range_end
         then eid_set \<union> (set [range_start..range_end] - {KUPL_EIDCID_INIT})
         else eid_set)"

definition parse_place_single :: "bool \<Rightarrow> string \<Rightarrow> int set \<Rightarrow> int set" where
  "parse_place_single erange str eid_set =
     (let eid = parse_eid erange str
      in if eid = KUPL_EIDCID_INIT then eid_set else insert eid eid_set)"

text \<open>
  \<open>parse_place\<close>: whether the place is used, and the set written to the output, if it is written.
  The outer option is the loop of the comma-separated form.
\<close>

definition parse_place :: "bool \<Rightarrow> int \<Rightarrow> string \<Rightarrow> (bool \<times> int set option) option" where
  "parse_place erange num_executors str =
     (if length str + 1 > 20 then Some (False, None)
      else map_option
        (\<lambda>s. let s = s \<inter> set [0..num_executors - 1] in (s \<noteq> {}, Some s))
        (if CHR '','' \<in> set str then parse_place_scatter erange (strtok_pieces CHR '','' str) {}
         else if CHR ''-'' \<in> set str then Some (parse_place_range erange str {})
         else Some (parse_place_single erange str {})))"

definition KUPL_MQ_DEFAULT :: int where "KUPL_MQ_DEFAULT = -1"

fun place_cnt_loop :: "string \<Rightarrow> int \<Rightarrow> int" where
  "place_cnt_loop [] cnt = cnt"
| "place_cnt_loop (c # cs) cnt =
     (if is_digit c then place_cnt_loop cs cnt
      else if c = CHR ''|'' then place_cnt_loop cs (cnt + 1)
      else if c = CHR '','' \<or> c = CHR ''-'' then place_cnt_loop cs cnt
      else KUPL_MQ_DEFAULT)"

definition cal_place_queue_cnt :: "string \<Rightarrow> int" where
  "cal_place_queue_cnt affinity = (if affinity = [] then 0 else place_cnt_loop affinity 1)"

text \<open>
  The loop over the places.  The sets go into an uninitialised array of \<open>queue_cnt\<close> entries; a
  place that is not used is overwritten by the next one.  A place beyond the array would be
  written out of bounds (\<open>None\<close>).
\<close>

fun parse_places :: "bool \<Rightarrow> int \<Rightarrow> string list \<Rightarrow> nat \<Rightarrow> int set option list \<Rightarrow>
    int set option list option" where
  "parse_places erange n [] k sets = Some sets"
| "parse_places erange n (t # ts) k sets =
     (if k \<ge> length sets then None
      else (case parse_place erange n t of
          None \<Rightarrow> None
        | Some (used, out) \<Rightarrow>
            parse_places erange n ts (if used then Suc k else k)
              (case out of None \<Rightarrow> sets | Some s \<Rightarrow> sets[k := Some s])))"

section \<open>State and operations\<close>

text \<open>
  A place queue is shared by several executors: \<open>mq_place\<close> lists, for every executor, the indices
  of its place queues in \<open>mq_real\<close>.
\<close>

record kupl_sched_mq =
  mq_queue_size :: int
  mq_num_executors :: int
  mq_priority :: "priority_queue option"
  mq_local :: "queue_t option list"
  mq_place :: "nat list list"
  mq_real :: "queue_t option list"
  mq_last_steal :: "int list"
  mq_rnd :: "int \<Rightarrow> rnd"

text \<open>\<open>kupl_create_place_queue_list\<close>: reading an entry that was never written is \<open>None\<close>.\<close>

fun kupl_create_place_queue_list :: "int \<Rightarrow> int set option list \<Rightarrow> nat \<Rightarrow> nat list option" where
  "kupl_create_place_queue_list index [] j = Some []"
| "kupl_create_place_queue_list index (None # ss) j = None"
| "kupl_create_place_queue_list index (Some s # ss) j =
     map_option (\<lambda>l. if index \<in> s then j # l else l) (kupl_create_place_queue_list index ss (Suc j))"

text \<open>Trying the queues of a list in order until one takes the task.\<close>

fun place_add :: "queue_t option list \<Rightarrow> nat list \<Rightarrow> ptr \<Rightarrow> int \<Rightarrow> int \<times> queue_t option list" where
  "place_add qs [] tb err = (err, qs)"
| "place_add qs (j # js) tb err =
     (let (r, q) = queue_add_tb (qs ! j) tb; qs = qs[j := q]
      in if r = KUPL_OK then (KUPL_OK, qs) else place_add qs js tb r)"

definition mq_place_add :: "kupl_sched_mq \<Rightarrow> nat list \<Rightarrow> ptr \<Rightarrow> int \<Rightarrow> int \<times> kupl_sched_mq" where
  "mq_place_add sched js tb err =
     (let (r, qs) = place_add (mq_real sched) js tb err in (r, sched\<lparr>mq_real := qs\<rparr>))"

definition kupl_sched_mq_add_tb ::
  "bool \<Rightarrow> (ptr \<Rightarrow> kupl_taskbase) \<Rightarrow> int \<Rightarrow> kupl_sched_mq \<Rightarrow> ptr \<Rightarrow> (int \<times> kupl_sched_mq) option" where
  "kupl_sched_mq_add_tb ep tbs own_eid sched tb =
     (if own_eid = KUPL_EIDCID_INIT then Some (KUPL_ERROR, sched)
      else (case at_queue (mq_place sched) own_eid of
          None \<Rightarrow> None
        | Some place \<Rightarrow>
            (let x = tb_executor_id (tbs tb) in
             if x = KUPL_TB_EXECUTOR_ID_PLACE \<and> place \<noteq> []
             then Some (mq_place_add sched place tb KUPL_OK)
             else
               (let eid = (if x = KUPL_TB_EXECUTOR_ID_DEFAULT then own_eid
                           else if x = KUPL_TB_EXECUTOR_ID_PLACE then own_eid
                           else if x \<ge> 0 then x else own_eid)
                in if ep \<and> tb_flag (tbs tb) AND KUPL_TB_FLAG_PRIORITY \<noteq> 0
                   then (let (r, pq) = priority_queue_add_tb (mq_priority sched) tb
                         in Some (r, sched\<lparr>mq_priority := pq\<rparr>))
                   else (case at_queue (mq_local sched) eid of
                       None \<Rightarrow> None
                     | Some q \<Rightarrow>
                         (let (err, q') = queue_add_tb q tb;
                              sched = sched\<lparr>mq_local := (mq_local sched)[nat eid := q']\<rparr>
                          in if err = KUPL_OK then Some (KUPL_OK, sched)
                             else Some (mq_place_add sched place tb err)))))))"

definition pop_one_tb :: "bool \<Rightarrow> (ptr \<Rightarrow> kupl_taskbase) \<Rightarrow> kupl_sched_mq \<Rightarrow> int \<Rightarrow>
    (ptr option \<times> kupl_sched_mq) option" where
  "pop_one_tb ep tbs sched executor_id =
     (let (tb, sched) = (if ep then (let (t, pq) = priority_queue_get_tb (\<lambda>t. tb_priority (tbs t))
                                                     (mq_priority sched)
                                     in (t, sched\<lparr>mq_priority := pq\<rparr>))
                         else (None, sched))
      in if tb \<noteq> None then Some (tb, sched)
         else (case at_queue (mq_local sched) executor_id of
             None \<Rightarrow> None
           | Some q \<Rightarrow> (let (t, q') = queue_get_tb q
                       in Some (t, sched\<lparr>mq_local := (mq_local sched)[nat executor_id := q']\<rparr>))))"

fun place_get :: "queue_t option list \<Rightarrow> nat list \<Rightarrow> ptr option \<times> queue_t option list" where
  "place_get qs [] = (None, qs)"
| "place_get qs (j # js) =
     (let (t, q) = queue_get_tb (qs ! j); qs = qs[j := q]
      in if t \<noteq> None then (t, qs) else place_get qs js)"

text \<open>The random victim, after the other sources were empty.\<close>

definition mq_steal :: "bool \<Rightarrow> (ptr \<Rightarrow> kupl_taskbase) \<Rightarrow> int \<Rightarrow> kupl_sched_mq \<Rightarrow>
    (ptr option \<times> kupl_sched_mq) option" where
  "mq_steal ep tbs executor_id sched =
     (case steal_draw (mq_num_executors sched) executor_id
             (kupl_init_random executor_id (mq_rnd sched executor_id)) of
        None \<Rightarrow> None
      | Some (steal_eid, xa) \<Rightarrow>
          (case pop_one_tb ep tbs (sched\<lparr>mq_rnd := (mq_rnd sched)(executor_id := Some xa)\<rparr>)
                  steal_eid of
             None \<Rightarrow> None
           | Some (tb, sched) \<Rightarrow>
               Some (tb, sched\<lparr>mq_last_steal := (mq_last_steal sched)
                   [nat executor_id := (if tb \<noteq> None then steal_eid else KUPL_MQ_DEFAULT)]\<rparr>)))"

definition kupl_sched_mq_get_tb ::
  "bool \<Rightarrow> (ptr \<Rightarrow> kupl_taskbase) \<Rightarrow> int \<Rightarrow> kupl_sched_mq \<Rightarrow> (ptr option \<times> kupl_sched_mq) option" where
  "kupl_sched_mq_get_tb ep tbs executor_id sched =
     (if executor_id = KUPL_EIDCID_INIT then Some (None, sched)
      else (case pop_one_tb ep tbs sched executor_id of
          None \<Rightarrow> None
        | Some (tb, sched) \<Rightarrow>
            if tb \<noteq> None then Some (tb, sched)
            else (case at_queue (mq_place sched) executor_id of
                None \<Rightarrow> None
              | Some place \<Rightarrow>
                  (let (tb, qs) = place_get (mq_real sched) place; sched = sched\<lparr>mq_real := qs\<rparr>
                   in if tb \<noteq> None then Some (tb, sched)
                      else if mq_num_executors sched \<le> 1 then Some (None, sched)
                      else (case at_queue (mq_last_steal sched) executor_id of
                          None \<Rightarrow> None
                        | Some last_steal \<Rightarrow>
                            if last_steal \<noteq> KUPL_MQ_DEFAULT
                            then (case pop_one_tb ep tbs sched last_steal of
                                None \<Rightarrow> None
                              | Some (tb, sched) \<Rightarrow>
                                  if tb \<noteq> None then Some (tb, sched)
                                  else mq_steal ep tbs executor_id sched)
                            else mq_steal ep tbs executor_id sched)))))"

section \<open>Creation\<close>

text \<open>
  \<open>place_queue_create\<close>: the queues and the executor sets of the places.  \<open>ok0\<close>, \<open>ok1\<close>, \<open>ok2\<close> are
  the outcomes of the allocations of the descriptor, the sets and the array of queues.
\<close>

definition place_queue_create ::
  "bool \<Rightarrow> int \<Rightarrow> bool \<Rightarrow> bool \<Rightarrow> bool \<Rightarrow> (nat \<Rightarrow> bool list) \<Rightarrow> int \<Rightarrow> string \<Rightarrow>
   (queue_t option list \<times> int set option list) option option" where
  "place_queue_create erange n ok0 ok1 ok2 qok sz affinity =
     (if \<not> ok0 then Some None
      else (let queue_cnt = cal_place_queue_cnt affinity
            in if queue_cnt \<le> 0 then Some (Some ([], []))
               else if \<not> ok1 then Some None
               else (case parse_places erange n (strtok_pieces CHR ''|'' affinity) 0
                            (replicate (nat queue_cnt) None) of
                   None \<Rightarrow> None
                 | Some sets \<Rightarrow>
                     if \<not> ok2 then Some None
                     else map_option (map_option (\<lambda>qs. (qs, sets)))
                            (create_queues qok sz 0 (nat queue_cnt)))))"

text \<open>The loop over the executors: the local queue and the place list of each.\<close>

fun create_executors :: "(nat \<Rightarrow> bool list) \<Rightarrow> (nat \<Rightarrow> bool) \<Rightarrow> int \<Rightarrow> int set option list \<Rightarrow>
    nat \<Rightarrow> nat \<Rightarrow> (queue_t option list \<times> nat list list) option option" where
  "create_executors qok lok sz sets i 0 = Some (Some ([], []))"
| "create_executors qok lok sz sets i (Suc n) =
     (case queue_create (qok i) sz of
        None \<Rightarrow> None
      | Some None \<Rightarrow> Some None
      | Some q \<Rightarrow>
          (case kupl_create_place_queue_list (int i) sets 0 of
             None \<Rightarrow> None
           | Some js \<Rightarrow>
               if js \<noteq> [] \<and> \<not> lok i then Some None
               else map_option (map_option (\<lambda>(qs, jss). (q # qs, js # jss)))
                      (create_executors qok lok sz sets (Suc i) n)))"

definition kupl_sched_mq_create ::
  "bool \<Rightarrow> int \<Rightarrow> int \<Rightarrow> string \<Rightarrow> bool \<Rightarrow> bool \<Rightarrow> bool \<Rightarrow> bool \<Rightarrow> bool \<Rightarrow> bool \<Rightarrow> bool list \<Rightarrow>
   (nat \<Rightarrow> bool list) \<Rightarrow> (nat \<Rightarrow> bool list) \<Rightarrow> (nat \<Rightarrow> bool) \<Rightarrow> kupl_sched_mq option option" where
  "kupl_sched_mq_create erange num_executors queue_size affinity ok okdup ok0 ok1 ok2 okarr pqok
       rok qok lok =
     (if \<not> ok \<or> \<not> okdup then Some None
      else (case place_queue_create erange num_executors ok0 ok1 ok2 rok (queue_size * 10) affinity of
          None \<Rightarrow> None
        | Some real \<Rightarrow>
            (case priority_queue_create pqok queue_size of
               None \<Rightarrow> None
             | Some pq \<Rightarrow>
                 (case (real, pq) of
                    (Some (rqs, sets), Some p) \<Rightarrow>
                      if \<not> okarr then Some None
                      else map_option (map_option (\<lambda>(qs, jss).
                             \<lparr>mq_queue_size = queue_size, mq_num_executors = num_executors,
                              mq_priority = Some p, mq_local = qs, mq_place = jss, mq_real = rqs,
                              mq_last_steal = replicate (nat num_executors) KUPL_MQ_DEFAULT,
                              mq_rnd = (\<lambda>_. None)\<rparr>))
                           (create_executors qok lok queue_size sets 0 (nat num_executors))
                  | _ \<Rightarrow> Some None))))"

section \<open>The plugin contract\<close>

definition mq_pending :: "kupl_sched_mq \<Rightarrow> ptr multiset" where
  "mq_pending s = opq_pending (mq_priority s) + qs_pending (mq_local s) + qs_pending (mq_real s)"

definition mq_inv :: "kupl_sched_mq \<Rightarrow> bool" where
  "mq_inv s \<longleftrightarrow> opq_inv (mq_priority s) \<and> qs_inv (mq_local s) \<and> qs_inv (mq_real s) \<and>
     (\<forall>js\<in>set (mq_place s). \<forall>j\<in>set js. j < length (mq_real s))"

lemma place_add_spec:
  assumes "qs_inv qs" and "\<forall>j\<in>set js. j < length qs" and "place_add qs js t err = (r, qs')"
    and "err \<noteq> KUPL_OK \<or> js \<noteq> []"
  shows "qs_inv qs' \<and> length qs' = length qs \<and>
    qs_pending qs' = (if r = KUPL_OK then add_mset t (qs_pending qs) else qs_pending qs)"
  using assms
proof (induction js arbitrary: qs err)
  case Nil
  then show ?case by auto
next
  case (Cons j js)
  obtain e q where q: "queue_add_tb (qs ! j) t = (e, q)" by fastforce
  have j: "j < length qs" using Cons.prems by simp
  note add = qs_add[OF Cons.prems(1) j q]
  show ?case
  proof (cases "e = KUPL_OK")
    case True
    then show ?thesis using Cons.prems q add by auto
  next
    case False
    then have "place_add (qs[j := q]) js t e = (r, qs')" using Cons.prems q by simp
    from Cons.IH[OF add(1) _ this] Cons.prems False add show ?thesis by auto
  qed
qed

lemma place_get_spec:
  assumes "qs_inv qs" and "\<forall>j\<in>set js. j < length qs" and "place_get qs js = (x, qs')"
  shows "qs_inv qs' \<and> length qs' = length qs \<and>
    qs_pending qs = (case x of None \<Rightarrow> {#} | Some t \<Rightarrow> {#t#}) + qs_pending qs'"
  using assms
proof (induction js arbitrary: qs)
  case Nil
  then show ?case by auto
next
  case (Cons j js)
  obtain y q where q: "queue_get_tb (qs ! j) = (y, q)" by fastforce
  have j: "j < length qs" using Cons.prems by simp
  note get = qs_get[OF Cons.prems(1) j q]
  show ?case
  proof (cases y)
    case None
    then have "place_get (qs[j := q]) js = (x, qs')" using Cons.prems q by simp
    from Cons.IH[OF get(1) _ this] Cons.prems None get show ?thesis by auto
  next
    case (Some t)
    then show ?thesis using Cons.prems q get by auto
  qed
qed

lemma at_queue_set: "at_queue xs i = Some x \<Longrightarrow> x \<in> set xs"
  by (auto simp: at_queue_def split: if_splits)

lemma mq_place_add_spec:
  assumes inv: "mq_inv s" and js: "js \<in> set (mq_place s)"
    and eq: "mq_place_add s js t err = (r, s')" and err: "err \<noteq> KUPL_OK \<or> js \<noteq> []"
  shows "mq_inv s' \<and> mq_pending s' = (if r = KUPL_OK then add_mset t (mq_pending s) else mq_pending s)"
proof -
  obtain qs where qs: "place_add (mq_real s) js t err = (r, qs)" "s' = s\<lparr>mq_real := qs\<rparr>"
    using eq by (auto simp: mq_place_add_def split: prod.splits)
  have "\<forall>j\<in>set js. j < length (mq_real s)" using inv js by (simp add: mq_inv_def)
  from place_add_spec[OF _ this qs(1) err] inv qs(2) show ?thesis
    by (auto simp: mq_inv_def mq_pending_def)
qed

lemma mq_add:
  assumes inv: "mq_inv s" and eq: "kupl_sched_mq_add_tb ep tbs g s t = Some (r, s')"
  shows "mq_inv s' \<and> mq_pending s' = (if r = KUPL_OK then add_mset t (mq_pending s) else mq_pending s)"
proof (cases "g = KUPL_EIDCID_INIT")
  case True
  then show ?thesis using inv eq by (auto simp: kupl_sched_mq_add_tb_def)
next
  case False
  then obtain js where js: "at_queue (mq_place s) g = Some js" "js \<in> set (mq_place s)"
    using eq by (auto simp: kupl_sched_mq_add_tb_def at_queue_set split: option.splits)
  let ?x = "tb_executor_id (tbs t)"
  let ?e = "if ?x = KUPL_TB_EXECUTOR_ID_DEFAULT then g
            else if ?x = KUPL_TB_EXECUTOR_ID_PLACE then g else if ?x \<ge> 0 then ?x else g"
  consider
    (place) "mq_place_add s js t KUPL_OK = (r, s')" "js \<noteq> []"
  | (prio) p where "priority_queue_add_tb (mq_priority s) t = (r, p)" "s' = s\<lparr>mq_priority := p\<rparr>"
  | (own) q q' where "at_queue (mq_local s) ?e = Some q" "queue_add_tb q t = (KUPL_OK, q')"
      "r = KUPL_OK" "s' = s\<lparr>mq_local := (mq_local s)[nat ?e := q']\<rparr>"
  | (full) q q' err where "at_queue (mq_local s) ?e = Some q" "queue_add_tb q t = (err, q')"
      "err \<noteq> KUPL_OK" "mq_place_add (s\<lparr>mq_local := (mq_local s)[nat ?e := q']\<rparr>) js t err = (r, s')"
    using eq False js(1) unfolding kupl_sched_mq_add_tb_def Let_def
    by (auto split: if_splits option.splits prod.splits)
  then show ?thesis
  proof cases
    case place
    then show ?thesis using mq_place_add_spec[OF inv js(2)] by blast
  next
    case prio
    then show ?thesis using inv opq_add[of "mq_priority s" t r p]
      by (auto simp: mq_inv_def mq_pending_def)
  next
    case own
    then show ?thesis using inv qs_add[of "mq_local s" "nat ?e" t KUPL_OK q']
      by (auto simp: mq_inv_def mq_pending_def at_queue_Some)
  next
    case full
    let ?s = "s\<lparr>mq_local := (mq_local s)[nat ?e := q']\<rparr>"
    have "mq_inv ?s" "mq_pending ?s = mq_pending s"
      using inv full qs_add[of "mq_local s" "nat ?e" t err q']
      by (auto simp: mq_inv_def mq_pending_def at_queue_Some)
    then show ?thesis using mq_place_add_spec[of ?s js t err r s'] js(2) full by simp
  qed
qed

lemma pop_one_spec:
  assumes inv: "mq_inv s" and eq: "pop_one_tb ep tbs s e = Some (x, s')"
  shows "mq_inv s' \<and> mq_pending s = (case x of None \<Rightarrow> {#} | Some t \<Rightarrow> {#t#}) + mq_pending s'"
proof -
  let ?p = "\<lambda>t. tb_priority (tbs t)"
  obtain y p' where p: "priority_queue_get_tb ?p (mq_priority s) = (y, p')" by fastforce
  have P: "opq_inv p'" "opq_pending (mq_priority s) =
      (case y of None \<Rightarrow> {#} | Some t \<Rightarrow> {#t#}) + opq_pending p'"
    using opq_get[OF _ p] inv by (simp_all add: mq_inv_def)
  then show ?thesis
    using eq inv p qs_get[of "mq_local s"]
    by (auto simp: pop_one_tb_def mq_inv_def mq_pending_def Let_def at_queue_Some
        split: if_splits prod.splits option.splits)
qed

lemma mq_steal_spec:
  assumes inv: "mq_inv s" and eq: "mq_steal ep tbs g s = Some (x, s')"
  shows "mq_inv s' \<and> mq_pending s = (case x of None \<Rightarrow> {#} | Some t \<Rightarrow> {#t#}) + mq_pending s'"
proof -
  obtain e xa u where u: "pop_one_tb ep tbs (s\<lparr>mq_rnd := (mq_rnd s)(g := Some xa)\<rparr>) e = Some (x, u)"
    "s' = u\<lparr>mq_last_steal := (mq_last_steal u)
            [nat g := (if x \<noteq> None then e else KUPL_MQ_DEFAULT)]\<rparr>"
    using eq by (auto simp: mq_steal_def split: option.splits)
  have "mq_inv (s\<lparr>mq_rnd := (mq_rnd s)(g := Some xa)\<rparr>)"
    "mq_pending (s\<lparr>mq_rnd := (mq_rnd s)(g := Some xa)\<rparr>) = mq_pending s"
    using inv by (simp_all add: mq_inv_def mq_pending_def)
  with pop_one_spec[OF this(1) u(1)] show ?thesis
    by (simp add: u(2) mq_inv_def mq_pending_def)
qed

text \<open>
  The branches of a get that the priority queue and the own queue did not serve, one after the
  other; each hands over to the next with the same pending tasks.
\<close>

lemma mq_search_tail:
  assumes inv: "mq_inv u"
    and eq: "(if z \<noteq> None then Some (z, u)
        else if mq_num_executors u \<le> 1 then Some (None, u)
        else case at_queue (mq_last_steal u) g of None \<Rightarrow> None
          | Some ls \<Rightarrow> if ls \<noteq> KUPL_MQ_DEFAULT
              then (case pop_one_tb ep tbs u ls of None \<Rightarrow> None
                | Some (tb, v) \<Rightarrow> if tb \<noteq> None then Some (tb, v) else mq_steal ep tbs g v)
              else mq_steal ep tbs g u) = Some (x, s')"
  shows "mq_inv s' \<and> mq_pending u + (case z of None \<Rightarrow> {#} | Some t \<Rightarrow> {#t#}) =
    (case x of None \<Rightarrow> {#} | Some t \<Rightarrow> {#t#}) + mq_pending s'"
proof (cases "z \<noteq> None \<or> mq_num_executors u \<le> 1")
  case True
  then show ?thesis using eq inv by (cases z) (auto simp: union_commute)
next
  case False
  then obtain ls where ls: "at_queue (mq_last_steal u) g = Some ls"
    using eq by (auto split: option.splits)
  show ?thesis
  proof (cases "ls = KUPL_MQ_DEFAULT")
    case True
    then show ?thesis using eq False ls mq_steal_spec[OF inv, of ep tbs g x s'] by simp
  next
    case own: False
    obtain y v where v: "pop_one_tb ep tbs u ls = Some (y, v)"
      using eq False ls own by (cases "pop_one_tb ep tbs u ls") auto
    note P = pop_one_spec[OF inv v]
    show ?thesis
    proof (cases y)
      case None
      then have "mq_steal ep tbs g v = Some (x, s')" using eq False ls own v by simp
      from mq_steal_spec[OF _ this] P None False show ?thesis by simp
    next
      case (Some t)
      then show ?thesis using eq False ls own v P by auto
    qed
  qed
qed

lemma mq_get:
  assumes inv: "mq_inv s" and eq: "kupl_sched_mq_get_tb ep tbs g s = Some (x, s')"
  shows "mq_inv s' \<and> mq_pending s = (case x of None \<Rightarrow> {#} | Some t \<Rightarrow> {#t#}) + mq_pending s'"
proof (cases "g = KUPL_EIDCID_INIT")
  case True
  then show ?thesis using inv eq by (auto simp: kupl_sched_mq_get_tb_def)
next
  case False
  then obtain y u where u: "pop_one_tb ep tbs s g = Some (y, u)"
    using eq by (auto simp: kupl_sched_mq_get_tb_def split: option.splits)
  note U = pop_one_spec[OF inv u]
  show ?thesis
  proof (cases y)
    case (Some t)
    then show ?thesis using eq False u U by (auto simp: kupl_sched_mq_get_tb_def)
  next
    case None
    then obtain js where js: "at_queue (mq_place u) g = Some js"
      using eq False u by (auto simp: kupl_sched_mq_get_tb_def split: option.splits)
    obtain z qs where z: "place_get (mq_real u) js = (z, qs)" by fastforce
    let ?u = "u\<lparr>mq_real := qs\<rparr>"
    have "\<forall>j\<in>set js. j < length (mq_real u)"
      using U at_queue_set[OF js] by (simp add: mq_inv_def)
    then have V: "mq_inv ?u" "mq_pending u = (case z of None \<Rightarrow> {#} | Some t \<Rightarrow> {#t#}) + mq_pending ?u"
      using place_get_spec[OF _ _ z] U by (auto simp: mq_inv_def mq_pending_def)
    have step: "(if z \<noteq> None then Some (z, ?u)
        else if mq_num_executors ?u \<le> 1 then Some (None, ?u)
        else case at_queue (mq_last_steal ?u) g of None \<Rightarrow> None
          | Some ls \<Rightarrow> if ls \<noteq> KUPL_MQ_DEFAULT
              then (case pop_one_tb ep tbs ?u ls of None \<Rightarrow> None
                | Some (tb, v) \<Rightarrow> if tb \<noteq> None then Some (tb, v) else mq_steal ep tbs g v)
              else mq_steal ep tbs g ?u) = Some (x, s')"
      using eq False u None js z unfolding kupl_sched_mq_get_tb_def Let_def by simp
    have "mq_inv s' \<and> mq_pending ?u + (case z of None \<Rightarrow> {#} | Some t \<Rightarrow> {#t#}) =
        (case x of None \<Rightarrow> {#} | Some t \<Rightarrow> {#t#}) + mq_pending s'"
      using mq_search_tail[OF V(1) step] by simp
    then show ?thesis using U V None by (simp add: union_commute)
  qed
qed

interpretation mq: sched_plugin
  "kupl_sched_mq_add_tb ep tbs" "kupl_sched_mq_get_tb ep tbs" mq_pending mq_inv
  for ep tbs
  by unfold_locales (blast dest: mq_add mq_get)+

text \<open>A token that \<open>parse_eid\<close> accepts is an executor number below \<open>CPU_SETSIZE\<close>.\<close>

lemma parse_eid_range: "parse_eid erange t = KUPL_EIDCID_INIT \<or>
    0 \<le> parse_eid erange t \<and> parse_eid erange t < CPU_SETSIZE"
  by (simp add: parse_eid_def split: option.splits)

lemma scatter_stuck:
  assumes "parse_place_scatter erange ts s = Some r"
  shows "\<forall>t\<in>set ts. parse_eid erange t \<noteq> KUPL_EIDCID_INIT"
proof (rule parse_place_scatter.raw_induct
    [where P = "\<lambda>er ts s r. \<forall>t\<in>set ts. parse_eid er t \<noteq> KUPL_EIDCID_INIT", OF _ assms])
  fix f :: "bool \<Rightarrow> string list \<Rightarrow> int set \<Rightarrow> int set option" and er ts s r
  assume IH: "\<And>er ts s r. f er ts s = Some r \<Longrightarrow> \<forall>t\<in>set ts. parse_eid er t \<noteq> KUPL_EIDCID_INIT"
    and eq: "(case ts of [] \<Rightarrow> Some s
      | t # rest \<Rightarrow> let eid = parse_eid er t
          in if eid = KUPL_EIDCID_INIT then f er ts s else f er rest (insert eid s)) = Some r"
  show "\<forall>t\<in>set ts. parse_eid er t \<noteq> KUPL_EIDCID_INIT"
    using IH eq by (cases ts) (fastforce simp: Let_def split: if_splits)+
qed

lemma scatter_valid:
  "\<forall>t\<in>set ts. parse_eid erange t \<noteq> KUPL_EIDCID_INIT \<Longrightarrow>
    parse_place_scatter erange ts s = Some (s \<union> parse_eid erange ` set ts)"
  by (induction ts arbitrary: s) (subst parse_place_scatter.simps, simp add: Let_def)+

section \<open>Properties\<close>

definition example_mq :: kupl_sched_mq where
  "example_mq = \<lparr>mq_queue_size = 4, mq_num_executors = 2,
     mq_priority = Some \<lparr>pq_q = [], pq_spsc = empty_vector, pq_tb_cnt = 0, pq_size = 4\<rparr>,
     mq_local = [Some empty_vector, Some empty_vector], mq_place = [[], []], mq_real = [],
     mq_last_steal = [KUPL_MQ_DEFAULT, KUPL_MQ_DEFAULT], mq_rnd = (\<lambda>_. None)\<rparr>"

lemma example_mq_inv: "mq_inv example_mq"
  using empty_vector_inv
  by (simp add: mq_inv_def opq_inv_def qs_inv_def queue_inv_def pq_inv_def example_mq_def)

text \<open>
  C21: Work stealing neither loses nor duplicates tasks: in every run of add and get calls on an
  \<open>mq\<close> scheduler the tasks pending at first and accepted are those handed out and those still
  pending, whichever of the priority, own, place, last-victim and random-victim sources served
  each call.
\<close>

theorem mq_conserves:
  assumes "mq_inv s"
    and "sched_run (kupl_sched_mq_add_tb ep tbs) (kupl_sched_mq_get_tb ep tbs) s cs =
         Some (i, j, s')"
  shows "mq_pending s + i = j + mq_pending s' \<and> mq_inv s'"
  using assms by (rule mq.run_conserves)

text \<open>
  In the witness executor 0 queues the task 9, and executor 1 steals it: the victim is the first
  draw of its freshly seeded generator.
\<close>

theorem mq_conserves_witness:
  "\<exists>s'. mq_pending example_mq + {#9#} = {#9#} + mq_pending s'"
proof -
  have r: "kupl_init_random 1 None = (0xC2C4CE83, 0xe1626741)"
    by (simp add: kupl_init_random_def kupl_primes_def Let_def)
  have d: "\<exists>xa. steal_draw 2 1 (0xC2C4CE83, 0xe1626741) = Some (0, xa)"
    by (subst steal_draw.simps)
      (simp add: kupl_get_random_def Let_def drop_bit_eq_div unat_word_ariths uint_word_arith_bintrs)
  obtain xa where xa: "steal_draw 2 1 (0xC2C4CE83, 0xe1626741) = Some (0, xa)" using d by blast
  have "\<exists>s'. sched_run (kupl_sched_mq_add_tb False (\<lambda>_. example_tb))
    (kupl_sched_mq_get_tb False (\<lambda>_. example_tb)) example_mq [Add 0 9, Get 1] =
      Some ({#9#}, {#9#}, s')"
    by (simp add: plugin_eval kupl_sched_mq_add_tb_def kupl_sched_mq_get_tb_def mq_steal_def
        pop_one_tb_def example_mq_def example_tb_def KUPL_MQ_DEFAULT_def r xa)
  then show ?thesis using mq_conserves[OF example_mq_inv] by blast
qed

text \<open>
  The parser of a comma-separated place returns exactly when every piece of it is a valid
  executor number, and then with those numbers; on a piece that is not valid, as \<open>4096\<close> in
  \<open>1,4096\<close>, its loop looks at the same piece for ever.
\<close>

theorem parse_place_scatter_returns:
  "parse_place_scatter erange ts s =
     (if \<forall>t\<in>set ts. parse_eid erange t \<noteq> KUPL_EIDCID_INIT
      then Some (s \<union> parse_eid erange ` set ts) else None)"
  using scatter_valid scatter_stuck by (cases "parse_place_scatter erange ts s") fastforce+

theorem parse_place_scatter_returns_witness:
  "parse_place_scatter False [''1'', ''30''] {} = Some {1, 30} \<and>
   parse_place_scatter False [''1'', ''4096''] {} = None"
proof -
  have p: "parse_eid False ''1'' = 1" "parse_eid False ''30'' = 30"
    "parse_eid False ''4096'' = KUPL_EIDCID_INIT"
    by code_simp+
  show ?thesis
    using parse_place_scatter_returns[of False "[''1'', ''30'']" "{}"]
      parse_place_scatter_returns[of False "[''1'', ''4096'']" "{}"]
    by (simp add: p KUPL_EIDCID_INIT_def)
qed

end
