(* ===== verification/Kupl_Executor.thy ===== *)
theory Kupl_Executor
  imports Kupl_Taskbase
begin

text \<open>
  The executors of \<open>src/src/executor/kupl_executor.cpp\<close>: the table of executors, the numbering of
  the threads, the expansion of the table by threads the library did not start, and the kernel
  concurrency settings.  A thread is named by a number; \<open>xs_geid\<close> is the thread-local executor id
  of the pthread backend (\<open>backend/pthread/kupl_pthread.cpp\<close>).
\<close>

section \<open>State\<close>

definition KUPL_EXECUTOR_DEFAULT :: int where "KUPL_EXECUTOR_DEFAULT = -1"
definition KUPL_PLACES_DEFAULT :: int where "KUPL_PLACES_DEFAULT = -1"
definition CPU_SET_BITS :: int where "CPU_SET_BITS = 1024"

lemmas executor_consts = KUPL_EXECUTOR_DEFAULT_def KUPL_PLACES_DEFAULT_def CPU_SET_BITS_def

record kupl_executor_base =
  ex_executor_id :: int
  ex_place_id :: int
  ex_stop :: bool
  ex_thread_id :: nat
  ex_lock :: bool
  ex_current_tb :: "ptr option"
  ex_ult :: "ptr option"
  ex_sched :: "ptr option"
  ex_is_master_executor :: bool

text \<open>An entry of the table as \<open>kupl_calloc\<close> leaves it.\<close>

definition zero_executor :: kupl_executor_base where
  "zero_executor = \<lparr>ex_executor_id = 0, ex_place_id = 0, ex_stop = False, ex_thread_id = 0,
     ex_lock = False, ex_current_tb = None, ex_ult = None, ex_sched = None,
     ex_is_master_executor = False\<rparr>"

record executor_state =
  g_executors :: "kupl_executor_base list option"
  g_real_executor_count :: int
  g_executor_count :: int
  g_executor_count_initial :: int
  g_executor_set :: "int set"
  g_executor_set_expand :: "int set"
  g_kernel_concurrency :: int
  g_kernel_concurrency_local :: "nat \<Rightarrow> int"
  xs_geid :: "nat \<Rightarrow> int"

text \<open>Reading and writing an entry; \<open>None\<close> is an access outside the table.\<close>

definition exe_at :: "executor_state \<Rightarrow> int \<Rightarrow> kupl_executor_base option" where
  "exe_at s i = (case g_executors s of
      None \<Rightarrow> None
    | Some xs \<Rightarrow> if 0 \<le> i \<and> nat i < length xs then Some (xs ! nat i) else None)"

definition exe_upd :: "int \<Rightarrow> (kupl_executor_base \<Rightarrow> kupl_executor_base) \<Rightarrow> executor_state \<Rightarrow>
    executor_state option" where
  "exe_upd i f s = (case g_executors s of
      None \<Rightarrow> None
    | Some xs \<Rightarrow> if 0 \<le> i \<and> nat i < length xs
               then Some (s\<lparr>g_executors := Some (xs[nat i := f (xs ! nat i)])\<rparr>) else None)"

section \<open>The current executor\<close>

definition exe_unknown :: "executor_state \<Rightarrow> int \<Rightarrow> bool" where
  "exe_unknown s eid \<longleftrightarrow> eid = KUPL_EXECUTOR_DEFAULT \<or> eid \<ge> g_executor_count s"

definition kupl_executor_set_current_tb :: "nat \<Rightarrow> ptr option \<Rightarrow> executor_state \<Rightarrow>
    executor_state option" where
  "kupl_executor_set_current_tb th tb s =
     (if exe_unknown s (xs_geid s th) then Some s
      else exe_upd (xs_geid s th) (\<lambda>e. e\<lparr>ex_current_tb := tb\<rparr>) s)"

definition kupl_executor_get_current_tb :: "nat \<Rightarrow> executor_state \<Rightarrow> ptr option option" where
  "kupl_executor_get_current_tb th s =
     (if exe_unknown s (xs_geid s th) then Some None
      else map_option ex_current_tb (exe_at s (xs_geid s th)))"

definition kupl_executor_set_pf_ult :: "ptr option \<Rightarrow> int \<Rightarrow> executor_state \<Rightarrow>
    executor_state option" where
  "kupl_executor_set_pf_ult ult geid s =
     (if exe_unknown s geid then Some s else exe_upd geid (\<lambda>e. e\<lparr>ex_ult := ult\<rparr>) s)"

definition kupl_executor_get_pf_ult :: "nat \<Rightarrow> executor_state \<Rightarrow> ptr option option" where
  "kupl_executor_get_pf_ult th s =
     (if exe_unknown s (xs_geid s th) then Some None
      else map_option ex_ult (exe_at s (xs_geid s th)))"

text \<open>\<open>np\<close> is \<open>g_num_places\<close>.\<close>

definition kupl_executor_set_place_id :: "int \<Rightarrow> int \<Rightarrow> int \<Rightarrow> executor_state \<Rightarrow>
    executor_state option" where
  "kupl_executor_set_place_id np place_id geid s =
     (if exe_unknown s geid then Some s
      else if place_id \<ge> np then exe_upd geid (\<lambda>e. e\<lparr>ex_place_id := KUPL_PLACES_DEFAULT\<rparr>) s
      else exe_upd geid (\<lambda>e. e\<lparr>ex_place_id := place_id\<rparr>) s)"

definition kupl_executor_get_place_id :: "int \<Rightarrow> executor_state \<Rightarrow> int option" where
  "kupl_executor_get_place_id geid s =
     (if exe_unknown s geid then Some KUPL_PLACES_DEFAULT
      else map_option ex_place_id (exe_at s geid))"

definition kupl_executor_enable :: "int \<Rightarrow> executor_state \<Rightarrow> executor_state option" where
  "kupl_executor_enable executor_id s =
     (if executor_id < 0 \<or> executor_id \<ge> g_executor_count s then Some s
      else exe_upd executor_id (\<lambda>e. e\<lparr>ex_stop := False\<rparr>) s)"

definition kupl_executor_disable :: "int \<Rightarrow> executor_state \<Rightarrow> executor_state option" where
  "kupl_executor_disable executor_id s =
     (if executor_id < 0 \<or> executor_id \<ge> g_executor_count s then Some s
      else exe_upd executor_id (\<lambda>e. e\<lparr>ex_stop := True\<rparr>) s)"

section \<open>Numbering and expansion\<close>

text \<open>\<open>inited\<close>: the core is initialised, or \<open>kupl_init\<close> succeeds when the call triggers it.\<close>

definition kupl_get_num_executors :: "bool \<Rightarrow> executor_state \<Rightarrow> int" where
  "kupl_get_num_executors inited s = (if \<not> inited then KUPL_ERROR else g_real_executor_count s)"

text \<open>
  A thread without an executor id claims the next entry of the table.  \<open>lockok\<close> is the outcome of
  creating its lock, \<open>sched\<close> the scheduler of the expanded executors.
\<close>

definition kupl_executor_expand :: "bool \<Rightarrow> ptr option \<Rightarrow> nat \<Rightarrow> executor_state \<Rightarrow>
    (int \<times> executor_state) option" where
  "kupl_executor_expand lockok sched th s =
     (if g_executor_count s \<ge> CPU_SET_BITS then Some (KUPL_ERROR, s)
      else if \<not> lockok
      then map_option (\<lambda>s. (KUPL_ERROR, s)) (exe_upd (g_executor_count s) (\<lambda>e. e\<lparr>ex_lock := False\<rparr>) s)
      else (let i = g_executor_count s in
        case exe_upd i (\<lambda>e. e\<lparr>ex_lock := True, ex_executor_id := i, ex_place_id := KUPL_PLACES_DEFAULT,
                             ex_stop := True, ex_current_tb := None,
                             ex_is_master_executor := True, ex_sched := sched\<rparr>) s of
          None \<Rightarrow> None
        | Some s \<Rightarrow>
            (case kupl_executor_enable i (s\<lparr>g_executor_set_expand := insert i (g_executor_set_expand s),
                                         g_executor_count := i + 1\<rparr>) of
               None \<Rightarrow> None
             | Some s \<Rightarrow> Some (KUPL_OK, s\<lparr>xs_geid := (xs_geid s)(th := i)\<rparr>))))"

text \<open>
  The number of the calling thread.  \<open>schedok\<close> and \<open>memok\<close> are the outcomes of expanding the
  scheduler and the memory pool; on an error the thread keeps its default id.
\<close>

definition kupl_get_executor_num ::
  "bool \<Rightarrow> bool \<Rightarrow> bool \<Rightarrow> bool \<Rightarrow> ptr option \<Rightarrow> nat \<Rightarrow> executor_state \<Rightarrow>
   (int \<times> executor_state) option" where
  "kupl_get_executor_num inited schedok memok lockok sched th s =
     (if \<not> inited then Some (KUPL_ERROR, s)
      else (case (if xs_geid s th = KUPL_EXECUTOR_DEFAULT
                  then (if \<not> schedok \<or> \<not> memok then Some s
                        else map_option snd (kupl_executor_expand lockok sched th s))
                  else Some s) of
          None \<Rightarrow> None
        | Some s \<Rightarrow>
            (let eid = xs_geid s th
             in Some (if exe_unknown s eid then KUPL_EXECUTOR_DEFAULT else eid, s))))"

definition kupl_is_expand_executor :: "int \<Rightarrow> executor_state \<Rightarrow> bool" where
  "kupl_is_expand_executor eid s \<longleftrightarrow> eid \<ge> g_executor_count_initial s"

definition kupl_get_local_executor_num :: "int \<Rightarrow> executor_state \<Rightarrow> int" where
  "kupl_get_local_executor_num eid s =
     (if eid \<ge> g_executor_count_initial s then eid - g_executor_count_initial s else eid)"

definition kupl_get_global_executor_set :: "int \<Rightarrow> executor_state \<Rightarrow> int set" where
  "kupl_get_global_executor_set eid s =
     (if kupl_is_expand_executor eid s then g_executor_set_expand s else g_executor_set s)"

section \<open>Life cycle\<close>

definition kupl_executor_count_init :: "int \<Rightarrow> int \<Rightarrow> executor_state \<Rightarrow> executor_state" where
  "kupl_executor_count_init config_count num_places s =
     s\<lparr>g_real_executor_count := (if config_count = 0 then num_places else config_count)\<rparr>"

text \<open>The loop that sets up the executors of the table; \<open>Inr\<close> is the \<open>goto err\<close> of a failed lock.\<close>

fun executor_init_loop :: "bool list \<Rightarrow> ptr option \<Rightarrow> nat \<Rightarrow> nat \<Rightarrow> executor_state \<Rightarrow>
    (bool \<times> executor_state) option" where
  "executor_init_loop locks sched i 0 s = Some (True, s)"
| "executor_init_loop locks sched i (Suc n) s =
     (case locks of
        [] \<Rightarrow> None
      | ok # locks \<Rightarrow>
          (if \<not> ok then map_option (\<lambda>s. (False, s)) (exe_upd (int i) (\<lambda>e. e\<lparr>ex_lock := False\<rparr>) s)
           else (case exe_upd (int i)
                    (\<lambda>e. e\<lparr>ex_lock := True, ex_executor_id := int i, ex_place_id := KUPL_EXECUTOR_DEFAULT,
                          ex_stop := True, ex_current_tb := None, ex_is_master_executor := False,
                          ex_sched := sched\<rparr>) s of
               None \<Rightarrow> None
             | Some s \<Rightarrow> executor_init_loop locks sched (Suc i) n s)))"

definition kupl_executor_fini :: "executor_state \<Rightarrow> executor_state" where
  "kupl_executor_fini s =
     (if g_executors s = None then s else s\<lparr>g_executors := None, g_executor_count := 0\<rparr>)"

definition kupl_executor_init ::
  "int \<Rightarrow> bool \<Rightarrow> bool \<Rightarrow> bool list \<Rightarrow> bool \<Rightarrow> ptr option \<Rightarrow> executor_state \<Rightarrow>
   (int \<times> executor_state) option" where
  "kupl_executor_init concurrency allocok cvok locks glock sched s =
     (let s = (if concurrency \<noteq> 0 then s\<lparr>g_kernel_concurrency := concurrency\<rparr> else s);
          s = s\<lparr>g_executor_count := g_real_executor_count s\<rparr>
      in if \<not> allocok then Some (KUPL_ERROR, s\<lparr>g_executors := None\<rparr>)
         else (let s = s\<lparr>g_executors := Some (replicate (nat CPU_SET_BITS) zero_executor)\<rparr>
               in if \<not> cvok then Some (KUPL_ERROR, kupl_executor_fini s)
                  else (case executor_init_loop locks sched 0 (nat (g_executor_count s)) s of
                      None \<Rightarrow> None
                    | Some (ok, s) \<Rightarrow>
                        if \<not> ok then Some (KUPL_ERROR, kupl_executor_fini s)
                        else (let s = s\<lparr>g_executor_count_initial := g_executor_count s\<rparr>
                              in if \<not> glock then Some (KUPL_ERROR, kupl_executor_fini s)
                                 else Some (KUPL_OK, s)))))"

section \<open>Kernel concurrency\<close>

definition kupl_set_kernel_concurrency :: "bool \<Rightarrow> int \<Rightarrow> executor_state \<Rightarrow> executor_state" where
  "kupl_set_kernel_concurrency inited num s =
     (if \<not> inited then s
      else if num < 1 \<or> num > kupl_get_num_executors inited s
      then s\<lparr>g_kernel_concurrency := kupl_get_num_executors inited s\<rparr>
      else s\<lparr>g_kernel_concurrency := num\<rparr>)"

definition kupl_get_kernel_concurrency_inner :: "bool \<Rightarrow> nat \<Rightarrow> executor_state \<Rightarrow> int" where
  "kupl_get_kernel_concurrency_inner inited th s =
     (if \<not> inited then KUPL_ERROR
      else if g_kernel_concurrency_local s th \<noteq> -1 then g_kernel_concurrency_local s th
      else if g_kernel_concurrency s \<noteq> -1 then g_kernel_concurrency s
      else kupl_get_num_executors inited s)"

text \<open>
  The value before the initialisation: \<open>config_count\<close> is \<open>KUPL_EXECUTOR_COUNT\<close>, \<open>pu_conf\<close> the number
  of processors and \<open>cpus\<close> the affinity of the thread.
\<close>

definition kupl_get_max_concurrency ::
  "bool \<Rightarrow> int \<Rightarrow> int \<Rightarrow> int set \<Rightarrow> bool \<Rightarrow> nat \<Rightarrow> executor_state \<Rightarrow> int" where
  "kupl_get_max_concurrency inited config_count pu_conf cpus in_parallel th s =
     (if \<not> inited then
        (let affinity = int (length (filter (\<lambda>i. i \<in> cpus) [0..pu_conf - 1]));
             count = (if config_count = 0 then pu_conf else config_count);
             count = (if pu_conf < count then pu_conf else count);
             count = (if affinity < count then affinity else count)
         in if count > 0 then count else 1)
      else if in_parallel then 1
      else kupl_get_kernel_concurrency_inner True th s)"

definition kupl_set_kernel_concurrency_local :: "bool \<Rightarrow> nat \<Rightarrow> int \<Rightarrow> executor_state \<Rightarrow>
    executor_state" where
  "kupl_set_kernel_concurrency_local inited th num s =
     (if \<not> inited then s
      else if num < 1 \<or> num > kupl_get_num_executors inited s
      then s\<lparr>g_kernel_concurrency_local :=
               (g_kernel_concurrency_local s)(th := kupl_get_num_executors inited s)\<rparr>
      else s\<lparr>g_kernel_concurrency_local := (g_kernel_concurrency_local s)(th := num)\<rparr>)"

definition kupl_get_kernel_concurrency_local :: "bool \<Rightarrow> nat \<Rightarrow> executor_state \<Rightarrow> int" where
  "kupl_get_kernel_concurrency_local inited th s =
     (if \<not> inited then KUPL_ERROR
      else if g_kernel_concurrency_local s th \<noteq> -1 then g_kernel_concurrency_local s th
      else kupl_get_num_executors inited s)"

section \<open>Invariant\<close>

text \<open>
  The table has one entry for every possible processor, the executors in use come first, the ids
  of distinct threads are distinct, and the expanded set holds exactly the expanded executors.
\<close>

definition exe_inv :: "executor_state \<Rightarrow> bool" where
  "exe_inv s \<longleftrightarrow> (\<exists>xs. g_executors s = Some xs \<and> length xs = 1024) \<and>
     0 \<le> g_executor_count_initial s \<and> g_executor_count_initial s \<le> g_executor_count s \<and>
     g_executor_count s \<le> 1024 \<and>
     g_executor_set_expand s = {i. g_executor_count_initial s \<le> i \<and> i < g_executor_count s} \<and>
     (\<forall>th. -1 \<le> xs_geid s th \<and> xs_geid s th < g_executor_count s) \<and>
     (\<forall>t1 t2. xs_geid s t1 = xs_geid s t2 \<longrightarrow> t1 = t2 \<or> xs_geid s t1 = -1)"

lemma exe_upd_frame:
  assumes "exe_upd i f s = Some s'"
  shows "s' = s\<lparr>g_executors := g_executors s'\<rparr> \<and>
    (\<forall>xs. g_executors s = Some xs \<longrightarrow> (\<exists>ys. g_executors s' = Some ys \<and> length ys = length xs))"
  using assms by (auto simp: exe_upd_def split: option.splits if_splits)

lemma exe_upd_fields:
  assumes "s' = s\<lparr>g_executors := x\<rparr>"
  shows "xs_geid s' = xs_geid s" "g_executor_count s' = g_executor_count s"
    "g_executor_count_initial s' = g_executor_count_initial s"
    "g_executor_set_expand s' = g_executor_set_expand s"
  using assms by simp_all

lemma exe_upd_total:
  "exe_inv s \<Longrightarrow> 0 \<le> i \<Longrightarrow> i < 1024 \<Longrightarrow> \<exists>s'. exe_upd i f s = Some s'"
  by (auto simp: exe_inv_def exe_upd_def)

lemma exe_upd_inv: "exe_inv s \<Longrightarrow> exe_upd i f s = Some s' \<Longrightarrow> exe_inv s'"
  using exe_upd_frame[of i f s s'] by (cases s, cases s') (auto simp: exe_inv_def)

lemma executor_enable_inv: "exe_inv s \<Longrightarrow> kupl_executor_enable i s = Some s' \<Longrightarrow>
    exe_inv s' \<and> s' = s\<lparr>g_executors := g_executors s'\<rparr>"
  using exe_upd_inv exe_upd_frame by (auto simp: kupl_executor_enable_def split: if_splits)

text \<open>A successful expansion numbers the thread with the entry it takes.\<close>

lemma executor_expand_spec:
  assumes inv: "exe_inv s" and new: "xs_geid s th = -1"
  obtains (full) "g_executor_count s \<ge> 1024" "kupl_executor_expand ok sched th s = Some (KUPL_ERROR, s)"
  | (nolock) s' where "\<not> ok" "kupl_executor_expand ok sched th s = Some (KUPL_ERROR, s')"
      "exe_inv s'" "s' = s\<lparr>g_executors := g_executors s'\<rparr>"
  | (claimed) s' where "ok" "g_executor_count s < 1024"
      "kupl_executor_expand ok sched th s = Some (KUPL_OK, s')"
      "exe_inv s'" "xs_geid s' = (xs_geid s)(th := g_executor_count s)"
      "g_executor_count s' = g_executor_count s + 1"
      "g_executor_count_initial s' = g_executor_count_initial s"
proof (cases "g_executor_count s \<ge> 1024")
  case True
  then show thesis using full by (simp add: kupl_executor_expand_def executor_consts)
next
  case False
  let ?i = "g_executor_count s"
  have i: "0 \<le> ?i" "?i < 1024" using inv False by (auto simp: exe_inv_def)
  show thesis
  proof (cases ok)
    case False
    obtain u where u: "exe_upd ?i (\<lambda>e. e\<lparr>ex_lock := False\<rparr>) s = Some u"
      using exe_upd_total[OF inv i] by blast
    then have "kupl_executor_expand ok sched th s = Some (KUPL_ERROR, u)"
      using False i by (simp add: kupl_executor_expand_def executor_consts)
    then show thesis using nolock False exe_upd_inv[OF inv u] exe_upd_frame[OF u] by blast
  next
    case True
    let ?f = "\<lambda>e. e\<lparr>ex_lock := True, ex_executor_id := ?i, ex_place_id := KUPL_PLACES_DEFAULT,
        ex_stop := True, ex_current_tb := None, ex_is_master_executor := True, ex_sched := sched\<rparr>"
    obtain u where u: "exe_upd ?i ?f s = Some u" using exe_upd_total[OF inv i] by blast
    let ?v = "u\<lparr>g_executor_set_expand := insert ?i (g_executor_set_expand u),
                g_executor_count := ?i + 1\<rparr>"
    note fr = exe_upd_frame[OF u]
    have "\<exists>w. kupl_executor_enable ?i ?v = Some w \<and> w = ?v\<lparr>g_executors := g_executors w\<rparr> \<and>
        (\<exists>ys. g_executors w = Some ys \<and> length ys = 1024)"
      using i fr inv by (auto simp: kupl_executor_enable_def exe_upd_def exe_inv_def)
    then obtain w where w: "kupl_executor_enable ?i ?v = Some w" "w = ?v\<lparr>g_executors := g_executors w\<rparr>"
      "\<exists>ys. g_executors w = Some ys \<and> length ys = 1024" by blast
    let ?w = "w\<lparr>xs_geid := (xs_geid w)(th := ?i)\<rparr>"
    have eq: "kupl_executor_expand ok sched th s = Some (KUPL_OK, ?w)"
      using True False i u w(1) by (simp add: kupl_executor_expand_def executor_consts Let_def)
    note flds = exe_upd_fields[OF w(2), simplified] exe_upd_fields[OF conjunct1[OF fr]]
    have new': "\<forall>t1 t2. ((xs_geid s)(th := ?i)) t1 = ((xs_geid s)(th := ?i)) t2 \<longrightarrow>
        t1 = t2 \<or> ((xs_geid s)(th := ?i)) t1 = -1"
      using inv by (auto simp: exe_inv_def fun_upd_def) (metis less_irrefl)+
    have rng: "\<forall>t. -1 \<le> ((xs_geid s)(th := ?i)) t \<and> ((xs_geid s)(th := ?i)) t < ?i + 1"
      using inv i(1) by (auto simp: exe_inv_def intro: less_imp_le)
    have st: "insert ?i {j. g_executor_count_initial s \<le> j \<and> j < ?i} =
        {j. g_executor_count_initial s \<le> j \<and> j < ?i + 1}"
      using inv by (auto simp: exe_inv_def)
    have "exe_inv ?w" using inv new' rng st w(3) i unfolding exe_inv_def by (simp add: flds)
    then show thesis using claimed[OF True _ eq] flds i by simp
  qed
qed

section \<open>Properties\<close>

definition example_exe :: executor_state where
  "example_exe = \<lparr>g_executors = Some (replicate 1024 zero_executor), g_real_executor_count = 4,
     g_executor_count = 4, g_executor_count_initial = 4, g_executor_set = {0, 1, 2, 3},
     g_executor_set_expand = {}, g_kernel_concurrency = -1, g_kernel_concurrency_local = (\<lambda>_. -1),
     xs_geid = (\<lambda>th. if th < 4 then int th else -1)\<rparr>"

lemma example_exe_inv: "exe_inv example_exe"
  by (auto simp: exe_inv_def example_exe_def)

text \<open>
  C22: Asking for the number of the calling thread keeps the table of executors consistent: distinct
  threads keep distinct numbers, the expanded set holds exactly the numbers handed out after the
  start, and the answer is the default number or the thread's own entry of the table.  A thread
  that has no number gets the next free entry when every allocation succeeds and the table is not
  full.
\<close>

theorem get_executor_num_unique:
  assumes "exe_inv s"
  shows "\<exists>r s'. kupl_get_executor_num True schedok memok lockok sched th s = Some (r, s') \<and>
    exe_inv s' \<and> r = xs_geid s' th \<and> -1 \<le> r \<and> r < g_executor_count s' \<and>
    (xs_geid s th = -1 \<and> schedok \<and> memok \<and> lockok \<and> g_executor_count s < 1024 \<longrightarrow>
       r = g_executor_count s \<and> g_executor_count s' = g_executor_count s + 1 \<and>
       kupl_is_expand_executor r s' \<and>
       kupl_get_local_executor_num r s' = r - g_executor_count_initial s)"
proof (cases "xs_geid s th = -1 \<and> schedok \<and> memok")
  case False
  have g: "-1 \<le> xs_geid s th" "xs_geid s th < g_executor_count s" using assms by (auto simp: exe_inv_def)
  then have "kupl_get_executor_num True schedok memok lockok sched th s = Some (xs_geid s th, s)"
    using False by (auto simp: kupl_get_executor_num_def executor_consts exe_unknown_def Let_def)
  then show ?thesis using assms False g by auto
next
  case True
  then have new: "xs_geid s th = -1" by simp
  have g: "-1 \<le> xs_geid u t \<and> xs_geid u t < g_executor_count u" if "exe_inv u" for u t
    using that by (simp add: exe_inv_def)
  show ?thesis
  proof (rule executor_expand_spec[OF assms new, of lockok sched], goal_cases full nolock claimed)
    case full
    then show ?thesis using True assms new g[OF assms, of th]
      by (auto simp: kupl_get_executor_num_def executor_consts exe_unknown_def)
  next
    case (nolock s')
    then have "xs_geid s' th = -1" using new by (cases s, cases s') simp
    then show ?thesis using True nolock new g[OF nolock(3), of th]
      by (auto simp: kupl_get_executor_num_def executor_consts exe_unknown_def)
  next
    case (claimed s')
    have "g_executor_count_initial s \<le> g_executor_count s" "0 \<le> g_executor_count s"
      using assms by (auto simp: exe_inv_def)
    then show ?thesis using True claimed new
      by (auto simp: kupl_get_executor_num_def executor_consts exe_unknown_def
          kupl_is_expand_executor_def kupl_get_local_executor_num_def)
  qed
qed

theorem get_executor_num_unique_witness:
  "\<exists>r s'. kupl_get_executor_num True True True True None 7 example_exe = Some (r, s') \<and> r = 4"
proof -
  have "xs_geid example_exe 7 = -1 \<and> g_executor_count example_exe = 4"
    by (simp add: example_exe_def)
  then show ?thesis
    using get_executor_num_unique[OF example_exe_inv, of True True True None 7] by auto
qed

text \<open>
  After a thread set the kernel concurrency, any request outside \<open>1..num_executors\<close> counts as
  the number of executors, so the value used is always in that range; the thread's local setting
  wins over the global one, for this thread only.
\<close>

theorem kernel_concurrency_range:
  assumes "1 \<le> g_real_executor_count s"
  shows "let s' = kupl_set_kernel_concurrency_local True th num s;
             s'' = kupl_set_kernel_concurrency True g s'
         in kupl_get_kernel_concurrency_inner True th s'' =
              (if 1 \<le> num \<and> num \<le> g_real_executor_count s then num else g_real_executor_count s) \<and>
            (th' \<noteq> th \<and> g_kernel_concurrency_local s th' = -1 \<longrightarrow>
              kupl_get_kernel_concurrency_inner True th' s'' =
                (if 1 \<le> g \<and> g \<le> g_real_executor_count s then g else g_real_executor_count s))"
  using assms
  by (auto simp: Let_def kupl_set_kernel_concurrency_local_def kupl_set_kernel_concurrency_def
      kupl_get_kernel_concurrency_inner_def kupl_get_num_executors_def)

theorem kernel_concurrency_range_witness:
  "kupl_get_kernel_concurrency_inner True 2
     (kupl_set_kernel_concurrency True 9 (kupl_set_kernel_concurrency_local True 2 3 example_exe)) = 3"
  using kernel_concurrency_range[of example_exe 2 3 9]
  by (simp add: Let_def example_exe_def)

end
