(* ===== verification/Kupl_Egroup.thy ===== *)
theory Kupl_Egroup
  imports Kupl_Executor
begin

text \<open>
  Executor groups (\<open>src/src/executor/kupl_executor_group.cpp\<close> and \<open>.h\<close>): creation from an array of
  executor numbers, the round-robin choice of the next executor, lending executors to another
  group and returning them, and the guards of the group barriers.  The 32-bit fields are natural
  numbers: no operation lets a size or a number pass 2048.
\<close>

section \<open>State\<close>

definition KUPL_EXECUTOR_ID_MAX :: nat where "KUPL_EXECUTOR_ID_MAX = 1024"
definition KUPL_EGROUP_ID_NULL :: nat where "KUPL_EGROUP_ID_NULL = 4294967295"

lemmas egroup_consts = KUPL_EXECUTOR_ID_MAX_def KUPL_EGROUP_ID_NULL_def

record kupl_egroup_info =
  ei_size :: nat
  ei_min_eid :: nat
  ei_max_eid :: nat
  ei_eid_set :: "nat set"
  ei_eid2lid :: "nat \<Rightarrow> nat"

text \<open>The barrier is represented by its size, \<open>None\<close> before it exists.\<close>

record kupl_egroup =
  eg_next :: nat
  eg_def :: kupl_egroup_info
  eg_cur :: kupl_egroup_info
  eg_lock :: bool
  eg_barrier :: "int option"
  eg_alloc_id :: int

definition empty_info :: kupl_egroup_info where
  "empty_info = \<lparr>ei_size = 0, ei_min_eid = KUPL_EXECUTOR_ID_MAX, ei_max_eid = 0, ei_eid_set = {},
                 ei_eid2lid = (\<lambda>_. KUPL_EGROUP_ID_NULL)\<rparr>"

section \<open>Creation\<close>

text \<open>The loop over the array; \<open>None\<close> is \<open>goto err\<close>.\<close>

fun egroup_fill :: "int \<Rightarrow> nat \<Rightarrow> int list \<Rightarrow> kupl_egroup_info \<Rightarrow> kupl_egroup_info option" where
  "egroup_fill num_executors i [] def_info = Some def_info"
| "egroup_fill num_executors i (x # xs) def_info =
     (if x \<ge> num_executors \<or> x < 0 then None
      else (let eid = nat x; def_info = def_info\<lparr>ei_eid_set := insert eid (ei_eid_set def_info)\<rparr>
        in if ei_eid2lid def_info eid = KUPL_EGROUP_ID_NULL
           then (let def_info = def_info\<lparr>ei_eid2lid := (ei_eid2lid def_info)(eid := i)\<rparr>;
                     def_info = (if eid < ei_min_eid def_info then def_info\<lparr>ei_min_eid := eid\<rparr>
                                 else def_info);
                     def_info = (if eid > ei_max_eid def_info then def_info\<lparr>ei_max_eid := eid\<rparr>
                                 else def_info)
                 in egroup_fill num_executors (Suc i) xs
                      (def_info\<lparr>ei_size := ei_size def_info + 1\<rparr>))
           else None))"

definition kupl_egroup_prepare :: "int \<Rightarrow> int \<Rightarrow> int \<Rightarrow> int" where
  "kupl_egroup_prepare max_size barrier_size num_threads =
     (if num_threads > max_size then barrier_size else num_threads)"

text \<open>
  \<open>kupl_egroup_create\<close>: \<open>max_size\<close> is the number of processing units, \<open>allocok\<close>, \<open>barok\<close> and
  \<open>lockok\<close> the outcomes of the allocations; the outer \<open>None\<close> is an array that is shorter than the
  caller says.
\<close>

definition kupl_egroup_create ::
  "bool \<Rightarrow> int \<Rightarrow> int \<Rightarrow> int \<Rightarrow> bool \<Rightarrow> bool \<Rightarrow> bool \<Rightarrow> int list option \<Rightarrow> int \<Rightarrow>
   kupl_egroup option option" where
  "kupl_egroup_create inited num_executors geid max_size allocok barok lockok executors executors_num =
     (if \<not> inited then Some None
      else if executors_num > int KUPL_EXECUTOR_ID_MAX \<or> executors_num > num_executors \<or>
              executors_num < 0 then Some None
      else if executors = None \<and> executors_num \<noteq> 0 then Some None
      else if \<not> allocok then Some None
      else (let xs = (case executors of None \<Rightarrow> [] | Some xs \<Rightarrow> xs)
        in if nat executors_num > length xs then None
           else Some (case egroup_fill num_executors 0 (take (nat executors_num) xs) empty_info of
                  None \<Rightarrow> None
                | Some def_info \<Rightarrow>
                    if \<not> barok \<or> \<not> lockok then None
                    else Some \<lparr>eg_next = 0, eg_def = def_info, eg_cur = def_info, eg_lock = True,
                           eg_barrier = Some (kupl_egroup_prepare max_size 0 (int (ei_size def_info))),
                           eg_alloc_id = geid\<rparr>)))"

section \<open>Enumerating a group\<close>

text \<open>The executors that \<open>KUPL_FOR_EACH_EGROUP\<close> visits, in its order.\<close>

definition egroup_eids :: "kupl_egroup \<Rightarrow> nat list" where
  "egroup_eids grp = filter (\<lambda>eid. eid \<in> ei_eid_set (eg_cur grp))
     [ei_min_eid (eg_cur grp)..<Suc (ei_max_eid (eg_cur grp))]"

text \<open>
  \<open>KUPL_FOR_EACH_LIMIT_EGROUP\<close>: the loop has no upper bound on the executor, which is a 32-bit
  counter, so a limit above the number of executors makes it start over.
\<close>

partial_function (option) each_limit :: "nat set \<Rightarrow> nat \<Rightarrow> nat \<Rightarrow> int \<Rightarrow> nat list option" where
  "each_limit eid_set eid eidx limit =
     (if int eidx < limit
      then (if eid \<in> eid_set
            then Option.bind (each_limit eid_set ((eid + 1) mod 2 ^ 32) (eidx + 1) limit)
                   (\<lambda>rest. Some (eid # rest))
            else each_limit eid_set ((eid + 1) mod 2 ^ 32) eidx limit)
      else Some [])"

definition egroup_limit_eids :: "kupl_egroup \<Rightarrow> int \<Rightarrow> nat list option" where
  "egroup_limit_eids grp limit =
     each_limit (ei_eid_set (eg_cur grp)) (ei_min_eid (eg_cur grp)) 0 limit"

function next_scan :: "nat set \<Rightarrow> nat \<Rightarrow> nat \<Rightarrow> nat \<Rightarrow> nat" where
  "next_scan eid_set max_eid eid next =
     (if eid > max_eid then eid
      else if eid \<in> eid_set
      then (if next = 0 then eid else next_scan eid_set max_eid (eid + 1) (next - 1))
      else next_scan eid_set max_eid (eid + 1) next)"
  by pat_completeness auto
termination by (relation "measure (\<lambda>(s, m, e, n). Suc m - e)") auto

declare next_scan.simps [simp del]

definition kupl_egroup_get_next :: "kupl_egroup option \<Rightarrow> nat \<times> kupl_egroup option" where
  "kupl_egroup_get_next grp =
     (case grp of
        None \<Rightarrow> (KUPL_EGROUP_ID_NULL, None)
      | Some g \<Rightarrow>
          (if ei_size (eg_cur g) = 0 then (KUPL_EGROUP_ID_NULL, Some g)
           else (next_scan (ei_eid_set (eg_cur g)) (ei_max_eid (eg_cur g)) (ei_min_eid (eg_cur g))
                   (eg_next g),
                 Some (g\<lparr>eg_next := (eg_next g + 1) mod ei_size (eg_cur g)\<rparr>))))"

section \<open>Lending and returning\<close>

definition kupl_egroup_reset :: "kupl_egroup \<Rightarrow> kupl_egroup" where
  "kupl_egroup_reset egroup = egroup\<lparr>eg_cur := eg_def egroup\<rparr>"

definition move_lid :: "nat \<Rightarrow> nat \<Rightarrow> (nat \<Rightarrow> nat) \<times> (nat \<Rightarrow> nat) \<Rightarrow> (nat \<Rightarrow> nat) \<times> (nat \<Rightarrow> nat)" where
  "move_lid dest_size eid lids =
     (let (dest, src) = lids in
      if src eid \<noteq> KUPL_EGROUP_ID_NULL
      then (dest(eid := src eid + dest_size), src(eid := KUPL_EGROUP_ID_NULL)) else (dest, src))"

text \<open>The two groups are distinct objects: the code would empty a group that borrows from itself.\<close>

definition kupl_egroup_add :: "kupl_egroup \<Rightarrow> kupl_egroup \<Rightarrow> int \<times> kupl_egroup \<times> kupl_egroup" where
  "kupl_egroup_add dest src =
     (let d = eg_cur dest; s = eg_cur src in
      if ei_size s = 0 then (int (ei_size d), dest, src)
      else
        (let (dl, sl) = fold (move_lid (ei_size d)) [ei_min_eid s..<Suc (ei_max_eid s)]
                             (ei_eid2lid d, ei_eid2lid s);
             d = d\<lparr>ei_eid2lid := dl, ei_eid_set := ei_eid_set d \<union> ei_eid_set s,
                   ei_size := ei_size d + ei_size s,
                   ei_min_eid := min (ei_min_eid d) (ei_min_eid s),
                   ei_max_eid := max (ei_max_eid d) (ei_max_eid s)\<rparr>;
             s = s\<lparr>ei_eid2lid := sl, ei_size := 0, ei_min_eid := KUPL_EXECUTOR_ID_MAX,
                   ei_max_eid := 0, ei_eid_set := {}\<rparr>
         in (int (ei_size d), dest\<lparr>eg_cur := d\<rparr>, src\<lparr>eg_cur := s\<rparr>)))"

definition kupl_egroup_get_cur_size :: "kupl_egroup \<Rightarrow> nat" where
  "kupl_egroup_get_cur_size grp =
     (if ei_size (eg_cur grp) > KUPL_EXECUTOR_ID_MAX then 0 else ei_size (eg_cur grp))"

text \<open>
  \<open>kupl_egroup_borrow\<close> and \<open>kupl_egroup_return\<close> differ in the lock they take, the one of the
  source or the one of the destination; a null barrier keeps being null.
\<close>

definition kupl_egroup_borrow :: "kupl_egroup option \<Rightarrow> kupl_egroup option \<Rightarrow>
    int \<times> kupl_egroup option \<times> kupl_egroup option" where
  "kupl_egroup_borrow dest src =
     (case dest of
        None \<Rightarrow> (KUPL_ERROR, None, src)
      | Some d \<Rightarrow>
          (case src of
             None \<Rightarrow> (int (ei_size (eg_cur d)), Some d, None)
           | Some s \<Rightarrow>
               (let (ret, d, s) = kupl_egroup_add d s
                in (ret, Some (d\<lparr>eg_barrier := map_option (\<lambda>_. int (ei_size (eg_cur d))) (eg_barrier d)\<rparr>),
                    Some s))))"

definition kupl_egroup_return :: "kupl_egroup option \<Rightarrow> kupl_egroup option \<Rightarrow>
    int \<times> kupl_egroup option \<times> kupl_egroup option" where
  "kupl_egroup_return dest src =
     (case dest of
        None \<Rightarrow> (KUPL_ERROR, None, src)
      | Some d \<Rightarrow>
          (case src of
             None \<Rightarrow> (int (ei_size (eg_cur d)), Some d, None)
           | Some s \<Rightarrow>
               (let (ret, d, s) = kupl_egroup_add d s
                in (ret, Some (d\<lparr>eg_barrier := map_option (\<lambda>_. int (ei_size (eg_cur d))) (eg_barrier d)\<rparr>),
                    Some s))))"

section \<open>The current group and its barriers\<close>

definition kupl_egroup_get_local_id :: "int \<Rightarrow> kupl_egroup \<Rightarrow> nat" where
  "kupl_egroup_get_local_id geid grp =
     (if geid = KUPL_EXECUTOR_DEFAULT then KUPL_EGROUP_ID_NULL
      else ei_eid2lid (eg_cur grp) (nat geid))"

definition kupl_get_current_egroup ::
  "(ptr \<Rightarrow> kupl_taskbase) \<Rightarrow> nat \<Rightarrow> executor_state \<Rightarrow> ptr option option" where
  "kupl_get_current_egroup tbs th s =
     (case kupl_executor_get_current_tb th s of
        None \<Rightarrow> None
      | Some (Some current_tb) \<Rightarrow> Some (tb_egroup (tbs current_tb))
      | Some None \<Rightarrow>
          (case kupl_executor_get_pf_ult th s of
             None \<Rightarrow> None
           | Some (Some ult) \<Rightarrow> Some (tb_egroup (tbs ult))
           | Some None \<Rightarrow> Some None))"

definition kupl_egroup_master_eid :: "kupl_egroup \<Rightarrow> int" where
  "kupl_egroup_master_eid egroup = int (ei_min_eid (eg_cur egroup))"

text \<open>
  The barrier calls: the thread and the number of threads with which the barrier is entered, or
  \<open>None\<close> when the call returns without waiting.  \<open>egroup\<close> is the argument or, for null, the
  current group; \<open>concurrency\<close> is the kernel concurrency of the region.
\<close>

definition kupl_egroup_barrier :: "bool \<Rightarrow> bool \<Rightarrow> bool \<Rightarrow> nat \<Rightarrow> int \<Rightarrow> kupl_egroup option \<Rightarrow>
    kupl_egroup option \<Rightarrow> (nat \<times> nat) option" where
  "kupl_egroup_barrier inited in_parallel pthread concurrency geid current egroup =
     (if \<not> inited then None
      else (case (if egroup = None then current else egroup) of
          None \<Rightarrow> None
        | Some g \<Rightarrow>
            if ei_size (eg_cur g) \<le> 1 then None
            else
              (let local_tid = kupl_egroup_get_local_id geid g;
                   local_tnum = ei_size (eg_cur g)
               in if \<not> in_parallel \<and> pthread then None
                  else (let local_tnum = (if in_parallel then min local_tnum concurrency else local_tnum)
                        in if local_tid < local_tnum then Some (local_tid, local_tnum) else None))))"

definition kupl_egroup_fork_barrier :: "bool \<Rightarrow> int \<Rightarrow> kupl_egroup option \<Rightarrow> kupl_egroup option \<Rightarrow>
    (nat \<times> nat) option" where
  "kupl_egroup_fork_barrier inited geid current egroup =
     (if \<not> inited then None
      else (case (if egroup = None then current else egroup) of
          None \<Rightarrow> None
        | Some g \<Rightarrow>
            if ei_size (eg_cur g) \<le> 1 then None
            else (let local_tid = kupl_egroup_get_local_id geid g; local_tnum = ei_size (eg_cur g)
                  in if local_tid < local_tnum then Some (local_tid, local_tnum) else None)))"

definition kupl_egroup_join_barrier :: "bool \<Rightarrow> int \<Rightarrow> kupl_egroup option \<Rightarrow> kupl_egroup option \<Rightarrow>
    (nat \<times> nat) option" where
  "kupl_egroup_join_barrier inited geid current egroup =
     (if \<not> inited then None
      else (case (if egroup = None then current else egroup) of
          None \<Rightarrow> None
        | Some g \<Rightarrow>
            if ei_size (eg_cur g) \<le> 1 then None
            else (let local_tid = kupl_egroup_get_local_id geid g; local_tnum = ei_size (eg_cur g)
                  in if local_tid < local_tnum then Some (local_tid, local_tnum) else None)))"

section \<open>Invariant\<close>

text \<open>
  The executor set is the set of executors with a local id, it lies between the two bounds, and
  the local ids number it without gaps.
\<close>

definition egi_inv :: "kupl_egroup_info \<Rightarrow> bool" where
  "egi_inv i \<longleftrightarrow> ei_eid_set i = {e. ei_eid2lid i e \<noteq> KUPL_EGROUP_ID_NULL} \<and>
     ei_eid_set i \<subseteq> {ei_min_eid i..ei_max_eid i} \<and> ei_max_eid i < KUPL_EXECUTOR_ID_MAX \<and>
     bij_betw (ei_eid2lid i) (ei_eid_set i) {..<ei_size i}"

definition eg_inv :: "kupl_egroup \<Rightarrow> bool" where
  "eg_inv g \<longleftrightarrow> egi_inv (eg_def g) \<and> egi_inv (eg_cur g) \<and> (eg_next g = 0 \<or> eg_next g < ei_size (eg_cur g))"

lemma egi_empty: "egi_inv empty_info"
  by (simp add: egi_inv_def empty_info_def bij_betw_def egroup_consts)

lemma egi_finite: "egi_inv i \<Longrightarrow> finite (ei_eid_set i)"
  by (metis egi_inv_def finite_atLeastAtMost finite_subset)

lemma egi_card: "egi_inv i \<Longrightarrow> card (ei_eid_set i) = ei_size i"
  unfolding egi_inv_def by (metis bij_betw_same_card card_lessThan)

lemma egi_lid_less: "egi_inv i \<Longrightarrow> e \<in> ei_eid_set i \<Longrightarrow> ei_eid2lid i e < ei_size i"
  by (auto simp: egi_inv_def bij_betw_def)

lemma egi_size: assumes "egi_inv i" shows "ei_size i \<le> 1024"
proof -
  have "card (ei_eid_set i) \<le> card {..<1024::nat}"
    using assms by (intro card_mono) (auto simp: egi_inv_def egroup_consts)
  then show ?thesis using egi_card[OF assms] by simp
qed

lemma bij_betw_extend:
  fixes f :: "nat \<Rightarrow> nat"
  assumes "bij_betw f A {..<n}" and "bij_betw g B {..<m}" and "A \<inter> B = {}"
    and "\<forall>x\<in>A. h x = f x" and "\<forall>x\<in>B. h x = g x + n"
  shows "bij_betw h (A \<union> B) {..<n + m}"
proof -
  have 1: "bij_betw h A {..<n}" using assms(1,4) by (simp cong: bij_betw_cong)
  have "bij_betw (\<lambda>y. y + n) {..<m} {n..<n + m}"
    by (rule bij_betw_byWitness[where f' = "\<lambda>y. y - n"]) auto
  with assms(2) have "bij_betw ((\<lambda>y. y + n) \<circ> g) B {n..<n + m}" by (rule bij_betw_trans)
  then have 2: "bij_betw h B {n..<n + m}" using assms(5) by (simp cong: bij_betw_cong)
  have un: "{..<n} \<union> {n..<n + m} = {..<n + m}" and dj: "{..<n} \<inter> {n..<n + m} = {}" by auto
  from bij_betw_combine[OF 1 2 dj] show ?thesis by (simp only: un)
qed

lemma egi_insert:
  assumes "egi_inv i" and "e < KUPL_EXECUTOR_ID_MAX" and "e \<notin> ei_eid_set i"
  shows "egi_inv (i\<lparr>ei_eid_set := insert e (ei_eid_set i), ei_eid2lid := (ei_eid2lid i)(e := ei_size i),
      ei_min_eid := min (ei_min_eid i) e, ei_max_eid := max (ei_max_eid i) e,
      ei_size := ei_size i + 1\<rparr>)"
proof -
  have "bij_betw (\<lambda>_. 0::nat) {e} {..<1}" by (auto simp: bij_betw_def)
  from bij_betw_extend[of "ei_eid2lid i" "ei_eid_set i" "ei_size i" "\<lambda>_. 0" "{e}" 1
      "(ei_eid2lid i)(e := ei_size i)"] this assms
  have "bij_betw ((ei_eid2lid i)(e := ei_size i)) (insert e (ei_eid_set i)) {..<ei_size i + 1}"
    by (auto simp: egi_inv_def)
  moreover have "ei_size i \<noteq> KUPL_EGROUP_ID_NULL" using egi_size[OF assms(1)] by (simp add: egroup_consts)
  ultimately show ?thesis using assms
    by (auto simp: egi_inv_def subset_iff min_le_iff_disj le_max_iff_disj)
qed

lemma egroup_fill_step:
  assumes "0 \<le> x" "x < n" "egi_inv d" and "nat x \<notin> ei_eid_set d"
  shows "egroup_fill n (ei_size d) (x # xs) d = egroup_fill n (ei_size d + 1) xs
    (d\<lparr>ei_eid_set := insert (nat x) (ei_eid_set d), ei_eid2lid := (ei_eid2lid d)(nat x := ei_size d),
      ei_min_eid := min (ei_min_eid d) (nat x), ei_max_eid := max (ei_max_eid d) (nat x),
      ei_size := ei_size d + 1\<rparr>)"
proof -
  have "ei_eid2lid d (nat x) = KUPL_EGROUP_ID_NULL" using assms by (auto simp: egi_inv_def)
  then show ?thesis using assms
    by (cases d) (auto simp: Let_def min_def max_def not_less)
qed

lemma egroup_fill_spec:
  assumes "egi_inv d" and "n \<le> 1024"
  shows "if (\<forall>x\<in>set xs. 0 \<le> x \<and> x < n) \<and> distinct xs \<and> nat ` set xs \<inter> ei_eid_set d = {}
    then \<exists>d'. egroup_fill n (ei_size d) xs d = Some d' \<and> egi_inv d' \<and>
      ei_size d' = ei_size d + length xs \<and> ei_eid_set d' = ei_eid_set d \<union> nat ` set xs \<and>
      (\<forall>e\<in>ei_eid_set d. ei_eid2lid d' e = ei_eid2lid d e) \<and>
      (\<forall>k<length xs. ei_eid2lid d' (nat (xs ! k)) = ei_size d + k)
    else egroup_fill n (ei_size d) xs d = None"
  using assms(1)
proof (induction xs arbitrary: d)
  case Nil
  then show ?case by auto
next
  case (Cons x xs)
  show ?case
  proof (cases "0 \<le> x \<and> x < n \<and> nat x \<notin> ei_eid_set d")
    case False
    then have "egroup_fill n (ei_size d) (x # xs) d = None"
      using Cons.prems by (auto simp: egi_inv_def Let_def)
    then show ?thesis using False by auto
  next
    case True
    define d1 where "d1 = d\<lparr>ei_eid_set := insert (nat x) (ei_eid_set d),
      ei_eid2lid := (ei_eid2lid d)(nat x := ei_size d),
      ei_min_eid := min (ei_min_eid d) (nat x), ei_max_eid := max (ei_max_eid d) (nat x),
      ei_size := ei_size d + 1\<rparr>"
    have d1: "egi_inv d1" "ei_size d1 = ei_size d + 1" "ei_eid_set d1 = insert (nat x) (ei_eid_set d)"
      "ei_eid2lid d1 = (ei_eid2lid d)(nat x := ei_size d)"
      unfolding d1_def
      using egi_insert[OF Cons.prems, of "nat x"] True assms(2) by (auto simp: egroup_consts)
    have step: "egroup_fill n (ei_size d) (x # xs) d = egroup_fill n (ei_size d1) xs d1"
      using egroup_fill_step[OF _ _ Cons.prems, of x n xs] True d1(2) d1_def by simp
    have cond: "((\<forall>y\<in>set (x # xs). 0 \<le> y \<and> y < n) \<and> distinct (x # xs) \<and>
        nat ` set (x # xs) \<inter> ei_eid_set d = {}) \<longleftrightarrow>
      ((\<forall>y\<in>set xs. 0 \<le> y \<and> y < n) \<and> distinct xs \<and> nat ` set xs \<inter> ei_eid_set d1 = {})"
      using True d1(3) by (auto simp: image_iff disjoint_iff) (metis eq_nat_nat_iff)+
    show ?thesis
    proof (cases "(\<forall>y\<in>set xs. 0 \<le> y \<and> y < n) \<and> distinct xs \<and> nat ` set xs \<inter> ei_eid_set d1 = {}")
      case False
      then show ?thesis using Cons.IH[OF d1(1)] step cond by presburger
    next
      case ok: True
      then obtain d' where d': "egroup_fill n (ei_size d1) xs d1 = Some d'" "egi_inv d'"
        "ei_size d' = ei_size d1 + length xs" "ei_eid_set d' = ei_eid_set d1 \<union> nat ` set xs"
        "\<forall>e\<in>ei_eid_set d1. ei_eid2lid d' e = ei_eid2lid d1 e"
        "\<forall>k<length xs. ei_eid2lid d' (nat (xs ! k)) = ei_size d1 + k"
        using Cons.IH[OF d1(1)] by auto
      have "\<forall>k<length (x # xs). ei_eid2lid d' (nat ((x # xs) ! k)) = ei_size d + k"
        using d'(5,6) d1 by (auto simp: nth_Cons split: nat.split)
      moreover have "\<forall>e\<in>ei_eid_set d. ei_eid2lid d' e = ei_eid2lid d e"
        using d'(5) d1(3,4) True by auto
      ultimately show ?thesis using ok cond step d' d1(2,3) by auto
    qed
  qed
qed

section \<open>Enumeration\<close>

lemma egroup_eids_facts:
  assumes "egi_inv (eg_cur g)"
  shows "set (egroup_eids g) = ei_eid_set (eg_cur g)" "sorted (egroup_eids g)"
    "distinct (egroup_eids g)" "length (egroup_eids g) = ei_size (eg_cur g)"
proof -
  show 1: "set (egroup_eids g) = ei_eid_set (eg_cur g)"
    using assms by (auto simp: egroup_eids_def egi_inv_def)
  show "sorted (egroup_eids g)" by (simp add: egroup_eids_def sorted_wrt_filter del: upt_Suc)
  show 2: "distinct (egroup_eids g)" by (simp add: egroup_eids_def del: upt_Suc)
  show "length (egroup_eids g) = ei_size (eg_cur g)"
    using distinct_card[OF 2] 1 egi_card[OF assms] by simp
qed

lemma next_scan_spec:
  "k < length (filter (\<lambda>e. e \<in> s) [e..<Suc m]) \<Longrightarrow>
    next_scan s m e k = filter (\<lambda>e. e \<in> s) [e..<Suc m] ! k"
proof (induction s m e k rule: next_scan.induct)
  case (1 s m e k)
  show ?case
  proof (cases "e > m")
    case True
    then show ?thesis using "1.prems" by simp
  next
    case False
    then have up: "[e..<Suc m] = e # [Suc e..<Suc m]" by (simp add: upt_rec)
    show ?thesis
    proof (cases "e \<in> s")
      case True
      show ?thesis
      proof (cases k)
        case 0
        then show ?thesis using False True by (subst next_scan.simps) (simp add: up del: upt_Suc)
      next
        case (Suc k')
        then have "k - 1 < length (filter (\<lambda>e. e \<in> s) [e + 1..<Suc m])"
          using "1.prems" True by (simp add: up del: upt_Suc)
        from "1.IH"(1)[OF False True _ this] Suc False True show ?thesis
          by (subst next_scan.simps) (simp add: up del: upt_Suc)
      qed
    next
      case no: False
      then have "k < length (filter (\<lambda>e. e \<in> s) [e + 1..<Suc m])"
        using "1.prems" by (simp add: up del: upt_Suc)
      from "1.IH"(2)[OF False no this] False no show ?thesis
        by (subst next_scan.simps) (simp add: up del: upt_Suc)
    qed
  qed
qed

lemma get_next_spec:
  assumes "egi_inv (eg_cur g)" and "eg_next g < ei_size (eg_cur g)"
  shows "kupl_egroup_get_next (Some g) = (egroup_eids g ! eg_next g,
    Some (g\<lparr>eg_next := (eg_next g + 1) mod ei_size (eg_cur g)\<rparr>))"
  using next_scan_spec[of "eg_next g" "ei_eid_set (eg_cur g)" "ei_min_eid (eg_cur g)"
      "ei_max_eid (eg_cur g)"] egroup_eids_facts(4)[OF assms(1)] assms(2)
  by (simp add: kupl_egroup_get_next_def egroup_eids_def del: upt_Suc)

lemma each_limit_spec:
  assumes "n \<le> length (filter (\<lambda>e. e \<in> s) [e..<Suc m])" and "m < 1024"
  shows "each_limit s e k (int k + int n) = Some (take n (filter (\<lambda>e. e \<in> s) [e..<Suc m]))"
  using assms
proof (induction "Suc m - e" arbitrary: e k n)
  case 0
  then show ?case by (subst each_limit.simps) simp
next
  case (Suc d)
  have up: "[e..<Suc m] = e # [Suc e..<Suc m]" using Suc.hyps(2) by (simp add: upt_rec)
  have mod: "(e + 1) mod 2 ^ 32 = Suc e" using Suc.hyps(2) Suc.prems(2) by simp
  have d: "d = Suc m - Suc e" using Suc.hyps(2) by simp
  show ?case
  proof (cases n)
    case 0
    then show ?thesis by (subst each_limit.simps) simp
  next
    case (Suc n')
    show ?thesis
    proof (cases "e \<in> s")
      case True
      have "each_limit s (Suc e) (Suc k) (int (Suc k) + int n') =
          Some (take n' (filter (\<lambda>e. e \<in> s) [Suc e..<Suc m]))"
        by (rule Suc.hyps(1)[OF d]) (use Suc.prems True Suc in \<open>simp_all add: up del: upt_Suc\<close>)
      then show ?thesis using True Suc mod
        by (subst each_limit.simps) (simp add: up add_ac del: upt_Suc)
    next
      case False
      have "each_limit s (Suc e) k (int k + int n) =
          Some (take n (filter (\<lambda>e. e \<in> s) [Suc e..<Suc m]))"
        using Suc.hyps(1)[OF d] Suc.prems False by (simp add: up del: upt_Suc)
      then show ?thesis using False Suc mod
        by (subst each_limit.simps) (simp add: up del: upt_Suc)
    qed
  qed
qed

lemma egroup_limit_spec:
  assumes "egi_inv (eg_cur g)" and "0 \<le> n" and "n \<le> int (ei_size (eg_cur g))"
  shows "egroup_limit_eids g n = Some (take (nat n) (egroup_eids g))"
proof -
  have "nat n \<le> length (egroup_eids g)" "ei_max_eid (eg_cur g) < 1024"
    using assms egroup_eids_facts(4)[OF assms(1)] by (auto simp: egi_inv_def egroup_consts)
  from each_limit_spec[OF this[unfolded egroup_eids_def], of 0] assms(2)
  show ?thesis by (simp add: egroup_limit_eids_def egroup_eids_def del: upt_Suc)
qed

section \<open>Lending\<close>

lemma move_lid_fold:
  "distinct es \<Longrightarrow> fold (move_lid n) es (d, s) =
    ((\<lambda>e. if e \<in> set es \<and> s e \<noteq> KUPL_EGROUP_ID_NULL then s e + n else d e),
     (\<lambda>e. if e \<in> set es then KUPL_EGROUP_ID_NULL else s e))"
  by (induction es arbitrary: d s) (auto simp: move_lid_def fun_eq_iff Let_def)

text \<open>
  Lending between disjoint groups: the destination gets all executors, its own keep their local
  ids and the others follow them; the source is empty.
\<close>

lemma egroup_add_spec:
  assumes d: "egi_inv (eg_cur dest)" and s: "egi_inv (eg_cur src)"
    and disj: "ei_eid_set (eg_cur dest) \<inter> ei_eid_set (eg_cur src) = {}"
    and eq: "kupl_egroup_add dest src = (r, dest', src')"
  shows "egi_inv (eg_cur dest') \<and> egi_inv (eg_cur src') \<and>
    ei_eid_set (eg_cur dest') = ei_eid_set (eg_cur dest) \<union> ei_eid_set (eg_cur src) \<and>
    ei_eid_set (eg_cur src') = {} \<and> ei_size (eg_cur src') = 0 \<and>
    ei_size (eg_cur dest') = ei_size (eg_cur dest) + ei_size (eg_cur src) \<and>
    r = int (ei_size (eg_cur dest')) \<and>
    (\<forall>e\<in>ei_eid_set (eg_cur dest). ei_eid2lid (eg_cur dest') e = ei_eid2lid (eg_cur dest) e) \<and>
    dest' = dest\<lparr>eg_cur := eg_cur dest'\<rparr> \<and> src' = src\<lparr>eg_cur := eg_cur src'\<rparr>"
proof (cases "ei_size (eg_cur src) = 0")
  case True
  then have "ei_eid_set (eg_cur src) = {}" using egi_card[OF s] egi_finite[OF s] by simp
  then show ?thesis using eq True d s by (auto simp: kupl_egroup_add_def Let_def)
next
  case False
  let ?d = "eg_cur dest" and ?s = "eg_cur src"
  let ?es = "[ei_min_eid ?s..<Suc (ei_max_eid ?s)]"
  let ?dl = "\<lambda>e. if e \<in> ei_eid_set ?s then ei_eid2lid ?s e + ei_size ?d else ei_eid2lid ?d e"
  have cov: "e \<in> set ?es" if "e \<in> ei_eid_set ?s" for e using that s by (auto simp: egi_inv_def)
  have "fold (move_lid (ei_size ?d)) ?es (ei_eid2lid ?d, ei_eid2lid ?s) = (?dl, \<lambda>_. KUPL_EGROUP_ID_NULL)"
    using cov s by (subst move_lid_fold) (auto simp: fun_eq_iff egi_inv_def)
  then have d': "eg_cur dest' = ?d\<lparr>ei_eid2lid := ?dl, ei_eid_set := ei_eid_set ?d \<union> ei_eid_set ?s,
        ei_size := ei_size ?d + ei_size ?s, ei_min_eid := min (ei_min_eid ?d) (ei_min_eid ?s),
        ei_max_eid := max (ei_max_eid ?d) (ei_max_eid ?s)\<rparr>"
    and s': "eg_cur src' = ?s\<lparr>ei_eid2lid := (\<lambda>_. KUPL_EGROUP_ID_NULL), ei_size := 0,
        ei_min_eid := KUPL_EXECUTOR_ID_MAX, ei_max_eid := 0, ei_eid_set := {}\<rparr>"
    and r: "r = int (ei_size ?d + ei_size ?s)"
    and fr: "dest' = dest\<lparr>eg_cur := eg_cur dest'\<rparr>" "src' = src\<lparr>eg_cur := eg_cur src'\<rparr>"
    using eq False by (auto simp: kupl_egroup_add_def Let_def simp del: upt_Suc)
  have bij: "bij_betw ?dl (ei_eid_set ?d \<union> ei_eid_set ?s) {..<ei_size ?d + ei_size ?s}"
    by (rule bij_betw_extend[of "ei_eid2lid ?d" _ _ "ei_eid2lid ?s"])
      (use d s disj in \<open>auto simp: egi_inv_def\<close>)
  have nn: "ei_eid2lid ?s e + ei_size ?d \<noteq> KUPL_EGROUP_ID_NULL" if "e \<in> ei_eid_set ?s" for e
    using egi_lid_less[OF s that] egi_size[OF d] egi_size[OF s] by (simp add: egroup_consts)
  have "egi_inv (eg_cur dest')"
    using d s bij nn unfolding d' egi_inv_def by (auto simp: min_le_iff_disj le_max_iff_disj subset_iff)
  moreover have "egi_inv (eg_cur src')"
    unfolding s' egi_inv_def by (simp add: bij_betw_def egroup_consts)
  ultimately show ?thesis using r fr d' s' disj by auto
qed

section \<open>Properties\<close>

lemma egroup_create_cases:
  assumes "0 \<le> n" "n \<le> 1024" "length xs \<le> nat n"
  shows "if (\<forall>x\<in>set xs. 0 \<le> x \<and> x < n) \<and> distinct xs \<and> barok \<and> lockok
    then \<exists>g. kupl_egroup_create True n geid max_size True barok lockok (Some xs) (int (length xs)) =
               Some (Some g) \<and>
           eg_inv g \<and> egroup_eids g = sort (map nat xs) \<and> eg_next g = 0 \<and>
           (\<forall>k<length xs. ei_eid2lid (eg_cur g) (nat (xs ! k)) = k) \<and>
           eg_barrier g = Some (if int (length xs) > max_size then 0 else int (length xs))
    else kupl_egroup_create True n geid max_size True barok lockok (Some xs) (int (length xs)) =
               Some None"
proof -
  have e0: "ei_size empty_info = 0" "ei_eid_set empty_info = {}" by (simp_all add: empty_info_def)
  note fill = egroup_fill_spec[OF egi_empty assms(2), of xs, unfolded e0]
  have guard: "\<not> (int (length xs) > int KUPL_EXECUTOR_ID_MAX \<or> int (length xs) > n)"
    using assms by (auto simp: egroup_consts)
  show ?thesis
  proof (cases "(\<forall>x\<in>set xs. 0 \<le> x \<and> x < n) \<and> distinct xs")
    case False
    then show ?thesis using fill guard by (auto simp: kupl_egroup_create_def Let_def)
  next
    case True
    then obtain i where i: "egroup_fill n 0 xs empty_info = Some i" "egi_inv i"
      "ei_size i = length xs" "ei_eid_set i = nat ` set xs"
      "\<forall>k<length xs. ei_eid2lid i (nat (xs ! k)) = k"
      using fill by auto
    let ?g = "\<lparr>eg_next = 0, eg_def = i, eg_cur = i, eg_lock = True,
               eg_barrier = Some (kupl_egroup_prepare max_size 0 (int (ei_size i))), eg_alloc_id = geid\<rparr>"
    have "distinct (map nat xs)"
      using True by (auto simp: distinct_map inj_on_def) (metis eq_nat_nat_iff)
    then have "egroup_eids ?g = sort (map nat xs)"
      using egroup_eids_facts[of ?g] i(2,4)
      by (intro sorted_distinct_set_unique) auto
    then show ?thesis using True i guard
      by (auto simp: kupl_egroup_create_def Let_def eg_inv_def kupl_egroup_prepare_def)
  qed
qed

text \<open>
  C19: Creating a group succeeds exactly when every executor of the array is one of the library's
  and none occurs twice (and the allocations succeed); the group then holds these executors, is
  enumerated in ascending order, and numbers them by their positions in the array.
\<close>

theorem egroup_create_spec:
  assumes "0 \<le> n" "n \<le> 1024" "length xs \<le> nat n"
  shows "if (\<forall>x\<in>set xs. 0 \<le> x \<and> x < n) \<and> distinct xs \<and> barok \<and> lockok
    then \<exists>g. kupl_egroup_create True n geid max_size True barok lockok (Some xs) (int (length xs)) =
               Some (Some g) \<and>
           eg_inv g \<and> egroup_eids g = sort (map nat xs) \<and> eg_next g = 0 \<and>
           (\<forall>k<length xs. ei_eid2lid (eg_cur g) (nat (xs ! k)) = k) \<and>
           eg_barrier g = Some (if int (length xs) > max_size then 0 else int (length xs))
    else kupl_egroup_create True n geid max_size True barok lockok (Some xs) (int (length xs)) =
               Some None"
  using assms by (rule egroup_create_cases)

theorem egroup_create_spec_witness:
  "\<exists>g. kupl_egroup_create True 4 0 4 True True True (Some [2, 0, 1]) 3 = Some (Some g) \<and>
     egroup_eids g = [0, 1, 2] \<and> ei_eid2lid (eg_cur g) 2 = 0"
proof -
  have "egroup_eids g = sort (map nat [2, 0, 1]) \<Longrightarrow> egroup_eids g = [0, 1, 2]" for g by simp
  then show ?thesis
    using egroup_create_spec[of 4 "[2, 0, 1]" True True 0 4] by (auto simp: less_Suc_eq_0_disj numeral_3_eq_3)
qed

text \<open>Successive calls for the next executor.\<close>

fun next_calls :: "nat \<Rightarrow> kupl_egroup \<Rightarrow> nat list" where
  "next_calls 0 g = []"
| "next_calls (Suc n) g =
     (case kupl_egroup_get_next (Some g) of
        (e, Some g) \<Rightarrow> e # next_calls n g
      | (e, None) \<Rightarrow> [e])"

lemma next_calls_spec:
  assumes "egi_inv (eg_cur g)" and "eg_next g < ei_size (eg_cur g)"
  shows "next_calls n g = map (\<lambda>k. egroup_eids g ! ((eg_next g + k) mod ei_size (eg_cur g))) [0..<n]"
  using assms
proof (induction n arbitrary: g)
  case 0
  then show ?case by simp
next
  case (Suc n)
  let ?g = "g\<lparr>eg_next := (eg_next g + 1) mod ei_size (eg_cur g)\<rparr>"
  have "next_calls n ?g = map (\<lambda>k. egroup_eids g ! ((eg_next g + 1 + k) mod ei_size (eg_cur g))) [0..<n]"
    using Suc.IH[of ?g] Suc.prems by (simp add: egroup_eids_def mod_simps add.assoc del: upt_Suc)
  then show ?case
    using get_next_spec[OF Suc.prems] Suc.prems(2)
    by (simp add: upt_conv_Cons map_Suc_upt[symmetric] o_def del: upt_Suc)
qed

text \<open>
  Successive requests for the next executor of a group go round it: every request is answered
  with a member, and as many requests as the group has members return each of them once, in
  ascending order from the current position.
\<close>

theorem egroup_round_robin:
  assumes "eg_inv g" and "0 < ei_size (eg_cur g)"
  shows "next_calls (ei_size (eg_cur g)) g = rotate (eg_next g) (egroup_eids g) \<and>
    set (next_calls n g) \<subseteq> ei_eid_set (eg_cur g)"
proof -
  have inv: "egi_inv (eg_cur g)" "eg_next g < ei_size (eg_cur g)" using assms by (auto simp: eg_inv_def)
  note F = egroup_eids_facts[OF inv(1)]
  have "next_calls (ei_size (eg_cur g)) g = rotate (eg_next g) (egroup_eids g)"
    by (rule nth_equalityI) (use next_calls_spec[OF inv] F(4) in \<open>auto simp: nth_rotate\<close>)
  moreover have "egroup_eids g ! (k mod ei_size (eg_cur g)) \<in> ei_eid_set (eg_cur g)" for k
    using F(1,4) assms(2) nth_mem[of "k mod ei_size (eg_cur g)" "egroup_eids g"] by simp
  ultimately show ?thesis using next_calls_spec[OF inv] by auto
qed

text \<open>The groups of the examples, made by the create call on eight executors.\<close>

definition example_group :: "int list \<Rightarrow> kupl_egroup" where
  "example_group xs = the (the (kupl_egroup_create True 8 0 8 True True True (Some xs) (int (length xs))))"

lemma example_group:
  assumes "\<forall>x\<in>set xs. 0 \<le> x \<and> x < 8" and "distinct xs" and "length xs \<le> 8"
  shows "eg_inv (example_group xs)" "egroup_eids (example_group xs) = sort (map nat xs)"
    "eg_next (example_group xs) = 0" "\<forall>k<length xs. ei_eid2lid (eg_cur (example_group xs)) (nat (xs ! k)) = k"
    "ei_eid_set (eg_cur (example_group xs)) = nat ` set xs" "ei_size (eg_cur (example_group xs)) = length xs"
proof -
  note C = egroup_create_cases[of 8 xs True True 0 8]
  show 1: "eg_inv (example_group xs)" and 2: "egroup_eids (example_group xs) = sort (map nat xs)"
    and "eg_next (example_group xs) = 0" "\<forall>k<length xs. ei_eid2lid (eg_cur (example_group xs)) (nat (xs ! k)) = k"
    using C assms by (auto simp: example_group_def)
  have i: "egi_inv (eg_cur (example_group xs))" using 1 by (simp add: eg_inv_def)
  show "ei_eid_set (eg_cur (example_group xs)) = nat ` set xs"
    using egroup_eids_facts(1)[OF i] 2 by simp
  show "ei_size (eg_cur (example_group xs)) = length xs"
    using egroup_eids_facts(4)[OF i] 2 by simp
qed

theorem egroup_round_robin_witness:
  "next_calls 3 (example_group [5, 1, 2]) = [1, 2, 5]"
proof -
  note E = example_group[of "[5, 1, 2]", simplified]
  have sz: "ei_size (eg_cur (example_group [5, 1, 2])) = 3" using E(6) by simp
  have "next_calls (ei_size (eg_cur (example_group [5, 1, 2]))) (example_group [5, 1, 2]) =
      rotate (eg_next (example_group [5, 1, 2])) (egroup_eids (example_group [5, 1, 2]))"
    using egroup_round_robin[OF E(1), of 0] sz by simp
  then show ?thesis unfolding sz E(2,3) by simp
qed

text \<open>
  Lending the executors of one group to a disjoint one moves them all: the destination holds
  the executors of both, numbered without gaps and its own first, with a barrier of the new size;
  the source is empty and a request for its next executor finds none.
\<close>

theorem egroup_borrow_moves:
  assumes "egi_inv (eg_cur d)" and "egi_inv (eg_cur s)"
    and "ei_eid_set (eg_cur d) \<inter> ei_eid_set (eg_cur s) = {}" and "eg_barrier d = Some b"
  shows "\<exists>d' s'. kupl_egroup_borrow (Some d) (Some s) = (int (ei_size (eg_cur d')), Some d', Some s') \<and>
    egi_inv (eg_cur d') \<and> egi_inv (eg_cur s') \<and>
    set (egroup_eids d') = set (egroup_eids d) \<union> set (egroup_eids s) \<and>
    ei_size (eg_cur d') = ei_size (eg_cur d) + ei_size (eg_cur s) \<and>
    (\<forall>e\<in>ei_eid_set (eg_cur d). ei_eid2lid (eg_cur d') e = ei_eid2lid (eg_cur d) e) \<and>
    eg_barrier d' = Some (int (ei_size (eg_cur d'))) \<and>
    kupl_egroup_get_next (Some s') = (KUPL_EGROUP_ID_NULL, Some s')"
proof -
  obtain r d1 s1 where a: "kupl_egroup_add d s = (r, d1, s1)" by (metis prod_cases3)
  note A = egroup_add_spec[OF assms(1-3) a]
  then have bar: "eg_barrier d1 = Some b" using assms(4) by (cases d, cases d1) simp
  let ?d = "d1\<lparr>eg_barrier := Some (int (ei_size (eg_cur d1)))\<rparr>"
  have "egi_inv (eg_cur ?d)" using A by simp
  from egroup_eids_facts(1)[OF this] A egroup_eids_facts(1)[OF assms(1)] egroup_eids_facts(1)[OF assms(2)]
  have "set (egroup_eids ?d) = set (egroup_eids d) \<union> set (egroup_eids s)" by simp
  moreover have "kupl_egroup_borrow (Some d) (Some s) = (int (ei_size (eg_cur ?d)), Some ?d, Some s1)"
    using a bar A by (simp add: kupl_egroup_borrow_def)
  ultimately show ?thesis using A by (auto simp: kupl_egroup_get_next_def)
qed

theorem egroup_borrow_moves_witness:
  "\<exists>d' s'. kupl_egroup_borrow (Some (example_group [0, 1])) (Some (example_group [3, 2])) =
      (4, Some d', Some s') \<and> set (egroup_eids d') = {0, 1, 2, 3}"
proof -
  note D = example_group[of "[0, 1]", simplified] and S = example_group[of "[3, 2]", simplified]
  have "eg_barrier (example_group [0, 1]) = Some 2"
    using egroup_create_cases[of 8 "[0, 1]" True True 0 8] by (auto simp: example_group_def)
  with egroup_borrow_moves[of "example_group [0, 1]" "example_group [3, 2]" 2] D S
  show ?thesis by (auto simp: eg_inv_def insert_commute)
qed

text \<open>
  In a group created from executors in ascending order, the executors that a parallel region of
  \<open>k\<close> threads runs on, the first \<open>k\<close> of the enumeration, all enter the group barrier and enter it
  as the threads \<open>0\<close> to \<open>k - 1\<close> of \<open>k\<close>.
\<close>

theorem egroup_barrier_participants:
  assumes "0 \<le> n" "n \<le> 1024" "\<forall>x\<in>set xs. 0 \<le> x \<and> x < n" "sorted xs" "distinct xs"
    and "length xs \<le> nat n" "1 < length xs" "k \<le> length xs"
    and g: "kupl_egroup_create True n geid max_size True True True (Some xs) (int (length xs)) = Some (Some g)"
  shows "\<exists>es. egroup_limit_eids g (int k) = Some es \<and>
    map (\<lambda>e. kupl_egroup_barrier True True pt k (int e) cur (Some g)) es = map (\<lambda>i. Some (i, k)) [0..<k]"
proof -
  have G: "eg_inv g" "egroup_eids g = sort (map nat xs)"
    "\<forall>i<length xs. ei_eid2lid (eg_cur g) (nat (xs ! i)) = i"
    using egroup_create_cases[OF assms(1,2,6), of True True geid max_size] assms(3,5) g by auto
  have "sorted (map nat xs)" using assms(4) by (auto simp: sorted_iff_nth_mono intro: nat_mono)
  then have es: "egroup_eids g = map nat xs" using G(2) by (simp add: sorted_sort_id)
  have i: "egi_inv (eg_cur g)" using G(1) by (simp add: eg_inv_def)
  have sz: "ei_size (eg_cur g) = length xs" using egroup_eids_facts(4)[OF i] es by simp
  have "egroup_limit_eids g (int k) = Some (take k (map nat xs))"
    using egroup_limit_spec[OF i, of "int k"] assms(8) es sz by simp
  moreover have "map (\<lambda>e. kupl_egroup_barrier True True pt k (int e) cur (Some g)) (take k (map nat xs)) =
      map (\<lambda>i. Some (i, k)) [0..<k]"
    by (rule nth_equalityI)
      (use assms(3,7,8) G(3) sz nth_mem in
        \<open>auto simp: kupl_egroup_barrier_def kupl_egroup_get_local_id_def executor_consts Let_def\<close>)
  ultimately show ?thesis by blast
qed

theorem egroup_barrier_participants_witness:
  "\<exists>es. egroup_limit_eids (example_group [0, 1, 2]) 2 = Some es \<and>
    map (\<lambda>e. kupl_egroup_barrier True True True 2 (int e) None (Some (example_group [0, 1, 2]))) es =
      [Some (0, 2), Some (1, 2)]"
proof -
  have "kupl_egroup_create True 8 0 8 True True True (Some [0, 1, 2]) (int (length [0, 1, 2::int])) =
      Some (Some (example_group [0, 1, 2]))"
    using egroup_create_cases[of 8 "[0, 1, 2]" True True 0 8] by (auto simp: example_group_def)
  from egroup_barrier_participants[OF _ _ _ _ _ _ _ _ this, of 2 True None]
  show ?thesis by (simp add: numeral_2_eq_2)
qed

text \<open>
  The order of the array matters: in a group created from \<open>[2, 0, 1]\<close> a region of two threads
  runs on the executors 0 and 1, but only executor 0 enters the barrier, as thread 1 of 2, and
  waits for a partner that skips it.
\<close>

theorem egroup_barrier_unsorted:
  "egroup_limit_eids (example_group [2, 0, 1]) 2 = Some [0, 1] \<and>
    kupl_egroup_barrier True True pt 2 0 cur (Some (example_group [2, 0, 1])) = Some (1, 2) \<and>
    kupl_egroup_barrier True True pt 2 1 cur (Some (example_group [2, 0, 1])) = None"
proof -
  note E = example_group[of "[2, 0, 1]", simplified]
  have i: "egi_inv (eg_cur (example_group [2, 0, 1]))" using E(1) by (simp add: eg_inv_def)
  have "ei_eid2lid (eg_cur (example_group [2, 0, 1])) 0 = 1"
    "ei_eid2lid (eg_cur (example_group [2, 0, 1])) 1 = 2"
    using spec[OF E(4), of 1] spec[OF E(4), of 2] by simp_all
  then show ?thesis using egroup_limit_spec[OF i, of 2] E(2,6)
    by (simp add: kupl_egroup_barrier_def kupl_egroup_get_local_id_def executor_consts)
qed

lemma next_scan_beyond:
  "length (filter (\<lambda>e. e \<in> s) [e..<Suc m]) \<le> k \<Longrightarrow> e \<le> Suc m \<Longrightarrow> next_scan s m e k = Suc m"
proof (induction s m e k rule: next_scan.induct)
  case (1 s m e k)
  show ?case
  proof (cases "e > m")
    case True
    then show ?thesis using "1.prems" by (subst next_scan.simps) simp
  next
    case False
    then have up: "[e..<Suc m] = e # [Suc e..<Suc m]" by (simp add: upt_rec)
    show ?thesis
    proof (cases "e \<in> s")
      case True
      then have "k \<noteq> 0" "length (filter (\<lambda>e. e \<in> s) [e + 1..<Suc m]) \<le> k - 1"
        using "1.prems" by (auto simp: up simp del: upt_Suc)
      with "1.IH"(1)[OF False True] False True show ?thesis by (subst next_scan.simps) simp
    next
      case no: False
      then have "length (filter (\<lambda>e. e \<in> s) [e + 1..<Suc m]) \<le> k"
        using "1.prems" by (simp add: up del: upt_Suc)
      with "1.IH"(2)[OF False no] False no show ?thesis by (subst next_scan.simps) simp
    qed
  qed
qed

text \<open>
  Resetting a group does not reset its position: when the group has lent-in executors and its
  position lies beyond its own size, the first request after the reset is answered with the number
  after its greatest executor, which is not a member.
\<close>

theorem egroup_reset_stale_next:
  assumes "eg_inv g" and "0 < ei_size (eg_def g)" and "ei_size (eg_def g) \<le> eg_next g"
  shows "fst (kupl_egroup_get_next (Some (kupl_egroup_reset g))) = ei_max_eid (eg_def g) + 1 \<and>
    ei_max_eid (eg_def g) + 1 \<notin> ei_eid_set (eg_cur (kupl_egroup_reset g))"
proof -
  let ?i = "eg_def g"
  have i: "egi_inv ?i" using assms(1) by (simp add: eg_inv_def)
  have "length (egroup_eids (kupl_egroup_reset g)) = ei_size ?i"
    using egroup_eids_facts(4)[of "kupl_egroup_reset g"] i by (simp add: kupl_egroup_reset_def)
  moreover have "ei_min_eid ?i \<le> Suc (ei_max_eid ?i)"
    using i assms(2) egi_card[OF i] by (cases "ei_eid_set ?i = {}") (auto simp: egi_inv_def)
  ultimately have "next_scan (ei_eid_set ?i) (ei_max_eid ?i) (ei_min_eid ?i) (eg_next g) = Suc (ei_max_eid ?i)"
    using assms(3) by (intro next_scan_beyond)
      (simp_all add: egroup_eids_def kupl_egroup_reset_def del: upt_Suc)
  moreover have "Suc (ei_max_eid ?i) \<notin> ei_eid_set ?i" using i by (auto simp: egi_inv_def)
  ultimately show ?thesis using assms(2) by (simp add: kupl_egroup_get_next_def kupl_egroup_reset_def)
qed

theorem egroup_reset_stale_next_witness:
  "\<exists>g. eg_inv g \<and> eg_next g = 3 \<and> ei_eid_set (eg_def g) = {0, 1} \<and> ei_eid_set (eg_cur g) = {0, 1, 2, 3} \<and>
    fst (kupl_egroup_get_next (Some (kupl_egroup_reset g))) \<notin> {0, 1}"
proof -
  let ?g = "(example_group [0, 1])\<lparr>eg_cur := eg_cur (example_group [0, 1, 2, 3]), eg_next := 3\<rparr>"
  note A = example_group[of "[0, 1]", simplified] and B = example_group[of "[0, 1, 2, 3]", simplified]
  have def: "eg_def (example_group [0, 1]) = eg_cur (example_group [0, 1])"
    by (auto simp: example_group_def kupl_egroup_create_def Let_def egroup_consts empty_info_def)
  have inv: "eg_inv ?g" using A(1) B(1,6) by (simp add: eg_inv_def)
  have "ei_size (eg_def ?g) = 2" "ei_eid_set (eg_def ?g) = {0, 1}" using A(5,6) def by simp_all
  with egroup_reset_stale_next[OF inv] B(5) inv show ?thesis
    by (intro exI[of _ ?g]) (auto simp: kupl_egroup_reset_def)
qed

end
