(* ===== verification/Kupl_Range.thy ===== *)
theory Kupl_Range
  imports Kupl_Prelude "HOL-Library.Monad_Syntax"
begin

text \<open>
  Iteration ranges (\<open>kupl_range_t\<close>, \<open>kupl_nd_range_t\<close> of \<open>src/src/kupl.h\<close>), their validation
  (\<open>src/src/mt/kupl_check.cpp\<close>) in checked 64-bit arithmetic, the division into chunks
  (\<open>kupl_calc_chunk_info\<close>, \<open>kupl_compute_chunk_range\<close> of \<open>src/src/mt/kupl_parallel_for.cpp\<close>), and
  the iterations a range stands for, against which the loop policies are proved.
\<close>

section \<open>Ranges\<close>

record kupl_range =
  r_lower :: int
  r_upper :: int
  r_step :: int
  r_blocksize :: int

record kupl_nd_range =
  nr_dim :: int
  nr_nd_range :: "kupl_range list"

definition KUPL_MAX_DIM_SIZE :: int where [simp]: "KUPL_MAX_DIM_SIZE = 3"
definition KUPL_LOOP_POLICY_STATIC :: int where [simp]: "KUPL_LOOP_POLICY_STATIC = 0"
definition KUPL_LOOP_POLICY_DYNAMIC :: int where [simp]: "KUPL_LOOP_POLICY_DYNAMIC = 1"
definition KUPL_LOOP_POLICY_TASK :: int where [simp]: "KUPL_LOOP_POLICY_TASK = 2"
definition KUPL_MAX_CHUNK :: int where "KUPL_MAX_CHUNK = INT64_MAX - 1"

text \<open>The macro \<open>kupl_divup\<close> on 64-bit operands; \<open>None\<close> is undefined behaviour.\<close>

definition divup64 :: "int \<Rightarrow> int \<Rightarrow> int option" where
  "divup64 a b = do { s \<leftarrow> add64 a b; t \<leftarrow> sub64 s 1; div64 t b }"

text \<open>
  One dimension of \<open>kupl_check_range\<close>: whether the loop goes on, the dimension with the block size
  it writes back, and the remaining chunks.
\<close>

definition check_bounds :: "kupl_range \<Rightarrow> bool" where
  "check_bounds r \<longleftrightarrow> \<not> (r_upper r \<le> r_lower r \<and> r_step r > 0 \<or>
     r_upper r \<ge> r_lower r \<and> r_step r < 0 \<or> r_step r = 0)"

definition check_blocksize :: "int \<Rightarrow> kupl_range \<Rightarrow> (bool \<times> int) option" where
  "check_blocksize blocksize r =
     (do {
        q \<leftarrow> div64 KUPL_MAX_CHUNK blocksize;
        bad \<leftarrow> (if r_step r > 0 then Some (q < r_step r)
                else do { m \<leftarrow> neg64 (r_step r); Some (r_step r < 0 \<and> q < m) });
        if bad then Some (False, 0)
        else do {
          chunksize \<leftarrow> mul64 blocksize (r_step r);
          bad \<leftarrow> (if chunksize > 0 then do { m \<leftarrow> sub64 INT64_MAX chunksize; Some (m < r_upper r) }
                  else if chunksize < 0 then do { m \<leftarrow> sub64 INT64_MIN chunksize; Some (m > r_upper r) }
                  else Some False);
          Some (\<not> bad, chunksize)
        }
      })"

definition check_extent :: "kupl_range \<Rightarrow> bool option" where
  "check_extent r =
     (if r_step r > 0 then
        (do {
           far \<leftarrow> (if r_upper r \<ge> 0 \<and> r_lower r < 0
                   then do { m \<leftarrow> add64 INT64_MAX (r_lower r); Some (r_upper r > m) } else Some False);
           if far then Some False
           else do {
             d \<leftarrow> sub64 (r_upper r) (r_lower r); d \<leftarrow> sub64 d 1;
             c \<leftarrow> mul64 (r_step r) (r_blocksize r); m \<leftarrow> sub64 INT64_MAX c;
             Some (\<not> d > m)
           }
         })
      else if r_step r < 0 then
        (do {
           far \<leftarrow> (if r_lower r \<ge> 0 \<and> r_upper r < 0
                   then do { m \<leftarrow> add64 INT64_MAX (r_upper r); Some (r_lower r > m) } else Some False);
           if far then Some False
           else do {
             d \<leftarrow> sub64 (r_lower r) (r_upper r);
             s \<leftarrow> neg64 (r_step r); c \<leftarrow> mul64 s (r_blocksize r); c \<leftarrow> sub64 c 1;
             m \<leftarrow> sub64 INT64_MAX c;
             Some (\<not> d > m)
           }
         })
      else Some True)"

definition check_dim :: "int \<Rightarrow> kupl_range \<Rightarrow> int \<Rightarrow> (bool \<times> kupl_range \<times> int) option" where
  "check_dim policy r remain_chunks =
     (if \<not> check_bounds r then Some (False, r, remain_chunks)
      else do {
        (ok, r, chunksize) \<leftarrow>
          (if policy = KUPL_LOOP_POLICY_STATIC then Some (True, r\<lparr>r_blocksize := 1\<rparr>, r_step r)
           else (let r = (if r_blocksize r = 0 then r\<lparr>r_blocksize := 1\<rparr> else r)
                 in do { (ok, c) \<leftarrow> check_blocksize (r_blocksize r) r; Some (ok, r, c) }));
        if \<not> ok then Some (False, r, remain_chunks)
        else do {
          ok \<leftarrow> check_extent r;
          if \<not> ok then Some (False, r, remain_chunks)
          else do {
            d \<leftarrow> sub64 (r_upper r) (r_lower r);
            n \<leftarrow> divup64 d chunksize;
            remain_chunks \<leftarrow> div64 remain_chunks n;
            Some (True, r, remain_chunks)
          }
        }
      })"

fun check_dims :: "int \<Rightarrow> kupl_range list \<Rightarrow> int \<Rightarrow> (bool \<times> kupl_range list \<times> int) option" where
  "check_dims policy [] remain_chunks = Some (True, [], remain_chunks)"
| "check_dims policy (r # rs) remain_chunks =
     (case check_dim policy r remain_chunks of
        None \<Rightarrow> None
      | Some (False, r, n) \<Rightarrow> Some (False, r # rs, n)
      | Some (True, r, n) \<Rightarrow>
          (case check_dims policy rs n of
             None \<Rightarrow> None
           | Some (ok, rs, n) \<Rightarrow> Some (ok, r # rs, n)))"

text \<open>\<open>kupl_check_range\<close>: the status and the range with its block sizes filled in.\<close>

definition kupl_check_range :: "kupl_nd_range \<Rightarrow> int \<Rightarrow> (int \<times> kupl_nd_range) option" where
  "kupl_check_range rng policy =
     (let dim = nr_dim rng in
      if dim < 1 \<or> dim > KUPL_MAX_DIM_SIZE then Some (KUPL_ERROR, rng)
      else (case check_dims policy (take (nat dim) (nr_nd_range rng)) KUPL_MAX_CHUNK of
          None \<Rightarrow> None
        | Some (ok, rs, n) \<Rightarrow>
            (let rng = rng\<lparr>nr_nd_range := rs @ drop (nat dim) (nr_nd_range rng)\<rparr>
             in Some (if ok \<and> n \<noteq> 0 then KUPL_OK else KUPL_ERROR, rng))))"

section \<open>Chunks\<close>

text \<open>
  The numbers here are integers without bounds.  \<open>Kupl_Range_Bounds\<close> has the same functions in checked
  64-bit arithmetic, and shows that they return these numbers for every range that \<open>kupl_check_range\<close>
  accepts for the policies that cut chunks.
\<close>

record range_chunk =
  rc_chunksize :: int
  rc_chunks :: int

definition calc_chunk :: "kupl_range \<Rightarrow> range_chunk" where
  "calc_chunk r =
     (let chunksize = r_step r * r_blocksize r
      in \<lparr>rc_chunksize = chunksize,
          rc_chunks = (if chunksize > 0 then kupl_divup (r_upper r - r_lower r) chunksize
                       else kupl_divup (r_lower r - r_upper r) (- chunksize))\<rparr>)"

text \<open>\<open>kupl_calc_chunk_info\<close>: the chunks of every dimension and their product.\<close>

definition kupl_calc_chunk_info :: "kupl_nd_range \<Rightarrow> range_chunk list \<times> int" where
  "kupl_calc_chunk_info rng =
     (let chunk_info = map calc_chunk (take (nat (nr_dim rng)) (nr_nd_range rng))
      in (chunk_info, fold (\<lambda>c total. total * rc_chunks c) chunk_info 1))"

text \<open>
  \<open>kupl_compute_chunk_range\<close>: the chunk number is read in the mixed radix of the chunk counts, the
  last dimension first.
\<close>

fun chunk_range_loop :: "kupl_range list \<Rightarrow> range_chunk list \<Rightarrow> int \<Rightarrow> kupl_range list \<times> int" where
  "chunk_range_loop (r # rs) (c # cs) ci =
     (let (rs, ci) = chunk_range_loop rs cs ci;
          nd_index = ci mod rc_chunks c;
          ci = ci div rc_chunks c;
          chunksize = rc_chunksize c;
          lower = r_lower r + nd_index * chunksize;
          upper = (if chunksize > 0 then kupl_min (lower + chunksize) (r_upper r)
                   else kupl_max (lower + chunksize) (r_upper r))
      in (r\<lparr>r_lower := lower, r_upper := upper\<rparr> # rs, ci))"
| "chunk_range_loop rs cs ci = (rs, ci)"

definition kupl_compute_chunk_range :: "kupl_nd_range \<Rightarrow> range_chunk list \<Rightarrow> int \<Rightarrow> kupl_nd_range" where
  "kupl_compute_chunk_range rng chunk_info chunk_idx =
     (let dim = nat (nr_dim rng)
      in rng\<lparr>nr_nd_range := fst (chunk_range_loop (take dim (nr_nd_range rng)) chunk_info chunk_idx) @
                          drop dim (nr_nd_range rng)\<rparr>)"

section \<open>Iterations\<close>

text \<open>
  The values that a loop from \<open>l\<close> towards \<open>u\<close> in steps of \<open>s\<close> takes, in order, and the points of a
  range of several dimensions.
\<close>

definition iter_count :: "int \<Rightarrow> int \<Rightarrow> int \<Rightarrow> nat" where
  "iter_count l u s =
     (if s > 0 then nat ((u - l + s - 1) div s) else if s < 0 then nat ((l - u - s - 1) div (- s)) else 0)"

definition iters :: "kupl_range \<Rightarrow> int list" where
  "iters r = map (\<lambda>k. r_lower r + int k * r_step r) [0..<iter_count (r_lower r) (r_upper r) (r_step r)]"

definition nd_iters :: "kupl_nd_range \<Rightarrow> int list list" where
  "nd_iters rng = product_lists (map iters (take (nat (nr_dim rng)) (nr_nd_range rng)))"

text \<open>A dimension as \<open>kupl_check_range\<close> leaves it when it accepts.\<close>

definition range_ok :: "kupl_range \<Rightarrow> bool" where
  "range_ok r \<longleftrightarrow> r_blocksize r \<ge> 1 \<and>
     (r_step r > 0 \<and> r_lower r < r_upper r \<or> r_step r < 0 \<and> r_upper r < r_lower r)"

lemma le_div_iff_mult_int: "0 < (s::int) \<Longrightarrow> n \<le> x div s \<longleftrightarrow> n * s \<le> x"
proof
  assume s: "0 < s" and "n \<le> x div s"
  then have "n * s \<le> (x div s) * s" by (simp add: mult_right_mono)
  also have "\<dots> \<le> x" using s pos_mod_sign[of s x] div_mult_mod_eq[of x s] by linarith
  finally show "n * s \<le> x" .
next
  assume s: "0 < s" and "n * s \<le> x"
  then have "(n * s) div s \<le> x div s" by (intro zdiv_mono1) simp_all
  then show "n \<le> x div s" using s by simp
qed

text \<open>The rounded-up quotient counts the multiples below a bound.\<close>

lemma div_ceil_less: "0 < (s::int) \<Longrightarrow> int k < (a + s - 1) div s \<longleftrightarrow> int k * s < a"
proof -
  assume s: "0 < s"
  have "int k < (a + s - 1) div s \<longleftrightarrow> int k + 1 \<le> (a + s - 1) div s" by linarith
  also have "\<dots> \<longleftrightarrow> (int k + 1) * s \<le> a + s - 1" using s by (rule le_div_iff_mult_int)
  also have "\<dots> \<longleftrightarrow> int k * s < a" by (auto simp: distrib_right)
  finally show ?thesis .
qed

lemma iter_count_less:
  "k < iter_count l u s \<longleftrightarrow> (s > 0 \<and> l + int k * s < u) \<or> (s < 0 \<and> l + int k * s > u)"
proof -
  consider "s > 0" | "s < 0" | "s = 0" by linarith
  then show ?thesis
  proof cases
    case 1
    then have "k < iter_count l u s \<longleftrightarrow> int k < (u - l + s - 1) div s"
      by (simp add: iter_count_def zless_nat_eq_int_zless)
    also have "\<dots> \<longleftrightarrow> int k * s < u - l" using 1 by (rule div_ceil_less)
    finally show ?thesis using 1 by auto
  next
    case 2
    then have "k < iter_count l u s \<longleftrightarrow> int k < (l - u + (- s) - 1) div (- s)"
      by (simp add: iter_count_def zless_nat_eq_int_zless)
    also have "\<dots> \<longleftrightarrow> int k * (- s) < l - u" using 2 by (intro div_ceil_less) simp
    finally show ?thesis using 2 by auto
  qed (simp add: iter_count_def)
qed

lemma nat_eq_by_less: "(\<And>k::nat. k < m \<longleftrightarrow> k < n) \<Longrightarrow> m = n"
  by (metis linorder_neqE_nat less_irrefl)

lemma iters_mem:
  "x \<in> set (iters r) \<longleftrightarrow> (\<exists>k. x = r_lower r + int k * r_step r \<and>
     ((r_step r > 0 \<and> x < r_upper r) \<or> (r_step r < 0 \<and> x > r_upper r)))"
  by (auto simp: iters_def iter_count_less)

lemma distinct_iters: "distinct (iters r)"
proof (cases "r_step r = 0")
  case True
  then show ?thesis by (simp add: iters_def iter_count_def)
next
  case False
  then show ?thesis by (auto simp: iters_def distinct_map inj_on_def)
qed

text \<open>
  A sub-range from the \<open>a\<close>-th to before the \<open>b\<close>-th iteration, cut at the end of the range, stands
  for these iterations.
\<close>

definition sub_range :: "kupl_range \<Rightarrow> nat \<Rightarrow> nat \<Rightarrow> kupl_range" where
  "sub_range r a b = r\<lparr>r_lower := r_lower r + int a * r_step r,
     r_upper := (if r_step r > 0 then min (r_lower r + int b * r_step r) (r_upper r)
                 else max (r_lower r + int b * r_step r) (r_upper r))\<rparr>"

definition iter_total :: "kupl_range \<Rightarrow> nat" where
  "iter_total r = iter_count (r_lower r) (r_upper r) (r_step r)"

lemma iters_sub_range:
  "iters (sub_range r a b) = map (\<lambda>k. r_lower r + int k * r_step r) [a..<min b (iter_total r)]"
proof (cases "r_step r = 0")
  case True
  then show ?thesis by (simp add: iters_def sub_range_def iter_total_def iter_count_def)
next
  case False
  let ?l = "r_lower r" and ?s = "r_step r" and ?u = "r_upper r"
  have pos: "?s > 0 \<Longrightarrow> ?l + int (a + k) * ?s < ?l + int b * ?s \<longleftrightarrow> a + k < b" for k
    by (simp add: of_nat_add[symmetric] del: of_nat_add)
  have neg: "?s < 0 \<Longrightarrow> ?l + int (a + k) * ?s > ?l + int b * ?s \<longleftrightarrow> a + k < b" for k
    by (simp add: of_nat_add[symmetric] del: of_nat_add)
  have "iter_count (?l + int a * ?s)
      (if ?s > 0 then min (?l + int b * ?s) ?u else max (?l + int b * ?s) ?u) ?s = min b (iter_total r) - a"
    (is "?c = _")
  proof (rule nat_eq_by_less)
    fix k
    have eq: "?l + int a * ?s + int k * ?s = ?l + int (a + k) * ?s" by (simp add: algebra_simps)
    have "k < ?c \<longleftrightarrow> a + k < b \<and> a + k < iter_total r"
      unfolding iter_count_less iter_total_def eq using pos[of k] neg[of k] False by auto
    then show "k < ?c \<longleftrightarrow> k < min b (iter_total r) - a" by auto
  qed
  then have "iters (sub_range r a b) = map (\<lambda>k. ?l + int a * ?s + int k * ?s) [0..<min b (iter_total r) - a]"
    by (simp add: iters_def sub_range_def)
  also have "\<dots> = map (\<lambda>k. ?l + int k * ?s) (map (\<lambda>k. a + k) [0..<min b (iter_total r) - a])"
    by (simp add: o_def algebra_simps)
  also have "map (\<lambda>k. a + k) [0..<min b (iter_total r) - a] = [a..<min b (iter_total r)]"
    using map_add_upt[of a "min b (iter_total r) - a"]
    by (cases "a \<le> min b (iter_total r)") (auto simp: add.commute not_le min_def split: if_splits)
  finally show ?thesis .
qed

lemma concat_cuts:
  assumes "f 0 = 0" and "\<And>i. f i \<le> f (Suc i)"
  shows "concat (map (\<lambda>i. map g [f i..<min (f (Suc i)) N]) [0..<n]) = map g [0..<min (f n) N]"
proof (induction n)
  case 0
  then show ?case by (simp add: assms)
next
  case (Suc n)
  have "[0..<min (f n) N] @ [f n..<min (f (Suc n)) N] = [0..<min (f (Suc n)) N]"
  proof (cases "f n \<le> N")
    case True
    then show ?thesis using assms(2)[of n] upt_add_eq_append[of 0 "f n" "min (f (Suc n)) N - f n"]
      by (simp add: min_def)
  next
    case False
    then show ?thesis using assms(2)[of n] by simp
  qed
  then have "map g [0..<min (f n) N] @ map g [f n..<min (f (Suc n)) N] = map g [0..<min (f (Suc n)) N]"
    by (simp flip: map_append)
  then show ?case using Suc by simp
qed

text \<open>Cutting a range at a monotone sequence of positions keeps its iterations, in order.\<close>

lemma concat_sub_ranges:
  assumes "f 0 = 0" and "\<And>i. f i \<le> f (Suc i)" and "iter_total r \<le> f n"
  shows "concat (map (\<lambda>i. iters (sub_range r (f i) (f (Suc i)))) [0..<n]) = iters r"
proof -
  have "iters r = map (\<lambda>k. r_lower r + int k * r_step r) [0..<iter_total r]"
    by (simp add: iters_def iter_total_def)
  then show ?thesis using concat_cuts[OF assms(1,2), of _ "iter_total r" n] assms(3)
    by (simp add: iters_sub_range min_absorb2)
qed

section \<open>Chunk counts\<close>

lemma calc_chunk_ok:
  assumes "range_ok r"
  shows "rc_chunks (calc_chunk r) \<ge> 1" "rc_chunksize (calc_chunk r) = r_step r * r_blocksize r"
    "rc_chunksize (calc_chunk r) > 0 \<longleftrightarrow> r_step r > 0"
    "iter_total r \<le> nat (rc_chunks (calc_chunk r)) * nat (r_blocksize r)"
proof -
  let ?c = "r_step r * r_blocksize r"
  have bs: "r_blocksize r \<ge> 1" and dir: "r_step r > 0 \<and> r_lower r < r_upper r \<or>
    r_step r < 0 \<and> r_upper r < r_lower r" using assms by (auto simp: range_ok_def)
  show 1: "rc_chunksize (calc_chunk r) = ?c" by (simp add: calc_chunk_def Let_def)
  show sg: "rc_chunksize (calc_chunk r) > 0 \<longleftrightarrow> r_step r > 0"
    using bs by (simp add: 1 zero_less_mult_iff)
  define a where "a = (if r_step r > 0 then r_upper r - r_lower r else r_lower r - r_upper r)"
  define b where "b = \<bar>?c\<bar>"
  have ab: "0 < a" "0 < b" using dir bs by (auto simp: a_def b_def)
  have n: "rc_chunks (calc_chunk r) = kupl_divup a b"
    using sg 1 dir by (auto simp: calc_chunk_def Let_def a_def b_def)
  show ge: "rc_chunks (calc_chunk r) \<ge> 1" unfolding n using ab by (rule kupl_divup_ge_1)
  have cov: "a \<le> kupl_divup a b * b" using ab by (rule kupl_divup_cover)
  show "iter_total r \<le> nat (rc_chunks (calc_chunk r)) * nat (r_blocksize r)"
  proof (rule ccontr)
    assume "\<not> ?thesis"
    then have lt: "nat (rc_chunks (calc_chunk r)) * nat (r_blocksize r) <
        iter_count (r_lower r) (r_upper r) (r_step r)" by (simp add: iter_total_def)
    have "int (nat (rc_chunks (calc_chunk r)) * nat (r_blocksize r)) * \<bar>r_step r\<bar> < a"
      using lt[unfolded iter_count_less] by (auto simp: a_def)
    moreover have "int (nat (rc_chunks (calc_chunk r)) * nat (r_blocksize r)) * \<bar>r_step r\<bar> =
        kupl_divup a b * b"
      using ge bs by (simp add: n b_def abs_mult)
    ultimately show False using cov by linarith
  qed
qed

section \<open>What the check guarantees\<close>

text \<open>
  A range that passes: every dimension is directed and non-empty with a positive block size, and
  the product of the chunk counts is at most \<open>KUPL_MAX_CHUNK\<close>.
\<close>

lemma divup64_ge:
  assumes "divup64 d c = Some n" and "d = r_upper r - r_lower r" and "c = r_step r * r_blocksize r"
    and "range_ok r"
  shows "rc_chunks (calc_chunk r) \<le> n"
proof -
  have n: "n = (d + c - 1) sdiv c" using assms(1)
    by (auto simp: divup64_def div64_def add64_def sub64_def split: if_splits Option.bind_splits)
  have bs: "r_blocksize r \<ge> 1" using assms(4) by (simp add: range_ok_def)
  show ?thesis
  proof (cases "r_step r > 0")
    case True
    then have "c > 0" using bs by (simp add: assms(3))
    then show ?thesis using True n assms(2,3) by (simp add: calc_chunk_def kupl_divup_def Let_def)
  next
    case False
    then have s: "r_step r < 0" "r_upper r < r_lower r" using assms(4) by (auto simp: range_ok_def)
    then have c: "c < 0" using bs by (simp add: assms(3) mult_neg_pos)
    have "n = (- (d + c - 1)) div (- c)" using n c s assms(2) by (simp add: sdiv_neg_neg)
    moreover have "rc_chunks (calc_chunk r) = ((- d) + (- c) - 1) div (- c)"
      using c s assms(2,3) by (simp add: calc_chunk_def Let_def kupl_divup_pos)
    moreover have "((- d) + (- c) - 1) div (- c) \<le> (- (d + c - 1)) div (- c)"
      using c by (intro zdiv_mono1) simp_all
    ultimately show ?thesis by simp
  qed
qed

lemma sdiv_pos_imp_pos: "0 < a \<Longrightarrow> 0 < a sdiv b \<Longrightarrow> 0 < (b :: int)"
proof (rule ccontr)
  assume a: "0 < a" "0 < a sdiv b" "\<not> 0 < b"
  have "b < 0 \<Longrightarrow> 0 \<le> a div - b" using a(1) by (simp add: pos_imp_zdiv_nonneg_iff)
  with a show False by (auto simp: signed_divide_int_def sgn_if not_less split: if_splits)
qed

lemma check_blocksize_ok:
  assumes "check_blocksize b r = Some (True, c)" and "r_step r \<noteq> 0"
  shows "0 < b" "c = b * r_step r"
proof -
  obtain q where q: "div64 KUPL_MAX_CHUNK b = Some q"
    using assms(1) by (auto simp: check_blocksize_def split: Option.bind_splits)
  then have "0 < q"
    using assms by (auto simp: check_blocksize_def neg64_def split: Option.bind_splits if_splits)
  moreover have "q = KUPL_MAX_CHUNK sdiv b" using q by (auto simp: div64_def split: if_splits)
  ultimately show "0 < b"
    using sdiv_pos_imp_pos[of KUPL_MAX_CHUNK b] by (simp add: KUPL_MAX_CHUNK_def INT64_MAX_def)
  show "c = b * r_step r"
    using assms(1) q by (auto simp: check_blocksize_def mul64_def split: Option.bind_splits if_splits)
qed

lemma check_dim_ok:
  assumes "check_dim policy r m = Some (True, r', m')" and "0 \<le> m"
  shows "range_ok r' \<and> (\<exists>n. rc_chunks (calc_chunk r') \<le> n \<and> m' = m div n) \<and>
    r' = r\<lparr>r_blocksize := (if policy = KUPL_LOOP_POLICY_STATIC \<or> r_blocksize r = 0 then 1 else r_blocksize r)\<rparr>"
proof -
  define q where "q = r\<lparr>r_blocksize := (if policy = KUPL_LOOP_POLICY_STATIC \<or> r_blocksize r = 0 then 1
      else r_blocksize r)\<rparr>"
  have bnd: "check_bounds r" using assms(1) by (auto simp: check_dim_def split: if_splits)
  then have st: "r_step q \<noteq> 0" by (auto simp: check_bounds_def q_def)
  have "r' = q \<and> 0 < r_blocksize q \<and>
    (\<exists>d n. d = r_upper q - r_lower q \<and> divup64 d (r_step q * r_blocksize q) = Some n \<and> div64 m n = Some m')"
  proof (cases "policy = KUPL_LOOP_POLICY_STATIC")
    case True
    then show ?thesis using assms(1) bnd
      by (auto simp: check_dim_def q_def sub64_def split: Option.bind_splits if_splits)
  next
    case False
    define p where "p = (if r_blocksize r = 0 then r\<lparr>r_blocksize := 1\<rparr> else r)"
    have pq: "p = q" using False by (simp add: p_def q_def)
    from assms(1) bnd False obtain ok c where b: "check_blocksize (r_blocksize q) q = Some (ok, c)"
      unfolding check_dim_def p_def[symmetric] Let_def pq
      by (auto split: Option.bind_splits if_splits)
    then have eq: "(if \<not> ok then Some (False, q, m)
        else do {
          ok \<leftarrow> check_extent q;
          if \<not> ok then Some (False, q, m)
          else do {
            d \<leftarrow> sub64 (r_upper q) (r_lower q);
            n \<leftarrow> divup64 d c;
            m \<leftarrow> div64 m n;
            Some (True, q, m)
          }
        }) = Some (True, r', m')"
      using assms(1) bnd False unfolding check_dim_def p_def[symmetric] Let_def pq by simp
    then have ok by (auto split: if_splits)
    note B = check_blocksize_ok[of "r_blocksize q" q c]
    show ?thesis using eq \<open>ok\<close> b st B pq
      by (auto simp: sub64_def mult.commute split: Option.bind_splits if_splits)
  qed
  then obtain d n where r': "r' = q" and bs: "0 < r_blocksize q" and d: "d = r_upper q - r_lower q"
    and n: "divup64 d (r_step q * r_blocksize q) = Some n" "div64 m n = Some m'" by blast
  have ok: "range_ok q" using bnd bs by (auto simp: range_ok_def check_bounds_def q_def)
  note ge = divup64_ge[OF n(1) d refl ok]
  have "1 \<le> n" using ge calc_chunk_ok(1)[OF ok] by simp
  then have "m' = m div n" using n(2) assms(2) by (auto simp: div64_def sdiv_nonneg_pos split: if_splits)
  then show ?thesis using ok ge r' q_def by blast
qed

definition dim_chunks :: "kupl_range \<Rightarrow> int" where
  "dim_chunks r = rc_chunks (calc_chunk r)"

definition fill_blocksize :: "int \<Rightarrow> kupl_range \<Rightarrow> kupl_range" where
  "fill_blocksize policy r =
     r\<lparr>r_blocksize := (if policy = KUPL_LOOP_POLICY_STATIC \<or> r_blocksize r = 0 then 1 else r_blocksize r)\<rparr>"

lemma dim_chunks_ge_1: "range_ok r \<Longrightarrow> 1 \<le> dim_chunks r"
  by (simp add: dim_chunks_def calc_chunk_ok)

lemma check_dim_filled:
  assumes "check_dim policy r m = Some (True, r', m')" and "0 \<le> m"
  shows "range_ok r' \<and> (\<exists>n. dim_chunks r' \<le> n \<and> m' = m div n) \<and> r' = fill_blocksize policy r"
  using check_dim_ok[OF assms] unfolding dim_chunks_def fill_blocksize_def .

lemma fold_chunks: "fold (\<lambda>c t. t * rc_chunks c) cs (k :: int) = k * prod_list (map rc_chunks cs)"
  by (induction cs arbitrary: k) (simp_all add: algebra_simps)

lemma prod_chunks_ge_1: "\<forall>r\<in>set rs. range_ok r \<Longrightarrow> 1 \<le> prod_list (map dim_chunks rs)"
proof (induction rs)
  case (Cons r rs)
  then have "1 * 1 \<le> dim_chunks r * prod_list (map dim_chunks rs)"
    by (intro mult_mono) (auto simp: dim_chunks_ge_1 intro: order.trans[OF _ dim_chunks_ge_1])
  then show ?case by simp
qed simp

lemma check_dims_ok:
  assumes "check_dims policy rs m = Some (True, rs', m')" and "0 \<le> m"
  shows "(\<forall>r\<in>set rs'. range_ok r) \<and>
    rs' = map (fill_blocksize policy) rs \<and>
    (\<exists>n. prod_list (map dim_chunks rs') \<le> n \<and> m' = m div n)"
  using assms
proof (induction rs arbitrary: m rs' m')
  case Nil
  then show ?case by (auto intro: exI[of _ 1])
next
  case (Cons r rs)
  then obtain r1 m1 rs1 where r1: "check_dim policy r m = Some (True, r1, m1)"
    and rs1: "check_dims policy rs m1 = Some (True, rs1, m')" and rs': "rs' = r1 # rs1"
    by (auto split: option.splits bool.splits)
  from check_dim_filled[OF r1 Cons.prems(2)] obtain n1 where
    n1: "range_ok r1" "dim_chunks r1 \<le> n1" "m1 = m div n1"
    "r1 = fill_blocksize policy r" by blast
  have p1: "1 \<le> n1" using n1(2) dim_chunks_ge_1[OF n1(1)] by simp
  then have "0 \<le> m1" using n1(3) Cons.prems(2) by (simp add: pos_imp_zdiv_nonneg_iff)
  from Cons.IH[OF rs1 this] obtain n2 where n2: "\<forall>r\<in>set rs1. range_ok r"
    "prod_list (map dim_chunks rs1) \<le> n2" "m' = m1 div n2"
    "rs1 = map (fill_blocksize policy) rs" by blast
  have p2: "1 \<le> n2" using n2(2) prod_chunks_ge_1[OF n2(1)] by simp
  have "m' = m div (n1 * n2)" using n1(3) n2(3) p2 by (simp add: zdiv_zmult2_eq)
  moreover have "dim_chunks r1 * prod_list (map dim_chunks rs1) \<le> n1 * n2"
    using n1(2) n2(2) p1 prod_chunks_ge_1[OF n2(1)] by (intro mult_mono) auto
  ultimately show ?case using rs' n1(1,4) n2(1,3,4) by auto
qed

lemma iters_fill [simp]: "iters (fill_blocksize policy r) = iters r"
  by (simp add: iters_def fill_blocksize_def)

lemma check_range_facts:
  assumes "kupl_check_range rng policy = Some (KUPL_OK, rng')" and "length (nr_nd_range rng) = 3"
  shows "nr_dim rng' = nr_dim rng \<and> 1 \<le> nr_dim rng \<and> nr_dim rng \<le> 3 \<and>
    (\<forall>r\<in>set (take (nat (nr_dim rng)) (nr_nd_range rng')). range_ok r \<and>
       (policy = KUPL_LOOP_POLICY_STATIC \<longrightarrow> r_blocksize r = 1)) \<and>
    1 \<le> snd (kupl_calc_chunk_info rng') \<and> snd (kupl_calc_chunk_info rng') \<le> KUPL_MAX_CHUNK \<and>
    nd_iters rng' = nd_iters rng"
proof -
  let ?d = "nat (nr_dim rng)"
  obtain rs m where c: "check_dims policy (take ?d (nr_nd_range rng)) KUPL_MAX_CHUNK = Some (True, rs, m)"
    and m: "m \<noteq> 0" and rng': "rng' = rng\<lparr>nr_nd_range := rs @ drop ?d (nr_nd_range rng)\<rparr>"
    and dim: "1 \<le> nr_dim rng" "nr_dim rng \<le> 3"
    using assms(1) by (auto simp: kupl_check_range_def Let_def split: if_splits option.splits)
  have K: "0 \<le> KUPL_MAX_CHUNK" by (simp add: KUPL_MAX_CHUNK_def INT64_MAX_def)
  from check_dims_ok[OF c K] obtain n where ok: "\<forall>r\<in>set rs. range_ok r"
    and rs: "rs = map (fill_blocksize policy) (take ?d (nr_nd_range rng))"
    and n: "prod_list (map dim_chunks rs) \<le> n" "m = KUPL_MAX_CHUNK div n" by blast
  have len: "length rs = ?d" using rs assms(2) dim by simp
  then have tk: "take ?d (nr_nd_range rng') = rs" by (simp add: rng')
  have tot: "snd (kupl_calc_chunk_info rng') = prod_list (map dim_chunks rs)"
    using tk by (simp add: kupl_calc_chunk_info_def Let_def fold_chunks rng' dim_chunks_def[abs_def] o_def)
  have ge1: "1 \<le> prod_list (map dim_chunks rs)" using ok by (rule prod_chunks_ge_1)
  have "n \<le> KUPL_MAX_CHUNK"
  proof (rule ccontr)
    assume "\<not> n \<le> KUPL_MAX_CHUNK"
    then have "KUPL_MAX_CHUNK div n = 0" using K by (simp add: div_pos_pos_trivial)
    then show False using m n(2) by simp
  qed
  moreover have "map iters rs = map iters (take ?d (nr_nd_range rng))" by (simp add: rs o_def)
  then have "nd_iters rng' = nd_iters rng" using tk by (simp add: nd_iters_def rng')
  moreover have "policy = KUPL_LOOP_POLICY_STATIC \<longrightarrow> (\<forall>r\<in>set rs. r_blocksize r = 1)"
    using rs by (auto simp: fill_blocksize_def)
  ultimately show ?thesis using ok n(1) ge1 tk tot dim by (auto simp: rng')
qed

lemma calc_chunk_total: "snd (kupl_calc_chunk_info rng) =
    prod_list (map dim_chunks (take (nat (nr_dim rng)) (nr_nd_range rng)))"
  by (simp add: kupl_calc_chunk_info_def Let_def fold_chunks o_def dim_chunks_def[abs_def])

lemma check_range_filled:
  assumes "kupl_check_range rng policy = Some (KUPL_OK, rng')"
  shows "take (nat (nr_dim rng)) (nr_nd_range rng') =
    map (fill_blocksize policy) (take (nat (nr_dim rng)) (nr_nd_range rng))"
proof -
  let ?d = "nat (nr_dim rng)"
  obtain rs m where c: "check_dims policy (take ?d (nr_nd_range rng)) KUPL_MAX_CHUNK = Some (True, rs, m)"
    and rng': "rng' = rng\<lparr>nr_nd_range := rs @ drop ?d (nr_nd_range rng)\<rparr>"
    using assms by (auto simp: kupl_check_range_def Let_def split: if_splits option.splits)
  have "0 \<le> KUPL_MAX_CHUNK" by (simp add: KUPL_MAX_CHUNK_def INT64_MAX_def)
  from check_dims_ok[OF c this] have rs: "rs = map (fill_blocksize policy) (take ?d (nr_nd_range rng))" by blast
  thus ?thesis by (simp add: rng' min_def)
qed

definition example_range :: kupl_nd_range where
  "example_range = \<lparr>nr_dim = 2, nr_nd_range =
     [\<lparr>r_lower = 0, r_upper = 10, r_step = 3, r_blocksize = 2\<rparr>,
      \<lparr>r_lower = 5, r_upper = 0, r_step = -2, r_blocksize = 0\<rparr>,
      \<lparr>r_lower = 0, r_upper = 0, r_step = 0, r_blocksize = 0\<rparr>]\<rparr>"

lemmas check_eval = kupl_check_range_def check_dim_def check_bounds_def check_blocksize_def
  check_extent_def divup64_def add64_def sub64_def mul64_def neg64_def div64_def chk64_def int64_def
  INT64_MAX_def INT64_MIN_def KUPL_MAX_CHUNK_def Let_def signed_divide_int_def

section \<open>The chunks partition the iterations\<close>

definition chunk_at :: "kupl_range \<Rightarrow> int \<Rightarrow> kupl_range" where
  "chunk_at r i = r\<lparr>r_lower := r_lower r + i * rc_chunksize (calc_chunk r),
     r_upper := (if rc_chunksize (calc_chunk r) > 0
                 then kupl_min (r_lower r + i * rc_chunksize (calc_chunk r) + rc_chunksize (calc_chunk r)) (r_upper r)
                 else kupl_max (r_lower r + i * rc_chunksize (calc_chunk r) + rc_chunksize (calc_chunk r)) (r_upper r))\<rparr>"

lemma chunk_at_sub_range:
  assumes "range_ok r" and "0 \<le> i"
  shows "chunk_at r i = sub_range r (nat i * nat (r_blocksize r)) (Suc (nat i) * nat (r_blocksize r))"
proof -
  have bs: "0 \<le> r_blocksize r" using assms(1) by (simp add: range_ok_def)
  have c: "rc_chunksize (calc_chunk r) = r_step r * r_blocksize r" using calc_chunk_ok[OF assms(1)] by simp
  have sg: "r_step r * r_blocksize r > 0 \<longleftrightarrow> r_step r > 0" using calc_chunk_ok(3)[OF assms(1)] c by simp
  show ?thesis unfolding chunk_at_def sub_range_def c sg
    using bs assms(2) by (simp add: kupl_min_eq kupl_max_eq algebra_simps)
qed

text \<open>In one dimension the chunks, one after the other, are the iterations of the range.\<close>

lemma concat_chunks:
  assumes "range_ok r"
  shows "concat (map (\<lambda>i. iters (chunk_at r (int i))) [0..<nat (dim_chunks r)]) = iters r"
proof -
  have eq: "(\<lambda>i. iters (chunk_at r (int i))) =
      (\<lambda>i. iters (sub_range r (i * nat (r_blocksize r)) (Suc i * nat (r_blocksize r))))"
    using chunk_at_sub_range[OF assms] by simp
  have "iter_total r \<le> nat (dim_chunks r) * nat (r_blocksize r)"
    using calc_chunk_ok(4)[OF assms] by (simp add: dim_chunks_def)
  then show ?thesis unfolding eq
    by (intro concat_sub_ranges[of "\<lambda>i. i * nat (r_blocksize r)"]) (simp_all add: mult_right_mono)
qed

lemma chunk_at_unique:
  assumes ok: "range_ok r" and x: "x \<in> set (iters r)"
  shows "\<exists>!i. 0 \<le> i \<and> i < dim_chunks r \<and> x \<in> set (iters (chunk_at r i))"
proof -
  have "x \<in> set (concat (map (\<lambda>i. iters (chunk_at r (int i))) [0..<nat (dim_chunks r)]))"
    using x by (simp only: concat_chunks[OF ok])
  then obtain i where i: "int i < dim_chunks r" "x \<in> set (iters (chunk_at r (int i)))"
    by (auto simp: zless_nat_eq_int_zless)
  have bs: "0 < nat (r_blocksize r)" and st: "r_step r \<noteq> 0" using ok by (auto simp: range_ok_def)
  have "j = k" if j: "0 \<le> j" "x \<in> set (iters (chunk_at r j))" and k: "0 \<le> k" "x \<in> set (iters (chunk_at r k))"
    for j k
  proof -
    obtain a where a: "x = r_lower r + int a * r_step r" "nat j * nat (r_blocksize r) \<le> a"
      "a < Suc (nat j) * nat (r_blocksize r)"
      using j st by (auto simp: chunk_at_sub_range[OF ok] iters_sub_range simp del: mult_Suc)
    obtain b where b: "x = r_lower r + int b * r_step r" "nat k * nat (r_blocksize r) \<le> b"
      "b < Suc (nat k) * nat (r_blocksize r)"
      using k st by (auto simp: chunk_at_sub_range[OF ok] iters_sub_range simp del: mult_Suc)
    have "a = b" using a(1) b(1) st by simp
    then have "nat j = nat k"
      using a(2,3) b(2,3) bs by (metis div_nat_eqI mult.commute)
    then show ?thesis using j(1) k(1) by simp
  qed
  with i show ?thesis by (intro ex1I[of _ "int i"]) auto
qed

lemma chunk_at_subset: "range_ok r \<Longrightarrow> 0 \<le> i \<Longrightarrow> set (iters (chunk_at r i)) \<subseteq> set (iters r)"
  unfolding chunk_at_sub_range iters_sub_range by (auto simp: iters_def iter_total_def)

abbreviation chunks_of :: "kupl_range list \<Rightarrow> int \<Rightarrow> kupl_range list \<times> int" where
  "chunks_of rs ci \<equiv> chunk_range_loop rs (map calc_chunk rs) ci"

abbreviation total_of :: "kupl_range list \<Rightarrow> int" where
  "total_of rs \<equiv> prod_list (map dim_chunks rs)"

lemma chunks_of_Cons:
  "fst (chunk_range_loop (r # rs) (calc_chunk r # map calc_chunk rs) ci) =
     chunk_at r (snd (chunks_of rs ci) mod dim_chunks r) # fst (chunks_of rs ci)"
  "snd (chunk_range_loop (r # rs) (calc_chunk r # map calc_chunk rs) ci) =
     snd (chunks_of rs ci) div dim_chunks r"
  by (simp_all add: Let_def split_beta chunk_at_def dim_chunks_def)

lemma total_of_ge_1: "\<forall>r\<in>set rs. range_ok r \<Longrightarrow> 1 \<le> total_of rs"
  by (rule prod_chunks_ge_1)

lemma chunks_of_snd:
  "\<forall>r\<in>set rs. range_ok r \<Longrightarrow> snd (chunks_of rs ci) = ci div total_of rs"
proof (induction rs)
  case (Cons r rs)
  have "0 \<le> dim_chunks r" using dim_chunks_ge_1[of r] Cons.prems by simp
  then have "ci div total_of rs div dim_chunks r = ci div (total_of rs * dim_chunks r)"
    by (simp add: zdiv_zmult2_eq)
  then show ?case using Cons by (simp add: chunks_of_Cons mult.commute del: chunk_range_loop.simps)
qed simp

lemma div_mod_radix: "0 < (P::int) \<Longrightarrow> 0 \<le> K \<Longrightarrow> (x mod (P * K)) div P = (x div P) mod K"
  by (simp add: zmod_zmult2_eq)

lemma chunks_of_mod:
  "\<forall>r\<in>set rs. range_ok r \<Longrightarrow> 0 \<le> k \<Longrightarrow> fst (chunks_of rs (ci mod (total_of rs * k))) = fst (chunks_of rs ci)"
proof (induction rs arbitrary: k)
  case (Cons r rs)
  let ?P = "total_of rs" and ?c = "dim_chunks r"
  have ok: "\<forall>r\<in>set rs. range_ok r" and c: "1 \<le> ?c" using Cons.prems dim_chunks_ge_1 by auto
  have eq: "prod_list (dim_chunks r # map dim_chunks rs) * k = ?P * (?c * k)" by (simp add: mult_ac)
  have ck: "0 \<le> ?c * k" using c Cons.prems(2) by simp
  have "(ci mod (?P * (?c * k))) div ?P mod ?c = (ci div ?P) mod ?c"
    using total_of_ge_1[OF ok] by (simp add: div_mod_radix ck mod_mod_cancel)
  then show ?case using Cons.IH[OF ok ck]
    by (simp only: eq list.map chunks_of_Cons chunks_of_snd[OF ok])
qed simp

lemma chunks_partition:
  assumes "\<forall>r\<in>set rs. range_ok r"
  shows "p \<in> set (product_lists (map iters rs)) \<Longrightarrow>
      \<exists>!ci. 0 \<le> ci \<and> ci < total_of rs \<and> p \<in> set (product_lists (map iters (fst (chunks_of rs ci))))"
    and "0 \<le> ci \<Longrightarrow> set (product_lists (map iters (fst (chunks_of rs ci)))) \<subseteq> set (product_lists (map iters rs))"
  using assms
proof (induction rs arbitrary: p ci)
  case Nil
  { case 1 then show ?case by auto }
  { case 2 then show ?case by simp }
next
  case (Cons r rs)
  let ?P = "total_of rs" and ?c = "dim_chunks r"
  have ok: "range_ok r" "\<forall>r\<in>set rs. range_ok r" if "\<forall>r\<in>set (r # rs). range_ok r" using that by auto
  { case 1
    note ok = ok[OF 1(2)]
    have P: "1 \<le> ?P" and c: "1 \<le> ?c" using total_of_ge_1[OF ok(2)] dim_chunks_ge_1[OF ok(1)] .
    from 1(1) obtain x xs where p: "p = x # xs" "x \<in> set (iters r)" "xs \<in> set (product_lists (map iters rs))"
      by auto
    obtain j where j: "0 \<le> j" "j < ?P" "xs \<in> set (product_lists (map iters (fst (chunks_of rs j))))"
      and ju: "\<And>j'. 0 \<le> j' \<and> j' < ?P \<and> xs \<in> set (product_lists (map iters (fst (chunks_of rs j')))) \<Longrightarrow> j' = j"
      using Cons.IH(1)[OF p(3) ok(2)] by (auto elim!: ex1E)
    obtain i where i: "0 \<le> i" "i < ?c" "x \<in> set (iters (chunk_at r i))"
      and iu: "\<And>i'. 0 \<le> i' \<and> i' < ?c \<and> x \<in> set (iters (chunk_at r i')) \<Longrightarrow> i' = i"
      using chunk_at_unique[OF ok(1) p(2)] by (auto elim!: ex1E)
    have mem: "p \<in> set (product_lists (map iters (fst (chunks_of (r # rs) ci)))) \<longleftrightarrow>
        x \<in> set (iters (chunk_at r (ci div ?P mod ?c))) \<and>
        xs \<in> set (product_lists (map iters (fst (chunks_of rs (ci mod ?P)))))" for ci
      using chunks_of_mod[OF ok(2), of 1 ci]
      by (simp add: p(1) chunks_of_Cons chunks_of_snd[OF ok(2)] del: chunk_range_loop.simps) blast
    show ?case
    proof (rule ex1I[of _ "i * ?P + j"])
      have "(i * ?P + j) div ?P = i" "(i * ?P + j) mod ?P = j" using j P by (simp_all add: div_pos_pos_trivial mod_pos_pos_trivial)
      moreover have "i * ?P + j < ?c * ?P"
      proof -
        have "i * ?P + j < (i + 1) * ?P" using j by (simp add: distrib_right)
        also have "\<dots> \<le> ?c * ?P" using i P by (intro mult_right_mono) simp_all
        finally show ?thesis .
      qed
      ultimately show "0 \<le> i * ?P + j \<and> i * ?P + j < total_of (r # rs) \<and>
          p \<in> set (product_lists (map iters (fst (chunks_of (r # rs) (i * ?P + j)))))"
        unfolding mem using i j P by (simp add: mod_pos_pos_trivial)
    next
      fix ci
      assume a: "0 \<le> ci \<and> ci < total_of (r # rs) \<and>
          p \<in> set (product_lists (map iters (fst (chunks_of (r # rs) ci))))"
      then have m: "x \<in> set (iters (chunk_at r (ci div ?P mod ?c)))"
        "xs \<in> set (product_lists (map iters (fst (chunks_of rs (ci mod ?P)))))"
        unfolding mem by blast+
      have "ci mod ?P = j" using m(2) P by (intro ju) simp
      moreover have "ci div ?P < ?c"
        using conjunct1[OF conjunct2[OF a]] P le_div_iff_mult_int[of ?P ?c ci] by (simp add: not_le[symmetric])
      then have "ci div ?P = i" using a P c m(1) iu[of "ci div ?P"]
        by (simp add: pos_imp_zdiv_nonneg_iff mod_pos_pos_trivial)
      ultimately show "ci = i * ?P + j" using div_mult_mod_eq[of ci ?P] by simp
    qed }
  { case 2
    note ok = ok[OF 2(2)]
    have c: "1 \<le> ?c" using dim_chunks_ge_1[OF ok(1)] .
    have "0 \<le> ci div ?P mod ?c" using c by simp
    from chunk_at_subset[OF ok(1) this] Cons.IH(2)[OF 2(1) ok(2)]
    show ?case by (auto simp: chunks_of_Cons chunks_of_snd[OF ok(2)] simp del: chunk_range_loop.simps) }
qed

text \<open>
  C16: Cutting an accepted range into chunks loses and repeats nothing: the iterations of every chunk
  are iterations of the range, each once, and every iteration of the range, in up to three
  dimensions, lies in exactly one of the chunks numbered below the total.
\<close>

theorem chunks_exactly_once:
  assumes "\<forall>r\<in>set (take (nat (nr_dim rng)) (nr_nd_range rng)). range_ok r"
    and "length (nr_nd_range rng) = 3" and "1 \<le> nr_dim rng" "nr_dim rng \<le> 3"
    and "kupl_calc_chunk_info rng = (chunk_info, total_chunks)"
  shows "(\<forall>p\<in>set (nd_iters rng). \<exists>!ci. 0 \<le> ci \<and> ci < total_chunks \<and>
      p \<in> set (nd_iters (kupl_compute_chunk_range rng chunk_info ci))) \<and>
    (0 \<le> ci \<longrightarrow> distinct (nd_iters (kupl_compute_chunk_range rng chunk_info ci)) \<and>
      set (nd_iters (kupl_compute_chunk_range rng chunk_info ci)) \<subseteq> set (nd_iters rng))"
proof -
  let ?rs = "take (nat (nr_dim rng)) (nr_nd_range rng)"
  have ci: "chunk_info = map calc_chunk ?rs" and tot: "total_chunks = total_of ?rs"
    using assms(5) by (auto simp: kupl_calc_chunk_info_def Let_def fold_chunks o_def dim_chunks_def[abs_def])
  have len: "length (fst (chunk_range_loop rs cs k)) = length rs" for rs cs k
    by (induction rs cs k rule: chunk_range_loop.induct) (simp_all add: Let_def split_beta)
  have nd: "nd_iters (kupl_compute_chunk_range rng chunk_info k) = product_lists (map iters (fst (chunks_of ?rs k)))"
    for k
    using assms(2,4) by (simp add: nd_iters_def kupl_compute_chunk_range_def Let_def ci len)
  have "distinct (product_lists (map iters xs))" for xs
    by (rule distinct_product_lists) (auto simp: distinct_iters)
  then show ?thesis using chunks_partition[OF assms(1)] unfolding nd tot
    by (auto simp: nd_iters_def)
qed

theorem chunks_exactly_once_witness:
  "let rng = \<lparr>nr_dim = 2, nr_nd_range =
       [\<lparr>r_lower = 0, r_upper = 10, r_step = 3, r_blocksize = 2\<rparr>,
        \<lparr>r_lower = 5, r_upper = 0, r_step = -2, r_blocksize = 1\<rparr>,
        \<lparr>r_lower = 0, r_upper = 0, r_step = 0, r_blocksize = 0\<rparr>]\<rparr>
   in snd (kupl_calc_chunk_info rng) = 6 \<and>
      (\<exists>!ci. 0 \<le> ci \<and> ci < 6 \<and>
         [6, 3] \<in> set (nd_iters (kupl_compute_chunk_range rng (fst (kupl_calc_chunk_info rng)) ci)))"
proof -
  let ?rng = "\<lparr>nr_dim = 2, nr_nd_range =
       [\<lparr>r_lower = 0, r_upper = 10, r_step = 3, r_blocksize = 2\<rparr>,
        \<lparr>r_lower = 5, r_upper = 0, r_step = -2, r_blocksize = 1\<rparr>,
        \<lparr>r_lower = 0, r_upper = 0, r_step = 0, r_blocksize = 0\<rparr>]\<rparr>"
  have t: "snd (kupl_calc_chunk_info ?rng) = 6"
    by (simp add: kupl_calc_chunk_info_def calc_chunk_def kupl_divup_def Let_def signed_divide_int_def
        numeral_2_eq_2)
  have "[6, 3] \<in> set (nd_iters ?rng)"
    by (simp add: nd_iters_def iters_def iter_count_def numeral_2_eq_2 upt_rec)
  moreover have "kupl_calc_chunk_info ?rng = (fst (kupl_calc_chunk_info ?rng), 6)" using t by (metis prod.collapse)
  ultimately show ?thesis using t chunks_exactly_once[of ?rng "fst (kupl_calc_chunk_info ?rng)" 6]
    by (simp add: range_ok_def numeral_2_eq_2)
qed

end
