(* ===== verification/Kupl_Range_Bounds.thy ===== *)
theory Kupl_Range_Bounds
  imports Kupl_Range
begin

text \<open>
  The arithmetic of the loop policies on a range, in checked 64-bit operations
  (\<open>kupl_calc_chunk_info\<close>, \<open>kupl_compute_chunk_range\<close> of \<open>src/src/mt/kupl_parallel_for.cpp\<close>), and what
  \<open>kupl_check_range\<close> is there for: on a range that it accepts none of these operations overflows, and
  their results are those of \<open>Kupl_Range\<close> over unbounded integers.  The check itself overflows on
  the few ranges described by \<open>range_edge\<close>.
\<close>

section \<open>The code in 64 bits\<close>

definition calc_chunk64 :: "kupl_range \<Rightarrow> range_chunk option" where
  "calc_chunk64 r =
     (do {
        chunksize \<leftarrow> mul64 (r_step r) (r_blocksize r);
        chunks \<leftarrow> (if chunksize > 0 then do { d \<leftarrow> sub64 (r_upper r) (r_lower r); divup64 d chunksize }
                   else do { d \<leftarrow> sub64 (r_lower r) (r_upper r); c \<leftarrow> neg64 chunksize; divup64 d c });
        Some \<lparr>rc_chunksize = chunksize, rc_chunks = chunks\<rparr>
      })"

fun calc_dims64 :: "kupl_range list \<Rightarrow> int \<Rightarrow> (range_chunk list \<times> int) option" where
  "calc_dims64 [] total_chunks = Some ([], total_chunks)"
| "calc_dims64 (r # rs) total_chunks =
     (do {
        c \<leftarrow> calc_chunk64 r;
        total_chunks \<leftarrow> mul64 total_chunks (rc_chunks c);
        (cs, total_chunks) \<leftarrow> calc_dims64 rs total_chunks;
        Some (c # cs, total_chunks)
      })"

definition kupl_calc_chunk_info64 :: "kupl_nd_range \<Rightarrow> (range_chunk list \<times> int) option" where
  "kupl_calc_chunk_info64 rng = calc_dims64 (take (nat (nr_dim rng)) (nr_nd_range rng)) 1"

definition chunk_range64 :: "kupl_range \<Rightarrow> range_chunk \<Rightarrow> int \<Rightarrow> (kupl_range \<times> int) option" where
  "chunk_range64 r c ci =
     (if rc_chunks c = 0 then None
      else do {
        nd_index \<leftarrow> chk64 (ci smod rc_chunks c);
        ci \<leftarrow> div64 ci (rc_chunks c);
        m \<leftarrow> mul64 nd_index (rc_chunksize c);
        lower \<leftarrow> add64 (r_lower r) m;
        e \<leftarrow> add64 lower (rc_chunksize c);
        Some (r\<lparr>r_lower := lower,
                r_upper := (if rc_chunksize c > 0 then kupl_min e (r_upper r) else kupl_max e (r_upper r))\<rparr>, ci)
      })"

fun chunk_range_loop64 :: "kupl_range list \<Rightarrow> range_chunk list \<Rightarrow> int \<Rightarrow> (kupl_range list \<times> int) option" where
  "chunk_range_loop64 (r # rs) (c # cs) ci =
     (do { (rs, ci) \<leftarrow> chunk_range_loop64 rs cs ci; (r, ci) \<leftarrow> chunk_range64 r c ci; Some (r # rs, ci) })"
| "chunk_range_loop64 rs cs ci = Some (rs, ci)"

definition kupl_compute_chunk_range64 :: "kupl_nd_range \<Rightarrow> range_chunk list \<Rightarrow> int \<Rightarrow> kupl_nd_range option" where
  "kupl_compute_chunk_range64 rng chunk_info chunk_idx =
     (let dim = nat (nr_dim rng) in
      do {
        (rs, ci) \<leftarrow> chunk_range_loop64 (take dim (nr_nd_range rng)) chunk_info chunk_idx;
        Some (rng\<lparr>nr_nd_range := rs @ drop dim (nr_nd_range rng)\<rparr>)
      })"

section \<open>Where the check itself overflows\<close>

definition range64 :: "kupl_range \<Rightarrow> bool" where
  "range64 r \<longleftrightarrow> int64 (r_lower r) \<and> int64 (r_upper r) \<and> int64 (r_step r) \<and> int64 (r_blocksize r)"

text \<open>
  The step \<open>INT64_MIN\<close> is negated; the guards leave room for the length of the range plus a
  chunk less one, but \<open>kupl_divup\<close> adds before it subtracts; and for the chunk size \<open>-1\<close> it can
  divide \<open>INT64_MIN\<close>.
\<close>

definition range_edge :: "int \<Rightarrow> kupl_range \<Rightarrow> bool" where
  "range_edge policy r \<longleftrightarrow>
     r_step r = INT64_MIN \<or>
     \<bar>r_upper r - r_lower r\<bar> + \<bar>r_step r * r_blocksize (fill_blocksize policy r)\<bar> = INT64_MAX + 1 \<or>
     r_step r * r_blocksize (fill_blocksize policy r) = - 1 \<and> r_lower r - r_upper r = INT64_MAX - 1"

lemmas chk_defs = add64_def sub64_def mul64_def neg64_def chk64_def int64_def INT64_MAX_def INT64_MIN_def

lemma fill_fields [simp]:
  "r_lower (fill_blocksize policy r) = r_lower r" "r_upper (fill_blocksize policy r) = r_upper r"
  "r_step (fill_blocksize policy r) = r_step r"
  by (simp_all add: fill_blocksize_def)

text \<open>The guard on the block size: what it computes, and what an accepted block size guarantees.\<close>

lemma max_div_guard:
  assumes "1 \<le> (b :: int)" "1 \<le> s" and "s \<le> KUPL_MAX_CHUNK div b"
  shows "b * s \<le> KUPL_MAX_CHUNK"
  using assms le_div_iff_mult_int[of b s KUPL_MAX_CHUNK] by (simp add: mult.commute)

lemma max_div_bounds: "int64 b \<Longrightarrow> b \<noteq> 0 \<Longrightarrow> int64 (KUPL_MAX_CHUNK sdiv b)"
proof -
  assume "b \<noteq> 0"
  have K: "0 \<le> KUPL_MAX_CHUNK" "KUPL_MAX_CHUNK \<le> INT64_MAX" "INT64_MIN \<le> - KUPL_MAX_CHUNK"
    by (simp_all add: KUPL_MAX_CHUNK_def INT64_MAX_def INT64_MIN_def)
  have d: "KUPL_MAX_CHUNK div n \<le> KUPL_MAX_CHUNK \<and> 0 \<le> KUPL_MAX_CHUNK div n" if "0 < n" for n
  proof -
    have "KUPL_MAX_CHUNK div n \<le> KUPL_MAX_CHUNK div 1" using that K(1) by (intro zdiv_mono2) simp_all
    thus ?thesis using that K(1) by (simp add: pos_imp_zdiv_nonneg_iff)
  qed
  show ?thesis
  proof (cases "0 < b")
    case True
    thus ?thesis using d[OF True] K by (auto simp: int64_def sdiv_nonneg_pos)
  next
    case False
    hence "KUPL_MAX_CHUNK sdiv b = - (KUPL_MAX_CHUNK div - b)" using \<open>b \<noteq> 0\<close> K(1)
      by (cases "KUPL_MAX_CHUNK = 0") (auto simp: signed_divide_int_def sgn_if)
    thus ?thesis using d[of "- b"] False \<open>b \<noteq> 0\<close> K by (auto simp: int64_def)
  qed
qed

lemma check_blocksize_total:
  assumes r: "range64 r" and b: "int64 b" "b \<noteq> 0" and s: "r_step r \<noteq> 0" "r_step r \<noteq> INT64_MIN"
  shows "\<exists>ok c. check_blocksize b r = Some (ok, c) \<and>
    (ok \<longrightarrow> 1 \<le> b \<and> c = b * r_step r \<and> \<bar>c\<bar> \<le> KUPL_MAX_CHUNK \<and> int64 (r_upper r + c))"
proof -
  obtain q where q: "div64 KUPL_MAX_CHUNK b = Some q" "q = KUPL_MAX_CHUNK sdiv b"
    using max_div_bounds[OF b] b(2) by (simp add: div64_def chk64_def)
  have n: "neg64 (r_step r) = Some (- r_step r)"
    using r s(2) by (auto simp: range64_def chk_defs)
  show ?thesis
  proof (cases "q < \<bar>r_step r\<bar>")
    case True
    thus ?thesis using q n s(1) by (auto simp: check_blocksize_def)
  next
    case False
    hence "0 < q" using s(1) by linarith
    hence b1: "1 \<le> b" using sdiv_pos_imp_pos[of KUPL_MAX_CHUNK b] q(2)
      by (simp add: KUPL_MAX_CHUNK_def INT64_MAX_def)
    have "\<bar>r_step r\<bar> \<le> KUPL_MAX_CHUNK div b"
      using False q(2) b1 by (simp add: sdiv_nonneg_pos KUPL_MAX_CHUNK_def INT64_MAX_def)
    hence "b * \<bar>r_step r\<bar> \<le> KUPL_MAX_CHUNK" using s(1) by (intro max_div_guard[OF b1]) linarith+
    hence c: "\<bar>b * r_step r\<bar> \<le> KUPL_MAX_CHUNK" using b1 by (simp add: abs_mult)
    have sg: "0 < b * r_step r \<longleftrightarrow> 0 < r_step r" "b * r_step r < 0 \<longleftrightarrow> r_step r < 0"
      using b1 by (simp_all add: zero_less_mult_iff mult_less_0_iff)
    define m where "m = b * r_step r"
    have m64: "int64 m" using c by (simp add: m_def int64_def KUPL_MAX_CHUNK_def INT64_MAX_def INT64_MIN_def abs_le_iff)
    have u: "int64 (r_upper r)" using r by (simp add: range64_def)
    have pass: "\<not> q < r_step r" "\<not> q < - r_step r" using False by linarith+
    have "check_blocksize b r =
      Some (\<not> (0 < m \<and> INT64_MAX - m < r_upper r \<or> m < 0 \<and> r_upper r < INT64_MIN - m), m)"
      using q(1) n pass m64 c s(1)
      unfolding check_blocksize_def
      by (auto simp: m_def[symmetric] mul64_def sub64_def chk64_def int64_def KUPL_MAX_CHUNK_def
          INT64_MAX_def INT64_MIN_def)
    thus ?thesis using b1 c m_def u m64
      by (auto simp: int64_def INT64_MAX_def INT64_MIN_def)
  qed
qed

text \<open>The guard on the extent, for the chunk size that the dimension has then.\<close>

lemma check_extent_total:
  assumes r: "range64 r" and bnd: "check_bounds r" and c: "\<bar>r_step r * r_blocksize r\<bar> \<le> INT64_MAX"
    and b: "1 \<le> r_blocksize r" and s: "r_step r \<noteq> INT64_MIN"
  shows "\<exists>ok. check_extent r = Some ok \<and>
    (ok \<longrightarrow> \<bar>r_upper r - r_lower r\<bar> + \<bar>r_step r * r_blocksize r\<bar> \<le> INT64_MAX + 1)"
proof -
  define m where "m = r_step r * r_blocksize r"
  have sg: "0 < m \<longleftrightarrow> 0 < r_step r" "m < 0 \<longleftrightarrow> r_step r < 0" "- r_step r * r_blocksize r = - m"
    using b by (simp_all add: m_def zero_less_mult_iff mult_less_0_iff)
  have c': "\<bar>m\<bar> \<le> INT64_MAX" using c by (simp add: m_def)
  consider "0 < r_step r" | "r_step r < 0" using bnd by (auto simp: check_bounds_def)
  thus ?thesis
  proof cases
    case 1
    hence lu: "r_lower r < r_upper r" and m: "0 < m" using bnd sg by (auto simp: check_bounds_def)
    show ?thesis
      using 1 lu m c' r
      unfolding check_extent_def m_def[symmetric]
      by (auto simp: range64_def chk_defs m_def[symmetric])
  next
    case 2
    hence lu: "r_upper r < r_lower r" and m: "m < 0" using bnd sg by (auto simp: check_bounds_def)
    have n: "neg64 (r_step r) = Some (- r_step r)" "mul64 (- r_step r) (r_blocksize r) = Some (- m)"
      using r s c' sg(3) by (auto simp: range64_def chk_defs)
    show ?thesis
      using 2 lu m c' r
      unfolding check_extent_def n m_def[symmetric]
      by (auto simp: range64_def n add64_def sub64_def chk64_def int64_def INT64_MAX_def INT64_MIN_def)
  qed
qed

text \<open>One dimension: the outcome of the check, and what acceptance means for its arithmetic.\<close>

definition dim_fits :: "int \<Rightarrow> kupl_range \<Rightarrow> bool" where
  "dim_fits policy r \<longleftrightarrow> range_ok r \<and> int64 (r_lower r) \<and>
     \<bar>r_upper r - r_lower r\<bar> + \<bar>r_step r * r_blocksize r\<bar> \<le> INT64_MAX \<and>
     (policy \<noteq> KUPL_LOOP_POLICY_STATIC \<longrightarrow> int64 (r_upper r + r_step r * r_blocksize r))"

lemma divup64_step:
  assumes "\<bar>d\<bar> + \<bar>c\<bar> \<le> INT64_MAX + 1" and "0 < d \<and> 0 < c \<or> d < 0 \<and> c < 0"
    and "\<not> (c = - 1 \<and> - d = INT64_MAX - 1)"
  shows "(if \<bar>d\<bar> + \<bar>c\<bar> = INT64_MAX + 1 then divup64 d c = None
          else \<exists>n. divup64 d c = Some n \<and> 1 \<le> n \<and> n \<le> INT64_MAX)"
proof (cases "\<bar>d\<bar> + \<bar>c\<bar> = INT64_MAX + 1")
  case True
  thus ?thesis using assms(2) by (auto simp: divup64_def chk_defs split: Option.bind_splits)
next
  case False
  define e where "e = d + c - 1"
  have e: "add64 d c = Some (d + c)" "sub64 (d + c) 1 = Some e" "c \<noteq> 0"
    using assms False by (auto simp: chk_defs e_def)
  have q: "1 \<le> e sdiv c \<and> e sdiv c \<le> INT64_MAX"
  proof (cases "0 < c")
    case True
    hence p: "0 < d" "c \<le> e" "e \<le> INT64_MAX" using assms False by (auto simp: e_def)
    have "1 * c \<le> e" using p(2) by simp
    hence "1 \<le> e div c" using True le_div_iff_mult_int[of c 1 e] by blast
    moreover have "e div c \<le> e div 1" using True p(2) by (intro zdiv_mono2) simp_all
    ultimately show ?thesis using p True by (simp add: sdiv_nonneg_pos)
  next
    case c: False
    hence p: "d < 0" "c < 0" using assms(2) by auto
    hence le: "- c \<le> - e" "- e \<le> INT64_MAX + 1" using assms(1) False by (auto simp: e_def)
    have "1 * - c \<le> - e" using le(1) by simp
    hence one: "1 \<le> - e div - c" using p(2) le_div_iff_mult_int[of "- c" 1 "- e"] by (metis neg_0_less_iff_less)
    have "- e div - c \<le> INT64_MAX"
    proof (cases "c = - 1")
      case True
      thus ?thesis using assms False p le by (simp add: e_def)
    next
      case c2: False
      have "- e div - c \<le> - e div 2" using p c2 le(1) by (intro zdiv_mono2) auto
      also have "\<dots> \<le> (INT64_MAX + 1) div 2" using le(2) by (intro zdiv_mono1) simp_all
      finally show ?thesis by (simp add: INT64_MAX_def)
    qed
    thus ?thesis using one p by (simp add: sdiv_neg_neg e_def)
  qed
  show ?thesis using False e q
    by (simp add: divup64_def div64_def chk64_def int64_def INT64_MIN_def)
qed

lemma check_dim_fill:
  "check_dim policy r m =
     (if \<not> check_bounds r then Some (False, r, m)
      else do {
        (ok, chunksize) \<leftarrow>
          (if policy = KUPL_LOOP_POLICY_STATIC then Some (True, r_step r)
           else check_blocksize (r_blocksize (fill_blocksize policy r)) (fill_blocksize policy r));
        if \<not> ok then Some (False, fill_blocksize policy r, m)
        else do {
          ok \<leftarrow> check_extent (fill_blocksize policy r);
          if \<not> ok then Some (False, fill_blocksize policy r, m)
          else do {
            d \<leftarrow> sub64 (r_upper r) (r_lower r);
            n \<leftarrow> divup64 d chunksize;
            m \<leftarrow> div64 m n;
            Some (True, fill_blocksize policy r, m)
          }
        }
      })"
proof -
  have "(if r_blocksize r = 0 then r\<lparr>r_blocksize := 1\<rparr> else r) = fill_blocksize policy r"
    if "policy \<noteq> KUPL_LOOP_POLICY_STATIC"
    using that by (auto simp: fill_blocksize_def)
  moreover have "r\<lparr>r_blocksize := 1\<rparr> = fill_blocksize policy r" if "policy = KUPL_LOOP_POLICY_STATIC"
    using that by (simp add: fill_blocksize_def)
  ultimately show ?thesis
    by (auto simp: check_dim_def Let_def split: Option.bind_split)
qed

lemma range64_fill: "range64 r \<Longrightarrow> range64 (fill_blocksize policy r)"
  by (auto simp: range64_def fill_blocksize_def int64_def INT64_MAX_def INT64_MIN_def)

lemma fill_nonzero: "r_blocksize (fill_blocksize policy r) \<noteq> 0"
  by (simp add: fill_blocksize_def)

lemma check_dim_phases:
  assumes r: "range64 r" and s: "r_step r \<noteq> INT64_MIN" and bnd: "check_bounds r"
  shows "check_dim policy r m = Some (False, fill_blocksize policy r, m) \<or>
    (let q = fill_blocksize policy r; d = r_upper r - r_lower r; c = r_step r * r_blocksize q in
     check_dim policy r m = do { n \<leftarrow> divup64 d c; m \<leftarrow> div64 m n; Some (True, q, m) } \<and>
     range_ok q \<and> \<bar>d\<bar> + \<bar>c\<bar> \<le> INT64_MAX + 1 \<and> (0 < d \<and> 0 < c \<or> d < 0 \<and> c < 0) \<and>
     (policy \<noteq> KUPL_LOOP_POLICY_STATIC \<longrightarrow> int64 (r_upper r + c)))"
proof -
  define q where "q = fill_blocksize policy r"
  have f: "r_lower q = r_lower r" "r_upper q = r_upper r" "r_step q = r_step r" by (simp_all add: q_def)
  have q: "range64 q" "int64 (r_blocksize q)" "r_blocksize q \<noteq> 0" "check_bounds q"
    using range64_fill[OF r] fill_nonzero bnd by (auto simp: q_def range64_def check_bounds_def)
  have s0: "r_step q \<noteq> 0" "r_step q \<noteq> INT64_MIN" using bnd s by (auto simp: check_bounds_def f)
  obtain ok c where b: "(if policy = KUPL_LOOP_POLICY_STATIC then Some (True, r_step r)
      else check_blocksize (r_blocksize q) q) = Some (ok, c)"
    and c: "ok \<Longrightarrow> 1 \<le> r_blocksize q \<and> c = r_step r * r_blocksize q \<and> \<bar>c\<bar> \<le> INT64_MAX \<and>
      (policy \<noteq> KUPL_LOOP_POLICY_STATIC \<longrightarrow> int64 (r_upper r + c))"
  proof (cases "policy = KUPL_LOOP_POLICY_STATIC")
    case True
    have "\<bar>r_step r\<bar> \<le> INT64_MAX" using r s by (auto simp: range64_def int64_def INT64_MAX_def INT64_MIN_def)
    thus thesis using that[of True "r_step r"] True by (simp add: q_def fill_blocksize_def)
  next
    case False
    from check_blocksize_total[OF q(1-3) s0] obtain ok c where
      bc: "check_blocksize (r_blocksize q) q = Some (ok, c)"
      "ok \<longrightarrow> 1 \<le> r_blocksize q \<and> c = r_blocksize q * r_step q \<and> \<bar>c\<bar> \<le> KUPL_MAX_CHUNK \<and> int64 (r_upper q + c)"
      by blast
    have "KUPL_MAX_CHUNK \<le> INT64_MAX" by (simp add: KUPL_MAX_CHUNK_def)
    thus thesis using that[of ok c] bc False by (auto simp: f mult.commute)
  qed
  show ?thesis
  proof (cases ok)
    case False
    thus ?thesis unfolding check_dim_fill q_def[symmetric] b using bnd by simp
  next
    case True
    note c = c[OF True]
    have "1 \<le> r_blocksize q" "\<bar>r_step q * r_blocksize q\<bar> \<le> INT64_MAX" using c by (auto simp: f)
    from check_extent_total[OF q(1,4) this(2,1) s0(2)] obtain ok2 where
      e: "check_extent q = Some ok2" "ok2 \<longrightarrow> \<bar>r_upper r - r_lower r\<bar> + \<bar>r_step r * r_blocksize q\<bar> \<le> INT64_MAX + 1"
      by (auto simp: f)
    show ?thesis
    proof (cases ok2)
      case False
      thus ?thesis unfolding check_dim_fill q_def[symmetric] b using bnd True e by simp
    next
      case ok2: True
      have sum: "\<bar>r_upper r - r_lower r\<bar> + \<bar>c\<bar> \<le> INT64_MAX + 1" using e(2) ok2 c by simp
      have sgn: "0 < r_upper r - r_lower r \<and> 0 < c \<or> r_upper r - r_lower r < 0 \<and> c < 0"
        using bnd c by (auto simp: check_bounds_def zero_less_mult_iff mult_less_0_iff)
      have "sub64 (r_upper r) (r_lower r) = Some (r_upper r - r_lower r)"
        using sum sgn by (auto simp: chk_defs)
      hence "check_dim policy r m =
          do { n \<leftarrow> divup64 (r_upper r - r_lower r) c; m \<leftarrow> div64 m n; Some (True, q, m) }"
        unfolding check_dim_fill q_def[symmetric] b using bnd True e(1) ok2 by simp
      moreover have "range_ok q" using c bnd by (auto simp: range_ok_def check_bounds_def f)
      ultimately show ?thesis using sum sgn c by (auto simp: Let_def q_def[symmetric])
    qed
  qed
qed

lemma check_dim_total:
  assumes r: "range64 r" "\<not> range_edge policy r" and m: "0 \<le> m" "m \<le> INT64_MAX"
  shows "\<exists>ok r' m'. check_dim policy r m = Some (ok, r', m') \<and> 0 \<le> m' \<and> m' \<le> INT64_MAX"
proof (cases "check_bounds r")
  case False
  thus ?thesis using m by (intro exI[of _ False]) (simp add: check_dim_fill)
next
  case True
  define d where "d = r_upper r - r_lower r"
  define c where "c = r_step r * r_blocksize (fill_blocksize policy r)"
  have s: "r_step r \<noteq> INT64_MIN" and e: "\<bar>d\<bar> + \<bar>c\<bar> \<noteq> INT64_MAX + 1" "\<not> (c = - 1 \<and> - d = INT64_MAX - 1)"
    using r(2) by (auto simp: range_edge_def d_def c_def)
  from check_dim_phases[OF r(1) s True, of policy m] show ?thesis
  proof (elim disjE)
    assume "check_dim policy r m = Some (False, fill_blocksize policy r, m)"
    thus ?thesis using m by (intro exI[of _ False]) simp
  next
    assume "let q = fill_blocksize policy r; d = r_upper r - r_lower r; c = r_step r * r_blocksize q in
     check_dim policy r m = do { n \<leftarrow> divup64 d c; m \<leftarrow> div64 m n; Some (True, q, m) } \<and>
     range_ok q \<and> \<bar>d\<bar> + \<bar>c\<bar> \<le> INT64_MAX + 1 \<and> (0 < d \<and> 0 < c \<or> d < 0 \<and> c < 0) \<and>
     (policy \<noteq> KUPL_LOOP_POLICY_STATIC \<longrightarrow> int64 (r_upper r + c))"
    hence p: "check_dim policy r m = do { n \<leftarrow> divup64 d c; m \<leftarrow> div64 m n; Some (True, fill_blocksize policy r, m) }"
      "\<bar>d\<bar> + \<bar>c\<bar> \<le> INT64_MAX + 1" "0 < d \<and> 0 < c \<or> d < 0 \<and> c < 0"
      by (simp_all add: Let_def d_def c_def)
    obtain n where n: "divup64 d c = Some n" "1 \<le> n" "n \<le> INT64_MAX"
      using divup64_step[OF p(2,3) e(2)] e(1) by auto
    have "m div n \<le> m div 1" using n(2) m(1) by (intro zdiv_mono2) simp_all
    moreover have "0 \<le> m div n" using n(2) m(1) by (simp add: pos_imp_zdiv_nonneg_iff)
    ultimately have "div64 m n = Some (m div n) \<and> 0 \<le> m div n \<and> m div n \<le> INT64_MAX"
      using n(2) m by (auto simp: div64_def sdiv_nonneg_pos chk64_def int64_def INT64_MIN_def)
    thus ?thesis using p(1) n(1) by (intro exI[of _ True]) simp
  qed
qed

lemma check_dim_fits:
  assumes r: "range64 r" and acc: "check_dim policy r m = Some (True, r', m')" and m: "0 \<le> m"
  shows "dim_fits policy r'"
proof -
  have r': "r' = fill_blocksize policy r" and bnd: "check_bounds r"
    using check_dim_filled[OF acc m] acc by (auto simp: check_dim_fill split: if_splits)
  have s: "r_step r \<noteq> INT64_MIN"
  proof
    assume s: "r_step r = INT64_MIN"
    have n: "neg64 (r_step r) = None" by (simp add: s chk_defs)
    have "check_blocksize b (fill_blocksize policy r) \<noteq> Some (True, c)" for b c
    proof -
      have "\<not> 0 < r_step r" by (simp add: s INT64_MIN_def)
      thus ?thesis using n by (cases "div64 KUPL_MAX_CHUNK b") (simp_all add: check_blocksize_def)
    qed
    moreover have "check_extent (fill_blocksize policy r) \<noteq> Some True"
    proof -
      have "\<not> 0 < r_step r" "r_step r < 0" by (simp_all add: s INT64_MIN_def)
      thus ?thesis using n by (auto simp: check_extent_def split: Option.bind_splits if_splits)
    qed
    ultimately show False
      using acc bnd by (auto simp: check_dim_fill split: Option.bind_splits if_splits)
  qed
  define d where "d = r_upper r - r_lower r"
  define c where "c = r_step r * r_blocksize r'"
  have p: "check_dim policy r m = do { n \<leftarrow> divup64 d c; m \<leftarrow> div64 m n; Some (True, r', m) }"
    "range_ok r'" "\<bar>d\<bar> + \<bar>c\<bar> \<le> INT64_MAX + 1" "0 < d \<and> 0 < c \<or> d < 0 \<and> c < 0"
    "policy \<noteq> KUPL_LOOP_POLICY_STATIC \<longrightarrow> int64 (r_upper r + c)"
    using check_dim_phases[OF r s bnd, of policy m] acc by (simp_all add: Let_def d_def c_def r')
  obtain n where "divup64 d c = Some n" using p(1) acc by (auto split: Option.bind_splits)
  hence "\<bar>d\<bar> + \<bar>c\<bar> \<noteq> INT64_MAX + 1"
    using p(4) by (auto simp: divup64_def chk_defs split: Option.bind_splits)
  thus ?thesis using p r by (auto simp: dim_fits_def d_def c_def r' range64_def)
qed

lemma check_dims_total:
  assumes "\<forall>r \<in> set rs. range64 r \<and> \<not> range_edge policy r" and "0 \<le> m" "m \<le> INT64_MAX"
  shows "check_dims policy rs m \<noteq> None"
  using assms
proof (induction rs arbitrary: m)
  case (Cons r rs)
  then obtain ok r' m' where d: "check_dim policy r m = Some (ok, r', m')" "0 \<le> m'" "m' \<le> INT64_MAX"
    using check_dim_total[of r policy m] by auto
  have "check_dims policy rs m' \<noteq> None" using Cons.IH[OF _ d(2,3)] Cons.prems(1) by simp
  thus ?case using d(1) by (cases ok) (auto split: option.splits prod.splits)
qed simp

lemma check_dims_fits:
  assumes "check_dims policy rs m = Some (True, rs', m')" and "\<forall>r \<in> set rs. range64 r" and "0 \<le> m"
  shows "\<forall>r \<in> set rs'. dim_fits policy r"
  using assms
proof (induction rs arbitrary: m rs' m')
  case (Cons r rs)
  then obtain r1 m1 rs1 where d: "check_dim policy r m = Some (True, r1, m1)"
    "check_dims policy rs m1 = Some (True, rs1, m')" "rs' = r1 # rs1"
    by (auto split: option.splits bool.splits)
  obtain n where n: "range_ok r1" "dim_chunks r1 \<le> n" "m1 = m div n"
    using check_dim_filled[OF d(1) Cons.prems(3)] by blast
  have "0 \<le> m1" using n dim_chunks_ge_1[OF n(1)] Cons.prems(3) by (simp add: pos_imp_zdiv_nonneg_iff)
  thus ?case using Cons.IH[OF d(2)] check_dim_fits[OF _ d(1)] Cons.prems d(3) by auto
qed simp

section \<open>The chunks of an accepted range\<close>

lemma fits_facts:
  assumes "dim_fits policy r"
  defines "d \<equiv> \<bar>r_upper r - r_lower r\<bar>" and "c \<equiv> r_step r * r_blocksize r"
  shows "rc_chunksize (calc_chunk r) = c" "d + \<bar>c\<bar> \<le> INT64_MAX" "0 < d" "0 < \<bar>c\<bar>"
    "dim_chunks r = kupl_divup d \<bar>c\<bar>" "0 < c \<longleftrightarrow> r_lower r < r_upper r"
proof -
  have ok: "range_ok r" using assms(1) by (simp add: dim_fits_def)
  show "rc_chunksize (calc_chunk r) = c" by (simp add: calc_chunk_def Let_def c_def)
  show "d + \<bar>c\<bar> \<le> INT64_MAX" using assms(1) by (simp add: dim_fits_def d_def c_def)
  show "0 < d" using ok by (auto simp: range_ok_def d_def)
  show "0 < \<bar>c\<bar>" using ok by (auto simp: range_ok_def c_def)
  show pos: "0 < c \<longleftrightarrow> r_lower r < r_upper r"
    using ok by (auto simp: range_ok_def c_def zero_less_mult_iff)
  show "dim_chunks r = kupl_divup d \<bar>c\<bar>"
    using pos \<open>0 < \<bar>c\<bar>\<close> ok by (auto simp: dim_chunks_def calc_chunk_def Let_def c_def[symmetric] d_def abs_if range_ok_def)
qed

lemma calc_chunk64_fits:
  assumes "dim_fits policy r"
  shows "calc_chunk64 r = Some (calc_chunk r)"
proof -
  define d where "d = \<bar>r_upper r - r_lower r\<bar>"
  define c where "c = r_step r * r_blocksize r"
  note F = fits_facts[OF assms, folded d_def c_def]
  have up: "divup64 d \<bar>c\<bar> = Some (kupl_divup d \<bar>c\<bar>)"
  proof -
    have "(d + \<bar>c\<bar> - 1) div \<bar>c\<bar> \<le> d + \<bar>c\<bar> - 1"
      using F(3,4) zdiv_mono2[of "d + \<bar>c\<bar> - 1" 1 "\<bar>c\<bar>"] by simp
    moreover have "0 \<le> (d + \<bar>c\<bar> - 1) div \<bar>c\<bar>" using F(3,4) by (simp add: pos_imp_zdiv_nonneg_iff)
    ultimately show ?thesis using F(2-4)
      by (auto simp: divup64_def div64_def add64_def sub64_def chk64_def kupl_divup_def sdiv_nonneg_pos
          int64_def INT64_MIN_def)
  qed
  have m: "mul64 (r_step r) (r_blocksize r) = Some c" using F(2,3)
    by (auto simp: mul64_def c_def[symmetric] chk64_def int64_def INT64_MIN_def INT64_MAX_def)
  show ?thesis
  proof (cases "0 < c")
    case True
    have "sub64 (r_upper r) (r_lower r) = Some d" "\<bar>c\<bar> = c" "r_upper r - r_lower r = d"
      using True F by (auto simp: sub64_def chk64_def int64_def INT64_MIN_def d_def)
    thus ?thesis using True up m by (simp add: calc_chunk64_def calc_chunk_def c_def[symmetric])
  next
    case False
    have "sub64 (r_lower r) (r_upper r) = Some d" "neg64 c = Some \<bar>c\<bar>" "\<bar>c\<bar> = - c" "r_lower r - r_upper r = d"
      using False F by (auto simp: sub64_def neg64_def chk64_def int64_def INT64_MIN_def d_def)
    thus ?thesis using False up m by (simp add: calc_chunk64_def calc_chunk_def c_def[symmetric])
  qed
qed

lemma calc_dims64_fits:
  assumes "\<forall>r \<in> set rs. dim_fits policy r" and "1 \<le> t" and "t * total_of rs \<le> INT64_MAX"
  shows "calc_dims64 rs t = Some (map calc_chunk rs, t * total_of rs)"
  using assms
proof (induction rs arbitrary: t)
  case (Cons r rs)
  have ok: "\<forall>r \<in> set (r # rs). range_ok r" using Cons.prems(1) by (auto simp: dim_fits_def)
  have t1: "1 \<le> t * dim_chunks r"
    using Cons.prems(2) dim_chunks_ge_1[of r] ok by (simp add: int_one_le_iff_zero_less)
  have "1 \<le> total_of rs" using total_of_ge_1[of rs] ok by simp
  hence "t * dim_chunks r * 1 \<le> t * dim_chunks r * total_of rs" using t1 by (intro mult_left_mono) simp_all
  hence "t * dim_chunks r \<le> INT64_MAX" using Cons.prems(3) by (simp add: mult.assoc)
  hence "mul64 t (dim_chunks r) = Some (t * dim_chunks r)"
    using t1 by (simp add: mul64_def chk64_def int64_def INT64_MIN_def)
  moreover have "calc_chunk64 r = Some (calc_chunk r)" using Cons.prems(1) by (intro calc_chunk64_fits[of policy]) simp
  moreover have "calc_dims64 rs (t * dim_chunks r) = Some (map calc_chunk rs, t * dim_chunks r * total_of rs)"
    using Cons.prems t1 by (intro Cons.IH) (simp_all add: mult.assoc)
  ultimately show ?case by (simp add: dim_chunks_def[symmetric] mult.assoc)
qed simp

lemma chunk_range64_fits:
  assumes fits: "dim_fits policy r" and p: "policy \<noteq> KUPL_LOOP_POLICY_STATIC" and ci: "0 \<le> ci" "ci \<le> INT64_MAX"
  shows "chunk_range64 r (calc_chunk r) ci = Some (chunk_at r (ci mod dim_chunks r), ci div dim_chunks r)"
proof -
  define d where "d = \<bar>r_upper r - r_lower r\<bar>"
  define c where "c = r_step r * r_blocksize r"
  define k where "k = ci mod dim_chunks r"
  note F = fits_facts[OF fits, folded d_def c_def]
  have n: "1 \<le> dim_chunks r" using fits dim_chunks_ge_1 by (simp add: dim_fits_def)
  have k: "0 \<le> k" "k \<le> dim_chunks r - 1" "k \<le> ci" using n ci by (simp_all add: k_def zmod_le_nonneg_dividend)
  have q: "ci div dim_chunks r \<le> ci" "0 \<le> ci div dim_chunks r"
    using zdiv_mono2[of ci 1 "dim_chunks r"] ci(1) n by (simp_all add: pos_imp_zdiv_nonneg_iff)
  have "k * \<bar>c\<bar> \<le> (dim_chunks r - 1) * \<bar>c\<bar>" using k F(4) by (intro mult_right_mono) simp_all
  hence kc: "k * \<bar>c\<bar> < d" using kupl_divup_cover(2)[OF F(3,4)] F(5) by simp
  have nonneg: "0 \<le> k * \<bar>c\<bar>" using k(1) by simp
  have l: "int64 (r_lower r)" and u: "int64 (r_upper r + c)" using fits p by (simp_all add: dim_fits_def c_def)
  define m where "m = k * c"
  have m: "int64 m \<and> int64 (r_lower r + m) \<and> int64 (r_lower r + m + c)"
  proof (cases "0 < c")
    case True
    hence "0 \<le> m" "m < r_upper r - r_lower r" "r_upper r - r_lower r \<le> INT64_MAX"
      using kc nonneg F(2,6) by (simp_all add: m_def d_def)
    thus ?thesis using True l u by (simp add: int64_def INT64_MIN_def INT64_MAX_def)
  next
    case False
    hence "m = - (k * \<bar>c\<bar>)" by (simp add: m_def)
    hence "m \<le> 0" "r_upper r - r_lower r < m" "- INT64_MAX \<le> r_upper r - r_lower r"
      using False kc nonneg F(2,6) by (simp_all add: d_def)
    thus ?thesis using False l u by (simp add: int64_def INT64_MIN_def INT64_MAX_def)
  qed
  have "div64 ci (dim_chunks r) = Some (ci div dim_chunks r)" "ci smod dim_chunks r = k"
    "chk64 k = Some k"
    using n ci k q by (simp_all add: div64_def sdiv_nonneg_pos smod_nonneg_pos k_def chk64_def int64_def INT64_MIN_def)
  thus ?thesis using n m
    by (simp add: chunk_range64_def dim_chunks_def[symmetric] F(1) mul64_def add64_def chk64_def
        m_def[symmetric] chunk_at_def k_def[symmetric])
qed

lemma chunks_of_range:
  "\<forall>r\<in>set rs. range_ok r \<Longrightarrow> 0 \<le> ci \<Longrightarrow> 0 \<le> snd (chunks_of rs ci) \<and> snd (chunks_of rs ci) \<le> ci"
  using zdiv_mono2[of ci 1 "total_of rs"] total_of_ge_1[of rs]
  by (simp add: chunks_of_snd pos_imp_zdiv_nonneg_iff)

lemma chunk_range_loop64_fits:
  assumes "\<forall>r \<in> set rs. dim_fits policy r" and "policy \<noteq> KUPL_LOOP_POLICY_STATIC"
    and "0 \<le> ci" "ci \<le> INT64_MAX"
  shows "chunk_range_loop64 rs (map calc_chunk rs) ci = Some (chunks_of rs ci)"
  using assms(1)
proof (induction rs)
  case (Cons r rs)
  have ok: "\<forall>r \<in> set rs. range_ok r" using Cons.prems by (auto simp: dim_fits_def)
  have "chunk_range64 r (calc_chunk r) (snd (chunks_of rs ci)) =
      Some (chunk_at r (snd (chunks_of rs ci) mod dim_chunks r), snd (chunks_of rs ci) div dim_chunks r)"
    using chunks_of_range[OF ok assms(3)] assms(2,4) Cons.prems by (intro chunk_range64_fits) simp_all
  thus ?case using Cons by (simp add: split_beta chunks_of_Cons[unfolded prod.sel] prod_eq_iff
        del: chunk_range_loop.simps)
qed simp

text \<open>
  C17: \<open>kupl_check_range\<close> keeps the loop policies from overflowing.  On every 64-bit range it
  computes without overflow, but for a dimension as described by \<open>range_edge\<close>.  When it accepts,
  every dimension runs from its lower towards its upper bound in blocks of at least one step, the
  iterations are those of the given range, and the computation of the chunk sizes and counts in
  64 bits does not overflow, gives the exact values and a total of 1 to \<open>KUPL_MAX_CHUNK\<close>; for the
  policies that cut out one chunk at a time, neither does the computation of the bounds of any chunk.
\<close>

theorem check_range_sound:
  assumes "\<forall>r \<in> set (nr_nd_range rng). range64 r" and "length (nr_nd_range rng) = 3"
  shows "(kupl_check_range rng policy = None \<longrightarrow> (\<exists>r \<in> set (nr_nd_range rng). range_edge policy r)) \<and>
    (\<forall>rng'. kupl_check_range rng policy = Some (KUPL_OK, rng') \<longrightarrow>
       nr_dim rng' = nr_dim rng \<and> 1 \<le> nr_dim rng \<and> nr_dim rng \<le> 3 \<and>
       (\<forall>r\<in>set (take (nat (nr_dim rng)) (nr_nd_range rng')). range_ok r \<and>
          (policy = KUPL_LOOP_POLICY_STATIC \<longrightarrow> r_blocksize r = 1)) \<and>
       nd_iters rng' = nd_iters rng \<and>
       (\<exists>chunk_info total_chunks.
          kupl_calc_chunk_info64 rng' = Some (chunk_info, total_chunks) \<and>
          kupl_calc_chunk_info rng' = (chunk_info, total_chunks) \<and>
          1 \<le> total_chunks \<and> total_chunks \<le> KUPL_MAX_CHUNK \<and>
          (policy \<noteq> KUPL_LOOP_POLICY_STATIC \<longrightarrow> (\<forall>ci. 0 \<le> ci \<longrightarrow> ci < total_chunks \<longrightarrow>
             kupl_compute_chunk_range64 rng' chunk_info ci = Some (kupl_compute_chunk_range rng' chunk_info ci)))))"
proof (intro conjI allI impI, goal_cases)
  case 1
  have K: "0 \<le> KUPL_MAX_CHUNK" "KUPL_MAX_CHUNK \<le> INT64_MAX" by (simp_all add: KUPL_MAX_CHUNK_def INT64_MAX_def)
  have "check_dims policy (take (nat (nr_dim rng)) (nr_nd_range rng)) KUPL_MAX_CHUNK = None"
    using 1 by (auto simp: kupl_check_range_def Let_def split: if_splits option.splits)
  thus ?case
    using check_dims_total[OF _ K, of "take (nat (nr_dim rng)) (nr_nd_range rng)" policy] assms(1)
    by (meson in_set_takeD)
next
  case (7 rng')
  let ?d = "nat (nr_dim rng)"
  note F = check_range_facts[OF 7 assms(2)]
  obtain rs m where c: "check_dims policy (take ?d (nr_nd_range rng)) KUPL_MAX_CHUNK = Some (True, rs, m)"
    and rng': "rng' = rng\<lparr>nr_nd_range := rs @ drop ?d (nr_nd_range rng)\<rparr>"
    using 7 by (auto simp: kupl_check_range_def Let_def split: if_splits option.splits)
  have K: "0 \<le> KUPL_MAX_CHUNK" by (simp add: KUPL_MAX_CHUNK_def INT64_MAX_def)
  have fits: "\<forall>r \<in> set rs. dim_fits policy r"
    using check_dims_fits[OF c _ K] assms(1) by (meson in_set_takeD)
  have "rs = map (fill_blocksize policy) (take ?d (nr_nd_range rng))" using check_dims_ok[OF c K] by blast
  hence len: "length rs = ?d" using assms(2) conjunct1[OF conjunct2[OF conjunct2[OF F]]] by simp
  have tk: "take (nat (nr_dim rng')) (nr_nd_range rng') = rs" using len by (simp add: rng')
  have info: "kupl_calc_chunk_info rng' = (map calc_chunk rs, total_of rs)"
    by (simp add: kupl_calc_chunk_info_def Let_def tk fold_chunks o_def dim_chunks_def[abs_def])
  have tot: "1 \<le> total_of rs" "total_of rs \<le> KUPL_MAX_CHUNK" using F by (simp_all add: info)
  have le: "KUPL_MAX_CHUNK \<le> INT64_MAX" by (simp add: KUPL_MAX_CHUNK_def)
  have "kupl_calc_chunk_info64 rng' = Some (map calc_chunk rs, total_of rs)"
    using calc_dims64_fits[OF fits, of 1] tot le by (simp add: kupl_calc_chunk_info64_def tk)
  moreover have "kupl_compute_chunk_range64 rng' (map calc_chunk rs) ci =
      Some (kupl_compute_chunk_range rng' (map calc_chunk rs) ci)"
    if "policy \<noteq> KUPL_LOOP_POLICY_STATIC" "0 \<le> ci" "ci < total_of rs" for ci
    using chunk_range_loop64_fits[OF fits that(1,2)] that(3) tot(2) le
    by (simp add: kupl_compute_chunk_range64_def kupl_compute_chunk_range_def Let_def tk split_beta)
  ultimately show ?case using info tot by blast
qed (use check_range_facts[OF _ assms(2)] in blast)+

theorem check_range_sound_witness:
  "\<exists>rng' chunk_info. kupl_check_range example_range KUPL_LOOP_POLICY_DYNAMIC = Some (KUPL_OK, rng') \<and>
     kupl_calc_chunk_info64 rng' = Some (chunk_info, 6)"
proof -
  have "\<exists>rng'. kupl_check_range example_range KUPL_LOOP_POLICY_DYNAMIC = Some (KUPL_OK, rng') \<and>
      snd (kupl_calc_chunk_info rng') = 6"
    by (simp add: check_eval example_range_def numeral_2_eq_2 kupl_calc_chunk_info_def calc_chunk_def kupl_divup_def)
  moreover have "\<forall>r \<in> set (nr_nd_range example_range). range64 r" "length (nr_nd_range example_range) = 3"
    by (simp_all add: example_range_def range64_def int64_def INT64_MAX_def INT64_MIN_def)
  ultimately show ?thesis
    using check_range_sound[of example_range KUPL_LOOP_POLICY_DYNAMIC] by (metis snd_conv)
qed

text \<open>The edge is real: the loop from 0 to \<open>INT64_MAX\<close> in steps of 1 under the static policy.\<close>

lemma check_range_overflows:
  "let r = \<lparr>r_lower = 0, r_upper = INT64_MAX, r_step = 1, r_blocksize = 1\<rparr>
   in kupl_check_range \<lparr>nr_dim = 1, nr_nd_range = [r, r, r]\<rparr> KUPL_LOOP_POLICY_STATIC = None"
  by (simp add: check_eval)

end
