(* ===== verification/Kupl_Policy.thy ===== *)
theory Kupl_Policy
  imports Kupl_Range
begin

text \<open>
  The loop policies of \<open>src/src/mt/kupl_parallel_for.cpp\<close>: the share of a thread under the static
  policy in one and in several dimensions, the preparation of the chunk queues of the dynamic
  policy and the threads that empty them concurrently, and the tasks of the task policy.
\<close>

section \<open>Static policy\<close>

text \<open>\<open>kupl_static_policy_impl\<close>: the range of thread \<open>tid\<close> of \<open>tnum\<close>, in checked 64-bit arithmetic.\<close>

definition kupl_static_policy_impl :: "kupl_range \<Rightarrow> range_chunk \<Rightarrow> int \<Rightarrow> int \<Rightarrow> int \<Rightarrow>
    kupl_range option" where
  "kupl_static_policy_impl r chunk_info total_chunks tid tnum =
     (let chunksize = rc_chunksize chunk_info; lower = r_lower r; upper = r_upper r in
      do {
        base_chunks \<leftarrow> div64 total_chunks tnum;
        let remain_chunks = rc_chunks chunk_info smod tnum;
        t1 \<leftarrow> mul64 tid chunksize;
        t2 \<leftarrow> mul64 t1 base_chunks;
        lower_tmp \<leftarrow> add64 lower t2;
        m1 \<leftarrow> mul64 (kupl_min remain_chunks tid) chunksize;
        lo \<leftarrow> add64 lower_tmp m1;
        m2 \<leftarrow> mul64 chunksize base_chunks;
        u1 \<leftarrow> add64 lower_tmp m2;
        m3 \<leftarrow> mul64 (kupl_min remain_chunks (tid + 1)) chunksize;
        up \<leftarrow> add64 u1 m3;
        let up = (if chunksize > 0 then kupl_min up upper else kupl_max up upper);
        Some (r\<lparr>r_lower := lo, r_upper := up\<rparr>)
      })"

definition get_max_range_dim_step :: "nat \<Rightarrow> kupl_range \<Rightarrow> int \<times> nat \<Rightarrow> int \<times> nat" where
  "get_max_range_dim_step i r acc =
     (let (max_chunks, dim_of_max) = acc;
          current_chunks = kupl_divup (r_upper r - r_lower r) (r_step r)
      in if current_chunks > max_chunks then (current_chunks, i) else acc)"

definition get_max_range_dim :: "kupl_range list \<Rightarrow> nat" where
  "get_max_range_dim rs = snd (fold (\<lambda>(i, r). get_max_range_dim_step i r) (enumerate 0 rs) (0, 0))"

text \<open>
  \<open>divide_range\<close>: \<open>whole\<close> is the range of the loop, \<open>cur\<close> the part handed down.  The middle is
  computed from the bounds of \<open>whole\<close>.  \<open>None\<close> is a division by zero threads or a recursion that
  does not end.  The numbers are integers without bounds; the code computes in \<open>int64_t\<close>, which is the
  same as long as no product or sum leaves 64 bits.
\<close>

partial_function (option) divide_range ::
  "kupl_range list \<Rightarrow> range_chunk list \<Rightarrow> int \<Rightarrow> int \<Rightarrow> int \<Rightarrow> kupl_range list \<Rightarrow> kupl_range list option" where
  "divide_range whole chunk_info target_tid head_tid num_threads cur =
     (if num_threads = 1 \<and> target_tid = head_tid then Some cur
      else if num_threads = 0 then None
      else
        (let d = get_max_range_dim cur;
             left_threads = num_threads div 2;
             right_threads = num_threads - left_threads;
             lower = r_lower (whole ! d);
             upper = r_upper (whole ! d);
             chunksize = rc_chunksize (chunk_info ! d);
             total_chunks = kupl_divup (upper - lower) chunksize;
             left_chunks = total_chunks sdiv num_threads * left_threads;
             mid = lower + left_chunks * chunksize
         in if head_tid + left_threads > target_tid
            then divide_range whole chunk_info target_tid head_tid left_threads
                   (cur[d := (cur ! d)\<lparr>r_upper := mid\<rparr>])
            else divide_range whole chunk_info target_tid (head_tid + left_threads) right_threads
                   (cur[d := (cur ! d)\<lparr>r_lower := mid\<rparr>])))"

definition kupl_nd_static_policy_impl :: "kupl_nd_range \<Rightarrow> range_chunk list \<Rightarrow> int \<Rightarrow> int \<Rightarrow>
    kupl_range list option" where
  "kupl_nd_static_policy_impl rng chunk_info tid tnum =
     (let rs = take (nat (nr_dim rng)) (nr_nd_range rng)
      in divide_range rs chunk_info tid 0 tnum rs)"

section \<open>Dynamic policy\<close>

text \<open>
  \<open>kupl_dynamic_policy_prepare_common\<close>: the first chunk and the end of the queue of every thread.
\<close>

definition dynamic_start :: "int \<Rightarrow> int \<Rightarrow> nat \<Rightarrow> int" where
  "dynamic_start total_chunks num_threads i =
     (let chunks_per_thread = total_chunks sdiv num_threads;
          chunks_remain = total_chunks smod num_threads;
          tmp_chunk = int i * chunks_per_thread
      in tmp_chunk + kupl_min tmp_chunk chunks_remain)"

definition dynamic_target :: "int \<Rightarrow> int \<Rightarrow> nat \<Rightarrow> int" where
  "dynamic_target total_chunks num_threads i =
     (let chunks_per_thread = total_chunks sdiv num_threads;
          chunks_remain = total_chunks smod num_threads
      in (int i + 1) * chunks_per_thread + kupl_min ((int i + 1) * chunks_per_thread) chunks_remain)"

text \<open>
  The threads of \<open>kupl_dynamic_policy_impl\<close> as a state machine.  A thread scans the queues from its
  own on (\<open>Scan\<close>: the loop head, with the loads of the index and the target); while a queue has
  chunks left it claims the next one by an atomic increment (\<open>Claim\<close>) and executes it.
\<close>

datatype dyn_pc = Scan (pc_loop: nat) (pc_target: nat) | Claim (pc_loop: nat) (pc_target: nat) | Finished

record dyn_state =
  dn_value :: "nat \<Rightarrow> int"
  dn_pc :: "nat \<Rightarrow> dyn_pc"
  dn_executed :: "(nat \<times> int) list"

inductive dyn_step :: "nat \<Rightarrow> (nat \<Rightarrow> int) \<Rightarrow> dyn_state \<Rightarrow> dyn_state \<Rightarrow> bool" for tnum target where
  scan_enter:
  "\<lbrakk> t < tnum; dn_pc s t = Scan lc tt; lc < tnum; q = (if tt \<ge> tnum then 0 else tt);
     dn_value s q < target q \<rbrakk>
   \<Longrightarrow> dyn_step tnum target s (s\<lparr>dn_pc := (dn_pc s)(t := Claim lc q)\<rparr>)"
| scan_skip:
  "\<lbrakk> t < tnum; dn_pc s t = Scan lc tt; lc < tnum; q = (if tt \<ge> tnum then 0 else tt);
     \<not> dn_value s q < target q \<rbrakk>
   \<Longrightarrow> dyn_step tnum target s (s\<lparr>dn_pc := (dn_pc s)(t := Scan (Suc lc) (Suc q))\<rparr>)"
| scan_end:
  "\<lbrakk> t < tnum; dn_pc s t = Scan lc tt; \<not> lc < tnum \<rbrakk>
   \<Longrightarrow> dyn_step tnum target s (s\<lparr>dn_pc := (dn_pc s)(t := Finished)\<rparr>)"
| claim_chunk:
  "\<lbrakk> t < tnum; dn_pc s t = Claim lc q; dn_value s q < target q \<rbrakk>
   \<Longrightarrow> dyn_step tnum target s
        (s\<lparr>dn_value := (dn_value s)(q := dn_value s q + 1),
          dn_executed := dn_executed s @ [(t, dn_value s q)]\<rparr>)"
| claim_empty:
  "\<lbrakk> t < tnum; dn_pc s t = Claim lc q; \<not> dn_value s q < target q \<rbrakk>
   \<Longrightarrow> dyn_step tnum target s
        (s\<lparr>dn_value := (dn_value s)(q := dn_value s q + 1),
          dn_pc := (dn_pc s)(t := Scan (Suc lc) (Suc q))\<rparr>)"

definition dyn_init :: "(nat \<Rightarrow> int) \<Rightarrow> dyn_state" where
  "dyn_init start = \<lparr>dn_value = start, dn_pc = (\<lambda>t. Scan 0 t), dn_executed = []\<rparr>"

inductive_cases dyn_stepE: "dyn_step tnum target s s'"

section \<open>Task policy\<close>

text \<open>\<open>task_policy_loop_func\<close>: the range of one task.\<close>

definition task_policy_range :: "kupl_range \<Rightarrow> range_chunk \<Rightarrow> int \<Rightarrow> kupl_range" where
  "task_policy_range r chunk_info task_id =
     (let chunksize = rc_chunksize chunk_info
      in r\<lparr>r_lower := r_lower r + task_id * chunksize,
          r_upper := kupl_min (r_upper r) (r_lower r + (task_id + 1) * chunksize)\<rparr>)"

text \<open>
  The tasks that \<open>kupl_task_policy_impl\<close> submits, as pairs of executor and task number; \<open>ok\<close> tells
  which task structures could be allocated, the others are skipped.
\<close>

fun task_policy_inner :: "(int \<Rightarrow> bool) \<Rightarrow> nat \<Rightarrow> nat \<Rightarrow> int \<Rightarrow> (nat \<times> int) list \<times> int" where
  "task_policy_inner ok eid 0 task_id = ([], task_id)"
| "task_policy_inner ok eid (Suc j) task_id =
     (let (ts, n) = task_policy_inner ok eid j (task_id + 1)
      in (if ok task_id then (eid, task_id) # ts else ts, n))"

fun task_policy_outer :: "(int \<Rightarrow> bool) \<Rightarrow> int \<Rightarrow> int \<Rightarrow> nat list \<Rightarrow> int \<Rightarrow> int \<Rightarrow> (nat \<times> int) list" where
  "task_policy_outer ok base_chunks remain_chunks [] eidx task_id = []"
| "task_policy_outer ok base_chunks remain_chunks (eid # eids) eidx task_id =
     (let num_tasks = base_chunks + (if eidx < remain_chunks then 1 else 0);
          (ts, n) = task_policy_inner ok eid (nat num_tasks) task_id
      in ts @ task_policy_outer ok base_chunks remain_chunks eids (eidx + 1) n)"

definition kupl_task_policy_tasks :: "(int \<Rightarrow> bool) \<Rightarrow> int \<Rightarrow> nat list \<Rightarrow> (nat \<times> int) list" where
  "kupl_task_policy_tasks ok total_chunks eids =
     (let num_threads = int (length eids)
      in task_policy_outer ok (total_chunks sdiv num_threads) (total_chunks smod num_threads) eids 0 0)"

section \<open>The static policy partitions\<close>

text \<open>The position, in chunks, where the share of a thread starts.\<close>

definition share_start :: "nat \<Rightarrow> nat \<Rightarrow> nat \<Rightarrow> nat" where
  "share_start tot n i = i * (tot div n) + min (tot mod n) i"

lemma share_start_facts:
  "share_start tot n 0 = 0" "share_start tot n i \<le> share_start tot n (Suc i)"
  "0 < n \<Longrightarrow> share_start tot n n = tot"
  by (auto simp: share_start_def min_def add_mono mult.commute[of n])

text \<open>
  The extent of a range rounded up to whole chunks fits in 64 bits, and so does its end; the
  static policy computes with these values.
\<close>

definition static_fits :: "kupl_range \<Rightarrow> bool" where
  "static_fits r \<longleftrightarrow> int64 (r_lower r) \<and> dim_chunks r \<le> INT64_MAX \<and>
     int64 (dim_chunks r * (r_step r * r_blocksize r)) \<and>
     int64 (r_lower r + dim_chunks r * (r_step r * r_blocksize r))"

lemma int64_scale:
  assumes "int64 (int T * c)" and "k \<le> T"
  shows "int64 (int k * c)"
proof (cases "0 \<le> c")
  case True
  then have "0 \<le> int k * c" "int k * c \<le> int T * c" using assms(2) by (simp_all add: mult_right_mono)
  then show ?thesis using assms(1) by (auto simp: int64_defs)
next
  case False
  then have "int k * c \<le> 0" "int T * c \<le> int k * c"
    using assms(2) by (simp_all add: mult_right_mono_neg mult_nonneg_nonpos)
  then show ?thesis using assms(1) by (auto simp: int64_defs)
qed

lemma int64_between:
  assumes "int64 l" and "int64 (l + int T * c)" and "k \<le> T"
  shows "int64 (l + int k * c)"
proof (cases "0 \<le> c")
  case True
  then have "0 \<le> int k * c" "int k * c \<le> int T * c" using assms(3) by (simp_all add: mult_right_mono)
  then show ?thesis using assms(1,2) by (auto simp: int64_defs)
next
  case False
  then have "int k * c \<le> 0" "int T * c \<le> int k * c"
    using assms(3) by (simp_all add: mult_right_mono_neg mult_nonneg_nonpos)
  then show ?thesis using assms(1,2) by (auto simp: int64_defs)
qed

lemma share_start_le: "0 < n \<Longrightarrow> i \<le> n \<Longrightarrow> share_start T n i \<le> T"
  using lift_Suc_mono_le[of "share_start T n" i n] share_start_facts(2)[of T n]
    share_start_facts(3)[of n T] by simp

lemma static_policy_share:
  assumes ok: "range_ok r" and n: "0 < n" "int n \<le> dim_chunks r" and i: "i < n" and fits: "static_fits r"
  shows "kupl_static_policy_impl r (calc_chunk r) (dim_chunks r) (int i) (int n) =
    Some (sub_range r (share_start (nat (dim_chunks r)) n i * nat (r_blocksize r))
      (share_start (nat (dim_chunks r)) n (Suc i) * nat (r_blocksize r)))"
proof -
  obtain T b where t: "dim_chunks r = int T" and b: "r_blocksize r = int b"
    using dim_chunks_ge_1[OF ok] ok by (metis range_ok_def zero_le_imp_eq_int order.trans zero_le_one)
  define c where "c = r_step r * int b"
  have c: "rc_chunksize (calc_chunk r) = c" "rc_chunks (calc_chunk r) = int T" "0 < c \<longleftrightarrow> 0 < r_step r"
    using calc_chunk_ok(2,3)[OF ok] b t by (simp_all add: dim_chunks_def c_def)
  let ?B = "T div n" and ?R = "T mod n"
  have q: "int T sdiv int n = int ?B" "int T smod int n = int ?R"
    using n by (simp_all add: sdiv_nonneg_pos smod_nonneg_pos zdiv_int zmod_int)
  have l: "int64 (r_lower r)" and w: "int64 (int T * c)" and e: "int64 (r_lower r + int T * c)"
    using fits by (simp_all add: static_fits_def t b c_def)
  have n': "n \<le> T" using n(2) t by simp
  have B: "1 \<le> ?B" using n' n(1) by (simp add: div_greater_zero_iff Suc_le_eq)
  have R: "?R < n" using n(1) by simp
  have le: "i * ?B \<le> T" "i \<le> T" "?B \<le> T" "min ?R i \<le> T" "min ?R (Suc i) \<le> T" "Suc i * ?B \<le> T"
    using i n' R share_start_le[OF n(1), of i T] share_start_le[OF n(1), of "Suc i" T]
    by (auto simp: share_start_def)
  have "int T \<le> INT64_MAX" using fits by (simp add: static_fits_def t)
  then have "int ?B \<le> INT64_MAX" by (rule order.trans[OF of_nat_mono[OF le(3)]])
  then have "int64 (int ?B)" by (auto simp: int64_def INT64_MIN_def intro: order.trans[OF _ of_nat_0_le_iff])
  then have d: "div64 (int T) (int n) = Some (int ?B)" using n(1) q by (simp add: div64_def)
  have m: "mul64 (int i) c = Some (int i * c)" "mul64 (int i * c) (int ?B) = Some (int (i * ?B) * c)"
    "mul64 (kupl_min (int ?R) (int i)) c = Some (int (min ?R i) * c)" "mul64 c (int ?B) = Some (int ?B * c)"
    "mul64 (kupl_min (int ?R) (int i + 1)) c = Some (int (min ?R (Suc i)) * c)"
    using int64_scale[OF w le(2)] int64_scale[OF w le(1)] int64_scale[OF w le(4)]
      int64_scale[OF w le(3)] int64_scale[OF w le(5)]
    by (simp_all add: mul64_def kupl_min_eq of_nat_min algebra_simps)
  have a: "add64 (r_lower r) (int (i * ?B) * c) = Some (r_lower r + int (i * ?B) * c)"
    "add64 (r_lower r + int (i * ?B) * c) (int (min ?R i) * c) = Some (r_lower r + int (share_start T n i) * c)"
    "add64 (r_lower r + int (i * ?B) * c) (int ?B * c) = Some (r_lower r + int (Suc i * ?B) * c)"
    "add64 (r_lower r + int (Suc i * ?B) * c) (int (min ?R (Suc i)) * c) =
       Some (r_lower r + int (share_start T n (Suc i)) * c)"
    using int64_between[OF l e le(1)] int64_between[OF l e share_start_le[OF n(1), of i]]
      int64_between[OF l e le(6)] int64_between[OF l e share_start_le[OF n(1), of "Suc i"]] i
    by (simp_all add: add64_def share_start_def algebra_simps)
  show ?thesis
    unfolding kupl_static_policy_impl_def Let_def c t q d bind.bind_lunit m a option.case b
    using ok by (simp add: range_ok_def sub_range_def b[symmetric] c(3) kupl_min_eq kupl_max_eq c_def algebra_simps)
qed

lemma static_shares:
  assumes "range_ok r" and "0 < n" and "int n \<le> dim_chunks r" and "static_fits r"
  shows "\<exists>shares. map (\<lambda>i. kupl_static_policy_impl r (calc_chunk r) (rc_chunks (calc_chunk r))
      (int i) (int n)) [0..<n] = map Some shares \<and> concat (map iters shares) = iters r"
proof -
  let ?f = "\<lambda>i. share_start (nat (dim_chunks r)) n i * nat (r_blocksize r)"
  have "iter_total r \<le> ?f n"
    using calc_chunk_ok(4)[OF assms(1)] share_start_facts(3)[OF assms(2)] by (simp add: dim_chunks_def)
  then have "concat (map (\<lambda>i. iters (sub_range r (?f i) (?f (Suc i)))) [0..<n]) = iters r"
    by (intro concat_sub_ranges) (simp_all add: share_start_facts mult_right_mono)
  moreover have "map (\<lambda>i. kupl_static_policy_impl r (calc_chunk r) (rc_chunks (calc_chunk r)) (int i) (int n))
      [0..<n] = map Some (map (\<lambda>i. sub_range r (?f i) (?f (Suc i))) [0..<n])"
    using static_policy_share[OF assms(1-3) _ assms(4)] by (simp add: dim_chunks_def)
  ultimately show ?thesis by (intro exI[of _ "map (\<lambda>i. sub_range r (?f i) (?f (Suc i))) [0..<n]"]) (simp add: o_def)
qed

text \<open>
  Under the static policy in one dimension the shares of the threads \<open>0\<close> to \<open>n - 1\<close>, one after
  the other, are exactly the iterations of the range, in order: none is lost, none is repeated, in
  ascending and descending ranges alike, and no intermediate value overflows as long as the end of
  the range, rounded up to whole chunks, is a 64-bit value.
\<close>

theorem static_policy_partition:
  assumes "range_ok r" and "0 < n" and "int n \<le> dim_chunks r" and "static_fits r"
  shows "\<exists>shares. map (\<lambda>i. kupl_static_policy_impl r (calc_chunk r) (rc_chunks (calc_chunk r))
      (int i) (int n)) [0..<n] = map Some shares \<and> concat (map iters shares) = iters r"
  using assms by (rule static_shares)

theorem static_policy_partition_witness:
  "let r = \<lparr>r_lower = 10, r_upper = 0, r_step = -3, r_blocksize = 1\<rparr>
   in \<exists>shares. map (\<lambda>i. kupl_static_policy_impl r (calc_chunk r) (rc_chunks (calc_chunk r)) (int i) (int 3))
        [0..<3] = map Some shares \<and> concat (map iters shares) = [10, 7, 4, 1]"
proof -
  let ?r = "\<lparr>r_lower = 10, r_upper = 0, r_step = -3, r_blocksize = 1\<rparr>"
  have "iters ?r = [10, 7, 4, 1]" by (simp add: iters_def iter_count_def upt_rec)
  moreover have "dim_chunks ?r = 4"
    by (simp add: dim_chunks_def calc_chunk_def kupl_divup_def signed_divide_int_def)
  ultimately show ?thesis using static_policy_partition[of ?r 3]
    by (simp add: range_ok_def static_fits_def int64_defs)
qed

text \<open>
  The check does not keep the static policy from overflowing: the range from 5 to \<open>INT64_MAX\<close>
  in steps of 4 is accepted, but the end of the last share of two threads is beyond 64 bits.
\<close>

theorem static_policy_overflow:
  "let r = \<lparr>r_lower = 5, r_upper = INT64_MAX, r_step = 4, r_blocksize = 1\<rparr>;
       rng = \<lparr>nr_dim = 1, nr_nd_range = [r, r, r]\<rparr>
   in kupl_check_range rng KUPL_LOOP_POLICY_STATIC = Some (KUPL_OK, rng) \<and>
      kupl_static_policy_impl r (calc_chunk r) (rc_chunks (calc_chunk r)) 0 2 \<noteq> None \<and>
      kupl_static_policy_impl r (calc_chunk r) (rc_chunks (calc_chunk r)) 1 2 = None"
  by (simp add: check_eval kupl_static_policy_impl_def calc_chunk_def kupl_divup_def signed_modulo_int_def
      kupl_min_def)

section \<open>The dynamic policy executes every chunk once\<close>

lemma dynamic_queues:
  assumes "0 < n" and "int n \<le> m"
  shows "dynamic_start m (int n) 0 = 0" "dynamic_target m (int n) i = dynamic_start m (int n) (Suc i)"
    "dynamic_start m (int n) i \<le> dynamic_start m (int n) (Suc i)" "dynamic_start m (int n) n = m"
proof -
  have q: "m sdiv int n = m div int n" "m smod int n = m mod int n"
    using assms by (simp_all add: sdiv_nonneg_pos smod_nonneg_pos)
  have c: "1 \<le> m div int n" using assms by (simp add: le_div_iff_mult_int)
  have r: "0 \<le> m mod int n" "m mod int n < int n" using assms by simp_all
  show "dynamic_start m (int n) 0 = 0" using r by (simp add: dynamic_start_def Let_def kupl_min_eq q)
  show "dynamic_target m (int n) i = dynamic_start m (int n) (Suc i)"
    by (simp add: dynamic_start_def dynamic_target_def Let_def add.commute)
  have "int i * (m div int n) \<le> int (Suc i) * (m div int n)" using c by (intro mult_right_mono) simp_all
  then show "dynamic_start m (int n) i \<le> dynamic_start m (int n) (Suc i)"
    unfolding dynamic_start_def Let_def kupl_min_eq q by (intro add_mono min.mono) simp_all
  have "int n * 1 \<le> int n * (m div int n)" using c by (intro mult_left_mono) simp_all
  then have "m mod int n \<le> int n * (m div int n)" using r by linarith
  then show "dynamic_start m (int n) n = m"
    by (simp add: dynamic_start_def Let_def kupl_min_eq q)
qed

definition claimed :: "nat \<Rightarrow> (nat \<Rightarrow> int) \<Rightarrow> (nat \<Rightarrow> int) \<Rightarrow> dyn_state \<Rightarrow> int set" where
  "claimed n st tg s = {c. \<exists>q<n. st q \<le> c \<and> c < min (dn_value s q) (tg q)}"

text \<open>
  The queues that a thread has left behind are exhausted; the chunks executed are those below the
  indices of the queues.
\<close>

definition passed :: "nat \<Rightarrow> (nat \<Rightarrow> int) \<Rightarrow> dyn_state \<Rightarrow> nat \<Rightarrow> nat \<Rightarrow> bool" where
  "passed n tg s t lc \<longleftrightarrow> (\<forall>k<lc. tg ((t + k) mod n) \<le> dn_value s ((t + k) mod n))"

definition pc_ok :: "nat \<Rightarrow> (nat \<Rightarrow> int) \<Rightarrow> dyn_state \<Rightarrow> nat \<Rightarrow> bool" where
  "pc_ok n tg s t \<longleftrightarrow> (case dn_pc s t of
       Scan lc tt \<Rightarrow> lc \<le> n \<and> passed n tg s t lc \<and> (if tt \<ge> n then 0 else tt) = (t + lc) mod n
     | Claim lc q \<Rightarrow> lc < n \<and> passed n tg s t lc \<and> q = (t + lc) mod n
     | Finished \<Rightarrow> passed n tg s t n)"

definition dyn_inv :: "nat \<Rightarrow> (nat \<Rightarrow> int) \<Rightarrow> (nat \<Rightarrow> int) \<Rightarrow> dyn_state \<Rightarrow> bool" where
  "dyn_inv n st tg s \<longleftrightarrow> (\<forall>q. st q \<le> dn_value s q) \<and> distinct (map snd (dn_executed s)) \<and>
     set (map snd (dn_executed s)) = claimed n st tg s \<and> (\<forall>t<n. pc_ok n tg s t)"

lemma dyn_inv_init: "(\<forall>q. st q \<le> tg q) \<Longrightarrow> dyn_inv n st tg (dyn_init st)"
  by (auto simp: dyn_inv_def dyn_init_def claimed_def pc_ok_def passed_def not_le mod_less)

lemma next_queue: "0 < n \<Longrightarrow> q = (t + lc) mod n \<Longrightarrow> (if Suc q \<ge> n then 0 else Suc q) = (t + Suc lc) mod n"
  by (auto simp: mod_Suc le_Suc_eq not_le)

lemma pc_ok_scan: "dn_pc s t = Scan lc tt \<Longrightarrow> pc_ok n tg s t \<longleftrightarrow>
    lc \<le> n \<and> passed n tg s t lc \<and> (if tt \<ge> n then 0 else tt) = (t + lc) mod n"
  by (simp add: pc_ok_def)

lemma passed_mono:
  "passed n tg s t lc \<Longrightarrow> \<forall>q. dn_value s q \<le> dn_value s' q \<Longrightarrow> passed n tg s' t lc"
  by (auto simp: passed_def intro: order.trans)

lemma pc_ok_other:
  "pc_ok n tg s t \<Longrightarrow> dn_pc s' t = dn_pc s t \<Longrightarrow> \<forall>q. dn_value s q \<le> dn_value s' q \<Longrightarrow> pc_ok n tg s' t"
  using passed_mono[of n tg s t _ s'] by (auto simp: pc_ok_def split: dyn_pc.splits)

lemma passed_Suc: "passed n tg s t (Suc lc) \<longleftrightarrow> passed n tg s t lc \<and>
    tg ((t + lc) mod n) \<le> dn_value s ((t + lc) mod n)"
  by (auto simp: passed_def less_Suc_eq)

lemma dyn_inv_pc:
  assumes "dyn_inv n st tg s" and "\<forall>u. u \<noteq> t \<longrightarrow> p u = dn_pc s u" and "pc_ok n tg (s\<lparr>dn_pc := p\<rparr>) t"
  shows "dyn_inv n st tg (s\<lparr>dn_pc := p\<rparr>)"
  using assms pc_ok_other[of n tg s _ "s\<lparr>dn_pc := p\<rparr>"]
  by (auto simp: dyn_inv_def claimed_def) (metis order_refl)

lemma claimed_step:
  assumes "q < n" and "st q \<le> dn_value s q" and "dn_value s q < tg q"
    and "dn_value s' = (dn_value s)(q := dn_value s q + 1)"
  shows "claimed n st tg s' = insert (dn_value s q) (claimed n st tg s)"
proof (rule set_eqI)
  fix c
  have "(\<exists>p<n. st p \<le> c \<and> c < min (dn_value s' p) (tg p)) \<longleftrightarrow>
      c = dn_value s q \<or> (\<exists>p<n. st p \<le> c \<and> c < min (dn_value s p) (tg p))"
    (is "(\<exists>p<n. ?A p) \<longleftrightarrow> _ \<or> (\<exists>p<n. ?B p)")
  proof -
    have "?A p \<longleftrightarrow> ?B p \<or> (p = q \<and> c = dn_value s q)" for p using assms(2-4) by auto
    then show ?thesis using assms(1) by blast
  qed
  then show "c \<in> claimed n st tg s' \<longleftrightarrow> c \<in> insert (dn_value s q) (claimed n st tg s)"
    by (simp add: claimed_def)
qed

lemma st_mono:
  assumes "\<forall>i. st i \<le> st (Suc i)" shows "i \<le> j \<Longrightarrow> st i \<le> (st j :: int)"
  using assms by (rule_tac lift_Suc_mono_le) auto

lemma dyn_step_inv:
  assumes step: "dyn_step n tg s s'" and inv: "dyn_inv n st tg s"
    and st: "\<forall>i. tg i = st (Suc i)" "\<forall>i. st i \<le> st (Suc i)" and n: "0 < n"
  shows "dyn_inv n st tg s'"
  using step
proof cases
  case (scan_enter t lc tt q)
  then have "pc_ok n tg s t" using inv by (auto simp: dyn_inv_def)
  then have "pc_ok n tg (s\<lparr>dn_pc := (dn_pc s)(t := Claim lc q)\<rparr>) t"
    using scan_enter by (auto simp: pc_ok_def passed_def)
  then show ?thesis unfolding scan_enter(1) by (intro dyn_inv_pc[OF inv]) auto
next
  case (scan_skip t lc tt q)
  then have "pc_ok n tg s t" using inv by (auto simp: dyn_inv_def)
  then have q: "passed n tg s t lc" "q = (t + lc) mod n" using scan_skip by (auto simp: pc_ok_def)
  let ?s = "s\<lparr>dn_pc := (dn_pc s)(t := Scan (Suc lc) (Suc q))\<rparr>"
  have p: "passed n tg ?s t (Suc lc)" using q scan_skip by (simp add: passed_def less_Suc_eq)
  have pc: "dn_pc ?s t = Scan (Suc lc) (Suc q)" by simp
  have "pc_ok n tg ?s t"
    unfolding pc_ok_scan[OF pc] using scan_skip(4) p next_queue[OF n q(2)] by (simp only: Suc_le_eq)
  then show ?thesis unfolding scan_skip(1) by (intro dyn_inv_pc[OF inv]) auto
next
  case (scan_end t lc tt)
  then have "pc_ok n tg s t" using inv by (auto simp: dyn_inv_def)
  then have "pc_ok n tg (s\<lparr>dn_pc := (dn_pc s)(t := Finished)\<rparr>) t"
    using scan_end by (auto simp: pc_ok_def passed_def)
  then show ?thesis unfolding scan_end(1) by (intro dyn_inv_pc[OF inv]) auto
next
  case (claim_chunk t lc q)
  have "pc_ok n tg s t" using inv claim_chunk by (auto simp: dyn_inv_def)
  then have q: "q < n" using claim_chunk n by (auto simp: pc_ok_def)
  let ?c = "dn_value s q"
  have lo: "st q \<le> ?c" using inv by (simp add: dyn_inv_def)
  have fresh: "?c \<notin> claimed n st tg s"
  proof
    assume "?c \<in> claimed n st tg s"
    then obtain p where p: "p < n" "st p \<le> ?c" "?c < dn_value s p" "?c < tg p" by (auto simp: claimed_def)
    then have "p \<noteq> q" by auto
    then consider "Suc p \<le> q" | "Suc q \<le> p" by linarith
    then show False
    proof cases
      case 1
      then have "st (Suc p) \<le> st q" using st_mono[OF st(2)] by blast
      then show False using p lo st(1) by simp
    next
      case 2
      then have "st (Suc q) \<le> st p" using st_mono[OF st(2)] by blast
      then show False using p claim_chunk st(1) by simp
    qed
  qed
  have "claimed n st tg s' = insert ?c (claimed n st tg s)"
    using claimed_step[of q n st s tg s'] q lo claim_chunk by simp
  moreover have "pc_ok n tg s' u" if "u < n" for u
  proof (rule pc_ok_other)
    show "pc_ok n tg s u" using inv that by (simp add: dyn_inv_def)
    show "dn_pc s' u = dn_pc s u" "\<forall>p. dn_value s p \<le> dn_value s' p" using claim_chunk by simp_all
  qed
  moreover have "dn_executed s' = dn_executed s @ [(t, ?c)]" "\<forall>p. dn_value s p \<le> dn_value s' p"
    using claim_chunk by simp_all
  moreover have "\<forall>p. st p \<le> dn_value s' p"
    using inv claim_chunk by (auto simp: dyn_inv_def intro: order.trans)
  ultimately show ?thesis using inv fresh unfolding dyn_inv_def map_append by simp
next
  case (claim_empty t lc q)
  have ok: "pc_ok n tg s t" using inv claim_empty by (auto simp: dyn_inv_def)
  then have q: "lc < n" "passed n tg s t lc" "q = (t + lc) mod n" using claim_empty by (auto simp: pc_ok_def)
  have le: "\<forall>p. dn_value s p \<le> dn_value s' p" using claim_empty by simp
  have p: "passed n tg s' t (Suc lc)" using passed_mono[OF q(2) le] q(3) claim_empty by (simp add: passed_Suc)
  have pc: "dn_pc s' t = Scan (Suc lc) (Suc q)" using claim_empty by simp
  have "pc_ok n tg s' t"
    unfolding pc_ok_scan[OF pc] using q(1) p next_queue[OF n q(3)] by (simp only: Suc_le_eq)
  moreover have "pc_ok n tg s' u" if "u < n" "u \<noteq> t" for u
  proof (rule pc_ok_other[OF _ _ le])
    show "pc_ok n tg s u" using inv that by (simp add: dyn_inv_def)
    show "dn_pc s' u = dn_pc s u" using claim_empty that by simp
  qed
  moreover have "claimed n st tg s' = claimed n st tg s"
  proof -
    have "c < min (dn_value s' p) (tg p) \<longleftrightarrow> c < min (dn_value s p) (tg p)" for c p
      using claim_empty(1,4) by (cases "p = q") auto
    then show ?thesis by (simp add: claimed_def)
  qed
  moreover have "dn_executed s' = dn_executed s" using claim_empty by simp
  moreover have "\<forall>p. st p \<le> dn_value s' p" using inv le unfolding dyn_inv_def by (metis order.trans)
  ultimately show ?thesis using inv unfolding dyn_inv_def by metis
qed

lemma dyn_reach_inv:
  assumes "(dyn_step n tg)\<^sup>*\<^sup>* (dyn_init st) s"
    and "\<forall>i. tg i = st (Suc i)" "\<forall>i. st i \<le> st (Suc i)" "0 < n"
  shows "dyn_inv n st tg s"
  using assms(1)
proof (induction rule: rtranclp_induct)
  case base
  then show ?case using assms(2,3) by (intro dyn_inv_init) simp
next
  case (step s u)
  then show ?case using dyn_step_inv[OF _ _ assms(2-4)] by blast
qed

text \<open>The work left: the chunks in the queues and the queues the threads still have to look at.\<close>

definition pc_rank :: "nat \<Rightarrow> dyn_pc \<Rightarrow> nat" where
  "pc_rank n pc = (case pc of Scan lc tt \<Rightarrow> 2 * (n - lc) + 2 | Claim lc q \<Rightarrow> 2 * (n - lc) + 1 | Finished \<Rightarrow> 0)"

definition dyn_measure :: "nat \<Rightarrow> (nat \<Rightarrow> int) \<Rightarrow> dyn_state \<Rightarrow> nat" where
  "dyn_measure n tg s = (\<Sum>q<n. nat (tg q - dn_value s q)) + (\<Sum>t<n. pc_rank n (dn_pc s t))"

lemma sum_update:
  fixes f :: "nat \<Rightarrow> nat"
  assumes "t < n" shows "(\<Sum>u<n. (f(t := x)) u) + f t = (\<Sum>u<n. f u) + x"
proof -
  have "(\<Sum>u<n. g u) = g t + (\<Sum>u\<in>{..<n} - {t}. g u)" for g :: "nat \<Rightarrow> nat"
    using assms by (intro sum.remove) simp_all
  from this[of f] this[of "f(t := x)"] show ?thesis by simp
qed

lemma rank_update:
  assumes "t < n" and "pc_rank n x < pc_rank n (p t)"
  shows "(\<Sum>u<n. pc_rank n ((p(t := x)) u)) < (\<Sum>u<n. pc_rank n (p u))"
proof -
  have "(\<lambda>u. pc_rank n ((p(t := x)) u)) = (\<lambda>u. pc_rank n (p u))(t := pc_rank n x)" by auto
  then have "(\<Sum>u<n. pc_rank n ((p(t := x)) u)) + pc_rank n (p t) = (\<Sum>u<n. pc_rank n (p u)) + pc_rank n x"
    using sum_update[OF assms(1), of "\<lambda>u. pc_rank n (p u)" "pc_rank n x"] by (simp only:)
  then show ?thesis using assms(2) by linarith
qed

lemma dyn_step_measure:
  assumes step: "dyn_step n tg s s'" and inv: "dyn_inv n st tg s" and n: "0 < n"
  shows "dyn_measure n tg s' < dyn_measure n tg s"
  using step
proof cases
  case (scan_enter t lc tt q)
  then show ?thesis using rank_update[of t n "Claim lc q" "dn_pc s"]
    by (simp add: dyn_measure_def pc_rank_def[of n "Claim _ _"] pc_rank_def[of n "Scan _ _"])
next
  case (scan_skip t lc tt q)
  then show ?thesis using rank_update[of t n "Scan (Suc lc) (Suc q)" "dn_pc s"]
    by (simp add: dyn_measure_def pc_rank_def[of n "Scan _ _"])
next
  case (scan_end t lc tt)
  then show ?thesis using rank_update[of t n Finished "dn_pc s"]
    by (simp add: dyn_measure_def pc_rank_def[of n "Scan _ _"] pc_rank_def[of n Finished])
next
  case (claim_chunk t lc q)
  have "q < n" using inv claim_chunk n by (auto simp: dyn_inv_def pc_ok_def)
  moreover have "(\<lambda>p. nat (tg p - dn_value s' p)) =
      (\<lambda>p. nat (tg p - dn_value s p))(q := nat (tg q - dn_value s q) - 1)"
    using claim_chunk by (auto simp: fun_eq_iff)
  moreover have "0 < nat (tg q - dn_value s q)" using claim_chunk by simp
  ultimately have "(\<Sum>p<n. nat (tg p - dn_value s' p)) + nat (tg q - dn_value s q) =
      (\<Sum>p<n. nat (tg p - dn_value s p)) + (nat (tg q - dn_value s q) - 1)" "0 < nat (tg q - dn_value s q)"
    using sum_update[of q n "\<lambda>p. nat (tg p - dn_value s p)" "nat (tg q - dn_value s q) - 1"]
    by (simp_all only:)
  then have "(\<Sum>p<n. nat (tg p - dn_value s' p)) < (\<Sum>p<n. nat (tg p - dn_value s p))" by linarith
  then show ?thesis using claim_chunk by (simp add: dyn_measure_def)
next
  case (claim_empty t lc q)
  have "lc < n" using inv claim_empty by (auto simp: dyn_inv_def pc_ok_def)
  then have lc: "n - lc = Suc (n - Suc lc)" by simp
  have "(\<Sum>p<n. nat (tg p - dn_value s' p)) \<le> (\<Sum>p<n. nat (tg p - dn_value s p))"
    using claim_empty by (intro sum_mono) auto
  then show ?thesis using claim_empty lc rank_update[of t n "Scan (Suc lc) (Suc q)" "dn_pc s"]
    by (simp add: dyn_measure_def pc_rank_def[of n "Claim _ _"] pc_rank_def[of n "Scan _ _"])
qed

text \<open>
  C2: Under the dynamic policy, whatever the interleaving of the threads, no chunk is ever executed
  twice, only chunks of the loop are executed, and as soon as some thread has finished every chunk
  has been claimed.
\<close>

theorem dynamic_policy_exactly_once:
  assumes "0 < n" and "int n \<le> m"
    and "(dyn_step n (dynamic_target m (int n)))\<^sup>*\<^sup>* (dyn_init (dynamic_start m (int n))) s"
  shows "distinct (map snd (dn_executed s)) \<and> set (map snd (dn_executed s)) \<subseteq> {0..<m} \<and>
    ((\<exists>t<n. dn_pc s t = Finished) \<longrightarrow> set (map snd (dn_executed s)) = {0..<m})"
proof -
  let ?st = "dynamic_start m (int n)" and ?tg = "dynamic_target m (int n)"
  note Q = dynamic_queues[OF assms(1,2)]
  have mono: "i \<le> j \<Longrightarrow> ?st i \<le> ?st j" for i j using Q(3) by (intro st_mono) auto
  have inv: "dyn_inv n ?st ?tg s" using dyn_reach_inv[OF assms(3)] Q assms(1) by blast
  then have ex: "set (map snd (dn_executed s)) = claimed n ?st ?tg s" and d: "distinct (map snd (dn_executed s))"
    by (simp_all add: dyn_inv_def)
  have sub: "claimed n ?st ?tg s \<subseteq> {0..<m}"
  proof
    fix c assume "c \<in> claimed n ?st ?tg s"
    then obtain q where "q < n" "?st q \<le> c" "c < ?st (Suc q)" by (auto simp: claimed_def Q(2))
    then show "c \<in> {0..<m}" using mono[of 0 q] mono[of "Suc q" n] Q(1,4) by simp
  qed
  have "claimed n ?st ?tg s = {0..<m}" if "t < n" "dn_pc s t = Finished" for t
  proof
    show "claimed n ?st ?tg s \<subseteq> {0..<m}" by (rule sub)
    have all: "?tg q \<le> dn_value s q" if "q < n" for q
    proof -
      have "passed n ?tg s t n" using inv \<open>t < n\<close> \<open>dn_pc s t = Finished\<close> by (auto simp: dyn_inv_def pc_ok_def)
      moreover have "(t + (q + n - t) mod n) mod n = q" using \<open>q < n\<close> \<open>t < n\<close>
        by (simp add: mod_simps)
      ultimately show ?thesis using assms(1) by (auto simp: passed_def dest: spec[of _ "(q + n - t) mod n"])
    qed
    show "{0..<m} \<subseteq> claimed n ?st ?tg s"
    proof
      fix c assume c: "c \<in> {0..<m}"
      then have e: "\<exists>q. c < ?st (Suc q)" using Q(4) assms(1) by (intro exI[of _ "n - 1"]) simp
      define q where "q = (LEAST q. c < ?st (Suc q))"
      have q1: "c < ?st (Suc q)" unfolding q_def using e by (rule LeastI_ex)
      have q2: "?st q \<le> c"
      proof (cases q)
        case 0 then show ?thesis using Q(1) c by simp
      next
        case (Suc p)
        then show ?thesis using not_less_Least[of p "\<lambda>q. c < ?st (Suc q)"] by (simp add: q_def not_less)
      qed
      have "q < n" using q2 c Q(4) mono[of n q] by (cases "q < n") auto
      then show "c \<in> claimed n ?st ?tg s" using q1 q2 all[of q] Q(2) by (auto simp: claimed_def)
    qed
  qed
  then show ?thesis using ex d sub by auto
qed

text \<open>A run of two threads on three chunks in which thread 0 executes all of them.\<close>

lemma example_dynamic_run:
  "\<exists>s. (dyn_step 2 (dynamic_target 3 (int 2)))\<^sup>*\<^sup>* (dyn_init (dynamic_start 3 (int 2))) s \<and>
    dn_executed s = [(0, 0)]"
proof -
  let ?st = "dynamic_start 3 (int 2)" and ?tg = "dynamic_target 3 (int 2)"
  have v: "?st 0 = 0" "?tg 0 = 2"
    by (simp_all add: dynamic_start_def dynamic_target_def Let_def kupl_min_def signed_divide_int_def
        signed_modulo_int_def)
  let ?a = "(dyn_init ?st)\<lparr>dn_pc := (dn_pc (dyn_init ?st))(0 := Claim 0 0)\<rparr>"
  let ?b = "?a\<lparr>dn_value := (dn_value ?a)(0 := dn_value ?a 0 + 1),
      dn_executed := dn_executed ?a @ [(0, dn_value ?a 0)]\<rparr>"
  have "dyn_step 2 ?tg (dyn_init ?st) ?a"
    by (rule dyn_step.scan_enter[where lc = 0 and tt = 0]) (use v in \<open>simp_all add: dyn_init_def\<close>)
  moreover have "dyn_step 2 ?tg ?a ?b"
    by (rule dyn_step.claim_chunk[where lc = 0]) (use v in \<open>simp_all add: dyn_init_def\<close>)
  ultimately have "(dyn_step 2 ?tg)\<^sup>*\<^sup>* (dyn_init ?st) ?b" by (meson r_into_rtranclp rtranclp_trans)
  moreover have "dn_executed ?b = [(0, 0)]" using v by (simp add: dyn_init_def)
  ultimately show ?thesis by blast
qed

theorem dynamic_policy_exactly_once_witness:
  "\<exists>s :: dyn_state. dn_executed s = [(0, 0)] \<and> set (map snd (dn_executed s)) \<subseteq> {0..<3}"
proof -
  obtain s where s: "(dyn_step 2 (dynamic_target 3 (int 2)))\<^sup>*\<^sup>* (dyn_init (dynamic_start 3 (int 2))) s"
    "dn_executed s = [(0, 0)]" using example_dynamic_run by blast
  have "set (map snd (dn_executed s)) \<subseteq> {0..<3}"
    using dynamic_policy_exactly_once[OF _ _ s(1)] by simp
  then show ?thesis using s(2) by blast
qed

text \<open>
  C25: The dynamic policy terminates: in every reachable state some thread can go on or all threads
  have finished, and every step decreases the work left.
\<close>

theorem dynamic_policy_terminates:
  assumes "0 < n" and "int n \<le> m"
    and "(dyn_step n (dynamic_target m (int n)))\<^sup>*\<^sup>* (dyn_init (dynamic_start m (int n))) s"
  shows "((\<exists>s'. dyn_step n (dynamic_target m (int n)) s s') \<or> (\<forall>t<n. dn_pc s t = Finished)) \<and>
    (\<forall>s'. dyn_step n (dynamic_target m (int n)) s s' \<longrightarrow>
       dyn_measure n (dynamic_target m (int n)) s' < dyn_measure n (dynamic_target m (int n)) s)"
proof -
  let ?tg = "dynamic_target m (int n)"
  have inv: "dyn_inv n (dynamic_start m (int n)) ?tg s"
    using dyn_reach_inv[OF assms(3)] dynamic_queues[OF assms(1,2)] assms(1) by blast
  have "\<exists>s'. dyn_step n ?tg s s'" if t: "t < n" "dn_pc s t \<noteq> Finished" for t
  proof (cases "dn_pc s t")
    case (Scan lc tt)
    show ?thesis
    proof (cases "lc < n")
      case True
      show ?thesis
      proof (cases "dn_value s (if tt \<ge> n then 0 else tt) < ?tg (if tt \<ge> n then 0 else tt)")
        case True
        from dyn_step.scan_enter[where tnum = n and target = ?tg, OF t(1) Scan \<open>lc < n\<close> refl True]
        show ?thesis by blast
      next
        case False
        from dyn_step.scan_skip[where tnum = n and target = ?tg, OF t(1) Scan \<open>lc < n\<close> refl False]
        show ?thesis by blast
      qed
    next
      case False
      from dyn_step.scan_end[where target = ?tg, OF t(1) Scan False] show ?thesis by blast
    qed
  next
    case (Claim lc q)
    show ?thesis
    proof (cases "dn_value s q < ?tg q")
      case True
      from dyn_step.claim_chunk[where target = ?tg, OF t(1) Claim True] show ?thesis by blast
    next
      case False
      from dyn_step.claim_empty[where target = ?tg, OF t(1) Claim False] show ?thesis by blast
    qed
  qed (use t in simp)
  then show ?thesis using dyn_step_measure[OF _ inv assms(1)] by blast
qed

theorem dynamic_policy_terminates_witness:
  "\<exists>s :: dyn_state. dn_executed s = [(0, 0)] \<and>
    ((\<exists>s'. dyn_step 2 (dynamic_target 3 (int 2)) s s') \<or> (\<forall>t<2. dn_pc s t = Finished))"
proof -
  obtain s where s: "(dyn_step 2 (dynamic_target 3 (int 2)))\<^sup>*\<^sup>* (dyn_init (dynamic_start 3 (int 2))) s"
    "dn_executed s = [(0, 0)]" using example_dynamic_run by blast
  have "(\<exists>s'. dyn_step 2 (dynamic_target 3 (int 2)) s s') \<or> (\<forall>t<2. dn_pc s t = Finished)"
    using dynamic_policy_terminates[OF _ _ s(1)] by simp
  then show ?thesis using s(2) by blast
qed

section \<open>The task policy\<close>

lemma task_policy_inner_spec:
  "task_policy_inner ok eid j k = (map (\<lambda>i. (eid, i)) (filter ok [k..k + int j - 1]), k + int j)"
proof (induction j arbitrary: k)
  case (Suc j)
  have "[k..k + int (Suc j) - 1] = k # [k + 1..k + 1 + int j - 1]" by (subst upto_rec1) simp_all
  then show ?case using Suc by simp
qed simp

lemma task_policy_outer_spec:
  assumes "0 \<le> b" and "0 \<le> e"
  shows "\<exists>m. map snd (task_policy_outer ok b r eids e k) = filter ok [k..m - 1] \<and>
    m = k + int (length eids) * b + max 0 (min (int (length eids)) (r - e))"
  using assms(2)
proof (induction eids arbitrary: e k)
  case Nil
  then show ?case by simp
next
  case (Cons x eids)
  let ?n = "b + (if e < r then 1 else 0)"
  have n: "0 \<le> ?n" using assms(1) by simp
  obtain m where m: "map snd (task_policy_outer ok b r eids (e + 1) (k + ?n)) = filter ok [k + ?n..m - 1]"
    "m = k + ?n + int (length eids) * b + max 0 (min (int (length eids)) (r - (e + 1)))"
    using Cons.IH[of "e + 1" "k + ?n"] Cons.prems by auto
  have le: "k + ?n \<le> m" using m(2) assms(1) by simp
  have "[k..k + ?n - 1] @ [k + ?n..m - 1] = [k..m - 1]"
    using upto_split2[of k "k + ?n - 1" "m - 1"] n le
    by (cases "?n = 0") (auto simp: upto_split2)
  then have "map snd (task_policy_outer ok b r (x # eids) e k) = filter ok [k..m - 1]"
    using m(1) n by (simp add: task_policy_inner_spec o_def Let_def flip: filter_append)
  moreover have "m = k + int (length (x # eids)) * b + max 0 (min (int (length (x # eids))) (r - e))"
    using m(2) Cons.prems by (simp add: algebra_simps max_def min_def)
  ultimately show ?case by blast
qed

text \<open>
  The task policy submits one task for every chunk of the loop, in order, for the executors of
  the group in turn; the chunks of tasks that could not be allocated are skipped.
\<close>

theorem task_policy_submits:
  assumes "eids \<noteq> []" and "0 \<le> m"
  shows "map snd (kupl_task_policy_tasks ok m eids) = filter ok [0..m - 1]"
proof -
  let ?n = "int (length eids)"
  have n: "0 < ?n" using assms(1) by simp
  have q: "m sdiv ?n = m div ?n" "m smod ?n = m mod ?n"
    using assms(2) n by (simp_all add: sdiv_nonneg_pos smod_nonneg_pos)
  have r: "0 \<le> m mod ?n" "m mod ?n < ?n" using n by simp_all
  have "0 \<le> m div ?n" using assms(2) n by (simp add: pos_imp_zdiv_nonneg_iff)
  from task_policy_outer_spec[OF this order_refl, of ok "m mod ?n" eids 0]
  show ?thesis using r by (simp add: kupl_task_policy_tasks_def Let_def q)
qed

theorem task_policy_submits_witness:
  "map snd (kupl_task_policy_tasks (\<lambda>_. True) 5 [3, 7]) = [0, 1, 2, 3, 4]"
  using task_policy_submits[of "[3, 7]" 5 "\<lambda>_. True"] by (simp add: upto.simps)

text \<open>
  In an ascending range the tasks of the task policy, one after the other, are exactly the
  iterations of the range.
\<close>

theorem task_policy_partition:
  assumes "range_ok r" and "0 < r_step r"
  shows "concat (map (\<lambda>i. iters (task_policy_range r (calc_chunk r) (int i))) [0..<nat (dim_chunks r)]) = iters r"
proof -
  have "task_policy_range r (calc_chunk r) (int i) = chunk_at r (int i)" for i
    using calc_chunk_ok(3)[OF assms(1)] assms(2)
    by (simp add: task_policy_range_def chunk_at_def Let_def kupl_min_eq min.commute algebra_simps)
  then show ?thesis using concat_chunks[OF assms(1)] by simp
qed

theorem task_policy_partition_witness:
  "let r = \<lparr>r_lower = 0, r_upper = 10, r_step = 2, r_blocksize = 2\<rparr>
   in concat (map (\<lambda>i. iters (task_policy_range r (calc_chunk r) (int i))) [0..<nat (dim_chunks r)]) =
      [0, 2, 4, 6, 8]"
proof -
  let ?r = "\<lparr>r_lower = 0, r_upper = 10, r_step = 2, r_blocksize = 2\<rparr>"
  have "iters ?r = [0, 2, 4, 6, 8]" by (simp add: iters_def iter_count_def upt_rec)
  then show ?thesis using task_policy_partition[of ?r] by (simp add: range_ok_def)
qed

text \<open>
  In a descending range the task policy bounds a task by the smaller of the two ends: the
  accepted range from 10 down to 0 is cut into 10 tasks of which the first executes all ten
  iterations, and every iteration but the first is executed again by another task.
\<close>

theorem task_policy_descending_repeats:
  "let r = \<lparr>r_lower = 10, r_upper = 0, r_step = -1, r_blocksize = 1\<rparr>;
       rng = \<lparr>nr_dim = 1, nr_nd_range = [r, r, r]\<rparr>
   in kupl_check_range rng KUPL_LOOP_POLICY_TASK = Some (KUPL_OK, rng) \<and> dim_chunks r = 10 \<and>
      iters (task_policy_range r (calc_chunk r) 0) = iters r \<and>
      iters (task_policy_range r (calc_chunk r) 1) = [9, 8, 7, 6, 5, 4, 3, 2, 1]"
  by (simp add: check_eval task_policy_range_def dim_chunks_def calc_chunk_def kupl_divup_def kupl_min_def
      iters_def iter_count_def upt_rec)

section \<open>The static policy in several dimensions\<close>

definition wide_range :: "kupl_nd_range" where
  "wide_range = \<lparr>nr_dim = 2, nr_nd_range = [\<lparr>r_lower = 0, r_upper = 100, r_step = 1, r_blocksize = 1\<rparr>,
     \<lparr>r_lower = 0, r_upper = 1, r_step = 1, r_blocksize = 1\<rparr>,
     \<lparr>r_lower = 0, r_upper = 0, r_step = 0, r_blocksize = 0\<rparr>]\<rparr>"

text \<open>The cases of the division, as rewrite rules that evaluate it.\<close>

lemma divide_leaf: "divide_range w cs t t 1 cur = Some cur"
  by (subst divide_range.simps) simp

lemma divide_left:
  assumes "1 < n" and "t < h + n div 2" and "d = get_max_range_dim cur"
  shows "divide_range w cs t h n cur = divide_range w cs t h (n div 2)
    (cur[d := (cur ! d)\<lparr>r_upper := r_lower (w ! d) +
       kupl_divup (r_upper (w ! d) - r_lower (w ! d)) (rc_chunksize (cs ! d)) sdiv n * (n div 2) *
       rc_chunksize (cs ! d)\<rparr>])"
  using assms by (subst divide_range.simps) (simp add: Let_def)

lemma divide_right:
  assumes "1 < n" and "\<not> t < h + n div 2" and "d = get_max_range_dim cur"
  shows "divide_range w cs t h n cur = divide_range w cs t (h + n div 2) (n - n div 2)
    (cur[d := (cur ! d)\<lparr>r_lower := r_lower (w ! d) +
       kupl_divup (r_upper (w ! d) - r_lower (w ! d)) (rc_chunksize (cs ! d)) sdiv n * (n div 2) *
       rc_chunksize (cs ! d)\<rparr>])"
  using assms by (subst divide_range.simps) (simp add: Let_def)

lemmas divide_eval = kupl_nd_static_policy_impl_def divide_leaf divide_left[OF _ _ refl]
  divide_right[OF _ _ refl] get_max_range_dim_def get_max_range_dim_step_def kupl_divup_def
  signed_divide_int_def calc_chunk_def kupl_calc_chunk_info_def wide_range_def Let_def

text \<open>
  In several dimensions the static policy repeats iterations, because it computes the middle of
  a part from the bounds of the whole loop: of five threads on a range of 100 by 1, thread 0 gets
  the rows 0 to 49 and thread 3 the rows 33 to 49 again, while the threads 1 and 2 get nothing.
\<close>

theorem nd_static_policy_repeats:
  "map (\<lambda>tid. map_option (\<lambda>rs. (r_lower (rs ! 0), r_upper (rs ! 0)))
      (kupl_nd_static_policy_impl wide_range (fst (kupl_calc_chunk_info wide_range)) tid 5)) [0, 1, 2, 3, 4] =
    [Some (0, 50), Some (50, 40), Some (40, 33), Some (33, 50), Some (50, 100)]"
  by (simp add: divide_eval take_Cons')

lemma divide_range_returns:
  assumes "0 < n" and "h \<le> t" and "t < h + n"
  shows "divide_range whole cs t h n cur \<noteq> None"
  using assms
proof (induction "nat n" arbitrary: h n cur rule: less_induct)
  case less
  show ?case
  proof (cases "n = 1")
    case True
    then show ?thesis using less.prems by (subst divide_range.simps) simp
  next
    case False
    then have l: "0 < n div 2" "n div 2 < n" "0 < n - n div 2" "n - n div 2 < n" using less.prems by auto
    show ?thesis
    proof (cases "h + n div 2 > t")
      case True
      then show ?thesis using less.hyps[of "n div 2" h] less.prems l False
        by (subst divide_range.simps) (simp add: Let_def)
    next
      case right: False
      then show ?thesis using less.hyps[of "n - n div 2" "h + n div 2"] less.prems l False
        by (subst divide_range.simps) (simp add: Let_def)
    qed
  qed
qed

text \<open>
  The division among the threads always ends, whatever the range: it returns a part for every
  thread number below the number of threads.
\<close>

theorem nd_static_policy_returns:
  assumes "0 \<le> tid" and "tid < tnum"
  shows "\<exists>rs. kupl_nd_static_policy_impl rng cs tid tnum = Some rs"
  using divide_range_returns[of tnum 0 tid] assms
  by (auto simp: kupl_nd_static_policy_impl_def Let_def)

theorem nd_static_policy_returns_witness:
  "\<exists>rs. kupl_nd_static_policy_impl wide_range (fst (kupl_calc_chunk_info wide_range)) 3 5 = Some rs"
  using nd_static_policy_returns[of 3 5] by simp

end
