(* ===== verification/Kupl_Flag_Barrier.thy ===== *)
theory Kupl_Flag_Barrier
  imports Kupl_Egroup
begin

text \<open>
  The flag barrier of \<open>src/src/mt/barrier/kupl_barrier.cpp\<close> (\<open>FlagBarrier\<close>) and the fork and join of
  a parallel region that \<open>kupl_parallel_for\<close> builds from it: the caller notifies the executors of
  the region, each of them arrives, runs the region and leaves, and the master, or a caller outside
  the group, waits until the flags of the others are cleared.
\<close>

section \<open>Operations\<close>

definition FLAG_READY :: nat where [simp]: "FLAG_READY = 1"
definition FLAG_ARRIVED :: nat where [simp]: "FLAG_ARRIVED = 2"
definition FLAG_LEAVE :: nat where [simp]: "FLAG_LEAVE = 0"

definition barrier_notify :: "nat list \<Rightarrow> (nat \<Rightarrow> nat) \<Rightarrow> nat \<Rightarrow> nat" where
  "barrier_notify eids flags = fold (\<lambda>eid f. f(eid := FLAG_READY)) eids flags"

definition barrier_arrive :: "nat \<Rightarrow> (nat \<Rightarrow> nat) \<Rightarrow> bool \<times> (nat \<Rightarrow> nat)" where
  "barrier_arrive geid flags =
     (if flags geid = FLAG_READY then (True, flags(geid := FLAG_ARRIVED)) else (False, flags))"

text \<open>
  The tests on which \<open>leave\<close> (by the master) and \<open>wait\<close> spin, for the executor at one position of
  the enumeration, and the store with which \<open>leave\<close> ends.  While \<open>wait\<close> spins, its executor runs other
  tasks (\<open>kupl_sched_execute_tb\<close>); they are shares of other regions or tasks of graphs and do not touch the
  flags of this one, and have no counterpart here.
\<close>

definition leave_passes :: "nat \<Rightarrow> nat \<Rightarrow> (nat \<Rightarrow> nat) \<Rightarrow> bool" where
  "leave_passes geid eid flags \<longleftrightarrow> (eid \<noteq> geid \<longrightarrow> flags eid = FLAG_LEAVE)"

definition wait_passes :: "nat \<Rightarrow> (nat \<Rightarrow> nat) \<Rightarrow> bool" where
  "wait_passes eid flags \<longleftrightarrow> flags eid = FLAG_LEAVE"

definition barrier_leave_store :: "nat \<Rightarrow> (nat \<Rightarrow> nat) \<Rightarrow> nat \<Rightarrow> nat" where
  "barrier_leave_store geid flags = flags(geid := FLAG_LEAVE)"

section \<open>A parallel region\<close>

text \<open>
  The steps of \<open>kupl_loop_func\<close> on an executor: \<open>Idle\<close> until it arrives, \<open>Arrived\<close> until it has run
  the region, \<open>Leaving k\<close> in \<open>leave\<close> with the first \<open>k\<close> executors seen to have left, \<open>Left\<close> after the
  store, and \<open>Returned\<close> after the post function, which the thread numbered 0 executes.
\<close>

datatype loop_pc = Idle | Arrived | Leaving nat | Left | Returned

text \<open>
  \<open>rg_runs\<close> lists the executors that ran the region, \<open>rg_post\<close> those that had run it when the post
  function was executed; \<open>rg_wait\<close> is the progress of a caller outside the group.
\<close>

record region =
  rg_flags :: "nat \<Rightarrow> nat"
  rg_pc :: "nat \<Rightarrow> loop_pc"
  rg_runs :: "nat list"
  rg_post :: "nat list option"
  rg_wait :: nat

definition region_init :: "nat list \<Rightarrow> (nat \<Rightarrow> nat) \<Rightarrow> region" where
  "region_init eids flags = \<lparr>rg_flags = barrier_notify eids flags, rg_pc = (\<lambda>_. Idle), rg_runs = [],
     rg_post = None, rg_wait = 0\<rparr>"

inductive region_step :: "nat list \<Rightarrow> nat \<Rightarrow> (nat \<Rightarrow> nat) \<Rightarrow> region \<Rightarrow> region \<Rightarrow> bool"
  for eids master tid where
  arrive: "\<lbrakk> e \<in> set eids; rg_pc s e = Idle; barrier_arrive e (rg_flags s) = (True, f) \<rbrakk>
   \<Longrightarrow> region_step eids master tid s (s\<lparr>rg_flags := f, rg_pc := (rg_pc s)(e := Arrived)\<rparr>)"
| run: "\<lbrakk> e \<in> set eids; rg_pc s e = Arrived \<rbrakk>
   \<Longrightarrow> region_step eids master tid s
        (s\<lparr>rg_runs := rg_runs s @ [e],
          rg_pc := (rg_pc s)(e := Leaving (if e = master then 0 else length eids))\<rparr>)"
| master_wait: "\<lbrakk> e \<in> set eids; rg_pc s e = Leaving k; k < length eids;
     leave_passes e (eids ! k) (rg_flags s) \<rbrakk>
   \<Longrightarrow> region_step eids master tid s (s\<lparr>rg_pc := (rg_pc s)(e := Leaving (Suc k))\<rparr>)"
| leave: "\<lbrakk> e \<in> set eids; rg_pc s e = Leaving (length eids) \<rbrakk>
   \<Longrightarrow> region_step eids master tid s
        (s\<lparr>rg_flags := barrier_leave_store e (rg_flags s), rg_pc := (rg_pc s)(e := Left)\<rparr>)"
| post: "\<lbrakk> e \<in> set eids; rg_pc s e = Left \<rbrakk>
   \<Longrightarrow> region_step eids master tid s
        (s\<lparr>rg_post := (if tid e = 0 then Some (rg_runs s) else rg_post s),
          rg_pc := (rg_pc s)(e := Returned)\<rparr>)"
| caller_wait: "\<lbrakk> rg_wait s < length eids; wait_passes (eids ! rg_wait s) (rg_flags s) \<rbrakk>
   \<Longrightarrow> region_step eids master tid s (s\<lparr>rg_wait := Suc (rg_wait s)\<rparr>)"

abbreviation region_reach :: "nat list \<Rightarrow> nat \<Rightarrow> (nat \<Rightarrow> nat) \<Rightarrow> (nat \<Rightarrow> nat) \<Rightarrow> region \<Rightarrow> bool" where
  "region_reach eids master tid flags s \<equiv>
     (region_step eids master tid)\<^sup>*\<^sup>* (region_init eids flags) s"

section \<open>Invariant\<close>

lemma barrier_notify_mem: "e \<in> set eids \<Longrightarrow> barrier_notify eids flags e = FLAG_READY"
proof -
  have "fold (\<lambda>eid f. f(eid := FLAG_READY)) eids flags = (\<lambda>e. if e \<in> set eids then FLAG_READY else flags e)"
    by (induction eids arbitrary: flags) (auto simp: fun_eq_iff)
  then show "e \<in> set eids \<Longrightarrow> barrier_notify eids flags e = FLAG_READY" by (simp add: barrier_notify_def)
qed

text \<open>What the flag and the record of the runs say of the position of an executor.\<close>

definition exec_inv :: "nat list \<Rightarrow> nat \<Rightarrow> region \<Rightarrow> nat \<Rightarrow> bool" where
  "exec_inv eids master s e \<longleftrightarrow>
     (case rg_pc s e of
        Idle \<Rightarrow> rg_flags s e = FLAG_READY \<and> e \<notin> set (rg_runs s)
      | Arrived \<Rightarrow> rg_flags s e = FLAG_ARRIVED \<and> e \<notin> set (rg_runs s)
      | Leaving k \<Rightarrow> rg_flags s e = FLAG_ARRIVED \<and> e \<in> set (rg_runs s) \<and> k \<le> length eids \<and>
          (e = master \<longrightarrow> (\<forall>j<k. eids ! j \<noteq> e \<longrightarrow> eids ! j \<in> set (rg_runs s)))
      | _ \<Rightarrow> rg_flags s e = FLAG_LEAVE \<and> e \<in> set (rg_runs s) \<and> (e = master \<longrightarrow> set eids \<subseteq> set (rg_runs s)))"

definition region_inv :: "nat list \<Rightarrow> nat \<Rightarrow> (nat \<Rightarrow> nat) \<Rightarrow> region \<Rightarrow> bool" where
  "region_inv eids master tid s \<longleftrightarrow> (\<forall>e\<in>set eids. exec_inv eids master s e) \<and>
     distinct (rg_runs s) \<and> set (rg_runs s) \<subseteq> set eids \<and> rg_wait s \<le> length eids \<and>
     (\<forall>j<rg_wait s. eids ! j \<in> set (rg_runs s)) \<and>
     (\<forall>r. rg_post s = Some r \<longrightarrow> (\<forall>e\<in>set eids. tid e = 0 \<longrightarrow> e = master) \<longrightarrow> set eids \<subseteq> set r \<and>
        distinct r \<and> set r \<subseteq> set eids)"

lemma region_inv_init: "region_inv eids master tid (region_init eids flags)"
  by (auto simp: region_inv_def exec_inv_def region_init_def barrier_notify_mem)

text \<open>An executor whose flag is cleared has run the region.\<close>

lemma flag_clear_ran:
  assumes "region_inv eids master tid s" and "e \<in> set eids" and "rg_flags s e = FLAG_LEAVE"
  shows "e \<in> set (rg_runs s)"
proof -
  have "exec_inv eids master s e" using assms by (simp add: region_inv_def)
  then show ?thesis using assms(3) by (auto simp: exec_inv_def split: loop_pc.splits)
qed

lemma exec_inv_frame:
  assumes "exec_inv eids master s e" and "rg_pc s' e = rg_pc s e" and "rg_flags s' e = rg_flags s e"
    and "set (rg_runs s) \<subseteq> set (rg_runs s')" and "e \<in> set (rg_runs s') \<longrightarrow> e \<in> set (rg_runs s)"
  shows "exec_inv eids master s' e"
  using assms by (auto simp: exec_inv_def split: loop_pc.splits)

lemma region_inv_exec:
  assumes inv: "region_inv eids master tid s" and e: "e \<in> set eids"
    and pc: "\<forall>u. u \<noteq> e \<longrightarrow> rg_pc s' u = rg_pc s u" and fl: "\<forall>u. u \<noteq> e \<longrightarrow> rg_flags s' u = rg_flags s u"
    and runs: "rg_runs s' = rg_runs s \<or> rg_runs s' = rg_runs s @ [e] \<and> e \<notin> set (rg_runs s)"
    and w: "rg_wait s' = rg_wait s" and p: "rg_post s' = rg_post s" and own: "exec_inv eids master s' e"
  shows "region_inv eids master tid s'"
proof -
  have sub: "set (rg_runs s) \<subseteq> set (rg_runs s')" using runs by auto
  have x: "exec_inv eids master s' u" if "u \<in> set eids" for u
  proof (cases "u = e")
    case False
    show ?thesis
    proof (rule exec_inv_frame)
      show "exec_inv eids master s u" using inv that by (simp add: region_inv_def)
      show "rg_pc s' u = rg_pc s u" "rg_flags s' u = rg_flags s u" using pc fl False by simp_all
      show "u \<in> set (rg_runs s') \<longrightarrow> u \<in> set (rg_runs s)" using runs False by auto
    qed (rule sub)
  qed (use own in simp)
  have "distinct (rg_runs s')" "set (rg_runs s') \<subseteq> set eids"
    using inv runs e by (auto simp: region_inv_def)
  moreover have "\<forall>j<rg_wait s'. eids ! j \<in> set (rg_runs s')" using inv sub w by (auto simp: region_inv_def)
  ultimately show ?thesis using inv w p x by (simp add: region_inv_def)
qed

lemma region_step_inv:
  assumes "region_step eids master tid s s'" and inv: "region_inv eids master tid s"
  shows "region_inv eids master tid s'"
  using assms(1)
proof cases
  case (arrive e f)
  then have "exec_inv eids master s e" using inv by (simp add: region_inv_def)
  then have "exec_inv eids master s' e"
    using arrive by (auto simp: exec_inv_def barrier_arrive_def split: if_splits)
  then show ?thesis
    by (intro region_inv_exec[OF inv arrive(2)])
      (use arrive in \<open>auto simp: barrier_arrive_def split: if_splits\<close>)
next
  case (run e)
  have x: "exec_inv eids master s e" using inv run by (simp add: region_inv_def)
  then have "exec_inv eids master s' e" using run by (auto simp: exec_inv_def)
  then show ?thesis
    by (intro region_inv_exec[OF inv run(2)]) (use run x in \<open>auto simp: exec_inv_def\<close>)
next
  case (master_wait e k)
  have x: "exec_inv eids master s e" using inv master_wait by (simp add: region_inv_def)
  have "eids ! k \<noteq> e \<longrightarrow> eids ! k \<in> set (rg_runs s)"
    using flag_clear_ran[OF inv, of "eids ! k"] master_wait by (auto simp: leave_passes_def)
  then have "exec_inv eids master s' e" using x master_wait by (auto simp: exec_inv_def less_Suc_eq)
  then show ?thesis by (intro region_inv_exec[OF inv master_wait(2)]) (use master_wait in auto)
next
  case (leave e)
  have x: "exec_inv eids master s e" using inv leave by (simp add: region_inv_def)
  have "e = master \<longrightarrow> set eids \<subseteq> set (rg_runs s)"
  proof (intro impI subsetI)
    fix y assume "e = master" "y \<in> set eids"
    then obtain j where "j < length eids" "eids ! j = y" by (auto simp: in_set_conv_nth)
    then show "y \<in> set (rg_runs s)" using x leave \<open>e = master\<close> by (cases "y = e") (auto simp: exec_inv_def)
  qed
  then have "exec_inv eids master s' e" using x leave by (auto simp: exec_inv_def barrier_leave_store_def)
  then show ?thesis
    by (intro region_inv_exec[OF inv leave(2)]) (use leave in \<open>auto simp: barrier_leave_store_def\<close>)
next
  case (post e)
  have x: "exec_inv eids master s e" using inv post by (simp add: region_inv_def)
  define u where "u = s\<lparr>rg_pc := (rg_pc s)(e := Returned)\<rparr>"
  have "exec_inv eids master u e" using x post by (auto simp: exec_inv_def u_def)
  then have "region_inv eids master tid u"
    by (intro region_inv_exec[OF inv post(2)]) (auto simp: u_def)
  moreover have "tid e = 0 \<longrightarrow> (\<forall>e\<in>set eids. tid e = 0 \<longrightarrow> e = master) \<longrightarrow> set eids \<subseteq> set (rg_runs s)"
    using x post by (simp add: exec_inv_def)
  moreover have "s' = u\<lparr>rg_post := (if tid e = 0 then Some (rg_runs s) else rg_post s)\<rparr>"
    using post by (simp add: u_def)
  moreover have "exec_inv eids master (u\<lparr>rg_post := p\<rparr>) y \<longleftrightarrow> exec_inv eids master u y" for p y
    by (cases "rg_pc u y") (simp_all add: exec_inv_def)
  moreover have "rg_runs u = rg_runs s" "rg_post u = rg_post s" by (simp_all add: u_def)
  ultimately show ?thesis by (cases "tid e = 0") (simp_all add: region_inv_def)
next
  case caller_wait
  have ran: "eids ! rg_wait s \<in> set (rg_runs s)"
    using flag_clear_ran[OF inv, of "eids ! rg_wait s"] caller_wait by (simp add: wait_passes_def)
  have "exec_inv eids master (s\<lparr>rg_wait := k\<rparr>) y \<longleftrightarrow> exec_inv eids master s y" for k y
    by (cases "rg_pc s y") (simp_all add: exec_inv_def)
  then show ?thesis using inv ran caller_wait by (simp add: region_inv_def less_Suc_eq)
qed

lemma region_reach_inv:
  assumes "region_reach eids master tid flags s" shows "region_inv eids master tid s"
  using assms
proof (induction rule: rtranclp_induct)
  case base
  then show ?case by (rule region_inv_init)
next
  case (step s u)
  then show ?case using region_step_inv by blast
qed

section \<open>Properties\<close>

text \<open>
  C3: The join of a parallel region is sound, whatever the interleaving: when the master has left
  the barrier, or a caller outside the group has waited for all flags, every executor of the region
  has run it, and in every state no executor has run it twice.
\<close>

theorem region_join_complete:
  assumes "region_reach eids master tid flags s" and "distinct eids"
    and "master \<in> set eids \<and> rg_pc s master \<in> {Left, Returned} \<or> rg_wait s = length eids"
  shows "distinct (rg_runs s) \<and> set (rg_runs s) = set eids \<and> length (rg_runs s) = length eids"
proof -
  have inv: "region_inv eids master tid s" using assms(1) by (rule region_reach_inv)
  then have d: "distinct (rg_runs s)" "set (rg_runs s) \<subseteq> set eids" by (auto simp: region_inv_def)
  have "set eids \<subseteq> set (rg_runs s)"
    using assms(3)
  proof
    assume m: "master \<in> set eids \<and> rg_pc s master \<in> {Left, Returned}"
    then have "exec_inv eids master s master" using inv by (simp add: region_inv_def)
    then show ?thesis using m by (auto simp: exec_inv_def)
  next
    assume "rg_wait s = length eids"
    then have "\<forall>j<length eids. eids ! j \<in> set (rg_runs s)" using inv by (simp add: region_inv_def)
    then show ?thesis by (auto simp: in_set_conv_nth)
  qed
  then have eq: "set (rg_runs s) = set eids" using d(2) by auto
  then have "length (rg_runs s) = length eids" using d(1) assms(2) by (metis distinct_card)
  then show ?thesis using d(1) eq by simp
qed

text \<open>
  The post function of a reduction sees every contribution if the thread numbered 0 is the
  master: when it is executed all executors of the region have run it.
\<close>

theorem region_post_complete:
  assumes "region_reach eids master tid flags s" and "\<forall>e\<in>set eids. tid e = 0 \<longrightarrow> e = master"
    and "rg_post s = Some r"
  shows "distinct r \<and> set r = set eids"
  using region_reach_inv[OF assms(1)] assms(2,3) by (auto simp: region_inv_def)

text \<open>Two executors: a complete run of a region whose master is executor 0.\<close>

definition region_after :: "nat \<Rightarrow> region \<Rightarrow> region" where
  "region_after e s = s\<lparr>rg_flags := (rg_flags s)(e := 0), rg_runs := rg_runs s @ [e],
     rg_pc := (rg_pc s)(e := Left)\<rparr>"

lemma region_slave_run:
  assumes "e \<in> set eids" and "e \<noteq> master" and "rg_pc s e = Idle" and "rg_flags s e = 1"
  shows "(region_step eids master tid)\<^sup>*\<^sup>* s (region_after e s)"
proof -
  let ?a = "s\<lparr>rg_flags := (rg_flags s)(e := FLAG_ARRIVED), rg_pc := (rg_pc s)(e := Arrived)\<rparr>"
  let ?b = "?a\<lparr>rg_runs := rg_runs ?a @ [e], rg_pc := (rg_pc ?a)(e := Leaving (length eids))\<rparr>"
  let ?c = "?b\<lparr>rg_flags := barrier_leave_store e (rg_flags ?b), rg_pc := (rg_pc ?b)(e := Left)\<rparr>"
  have 1: "region_step eids master tid s ?a"
    by (rule region_step.arrive) (use assms in \<open>simp_all add: barrier_arrive_def\<close>)
  have 2: "region_step eids master tid ?a ?b"
    using region_step.run[of e eids ?a master tid] assms by simp
  have 3: "region_step eids master tid ?b ?c"
    by (rule region_step.leave) (use assms in simp_all)
  have "?c = region_after e s" by (simp add: region_after_def barrier_leave_store_def)
  with 1 2 3 show ?thesis by (metis (no_types, lifting) r_into_rtranclp rtranclp_trans)
qed

lemma region_post_step:
  assumes "e \<in> set eids" and "rg_pc s e = Left"
  shows "(region_step eids master tid)\<^sup>*\<^sup>* s
    (s\<lparr>rg_post := (if tid e = 0 then Some (rg_runs s) else rg_post s), rg_pc := (rg_pc s)(e := Returned)\<rparr>)"
  using region_step.post[where tid = tid, OF assms] by (rule r_into_rtranclp)

lemma region_master_waits:
  assumes "master \<in> set eids" and "\<forall>e\<in>set eids. e \<noteq> master \<longrightarrow> rg_flags s e = 0"
    and "rg_pc s master = Leaving 0" and "k \<le> length eids"
  shows "(region_step eids master tid)\<^sup>*\<^sup>* s (s\<lparr>rg_pc := (rg_pc s)(master := Leaving k)\<rparr>)"
  using assms(4)
proof (induction k)
  case 0
  have "s\<lparr>rg_pc := (rg_pc s)(master := Leaving 0)\<rparr> = s" using assms(3) by (metis fun_upd_triv region.surjective region.update_convs(2))
  then show ?case by (metis rtranclp.rtrancl_refl)
next
  case (Suc k)
  let ?a = "s\<lparr>rg_pc := (rg_pc s)(master := Leaving k)\<rparr>"
  have "region_step eids master tid ?a (?a\<lparr>rg_pc := (rg_pc ?a)(master := Leaving (Suc k))\<rparr>)"
    by (rule region_step.master_wait) (use assms(1,2) Suc.prems in \<open>auto simp: leave_passes_def\<close>)
  then have st: "region_step eids master tid ?a (s\<lparr>rg_pc := (rg_pc s)(master := Leaving (Suc k))\<rparr>)"
    by simp
  have "(region_step eids master tid)\<^sup>*\<^sup>* s ?a" by (rule Suc.IH) (use Suc.prems in simp)
  then show ?case using st by (rule rtranclp.rtrancl_into_rtrancl)
qed

lemma region_master_run:
  assumes "master \<in> set eids" and "\<forall>e\<in>set eids. e \<noteq> master \<longrightarrow> rg_flags s e = 0"
    and "rg_pc s master = Idle" and "rg_flags s master = 1"
  shows "(region_step eids master tid)\<^sup>*\<^sup>* s (region_after master s)"
proof -
  let ?a = "s\<lparr>rg_flags := (rg_flags s)(master := FLAG_ARRIVED), rg_pc := (rg_pc s)(master := Arrived)\<rparr>"
  let ?b = "?a\<lparr>rg_runs := rg_runs ?a @ [master], rg_pc := (rg_pc ?a)(master := Leaving 0)\<rparr>"
  let ?c = "?b\<lparr>rg_pc := (rg_pc ?b)(master := Leaving (length eids))\<rparr>"
  let ?d = "?c\<lparr>rg_flags := barrier_leave_store master (rg_flags ?c), rg_pc := (rg_pc ?c)(master := Left)\<rparr>"
  have 1: "region_step eids master tid s ?a"
    by (rule region_step.arrive) (use assms in \<open>simp_all add: barrier_arrive_def\<close>)
  have 2: "region_step eids master tid ?a ?b"
    using region_step.run[of master eids ?a master tid] assms(1) by simp
  have 3: "(region_step eids master tid)\<^sup>*\<^sup>* ?b ?c"
    by (rule region_master_waits) (use assms(1,2) in simp_all)
  have 4: "region_step eids master tid ?c ?d"
    by (rule region_step.leave) (use assms in simp_all)
  have "?d = region_after master s" by (simp add: region_after_def barrier_leave_store_def)
  with 1 2 3 4 show ?thesis
    by (metis (no_types, lifting) converse_rtranclp_into_rtranclp rtranclp.rtrancl_into_rtrancl)
qed

lemma example_region:
  "\<exists>s. region_reach [0, 1] 0 (\<lambda>e. e) flags s \<and> rg_pc s 0 = Returned \<and> rg_runs s = [1, 0] \<and>
    rg_post s = Some [1, 0]"
proof -
  let ?i = "region_init [0, 1] flags"
  let ?a = "region_after 1 ?i"
  let ?b = "region_after 0 ?a"
  let ?s = "?b\<lparr>rg_post := (if (0 :: nat) = 0 then Some (rg_runs ?b) else rg_post ?b),
    rg_pc := (rg_pc ?b)(0 := Returned)\<rparr>"
  have 1: "(region_step [0, 1] 0 (\<lambda>e. e))\<^sup>*\<^sup>* ?i ?a"
    by (rule region_slave_run) (simp_all add: region_init_def barrier_notify_def)
  have 2: "(region_step [0, 1] 0 (\<lambda>e. e))\<^sup>*\<^sup>* ?a ?b"
    by (rule region_master_run) (simp_all add: region_init_def barrier_notify_def region_after_def)
  have 3: "(region_step [0, 1] 0 (\<lambda>e. e))\<^sup>*\<^sup>* ?b ?s"
    by (rule region_post_step[where tid = "\<lambda>e. e"]) (simp_all add: region_after_def)
  have "region_reach [0, 1] 0 (\<lambda>e. e) flags ?s" by (rule rtranclp_trans[OF rtranclp_trans[OF 1 2] 3])
  moreover have "rg_pc ?s 0 = Returned" "rg_runs ?s = [1, 0]" "rg_post ?s = Some [1, 0]"
    by (simp_all add: region_after_def region_init_def)
  ultimately show ?thesis by blast
qed

theorem region_join_complete_witness:
  "\<exists>s :: region. rg_runs s = [1, 0] \<and> set (rg_runs s) = set [0, 1 :: nat]"
proof -
  obtain s where s: "region_reach [0, 1] 0 (\<lambda>e. e) (\<lambda>_. 0) s" "rg_pc s 0 = Returned" "rg_runs s = [1, 0]"
    using example_region by blast
  have "set (rg_runs s) = set [0, 1]" using region_join_complete[OF s(1)] s(2) by simp
  then show ?thesis using s(3) by blast
qed

theorem region_post_complete_witness:
  "\<exists>s :: region. rg_post s = Some [1, 0] \<and> set [1, 0 :: nat] = set [0, 1]"
proof -
  obtain s where s: "region_reach [0, 1] 0 (\<lambda>e. e) (\<lambda>_. 0) s" "rg_post s = Some [1, 0]"
    using example_region by blast
  have "set [1, 0 :: nat] = set [0, 1]" using region_post_complete[OF s(1) _ s(2)] by simp
  then show ?thesis using s(2) by blast
qed

text \<open>
  If the thread numbered 0 is not the master the reduction can be lost: in a region of the
  executors 0, 1 and 2 called by executor 2, with the numbers \<open>kupl_parallel_for_reduce\<close> gives them,
  executor 0 can execute the post function when nobody else has run the region.
\<close>

theorem region_post_early:
  "\<exists>s. region_reach [0, 1, 2] 2 (\<lambda>e. e) flags s \<and> rg_post s = Some [0] \<and> rg_pc s 1 = Idle"
proof -
  let ?i = "region_init [0, 1, 2] flags"
  let ?a = "region_after 0 ?i"
  let ?s = "?a\<lparr>rg_post := (if (0 :: nat) = 0 then Some (rg_runs ?a) else rg_post ?a),
    rg_pc := (rg_pc ?a)(0 := Returned)\<rparr>"
  have "(region_step [0, 1, 2] 2 (\<lambda>e. e))\<^sup>*\<^sup>* ?i ?a"
    by (rule region_slave_run) (simp_all add: region_init_def barrier_notify_def)
  moreover have "(region_step [0, 1, 2] 2 (\<lambda>e. e))\<^sup>*\<^sup>* ?a ?s"
    by (rule region_post_step[where tid = "\<lambda>e. e"]) (simp_all add: region_after_def)
  ultimately have "region_reach [0, 1, 2] 2 (\<lambda>e. e) flags ?s" by (rule rtranclp_trans)
  moreover have "rg_post ?s = Some [0]" "rg_pc ?s 1 = Idle"
    by (simp_all add: region_after_def region_init_def)
  ultimately show ?thesis by blast
qed

end
