(* ===== verification/Kupl_Reduce.thy ===== *)
theory Kupl_Reduce
  imports Kupl_Taskbase
begin

text \<open>
  The reductions of \<open>src/src/mt/kupl_parallel_for.cpp\<close>: combining a value into a buffer, the private
  copies of the reduction arguments with their neutral elements, the collection of the private
  values into the shared buffers, and the validation of the arguments.  The arithmetic of the
  floating-point types is a parameter: the operations and constants of one record per type.
\<close>

section \<open>Data\<close>

definition KUPL_RD_ADD :: int where [simp]: "KUPL_RD_ADD = 0"
definition KUPL_RD_SUB :: int where [simp]: "KUPL_RD_SUB = 1"
definition KUPL_RD_MAX :: int where [simp]: "KUPL_RD_MAX = 2"
definition KUPL_RD_MIN :: int where [simp]: "KUPL_RD_MIN = 3"
definition KUPL_DATATYPE_INT :: int where [simp]: "KUPL_DATATYPE_INT = 0"
definition KUPL_DATATYPE_FLOAT :: int where [simp]: "KUPL_DATATYPE_FLOAT = 1"
definition KUPL_DATATYPE_DOUBLE :: int where [simp]: "KUPL_DATATYPE_DOUBLE = 2"
definition KUPL_DATATYPE_FLOAT_COMPLEX :: int where [simp]: "KUPL_DATATYPE_FLOAT_COMPLEX = 3"
definition KUPL_DATATYPE_DOUBLE_COMPLEX :: int where [simp]: "KUPL_DATATYPE_DOUBLE_COMPLEX = 4"
definition KUPL_RD_NUM_MAX :: int where [simp]: "KUPL_RD_NUM_MAX = 128"
definition INT_MAX :: int where "INT_MAX = 2147483647"
definition INT_MIN :: int where "INT_MIN = -2147483648"

text \<open>A cell: an \<open>int\<close>, or a value of the floating-point type with the given datatype number.\<close>

datatype 'f rd_value = Rd_Int int | Rd_Flt int 'f

record 'f float_ops =
  fo_add :: "int \<Rightarrow> 'f \<Rightarrow> 'f \<Rightarrow> 'f"
  fo_less :: "int \<Rightarrow> 'f \<Rightarrow> 'f \<Rightarrow> bool"
  fo_init :: "int \<Rightarrow> int \<Rightarrow> 'f"

record kupl_reduce_item =
  ri_buffer :: ptr
  ri_type :: int
  ri_op :: int

section \<open>Operations\<close>

text \<open>The template \<open>reduce_buffer\<close>; an option that is not supported leaves the buffer alone.\<close>

definition reduce_buffer :: "('a \<Rightarrow> 'a \<Rightarrow> 'a) \<Rightarrow> ('a \<Rightarrow> 'a \<Rightarrow> bool) \<Rightarrow> int \<Rightarrow> 'a \<Rightarrow> 'a \<Rightarrow> 'a" where
  "reduce_buffer add lt op buffer data =
     (if op = KUPL_RD_ADD \<or> op = KUPL_RD_SUB then add buffer data
      else if op = KUPL_RD_MAX then (if lt data buffer then buffer else data)
      else if op = KUPL_RD_MIN then (if lt buffer data then buffer else data)
      else buffer)"

definition reduce_buffer_complex :: "('a \<Rightarrow> 'a \<Rightarrow> 'a) \<Rightarrow> int \<Rightarrow> 'a \<Rightarrow> 'a \<Rightarrow> 'a" where
  "reduce_buffer_complex add op buffer data =
     (if op = KUPL_RD_ADD \<or> op = KUPL_RD_SUB then add buffer data else buffer)"

text \<open>
  One item of \<open>do_reduce\<close>.  \<open>int\<close> addition that overflows, and a cell of another type than the item
  says, are undefined (\<open>None\<close>).
\<close>

definition reduce_item :: "'f float_ops \<Rightarrow> kupl_reduce_item \<Rightarrow> 'f rd_value \<Rightarrow> 'f rd_value \<Rightarrow>
    'f rd_value option" where
  "reduce_item fo item buffer data =
     (if ri_type item = KUPL_DATATYPE_INT then
        (case (buffer, data) of
           (Rd_Int b, Rd_Int d) \<Rightarrow>
             (let r = reduce_buffer (+) (<) (ri_op item) b d
              in if INT_MIN \<le> r \<and> r \<le> INT_MAX then Some (Rd_Int r) else None)
         | _ \<Rightarrow> None)
      else if ri_type item = KUPL_DATATYPE_FLOAT \<or> ri_type item = KUPL_DATATYPE_DOUBLE then
        (case (buffer, data) of
           (Rd_Flt k b, Rd_Flt k' d) \<Rightarrow>
             (if k = ri_type item \<and> k' = k
              then Some (Rd_Flt k (reduce_buffer (fo_add fo k) (fo_less fo k) (ri_op item) b d)) else None)
         | _ \<Rightarrow> None)
      else if ri_type item = KUPL_DATATYPE_FLOAT_COMPLEX \<or> ri_type item = KUPL_DATATYPE_DOUBLE_COMPLEX then
        (case (buffer, data) of
           (Rd_Flt k b, Rd_Flt k' d) \<Rightarrow>
             (if k = ri_type item \<and> k' = k
              then Some (Rd_Flt k (reduce_buffer_complex (fo_add fo k) (ri_op item) b d)) else None)
         | _ \<Rightarrow> None)
      else Some buffer)"

text \<open>\<open>do_reduce\<close>: the items in order, with the shared buffers in memory.\<close>

fun do_reduce :: "'f float_ops \<Rightarrow> kupl_reduce_item list \<Rightarrow> 'f rd_value list \<Rightarrow> (ptr \<Rightarrow> 'f rd_value) \<Rightarrow>
    (ptr \<Rightarrow> 'f rd_value) option" where
  "do_reduce fo [] rd_data mem = Some mem"
| "do_reduce fo (item # items) [] mem = None"
| "do_reduce fo (item # items) (d # rd_data) mem =
     (case reduce_item fo item (mem (ri_buffer item)) d of
        None \<Rightarrow> None
      | Some v \<Rightarrow> do_reduce fo items rd_data (mem(ri_buffer item := v)))"

text \<open>
  The reduction storage of an executor in \<open>g_pf\<close>: the private items and values, and the number of
  items it has room for.  \<open>None\<close> is a null pointer.
\<close>

record 'f rd_slot =
  rs_items :: "kupl_reduce_item list option"
  rs_data :: "'f rd_value list option"
  rs_num_max :: int

text \<open>
  The initial value of an item, the tables \<open>INIT_INT\<close>, \<open>INIT_FLOAT\<close> and \<open>INIT_DOUBLE\<close>; \<open>old\<close> is the
  value that stays for an unknown datatype.
\<close>

definition rd_init :: "'f float_ops \<Rightarrow> kupl_reduce_item \<Rightarrow> 'f rd_value \<Rightarrow> 'f rd_value" where
  "rd_init fo item old =
     (if ri_type item = KUPL_DATATYPE_INT
      then Rd_Int (if ri_op item = KUPL_RD_MAX then INT_MIN
                   else if ri_op item = KUPL_RD_MIN then INT_MAX else 0)
      else if ri_type item \<in> {KUPL_DATATYPE_FLOAT, KUPL_DATATYPE_DOUBLE, KUPL_DATATYPE_FLOAT_COMPLEX,
                              KUPL_DATATYPE_DOUBLE_COMPLEX}
      then Rd_Flt (ri_type item) (fo_init fo (ri_type item) (ri_op item))
      else old)"

text \<open>
  \<open>kupl_reduce_args_dup_impl\<close>: \<open>addr i\<close> is the address of the private value \<open>i\<close>, \<open>okitem\<close> and
  \<open>okdata\<close> the outcomes of the allocations, \<open>junk\<close> the content of fresh memory.  The result is
  whether the private arguments could be made; the outer \<open>None\<close> is a null dereference.
\<close>

definition kupl_reduce_args_dup_impl ::
  "'f float_ops \<Rightarrow> (nat \<Rightarrow> ptr) \<Rightarrow> bool \<Rightarrow> bool \<Rightarrow> 'f rd_value \<Rightarrow> kupl_reduce_item list \<Rightarrow> 'f rd_slot \<Rightarrow>
   (bool \<times> 'f rd_slot) option" where
  "kupl_reduce_args_dup_impl fo addr okitem okdata junk items slot =
     (let rd_num = length items;
          grow = int rd_num > rs_num_max slot;
          slot = (if grow
                  then slot\<lparr>rs_items := (if okitem then Some (replicate rd_num \<lparr>ri_buffer = 0, ri_type = 0, ri_op = 0\<rparr>)
                                         else None),
                            rs_data := (if okdata then Some (replicate rd_num junk) else None),
                            rs_num_max := int rd_num\<rparr>
                  else slot)
      in if grow \<and> (rs_items slot = None \<or> rs_data slot = None)
         then Some (False, slot\<lparr>rs_items := None, rs_data := None\<rparr>)
         else (case (rs_items slot, rs_data slot) of
             (Some its, Some ds) \<Rightarrow>
               if length its < rd_num \<or> length ds < rd_num then None
               else Some (True, slot\<lparr>
                 rs_items := Some (map (\<lambda>i. (items ! i)\<lparr>ri_buffer := addr i\<rparr>) [0..<rd_num] @ drop rd_num its),
                 rs_data := Some (map (\<lambda>i. rd_init fo (items ! i) (ds ! i)) [0..<rd_num] @ drop rd_num ds)\<rparr>)
           | _ \<Rightarrow> if rd_num = 0 then Some (True, slot) else None))"

text \<open>\<open>kupl_reduce_post_func\<close> of the thread numbered 0: the values of the executors in order.\<close>

fun reduce_all :: "'f float_ops \<Rightarrow> kupl_reduce_item list \<Rightarrow> 'f rd_value list list \<Rightarrow> (ptr \<Rightarrow> 'f rd_value) \<Rightarrow>
    (ptr \<Rightarrow> 'f rd_value) option" where
  "reduce_all fo items [] mem = Some mem"
| "reduce_all fo items (d # ds) mem =
     (case do_reduce fo items d mem of None \<Rightarrow> None | Some mem \<Rightarrow> reduce_all fo items ds mem)"

definition kupl_reduce_post_func :: "'f float_ops \<Rightarrow> int \<Rightarrow> kupl_reduce_item list \<Rightarrow>
    (nat \<Rightarrow> 'f rd_slot) \<Rightarrow> nat list \<Rightarrow> (ptr \<Rightarrow> 'f rd_value) \<Rightarrow> (ptr \<Rightarrow> 'f rd_value) option" where
  "kupl_reduce_post_func fo tid shared_args g_pf eids mem =
     (if tid \<noteq> 0 then Some mem
      else if \<exists>e\<in>set eids. rs_data (g_pf e) = None then None
      else reduce_all fo shared_args (map (\<lambda>e. the (rs_data (g_pf e))) eids) mem)"

text \<open>The tests of \<open>kupl_reduce_check\<close> on the reduction arguments and the policy.\<close>

definition reduce_item_ok :: "kupl_reduce_item \<Rightarrow> bool" where
  "reduce_item_ok item \<longleftrightarrow> \<not> (ri_op item < KUPL_RD_ADD \<or> ri_op item > KUPL_RD_MIN) \<and>
     \<not> (ri_type item < KUPL_DATATYPE_INT \<or> ri_type item > KUPL_DATATYPE_DOUBLE_COMPLEX) \<and>
     \<not> ((ri_op item = KUPL_RD_MAX \<or> ri_op item = KUPL_RD_MIN) \<and>
        (ri_type item = KUPL_DATATYPE_FLOAT_COMPLEX \<or> ri_type item = KUPL_DATATYPE_DOUBLE_COMPLEX))"

definition kupl_reduce_check :: "int \<Rightarrow> int \<Rightarrow> kupl_reduce_item list option \<Rightarrow> int" where
  "kupl_reduce_check policy num items =
     (if num \<le> 0 \<or> num > KUPL_RD_NUM_MAX \<or> items = None then KUPL_ERROR
      else if \<not> (policy = 0 \<or> policy = 1 \<or> policy = 2) then KUPL_ERROR
      else if \<not> list_all reduce_item_ok (take (nat num) (the items)) then KUPL_ERROR
      else KUPL_OK)"

section \<open>Correctness on integers\<close>

abbreviation int_op :: "int \<Rightarrow> int \<Rightarrow> int \<Rightarrow> int" where
  "int_op op \<equiv> reduce_buffer (+) (<) op"

lemma int_op_max: "int_op KUPL_RD_MAX a b = max a b" and int_op_min: "int_op KUPL_RD_MIN a b = min a b"
  by (simp_all add: reduce_buffer_def max_def min_def)

text \<open>The initial private value is neutral.\<close>

lemma rd_init_neutral:
  assumes "ri_type item = KUPL_DATATYPE_INT" and "0 \<le> ri_op item" "ri_op item \<le> 3"
    and "INT_MIN \<le> x" "x \<le> INT_MAX"
  shows "\<exists>k. rd_init fo item old = Rd_Int k \<and> int_op (ri_op item) k x = x"
proof -
  consider "ri_op item = 0" | "ri_op item = 1" | "ri_op item = 2" | "ri_op item = 3"
    using assms(2,3) by linarith
  then show ?thesis
    by cases (use assms in \<open>simp_all add: rd_init_def reduce_buffer_def\<close>)
qed

section \<open>The result of a reduction\<close>

text \<open>
  What a reduction is to compute: on integers the sum, the greatest or the least of all values; on
  the floating-point types, whose addition is not associative, the values are added or compared
  one after the other.
\<close>

fun int_of :: "'f rd_value \<Rightarrow> int" where "int_of (Rd_Int x) = x" | "int_of (Rd_Flt k x) = 0"
fun flt_of :: "'f \<Rightarrow> 'f rd_value \<Rightarrow> 'f" where "flt_of y (Rd_Int x) = y" | "flt_of y (Rd_Flt k x) = x"

definition reduction :: "'f float_ops \<Rightarrow> int \<Rightarrow> 'f rd_value \<Rightarrow> 'f rd_value list \<Rightarrow> 'f rd_value" where
  "reduction fo op c ds =
     (case c of
        Rd_Int x \<Rightarrow> Rd_Int (if op = KUPL_RD_MAX then Max (insert x (int_of ` set ds))
                          else if op = KUPL_RD_MIN then Min (insert x (int_of ` set ds))
                          else x + sum_list (map int_of ds))
      | Rd_Flt k x \<Rightarrow> Rd_Flt k (foldl
          (\<lambda>a b. if op = KUPL_RD_MAX then (if fo_less fo k b a then a else b)
                 else if op = KUPL_RD_MIN then (if fo_less fo k a b then a else b)
                 else fo_add fo k a b) x (map (flt_of x) ds)))"

text \<open>A cell with a value of the given datatype.\<close>

definition cell_of :: "int \<Rightarrow> 'f rd_value \<Rightarrow> bool" where
  "cell_of ty c = (case c of
       Rd_Int x \<Rightarrow> ty = KUPL_DATATYPE_INT \<and> INT_MIN \<le> x \<and> x \<le> INT_MAX
     | Rd_Flt k x \<Rightarrow> k = ty \<and> ty \<noteq> KUPL_DATATYPE_INT)"

text \<open>The \<open>int\<close> sums that arise on the way are representable.\<close>

definition sums_fit :: "kupl_reduce_item \<Rightarrow> 'f rd_value \<Rightarrow> 'f rd_value list \<Rightarrow> bool" where
  "sums_fit item c ds \<longleftrightarrow>
     (ri_type item = KUPL_DATATYPE_INT \<and> (ri_op item = KUPL_RD_ADD \<or> ri_op item = KUPL_RD_SUB) \<longrightarrow>
        (\<forall>k \<le> length ds. INT_MIN \<le> int_of c + sum_list (map int_of (take k ds)) \<and>
                         int_of c + sum_list (map int_of (take k ds)) \<le> INT_MAX))"

lemma reduction_Nil: "reduction fo op c [] = c"
  by (cases c) (simp_all add: reduction_def)

lemma reduction_Cons:
  assumes "reduction fo op c [d] = c'" "cell_of ty c" "cell_of ty d" "\<forall>e \<in> set ds. cell_of ty e"
  shows "reduction fo op c (d # ds) = reduction fo op c' ds"
proof (cases c)
  case (Rd_Int x)
  have "Max (insert x (insert y S)) = Max (insert (max x y) S)"
    "Min (insert x (insert y S)) = Min (insert (min x y) S)" if "finite S" for y and S :: "int set"
  proof -
    show "Max (insert x (insert y S)) = Max (insert (max x y) S)"
      using that by (cases "S = {}") (simp_all add: max.assoc)
    show "Min (insert x (insert y S)) = Min (insert (min x y) S)"
      using that by (cases "S = {}") (simp_all add: min.assoc)
  qed
  thus ?thesis using assms(1) Rd_Int by (auto simp: reduction_def)
next
  case (Rd_Flt k x)
  have m: "map (flt_of x) ds = map (flt_of x') ds" for x'
  proof (rule map_cong[OF refl])
    fix e assume "e \<in> set ds"
    hence "cell_of ty e" using assms(4) by blast
    moreover have "ty \<noteq> 0" using assms(2) Rd_Flt by (simp add: cell_of_def)
    ultimately show "flt_of x e = flt_of x' e" by (cases e rule: rd_value.exhaust) (simp_all add: cell_of_def)
  qed
  let ?F = "\<lambda>a b. if op = KUPL_RD_MAX then (if fo_less fo k b a then a else b)
                 else if op = KUPL_RD_MIN then (if fo_less fo k a b then a else b)
                 else fo_add fo k a b"
  let ?z = "?F x (flt_of x d)"
  have "c' = Rd_Flt k ?z" using assms(1) by (simp add: reduction_def Rd_Flt)
  moreover have "reduction fo op c (d # ds) = Rd_Flt k (foldl ?F ?z (map (flt_of x) ds))"
    unfolding reduction_def Rd_Flt rd_value.case list.map foldl_Cons ..
  moreover have "reduction fo op (Rd_Flt k ?z) ds = Rd_Flt k (foldl ?F ?z (map (flt_of ?z) ds))"
    unfolding reduction_def rd_value.case ..
  ultimately show ?thesis using m[of ?z] by metis
qed

lemma reduction_cell:
  assumes "cell_of ty c" "cell_of ty d" "sums_fit item c [d]" "ri_type item = ty" "0 \<le> ri_op item" "ri_op item \<le> 3"
  shows "cell_of ty (reduction fo (ri_op item) c [d])"
proof -
  have "ri_op item = 0 \<or> ri_op item = 1 \<or> ri_op item = 2 \<or> ri_op item = 3" using assms(5,6) by linarith
  thus ?thesis using assms(1-4)
    by (auto simp: cell_of_def reduction_def sums_fit_def max_def min_def split: rd_value.splits
        dest: spec[of _ 1])
qed

lemma reduce_item_reduction:
  assumes "reduce_item_ok item" and "cell_of (ri_type item) c" "cell_of (ri_type item) d" "sums_fit item c [d]"
  shows "reduce_item fo item c d = Some (reduction fo (ri_op item) c [d])"
proof (cases c)
  case (Rd_Int x)
  have ty: "ri_type item = 0" using assms(2) Rd_Int by (simp add: cell_of_def)
  obtain y where d: "d = Rd_Int y" "ri_type item = 0"
    using assms(3) ty by (cases d rule: rd_value.exhaust) (simp_all add: cell_of_def)
  have r: "INT_MIN \<le> x \<and> x \<le> INT_MAX \<and> INT_MIN \<le> y \<and> y \<le> INT_MAX"
    using assms(2,3) Rd_Int d by (simp add: cell_of_def)
  have sum: "INT_MIN \<le> x + y \<and> x + y \<le> INT_MAX" if "ri_op item = 0 \<or> ri_op item = 1"
    using assms(4) that d Rd_Int by (auto simp: sums_fit_def dest: spec[of _ 1])
  consider "ri_op item = 0" | "ri_op item = 1" | "ri_op item = 2" | "ri_op item = 3"
    using assms(1) by (force simp: reduce_item_ok_def)
  thus ?thesis
    by cases (use r sum d Rd_Int in \<open>simp_all add: reduce_item_def reduction_def reduce_buffer_def max_def min_def\<close>)
next
  case (Rd_Flt k x)
  have ty: "ri_type item = k" "k \<noteq> 0" using assms(2) Rd_Flt by (simp_all add: cell_of_def)
  obtain y where d: "d = Rd_Flt k y" "ri_type item = k" "k \<noteq> 0"
    using assms(3) ty by (cases d rule: rd_value.exhaust) (simp_all add: cell_of_def)
  consider "k = 1 \<or> k = 2" | "k = 3 \<or> k = 4"
    using assms(1) d by (force simp: reduce_item_ok_def)
  thus ?thesis
  proof cases
    case 1
    consider "ri_op item = 0" | "ri_op item = 1" | "ri_op item = 2" | "ri_op item = 3"
      using assms(1) by (force simp: reduce_item_ok_def)
    thus ?thesis
      by cases (use 1 d Rd_Flt in \<open>auto simp: reduce_item_def reduction_def reduce_buffer_def\<close>)
  next
    case 2
    consider "ri_op item = 0" | "ri_op item = 1"
      using assms(1) 2 d(2) by (force simp: reduce_item_ok_def)
    thus ?thesis
      by cases (use 2 d Rd_Flt in \<open>auto simp: reduce_item_def reduction_def reduce_buffer_complex_def\<close>)
  qed
qed

lemma do_reduce_reduction:
  assumes "distinct (map ri_buffer items)" and "length items \<le> length d"
    and "\<forall>i<length items. reduce_item_ok (items ! i) \<and> cell_of (ri_type (items ! i)) (mem (ri_buffer (items ! i))) \<and>
      cell_of (ri_type (items ! i)) (d ! i) \<and> sums_fit (items ! i) (mem (ri_buffer (items ! i))) [d ! i]"
  shows "\<exists>mem'. do_reduce fo items d mem = Some mem' \<and>
    (\<forall>i<length items. mem' (ri_buffer (items ! i)) =
       reduction fo (ri_op (items ! i)) (mem (ri_buffer (items ! i))) [d ! i]) \<and>
    (\<forall>p. p \<notin> ri_buffer ` set items \<longrightarrow> mem' p = mem p)"
  using assms
proof (induction items arbitrary: d mem)
  case Nil
  then show ?case by simp
next
  case (Cons item items)
  then obtain y ys where d: "d = y # ys" by (cases d) auto
  let ?v = "reduction fo (ri_op item) (mem (ri_buffer item)) [y]"
  let ?m = "mem(ri_buffer item := ?v)"
  have first: "reduce_item fo item (mem (ri_buffer item)) y = Some ?v"
    using Cons.prems(3)[rule_format, of 0] d by (intro reduce_item_reduction) simp_all
  have fresh: "ri_buffer item \<notin> ri_buffer ` set items" and dist: "distinct (map ri_buffer items)"
    using Cons.prems(1) by auto
  have ne: "ri_buffer (items ! i) \<noteq> ri_buffer item" if "i < length items" for i
    using fresh that by (metis image_eqI nth_mem)
  have "\<forall>i<length items. reduce_item_ok (items ! i) \<and> cell_of (ri_type (items ! i)) (?m (ri_buffer (items ! i))) \<and>
      cell_of (ri_type (items ! i)) (ys ! i) \<and> sums_fit (items ! i) (?m (ri_buffer (items ! i))) [ys ! i]"
    (is ?ready)
  proof (intro allI impI)
    fix i assume i: "i < length items"
    show "reduce_item_ok (items ! i) \<and> cell_of (ri_type (items ! i)) (?m (ri_buffer (items ! i))) \<and>
      cell_of (ri_type (items ! i)) (ys ! i) \<and> sums_fit (items ! i) (?m (ri_buffer (items ! i))) [ys ! i]"
      using Cons.prems(3)[rule_format, of "Suc i"] i ne[OF i] d by simp
  qed
  have "length items \<le> length ys" using Cons.prems(2) d by simp
  from Cons.IH[OF dist this \<open>?ready\<close>] obtain mem' where m: "do_reduce fo items ys ?m = Some mem'"
    "\<forall>i<length items. mem' (ri_buffer (items ! i)) =
       reduction fo (ri_op (items ! i)) (?m (ri_buffer (items ! i))) [ys ! i]"
    "\<forall>p. p \<notin> ri_buffer ` set items \<longrightarrow> mem' p = ?m p"
    by blast
  have "mem' (ri_buffer ((item # items) ! i)) =
      reduction fo (ri_op ((item # items) ! i)) (mem (ri_buffer ((item # items) ! i))) [d ! i]"
    if "i < length (item # items)" for i
    using m(2,3) ne fresh d that by (cases i) auto
  thus ?case using m(1,3) first d by auto
qed

lemma sums_fit_split:
  assumes "sums_fit item c (d # ds)" "cell_of (ri_type item) c" "cell_of (ri_type item) d"
  shows "sums_fit item c [d]" "sums_fit item (reduction fo (ri_op item) c [d]) ds"
proof -
  let ?P = "\<lambda>x. INT_MIN \<le> x \<and> x \<le> INT_MAX"
  have f: "?P (int_of c + sum_list (map int_of (take k (d # ds))))"
    if "ri_type item = 0" "ri_op item = 0 \<or> ri_op item = 1" "k \<le> Suc (length ds)" for k
    using assms(1) that by (simp add: sums_fit_def)
  show "sums_fit item c [d]"
    unfolding sums_fit_def
  proof (intro impI allI)
    fix k
    assume "ri_type item = KUPL_DATATYPE_INT \<and> (ri_op item = KUPL_RD_ADD \<or> ri_op item = KUPL_RD_SUB)"
      and k: "k \<le> length [d]"
    hence "?P (int_of c + sum_list (map int_of (take k (d # ds))))" by (intro f) auto
    moreover have "take k (d # ds) = take k [d]" using k by (cases k) auto
    ultimately show "?P (int_of c + sum_list (map int_of (take k [d])))" by metis
  qed
  have i: "int_of (reduction fo (ri_op item) c [d]) = int_of c + int_of d"
    if "ri_type item = 0" "ri_op item = 0 \<or> ri_op item = 1"
    using that assms(2,3) by (cases c; cases d) (auto simp: reduction_def cell_of_def)
  show "sums_fit item (reduction fo (ri_op item) c [d]) ds"
    unfolding sums_fit_def
  proof (intro impI allI)
    fix k
    assume t: "ri_type item = KUPL_DATATYPE_INT \<and> (ri_op item = KUPL_RD_ADD \<or> ri_op item = KUPL_RD_SUB)"
      and k: "k \<le> length ds"
    have "?P (int_of c + sum_list (map int_of (take (Suc k) (d # ds))))" by (rule f) (use t k in auto)
    thus "?P (int_of (reduction fo (ri_op item) c [d]) + sum_list (map int_of (take k ds)))"
      using i t by (simp add: add.assoc)
  qed
qed

lemma reduce_all_reduction:
  assumes "distinct (map ri_buffer items)" and "\<forall>i<length items. reduce_item_ok (items ! i)"
    and "\<forall>d\<in>set ds. length items \<le> length d"
    and "\<forall>i<length items. cell_of (ri_type (items ! i)) (mem (ri_buffer (items ! i))) \<and>
      (\<forall>d\<in>set ds. cell_of (ri_type (items ! i)) (d ! i)) \<and>
      sums_fit (items ! i) (mem (ri_buffer (items ! i))) (map (\<lambda>d. d ! i) ds)"
  shows "\<exists>mem'. reduce_all fo items ds mem = Some mem' \<and>
    (\<forall>i<length items. mem' (ri_buffer (items ! i)) =
       reduction fo (ri_op (items ! i)) (mem (ri_buffer (items ! i))) (map (\<lambda>d. d ! i) ds)) \<and>
    (\<forall>p. p \<notin> ri_buffer ` set items \<longrightarrow> mem' p = mem p)"
  using assms(3,4)
proof (induction ds arbitrary: mem)
  case Nil
  then show ?case by (simp add: reduction_Nil)
next
  case (Cons d ds)
  let ?c = "\<lambda>i. mem (ri_buffer (items ! i))"
  have here: "reduce_item_ok (items ! i) \<and> cell_of (ri_type (items ! i)) (?c i) \<and> cell_of (ri_type (items ! i)) (d ! i) \<and>
      sums_fit (items ! i) (?c i) [d ! i]"
    and later: "sums_fit (items ! i) (reduction fo (ri_op (items ! i)) (?c i) [d ! i]) (map (\<lambda>d. d ! i) ds)"
    if i: "i < length items" for i
    using Cons.prems(2)[rule_format, OF i] assms(2) i
      sums_fit_split[of "items ! i" "?c i" "d ! i" "map (\<lambda>d. d ! i) ds"] by auto
  obtain m where m: "do_reduce fo items d mem = Some m"
    "\<forall>i<length items. m (ri_buffer (items ! i)) = reduction fo (ri_op (items ! i)) (?c i) [d ! i]"
    "\<forall>p. p \<notin> ri_buffer ` set items \<longrightarrow> m p = mem p"
    using do_reduce_reduction[OF assms(1), of d mem fo] Cons.prems(1) here by auto
  have ok: "cell_of (ri_type (items ! i)) (reduction fo (ri_op (items ! i)) (?c i) [d ! i])"
    if i: "i < length items" for i
  proof (rule reduction_cell)
    show "0 \<le> ri_op (items ! i)" "ri_op (items ! i) \<le> 3" using here[OF i] by (auto simp: reduce_item_ok_def)
  qed (use here[OF i] in auto)
  have "\<forall>i<length items. cell_of (ri_type (items ! i)) (m (ri_buffer (items ! i))) \<and>
      (\<forall>d\<in>set ds. cell_of (ri_type (items ! i)) (d ! i)) \<and>
      sums_fit (items ! i) (m (ri_buffer (items ! i))) (map (\<lambda>d. d ! i) ds)" (is ?ready)
    using ok later m(2) Cons.prems(2) by simp
  have "\<forall>d\<in>set ds. length items \<le> length d" using Cons.prems(1) by simp
  from Cons.IH[OF this \<open>?ready\<close>] obtain mem' where r: "reduce_all fo items ds m = Some mem'"
    "\<forall>i<length items. mem' (ri_buffer (items ! i)) =
       reduction fo (ri_op (items ! i)) (m (ri_buffer (items ! i))) (map (\<lambda>d. d ! i) ds)"
    "\<forall>p. p \<notin> ri_buffer ` set items \<longrightarrow> mem' p = m p" by blast
  have "reduction fo (ri_op (items ! i)) (?c i) (map (\<lambda>d. d ! i) (d # ds)) =
      reduction fo (ri_op (items ! i)) (m (ri_buffer (items ! i))) (map (\<lambda>d. d ! i) ds)"
    if i: "i < length items" for i
    using reduction_Cons[of fo "ri_op (items ! i)" "?c i" "d ! i" _ "ri_type (items ! i)" "map (\<lambda>d. d ! i) ds"]
      here[OF i] Cons.prems(2) i m(2) by auto
  thus ?case using m(1,3) r by auto
qed

section \<open>Properties\<close>

text \<open>
  C26: A reduction combines all contributions.  For items of any datatype and operation that the check
  accepts, with distinct buffers, the post function ends and leaves in every shared buffer its old
  value combined with the private values of all executors of the team: their sum, the greatest or
  the least value for \<open>int\<close>, and for the floating-point types the value that adding or comparing
  one after the other gives; nothing else changes.  The buffers hold values of the types of their
  items, and the \<open>int\<close> sums on the way have to be representable.
\<close>

theorem reduce_post_folds:
  assumes "kupl_reduce_check policy (int (length items)) (Some items) = KUPL_OK"
    and "distinct (map ri_buffer items)"
    and "\<forall>e\<in>set eids. rs_data (g_pf e) = Some (v e) \<and> length items \<le> length (v e)"
    and "\<forall>i<length items. cell_of (ri_type (items ! i)) (mem (ri_buffer (items ! i))) \<and>
      (\<forall>e\<in>set eids. cell_of (ri_type (items ! i)) (v e ! i)) \<and>
      sums_fit (items ! i) (mem (ri_buffer (items ! i))) (map (\<lambda>e. v e ! i) eids)"
  shows "\<exists>mem'. kupl_reduce_post_func fo 0 items g_pf eids mem = Some mem' \<and>
    (\<forall>i<length items. mem' (ri_buffer (items ! i)) =
       reduction fo (ri_op (items ! i)) (mem (ri_buffer (items ! i))) (map (\<lambda>e. v e ! i) eids)) \<and>
    (\<forall>p. p \<notin> ri_buffer ` set items \<longrightarrow> mem' p = mem p)"
proof -
  have "list_all reduce_item_ok items" using assms(1) by (simp add: kupl_reduce_check_def split: if_splits)
  hence ok: "\<forall>i<length items. reduce_item_ok (items ! i)" by (simp add: list_all_length)
  have data: "map (\<lambda>e. the (rs_data (g_pf e))) eids = map v eids" "\<not> (\<exists>e\<in>set eids. rs_data (g_pf e) = None)"
    using assms(3) by auto
  have "\<exists>mem'. reduce_all fo items (map v eids) mem = Some mem' \<and>
    (\<forall>i<length items. mem' (ri_buffer (items ! i)) =
       reduction fo (ri_op (items ! i)) (mem (ri_buffer (items ! i))) (map (\<lambda>d. d ! i) (map v eids))) \<and>
    (\<forall>p. p \<notin> ri_buffer ` set items \<longrightarrow> mem' p = mem p)"
    by (rule reduce_all_reduction[OF assms(2) ok]) (use assms(3,4) in \<open>auto simp: o_def\<close>)
  thus ?thesis unfolding kupl_reduce_post_func_def data(1) using data(2) by (simp add: o_def)
qed

definition no_floats :: "unit float_ops" where
  "no_floats = \<lparr>fo_add = (\<lambda>_ _ _. ()), fo_less = (\<lambda>_ _ _. False), fo_init = (\<lambda>_ _. ())\<rparr>"

definition example_items :: "kupl_reduce_item list" where
  "example_items = [\<lparr>ri_buffer = 100, ri_type = KUPL_DATATYPE_INT, ri_op = KUPL_RD_ADD\<rparr>,
                    \<lparr>ri_buffer = 104, ri_type = KUPL_DATATYPE_INT, ri_op = KUPL_RD_MAX\<rparr>]"

theorem reduce_post_folds_witness:
  "\<exists>mem'. kupl_reduce_post_func no_floats 0 example_items
      (\<lambda>e. \<lparr>rs_items = None, rs_data = Some [Rd_Int (int e + 1), Rd_Int (10 * int e)], rs_num_max = 2\<rparr>) [0, 1, 2]
      (\<lambda>p. if p = 100 then Rd_Int 7 else Rd_Int 5) = Some mem' \<and>
    mem' 100 = Rd_Int 13 \<and> mem' 104 = Rd_Int 20"
proof -
  let ?v = "\<lambda>e. [Rd_Int (int e + 1), Rd_Int (10 * int e)]"
  let ?g = "\<lambda>e. \<lparr>rs_items = None, rs_data = Some (?v e), rs_num_max = 2\<rparr>"
  let ?m = "\<lambda>p. if p = 100 then Rd_Int 7 else Rd_Int 5"
  have c: "kupl_reduce_check 0 (int (length example_items)) (Some example_items) = KUPL_OK"
    by (simp add: kupl_reduce_check_def example_items_def reduce_item_ok_def)
  have "\<exists>mem'. kupl_reduce_post_func no_floats 0 example_items ?g [0, 1, 2] ?m = Some mem' \<and>
    (\<forall>i<length example_items. mem' (ri_buffer (example_items ! i)) =
       reduction no_floats (ri_op (example_items ! i)) (?m (ri_buffer (example_items ! i)))
         (map (\<lambda>e. ?v e ! i) [0, 1, 2])) \<and>
    (\<forall>p. p \<notin> ri_buffer ` set example_items \<longrightarrow> mem' p = ?m p)"
    by (rule reduce_post_folds[OF c])
      (auto simp: example_items_def less_Suc_eq cell_of_def sums_fit_def INT_MIN_def INT_MAX_def le_Suc_eq numeral_3_eq_3)
  thus ?thesis
    by (auto simp: example_items_def reduction_def less_Suc_eq dest: spec[of _ 0] spec[of _ 1])
qed

text \<open>
  Setting up the private arguments succeeds exactly when the slot has room or both allocations
  succeed; the private integer values are then neutral: combining the first contribution with them
  gives the contribution.
\<close>

theorem reduce_args_dup_neutral:
  assumes "kupl_reduce_check policy (int (length items)) (Some items) = KUPL_OK"
    and "int (length items) > rs_num_max slot"
  shows "\<exists>slot'. kupl_reduce_args_dup_impl fo addr okitem okdata junk items slot =
      Some (okitem \<and> okdata, slot') \<and>
    (okitem \<and> okdata \<longrightarrow> (\<exists>ds. rs_data slot' = Some ds \<and> length ds = length items \<and>
       (\<forall>i<length items. ri_type (items ! i) = KUPL_DATATYPE_INT \<longrightarrow>
          (\<exists>k. ds ! i = Rd_Int k \<and>
            (\<forall>x. INT_MIN \<le> x \<and> x \<le> INT_MAX \<longrightarrow> int_op (ri_op (items ! i)) k x = x)))))"
proof (cases "okitem \<and> okdata")
  case False
  then show ?thesis using assms(2)
    by (auto simp: kupl_reduce_args_dup_impl_def Let_def)
next
  case True
  define ds where "ds = map (\<lambda>i. rd_init fo (items ! i) (replicate (length items) junk ! i)) [0..<length items]"
  have "list_all reduce_item_ok items" using assms(1) by (simp add: kupl_reduce_check_def split: if_splits)
  then have ops: "0 \<le> ri_op (items ! i) \<and> ri_op (items ! i) \<le> 3" if "i < length items" for i
    using that by (auto simp: list_all_length reduce_item_ok_def not_less)
  have "\<exists>k. ds ! i = Rd_Int k \<and> (\<forall>x. INT_MIN \<le> x \<and> x \<le> INT_MAX \<longrightarrow> int_op (ri_op (items ! i)) k x = x)"
    if i: "i < length items" "ri_type (items ! i) = KUPL_DATATYPE_INT" for i
  proof -
    have "\<exists>k. rd_init fo (items ! i) junk = Rd_Int k" using i(2) by (simp add: rd_init_def)
    then obtain k where k: "rd_init fo (items ! i) junk = Rd_Int k" by blast
    have "int_op (ri_op (items ! i)) k x = x" if "INT_MIN \<le> x \<and> x \<le> INT_MAX" for x
      using rd_init_neutral[OF i(2), of x fo junk] ops[OF i(1)] that k by auto
    then show ?thesis using k i(1) by (simp add: ds_def)
  qed
  then show ?thesis using True assms(2)
    by (auto simp: kupl_reduce_args_dup_impl_def Let_def ds_def)
qed

theorem reduce_args_dup_neutral_witness:
  "\<exists>slot'. kupl_reduce_args_dup_impl no_floats (\<lambda>i. 500 + i) True True (Rd_Int 9) example_items
      \<lparr>rs_items = None, rs_data = None, rs_num_max = 0\<rparr> = Some (True, slot')"
proof -
  have "kupl_reduce_check 0 (int (length example_items)) (Some example_items) = KUPL_OK"
    by (simp add: kupl_reduce_check_def example_items_def reduce_item_ok_def)
  from reduce_args_dup_neutral[OF this, of "\<lparr>rs_items = None, rs_data = None, rs_num_max = 0\<rparr>"
      no_floats "\<lambda>i. 500 + i" True True "Rd_Int 9"]
  show ?thesis by (auto simp: example_items_def)
qed

text \<open>
  A failed allocation poisons the slot: the room is recorded before the allocations are tested,
  so the next reduction with as many items writes through the null pointers.
\<close>

theorem reduce_args_dup_null_after_failure:
  assumes "items \<noteq> []" and "int (length items) > rs_num_max slot" and "\<not> (okitem \<and> okdata)"
    and "kupl_reduce_args_dup_impl fo addr okitem okdata junk items slot = Some (ok, slot')"
  shows "\<not> ok \<and> kupl_reduce_args_dup_impl fo addr True True junk items slot' = None"
  using assms by (auto simp: kupl_reduce_args_dup_impl_def Let_def)

theorem reduce_args_dup_null_after_failure_witness:
  "kupl_reduce_args_dup_impl no_floats (\<lambda>i. 500 + i) True True (Rd_Int 9) example_items
     \<lparr>rs_items = None, rs_data = None, rs_num_max = 2\<rparr> = None"
proof -
  let ?s = "\<lparr>rs_items = None, rs_data = None, rs_num_max = 0\<rparr> :: unit rd_slot"
  have "kupl_reduce_args_dup_impl no_floats (\<lambda>i. 500 + i) True False (Rd_Int 9) example_items ?s =
      Some (False, \<lparr>rs_items = None, rs_data = None, rs_num_max = 2\<rparr>)"
    by (simp add: kupl_reduce_args_dup_impl_def example_items_def)
  from reduce_args_dup_null_after_failure[OF _ _ _ this] show ?thesis by (simp add: example_items_def)
qed

text \<open>
  A nested reduction on the same executor destroys the partial result of the enclosing one: it
  uses the same slot, so after it set up its private arguments the slot holds initial values
  whatever had been accumulated.
\<close>

theorem nested_reduce_clobbers:
  assumes "rs_items slot = Some its" and "length its = length items"
    and "length ds = length items" and "int (length items) \<le> rs_num_max slot"
    and "\<forall>i<length items. ri_type (items ! i) = KUPL_DATATYPE_INT"
  shows "\<exists>slot'. kupl_reduce_args_dup_impl fo addr okitem okdata junk items (slot\<lparr>rs_data := Some ds\<rparr>) =
      Some (True, slot') \<and>
    rs_data slot' = Some (map (\<lambda>item. rd_init fo item junk) items)"
proof -
  have "map (\<lambda>i. rd_init fo (items ! i) (ds ! i)) [0..<length items] = map (\<lambda>item. rd_init fo item junk) items"
    by (rule nth_equalityI) (use assms(5) in \<open>simp_all add: rd_init_def\<close>)
  then show ?thesis using assms(1-4) by (simp add: kupl_reduce_args_dup_impl_def Let_def)
qed

theorem nested_reduce_clobbers_witness:
  "\<exists>slot'. kupl_reduce_args_dup_impl no_floats (\<lambda>i. 500 + i) True True (Rd_Int 9) example_items
      \<lparr>rs_items = Some example_items, rs_data = Some [Rd_Int 42, Rd_Int 43], rs_num_max = 2\<rparr> =
      Some (True, slot') \<and> rs_data slot' = Some [Rd_Int 0, Rd_Int INT_MIN]"
proof -
  have "\<exists>slot'. kupl_reduce_args_dup_impl no_floats (\<lambda>i. 500 + i) True True (Rd_Int 9) example_items
      (\<lparr>rs_items = Some example_items, rs_data = None, rs_num_max = 2\<rparr>\<lparr>rs_data := Some [Rd_Int 42, Rd_Int 43]\<rparr>) =
      Some (True, slot') \<and> rs_data slot' = Some (map (\<lambda>item. rd_init no_floats item (Rd_Int 9)) example_items)"
    by (rule nested_reduce_clobbers) (auto simp: example_items_def less_Suc_eq)
  then show ?thesis by (simp add: example_items_def rd_init_def)
qed

end
