(* ===== verification/Kupl_Parallel_For.thy ===== *)
theory Kupl_Parallel_For
  imports Kupl_Policy Kupl_Flag_Barrier Kupl_Reduce
begin

text \<open>
  The entry points of \<open>src/src/mt/kupl_parallel_for.cpp\<close>: validation of the description, the choice
  of the group and of the number of threads, and the way the region is executed (inline, as tasks,
  by OpenMP, or as a region of executors), with the share of the loop that every executor gets.
\<close>

section \<open>Descriptions\<close>

unbundle bit_operations_syntax

record kupl_parallel_for_desc =
  pd_field_mask :: u64
  pd_range :: "kupl_nd_range option"
  pd_egroup :: "kupl_egroup option"
  pd_concurrency :: int
  pd_policy :: int

definition KUPL_CONCURRENCY_DEFAULT :: int where [simp]: "KUPL_CONCURRENCY_DEFAULT = -1"
definition KUPL_PARALLEL_FOR_DESC_FIELD_DEFAULT :: u64 where "KUPL_PARALLEL_FOR_DESC_FIELD_DEFAULT = 15"

text \<open>
  The state the entry points read: the thread's executor id and nesting level, the settings, the
  current group and the table of the default groups, of which entry \<open>n\<close> holds the executors \<open>0\<close>
  to \<open>n - 1\<close>.
\<close>

record pf_env =
  pe_inited :: bool
  pe_num_executors :: int
  pe_concurrency_default :: int
  pe_concurrency_inner :: int
  pe_pf_num_thread :: int
  pe_active_levels :: int
  pe_max_active_levels :: int
  pe_expand :: bool
  pe_omp :: bool
  pe_geid :: int
  pe_current_tb :: bool
  pe_current_egroup :: "kupl_egroup option"
  pe_egroups :: "int \<Rightarrow> kupl_egroup option"

text \<open>\<open>kupl_get_global_egroup\<close>: the table entry, created on the first use.\<close>

definition kupl_get_global_egroup :: "bool \<Rightarrow> bool \<Rightarrow> bool \<Rightarrow> int \<Rightarrow> int \<Rightarrow> pf_env \<Rightarrow>
    (kupl_egroup option \<times> pf_env) option" where
  "kupl_get_global_egroup allocok barok lockok max_size num_threads env =
     (if num_threads < 1 \<or> num_threads > pe_pf_num_thread env then Some (None, env)
      else if pe_egroups env num_threads \<noteq> None then Some (pe_egroups env num_threads, env)
      else map_option (\<lambda>g. (g, env\<lparr>pe_egroups := (pe_egroups env)(num_threads := g)\<rparr>))
             (kupl_egroup_create True (pe_num_executors env) (pe_geid env) max_size allocok barok lockok
                (Some [0..num_threads - 1]) num_threads))"

section \<open>Validation\<close>

text \<open>\<open>kupl_parallel_for_check\<close>: the status and the description with its defaults filled in.\<close>

definition kupl_parallel_for_check :: "pf_env \<Rightarrow> bool \<Rightarrow> kupl_parallel_for_desc option \<Rightarrow>
    (int \<times> kupl_parallel_for_desc option) option" where
  "kupl_parallel_for_check env func desc =
     (case desc of
        None \<Rightarrow> Some (KUPL_ERROR, None)
      | Some d \<Rightarrow>
          (if \<not> func \<or> pd_field_mask d AND KUPL_PARALLEL_FOR_DESC_FIELD_DEFAULT \<noteq>
                       KUPL_PARALLEL_FOR_DESC_FIELD_DEFAULT
           then Some (KUPL_ERROR, Some d)
           else
             (case (case pd_range d of
                      None \<Rightarrow> Some (True, d)
                    | Some rng \<Rightarrow>
                        (if pd_policy d = KUPL_LOOP_POLICY_TASK \<and> nr_dim rng \<noteq> 1 \<or>
                            \<not> (pd_policy d = KUPL_LOOP_POLICY_STATIC \<or> pd_policy d = KUPL_LOOP_POLICY_DYNAMIC \<or>
                               pd_policy d = KUPL_LOOP_POLICY_TASK)
                         then Some (False, d)
                         else map_option (\<lambda>(st, rng). (st = KUPL_OK, d\<lparr>pd_range := Some rng\<rparr>))
                                (kupl_check_range rng (pd_policy d)))) of
                None \<Rightarrow> None
              | Some (ok, d) \<Rightarrow>
                  Some (if \<not> ok then (KUPL_ERROR, Some d)
                        else if \<exists>g. pd_egroup d = Some g \<and> ei_size (eg_cur g) = 0 then (KUPL_ERROR, Some d)
                        else if pd_concurrency d = KUPL_CONCURRENCY_DEFAULT
                        then (KUPL_OK, Some (d\<lparr>pd_concurrency := pe_concurrency_default env\<rparr>))
                        else if pd_concurrency d \<le> 0 \<or> pd_concurrency d > pe_num_executors env
                        then (KUPL_ERROR, Some d)
                        else (KUPL_OK, Some d)))))"

section \<open>Threads and group\<close>

definition dim_blocks :: "kupl_range \<Rightarrow> int" where
  "dim_blocks r =
     (if r_lower r < r_upper r then kupl_divup (r_upper r - r_lower r) (r_blocksize r * r_step r)
      else kupl_divup (r_lower r - r_upper r) (- r_blocksize r * r_step r))"

definition kupl_parallel_for_num_threads :: "pf_env \<Rightarrow> kupl_parallel_for_desc \<Rightarrow> kupl_egroup option \<Rightarrow> int" where
  "kupl_parallel_for_num_threads env desc egroup =
     (let num_threads = pd_concurrency desc;
          num_threads = (case pd_range desc of
              None \<Rightarrow> num_threads
            | Some rng \<Rightarrow>
                (let total_chunks = fold (\<lambda>r n. n * dim_blocks r) (take (nat (nr_dim rng)) (nr_nd_range rng)) 1
                 in kupl_min num_threads total_chunks));
          num_threads = (case egroup of
              None \<Rightarrow> num_threads
            | Some g \<Rightarrow> kupl_min num_threads (int (kupl_egroup_get_cur_size g)))
      in kupl_min num_threads (pe_concurrency_inner env))"

text \<open>
  \<open>kupl_parallel_for_resolve\<close>: the group and the number of threads, \<open>None\<close> inside for the error
  status; \<open>oks\<close> are the outcomes of the allocations and \<open>max_size\<close> the size of a barrier.
\<close>

definition kupl_parallel_for_resolve ::
  "bool \<times> bool \<times> bool \<Rightarrow> int \<Rightarrow> kupl_parallel_for_desc \<Rightarrow> pf_env \<Rightarrow>
   ((kupl_egroup \<times> int) option \<times> pf_env) option" where
  "kupl_parallel_for_resolve oks max_size desc env =
     (case (if pd_egroup desc \<noteq> None then pd_egroup desc else pe_current_egroup env) of
        Some g \<Rightarrow> Some (Some (g, kupl_parallel_for_num_threads env desc (Some g)), env)
      | None \<Rightarrow>
          (let num_threads = kupl_parallel_for_num_threads env desc None; (a, b, c) = oks
           in map_option (\<lambda>(g, env). (map_option (\<lambda>g. (g, num_threads)) g, env))
                (kupl_get_global_egroup a b c max_size num_threads env)))"

section \<open>Execution\<close>

text \<open>
  What the call does: run the function on the caller for the whole range, submit tasks for the
  executors, run an OpenMP loop of so many threads, or start a region: the master, whether the
  caller is the master, whether it first waits at the barrier for the executors to be idle (a call
  from within a task), and the executors.
\<close>

datatype pf_plan =
    Inline int
  | Tasks int "nat list"
  | Omp int
  | Region int bool bool "nat list"

definition kupl_omp_parallel :: "kupl_parallel_for_desc \<Rightarrow> int \<Rightarrow> int \<times> pf_plan option" where
  "kupl_omp_parallel desc num_threads =
     (case pd_range desc of
        Some rng \<Rightarrow>
          (if nr_dim rng \<noteq> 1 \<or> pd_policy desc \<noteq> KUPL_LOOP_POLICY_STATIC then (KUPL_ERROR, None)
           else (KUPL_OK, Some (Omp num_threads)))
      | None \<Rightarrow> (KUPL_OK, Some (Omp num_threads)))"

definition pf_master :: "pf_env \<Rightarrow> kupl_egroup \<Rightarrow> int" where
  "pf_master env g =
     (if 0 \<le> pe_geid env \<and> nat (pe_geid env) \<in> ei_eid_set (eg_cur g) then pe_geid env
      else int (ei_min_eid (eg_cur g)))"

text \<open>
  \<open>kupl_parallel_for\<close> after validation and resolution; the outer \<open>None\<close> is an enumeration of the
  group that does not end or a division by zero threads.
\<close>

definition parallel_for_execute :: "pf_env \<Rightarrow> kupl_parallel_for_desc \<Rightarrow> kupl_egroup \<Rightarrow> int \<Rightarrow>
    (int \<times> pf_plan option) option" where
  "parallel_for_execute env desc egroup num_threads =
     (let master_eid = pf_master env egroup in
      if pe_active_levels env \<ge> pe_max_active_levels env \<or> pe_expand env \<or>
         num_threads = 1 \<and> master_eid = pe_geid env
      then Some (KUPL_OK, Some (Inline master_eid))
      else if pd_range desc \<noteq> None \<and> pd_policy desc = KUPL_LOOP_POLICY_TASK
      then (if num_threads = 0 then None
            else map_option (\<lambda>es. (KUPL_OK, Some (Tasks master_eid es))) (egroup_limit_eids egroup num_threads))
      else if pd_range desc \<noteq> None \<and> pd_policy desc = KUPL_LOOP_POLICY_DYNAMIC \<and> num_threads = 0 then None
      else if pd_range desc \<noteq> None \<and> pd_policy desc \<noteq> KUPL_LOOP_POLICY_STATIC \<and>
              pd_policy desc \<noteq> KUPL_LOOP_POLICY_DYNAMIC
      then Some (KUPL_ERROR, None)
      else if pe_omp env then Some (kupl_omp_parallel desc num_threads)
      else map_option (\<lambda>es. (KUPL_OK, Some (Region master_eid (master_eid = pe_geid env) (pe_current_tb env) es)))
             (egroup_limit_eids egroup num_threads))"

text \<open>
  The call; the first one initialises the library: \<open>kupl_init\<close> stands for the status and the state
  with which that ends.
\<close>

definition kupl_parallel_for :: "(pf_env \<Rightarrow> int \<times> pf_env) \<Rightarrow> bool \<times> bool \<times> bool \<Rightarrow> int \<Rightarrow> bool \<Rightarrow>
    kupl_parallel_for_desc option \<Rightarrow> pf_env \<Rightarrow> (int \<times> pf_plan option \<times> pf_env) option" where
  "kupl_parallel_for kupl_init oks max_size func desc env =
     (let (st, env) = (if pe_inited env then (KUPL_OK, env) else kupl_init env) in
      if st = KUPL_ERROR then Some (KUPL_ERROR, None, env)
      else (case kupl_parallel_for_check env func desc of
          None \<Rightarrow> None
        | Some (st, d) \<Rightarrow>
            (if st = KUPL_ERROR \<or> d = None then Some (KUPL_ERROR, None, env)
             else (case kupl_parallel_for_resolve oks max_size (the d) env of
                 None \<Rightarrow> None
               | Some (None, env) \<Rightarrow> Some (KUPL_ERROR, None, env)
               | Some (Some (g, n), env) \<Rightarrow>
                   map_option (\<lambda>(st, plan). (st, plan, env)) (parallel_for_execute env (the d) g n)))))"

text \<open>The number a thread of the region runs under (\<open>kupl_loop_func\<close>): its local id in the group.\<close>

definition loop_tid :: "kupl_egroup \<Rightarrow> nat \<Rightarrow> nat" where
  "loop_tid egroup geid = ei_eid2lid (eg_cur egroup) geid"

text \<open>
  The part of a one-dimensional loop that an executor of the region runs under the static policy:
  \<open>kupl_static_policy_prepare\<close> computes the chunks, \<open>kupl_loop_func\<close> passes its number.
\<close>

definition kupl_loop_func_static :: "kupl_parallel_for_desc \<Rightarrow> kupl_egroup \<Rightarrow> int \<Rightarrow> nat \<Rightarrow> kupl_range option" where
  "kupl_loop_func_static desc egroup num_threads geid =
     (case pd_range desc of
        None \<Rightarrow> None
      | Some rng \<Rightarrow>
          (let (chunk_info, total_chunks) = kupl_calc_chunk_info rng
           in kupl_static_policy_impl (nr_nd_range rng ! 0) (chunk_info ! 0) total_chunks
                (int (loop_tid egroup geid)) num_threads))"

text \<open>\<open>kupl_get_thread_num\<close> and \<open>kupl_get_kernel_concurrency\<close> of an executor in a region.\<close>

definition kupl_in_parallel :: "pf_env \<Rightarrow> bool" where
  "kupl_in_parallel env \<longleftrightarrow> pe_inited env \<and> pe_active_levels env \<noteq> 0"

definition kupl_get_thread_num :: "pf_env \<Rightarrow> kupl_egroup \<Rightarrow> int \<Rightarrow> int" where
  "kupl_get_thread_num env egroup num_threads =
     (if \<not> pe_inited env then 0
      else if pe_active_levels env \<noteq> 0
      then (if num_threads = 1 then 0 else int (loop_tid egroup (nat (pe_geid env))))
      else 0)"

definition kupl_get_kernel_concurrency :: "pf_env \<Rightarrow> int \<Rightarrow> int" where
  "kupl_get_kernel_concurrency env num_threads =
     (if \<not> pe_inited env then 1 else if pe_active_levels env \<noteq> 0 then num_threads else 1)"

section \<open>Number of threads\<close>

lemma dim_blocks_chunks: "range_ok r \<Longrightarrow> dim_blocks r = dim_chunks r"
  by (auto simp: dim_blocks_def dim_chunks_def calc_chunk_def range_ok_def Let_def mult.commute
      zero_less_mult_iff)

lemma fold_blocks: "fold (\<lambda>r n. n * dim_blocks r) rs (k :: int) = k * prod_list (map dim_blocks rs)"
  by (induction rs arbitrary: k) (simp_all add: algebra_simps)

lemma total_blocks:
  "\<forall>r\<in>set rs. range_ok r \<Longrightarrow> fold (\<lambda>r n. n * dim_blocks r) rs 1 = total_of rs"
proof -
  assume "\<forall>r\<in>set rs. range_ok r"
  then have "map dim_blocks rs = map dim_chunks rs" by (simp add: dim_blocks_chunks)
  then show ?thesis by (simp only: fold_blocks mult_1)
qed

text \<open>What a description that passed the check guarantees.\<close>

lemma parallel_for_check_ok:
  assumes "kupl_parallel_for_check env func (Some desc) = Some (KUPL_OK, Some d)"
    and "\<forall>rng. pd_range desc = Some rng \<longrightarrow> length (nr_nd_range rng) = 3"
  shows "(\<forall>rng. pd_range d = Some rng \<longrightarrow>
      (\<exists>rng0. pd_range desc = Some rng0 \<and> kupl_check_range rng0 (pd_policy d) = Some (KUPL_OK, rng))) \<and>
    pd_egroup d = pd_egroup desc \<and> pd_policy d = pd_policy desc \<and>
    (pd_concurrency d = pe_concurrency_default env \<or>
     1 \<le> pd_concurrency d \<and> pd_concurrency d \<le> pe_num_executors env) \<and>
    (\<forall>g. pd_egroup d = Some g \<longrightarrow> ei_size (eg_cur g) \<noteq> 0)"
  using assms
  by (auto simp: kupl_parallel_for_check_def split: if_splits option.splits prod.splits)

lemma num_threads_bounds:
  assumes "\<forall>rng. pd_range d = Some rng \<longrightarrow> (\<forall>r\<in>set (take (nat (nr_dim rng)) (nr_nd_range rng)). range_ok r)"
    and "1 \<le> pd_concurrency d" and "1 \<le> pe_concurrency_inner env"
    and "egi_inv (eg_cur g)" and "ei_size (eg_cur g) \<noteq> 0"
  shows "1 \<le> kupl_parallel_for_num_threads env d (Some g) \<and>
    kupl_parallel_for_num_threads env d (Some g) \<le> pd_concurrency d \<and>
    kupl_parallel_for_num_threads env d (Some g) \<le> int (ei_size (eg_cur g)) \<and>
    (\<forall>rng. pd_range d = Some rng \<longrightarrow>
       kupl_parallel_for_num_threads env d (Some g) \<le> total_of (take (nat (nr_dim rng)) (nr_nd_range rng)))"
proof -
  have sz: "kupl_egroup_get_cur_size g = ei_size (eg_cur g)"
    using egi_size[OF assms(4)] by (simp add: kupl_egroup_get_cur_size_def egroup_consts)
  show ?thesis
  proof (cases "pd_range d")
    case None
    then show ?thesis using assms(2,3,5) by (simp add: kupl_parallel_for_num_threads_def Let_def kupl_min_eq sz min_le_iff_disj)
  next
    case (Some rng)
    then have ok: "\<forall>r\<in>set (take (nat (nr_dim rng)) (nr_nd_range rng)). range_ok r" using assms(1) by simp
    show ?thesis using total_of_ge_1[OF ok] assms(2,3,5)
      by (simp add: kupl_parallel_for_num_threads_def Let_def kupl_min_eq sz Some total_blocks[OF ok]
          min_le_iff_disj)
  qed
qed

lemma execute_plan:
  assumes "egroup_limit_eids g n = Some es" and "n \<noteq> 0"
  shows "\<exists>st plan. parallel_for_execute env d g n = Some (st, plan) \<and>
    (\<forall>m c w es'. plan = Some (Region m c w es') \<or> plan = Some (Tasks m es') \<longrightarrow> es' = es)"
proof -
  have "kupl_omp_parallel d n = (KUPL_ERROR, None) \<or> kupl_omp_parallel d n = (KUPL_OK, Some (Omp n))"
    by (simp add: kupl_omp_parallel_def split: option.splits)
  then show ?thesis unfolding parallel_for_execute_def Let_def using assms by (elim disjE) simp_all
qed

section \<open>Properties\<close>

definition example_env :: pf_env where
  "example_env = \<lparr>pe_inited = True, pe_num_executors = 8, pe_concurrency_default = 8,
     pe_concurrency_inner = 8, pe_pf_num_thread = 8, pe_active_levels = 0, pe_max_active_levels = 1,
     pe_expand = False, pe_omp = False, pe_geid = 0, pe_current_tb = False, pe_current_egroup = None, pe_egroups = (\<lambda>_. None)\<rparr>"

definition ten :: kupl_range where
  "ten = \<lparr>r_lower = 0, r_upper = 10, r_step = 1, r_blocksize = 1\<rparr>"

definition example_desc :: "kupl_egroup \<Rightarrow> int \<Rightarrow> kupl_parallel_for_desc" where
  "example_desc g n = \<lparr>pd_field_mask = 15, pd_range = Some \<lparr>nr_dim = 1, nr_nd_range = [ten, ten, ten]\<rparr>,
     pd_egroup = Some g, pd_concurrency = n, pd_policy = KUPL_LOOP_POLICY_STATIC\<rparr>"

lemma example_desc_check:
  assumes "ei_size (eg_cur g) \<noteq> 0" and "1 \<le> n" "n \<le> 8"
  shows "kupl_parallel_for_check example_env True (Some (example_desc g n)) =
    Some (KUPL_OK, Some (example_desc g n))"
proof -
  have "kupl_check_range \<lparr>nr_dim = 1, nr_nd_range = [ten, ten, ten]\<rparr> KUPL_LOOP_POLICY_STATIC =
      Some (KUPL_OK, \<lparr>nr_dim = 1, nr_nd_range = [ten, ten, ten]\<rparr>)"
    by (simp add: check_eval ten_def)
  then show ?thesis using assms
    by (simp add: kupl_parallel_for_check_def example_desc_def example_env_def
        KUPL_PARALLEL_FOR_DESC_FIELD_DEFAULT_def)
qed

text \<open>
  A call whose description passed the check runs on a sensible team: between one and the
  requested number of threads, not more than the group has executors and the loop has chunks; when
  it starts a region or submits tasks, these go to as many distinct executors of the group, the
  first ones of its enumeration.
\<close>

theorem parallel_for_team:
  assumes "kupl_parallel_for_check env func (Some desc) = Some (KUPL_OK, Some d)"
    and "\<forall>rng. pd_range desc = Some rng \<longrightarrow> length (nr_nd_range rng) = 3"
    and "1 \<le> pe_concurrency_default env" "1 \<le> pe_concurrency_inner env"
    and "eg_inv g" "ei_size (eg_cur g) \<noteq> 0" and "n = kupl_parallel_for_num_threads env d (Some g)"
  shows "1 \<le> n \<and> n \<le> pd_concurrency d \<and> n \<le> int (ei_size (eg_cur g)) \<and>
    (\<forall>rng. pd_range d = Some rng \<longrightarrow> n \<le> snd (kupl_calc_chunk_info rng)) \<and>
    (\<exists>st plan. parallel_for_execute env d g n = Some (st, plan) \<and>
      (\<forall>m c w es. plan = Some (Region m c w es) \<or> plan = Some (Tasks m es) \<longrightarrow>
         es = take (nat n) (egroup_eids g) \<and> distinct es \<and> int (length es) = n \<and>
         set es \<subseteq> ei_eid_set (eg_cur g)))"
proof -
  have inv: "egi_inv (eg_cur g)" using assms(5) by (simp add: eg_inv_def)
  note C = parallel_for_check_ok[OF assms(1,2)]
  have ok: "\<forall>r\<in>set (take (nat (nr_dim rng)) (nr_nd_range rng)). range_ok r" if rng: "pd_range d = Some rng" for rng
  proof -
    have "\<exists>rng0. pd_range desc = Some rng0 \<and> kupl_check_range rng0 (pd_policy d) = Some (KUPL_OK, rng)"
      using conjunct1[OF C] rng by simp
    then obtain rng0 where "pd_range desc = Some rng0"
      and r0: "kupl_check_range rng0 (pd_policy d) = Some (KUPL_OK, rng)" by blast
    then have "length (nr_nd_range rng0) = 3" using assms(2) by simp
    from check_range_facts[OF r0 this] show ?thesis by simp
  qed
  have conc: "1 \<le> pd_concurrency d" using C assms(3) by auto
  have rk: "\<forall>rng. pd_range d = Some rng \<longrightarrow> (\<forall>r\<in>set (take (nat (nr_dim rng)) (nr_nd_range rng)). range_ok r)"
    using ok by blast
  note B = num_threads_bounds[OF rk conc assms(4) inv assms(6), folded assms(7)]
  have B1: "1 \<le> n" "n \<le> pd_concurrency d" "n \<le> int (ei_size (eg_cur g))" using B by simp_all
  have B2: "n \<le> snd (kupl_calc_chunk_info rng)" if "pd_range d = Some rng" for rng
    using B that by (simp add: calc_chunk_total)
  have es: "egroup_limit_eids g n = Some (take (nat n) (egroup_eids g))"
    using egroup_limit_spec[OF inv _ B1(3)] B1(1) by simp
  have "distinct (take (nat n) (egroup_eids g))" "int (length (take (nat n) (egroup_eids g))) = n"
    "set (take (nat n) (egroup_eids g)) \<subseteq> ei_eid_set (eg_cur g)"
    using egroup_eids_facts[OF inv] B1 set_take_subset[of "nat n" "egroup_eids g"] by auto
  moreover obtain st plan where "parallel_for_execute env d g n = Some (st, plan)"
    "\<forall>m c w es'. plan = Some (Region m c w es') \<or> plan = Some (Tasks m es') \<longrightarrow> es' = take (nat n) (egroup_eids g)"
    using execute_plan[OF es, of env d] B1(1) by auto
  ultimately have "parallel_for_execute env d g n = Some (st, plan) \<and>
      (\<forall>m c w es. plan = Some (Region m c w es) \<or> plan = Some (Tasks m es) \<longrightarrow>
         es = take (nat n) (egroup_eids g) \<and> distinct es \<and> int (length es) = n \<and>
         set es \<subseteq> ei_eid_set (eg_cur g))" by metis
  then show ?thesis using B1 B2 by blast
qed

theorem parallel_for_team_witness:
  "kupl_parallel_for_num_threads example_env (example_desc (example_group [1, 3, 5]) 2)
     (Some (example_group [1, 3, 5])) \<le> 2 \<and>
   (\<exists>plan. parallel_for_execute example_env (example_desc (example_group [1, 3, 5]) 2)
      (example_group [1, 3, 5]) 2 = Some (KUPL_OK, plan))"
proof -
  let ?g = "example_group [1, 3, 5]"
  note G = example_group[of "[1, 3, 5]", simplified]
  have sz: "ei_size (eg_cur ?g) \<noteq> 0" using G(6) by simp
  have check: "kupl_parallel_for_check example_env True (Some (example_desc ?g 2)) =
      Some (KUPL_OK, Some (example_desc ?g 2))"
    by (rule example_desc_check[OF sz]) simp_all
  have n: "kupl_parallel_for_num_threads example_env (example_desc ?g 2) (Some ?g) = 2"
    using G(6) by (simp add: kupl_parallel_for_num_threads_def example_env_def example_desc_def ten_def
        dim_blocks_def kupl_divup_def signed_divide_int_def kupl_min_def kupl_egroup_get_cur_size_def
        egroup_consts Let_def)
  have T: "\<exists>st plan. parallel_for_execute example_env (example_desc ?g 2) ?g 2 = Some (st, plan)"
    using parallel_for_team[OF check _ _ _ G(1) sz n[symmetric]]
    by (auto simp: example_desc_def example_env_def)
  then have "\<exists>plan. parallel_for_execute example_env (example_desc ?g 2) ?g 2 = Some (KUPL_OK, plan)"
    by (auto simp: parallel_for_execute_def example_env_def example_desc_def Let_def)
  then show ?thesis using n by simp
qed

text \<open>A call that starts a region on a given group: the description is accepted, and the team is
  that of the group.\<close>

lemma parallel_for_region:
  assumes call: "kupl_parallel_for kupl_init oks max_size func (Some desc) env =
      Some (KUPL_OK, Some (Region master here nested es), env')"
    and g: "pd_egroup desc = Some g"
  shows "\<exists>d. kupl_parallel_for_check env' func (Some desc) = Some (KUPL_OK, Some d) \<and>
    egroup_limit_eids g (kupl_parallel_for_num_threads env' d (Some g)) = Some es"
proof -
  obtain st env1 where i: "(if pe_inited env then (KUPL_OK, env) else kupl_init env) = (st, env1)" by fastforce
  have st: "st \<noteq> KUPL_ERROR" using call i by (auto simp: kupl_parallel_for_def)
  then obtain st2 d2 where c: "kupl_parallel_for_check env1 func (Some desc) = Some (st2, d2)"
    using call i by (auto simp: kupl_parallel_for_def split: option.splits)
  then obtain d where d: "d2 = Some d" "st2 \<noteq> KUPL_ERROR"
    using call i st by (auto simp: kupl_parallel_for_def split: if_splits)
  have st2: "st2 = KUPL_OK" and dg: "pd_egroup d = Some g"
    using c d g by (auto simp: kupl_parallel_for_check_def split: if_splits option.splits prod.splits)
  have r: "kupl_parallel_for_resolve oks max_size d env1 =
      Some (Some (g, kupl_parallel_for_num_threads env1 d (Some g)), env1)"
    by (simp add: kupl_parallel_for_resolve_def dg)
  have p: "parallel_for_execute env1 d g (kupl_parallel_for_num_threads env1 d (Some g)) =
      Some (KUPL_OK, Some (Region master here nested es))" and e: "env' = env1"
    using call i st c d r by (auto simp: kupl_parallel_for_def)
  have "kupl_omp_parallel d n \<noteq> (0, Some (Region master here nested es))" for n
    by (auto simp: kupl_omp_parallel_def split: option.splits if_splits)
  hence "egroup_limit_eids g (kupl_parallel_for_num_threads env1 d (Some g)) = Some es"
    using p by (auto simp: parallel_for_execute_def Let_def split: if_splits)
  thus ?thesis using c d st2 e by auto
qed

text \<open>
  C1: A call of \<open>kupl_parallel_for\<close> for a one-dimensional loop under the static policy, on a given
  group whose executors are numbered in ascending order, that is accepted and starts a region
  executes the loop exactly once: the executors of the region are distinct members of the group,
  and the parts of the loop that they run under the numbers the group gives them are together the
  iterations of the loop, in order.  The end of the last chunk, at or behind the end of the loop,
  has to be a 64-bit number; the check of the range does not see to that.
\<close>

theorem static_region_exactly_once:
  assumes "kupl_parallel_for kupl_init oks max_size func (Some desc) env =
      Some (KUPL_OK, Some (Region master here nested es), env')"
    and "pd_egroup desc = Some g" "eg_inv g" "map (ei_eid2lid (eg_cur g)) (egroup_eids g) = [0..<ei_size (eg_cur g)]"
    and "pd_policy desc = KUPL_LOOP_POLICY_STATIC" "pd_range desc = Some rng" "nr_dim rng = 1"
    and "nr_nd_range rng = [r, r2, r3]" and "static_fits (r\<lparr>r_blocksize := 1\<rparr>)"
    and "1 \<le> pe_concurrency_default env'" "1 \<le> pe_concurrency_inner env'"
  shows "\<exists>d shares. kupl_parallel_for_check env' func (Some desc) = Some (KUPL_OK, Some d) \<and>
    distinct es \<and> set es \<subseteq> ei_eid_set (eg_cur g) \<and>
    map (kupl_loop_func_static d g (kupl_parallel_for_num_threads env' d (Some g))) es = map Some shares \<and>
    concat (map iters shares) = iters r"
proof -
  obtain d where d: "kupl_parallel_for_check env' func (Some desc) = Some (KUPL_OK, Some d)"
    and lim: "egroup_limit_eids g (kupl_parallel_for_num_threads env' d (Some g)) = Some es"
    using parallel_for_region[OF assms(1,2)] by blast
  define n where "n = nat (kupl_parallel_for_num_threads env' d (Some g))"
  have len3: "\<forall>rng. pd_range desc = Some rng \<longrightarrow> length (nr_nd_range rng) = 3" using assms(6,8) by simp
  note C = parallel_for_check_ok[OF d len3]
  have sz: "ei_size (eg_cur g) \<noteq> 0" using C assms(2) by simp
  note T = parallel_for_team[OF d len3 assms(10,11,3) sz refl]
  have n: "kupl_parallel_for_num_threads env' d (Some g) = int n" "0 < n" "n \<le> ei_size (eg_cur g)"
    using conjunct1[OF T] conjunct1[OF conjunct2[OF conjunct2[OF T]]] by (simp_all add: n_def nat_le_iff)
  have "pd_range d \<noteq> None" using d assms(6)
    by (auto simp: kupl_parallel_for_check_def split: if_splits option.splits prod.splits)
  then obtain rng' where rng': "pd_range d = Some rng'"
    "kupl_check_range rng KUPL_LOOP_POLICY_STATIC = Some (KUPL_OK, rng')"
    using C assms(5,6) by auto
  let ?r = "r\<lparr>r_blocksize := 1\<rparr>"
  have "length (nr_nd_range rng) = 3" using assms(8) by simp
  note F = check_range_facts[OF rng'(2) this] check_range_filled[OF rng'(2)]
  have r1: "take 1 (nr_nd_range rng') = [?r]" "nr_dim rng' = 1"
    using F assms(7,8) by (simp_all add: fill_blocksize_def)
  hence r0: "nr_nd_range rng' ! 0 = ?r" by (cases "nr_nd_range rng'") simp_all
  have ok: "range_ok ?r" using F(1) assms(7) r1(1) by simp
  have info: "kupl_calc_chunk_info rng' = ([calc_chunk ?r], rc_chunks (calc_chunk ?r))"
    using r1 by (simp add: kupl_calc_chunk_info_def)
  have le: "int n \<le> dim_chunks ?r" using T rng'(1) n(1) info by (simp add: dim_chunks_def)
  have inv: "egi_inv (eg_cur g)" using assms(3) by (simp add: eg_inv_def)
  have es: "es = take n (egroup_eids g)" using egroup_limit_spec[OF inv, of "int n"] lim n by simp
  have "map (loop_tid g) es = take n (map (ei_eid2lid (eg_cur g)) (egroup_eids g))"
    by (simp add: es loop_tid_def take_map)
  then have tids: "map (loop_tid g) es = [0..<n]" using assms(4) n(3) by (simp add: take_upt)
  have "map (kupl_loop_func_static d g (int n)) es =
      map (\<lambda>i. kupl_static_policy_impl ?r (calc_chunk ?r) (rc_chunks (calc_chunk ?r)) (int i) (int n))
        (map (loop_tid g) es)"
    by (simp add: kupl_loop_func_static_def rng'(1) info r0)
  then obtain shares where "map (kupl_loop_func_static d g (int n)) es = map Some shares"
    "concat (map iters shares) = iters ?r"
    using static_shares[OF ok n(2) le assms(9)] unfolding tids by auto
  moreover have "iters ?r = iters r" by (simp add: iters_def)
  moreover have "distinct es" "set es \<subseteq> ei_eid_set (eg_cur g)"
    using egroup_eids_facts[OF inv] set_take_subset[of n "egroup_eids g"] by (auto simp: es)
  ultimately show ?thesis using d n(1) by auto
qed

text \<open>
  On a group that was not created in ascending order iterations are lost: a loop from 0 to 10
  on the group \<open>[2, 0, 1]\<close> with two threads runs on the executors 0 and 1 as the threads 1 and 2,
  and the iterations 0 to 4 are never executed.
\<close>

theorem static_region_unsorted_loses:
  "let g = example_group [2, 0, 1]
   in egroup_limit_eids g 2 = Some [0, 1] \<and>
      map (\<lambda>e. map_option iters (kupl_static_policy_impl ten (calc_chunk ten) (rc_chunks (calc_chunk ten))
        (int (loop_tid g e)) 2)) [0, 1] = [Some [5, 6, 7, 8, 9], Some []]"
proof -
  note E = example_group[of "[2, 0, 1]", simplified]
  have i: "egi_inv (eg_cur (example_group [2, 0, 1]))" using E(1) by (simp add: eg_inv_def)
  have t: "loop_tid (example_group [2, 0, 1]) 0 = 1" "loop_tid (example_group [2, 0, 1]) 1 = 2"
    using spec[OF E(4), of 1] spec[OF E(4), of 2] by (simp_all add: loop_tid_def)
  have l: "egroup_limit_eids (example_group [2, 0, 1]) 2 = Some [0, 1]"
    using egroup_limit_spec[OF i, of 2] E(2,6) by simp
  have s1: "map_option iters (kupl_static_policy_impl ten (calc_chunk ten) (rc_chunks (calc_chunk ten)) 1 2) =
      Some [5, 6, 7, 8, 9]"
    by (simp add: kupl_static_policy_impl_def ten_def calc_chunk_def kupl_divup_def signed_divide_int_def
        signed_modulo_int_def kupl_min_def int64_defs iters_def iter_count_def upt_rec)
  have s2: "map_option iters (kupl_static_policy_impl ten (calc_chunk ten) (rc_chunks (calc_chunk ten)) 2 2) =
      Some []"
    by (simp add: kupl_static_policy_impl_def ten_def calc_chunk_def kupl_divup_def signed_divide_int_def
        signed_modulo_int_def kupl_min_def int64_defs iters_def iter_count_def upt_rec)
  show ?thesis using l s1 s2 by (simp add: Let_def t[simplified])
qed

theorem static_region_exactly_once_witness:
  "let g = example_group [1, 3, 5]
   in \<exists>master here es d shares. kupl_parallel_for (\<lambda>e. (KUPL_ERROR, e)) (True, True, True) 8 True
          (Some (example_desc g 2)) example_env = Some (KUPL_OK, Some (Region master here False es), example_env) \<and>
        map (kupl_loop_func_static d g 2) es = map Some shares \<and> concat (map iters shares) = iters ten"
proof -
  let ?g = "example_group [1, 3, 5]" and ?d = "example_desc (example_group [1, 3, 5]) 2"
  note E = example_group[of "[1, 3, 5]", simplified]
  have i: "egi_inv (eg_cur ?g)" using E(1) by (simp add: eg_inv_def)
  have sz: "ei_size (eg_cur ?g) \<noteq> 0" using E(6) by simp
  have l: "egroup_limit_eids ?g 2 = Some [1, 3]" using egroup_limit_spec[OF i, of 2] E(2,6) by simp
  have m: "map (ei_eid2lid (eg_cur ?g)) (egroup_eids ?g) = [0..<ei_size (eg_cur ?g)]"
    using spec[OF E(4), of 0] spec[OF E(4), of 1] spec[OF E(4), of 2] E(2,6) by (simp add: upt_rec)
  have fits: "static_fits (ten\<lparr>r_blocksize := 1\<rparr>)"
    by (simp add: ten_def static_fits_def dim_chunks_def calc_chunk_def kupl_divup_def signed_divide_int_def int64_defs)
  have check: "kupl_parallel_for_check example_env True (Some ?d) = Some (KUPL_OK, Some ?d)"
    by (rule example_desc_check[OF sz]) simp_all
  have n: "kupl_parallel_for_num_threads example_env ?d (Some ?g) = 2"
    using E(6) by (simp add: kupl_parallel_for_num_threads_def example_env_def example_desc_def ten_def
        dim_blocks_def kupl_divup_def signed_divide_int_def kupl_min_def kupl_egroup_get_cur_size_def
        egroup_consts Let_def)
  have "\<exists>master here. kupl_parallel_for (\<lambda>e. (KUPL_ERROR, e)) (True, True, True) 8 True (Some ?d) example_env =
      Some (KUPL_OK, Some (Region master here False [1, 3]), example_env)"
    using check n l
    by (simp add: kupl_parallel_for_def kupl_parallel_for_resolve_def parallel_for_execute_def pf_master_def
        Let_def example_env_def example_desc_def)
  then obtain master here where call: "kupl_parallel_for (\<lambda>e. (KUPL_ERROR, e)) (True, True, True) 8 True (Some ?d) example_env =
      Some (KUPL_OK, Some (Region master here False [1, 3]), example_env)" by blast
  have d: "pd_egroup ?d = Some ?g" "pd_policy ?d = KUPL_LOOP_POLICY_STATIC"
    "pd_range ?d = Some \<lparr>nr_dim = 1, nr_nd_range = [ten, ten, ten]\<rparr>"
    and e: "1 \<le> pe_concurrency_default example_env" "1 \<le> pe_concurrency_inner example_env"
    by (simp_all add: example_desc_def example_env_def)
  have q: "nr_dim \<lparr>nr_dim = 1, nr_nd_range = [ten, ten, ten]\<rparr> = 1"
    "nr_nd_range \<lparr>nr_dim = 1, nr_nd_range = [ten, ten, ten]\<rparr> = [ten, ten, ten]" by simp_all
  obtain d shares where
    "map (kupl_loop_func_static d ?g (kupl_parallel_for_num_threads example_env d (Some ?g))) [1, 3] = map Some shares"
    "concat (map iters shares) = iters ten" "kupl_parallel_for_check example_env True (Some ?d) = Some (KUPL_OK, Some d)"
    using static_region_exactly_once[OF call d(1) E(1) m d(2,3) q fits e] by blast
  moreover have "d = ?d" using calculation(3) check by simp
  ultimately show ?thesis using call n unfolding Let_def by metis
qed

end
