(* ===== verification/Kupl_Sched_Hybrid.thy ===== *)
theory Kupl_Sched_Hybrid
  imports Kupl_Sched_Mq Kupl_Flag_Barrier
begin

text \<open>
  The scheduler plugins that sit in front of the others: \<open>sspe\<close> (one slot per executor, opened by
  the flag barrier) and \<open>hybrid\<close> (an outer and an inner plugin), and the table of plugins
  (\<open>src/src/mt/scheduler/plugin/sspe\<close>, \<open>hybrid\<close> and \<open>kupl_sched_plugin_load.cpp\<close>).

  An instance of any plugin is a value of \<open>plugin_sched\<close>, with one constructor for each plugin, so
  that a call through the function table of a plugin is a case distinction.  The names of the
  arguments are those of Kupl\_Sched\_Plugin; \<open>flags\<close> are the flags of the barrier of the current
  nesting level.
\<close>

section \<open>sspe\<close>

record sched_data =
  ss_slot :: "ptr option list"
  ss_slot_num :: int

definition sspe_create :: "int \<Rightarrow> bool \<Rightarrow> bool \<Rightarrow> sched_data option" where
  "sspe_create num_executors ok okslot =
     (if \<not> ok \<or> \<not> okslot then None
      else Some \<lparr>ss_slot = replicate (nat num_executors) None, ss_slot_num = num_executors\<rparr>)"

definition sspe_add_tb :: "(ptr \<Rightarrow> kupl_taskbase) \<Rightarrow> sched_data \<Rightarrow> ptr \<Rightarrow> int \<times> sched_data" where
  "sspe_add_tb tbs sched tb =
     (let eid = tb_executor_id (tbs tb)
      in if eid \<le> KUPL_TB_EXECUTOR_ID_DEFAULT \<or> eid \<ge> ss_slot_num sched then (KUPL_ERROR, sched)
         else (KUPL_OK, sched\<lparr>ss_slot := (ss_slot sched)[nat eid := Some tb]\<rparr>))"

definition sspe_get_tb :: "int \<Rightarrow> (nat \<Rightarrow> nat) \<Rightarrow> sched_data \<Rightarrow> (ptr option \<times> (nat \<Rightarrow> nat)) option" where
  "sspe_get_tb own_eid flags sched =
     (if own_eid = KUPL_EIDCID_INIT then Some (None, flags)
      else (let (arrived, flags) = barrier_arrive (nat own_eid) flags
            in if arrived then map_option (\<lambda>tb. (tb, flags)) (at_queue (ss_slot sched) own_eid)
               else Some (None, flags)))"

section \<open>Instances and hybrid\<close>

text \<open>
  An instance of \<open>hybrid\<close> holds the outer instance, its \<open>plugin_using\<close> mark, the inner instance
  and its mark.
\<close>

datatype plugin_sched =
    Sspe sched_data
  | Mq kupl_sched_mq
  | Static_mq kupl_sched_static_mq
  | Expand_static_mq kupl_sched_expand_static_mq
  | Hybrid plugin_sched bool plugin_sched bool

definition tb_outer :: "(ptr \<Rightarrow> kupl_taskbase) \<Rightarrow> ptr \<Rightarrow> bool" where
  "tb_outer tbs tb \<longleftrightarrow> tb_flag (tbs tb) AND KUPL_TB_FLAG_HYBRID_OUTER \<noteq> 0"

text \<open>
  The handlers of \<open>hybrid\<close>; \<open>add0\<close> and \<open>add1\<close> are the results of the add calls of the two instances,
  \<open>get0\<close> and \<open>get1\<close> their get calls as functions of the flags.
\<close>

definition kupl_sched_hybrid_add_tb ::
  "(ptr \<Rightarrow> kupl_taskbase) \<Rightarrow> (int \<times> plugin_sched) option \<Rightarrow> (int \<times> plugin_sched) option \<Rightarrow>
   plugin_sched \<Rightarrow> bool \<Rightarrow> plugin_sched \<Rightarrow> bool \<Rightarrow> ptr \<Rightarrow> (int \<times> plugin_sched) option" where
  "kupl_sched_hybrid_add_tb tbs add0 add1 p0 using0 p1 using1 tb =
     (if tb_outer tbs tb then map_option (\<lambda>(r, p0). (r, Hybrid p0 True p1 using1)) add0
      else map_option (\<lambda>(r, p1). (r, Hybrid p0 using0 p1 True)) add1)"

definition kupl_sched_hybrid_get_tb ::
  "((nat \<Rightarrow> nat) \<Rightarrow> (ptr option \<times> (nat \<Rightarrow> nat) \<times> plugin_sched) option) \<Rightarrow>
   ((nat \<Rightarrow> nat) \<Rightarrow> (ptr option \<times> (nat \<Rightarrow> nat) \<times> plugin_sched) option) \<Rightarrow>
   plugin_sched \<Rightarrow> bool \<Rightarrow> plugin_sched \<Rightarrow> bool \<Rightarrow> (nat \<Rightarrow> nat) \<Rightarrow>
   (ptr option \<times> (nat \<Rightarrow> nat) \<times> plugin_sched) option" where
  "kupl_sched_hybrid_get_tb get0 get1 p0 using0 p1 using1 flags =
     (case (if using0 then get0 flags else Some (None, flags, p0)) of
        None \<Rightarrow> None
      | Some (tb, flags, p0) \<Rightarrow>
          if tb \<noteq> None then Some (tb, flags, Hybrid p0 using0 p1 using1)
          else (case (if using1 then get1 flags else Some (None, flags, p1)) of
                  None \<Rightarrow> None
                | Some (tb, flags, p1) \<Rightarrow> Some (tb, flags, Hybrid p0 using0 p1 using1)))"

text \<open>A call of \<open>plugin.add_tb\<close> and of \<open>plugin.get_tb\<close>.\<close>

fun plugin_add_tb :: "(int \<Rightarrow> int) \<Rightarrow> bool \<Rightarrow> (ptr \<Rightarrow> kupl_taskbase) \<Rightarrow> int \<Rightarrow> plugin_sched \<Rightarrow> ptr \<Rightarrow>
    (int \<times> plugin_sched) option" where
  "plugin_add_tb l ep tbs g (Sspe s) tb = Some (map_prod id Sspe (sspe_add_tb tbs s tb))"
| "plugin_add_tb l ep tbs g (Mq s) tb = map_option (map_prod id Mq) (kupl_sched_mq_add_tb ep tbs g s tb)"
| "plugin_add_tb l ep tbs g (Static_mq s) tb =
     map_option (map_prod id Static_mq) (kupl_sched_static_mq_add_tb ep tbs g s tb)"
| "plugin_add_tb l ep tbs g (Expand_static_mq s) tb =
     map_option (map_prod id Expand_static_mq) (kupl_sched_expand_static_mq_add_tb l ep tbs g s tb)"
| "plugin_add_tb l ep tbs g (Hybrid p0 u0 p1 u1) tb =
     kupl_sched_hybrid_add_tb tbs (plugin_add_tb l ep tbs g p0 tb) (plugin_add_tb l ep tbs g p1 tb)
       p0 u0 p1 u1 tb"

fun plugin_get_tb :: "(int \<Rightarrow> int) \<Rightarrow> bool \<Rightarrow> (ptr \<Rightarrow> kupl_taskbase) \<Rightarrow> int \<Rightarrow> plugin_sched \<Rightarrow> (nat \<Rightarrow> nat) \<Rightarrow>
    (ptr option \<times> (nat \<Rightarrow> nat) \<times> plugin_sched) option" where
  "plugin_get_tb l ep tbs g (Sspe s) flags =
     map_option (\<lambda>(tb, flags). (tb, flags, Sspe s)) (sspe_get_tb g flags s)"
| "plugin_get_tb l ep tbs g (Mq s) flags =
     map_option (\<lambda>(tb, s). (tb, flags, Mq s)) (kupl_sched_mq_get_tb ep tbs g s)"
| "plugin_get_tb l ep tbs g (Static_mq s) flags =
     map_option (\<lambda>(tb, s). (tb, flags, Static_mq s)) (kupl_sched_static_mq_get_tb ep tbs g s)"
| "plugin_get_tb l ep tbs g (Expand_static_mq s) flags =
     map_option (\<lambda>(tb, s). (tb, flags, Expand_static_mq s)) (kupl_sched_expand_static_mq_get_tb l ep tbs g s)"
| "plugin_get_tb l ep tbs g (Hybrid p0 u0 p1 u1) flags =
     kupl_sched_hybrid_get_tb (\<lambda>f. plugin_get_tb l ep tbs g p0 f) (\<lambda>f. plugin_get_tb l ep tbs g p1 f)
       p0 u0 p1 u1 flags"

section \<open>The contract of an instance with slots\<close>

text \<open>
  A plugin may keep some of its tasks in slots (\<open>slotted\<close>): such a task is handed out as often as
  the barrier opens the slot, it is not consumed.  For all other tasks the laws are those of
  \<open>sched_plugin\<close>.  \<open>'e\<close> is what a get call reads from outside the plugin.
\<close>

locale slot_plugin =
  fixes add :: "int \<Rightarrow> 's \<Rightarrow> ptr \<Rightarrow> (int \<times> 's) option"
    and get :: "'e \<Rightarrow> int \<Rightarrow> 's \<Rightarrow> (ptr option \<times> 's) option"
    and pending :: "'s \<Rightarrow> ptr multiset"
    and slotted :: "'s \<Rightarrow> ptr \<Rightarrow> bool"
    and sinv :: "'s \<Rightarrow> bool"
  assumes add_slot: "sinv s \<Longrightarrow> add g s t = Some (r, s') \<Longrightarrow> sinv s' \<and> slotted s' = slotted s \<and>
      pending s' = (if r = KUPL_OK \<and> \<not> slotted s t then add_mset t (pending s) else pending s)"
    and get_slot: "sinv s \<Longrightarrow> get e g s = Some (x, s') \<Longrightarrow> sinv s' \<and> slotted s' = slotted s \<and>
      pending s = (case x of None \<Rightarrow> {#} | Some t \<Rightarrow> if slotted s t then {#} else {#t#}) + pending s'"

sublocale sched_plugin \<subseteq> slotless: slot_plugin add "\<lambda>_ :: unit. get" pending "\<lambda>_ _. False" sinv
proof unfold_locales
  show "sinv s \<Longrightarrow> add g s t = Some (r, s') \<Longrightarrow> sinv s' \<and> (\<lambda>_. False) = (\<lambda>_. False) \<and>
      pending s' = (if r = KUPL_OK \<and> \<not> False then add_mset t (pending s) else pending s)" for g s t r s'
    using add_inv add_pending by simp
  show "sinv s \<Longrightarrow> get g s = Some (x, s') \<Longrightarrow> sinv s' \<and> (\<lambda>_. False) = (\<lambda>_. False) \<and>
      pending s = (case x of None \<Rightarrow> {#} | Some t \<Rightarrow> if False then {#} else {#t#}) + pending s'" for g s x s'
    using get_inv get_pending by (cases x) simp_all
qed

section \<open>The contract of the instances\<close>

fun plugin_pending :: "plugin_sched \<Rightarrow> ptr multiset" where
  "plugin_pending (Sspe s) = {#}"
| "plugin_pending (Mq s) = mq_pending s"
| "plugin_pending (Static_mq s) = sm_pending s"
| "plugin_pending (Expand_static_mq s) = se_pending s"
| "plugin_pending (Hybrid p0 u0 p1 u1) = plugin_pending p0 + plugin_pending p1"

fun plugin_slotted :: "(ptr \<Rightarrow> kupl_taskbase) \<Rightarrow> plugin_sched \<Rightarrow> ptr \<Rightarrow> bool" where
  "plugin_slotted tbs (Sspe s) t = True"
| "plugin_slotted tbs (Hybrid p0 u0 p1 u1) t =
     (if tb_outer tbs t then plugin_slotted tbs p0 t else plugin_slotted tbs p1 t)"
| "plugin_slotted tbs p t = False"

text \<open>All tasks an instance holds, in a queue or in a slot.\<close>

fun plugin_held :: "plugin_sched \<Rightarrow> ptr set" where
  "plugin_held (Sspe s) = {t. Some t \<in> set (ss_slot s)}"
| "plugin_held (Hybrid p0 u0 p1 u1) = plugin_held p0 \<union> plugin_held p1"
| "plugin_held p = set_mset (plugin_pending p)"

text \<open>
  The tasks of the outer instance are marked as such and the others are not, and an instance that
  is not in use, which the get call skips, holds nothing.
\<close>

fun plugin_inv :: "(ptr \<Rightarrow> kupl_taskbase) \<Rightarrow> plugin_sched \<Rightarrow> bool" where
  "plugin_inv tbs (Sspe s) \<longleftrightarrow> ss_slot_num s = int (length (ss_slot s))"
| "plugin_inv tbs (Mq s) \<longleftrightarrow> mq_inv s"
| "plugin_inv tbs (Static_mq s) \<longleftrightarrow> sm_inv s"
| "plugin_inv tbs (Expand_static_mq s) \<longleftrightarrow> se_inv s"
| "plugin_inv tbs (Hybrid p0 u0 p1 u1) \<longleftrightarrow> plugin_inv tbs p0 \<and> plugin_inv tbs p1 \<and>
     (\<forall>t\<in>plugin_held p0. tb_outer tbs t) \<and> (\<forall>t\<in>plugin_held p1. \<not> tb_outer tbs t) \<and>
     (\<not> u0 \<longrightarrow> plugin_held p0 = {}) \<and> (\<not> u1 \<longrightarrow> plugin_held p1 = {})"

text \<open>One call of an instance, with everything the contract needs.\<close>

definition add_law :: "(ptr \<Rightarrow> kupl_taskbase) \<Rightarrow> plugin_sched \<Rightarrow> ptr \<Rightarrow> int \<Rightarrow> plugin_sched \<Rightarrow> bool" where
  "add_law tbs p t r p' \<longleftrightarrow> plugin_inv tbs p' \<and> plugin_slotted tbs p' = plugin_slotted tbs p \<and>
     plugin_pending p' = (if r = KUPL_OK \<and> \<not> plugin_slotted tbs p t then add_mset t (plugin_pending p)
                          else plugin_pending p) \<and>
     plugin_held p' \<subseteq> insert t (plugin_held p)"

definition get_law :: "(ptr \<Rightarrow> kupl_taskbase) \<Rightarrow> plugin_sched \<Rightarrow> ptr option \<Rightarrow> plugin_sched \<Rightarrow> bool" where
  "get_law tbs p x p' \<longleftrightarrow> plugin_inv tbs p' \<and> plugin_slotted tbs p' = plugin_slotted tbs p \<and>
     plugin_pending p = (case x of None \<Rightarrow> {#} | Some t \<Rightarrow> if plugin_slotted tbs p t then {#} else {#t#}) +
       plugin_pending p' \<and>
     plugin_held p' \<subseteq> plugin_held p \<and> (\<forall>t. x = Some t \<longrightarrow> t \<in> plugin_held p)"

lemma slotted_ext: "(\<And>t. plugin_slotted tbs p t = plugin_slotted tbs q t) \<Longrightarrow>
    plugin_slotted tbs p = plugin_slotted tbs q"
  by (rule ext)

lemma add_law_base:
  assumes "plugin_pending p' = (if r = KUPL_OK then add_mset t (plugin_pending p) else plugin_pending p)"
    and "plugin_inv tbs p'" and "\<And>t. \<not> plugin_slotted tbs p t" "\<And>t. \<not> plugin_slotted tbs p' t"
    and "plugin_held p = set_mset (plugin_pending p)" "plugin_held p' = set_mset (plugin_pending p')"
  shows "add_law tbs p t r p'"
  using assms by (auto simp: add_law_def fun_eq_iff)

lemma get_law_base:
  assumes "plugin_pending p = (case x of None \<Rightarrow> {#} | Some t \<Rightarrow> {#t#}) + plugin_pending p'"
    and "plugin_inv tbs p'" and "\<And>t. \<not> plugin_slotted tbs p t" "\<And>t. \<not> plugin_slotted tbs p' t"
    and "plugin_held p = set_mset (plugin_pending p)" "plugin_held p' = set_mset (plugin_pending p')"
  shows "get_law tbs p x p'"
  using assms by (auto simp: get_law_def fun_eq_iff split: option.splits)

lemma plugin_add_law:
  "plugin_inv tbs p \<Longrightarrow> plugin_add_tb l ep tbs g p t = Some (r, p') \<Longrightarrow> add_law tbs p t r p'"
proof (induction p arbitrary: r p')
  case (Sspe s)
  then show ?case
    by (auto simp: add_law_def sspe_add_tb_def Let_def fun_eq_iff split: if_splits
        dest: set_update_subset_insert[THEN subsetD])
next
  case (Mq s)
  then show ?case using mq_add by (auto intro!: add_law_base)
next
  case (Static_mq s)
  then show ?case using static_mq_add by (auto intro!: add_law_base)
next
  case (Expand_static_mq s)
  then show ?case using expand_static_mq_add by (auto intro!: add_law_base)
next
  case (Hybrid p0 u0 p1 u1)
  show ?case
  proof (cases "tb_outer tbs t")
    case True
    then obtain q where q: "plugin_add_tb l ep tbs g p0 t = Some (r, q)" "p' = Hybrid q True p1 u1"
      using Hybrid.prems(2) by (auto simp: kupl_sched_hybrid_add_tb_def)
    have "add_law tbs p0 t r q" using Hybrid.IH(1)[OF _ q(1)] Hybrid.prems(1) by simp
    then show ?thesis using Hybrid.prems(1) True q(2) by (auto simp: add_law_def fun_eq_iff)
  next
    case False
    then obtain q where q: "plugin_add_tb l ep tbs g p1 t = Some (r, q)" "p' = Hybrid p0 u0 q True"
      using Hybrid.prems(2) by (auto simp: kupl_sched_hybrid_add_tb_def)
    have "add_law tbs p1 t r q" using Hybrid.IH(2)[OF _ q(1)] Hybrid.prems(1) by simp
    then show ?thesis using Hybrid.prems(1) False q(2) by (auto simp: add_law_def fun_eq_iff)
  qed
qed

lemma get_law_skip: "plugin_inv tbs p \<Longrightarrow> get_law tbs p None p"
  by (simp add: get_law_def)

lemma plugin_get_law:
  "plugin_inv tbs p \<Longrightarrow> plugin_get_tb l ep tbs g p flags = Some (x, flags', p') \<Longrightarrow> get_law tbs p x p'"
proof (induction p arbitrary: x flags flags' p')
  case (Sspe s)
  then show ?case
    by (auto simp: get_law_def sspe_get_tb_def Let_def at_queue_Some
        split: if_splits option.splits prod.splits) (metis nth_mem)
next
  case (Mq s)
  then show ?case using mq_get by (auto intro!: get_law_base)
next
  case (Static_mq s)
  then show ?case using static_mq_get by (auto intro!: get_law_base)
next
  case (Expand_static_mq s)
  then show ?case using expand_static_mq_get by (auto intro!: get_law_base)
next
  case (Hybrid p0 u0 p1 u1)
  from Hybrid.prems obtain y f0 q0 where 0:
    "(if u0 then plugin_get_tb l ep tbs g p0 flags else Some (None, flags, p0)) = Some (y, f0, q0)"
    by (auto simp: kupl_sched_hybrid_get_tb_def split: option.splits)
  have G0: "get_law tbs p0 y q0"
    using 0 Hybrid.IH(1)[of flags y f0 q0] Hybrid.prems(1) get_law_skip[of tbs p0]
    by (auto split: if_splits)
  show ?case
  proof (cases y)
    case (Some t)
    then have "p' = Hybrid q0 u0 p1 u1" "x = Some t"
      using Hybrid.prems(2) 0 by (auto simp: kupl_sched_hybrid_get_tb_def)
    then show ?thesis using G0 Some Hybrid.prems(1) by (auto simp: get_law_def fun_eq_iff)
  next
    case None
    with Hybrid.prems(2) 0 obtain f1 q1 where 1:
      "(if u1 then plugin_get_tb l ep tbs g p1 f0 else Some (None, f0, p1)) = Some (x, f1, q1)"
      "p' = Hybrid q0 u0 q1 u1"
      by (auto simp: kupl_sched_hybrid_get_tb_def split: option.splits)
    have G1: "get_law tbs p1 x q1"
      using 1(1) Hybrid.IH(2)[of f0 x f1 q1] Hybrid.prems(1) get_law_skip[of tbs p1]
      by (auto split: if_splits)
    then show ?thesis using G0 None 1(2) Hybrid.prems(1)
      by (auto simp: get_law_def fun_eq_iff split: option.splits)
  qed
qed

interpretation plugins: slot_plugin
  "plugin_add_tb l ep tbs"
  "\<lambda>flags g p. map_option (\<lambda>(x, f, p). (x, p)) (plugin_get_tb l ep tbs g p flags)"
  plugin_pending "plugin_slotted tbs" "plugin_inv tbs"
  for l ep tbs
proof unfold_locales
  show "plugin_inv tbs s \<Longrightarrow> plugin_add_tb l ep tbs g s t = Some (r, s') \<Longrightarrow>
      plugin_inv tbs s' \<and> plugin_slotted tbs s' = plugin_slotted tbs s \<and>
      plugin_pending s' = (if r = KUPL_OK \<and> \<not> plugin_slotted tbs s t then add_mset t (plugin_pending s)
        else plugin_pending s)" for g s t r s'
    using plugin_add_law by (simp add: add_law_def)
  show "plugin_inv tbs s \<Longrightarrow>
      map_option (\<lambda>(x, f, p). (x, p)) (plugin_get_tb l ep tbs g s e) = Some (x, s') \<Longrightarrow>
      plugin_inv tbs s' \<and> plugin_slotted tbs s' = plugin_slotted tbs s \<and>
      plugin_pending s = (case x of None \<Rightarrow> {#} | Some t \<Rightarrow> if plugin_slotted tbs s t then {#} else {#t#}) +
        plugin_pending s'" for e g s x s'
    using plugin_get_law by (fastforce simp: get_law_def)
qed

end
