(* ===== verification/Kupl_Sched_Load.thy ===== *)
theory Kupl_Sched_Load
  imports Kupl_Sched_Hybrid
begin

text \<open>
  The table of scheduler plugins and the creation of instances
  (\<open>src/src/mt/scheduler/plugin/kupl_sched_plugin_load.cpp\<close> and the create functions of the front
  plugins).
\<close>

section \<open>The table\<close>

text \<open>A loaded plugin: its name, and the name and the score its init function reports.\<close>

record plugin_entry =
  pl_name :: string
  pl_prop_name :: string
  pl_score :: int

record kupl_sched_plugin_info =
  pi_best_score_idx :: int
  pi_plugins :: "plugin_entry list"

text \<open>The init functions of the built-in plugins.\<close>

definition builtin_plugin :: "string \<Rightarrow> plugin_entry option" where
  "builtin_plugin plugin_name =
     (if plugin_name = ''mq'' then Some \<lparr>pl_name = ''mq'', pl_prop_name = ''mq'', pl_score = -1\<rparr>
      else if plugin_name = ''sspe'' then Some \<lparr>pl_name = ''sspe'', pl_prop_name = ''sspe'', pl_score = -1\<rparr>
      else if plugin_name = ''hybrid'' then Some \<lparr>pl_name = ''hybrid'', pl_prop_name = ''hybrid'', pl_score = 0\<rparr>
      else if plugin_name = ''static_mq''
      then Some \<lparr>pl_name = ''static_mq'', pl_prop_name = ''static_mq'', pl_score = -1\<rparr>
      else if plugin_name = ''expand_static_mq''
      then Some \<lparr>pl_name = ''expand_static_mq'', pl_prop_name = ''static_mq'', pl_score = -1\<rparr>
      else None)"

definition kupl_sched_plugin_load_builtin :: "string \<Rightarrow> kupl_sched_plugin_info \<Rightarrow> int \<times> kupl_sched_plugin_info" where
  "kupl_sched_plugin_load_builtin plugin_name info =
     (case builtin_plugin plugin_name of
        None \<Rightarrow> (KUPL_ERROR, info)
      | Some plugin \<Rightarrow> (KUPL_OK, info\<lparr>pi_plugins := pi_plugins info @ [plugin]\<rparr>))"

text \<open>The last plugin whose reported name is the user's, and the last of the best scores.\<close>

fun user_plugin_idx :: "string \<Rightarrow> int \<Rightarrow> plugin_entry list \<Rightarrow> int \<Rightarrow> int" where
  "user_plugin_idx user i [] best = best"
| "user_plugin_idx user i (e # es) best =
     user_plugin_idx user (i + 1) es (if user = pl_prop_name e then i else best)"

fun best_plugin_idx :: "plugin_entry list \<Rightarrow> int \<Rightarrow> plugin_entry list \<Rightarrow> int \<Rightarrow> int" where
  "best_plugin_idx all_plugins i [] best = best"
| "best_plugin_idx all_plugins i (e # es) best =
     best_plugin_idx all_plugins (i + 1) es
       (if pl_score e \<ge> pl_score (all_plugins ! nat best) then i else best)"

definition kupl_sched_plugin_load :: "bool \<Rightarrow> string \<Rightarrow> int \<times> kupl_sched_plugin_info option" where
  "kupl_sched_plugin_load ok user_select_plugin =
     (if \<not> ok then (KUPL_ERROR, None)
      else
        (let info = \<lparr>pi_best_score_idx = -1, pi_plugins = []\<rparr>;
             info = fold (\<lambda>name info. snd (kupl_sched_plugin_load_builtin name info))
                      [''sspe'', ''mq'', ''static_mq'', ''expand_static_mq'', ''hybrid''] info
         in if pi_plugins info = [] then (KUPL_ERROR, None)
            else (let best = (if user_select_plugin \<noteq> ''''
                              then user_plugin_idx user_select_plugin 0 (pi_plugins info) (-1) else -1);
                      best = (if best < 0
                              then best_plugin_idx (pi_plugins info) 1 (drop 1 (pi_plugins info)) 0
                              else best)
                  in (KUPL_OK, Some (info\<lparr>pi_best_score_idx := best\<rparr>)))))"

text \<open>The plugin that a name, or no name, selects.\<close>

definition kupl_sched_plugin_find :: "string option \<Rightarrow> kupl_sched_plugin_info option \<Rightarrow> plugin_entry option" where
  "kupl_sched_plugin_find plugin_name ginfo =
     (case ginfo of
        None \<Rightarrow> None
      | Some info \<Rightarrow>
          if pi_best_score_idx info < 0 then None
          else (case plugin_name of
                  None \<Rightarrow> Some (pi_plugins info ! nat (pi_best_score_idx info))
                | Some name \<Rightarrow> find (\<lambda>e. pl_name e = name) (pi_plugins info)))"

section \<open>Creation of instances\<close>

text \<open>
  What the create functions read: the number of executors, the policy the user configured, the
  outcomes of the allocations, and the results of the create functions of the queue plugins
  (Kupl\_Sched\_Plugin and Kupl\_Sched\_Mq).
\<close>

record plugin_env =
  en_num_executors :: int
  en_policy :: string
  en_alloc :: bool
  en_slots :: bool
  en_info :: "kupl_sched_plugin_info option"
  en_mq :: "kupl_sched_mq option option"
  en_static_mq :: "kupl_sched_static_mq option option"
  en_expand :: "kupl_sched_expand_static_mq option option"

text \<open>\<open>kupl_sched_hybrid_get_plugin\<close>: the named plugin, or the default of its level.\<close>

definition kupl_sched_hybrid_get_plugin :: "plugin_env \<Rightarrow> string \<Rightarrow> int \<Rightarrow> plugin_entry option" where
  "kupl_sched_hybrid_get_plugin env plugin_name level =
     (case kupl_sched_plugin_find (Some plugin_name) (en_info env) of
        Some e \<Rightarrow> Some e
      | None \<Rightarrow> kupl_sched_plugin_find (Some (if level = 0 then ''sspe'' else ''static_mq'')) (en_info env))"

text \<open>
  A call of \<open>plugin.create\<close>: \<open>None\<close> when it does not return (or calls a null function),
  \<open>Some None\<close> when it returns the null pointer.  \<open>hybrid\<close> calls the create functions of the two
  plugins it selects.
\<close>

partial_function (option) plugin_create :: "plugin_env \<Rightarrow> string \<Rightarrow> plugin_sched option option" where
  "plugin_create env name =
     (if name = ''sspe''
      then Some (map_option Sspe (sspe_create (en_num_executors env) (en_alloc env) (en_slots env)))
      else if name = ''mq'' then map_option (map_option Mq) (en_mq env)
      else if name = ''static_mq'' then map_option (map_option Static_mq) (en_static_mq env)
      else if name = ''expand_static_mq'' then map_option (map_option Expand_static_mq) (en_expand env)
      else if name = ''hybrid''
      then (if \<not> en_alloc env then Some None
            else (let inner = (if en_policy env \<noteq> '''' \<and> en_policy env \<noteq> ''sspe'' then en_policy env
                               else ''static_mq'')
                  in case (kupl_sched_hybrid_get_plugin env ''sspe'' 0, kupl_sched_hybrid_get_plugin env inner 1) of
                       (Some e0, Some e1) \<Rightarrow>
                         Option.bind (plugin_create env (pl_name e0)) (\<lambda>p0.
                           case p0 of None \<Rightarrow> Some None
                           | Some p0 \<Rightarrow> Option.bind (plugin_create env (pl_name e1)) (\<lambda>p1.
                               case p1 of None \<Rightarrow> Some None
                               | Some p1 \<Rightarrow> Some (Some (Hybrid p0 False p1 False))))
                     | _ \<Rightarrow> None))
      else None)"

section \<open>Facts\<close>

definition builtin_plugins :: "plugin_entry list" where
  "builtin_plugins = [
     \<lparr>pl_name = ''sspe'', pl_prop_name = ''sspe'', pl_score = -1\<rparr>,
     \<lparr>pl_name = ''mq'', pl_prop_name = ''mq'', pl_score = -1\<rparr>,
     \<lparr>pl_name = ''static_mq'', pl_prop_name = ''static_mq'', pl_score = -1\<rparr>,
     \<lparr>pl_name = ''expand_static_mq'', pl_prop_name = ''static_mq'', pl_score = -1\<rparr>,
     \<lparr>pl_name = ''hybrid'', pl_prop_name = ''hybrid'', pl_score = 0\<rparr>]"

lemma plugin_load:
  "kupl_sched_plugin_load True user = (KUPL_OK, Some \<lparr>pi_best_score_idx =
     (if user = ''sspe'' then 0 else if user = ''mq'' then 1 else if user = ''static_mq'' then 3 else 4),
     pi_plugins = builtin_plugins\<rparr>)"
  by (simp add: kupl_sched_plugin_load_def kupl_sched_plugin_load_builtin_def builtin_plugin_def
      builtin_plugins_def Let_def)

text \<open>
  Loading succeeds and a name then finds exactly the plugin of that name; without a name, the
  policy \<open>static_mq\<close> selects \<open>expand_static_mq\<close>, because that plugin reports the other's name.
\<close>

lemma plugin_find_by_name:
  assumes "kupl_sched_plugin_load True user = (st, Some info)"
  shows "map_option pl_name (kupl_sched_plugin_find (Some name) (Some info)) =
    (if name \<in> {''sspe'', ''mq'', ''static_mq'', ''expand_static_mq'', ''hybrid''} then Some name else None)"
  using assms by (auto simp: plugin_load kupl_sched_plugin_find_def builtin_plugins_def split: if_splits)

theorem plugin_find_static_mq_default:
  "map_option pl_name (kupl_sched_plugin_find None (snd (kupl_sched_plugin_load True ''static_mq''))) =
     Some ''expand_static_mq'' \<and>
   map_option pl_name (kupl_sched_plugin_find None (snd (kupl_sched_plugin_load True ''expand_static_mq''))) =
     Some ''hybrid''"
  by (simp add: plugin_load kupl_sched_plugin_find_def builtin_plugins_def)

lemmas plugin_create_eval = plugin_create.simps[of _ "''sspe''", simplified]
  plugin_create.simps[of _ "''mq''", simplified] plugin_create.simps[of _ "''static_mq''", simplified]
  plugin_create.simps[of _ "''expand_static_mq''", simplified]

text \<open>What the hybrid plugin selects.\<close>

lemma hybrid_outer:
  assumes "en_info env = snd (kupl_sched_plugin_load True user)"
  shows "kupl_sched_hybrid_get_plugin env ''sspe'' 0 = Some \<lparr>pl_name = ''sspe'', pl_prop_name = ''sspe'', pl_score = -1\<rparr>"
  using assms by (auto simp: kupl_sched_hybrid_get_plugin_def plugin_load builtin_plugins_def kupl_sched_plugin_find_def)

lemma hybrid_inner:
  assumes "en_info env = snd (kupl_sched_plugin_load True user)"
  shows "\<exists>e. kupl_sched_hybrid_get_plugin env name 1 = Some e \<and>
    (if name \<in> {''sspe'', ''mq'', ''static_mq'', ''expand_static_mq'', ''hybrid''} then pl_name e = name
     else pl_name e = ''static_mq'')"
  using assms
  by (auto simp: kupl_sched_hybrid_get_plugin_def plugin_load builtin_plugins_def kupl_sched_plugin_find_def)

text \<open>The recursion of a hybrid plugin that selects itself as its inner plugin never returns.\<close>

lemma hybrid_create_stuck:
  assumes "plugin_create env name = Some r" and "en_alloc env" "en_policy env = ''hybrid''"
    and "en_info env = snd (kupl_sched_plugin_load True user)" "en_slots env"
  shows "name \<noteq> ''hybrid''"
proof -
  let ?P = "\<lambda>env name (r :: plugin_sched option). en_alloc env \<longrightarrow> en_policy env = ''hybrid'' \<longrightarrow>
    en_info env = snd (kupl_sched_plugin_load True user) \<longrightarrow> en_slots env \<longrightarrow>
    name \<noteq> ''hybrid'' \<and> (name = ''sspe'' \<longrightarrow> r \<noteq> None)"
  have "?P env name r"
  proof (rule plugin_create.raw_induct[where P = ?P, OF _ assms(1)], intro impI)
    fix f :: "plugin_env \<Rightarrow> string \<Rightarrow> plugin_sched option option" and env :: plugin_env and name r
    assume IH: "\<And>env name r. f env name = Some r \<Longrightarrow> ?P env name r"
      and A: "en_alloc env" "en_policy env = ''hybrid''"
        "en_info env = snd (kupl_sched_plugin_load True user)" "en_slots env"
    note I = IH[THEN mp, THEN mp, THEN mp, THEN mp, OF _ A]
    obtain e where e: "kupl_sched_hybrid_get_plugin env ''hybrid'' 1 = Some e" "pl_name e = ''hybrid''"
      using hybrid_inner[OF A(3), of "''hybrid''"] by auto
    assume eq: "(if name = ''sspe''
      then Some (map_option Sspe (sspe_create (en_num_executors env) (en_alloc env) (en_slots env)))
      else if name = ''mq'' then map_option (map_option Mq) (en_mq env)
      else if name = ''static_mq'' then map_option (map_option Static_mq) (en_static_mq env)
      else if name = ''expand_static_mq'' then map_option (map_option Expand_static_mq) (en_expand env)
      else if name = ''hybrid''
      then (if \<not> en_alloc env then Some None
            else (let inner = (if en_policy env \<noteq> '''' \<and> en_policy env \<noteq> ''sspe'' then en_policy env
                               else ''static_mq'')
                  in case (kupl_sched_hybrid_get_plugin env ''sspe'' 0, kupl_sched_hybrid_get_plugin env inner 1) of
                       (Some e0, Some e1) \<Rightarrow>
                         Option.bind (f env (pl_name e0)) (\<lambda>p0.
                           case p0 of None \<Rightarrow> Some None
                           | Some p0 \<Rightarrow> Option.bind (f env (pl_name e1)) (\<lambda>p1.
                               case p1 of None \<Rightarrow> Some None
                               | Some p1 \<Rightarrow> Some (Some (Hybrid p0 False p1 False))))
                     | _ \<Rightarrow> None))
      else None) = Some r"
    show "name \<noteq> ''hybrid'' \<and> (name = ''sspe'' \<longrightarrow> r \<noteq> None)"
    proof
      show "name = ''sspe'' \<longrightarrow> r \<noteq> None" using eq A by (auto simp: sspe_create_def)
      show "name \<noteq> ''hybrid''"
      proof
        assume h: "name = ''hybrid''"
        have "Option.bind (f env ''sspe'') (\<lambda>p0. case p0 of None \<Rightarrow> Some None
            | Some p0 \<Rightarrow> Option.bind (f env ''hybrid'') (\<lambda>p1. case p1 of None \<Rightarrow> Some None
                | Some p1 \<Rightarrow> Some (Some (Hybrid p0 False p1 False)))) = Some r"
          using eq by (simp add: h A(1,2) hybrid_outer[OF A(3)] e Let_def)
        then obtain x where x: "f env ''sspe'' = Some x" by (auto simp: bind_eq_Some_conv)
        then obtain p0 where "x = Some p0" using I[OF x] by auto
        with x eq obtain y where "f env ''hybrid'' = Some y"
          by (auto simp: h A(1,2) hybrid_outer[OF A(3)] e Let_def bind_eq_Some_conv)
        then show False using I by blast
      qed
    qed
  qed
  then show ?thesis using assms(2-5) by simp
qed

lemma hybrid_create_unfold:
  assumes "en_info env = snd (kupl_sched_plugin_load True user)" and "en_alloc env" "en_policy env \<noteq> ''hybrid''"
  shows "\<exists>name\<in>{''mq'', ''static_mq'', ''expand_static_mq''}. plugin_create env ''hybrid'' =
    Option.bind (plugin_create env ''sspe'') (\<lambda>p0. case p0 of None \<Rightarrow> Some None
      | Some p0 \<Rightarrow> Option.bind (plugin_create env name) (\<lambda>p1. case p1 of None \<Rightarrow> Some None
          | Some p1 \<Rightarrow> Some (Some (Hybrid p0 False p1 False))))"
proof -
  define inner where "inner = (if en_policy env \<noteq> '''' \<and> en_policy env \<noteq> ''sspe'' then en_policy env else ''static_mq'')"
  obtain e where e: "kupl_sched_hybrid_get_plugin env inner 1 = Some e"
    "pl_name e \<in> {''mq'', ''static_mq'', ''expand_static_mq''}"
    using hybrid_inner[OF assms(1), of inner] assms(3) by (auto simp: inner_def split: if_splits)
  have "plugin_create env ''hybrid'' =
    Option.bind (plugin_create env ''sspe'') (\<lambda>p0. case p0 of None \<Rightarrow> Some None
      | Some p0 \<Rightarrow> Option.bind (plugin_create env (pl_name e)) (\<lambda>p1. case p1 of None \<Rightarrow> Some None
          | Some p1 \<Rightarrow> Some (Some (Hybrid p0 False p1 False))))"
    by (subst plugin_create.simps)
      (simp add: Let_def hybrid_outer[OF assms(1)] assms(2) e(1) inner_def[symmetric] del: plugin_create.simps)
  then show ?thesis using e(2) by blast
qed

text \<open>
  With the scheduling policy \<open>hybrid\<close> the creation of the scheduler never returns: the hybrid plugin
  selects itself as its inner plugin. With any other policy it returns when the create functions of
  the queue plugins do.
\<close>

theorem hybrid_create_returns:
  assumes "en_info env = snd (kupl_sched_plugin_load True (en_policy env))" and "en_alloc env" "en_slots env"
    and "en_mq env \<noteq> None" "en_static_mq env \<noteq> None" "en_expand env \<noteq> None"
  shows "(plugin_create env ''hybrid'' = None) \<longleftrightarrow> en_policy env = ''hybrid''"
proof (cases "en_policy env = ''hybrid''")
  case True
  then show ?thesis
    using hybrid_create_stuck[of env "''hybrid''" _ "en_policy env"] assms(1-3)
    by (cases "plugin_create env ''hybrid''") auto
next
  case False
  then show ?thesis
    using hybrid_create_unfold[OF assms(1,2) False] assms(4-6)
    by (auto simp: plugin_create_eval sspe_create_def split: option.splits)
qed

text \<open>A new hybrid instance satisfies the invariant and holds nothing.\<close>

lemma hybrid_create_inv:
  assumes "plugin_create env ''hybrid'' = Some (Some p)"
    and "en_info env = snd (kupl_sched_plugin_load True (en_policy env))" "0 \<le> en_num_executors env"
    and "en_alloc env" "en_policy env \<noteq> ''hybrid''"
    and "\<forall>s. en_mq env = Some (Some s) \<longrightarrow> mq_inv s \<and> mq_pending s = {#}"
    and "\<forall>s. en_static_mq env = Some (Some s) \<longrightarrow> sm_inv s \<and> sm_pending s = {#}"
    and "\<forall>s. en_expand env = Some (Some s) \<longrightarrow> se_inv s \<and> se_pending s = {#}"
  shows "plugin_inv tbs p \<and> plugin_pending p = {#} \<and> plugin_held p = {}"
proof -
  obtain name where n: "name \<in> {''mq'', ''static_mq'', ''expand_static_mq''}"
    and eq: "plugin_create env ''hybrid'' =
      Option.bind (plugin_create env ''sspe'') (\<lambda>p0. case p0 of None \<Rightarrow> Some None
        | Some p0 \<Rightarrow> Option.bind (plugin_create env name) (\<lambda>p1. case p1 of None \<Rightarrow> Some None
            | Some p1 \<Rightarrow> Some (Some (Hybrid p0 False p1 False))))"
    using hybrid_create_unfold[OF assms(2,4,5)] by blast
  obtain q0 q1 where q: "plugin_create env ''sspe'' = Some (Some q0)" "plugin_create env name = Some (Some q1)"
    "p = Hybrid q0 False q1 False"
    using eq[unfolded assms(1), symmetric] by (auto simp: bind_eq_Some_conv split: option.splits)
  have "plugin_inv tbs q0 \<and> plugin_pending q0 = {#} \<and> plugin_held q0 = {}"
    using q(1) assms(3) by (auto simp: plugin_create_eval sspe_create_def split: if_splits)
  moreover have "plugin_inv tbs q1 \<and> plugin_pending q1 = {#} \<and> plugin_held q1 = {}"
    using n q(2) assms(6-8) by (auto simp: plugin_create_eval)
  ultimately show ?thesis by (simp add: q(3))
qed

end
