(* ===== verification/Kupl_Sched.thy ===== *)
theory Kupl_Sched
  imports Kupl_Sched_Load
begin

text \<open>
  The front end of the scheduler (\<open>src/src/mt/scheduler/kupl_sched.cpp\<close>): the global scheduler and
  the one of the expanded executors, and the calls that submit a task or execute one.
\<close>

section \<open>Schedulers\<close>

record kupl_sched =
  ks_ref :: int
  ks_finished :: bool
  ks_plugin_name :: string
  ks_plugin_sched :: plugin_sched

text \<open>
  \<open>kupl_sched_create\<close>: \<open>ok\<close> is the outcome of its allocation; \<open>None\<close> when it does not return.
\<close>

definition kupl_sched_create :: "bool \<Rightarrow> plugin_env \<Rightarrow> string option \<Rightarrow> kupl_sched option option" where
  "kupl_sched_create ok env plugin_name =
     (if \<not> ok then Some None
      else (case kupl_sched_plugin_find plugin_name (en_info env) of
          None \<Rightarrow> Some None
        | Some e \<Rightarrow>
            map_option (map_option (\<lambda>p. \<lparr>ks_ref = 1, ks_finished = False, ks_plugin_name = pl_name e,
                                        ks_plugin_sched = p\<rparr>))
              (plugin_create env (pl_name e))))"

text \<open>
  \<open>kupl_sched_cleanup\<close>: under the pthread backend it waits until nobody refers to the scheduler,
  under the OpenMP backend the last caller frees it.  \<open>Some None\<close> is a freed scheduler, \<open>None\<close> a
  wait that does not end unless other threads drop their references.
\<close>

definition kupl_sched_cleanup :: "bool \<Rightarrow> kupl_sched option \<Rightarrow> kupl_sched option option" where
  "kupl_sched_cleanup pthread sched =
     (case sched of
        None \<Rightarrow> Some None
      | Some s \<Rightarrow>
          (let s = s\<lparr>ks_finished := True, ks_ref := ks_ref s - 1\<rparr>
           in if pthread then (if ks_ref s = 0 then Some None else None)
              else if ks_ref s + 1 > 1 then Some (Some s) else Some None))"

record sched_globals =
  gs_inited :: bool
  gs_info :: "kupl_sched_plugin_info option"
  gs_sched :: "kupl_sched option"
  gs_expand :: "kupl_sched option"

definition kupl_sched_init :: "bool \<Rightarrow> bool \<Rightarrow> plugin_env \<Rightarrow> sched_globals \<Rightarrow> (int \<times> sched_globals) option" where
  "kupl_sched_init loadok ok env gs =
     (let (st, info) = kupl_sched_plugin_load loadok (en_policy env) in
      if st \<noteq> KUPL_OK then Some (KUPL_ERROR, gs\<lparr>gs_info := info\<rparr>)
      else (case kupl_sched_create ok (env\<lparr>en_info := info\<rparr>)
                   (Some (if en_policy env = ''sspe'' then ''sspe'' else ''hybrid'')) of
          None \<Rightarrow> None
        | Some None \<Rightarrow> Some (KUPL_ERROR, gs\<lparr>gs_info := None, gs_sched := None\<rparr>)
        | Some sched \<Rightarrow> Some (KUPL_OK, gs\<lparr>gs_info := info, gs_sched := sched, gs_inited := True\<rparr>)))"

text \<open>The expand call of a plugin; only \<open>expand_static_mq\<close> has one, the others are null pointers.\<close>

fun plugin_expand :: "bool list \<Rightarrow> plugin_sched \<Rightarrow> plugin_sched option option" where
  "plugin_expand qok (Expand_static_mq s) =
     map_option (map_option Expand_static_mq) (kupl_sched_expand_static_mq_expand qok s)"
| "plugin_expand qok p = None"

definition kupl_sched_expand :: "bool \<Rightarrow> plugin_env \<Rightarrow> bool list \<Rightarrow> sched_globals \<Rightarrow> (int \<times> sched_globals) option" where
  "kupl_sched_expand ok env qok gs =
     (case gs_expand gs of
        None \<Rightarrow>
          (case kupl_sched_create ok (env\<lparr>en_info := gs_info gs\<rparr>) (Some ''expand_static_mq'') of
             None \<Rightarrow> None
           | Some None \<Rightarrow> Some (KUPL_ERROR, gs\<lparr>gs_info := None\<rparr>)
           | Some sched \<Rightarrow> Some (KUPL_OK, gs\<lparr>gs_expand := sched\<rparr>))
      | Some s \<Rightarrow>
          (case plugin_expand qok (ks_plugin_sched s) of
             None \<Rightarrow> None
           | Some None \<Rightarrow> Some (KUPL_ERROR, gs\<lparr>gs_expand := None\<rparr>)
           | Some (Some p) \<Rightarrow> Some (KUPL_OK, gs\<lparr>gs_expand := Some (s\<lparr>ks_plugin_sched := p\<rparr>)\<rparr>)))"

definition kupl_sched_expand_fini :: "bool \<Rightarrow> sched_globals \<Rightarrow> sched_globals option" where
  "kupl_sched_expand_fini pthread gs =
     map_option (\<lambda>_. gs\<lparr>gs_expand := None\<rparr>) (kupl_sched_cleanup pthread (gs_expand gs))"

definition kupl_sched_fini :: "bool \<Rightarrow> sched_globals \<Rightarrow> sched_globals option" where
  "kupl_sched_fini pthread gs =
     (if kupl_sched_cleanup pthread (gs_sched gs) = None then None
      else if kupl_sched_cleanup pthread (gs_expand gs) = None then None
      else Some (gs\<lparr>gs_sched := None, gs_expand := None, gs_info := None\<rparr>))"

section \<open>Submitting and executing\<close>

text \<open>
  What the calls work on: the instance of the plugin, the flags of the barrier, the task bases, the
  counters of unfinished tasks, and for every thread its \<open>sched_full\<close> mark and yield counter.
  \<open>th\<close> is the calling thread and \<open>g\<close> its executor number.
\<close>

record sched_state =
  st_plugin :: plugin_sched
  st_flags :: "nat \<Rightarrow> nat"
  st_tbs :: "ptr \<Rightarrow> kupl_taskbase"
  st_counts :: "ptr \<Rightarrow> u32"
  st_full :: "nat \<Rightarrow> bool"
  st_yield :: "nat \<Rightarrow> int"

text \<open>
  What the caller does next: nothing, run the task (\<open>tb->ops->invoke\<close>), deal with a thread that was
  not accepted, or give up the processor.
\<close>

datatype sched_action = Queued | Invoke ptr | Refused | Nothing bool

definition kupl_sched_add_tb :: "(int \<Rightarrow> int) \<Rightarrow> bool \<Rightarrow> nat \<Rightarrow> int \<Rightarrow> ptr \<Rightarrow> sched_state \<Rightarrow>
    (sched_action \<times> sched_state) option" where
  "kupl_sched_add_tb l ep th g tb s =
     (let t = (st_tbs s tb)\<lparr>tb_state := tb_state (st_tbs s tb) OR KUPL_TB_STATE_READY\<rparr>;
          s = s\<lparr>st_tbs := (st_tbs s)(tb := t), st_counts := kupl_tb_count_add (st_counts s) t\<rparr>
      in if st_full s th \<or> tb_flag t = KUPL_TB_FLAG_IMM then Some (Invoke tb, s)
         else (case plugin_add_tb l ep (st_tbs s) g (st_plugin s) tb of
             None \<Rightarrow> None
           | Some (status, p) \<Rightarrow>
               (let s = s\<lparr>st_plugin := p\<rparr>
                in if status \<noteq> KUPL_OK then Some (Invoke tb, s\<lparr>st_full := (st_full s)(th := True)\<rparr>)
                   else Some (Queued, s))))"

definition kupl_sched_add_ult :: "(int \<Rightarrow> int) \<Rightarrow> bool \<Rightarrow> int \<Rightarrow> ptr \<Rightarrow> sched_state \<Rightarrow> (int \<times> sched_state) option" where
  "kupl_sched_add_ult l ep g tb s =
     map_option (\<lambda>(status, p). (status, s\<lparr>st_plugin := p\<rparr>))
       (plugin_add_tb l ep (st_tbs s) g (st_plugin s) tb)"

definition kupl_sched_yield :: "bool \<Rightarrow> int \<Rightarrow> nat \<Rightarrow> sched_state \<Rightarrow> bool \<times> sched_state" where
  "kupl_sched_yield use_yield init_count th s =
     (if use_yield
      then (let c = st_yield s th - 1
            in if c \<le> 0 then (True, s\<lparr>st_yield := (st_yield s)(th := init_count)\<rparr>)
               else (False, s\<lparr>st_yield := (st_yield s)(th := c)\<rparr>))
      else (False, s))"

definition kupl_sched_execute_tb :: "bool \<Rightarrow> int \<Rightarrow> (int \<Rightarrow> int) \<Rightarrow> bool \<Rightarrow> nat \<Rightarrow> int \<Rightarrow> sched_state \<Rightarrow>
    (sched_action \<times> sched_state) option" where
  "kupl_sched_execute_tb use_yield init_count l ep th g s =
     (case plugin_get_tb l ep (st_tbs s) g (st_plugin s) (st_flags s) of
        None \<Rightarrow> None
      | Some (tb, flags, p) \<Rightarrow>
          (let s = s\<lparr>st_plugin := p, st_flags := flags\<rparr>
           in case tb of
                None \<Rightarrow> (let (y, s) = kupl_sched_yield use_yield init_count th s in Some (Nothing y, s))
              | Some t \<Rightarrow> Some (Invoke t, s\<lparr>st_full := (st_full s)(th := False)\<rparr>)))"

section \<open>Runs\<close>

text \<open>
  A call of the front end (a task or a user-level thread submitted, a task executed), or a change of
  the barrier flags by another part of the library; a task that an invoked task submits is a later
  call of the run.
\<close>

datatype sched_event = Submit nat int ptr | Add_Ult int ptr | Execute nat int | Flags "nat \<Rightarrow> nat"

fun event_step :: "bool \<Rightarrow> int \<Rightarrow> (int \<Rightarrow> int) \<Rightarrow> bool \<Rightarrow> sched_event \<Rightarrow> sched_state \<Rightarrow>
    (sched_action \<times> sched_state) option" where
  "event_step uy ic l ep (Submit th g tb) s = kupl_sched_add_tb l ep th g tb s"
| "event_step uy ic l ep (Add_Ult g tb) s =
     map_option (\<lambda>(status, s). (if status = KUPL_OK then Queued else Refused, s)) (kupl_sched_add_ult l ep g tb s)"
| "event_step uy ic l ep (Execute th g) s = kupl_sched_execute_tb uy ic l ep th g s"
| "event_step uy ic l ep (Flags f) s = Some (Queued, s\<lparr>st_flags := f\<rparr>)"

definition submitted :: "sched_event \<Rightarrow> sched_action \<Rightarrow> ptr multiset" where
  "submitted e a =
     (case e of Submit th g tb \<Rightarrow> {#tb#} | Add_Ult g tb \<Rightarrow> (if a = Refused then {#} else {#tb#}) | _ \<Rightarrow> {#})"

definition invoked :: "sched_action \<Rightarrow> ptr multiset" where
  "invoked a = (case a of Invoke tb \<Rightarrow> {#tb#} | _ \<Rightarrow> {#})"

fun event_run :: "bool \<Rightarrow> int \<Rightarrow> (int \<Rightarrow> int) \<Rightarrow> bool \<Rightarrow> sched_event list \<Rightarrow> sched_state \<Rightarrow>
    (ptr multiset \<times> ptr multiset \<times> sched_state) option" where
  "event_run uy ic l ep [] s = Some ({#}, {#}, s)"
| "event_run uy ic l ep (e # es) s =
     (case event_step uy ic l ep e s of
        None \<Rightarrow> None
      | Some (a, s') \<Rightarrow>
          map_option (\<lambda>(i, j, u). (submitted e a + i, invoked a + j, u)) (event_run uy ic l ep es s'))"

text \<open>The marks of the tasks, which decide where hybrid keeps them, do not change.\<close>

definition same_flags :: "(ptr \<Rightarrow> kupl_taskbase) \<Rightarrow> (ptr \<Rightarrow> kupl_taskbase) \<Rightarrow> bool" where
  "same_flags tbs tbs' \<longleftrightarrow> (\<forall>t. tb_flag (tbs t) = tb_flag (tbs' t))"

lemma same_flags_outer: "same_flags tbs tbs' \<Longrightarrow> tb_outer tbs = tb_outer tbs'"
  by (simp add: same_flags_def tb_outer_def fun_eq_iff)

lemma same_flags_slotted: "same_flags tbs tbs' \<Longrightarrow> plugin_slotted tbs p = plugin_slotted tbs' p"
  by (induction p) (auto simp: fun_eq_iff dest!: same_flags_outer)

lemma same_flags_inv: "same_flags tbs tbs' \<Longrightarrow> plugin_inv tbs p = plugin_inv tbs' p"
  by (induction p) (auto dest!: same_flags_outer)

text \<open>The tasks that are consumed when they are executed.\<close>

definition consumed :: "sched_state \<Rightarrow> ptr \<Rightarrow> bool" where
  "consumed s t \<longleftrightarrow> \<not> plugin_slotted (st_tbs s) (st_plugin s) t"

lemma consumed_fun: "consumed s = (\<lambda>t. \<not> plugin_slotted (st_tbs s) (st_plugin s) t)"
  by (simp add: consumed_def fun_eq_iff)

definition sched_ok :: "sched_state \<Rightarrow> bool" where
  "sched_ok s \<longleftrightarrow> plugin_inv (st_tbs s) (st_plugin s)"

lemma add_tb_step:
  assumes "sched_ok s" and "kupl_sched_add_tb l ep th g tb s = Some (a, s')"
  shows "sched_ok s' \<and> consumed s' = consumed s \<and>
    plugin_pending (st_plugin s) + filter_mset (consumed s) {#tb#} =
      filter_mset (consumed s) (invoked a) + plugin_pending (st_plugin s')"
proof -
  define t where "t = (st_tbs s tb)\<lparr>tb_state := tb_state (st_tbs s tb) OR KUPL_TB_STATE_READY\<rparr>"
  define tbs where "tbs = (st_tbs s)(tb := t)"
  have same: "same_flags (st_tbs s) tbs" by (simp add: same_flags_def tbs_def t_def)
  have inv: "plugin_inv tbs (st_plugin s)" using assms(1) same_flags_inv[OF same] by (simp add: sched_ok_def)
  have sl: "plugin_slotted (st_tbs s) p = plugin_slotted tbs p" for p
    using same_flags_slotted[OF same] by blast
  show ?thesis
  proof (cases "st_full s th \<or> tb_flag t = KUPL_TB_FLAG_IMM")
    case True
    then have "a = Invoke tb" "st_tbs s' = tbs" "st_plugin s' = st_plugin s"
      using assms(2) by (auto simp: kupl_sched_add_tb_def Let_def t_def tbs_def)
    then show ?thesis using inv by (simp add: sched_ok_def consumed_fun invoked_def sl)
  next
    case False
    then obtain r p where r: "plugin_add_tb l ep tbs g (st_plugin s) tb = Some (r, p)"
      and s': "st_tbs s' = tbs" "st_plugin s' = p" "a = (if r = KUPL_OK then Queued else Invoke tb)"
      using assms(2)
      by (auto simp: kupl_sched_add_tb_def Let_def t_def[symmetric] tbs_def[symmetric]
          split: option.splits if_splits prod.splits)
    show ?thesis using plugins.add_slot[OF inv r] s'
      by (auto simp: sched_ok_def consumed_fun invoked_def sl)
  qed
qed

lemma execute_tb_step:
  assumes "sched_ok s" and "kupl_sched_execute_tb uy ic l ep th g s = Some (a, s')"
  shows "sched_ok s' \<and> consumed s' = consumed s \<and>
    plugin_pending (st_plugin s) = filter_mset (consumed s) (invoked a) + plugin_pending (st_plugin s')"
proof -
  obtain x f p where g: "plugin_get_tb l ep (st_tbs s) g (st_plugin s) (st_flags s) = Some (x, f, p)"
    and s': "st_tbs s' = st_tbs s" "st_plugin s' = p"
      "invoked a = (case x of None \<Rightarrow> {#} | Some t \<Rightarrow> {#t#})"
    using assms(2)
    by (auto simp: kupl_sched_execute_tb_def kupl_sched_yield_def Let_def invoked_def
        split: option.splits if_splits prod.splits)
  have inv: "plugin_inv (st_tbs s) (st_plugin s)" using assms(1) by (simp add: sched_ok_def)
  have "map_option (\<lambda>(x, f, p). (x, p)) (plugin_get_tb l ep (st_tbs s) g (st_plugin s) (st_flags s)) = Some (x, p)"
    using g by simp
  from plugins.get_slot[OF inv this]
  show ?thesis using s' by (cases x) (auto simp: sched_ok_def consumed_fun)
qed

lemma event_run_conserves:
  "sched_ok s \<Longrightarrow> event_run uy ic l ep es s = Some (i, j, s') \<Longrightarrow>
   sched_ok s' \<and> consumed s' = consumed s \<and>
   plugin_pending (st_plugin s) + filter_mset (consumed s) i =
     filter_mset (consumed s) j + plugin_pending (st_plugin s')"
proof (induction es arbitrary: s i j)
  case Nil
  then show ?case by simp
next
  case (Cons e es)
  obtain a u i' j' where u: "event_step uy ic l ep e s = Some (a, u)"
    "event_run uy ic l ep es u = Some (i', j', s')" "i = submitted e a + i'" "j = invoked a + j'"
    using Cons.prems(2) by (auto split: option.splits)
  have one: "sched_ok u \<and> consumed u = consumed s \<and>
    plugin_pending (st_plugin s) + filter_mset (consumed s) (submitted e a) =
      filter_mset (consumed s) (invoked a) + plugin_pending (st_plugin u)"
  proof (cases e)
    case (Submit th g tb)
    then show ?thesis using add_tb_step[OF Cons.prems(1)] u(1) by (simp add: submitted_def)
  next
    case (Add_Ult g tb)
    then obtain r p where r: "plugin_add_tb l ep (st_tbs s) g (st_plugin s) tb = Some (r, p)"
      and u': "u = s\<lparr>st_plugin := p\<rparr>" "a = (if r = KUPL_OK then Queued else Refused)"
      using u(1) by (auto simp: kupl_sched_add_ult_def)
    have "plugin_inv (st_tbs s) (st_plugin s)" using Cons.prems(1) by (simp add: sched_ok_def)
    from plugins.add_slot[OF this r] show ?thesis
      using Add_Ult u' by (auto simp: sched_ok_def consumed_fun invoked_def submitted_def)
  next
    case (Execute th g)
    then show ?thesis using execute_tb_step[OF Cons.prems(1)] u(1) by (simp add: submitted_def)
  next
    case (Flags f)
    then show ?thesis using Cons.prems(1) u(1)
      by (auto simp: submitted_def invoked_def sched_ok_def consumed_fun)
  qed
  then have "sched_ok s' \<and> consumed s' = consumed s \<and>
      plugin_pending (st_plugin u) + filter_mset (consumed s) i' =
      filter_mset (consumed s) j' + plugin_pending (st_plugin s')"
    using Cons.IH[OF _ u(2)] by simp
  then show ?case using one u(3,4)
    by (simp add: union_assoc) (metis union_assoc union_commute)
qed

section \<open>Properties\<close>

text \<open>
  C15: The scheduler neither loses nor duplicates the tasks that are consumed by their execution: in
  every run of the front end, by any number of threads and through any plugin, those pending at
  first and those submitted, also as user-level threads, are those that were invoked (by a get
  call, because the queue was full, or because they are immediate) and those still pending.  Every
  task of static\_mq, expand\_static\_mq and mq is consumed; nothing is claimed of the tasks that
  sspe, also as a part of hybrid, keeps in its slots, which hand out a task again and again.
\<close>

theorem sched_conserves:
  assumes "sched_ok s" and "event_run uy ic l ep es s = Some (i, j, s')"
  shows "plugin_pending (st_plugin s) + filter_mset (consumed s) i =
    filter_mset (consumed s) j + plugin_pending (st_plugin s') \<and> sched_ok s'"
  using event_run_conserves[OF assms] by simp

text \<open>A hybrid scheduler over \<open>sspe\<close> and \<open>static_mq\<close> with two executors.\<close>

definition example_sched :: sched_state where
  "example_sched = \<lparr>st_plugin = Hybrid (Sspe \<lparr>ss_slot = [None, None], ss_slot_num = 2\<rparr>) False
       (Static_mq example_sm) False,
     st_flags = (\<lambda>_. 0), st_tbs = (\<lambda>_. example_tb), st_counts = (\<lambda>_. 0), st_full = (\<lambda>_. False),
     st_yield = (\<lambda>_. 0)\<rparr>"

lemma example_sched_ok: "sched_ok example_sched"
  using example_sm_inv by (simp add: sched_ok_def example_sched_def)

theorem sched_conserves_witness:
  "\<exists>s'. event_run False 0 id False [Submit 0 0 9, Execute 1 1, Execute 0 0] example_sched =
      Some ({#9#}, {#9#}, s') \<and> plugin_pending (st_plugin s') = {#}"
proof -
  have "\<exists>s'. event_run False 0 id False [Submit 0 0 9, Execute 1 1, Execute 0 0] example_sched =
      Some ({#9#}, {#9#}, s')"
    by (simp add: kupl_sched_add_tb_def kupl_sched_execute_tb_def kupl_sched_yield_def Let_def
        kupl_sched_hybrid_add_tb_def kupl_sched_hybrid_get_tb_def submitted_def invoked_def
        example_sched_def plugin_eval example_sm_def example_tb_def tb_outer_def kupl_tb_count_add_def)
  then obtain s' where s': "event_run False 0 id False [Submit 0 0 9, Execute 1 1, Execute 0 0] example_sched =
      Some ({#9#}, {#9#}, s')" by blast
  have "consumed example_sched 9"
    by (simp add: consumed_def example_sched_def tb_outer_def example_tb_def)
  moreover have "plugin_pending (st_plugin example_sched) = {#}"
    using example_sm_inv by (simp add: example_sched_def)
  ultimately show ?thesis using sched_conserves[OF example_sched_ok s'] s' by (intro exI[of _ s']) simp
qed

end
