(* ===== verification/Kupl_Taskloop.thy ===== *)
theory Kupl_Taskloop
  imports Kupl_Range Kupl_Egroup
begin

text \<open>
  The task loop of \<open>src/src/mt/kupl_graph.cpp\<close>: a loop is cut into blocks and every block becomes a
  task of one executor of a group.  Few tasks are submitted by the caller (\<open>taskloop_linear\<close>);
  many are submitted by one dispatch task for each executor (\<open>taskloop_concurrent\<close>).

  A submitted task is its executor and the number of its block; \<open>ok k\<close> is the outcome of the
  allocation of the task of block \<open>k\<close>.  The number of blocks is a checked 64-bit product (\<open>None\<close>
  when it overflows); the other numbers lie within the range and the total, and are integers.
\<close>

section \<open>Description and division\<close>

record kupl_taskloop_desc =
  tl_field_mask :: u64
  tl_func :: "ptr option"
  tl_args :: "ptr option"
  tl_range :: "kupl_nd_range option"
  tl_egroup :: "kupl_egroup option"

definition KUPL_TASKLOOP_DESC_FIELD_DEFAULT :: u64 where "KUPL_TASKLOOP_DESC_FIELD_DEFAULT = 3"

record kupl_taskloop_info =
  ti_dim :: int
  ti_blocks :: "int list"
  ti_esize :: int
  ti_total_tasks :: int
  ti_min_tasks :: int
  ti_max_tasks :: int
  ti_extra_tasks :: int

text \<open>
  \<open>kupl_taskloop_check\<close>: the status and the range with its block sizes filled in; \<open>None\<close> when the
  check of the range overflows.  \<open>func\<close> says that the function is there.
\<close>

definition kupl_taskloop_check :: "bool \<Rightarrow> bool \<Rightarrow> kupl_taskloop_desc option \<Rightarrow>
    (int \<times> kupl_taskloop_desc option) option" where
  "kupl_taskloop_check graph func desc =
     (case desc of
        None \<Rightarrow> Some (KUPL_ERROR, desc)
      | Some d \<Rightarrow>
          if \<not> graph \<or> tl_field_mask d \<noteq> KUPL_TASKLOOP_DESC_FIELD_DEFAULT \<or> \<not> func \<or>
             tl_egroup d = None \<or> tl_range d = None
          then Some (KUPL_ERROR, desc)
          else if kupl_egroup_get_cur_size (the (tl_egroup d)) = 0 then Some (KUPL_ERROR, desc)
          else map_option (\<lambda>(st, rng). (st, Some (d\<lparr>tl_range := Some rng\<rparr>)))
                 (kupl_check_range (the (tl_range d)) KUPL_LOOP_POLICY_TASK))"

definition taskloop_blocks :: "kupl_range \<Rightarrow> int" where
  "taskloop_blocks r = (r_upper r - r_lower r + r_blocksize r - 1) sdiv r_blocksize r"

definition taskloop_info :: "kupl_nd_range \<Rightarrow> int \<Rightarrow> kupl_taskloop_info option" where
  "taskloop_info rng esize =
     (let blocks = map taskloop_blocks (take (nat (nr_dim rng)) (nr_nd_range rng))
      in do {
        total_tasks \<leftarrow> fold (\<lambda>b total. do { total \<leftarrow> total; mul64 total b }) blocks (Some 1);
        let min_tasks = total_tasks sdiv esize;
        let extra_tasks = total_tasks smod esize;
        Some \<lparr>ti_dim = nr_dim rng, ti_blocks = blocks, ti_esize = esize, ti_total_tasks = total_tasks,
          ti_min_tasks = min_tasks, ti_max_tasks = min_tasks + (if extra_tasks > 0 then 1 else 0),
          ti_extra_tasks = extra_tasks\<rparr>
      })"

text \<open>The range of a task: its number is read in the mixed radix of the blocks, the first dimension first.\<close>

fun taskloop_range_loop :: "kupl_range list \<Rightarrow> int list \<Rightarrow> int \<Rightarrow> kupl_range list" where
  "taskloop_range_loop (r # rs) (b # bs) task_id =
     (let block_idx = task_id smod b;
          lower = r_lower r + block_idx * r_blocksize r
      in \<lparr>r_lower = lower,
          r_upper = (if r_blocksize r > 0 then kupl_min (r_upper r) (lower + r_blocksize r)
                     else kupl_max (r_upper r) (lower + r_blocksize r)),
          r_step = r_step r, r_blocksize = r_blocksize r\<rparr> # taskloop_range_loop rs bs (task_id sdiv b))"
| "taskloop_range_loop rs bs task_id = []"

definition taskloop_range :: "kupl_nd_range \<Rightarrow> kupl_taskloop_info \<Rightarrow> int \<Rightarrow> kupl_nd_range" where
  "taskloop_range rng info task_id =
     \<lparr>nr_dim = ti_dim info,
      nr_nd_range = taskloop_range_loop (take (nat (ti_dim info)) (nr_nd_range rng)) (ti_blocks info) task_id\<rparr>"

section \<open>Few tasks\<close>

text \<open>
  One round over the executors of the group: the \<open>i\<close>-th task of each.  \<open>None\<close> stands for the tasks
  that could not be created: the call returns an error, what was submitted stays submitted.
\<close>

fun linear_round :: "(int \<Rightarrow> bool) \<Rightarrow> kupl_taskloop_info \<Rightarrow> int \<Rightarrow> nat list \<Rightarrow> int \<Rightarrow> int \<Rightarrow>
    (nat \<times> int) list \<times> bool" where
  "linear_round ok info i [] eidx task_id = ([], True)"
| "linear_round ok info i (eid # eids) eidx task_id =
     (if i = ti_min_tasks info \<and> eidx + ti_extra_tasks info < ti_esize info
      then linear_round ok info i eids (eidx + 1) (task_id + ti_min_tasks info)
      else if \<not> ok task_id then ([], False)
      else (let (ts, st) = linear_round ok info i eids (eidx + 1)
              (task_id + (ti_min_tasks info + (if eidx + ti_extra_tasks info \<ge> ti_esize info then 1 else 0)))
            in ((eid, task_id) # ts, st)))"

fun linear_rounds :: "(int \<Rightarrow> bool) \<Rightarrow> kupl_taskloop_info \<Rightarrow> nat list \<Rightarrow> int list \<Rightarrow> (nat \<times> int) list \<times> bool" where
  "linear_rounds ok info eids [] = ([], True)"
| "linear_rounds ok info eids (i # rounds) =
     (let (ts, st) = linear_round ok info i eids 0 i
      in if \<not> st then (ts, False)
         else (let (us, st) = linear_rounds ok info eids rounds in (ts @ us, st)))"

definition kupl_taskloop_linear :: "(int \<Rightarrow> bool) \<Rightarrow> int \<Rightarrow> kupl_egroup \<Rightarrow> kupl_taskloop_info \<Rightarrow>
    int \<times> (nat \<times> int) list" where
  "kupl_taskloop_linear ok geid grp info =
     (if geid = -1 then (KUPL_ERROR, [])
      else (let (ts, st) = linear_rounds ok info (egroup_eids grp) [0..ti_max_tasks info - 1]
            in (if st then KUPL_OK else KUPL_ERROR, ts)))"

section \<open>Many tasks\<close>

text \<open>The tasks one dispatch task submits; it stops silently when a task cannot be created.\<close>

fun dispatch_loop :: "(int \<Rightarrow> bool) \<Rightarrow> nat \<Rightarrow> int list \<Rightarrow> (nat \<times> int) list" where
  "dispatch_loop ok eid [] = []"
| "dispatch_loop ok eid (k # ks) = (if \<not> ok k then [] else (eid, k) # dispatch_loop ok eid ks)"

definition kupl_taskloop_dispatch :: "(int \<Rightarrow> bool) \<Rightarrow> kupl_taskloop_info \<Rightarrow> nat \<Rightarrow> int \<Rightarrow> (nat \<times> int) list" where
  "kupl_taskloop_dispatch ok info eid eidx =
     (let (tasks_begin, tasks_end) =
            (if ti_extra_tasks info \<noteq> 0 \<and> eidx \<ge> ti_extra_tasks info
             then (let b = eidx * ti_min_tasks info + ti_extra_tasks info in (b, b + ti_min_tasks info))
             else (let b = eidx * ti_max_tasks info in (b, b + ti_max_tasks info)))
      in dispatch_loop ok eid [tasks_begin..tasks_end - 1])"

text \<open>
  The dispatch tasks are submitted for the executors in descending order (\<open>KUPL_FOR_EACH_EGROUP_REV\<close>);
  \<open>okd i\<close> is the outcome of the allocation of the one for the executor with index \<open>i\<close>.
\<close>

fun concurrent_loop :: "(int \<Rightarrow> bool) \<Rightarrow> (nat \<times> int) list \<Rightarrow> int \<times> (nat \<times> int) list" where
  "concurrent_loop okd [] = (KUPL_OK, [])"
| "concurrent_loop okd ((eid, eidx) # ds) =
     (if \<not> okd eidx then (KUPL_ERROR, [])
      else (let (st, rs) = concurrent_loop okd ds in (st, (eid, eidx) # rs)))"

definition kupl_taskloop_concurrent :: "(int \<Rightarrow> bool) \<Rightarrow> int \<Rightarrow> kupl_egroup \<Rightarrow> int \<times> (nat \<times> int) list" where
  "kupl_taskloop_concurrent okd geid grp =
     (if geid = -1 then (KUPL_ERROR, [])
      else concurrent_loop okd (rev (zip (egroup_eids grp) [0..int (length (egroup_eids grp)) - 1])))"

definition taskloop_threshold :: int where "taskloop_threshold = 5"

text \<open>
  \<open>kupl_graph_add_taskloop\<close>: the status and the block tasks with their ranges, those of the dispatch
  tasks included.
\<close>

definition taskloop_submit :: "(int \<Rightarrow> bool) \<Rightarrow> (int \<Rightarrow> bool) \<Rightarrow> int \<Rightarrow> kupl_egroup \<Rightarrow> kupl_nd_range \<Rightarrow>
    kupl_taskloop_info \<Rightarrow> int \<times> (nat \<times> kupl_nd_range) list" where
  "taskloop_submit ok okd geid grp rng info =
     (let (st, ts) =
        (if ti_esize info * taskloop_threshold > ti_total_tasks info
         then kupl_taskloop_linear ok geid grp info
         else (let (st, ds) = kupl_taskloop_concurrent okd geid grp
               in (st, concat (map (\<lambda>(e, i). kupl_taskloop_dispatch ok info e i) ds))))
      in (st, map (\<lambda>(e, k). (e, taskloop_range rng info k)) ts))"

definition kupl_graph_add_taskloop :: "(int \<Rightarrow> bool) \<Rightarrow> (int \<Rightarrow> bool) \<Rightarrow> int \<Rightarrow> bool \<Rightarrow> bool \<Rightarrow>
    kupl_taskloop_desc option \<Rightarrow> (int \<times> (nat \<times> kupl_nd_range) list) option" where
  "kupl_graph_add_taskloop ok okd geid graph func desc =
     do {
       (st, desc) \<leftarrow> kupl_taskloop_check graph func desc;
       if st = KUPL_ERROR then Some (KUPL_ERROR, [])
       else do {
         d \<leftarrow> desc; rng \<leftarrow> tl_range d; grp \<leftarrow> tl_egroup d;
         info \<leftarrow> taskloop_info rng (int (kupl_egroup_get_cur_size grp));
         Some (taskloop_submit ok okd geid grp rng info)
       }
     }"

text \<open>
  The C++ interface (namespace \<open>kupl\<close>) has the same code once more, a function object in the tasks
  in place of the function pointer; its check leaves the function to \<open>graph_submit\<close>.
\<close>

definition taskloop_check :: "bool \<Rightarrow> kupl_taskloop_desc option \<Rightarrow> (int \<times> kupl_taskloop_desc option) option" where
  "taskloop_check graph desc =
     (case desc of
        None \<Rightarrow> Some (KUPL_ERROR, desc)
      | Some d \<Rightarrow>
          if \<not> graph \<or> tl_field_mask d \<noteq> KUPL_TASKLOOP_DESC_FIELD_DEFAULT \<or>
             tl_egroup d = None \<or> tl_range d = None
          then Some (KUPL_ERROR, desc)
          else if kupl_egroup_get_cur_size (the (tl_egroup d)) = 0 then Some (KUPL_ERROR, desc)
          else map_option (\<lambda>(st, rng). (st, Some (d\<lparr>tl_range := Some rng\<rparr>)))
                 (kupl_check_range (the (tl_range d)) KUPL_LOOP_POLICY_TASK))"

definition taskloop_linear :: "(int \<Rightarrow> bool) \<Rightarrow> int \<Rightarrow> kupl_egroup \<Rightarrow> kupl_taskloop_info \<Rightarrow>
    int \<times> (nat \<times> int) list" where
  "taskloop_linear ok geid grp info =
     (if geid = -1 then (KUPL_ERROR, [])
      else (let (ts, st) = linear_rounds ok info (egroup_eids grp) [0..ti_max_tasks info - 1]
            in (if st then KUPL_OK else KUPL_ERROR, ts)))"

definition taskloop_dispatch :: "(int \<Rightarrow> bool) \<Rightarrow> kupl_taskloop_info \<Rightarrow> nat \<Rightarrow> int \<Rightarrow> (nat \<times> int) list" where
  "taskloop_dispatch ok info eid eidx =
     (let (tasks_begin, tasks_end) =
            (if ti_extra_tasks info \<noteq> 0 \<and> eidx \<ge> ti_extra_tasks info
             then (let b = eidx * ti_min_tasks info + ti_extra_tasks info in (b, b + ti_min_tasks info))
             else (let b = eidx * ti_max_tasks info in (b, b + ti_max_tasks info)))
      in dispatch_loop ok eid [tasks_begin..tasks_end - 1])"

definition taskloop_concurrent :: "(int \<Rightarrow> bool) \<Rightarrow> int \<Rightarrow> kupl_egroup \<Rightarrow> int \<times> (nat \<times> int) list" where
  "taskloop_concurrent okd geid grp =
     (if geid = -1 then (KUPL_ERROR, [])
      else concurrent_loop okd (rev (zip (egroup_eids grp) [0..int (length (egroup_eids grp)) - 1])))"

definition graph_submit_taskloop :: "(int \<Rightarrow> bool) \<Rightarrow> (int \<Rightarrow> bool) \<Rightarrow> int \<Rightarrow> bool \<Rightarrow> bool \<Rightarrow>
    kupl_taskloop_desc option \<Rightarrow> (int \<times> (nat \<times> kupl_nd_range) list) option" where
  "graph_submit_taskloop ok okd geid graph func desc =
     (if \<not> func then Some (KUPL_ERROR, [])
      else do {
        (st, desc) \<leftarrow> taskloop_check graph desc;
        if st = KUPL_ERROR then Some (KUPL_ERROR, [])
        else do {
          d \<leftarrow> desc; rng \<leftarrow> tl_range d; grp \<leftarrow> tl_egroup d;
          info \<leftarrow> taskloop_info rng (int (kupl_egroup_get_cur_size grp));
          Some (let (st, ts) =
            (if ti_esize info * taskloop_threshold > ti_total_tasks info
             then taskloop_linear ok geid grp info
             else (let (st, ds) = taskloop_concurrent okd geid grp
                   in (st, concat (map (\<lambda>(e, i). taskloop_dispatch ok info e i) ds))))
            in (st, map (\<lambda>(e, k). (e, taskloop_range rng info k)) ts))
        }
      })"

lemma graph_submit_taskloop_eq:
  "graph_submit_taskloop ok okd geid graph func desc = kupl_graph_add_taskloop ok okd geid graph func desc"
proof (cases func)
  case False
  then show ?thesis
    by (simp add: graph_submit_taskloop_def kupl_graph_add_taskloop_def kupl_taskloop_check_def split: option.split)
next
  case True
  have c: "taskloop_check graph desc = kupl_taskloop_check graph func desc" using True
    by (cases desc) (simp_all add: taskloop_check_def kupl_taskloop_check_def)
  have e: "taskloop_linear = kupl_taskloop_linear" "taskloop_dispatch = kupl_taskloop_dispatch"
    "taskloop_concurrent = kupl_taskloop_concurrent"
    by (simp_all add: fun_eq_iff taskloop_linear_def kupl_taskloop_linear_def taskloop_dispatch_def
        kupl_taskloop_dispatch_def taskloop_concurrent_def kupl_taskloop_concurrent_def)
  show ?thesis
    unfolding graph_submit_taskloop_def kupl_graph_add_taskloop_def taskloop_submit_def c e
    using True by simp
qed

section \<open>The blocks are shared out\<close>

text \<open>The first block of the executor with index \<open>e\<close> in each of the two ways.\<close>

definition lin_start :: "kupl_taskloop_info \<Rightarrow> int \<Rightarrow> int" where
  "lin_start info e = e * ti_min_tasks info + max 0 (e - (ti_esize info - ti_extra_tasks info))"

definition con_start :: "kupl_taskloop_info \<Rightarrow> int \<Rightarrow> int" where
  "con_start info e = e * ti_min_tasks info + min e (ti_extra_tasks info)"

definition info_ok :: "kupl_taskloop_info \<Rightarrow> bool" where
  "info_ok info \<longleftrightarrow> 0 < ti_esize info \<and> 0 \<le> ti_min_tasks info \<and> 0 \<le> ti_extra_tasks info \<and>
     ti_extra_tasks info < ti_esize info \<and>
     ti_max_tasks info = ti_min_tasks info + (if ti_extra_tasks info > 0 then 1 else 0) \<and>
     ti_total_tasks info = ti_esize info * ti_min_tasks info + ti_extra_tasks info"

lemma fold_mul64: "fold (\<lambda>b t. do { t \<leftarrow> t; mul64 t b }) bs k = Some n \<Longrightarrow>
    \<exists>m. k = Some m \<and> n = m * prod_list bs"
proof (induction bs arbitrary: k)
  case (Cons b bs)
  then obtain m where "do { t \<leftarrow> k; mul64 t b } = Some m" "n = m * prod_list bs" by fastforce
  then show ?case by (auto simp: mul64_def split: Option.bind_splits)
qed simp

lemma taskloop_info_facts:
  assumes "taskloop_info rng esize = Some info"
  shows "ti_dim info = nr_dim rng" "ti_esize info = esize"
    "ti_blocks info = map taskloop_blocks (take (nat (nr_dim rng)) (nr_nd_range rng))"
    "ti_total_tasks info = prod_list (ti_blocks info)"
  using assms by (auto simp: taskloop_info_def Let_def dest: fold_mul64 split: Option.bind_splits)

lemma taskloop_info_ok:
  assumes "taskloop_info rng esize = Some info" and "0 < esize" and "0 \<le> ti_total_tasks info"
  shows "info_ok info"
proof -
  obtain n where info: "info = \<lparr>ti_dim = nr_dim rng,
      ti_blocks = map taskloop_blocks (take (nat (nr_dim rng)) (nr_nd_range rng)), ti_esize = esize,
      ti_total_tasks = n, ti_min_tasks = n sdiv esize,
      ti_max_tasks = n sdiv esize + (if n smod esize > 0 then 1 else 0), ti_extra_tasks = n smod esize\<rparr>"
    using assms(1) by (auto simp: taskloop_info_def Let_def split: Option.bind_splits)
  have "0 \<le> n" using assms(3) by (simp add: info)
  then show ?thesis using assms(2)
    by (simp add: info_ok_def info sdiv_nonneg_pos smod_nonneg_pos pos_imp_zdiv_nonneg_iff)
qed

lemma lin_start_step: "info_ok info \<Longrightarrow> lin_start info (e + 1) = lin_start info e +
    (ti_min_tasks info + (if e + ti_extra_tasks info \<ge> ti_esize info then 1 else 0))"
  by (simp add: lin_start_def info_ok_def algebra_simps max_def)

text \<open>The tasks of the rounds, all allocations succeeding.\<close>

definition lin_skip :: "kupl_taskloop_info \<Rightarrow> int \<Rightarrow> int \<Rightarrow> bool" where
  "lin_skip info i e \<longleftrightarrow> i = ti_min_tasks info \<and> e + ti_extra_tasks info < ti_esize info"

definition lin_task :: "kupl_taskloop_info \<Rightarrow> int \<Rightarrow> nat \<times> int \<Rightarrow> nat \<times> int" where
  "lin_task info i p = (fst p, i + lin_start info (snd p))"

lemma linear_round_eq:
  assumes "info_ok info"
  shows "linear_round (\<lambda>_. True) info i eids e (i + lin_start info e) =
    (map (lin_task info i)
       (filter (\<lambda>p. \<not> lin_skip info i (snd p)) (zip eids [e..e + int (length eids) - 1])), True)"
proof (induction eids arbitrary: e)
  case (Cons eid eids)
  have up: "[e..e + int (length (eid # eids)) - 1] = e # [e + 1..(e + 1) + int (length eids) - 1]"
    by (subst upto.simps) (simp add: algebra_simps)
  show ?case
  proof (cases "lin_skip info i e")
    case True
    then have "i + lin_start info e + ti_min_tasks info = i + lin_start info (e + 1)"
      by (simp add: lin_start_step[OF assms] lin_skip_def)
    then show ?thesis using True Cons.IH[of "e + 1"]
      unfolding up linear_round.simps lin_skip_def[symmetric] zip_Cons_Cons filter.simps
      by (simp only: if_True not_True_eq_False if_False snd_conv)
  next
    case False
    have "i + lin_start info e + (ti_min_tasks info + (if e + ti_extra_tasks info \<ge> ti_esize info then 1 else 0))
        = i + lin_start info (e + 1)" by (simp add: lin_start_step[OF assms])
    then show ?thesis using False Cons.IH[of "e + 1"]
      unfolding up linear_round.simps lin_skip_def[symmetric] zip_Cons_Cons filter.simps
      by (simp only: if_True not_True_eq_False not_False_eq_True if_False snd_conv Let_def case_prod_conv
          list.map lin_task_def fst_conv)
  qed
qed simp

lemma linear_rounds_eq:
  assumes "info_ok info"
  shows "linear_rounds (\<lambda>_. True) info eids rounds =
    (map (\<lambda>q. lin_task info (fst q) (snd q))
       (filter (\<lambda>q. \<not> lin_skip info (fst q) (snd (snd q)))
          (List.product rounds (zip eids [0..int (length eids) - 1]))), True)"
proof (induction rounds)
  case (Cons i rounds)
  have "i = i + lin_start info 0" using assms by (simp add: lin_start_def info_ok_def)
  then have "linear_round (\<lambda>_. True) info i eids 0 i =
      (map (lin_task info i)
        (filter (\<lambda>p. \<not> lin_skip info i (snd p)) (zip eids [0..int (length eids) - 1])), True)"
    using linear_round_eq[OF assms, of i eids 0] by simp
  then show ?case using Cons by (simp add: filter_map o_def)
qed simp

text \<open>The blocks of the executor with index \<open>e\<close> are those from its start to the next start.\<close>

lemma starts_between:
  assumes "info_ok info" and "0 \<le> e" "e < ti_esize info"
  shows "(\<exists>i. 0 \<le> i \<and> i < ti_max_tasks info \<and> \<not> lin_skip info i e \<and> k = i + lin_start info e) \<longleftrightarrow>
    lin_start info e \<le> k \<and> k < lin_start info (e + 1)"
proof
  assume "\<exists>i. 0 \<le> i \<and> i < ti_max_tasks info \<and> \<not> lin_skip info i e \<and> k = i + lin_start info e"
  then show "lin_start info e \<le> k \<and> k < lin_start info (e + 1)"
    using assms by (auto simp: lin_start_step lin_skip_def info_ok_def split: if_splits)
next
  assume "lin_start info e \<le> k \<and> k < lin_start info (e + 1)"
  then show "\<exists>i. 0 \<le> i \<and> i < ti_max_tasks info \<and> \<not> lin_skip info i e \<and> k = i + lin_start info e"
    using assms
    by (intro exI[of _ "k - lin_start info e"]) (auto simp: lin_start_step lin_skip_def info_ok_def split: if_splits)
qed

lemma int_mono_from_step:
  assumes "\<And>e::int. 0 \<le> e \<Longrightarrow> st e \<le> (st (e + 1) :: int)" and "0 \<le> a" "a \<le> b"
  shows "st a \<le> st b"
  using assms(3)
proof (induction b rule: int_ge_induct)
  case (step i)
  then show ?case using assms(1)[of i] assms(2) by simp
qed simp

text \<open>Consecutive intervals are disjoint.\<close>

lemma interval_unique:
  assumes mono: "\<And>e::int. 0 \<le> e \<Longrightarrow> st e \<le> (st (e + 1) :: int)"
    and "0 \<le> a" "st a \<le> k" "k < st (a + 1)" and "0 \<le> b" "st b \<le> k" "k < st (b + 1)"
  shows "a = b"
proof (rule ccontr)
  assume "a \<noteq> b"
  then consider "a + 1 \<le> b" | "b + 1 \<le> a" by linarith
  then show False
    using int_mono_from_step[of st, OF mono, of "a + 1" b] int_mono_from_step[of st, OF mono, of "b + 1" a] assms
    by cases auto
qed

text \<open>Numbered tasks are shared out at the positions \<open>st\<close> among the executors \<open>eids\<close>.\<close>

definition shared_out :: "(int \<Rightarrow> int) \<Rightarrow> nat list \<Rightarrow> (nat \<times> int) list \<Rightarrow> bool" where
  "shared_out st eids ts \<longleftrightarrow> distinct (map snd ts) \<and>
     (\<forall>e k. (e, k) \<in> set ts \<longleftrightarrow>
        (\<exists>j < length eids. e = eids ! j \<and> st (int j) \<le> k \<and> k < st (int j + 1)))"

lemma upto_0_nth [simp]: "j < n \<Longrightarrow> [0..int n - 1] ! j = int j"
  by simp

lemma set_zip_upto: "set (zip eids [0..int (length eids) - 1]) = {(eids ! j, int j) | j. j < length eids}"
  by (auto simp: set_zip)

lemma linear_shared_out:
  assumes ok: "info_ok info" and len: "int (length eids) = ti_esize info"
  shows "shared_out (lin_start info) eids
    (fst (linear_rounds (\<lambda>_. True) info eids [0..ti_max_tasks info - 1]))"
proof -
  let ?f = "\<lambda>q. lin_task info (fst q) (snd q)"
  let ?L = "filter (\<lambda>q. \<not> lin_skip info (fst q) (snd (snd q)))
     (List.product [0..ti_max_tasks info - 1] (zip eids [0..int (length eids) - 1]))"
  have mono: "0 \<le> e \<Longrightarrow> lin_start info e \<le> lin_start info (e + 1)" for e
    using ok by (simp add: lin_start_step info_ok_def)
  have mem: "(i, p) \<in> set ?L \<longleftrightarrow> (\<exists>j < length eids. p = (eids ! j, int j) \<and> 0 \<le> i \<and>
      i < ti_max_tasks info \<and> \<not> lin_skip info i (int j))" for i p
    by (auto simp: set_zip_upto)
  have dst: "q \<in> set ?L \<Longrightarrow> \<exists>i j. q = (i, eids ! j, int j) \<and> j < length eids \<and> 0 \<le> i \<and>
      i < ti_max_tasks info \<and> \<not> lin_skip info i (int j)" for q
    using mem[of "fst q" "snd q"] by (metis prod.collapse)
  have btw: "j < length eids \<Longrightarrow> 0 \<le> i \<Longrightarrow> i < ti_max_tasks info \<Longrightarrow> \<not> lin_skip info i (int j) \<Longrightarrow>
      lin_start info (int j) \<le> i + lin_start info (int j) \<and> i + lin_start info (int j) < lin_start info (int j + 1)"
    for i j using starts_between[OF ok, of "int j" "i + lin_start info (int j)"] len by auto
  have inj: "inj_on (\<lambda>q. snd (?f q)) (set ?L)"
  proof (rule inj_onI)
    fix q q' assume q: "q \<in> set ?L" "q' \<in> set ?L" and eq: "snd (?f q) = snd (?f q')"
    obtain i j where 1: "q = (i, eids ! j, int j)" "j < length eids" "0 \<le> i" "i < ti_max_tasks info"
      "\<not> lin_skip info i (int j)" using dst[OF q(1)] by blast
    obtain i' j' where 2: "q' = (i', eids ! j', int j')" "j' < length eids" "0 \<le> i'" "i' < ti_max_tasks info"
      "\<not> lin_skip info i' (int j')" using dst[OF q(2)] by blast
    have e: "i + lin_start info (int j) = i' + lin_start info (int j')" using eq 1(1) 2(1) by (simp add: lin_task_def)
    have "int j = int j'"
      using btw[OF 1(2-5)] btw[OF 2(2-5)] e by (intro interval_unique[of "lin_start info", OF mono]) auto
    then show "q = q'" using 1(1) 2(1) e by simp
  qed
  have "distinct ?L" by (intro distinct_filter distinct_product distinct_zipI2) simp_all
  then have "distinct (map (\<lambda>q. snd (?f q)) ?L)" using inj by (simp add: distinct_map)
  moreover have "(e, k) \<in> ?f ` set ?L \<longleftrightarrow> (\<exists>j < length eids. e = eids ! j \<and>
      lin_start info (int j) \<le> k \<and> k < lin_start info (int j + 1))" for e k
  proof -
    have "(e, k) \<in> ?f ` set ?L \<longleftrightarrow> (\<exists>i p. (i, p) \<in> set ?L \<and> e = fst p \<and> k = i + lin_start info (snd p))"
      by (force simp: lin_task_def image_iff)
    also have "\<dots> \<longleftrightarrow> (\<exists>j < length eids. e = eids ! j \<and> (\<exists>i. 0 \<le> i \<and> i < ti_max_tasks info \<and>
        \<not> lin_skip info i (int j) \<and> k = i + lin_start info (int j)))"
      unfolding mem by auto
    also have "\<dots> \<longleftrightarrow> (\<exists>j < length eids. e = eids ! j \<and>
        lin_start info (int j) \<le> k \<and> k < lin_start info (int j + 1))"
      using starts_between[OF ok] len by (metis of_nat_0_le_iff of_nat_less_iff)
    finally show ?thesis .
  qed
  ultimately show ?thesis
    unfolding shared_out_def linear_rounds_eq[OF ok] fst_conv map_map o_def set_map by simp
qed


lemma concat_intervals:
  assumes "\<And>e::int. 0 \<le> e \<Longrightarrow> st e \<le> (st (e + 1) :: int)"
  shows "concat (map (\<lambda>e. [st (int e)..st (int e + 1) - 1]) [0..<n]) = [st 0..st (int n) - 1] \<and> st 0 \<le> st (int n)"
proof (induction n)
  case (Suc n)
  then show ?case using assms[of "int n"] upto_split1[of "st 0" "st (int n)" "st (1 + int n) - 1"]
    by (cases "st (int n) < st (int n + 1)") (simp_all add: add.commute)
qed simp

lemma zip_upto: "zip eids [0..int (length eids) - 1] = map (\<lambda>j. (eids ! j, int j)) [0..<length eids]"
  by (rule nth_equalityI) simp_all

lemma dispatch_loop_all: "dispatch_loop (\<lambda>_. True) e ks = map (Pair e) ks"
  by (induction ks) simp_all

lemma concurrent_loop_all: "concurrent_loop (\<lambda>_. True) ds = (KUPL_OK, ds)"
  by (induction ds) auto

lemma dispatch_all:
  assumes "info_ok info" and "0 \<le> i"
  shows "kupl_taskloop_dispatch (\<lambda>_. True) info e i =
    map (Pair e) [con_start info i..con_start info (i + 1) - 1]"
  using assms
  by (auto simp: kupl_taskloop_dispatch_def Let_def dispatch_loop_all con_start_def info_ok_def min_def algebra_simps)

lemma con_start_mono: "info_ok info \<Longrightarrow> 0 \<le> e \<Longrightarrow> con_start info e \<le> con_start info (e + 1)"
  by (simp add: con_start_def info_ok_def distrib_right min_def)

lemma mset_concat_rev: "mset (concat (rev xss)) = mset (concat xss)"
  by (induction xss) simp_all

lemma concurrent_shared_out:
  assumes ok: "info_ok info"
  shows "shared_out (con_start info) eids
    (concat (map (\<lambda>(e, i). kupl_taskloop_dispatch (\<lambda>_. True) info e i)
       (rev (zip eids [0..int (length eids) - 1]))))"
proof -
  let ?I = "\<lambda>j. [con_start info (int j)..con_start info (int j + 1) - 1]"
  let ?ts = "concat (map (\<lambda>(e, i). kupl_taskloop_dispatch (\<lambda>_. True) info e i)
       (rev (zip eids [0..int (length eids) - 1])))"
  have ts: "?ts = concat (rev (map (\<lambda>j. map (Pair (eids ! j)) (?I j)) [0..<length eids]))"
    by (simp add: zip_upto rev_map dispatch_all[OF ok] o_def)
  have "map snd ?ts = concat (rev (map ?I [0..<length eids]))"
    by (simp add: ts map_concat rev_map o_def)
  moreover have "mset (concat (rev (map ?I [0..<length eids]))) = mset (concat (map ?I [0..<length eids]))"
    by (simp add: mset_concat_rev)
  moreover have "distinct (concat (map ?I [0..<length eids]))"
    using concat_intervals[of "con_start info", OF con_start_mono[OF ok], of "length eids"] by simp
  ultimately have "distinct (map snd ?ts)" by (simp only: mset_eq_imp_distinct_iff[of "concat (rev (map ?I [0..<length eids]))" "concat (map ?I [0..<length eids])"])
  moreover have "(e, k) \<in> set ?ts \<longleftrightarrow> (\<exists>j < length eids. e = eids ! j \<and>
      con_start info (int j) \<le> k \<and> k < con_start info (int j + 1))" for e k
  proof -
    have "(e, k) \<in> set (map (Pair (eids ! j)) (?I j)) \<longleftrightarrow>
        e = eids ! j \<and> con_start info (int j) \<le> k \<and> k < con_start info (int j + 1)" for j by auto
    then show ?thesis unfolding ts by (auto simp del: upto.simps)
  qed
  ultimately show ?thesis by (simp add: shared_out_def)
qed

lemma shared_out_all:
  assumes "shared_out st eids ts" and mono: "\<And>e::int. 0 \<le> e \<Longrightarrow> st e \<le> st (e + 1)"
    and "st 0 = 0" "st (int (length eids)) = n"
  shows "mset (map snd ts) = mset [0..n - 1]"
proof -
  have "set (map snd ts) = {k. \<exists>j < length eids. st (int j) \<le> k \<and> k < st (int j + 1)}"
  proof (rule set_eqI)
    fix k
    have "k \<in> set (map snd ts) \<longleftrightarrow> (\<exists>e. (e, k) \<in> set ts)" by force
    then show "k \<in> set (map snd ts) \<longleftrightarrow> k \<in> {k. \<exists>j < length eids. st (int j) \<le> k \<and> k < st (int j + 1)}"
      using assms(1) by (auto simp: shared_out_def)
  qed
  also have "\<dots> = set (concat (map (\<lambda>e. [st (int e)..st (int e + 1) - 1]) [0..<length eids]))"
    by auto
  also have "\<dots> = set [0..n - 1]"
    using concat_intervals[of st, OF mono, of "length eids"] assms(3,4) by simp
  finally show ?thesis using assms(1) by (simp only: shared_out_def set_eq_iff_mset_eq_distinct distinct_upto)
qed

lemma linear_tasks_all:
  assumes ok: "info_ok info" and len: "int (length eids) = ti_esize info"
  shows "mset (map snd (fst (linear_rounds (\<lambda>_. True) info eids [0..ti_max_tasks info - 1]))) =
    mset [0..ti_total_tasks info - 1]"
  using ok by (intro shared_out_all[OF linear_shared_out[OF ok len]])
    (auto simp: lin_start_step len, auto simp: lin_start_def info_ok_def)

lemma concurrent_tasks_all:
  assumes ok: "info_ok info" and len: "int (length eids) = ti_esize info"
  shows "mset (map snd (concat (map (\<lambda>(e, i). kupl_taskloop_dispatch (\<lambda>_. True) info e i)
    (rev (zip eids [0..int (length eids) - 1]))))) = mset [0..ti_total_tasks info - 1]"
  using ok by (intro shared_out_all[OF concurrent_shared_out[OF ok] con_start_mono[OF ok]])
    (auto simp: con_start_def info_ok_def len)

text \<open>
  Whatever way the tasks go, they are shared out at some positions that differ by the least number
  of tasks or one more.
\<close>

lemma submit_shared_out:
  assumes ok: "info_ok info" and len: "int (length (egroup_eids grp)) = ti_esize info" and "geid \<noteq> -1"
  shows "\<exists>st ts. taskloop_submit (\<lambda>_. True) (\<lambda>_. True) geid grp rng info =
      (KUPL_OK, map (\<lambda>(e, k). (e, taskloop_range rng info k)) ts) \<and>
    shared_out st (egroup_eids grp) ts \<and> mset (map snd ts) = mset [0..ti_total_tasks info - 1] \<and>
    (\<forall>e\<ge>0. st (e + 1) - st e = ti_min_tasks info \<or> st (e + 1) - st e = ti_min_tasks info + 1)"
proof (cases "ti_esize info * taskloop_threshold > ti_total_tasks info")
  case True
  let ?L = "linear_rounds (\<lambda>_. True) info (egroup_eids grp) [0..ti_max_tasks info - 1]"
  have st: "snd ?L = True" by (simp add: linear_rounds_eq[OF ok])
  have so: "shared_out (lin_start info) (egroup_eids grp) (fst ?L)" using linear_shared_out[OF ok len] .
  have "mset (map snd (fst ?L)) = mset [0..ti_total_tasks info - 1]"
    using linear_tasks_all[OF ok len] .
  with st so True assms(3) show ?thesis
    by (intro exI[of _ "lin_start info"] exI[of _ "fst ?L"])
      (simp add: taskloop_submit_def kupl_taskloop_linear_def split_beta lin_start_step[OF ok])
next
  case False
  let ?Z = "rev (zip (egroup_eids grp) [0..int (length (egroup_eids grp)) - 1])"
  let ?T = "concat (map (\<lambda>(e, i). kupl_taskloop_dispatch (\<lambda>_. True) info e i) ?Z)"
  have so: "shared_out (con_start info) (egroup_eids grp) ?T" using concurrent_shared_out[OF ok] .
  have "mset (map snd ?T) = mset [0..ti_total_tasks info - 1]"
    using concurrent_tasks_all[OF ok len] .
  moreover have "0 \<le> e \<Longrightarrow> con_start info (e + 1) - con_start info e = ti_min_tasks info \<or>
      con_start info (e + 1) - con_start info e = ti_min_tasks info + 1" for e
    by (auto simp: con_start_def distrib_right min_def)
  ultimately show ?thesis using so False assms(3)
    by (intro exI[of _ "con_start info"] exI[of _ ?T])
      (simp add: taskloop_submit_def kupl_taskloop_concurrent_def concurrent_loop_all)
qed


section \<open>The blocks are the range\<close>

text \<open>
  The blocks are cut by \<open>blocksize\<close> alone, whereas the check and the loop policies cut by
  \<open>step * blocksize\<close>; they make the range when the step divides the block size.
\<close>

definition step_ok :: "kupl_range \<Rightarrow> bool" where
  "step_ok r \<longleftrightarrow> range_ok r \<and> 0 < r_step r \<and> r_step r dvd r_blocksize r"

definition per_step :: "kupl_range \<Rightarrow> kupl_range" where
  "per_step r = r\<lparr>r_blocksize := r_blocksize r div r_step r\<rparr>"

definition task_block :: "kupl_range \<Rightarrow> int \<Rightarrow> kupl_range" where
  "task_block r i = (let lower = r_lower r + i * r_blocksize r
      in \<lparr>r_lower = lower,
          r_upper = (if r_blocksize r > 0 then kupl_min (r_upper r) (lower + r_blocksize r)
                     else kupl_max (r_upper r) (lower + r_blocksize r)),
          r_step = r_step r, r_blocksize = r_blocksize r\<rparr>)"

lemma per_step_ok:
  assumes "step_ok r"
  shows "range_ok (per_step r)"
proof -
  obtain m where m: "r_blocksize r = r_step r * m" using assms by (auto simp: step_ok_def elim: dvdE)
  have "0 < r_step r * m" using assms unfolding m[symmetric] by (simp add: step_ok_def range_ok_def)
  then have "0 < m" using assms by (simp add: step_ok_def zero_less_mult_iff)
  then show ?thesis using assms m by (auto simp: step_ok_def per_step_def range_ok_def)
qed

lemma per_step_chunk: "step_ok r \<Longrightarrow> rc_chunksize (calc_chunk (per_step r)) = r_blocksize r"
  by (simp add: calc_chunk_def Let_def per_step_def step_ok_def)

lemma iters_per_step [simp]: "iters (per_step r) = iters r" "iters \<circ> per_step = iters"
  by (auto simp: iters_def per_step_def)

lemma task_block_iters:
  assumes "step_ok r"
  shows "iters (task_block r i) = iters (chunk_at (per_step r) i)"
proof -
  have "0 < r_blocksize r" using assms by (simp add: step_ok_def range_ok_def)
  then show ?thesis
    unfolding task_block_def chunk_at_def per_step_chunk[OF assms]
    by (simp add: iters_def kupl_min_eq per_step_def min.commute Let_def)
qed

lemma taskloop_blocks_eq: "step_ok r \<Longrightarrow> taskloop_blocks r = dim_chunks (per_step r)"
  by (auto simp: taskloop_blocks_def dim_chunks_def calc_chunk_def Let_def per_step_def step_ok_def
      range_ok_def kupl_divup_def)

lemma chunks_of_append:
  "chunks_of (xs @ [r]) ci = (fst (chunks_of xs (ci div dim_chunks r)) @ [chunk_at r (ci mod dim_chunks r)],
     snd (chunks_of xs (ci div dim_chunks r)))"
proof (induction xs)
  case Nil
  show ?case by (simp add: Let_def chunk_at_def dim_chunks_def)
next
  case (Cons x xs)
  then show ?case by (simp add: Let_def split_beta)
qed

lemma taskloop_range_loop_iters:
  "\<forall>r\<in>set rs. step_ok r \<Longrightarrow> 0 \<le> k \<Longrightarrow>
   map iters (taskloop_range_loop rs (map taskloop_blocks rs) k) =
     rev (map iters (fst (chunks_of (rev (map per_step rs)) k)))"
proof (induction rs arbitrary: k)
  case (Cons r rs)
  have b: "taskloop_blocks r = dim_chunks (per_step r)" "1 \<le> dim_chunks (per_step r)"
    using Cons.prems dim_chunks_ge_1[OF per_step_ok] by (auto simp: taskloop_blocks_eq)
  have "taskloop_range_loop (r # rs) (map taskloop_blocks (r # rs)) k =
      task_block r (k smod taskloop_blocks r) # taskloop_range_loop rs (map taskloop_blocks rs) (k sdiv taskloop_blocks r)"
    by (simp add: task_block_def Let_def)
  then show ?case using Cons b
    by (simp add: chunks_of_append[simplified] task_block_iters smod_nonneg_pos sdiv_nonneg_pos
        pos_imp_zdiv_nonneg_iff del: taskloop_range_loop.simps)
qed simp

lemma product_lists_rev: "p \<in> set (product_lists (rev xss)) \<longleftrightarrow> rev p \<in> set (product_lists xss)"
  by (simp add: product_lists_set list_all2_rev[of _ p, symmetric, simplified])
    (metis list_all2_rev rev_rev_ident)

lemma taskloop_partition:
  assumes info: "taskloop_info rng esize = Some info"
    and rs: "rs = take (nat (nr_dim rng)) (nr_nd_range rng)" and ok: "\<forall>r\<in>set rs. step_ok r"
  shows "ti_total_tasks info = total_of (rev (map per_step rs))"
    and "p \<in> set (nd_iters rng) \<Longrightarrow> \<exists>!k. 0 \<le> k \<and> k < ti_total_tasks info \<and>
      p \<in> set (nd_iters (taskloop_range rng info k))"
    and "0 \<le> k \<Longrightarrow> set (nd_iters (taskloop_range rng info k)) \<subseteq> set (nd_iters rng)"
proof -
  have ok': "\<forall>r\<in>set (rev (map per_step rs)). range_ok r" using ok per_step_ok by auto
  have tb: "map taskloop_blocks rs = map dim_chunks (map per_step rs)"
    using ok by (simp add: taskloop_blocks_eq)
  show tot: "ti_total_tasks info = total_of (rev (map per_step rs))"
    using taskloop_info_facts[OF info] by (simp add: rs[symmetric] tb rev_map[symmetric] prod_list.rev)
  have len: "length (taskloop_range_loop rs (map taskloop_blocks rs) k) = length rs" for k
    by (induction rs arbitrary: k) (simp_all add: Let_def)
  have "length rs \<le> nat (nr_dim rng)" by (simp add: rs)
  then have nd: "nd_iters (taskloop_range rng info k) =
      product_lists (rev (map iters (fst (chunks_of (rev (map per_step rs)) k))))" if "0 \<le> k" for k
    using taskloop_info_facts[OF info] taskloop_range_loop_iters[OF ok that] len[of k]
    by (simp add: nd_iters_def taskloop_range_def rs[symmetric])
  have all: "p \<in> set (nd_iters rng) \<longleftrightarrow> rev p \<in> set (product_lists (map iters (rev (map per_step rs))))" for p
    using product_lists_rev[of p "map iters (rev (map per_step rs))"]
    by (simp add: nd_iters_def rs[symmetric] rev_map)
  { assume "p \<in> set (nd_iters rng)"
    then show "\<exists>!k. 0 \<le> k \<and> k < ti_total_tasks info \<and> p \<in> set (nd_iters (taskloop_range rng info k))"
      using chunks_partition(1)[OF ok', of "rev p"] unfolding all tot
      by (simp add: nd product_lists_rev cong: conj_cong) }
  { assume "0 \<le> k"
    then show "set (nd_iters (taskloop_range rng info k)) \<subseteq> set (nd_iters rng)"
      using chunks_partition(2)[OF ok', of k] by (auto simp: all nd product_lists_rev) }
qed


section \<open>Every iteration once, and balanced\<close>

lemma count_concat: "count (mset (concat (map f ks))) p = sum_list (map (\<lambda>k. count (mset (f k)) p) ks)"
  by (induction ks) simp_all

lemma mset_concat_cong: "mset ks = mset js \<Longrightarrow> mset (concat (map f ks)) = mset (concat (map f js))"
  by (metis mset_concat mset_map sum_mset_sum_list)

lemma count_distinct: "distinct xs \<Longrightarrow> count (mset xs) p = (if p \<in> set xs then 1 else 0)"
  by (simp add: distinct_count_atmost_1)

lemma partition_mset:
  assumes ks: "mset ks = mset [0..n - 1]" and "distinct xs"
    and f: "\<And>k. 0 \<le> k \<Longrightarrow> distinct (f k) \<and> set (f k) \<subseteq> set xs"
    and ex1: "\<And>p. p \<in> set xs \<Longrightarrow> \<exists>!k. 0 \<le> k \<and> k < n \<and> p \<in> set (f k)"
  shows "mset (concat (map f ks)) = mset xs"
proof -
  have "mset (concat (map f ks)) = mset (concat (map f [0..n - 1]))" using ks by (rule mset_concat_cong)
  also have "\<dots> = mset xs"
  proof (rule multiset_eqI)
    fix p
    have "count (mset (concat (map f [0..n - 1]))) p = (\<Sum>k\<in>{0..n - 1}. count (mset (f k)) p)"
      by (simp add: count_concat sum_list_distinct_conv_sum_set)
    also have "\<dots> = (\<Sum>k\<in>{0..n - 1}. if p \<in> set (f k) then 1 else 0)"
      using f by (intro sum.cong) (simp_all add: count_distinct)
    also have "\<dots> = card {k \<in> {0..n - 1}. p \<in> set (f k)}"
      by (simp add: sum.If_cases Int_def)
    also have "\<dots> = count (mset xs) p"
    proof (cases "p \<in> set xs")
      case True
      from ex1[OF this] obtain k where k: "0 \<le> k \<and> k < n \<and> p \<in> set (f k)"
        and u: "\<And>k'. 0 \<le> k' \<and> k' < n \<and> p \<in> set (f k') \<Longrightarrow> k' = k" by (elim ex1E) blast
      have "k' \<in> {k \<in> {0..n - 1}. p \<in> set (f k)} \<longleftrightarrow> k' = k" for k' using k u[of k'] by auto
      then have "{k \<in> {0..n - 1}. p \<in> set (f k)} = {k}" by blast
      then show ?thesis using True by (simp add: count_distinct[OF assms(2)])
    next
      case False
      then have "{k \<in> {0..n - 1}. p \<in> set (f k)} = {}" (is "?E = {}") using f by fastforce
      show ?thesis unfolding \<open>?E = {}\<close> using False by (simp add: count_distinct[OF assms(2)])
    qed
    finally show "count (mset (concat (map f [0..n - 1]))) p = count (mset xs) p" .
  qed
  finally show ?thesis .
qed

text \<open>What the check leaves of the range.\<close>

lemma check_range_status:
  "kupl_check_range rng policy = Some (st, rng') \<Longrightarrow> st \<noteq> -1 \<Longrightarrow>
   kupl_check_range rng policy = Some (KUPL_OK, rng')"
  by (auto simp: kupl_check_range_def Let_def split: if_splits option.splits)

lemma check_range_fill:
  assumes "kupl_check_range rng policy = Some (KUPL_OK, rng')" and "length (nr_nd_range rng) = 3"
  shows "take (nat (nr_dim rng)) (nr_nd_range rng') =
    map (fill_blocksize policy) (take (nat (nr_dim rng)) (nr_nd_range rng))"
proof -
  let ?d = "nat (nr_dim rng)"
  obtain rs m where c: "check_dims policy (take ?d (nr_nd_range rng)) KUPL_MAX_CHUNK = Some (True, rs, m)"
    and rng': "rng' = rng\<lparr>nr_nd_range := rs @ drop ?d (nr_nd_range rng)\<rparr>"
    and dim: "1 \<le> nr_dim rng" "nr_dim rng \<le> 3"
    using assms(1) by (auto simp: kupl_check_range_def Let_def split: if_splits option.splits)
  have "0 \<le> KUPL_MAX_CHUNK" by (simp add: KUPL_MAX_CHUNK_def INT64_MAX_def)
  from check_dims_ok[OF c this] have "rs = map (fill_blocksize policy) (take ?d (nr_nd_range rng))" by blast
  then show ?thesis using assms(2) dim by (simp add: rng')
qed

text \<open>The steps that the blocks can follow.\<close>

text \<open>The ranges for which the division into blocks is right: ascending, in blocks of whole steps.\<close>

definition steps_divide :: "kupl_nd_range \<Rightarrow> bool" where
  "steps_divide rng \<longleftrightarrow> length (nr_nd_range rng) = 3 \<and>
     (\<forall>r\<in>set (take (nat (nr_dim rng)) (nr_nd_range rng)).
        0 < r_step r \<and> r_step r dvd (if r_blocksize r = 0 then 1 else r_blocksize r))"

lemma add_taskloop_OK:
  assumes call: "kupl_graph_add_taskloop ok okd geid graph func (Some d) = Some (KUPL_OK, ts)"
    and d: "tl_range d = Some rng" "tl_egroup d = Some grp"
  obtains rng' info where "kupl_check_range rng KUPL_LOOP_POLICY_TASK = Some (KUPL_OK, rng')"
    and "taskloop_info rng' (int (kupl_egroup_get_cur_size grp)) = Some info"
    and "taskloop_submit ok okd geid grp rng' info = (KUPL_OK, ts)" and "0 < kupl_egroup_get_cur_size grp"
proof -
  obtain st e where c: "kupl_taskloop_check graph func (Some d) = Some (st, e)" "st \<noteq> -1"
    using call by (auto simp: kupl_graph_add_taskloop_def split: Option.bind_splits if_splits)
  then obtain rng' where chk: "kupl_check_range rng KUPL_LOOP_POLICY_TASK = Some (st, rng')"
    and e: "e = Some (d\<lparr>tl_range := Some rng'\<rparr>)" and pos: "0 < kupl_egroup_get_cur_size grp"
    using d by (auto simp: kupl_taskloop_check_def split: if_splits)
  have "taskloop_info rng' (int (kupl_egroup_get_cur_size grp)) \<bind>
      (\<lambda>info. Some (taskloop_submit ok okd geid grp rng' info)) = Some (KUPL_OK, ts)"
    using call c d(2) by (simp add: kupl_graph_add_taskloop_def e)
  then obtain info where "taskloop_info rng' (int (kupl_egroup_get_cur_size grp)) = Some info"
    "taskloop_submit ok okd geid grp rng' info = (KUPL_OK, ts)" by (auto split: Option.bind_splits)
  then show ?thesis using that check_range_status[OF chk c(2)] pos by blast
qed

lemma taskloop_accepted:
  assumes call: "kupl_graph_add_taskloop (\<lambda>_. True) (\<lambda>_. True) geid graph func (Some d) = Some (KUPL_OK, ts)"
    and d: "tl_range d = Some rng" "tl_egroup d = Some grp" and ok: "steps_divide rng" and inv: "eg_inv grp"
  shows "\<exists>rng' info st ts'. taskloop_info rng' (int (ei_size (eg_cur grp))) = Some info \<and> info_ok info \<and>
    ts = map (\<lambda>(e, k). (e, taskloop_range rng' info k)) ts' \<and>
    shared_out st (egroup_eids grp) ts' \<and> mset (map snd ts') = mset [0..ti_total_tasks info - 1] \<and>
    (\<forall>e\<ge>0. st (e + 1) - st e = ti_min_tasks info \<or> st (e + 1) - st e = ti_min_tasks info + 1) \<and>
    (\<forall>r\<in>set (take (nat (nr_dim rng')) (nr_nd_range rng')). step_ok r) \<and> nd_iters rng' = nd_iters rng"
proof -
  have len3: "length (nr_nd_range rng) = 3" using ok by (simp add: steps_divide_def)
  have size: "kupl_egroup_get_cur_size grp = ei_size (eg_cur grp)" using inv
    egi_size[of "eg_cur grp"] by (simp add: kupl_egroup_get_cur_size_def eg_inv_def KUPL_EXECUTOR_ID_MAX_def)
  obtain rng' info where chk: "kupl_check_range rng KUPL_LOOP_POLICY_TASK = Some (KUPL_OK, rng')"
    and info: "taskloop_info rng' (int (ei_size (eg_cur grp))) = Some info"
    and sub: "taskloop_submit (\<lambda>_. True) (\<lambda>_. True) geid grp rng' info = (KUPL_OK, ts)"
    and pos: "0 < ei_size (eg_cur grp)"
    using add_taskloop_OK[OF call d] unfolding size by blast
  from check_range_facts[OF chk len3] have facts: "nr_dim rng' = nr_dim rng"
    "\<forall>r\<in>set (take (nat (nr_dim rng)) (nr_nd_range rng')). range_ok r" "nd_iters rng' = nd_iters rng" by auto
  have so: "\<forall>r\<in>set (take (nat (nr_dim rng')) (nr_nd_range rng')). step_ok r"
    using facts(2) ok unfolding facts(1) check_range_fill[OF chk len3]
    by (auto simp: step_ok_def steps_divide_def fill_blocksize_def split: if_splits)
  have "1 \<le> total_of (rev (map per_step (take (nat (nr_dim rng')) (nr_nd_range rng'))))"
    using so per_step_ok by (intro total_of_ge_1) auto
  then have "0 \<le> ti_total_tasks info" using taskloop_partition(1)[OF info refl so] by simp
  then have iok: "info_ok info" using taskloop_info_ok[OF info] pos by simp
  have "geid \<noteq> -1" using sub
    by (auto simp: taskloop_submit_def kupl_taskloop_linear_def kupl_taskloop_concurrent_def split: if_splits)
  moreover have "int (length (egroup_eids grp)) = ti_esize info"
    using egroup_eids_facts(4)[of grp] inv taskloop_info_facts(2)[OF info] by (simp add: eg_inv_def)
  ultimately show ?thesis using submit_shared_out[OF iok, of grp geid rng'] sub info iok so facts(3) by auto
qed


text \<open>The examples: one dimension, on the executors 1 and 4.\<close>

definition taskloop_example :: "int \<Rightarrow> int \<Rightarrow> int \<Rightarrow> kupl_taskloop_desc" where
  "taskloop_example upper step blocksize =
     \<lparr>tl_field_mask = 3, tl_func = None, tl_args = None,
      tl_range = Some \<lparr>nr_dim = 1, nr_nd_range =
        [\<lparr>r_lower = 0, r_upper = upper, r_step = step, r_blocksize = blocksize\<rparr>,
         \<lparr>r_lower = 0, r_upper = 0, r_step = 0, r_blocksize = 0\<rparr>,
         \<lparr>r_lower = 0, r_upper = 0, r_step = 0, r_blocksize = 0\<rparr>]\<rparr>,
      tl_egroup = Some (example_group [1, 4])\<rparr>"

lemmas taskloop_eval = kupl_graph_add_taskloop_def kupl_taskloop_check_def taskloop_example_def
  KUPL_TASKLOOP_DESC_FIELD_DEFAULT_def kupl_egroup_get_cur_size_def taskloop_info_def
  taskloop_blocks_def taskloop_submit_def taskloop_threshold_def kupl_taskloop_linear_def
  taskloop_range_def nd_iters_def iters_def iter_count_def
  mul64_def KUPL_EXECUTOR_ID_MAX_def signed_modulo_int_def check_eval kupl_min_def

lemma example_group_1_4:
  "eg_inv (example_group [1, 4])" "egroup_eids (example_group [1, 4]) = [1, 4]"
  "ei_size (eg_cur (example_group [1, 4])) = 2" "ei_eid_set (eg_cur (example_group [1, 4])) = {1, 4}"
  using example_group[of "[1, 4]"] by simp_all

lemma taskloop_example_runs:
  "kupl_graph_add_taskloop (\<lambda>_. True) (\<lambda>_. True) 0 True True (Some (taskloop_example 12 2 4)) =
     Some (KUPL_OK, [(1, \<lparr>nr_dim = 1, nr_nd_range = [\<lparr>r_lower = 0, r_upper = 4, r_step = 2, r_blocksize = 4\<rparr>]\<rparr>),
       (4, \<lparr>nr_dim = 1, nr_nd_range = [\<lparr>r_lower = 4, r_upper = 8, r_step = 2, r_blocksize = 4\<rparr>]\<rparr>),
       (4, \<lparr>nr_dim = 1, nr_nd_range = [\<lparr>r_lower = 8, r_upper = 12, r_step = 2, r_blocksize = 4\<rparr>]\<rparr>)])"
  by (simp add: taskloop_eval example_group_1_4 numeral_2_eq_2 upto.simps)

text \<open>
  C18: A task loop over an ascending range executes every iteration exactly once, and on executors of
  the group: when the call succeeds, no allocation fails, and in every dimension the step is
  positive and divides the block size (\<open>steps_divide\<close>), the submitted blocks together hold each
  point of the range once, whichever way the tasks were submitted.
\<close>

theorem taskloop_exactly_once:
  assumes "kupl_graph_add_taskloop (\<lambda>_. True) (\<lambda>_. True) geid graph func (Some d) = Some (KUPL_OK, ts)"
    and "tl_range d = Some rng" "tl_egroup d = Some grp" "steps_divide rng" "eg_inv grp"
  shows "mset (concat (map (\<lambda>t. nd_iters (snd t)) ts)) = mset (nd_iters rng) \<and>
    fst ` set ts \<subseteq> ei_eid_set (eg_cur grp)"
proof -
  obtain rng' info st ts' where info: "taskloop_info rng' (int (ei_size (eg_cur grp))) = Some info"
    and ts: "ts = map (\<lambda>(e, k). (e, taskloop_range rng' info k)) ts'"
    and so: "shared_out st (egroup_eids grp) ts'" and ms: "mset (map snd ts') = mset [0..ti_total_tasks info - 1]"
    and sok: "\<forall>r\<in>set (take (nat (nr_dim rng')) (nr_nd_range rng')). step_ok r"
    and eq: "nd_iters rng' = nd_iters rng" using taskloop_accepted[OF assms] by blast
  note part = taskloop_partition[OF info refl sok]
  have dist: "distinct (nd_iters r)" for r
    unfolding nd_iters_def by (rule distinct_product_lists) (auto simp: distinct_iters)
  have "mset (concat (map (\<lambda>k. nd_iters (taskloop_range rng' info k)) (map snd ts'))) = mset (nd_iters rng')"
    using part dist by (intro partition_mset[OF ms]) auto
  moreover have "map (\<lambda>t. nd_iters (snd t)) ts = map (\<lambda>k. nd_iters (taskloop_range rng' info k)) (map snd ts')"
    by (simp add: ts split_beta)
  moreover have "fst ` set ts \<subseteq> set (egroup_eids grp)"
    using so by (auto simp: ts shared_out_def)
  ultimately show ?thesis using egroup_eids_facts(1)[of grp] assms(5) by (simp add: eq eg_inv_def)
qed

theorem taskloop_exactly_once_witness:
  "\<exists>ts. kupl_graph_add_taskloop (\<lambda>_. True) (\<lambda>_. True) 0 True True (Some (taskloop_example 12 2 4)) =
       Some (KUPL_OK, ts) \<and> length ts = 3 \<and>
     mset (concat (map (\<lambda>t. nd_iters (snd t)) ts)) = mset [[0], [2], [4], [6], [8], [10]]"
proof -
  obtain ts where run: "kupl_graph_add_taskloop (\<lambda>_. True) (\<lambda>_. True) 0 True True
      (Some (taskloop_example 12 2 4)) = Some (KUPL_OK, ts)" "length ts = 3"
    using taskloop_example_runs by simp
  let ?r = "the (tl_range (taskloop_example 12 2 4))"
  have "nd_iters ?r = [[0], [2], [4], [6], [8], [10]]"
    by (simp add: taskloop_example_def nd_iters_def iters_def iter_count_def upt_rec)
  moreover have "steps_divide ?r" by (simp add: taskloop_example_def steps_divide_def)
  moreover have "tl_range (taskloop_example 12 2 4) = Some ?r"
    "tl_egroup (taskloop_example 12 2 4) = Some (example_group [1, 4])" by (simp_all add: taskloop_example_def)
  ultimately show ?thesis
    using taskloop_exactly_once[OF run(1), of ?r "example_group [1, 4]"] run example_group_1_4(1)
    by (intro exI[of _ ts]) simp
qed

text \<open>
  The tasks of a task loop are balanced: every executor of the group gets the total divided by
  the number of executors, or one more.
\<close>

theorem taskloop_balanced:
  assumes "kupl_graph_add_taskloop (\<lambda>_. True) (\<lambda>_. True) geid graph func (Some d) = Some (KUPL_OK, ts)"
    and "tl_range d = Some rng" "tl_egroup d = Some grp" "steps_divide rng" "eg_inv grp"
    and "eid \<in> ei_eid_set (eg_cur grp)"
  shows "length (filter (\<lambda>t. fst t = eid) ts) - length ts div ei_size (eg_cur grp) \<le> 1 \<and>
    length ts div ei_size (eg_cur grp) \<le> length (filter (\<lambda>t. fst t = eid) ts)"
proof -
  obtain rng' info st ts' where info: "taskloop_info rng' (int (ei_size (eg_cur grp))) = Some info"
    and iok: "info_ok info"
    and ts: "ts = map (\<lambda>(e, k). (e, taskloop_range rng' info k)) ts'"
    and so: "shared_out st (egroup_eids grp) ts'" and ms: "mset (map snd ts') = mset [0..ti_total_tasks info - 1]"
    and st: "\<forall>e\<ge>0. st (e + 1) - st e = ti_min_tasks info \<or> st (e + 1) - st e = ti_min_tasks info + 1"
    using taskloop_accepted[OF assms(1-5)] by blast
  have inv: "egi_inv (eg_cur grp)" using assms(5) by (simp add: eg_inv_def)
  obtain j where j: "j < length (egroup_eids grp)" "eid = egroup_eids grp ! j"
    using assms(6) egroup_eids_facts(1)[OF inv] by (metis in_set_conv_nth)
  let ?F = "filter (\<lambda>t. fst t = eid) ts'"
  have dist: "distinct (map snd ts')" using so by (simp add: shared_out_def)
  have "set (map snd ?F) = {st (int j)..<st (int j + 1)}"
  proof (rule set_eqI)
    fix k
    have "k \<in> set (map snd ?F) \<longleftrightarrow> (eid, k) \<in> set ts'" by force
    also have "\<dots> \<longleftrightarrow> st (int j) \<le> k \<and> k < st (int j + 1)"
      using so j egroup_eids_facts(3)[OF inv] by (auto simp: shared_out_def nth_eq_iff_index_eq)
    finally show "k \<in> set (map snd ?F) \<longleftrightarrow> k \<in> {st (int j)..<st (int j + 1)}" by simp
  qed
  moreover have "distinct (map snd ?F)" using dist by (rule distinct_map_filter)
  ultimately have n: "length ?F = nat (st (int j + 1) - st (int j))"
    by (metis card_atLeastLessThan_int distinct_card length_map)
  have "length ts = nat (ti_total_tasks info)"
    using arg_cong[OF ms, of size] by (simp add: ts)
  moreover have "ti_total_tasks info div int (ei_size (eg_cur grp)) = ti_min_tasks info"
    using iok taskloop_info_facts(2)[OF info] by (simp add: info_ok_def)
  ultimately have "length ts div ei_size (eg_cur grp) = nat (ti_min_tasks info)"
    by (metis nat_int nat_div_distrib' of_nat_0_le_iff)
  moreover have "length (filter (\<lambda>t. fst t = eid) ts) = length ?F"
    by (simp add: ts filter_map o_def split_beta)
  moreover have "st (int j + 1) - st (int j) = ti_min_tasks info \<or> st (int j + 1) - st (int j) = ti_min_tasks info + 1"
    using st by simp
  ultimately show ?thesis using n iok by (auto simp: info_ok_def nat_add_distrib)
qed

theorem taskloop_balanced_witness:
  "\<exists>ts. kupl_graph_add_taskloop (\<lambda>_. True) (\<lambda>_. True) 0 True True (Some (taskloop_example 12 2 4)) =
       Some (KUPL_OK, ts) \<and> length ts = 3 \<and>
     length (filter (\<lambda>t. fst t = 1) ts) \<in> {1, 2}"
proof -
  obtain ts where run: "kupl_graph_add_taskloop (\<lambda>_. True) (\<lambda>_. True) 0 True True
      (Some (taskloop_example 12 2 4)) = Some (KUPL_OK, ts)" "length ts = 3"
    using taskloop_example_runs by simp
  let ?r = "the (tl_range (taskloop_example 12 2 4))"
  have "steps_divide ?r" by (simp add: taskloop_example_def steps_divide_def)
  moreover have "tl_range (taskloop_example 12 2 4) = Some ?r"
    "tl_egroup (taskloop_example 12 2 4) = Some (example_group [1, 4])" by (simp_all add: taskloop_example_def)
  ultimately show ?thesis
    using taskloop_balanced[OF run(1), of ?r "example_group [1, 4]" 1] run example_group_1_4
    by (intro exI[of _ ts]) auto
qed

text \<open>
  C27: The two ways of submitting a task loop are equivalent: the tasks submitted one by one by the
  caller, and those submitted by the dispatch tasks, are the same blocks.
\<close>

theorem taskloop_ways_equivalent:
  assumes "taskloop_info rng (int (length (egroup_eids grp))) = Some info"
    and "egroup_eids grp \<noteq> []" "0 \<le> ti_total_tasks info" "geid \<noteq> -1"
  shows "mset (map snd (snd (kupl_taskloop_linear (\<lambda>_. True) geid grp info))) =
    mset (map snd (concat (map (\<lambda>(e, i). kupl_taskloop_dispatch (\<lambda>_. True) info e i)
      (snd (kupl_taskloop_concurrent (\<lambda>_. True) geid grp)))))"
proof -
  have ok: "info_ok info" using taskloop_info_ok[OF assms(1)] assms(2,3) by simp
  have len: "int (length (egroup_eids grp)) = ti_esize info" using taskloop_info_facts(2)[OF assms(1)] by simp
  let ?Z = "rev (zip (egroup_eids grp) [0..int (length (egroup_eids grp)) - 1])"
  have "mset (map snd (fst (linear_rounds (\<lambda>_. True) info (egroup_eids grp) [0..ti_max_tasks info - 1]))) =
      mset [0..ti_total_tasks info - 1]" using linear_tasks_all[OF ok len] .
  moreover have "mset (map snd (concat (map (\<lambda>(e, i). kupl_taskloop_dispatch (\<lambda>_. True) info e i) ?Z))) =
      mset [0..ti_total_tasks info - 1]" using concurrent_tasks_all[OF ok len] .
  ultimately show ?thesis using assms(4)
    by (simp add: kupl_taskloop_linear_def kupl_taskloop_concurrent_def concurrent_loop_all split_beta)
qed


theorem taskloop_ways_equivalent_witness:
  "let info = the (taskloop_info (the (tl_range (taskloop_example 12 2 4))) 2) in ti_total_tasks info = 3 \<and>
     mset (map snd (snd (kupl_taskloop_linear (\<lambda>_. True) 0 (example_group [1, 4]) info))) =
     mset (map snd (concat (map (\<lambda>(e, i). kupl_taskloop_dispatch (\<lambda>_. True) info e i)
       (snd (kupl_taskloop_concurrent (\<lambda>_. True) 0 (example_group [1, 4]))))))"
proof -
  let ?r = "the (tl_range (taskloop_example 12 2 4))"
  have i: "taskloop_info ?r 2 = Some \<lparr>ti_dim = 1, ti_blocks = [3], ti_esize = 2, ti_total_tasks = 3,
      ti_min_tasks = 1, ti_max_tasks = 2, ti_extra_tasks = 1\<rparr>"
    by (simp add: taskloop_eval)
  show ?thesis
    using taskloop_ways_equivalent[of ?r "example_group [1, 4]" _ 0] unfolding example_group_1_4 Let_def
    by (simp add: i)
qed

text \<open>
  The blocks of a task loop ignore the step of the range, which the check and every other loop
  policy take into account: on the range from 0 to 8 in steps of 3 with block size 2, which is
  accepted, the task loop executes 0, 2, 4, 6 instead of 0, 3, 6.
\<close>

theorem taskloop_step_wrong:
  "\<exists>ts. kupl_graph_add_taskloop (\<lambda>_. True) (\<lambda>_. True) 0 True True (Some (taskloop_example 8 3 2)) =
       Some (KUPL_OK, ts) \<and>
     mset (concat (map (\<lambda>t. nd_iters (snd t)) ts)) = mset [[0], [2], [4], [6]] \<and>
     nd_iters (the (tl_range (taskloop_example 8 3 2))) = [[0], [3], [6]]"
  by (simp add: taskloop_eval example_group_1_4 numeral_2_eq_2 upto.simps upt_rec)

text \<open>A descending range has no blocks: their number is the length, which is negative, divided up.\<close>

lemma taskloop_blocks_descending:
  assumes "r_upper r < r_lower r" and "1 \<le> r_blocksize r"
  shows "taskloop_blocks r \<le> 0"
proof -
  define a where "a = r_upper r - r_lower r + r_blocksize r - 1"
  have a: "a < r_blocksize r" using assms by (simp add: a_def)
  show ?thesis
  proof (cases "0 \<le> a")
    case True
    thus ?thesis using a assms(2) by (simp add: taskloop_blocks_def a_def[symmetric] sdiv_nonneg_pos)
  next
    case False
    have "0 \<le> - a div r_blocksize r" using False assms(2) by (simp add: pos_imp_zdiv_nonneg_iff)
    thus ?thesis using False assms(2)
      by (simp add: taskloop_blocks_def a_def[symmetric] signed_divide_int_def sgn_if)
  qed
qed

text \<open>
  C32: A descending task loop is lost: every call of \<open>kupl_graph_add_taskloop\<close> with a one-dimensional
  descending range that the check accepts returns \<open>KUPL_OK\<close> and submits no task, although the range
  has iterations and the other loop policies execute them.
\<close>

theorem taskloop_descending_lost:
  assumes "kupl_taskloop_check graph func (Some d) = Some (KUPL_OK, d')" and "geid \<noteq> -1"
    and "tl_range d = Some rng" "nr_dim rng = 1" "nr_nd_range rng = [r, r2, r3]" "r_step r < 0"
  shows "kupl_graph_add_taskloop ok okd geid graph func (Some d) = Some (KUPL_OK, []) \<and> iters r \<noteq> []"
proof -
  obtain grp rng' where chk: "kupl_check_range rng KUPL_LOOP_POLICY_TASK = Some (KUPL_OK, rng')"
    and grp: "tl_egroup d = Some grp" "kupl_egroup_get_cur_size grp \<noteq> 0" and d': "d' = Some (d\<lparr>tl_range := Some rng'\<rparr>)"
    using assms(1,3) by (auto simp: kupl_taskloop_check_def split: if_splits)
  let ?r = "fill_blocksize KUPL_LOOP_POLICY_TASK r"
  have "length (nr_nd_range rng) = 3" using assms(5) by simp
  note F = check_range_facts[OF chk this] check_range_filled[OF chk]
  have r': "take 1 (nr_nd_range rng') = [?r]" "nr_dim rng' = 1" using F assms(4,5) by simp_all
  have ok: "range_ok ?r" using F(1) r' assms(4) by simp
  hence desc: "r_upper r < r_lower r" "1 \<le> r_blocksize ?r"
    using assms(6) by (auto simp: range_ok_def fill_blocksize_def split: if_splits)
  define b where "b = taskloop_blocks ?r"
  have b: "b \<le> 0" using taskloop_blocks_descending[of ?r] desc by (simp add: b_def fill_blocksize_def)
  have "int (kupl_egroup_get_cur_size grp) > 0" using grp(2) by simp
  then obtain e where e: "int (kupl_egroup_get_cur_size grp) = e" "0 < e" by blast
  have i: "iters r \<noteq> []"
    using assms(6) desc iter_count_less[of 0 "r_lower r" "r_upper r" "r_step r"] by (simp add: iters_def)
  have q: "b sdiv e \<le> 0 \<and> \<not> b smod e > 0"
  proof (cases "b = 0")
    case False
    have "0 \<le> - b div e" using b e(2) by (simp add: pos_imp_zdiv_nonneg_iff)
    moreover have "\<not> - b mod e < 0" using e(2) by (metis not_less pos_mod_sign)
    ultimately show ?thesis using False b e(2) by (simp add: signed_divide_int_def signed_modulo_int_def sgn_if)
  qed (use e in \<open>simp add: sdiv_nonneg_pos smod_nonneg_pos\<close>)
  have len: "int64 (r_upper r - r_lower r)"
  proof -
    obtain r1 m1 where "check_dim KUPL_LOOP_POLICY_TASK r KUPL_MAX_CHUNK = Some (True, r1, m1)"
      using chk assms(4,5)
      by (auto simp: kupl_check_range_def Let_def simp del: KUPL_LOOP_POLICY_TASK_def split: if_splits option.splits bool.splits)
    thus ?thesis by (auto simp: check_dim_def Let_def sub64_def split: Option.bind_splits if_splits)
  qed
  have "- b \<le> r_lower r - r_upper r"
  proof -
    define a where "a = r_upper r - r_lower r + r_blocksize ?r - 1"
    show ?thesis
    proof (cases "0 \<le> a")
      case True
      hence "0 \<le> b" using desc(2)
        by (simp add: b_def taskloop_blocks_def fill_blocksize_def a_def sdiv_nonneg_pos pos_imp_zdiv_nonneg_iff)
      thus ?thesis using desc(1) by simp
    next
      case False
      have "b = - (- a div r_blocksize ?r)" using False desc(2)
        by (simp add: b_def taskloop_blocks_def fill_blocksize_def a_def signed_divide_int_def sgn_if)
      moreover have "- a div r_blocksize ?r \<le> - a div 1" using False desc(2) by (intro zdiv_mono2) simp_all
      ultimately show ?thesis using desc(2) by (simp add: a_def)
    qed
  qed
  hence "int64 b" using len b by (auto simp: int64_def INT64_MAX_def INT64_MIN_def)
  hence info: "taskloop_info rng' e = Some \<lparr>ti_dim = 1, ti_blocks = [b], ti_esize = e, ti_total_tasks = b,
      ti_min_tasks = b sdiv e, ti_max_tasks = b sdiv e, ti_extra_tasks = b smod e\<rparr>"
    using r' q by (simp add: taskloop_info_def b_def mul64_def chk64_def Let_def)
  have "taskloop_submit ok okd geid grp rng' \<lparr>ti_dim = 1, ti_blocks = [b], ti_esize = e, ti_total_tasks = b,
      ti_min_tasks = b sdiv e, ti_max_tasks = b sdiv e, ti_extra_tasks = b smod e\<rparr> = (KUPL_OK, [])"
    using b e(2) q assms(2) by (simp add: taskloop_submit_def taskloop_threshold_def kupl_taskloop_linear_def)
  thus ?thesis using assms(1) i info grp(1) e(1) d' by (simp add: kupl_graph_add_taskloop_def)
qed

theorem taskloop_descending_lost_witness:
  "let d = (taskloop_example 10 1 1)\<lparr>tl_range := Some \<lparr>nr_dim = 1, nr_nd_range =
       [\<lparr>r_lower = 10, r_upper = 0, r_step = -1, r_blocksize = 1\<rparr>,
        \<lparr>r_lower = 0, r_upper = 0, r_step = 0, r_blocksize = 0\<rparr>,
        \<lparr>r_lower = 0, r_upper = 0, r_step = 0, r_blocksize = 0\<rparr>]\<rparr>\<rparr>
   in kupl_graph_add_taskloop (\<lambda>_. True) (\<lambda>_. True) 0 True True (Some d) = Some (KUPL_OK, [])"
proof -
  let ?rng = "\<lparr>nr_dim = 1, nr_nd_range =
       [\<lparr>r_lower = 10, r_upper = 0, r_step = -1, r_blocksize = 1\<rparr>,
        \<lparr>r_lower = 0, r_upper = 0, r_step = 0, r_blocksize = 0\<rparr>,
        \<lparr>r_lower = 0, r_upper = 0, r_step = 0, r_blocksize = 0\<rparr>]\<rparr>"
  let ?d = "(taskloop_example 10 1 1)\<lparr>tl_range := Some ?rng\<rparr>"
  have "\<exists>d'. kupl_taskloop_check True True (Some ?d) = Some (KUPL_OK, d')"
    by (simp add: taskloop_eval example_group_1_4)
  then obtain d' where c: "kupl_taskloop_check True True (Some ?d) = Some (KUPL_OK, d')" by blast
  have "kupl_graph_add_taskloop (\<lambda>_. True) (\<lambda>_. True) 0 True True (Some ?d) = Some (KUPL_OK, [])"
    using taskloop_descending_lost[OF c, of 0 ?rng] by simp
  thus ?thesis by (simp only: Let_def)
qed

end
