(* ===== verification/Kupl_Dag.thy ===== *)
theory Kupl_Dag
  imports Kupl_Taskbase "HOL-Library.Monad_Syntax"
begin

text \<open>
  The dependencies between tasks (\<open>src/src/mt/kupl_dag.h\<close>, \<open>kupl_dag.cpp\<close>) and the reference counts
  of tasks (\<open>src/src/mt/kupl_task.h\<close>): the node of a task with its successors and its count of open
  predecessors, and the table that keeps for each address the last writer and the readers since.

  Tasks live in a heap from addresses to records; a node is named by the address of its task
  (\<open>kupl_gnode_get_task\<close>).  Reading a freed or null address, or an entry of an array that was never
  written, gives \<open>None\<close>.  The outcomes of \<open>kupl_memory_alloc\<close>, in order, are part of the state.
  Each function is one atomic step here; Kupl\_Dag\_Race takes a submission apart into its steps.
\<close>

section \<open>Tasks and nodes\<close>

text \<open>The spin lock of a node is its existence; the field \<open>tail\<close> is never used.\<close>

record kupl_gnode =
  gn_successors :: "ptr list"
  gn_n_successors :: u32
  gn_n_hard_predecessors :: u32
  gn_n_soft_predecessors :: u32
  gn_n_predecessors :: u32
  gn_lock :: bool

definition KUPL_TASK_KIND_UNKNOW :: u64 where "KUPL_TASK_KIND_UNKNOW = 0"
definition KUPL_TASK_KIND_COMM_DYNAMIC :: u64 where "KUPL_TASK_KIND_COMM_DYNAMIC = kupl_bit 0"
definition KUPL_TASK_KIND_DYNAMIC_MASK :: u64 where "KUPL_TASK_KIND_DYNAMIC_MASK = kupl_bit 10 - 1"
definition KUPL_TASK_KIND_COMM_STATIC :: u64 where "KUPL_TASK_KIND_COMM_STATIC = kupl_bit 10"
definition KUPL_TASK_KIND_STATIC_MASK :: u64 where "KUPL_TASK_KIND_STATIC_MASK = kupl_bit 20 - kupl_bit 10"

lemmas task_kinds = KUPL_TASK_KIND_UNKNOW_def KUPL_TASK_KIND_COMM_DYNAMIC_def
  KUPL_TASK_KIND_DYNAMIC_MASK_def KUPL_TASK_KIND_COMM_STATIC_def KUPL_TASK_KIND_STATIC_MASK_def kupl_bit_def

record kupl_task =
  tk_tb :: kupl_taskbase
  tk_kind :: u64
  tk_gnode :: kupl_gnode

record addr_entry =
  ae_out :: "ptr option"
  ae_in :: "ptr list"

text \<open>
  The table (\<open>std::unordered_map\<close>) is a list in the order of iteration, a new entry in front; an
  entry is \<open>None\<close> when its allocation failed.  \<open>gr_pool\<close> are the tasks handed to the scheduler,
  \<open>gr_current\<close> the current task of each executor.
\<close>

record graph_state =
  gr_heap :: "ptr \<Rightarrow> kupl_task option"
  gr_hash :: "(u64 \<times> addr_entry option) list"
  gr_alloc :: "nat \<Rightarrow> bool"
  gr_counts :: "ptr \<Rightarrow> u32"
  gr_pool :: "ptr list"
  gr_current :: "int \<Rightarrow> ptr option"

definition load_task :: "ptr \<Rightarrow> graph_state \<Rightarrow> kupl_task option" where
  "load_task p s = gr_heap s p"

definition store_task :: "ptr \<Rightarrow> kupl_task \<Rightarrow> graph_state \<Rightarrow> graph_state" where
  "store_task p t s = s\<lparr>gr_heap := (gr_heap s)(p := Some t)\<rparr>"

definition next_alloc :: "graph_state \<Rightarrow> bool \<times> graph_state" where
  "next_alloc s = (gr_alloc s 0, s\<lparr>gr_alloc := (\<lambda>n. gr_alloc s (Suc n))\<rparr>)"

definition kupl_task_ref :: "ptr option \<Rightarrow> graph_state \<Rightarrow> graph_state option" where
  "kupl_task_ref tb s =
     (case tb of
        None \<Rightarrow> Some s
      | Some p \<Rightarrow> do {
          t \<leftarrow> load_task p s;
          Some (store_task p (t\<lparr>tk_tb := (tk_tb t)\<lparr>tb_ref := tb_ref (tk_tb t) + 1\<rparr>\<rparr>) s)
        })"

text \<open>The last reference frees the name, the node's lock and list, and the task.\<close>

definition kupl_task_deref :: "ptr option \<Rightarrow> graph_state \<Rightarrow> graph_state option" where
  "kupl_task_deref tb s =
     (case tb of
        None \<Rightarrow> Some s
      | Some p \<Rightarrow> do {
          t \<leftarrow> load_task p s;
          Some (if tb_ref (tk_tb t) = 1 then s\<lparr>gr_heap := (gr_heap s)(p := None)\<rparr>
                else store_task p (t\<lparr>tk_tb := (tk_tb t)\<lparr>tb_ref := tb_ref (tk_tb t) - 1\<rparr>\<rparr>) s)
        })"

definition kupl_gnode_init :: "bool \<Rightarrow> kupl_gnode \<Rightarrow> int \<times> kupl_gnode" where
  "kupl_gnode_init lockok n =
     (if lockok then KUPL_OK else KUPL_ERROR,
      n\<lparr>gn_successors := [], gn_n_successors := 0, gn_n_hard_predecessors := 0,
        gn_n_soft_predecessors := 0, gn_n_predecessors := 0, gn_lock := lockok\<rparr>)"

definition kupl_gnode_reset :: "kupl_gnode \<Rightarrow> kupl_gnode" where
  "kupl_gnode_reset n = n\<lparr>gn_n_predecessors := gn_n_hard_predecessors n\<rparr>"

definition kupl_gnode_ref :: "ptr option \<Rightarrow> graph_state \<Rightarrow> graph_state option" where
  "kupl_gnode_ref node s = kupl_task_ref node s"

definition kupl_gnode_deref :: "ptr option \<Rightarrow> graph_state \<Rightarrow> graph_state option" where
  "kupl_gnode_deref node s = kupl_task_deref node s"

section \<open>Dependencies\<close>

definition kupl_gnode_precede :: "ptr option \<Rightarrow> ptr option \<Rightarrow> graph_state \<Rightarrow> (u32 \<times> graph_state) option" where
  "kupl_gnode_precede precede succeed s =
     (case (precede, succeed) of
        (Some p, Some q) \<Rightarrow> do {
          t \<leftarrow> load_task p s;
          if kupl_tb_is_finished (tk_tb t) then Some (0, s)
          else do {
            let n = tk_gnode t;
            let (ok, s) = next_alloc s;
            let n = n\<lparr>gn_n_successors := gn_n_successors n + 1,
                      gn_successors := (if ok then q # gn_successors n else gn_successors n)\<rparr>;
            let s = store_task p (t\<lparr>tk_gnode := n\<rparr>) s;
            u \<leftarrow> load_task q s;
            let m = tk_gnode u;
            Some (1, store_task q (u\<lparr>tk_gnode := m\<lparr>gn_n_hard_predecessors := gn_n_hard_predecessors m + 1,
                      gn_n_predecessors := gn_n_predecessors m + 1\<rparr>\<rparr>) s)
          }
        }
      | _ \<Rightarrow> Some (0, s))"

fun dep_out_readers :: "ptr list \<Rightarrow> ptr option \<Rightarrow> graph_state \<Rightarrow> (u32 \<times> graph_state) option" where
  "dep_out_readers [] node s = Some (0, s)"
| "dep_out_readers (p # ps) node s =
     do {
       (n, s) \<leftarrow> kupl_gnode_precede (Some p) node s;
       s \<leftarrow> kupl_gnode_deref (Some p) s;
       (m, s) \<leftarrow> dep_out_readers ps node s;
       Some (n + m, s)
     }"

definition node_process_dep_out :: "addr_entry \<Rightarrow> ptr option \<Rightarrow> graph_state \<Rightarrow>
    (u32 \<times> addr_entry \<times> graph_state) option" where
  "node_process_dep_out entry node s =
     do {
       (n, s) \<leftarrow> (if ae_in entry \<noteq> [] then dep_out_readers (ae_in entry) node s
                 else kupl_gnode_precede (ae_out entry) node s);
       s \<leftarrow> kupl_gnode_deref (ae_out entry) s;
       s \<leftarrow> kupl_gnode_ref node s;
       Some (n, \<lparr>ae_out = node, ae_in = []\<rparr>, s)
     }"

definition node_process_dep_in :: "addr_entry \<Rightarrow> ptr \<Rightarrow> graph_state \<Rightarrow>
    (u32 \<times> addr_entry \<times> graph_state) option" where
  "node_process_dep_in entry node s =
     do {
       s \<leftarrow> kupl_gnode_ref (Some node) s;
       let (ok, s) = next_alloc s;
       let entry = (if ok then entry\<lparr>ae_in := node # ae_in entry\<rparr> else entry);
       (n, s) \<leftarrow> kupl_gnode_precede (ae_out entry) (Some node) s;
       Some (n, entry, s)
     }"

definition KUPL_TASK_DEP_ALL_ADDR :: u64 where "KUPL_TASK_DEP_ALL_ADDR = - 1"
definition KUPL_MAX_LOCAL_DEP_COUNT :: nat where "KUPL_MAX_LOCAL_DEP_COUNT = 128"
definition KUPL_DAG_TASK_READY :: int where "KUPL_DAG_TASK_READY = 1"
definition KUPL_DAG_TASK_NOT_READY :: int where "KUPL_DAG_TASK_NOT_READY = 0"

text \<open>Any other value of the type is an error.\<close>

datatype kupl_task_dep_type = KUPL_TASK_DEP_TYPE_IN | KUPL_TASK_DEP_TYPE_OUT | KUPL_TASK_DEP_TYPE_INOUT
  | KUPL_TASK_DEP_TYPE_ALL | DEP_TYPE_OTHER

record kupl_task_dep =
  dp_base_addr :: u64
  dp_type :: kupl_task_dep_type

definition kupl_addr_entry_create :: "graph_state \<Rightarrow> addr_entry option \<times> graph_state" where
  "kupl_addr_entry_create s =
     (let (ok, s) = next_alloc s in (if ok then Some \<lparr>ae_out = None, ae_in = []\<rparr> else None, s))"

definition hash_find :: "u64 \<Rightarrow> graph_state \<Rightarrow> addr_entry option option" where
  "hash_find a s = map_of (gr_hash s) a"

definition hash_insert :: "u64 \<Rightarrow> addr_entry option \<Rightarrow> graph_state \<Rightarrow> graph_state" where
  "hash_insert a e s = s\<lparr>gr_hash := (a, e) # gr_hash s\<rparr>"

definition hash_set :: "u64 \<Rightarrow> addr_entry option \<Rightarrow> graph_state \<Rightarrow> graph_state" where
  "hash_set a e s = s\<lparr>gr_hash := map (\<lambda>(b, f). (b, if b = a then e else f)) (gr_hash s)\<rparr>"

text \<open>A fresh entry starts with the last task that depends on everything, when it is unfinished.\<close>

definition dep_entry_new :: "u64 \<Rightarrow> graph_state \<Rightarrow> graph_state option" where
  "dep_entry_new a s =
     (let (entry, s) = kupl_addr_entry_create s;
          s = hash_insert a entry s
      in if a = KUPL_TASK_DEP_ALL_ADDR then Some s
         else (case hash_find KUPL_TASK_DEP_ALL_ADDR s of
             None \<Rightarrow> Some s
           | Some None \<Rightarrow> None
           | Some (Some depall) \<Rightarrow>
               (case ae_out depall of
                  None \<Rightarrow> Some s
                | Some p \<Rightarrow> do {
                    t \<leftarrow> load_task p s;
                    if kupl_tb_is_finished (tk_tb t)
                    then do {
                      s \<leftarrow> kupl_gnode_deref (Some p) s;
                      Some (hash_set KUPL_TASK_DEP_ALL_ADDR (Some (depall\<lparr>ae_out := None\<rparr>)) s)
                    }
                    else do {
                      s \<leftarrow> kupl_gnode_ref (Some p) s;
                      e \<leftarrow> entry;
                      Some (hash_set a (Some (e\<lparr>ae_out := Some p\<rparr>)) s)
                    }
                  })))"

fun dep_all_entries :: "(u64 \<times> addr_entry option) list \<Rightarrow> ptr option \<Rightarrow> graph_state \<Rightarrow>
    (u32 \<times> (u64 \<times> addr_entry option) list \<times> graph_state) option" where
  "dep_all_entries [] node s = Some (0, [], s)"
| "dep_all_entries ((a, e) # es) node s =
     do {
       e \<leftarrow> e;
       (n, e, s) \<leftarrow> node_process_dep_out e node s;
       (m, es, s) \<leftarrow> dep_all_entries es node s;
       Some (n + m, (a, Some e) # es, s)
     }"

text \<open>\<open>kupl_node_process_dep\<close>: the predecessors it adds, \<open>None\<close> being \<open>KUPL_ERROR\<close>.\<close>

definition kupl_node_process_dep :: "ptr \<Rightarrow> kupl_task_dep \<Rightarrow> graph_state \<Rightarrow> (u32 option \<times> graph_state) option" where
  "kupl_node_process_dep node dep s =
     do {
       s \<leftarrow> (if hash_find (dp_base_addr dep) s \<noteq> None then Some s else dep_entry_new (dp_base_addr dep) s);
       e \<leftarrow> hash_find (dp_base_addr dep) s;
       (case e of
          None \<Rightarrow> Some (None, s)
        | Some entry \<Rightarrow>
            (case dp_type dep of
               KUPL_TASK_DEP_TYPE_IN \<Rightarrow> do {
                 (n, entry, s) \<leftarrow> node_process_dep_in entry node s;
                 Some (Some n, hash_set (dp_base_addr dep) (Some entry) s)
               }
             | KUPL_TASK_DEP_TYPE_ALL \<Rightarrow> do {
                 (n, es, s) \<leftarrow> dep_all_entries (gr_hash s) (Some node) s;
                 Some (Some n, s\<lparr>gr_hash := es\<rparr>)
               }
             | DEP_TYPE_OTHER \<Rightarrow> Some (None, s)
             | _ \<Rightarrow> do {
                 (n, entry, s) \<leftarrow> node_process_dep_out entry (Some node) s;
                 Some (Some n, hash_set (dp_base_addr dep) (Some entry) s)
               }))
     }"

text \<open>
  \<open>gnode_release_ready\<close>: a successor whose count was 1 becomes ready.  The safe variant only takes
  the lock before.
\<close>

fun release_loop :: "ptr list \<Rightarrow> graph_state \<Rightarrow> (ptr list \<times> graph_state) option" where
  "release_loop [] s = Some ([], s)"
| "release_loop (q # qs) s =
     do {
       u \<leftarrow> load_task q s;
       let n = tk_gnode u;
       let ready = (gn_n_predecessors n = 1);
       let s = store_task q (u\<lparr>tk_gnode := n\<lparr>gn_n_predecessors := gn_n_predecessors n - 1\<rparr>\<rparr>) s;
       (rs, s) \<leftarrow> release_loop qs s;
       Some (if ready then q # rs else rs, s)
     }"

definition gnode_release_ready :: "ptr \<Rightarrow> graph_state \<Rightarrow> (ptr list \<times> graph_state) option" where
  "gnode_release_ready p s = do { t \<leftarrow> load_task p s; release_loop (gn_successors (tk_gnode t)) s }"

definition kupl_addr_entry_destroy :: "addr_entry option \<Rightarrow> graph_state \<Rightarrow> graph_state option" where
  "kupl_addr_entry_destroy entry s =
     (case entry of
        None \<Rightarrow> Some s
      | Some e \<Rightarrow> do { (n, e, s) \<leftarrow> node_process_dep_out e None s; Some s })"

text \<open>The result says whether the dag exists; its table is empty.\<close>

definition kupl_dag_create :: "bool \<Rightarrow> graph_state \<Rightarrow> bool \<times> graph_state" where
  "kupl_dag_create hashok s =
     (let (ok, s) = next_alloc s
      in if \<not> ok \<or> \<not> hashok then (False, s) else (True, s\<lparr>gr_hash := []\<rparr>))"

fun dag_destroy_loop :: "(u64 \<times> addr_entry option) list \<Rightarrow> graph_state \<Rightarrow> graph_state option" where
  "dag_destroy_loop [] s = Some s"
| "dag_destroy_loop ((a, e) # es) s = do { s \<leftarrow> kupl_addr_entry_destroy e s; dag_destroy_loop es s }"

definition kupl_dag_destroy :: "graph_state \<Rightarrow> graph_state option" where
  "kupl_dag_destroy s = map_option (\<lambda>s. s\<lparr>gr_hash := []\<rparr>) (dag_destroy_loop (gr_hash s) s)"

text \<open>
  \<open>dep_list_rm_dup\<close>: the entries it writes and the count it leaves.  \<open>hash\<close> is a filter that says
  quickly that an address is new.
\<close>

definition merge_dep :: "kupl_task_dep list \<Rightarrow> kupl_task_dep \<Rightarrow> kupl_task_dep list" where
  "merge_dep acc d =
     (case dropWhile (\<lambda>e. dp_base_addr e \<noteq> dp_base_addr d) acc of
        e # rest \<Rightarrow>
          if dp_type e \<noteq> dp_type d
          then takeWhile (\<lambda>e. dp_base_addr e \<noteq> dp_base_addr d) acc @
                 e\<lparr>dp_type := KUPL_TASK_DEP_TYPE_OUT\<rparr> # rest
          else acc @ [d]
      | [] \<Rightarrow> acc @ [d])"

fun rm_dup_loop :: "kupl_task_dep list \<Rightarrow> u64 \<Rightarrow> kupl_task_dep list \<Rightarrow> nat \<Rightarrow> kupl_task_dep list \<times> nat" where
  "rm_dup_loop [] hash acc cnt = (acc, cnt)"
| "rm_dup_loop (d # ds) hash acc cnt =
     (if dp_type d = KUPL_TASK_DEP_TYPE_ALL \<or> dp_base_addr d = KUPL_TASK_DEP_ALL_ADDR
      then ([\<lparr>dp_base_addr = KUPL_TASK_DEP_ALL_ADDR, dp_type = KUPL_TASK_DEP_TYPE_ALL\<rparr>], 1)
      else if hash AND dp_base_addr d \<noteq> dp_base_addr d
      then rm_dup_loop ds (hash OR dp_base_addr d) (acc @ [d]) cnt
      else rm_dup_loop ds hash (merge_dep acc d) cnt)"

definition dep_list_rm_dup :: "kupl_task_dep list \<Rightarrow> kupl_task_dep list \<times> nat" where
  "dep_list_rm_dup ds = rm_dup_loop ds 0 [] (length ds)"

text \<open>The dependencies are processed one after the other; an entry that was not written is undefined.\<close>

fun process_deps :: "nat \<Rightarrow> kupl_task_dep list \<Rightarrow> ptr \<Rightarrow> graph_state \<Rightarrow> (u32 option \<times> graph_state) option" where
  "process_deps 0 ds node s = Some (Some 0, s)"
| "process_deps (Suc k) [] node s = None"
| "process_deps (Suc k) (d # ds) node s =
     do {
       (r, s) \<leftarrow> kupl_node_process_dep node d s;
       (case r of
          None \<Rightarrow> Some (None, s)
        | Some n \<Rightarrow> do {
            (r, s) \<leftarrow> process_deps k ds node s;
            Some (map_option (\<lambda>m. n + m) r, s)
          })
     }"

definition kupl_dag_add_task :: "ptr \<Rightarrow> kupl_task_dep list \<Rightarrow> graph_state \<Rightarrow> (int \<times> graph_state) option" where
  "kupl_dag_add_task task deps s =
     (let (ok, s) = (if length deps > KUPL_MAX_LOCAL_DEP_COUNT then next_alloc s else (True, s))
      in if \<not> ok then Some (KUPL_ERROR, s)
         else (let (dep_list, dep_cnt) = dep_list_rm_dup deps in
           do {
             (r, s) \<leftarrow> process_deps dep_cnt dep_list task s;
             (case r of
                None \<Rightarrow> Some (KUPL_ERROR, s)
              | Some n \<Rightarrow> do {
                  t \<leftarrow> load_task task s;
                  Some (if gn_n_predecessors (tk_gnode t) + n = - n then KUPL_DAG_TASK_READY
                        else KUPL_DAG_TASK_NOT_READY, s)
                })
           }))"

end
