(* ===== verification/Kupl_Task.thy ===== *)
theory Kupl_Task
  imports Kupl_Dag
begin

text \<open>
  Tasks (\<open>src/src/mt/kupl_task.cpp\<close>): creation, initialisation, execution and the release of the
  successors.  The scheduler is the pool of tasks that were handed to it: Kupl\_Sched shows that every
  plugin keeps this pool, or has the caller run the task at once, which is the pool with the task
  taken out again.  The function of a task is code of the user and a parameter.
\<close>

section \<open>Creation\<close>

definition KUPL_MAX_MALLOC_SIZE :: nat where "KUPL_MAX_MALLOC_SIZE = 137438953472"

definition zero_tb :: kupl_taskbase where
  "zero_tb = \<lparr>tb_type = KUPL_TB_TYPE_UNKNOW, tb_name = None, tb_id = 0, tb_graph = None, tb_egroup = None,
     tb_func = None, tb_args = None, tb_priority = 0, tb_core_id = 0, tb_executor_id = 0, tb_flag = 0,
     tb_cp = 0, tb_ref = 0, tb_state = 0, tb_count = None\<rparr>"

definition zero_task :: kupl_task where
  "zero_task = \<lparr>tk_tb = zero_tb, tk_kind = 0, tk_gnode = \<lparr>gn_successors = [], gn_n_successors = 0,
     gn_n_hard_predecessors = 0, gn_n_soft_predecessors = 0, gn_n_predecessors = 0, gn_lock = False\<rparr>\<rparr>"

text \<open>\<open>mem\<close> is what the allocator returns.\<close>

definition kupl_task_create_with_udata :: "nat \<Rightarrow> ptr option \<Rightarrow> graph_state \<Rightarrow> ptr option \<times> graph_state" where
  "kupl_task_create_with_udata udata_size mem s =
     (if udata_size \<ge> KUPL_MAX_MALLOC_SIZE then (None, s)
      else (case mem of
          None \<Rightarrow> (None, s)
        | Some p \<Rightarrow> (Some p, store_task p (zero_task\<lparr>tk_tb := zero_tb\<lparr>tb_type := KUPL_TB_TYPE_TASK,
            tb_ref := 1, tb_state := KUPL_TB_STATE_CREATED\<rparr>\<rparr>) s)))"

definition kupl_task_create :: "ptr option \<Rightarrow> graph_state \<Rightarrow> ptr option \<times> graph_state" where
  "kupl_task_create mem s = kupl_task_create_with_udata 0 mem s"

record kupl_task_param =
  pa_super :: kupl_tb_param
  pa_kind :: u64
  pa_inplace :: "ptr option"
  pa_udata_size :: nat

definition kupl_task_cleanup :: "ptr option \<Rightarrow> graph_state \<Rightarrow> graph_state option" where
  "kupl_task_cleanup task s = kupl_task_deref task s"

text \<open>
  \<open>kupl_task_init\<close>: \<open>garbage\<close> is what the memory of a new task holds, \<open>cp\<close> the compute place of
  the caller, \<open>lockok\<close> whether the lock of the node could be created.
\<close>

definition kupl_task_init :: "kupl_task_param \<Rightarrow> kupl_task \<Rightarrow> nat \<Rightarrow> bool \<Rightarrow> ptr option \<Rightarrow> graph_state \<Rightarrow>
    (ptr option \<times> graph_state) option" where
  "kupl_task_init param garbage cp lockok mem s =
     do {
       (task, s) \<leftarrow>
         (case pa_inplace param of
            Some p \<Rightarrow> do {
              t \<leftarrow> load_task p s;
              Some (Some p, store_task p (t\<lparr>tk_tb := (tk_tb t)\<lparr>tb_ref := tb_ref (tk_tb t) + 1\<rparr>\<rparr>) s)
            }
          | None \<Rightarrow>
              (case mem of
                 None \<Rightarrow> Some (None, s)
               | Some p \<Rightarrow> Some (Some p, store_task p (garbage\<lparr>tk_tb := (tk_tb garbage)\<lparr>tb_ref := 1\<rparr>\<rparr>) s)));
       (case task of
          None \<Rightarrow> Some (None, s)
        | Some p \<Rightarrow> do {
            t \<leftarrow> load_task p s;
            let (ret, gnode) = kupl_gnode_init lockok (tk_gnode t);
            let t = t\<lparr>tk_tb := kupl_tb_init (tk_tb t) (pa_super param) cp, tk_kind := pa_kind param,
                      tk_gnode := gnode\<rparr>;
            if ret = KUPL_ERROR
            then do { s \<leftarrow> kupl_task_cleanup (Some p) (store_task p t s); Some (None, s) }
            else Some (Some p, store_task p (t\<lparr>tk_tb := (tk_tb t)\<lparr>tb_state := KUPL_TB_STATE_INIT\<rparr>\<rparr>) s)
          })
     }"

section \<open>Execution\<close>

text \<open>The call of the task's function is \<open>func\<close>.\<close>

definition task_mark_finished :: "ptr \<Rightarrow> graph_state \<Rightarrow> graph_state option" where
  "task_mark_finished p s =
     do {
       t \<leftarrow> load_task p s;
       Some (store_task p (t\<lparr>tk_tb := (tk_tb t)\<lparr>tb_state := tb_state (tk_tb t) OR KUPL_TB_STATE_FINISHED\<rparr>\<rparr>) s)
     }"

definition kupl_task_execute :: "(graph_state \<Rightarrow> graph_state option) \<Rightarrow> ptr \<Rightarrow> graph_state \<Rightarrow> graph_state option" where
  "kupl_task_execute func p s = do { s \<leftarrow> func s; task_mark_finished p s }"

text \<open>
  Handing a task to the scheduler: \<open>kupl_sched_add_tb\<close> marks it ready and counts it.  The queues of the
  scheduler are a pool from which a run takes tasks in any order; what the scheduler and its plugins do
  with a task is the subject of \<open>Kupl_Sched\<close> and the theories of the plugins.
\<close>

definition pool_add :: "ptr \<Rightarrow> graph_state \<Rightarrow> graph_state option" where
  "pool_add p s =
     do {
       t \<leftarrow> load_task p s;
       let tb = (tk_tb t)\<lparr>tb_state := tb_state (tk_tb t) OR KUPL_TB_STATE_READY\<rparr>;
       let s = store_task p (t\<lparr>tk_tb := tb\<rparr>) s;
       Some (s\<lparr>gr_counts := kupl_tb_count_add (gr_counts s) tb, gr_pool := gr_pool s @ [p]\<rparr>)
     }"

fun pool_add_all :: "ptr list \<Rightarrow> graph_state \<Rightarrow> graph_state option" where
  "pool_add_all [] s = Some s"
| "pool_add_all (p # ps) s = do { s \<leftarrow> pool_add p s; pool_add_all ps s }"

text \<open>More than 128 successors need an array on the heap, whose allocation may fail.\<close>

definition kupl_task_finish :: "ptr \<Rightarrow> graph_state \<Rightarrow> graph_state option" where
  "kupl_task_finish p s =
     do {
       t \<leftarrow> load_task p s;
       if tb_flag (tk_tb t) AND KUPL_TB_FLAG_REUSE \<noteq> 0 then Some s
       else do {
         let t = (if tk_kind t AND KUPL_TASK_KIND_STATIC_MASK \<noteq> 0
                  then t\<lparr>tk_tb := (tk_tb t)\<lparr>tb_state := KUPL_TB_STATE_INIT\<rparr>,
                         tk_gnode := kupl_gnode_reset (tk_gnode t)\<rparr> else t);
         let s = store_task p t s;
         let (ok, s) = (if gn_n_successors (tk_gnode t) > 128 then next_alloc s else (True, s));
         if \<not> ok then Some s
         else do {
           (ready_tasks, s) \<leftarrow> gnode_release_ready p s;
           s \<leftarrow> pool_add_all ready_tasks s;
           t \<leftarrow> load_task p s;
           let s = s\<lparr>gr_counts := kupl_tb_count_sub (gr_counts s) (tk_tb t)\<rparr>;
           if tk_kind t AND KUPL_TASK_KIND_DYNAMIC_MASK \<noteq> 0 then kupl_task_deref (Some p) s else Some s
         }
       }
     }"

text \<open>\<open>bound\<close> says that the calling thread \<open>geid\<close> is an executor.\<close>

definition kupl_task_invoke :: "(graph_state \<Rightarrow> graph_state option) \<Rightarrow> bool \<Rightarrow> int \<Rightarrow> ptr option \<Rightarrow>
    graph_state \<Rightarrow> (int \<times> graph_state) option" where
  "kupl_task_invoke func bound geid tb s =
     (case tb of
        None \<Rightarrow> Some (0, s)
      | Some p \<Rightarrow> do {
          let suspend_tb = (if bound then gr_current s geid else None);
          let s = (if bound then s\<lparr>gr_current := (gr_current s)(geid := Some p)\<rparr> else s);
          s \<leftarrow> kupl_task_execute func p s;
          s \<leftarrow> kupl_task_finish p s;
          Some (1, if bound then s\<lparr>gr_current := (gr_current s)(geid := suspend_tb)\<rparr> else s)
        })"

text \<open>
  \<open>kupl_task_wait\<close> lets the scheduler run tasks (\<open>run\<close>) until the task is finished; a wait that
  never ends is \<open>None\<close>.
\<close>

partial_function (option) task_wait_loop ::
  "(graph_state \<Rightarrow> (int \<times> graph_state) option) \<Rightarrow> ptr \<Rightarrow> graph_state \<Rightarrow> graph_state option" where
  "task_wait_loop run p s =
     Option.bind (load_task p s) (\<lambda>t.
       if kupl_tb_test (Some (tk_tb t)) = KUPL_AGAIN
       then Option.bind (run s) (\<lambda>r. if fst r = KUPL_FINISHED then Some (snd r) else task_wait_loop run p (snd r))
       else Some s)"

definition kupl_task_wait :: "(graph_state \<Rightarrow> (int \<times> graph_state) option) \<Rightarrow> ptr option \<Rightarrow> graph_state \<Rightarrow>
    (int \<times> graph_state) option" where
  "kupl_task_wait run task s =
     (case task of
        None \<Rightarrow> Some (KUPL_ERROR, s)
      | Some p \<Rightarrow> do {
          t \<leftarrow> load_task p s;
          if tb_state (tk_tb t) AND KUPL_TB_STATE_INIT = 0 then Some (KUPL_ERROR, s)
          else if tk_kind t AND KUPL_TASK_KIND_DYNAMIC_MASK = 0 then Some (KUPL_ERROR, s)
          else do { s \<leftarrow> task_wait_loop run p s; Some (KUPL_OK, s) }
        })"

end
