(* ===== verification/Kupl_Graph.thy ===== *)
theory Kupl_Graph
  imports Kupl_Task
begin

text \<open>
  Graphs of dynamic tasks (\<open>src/src/mt/kupl_graph.cpp\<close>, \<open>.h\<close>): creation, submission with
  dependencies, waiting, and the runs of a graph: sequences of submissions by any thread, of
  executors that take a task, finish its function, and release its successors.
\<close>

section \<open>The graph\<close>

record kupl_graph =
  kg_dag :: bool
  kg_sched :: bool
  kg_eid_set :: "nat set"

text \<open>
  \<open>kupl_graph_create\<close>: \<open>inited\<close> is the outcome of the initialisation, \<open>sched\<close> says that the
  scheduler exists (the one of the expanded executors for an expanded executor), \<open>ok\<close> and \<open>hashok\<close>
  are the allocations of the graph and of the table; \<open>egroup\<close> is the executor set of the group.
\<close>

definition kupl_graph_create :: "bool \<Rightarrow> bool \<Rightarrow> bool \<Rightarrow> bool \<Rightarrow> nat set \<Rightarrow> nat set option \<Rightarrow> graph_state \<Rightarrow>
    kupl_graph option \<times> graph_state" where
  "kupl_graph_create inited sched ok hashok all_executors egroup s =
     (if \<not> inited \<or> \<not> sched \<or> \<not> ok then (None, s)
      else (let (dag, s) = kupl_dag_create hashok s
        in if \<not> dag then (None, s)
           else (case egroup of
               Some es \<Rightarrow> if es \<noteq> {} then (Some \<lparr>kg_dag = True, kg_sched = True, kg_eid_set = es\<rparr>, s)
                          else (None, s\<lparr>gr_hash := []\<rparr>)
             | None \<Rightarrow> (Some \<lparr>kg_dag = True, kg_sched = True, kg_eid_set = all_executors\<rparr>, s))))"

definition kupl_graph_destroy :: "kupl_graph option \<Rightarrow> graph_state \<Rightarrow> graph_state option" where
  "kupl_graph_destroy graph s =
     (case graph of None \<Rightarrow> Some s | Some g \<Rightarrow> if kg_dag g then kupl_dag_destroy s else Some s)"

text \<open>
  The graph of the current task; the graph of a static task is the one its static graph runs in,
  \<open>sgraph_graph\<close>.
\<close>

definition kupl_get_current_graph :: "bool \<Rightarrow> int \<Rightarrow> (ptr \<Rightarrow> ptr option) \<Rightarrow> graph_state \<Rightarrow> ptr option option" where
  "kupl_get_current_graph bound geid sgraph_graph s =
     (if \<not> bound then Some None
      else (case gr_current s geid of
          None \<Rightarrow> Some None
        | Some p \<Rightarrow> do {
            t \<leftarrow> load_task p s;
            if tb_type (tk_tb t) = KUPL_TB_TYPE_TASK \<and> tk_kind t AND KUPL_TASK_KIND_STATIC_MASK \<noteq> 0
            then do { g \<leftarrow> tb_graph (tk_tb t); Some (sgraph_graph g) }
            else Some (tb_graph (tk_tb t))
          }))"

section \<open>Submission\<close>

definition KUPL_TASK_DESC_FIELD_DEP :: u64 where "KUPL_TASK_DESC_FIELD_DEP = 8"

record kupl_task_desc =
  kd_field_mask :: u64
  kd_func :: "ptr option"
  kd_args :: "ptr option"
  kd_name :: string
  kd_priority :: int
  kd_ndep :: nat
  kd_dep_list :: "ptr option"
  kd_flag :: u32

text \<open>
  The description is passed on as a \<open>kupl_tb_desc\<close> by a cast.  The two agree up to the priority;
  then the flag is read from the padding \<open>pad\<close> between \<open>priority\<close> and \<open>ndep\<close>, the executor from the
  low half of \<open>ndep\<close>, and the group from \<open>dep_list\<close>.
\<close>

definition task_desc_as_tb_desc :: "u32 \<Rightarrow> kupl_task_desc \<Rightarrow> kupl_tb_desc" where
  "task_desc_as_tb_desc pad d =
     \<lparr>td_field_mask = kd_field_mask d, td_func = kd_func d, td_args = kd_args d, td_name = kd_name d,
      td_priority = kd_priority d, td_flag = pad, td_executor_id = sint (of_nat (kd_ndep d) :: u32),
      td_egroup = kd_dep_list d\<rparr>"

text \<open>
  What a call of \<open>kupl_graph_add_task\<close> meets: the address of the graph and of its counter, the number
  of the caller, its compute place, the padding, and the state of fresh memory and of the lock.
\<close>

record graph_env =
  ge_graph :: ptr
  ge_count :: ptr
  ge_geid :: int
  ge_cp :: nat
  ge_pad :: u32
  ge_garbage :: kupl_task
  ge_lockok :: bool

text \<open>\<open>deps\<close> is the array \<open>dep_list\<close> points to, with \<open>ndep\<close> elements.\<close>

definition graph_task_param :: "graph_env \<Rightarrow> kupl_tb_desc \<Rightarrow> kupl_task_param" where
  "graph_task_param env user_desc =
     \<lparr>pa_super = \<lparr>tp_type = KUPL_TB_TYPE_TASK, tp_user_desc = user_desc, tp_graph = Some (ge_graph env),
                  tp_count = Some (ge_count env)\<rparr>,
      pa_kind = KUPL_TASK_KIND_COMM_DYNAMIC, pa_inplace = None, pa_udata_size = 0\<rparr>"

definition kupl_graph_add_task :: "graph_env \<Rightarrow> bool \<Rightarrow> kupl_task_desc option \<Rightarrow> kupl_task_dep list \<Rightarrow> ptr option \<Rightarrow>
    graph_state \<Rightarrow> (int \<times> graph_state) option" where
  "kupl_graph_add_task env graph task_desc deps mem s =
     (case task_desc of
        None \<Rightarrow> Some (KUPL_ERROR, s)
      | Some d \<Rightarrow>
          if \<not> graph \<or> kd_func d = None then Some (KUPL_ERROR, s)
          else if ge_geid env = -1 then Some (KUPL_ERROR, s)
          else do {
            (task, s) \<leftarrow> kupl_task_init (graph_task_param env (task_desc_as_tb_desc (ge_pad env) d))
                          (ge_garbage env) (ge_cp env) (ge_lockok env) mem s;
            (case task of
               None \<Rightarrow> Some (KUPL_ERROR, s)
             | Some p \<Rightarrow>
                 if kd_field_mask d AND KUPL_TASK_DESC_FIELD_DEP \<noteq> 0
                 then (if kd_ndep d \<noteq> 0 \<and> kd_dep_list d = None then Some (KUPL_ERROR, s)
                       else do {
                         (ret, s) \<leftarrow> kupl_dag_add_task p deps s;
                         if ret = KUPL_ERROR then Some (KUPL_ERROR, s)
                         else if ret = KUPL_DAG_TASK_NOT_READY then Some (KUPL_OK, s)
                         else do { s \<leftarrow> pool_add p s; Some (KUPL_OK, s) }
                       })
                 else do { s \<leftarrow> pool_add p s; Some (KUPL_OK, s) })
          })"

record kupl_sgraph_task_desc =
  sd_field_mask :: u64
  sd_sgraph :: "ptr option"
  sd_name :: string
  sd_priority :: int
  sd_flag :: u32

text \<open>
  Running a static graph as a task: its function is \<open>kupl_sgraph_task_body\<close>, at \<open>body\<close>; the result
  also is the graph that the static graph is bound to.
\<close>

definition kupl_graph_add_sgraph_task :: "graph_env \<Rightarrow> ptr \<Rightarrow> kupl_sgraph_task_desc option \<Rightarrow> ptr option \<Rightarrow>
    graph_state \<Rightarrow> (int \<times> ptr option \<times> graph_state) option" where
  "kupl_graph_add_sgraph_task env body task_desc mem s =
     (case task_desc of
        None \<Rightarrow> Some (KUPL_ERROR, None, s)
      | Some d \<Rightarrow>
          if sd_sgraph d = None then Some (KUPL_ERROR, None, s)
          else if ge_geid env = -1 then Some (KUPL_ERROR, None, s)
          else do {
            (task, s) \<leftarrow> kupl_task_init (graph_task_param env
                \<lparr>td_field_mask = sd_field_mask d, td_func = Some body, td_args = sd_sgraph d,
                 td_name = sd_name d, td_priority = sd_priority d, td_flag = sd_flag d,
                 td_executor_id = 0, td_egroup = None\<rparr>)
              (ge_garbage env) (ge_cp env) (ge_lockok env) mem s;
            (case task of
               None \<Rightarrow> Some (KUPL_ERROR, Some (ge_graph env), s)
             | Some p \<Rightarrow> do { s \<leftarrow> pool_add p s; Some (KUPL_OK, Some (ge_graph env), s) })
          })"

section \<open>Waiting\<close>

text \<open>\<open>run\<close> is \<open>kupl_sched_execute_tb\<close>; a wait that never ends is \<open>None\<close>.\<close>

partial_function (option) graph_wait_loop ::
  "(graph_state \<Rightarrow> (int \<times> graph_state) option) \<Rightarrow> ptr \<Rightarrow> graph_state \<Rightarrow> graph_state option" where
  "graph_wait_loop run c s =
     (if gr_counts s c \<noteq> 0
      then Option.bind (run s) (\<lambda>r. if fst r = KUPL_FINISHED then Some (snd r) else graph_wait_loop run c (snd r))
      else Some s)"

definition kupl_graph_wait :: "(graph_state \<Rightarrow> (int \<times> graph_state) option) \<Rightarrow> ptr option \<Rightarrow> graph_state \<Rightarrow>
    graph_state option" where
  "kupl_graph_wait run graph s = (case graph of None \<Rightarrow> Some s | Some c \<Rightarrow> graph_wait_loop run c s)"

definition kupl_graph_test :: "(graph_state \<Rightarrow> (int \<times> graph_state) option) \<Rightarrow> ptr option \<Rightarrow> graph_state \<Rightarrow>
    (int \<times> graph_state) option" where
  "kupl_graph_test run graph s =
     (case graph of
        None \<Rightarrow> Some (KUPL_ERROR, s)
      | Some c \<Rightarrow> do { (r, s) \<leftarrow> run s; Some (sint (gr_counts s c), s) })"

text \<open>
  The dispatch on the type of a task; taskloops are in Kupl\_Taskloop and a parameter here.  A null
  graph is only tested here, not in \<open>kupl_graph_add_sgraph_task\<close>.
\<close>

datatype kupl_task_info = TASK_TYPE_SINGLE "kupl_task_desc option" "kupl_task_dep list"
  | TASK_TYPE_SGRAPH "kupl_sgraph_task_desc option" | TASK_TYPE_TASKLOOP | TASK_TYPE_OTHER

definition kupl_graph_submit :: "graph_env \<Rightarrow> bool \<Rightarrow> ptr \<Rightarrow> (graph_state \<Rightarrow> (int \<times> graph_state) option) \<Rightarrow>
    kupl_task_info option \<Rightarrow> ptr option \<Rightarrow> graph_state \<Rightarrow> (int \<times> graph_state) option" where
  "kupl_graph_submit env graph body taskloop info mem s =
     (if \<not> graph then Some (KUPL_ERROR, s)
      else (case info of
          None \<Rightarrow> Some (KUPL_ERROR, s)
        | Some (TASK_TYPE_SINGLE d deps) \<Rightarrow> kupl_graph_add_task env True d deps mem s
        | Some (TASK_TYPE_SGRAPH d) \<Rightarrow>
            map_option (\<lambda>(st, g, s). (st, s)) (kupl_graph_add_sgraph_task env body d mem s)
        | Some TASK_TYPE_TASKLOOP \<Rightarrow> taskloop s
        | Some TASK_TYPE_OTHER \<Rightarrow> Some (KUPL_ERROR, s)))"

text \<open>
  The global graphs, created by the first caller: \<open>create\<close> is the outcome of \<open>kupl_graph_create\<close>.  The
  second test happens under the lock.
\<close>

record global_graphs =
  g_graph :: "ptr option"
  g_graph_expand :: "ptr option"

definition kupl_get_global_graph :: "bool \<Rightarrow> ptr option \<Rightarrow> global_graphs \<Rightarrow> ptr option \<times> global_graphs" where
  "kupl_get_global_graph expand create g =
     (if expand
      then (if g_graph_expand g \<noteq> None then (g_graph_expand g, g)
            else (let g = g\<lparr>g_graph_expand := create\<rparr> in (g_graph_expand g, g)))
      else (if g_graph g \<noteq> None then (g_graph g, g)
            else (let g = g\<lparr>g_graph := create\<rparr> in (g_graph g, g))))"

end
