(* ===== verification/Kupl_Dag_Inv.thy ===== *)
theory Kupl_Dag_Inv
  imports Kupl_Dag
begin

text \<open>
  The invariant of the dependency graph of tasks, and what every operation of Kupl\_Dag does to it.

  \<open>U\<close> are the tasks that are not released yet, \<open>X \<subseteq> U\<close> those that were handed to the scheduler,
  \<open>F \<subseteq> X\<close> those whose function has ended, \<open>R\<close> counts the references to each task, and \<open>E\<close> are the
  dependencies that still hold.
\<close>

section \<open>Tasks, references and edges\<close>

definition succs :: "graph_state \<Rightarrow> ptr \<Rightarrow> ptr list" where
  "succs s p = (case gr_heap s p of None \<Rightarrow> [] | Some t \<Rightarrow> gn_successors (tk_gnode t))"

definition npred :: "graph_state \<Rightarrow> ptr \<Rightarrow> nat" where
  "npred s p = (case gr_heap s p of None \<Rightarrow> 0 | Some t \<Rightarrow> unat (gn_n_predecessors (tk_gnode t)))"

definition rest :: "graph_state \<Rightarrow> (u64 \<times> addr_entry option) list \<times> ptr list \<times> (ptr \<Rightarrow> u32) \<times> (int \<Rightarrow> ptr option)" where
  "rest s = (gr_hash s, gr_pool s, gr_counts s, gr_current s)"

definition task_ok :: "ptr \<Rightarrow> kupl_task \<Rightarrow> bool" where
  "task_ok c t \<longleftrightarrow> tk_kind t = KUPL_TASK_KIND_COMM_DYNAMIC \<and> tb_flag (tk_tb t) AND KUPL_TB_FLAG_REUSE = 0 \<and>
     tb_count (tk_tb t) = Some c"

definition ref_ok :: "bool \<Rightarrow> int \<Rightarrow> kupl_task option \<Rightarrow> bool" where
  "ref_ok fin r h = (case h of None \<Rightarrow> r = 0
     | Some t \<Rightarrow> r = tb_ref (tk_tb t) \<and> 0 < r \<and> (kupl_tb_is_finished (tk_tb t) \<longleftrightarrow> fin))"

lemma ref_ok_simps [simp]:
  "ref_ok fin r None \<longleftrightarrow> r = 0"
  "ref_ok fin r (Some t) \<longleftrightarrow> r = tb_ref (tk_tb t) \<and> 0 < r \<and> (kupl_tb_is_finished (tk_tb t) \<longleftrightarrow> fin)"
  by (simp_all add: ref_ok_def)

definition base_inv :: "ptr \<Rightarrow> ptr set \<Rightarrow> ptr set \<Rightarrow> ptr set \<Rightarrow> (ptr \<Rightarrow> int) \<Rightarrow> (ptr \<times> ptr) set \<Rightarrow> graph_state \<Rightarrow> bool" where
  "base_inv c U X F R E s \<longleftrightarrow>
     (finite U \<and> F \<subseteq> X \<and> X \<subseteq> U \<and> gr_alloc s = (\<lambda>_. True)) \<and>
     (\<forall>p\<in>U. \<exists>t. gr_heap s p = Some t \<and> task_ok c t) \<and>
     (\<forall>p. ref_ok (p \<notin> U \<or> p \<in> F) (R p) (gr_heap s p)) \<and>
     (\<forall>p q. (p, q) \<in> E \<longleftrightarrow> p \<in> U \<and> q \<in> set (succs s p)) \<and> E \<subseteq> U \<times> U \<and>
     (\<forall>x\<in>U. npred s x = (\<Sum>p\<in>U. count_list (succs s p) x)) \<and> (\<forall>x\<in>X. npred s x = 0)"

lemma base_live: "base_inv c U X F R E s \<Longrightarrow> p \<in> U \<Longrightarrow> \<exists>t. gr_heap s p = Some t \<and> task_ok c t"
  by (simp add: base_inv_def)

lemma base_ref_ok: "base_inv c U X F R E s \<Longrightarrow> ref_ok (p \<notin> U \<or> p \<in> F) (R p) (gr_heap s p)"
  by (simp only: base_inv_def)

lemma base_heap: "base_inv c U X F R E s \<Longrightarrow> gr_heap s p = Some t \<Longrightarrow>
    R p = tb_ref (tk_tb t) \<and> 0 < R p \<and> (kupl_tb_is_finished (tk_tb t) \<longleftrightarrow> p \<notin> U \<or> p \<in> F)"
  by (drule base_ref_ok[of c U X F R E s p]) simp

lemma base_dead: "base_inv c U X F R E s \<Longrightarrow> gr_heap s p = None \<longleftrightarrow> R p = 0"
  by (drule base_ref_ok[of c U X F R E s p]) (cases "gr_heap s p"; simp)

lemma base_refs: "base_inv c U X F R E s \<Longrightarrow> 0 < R p \<Longrightarrow> \<exists>t. gr_heap s p = Some t"
  using base_dead by (metis less_irrefl not_Some_eq)

lemma base_sets: "base_inv c U X F R E s \<Longrightarrow> finite U \<and> F \<subseteq> X \<and> X \<subseteq> U \<and> gr_alloc s = (\<lambda>_. True) \<and> E \<subseteq> U \<times> U"
  unfolding base_inv_def by (elim conjE) (intro conjI; assumption)

lemma base_edge: "base_inv c U X F R E s \<Longrightarrow> (p, q) \<in> E \<longleftrightarrow> p \<in> U \<and> q \<in> set (succs s p)"
  by (simp add: base_inv_def)

lemma base_npred: "base_inv c U X F R E s \<Longrightarrow> x \<in> U \<Longrightarrow> npred s x = (\<Sum>p\<in>U. count_list (succs s p) x)"
  by (simp add: base_inv_def)

lemma base_no_pred: "base_inv c U X F R E s \<Longrightarrow> x \<in> X \<Longrightarrow> npred s x = 0"
  by (simp add: base_inv_def)

text \<open>A task has no open predecessor exactly when no edge leads to it.\<close>

lemma base_npred_0:
  assumes "base_inv c U X F R E s" and "x \<in> U"
  shows "npred s x = 0 \<longleftrightarrow> (\<forall>p. (p, x) \<notin> E)"
proof -
  have "npred s x = 0 \<longleftrightarrow> (\<forall>p\<in>U. count_list (succs s p) x = 0)"
    using base_npred[OF assms] base_sets[OF assms(1)] by simp
  then show ?thesis using base_edge[OF assms(1)] by (auto simp: count_list_0_iff)
qed

lemma base_X_no_edge: "base_inv c U X F R E s \<Longrightarrow> x \<in> X \<Longrightarrow> (p, x) \<notin> E"
  using base_npred_0 base_no_pred base_sets by (metis subsetD)

lemma next_alloc_True: "gr_alloc s = (\<lambda>_. True) \<Longrightarrow> next_alloc s = (True, s)"
  by (simp add: next_alloc_def)

lemma rest_store [simp]: "rest (store_task p t s) = rest s"
  by (simp add: rest_def store_task_def)

lemma heap_store: "gr_heap (store_task p t s) x = (if x = p then Some t else gr_heap s x)"
  by (simp add: store_task_def)

lemma alloc_store [simp]: "gr_alloc (store_task p t s) = gr_alloc s"
  by (simp add: store_task_def)

text \<open>An update that only touches the reference count.\<close>

lemma base_set_ref:
  assumes inv: "base_inv c U X F R E s" and t: "gr_heap s p = Some t" and k: "0 < k"
  defines "s' \<equiv> store_task p (t\<lparr>tk_tb := (tk_tb t)\<lparr>tb_ref := k\<rparr>\<rparr>) s"
  shows "base_inv c U X F (R(p := k)) E s'" "npred s' = npred s" "succs s' = succs s"
proof -
  show n: "npred s' = npred s" and S: "succs s' = succs s"
    using t by (auto simp: s'_def npred_def succs_def fun_eq_iff heap_store)
  have fin: "kupl_tb_is_finished ((tk_tb t)\<lparr>tb_ref := k\<rparr>) = kupl_tb_is_finished (tk_tb t)"
    by (simp add: kupl_tb_is_finished_def)
  have "\<forall>x\<in>U. \<exists>u. gr_heap s' x = Some u \<and> task_ok c u"
    using base_live[OF inv] t by (fastforce simp: s'_def heap_store task_ok_def)
  moreover have "ref_ok (x \<notin> U \<or> x \<in> F) ((R(p := k)) x) (gr_heap s' x)" for x
    using base_ref_ok[OF inv, of x] t k by (cases "x = p") (simp_all add: s'_def heap_store fin)
  ultimately show "base_inv c U X F (R(p := k)) E s'"
    using inv n S unfolding base_inv_def by (simp add: s'_def)
qed

lemma base_ref:
  assumes inv: "base_inv c U X F R E s" and "0 < R p"
  obtains s' where "kupl_gnode_ref (Some p) s = Some s'" "base_inv c U X F (R(p := R p + 1)) E s'"
    "npred s' = npred s" "rest s' = rest s"
proof -
  obtain t where t: "gr_heap s p = Some t" using base_refs[OF assms] by blast
  have k: "tb_ref (tk_tb t) + 1 = R p + 1" "0 < R p + 1" using base_heap[OF inv t] by simp_all
  show ?thesis
    using base_set_ref[OF inv t k(2)] that
    by (simp add: kupl_gnode_ref_def kupl_task_ref_def load_task_def t k(1))
qed

text \<open>A reference that is dropped: the last one of a task that was released frees it.\<close>

lemma base_deref:
  assumes inv: "base_inv c U X F R E s" and R: "0 < R p" and U: "p \<in> U \<longrightarrow> 1 < R p"
  obtains s' where "kupl_gnode_deref (Some p) s = Some s'" "base_inv c U X F (R(p := R p - 1)) E s'"
    "\<forall>x\<in>U. npred s' x = npred s x" "rest s' = rest s"
proof -
  obtain t where t: "gr_heap s p = Some t" using base_refs[OF inv R] by blast
  have r: "tb_ref (tk_tb t) = R p" using base_heap[OF inv t] by simp
  show ?thesis
  proof (cases "R p = 1")
    case False
    then have k: "0 < R p - 1" using R by simp
    show ?thesis using base_set_ref[OF inv t k] that False
      by (simp add: kupl_gnode_deref_def kupl_task_deref_def load_task_def t r)
  next
    case True
    let ?s = "s\<lparr>gr_heap := (gr_heap s)(p := None)\<rparr>"
    have p: "p \<notin> U" using U True by auto
    have n: "npred ?s x = npred s x" "succs ?s x = succs s x" if "x \<in> U" for x
      using that p by (auto simp: npred_def succs_def)
    have "ref_ok (x \<notin> U \<or> x \<in> F) ((R(p := 0)) x) (gr_heap ?s x)" for x
      using base_ref_ok[OF inv, of x] by (cases "x = p") simp_all
    moreover have "\<forall>x\<in>U. \<exists>u. gr_heap ?s x = Some u \<and> task_ok c u" using base_live[OF inv] p by auto
    moreover have "\<forall>p q. (p, q) \<in> E \<longleftrightarrow> p \<in> U \<and> q \<in> set (succs ?s p)" using base_edge[OF inv] n by auto
    moreover have "\<forall>x\<in>U. npred ?s x = (\<Sum>p\<in>U. count_list (succs ?s p) x)"
      using base_npred[OF inv] n by simp
    moreover have "\<forall>x\<in>X. npred ?s x = 0" using base_no_pred[OF inv] n base_sets[OF inv] by (metis subsetD)
    ultimately have "base_inv c U X F (R(p := 0)) E ?s"
      using base_sets[OF inv] unfolding base_inv_def by simp
    moreover have "kupl_gnode_deref (Some p) s = Some ?s"
      by (simp add: kupl_gnode_deref_def kupl_task_deref_def load_task_def t r True)
    ultimately show ?thesis using that True n(1) by (simp add: rest_def)
  qed
qed

text \<open>A new edge from an unfinished task to a task that was not handed out.\<close>

lemma base_link_finished:
  "base_inv c U X F R E s \<Longrightarrow> 0 < R p \<Longrightarrow> p \<notin> U \<or> p \<in> F \<Longrightarrow> kupl_gnode_precede (Some p) (Some q) s = Some (0, s)"
  using base_refs base_heap by (fastforce simp: kupl_gnode_precede_def load_task_def)

lemma base_link:
  assumes inv: "base_inv c U X F R E s" and p: "p \<in> U" "p \<notin> F" and q: "q \<in> U" "q \<notin> X" "p \<noteq> q"
    and b: "npred s q + 1 < 2 ^ 32"
  obtains s' where "kupl_gnode_precede (Some p) (Some q) s = Some (1, s')"
    "base_inv c U X F R (insert (p, q) E) s'" "npred s' q = npred s q + 1" "rest s' = rest s"
proof -
  obtain t where t: "gr_heap s p = Some t" "task_ok c t" using base_live[OF inv p(1)] by blast
  obtain u where u: "gr_heap s q = Some u" "task_ok c u" using base_live[OF inv q(1)] by blast
  have nf: "\<not> kupl_tb_is_finished (tk_tb t)" using base_heap[OF inv t(1)] p by simp
  let ?t = "t\<lparr>tk_gnode := (tk_gnode t)\<lparr>gn_n_successors := gn_n_successors (tk_gnode t) + 1,
      gn_successors := q # gn_successors (tk_gnode t)\<rparr>\<rparr>"
  let ?u = "u\<lparr>tk_gnode := (tk_gnode u)\<lparr>gn_n_hard_predecessors := gn_n_hard_predecessors (tk_gnode u) + 1,
      gn_n_predecessors := gn_n_predecessors (tk_gnode u) + 1\<rparr>\<rparr>"
  let ?s = "store_task q ?u (store_task p ?t s)"
  have call: "kupl_gnode_precede (Some p) (Some q) s = Some (1, ?s)"
    using nf q(3) base_sets[OF inv]
    by (simp add: kupl_gnode_precede_def load_task_def t(1) u(1) next_alloc_True Let_def heap_store)
  have S: "succs ?s x = (if x = p then q # succs s p else succs s x)" for x
    using q(3) t(1) u(1) by (auto simp: succs_def heap_store)
  have "unat (gn_n_predecessors (tk_gnode u) + 1) = unat (gn_n_predecessors (tk_gnode u)) + 1"
    using b by (simp add: npred_def u(1) unat_plus_if')
  then have N: "npred ?s x = (if x = q then npred s q + 1 else npred s x)" for x
    using q(3) t(1) u(1) by (auto simp: npred_def heap_store)
  have "\<forall>x\<in>U. npred ?s x = (\<Sum>y\<in>U. count_list (succs ?s y) x)"
  proof
    fix x assume x: "x \<in> U"
    have "(\<Sum>y\<in>U. count_list (succs ?s y) x) =
        (\<Sum>y\<in>U. count_list (succs s y) x + (if y = p \<and> x = q then 1 else 0))"
      by (intro sum.cong) (auto simp: S)
    also have "\<dots> = npred s x + (if x = q then 1 else 0)"
      using p(1) base_sets[OF inv] by (auto simp: sum.distrib base_npred[OF inv x] sum.delta')
    finally show "npred ?s x = (\<Sum>y\<in>U. count_list (succs ?s y) x)" by (simp add: N)
  qed
  moreover have "\<forall>x y. (x, y) \<in> insert (p, q) E \<longleftrightarrow> x \<in> U \<and> y \<in> set (succs ?s x)"
    using base_edge[OF inv] p(1) by (auto simp: S split: if_splits)
  moreover have "insert (p, q) E \<subseteq> U \<times> U" using base_sets[OF inv] p(1) q(1) by auto
  moreover have "\<forall>x\<in>X. npred ?s x = 0" using base_no_pred[OF inv] q(2) by (auto simp: N)
  moreover have "\<forall>x\<in>U. \<exists>t. gr_heap ?s x = Some t \<and> task_ok c t"
    using base_live[OF inv] t(2) u(2) by (simp add: heap_store task_ok_def)
  moreover have "ref_ok (x \<notin> U \<or> x \<in> F) (R x) (gr_heap ?s x)" for x
    using base_ref_ok[OF inv, of x] t(1) u(1) by (cases "x = p"; cases "x = q") (simp_all add: heap_store)
  ultimately have "base_inv c U X F R (insert (p, q) E) ?s"
    using base_sets[OF inv] unfolding base_inv_def by simp
  with call N show ?thesis using that by simp
qed


section \<open>Entries\<close>

abbreviation own :: "ptr set \<Rightarrow> ptr \<Rightarrow> int" where
  "own U p \<equiv> (if p \<in> U then 1 else 0)"

definition ent_refs :: "addr_entry \<Rightarrow> ptr \<Rightarrow> int" where
  "ent_refs e p = (if ae_out e = Some p then 1 else 0) + int (count_list (ae_in e) p)"

definition ent_prec :: "addr_entry \<Rightarrow> ptr set" where
  "ent_prec e = (if ae_in e \<noteq> [] then set (ae_in e) else set_option (ae_out e))"

lemma ent_refs_ge: "int (count_list (ae_in e) p) \<le> ent_refs e p"
  by (simp add: ent_refs_def)

lemma ent_refs_nonneg [simp]: "0 \<le> ent_refs e p"
  by (simp add: ent_refs_def)

text \<open>Whether the predecessor is unfinished or not, the call succeeds.\<close>

lemma base_precede:
  assumes inv: "base_inv c U X F R E s" and p: "0 < R p" "p \<noteq> q" and q: "q \<in> U" "q \<notin> X"
    and b: "npred s q + 1 < 2 ^ 32"
  obtains n s' where "kupl_gnode_precede (Some p) (Some q) s = Some (of_nat n, s')" "n \<le> 1"
    "base_inv c U X F R (E \<union> ({p} \<inter> (U - F)) \<times> {q}) s'" "npred s' q = npred s q + n" "rest s' = rest s"
proof (cases "p \<in> U - F")
  case True
  then have pU: "p \<in> U" "p \<notin> F" by auto
  obtain s' where "kupl_gnode_precede (Some p) (Some q) s = Some (1, s')"
    "base_inv c U X F R (insert (p, q) E) s'" "npred s' q = npred s q + 1" "rest s' = rest s"
    using base_link[OF inv pU q p(2) b] .
  moreover have "E \<union> ({p} \<inter> (U - F)) \<times> {q} = insert (p, q) E" using True by auto
  ultimately show ?thesis using that[of 1 s'] by simp
next
  case False
  then show ?thesis using base_link_finished[OF inv p(1), of q] inv that[of 0 s] by auto
qed

lemma readers_processed:
  assumes "base_inv c U X F R E s" and q: "q \<in> U" "q \<notin> X" and "q \<notin> set ps"
    and "\<forall>p. own U p + int (count_list ps p) \<le> R p" and "npred s q + length ps < 2 ^ 32"
  shows "\<exists>n s'. dep_out_readers ps (Some q) s = Some (of_nat n, s') \<and> n \<le> length ps \<and>
    base_inv c U X F (\<lambda>p. R p - int (count_list ps p)) (E \<union> (set ps \<inter> (U - F)) \<times> {q}) s' \<and>
    npred s' q = npred s q + n \<and> rest s' = rest s"
  using assms(1,4,5,6)
proof (induction ps arbitrary: s R E)
  case (Cons p ps)
  have r: "own U p + 1 \<le> R p" using Cons.prems(3)[rule_format, of p] by simp
  obtain n s1 where 1: "kupl_gnode_precede (Some p) (Some q) s = Some (of_nat n, s1)" "n \<le> 1"
    "base_inv c U X F R (E \<union> ({p} \<inter> (U - F)) \<times> {q}) s1" "npred s1 q = npred s q + n" "rest s1 = rest s"
    using base_precede[OF Cons.prems(1) _ _ q, of p] Cons.prems(2,4) r by (auto split: if_splits)
  obtain s2 where 2: "kupl_gnode_deref (Some p) s1 = Some s2"
    "base_inv c U X F (R(p := R p - 1)) (E \<union> ({p} \<inter> (U - F)) \<times> {q}) s2"
    "\<forall>x\<in>U. npred s2 x = npred s1 x" "rest s2 = rest s1"
    using base_deref[OF 1(3), of p] r by (auto split: if_splits)
  have own: "\<forall>x. own U x + int (count_list ps x) \<le> (R(p := R p - 1)) x"
  proof
    fix x
    show "own U x + int (count_list ps x) \<le> (R(p := R p - 1)) x"
      using Cons.prems(3)[rule_format, of x] by (simp split: if_splits)
  qed
  have "npred s2 q + length ps < 2 ^ 32" using 1(2,4) 2(3) q(1) Cons.prems(4) by simp
  moreover have "q \<notin> set ps" using Cons.prems(2) by simp
  ultimately obtain m s3 where 3: "dep_out_readers ps (Some q) s2 = Some (of_nat m, s3)" "m \<le> length ps"
    "base_inv c U X F (\<lambda>x. (R(p := R p - 1)) x - int (count_list ps x))
       ((E \<union> ({p} \<inter> (U - F)) \<times> {q}) \<union> (set ps \<inter> (U - F)) \<times> {q}) s3"
    "npred s3 q = npred s2 q + m" "rest s3 = rest s2"
    using Cons.IH[OF 2(2) _ own] by blast
  have "(\<lambda>x. (R(p := R p - 1)) x - int (count_list ps x)) = (\<lambda>x. R x - int (count_list (p # ps) x))" by auto
  moreover have "(E \<union> ({p} \<inter> (U - F)) \<times> {q}) \<union> (set ps \<inter> (U - F)) \<times> {q} = E \<union> (set (p # ps) \<inter> (U - F)) \<times> {q}"
    by auto
  ultimately show ?case using 1 2 3 q(1)
    by (intro exI[of _ "n + m"] exI[of _ s3]) simp
qed simp

lemma dep_out_processed:
  assumes inv: "base_inv c U X F R E s" and q: "q \<in> U" "q \<notin> X" and e: "ent_refs e q = 0"
    and R: "\<forall>p. own U p + ent_refs e p \<le> R p" and b: "npred s q + length (ae_in e) + 1 < 2 ^ 32"
  shows "\<exists>n s'. node_process_dep_out e (Some q) s = Some (of_nat n, \<lparr>ae_out = Some q, ae_in = []\<rparr>, s') \<and>
    n \<le> length (ae_in e) + 1 \<and>
    base_inv c U X F (\<lambda>p. R p - ent_refs e p + (if p = q then 1 else 0)) (E \<union> (ent_prec e \<inter> (U - F)) \<times> {q}) s' \<and>
    npred s' q = npred s q + n \<and> rest s' = rest s"
proof -
  have nq: "ae_out e \<noteq> Some q" "q \<notin> set (ae_in e)" using e
    by (auto simp: ent_refs_def count_list_0_iff split: if_splits)
  let ?E = "E \<union> (ent_prec e \<inter> (U - F)) \<times> {q}" and ?R = "\<lambda>p. R p - int (count_list (ae_in e) p)"
  have "\<exists>n s1. (if ae_in e \<noteq> [] then dep_out_readers (ae_in e) (Some q) s
      else kupl_gnode_precede (ae_out e) (Some q) s) = Some (of_nat n, s1) \<and> n \<le> length (ae_in e) + 1 \<and>
      base_inv c U X F ?R ?E s1 \<and> npred s1 q = npred s q + n \<and> rest s1 = rest s"
  proof (cases "ae_in e \<noteq> []")
    case True
    have "\<forall>p. own U p + int (count_list (ae_in e) p) \<le> R p"
      using R by (intro allI order.trans[OF add_left_mono[OF ent_refs_ge]]) blast
    moreover have "npred s q + length (ae_in e) < 2 ^ 32" using b by simp
    ultimately obtain n s1 where "dep_out_readers (ae_in e) (Some q) s = Some (of_nat n, s1)"
      "n \<le> length (ae_in e)" "base_inv c U X F ?R (E \<union> (set (ae_in e) \<inter> (U - F)) \<times> {q}) s1"
      "npred s1 q = npred s q + n" "rest s1 = rest s" using readers_processed[OF inv q nq(2)] by blast
    then show ?thesis using True by (intro exI[of _ n] exI[of _ s1]) (simp add: ent_prec_def)
  next
    case False
    show ?thesis
    proof (cases "ae_out e")
      case None
      then show ?thesis using inv False
        by (intro exI[of _ 0] exI[of _ s]) (simp add: kupl_gnode_precede_def ent_prec_def)
    next
      case (Some p)
      have pq: "0 < R p" "p \<noteq> q" using R[rule_format, of p] Some nq by (auto simp: ent_refs_def split: if_splits)
      have "npred s q + 1 < 2 ^ 32" using b by simp
      then obtain n s1 where "kupl_gnode_precede (Some p) (Some q) s = Some (of_nat n, s1)" "n \<le> 1"
        "base_inv c U X F R (E \<union> ({p} \<inter> (U - F)) \<times> {q}) s1" "npred s1 q = npred s q + n" "rest s1 = rest s"
        using base_precede[OF inv pq q] by blast
      then show ?thesis using Some False by (intro exI[of _ n] exI[of _ s1]) (simp add: ent_prec_def)
    qed
  qed
  then obtain n s1 where 1: "(if ae_in e \<noteq> [] then dep_out_readers (ae_in e) (Some q) s
      else kupl_gnode_precede (ae_out e) (Some q) s) = Some (of_nat n, s1)" "n \<le> length (ae_in e) + 1"
      "base_inv c U X F ?R ?E s1" "npred s1 q = npred s q + n" "rest s1 = rest s" by blast
  have "\<exists>s2. kupl_gnode_deref (ae_out e) s1 = Some s2 \<and> base_inv c U X F (\<lambda>p. R p - ent_refs e p) ?E s2 \<and>
      npred s2 q = npred s1 q \<and> rest s2 = rest s1"
  proof (cases "ae_out e")
    case None
    then show ?thesis using 1(3) by (simp add: kupl_gnode_deref_def kupl_task_deref_def ent_refs_def)
  next
    case (Some p)
    have r: "0 < ?R p" "p \<in> U \<longrightarrow> 1 < ?R p"
      using R[rule_format, of p] Some by (auto simp: ent_refs_def split: if_splits)
    have "?R(p := ?R p - 1) = (\<lambda>p. R p - ent_refs e p)" using Some by (auto simp: ent_refs_def)
    then show ?thesis using base_deref[OF 1(3) r] Some q(1) by metis
  qed
  then obtain s2 where 2: "kupl_gnode_deref (ae_out e) s1 = Some s2"
    "base_inv c U X F (\<lambda>p. R p - ent_refs e p) ?E s2" "npred s2 q = npred s1 q" "rest s2 = rest s1" by blast
  have "0 < R q - ent_refs e q" using R[rule_format, of q] q(1) e by (simp split: if_splits)
  from base_ref[OF 2(2) this] obtain s3 where 3: "kupl_gnode_ref (Some q) s2 = Some s3"
    "base_inv c U X F ((\<lambda>p. R p - ent_refs e p)(q := R q - ent_refs e q + 1)) ?E s3"
    "npred s3 = npred s2" "rest s3 = rest s2" by blast
  have "(\<lambda>p. R p - ent_refs e p)(q := R q - ent_refs e q + 1) = (\<lambda>p. R p - ent_refs e p + (if p = q then 1 else 0))"
    by auto
  then show ?thesis using 1 2 3
    by (intro exI[of _ n] exI[of _ s3]) (simp add: node_process_dep_out_def)
qed

lemma dep_in_processed:
  assumes inv: "base_inv c U X F R E s" and q: "q \<in> U" "q \<notin> X" and e: "ae_out e \<noteq> Some q"
    and R: "\<forall>p. own U p + ent_refs e p \<le> R p" and b: "npred s q + 1 < 2 ^ 32"
  shows "\<exists>n s'. node_process_dep_in e q s = Some (of_nat n, e\<lparr>ae_in := q # ae_in e\<rparr>, s') \<and> n \<le> 1 \<and>
    base_inv c U X F (\<lambda>p. R p + (if p = q then 1 else 0)) (E \<union> (set_option (ae_out e) \<inter> (U - F)) \<times> {q}) s' \<and>
    npred s' q = npred s q + n \<and> rest s' = rest s"
proof -
  have "1 + ent_refs e q \<le> R q" using R[rule_format, of q] q(1) by simp
  then have "0 < R q" using ent_refs_nonneg[of e q] by linarith
  from base_ref[OF inv this] obtain s1 where 1: "kupl_gnode_ref (Some q) s = Some s1"
    "base_inv c U X F (R(q := R q + 1)) E s1" "npred s1 = npred s" "rest s1 = rest s" by blast
  have eq: "R(q := R q + 1) = (\<lambda>p. R p + (if p = q then 1 else 0))" by auto
  have al: "next_alloc s1 = (True, s1)" using base_sets[OF 1(2)] by (simp add: next_alloc_True)
  have "\<exists>n s'. kupl_gnode_precede (ae_out e) (Some q) s1 = Some (of_nat n, s') \<and> n \<le> 1 \<and>
    base_inv c U X F (R(q := R q + 1)) (E \<union> (set_option (ae_out e) \<inter> (U - F)) \<times> {q}) s' \<and>
    npred s' q = npred s q + n \<and> rest s' = rest s"
  proof (cases "ae_out e")
    case None
    then show ?thesis using 1 by (intro exI[of _ 0] exI[of _ s1]) (simp add: kupl_gnode_precede_def)
  next
    case (Some p)
    have "0 < (R(q := R q + 1)) p" "p \<noteq> q"
      using R[rule_format, of p] Some e by (auto simp: ent_refs_def split: if_splits)
    from base_precede[OF 1(2) this q] b show ?thesis unfolding Some 1(3) 1(4) by fastforce
  qed
  then obtain n s' where 2: "kupl_gnode_precede (ae_out e) (Some q) s1 = Some (of_nat n, s')" "n \<le> 1"
    "base_inv c U X F (R(q := R q + 1)) (E \<union> (set_option (ae_out e) \<inter> (U - F)) \<times> {q}) s'"
    "npred s' q = npred s q + n" "rest s' = rest s" by blast
  then show ?thesis unfolding eq
    by (intro exI[of _ n] exI[of _ s']) (simp add: node_process_dep_in_def 1(1) al)
qed


section \<open>The table\<close>

text \<open>Which addresses a task writes and reads; a dependency on everything writes every address.\<close>

definition writes :: "kupl_task_dep list \<Rightarrow> u64 \<Rightarrow> bool" where
  "writes ds a \<longleftrightarrow> (\<exists>d\<in>set ds. dp_type d = KUPL_TASK_DEP_TYPE_ALL \<or>
     dp_base_addr d = a \<and> dp_type d \<in> {KUPL_TASK_DEP_TYPE_OUT, KUPL_TASK_DEP_TYPE_INOUT})"

definition reads :: "kupl_task_dep list \<Rightarrow> u64 \<Rightarrow> bool" where
  "reads ds a \<longleftrightarrow> (\<exists>d\<in>set ds. dp_base_addr d = a \<and> dp_type d = KUPL_TASK_DEP_TYPE_IN)"

text \<open>Two tasks conflict when both use an address and one of them writes it.\<close>

definition conflict :: "kupl_task_dep list \<Rightarrow> kupl_task_dep list \<Rightarrow> bool" where
  "conflict di dj \<longleftrightarrow> (\<exists>a. writes di a \<and> (writes dj a \<or> reads dj a) \<or> reads di a \<and> writes dj a)"

definition dep_wf :: "kupl_task_dep \<Rightarrow> bool" where
  "dep_wf d \<longleftrightarrow> dp_type d \<noteq> DEP_TYPE_OTHER \<and>
     (dp_type d = KUPL_TASK_DEP_TYPE_ALL \<longleftrightarrow> dp_base_addr d = KUPL_TASK_DEP_ALL_ADDR)"

lemma writes_append [simp]: "writes (ds @ es) a \<longleftrightarrow> writes ds a \<or> writes es a"
  by (auto simp: writes_def)

lemma reads_append [simp]: "reads (ds @ es) a \<longleftrightarrow> reads ds a \<or> reads es a"
  by (auto simp: reads_def)

lemma conflict_append: "conflict di (ds @ es) \<longleftrightarrow> conflict di ds \<or> conflict di es"
  by (auto simp: conflict_def)

definition covers :: "kupl_task_dep list \<Rightarrow> (ptr \<times> ptr) set \<Rightarrow> u64 \<Rightarrow> addr_entry \<Rightarrow> ptr \<Rightarrow> bool" where
  "covers di E a e i \<longleftrightarrow>
     (writes di a \<longrightarrow> (\<exists>r. ae_out e = Some r \<and> (i, r) \<in> E\<^sup>*)) \<and>
     (reads di a \<longrightarrow> i \<in> set (ae_in e) \<or> (\<exists>r. ae_out e = Some r \<and> (i, r) \<in> E\<^sup>*))"

text \<open>
  An entry names tasks that use its address; the readers come after the writer; and every unfinished
  task \<open>i\<close> that uses the address is in it, or must end before the writer.
\<close>

definition entry_ok :: "(ptr \<Rightarrow> kupl_task_dep list) \<Rightarrow> ptr set \<Rightarrow> (ptr \<times> ptr) set \<Rightarrow> u64 \<Rightarrow> addr_entry \<Rightarrow> bool" where
  "entry_ok D N E a e \<longleftrightarrow>
     (\<forall>r. ae_out e = Some r \<longrightarrow> writes (D r) a) \<and> (\<forall>x\<in>set (ae_in e). reads (D x) a) \<and>
     (\<forall>r x. ae_out e = Some r \<and> r \<in> N \<and> x \<in> set (ae_in e) \<longrightarrow> (r, x) \<in> E\<^sup>+) \<and>
     (\<forall>i\<in>N. covers (D i) E a e i)"

definition hash_ok :: "(ptr \<Rightarrow> kupl_task_dep list) \<Rightarrow> ptr set \<Rightarrow> (ptr \<times> ptr) set \<Rightarrow>
    (u64 \<times> addr_entry option) list \<Rightarrow> bool" where
  "hash_ok D N E h \<longleftrightarrow> distinct (map fst h) \<and>
     (\<forall>a f. (a, f) \<in> set h \<longrightarrow> (\<exists>e. f = Some e \<and> entry_ok D N E a e)) \<and>
     (\<forall>i\<in>N. \<forall>d\<in>set (D i). dp_base_addr d \<in> fst ` set h)"

definition hash_refs :: "(u64 \<times> addr_entry option) list \<Rightarrow> ptr \<Rightarrow> int" where
  "hash_refs h p = (\<Sum>(a, f)\<leftarrow>h. case f of None \<Rightarrow> 0 | Some e \<Rightarrow> ent_refs e p)"

definition link_total :: "(u64 \<times> addr_entry option) list \<Rightarrow> nat" where
  "link_total h = (\<Sum>(a, f)\<leftarrow>h. case f of None \<Rightarrow> 1 | Some e \<Rightarrow> length (ae_in e) + 1)"

lemma hash_refs_simps [simp]:
  "hash_refs [] p = 0" "hash_refs ((a, Some e) # h) p = ent_refs e p + hash_refs h p"
  by (simp_all add: hash_refs_def)

lemma link_total_simps [simp]:
  "link_total [] = 0" "link_total ((a, Some e) # h) = length (ae_in e) + 1 + link_total h"
  by (simp_all add: link_total_def)

abbreviation hash_upd :: "u64 \<Rightarrow> addr_entry \<Rightarrow> (u64 \<times> addr_entry option) list \<Rightarrow> (u64 \<times> addr_entry option) list" where
  "hash_upd a e h \<equiv> map (\<lambda>(b, f). (b, if b = a then Some e else f)) h"

lemma hash_upd_other: "a \<notin> fst ` set h \<Longrightarrow> hash_upd a e h = h"
  by (induction h) auto

lemma hash_upd_sums:
  "distinct (map fst h) \<Longrightarrow> map_of h a = Some (Some e) \<Longrightarrow>
   hash_refs (hash_upd a e' h) p = hash_refs h p - ent_refs e p + ent_refs e' p \<and>
   link_total (hash_upd a e' h) + length (ae_in e) = link_total h + length (ae_in e')"
proof (induction h)
  case (Cons x h)
  obtain b f where x: "x = (b, f)" by force
  show ?case
  proof (cases "b = a")
    case True
    then have "a \<notin> fst ` set h" "f = Some e" using Cons.prems x by auto
    then show ?thesis using True hash_upd_other[of a h e'] by (simp add: x)
  next
    case False
    then show ?thesis using Cons x by (simp add: hash_refs_def link_total_def)
  qed
qed simp

lemma hash_refs_ge:
  assumes "map_of h a = Some (Some e)"
  shows "ent_refs e p \<le> hash_refs h p"
  using assms
proof (induction h)
  case (Cons x h)
  have nn: "0 \<le> hash_refs h p" unfolding hash_refs_def by (rule sum_list_nonneg) (auto split: option.split)
  obtain b f where x: "x = (b, f)" by force
  show ?case using Cons nn x by (cases f; cases "b = a") (auto simp: hash_refs_def intro: add_increasing)
qed simp

lemma link_total_ge: "map_of h a = Some (Some e) \<Longrightarrow> length (ae_in e) + 1 \<le> link_total h"
  by (induction h) (auto simp: link_total_def split: if_splits option.splits)

lemma rtrancl_mono_subset: "(x, y) \<in> E\<^sup>* \<Longrightarrow> E \<subseteq> E' \<Longrightarrow> (x, y) \<in> E'\<^sup>*"
  using rtrancl_mono by blast

lemma trancl_mono_subset: "(x, y) \<in> E\<^sup>+ \<Longrightarrow> E \<subseteq> E' \<Longrightarrow> (x, y) \<in> E'\<^sup>+"
  by (rule trancl_mono)

lemma covers_mono: "covers di E a e i \<Longrightarrow> E \<subseteq> E' \<Longrightarrow> covers di E' a e i"
  unfolding covers_def by (meson rtrancl_mono_subset)

text \<open>An entry that is not touched stays right when edges and a dependency on another address come.\<close>

lemma entry_ok_other:
  assumes "entry_ok D N E b e" and "E \<subseteq> E'" and "dp_base_addr d \<noteq> b" and "dp_type d \<noteq> KUPL_TASK_DEP_TYPE_ALL"
  shows "entry_ok (D(q := D q @ [d])) N E' b e"
proof -
  have w: "writes ((D(q := D q @ [d])) x) b = writes (D x) b" "reads ((D(q := D q @ [d])) x) b = reads (D x) b" for x
    using assms(3,4) by (auto simp: writes_def reads_def)
  then have "covers ((D(q := D q @ [d])) x) E' b e x = covers (D x) E' b e x" for x
    by (simp only: covers_def)
  then show ?thesis
    using assms(1) covers_mono[OF _ assms(2)] trancl_mono_subset[OF _ assms(2)]
    unfolding entry_ok_def w by blast
qed

section \<open>The invariant\<close>

definition dag_inv :: "ptr \<Rightarrow> (ptr \<Rightarrow> nat) \<Rightarrow> (ptr \<Rightarrow> kupl_task_dep list) \<Rightarrow> ptr set \<Rightarrow> ptr set \<Rightarrow> ptr set \<Rightarrow>
    (ptr \<times> ptr) set \<Rightarrow> graph_state \<Rightarrow> bool" where
  "dag_inv c rank D U X F E s \<longleftrightarrow>
     base_inv c U X F (\<lambda>p. own U p + hash_refs (gr_hash s) p) E s \<and>
     hash_ok D (U - F) E (gr_hash s) \<and>
     (\<forall>i\<in>U - F. \<forall>j\<in>U. rank i < rank j \<and> conflict (D i) (D j) \<longrightarrow> (i, j) \<in> E\<^sup>+) \<and>
     (\<forall>(i, j)\<in>E. rank i < rank j) \<and> (\<forall>p. \<forall>d\<in>set (D p). dep_wf d)"

lemma edge_target_N:
  assumes "base_inv c U X F R E s" and "(i, j) \<in> E\<^sup>+"
  shows "j \<in> U - F"
proof -
  obtain k where "(k, j) \<in> E" using assms(2) by (metis tranclE)
  then show ?thesis using base_X_no_edge[OF assms(1)] base_sets[OF assms(1)] by auto
qed

lemma star_target_N:
  "base_inv c U X F R E s \<Longrightarrow> (i, j) \<in> E\<^sup>* \<Longrightarrow> i \<in> U - F \<Longrightarrow> j \<in> U - F"
  using edge_target_N by (metis rtranclD)


lemma base_inv_hash [simp]: "base_inv c U X F R E (s\<lparr>gr_hash := h\<rparr>) = base_inv c U X F R E s"
  by (simp add: base_inv_def npred_def[abs_def] succs_def[abs_def])

lemma npred_hash [simp]: "npred (s\<lparr>gr_hash := h\<rparr>) = npred s"
  by (simp add: npred_def fun_eq_iff)

definition same_sched :: "graph_state \<Rightarrow> graph_state \<Rightarrow> bool" where
  "same_sched s s' \<longleftrightarrow> gr_pool s' = gr_pool s \<and> gr_counts s' = gr_counts s \<and> gr_current s' = gr_current s"

text \<open>One more dependency \<open>d\<close> of the task \<open>q\<close> that is being submitted, and the edges \<open>L \<times> {q}\<close> for it.\<close>

lemma dag_inv_extend:
  assumes inv: "dag_inv c rank D U X F E s" and max: "\<forall>i\<in>U. i \<noteq> q \<longrightarrow> rank i < rank q" and q: "q \<in> U"
    and L: "L \<subseteq> U - F" "q \<notin> L" and E': "E' = E \<union> L \<times> {q}" and d: "dep_wf d"
    and base: "base_inv c U X F (\<lambda>p. own U p + hash_refs (gr_hash s') p) E' s'"
    and hash: "hash_ok (D(q := D q @ [d])) (U - F) E' (gr_hash s')"
    and conf: "\<And>i. i \<in> U - F \<Longrightarrow> i \<noteq> q \<Longrightarrow> conflict (D i) [d] \<Longrightarrow> (i, q) \<in> E'\<^sup>+"
  shows "dag_inv c rank (D(q := D q @ [d])) U X F E' s'"
proof -
  let ?D = "D(q := D q @ [d])"
  have old: "\<And>i j. i \<in> U - F \<Longrightarrow> j \<in> U \<Longrightarrow> rank i < rank j \<Longrightarrow> conflict (D i) (D j) \<Longrightarrow> (i, j) \<in> E'\<^sup>+"
    using inv E' unfolding dag_inv_def by (blast intro: trancl_mono_subset)
  have "(i, j) \<in> E'\<^sup>+" if "i \<in> U - F" "j \<in> U" "rank i < rank j" "conflict (?D i) (?D j)" for i j
  proof -
    have i: "i \<noteq> q" using max that(2,3) by (metis less_asym less_irrefl)
    show ?thesis
    proof (cases "j = q")
      case True
      then have "conflict (D i) (D q) \<or> conflict (D i) [d]" using that(4) i by (simp add: conflict_append)
      then show ?thesis using old[OF that(1-3)] conf[OF that(1) i] True by auto
    next
      case False
      then show ?thesis using old[OF that(1-3)] that(4) i by simp
    qed
  qed
  moreover have "\<forall>(i, j)\<in>E'. rank i < rank j"
    using inv max L by (auto simp: dag_inv_def E')
  moreover have "\<forall>p. \<forall>x\<in>set (?D p). dep_wf x" using inv d by (auto simp: dag_inv_def)
  ultimately show ?thesis using base hash unfolding dag_inv_def by blast
qed

text \<open>The entries of other addresses, and the keys, after the entry of the dependency was replaced.\<close>

lemma hash_ok_extend:
  assumes h: "hash_ok D (U - F) E h" and e: "map_of h (dp_base_addr d) = Some (Some e)" and "E \<subseteq> E'"
    and "dp_type d \<noteq> KUPL_TASK_DEP_TYPE_ALL"
    and e': "entry_ok (D(q := D q @ [d])) (U - F) E' (dp_base_addr d) e'"
  shows "hash_ok (D(q := D q @ [d])) (U - F) E' (hash_upd (dp_base_addr d) e' h)"
proof -
  let ?h = "hash_upd (dp_base_addr d) e' h"
  have keys: "fst ` set ?h = fst ` set h" "map fst ?h = map fst h" by (force, simp add: o_def split_beta)
  have "\<exists>g. f = Some g \<and> entry_ok (D(q := D q @ [d])) (U - F) E' b g" if "(b, f) \<in> set ?h" for b f
  proof (cases "b = dp_base_addr d")
    case True
    then show ?thesis using that e' by auto
  next
    case False
    then have "(b, f) \<in> set h" using that by auto
    then obtain g where "f = Some g" "entry_ok D (U - F) E b g" using h by (auto simp: hash_ok_def)
    then show ?thesis using entry_ok_other[OF _ assms(3), of D "U - F" b g d q] False assms(4) by auto
  qed
  moreover have "dp_base_addr d \<in> fst ` set h" using e by (metis map_of_eq_None_iff option.distinct(1))
  ultimately show ?thesis using h unfolding hash_ok_def keys by (auto split: if_splits)
qed

lemma hash_entry:
  assumes "hash_ok D N E h" and "map_of h a = Some f"
  obtains e where "f = Some e" "entry_ok D N E a e"
  using assms map_of_SomeD by (fastforce simp: hash_ok_def)

text \<open>A task that has not declared the address yet is not in its entry.\<close>

lemma not_in_entry:
  assumes "entry_ok D N E a e" and "\<not> writes (D q) a" "\<not> reads (D q) a"
  shows "ent_refs e q = 0" "ae_out e \<noteq> Some q" "q \<notin> set (ae_in e)"
  using assms by (auto simp: entry_ok_def ent_refs_def count_list_0_iff)

lemma covers_precedes:
  assumes base: "base_inv c U X F R E s" and ok: "entry_ok D (U - F) E a e" and i: "i \<in> U - F"
    and use: "writes (D i) a \<or> reads (D i) a" and E': "E' = E \<union> (ent_prec e \<inter> (U - F)) \<times> {q}"
  shows "(i, q) \<in> E'\<^sup>+"
proof -
  have sub: "E \<subseteq> E'" by (simp add: E')
  have "covers (D i) E a e i" using ok i by (simp add: entry_ok_def)
  then consider "i \<in> set (ae_in e)" | r where "ae_out e = Some r" "(i, r) \<in> E\<^sup>*"
    using use by (auto simp: covers_def)
  then show ?thesis
  proof cases
    case 1
    then have "(i, q) \<in> E'" using i by (auto simp: E' ent_prec_def)
    then show ?thesis by simp
  next
    case 2
    have r: "r \<in> U - F" using star_target_N[OF base 2(2) i] .
    have ir: "(i, r) \<in> E'\<^sup>*" using rtrancl_mono_subset[OF 2(2) sub] .
    show ?thesis
    proof (cases "ae_in e")
      case Nil
      then have "(r, q) \<in> E'" using 2(1) r by (simp add: E' ent_prec_def)
      then show ?thesis using ir by simp
    next
      case (Cons x xs)
      then have rx: "(r, x) \<in> E\<^sup>+" using ok 2(1) r by (auto simp: entry_ok_def)
      then have "(x, q) \<in> E'" using edge_target_N[OF base rx] Cons by (auto simp: E' ent_prec_def)
      then show ?thesis using ir trancl_mono_subset[OF rx sub]
        by (metis rtrancl_into_trancl1 rtrancl_trancl_trancl trancl_into_rtrancl)
    qed
  qed
qed


section \<open>Processing a dependency\<close>

text \<open>What is known when the dependency \<open>d\<close> of the task \<open>q\<close> is processed.\<close>

definition submitting :: "(ptr \<Rightarrow> nat) \<Rightarrow> ptr set \<Rightarrow> ptr set \<Rightarrow> ptr \<Rightarrow> bool" where
  "submitting rank U X q \<longleftrightarrow> q \<in> U \<and> q \<notin> X \<and> (\<forall>i\<in>U. i \<noteq> q \<longrightarrow> rank i < rank q)"

definition fresh_dep :: "kupl_task_dep list \<Rightarrow> kupl_task_dep \<Rightarrow> bool" where
  "fresh_dep ds d \<longleftrightarrow> dep_wf d \<and> dp_type d \<noteq> KUPL_TASK_DEP_TYPE_ALL \<and>
     (\<forall>x\<in>set ds. dp_type x \<noteq> KUPL_TASK_DEP_TYPE_ALL \<and> dp_base_addr x \<noteq> dp_base_addr d)"

lemma fresh_dep_unused: "fresh_dep ds d \<Longrightarrow> \<not> writes ds (dp_base_addr d) \<and> \<not> reads ds (dp_base_addr d)"
  by (auto simp: fresh_dep_def writes_def reads_def)

lemma hash_upd_map_of: "map_of h a = Some f \<Longrightarrow> map_of (hash_upd a e h) a = Some (Some e)"
  by (induction h) auto

lemma fst_hash_upd [simp]: "fst ` set (hash_upd a e h) = fst ` set h"
  by force

text \<open>The result of a step: how the count of predecessors of \<open>q\<close> grows, within the links there are.\<close>

definition dep_done :: "ptr \<Rightarrow> (ptr \<Rightarrow> nat) \<Rightarrow> (ptr \<Rightarrow> kupl_task_dep list) \<Rightarrow> ptr set \<Rightarrow> ptr set \<Rightarrow> ptr set \<Rightarrow>
    ptr \<Rightarrow> nat \<Rightarrow> nat \<Rightarrow> graph_state \<Rightarrow> graph_state \<Rightarrow> bool" where
  "dep_done c rank D U X F q k n s s' \<longleftrightarrow> (\<exists>E. dag_inv c rank D U X F E s') \<and> same_sched s s' \<and>
     npred s' q = npred s q + n \<and>
     npred s' q + link_total (gr_hash s') \<le> npred s q + link_total (gr_hash s) + k"

lemma process_out:
  assumes inv: "dag_inv c rank D U X F E s" and q: "submitting rank U X q"
    and e: "map_of (gr_hash s) (dp_base_addr d) = Some (Some e)"
    and d: "fresh_dep (D q) d" "dp_type d \<in> {KUPL_TASK_DEP_TYPE_OUT, KUPL_TASK_DEP_TYPE_INOUT}"
    and b: "npred s q + link_total (gr_hash s) < 2 ^ 32"
  shows "\<exists>n e' s'. node_process_dep_out e (Some q) s = Some (of_nat n, e', s') \<and>
    dep_done c rank (D(q := D q @ [d])) U X F q 1 n s (hash_set (dp_base_addr d) (Some e') s')"
proof -
  let ?a = "dp_base_addr d" and ?h = "gr_hash s" and ?e = "\<lparr>ae_out = Some q, ae_in = []\<rparr>"
  let ?E = "E \<union> (ent_prec e \<inter> (U - F)) \<times> {q}"
  have base: "base_inv c U X F (\<lambda>p. own U p + hash_refs ?h p) E s" and hash: "hash_ok D (U - F) E ?h"
    using inv by (simp_all add: dag_inv_def)
  have qU: "q \<in> U" "q \<notin> X" using q by (simp_all add: submitting_def)
  have qN: "q \<in> U - F" using qU base_sets[OF base] by auto
  have eok: "entry_ok D (U - F) E ?a e" using hash_entry[OF hash e] by auto
  note ne = not_in_entry[OF eok, of q] fresh_dep_unused[OF d(1)]
  have prec: "q \<notin> ent_prec e" using ne by (auto simp: ent_prec_def)
  have "\<forall>p. own U p + ent_refs e p \<le> own U p + hash_refs ?h p" using hash_refs_ge[OF e] by simp
  moreover have "npred s q + length (ae_in e) + 1 < 2 ^ 32" using b link_total_ge[OF e] by simp
  ultimately obtain n s' where call: "node_process_dep_out e (Some q) s = Some (of_nat n, ?e, s')"
    "n \<le> length (ae_in e) + 1"
    "base_inv c U X F (\<lambda>p. own U p + hash_refs ?h p - ent_refs e p + (if p = q then 1 else 0)) ?E s'"
    "npred s' q = npred s q + n" "rest s' = rest s"
    using dep_out_processed[OF base qU] ne by blast
  have h': "gr_hash (hash_set ?a (Some ?e) s') = hash_upd ?a ?e ?h" using call(5) by (simp add: hash_set_def rest_def)
  note sums = hash_upd_sums[OF _ e, of ?e] hash[unfolded hash_ok_def]
  have "(\<lambda>p. own U p + hash_refs ?h p - ent_refs e p + (if p = q then 1 else 0)) =
      (\<lambda>p. own U p + hash_refs (hash_upd ?a ?e ?h) p)"
    using sums by (auto simp: fun_eq_iff ent_refs_def[of ?e])
  with call(3) have base': "base_inv c U X F (\<lambda>p. own U p + hash_refs (gr_hash (hash_set ?a (Some ?e) s')) p) ?E
      (hash_set ?a (Some ?e) s')" unfolding h' by (simp add: hash_set_def)
  have prec_all: "\<And>i. i \<in> U - F \<Longrightarrow> writes (D i) ?a \<or> reads (D i) ?a \<Longrightarrow> (i, q) \<in> ?E\<^sup>+"
    using covers_precedes[OF base eok _ _ refl] by blast
  have "entry_ok (D(q := D q @ [d])) (U - F) ?E ?a ?e"
    using d(2) prec_all by (auto simp: entry_ok_def covers_def writes_def intro: trancl_into_rtrancl)
  then have hash': "hash_ok (D(q := D q @ [d])) (U - F) ?E (gr_hash (hash_set ?a (Some ?e) s'))"
    unfolding h' using hash_ok_extend[OF hash e _ _ , of ?E q ?e] d(1) by (simp add: fresh_dep_def)
  have "dag_inv c rank (D(q := D q @ [d])) U X F ?E (hash_set ?a (Some ?e) s')"
  proof (rule dag_inv_extend[OF inv _ qU(1) _ _ refl _ base' hash'])
    fix i assume "i \<in> U - F" "i \<noteq> q" "conflict (D i) [d]"
    then show "(i, q) \<in> ?E\<^sup>+" using d by (intro prec_all) (auto simp: conflict_def writes_def reads_def fresh_dep_def)
  qed (use q prec d(1) in \<open>auto simp: submitting_def fresh_dep_def\<close>)
  moreover have "npred s' q + link_total (hash_upd ?a ?e ?h) \<le> npred s q + link_total ?h + 1"
    using sums(1)[of q] sums(2) call(2,4) by simp
  ultimately show ?thesis using call(1,4,5)
    by (intro exI[of _ n] exI[of _ ?e] exI[of _ s'])
      (auto simp: dep_done_def hash_set_def same_sched_def rest_def)
qed

lemma process_in:
  assumes inv: "dag_inv c rank D U X F E s" and q: "submitting rank U X q"
    and e: "map_of (gr_hash s) (dp_base_addr d) = Some (Some e)"
    and d: "fresh_dep (D q) d" "dp_type d = KUPL_TASK_DEP_TYPE_IN"
    and b: "npred s q + link_total (gr_hash s) < 2 ^ 32"
  shows "\<exists>n e' s'. node_process_dep_in e q s = Some (of_nat n, e', s') \<and>
    dep_done c rank (D(q := D q @ [d])) U X F q 2 n s (hash_set (dp_base_addr d) (Some e') s')"
proof -
  let ?a = "dp_base_addr d" and ?h = "gr_hash s" and ?e = "e\<lparr>ae_in := q # ae_in e\<rparr>"
  let ?E = "E \<union> (set_option (ae_out e) \<inter> (U - F)) \<times> {q}"
  have base: "base_inv c U X F (\<lambda>p. own U p + hash_refs ?h p) E s" and hash: "hash_ok D (U - F) E ?h"
    using inv by (simp_all add: dag_inv_def)
  have qU: "q \<in> U" "q \<notin> X" using q by (simp_all add: submitting_def)
  have eok: "entry_ok D (U - F) E ?a e" using hash_entry[OF hash e] by auto
  note ne = not_in_entry[OF eok, of q] fresh_dep_unused[OF d(1)]
  have "\<forall>p. own U p + ent_refs e p \<le> own U p + hash_refs ?h p" using hash_refs_ge[OF e] by simp
  moreover have "npred s q + 1 < 2 ^ 32" using b link_total_ge[OF e] by simp
  ultimately obtain n s' where call: "node_process_dep_in e q s = Some (of_nat n, ?e, s')" "n \<le> 1"
    "base_inv c U X F (\<lambda>p. own U p + hash_refs ?h p + (if p = q then 1 else 0)) ?E s'"
    "npred s' q = npred s q + n" "rest s' = rest s"
    using dep_in_processed[OF base qU] ne by blast
  have h': "gr_hash (hash_set ?a (Some ?e) s') = hash_upd ?a ?e ?h" using call(5) by (simp add: hash_set_def rest_def)
  note sums = hash_upd_sums[OF _ e, of ?e] hash[unfolded hash_ok_def]
  have "(\<lambda>p. own U p + hash_refs ?h p + (if p = q then 1 else 0)) =
      (\<lambda>p. own U p + hash_refs (hash_upd ?a ?e ?h) p)"
    using sums by (auto simp: fun_eq_iff ent_refs_def)
  with call(3) have base': "base_inv c U X F (\<lambda>p. own U p + hash_refs (gr_hash (hash_set ?a (Some ?e) s')) p) ?E
      (hash_set ?a (Some ?e) s')" unfolding h' by (simp add: hash_set_def)
  have after: "(i, q) \<in> ?E\<^sup>+" if "i \<in> U - F" "writes (D i) ?a" for i
  proof -
    have "covers (D i) E ?a e i" using eok that(1) by (simp add: entry_ok_def)
    then obtain r where r: "ae_out e = Some r" "(i, r) \<in> E\<^sup>*"
      using \<open>writes (D i) ?a\<close> by (auto simp: covers_def)
    then have "(r, q) \<in> ?E" using star_target_N[OF base r(2) that(1)] by simp
    then show ?thesis using rtrancl_mono_subset[OF r(2), of ?E] by (simp add: rtrancl_into_trancl1)
  qed
  have w: "writes ((D(q := D q @ [d])) i) ?a = writes (D i) ?a" "reads (D i) ?a \<Longrightarrow> reads ((D(q := D q @ [d])) i) ?a"
    "reads ((D(q := D q @ [d])) q) ?a" "reads ((D(q := D q @ [d])) i) ?a \<Longrightarrow> i = q \<or> reads (D i) ?a" for i
    using d(2) by (auto simp: writes_def reads_def)
  have "entry_ok (D(q := D q @ [d])) (U - F) ?E ?a ?e"
    unfolding entry_ok_def
  proof (intro conjI allI impI ballI)
    fix r x assume "ae_out ?e = Some r \<and> r \<in> U - F \<and> x \<in> set (ae_in ?e)"
    then show "(r, x) \<in> ?E\<^sup>+" using eok trancl_mono_subset[of r x E ?E] by (auto simp: entry_ok_def)
  next
    fix i assume "i \<in> U - F"
    then have "covers (D i) ?E ?a e i" using eok covers_mono[of "D i" E ?a e i ?E] by (simp add: entry_ok_def)
    then show "covers ((D(q := D q @ [d])) i) ?E ?a ?e i" using w(4)[of i] unfolding covers_def w(1) by auto
  qed (use eok w in \<open>auto simp: entry_ok_def\<close>)
  then have hash': "hash_ok (D(q := D q @ [d])) (U - F) ?E (gr_hash (hash_set ?a (Some ?e) s'))"
    unfolding h' using hash_ok_extend[OF hash e _ _ , of ?E q ?e] d(1) by (simp add: fresh_dep_def)
  have "dag_inv c rank (D(q := D q @ [d])) U X F ?E (hash_set ?a (Some ?e) s')"
  proof (rule dag_inv_extend[OF inv _ qU(1) _ _ refl _ base' hash'])
    fix i assume "i \<in> U - F" "i \<noteq> q" "conflict (D i) [d]"
    then show "(i, q) \<in> ?E\<^sup>+" using d by (intro after) (auto simp: conflict_def writes_def reads_def fresh_dep_def)
  qed (use q ne d(1) in \<open>auto simp: submitting_def fresh_dep_def\<close>)
  moreover have "npred s' q + link_total (hash_upd ?a ?e ?h) \<le> npred s q + link_total ?h + 2"
    using sums(1)[of q] sums(2) call(2,4) by simp
  ultimately show ?thesis using call(1,4,5)
    by (intro exI[of _ n] exI[of _ ?e] exI[of _ s'])
      (auto simp: dep_done_def hash_set_def same_sched_def rest_def)
qed


lemma hash_ok_replace:
  assumes "hash_ok D N E h" and "entry_ok D N E b e'"
  shows "hash_ok D N E (hash_upd b e' h)"
proof -
  have k: "map fst (hash_upd b e' h) = map fst h" by (simp add: o_def split_beta)
  show ?thesis using assms unfolding hash_ok_def fst_hash_upd k by (auto split: if_splits)
qed

lemma hash_ok_insert:
  "hash_ok D N E h \<Longrightarrow> a \<notin> fst ` set h \<Longrightarrow> entry_ok D N E a e \<Longrightarrow> hash_ok D N E ((a, Some e) # h)"
  by (auto simp: hash_ok_def)

text \<open>An unfinished task that uses an address without an entry depends on everything.\<close>

lemma used_without_entry:
  assumes "hash_ok D N E h" and "i \<in> N" and "a \<notin> fst ` set h" and "\<forall>d\<in>set (D i). dep_wf d"
  shows "\<not> reads (D i) a" "writes (D i) a \<Longrightarrow> writes (D i) KUPL_TASK_DEP_ALL_ADDR \<and> KUPL_TASK_DEP_ALL_ADDR \<in> fst ` set h"
proof -
  have k: "d \<in> set (D i) \<Longrightarrow> dp_base_addr d \<in> fst ` set h" for d using assms(1,2) by (auto simp: hash_ok_def)
  then show "\<not> reads (D i) a" using assms(3) by (auto simp: reads_def)
  assume "writes (D i) a"
  then obtain d where d: "d \<in> set (D i)" "dp_type d = KUPL_TASK_DEP_TYPE_ALL"
    using k assms(3) by (auto simp: writes_def)
  then have "dp_base_addr d = KUPL_TASK_DEP_ALL_ADDR" using assms(4) by (auto simp: dep_wf_def)
  then show "writes (D i) KUPL_TASK_DEP_ALL_ADDR \<and> KUPL_TASK_DEP_ALL_ADDR \<in> fst ` set h"
    using d k[OF d(1)] by (auto simp: writes_def)
qed

lemma entry_created:
  assumes inv: "dag_inv c rank D U X F E s" and a: "map_of (gr_hash s) a = None"
  shows "\<exists>s' e. dep_entry_new a s = Some s' \<and> dag_inv c rank D U X F E s' \<and> map_of (gr_hash s') a = Some (Some e) \<and>
    same_sched s s' \<and> (\<forall>x\<in>U. npred s' x = npred s x) \<and> link_total (gr_hash s') = link_total (gr_hash s) + 1"
proof -
  let ?h = "gr_hash s" and ?nil = "\<lparr>ae_out = None, ae_in = []\<rparr>" and ?A = KUPL_TASK_DEP_ALL_ADDR
  let ?s1 = "hash_insert a (Some ?nil) s"
  have base: "base_inv c U X F (\<lambda>p. own U p + hash_refs ?h p) E s" and hash: "hash_ok D (U - F) E ?h"
    and wf: "\<And>i. \<forall>d\<in>set (D i). dep_wf d" using inv by (simp_all add: dag_inv_def)
  have anew: "a \<notin> fst ` set ?h" using a by (simp add: map_of_eq_None_iff)
  note use = used_without_entry[OF hash _ anew wf]
  have "kupl_addr_entry_create s = (Some ?nil, s)"
    using base_sets[OF base] by (simp add: kupl_addr_entry_create_def next_alloc_True)
  note new = dep_entry_new_def[of a s, unfolded this Let_def case_prod_conv]
  have refs1: "hash_refs (gr_hash ?s1) = hash_refs ?h" by (auto simp: hash_insert_def ent_refs_def)
  have base1: "base_inv c U X F (\<lambda>p. own U p + hash_refs ?h p) E ?s1" using base by (simp add: hash_insert_def)
  have plain: ?thesis if "dep_entry_new a s = Some ?s1" and "\<And>i. i \<in> U - F \<Longrightarrow> \<not> writes (D i) a"
  proof -
    have "entry_ok D (U - F) E a ?nil" using use(1) that(2) by (auto simp: entry_ok_def covers_def)
    then have "hash_ok D (U - F) E (gr_hash ?s1)" using hash_ok_insert[OF hash anew] by (simp add: hash_insert_def)
    then have "dag_inv c rank D U X F E ?s1" using inv base1 unfolding dag_inv_def refs1 by blast
    then show ?thesis using that(1) by (auto simp: hash_insert_def same_sched_def)
  qed
  show ?thesis
  proof (cases "a = ?A \<or> map_of ?h ?A = None")
    case True
    have "\<not> writes (D i) a" if "i \<in> U - F" for i
      using use(2)[OF that] True anew by (auto simp: map_of_eq_None_iff)
    moreover have "dep_entry_new a s = Some ?s1"
      using True unfolding new by (auto simp: hash_find_def hash_insert_def)
    ultimately show ?thesis by (intro plain)
  next
    case False
    then obtain e where e: "map_of ?h ?A = Some (Some e)" "entry_ok D (U - F) E ?A e"
      using hash_entry[OF hash] by blast
    have f: "hash_find ?A ?s1 = Some (Some e)" using e False by (simp add: hash_find_def hash_insert_def)
    have via: "\<exists>r. ae_out e = Some r \<and> (i, r) \<in> E\<^sup>*" if "i \<in> U - F" "writes (D i) a" for i
      using use(2)[OF that] e(2) that(1) by (auto simp: entry_ok_def covers_def)
    show ?thesis
    proof (cases "ae_out e")
      case None
      then show ?thesis using f False via by (intro plain) (auto simp: new)
    next
      case (Some p)
      have r: "0 < own U p + hash_refs ?h p" "p \<in> U \<longrightarrow> 1 < own U p + hash_refs ?h p"
        using hash_refs_ge[OF e(1), of p] Some by (auto simp: ent_refs_def)
      obtain t where t: "gr_heap ?s1 p = Some t" using base_refs[OF base1 r(1)] by blast
      show ?thesis
      proof (cases "kupl_tb_is_finished (tk_tb t)")
        case True
        let ?e = "e\<lparr>ae_out := None\<rparr>"
        have pN: "p \<notin> U - F" using base_heap[OF base1 t] True by auto
        have none: "\<not> writes (D i) a \<and> (i, p) \<notin> E\<^sup>*" if "i \<in> U - F" for i
          using via[OF that] star_target_N[OF base _ that] pN Some by auto
        obtain s2 where s2: "kupl_gnode_deref (Some p) ?s1 = Some s2"
          "base_inv c U X F ((\<lambda>x. own U x + hash_refs ?h x)(p := own U p + hash_refs ?h p - 1)) E s2"
          "\<forall>x\<in>U. npred s2 x = npred ?s1 x" "rest s2 = rest ?s1" using base_deref[OF base1 r] by blast
        let ?s' = "hash_set ?A (Some ?e) s2"
        have h': "gr_hash ?s' = (a, Some ?nil) # hash_upd ?A ?e ?h"
        proof -
          have "a \<noteq> ?A" using False by simp
          then show ?thesis using s2(4) by (auto simp: hash_set_def hash_insert_def rest_def)
        qed
        have sums: "hash_refs (hash_upd ?A ?e ?h) x = hash_refs ?h x - ent_refs e x + ent_refs ?e x \<and>
            link_total (hash_upd ?A ?e ?h) + length (ae_in e) = link_total ?h + length (ae_in ?e)" for x
          using hash hash_upd_sums[OF _ e(1)] by (simp only: hash_ok_def)
        have "(\<lambda>x. own U x + hash_refs ?h x)(p := own U p + hash_refs ?h p - 1) =
            (\<lambda>x. own U x + hash_refs (gr_hash ?s') x)"
          using sums Some unfolding h' by (auto simp: ent_refs_def)
        with s2(2) have b': "base_inv c U X F (\<lambda>x. own U x + hash_refs (gr_hash ?s') x) E ?s'"
          by (simp add: hash_set_def)
        have "entry_ok D (U - F) E ?A ?e" using e(2) none Some by (auto simp: entry_ok_def covers_def)
        then have "hash_ok D (U - F) E (hash_upd ?A ?e ?h)" using hash_ok_replace[OF hash] by blast
        moreover have "entry_ok D (U - F) E a ?nil" using use(1) none by (auto simp: entry_ok_def covers_def)
        ultimately have "hash_ok D (U - F) E (gr_hash ?s')"
          unfolding h' using anew by (intro hash_ok_insert) (simp_all only: fst_hash_upd, simp_all)
        then have "dag_inv c rank D U X F E ?s'" using inv b' unfolding dag_inv_def by blast
        moreover have "dep_entry_new a s = Some ?s'"
          using True f False Some s2(1) t unfolding new by (simp add: load_task_def)
        moreover have "map_of (gr_hash ?s') a = Some (Some ?nil)" by (simp add: h')
        moreover have "link_total (gr_hash ?s') = link_total ?h + 1" using sums[of p] by (simp add: h')
        moreover have "same_sched s ?s'" using s2(4) by (simp add: same_sched_def rest_def hash_set_def hash_insert_def)
        moreover have "\<forall>x\<in>U. npred ?s' x = npred s x" using s2(3) by (simp add: hash_set_def hash_insert_def)
        ultimately show ?thesis by blast
      next
        case nfin: False
        let ?e = "\<lparr>ae_out = Some p, ae_in = []\<rparr>"
        have pN: "p \<in> U - F" using base_heap[OF base1 t] nfin by auto
        obtain s2 where s2: "kupl_gnode_ref (Some p) ?s1 = Some s2"
          "base_inv c U X F ((\<lambda>x. own U x + hash_refs ?h x)(p := own U p + hash_refs ?h p + 1)) E s2"
          "npred s2 = npred ?s1" "rest s2 = rest ?s1" using base_ref[OF base1 r(1)] by blast
        let ?s' = "hash_set a (Some ?e) s2"
        have h': "gr_hash ?s' = (a, Some ?e) # ?h"
          using s2(4) hash_upd_other[OF anew] by (simp add: hash_set_def hash_insert_def rest_def)
        have "(\<lambda>x. own U x + hash_refs ?h x)(p := own U p + hash_refs ?h p + 1) =
            (\<lambda>x. own U x + hash_refs (gr_hash ?s') x)"
          unfolding h' by (auto simp: ent_refs_def)
        with s2(2) have b': "base_inv c U X F (\<lambda>x. own U x + hash_refs (gr_hash ?s') x) E ?s'"
          by (simp add: hash_set_def)
        have "writes (D p) ?A" using e(2) Some by (simp add: entry_ok_def)
        then have "writes (D p) a" using wf[of p] by (auto simp: writes_def dep_wf_def)
        then have "entry_ok D (U - F) E a ?e" using use(1) via Some by (auto simp: entry_ok_def covers_def)
        then have "hash_ok D (U - F) E (gr_hash ?s')" unfolding h' using hash_ok_insert[OF hash anew] by blast
        then have "dag_inv c rank D U X F E ?s'" using inv b' unfolding dag_inv_def by blast
        moreover have "dep_entry_new a s = Some ?s'"
          using nfin f False Some s2(1) t unfolding new by (simp add: load_task_def)
        moreover have "same_sched s ?s'" using s2(4) by (simp add: same_sched_def rest_def hash_set_def hash_insert_def)
        moreover have "\<forall>x\<in>U. npred ?s' x = npred s x" using s2(3) by (simp add: hash_set_def hash_insert_def)
        ultimately show ?thesis by (auto simp: h')
      qed
    qed
  qed
qed


section \<open>Depending on everything\<close>

lemma all_processed:
  assumes "base_inv c U X F R E s" and q: "q \<in> U" "q \<notin> X"
    and "\<forall>a f. (a, f) \<in> set es \<longrightarrow> (\<exists>e. f = Some e \<and> ent_refs e q = 0)"
    and "\<forall>p. own U p + hash_refs es p \<le> R p" and "npred s q + link_total es < 2 ^ 32"
  shows "\<exists>n s'. dep_all_entries es (Some q) s =
      Some (of_nat n, map (\<lambda>(a, f). (a, Some \<lparr>ae_out = Some q, ae_in = []\<rparr>)) es, s') \<and> n \<le> link_total es \<and>
    base_inv c U X F (\<lambda>p. R p - hash_refs es p + (if p = q then int (length es) else 0))
      (E \<union> ({p. \<exists>a e. (a, Some e) \<in> set es \<and> p \<in> ent_prec e} \<inter> (U - F)) \<times> {q}) s' \<and>
    npred s' q = npred s q + n \<and> rest s' = rest s"
  using assms(1,4,5,6)
proof (induction es arbitrary: s R E)
  case Nil
  then show ?case by (simp cong: if_cong)
next
  case (Cons x es)
  obtain a e where x: "x = (a, Some e)" and eq: "ent_refs e q = 0" using Cons.prems(2) by (cases x) fastforce
  have nn: "0 \<le> hash_refs es p" for p unfolding hash_refs_def by (rule sum_list_nonneg) (auto split: option.split)
  have R: "own U p + (ent_refs e p + hash_refs es p) \<le> R p" for p using Cons.prems(3)[rule_format, of p] by (simp add: x)
  have R1: "\<forall>p. own U p + ent_refs e p \<le> R p"
  proof
    fix p show "own U p + ent_refs e p \<le> R p" using R[of p] nn[of p] by linarith
  qed
  have "npred s q + length (ae_in e) + 1 < 2 ^ 32" using Cons.prems(4) by (simp add: x)
  then obtain n s1 where 1: "node_process_dep_out e (Some q) s = Some (of_nat n, \<lparr>ae_out = Some q, ae_in = []\<rparr>, s1)"
    "n \<le> length (ae_in e) + 1"
    "base_inv c U X F (\<lambda>p. R p - ent_refs e p + (if p = q then 1 else 0)) (E \<union> (ent_prec e \<inter> (U - F)) \<times> {q}) s1"
    "npred s1 q = npred s q + n" "rest s1 = rest s"
    using dep_out_processed[OF Cons.prems(1) q eq R1] by blast
  have es: "\<forall>a f. (a, f) \<in> set es \<longrightarrow> (\<exists>e. f = Some e \<and> ent_refs e q = 0)" using Cons.prems(2) by simp
  have R2: "\<forall>p. own U p + hash_refs es p \<le> R p - ent_refs e p + (if p = q then 1 else 0)"
  proof
    fix p
    have "own U p + hash_refs es p \<le> R p - ent_refs e p" using R[of p] by linarith
    then show "own U p + hash_refs es p \<le> R p - ent_refs e p + (if p = q then 1 else 0)"
      by (rule order.trans) simp
  qed
  have "npred s1 q + link_total es < 2 ^ 32" using Cons.prems(4) 1(2,4) by (simp add: x)
  then obtain m s2 where 2: "dep_all_entries es (Some q) s1 =
      Some (of_nat m, map (\<lambda>(a, f). (a, Some \<lparr>ae_out = Some q, ae_in = []\<rparr>)) es, s2)" "m \<le> link_total es"
    "base_inv c U X F (\<lambda>p. R p - ent_refs e p + (if p = q then 1 else 0) - hash_refs es p +
         (if p = q then int (length es) else 0))
      ((E \<union> (ent_prec e \<inter> (U - F)) \<times> {q}) \<union>
       ({p. \<exists>a e. (a, Some e) \<in> set es \<and> p \<in> ent_prec e} \<inter> (U - F)) \<times> {q}) s2"
    "npred s2 q = npred s1 q + m" "rest s2 = rest s1"
    using Cons.IH[OF 1(3) es R2] by blast
  have "(\<lambda>p. R p - ent_refs e p + (if p = q then 1 else 0) - hash_refs es p + (if p = q then int (length es) else 0)) =
      (\<lambda>p. R p - hash_refs (x # es) p + (if p = q then int (length (x # es)) else 0))"
    by (auto simp: x)
  moreover have "(E \<union> (ent_prec e \<inter> (U - F)) \<times> {q}) \<union>
       ({p. \<exists>a e. (a, Some e) \<in> set es \<and> p \<in> ent_prec e} \<inter> (U - F)) \<times> {q} =
      E \<union> ({p. \<exists>a e. (a, Some e) \<in> set (x # es) \<and> p \<in> ent_prec e} \<inter> (U - F)) \<times> {q}"
    by (auto simp: x)
  ultimately show ?case using 1 2
    by (intro exI[of _ "n + m"] exI[of _ s2]) (simp add: x)
qed

lemma hash_refs_all: "hash_refs (map (\<lambda>(a, f). (a, Some \<lparr>ae_out = Some q, ae_in = []\<rparr>)) es) p =
    (if p = q then int (length es) else 0)"
  by (induction es) (auto simp: ent_refs_def)

lemma map_of_all: "map_of (map (\<lambda>(a, f). (a, v)) es) a = map_option (\<lambda>_. v) (map_of es a)"
  by (induction es) auto

text \<open>A task that depends on everything comes after every unfinished task that has an address.\<close>

lemma process_all:
  assumes inv: "dag_inv c rank D U X F E s" and q: "submitting rank U X q"
    and d: "dep_wf d" "dp_type d = KUPL_TASK_DEP_TYPE_ALL" "D q = []"
    and key: "map_of (gr_hash s) (dp_base_addr d) \<noteq> None"
    and b: "npred s q + link_total (gr_hash s) < 2 ^ 32"
  shows "\<exists>n es s'. dep_all_entries (gr_hash s) (Some q) s = Some (of_nat n, es, s') \<and>
    (\<exists>E. dag_inv c rank (D(q := [d])) U X F E (s'\<lparr>gr_hash := es\<rparr>)) \<and> same_sched s s' \<and>
    npred s' q = npred s q + n \<and> n \<le> link_total (gr_hash s)"
proof -
  let ?h = "gr_hash s" and ?e = "\<lparr>ae_out = Some q, ae_in = []\<rparr>"
  let ?es = "map (\<lambda>(a, f). (a, Some ?e)) ?h"
  let ?P = "{p. \<exists>a e. (a, Some e) \<in> set ?h \<and> p \<in> ent_prec e}"
  let ?E = "E \<union> (?P \<inter> (U - F)) \<times> {q}"
  have base: "base_inv c U X F (\<lambda>p. own U p + hash_refs ?h p) E s" and hash: "hash_ok D (U - F) E ?h"
    using inv by (simp_all add: dag_inv_def)
  have qU: "q \<in> U" "q \<notin> X" using q by (simp_all add: submitting_def)
  have nq: "\<not> writes (D q) a" "\<not> reads (D q) a" for a using d(3) by (simp_all add: writes_def reads_def)
  have entries: "\<exists>e. f = Some e \<and> entry_ok D (U - F) E a e \<and> ent_refs e q = 0 \<and> q \<notin> ent_prec e" if "(a, f) \<in> set ?h" for a f
  proof -
    have "\<exists>e. f = Some e \<and> entry_ok D (U - F) E a e" using hash that by (simp add: hash_ok_def)
    then obtain e where e: "f = Some e" "entry_ok D (U - F) E a e" by blast
    then show ?thesis using not_in_entry[OF e(2) nq] by (auto simp: ent_prec_def)
  qed
  have "\<forall>a f. (a, f) \<in> set ?h \<longrightarrow> (\<exists>e. f = Some e \<and> ent_refs e q = 0)" using entries by blast
  from all_processed[OF base qU this _ b] obtain n s' where call:
    "dep_all_entries ?h (Some q) s = Some (of_nat n, ?es, s')" "n \<le> link_total ?h"
    "base_inv c U X F (\<lambda>p. own U p + hash_refs ?h p - hash_refs ?h p + (if p = q then int (length ?h) else 0)) ?E s'"
    "npred s' q = npred s q + n" "rest s' = rest s" by auto
  let ?s = "s'\<lparr>gr_hash := ?es\<rparr>" and ?D = "D(q := D q @ [d])"
  have "(\<lambda>p. own U p + hash_refs ?h p - hash_refs ?h p + (if p = q then int (length ?h) else 0)) =
      (\<lambda>p. own U p + hash_refs (gr_hash ?s) p)"
    by (rule ext) (simp add: hash_refs_all)
  with call(3) have base': "base_inv c U X F (\<lambda>p. own U p + hash_refs (gr_hash ?s) p) ?E ?s" by simp
  have sub: "E \<union> (ent_prec e \<inter> (U - F)) \<times> {q} \<subseteq> ?E" if "(a, Some e) \<in> set ?h" for a e
    using that by blast
  have after: "(i, q) \<in> ?E\<^sup>+" if i: "i \<in> U - F" "writes (D i) a \<or> reads (D i) a" and a: "a \<in> fst ` set ?h" for i a
  proof -
    obtain f where "(a, f) \<in> set ?h" using a by auto
    then obtain e where e: "(a, Some e) \<in> set ?h" "entry_ok D (U - F) E a e" using entries by blast
    show ?thesis using covers_precedes[OF base e(2) i refl] sub[OF e(1)] by (rule trancl_mono_subset)
  qed
  have used: "\<exists>b\<in>fst ` set ?h. writes (D i) b \<or> reads (D i) b" if "i \<in> U - F" "D i \<noteq> []" for i
  proof -
    have "\<exists>x. x \<in> set (D i)" using \<open>D i \<noteq> []\<close> by (cases "D i") auto
    then obtain x where x: "x \<in> set (D i)" by blast
    then have "dp_base_addr x \<in> fst ` set ?h" using hash that(1) by (auto simp: hash_ok_def)
    moreover have "writes (D i) (dp_base_addr x) \<or> reads (D i) (dp_base_addr x)"
      using x inv by (cases "dp_type x") (auto simp: writes_def reads_def dag_inv_def dep_wf_def)
    ultimately show ?thesis by blast
  qed
  have all: "writes (?D q) a" for a using d(2) by (auto simp: writes_def)
  have eok: "entry_ok ?D (U - F) ?E a ?e" if "a \<in> fst ` set ?h" for a
    unfolding entry_ok_def
  proof (intro conjI ballI)
    fix i assume i: "i \<in> U - F"
    have "writes (?D i) a \<or> reads (?D i) a \<Longrightarrow> (i, q) \<in> ?E\<^sup>*"
      using after[OF i _ that] by (cases "i = q") (auto intro: trancl_into_rtrancl)
    then show "covers (?D i) ?E a ?e i" by (auto simp: covers_def)
  qed (use all in auto)
  have keys: "fst ` set ?es = fst ` set ?h" "map fst ?es = map fst ?h" by (force, simp add: o_def split_beta)
  have h': "gr_hash ?s = ?es" by simp
  have "dp_base_addr d \<in> fst ` set ?h" using key by (metis map_of_eq_None_iff)
  then have kk: "\<forall>i\<in>U - F. \<forall>x\<in>set (?D i). dp_base_addr x \<in> fst ` set ?h"
    using hash by (auto simp: hash_ok_def)
  have ent: "\<exists>g. f = Some g \<and> entry_ok ?D (U - F) ?E a g" if "(a, f) \<in> set ?es" for a f
  proof -
    have "f = Some ?e" "a \<in> fst ` set ?h" using that by force+
    then show ?thesis using eok by blast
  qed
  have "distinct (map fst ?h)" using hash by (simp add: hash_ok_def)
  then have hash': "hash_ok ?D (U - F) ?E (gr_hash ?s)"
    unfolding hash_ok_def h' keys using kk ent by blast
  have "dag_inv c rank ?D U X F ?E ?s"
  proof (rule dag_inv_extend[OF inv _ qU(1) _ _ refl d(1) base' hash'])
    fix i assume i: "i \<in> U - F" "i \<noteq> q" "conflict (D i) [d]"
    then have "D i \<noteq> []" by (auto simp: conflict_def writes_def reads_def)
    then show "(i, q) \<in> ?E\<^sup>+" using used[OF i(1)] after[OF i(1)] by blast
  qed (use q entries in \<open>auto simp: submitting_def\<close>)
  then show ?thesis using call d(3)
    by (intro exI[of _ n] exI[of _ ?es] exI[of _ s']) (auto simp: same_sched_def rest_def)
qed

end
