(* ===== verification/Kupl_Dag_Add.thy ===== *)
theory Kupl_Dag_Add
  imports Kupl_Dag_Inv
begin

text \<open>
  Adding a task to the graph: all its dependencies are processed, and it is ready exactly when no
  unfinished task has to end before it.
\<close>

section \<open>One dependency after the other\<close>

lemma entry_found:
  assumes inv: "dag_inv c rank D U X F E s" and q: "q \<in> U"
  obtains s1 E1 e where "(if hash_find a s \<noteq> None then Some s else dep_entry_new a s) = Some s1"
    "dag_inv c rank D U X F E1 s1" "map_of (gr_hash s1) a = Some (Some e)" "same_sched s s1"
    "npred s1 q = npred s q" "link_total (gr_hash s1) \<le> link_total (gr_hash s) + 1"
proof (cases "map_of (gr_hash s) a")
  case None
  obtain s' e where "dep_entry_new a s = Some s'" "dag_inv c rank D U X F E s'"
    "map_of (gr_hash s') a = Some (Some e)" "same_sched s s'" "\<forall>x\<in>U. npred s' x = npred s x"
    "link_total (gr_hash s') = link_total (gr_hash s) + 1" using entry_created[OF inv None] by blast
  then show ?thesis using that[of s' E e] None q by (simp add: hash_find_def)
next
  case (Some f)
  have "hash_ok D (U - F) E (gr_hash s)" using inv by (simp add: dag_inv_def)
  from hash_entry[OF this Some] obtain e where "f = Some e" by blast
  then show ?thesis using that[of s E e] inv Some by (simp add: hash_find_def same_sched_def)
qed

lemma dep_processed:
  assumes inv: "dag_inv c rank D U X F E s" and q: "submitting rank U X q" and d: "fresh_dep (D q) d"
    and b: "npred s q + link_total (gr_hash s) + 1 < 2 ^ 32"
  shows "\<exists>n s'. kupl_node_process_dep q d s = Some (Some (of_nat n), s') \<and>
    dep_done c rank (D(q := D q @ [d])) U X F q 3 n s s'"
proof -
  let ?a = "dp_base_addr d"
  have qU: "q \<in> U" using q by (simp add: submitting_def)
  obtain s1 E1 e where s1: "(if hash_find ?a s \<noteq> None then Some s else dep_entry_new ?a s) = Some s1"
    "dag_inv c rank D U X F E1 s1" "map_of (gr_hash s1) ?a = Some (Some e)" "same_sched s s1"
    "npred s1 q = npred s q" "link_total (gr_hash s1) \<le> link_total (gr_hash s) + 1"
    using entry_found[OF inv qU] .
  have b1: "npred s1 q + link_total (gr_hash s1) < 2 ^ 32" using b s1(5,6) by simp
  have call: "kupl_node_process_dep q d s = (case dp_type d of
       KUPL_TASK_DEP_TYPE_IN \<Rightarrow> do { (n, entry, s) \<leftarrow> node_process_dep_in e q s1;
         Some (Some n, hash_set ?a (Some entry) s) }
     | KUPL_TASK_DEP_TYPE_ALL \<Rightarrow> do { (n, es, s) \<leftarrow> dep_all_entries (gr_hash s1) (Some q) s1;
         Some (Some n, s\<lparr>gr_hash := es\<rparr>) }
     | DEP_TYPE_OTHER \<Rightarrow> Some (None, s1)
     | _ \<Rightarrow> do { (n, entry, s) \<leftarrow> node_process_dep_out e (Some q) s1;
         Some (Some n, hash_set ?a (Some entry) s) })"
    using s1(3) unfolding kupl_node_process_dep_def s1(1) by (simp add: hash_find_def cong: kupl_task_dep_type.case_cong)
  have "\<exists>n s'. kupl_node_process_dep q d s = Some (Some (of_nat n), s') \<and>
      dep_done c rank (D(q := D q @ [d])) U X F q 2 n s1 s'"
  proof (cases "dp_type d = KUPL_TASK_DEP_TYPE_IN")
    case True
    then show ?thesis using process_in[OF s1(2) q s1(3) d True b1] call by fastforce
  next
    case False
    then have out: "dp_type d \<in> {KUPL_TASK_DEP_TYPE_OUT, KUPL_TASK_DEP_TYPE_INOUT}"
      using d by (cases "dp_type d") (auto simp: fresh_dep_def dep_wf_def)
    obtain n e' s' where "node_process_dep_out e (Some q) s1 = Some (of_nat n, e', s')"
      "dep_done c rank (D(q := D q @ [d])) U X F q 1 n s1 (hash_set ?a (Some e') s')"
      using process_out[OF s1(2) q s1(3) d out b1] by blast
    then show ?thesis using call out by (auto simp: dep_done_def)
  qed
  then show ?thesis using s1(4-6) by (fastforce simp: dep_done_def same_sched_def)
qed

lemma deps_processed:
  assumes "dag_inv c rank D U X F E s" and q: "submitting rank U X q"
    and "distinct (map dp_base_addr (D q @ ds))"
    and "\<forall>d\<in>set (D q @ ds). dep_wf d \<and> dp_type d \<noteq> KUPL_TASK_DEP_TYPE_ALL"
    and "npred s q + link_total (gr_hash s) + 3 * length ds < 2 ^ 32"
  shows "\<exists>n s'. process_deps (length ds) ds q s = Some (Some (of_nat n), s') \<and>
    dep_done c rank (D(q := D q @ ds)) U X F q (3 * length ds) n s s'"
  using assms(1,3-5)
proof (induction ds arbitrary: D E s)
  case Nil
  then show ?case by (auto simp: dep_done_def same_sched_def)
next
  case (Cons d ds)
  have "fresh_dep (D q) d" using Cons.prems(2,3) by (auto simp: fresh_dep_def image_iff)
  moreover have "npred s q + link_total (gr_hash s) + 1 < 2 ^ 32" using Cons.prems(4) by simp
  ultimately obtain n s1 where 1: "kupl_node_process_dep q d s = Some (Some (of_nat n), s1)"
    "dep_done c rank (D(q := D q @ [d])) U X F q 3 n s s1"
    using dep_processed[OF Cons.prems(1) q] by blast
  then obtain E1 where inv1: "dag_inv c rank (D(q := D q @ [d])) U X F E1 s1" by (auto simp: dep_done_def)
  let ?D = "D(q := D q @ [d])"
  have p1: "npred s1 q + link_total (gr_hash s1) + 3 * length ds < 2 ^ 32"
    using 1(2) Cons.prems(4) by (simp add: dep_done_def)
  have p2: "distinct (map dp_base_addr (?D q @ ds))" using Cons.prems(2) by simp
  have p3: "\<forall>x\<in>set (?D q @ ds). dep_wf x \<and> dp_type x \<noteq> KUPL_TASK_DEP_TYPE_ALL" using Cons.prems(3) by simp
  have eq: "?D(q := ?D q @ ds) = D(q := D q @ d # ds)" by simp
  from Cons.IH[OF inv1 p2 p3 p1, unfolded eq] obtain m s2 where
    2: "process_deps (length ds) ds q s1 = Some (Some (of_nat m), s2)"
    "dep_done c rank (D(q := D q @ d # ds)) U X F q (3 * length ds) m s1 s2" by blast
  obtain E2 where inv2: "dag_inv c rank (D(q := D q @ d # ds)) U X F E2 s2" using 2(2) by (auto simp only: dep_done_def)
  have "dep_done c rank (D(q := D q @ d # ds)) U X F q (3 * length (d # ds)) (n + m) s s2"
    unfolding dep_done_def
  proof (intro conjI exI)
    show "dag_inv c rank (D(q := D q @ d # ds)) U X F E2 s2" by (rule inv2)
  qed (use 1(2) 2(2) in \<open>simp_all add: dep_done_def same_sched_def\<close>)
  moreover have "process_deps (length (d # ds)) (d # ds) q s = Some (Some (of_nat (n + m)), s2)"
    using 1(1) 2(1) by simp
  ultimately show ?case by blast
qed

section \<open>Duplicates\<close>

definition is_all :: "kupl_task_dep \<Rightarrow> bool" where
  "is_all d \<longleftrightarrow> dp_type d = KUPL_TASK_DEP_TYPE_ALL \<or> dp_base_addr d = KUPL_TASK_DEP_ALL_ADDR"

definition all_dep :: kupl_task_dep where
  "all_dep = \<lparr>dp_base_addr = KUPL_TASK_DEP_ALL_ADDR, dp_type = KUPL_TASK_DEP_TYPE_ALL\<rparr>"

text \<open>The lists of dependencies that are handled: no address twice, or a dependency on everything.\<close>

definition deps_ok :: "kupl_task_dep list \<Rightarrow> bool" where
  "deps_ok ds \<longleftrightarrow> (\<exists>d\<in>set ds. is_all d) \<or>
     distinct (map dp_base_addr ds) \<and> (\<forall>d\<in>set ds. dp_type d \<noteq> DEP_TYPE_OTHER)"

definition eff_deps :: "kupl_task_dep list \<Rightarrow> kupl_task_dep list" where
  "eff_deps ds = (if \<exists>d\<in>set ds. is_all d then [all_dep] else ds)"

lemma merge_new: "dp_base_addr d \<notin> dp_base_addr ` set acc \<Longrightarrow> merge_dep acc d = acc @ [d]"
proof -
  assume "dp_base_addr d \<notin> dp_base_addr ` set acc"
  then have nil: "dropWhile (\<lambda>e. dp_base_addr e \<noteq> dp_base_addr d) acc = []" by (auto simp: dropWhile_eq_Nil_conv image_iff)
  show ?thesis unfolding merge_dep_def nil by simp
qed

lemma rm_dup_all: "\<exists>d\<in>set ds. is_all d \<Longrightarrow> rm_dup_loop ds h acc cnt = ([all_dep], 1)"
  by (induction ds arbitrary: h acc) (auto simp: is_all_def all_dep_def)

lemma rm_dup_distinct:
  "\<forall>d\<in>set ds. \<not> is_all d \<Longrightarrow> distinct (map dp_base_addr (acc @ ds)) \<Longrightarrow>
   rm_dup_loop ds h acc cnt = (acc @ ds, cnt)"
  by (induction ds arbitrary: h acc) (auto simp: is_all_def merge_new)

lemma rm_dup_ok: "deps_ok ds \<Longrightarrow> dep_list_rm_dup ds = (eff_deps ds, length (eff_deps ds))"
  by (auto simp: deps_ok_def eff_deps_def dep_list_rm_dup_def rm_dup_all rm_dup_distinct)

lemma eff_deps_wf:
  assumes "deps_ok ds"
  shows "\<forall>d\<in>set (eff_deps ds). dep_wf d" "length (eff_deps ds) \<le> length ds + 1"
    "eff_deps ds = [all_dep] \<or> distinct (map dp_base_addr (eff_deps ds)) \<and>
       (\<forall>d\<in>set (eff_deps ds). dp_type d \<noteq> KUPL_TASK_DEP_TYPE_ALL)"
  using assms by (auto simp: deps_ok_def eff_deps_def is_all_def all_dep_def dep_wf_def)

section \<open>Ready or not\<close>

lemma ready_test: "(n :: u32) + n = - n \<longleftrightarrow> n = 0"
proof
  assume "n + n = - n"
  then have z: "n + n + n = 0" by simp
  have "3 * n = (2 + 1) * n" by simp
  also have "\<dots> = n + n + n" by (simp only: distrib_right mult_2 mult_1)
  finally have t: "3 * n = 0" using z by (rule trans)
  have "(2863311531 * 3 :: u32) = 1" by simp
  then have "n = (2863311531 * 3) * n" by (simp only: mult_1)
  also have "\<dots> = 2863311531 * (3 * n)" by (simp only: mult.assoc)
  finally show "n = 0" unfolding t by simp
qed simp

text \<open>\<open>kupl_dag_add_task\<close> on a fresh task \<open>q\<close>.\<close>

lemma task_added:
  assumes inv: "dag_inv c rank D U X F E s" and q: "submitting rank U X q" and D: "D q = []"
    and ok: "deps_ok deps" and n0: "npred s q = 0"
    and b: "link_total (gr_hash s) + 3 * length deps + 3 < 2 ^ 32"
  shows "\<exists>s'. kupl_dag_add_task q deps s =
      Some (if npred s' q = 0 then KUPL_DAG_TASK_READY else KUPL_DAG_TASK_NOT_READY, s') \<and>
    (\<exists>E. dag_inv c rank (D(q := eff_deps deps)) U X F E s') \<and> same_sched s s'"
proof -
  have qU: "q \<in> U" using q by (simp add: submitting_def)
  have "\<exists>n s'. process_deps (length (eff_deps deps)) (eff_deps deps) q s = Some (Some (of_nat n), s') \<and>
      (\<exists>E. dag_inv c rank (D(q := eff_deps deps)) U X F E s') \<and> same_sched s s' \<and>
      npred s' q = n \<and> n < 2 ^ 32"
  proof (cases "eff_deps deps = [all_dep]")
    case True
    let ?a = "dp_base_addr all_dep"
    obtain s1 E1 e where s1: "(if hash_find ?a s \<noteq> None then Some s else dep_entry_new ?a s) = Some s1"
      "dag_inv c rank D U X F E1 s1" "map_of (gr_hash s1) ?a = Some (Some e)" "same_sched s s1"
      "npred s1 q = npred s q" "link_total (gr_hash s1) \<le> link_total (gr_hash s) + 1"
    using entry_found[OF inv qU] .
    have wf: "dep_wf all_dep" "dp_type all_dep = KUPL_TASK_DEP_TYPE_ALL" by (simp_all add: all_dep_def dep_wf_def)
    have b1: "npred s1 q + link_total (gr_hash s1) < 2 ^ 32" using b s1(5,6) n0 by simp
    have "map_of (gr_hash s1) ?a \<noteq> None" using s1(3) by simp
    from process_all[OF s1(2) q wf D this b1] obtain n es s2 where call:
      "dep_all_entries (gr_hash s1) (Some q) s1 = Some (of_nat n, es, s2)"
      "\<exists>E. dag_inv c rank (D(q := [all_dep])) U X F E (s2\<lparr>gr_hash := es\<rparr>)" "same_sched s1 s2"
      "npred s2 q = npred s1 q + n" "n \<le> link_total (gr_hash s1)" by blast
    have "kupl_node_process_dep q all_dep s = Some (Some (of_nat n), s2\<lparr>gr_hash := es\<rparr>)"
      using call(1) wf(2) s1(3) unfolding kupl_node_process_dep_def s1(1) by (simp add: hash_find_def)
    then have "process_deps (Suc 0) [all_dep] q s = Some (Some (of_nat n), s2\<lparr>gr_hash := es\<rparr>)" by simp
    then show ?thesis unfolding True
      using call s1(4-6) b n0 by (intro exI[of _ n] exI[of _ "s2\<lparr>gr_hash := es\<rparr>"]) (auto simp: same_sched_def)
  next
    case False
    have "distinct (map dp_base_addr (D q @ eff_deps deps))"
      "\<forall>d\<in>set (D q @ eff_deps deps). dep_wf d \<and> dp_type d \<noteq> KUPL_TASK_DEP_TYPE_ALL"
      using eff_deps_wf[OF ok] False D by auto
    moreover have "npred s q + link_total (gr_hash s) + 3 * length (eff_deps deps) < 2 ^ 32"
      using b n0 eff_deps_wf(2)[OF ok] by simp
    ultimately obtain n s' where "process_deps (length (eff_deps deps)) (eff_deps deps) q s = Some (Some (of_nat n), s')"
      "dep_done c rank (D(q := D q @ eff_deps deps)) U X F q (3 * length (eff_deps deps)) n s s'"
      using deps_processed[OF inv q] by blast
    then show ?thesis using D n0 b eff_deps_wf(2)[OF ok] by (auto simp: dep_done_def)
  qed
  then obtain n s' E' where 1: "process_deps (length (eff_deps deps)) (eff_deps deps) q s = Some (Some (of_nat n), s')"
    "dag_inv c rank (D(q := eff_deps deps)) U X F E' s'" "same_sched s s'" "npred s' q = n" "n < 2 ^ 32" by blast
  obtain t where t: "gr_heap s' q = Some t" using 1(2) base_live qU by (metis dag_inv_def)
  have np: "gn_n_predecessors (tk_gnode t) = of_nat n"
    using 1(4,5) t by (simp add: npred_def word_unat_eq_iff unat_of_nat)
  have "(of_nat n :: u32) = 0 \<longleftrightarrow> n = 0"
    using 1(5) by (simp add: word_unat_eq_iff unat_of_nat)
  then have rdy: "gn_n_predecessors (tk_gnode t) + of_nat n = - of_nat n \<longleftrightarrow> npred s' q = 0"
    unfolding np ready_test 1(4) .
  have al: "next_alloc s = (True, s)" using inv base_sets by (metis dag_inv_def next_alloc_True)
  have "kupl_dag_add_task q deps s =
      Some (if npred s' q = 0 then KUPL_DAG_TASK_READY else KUPL_DAG_TASK_NOT_READY, s')"
    using rdy by (simp add: kupl_dag_add_task_def al rm_dup_ok[OF ok] 1(1) load_task_def t Let_def)
  then show ?thesis using 1(2,3) by blast
qed

section \<open>Other tasks\<close>

text \<open>Adding \<open>q\<close> does not change how many predecessors another task waits for.\<close>

definition frame :: "ptr \<Rightarrow> graph_state \<Rightarrow> graph_state \<Rightarrow> bool" where
  "frame q s s' \<longleftrightarrow> (\<forall>x. x \<noteq> q \<longrightarrow> gr_heap s' x = None \<or> gr_heap s x \<noteq> None \<and> npred s' x = npred s x)"

lemma frame_npred: "frame q s s' \<Longrightarrow> x \<noteq> q \<Longrightarrow> gr_heap s' x \<noteq> None \<Longrightarrow> npred s' x = npred s x"
  unfolding frame_def by metis

lemma frame_refl [simp, intro]: "frame q s s"
  unfolding frame_def by blast

lemma frame_trans [trans]: "frame q s s' \<Longrightarrow> frame q s' s'' \<Longrightarrow> frame q s s''"
  unfolding frame_def by metis

lemma frame_hash [simp]: "frame q s (s'\<lparr>gr_hash := h\<rparr>) = frame q s s'" "frame q s (hash_set a e s') = frame q s s'"
  "frame q s (hash_insert a e s') = frame q s s'" "frame q s (s'\<lparr>gr_alloc := al\<rparr>) = frame q s s'"
  by (simp_all add: frame_def npred_def hash_set_def hash_insert_def)

lemma frame_hash_left [simp]: "frame q (s\<lparr>gr_hash := h\<rparr>) s' = frame q s s'" "frame q (hash_set a e s) s' = frame q s s'"
  "frame q (hash_insert a e s) s' = frame q s s'" "frame q (s\<lparr>gr_alloc := al\<rparr>) s' = frame q s s'"
  by (simp_all add: frame_def npred_def hash_set_def hash_insert_def)

lemma frame_ref: "kupl_gnode_ref n s = Some s' \<Longrightarrow> frame q s s'"
  by (auto simp: kupl_gnode_ref_def kupl_task_ref_def load_task_def frame_def npred_def heap_store
      split: option.splits bind_splits if_splits)

lemma frame_deref: "kupl_gnode_deref n s = Some s' \<Longrightarrow> frame q s s'"
  by (auto simp: kupl_gnode_deref_def kupl_task_deref_def load_task_def frame_def npred_def heap_store
      split: option.splits bind_splits if_splits)

lemma frame_precede: "kupl_gnode_precede p (Some q) s = Some (n, s') \<Longrightarrow> frame q s s'"
  by (auto simp: kupl_gnode_precede_def load_task_def frame_def npred_def heap_store next_alloc_def Let_def
      split: option.splits bind_splits if_splits)

lemma frame_readers: "dep_out_readers ps (Some q) s = Some (n, s') \<Longrightarrow> frame q s s'"
  by (induction ps arbitrary: s n)
    (auto split: bind_splits dest!: frame_precede frame_deref[of _ _ _ q], (blast intro: frame_trans)+)

lemma frame_out: "node_process_dep_out e (Some q) s = Some (n, e', s') \<Longrightarrow> frame q s s'"
  by (auto simp: node_process_dep_out_def split: bind_splits if_splits
      dest!: frame_precede frame_readers frame_deref[of _ _ _ q] frame_ref[of _ _ _ q], (blast intro: frame_trans)+)

lemma frame_in: "node_process_dep_in e q s = Some (n, e', s') \<Longrightarrow> frame q s s'"
  by (auto simp: node_process_dep_in_def next_alloc_def Let_def split: bind_splits if_splits
      dest!: frame_precede frame_ref[of _ _ _ q] intro: frame_trans)

lemma frame_all: "dep_all_entries es (Some q) s = Some (n, es', s') \<Longrightarrow> frame q s s'"
  by (induction es arbitrary: s n es') (auto split: bind_splits dest!: frame_out, (blast intro: frame_trans)+)

lemma frame_new: "dep_entry_new a s = Some s' \<Longrightarrow> frame q s s'"
  by (auto simp: dep_entry_new_def kupl_addr_entry_create_def next_alloc_def Let_def
      split: bind_splits if_splits option.splits prod.splits
      dest!: frame_deref[of _ _ _ q] frame_ref[of _ _ _ q])

lemma frame_dep: "kupl_node_process_dep q d s = Some (n, s') \<Longrightarrow> frame q s s'"
  by (auto simp: kupl_node_process_dep_def split: bind_splits if_splits option.splits kupl_task_dep_type.splits
      dest!: frame_out frame_in frame_all frame_new[of _ _ _ q] intro: frame_trans)

lemma frame_deps: "process_deps k ds q s = Some (n, s') \<Longrightarrow> frame q s s'"
  by (induction k ds q s arbitrary: n s' rule: process_deps.induct)
    (auto split: bind_splits option.splits dest!: frame_dep, (blast intro: frame_trans)+)

lemma frame_add: "kupl_dag_add_task q deps s = Some (n, s') \<Longrightarrow> frame q s s'"
  by (auto simp: kupl_dag_add_task_def next_alloc_def Let_def split: bind_splits option.splits if_splits prod.splits
      dest!: frame_deps)

end
