(* ===== verification/Kupl_Graph_Run.thy ===== *)
theory Kupl_Graph_Run
  imports Kupl_Graph Kupl_Dag_Add
begin

text \<open>
  The runs of a graph: any number of threads submit tasks, take tasks from the scheduler, finish their
  functions and release their successors, in any order, each of these steps being atomic (a
  submission that others can interrupt is in Kupl\_Dag\_Race).  The
  invariant of Kupl\_Dag\_Inv holds at every step; from it follow the order of execution, that waiting
  ends with everything executed, that a run never gets stuck, and the safety of the memory.
\<close>

section \<open>Events\<close>

datatype graph_event = Submit ptr kupl_task_desc "kupl_task_dep list" | Start ptr | Done ptr | Finish ptr

text \<open>
  The tasks whose function runs, those whose function has ended, and the submissions so far with the
  dependencies that count.
\<close>

record graph_run =
  rn_state :: graph_state
  rn_running :: "ptr list"
  rn_done :: "ptr list"
  rn_log :: "(ptr \<times> kupl_task_dep list) list"

definition desc_deps :: "kupl_task_desc \<Rightarrow> kupl_task_dep list \<Rightarrow> kupl_task_dep list" where
  "desc_deps d deps = (if kd_field_mask d AND KUPL_TASK_DESC_FIELD_DEP \<noteq> 0 then eff_deps deps else [])"

fun graph_step :: "graph_env \<Rightarrow> graph_event \<Rightarrow> graph_run \<Rightarrow> graph_run option" where
  "graph_step env (Submit p d deps) r =
     do {
       (st, s) \<leftarrow> kupl_graph_add_task env True (Some d) deps (Some p) (rn_state r);
       Some (r\<lparr>rn_state := s, rn_log := (if st = KUPL_OK then rn_log r @ [(p, desc_deps d deps)] else rn_log r)\<rparr>)
     }"
| "graph_step env (Start p) r =
     Some (r\<lparr>rn_state := (rn_state r)\<lparr>gr_pool := remove1 p (gr_pool (rn_state r))\<rparr>, rn_running := p # rn_running r\<rparr>)"
| "graph_step env (Done p) r =
     do {
       s \<leftarrow> task_mark_finished p (rn_state r);
       Some (r\<lparr>rn_state := s, rn_running := remove1 p (rn_running r), rn_done := p # rn_done r\<rparr>)
     }"
| "graph_step env (Finish p) r =
     do {
       s \<leftarrow> kupl_task_finish p (rn_state r);
       Some (r\<lparr>rn_state := s, rn_done := remove1 p (rn_done r)\<rparr>)
     }"

text \<open>
  When an event can occur.  A submission gets memory that is not in use (and, so that addresses name
  tasks, was not used before), its description is complete, and the 32-bit counts are not exceeded.
\<close>

fun graph_enabled :: "graph_env \<Rightarrow> graph_event \<Rightarrow> graph_run \<Rightarrow> bool" where
  "graph_enabled env (Submit p d deps) r \<longleftrightarrow>
     gr_heap (rn_state r) p = None \<and> p \<notin> fst ` set (rn_log r) \<and> kd_func d \<noteq> None \<and>
     (kd_field_mask d AND KUPL_TASK_DESC_FIELD_DEP \<noteq> 0 \<longrightarrow>
        kd_ndep d = length deps \<and> (deps \<noteq> [] \<longrightarrow> kd_dep_list d \<noteq> None) \<and> deps_ok deps) \<and>
     int (link_total (gr_hash (rn_state r)) + 3 * length deps + 3) < 2 ^ 32"
| "graph_enabled env (Start p) r \<longleftrightarrow> p \<in> set (gr_pool (rn_state r))"
| "graph_enabled env (Done p) r \<longleftrightarrow> p \<in> set (rn_running r)"
| "graph_enabled env (Finish p) r \<longleftrightarrow> p \<in> set (rn_done r)"

fun graph_run_events :: "graph_env \<Rightarrow> graph_event list \<Rightarrow> graph_run \<Rightarrow> graph_run option" where
  "graph_run_events env [] r = Some r"
| "graph_run_events env (e # es) r =
     (if graph_enabled env e r then Option.bind (graph_step env e r) (graph_run_events env es) else None)"

text \<open>A graph as \<open>kupl_graph_create\<close> leaves it.\<close>

definition graph_init :: graph_run where
  "graph_init = \<lparr>rn_state = \<lparr>gr_heap = (\<lambda>_. None), gr_hash = [], gr_alloc = (\<lambda>_. True), gr_counts = (\<lambda>_. 0),
     gr_pool = [], gr_current = (\<lambda>_. None)\<rparr>, rn_running = [], rn_done = [], rn_log = []\<rparr>"

text \<open>The caller is an executor, the lock can be made, and the padding does not hold the reuse flag.\<close>

definition env_ok :: "graph_env \<Rightarrow> bool" where
  "env_ok env \<longleftrightarrow> ge_geid env \<noteq> -1 \<and> ge_lockok env \<and> (ucast (ge_pad env) :: u64) AND KUPL_TB_FLAG_REUSE = 0"

section \<open>Tasks enter and leave\<close>

lemma ready_finished [simp]:
  "kupl_tb_is_finished (tb\<lparr>tb_state := st OR KUPL_TB_STATE_READY\<rparr>) = kupl_tb_is_finished (tb\<lparr>tb_state := st\<rparr>)"
  by (simp add: finished_bit bit_or_iff KUPL_TB_STATE_READY_def)

lemma finished_finished [simp]: "kupl_tb_is_finished (tb\<lparr>tb_state := st OR KUPL_TB_STATE_FINISHED\<rparr>)"
  by (simp add: finished_bit bit_or_iff KUPL_TB_STATE_FINISHED_def)

lemma init_not_finished [simp]: "\<not> kupl_tb_is_finished (tb\<lparr>tb_state := KUPL_TB_STATE_INIT\<rparr>)"
  by (simp add: finished_bit KUPL_TB_STATE_INIT_def)

lemma fresh_task:
  assumes env: "env_ok env"
  obtains t where "kupl_task_init (graph_task_param env (task_desc_as_tb_desc (ge_pad env) d)) (ge_garbage env)
      (ge_cp env) (ge_lockok env) (Some p) s = Some (Some p, store_task p t s)"
    "task_ok (ge_count env) t" "tb_ref (tk_tb t) = 1" "\<not> kupl_tb_is_finished (tk_tb t)"
    "gn_successors (tk_gnode t) = []" "gn_n_predecessors (tk_gnode t) = 0"
proof -
  let ?param = "graph_task_param env (task_desc_as_tb_desc (ge_pad env) d)"
  let ?tb = "kupl_tb_init ((tk_tb (ge_garbage env))\<lparr>tb_ref := 1\<rparr>) (pa_super ?param) (ge_cp env)"
  let ?t = "(ge_garbage env)\<lparr>tk_tb := ?tb\<lparr>tb_state := KUPL_TB_STATE_INIT\<rparr>, tk_kind := KUPL_TASK_KIND_COMM_DYNAMIC,
      tk_gnode := snd (kupl_gnode_init True (tk_gnode (ge_garbage env)))\<rparr>"
  have st: "store_task p x (store_task p y s) = store_task p x s" for x y by (simp add: store_task_def)
  have cm: "r\<lparr>tk_kind := k, tk_gnode := n, tk_tb := b\<rparr> = r\<lparr>tk_tb := b, tk_kind := k, tk_gnode := n\<rparr>"
    for r :: kupl_task and k n b by (cases r) simp
  have lk: "ge_lockok env" using env by (simp add: env_ok_def)
  have "tb_flag ?tb AND KUPL_TB_FLAG_REUSE = 0"
    using env
    by (simp add: kupl_tb_init_def Let_def graph_task_param_def task_desc_as_tb_desc_def env_ok_def
        KUPL_TB_FLAG_PRIORITY_def KUPL_TB_FLAG_REUSE_def bit.conj_disj_distrib2)
  moreover have "kupl_task_init ?param (ge_garbage env) (ge_cp env) (ge_lockok env) (Some p) s =
      Some (Some p, store_task p ?t s)"
    using lk by (simp add: kupl_task_init_def graph_task_param_def kupl_gnode_init_def load_task_def
        heap_store st Let_def cm)
  ultimately show ?thesis
    by (intro that[of ?t])
      (simp_all add: task_ok_def kupl_gnode_init_def graph_task_param_def)
qed


section \<open>Submission\<close>

lemma base_new_task:
  assumes inv: "base_inv c U X F R E s" and p: "gr_heap s p = None"
    and t: "task_ok c t" "tb_ref (tk_tb t) = 1" "\<not> kupl_tb_is_finished (tk_tb t)"
      "gn_successors (tk_gnode t) = []" "gn_n_predecessors (tk_gnode t) = 0"
  shows "base_inv c (insert p U) X F (R(p := 1)) E (store_task p t s)" "npred (store_task p t s) p = 0"
    "\<forall>x\<in>U. npred (store_task p t s) x = npred s x"
proof -
  let ?s = "store_task p t s"
  have pU: "p \<notin> U" using base_live[OF inv] p by fastforce
  have S: "succs ?s x = (if x = p then [] else succs s x)" and N: "npred ?s x = (if x = p then 0 else npred s x)" for x
    using t(4,5) by (auto simp: succs_def npred_def heap_store)
  show "npred ?s p = 0" "\<forall>x\<in>U. npred ?s x = npred s x" using N pU by auto
  have noE: "(q, p) \<notin> E" "(p, q) \<notin> E" for q using base_sets[OF inv] pU by auto
  have "npred ?s x = (\<Sum>y\<in>insert p U. count_list (succs ?s y) x)" if "x \<in> insert p U" for x
  proof -
    have "(\<Sum>y\<in>insert p U. count_list (succs ?s y) x) = (\<Sum>y\<in>U. count_list (succs s y) x)"
    proof -
      have "(\<Sum>y\<in>U. count_list (succs ?s y) x) = (\<Sum>y\<in>U. count_list (succs s y) x)"
        using pU by (intro sum.cong) (auto simp: S)
      then show ?thesis using base_sets[OF inv] pU by (simp add: S[of p])
    qed
    moreover have "x = p \<Longrightarrow> (\<Sum>y\<in>U. count_list (succs s y) x) = 0"
      using base_edge[OF inv] noE(1) by (auto simp: count_list_0_iff intro!: sum.neutral)
    ultimately show ?thesis using that base_npred[OF inv, of x] by (auto simp: N)
  qed
  moreover have "\<forall>x y. (x, y) \<in> E \<longleftrightarrow> x \<in> insert p U \<and> y \<in> set (succs ?s x)"
    using base_edge[OF inv] noE by (auto simp: S)
  moreover have "\<forall>x\<in>insert p U. \<exists>u. gr_heap ?s x = Some u \<and> task_ok c u"
    using base_live[OF inv] t(1) by (simp add: heap_store)
  moreover have "ref_ok (x \<notin> insert p U \<or> x \<in> F) ((R(p := 1)) x) (gr_heap ?s x)" for x
    using base_ref_ok[OF inv, of x] t(2,3) pU base_sets[OF inv] by (cases "x = p") (auto simp: heap_store)
  moreover have "\<forall>x\<in>X. npred ?s x = 0" using base_no_pred[OF inv] by (simp add: N)
  ultimately show "base_inv c (insert p U) X F (R(p := 1)) E ?s"
    using base_sets[OF inv] unfolding base_inv_def by (simp add: subset_insertI2 insert_Times_insert) blast
qed

lemma dag_new_task:
  assumes inv: "dag_inv c rank D U X F E s" and p: "gr_heap s p = None" and D: "D p = []"
    and t: "task_ok c t" "tb_ref (tk_tb t) = 1" "\<not> kupl_tb_is_finished (tk_tb t)"
      "gn_successors (tk_gnode t) = []" "gn_n_predecessors (tk_gnode t) = 0"
  shows "dag_inv c rank D (insert p U) X F E (store_task p t s)" "npred (store_task p t s) p = 0"
    "p \<notin> U" "\<forall>x\<in>U. npred (store_task p t s) x = npred s x"
proof -
  let ?s = "store_task p t s" and ?h = "gr_hash s"
  have base: "base_inv c U X F (\<lambda>p. own U p + hash_refs ?h p) E s" and hash: "hash_ok D (U - F) E ?h"
    using inv by (simp_all add: dag_inv_def)
  note new = base_new_task[OF base p t]
  show "npred ?s p = 0" "\<forall>x\<in>U. npred ?s x = npred s x" by (rule new(2), rule new(3))
  show pU: "p \<notin> U" using base_live[OF base] p by fastforce
  have r0: "hash_refs ?h p = 0" using base_dead[OF base] p pU by simp
  have h: "gr_hash ?s = ?h" by (simp add: store_task_def)
  have "(\<lambda>x. own U x + hash_refs ?h x)(p := 1) = (\<lambda>x. own (insert p U) x + hash_refs (gr_hash ?s) x)"
    using r0 by (auto simp: h)
  with new(1) have b: "base_inv c (insert p U) X F (\<lambda>x. own (insert p U) x + hash_refs (gr_hash ?s) x) E ?s" by simp
  have nD: "\<not> writes (D p) a" "\<not> reads (D p) a" for a using D by (simp_all add: writes_def reads_def)
  have "entry_ok D (insert p U - F) E a e" if e: "entry_ok D (U - F) E a e" for a e
    using e nD unfolding entry_ok_def by (auto simp: covers_def)
  then have "hash_ok D (insert p U - F) E ?h" using hash D unfolding hash_ok_def by fastforce
  moreover have "\<not> conflict (D p) x" "\<not> conflict x (D p)" for x using nD by (auto simp: conflict_def)
  then have "\<forall>i\<in>insert p U - F. \<forall>j\<in>insert p U. rank i < rank j \<and> conflict (D i) (D j) \<longrightarrow> (i, j) \<in> E\<^sup>+"
    using inv unfolding dag_inv_def by blast
  ultimately show "dag_inv c rank D (insert p U) X F E ?s" using inv b unfolding dag_inv_def h by blast
qed

text \<open>The ranks matter only on the tasks that are not released.\<close>

lemma dag_inv_rank:
  assumes "dag_inv c rank D U X F E s" and "\<forall>p\<in>U. rank p = rank' p"
  shows "dag_inv c rank' D U X F E s"
proof -
  have "base_inv c U X F (\<lambda>p. own U p + hash_refs (gr_hash s) p) E s" using assms(1) by (simp only: dag_inv_def)
  then have E: "E \<subseteq> U \<times> U" using base_sets by blast
  have "\<forall>(i, j)\<in>E. rank' i < rank' j"
  proof (clarify)
    fix i j assume "(i, j) \<in> E"
    moreover then have "i \<in> U" "j \<in> U" using E by auto
    moreover have "\<forall>(i, j)\<in>E. rank i < rank j" using assms(1) unfolding dag_inv_def by blast
    ultimately show "rank' i < rank' j" using assms(2) by fastforce
  qed
  moreover have "\<forall>i\<in>U - F. \<forall>j\<in>U. rank' i < rank' j \<and> conflict (D i) (D j) \<longrightarrow> (i, j) \<in> E\<^sup>+"
    using assms unfolding dag_inv_def by (metis DiffD1)
  ultimately show ?thesis using assms(1) unfolding dag_inv_def by (elim conjE) (intro conjI; assumption)
qed

lemma base_pool_add:
  assumes inv: "base_inv c U X F R E s" and q: "q \<in> U" "q \<notin> F" and n: "npred s q = 0"
  shows "\<exists>s'. pool_add q s = Some s' \<and> base_inv c U (insert q X) F R E s' \<and> npred s' = npred s \<and>
    gr_hash s' = gr_hash s \<and> gr_pool s' = gr_pool s @ [q] \<and> gr_counts s' = (gr_counts s)(c := gr_counts s c + 1) \<and>
    (\<forall>x. x \<noteq> q \<longrightarrow> gr_heap s' x = gr_heap s x)"
proof -
  obtain t where t: "gr_heap s q = Some t" "task_ok c t" using base_live[OF inv q(1)] by blast
  let ?t = "t\<lparr>tk_tb := (tk_tb t)\<lparr>tb_state := tb_state (tk_tb t) OR KUPL_TB_STATE_READY\<rparr>\<rparr>"
  let ?s = "(store_task q ?t s)\<lparr>gr_counts := (gr_counts s)(c := gr_counts s c + 1), gr_pool := gr_pool s @ [q]\<rparr>"
  have call: "pool_add q s = Some ?s"
    using t by (simp add: pool_add_def load_task_def Let_def kupl_tb_count_add_def task_ok_def store_task_def)
  have S: "succs ?s = succs s" and N: "npred ?s = npred s"
    using t(1) by (auto simp: succs_def npred_def fun_eq_iff heap_store store_task_def)
  have "\<forall>x\<in>U. \<exists>u. gr_heap ?s x = Some u \<and> task_ok c u"
    using base_live[OF inv] t(2) by (simp add: store_task_def task_ok_def)
  moreover have "ref_ok (x \<notin> U \<or> x \<in> F) (R x) (gr_heap ?s x)" for x
    using base_ref_ok[OF inv, of x] t(1) by (cases "x = q") (simp_all add: store_task_def)
  moreover have "\<forall>x\<in>insert q X. npred ?s x = 0" using base_no_pred[OF inv] n by (simp add: N)
  ultimately have "base_inv c U (insert q X) F R E ?s"
    using inv q(1) unfolding base_inv_def S N by (auto simp: store_task_def)
  then show ?thesis using call N by (intro exI[of _ ?s]) (simp add: store_task_def)
qed


section \<open>Release\<close>

definition keeps :: "graph_state \<Rightarrow> graph_state \<Rightarrow> bool" where
  "keeps s s' \<longleftrightarrow> rest s' = rest s \<and> gr_alloc s' = gr_alloc s \<and> succs s' = succs s \<and>
     (\<forall>x. map_option (\<lambda>t. (tk_tb t, tk_kind t)) (gr_heap s' x) = map_option (\<lambda>t. (tk_tb t, tk_kind t)) (gr_heap s x))"

lemma keeps_trans: "keeps s s' \<Longrightarrow> keeps s' s'' \<Longrightarrow> keeps s s''"
  by (simp add: keeps_def)

lemma release_loop_spec:
  assumes "\<forall>q\<in>set qs. gr_heap s q \<noteq> None \<and> count_list qs q \<le> npred s q"
  shows "\<exists>rs s'. release_loop qs s = Some (rs, s') \<and> set rs = {q \<in> set qs. npred s q = count_list qs q} \<and>
    distinct rs \<and> (\<forall>x. npred s' x = npred s x - count_list qs x) \<and> keeps s s'"
  using assms
proof (induction qs arbitrary: s)
  case Nil
  then show ?case by (auto simp: keeps_def)
next
  case (Cons q qs)
  obtain u where u: "gr_heap s q = Some u" using Cons.prems by auto
  let ?n = "gn_n_predecessors (tk_gnode u)"
  let ?u = "u\<lparr>tk_gnode := (tk_gnode u)\<lparr>gn_n_predecessors := ?n - 1\<rparr>\<rparr>"
  let ?s = "store_task q ?u s"
  have n: "npred s q = unat ?n" by (simp add: npred_def u)
  have ge: "1 + count_list qs q \<le> unat ?n" using Cons.prems n by simp
  then have n1: "unat (?n - 1) = unat ?n - 1" by (simp add: unat_sub_if')
  have N: "npred ?s x = npred s x - (if x = q then 1 else 0)" for x
    using n1 by (simp add: npred_def heap_store u)
  have k: "keeps s ?s"
    using u by (auto simp: keeps_def succs_def fun_eq_iff heap_store)
  have "\<forall>x\<in>set qs. gr_heap ?s x \<noteq> None \<and> count_list qs x \<le> npred ?s x"
    using Cons.prems by (auto simp: N heap_store)
  from Cons.IH[OF this] obtain rs s' where 1: "release_loop qs ?s = Some (rs, s')"
    "set rs = {x \<in> set qs. npred ?s x = count_list qs x}" "distinct rs"
    "\<forall>x. npred s' x = npred ?s x - count_list qs x" "keeps ?s s'" by blast
  have rdy: "?n = 1 \<longleftrightarrow> npred s q = 1" unfolding n by (metis unat_1 word_unat_eq_iff)
  have call: "release_loop (q # qs) s = Some (if ?n = 1 then q # rs else rs, s')"
    using 1(1) by (simp add: load_task_def u Let_def)
  have "set (if ?n = 1 then q # rs else rs) = {x \<in> set (q # qs). npred s x = count_list (q # qs) x} \<and>
      distinct (if ?n = 1 then q # rs else rs)"
  proof (cases "?n = 1")
    case True
    then have "count_list qs q = 0" using ge by simp
    then have "q \<notin> set qs" by (simp add: count_list_0_iff)
    then show ?thesis using True 1(2,3) rdy by (auto simp: N count_list_0_iff)
  next
    case False
    then have "npred s q \<noteq> 1" using rdy by simp
    then show ?thesis using False 1(2,3) ge n by (auto simp: N count_list_0_iff)
  qed
  then show ?case using call 1(4) keeps_trans[OF k 1(5)] by (auto simp: N)
qed

lemma pool_add_all_spec:
  assumes "base_inv c U X F R E s" and "\<forall>q\<in>set rs. q \<in> U \<and> q \<notin> F \<and> npred s q = 0"
  shows "\<exists>s'. pool_add_all rs s = Some s' \<and> base_inv c U (set rs \<union> X) F R E s' \<and> npred s' = npred s \<and>
    gr_hash s' = gr_hash s \<and> gr_pool s' = gr_pool s @ rs \<and> gr_counts s' c = gr_counts s c + of_nat (length rs) \<and>
    (\<forall>x. x \<notin> set rs \<longrightarrow> gr_heap s' x = gr_heap s x)"
  using assms
proof (induction rs arbitrary: s X)
  case (Cons q rs)
  obtain s1 where 1: "pool_add q s = Some s1" "base_inv c U (insert q X) F R E s1" "npred s1 = npred s"
    "gr_hash s1 = gr_hash s" "gr_pool s1 = gr_pool s @ [q]"
    "gr_counts s1 = (gr_counts s)(c := gr_counts s c + 1)" "\<forall>x. x \<noteq> q \<longrightarrow> gr_heap s1 x = gr_heap s x"
    using base_pool_add[OF Cons.prems(1)] Cons.prems(2) by (metis list.set_intros(1))
  have "\<forall>x\<in>set rs. x \<in> U \<and> x \<notin> F \<and> npred s1 x = 0" using Cons.prems(2) 1(3) by simp
  from Cons.IH[OF 1(2) this] obtain s2 where "pool_add_all rs s1 = Some s2"
    "base_inv c U (set rs \<union> insert q X) F R E s2" "npred s2 = npred s1" "gr_hash s2 = gr_hash s1"
    "gr_pool s2 = gr_pool s1 @ rs" "gr_counts s2 c = gr_counts s1 c + of_nat (length rs)"
    "\<forall>x. x \<notin> set rs \<longrightarrow> gr_heap s2 x = gr_heap s1 x" by blast
  then show ?case using 1 by (simp add: add.assoc)
qed simp

text \<open>Paths between unfinished tasks do not use a task without predecessors that leaves.\<close>

lemma path_avoids:
  assumes "(i, j) \<in> E\<^sup>+" and "i \<noteq> p" and "\<forall>x. (x, p) \<notin> E"
  shows "(i, j) \<in> (E - {p} \<times> UNIV)\<^sup>+"
  using assms(1)
proof (induction rule: trancl_induct)
  case (base y)
  then show ?case using assms(2) by auto
next
  case (step y z)
  then have "y \<noteq> p" using assms(3) by (metis tranclE)
  then show ?case using step by (auto intro: trancl_into_trancl)
qed

lemma star_avoids:
  assumes "(i, j) \<in> E\<^sup>*" and "i \<noteq> p" and "\<forall>x. (x, p) \<notin> E"
  shows "(i, j) \<in> (E - {p} \<times> UNIV)\<^sup>*"
  using assms path_avoids by (metis rtranclD rtrancl.rtrancl_refl trancl_into_rtrancl)


lemma entry_ok_release:
  assumes "entry_ok D N E a e" and "p \<notin> N" and "\<forall>x. (x, p) \<notin> E"
  shows "entry_ok D N (E - {p} \<times> UNIV) a e"
proof -
  have s: "i \<in> N \<Longrightarrow> (i, j) \<in> E\<^sup>* \<Longrightarrow> (i, j) \<in> (E - {p} \<times> UNIV)\<^sup>*" for i j
    using star_avoids[of i j E p] assms(2,3) by auto
  have t: "i \<in> N \<Longrightarrow> (i, j) \<in> E\<^sup>+ \<Longrightarrow> (i, j) \<in> (E - {p} \<times> UNIV)\<^sup>+" for i j
    using path_avoids[of i j E p] assms(2,3) by auto
  show ?thesis using assms(1) s t unfolding entry_ok_def covers_def by blast
qed

lemma map_option_some: "map_option f x = map_option f y \<Longrightarrow> y = Some b \<Longrightarrow> \<exists>a. x = Some a \<and> f a = f b"
  by auto

text \<open>\<open>kupl_task_finish\<close> on a task whose function has ended.\<close>

lemma base_finish:
  assumes base: "base_inv c U X F R E s" and p: "p \<in> F" and R0: "0 < R p"
  shows "\<exists>s' rs. kupl_task_finish p s = Some s' \<and>
    base_inv c (U - {p}) ((X - {p}) \<union> set rs) (F - {p}) (R(p := R p - 1)) (E - {p} \<times> UNIV) s' \<and>
    distinct rs \<and> set rs \<subseteq> U \<and> set rs = {q \<in> U. 0 < npred s q \<and> npred s' q = 0} \<and>
    gr_pool s' = gr_pool s @ rs \<and> gr_counts s' c = gr_counts s c + of_nat (length rs) - 1 \<and> gr_hash s' = gr_hash s"
proof -
  let ?U = "U - {p}" and ?F = "F - {p}" and ?E = "E - {p} \<times> UNIV"
  note sets = base_sets[OF base]
  have pX: "p \<in> X" "p \<in> U" using p sets by auto
  obtain t where t: "gr_heap s p = Some t" "task_ok c t" using base_live[OF base pX(2)] by blast
  have noE: "\<forall>x. (x, p) \<notin> E" using base_X_no_edge[OF base pX(1)] by blast
  have sp: "store_task p t s = s" using t(1) by (simp add: store_task_def fun_upd_idem)
  have st: "tk_kind t AND KUPL_TASK_KIND_STATIC_MASK = 0" "tk_kind t AND KUPL_TASK_KIND_DYNAMIC_MASK \<noteq> 0"
    "tb_flag (tk_tb t) AND KUPL_TB_FLAG_REUSE = 0" "tb_count (tk_tb t) = Some c"
    using t(2) by (simp_all add: task_ok_def task_kinds)
  let ?qs = "succs s p"
  have qs: "gn_successors (tk_gnode t) = ?qs" using t(1) by (simp add: succs_def)
  have qU: "q \<in> set ?qs \<Longrightarrow> q \<in> ?U" for q using base_edge[OF base, of p q] noE pX sets by auto
  have le: "count_list ?qs q \<le> npred s q" if "q \<in> U" for q
    using base_npred[OF base that] pX(2) sets member_le_sum[of p U "\<lambda>y. count_list (succs s y) q"] by simp
  have "\<forall>q\<in>set ?qs. gr_heap s q \<noteq> None \<and> count_list ?qs q \<le> npred s q"
    using qU le base_live[OF base] by fastforce
  from release_loop_spec[OF this] obtain rs s1 where 1: "release_loop ?qs s = Some (rs, s1)"
    "set rs = {q \<in> set ?qs. npred s q = count_list ?qs q}" "distinct rs"
    "\<forall>x. npred s1 x = npred s x - count_list ?qs x" "keeps s s1" by blast
  have rel: "\<exists>u. gr_heap s1 x = Some u \<and> tk_tb u = tk_tb v \<and> tk_kind u = tk_kind v" if "gr_heap s x = Some v" for x v
    using map_option_some[OF 1(5)[unfolded keeps_def, THEN conjunct2, THEN conjunct2, THEN conjunct2, rule_format, of x] that]
    by auto
  have none: "gr_heap s1 x = None" if "gr_heap s x = None" for x
    using 1(5) that unfolding keeps_def by (metis (no_types, lifting) map_option_is_None)
  have S1: "succs s1 = succs s" and r1: "rest s1 = rest s" and al1: "gr_alloc s1 = gr_alloc s" using 1(5) by (simp_all add: keeps_def)
  have N1: "npred s1 x = (\<Sum>y\<in>?U. count_list (succs s y) x)" if "x \<in> ?U" for x
    using base_npred[OF base, of x] that sets pX(2) 1(4) by (simp add: sum.remove[of U p])
  have base1: "base_inv c ?U (X - {p}) ?F R ?E s1"
    unfolding base_inv_def
  proof (intro conjI ballI allI)
    fix x assume "x \<in> ?U"
    then obtain v where "gr_heap s x = Some v" "task_ok c v" using base_live[OF base] by blast
    then show "\<exists>u. gr_heap s1 x = Some u \<and> task_ok c u" using rel[of x v] by (auto simp: task_ok_def)
  next
    fix x
    show "ref_ok (x \<notin> ?U \<or> x \<in> ?F) (R x) (gr_heap s1 x)"
    proof (cases "gr_heap s x")
      case None
      then show ?thesis using none[OF None] base_ref_ok[OF base, of x] by simp
    next
      case (Some v)
      then show ?thesis using rel[OF Some] base_ref_ok[OF base, of x] p pX by auto
    qed
  next
    fix x y show "(x, y) \<in> ?E \<longleftrightarrow> x \<in> ?U \<and> y \<in> set (succs s1 x)" using base_edge[OF base] by (auto simp: S1)
  next
    fix x assume "x \<in> ?U" then show "npred s1 x = (\<Sum>y\<in>?U. count_list (succs s1 y) x)" using N1 by (simp add: S1)
  next
    fix x assume "x \<in> X - {p}" then show "npred s1 x = 0" using base_no_pred[OF base] 1(4) by simp
  qed (use sets al1 noE in auto)
  have rsU: "q \<in> set rs \<Longrightarrow> q \<in> ?U \<and> q \<notin> X \<and> npred s1 q = 0 \<and> 0 < npred s q" for q
    using 1(2,4) qU base_no_pred[OF base, of q] by (auto simp: count_list_0_iff neq0_conv[symmetric])
  have "\<forall>q\<in>set rs. q \<in> ?U \<and> q \<notin> ?F \<and> npred s1 q = 0" using rsU sets by blast
  from pool_add_all_spec[OF base1 this] obtain s2 where 2: "pool_add_all rs s1 = Some s2"
    "base_inv c ?U (set rs \<union> (X - {p})) ?F R ?E s2" "npred s2 = npred s1" "gr_hash s2 = gr_hash s1"
    "gr_pool s2 = gr_pool s1 @ rs" "gr_counts s2 c = gr_counts s1 c + of_nat (length rs)"
    "\<forall>x. x \<notin> set rs \<longrightarrow> gr_heap s2 x = gr_heap s1 x" by blast
  obtain t2 where t2: "gr_heap s2 p = Some t2" using base_refs[OF 2(2) R0] by blast
  let ?s3 = "s2\<lparr>gr_counts := kupl_tb_count_sub (gr_counts s2) (tk_tb t2)\<rparr>"
  have b3: "base_inv c ?U (set rs \<union> (X - {p})) ?F R ?E ?s3"
    using 2(2) by (simp add: base_inv_def npred_def[abs_def] succs_def[abs_def])
  have "p \<in> ?U \<longrightarrow> 1 < R p" by simp
  from base_deref[OF b3 R0 this] obtain s4 where 4: "kupl_gnode_deref (Some p) ?s3 = Some s4"
    "base_inv c ?U (set rs \<union> (X - {p})) ?F (R(p := R p - 1)) ?E s4" "\<forall>x\<in>?U. npred s4 x = npred ?s3 x"
    "rest s4 = rest ?s3" by blast
  have "p \<notin> set rs" using rsU by blast
  then have "gr_heap s1 p = Some t2" using 2(7) t2 by auto
  then have tk2: "tk_kind t2 = tk_kind t" "tb_count (tk_tb t2) = tb_count (tk_tb t)"
    using rel[OF t(1)] by auto
  have N3: "npred ?s3 = npred s2" by (simp add: npred_def fun_eq_iff)
  have al: "next_alloc s = (True, s)" using sets by (simp add: next_alloc_True)
  have call: "kupl_task_finish p s = Some s4"
    using 1(1) 2(1) 4(1) t2 st tk2
    by (simp add: kupl_task_finish_def load_task_def t(1) Let_def sp al gnode_release_ready_def qs
        kupl_gnode_deref_def)
  have h4: "gr_hash s4 = gr_hash s" using 4(4) 2(4) r1 by (simp add: rest_def)
  have b4: "base_inv c ?U ((X - {p}) \<union> set rs) ?F (R(p := R p - 1)) ?E s4"
    using 4(2) by (simp add: Un_commute)
  have "set rs = {q \<in> U. 0 < npred s q \<and> npred s4 q = 0}"
  proof (rule set_eqI)
    fix q
    have eq: "q \<in> ?U \<Longrightarrow> npred s4 q = npred s q - count_list ?qs q" using 4(3) 2(3) 1(4) by (simp add: N3)
    have "q \<in> set rs \<longleftrightarrow> q \<in> set ?qs \<and> npred s q = count_list ?qs q" unfolding 1(2) by blast
    also have "\<dots> \<longleftrightarrow> q \<in> ?U \<and> 0 < count_list ?qs q \<and> npred s q = count_list ?qs q"
      using qU by (metis count_list_0_iff gr0I less_irrefl)
    also have "\<dots> \<longleftrightarrow> q \<in> ?U \<and> 0 < npred s q \<and> npred s4 q = 0"
      using eq le[of q] by auto
    also have "\<dots> \<longleftrightarrow> q \<in> {q \<in> U. 0 < npred s q \<and> npred s4 q = 0}"
      using base_no_pred[OF base pX(1)] by auto
    finally show "q \<in> set rs \<longleftrightarrow> q \<in> {q \<in> U. 0 < npred s q \<and> npred s4 q = 0}" .
  qed
  moreover have "gr_counts s4 c = gr_counts s c + of_nat (length rs) - 1"
    using 4(4) 2(6) r1 tk2(2) st(4) by (simp add: rest_def kupl_tb_count_sub_def)
  moreover have "gr_pool s4 = gr_pool s @ rs" using 4(4) 2(5) r1 by (simp add: rest_def)
  ultimately show ?thesis using call 1(3) rsU h4 b4 by blast
qed

lemma task_released:
  assumes inv: "dag_inv c rank D U X F E s" and p: "p \<in> F"
  shows "\<exists>s' rs. kupl_task_finish p s = Some s' \<and>
    (\<exists>E'. dag_inv c rank D (U - {p}) ((X - {p}) \<union> set rs) (F - {p}) E' s') \<and>
    distinct rs \<and> set rs \<subseteq> U \<and> set rs = {q \<in> U. 0 < npred s q \<and> npred s' q = 0} \<and>
    gr_pool s' = gr_pool s @ rs \<and> gr_counts s' c = gr_counts s c + of_nat (length rs) - 1"
proof -
  let ?h = "gr_hash s" and ?R = "\<lambda>x. own U x + hash_refs (gr_hash s) x"
  let ?U = "U - {p}" and ?F = "F - {p}" and ?E = "E - {p} \<times> UNIV"
  have base: "base_inv c U X F ?R E s" and hash: "hash_ok D (U - F) E ?h" using inv by (simp_all add: dag_inv_def)
  have pX: "p \<in> X" "p \<in> U" using p base_sets[OF base] by auto
  have noE: "\<forall>x. (x, p) \<notin> E" using base_X_no_edge[OF base pX(1)] by blast
  obtain t where "gr_heap s p = Some t" using base_live[OF base pX(2)] by blast
  then have "0 < ?R p" using base_heap[OF base] by blast
  from base_finish[OF base p this] obtain s4 rs where 4: "kupl_task_finish p s = Some s4"
    "base_inv c ?U ((X - {p}) \<union> set rs) ?F (?R(p := ?R p - 1)) ?E s4"
    "distinct rs" "set rs \<subseteq> U" "set rs = {q \<in> U. 0 < npred s q \<and> npred s4 q = 0}"
    "gr_pool s4 = gr_pool s @ rs" "gr_counts s4 c = gr_counts s c + of_nat (length rs) - 1" and h4: "gr_hash s4 = ?h" by blast
  have "?R(p := ?R p - 1) = (\<lambda>x. own ?U x + hash_refs (gr_hash s4) x)" using pX(2) by (auto simp: h4)
  with 4(2) have b4: "base_inv c ?U ((X - {p}) \<union> set rs) ?F (\<lambda>x. own ?U x + hash_refs (gr_hash s4) x) ?E s4" by simp
  have NN: "?U - ?F = U - F" using p by auto
  have "hash_ok D (U - F) ?E ?h"
    using hash entry_ok_release[OF _ _ noE, of D "U - F"] p unfolding hash_ok_def by blast
  moreover have "\<forall>i\<in>U - F. \<forall>j\<in>?U. rank i < rank j \<and> conflict (D i) (D j) \<longrightarrow> (i, j) \<in> ?E\<^sup>+"
    using inv path_avoids[OF _ _ noE] p unfolding dag_inv_def by blast
  moreover have "\<forall>(i, j)\<in>?E. rank i < rank j" using inv unfolding dag_inv_def by blast
  ultimately have "dag_inv c rank D ?U ((X - {p}) \<union> set rs) ?F ?E s4"
    using b4 inv unfolding dag_inv_def NN h4 by blast
  then show ?thesis using 4 by blast
qed


section \<open>The invariant of a run\<close>

lemma base_marked:
  assumes base: "base_inv c U X F R E s" and p: "p \<in> X" "p \<notin> F"
  shows "\<exists>s'. task_mark_finished p s = Some s' \<and> base_inv c U X (insert p F) R E s' \<and>
    npred s' = npred s \<and> rest s' = rest s"
proof -
  have pU: "p \<in> U" using p base_sets[OF base] by auto
  obtain t where t: "gr_heap s p = Some t" "task_ok c t" using base_live[OF base pU] by blast
  let ?t = "t\<lparr>tk_tb := (tk_tb t)\<lparr>tb_state := tb_state (tk_tb t) OR KUPL_TB_STATE_FINISHED\<rparr>\<rparr>"
  let ?s = "store_task p ?t s"
  have S: "succs ?s = succs s" and N: "npred ?s = npred s"
    using t(1) by (auto simp: succs_def npred_def fun_eq_iff heap_store)
  have "\<forall>x\<in>U. \<exists>u. gr_heap ?s x = Some u \<and> task_ok c u"
    using base_live[OF base] t(2) by (simp add: heap_store task_ok_def)
  moreover have "ref_ok (x \<notin> U \<or> x \<in> insert p F) (R x) (gr_heap ?s x)" for x
    using base_ref_ok[OF base, of x] t(1) by (cases "x = p") (simp_all add: heap_store)
  ultimately have "base_inv c U X (insert p F) R E ?s"
    using base p(1) unfolding base_inv_def S N by simp
  moreover have "task_mark_finished p s = Some ?s" using t(1) by (simp add: task_mark_finished_def load_task_def)
  ultimately show ?thesis using N by auto
qed

lemma task_marked:
  assumes inv: "dag_inv c rank D U X F E s" and p: "p \<in> X" "p \<notin> F"
  shows "\<exists>s'. task_mark_finished p s = Some s' \<and> dag_inv c rank D U X (insert p F) E s' \<and>
    npred s' = npred s \<and> rest s' = rest s"
proof -
  have base: "base_inv c U X F (\<lambda>x. own U x + hash_refs (gr_hash s) x) E s" and hash: "hash_ok D (U - F) E (gr_hash s)"
    using inv by (simp_all add: dag_inv_def)
  from base_marked[OF base p] obtain s' where s': "task_mark_finished p s = Some s'"
    "base_inv c U X (insert p F) (\<lambda>x. own U x + hash_refs (gr_hash s) x) E s'" "npred s' = npred s" "rest s' = rest s" by blast
  have "hash_ok D (U - insert p F) E (gr_hash s)"
    using hash unfolding hash_ok_def entry_ok_def by blast
  moreover have "\<forall>i\<in>U - insert p F. \<forall>j\<in>U. rank i < rank j \<and> conflict (D i) (D j) \<longrightarrow> (i, j) \<in> E\<^sup>+"
    using inv unfolding dag_inv_def by blast
  moreover have h: "gr_hash s' = gr_hash s" using s'(4) by (simp add: rest_def)
  ultimately have "dag_inv c rank D U X (insert p F) E s'" using inv s'(2) unfolding dag_inv_def h by blast
  then show ?thesis using s' by blast
qed

definition pos :: "(ptr \<times> 'a) list \<Rightarrow> ptr \<Rightarrow> nat" where
  "pos log p = length (takeWhile (\<lambda>x. fst x \<noteq> p) log)"

definition deps_of :: "(ptr \<times> kupl_task_dep list) list \<Rightarrow> ptr \<Rightarrow> kupl_task_dep list" where
  "deps_of log p = (case map_of log p of None \<Rightarrow> [] | Some ds \<Rightarrow> ds)"

lemma pos_old: "p \<in> fst ` set log \<Longrightarrow> pos (log @ [x]) p = pos log p"
  by (force simp: pos_def takeWhile_append1)

lemma pos_less: "p \<in> fst ` set log \<Longrightarrow> pos log p < length log"
  by (induction log) (auto simp: pos_def)

lemma pos_new: "p \<notin> fst ` set log \<Longrightarrow> pos (log @ [(p, ds)]) p = length log"
proof -
  assume "p \<notin> fst ` set log"
  then have "takeWhile (\<lambda>x. fst x \<noteq> p) (log @ [(p, ds)]) = log" by (subst takeWhile_append2) auto
  then show ?thesis by (simp add: pos_def)
qed

lemma pos_nth: "distinct (map fst log) \<Longrightarrow> i < length log \<Longrightarrow> pos log (fst (log ! i)) = i"
proof (induction log arbitrary: i)
  case (Cons x log)
  then show ?case by (cases i) (auto simp: pos_def)
qed simp

lemma deps_of_new: "p \<notin> fst ` set log \<Longrightarrow> deps_of (log @ [(p, ds)]) = (deps_of log)(p := ds)"
proof -
  assume "p \<notin> fst ` set log"
  then have "map_of log p = None" by (simp add: map_of_eq_None_iff)
  then show ?thesis by (auto simp: deps_of_def map_of_append map_add_def fun_eq_iff split: option.splits)
qed

definition live_tasks :: "graph_event list \<Rightarrow> graph_run \<Rightarrow> ptr set" where
  "live_tasks evs r = fst ` set (rn_log r) - {p. Finish p \<in> set evs}"

definition scheduled :: "graph_run \<Rightarrow> ptr list" where
  "scheduled r = gr_pool (rn_state r) @ rn_running r @ rn_done r"

definition run_inv :: "ptr \<Rightarrow> graph_event list \<Rightarrow> graph_run \<Rightarrow> bool" where
  "run_inv c evs r \<longleftrightarrow>
     (\<exists>E. dag_inv c (pos (rn_log r)) (deps_of (rn_log r)) (live_tasks evs r) (set (scheduled r)) (set (rn_done r)) E (rn_state r)) \<and>
     (\<forall>x\<in>live_tasks evs r - set (scheduled r). 0 < npred (rn_state r) x) \<and>
     distinct (map fst (rn_log r)) \<and> distinct (scheduled r) \<and>
     gr_counts (rn_state r) c = of_nat (length (scheduled r)) \<and>
     (\<forall>p. Done p \<in> set evs \<longleftrightarrow> p \<in> set (rn_done r) \<or> Finish p \<in> set evs) \<and>
     {p. Finish p \<in> set evs} \<subseteq> fst ` set (rn_log r)"

lemma run_inv_init: "run_inv c [] graph_init"
  by (auto simp: run_inv_def graph_init_def dag_inv_def base_inv_def hash_ok_def live_tasks_def scheduled_def
      deps_of_def hash_refs_def intro!: exI[of _ "{}"])

lemma run_start:
  assumes inv: "run_inv c evs r" and p: "p \<in> set (gr_pool (rn_state r))"
  shows "\<exists>r'. graph_step env (Start p) r = Some r' \<and> run_inv c (evs @ [Start p]) r'"
proof -
  let ?s = "rn_state r"
  let ?r = "r\<lparr>rn_state := ?s\<lparr>gr_pool := remove1 p (gr_pool ?s)\<rparr>, rn_running := p # rn_running r\<rparr>"
  have ms: "mset (scheduled ?r) = mset (scheduled r)" using p by (simp add: scheduled_def)
  have s: "set (scheduled ?r) = set (scheduled r)" "length (scheduled ?r) = length (scheduled r)"
    "distinct (scheduled ?r) = distinct (scheduled r)"
    using mset_eq_setD[OF ms] mset_eq_length[OF ms] mset_eq_imp_distinct_iff[OF ms] by simp_all
  have l: "live_tasks (evs @ [Start p]) ?r = live_tasks evs r" by (simp add: live_tasks_def)
  have d: "dag_inv c rk D U X F E (?s\<lparr>gr_pool := q\<rparr>) = dag_inv c rk D U X F E ?s" for rk D U X F E q
    by (simp add: dag_inv_def base_inv_def npred_def[abs_def] succs_def[abs_def])
  have n: "npred (?s\<lparr>gr_pool := q\<rparr>) = npred ?s" for q by (simp add: npred_def fun_eq_iff)
  show ?thesis using inv unfolding run_inv_def graph_step.simps option.inject ex_simps(1) simp_thms(39)[of ?r, symmetric]
    by (intro exI[of _ ?r]) (simp add: run_inv_def s l d n)
qed

lemma run_done:
  assumes inv: "run_inv c evs r" and p: "p \<in> set (rn_running r)"
  shows "\<exists>r'. graph_step env (Done p) r = Some r' \<and> run_inv c (evs @ [Done p]) r'"
proof -
  let ?s = "rn_state r"
  obtain E where E: "dag_inv c (pos (rn_log r)) (deps_of (rn_log r)) (live_tasks evs r) (set (scheduled r)) (set (rn_done r)) E ?s"
    using inv by (auto simp: run_inv_def)
  have "p \<in> set (scheduled r)" "p \<notin> set (rn_done r)" using p inv by (auto simp: run_inv_def scheduled_def)
  from task_marked[OF E this] obtain s' where s': "task_mark_finished p ?s = Some s'"
    "dag_inv c (pos (rn_log r)) (deps_of (rn_log r)) (live_tasks evs r) (set (scheduled r)) (insert p (set (rn_done r))) E s'"
    "npred s' = npred ?s" "rest s' = rest ?s" by blast
  let ?r = "r\<lparr>rn_state := s', rn_running := remove1 p (rn_running r), rn_done := p # rn_done r\<rparr>"
  have ms: "mset (scheduled ?r) = mset (scheduled r)" using p s'(4) by (simp add: scheduled_def rest_def)
  have s: "set (scheduled ?r) = set (scheduled r)" "length (scheduled ?r) = length (scheduled r)"
    "distinct (scheduled ?r) = distinct (scheduled r)"
    using mset_eq_setD[OF ms] mset_eq_length[OF ms] mset_eq_imp_distinct_iff[OF ms] by simp_all
  have l: "live_tasks (evs @ [Done p]) ?r = live_tasks evs r" by (simp add: live_tasks_def)
  have c: "gr_counts s' = gr_counts ?s" using s'(4) by (simp add: rest_def)
  have "run_inv c (evs @ [Done p]) ?r"
    using inv s'(2) unfolding run_inv_def s l by (auto simp: s'(3) c)
  then show ?thesis using s'(1) by simp
qed


lemma run_finish:
  assumes inv: "run_inv c evs r" and p: "p \<in> set (rn_done r)"
  shows "\<exists>r'. graph_step env (Finish p) r = Some r' \<and> run_inv c (evs @ [Finish p]) r'"
proof -
  let ?s = "rn_state r" and ?U = "live_tasks evs r" and ?X = "set (scheduled r)"
  obtain E where E: "dag_inv c (pos (rn_log r)) (deps_of (rn_log r)) ?U ?X (set (rn_done r)) E ?s"
    using inv by (auto simp: run_inv_def)
  have base: "base_inv c ?U ?X (set (rn_done r)) (\<lambda>x. own ?U x + hash_refs (gr_hash ?s) x) E ?s"
    using E by (simp add: dag_inv_def)
  from task_released[OF E p] obtain s' rs E' where s': "kupl_task_finish p ?s = Some s'"
    "dag_inv c (pos (rn_log r)) (deps_of (rn_log r)) (?U - {p}) ((?X - {p}) \<union> set rs) (set (rn_done r) - {p}) E' s'"
    "distinct rs" "set rs \<subseteq> ?U" "set rs = {q \<in> ?U. 0 < npred ?s q \<and> npred s' q = 0}"
    "gr_pool s' = gr_pool ?s @ rs" "gr_counts s' c = gr_counts ?s c + of_nat (length rs) - 1" by blast
  let ?r = "r\<lparr>rn_state := s', rn_done := remove1 p (rn_done r)\<rparr>"
  have dist: "distinct (scheduled r)" using inv by (simp add: run_inv_def)
  have rsX: "set rs \<inter> ?X = {}" using s'(5) base_no_pred[OF base] by auto
  have pX: "p \<in> ?X" using p by (simp add: scheduled_def)
  have ms: "mset (scheduled ?r) + {#p#} = mset (scheduled r) + mset rs"
    using p s'(6) by (simp add: scheduled_def)
  have X: "set (scheduled ?r) = (?X - {p}) \<union> set rs" and dX: "distinct (scheduled ?r)"
    using dist p s'(3,6) rsX by (auto simp: scheduled_def)
  have "length (scheduled ?r) + 1 = length (scheduled r) + length rs"
    using arg_cong[OF ms, of size] by simp
  then have "(of_nat (length (scheduled ?r)) :: u32) = of_nat (length (scheduled r)) + of_nat (length rs) - 1"
    by (metis add_diff_cancel_right' of_nat_1 of_nat_add)
  then have cnt: "gr_counts s' c = of_nat (length (scheduled ?r))" using inv s'(7) by (simp add: run_inv_def)
  have l: "live_tasks (evs @ [Finish p]) ?r = ?U - {p}" by (auto simp: live_tasks_def)
  have d: "set (remove1 p (rn_done r)) = set (rn_done r) - {p}" using dist by (simp add: scheduled_def)
  have pend: "\<forall>x\<in>(?U - {p}) - ((?X - {p}) \<union> set rs). 0 < npred s' x"
    using inv s'(5) by (auto simp: run_inv_def)
  have pl: "p \<in> fst ` set (rn_log r)" using pX base_sets[OF base] by (auto simp: live_tasks_def)
  have "run_inv c (evs @ [Finish p]) ?r"
    unfolding run_inv_def l X
  proof (intro conjI)
    show "\<exists>E. dag_inv c (pos (rn_log ?r)) (deps_of (rn_log ?r)) (?U - {p}) (?X - {p} \<union> set rs) (set (rn_done ?r)) E (rn_state ?r)"
      using s'(2) by (auto simp: d)
    show "\<forall>q. (Done q \<in> set (evs @ [Finish p])) = (q \<in> set (rn_done ?r) \<or> Finish q \<in> set (evs @ [Finish p]))"
      using inv p by (auto simp: run_inv_def d)
  qed (use inv pend dX cnt pl in \<open>auto simp: run_inv_def\<close>)
  then show ?thesis using s'(1) by simp
qed

lemma run_submit:
  assumes env: "env_ok env" and inv: "run_inv (ge_count env) evs r" and en: "graph_enabled env (Submit p d deps) r"
  shows "\<exists>r'. graph_step env (Submit p d deps) r = Some r' \<and> run_inv (ge_count env) (evs @ [Submit p d deps]) r' \<and>
    rn_log r' = rn_log r @ [(p, desc_deps d deps)]"
proof -
  let ?c = "ge_count env" and ?s = "rn_state r" and ?U = "live_tasks evs r" and ?X = "set (scheduled r)"
    and ?F = "set (rn_done r)" and ?D = "deps_of (rn_log r)"
  let ?log = "rn_log r @ [(p, desc_deps d deps)]"
  obtain E where E: "dag_inv ?c (pos (rn_log r)) ?D ?U ?X ?F E ?s" using inv by (auto simp: run_inv_def)
  have pn: "p \<notin> fst ` set (rn_log r)" and hp: "gr_heap ?s p = None" using en by simp_all
  have "map_of (rn_log r) p = None" using pn by (simp add: map_of_eq_None_iff)
  then have D: "?D p = []" by (simp add: deps_of_def)
  obtain t where t: "kupl_task_init (graph_task_param env (task_desc_as_tb_desc (ge_pad env) d)) (ge_garbage env)
      (ge_cp env) (ge_lockok env) (Some p) ?s = Some (Some p, store_task p t ?s)"
    "task_ok ?c t" "tb_ref (tk_tb t) = 1" "\<not> kupl_tb_is_finished (tk_tb t)"
    "gn_successors (tk_gnode t) = []" "gn_n_predecessors (tk_gnode t) = 0" using fresh_task[OF env] .
  let ?s1 = "store_task p t ?s"
  note new = dag_new_task[OF E hp D t(2-)]
  have Ulog: "?U \<subseteq> fst ` set (rn_log r)" by (auto simp: live_tasks_def)
  have nf: "Finish p \<notin> set evs" using inv pn by (auto simp: run_inv_def)
  have l: "live_tasks (evs @ [Submit p d deps]) (r\<lparr>rn_state := s, rn_log := ?log\<rparr>) = insert p ?U" for s
    using nf by (auto simp: live_tasks_def)
  have rank: "\<forall>x\<in>insert p ?U. x \<noteq> p \<longrightarrow> pos ?log x = pos (rn_log r) x \<and> pos ?log x < pos ?log p"
    using Ulog pos_old pos_less pos_new[OF pn] by (metis insertE subsetD)
  have base: "base_inv ?c ?U ?X ?F (\<lambda>x. own ?U x + hash_refs (gr_hash ?s) x) E ?s" using E by (simp add: dag_inv_def)
  have pX: "p \<notin> ?X" "p \<notin> ?F" using new(3) base_sets[OF base] by auto
  have inv1: "dag_inv ?c (pos ?log) ?D (insert p ?U) ?X ?F E ?s1"
  proof -
    have "base_inv ?c (insert p ?U) ?X ?F (\<lambda>x. own (insert p ?U) x + hash_refs (gr_hash ?s1) x) E ?s1"
      using new(1) by (simp add: dag_inv_def)
    then have np: "(x, p) \<notin> E \<and> (p, x) \<notin> E" for x using base_sets[OF base] new(3) by auto
    define rk where "rk = (\<lambda>x. if x = p then length (rn_log r) else pos (rn_log r) x)"
    have "dag_inv ?c rk ?D ?U ?X ?F E ?s" using dag_inv_rank[OF E] new(3) by (simp add: rk_def)
    from dag_new_task(1)[OF this hp D t(2-)] show ?thesis
      by (rule dag_inv_rank) (use rank pos_new[OF pn] in \<open>simp add: rk_def\<close>)
  qed
  have sub: "submitting (pos ?log) (insert p ?U) ?X p" using rank pX unfolding submitting_def by blast
  have h1: "gr_hash ?s1 = gr_hash ?s" by (simp add: store_task_def)
  have pre: "\<exists>s2. (if kd_field_mask d AND KUPL_TASK_DESC_FIELD_DEP \<noteq> 0
        then kupl_dag_add_task p deps ?s1 = Some (if npred s2 p = 0 then KUPL_DAG_TASK_READY else KUPL_DAG_TASK_NOT_READY, s2)
        else s2 = ?s1) \<and>
      (\<exists>E. dag_inv ?c (pos ?log) (?D(p := desc_deps d deps)) (insert p ?U) ?X ?F E s2) \<and> same_sched ?s s2 \<and>
      frame p ?s1 s2 \<and> (kd_field_mask d AND KUPL_TASK_DESC_FIELD_DEP = 0 \<longrightarrow> npred s2 p = 0)"
  proof (cases "kd_field_mask d AND KUPL_TASK_DESC_FIELD_DEP = 0")
    case True
    have "?D(p := []) = ?D" using D by auto
    then show ?thesis using True inv1 new(2)
      by (intro exI[of _ ?s1]) (auto simp: desc_deps_def same_sched_def store_task_def)
  next
    case False
    have "deps_ok deps" "int (link_total (gr_hash ?s1) + 3 * length deps + 3) < int (2 ^ 32)" using en False h1 by simp_all
    then have "deps_ok deps" "link_total (gr_hash ?s1) + 3 * length deps + 3 < 2 ^ 32" unfolding of_nat_less_iff by simp_all
    from task_added[OF inv1 sub D this(1) new(2) this(2)] obtain s2 where s2:
      "kupl_dag_add_task p deps ?s1 = Some (if npred s2 p = 0 then KUPL_DAG_TASK_READY else KUPL_DAG_TASK_NOT_READY, s2)"
      "\<exists>E. dag_inv ?c (pos ?log) (?D(p := eff_deps deps)) (insert p ?U) ?X ?F E s2" "same_sched ?s1 s2" by blast
    then show ?thesis using False frame_add[OF s2(1)]
      by (intro exI[of _ s2]) (simp add: desc_deps_def same_sched_def store_task_def)
  qed
  then obtain s2 E2 where s2: "if kd_field_mask d AND KUPL_TASK_DESC_FIELD_DEP \<noteq> 0
        then kupl_dag_add_task p deps ?s1 = Some (if npred s2 p = 0 then KUPL_DAG_TASK_READY else KUPL_DAG_TASK_NOT_READY, s2)
        else s2 = ?s1"
      "dag_inv ?c (pos ?log) (?D(p := desc_deps d deps)) (insert p ?U) ?X ?F E2 s2" "same_sched ?s s2"
      "frame p ?s1 s2" "kd_field_mask d AND KUPL_TASK_DESC_FIELD_DEP = 0 \<longrightarrow> npred s2 p = 0" by blast
  have base2: "base_inv ?c (insert p ?U) ?X ?F (\<lambda>x. own (insert p ?U) x + hash_refs (gr_hash s2) x) E2 s2"
    using s2(2) by (simp add: dag_inv_def)
  have N: "npred s2 x = npred ?s x" if "x \<in> ?U" for x
  proof -
    have "x \<noteq> p" using that new(3) by blast
    then have "npred s2 x = npred ?s1 x"
      using frame_npred[OF s2(4)] base_live[OF base2 insertI2[OF that]] by (metis option.distinct(1))
    also have "\<dots> = npred ?s x" by (rule new(4)[rule_format, OF that])
    finally show ?thesis .
  qed
  have pend: "0 < npred s2 x" if "x \<in> ?U" "x \<notin> ?X" for x
    using N[OF that(1)] that inv unfolding run_inv_def by auto
  have call: "kupl_graph_add_task env True (Some d) deps (Some p) ?s =
      (if npred s2 p = 0 then do { s \<leftarrow> pool_add p s2; Some (KUPL_OK, s) } else Some (KUPL_OK, s2))"
  proof -
    obtain f where e: "kd_func d = Some f" "ge_geid env \<noteq> -1"
      "kd_field_mask d AND KUPL_TASK_DESC_FIELD_DEP \<noteq> 0 \<Longrightarrow> \<not> (kd_ndep d \<noteq> 0 \<and> kd_dep_list d = None)"
      using en env by (auto simp: env_ok_def)
    show ?thesis
    proof (cases "kd_field_mask d AND KUPL_TASK_DESC_FIELD_DEP = 0")
      case True
      then have "s2 = ?s1" "npred s2 p = 0" using s2(1,5) by simp_all
      then show ?thesis using e(1,2) True by (simp add: kupl_graph_add_task_def t(1))
    next
      case False
      then have "kupl_dag_add_task p deps ?s1 =
          Some (if npred s2 p = 0 then KUPL_DAG_TASK_READY else KUPL_DAG_TASK_NOT_READY, s2)" using s2(1) by simp
      then show ?thesis using e(1,2) e(3)[OF False] False
        by (auto simp: kupl_graph_add_task_def t(1) KUPL_DAG_TASK_READY_def KUPL_DAG_TASK_NOT_READY_def KUPL_ERROR_def)
    qed
  qed
  have Dn: "deps_of ?log = ?D(p := desc_deps d deps)" by (rule deps_of_new[OF pn])
  show ?thesis
  proof (cases "npred s2 p = 0")
    case False
    let ?r = "r\<lparr>rn_state := s2, rn_log := ?log\<rparr>"
    have "graph_step env (Submit p d deps) r = Some ?r" using False by (simp add: call)
    moreover have X: "scheduled ?r = scheduled r" using s2(3) by (simp add: scheduled_def same_sched_def)
    have "run_inv ?c (evs @ [Submit p d deps]) ?r"
      unfolding run_inv_def l X
    proof (intro conjI)
      show "\<exists>E. dag_inv ?c (pos (rn_log ?r)) (deps_of (rn_log ?r)) (insert p ?U) ?X (set (rn_done ?r)) E (rn_state ?r)"
        using s2(2) by (auto simp: Dn)
      show "\<forall>x\<in>insert p ?U - ?X. 0 < npred (rn_state ?r) x" using False pend by auto
    qed (use inv pn s2(3) in \<open>auto simp: run_inv_def same_sched_def\<close>)
    ultimately show ?thesis by simp
  next
    case True
    from base_pool_add[OF base2 _ pX(2) True] obtain s3 where s3: "pool_add p s2 = Some s3"
      "base_inv ?c (insert p ?U) (insert p ?X) ?F (\<lambda>x. own (insert p ?U) x + hash_refs (gr_hash s2) x) E2 s3"
      "npred s3 = npred s2" "gr_hash s3 = gr_hash s2" "gr_pool s3 = gr_pool s2 @ [p]"
      "gr_counts s3 = (gr_counts s2)(?c := gr_counts s2 ?c + 1)" by blast
    let ?r = "r\<lparr>rn_state := s3, rn_log := ?log\<rparr>"
    have "graph_step env (Submit p d deps) r = Some ?r" using True by (simp add: call s3(1))
    moreover have ms: "mset (scheduled ?r) = add_mset p (mset (scheduled r))"
      using s3(5) s2(3) by (simp add: scheduled_def same_sched_def)
    have X: "set (scheduled ?r) = insert p ?X" and len: "length (scheduled ?r) = length (scheduled r) + 1"
      using arg_cong[OF ms, of set_mset] arg_cong[OF ms, of size] by simp_all
    have dist: "distinct (scheduled ?r)"
      using mset_eq_imp_distinct_iff[of "scheduled ?r" "p # scheduled r"] ms pX(1) inv by (simp add: run_inv_def)
    have d3: "dag_inv ?c (pos ?log) (?D(p := desc_deps d deps)) (insert p ?U) (insert p ?X) ?F E2 s3"
      using s2(2) s3(2) unfolding dag_inv_def s3(4) by blast
    have "run_inv ?c (evs @ [Submit p d deps]) ?r"
      unfolding run_inv_def l X len
    proof (intro conjI)
      show "\<exists>E. dag_inv ?c (pos (rn_log ?r)) (deps_of (rn_log ?r)) (insert p ?U) (insert p ?X) (set (rn_done ?r)) E (rn_state ?r)"
        using d3 by (auto simp: Dn)
      show "\<forall>x\<in>insert p ?U - insert p ?X. 0 < npred (rn_state ?r) x" using pend by (auto simp: s3(3))
      show "gr_counts (rn_state ?r) ?c = of_nat (length (scheduled r) + 1)"
        using inv s2(3) s3(6) by (simp add: run_inv_def same_sched_def)
    qed (use inv pn dist in \<open>auto simp: run_inv_def\<close>)
    ultimately show ?thesis by simp
  qed
qed

end
