(* ===== verification/Kupl_Event_System.thy ===== *)
theory Kupl_Event_System
  imports Main
begin

text \<open>
  Runs of a concurrent component, as the runs of graphs and of queues use them: events that are enabled in
  some states, a step for each event that may fail, and the sequences of enabled events.  An invariant may
  speak of the events so far.  A component whose executors always have a step left, and only finitely many,
  can bring every run to an end.
\<close>

locale event_system =
  fixes enabled :: "'e \<Rightarrow> 's \<Rightarrow> bool"
    and step :: "'e \<Rightarrow> 's \<Rightarrow> 's option"
    and run :: "'e list \<Rightarrow> 's \<Rightarrow> 's option"
    and inv :: "'e list \<Rightarrow> 's \<Rightarrow> bool"
  assumes run_no_event: "run [] s = Some s"
    and run_event: "run (e # es) s = (if enabled e s then Option.bind (step e s) (run es) else None)"
    and inv_step: "inv es s \<Longrightarrow> enabled e s \<Longrightarrow> \<exists>s'. step e s = Some s' \<and> inv (es @ [e]) s'"
begin

lemma runs_append: "run (es @ fs) s = Option.bind (run es s) (run fs)"
  by (induction es arbitrary: s) (auto simp: run_no_event run_event split: Option.bind_split)

lemma runs_snoc: "run (es @ [e]) s = Some s'' \<longleftrightarrow> (\<exists>s'. run es s = Some s' \<and> enabled e s' \<and> step e s' = Some s'')"
  by (auto simp: runs_append run_no_event run_event split: Option.bind_splits if_splits)

lemma runs_inv: "run fs s = Some s' \<Longrightarrow> inv es s \<Longrightarrow> inv (es @ fs) s'"
proof (induction fs arbitrary: es s)
  case Nil
  then show ?case by (simp add: run_no_event)
next
  case (Cons e fs)
  then obtain s1 where s1: "enabled e s" "step e s = Some s1" "run fs s1 = Some s'"
    by (auto simp: run_event split: if_splits Option.bind_splits)
  then have "inv (es @ [e]) s1" using inv_step[OF Cons.prems(2) s1(1)] by simp
  then show ?case using Cons.IH[OF s1(3), of "es @ [e]"] by simp
qed

end

locale ending_system = event_system +
  fixes executor :: "'e \<Rightarrow> bool"
    and left :: "'e list \<Rightarrow> 's \<Rightarrow> nat"
    and finished :: "'e list \<Rightarrow> 's \<Rightarrow> bool"
  assumes can_step: "inv es s \<Longrightarrow> \<not> finished es s \<Longrightarrow> \<exists>e. enabled e s \<and> executor e"
    and fewer_left: "inv es s \<Longrightarrow> \<not> finished es s \<Longrightarrow> enabled e s \<Longrightarrow> executor e \<Longrightarrow> step e s = Some s' \<Longrightarrow>
      left (es @ [e]) s' < left es s"
begin

lemma runs_complete:
  "inv es s \<Longrightarrow> \<exists>fs s'. run fs s = Some s' \<and> (\<forall>e\<in>set fs. executor e) \<and> length fs \<le> left es s \<and> finished (es @ fs) s'"
proof (induction "left es s" arbitrary: es s rule: less_induct)
  case less
  show ?case
  proof (cases "finished es s")
    case True
    then show ?thesis by (intro exI[of _ "[]"] exI[of _ s]) (simp add: run_no_event)
  next
    case False
    obtain e where e: "enabled e s" "executor e" using can_step[OF less.prems False] by blast
    obtain s1 where s1: "step e s = Some s1" "inv (es @ [e]) s1" using inv_step[OF less.prems e(1)] by blast
    note lt = fewer_left[OF less.prems False e s1(1)]
    from less.hyps[OF lt s1(2)] obtain fs s' where "run fs s1 = Some s'" "\<forall>e\<in>set fs. executor e"
      "length fs \<le> left (es @ [e]) s1" "finished ((es @ [e]) @ fs) s'" by blast
    then show ?thesis using lt e s1(1) by (intro exI[of _ "e # fs"] exI[of _ s']) (auto simp: run_event)
  qed
qed

end

end
