(* ===== verification/Kupl_Graph_Safety.thy ===== *)
theory Kupl_Graph_Safety
  imports Kupl_Graph_Run Kupl_Event_System
begin

text \<open>
  What the invariant of Kupl\_Graph\_Run gives for every run of a graph: each event succeeds and
  happens once, a task starts only after the tasks it depends on, a run can always be completed, and
  when the count is 0 every task was executed.
\<close>

section \<open>Every reachable state has the invariant\<close>

lemma run_step:
  assumes "env_ok env" and "run_inv (ge_count env) evs r" and "graph_enabled env e r"
  shows "\<exists>r'. graph_step env e r = Some r' \<and> run_inv (ge_count env) (evs @ [e]) r'"
proof (cases e)
  case (Submit p d deps)
  then show ?thesis using run_submit[OF assms(1,2), of p d deps] assms(3) by auto
qed (use run_start[OF assms(2)] run_done[OF assms(2)] run_finish[OF assms(2)] assms(3) in \<open>simp_all del: graph_step.simps\<close>)

text \<open>The log of the submissions, and what the events say about the lists.\<close>

fun submit_of :: "graph_event \<Rightarrow> (ptr \<times> kupl_task_dep list) list" where
  "submit_of (Submit p d deps) = [(p, desc_deps d deps)]"
| "submit_of _ = []"

definition hist_inv :: "graph_event list \<Rightarrow> graph_run \<Rightarrow> bool" where
  "hist_inv evs r \<longleftrightarrow> distinct evs \<and> rn_log r = concat (map submit_of evs) \<and>
     (\<forall>p. Start p \<in> set evs \<longleftrightarrow> p \<in> set (rn_running r) \<or> Done p \<in> set evs)"

lemma log_submit: "(p, ds) \<in> set (concat (map submit_of evs)) \<longleftrightarrow> (\<exists>d deps. Submit p d deps \<in> set evs \<and> ds = desc_deps d deps)"
proof -
  have "(p, ds) \<in> set (submit_of e) \<longleftrightarrow> (\<exists>d deps. e = Submit p d deps \<and> ds = desc_deps d deps)" for e
    by (cases e) auto
  then show ?thesis by auto
qed

lemma run_inv_base:
  assumes "run_inv c evs r"
  obtains E where "dag_inv c (pos (rn_log r)) (deps_of (rn_log r)) (live_tasks evs r) (set (scheduled r)) (set (rn_done r)) E (rn_state r)"
    "base_inv c (live_tasks evs r) (set (scheduled r)) (set (rn_done r))
      (\<lambda>x. own (live_tasks evs r) x + hash_refs (gr_hash (rn_state r)) x) E (rn_state r)"
  using assms by (auto simp: run_inv_def dag_inv_def)

lemma scheduled_live:
  assumes "run_inv c evs r" and "p \<in> set (scheduled r)"
  shows "Finish p \<notin> set evs" "p \<in> fst ` set (rn_log r)"
proof -
  from run_inv_base[OF assms(1)] base_sets have "set (scheduled r) \<subseteq> live_tasks evs r" by metis
  then show "Finish p \<notin> set evs" "p \<in> fst ` set (rn_log r)" using assms(2) by (auto simp: live_tasks_def)
qed

lemma hist_step:
  assumes env: "env_ok env" and inv: "run_inv (ge_count env) evs r" and hist: "hist_inv evs r"
    and en: "graph_enabled env e r" and st: "graph_step env e r = Some r'"
  shows "hist_inv (evs @ [e]) r'"
proof (cases e)
  case (Submit p d deps)
  have "graph_enabled env (Submit p d deps) r" using en Submit by simp
  from run_submit[OF env inv this] st Submit have l: "rn_log r' = rn_log r @ [(p, desc_deps d deps)]" by auto
  have "p \<notin> fst ` set (rn_log r)" using en Submit by simp
  then have "e \<notin> set evs" using hist log_submit[of p "desc_deps d deps" evs] Submit by (force simp: hist_inv_def)
  moreover have "rn_running r' = rn_running r" using st Submit by (auto split: bind_splits)
  ultimately show ?thesis using hist l Submit by (simp add: hist_inv_def)
next
  case (Start p)
  then have p: "p \<in> set (gr_pool (rn_state r))" using en by simp
  have d: "distinct (scheduled r)" and D: "\<And>p. Done p \<in> set evs \<longleftrightarrow> p \<in> set (rn_done r) \<or> Finish p \<in> set evs"
    using inv by (auto simp: run_inv_def)
  have "p \<in> set (scheduled r)" using p by (simp add: scheduled_def)
  note scheduled_live(1)[OF inv this]
  moreover have "p \<notin> set (rn_running r)" "p \<notin> set (rn_done r)" using d p by (auto simp: scheduled_def)
  ultimately have "p \<notin> set (rn_running r)" "\<not> Done p \<in> set evs" using D[of p] by simp_all
  then have "e \<notin> set evs" using hist Start by (simp add: hist_inv_def)
  moreover have "rn_running r' = p # rn_running r" "rn_log r' = rn_log r" using st Start by auto
  ultimately show ?thesis using hist Start unfolding hist_inv_def by simp
next
  case (Done p)
  then have p: "p \<in> set (rn_running r)" using en by simp
  have d: "distinct (scheduled r)" and D: "\<And>p. Done p \<in> set evs \<longleftrightarrow> p \<in> set (rn_done r) \<or> Finish p \<in> set evs"
    using inv by (auto simp: run_inv_def)
  have "p \<in> set (scheduled r)" using p by (simp add: scheduled_def)
  then have "e \<notin> set evs" using d D[of p] p scheduled_live[OF inv] Done by (auto simp: scheduled_def)
  moreover have "set (rn_running r') = set (rn_running r) - {p}" "rn_log r' = rn_log r"
    using st Done d by (auto simp: scheduled_def split: bind_splits)
  ultimately show ?thesis using hist Done p unfolding hist_inv_def by simp blast
next
  case (Finish p)
  then have p: "p \<in> set (scheduled r)" using en by (simp add: scheduled_def)
  then have "e \<notin> set evs" using scheduled_live[OF inv] Finish by simp
  moreover have "rn_running r' = rn_running r" "rn_log r' = rn_log r" using st Finish by (auto split: bind_splits)
  ultimately show ?thesis using hist Finish unfolding hist_inv_def by simp
qed

interpretation graph_runs: event_system "graph_enabled env" "graph_step env" "graph_run_events env"
    "\<lambda>evs r. env_ok env \<and> run_inv (ge_count env) evs r \<and> hist_inv evs r" for env
proof
  show "\<exists>s'. graph_step env e s = Some s' \<and> env_ok env \<and> run_inv (ge_count env) (es @ [e]) s' \<and> hist_inv (es @ [e]) s'"
    if "env_ok env \<and> run_inv (ge_count env) es s \<and> hist_inv es s" "graph_enabled env e s" for es s e
    using run_step[of env es s e] hist_step[of env es s e] that by blast
qed simp_all

lemma run_append:
  "graph_run_events env (es @ fs) r = Option.bind (graph_run_events env es r) (graph_run_events env fs)"
  by (rule graph_runs.runs_append)

lemma run_snoc:
  "graph_run_events env (es @ [e]) r = Some r'' \<longleftrightarrow>
     (\<exists>r'. graph_run_events env es r = Some r' \<and> graph_enabled env e r' \<and> graph_step env e r' = Some r'')"
  by (rule graph_runs.runs_snoc)

lemma run_reach:
  assumes env: "env_ok env" and run: "graph_run_events env evs graph_init = Some r"
  shows "run_inv (ge_count env) evs r \<and> hist_inv evs r"
proof -
  have "hist_inv [] graph_init" by (simp add: hist_inv_def graph_init_def)
  then show ?thesis using graph_runs.runs_inv[OF run, of "[]"] env run_inv_init by simp
qed

section \<open>Consequences of the invariant\<close>

text \<open>A task without open predecessors has nothing left that it depends on.\<close>

lemma ready_deps_done:
  assumes inv: "run_inv c evs r" and hist: "hist_inv evs r" and q: "q \<in> set (scheduled r)"
    and log: "rn_log r = xs @ (p, ds) # ys @ (q, es) # zs" and cf: "conflict ds es"
  shows "Done p \<in> set evs"
proof (rule ccontr)
  assume nd: "Done p \<notin> set evs"
  obtain E where E: "dag_inv c (pos (rn_log r)) (deps_of (rn_log r)) (live_tasks evs r) (set (scheduled r)) (set (rn_done r)) E (rn_state r)"
    and base: "base_inv c (live_tasks evs r) (set (scheduled r)) (set (rn_done r))
      (\<lambda>x. own (live_tasks evs r) x + hash_refs (gr_hash (rn_state r)) x) E (rn_state r)"
    using run_inv_base[OF inv] .
  have dist: "distinct (map fst (rn_log r))" using inv by (simp add: run_inv_def)
  have D: "Done p \<in> set evs \<longleftrightarrow> p \<in> set (rn_done r) \<or> Finish p \<in> set evs" using inv by (simp add: run_inv_def)
  have pU: "p \<in> live_tasks evs r - set (rn_done r)" using nd D log by (auto simp: live_tasks_def)
  have qU: "q \<in> live_tasks evs r" using base_sets[OF base] q by blast
  have "pos (rn_log r) p = length xs" "pos (rn_log r) q = length (xs @ (p, ds) # ys)"
    using pos_nth[OF dist, of "length xs"] pos_nth[OF dist, of "length (xs @ (p, ds) # ys)"]
    by (simp_all add: log nth_append)
  then have "pos (rn_log r) p < pos (rn_log r) q" by simp
  moreover have "deps_of (rn_log r) p = ds" "deps_of (rn_log r) q = es"
  proof -
    have "map_of (rn_log r) p = Some ds" "map_of (rn_log r) q = Some es"
      using dist by (intro map_of_is_SomeI, simp, simp add: log)+
    then show "deps_of (rn_log r) p = ds" "deps_of (rn_log r) q = es" by (simp_all add: deps_of_def)
  qed
  ultimately have "(p, q) \<in> E\<^sup>+" using E pU qU cf unfolding dag_inv_def by blast
  then obtain y where "(y, q) \<in> E" by (metis tranclE)
  then show False using base_X_no_edge[OF base q] by blast
qed

text \<open>While a task is unfinished there is one that is handed out.\<close>

lemma live_scheduled:
  assumes inv: "run_inv c evs r" and p: "p \<in> live_tasks evs r"
  shows "scheduled r \<noteq> []"
proof
  assume n: "scheduled r = []"
  obtain E where E: "dag_inv c (pos (rn_log r)) (deps_of (rn_log r)) (live_tasks evs r) (set (scheduled r)) (set (rn_done r)) E (rn_state r)"
    and base: "base_inv c (live_tasks evs r) (set (scheduled r)) (set (rn_done r))
      (\<lambda>x. own (live_tasks evs r) x + hash_refs (gr_hash (rn_state r)) x) E (rn_state r)"
    using run_inv_base[OF inv] .
  obtain x where x: "x \<in> live_tasks evs r" "\<forall>y\<in>live_tasks evs r. pos (rn_log r) x \<le> pos (rn_log r) y"
    using p ex_min_if_finite[of "pos (rn_log r) ` live_tasks evs r"] base_sets[OF base] by force
  have "0 < npred (rn_state r) x" using inv x(1) n by (simp add: run_inv_def)
  then obtain y where y: "(y, x) \<in> E" using base_npred_0[OF base x(1)] by auto
  then have "pos (rn_log r) y < pos (rn_log r) x" using E unfolding dag_inv_def by blast
  moreover have "y \<in> live_tasks evs r" using y base_sets[OF base] by blast
  ultimately show False using x(2) by fastforce
qed

lemma log_length: "length (concat (map submit_of evs)) \<le> length evs"
proof (induction evs)
  case (Cons e evs)
  then show ?case by (cases e) auto
qed simp

lemma scheduled_length:
  assumes inv: "run_inv c evs r" and hist: "hist_inv evs r"
  shows "length (scheduled r) \<le> length evs"
proof -
  have "set (scheduled r) \<subseteq> set (map fst (rn_log r))" using scheduled_live(2)[OF inv] by auto
  then have "card (set (scheduled r)) \<le> card (set (map fst (rn_log r)))" by (rule card_mono[OF finite_set])
  also have "\<dots> \<le> length (rn_log r)" using card_length[of "map fst (rn_log r)"] by simp
  also have "\<dots> \<le> length evs" using hist log_length by (simp add: hist_inv_def)
  finally show ?thesis using inv by (simp add: run_inv_def distinct_card)
qed

lemma count_scheduled:
  assumes "run_inv c evs r" "hist_inv evs r" "length evs < 2 ^ 32"
  shows "gr_counts (rn_state r) c = 0 \<longleftrightarrow> scheduled r = []"
proof -
  have "gr_counts (rn_state r) c = of_nat (length (scheduled r))" using assms(1) by (simp add: run_inv_def)
  moreover have "length (scheduled r) < 2 ^ 32" using scheduled_length[OF assms(1,2)] assms(3) by simp
  ultimately show ?thesis by (simp add: word_unat_eq_iff unat_of_nat)
qed

text \<open>Every task goes through its four events in this order.\<close>

lemma finished_events:
  assumes "run_inv c evs r" "hist_inv evs r" "Finish p \<in> set evs"
  shows "Done p \<in> set evs" "Start p \<in> set evs"
proof -
  show "Done p \<in> set evs" using assms(1,3) unfolding run_inv_def by blast
  then show "Start p \<in> set evs" using assms(2) unfolding hist_inv_def by blast
qed

section \<open>Progress\<close>

definition execution :: "graph_event list \<Rightarrow> bool" where
  "execution es = list_all (\<lambda>e. submit_of e = []) es"

lemma live_progress:
  assumes inv: "run_inv c evs r" and p: "p \<in> live_tasks evs r"
  shows "\<exists>e. execution [e] \<and> graph_enabled env e r"
proof -
  have "scheduled r \<noteq> []" by (rule live_scheduled[OF inv p])
  then obtain q where "q \<in> set (gr_pool (rn_state r)) \<or> q \<in> set (rn_running r) \<or> q \<in> set (rn_done r)"
    unfolding scheduled_def by (metis UnE last_in_set set_append)
  then have "graph_enabled env (Start q) r \<or> graph_enabled env (Done q) r \<or> graph_enabled env (Finish q) r" by simp
  moreover have "execution [Start q]" "execution [Done q]" "execution [Finish q]" by (simp_all add: execution_def)
  ultimately show ?thesis by blast
qed

text \<open>Each submitted task gives three events.\<close>

lemma execution_events:
  assumes inv: "run_inv c evs r" and hist: "hist_inv evs r" and e: "e \<in> set evs" "submit_of e = []"
  shows "e \<in> (\<Union>p\<in>fst ` set (rn_log r). {Start p, Done p, Finish p})"
proof -
  have fin: "Finish p \<in> set evs \<Longrightarrow> p \<in> fst ` set (rn_log r)" for p using inv unfolding run_inv_def by blast
  have don: "Done p \<in> set evs \<Longrightarrow> p \<in> fst ` set (rn_log r)" for p
  proof -
    assume "Done p \<in> set evs"
    then have "p \<in> set (rn_done r) \<or> Finish p \<in> set evs" using inv unfolding run_inv_def by blast
    then show ?thesis using fin scheduled_live(2)[OF inv, of p] by (auto simp: scheduled_def)
  qed
  have st: "Start p \<in> set evs \<Longrightarrow> p \<in> fst ` set (rn_log r)" for p
  proof -
    assume "Start p \<in> set evs"
    then have "p \<in> set (rn_running r) \<or> Done p \<in> set evs" using hist unfolding hist_inv_def by blast
    then show ?thesis using don scheduled_live(2)[OF inv, of p] by (auto simp: scheduled_def)
  qed
  show ?thesis
  proof (cases e)
    case (Start p)
    then show ?thesis using e(1) st[of p] by blast
  next
    case (Done p)
    then show ?thesis using e(1) don[of p] by blast
  next
    case (Finish p)
    then show ?thesis using e(1) fin[of p] by blast
  qed (use e(2) in simp)
qed

lemma execution_bound:
  assumes env: "env_ok env" and run: "graph_run_events env (evs @ es) graph_init = Some r" and es: "execution es"
  shows "length es \<le> 3 * length evs"
proof -
  have inv: "run_inv (ge_count env) (evs @ es) r" and hist: "hist_inv (evs @ es) r" using run_reach[OF env run] by auto
  let ?A = "\<Union>p\<in>set (map fst (rn_log r)). {Start p, Done p, Finish p}"
  have sub: "concat (map submit_of es) = []" using es by (induction es) (auto simp: execution_def)
  have "set es \<subseteq> ?A" using execution_events[OF inv hist] es by (auto simp: execution_def list_all_iff)
  then have "card (set es) \<le> card ?A" by (intro card_mono) auto
  also have "\<dots> \<le> (\<Sum>p\<in>set (map fst (rn_log r)). card {Start p, Done p, Finish p})"
    by (rule card_UN_le) simp
  also have "\<dots> \<le> (\<Sum>p\<in>set (map fst (rn_log r)). 3)" by (intro sum_mono) (simp add: card_insert_if)
  also have "\<dots> \<le> 3 * length (rn_log r)" using card_length[of "map fst (rn_log r)"] by simp
  also have "\<dots> \<le> 3 * length evs" using hist log_length[of evs] sub by (simp add: hist_inv_def)
  finally show ?thesis using hist by (simp add: hist_inv_def distinct_card)
qed

lemma execution_completes:
  assumes env: "env_ok env" and "graph_run_events env (evs @ es) graph_init = Some r" and "execution es"
  shows "\<exists>fs r'. execution (es @ fs) \<and> graph_run_events env (evs @ es @ fs) graph_init = Some r' \<and>
    live_tasks (evs @ es @ fs) r' = {}"
  using assms(2,3)
proof (induction "3 * length evs - length es" arbitrary: es r rule: less_induct)
  case less
  have inv: "run_inv (ge_count env) (evs @ es) r" using run_reach[OF env less.prems(1)] by blast
  show ?case
  proof (cases "live_tasks (evs @ es) r = {}")
    case True
    then show ?thesis using less.prems by (intro exI[of _ "[]"] exI[of _ r]) simp
  next
    case False
    then obtain e where e: "execution [e]" "graph_enabled env e r" using live_progress[OF inv] by blast
    obtain r1 where "graph_step env e r = Some r1" using run_step[OF env inv e(2)] by blast
    then have run1: "graph_run_events env (evs @ es @ [e]) graph_init = Some r1"
      using run_snoc[of env "evs @ es" e graph_init r1] less.prems(1) e(2) by auto
    have ex1: "execution (es @ [e])" using less.prems(2) e(1) by (simp add: execution_def)
    have "length (es @ [e]) \<le> 3 * length evs" by (rule execution_bound[OF env run1 ex1])
    then have "3 * length evs - length (es @ [e]) < 3 * length evs - length es" by simp
    from less.hyps[OF this _ ex1] run1 obtain fs r' where "execution ((es @ [e]) @ fs)"
      "graph_run_events env (evs @ (es @ [e]) @ fs) graph_init = Some r'" "live_tasks (evs @ (es @ [e]) @ fs) r' = {}"
      by blast
    then show ?thesis by (intro exI[of _ "e # fs"] exI[of _ r']) simp
  qed
qed

lemma live_submit:
  assumes "hist_inv evs r" and "live_tasks evs r = {}" and "Submit p d deps \<in> set evs"
  shows "Finish p \<in> set evs"
proof -
  have "(p, desc_deps d deps) \<in> set (rn_log r)"
    using assms(1,3) log_submit[of p "desc_deps d deps" evs] unfolding hist_inv_def by auto
  then have "p \<in> fst ` set (rn_log r)" by force
  then show ?thesis using assms(2) unfolding live_tasks_def by blast
qed

section \<open>Tear down\<close>

lemma readers_destroyed:
  assumes "base_inv c {} {} {} R {} s" and "\<forall>p. int (count_list ps p) \<le> R p"
  shows "\<exists>s'. dep_out_readers ps None s = Some (0, s') \<and> base_inv c {} {} {} (\<lambda>p. R p - int (count_list ps p)) {} s'"
  using assms
proof (induction ps arbitrary: s R)
  case (Cons p ps)
  have r: "0 < R p" using Cons.prems(2)[rule_format, of p] by simp
  obtain s1 where 1: "kupl_gnode_deref (Some p) s = Some s1" "base_inv c {} {} {} (R(p := R p - 1)) {} s1"
    using base_deref[OF Cons.prems(1) r] by auto
  have "int (count_list ps x) \<le> (R(p := R p - 1)) x" for x
    using Cons.prems(2)[rule_format, of x] by (simp split: if_splits)
  then obtain s2 where 2: "dep_out_readers ps None s1 = Some (0, s2)"
    "base_inv c {} {} {} (\<lambda>x. (R(p := R p - 1)) x - int (count_list ps x)) {} s2"
    using Cons.IH[OF 1(2)] by blast
  have "(\<lambda>x. (R(p := R p - 1)) x - int (count_list ps x)) = (\<lambda>x. R x - int (count_list (p # ps) x))" by auto
  then show ?case using 1(1) 2 by (simp add: kupl_gnode_precede_def)
qed simp

lemma entry_destroyed:
  assumes inv: "base_inv c {} {} {} R {} s" and R: "\<forall>p. ent_refs e p \<le> R p"
  shows "\<exists>s'. kupl_addr_entry_destroy (Some e) s = Some s' \<and> base_inv c {} {} {} (\<lambda>p. R p - ent_refs e p) {} s'"
proof -
  have R1: "int (count_list (ae_in e) p) \<le> R p" for p using R ent_refs_ge[of e p] by (meson order.trans)
  have pn: "kupl_gnode_precede x None s = Some (0, s)" for x by (cases x) (simp_all add: kupl_gnode_precede_def)
  obtain s1 where 1: "(if ae_in e \<noteq> [] then dep_out_readers (ae_in e) None s else kupl_gnode_precede (ae_out e) None s) = Some (0, s1)"
    "base_inv c {} {} {} (\<lambda>p. R p - int (count_list (ae_in e) p)) {} s1"
    using readers_destroyed[OF inv] R1 inv by (cases "ae_in e = []") (auto simp: pn)
  show ?thesis
  proof (cases "ae_out e")
    case None
    then show ?thesis using 1
      by (simp add: kupl_addr_entry_destroy_def node_process_dep_out_def kupl_gnode_deref_def kupl_gnode_ref_def
          kupl_task_deref_def kupl_task_ref_def ent_refs_def)
  next
    case (Some p)
    have "0 < R p - int (count_list (ae_in e) p)" using R[rule_format, of p] Some by (simp add: ent_refs_def)
    from base_deref[OF 1(2) this] obtain s2 where 2: "kupl_gnode_deref (Some p) s1 = Some s2"
      "base_inv c {} {} {} ((\<lambda>p. R p - int (count_list (ae_in e) p))(p := R p - int (count_list (ae_in e) p) - 1)) {} s2"
      by auto
    have "((\<lambda>p. R p - int (count_list (ae_in e) p))(p := R p - int (count_list (ae_in e) p) - 1)) = (\<lambda>p. R p - ent_refs e p)"
      using Some by (auto simp: ent_refs_def)
    then show ?thesis using 1(1) 2 Some
      by (simp add: kupl_addr_entry_destroy_def node_process_dep_out_def kupl_gnode_ref_def kupl_task_ref_def)
  qed
qed

lemma entries_destroyed:
  assumes "base_inv c {} {} {} (hash_refs h) {} s" and "\<forall>a f. (a, f) \<in> set h \<longrightarrow> (\<exists>e. f = Some e)"
  shows "\<exists>s'. dag_destroy_loop h s = Some s' \<and> base_inv c {} {} {} (\<lambda>_. 0) {} s'"
  using assms
proof (induction h arbitrary: s)
  case Nil
  then show ?case by (simp add: hash_refs_def)
next
  case (Cons x h)
  then obtain a e where x: "x = (a, Some e)" by (metis list.set_intros(1) surj_pair)
  have nn: "0 \<le> hash_refs h p" for p unfolding hash_refs_def by (rule sum_list_nonneg) (auto split: option.split)
  have "\<forall>p. ent_refs e p \<le> hash_refs (x # h) p" using nn by (simp add: x)
  from entry_destroyed[OF Cons.prems(1) this] obtain s1 where 1: "kupl_addr_entry_destroy (Some e) s = Some s1"
    "base_inv c {} {} {} (hash_refs h) {} s1" by (auto simp: x)
  have "\<forall>a f. (a, f) \<in> set h \<longrightarrow> (\<exists>e. f = Some e)" using Cons.prems(2) by simp
  from Cons.IH[OF 1(2) this] show ?case using 1(1) by (simp add: x)
qed

lemma run_destroyed:
  assumes inv: "run_inv c evs r" and none: "live_tasks evs r = {}"
  shows "\<exists>s'. kupl_dag_destroy (rn_state r) = Some s' \<and> gr_heap s' = (\<lambda>_. None) \<and> gr_hash s' = []"
proof -
  obtain E where E: "dag_inv c (pos (rn_log r)) (deps_of (rn_log r)) (live_tasks evs r) (set (scheduled r)) (set (rn_done r)) E (rn_state r)"
    and base: "base_inv c (live_tasks evs r) (set (scheduled r)) (set (rn_done r))
      (\<lambda>x. own (live_tasks evs r) x + hash_refs (gr_hash (rn_state r)) x) E (rn_state r)"
    using run_inv_base[OF inv] .
  have "set (scheduled r) = {}" "set (rn_done r) = {}" "E = {}" using base_sets[OF base] none by auto
  then have b: "base_inv c {} {} {} (hash_refs (gr_hash (rn_state r))) {} (rn_state r)"
    using base none by simp
  have "\<forall>a f. (a, f) \<in> set (gr_hash (rn_state r)) \<longrightarrow> (\<exists>e. f = Some e)"
    using E unfolding dag_inv_def hash_ok_def by blast
  from entries_destroyed[OF b this] obtain s' where s': "dag_destroy_loop (gr_hash (rn_state r)) (rn_state r) = Some s'"
    "base_inv c {} {} {} (\<lambda>_. 0) {} s'" by blast
  then have "gr_heap s' = (\<lambda>_. None)" using base_dead[OF s'(2)] by auto
  then show ?thesis using s'(1) by (simp add: kupl_dag_destroy_def)
qed

section \<open>A small graph\<close>

text \<open>A graph, a task with \<open>n\<close> dependencies, and dependencies on the address 7, for the examples.\<close>

definition env0 :: graph_env where
  "env0 = \<lparr>ge_graph = 1000, ge_count = 2000, ge_geid = 0, ge_cp = 0, ge_pad = 0, ge_garbage = zero_task, ge_lockok = True\<rparr>"

definition task0 :: "nat \<Rightarrow> kupl_task_desc" where
  "task0 n = \<lparr>kd_field_mask = 8, kd_func = Some 1, kd_args = None, kd_name = [], kd_priority = 0, kd_ndep = n,
     kd_dep_list = Some 5, kd_flag = 0\<rparr>"

definition out7 :: kupl_task_dep where "out7 = \<lparr>dp_base_addr = 7, dp_type = KUPL_TASK_DEP_TYPE_OUT\<rparr>"

definition in7 :: kupl_task_dep where "in7 = \<lparr>dp_base_addr = 7, dp_type = KUPL_TASK_DEP_TYPE_IN\<rparr>"

definition run0 :: "graph_event list" where
  "run0 = [Submit 1 (task0 1) [out7], Submit 2 (task0 1) [in7], Start 1, Done 1, Finish 1]"

lemma env0_ok: "env_ok env0" by code_simp

lemma run0_reaches:
  obtains r where "graph_run_events env0 run0 graph_init = Some r" "graph_enabled env0 (Start 2) r"
proof -
  have "graph_run_events env0 (run0 @ [Start 2]) graph_init \<noteq> None" by code_simp
  then obtain r where "graph_run_events env0 run0 graph_init = Some r" "graph_enabled env0 (Start 2) r"
    by (auto simp only: run_snoc not_None_eq)
  then show ?thesis by (rule that)
qed

lemma conflict0: "conflict (desc_deps (task0 1) [out7]) (desc_deps (task0 1) [in7])"
  by (simp add: conflict_def writes_def reads_def desc_deps_def task0_def out7_def in7_def eff_deps_def
      KUPL_TASK_DESC_FIELD_DEP_def is_all_def KUPL_TASK_DEP_ALL_ADDR_def)

section \<open>Properties of every run\<close>

text \<open>
  C4: Whenever a task can start in a run of a graph, the function of every task that was submitted before it
  and whose dependencies conflict with its own (both use an address and one writes it, or one depends on
  everything) has ended, whatever the order in which tasks are submitted, started and finished. A submission
  is one step, so that no task is released while it is in progress; the allocations succeed, and no task
  names an address twice among its dependencies unless it also depends on everything
  (\<open>graph_enabled\<close>).
\<close>

theorem graph_dependency_order:
  assumes env: "env_ok env"
    and run: "graph_run_events env (es1 @ Submit p d ds # es2 @ Submit q d' ds' # es3 @ [Start q]) graph_init \<noteq> None"
    and cf: "conflict (desc_deps d ds) (desc_deps d' ds')"
  shows "Done p \<in> set (es1 @ es2 @ es3)"
proof -
  let ?evs = "es1 @ Submit p d ds # es2 @ Submit q d' ds' # es3"
  obtain r where r: "graph_run_events env ?evs graph_init = Some r" "graph_enabled env (Start q) r"
    using run run_snoc[of env ?evs "Start q" graph_init] by auto
  have inv: "run_inv (ge_count env) ?evs r" and hist: "hist_inv ?evs r" using run_reach[OF env r(1)] by auto
  have "q \<in> set (scheduled r)" using r(2) by (simp add: scheduled_def)
  moreover have "rn_log r = concat (map submit_of es1) @ (p, desc_deps d ds) # concat (map submit_of es2) @
      (q, desc_deps d' ds') # concat (map submit_of es3)"
    using hist by (simp add: hist_inv_def)
  ultimately have "Done p \<in> set ?evs" using ready_deps_done[OF inv hist] cf by blast
  then show ?thesis by simp
qed

theorem graph_dependency_order_witness: "Done 1 \<in> set ([] @ [] @ [Start 1, Done 1, Finish 1])"
proof -
  have "graph_run_events env0 (run0 @ [Start 2]) graph_init \<noteq> None"
    using run0_reaches by (metis run_snoc graph_step.simps(2) option.distinct(1))
  then have "graph_run_events env0 ([] @ Submit 1 (task0 1) [out7] # [] @ Submit 2 (task0 1) [in7] #
      [Start 1, Done 1, Finish 1] @ [Start 2]) graph_init \<noteq> None" by (simp add: run0_def)
  from graph_dependency_order[OF env0_ok this conflict0] show ?thesis .
qed

text \<open>
  C5: When the count of the graph is 0, which ends \<open>kupl_graph_wait\<close>, every task that was
  submitted was executed exactly once, and none is left in the scheduler: in runs in which the allocations
  succeed, no task names an address twice among its dependencies unless it also depends on everything, and
  the 32-bit counts are not exceeded (\<open>graph_enabled\<close>), and which have fewer than \<open>2 ^
  32\<close> events. A task that names an address twice is outside: it can wait for itself and not be
  counted (\<open>graph_self_dependency\<close>).
\<close>

theorem graph_wait_complete:
  assumes "env_ok env" and "graph_run_events env evs graph_init = Some r" and "length evs < 2 ^ 32"
    and "gr_counts (rn_state r) (ge_count env) = 0" and "Submit p d ds \<in> set evs"
  shows "count_list evs (Start p) = 1 \<and> count_list evs (Done p) = 1 \<and> count_list evs (Finish p) = 1 \<and>
    gr_pool (rn_state r) = []"
proof -
  have inv: "run_inv (ge_count env) evs r" and hist: "hist_inv evs r" using run_reach[OF assms(1,2)] by auto
  have none: "scheduled r = []" using count_scheduled[OF inv hist assms(3)] assms(4) by simp
  then have "live_tasks evs r = {}" using live_scheduled[OF inv] by blast
  then have f: "Finish p \<in> set evs" using live_submit[OF hist _ assms(5)] by simp
  have "distinct evs" using hist by (simp add: hist_inv_def)
  then have one: "x \<in> set evs \<Longrightarrow> count_list evs x = 1" for x
    by (induction evs) (auto simp: count_list_0_iff)
  show ?thesis using one f finished_events[OF inv hist f] none by (simp add: scheduled_def)
qed

lemma run0_all: "\<exists>r. graph_run_events env0 (run0 @ [Start 2, Done 2, Finish 2]) graph_init = Some r \<and>
    gr_counts (rn_state r) (ge_count env0) = 0"
proof -
  have "case graph_run_events env0 (run0 @ [Start 2, Done 2, Finish 2]) graph_init of None \<Rightarrow> False
      | Some r \<Rightarrow> gr_counts (rn_state r) (ge_count env0) = 0" by code_simp
  then show ?thesis by (auto split: option.splits)
qed

theorem graph_wait_complete_witness: "count_list (run0 @ [Start 2, Done 2, Finish 2]) (Done 2) = 1"
proof -
  obtain r where "graph_run_events env0 (run0 @ [Start 2, Done 2, Finish 2]) graph_init = Some r"
    "gr_counts (rn_state r) (ge_count env0) = 0" using run0_all by blast
  from graph_wait_complete[OF env0_ok this(1) _ this(2), of 2 "task0 1" "[in7]"] show ?thesis
    by (simp add: run0_def)
qed

text \<open>
  C6: Without further submissions every run ends after a bounded number of events, three for each task, and
  every state can be continued until all submitted tasks are executed, in runs in which the allocations
  succeed, no task names an address twice among its dependencies unless it also depends on everything, and
  the 32-bit counts are not exceeded (\<open>graph_enabled\<close>). With such dependencies there is no
  deadlock, however the tasks depend on each other; a task that names an address twice can wait for itself
  (\<open>graph_self_dependency\<close>) and is outside.
\<close>

theorem graph_run_completes:
  assumes "env_ok env" and "graph_run_events env evs graph_init = Some r"
  shows "(\<forall>es. execution es \<and> graph_run_events env (evs @ es) graph_init \<noteq> None \<longrightarrow> length es \<le> 3 * length evs) \<and>
    (\<exists>es. execution es \<and> graph_run_events env (evs @ es) graph_init \<noteq> None \<and>
       (\<forall>p d ds. Submit p d ds \<in> set evs \<longrightarrow> Finish p \<in> set (evs @ es)))"
proof (intro conjI allI impI)
  fix es assume "execution es \<and> graph_run_events env (evs @ es) graph_init \<noteq> None"
  then show "length es \<le> 3 * length evs" using execution_bound[OF assms(1)] by blast
next
  have "graph_run_events env (evs @ []) graph_init = Some r" "execution []" using assms(2) by (simp_all add: execution_def)
  from execution_completes[OF assms(1) this] obtain fs r' where fs: "execution fs"
    "graph_run_events env (evs @ fs) graph_init = Some r'" "live_tasks (evs @ fs) r' = {}" by auto
  have "hist_inv (evs @ fs) r'" using run_reach[OF assms(1) fs(2)] by blast
  then have "\<forall>p d ds. Submit p d ds \<in> set evs \<longrightarrow> Finish p \<in> set (evs @ fs)"
    using live_submit[OF _ fs(3)] by (metis Un_iff set_append)
  then show "\<exists>es. execution es \<and> graph_run_events env (evs @ es) graph_init \<noteq> None \<and>
       (\<forall>p d ds. Submit p d ds \<in> set evs \<longrightarrow> Finish p \<in> set (evs @ es))"
    using fs(1,2) by blast
qed

theorem graph_run_completes_witness:
  "\<exists>es. execution es \<and> graph_run_events env0 (run0 @ es) graph_init \<noteq> None \<and> Finish 2 \<in> set (run0 @ es)"
proof -
  obtain r where "graph_run_events env0 run0 graph_init = Some r" using run0_reaches by blast
  from graph_run_completes[OF env0_ok this] obtain es where "execution es"
    "graph_run_events env0 (run0 @ es) graph_init \<noteq> None"
    "\<forall>p d ds. Submit p d ds \<in> set run0 \<longrightarrow> Finish p \<in> set (run0 @ es)" by blast
  moreover have "Submit 2 (task0 1) [in7] \<in> set run0" by (simp add: run0_def)
  ultimately show ?thesis by blast
qed

text \<open>
  C23: In every reachable state each event that can occur succeeds: no freed task, null address or unwritten
  dependency is read, in whatever order whole submissions and executions come, in runs in which the
  allocations succeed, no task names an address twice among its dependencies unless it also depends on
  everything, and the 32-bit counts are not exceeded (\<open>graph_enabled\<close>). Without these
  restrictions it does not hold: \<open>rm_dup_merged_count\<close> shows the unwritten dependency, and two
  failing allocations of the table lead to a null address.
\<close>

theorem graph_memory_safe:
  assumes "env_ok env" and "graph_run_events env evs graph_init = Some r" and "graph_enabled env e r"
  shows "graph_step env e r \<noteq> None"
  using run_step[OF assms(1) _ assms(3)] run_reach[OF assms(1,2)] by blast

theorem graph_memory_safe_witness: "\<exists>r. graph_run_events env0 run0 graph_init = Some r \<and> graph_step env0 (Start 2) r \<noteq> None"
proof -
  obtain r where r: "graph_run_events env0 run0 graph_init = Some r" "graph_enabled env0 (Start 2) r" using run0_reaches .
  then show ?thesis using graph_memory_safe[OF env0_ok r] by blast
qed

text \<open>
  C24: Once every submitted task is executed, destroying the table of the graph succeeds and frees every
  task: nothing leaks and nothing is freed twice, in runs in which the allocations succeed, no task names an
  address twice among its dependencies unless it also depends on everything, and the 32-bit counts are not
  exceeded (\<open>graph_enabled\<close>).
\<close>

theorem graph_no_leak:
  assumes "env_ok env" and "graph_run_events env evs graph_init = Some r"
    and "\<forall>p d ds. Submit p d ds \<in> set evs \<longrightarrow> Finish p \<in> set evs"
  shows "\<exists>s'. kupl_dag_destroy (rn_state r) = Some s' \<and> gr_heap s' = (\<lambda>_. None) \<and> gr_hash s' = []"
proof -
  have inv: "run_inv (ge_count env) evs r" and hist: "hist_inv evs r" using run_reach[OF assms(1,2)] by auto
  have "live_tasks evs r = {}"
  proof -
    have "Finish p \<in> set evs" if "(p, x) \<in> set (rn_log r)" for p x
      using that hist log_submit[of p x evs] assms(3) unfolding hist_inv_def by auto
    then show ?thesis unfolding live_tasks_def by force
  qed
  then show ?thesis by (rule run_destroyed[OF inv])
qed

theorem graph_no_leak_witness: "\<exists>r s'. kupl_dag_destroy (rn_state r) = Some s' \<and>
    graph_run_events env0 (run0 @ [Start 2, Done 2, Finish 2]) graph_init = Some r \<and> gr_heap s' = (\<lambda>_. None)"
proof -
  obtain r where r: "graph_run_events env0 (run0 @ [Start 2, Done 2, Finish 2]) graph_init = Some r" using run0_all by blast
  from graph_no_leak[OF env0_ok r] r show ?thesis by (auto simp: run0_def)
qed

section \<open>Inputs outside the hypotheses\<close>

text \<open>
  Two dependencies of a task on one address, one reading and one writing, are merged into one
  entry, but the count stays 2, so \<open>kupl_dag_add_task\<close> goes on to process an entry that was never
  written.
\<close>

theorem rm_dup_merged_count:
  assumes "a \<noteq> 0" and "a \<noteq> KUPL_TASK_DEP_ALL_ADDR"
  shows "dep_list_rm_dup [\<lparr>dp_base_addr = a, dp_type = KUPL_TASK_DEP_TYPE_IN\<rparr>, \<lparr>dp_base_addr = a, dp_type = KUPL_TASK_DEP_TYPE_OUT\<rparr>] =
    ([\<lparr>dp_base_addr = a, dp_type = KUPL_TASK_DEP_TYPE_OUT\<rparr>], 2)"
  using assms by (simp add: dep_list_rm_dup_def merge_dep_def)

theorem rm_dup_merged_count_witness:
  "dep_list_rm_dup [in7, out7] = ([out7], 2) \<and> kupl_dag_add_task 1 [in7, out7] (store_task 1 zero_task (rn_state graph_init)) = None"
proof -
  have "dep_list_rm_dup [in7, out7] = ([out7], 2)"
    using rm_dup_merged_count[of 7] by (simp add: in7_def out7_def KUPL_TASK_DEP_ALL_ADDR_def)
  moreover have "Option.is_none (kupl_dag_add_task 1 [in7, out7] (store_task 1 zero_task (rn_state graph_init)))" by code_simp
  ultimately show ?thesis by (simp add: Option.is_none_def)
qed

text \<open>
  A task that names an address twice with the same type, writing it, comes to depend on itself:
  it waits for one predecessor, is its own successor, and no task can ever start.
\<close>

theorem graph_self_dependency:
  "case graph_run_events env0 [Submit 1 (task0 1) [out7]] graph_init of
     None \<Rightarrow> False
   | Some r \<Rightarrow> gr_pool (rn_state r) = [1] \<and>
       (case kupl_graph_add_task env0 True (Some (task0 2)) [out7, out7] (Some 2) (rn_state graph_init) of
          None \<Rightarrow> False
        | Some (st, s) \<Rightarrow> st = KUPL_OK \<and> gr_pool s = [] \<and> gr_counts s 2000 = 0 \<and>
            (case gr_heap s 2 of None \<Rightarrow> False
             | Some t \<Rightarrow> gn_successors (tk_gnode t) = [2] \<and> gn_n_predecessors (tk_gnode t) = 1))"
  by code_simp

text \<open>
  Because the description of a task is read as that of a task base, a task with dependencies
  takes the address of its dependency list as its executor group.
\<close>

theorem graph_task_egroup_is_dep_list:
  assumes "kd_field_mask d AND KUPL_TASK_DESC_FIELD_DEP \<noteq> 0"
  shows "tb_egroup (kupl_tb_init tb (pa_super (graph_task_param env (task_desc_as_tb_desc pad d))) cp) = kd_dep_list d"
  using assms
  by (simp add: kupl_tb_init_def graph_task_param_def task_desc_as_tb_desc_def KUPL_TASK_DESC_FIELD_DEP_def
      KUPL_TB_DESC_FIELD_EGROUP_def Let_def)

theorem graph_task_egroup_is_dep_list_witness:
  "tb_egroup (kupl_tb_init zero_tb (pa_super (graph_task_param env0 (task_desc_as_tb_desc 0 (task0 1)))) 0) = Some 5"
  using graph_task_egroup_is_dep_list[of "task0 1" zero_tb env0 0 0]
  by (simp add: task0_def KUPL_TASK_DESC_FIELD_DEP_def)

end
