(* ===== verification/Kupl_Dag_Race.thy ===== *)
theory Kupl_Dag_Race
  imports Kupl_Graph_Safety
begin

text \<open>
  A submission in its steps.  Nothing keeps tasks from ending while \<open>kupl_dag_add_task\<close> processes the
  dependencies of a new task: the events of Kupl\_Graph\_Run can happen between the steps.  Without
  such events the steps are the atomic submission of Kupl\_Graph\_Run; with them a task can start
  although dependencies of it are still to be processed.
\<close>

section \<open>The steps of a submission\<close>

datatype fine_event = Open ptr kupl_task_desc | Dep ptr kupl_task_dep | Close ptr | Event graph_event

text \<open>\<open>fi_n\<close> is the local \<open>n_predecessors\<close> of \<open>kupl_dag_add_task\<close>.\<close>

record fine_run =
  fi_run :: graph_run
  fi_n :: u32

definition submit_open :: "graph_env \<Rightarrow> ptr \<Rightarrow> kupl_task_desc \<Rightarrow> graph_state \<Rightarrow> graph_state option" where
  "submit_open env p d s =
     do {
       (task, s) \<leftarrow> kupl_task_init (graph_task_param env (task_desc_as_tb_desc (ge_pad env) d))
                     (ge_garbage env) (ge_cp env) (ge_lockok env) (Some p) s;
       (if task = None then None else Some s)
     }"

definition submit_dep :: "ptr \<Rightarrow> kupl_task_dep \<Rightarrow> u32 \<times> graph_state \<Rightarrow> (u32 \<times> graph_state) option" where
  "submit_dep p dep ns =
     do {
       (ret, s) \<leftarrow> kupl_node_process_dep p dep (snd ns);
       m \<leftarrow> ret;
       Some (fst ns + m, s)
     }"

definition submit_close :: "ptr \<Rightarrow> u32 \<times> graph_state \<Rightarrow> graph_state option" where
  "submit_close p ns =
     do {
       t \<leftarrow> load_task p (snd ns);
       if gn_n_predecessors (tk_gnode t) + fst ns = - fst ns then pool_add p (snd ns) else Some (snd ns)
     }"

fun fine_step :: "graph_env \<Rightarrow> fine_event \<Rightarrow> fine_run \<Rightarrow> fine_run option" where
  "fine_step env (Open p d) f =
     do {
       s \<leftarrow> submit_open env p d (rn_state (fi_run f));
       Some (f\<lparr>fi_run := (fi_run f)\<lparr>rn_state := s\<rparr>, fi_n := 0\<rparr>)
     }"
| "fine_step env (Dep p dep) f =
     do {
       (n, s) \<leftarrow> submit_dep p dep (fi_n f, rn_state (fi_run f));
       Some (f\<lparr>fi_run := (fi_run f)\<lparr>rn_state := s\<rparr>, fi_n := n\<rparr>)
     }"
| "fine_step env (Close p) f =
     do {
       s \<leftarrow> submit_close p (fi_n f, rn_state (fi_run f));
       Some (f\<lparr>fi_run := (fi_run f)\<lparr>rn_state := s\<rparr>\<rparr>)
     }"
| "fine_step env (Event e) f =
     (if graph_enabled env e (fi_run f)
      then map_option (\<lambda>r. f\<lparr>fi_run := r\<rparr>) (graph_step env e (fi_run f)) else None)"

fun fine_events :: "graph_env \<Rightarrow> fine_event list \<Rightarrow> fine_run \<Rightarrow> fine_run option" where
  "fine_events env [] f = Some f"
| "fine_events env (e # es) f = Option.bind (fine_step env e f) (fine_events env es)"

section \<open>Without interruption\<close>

lemma fine_append: "fine_events env (es @ fs) f = Option.bind (fine_events env es f) (fine_events env fs)"
  by (induction es arbitrary: f) (auto split: Option.bind_split)

lemma fine_deps:
  assumes "process_deps (length ds) ds p (rn_state (fi_run f)) = Some (Some n, s')"
  shows "fine_events env (map (Dep p) ds) f =
    Some (f\<lparr>fi_run := (fi_run f)\<lparr>rn_state := s'\<rparr>, fi_n := fi_n f + n\<rparr>)"
  using assms
proof (induction ds arbitrary: f n)
  case (Cons d ds)
  from Cons.prems obtain m s1 k where 1: "kupl_node_process_dep p d (rn_state (fi_run f)) = Some (Some m, s1)"
    "process_deps (length ds) ds p s1 = Some (Some k, s')" "n = m + k"
    by (auto split: Option.bind_splits option.splits)
  let ?f = "f\<lparr>fi_run := (fi_run f)\<lparr>rn_state := s1\<rparr>, fi_n := fi_n f + m\<rparr>"
  have "fine_step env (Dep p d) f = Some ?f" using 1(1) by (simp add: submit_dep_def)
  moreover have "fine_events env (map (Dep p) ds) ?f =
      Some (?f\<lparr>fi_run := (fi_run ?f)\<lparr>rn_state := s'\<rparr>, fi_n := fi_n ?f + k\<rparr>)"
    using Cons.IH[of ?f k] 1(2) by simp
  ultimately show ?case using 1(3) by (simp add: add.assoc)
qed simp

text \<open>
  Run without interruption, the steps of a submission do what \<open>kupl_graph_add_task\<close> does in one
  step, for a list of dependencies without duplicates that fits the local array.
\<close>

theorem fine_submission_atomic:
  assumes "kupl_graph_add_task env True (Some d) deps (Some p) (rn_state (fi_run f)) = Some (KUPL_OK, s')"
    and "kd_field_mask d AND KUPL_TASK_DESC_FIELD_DEP \<noteq> 0" and "deps_ok deps" and "length deps \<le> KUPL_MAX_LOCAL_DEP_COUNT"
  shows "\<exists>f'. fine_events env (Open p d # map (Dep p) (eff_deps deps) @ [Close p]) f = Some f' \<and>
    fi_run f' = (fi_run f)\<lparr>rn_state := s'\<rparr>"
proof -
  let ?s = "rn_state (fi_run f)"
  have err: "KUPL_OK \<noteq> KUPL_ERROR" "KUPL_DAG_TASK_READY \<noteq> KUPL_ERROR" "KUPL_DAG_TASK_NOT_READY \<noteq> KUPL_ERROR"
    "KUPL_DAG_TASK_READY \<noteq> KUPL_DAG_TASK_NOT_READY" by code_simp+
  obtain q s1 where 1: "kupl_task_init (graph_task_param env (task_desc_as_tb_desc (ge_pad env) d))
      (ge_garbage env) (ge_cp env) (ge_lockok env) (Some p) ?s = Some (Some q, s1)"
    using assms(1) err(1) by (auto simp: kupl_graph_add_task_def split: if_splits Option.bind_splits option.splits)
  have q: "q = p" using 1
    by (auto simp: kupl_task_init_def graph_task_param_def Let_def split: if_splits Option.bind_splits option.splits prod.splits)
  have s1: "submit_open env p d ?s = Some s1" using 1 by (simp add: submit_open_def)
  from assms(1) 1 q assms(2) err obtain ret s2 where 2: "kupl_dag_add_task p deps s1 = Some (ret, s2)" "ret \<noteq> KUPL_ERROR"
    "(if ret = KUPL_DAG_TASK_NOT_READY then Some s2 else pool_add p s2) = Some s'"
    by (auto simp: kupl_graph_add_task_def split: if_splits Option.bind_splits)
  have "\<not> length deps > KUPL_MAX_LOCAL_DEP_COUNT" using assms(4) by simp
  with 2(1,2) rm_dup_ok[OF assms(3)] obtain n where 3:
    "process_deps (length (eff_deps deps)) (eff_deps deps) p s1 = Some (Some n, s2)"
    by (auto simp: kupl_dag_add_task_def split: Option.bind_splits option.splits)
  obtain t where t: "load_task p s2 = Some t" "ret = (if gn_n_predecessors (tk_gnode t) + n = - n then KUPL_DAG_TASK_READY
      else KUPL_DAG_TASK_NOT_READY)"
    using 2(1) 3 \<open>\<not> length deps > KUPL_MAX_LOCAL_DEP_COUNT\<close> rm_dup_ok[OF assms(3)]
    by (auto simp: kupl_dag_add_task_def split: Option.bind_splits)
  have c: "submit_close p (n, s2) = Some s'" using 2(3) t err(4) by (auto simp: submit_close_def split: if_splits)
  let ?f = "f\<lparr>fi_run := (fi_run f)\<lparr>rn_state := s1\<rparr>, fi_n := 0\<rparr>"
  have "fine_step env (Open p d) f = Some ?f" using s1 by simp
  moreover have "fine_events env (map (Dep p) (eff_deps deps)) ?f =
      Some (?f\<lparr>fi_run := (fi_run ?f)\<lparr>rn_state := s2\<rparr>, fi_n := fi_n ?f + n\<rparr>)" using fine_deps[of "eff_deps deps" p ?f n s2] 3 by simp
  ultimately show ?thesis using c by (simp add: fine_append)
qed

definition fine0 :: fine_run where "fine0 = \<lparr>fi_run = graph_init, fi_n = 0\<rparr>"

theorem fine_submission_atomic_witness:
  "fine_events env0 [Open 1 (task0 1), Dep 1 out7, Close 1] fine0 \<noteq> None"
proof -
  have "case kupl_graph_add_task env0 True (Some (task0 1)) [out7] (Some 1) (rn_state graph_init) of
      None \<Rightarrow> False | Some (st, s) \<Rightarrow> st = KUPL_OK" by code_simp
  then obtain s' where "kupl_graph_add_task env0 True (Some (task0 1)) [out7] (Some 1) (rn_state (fi_run fine0)) = Some (KUPL_OK, s')"
    by (auto simp: fine0_def split: option.splits)
  moreover have "kd_field_mask (task0 1) AND KUPL_TASK_DESC_FIELD_DEP \<noteq> 0" "deps_ok [out7]"
    "length [out7] \<le> KUPL_MAX_LOCAL_DEP_COUNT" by code_simp+
  ultimately have "\<exists>f'. fine_events env0 (Open 1 (task0 1) # map (Dep 1) (eff_deps [out7]) @ [Close 1]) fine0 = Some f'"
    using fine_submission_atomic by blast
  moreover have "eff_deps [out7] = [out7]" by code_simp
  ultimately show ?thesis by auto
qed

section \<open>With interruption\<close>

definition dep_on :: "u64 \<Rightarrow> kupl_task_dep_type \<Rightarrow> kupl_task_dep" where
  "dep_on a k = \<lparr>dp_base_addr = a, dp_type = k\<rparr>"

text \<open>
  Tasks 1 and 2 write the addresses 7 and 8, task 3 reads both.  Task 1 ends after its dependency was
  processed and before that on task 2 is.
\<close>

definition race_prefix :: "fine_event list" where
  "race_prefix =
     [Event (Submit 1 (task0 1) [dep_on 7 KUPL_TASK_DEP_TYPE_OUT]), Event (Submit 2 (task0 1) [dep_on 8 KUPL_TASK_DEP_TYPE_OUT]),
      Event (Start 1), Open 3 (task0 2), Dep 3 (dep_on 7 KUPL_TASK_DEP_TYPE_IN), Event (Done 1), Event (Finish 1),
      Event (Start 3)]"

text \<open>
  Because a new task is not protected while its dependencies are processed, task 3 starts before
  task 2, which it depends on, has started; when the submission ends and task 2 is executed, task 3
  is handed to the scheduler a second time.
\<close>

theorem submission_race:
  "case fine_events env0 race_prefix fine0 of
     None \<Rightarrow> False
   | Some f \<Rightarrow> rn_running (fi_run f) = [3] \<and> gr_pool (rn_state (fi_run f)) = [2] \<and>
       (case fine_events env0 [Dep 3 (dep_on 8 KUPL_TASK_DEP_TYPE_IN), Close 3, Event (Start 2), Event (Done 2), Event (Finish 2)] f of
          None \<Rightarrow> False
        | Some g \<Rightarrow> rn_running (fi_run g) = [3] \<and> gr_pool (rn_state (fi_run g)) = [3])"
  by code_simp

end
