(* ===== verification/Kupl_Queue.thy ===== *)
theory Kupl_Queue
  imports Kupl_Task Kupl_Range Kupl_Egroup
begin

text \<open>
  Queues and events (\<open>src/src/mt/kupl_queue.cpp\<close>, \<open>kupl_event.cpp\<close>): work submitted to a queue runs in the
  order of submission, one item after the other; an event marks a point of a queue and another queue
  can wait for it.  Each item is a task of the global graph that has the task of the item before it as
  predecessor.

  Events and queues live in heaps of their own beside that of the tasks.  The requests of the SDMA engine
  (\<open>req_set\<close>, \<open>q_set\<close> and the SDMA types of events) are left out: without the engine the sets stay
  empty.  Of an event's lock and set only whether they exist matters: freeing an event goes through both.
  The lock of a queue makes each operation on it one step.  One part of such a step is not under this lock:
  the linking to the task of an event of another queue, which \<open>kupl_gnode_precede\<close> does under the lock of
  that task alone, and which could overlap the end of that task; here it comes entirely before or after it.
\<close>

section \<open>Data\<close>

datatype kupl_event_type = KUPL_EVENT_TYPE_INIT | KUPL_EVENT_TYPE_WAIT | KUPL_EVENT_TYPE_RECORD | KUPL_EVENT_TYPE_KERNEL

definition KUPL_EVENT_STATUS_CREATED :: int where "KUPL_EVENT_STATUS_CREATED = 0"
definition KUPL_EVENT_STATUS_SUBMITTED :: int where "KUPL_EVENT_STATUS_SUBMITTED = 1"
definition KUPL_EVENT_STATUS_COMPLETE :: int where "KUPL_EVENT_STATUS_COMPLETE = 2"

lemmas event_status = KUPL_EVENT_STATUS_CREATED_def KUPL_EVENT_STATUS_SUBMITTED_def KUPL_EVENT_STATUS_COMPLETE_def

definition KUPL_LEAST_PRIORITY :: int where "KUPL_LEAST_PRIORITY = 0"
definition KUPL_GREATEST_PRIORITY :: int where "KUPL_GREATEST_PRIORITY = 3"
definition KUPL_ASYNC_SYNC :: int where "KUPL_ASYNC_SYNC = -1"

definition KUPL_QUEUE_ITEM_DESC_FIELD_NAME :: u64 where "KUPL_QUEUE_ITEM_DESC_FIELD_NAME = kupl_bit 0"
definition KUPL_QUEUE_ITEM_DESC_FIELD_EGROUP :: u64 where "KUPL_QUEUE_ITEM_DESC_FIELD_EGROUP = kupl_bit 1"
definition KUPL_QUEUE_ITEM_DESC_FIELD_ARGS_SIZE :: u64 where "KUPL_QUEUE_ITEM_DESC_FIELD_ARGS_SIZE = kupl_bit 2"

record kupl_event =
  ev_task :: "ptr option"
  ev_func :: "ptr option"
  ev_args :: "ptr option"
  ev_q :: "ptr option"
  ev_graph :: "ptr option"
  ev_wait :: "ptr option"
  ev_type :: kupl_event_type
  ev_status :: int
  ev_ref :: int
  ev_lock :: bool
  ev_q_set :: bool

record kupl_queue =
  qu_event_count :: u64
  qu_last_event :: "ptr option"
  qu_priority :: int
  qu_index :: int
  qu_acquire :: bool
  qu_sync :: bool

record kupl_queue_item_desc =
  qd_field_mask :: u64
  qd_func :: "ptr option"
  qd_args :: "ptr option"
  qd_name :: "string option"
  qd_egroup :: "ptr option"
  qd_args_size :: nat

record queue_state =
  qs_graph :: graph_state
  qs_events :: "ptr \<Rightarrow> kupl_event option"
  qs_queues :: "ptr \<Rightarrow> kupl_queue option"
  qs_table :: "(int \<times> ptr) list"

definition put_event :: "ptr \<Rightarrow> kupl_event \<Rightarrow> queue_state \<Rightarrow> queue_state" where
  "put_event e v s = s\<lparr>qs_events := (qs_events s)(e := Some v)\<rparr>"

definition put_queue :: "ptr \<Rightarrow> kupl_queue \<Rightarrow> queue_state \<Rightarrow> queue_state" where
  "put_queue q v s = s\<lparr>qs_queues := (qs_queues s)(q := Some v)\<rparr>"

definition put_graph :: "graph_state \<Rightarrow> queue_state \<Rightarrow> queue_state" where
  "put_graph g s = s\<lparr>qs_graph := g\<rparr>"

text \<open>
  What a call finds in its surroundings: the outcomes of the allocations (\<open>qe_req_ok\<close>: the request and the
  set of an event), whether the library manages the calling thread, the global graph and the compute place.
  \<open>qs_table\<close> holds the queues by index, in the order of the index.
\<close>

record queue_env =
  qe_event_mem :: "ptr option"
  qe_lock_ok :: bool
  qe_task_mem :: "ptr option"
  qe_req_ok :: bool
  qe_managed :: bool
  qe_graph :: "ptr option"
  qe_node_lock_ok :: bool
  qe_cp :: nat

section \<open>Events\<close>

definition kupl_event_ref :: "ptr \<Rightarrow> queue_state \<Rightarrow> queue_state option" where
  "kupl_event_ref e s = do { v \<leftarrow> qs_events s e; Some (put_event e (v\<lparr>ev_ref := ev_ref v + 1\<rparr>) s) }"

definition kupl_event_deref :: "ptr \<Rightarrow> queue_state \<Rightarrow> queue_state option" where
  "kupl_event_deref e s =
     do {
       v \<leftarrow> qs_events s e;
       if ev_ref v = 1
       then (if ev_lock v \<and> ev_q_set v
             then do {
               g \<leftarrow> kupl_task_cleanup (ev_task v) (qs_graph s);
               Some (put_graph g (s\<lparr>qs_events := (qs_events s)(e := None)\<rparr>))
             }
             else None)
       else Some (put_event e (v\<lparr>ev_ref := ev_ref v - 1\<rparr>) s)
     }"

definition kupl_event_destroy :: "ptr option \<Rightarrow> queue_state \<Rightarrow> queue_state option" where
  "kupl_event_destroy e s = (case e of None \<Rightarrow> Some s | Some e \<Rightarrow> kupl_event_deref e s)"

definition kupl_event_set_status :: "ptr \<Rightarrow> int \<Rightarrow> queue_state \<Rightarrow> queue_state option" where
  "kupl_event_set_status e st s = do { v \<leftarrow> qs_events s e; Some (put_event e (v\<lparr>ev_status := st\<rparr>) s) }"

definition zero_event :: kupl_event where
  "zero_event = \<lparr>ev_task = None, ev_func = None, ev_args = None, ev_q = None, ev_graph = None, ev_wait = None,
     ev_type = KUPL_EVENT_TYPE_INIT, ev_status = 0, ev_ref = 0, ev_lock = False, ev_q_set = False\<rparr>"

definition kupl_event_create_with_udata :: "nat \<Rightarrow> queue_env \<Rightarrow> queue_state \<Rightarrow> (ptr option \<times> queue_state) option" where
  "kupl_event_create_with_udata udata_size en s =
     (case qe_event_mem en of
        None \<Rightarrow> Some (None, s)
      | Some e \<Rightarrow> do {
          s \<leftarrow> kupl_event_ref e (put_event e zero_event s);
          if \<not> qe_lock_ok en then do { s \<leftarrow> kupl_event_destroy (Some e) s; Some (None, s) }
          else do {
            let (t, g) = kupl_task_create_with_udata udata_size (qe_task_mem en) (qs_graph s);
            v \<leftarrow> qs_events s e;
            let v = v\<lparr>ev_lock := True, ev_task := t\<rparr>;
            let s = put_event e v (put_graph g s);
            if t = None \<or> \<not> qe_req_ok en then do { s \<leftarrow> kupl_event_destroy (Some e) s; Some (None, s) }
            else do {
              s \<leftarrow> kupl_event_set_status e KUPL_EVENT_STATUS_CREATED (put_event e (v\<lparr>ev_q_set := True\<rparr>) s);
              Some (Some e, s)
            }
          }
        })"

definition kupl_event_create :: "queue_env \<Rightarrow> queue_state \<Rightarrow> (ptr option \<times> queue_state) option" where
  "kupl_event_create en s = kupl_event_create_with_udata 0 en s"

definition kupl_gnode_cleanup :: "kupl_gnode \<Rightarrow> kupl_gnode" where
  "kupl_gnode_cleanup n = n\<lparr>gn_lock := False, gn_successors := []\<rparr>"

text \<open>
  Addresses of functions: \<open>event_func\<close> is the function of every task of an event, those of the
  events that only mark or wait do nothing.
\<close>

definition EVENT_FUNC :: ptr where "EVENT_FUNC = 1"
definition EVENT_FUNC_RECORD :: ptr where "EVENT_FUNC_RECORD = 2"
definition EVENT_FUNC_WAIT :: ptr where "EVENT_FUNC_WAIT = 3"

definition kupl_event_init :: "ptr \<Rightarrow> ptr option \<Rightarrow> kupl_tb_desc \<Rightarrow> kupl_event_type \<Rightarrow> queue_env \<Rightarrow> queue_state \<Rightarrow>
    (int \<times> queue_state) option" where
  "kupl_event_init e q desc type en s =
     (if \<not> qe_managed en then Some (KUPL_ERROR, s)
      else do {
        v \<leftarrow> qs_events s e;
        p \<leftarrow> ev_task v;
        t \<leftarrow> load_task p (qs_graph s);
        let s = put_graph (store_task p (t\<lparr>tk_gnode := kupl_gnode_cleanup (tk_gnode t)\<rparr>) (qs_graph s)) s;
        (case qe_graph en of
           None \<Rightarrow> Some (KUPL_ERROR, s)
         | Some graph \<Rightarrow> do {
             let v = v\<lparr>ev_func := td_func desc, ev_args := td_args desc\<rparr>;
             let desc = desc\<lparr>td_func := Some EVENT_FUNC, td_args := Some e\<rparr>;
             let param = \<lparr>pa_super = \<lparr>tp_type = KUPL_TB_TYPE_TASK, tp_user_desc = desc, tp_graph = Some graph, tp_count = Some graph\<rparr>,
                          pa_kind = KUPL_TASK_KIND_COMM_DYNAMIC, pa_inplace = Some p, pa_udata_size = 0\<rparr>;
             (r, g) \<leftarrow> kupl_task_init param t (qe_cp en) (qe_node_lock_ok en) None (qs_graph s);
             let s = put_graph g s;
             if r = None then Some (KUPL_ERROR, put_event e (v\<lparr>ev_task := None\<rparr>) s)
             else Some (KUPL_OK, put_event e (v\<lparr>ev_task := r, ev_graph := Some graph, ev_type := type, ev_q := q\<rparr>) s)
           })
      })"

definition kupl_event_init_wait :: "ptr \<Rightarrow> ptr option \<Rightarrow> ptr option \<Rightarrow> queue_env \<Rightarrow> queue_state \<Rightarrow> (int \<times> queue_state) option" where
  "kupl_event_init_wait e q wait_event en s =
     do {
       v \<leftarrow> qs_events s e;
       let desc = \<lparr>td_field_mask = 0, td_func = Some EVENT_FUNC_WAIT, td_args = Some e, td_name = [], td_priority = 0, td_flag = 0,
                   td_executor_id = 0, td_egroup = None\<rparr>;
       kupl_event_init e q desc KUPL_EVENT_TYPE_WAIT en (put_event e (v\<lparr>ev_wait := wait_event\<rparr>) s)
     }"

definition kupl_event_query :: "ptr option \<Rightarrow> queue_state \<Rightarrow> int option" where
  "kupl_event_query e s = (case e of None \<Rightarrow> Some KUPL_ERROR | Some e \<Rightarrow> do { v \<leftarrow> qs_events s e; Some (ev_status v) })"

text \<open>The task of the event waits for that of another one.\<close>

definition event_precede :: "ptr option \<Rightarrow> ptr \<Rightarrow> queue_state \<Rightarrow> (u32 \<times> queue_state) option" where
  "event_precede l e s =
     (case l of
        None \<Rightarrow> Some (0, s)
      | Some l \<Rightarrow> do {
          lv \<leftarrow> qs_events s l;
          p \<leftarrow> ev_task lv;
          v \<leftarrow> qs_events s e;
          t \<leftarrow> ev_task v;
          (n, g) \<leftarrow> kupl_gnode_precede (Some p) (Some t) (qs_graph s);
          Some (n, put_graph g s)
        })"

definition kupl_event_submit :: "ptr \<Rightarrow> ptr option \<Rightarrow> queue_state \<Rightarrow> queue_state option" where
  "kupl_event_submit e last_event s =
     do {
       s \<leftarrow> kupl_event_set_status e KUPL_EVENT_STATUS_SUBMITTED s;
       (n1, s) \<leftarrow> event_precede last_event e s;
       v \<leftarrow> qs_events s e;
       (n2, s) \<leftarrow> (if ev_type v = KUPL_EVENT_TYPE_WAIT
                  then do { w \<leftarrow> ev_wait v; event_precede (Some w) e s } else Some (0, s));
       if n1 + n2 = 0
       then do { p \<leftarrow> ev_task v; g \<leftarrow> pool_add p (qs_graph s); Some (put_graph g s) }
       else Some s
     }"

section \<open>Queues\<close>

definition kupl_enqueue_event :: "ptr option \<Rightarrow> ptr \<Rightarrow> queue_state \<Rightarrow> queue_state option" where
  "kupl_enqueue_event q e s =
     (case q of
        None \<Rightarrow> Some s
      | Some q \<Rightarrow> do {
          u \<leftarrow> qs_queues s q;
          let s = put_queue q (u\<lparr>qu_event_count := qu_event_count u + 1\<rparr>) s;
          v \<leftarrow> qs_events s e;
          s \<leftarrow> (if ev_type v \<noteq> KUPL_EVENT_TYPE_KERNEL then kupl_event_ref e s else Some s);
          s \<leftarrow> kupl_event_submit e (qu_last_event u) s;
          u \<leftarrow> qs_queues s q;
          Some (put_queue q (u\<lparr>qu_last_event := Some e\<rparr>) s)
        })"

definition kupl_dequeue_event :: "ptr option \<Rightarrow> ptr \<Rightarrow> queue_state \<Rightarrow> queue_state option" where
  "kupl_dequeue_event q e s =
     (case q of
        None \<Rightarrow> Some s
      | Some q \<Rightarrow> do {
          u \<leftarrow> qs_queues s q;
          let s = put_queue q (u\<lparr>qu_event_count := qu_event_count u - 1\<rparr>) s;
          s \<leftarrow> kupl_event_set_status e KUPL_EVENT_STATUS_COMPLETE s;
          s \<leftarrow> kupl_event_deref e s;
          u \<leftarrow> qs_queues s q;
          Some (if qu_last_event u = Some e then put_queue q (u\<lparr>qu_last_event := None\<rparr>) s else s)
        })"

text \<open>
  What \<open>event_func\<close> does after the user's function has returned: the status at once, then, in
  another step, the queue.
\<close>

definition event_func_dequeue :: "ptr \<Rightarrow> queue_state \<Rightarrow> queue_state option" where
  "event_func_dequeue e s = do { v \<leftarrow> qs_events s e; kupl_dequeue_event (ev_q v) e s }"

definition kupl_event_record :: "ptr option \<Rightarrow> ptr option \<Rightarrow> queue_env \<Rightarrow> queue_state \<Rightarrow> (int \<times> queue_state) option" where
  "kupl_event_record event queue en s =
     (case (event, queue) of
        (Some e, Some q) \<Rightarrow> do {
          status \<leftarrow> kupl_event_query (Some e) s;
          if status = KUPL_EVENT_STATUS_SUBMITTED then Some (KUPL_ERROR, s)
          else do {
            let desc = \<lparr>td_field_mask = 0, td_func = Some EVENT_FUNC_RECORD, td_args = Some e, td_name = [], td_priority = 0, td_flag = 0,
                        td_executor_id = 0, td_egroup = None\<rparr>;
            (ret, s) \<leftarrow> kupl_event_init e (Some q) desc KUPL_EVENT_TYPE_RECORD en s;
            if ret \<noteq> KUPL_OK then Some (KUPL_ERROR, s)
            else do { s \<leftarrow> kupl_enqueue_event (Some q) e s; Some (KUPL_OK, s) }
          }
        }
      | _ \<Rightarrow> Some (KUPL_ERROR, s))"

text \<open>\<open>kupl_event_wait\<close>, with the runs of the scheduler as in \<open>kupl_task_wait\<close>: \<open>lift\<close> takes them to this state.\<close>

definition event_wait_result :: "int \<Rightarrow> int \<Rightarrow> int" where
  "event_wait_result ret status = (if status \<noteq> KUPL_EVENT_STATUS_COMPLETE then KUPL_ERROR else ret)"

partial_function (option) queue_task_loop ::
  "(queue_state \<Rightarrow> (int \<times> queue_state) option) \<Rightarrow> ptr \<Rightarrow> queue_state \<Rightarrow> queue_state option" where
  "queue_task_loop run p s =
     Option.bind (load_task p (qs_graph s)) (\<lambda>t.
       if kupl_tb_test (Some (tk_tb t)) = KUPL_AGAIN
       then Option.bind (run s) (\<lambda>r. if fst r = KUPL_FINISHED then Some (snd r) else queue_task_loop run p (snd r))
       else Some s)"

text \<open>\<open>kupl_task_wait\<close> where the tasks that run are those of this state.\<close>

definition queue_task_wait :: "(queue_state \<Rightarrow> (int \<times> queue_state) option) \<Rightarrow> ptr option \<Rightarrow> queue_state \<Rightarrow>
    (int \<times> queue_state) option" where
  "queue_task_wait run task s =
     (case task of
        None \<Rightarrow> Some (KUPL_ERROR, s)
      | Some p \<Rightarrow> do {
          t \<leftarrow> load_task p (qs_graph s);
          if tb_state (tk_tb t) AND KUPL_TB_STATE_INIT = 0 then Some (KUPL_ERROR, s)
          else if tk_kind t AND KUPL_TASK_KIND_DYNAMIC_MASK = 0 then Some (KUPL_ERROR, s)
          else do { s \<leftarrow> queue_task_loop run p s; Some (KUPL_OK, s) }
        })"

definition kupl_event_wait :: "(queue_state \<Rightarrow> (int \<times> queue_state) option) \<Rightarrow> ptr option \<Rightarrow> queue_state \<Rightarrow>
    (int \<times> queue_state) option" where
  "kupl_event_wait run event s =
     (case event of
        None \<Rightarrow> Some (KUPL_ERROR, s)
      | Some e \<Rightarrow> do {
          v \<leftarrow> qs_events s e;
          if ev_status v = KUPL_EVENT_STATUS_CREATED then Some (KUPL_ERROR, s)
          else do {
            (ret, s) \<leftarrow> queue_task_wait run (ev_task v) s;
            status \<leftarrow> kupl_event_query (Some e) s;
            Some (event_wait_result ret status, s)
          }
        })"

definition kupl_queue_create :: "bool \<Rightarrow> ptr option \<Rightarrow> queue_state \<Rightarrow> ptr option \<times> queue_state" where
  "kupl_queue_create lockok mem s =
     (case mem of
        None \<Rightarrow> (None, s)
      | Some q \<Rightarrow>
          if \<not> lockok then (None, s)
          else (Some q, put_queue q \<lparr>qu_event_count = 0, qu_last_event = None, qu_priority = -1, qu_index = 0,
                                     qu_acquire = False, qu_sync = False\<rparr> s))"

definition kupl_queue_create_with_priority :: "int \<Rightarrow> bool \<Rightarrow> ptr option \<Rightarrow> queue_state \<Rightarrow> (ptr option \<times> queue_state) option" where
  "kupl_queue_create_with_priority priority lockok mem s =
     (if priority < KUPL_LEAST_PRIORITY \<or> priority > KUPL_GREATEST_PRIORITY then Some (None, s)
      else (case kupl_queue_create lockok mem s of
          (None, s) \<Rightarrow> Some (None, s)
        | (Some q, s) \<Rightarrow> do { u \<leftarrow> qs_queues s q; Some (Some q, put_queue q (u\<lparr>qu_priority := priority\<rparr>) s) }))"

definition kupl_queue_wait :: "(queue_state \<Rightarrow> (int \<times> queue_state) option) \<Rightarrow> ptr option \<Rightarrow> queue_state \<Rightarrow>
    (int \<times> queue_state) option" where
  "kupl_queue_wait run queue s =
     (case queue of
        None \<Rightarrow> Some (KUPL_ERROR, s)
      | Some q \<Rightarrow> do {
          u \<leftarrow> qs_queues s q;
          (case (if qu_event_count u \<noteq> 0 then qu_last_event u else None) of
             None \<Rightarrow> Some (KUPL_OK, s)
           | Some e \<Rightarrow> do {
               v \<leftarrow> qs_events s e;
               p \<leftarrow> ev_task v;
               g \<leftarrow> kupl_task_ref (Some p) (qs_graph s);
               (ret, s) \<leftarrow> queue_task_wait run (Some p) (put_graph g s);
               g \<leftarrow> kupl_task_cleanup (Some p) (qs_graph s);
               Some (ret, put_graph g s)
             })
        })"

text \<open>The description that a queue makes of an item: \<open>master\<close> is the first executor of a group.\<close>

definition queue_tb_desc :: "(ptr \<Rightarrow> int) \<Rightarrow> ptr option \<Rightarrow> kupl_queue \<Rightarrow> kupl_queue_item_desc \<Rightarrow> ptr option \<Rightarrow> kupl_tb_desc" where
  "queue_tb_desc master acquired u desc args =
     (let named = qd_field_mask desc AND KUPL_QUEUE_ITEM_DESC_FIELD_NAME \<noteq> 0;
          name = (case qd_name desc of Some n \<Rightarrow> if named then n else ''auto'' | None \<Rightarrow> ''auto'');
          d = \<lparr>td_field_mask = (if qu_priority u < 0 then KUPL_TB_DESC_FIELD_NAME
                              else KUPL_TB_DESC_FIELD_NAME OR KUPL_TB_DESC_FIELD_PRIORITY),
               td_func = qd_func desc, td_args = args, td_name = name, td_priority = qu_priority u, td_flag = 0,
               td_executor_id = 0, td_egroup = None\<rparr>;
          with_group = (\<lambda>g d. d\<lparr>td_egroup := Some g, td_executor_id := master g,
               td_field_mask := td_field_mask d OR KUPL_TB_DESC_FIELD_EGROUP OR KUPL_TB_DESC_FIELD_EXECUTOR_ID\<rparr>);
          d = (case qd_egroup desc of
                 Some g \<Rightarrow> if qd_field_mask desc AND KUPL_QUEUE_ITEM_DESC_FIELD_EGROUP \<noteq> 0 then with_group g d else d
               | None \<Rightarrow> d)
      in case acquired of Some g \<Rightarrow> with_group g d | None \<Rightarrow> d)"

text \<open>
  \<open>kupl_queue_submit\<close>: \<open>call\<close> is the call of the user's function in the caller's thread, \<open>acquire_group\<close>
  the result of \<open>kupl_queue_acquire_egroup\<close>, \<open>udata\<close> the place of the copied arguments.
\<close>

definition kupl_queue_submit :: "(ptr \<Rightarrow> int) \<Rightarrow> (queue_state \<Rightarrow> queue_state option) \<Rightarrow> ptr option \<Rightarrow> ptr \<Rightarrow> queue_env \<Rightarrow>
    ptr option \<Rightarrow> kupl_queue_item_desc option \<Rightarrow> queue_state \<Rightarrow> (int \<times> queue_state) option" where
  "kupl_queue_submit master call acquire_group udata en queue desc s =
     (case (queue, desc) of
        (Some q, Some desc) \<Rightarrow>
          if qd_func desc = None then Some (KUPL_ERROR, s)
          else if qd_field_mask desc AND KUPL_QUEUE_ITEM_DESC_FIELD_NAME \<noteq> 0 \<and> qd_name desc = None then Some (KUPL_ERROR, s)
          else do {
            u \<leftarrow> qs_queues s q;
            if qu_sync u then do { s \<leftarrow> call s; Some (KUPL_OK, s) }
            else do {
              let sized = qd_field_mask desc AND KUPL_QUEUE_ITEM_DESC_FIELD_ARGS_SIZE \<noteq> 0;
              (r, s) \<leftarrow> kupl_event_create_with_udata (if sized then qd_args_size desc else 0) en s;
              (case r of
                 None \<Rightarrow> Some (KUPL_ERROR, s)
               | Some e \<Rightarrow>
                   if qu_acquire u \<and> acquire_group = None
                   then do { s \<leftarrow> kupl_event_destroy (Some e) s; Some (KUPL_ERROR, s) }
                   else do {
                     let tb_desc = queue_tb_desc master (if qu_acquire u then acquire_group else None) u desc
                                     (if sized then Some udata else qd_args desc);
                     (ret, s) \<leftarrow> kupl_event_init e (Some q) tb_desc KUPL_EVENT_TYPE_KERNEL en s;
                     if ret = KUPL_OK then do { s \<leftarrow> kupl_enqueue_event (Some q) e s; Some (ret, s) }
                     else do { s \<leftarrow> kupl_event_destroy (Some e) s; Some (ret, s) }
                   })
            }
          }
      | _ \<Rightarrow> Some (KUPL_ERROR, s))"

text \<open>
  The forms of \<open>queue_submit\<close> for function objects of C++.  The first takes a kernel over a range, with the group
  \<open>groups\<close> finds; \<open>sizeof_data\<close> is the size of what is stored with the task.  Neither looks at whether the
  queue is synchronous or was acquired.
\<close>

record kupl_queue_kernel_desc =
  qk_field_mask :: u64
  qk_range :: "kupl_nd_range option"
  qk_egroup :: "ptr option"
  qk_name :: "string option"

definition KUPL_QUEUE_KERNEL_DESC_FIELD_NAME :: u64 where "KUPL_QUEUE_KERNEL_DESC_FIELD_NAME = kupl_bit 0"

definition queue_submit_check :: "(ptr \<Rightarrow> kupl_egroup) \<Rightarrow> kupl_queue_kernel_desc \<Rightarrow> int option" where
  "queue_submit_check groups desc =
     (case qk_range desc of
        None \<Rightarrow> Some KUPL_ERROR
      | Some rng \<Rightarrow>
          if nr_dim rng \<noteq> 1 then Some KUPL_ERROR
          else do {
            (ok, rng) \<leftarrow> kupl_check_range rng KUPL_LOOP_POLICY_TASK;
            if ok \<noteq> KUPL_OK then Some KUPL_ERROR
            else (case qk_egroup desc of
                None \<Rightarrow> Some KUPL_ERROR
              | Some g \<Rightarrow>
                  if kupl_egroup_get_cur_size (groups g) \<le> 0 then Some KUPL_ERROR
                  else if qk_field_mask desc AND KUPL_QUEUE_KERNEL_DESC_FIELD_NAME \<noteq> 0 \<and> qk_name desc = None then Some KUPL_ERROR
                  else Some KUPL_OK)
          })"

definition LAMBDA_KERNEL_WRAPPER :: ptr where "LAMBDA_KERNEL_WRAPPER = 4"
definition LAMBDA_FUNC :: ptr where "LAMBDA_FUNC = 5"

definition queue_submit_item :: "ptr \<Rightarrow> kupl_tb_desc \<Rightarrow> nat \<Rightarrow> queue_env \<Rightarrow> queue_state \<Rightarrow> (int \<times> queue_state) option" where
  "queue_submit_item q tb_desc udata_size en s =
     do {
       (r, s) \<leftarrow> kupl_event_create_with_udata udata_size en s;
       (case r of
          None \<Rightarrow> Some (KUPL_ERROR, s)
        | Some e \<Rightarrow> do {
            (ret, s) \<leftarrow> kupl_event_init e (Some q) tb_desc KUPL_EVENT_TYPE_KERNEL en s;
            if ret \<noteq> KUPL_OK then do { s \<leftarrow> kupl_event_destroy (Some e) s; Some (ret, s) }
            else do { s \<leftarrow> kupl_enqueue_event (Some q) e s; Some (ret, s) }
          })
     }"

definition queue_submit_kernel :: "(ptr \<Rightarrow> kupl_egroup) \<Rightarrow> nat \<Rightarrow> bool \<Rightarrow> ptr \<Rightarrow> queue_env \<Rightarrow> ptr option \<Rightarrow>
    kupl_queue_kernel_desc option \<Rightarrow> queue_state \<Rightarrow> (int \<times> queue_state) option" where
  "queue_submit_kernel groups sizeof_data func udata en queue desc s =
     (case (queue, desc) of
        (Some q, Some desc) \<Rightarrow>
          if \<not> func then Some (KUPL_ERROR, s)
          else do {
            ok \<leftarrow> queue_submit_check groups desc;
            if ok \<noteq> KUPL_OK then Some (KUPL_ERROR, s)
            else do {
              let named = qk_field_mask desc AND KUPL_QUEUE_KERNEL_DESC_FIELD_NAME \<noteq> 0;
              let tb_desc = \<lparr>td_field_mask = KUPL_TB_DESC_FIELD_NAME, td_func = Some LAMBDA_KERNEL_WRAPPER, td_args = Some udata,
                             td_name = (case qk_name desc of Some n \<Rightarrow> if named then n else ''auto'' | None \<Rightarrow> ''auto''),
                             td_priority = 0, td_flag = 0, td_executor_id = 0, td_egroup = None\<rparr>;
              queue_submit_item q tb_desc sizeof_data en s
            }
          }
      | _ \<Rightarrow> Some (KUPL_ERROR, s))"

definition queue_submit_lambda :: "(ptr \<Rightarrow> int) \<Rightarrow> nat \<Rightarrow> bool \<Rightarrow> ptr \<Rightarrow> queue_env \<Rightarrow> ptr option \<Rightarrow>
    kupl_queue_item_desc option \<Rightarrow> queue_state \<Rightarrow> (int \<times> queue_state) option" where
  "queue_submit_lambda master sizeof_data func udata en queue desc s =
     (case (queue, desc) of
        (Some q, Some desc) \<Rightarrow>
          if \<not> func then Some (KUPL_ERROR, s)
          else if qd_field_mask desc AND KUPL_QUEUE_ITEM_DESC_FIELD_NAME \<noteq> 0 \<and> qd_name desc = None then Some (KUPL_ERROR, s)
          else do {
            u \<leftarrow> qs_queues s q;
            queue_submit_item q (queue_tb_desc master None u (desc\<lparr>qd_func := Some LAMBDA_FUNC\<rparr>) (Some udata)) sizeof_data en s
          }
      | _ \<Rightarrow> Some (KUPL_ERROR, s))"

definition queue_wait_enqueue :: "queue_env \<Rightarrow> ptr \<Rightarrow> ptr \<Rightarrow> queue_state \<Rightarrow> (ptr option \<times> int \<times> queue_state) option" where
  "queue_wait_enqueue en q w s =
     do {
       (r, s) \<leftarrow> kupl_event_create en s;
       (case r of
          None \<Rightarrow> Some (None, KUPL_ERROR, s)
        | Some e \<Rightarrow> do {
            (ret, s) \<leftarrow> kupl_event_init_wait e (Some q) (Some w) en s;
            if ret \<noteq> KUPL_OK then Some (Some e, ret, s)
            else do { s \<leftarrow> kupl_enqueue_event (Some q) e s; Some (Some e, ret, s) }
          })
     }"

definition kupl_queue_wait_event :: "(queue_state \<Rightarrow> (int \<times> queue_state) option) \<Rightarrow> queue_env \<Rightarrow> ptr option \<Rightarrow> ptr option \<Rightarrow>
    queue_state \<Rightarrow> (int \<times> queue_state) option" where
  "kupl_queue_wait_event run en queue wait_event s =
     (case (queue, wait_event) of
        (Some q, Some w) \<Rightarrow> do {
          status \<leftarrow> kupl_event_query (Some w) s;
          if status = KUPL_EVENT_STATUS_CREATED then Some (KUPL_ERROR, s)
          else do {
            (r, ret, s) \<leftarrow> queue_wait_enqueue en q w s;
            (case r of
               None \<Rightarrow> Some (KUPL_ERROR, s)
             | Some e \<Rightarrow>
                 if ret \<noteq> KUPL_OK then do { s \<leftarrow> kupl_event_destroy (Some e) s; Some (ret, s) }
                 else do {
                   v \<leftarrow> qs_events s e;
                   (ret, s) \<leftarrow> queue_task_wait run (ev_task v) s;
                   s \<leftarrow> kupl_event_destroy (Some e) s;
                   Some (ret, s)
                 })
          }
        }
      | _ \<Rightarrow> Some (KUPL_ERROR, s))"

section \<open>Queues by index\<close>

definition kupl_get_queue_priority_range :: "bool \<Rightarrow> int \<times> (int \<times> int) option" where
  "kupl_get_queue_priority_range ptrs_ok =
     (if \<not> ptrs_ok then (KUPL_ERROR, None) else (KUPL_OK, Some (KUPL_LEAST_PRIORITY, KUPL_GREATEST_PRIORITY)))"

definition kupl_queue_acquire :: "bool \<Rightarrow> ptr option \<Rightarrow> int \<Rightarrow> queue_state \<Rightarrow> (ptr option \<times> queue_state) option" where
  "kupl_queue_acquire lockok mem index s =
     (case map_of (qs_table s) index of
        Some q \<Rightarrow> Some (Some q, s)
      | None \<Rightarrow>
          (case kupl_queue_create lockok mem s of
             (None, s) \<Rightarrow> Some (None, s)
           | (Some q, s) \<Rightarrow> do {
               u \<leftarrow> qs_queues s q;
               let s = put_queue q (u\<lparr>qu_index := index, qu_acquire := True, qu_sync := (index = KUPL_ASYNC_SYNC)\<rparr>) s;
               Some (Some q, s\<lparr>qs_table := insort_key fst (index, q) (qs_table s)\<rparr>)
             }))"

definition encode_egroup_key :: "int \<Rightarrow> int \<Rightarrow> u64" where
  "encode_egroup_key eid n = push_bit 32 (ucast (word_of_int eid :: u32)) OR ucast (word_of_int n :: u32)"

text \<open>
  The group of an acquired queue: \<open>nthr\<close> is the kernel concurrency, \<open>tbl\<close> the groups made so far, \<open>create\<close> the call
  of \<open>kupl_egroup_create\<close>.
\<close>

definition kupl_queue_acquire_egroup :: "int \<Rightarrow> int \<Rightarrow> (int list \<Rightarrow> int \<Rightarrow> kupl_egroup option option) \<Rightarrow> int \<Rightarrow>
    (u64 \<Rightarrow> kupl_egroup option) \<Rightarrow> (kupl_egroup option \<times> (u64 \<Rightarrow> kupl_egroup option)) option" where
  "kupl_queue_acquire_egroup nthr num_executors create index tbl =
     (if nthr \<le> 0 then Some (None, tbl)
      else do {
        let groups = num_executors sdiv nthr;
        if groups \<le> 0 then Some (None, tbl)
        else if index = -2147483648 then None
        else do {
          let eid = (index - 1) smod groups * nthr;
          let key = encode_egroup_key eid nthr;
          (case tbl key of
             Some g \<Rightarrow> Some (Some g, tbl)
           | None \<Rightarrow>
               if nthr > int KUPL_EXECUTOR_ID_MAX then None
               else do {
                 g \<leftarrow> create (map (\<lambda>i. int i + eid) [0..<nat nthr]) nthr;
                 Some (g, case g of None \<Rightarrow> tbl | Some g \<Rightarrow> tbl(key := Some g))
               })
        }
      })"

text \<open>The queue leaves the table before it is waited for.\<close>

definition kupl_queue_destroy :: "(queue_state \<Rightarrow> (int \<times> queue_state) option) \<Rightarrow> ptr option \<Rightarrow> queue_state \<Rightarrow> queue_state option" where
  "kupl_queue_destroy run queue s =
     (case queue of
        None \<Rightarrow> Some s
      | Some q \<Rightarrow> do {
          u \<leftarrow> qs_queues s q;
          let s = (if qu_acquire u then s\<lparr>qs_table := [x\<leftarrow>qs_table s. fst x \<noteq> qu_index u]\<rparr> else s);
          (r, s) \<leftarrow> kupl_queue_wait run (Some q) s;
          Some (s\<lparr>qs_queues := (qs_queues s)(q := None)\<rparr>)
        })"

fun queue_wait_each :: "(queue_state \<Rightarrow> (int \<times> queue_state) option) \<Rightarrow> ptr list \<Rightarrow> int \<Rightarrow> queue_state \<Rightarrow>
    (int \<times> queue_state) option" where
  "queue_wait_each run [] status s = Some (status, s)"
| "queue_wait_each run (q # qs) status s =
     do {
       (ret, s) \<leftarrow> kupl_queue_wait run (Some q) s;
       queue_wait_each run qs (if ret \<noteq> KUPL_OK then KUPL_ERROR else status) s
     }"

definition kupl_queue_wait_all :: "(queue_state \<Rightarrow> (int \<times> queue_state) option) \<Rightarrow> queue_state \<Rightarrow> (int \<times> queue_state) option" where
  "kupl_queue_wait_all run s = queue_wait_each run (map snd (qs_table s)) KUPL_OK s"

fun queue_destroy_each :: "(queue_state \<Rightarrow> (int \<times> queue_state) option) \<Rightarrow> ptr list \<Rightarrow> queue_state \<Rightarrow> queue_state option" where
  "queue_destroy_each run [] s = Some s"
| "queue_destroy_each run (q # qs) s = do { s \<leftarrow> kupl_queue_destroy run (Some q) s; queue_destroy_each run qs s }"

text \<open>\<open>destroy_groups\<close> is \<open>kupl_egroup_destroy\<close> on every group made for a queue, before any queue is waited for.\<close>

definition kupl_queue_fini :: "(queue_state \<Rightarrow> (int \<times> queue_state) option) \<Rightarrow> (queue_state \<Rightarrow> queue_state option) \<Rightarrow>
    queue_state \<Rightarrow> queue_state option" where
  "kupl_queue_fini run destroy_groups s =
     do { s \<leftarrow> destroy_groups s; queue_destroy_each run (map snd (qs_table s)) s }"

end
