(* ===== verification/Kupl_Queue_Inv.thy ===== *)
theory Kupl_Queue_Inv
  imports Kupl_Queue Kupl_Graph_Run
begin

text \<open>
  The invariant of queues and events.  The log lists the submitted items in their order, each with its
  task, its queue and its event.  \<open>K\<close> are the pairs of an item and one that was told to wait for its event,
  \<open>D\<close> the tasks whose item has left its queue, \<open>W\<close> those whose event
  the user holds; \<open>U\<close>, \<open>X\<close>, \<open>F\<close> are as in Kupl\_Dag\_Inv.
\<close>

section \<open>Logs\<close>

type_synonym queue_log = "(ptr \<times> ptr \<times> ptr) list"

definition tasks :: "queue_log \<Rightarrow> ptr set" where
  "tasks log = fst ` set log"

definition queue_of :: "queue_log \<Rightarrow> ptr \<Rightarrow> ptr" where
  "queue_of log p = (case map_of log p of None \<Rightarrow> 0 | Some (q, e) \<Rightarrow> q)"

definition event_of :: "queue_log \<Rightarrow> ptr \<Rightarrow> ptr" where
  "event_of log p = (case map_of log p of None \<Rightarrow> 0 | Some (q, e) \<Rightarrow> e)"

definition items :: "queue_log \<Rightarrow> ptr \<Rightarrow> queue_log" where
  "items log q = [x\<leftarrow>log. fst (snd x) = q]"

definition last_item :: "ptr set \<Rightarrow> queue_log \<Rightarrow> ptr option" where
  "last_item D xs = (if xs = [] \<or> fst (last xs) \<in> D then None else Some (snd (snd (last xs))))"

definition log_ok :: "queue_log \<Rightarrow> bool" where
  "log_ok log \<longleftrightarrow> distinct (map fst log) \<and> distinct (map (snd \<circ> snd) log)"

lemma log_of:
  assumes "log_ok log" and "(p, q, e) \<in> set log"
  shows "queue_of log p = q" "event_of log p = e"
  using assms by (simp_all add: log_ok_def queue_of_def event_of_def)

lemma log_event: "log_ok log \<Longrightarrow> (p, q, e) \<in> set log \<Longrightarrow> (p', q', e) \<in> set log \<Longrightarrow> p' = p \<and> q' = q"
  unfolding log_ok_def distinct_map by (elim conjE, drule inj_onD[of "snd \<circ> snd" _ "(p, q, e)" "(p', q', e)"]) auto

lemma log_task: "log_ok log \<Longrightarrow> (p, q, e) \<in> set log \<Longrightarrow> (p, q', e') \<in> set log \<Longrightarrow> q' = q \<and> e' = e"
  using log_of by metis

lemma tasks_log: "p \<in> tasks log \<longleftrightarrow> (\<exists>q e. (p, q, e) \<in> set log)"
  by (force simp: tasks_def)

lemma log_snoc:
  assumes "p \<notin> tasks log"
  shows "queue_of (log @ [(p, q, e)]) x = (if x = p then q else queue_of log x)"
    "event_of (log @ [(p, q, e)]) x = (if x = p then e else event_of log x)"
proof -
  have "map_of log p = None" using assms by (simp add: tasks_def map_of_eq_None_iff)
  then show "queue_of (log @ [(p, q, e)]) x = (if x = p then q else queue_of log x)"
    "event_of (log @ [(p, q, e)]) x = (if x = p then e else event_of log x)"
    by (auto simp: queue_of_def event_of_def map_of_append map_add_def split: option.splits)
qed

lemma items_snoc: "items (log @ [(p, q, e)]) q' = items log q' @ (if q' = q then [(p, q, e)] else [])"
  by (auto simp: items_def)

lemma set_items: "x \<in> set (items log q) \<longleftrightarrow> x \<in> set log \<and> fst (snd x) = q"
  by (auto simp: items_def)

lemma filter_last:
  "filter P xs \<noteq> [] \<Longrightarrow> \<exists>a b. xs = a @ last (filter P xs) # b \<and> filter P b = []"
proof (induction xs rule: rev_induct)
  case (snoc x xs)
  show ?case
  proof (cases "P x")
    case True
    then show ?thesis by (intro exI[of _ xs] exI[of _ "[]"]) simp
  next
    case False
    then obtain a b where "xs = a @ last (filter P xs) # b" "filter P b = []" using snoc by auto
    then show ?thesis using False by (intro exI[of _ a] exI[of _ "b @ [x]"]) simp
  qed
qed simp

text \<open>The last item of a queue comes after all others.\<close>

lemma last_item_pos:
  assumes "distinct (map fst log)" and "items log q \<noteq> []" and "x \<in> set log" and "fst (snd x) = q"
  shows "x = last (items log q) \<or> pos log (fst x) < pos log (fst (last (items log q)))"
proof -
  let ?l = "last (items log q)"
  obtain a b where ab: "log = a @ ?l # b" "[x\<leftarrow>b. fst (snd x) = q] = []"
    using filter_last[OF assms(2)[unfolded items_def]] by (auto simp: items_def)
  have pl: "pos log (fst ?l) = length a"
    using pos_nth[OF assms(1), of "length a"] ab(1) by (metis length_append length_Cons less_add_same_cancel1 nth_append_length zero_less_Suc)
  have "x \<notin> set b" using ab(2) assms(4) by (auto simp: filter_empty_conv)
  then consider "x = ?l" | "x \<in> set a" using assms(3) ab(1) by (metis Un_iff set_ConsD set_append)
  then show ?thesis
  proof cases
    case 2
    then obtain i where i: "i < length a" "a ! i = x" by (auto simp: in_set_conv_nth)
    have "i < length log" "log ! i = x" using i ab(1) by (metis length_append trans_less_add1, metis nth_append)
    then have "pos log (fst x) = i" using pos_nth[OF assms(1)] by blast
    then show ?thesis using pl i(1) by simp
  qed simp
qed

section \<open>The invariant\<close>

definition held :: "queue_log \<Rightarrow> ptr set \<Rightarrow> ptr set \<Rightarrow> ptr set" where
  "held log D W = {p \<in> tasks log. p \<notin> D \<or> p \<in> W}"

definition event_ok :: "ptr set \<Rightarrow> ptr set \<Rightarrow> queue_state \<Rightarrow> ptr \<times> ptr \<times> ptr \<Rightarrow> bool" where
  "event_ok D W s x = (case x of (p, q, e) \<Rightarrow>
     (case qs_events s e of
        None \<Rightarrow> p \<in> D \<and> p \<notin> W
      | Some v \<Rightarrow> (p \<notin> D \<or> p \<in> W) \<and> ev_task v = Some p \<and> ev_q v = Some q \<and> ev_lock v \<and> ev_q_set v \<and>
          ev_ref v = own (- D) p + own W p \<and> ev_status v \<noteq> KUPL_EVENT_STATUS_CREATED))"

definition queues_ok :: "queue_log \<Rightarrow> ptr set \<Rightarrow> queue_state \<Rightarrow> bool" where
  "queues_ok log D s \<longleftrightarrow> (\<forall>x\<in>set log. qs_queues s (fst (snd x)) \<noteq> None) \<and>
     (\<forall>q u. qs_queues s q = Some u \<longrightarrow> qu_last_event u = last_item D (items log q) \<and>
        qu_event_count u = of_nat (length [x\<leftarrow>items log q. fst x \<notin> D]))"

definition in_order :: "queue_log \<Rightarrow> ptr set \<Rightarrow> (ptr \<times> ptr) set \<Rightarrow> bool" where
  "in_order log D E \<longleftrightarrow>
     (\<forall>x\<in>tasks log. \<forall>y\<in>tasks log. queue_of log x = queue_of log y \<and> pos log x < pos log y \<and> x \<notin> D \<longrightarrow> (x, y) \<in> E\<^sup>+)"

definition waits_ok :: "(ptr \<times> ptr) set \<Rightarrow> ptr set \<Rightarrow> (ptr \<times> ptr) set \<Rightarrow> bool" where
  "waits_ok K N E \<longleftrightarrow> (\<forall>(x, y)\<in>K. x \<in> N \<longrightarrow> (x, y) \<in> E\<^sup>+)"

definition queue_inv :: "ptr \<Rightarrow> queue_log \<Rightarrow> (ptr \<times> ptr) set \<Rightarrow> ptr set \<Rightarrow> ptr set \<Rightarrow> ptr set \<Rightarrow> ptr set \<Rightarrow> ptr set \<Rightarrow> queue_state \<Rightarrow> bool" where
  "queue_inv c log K D W U X F s \<longleftrightarrow>
     (\<exists>E. base_inv c U X F (\<lambda>x. own U x + own (held log D W) x) E (qs_graph s) \<and> in_order log D E \<and>
        (\<forall>(x, y)\<in>E. pos log x < pos log y) \<and> waits_ok K (U - F) E) \<and>
     (\<forall>x\<in>U - X. 0 < npred (qs_graph s) x) \<and> log_ok log \<and>
     (\<forall>x\<in>set log. event_ok D W s x) \<and> queues_ok log D s \<and>
     U \<subseteq> tasks log \<and> tasks log - U \<subseteq> D \<and> D \<inter> U \<subseteq> X \<and> F \<subseteq> D \<and> D \<subseteq> tasks log \<and> W \<subseteq> tasks log"

lemma queue_inv_base:
  assumes "queue_inv c log K D W U X F s"
  obtains E where "base_inv c U X F (\<lambda>x. own U x + own (held log D W) x) E (qs_graph s)" "in_order log D E"
    "\<forall>(x, y)\<in>E. pos log x < pos log y" "waits_ok K (U - F) E"
  using assms unfolding queue_inv_def by blast

lemma queue_inv_sets:
  assumes "queue_inv c log K D W U X F s"
  shows "U \<subseteq> tasks log" "tasks log - U \<subseteq> D" "D \<inter> U \<subseteq> X" "F \<subseteq> D" "D \<subseteq> tasks log" "W \<subseteq> tasks log" "F \<subseteq> X" "X \<subseteq> U"
    "log_ok log" "\<forall>x\<in>set log. event_ok D W s x" "queues_ok log D s" "\<forall>x\<in>U - X. 0 < npred (qs_graph s) x"
  using assms by (auto simp: queue_inv_def dest: base_sets)

text \<open>The event of an item that is held.\<close>

lemma event_live:
  assumes inv: "queue_inv c log K D W U X F s" and p: "(p, q, e) \<in> set log" "p \<notin> D \<or> p \<in> W"
  obtains v where "qs_events s e = Some v" "ev_task v = Some p" "ev_q v = Some q" "ev_lock v" "ev_q_set v"
    "ev_ref v = own (- D) p + own W p" "ev_status v \<noteq> KUPL_EVENT_STATUS_CREATED"
proof -
  have "event_ok D W s (p, q, e)" using queue_inv_sets(10)[OF inv] p(1) by blast
  then show ?thesis using p(2) that by (auto simp: event_ok_def split: option.splits)
qed

text \<open>An item that was told to wait for another one and was handed out finds it marked finished.\<close>

lemma queue_waits:
  assumes inv: "queue_inv c log K D W U X F s" and xy: "(x, y) \<in> K" "y \<in> X \<or> y \<in> D"
  shows "x \<notin> U - F"
proof
  assume "x \<in> U - F"
  obtain E where E: "base_inv c U X F (\<lambda>x. own U x + own (held log D W) x) E (qs_graph s)" "waits_ok K (U - F) E"
    using queue_inv_base[OF inv] .
  have "(x, y) \<in> E\<^sup>+" using E(2) xy(1) \<open>x \<in> U - F\<close> by (auto simp: waits_ok_def)
  then obtain z where z: "(z, y) \<in> E" by (metis tranclE)
  then have "y \<in> X" using base_sets[OF E(1)] xy(2) queue_inv_sets(3)[OF inv] by blast
  then show False using base_X_no_edge[OF E(1)] z by blast
qed

text \<open>No item that was handed out waits for one of its queue that is still in it.\<close>

lemma queue_order:
  assumes inv: "queue_inv c log K D W U X F s" and y: "y \<in> X" and x: "x \<in> tasks log" "queue_of log x = queue_of log y"
    "pos log x < pos log y"
  shows "x \<in> D"
proof (rule ccontr)
  assume "x \<notin> D"
  obtain E where E: "base_inv c U X F (\<lambda>x. own U x + own (held log D W) x) E (qs_graph s)" "in_order log D E"
    using queue_inv_base[OF inv] .
  have "y \<in> tasks log" using y queue_inv_sets[OF inv] by blast
  then have "(x, y) \<in> E\<^sup>+" using E(2) x \<open>x \<notin> D\<close> by (simp add: in_order_def)
  then show False using base_X_no_edge[OF E(1) y] by (metis tranclE)
qed

section \<open>Steps of the scheduler\<close>

lemma queue_inv_graph:
  assumes inv: "queue_inv c log K D W U X F s"
    and E: "base_inv c U' X' F' (\<lambda>x. own U' x + own (held log D W) x) E' g" "in_order log D E'"
      "\<forall>(x, y)\<in>E'. pos log x < pos log y" "waits_ok K (U' - F') E'"
    and n: "\<forall>x\<in>U' - X'. 0 < npred g x" and sets: "U' \<subseteq> tasks log" "tasks log - U' \<subseteq> D" "D \<inter> U' \<subseteq> X'" "F' \<subseteq> D"
  shows "queue_inv c log K D W U' X' F' (put_graph g s)"
proof -
  have "event_ok D W (put_graph g s) x = event_ok D W s x" for x
    by (cases x) (simp add: event_ok_def put_graph_def)
  moreover have "queues_ok log D (put_graph g s) = queues_ok log D s" by (simp add: queues_ok_def put_graph_def)
  moreover have "qs_graph (put_graph g s) = g" by (simp add: put_graph_def)
  ultimately show ?thesis
    using assms queue_inv_sets[OF inv] unfolding queue_inv_def by (simp only: simp_thms) blast
qed

lemma queue_mark:
  assumes inv: "queue_inv c log K D W U X F s" and p: "p \<in> X" "p \<in> D" "p \<notin> F"
  shows "\<exists>g. task_mark_finished p (qs_graph s) = Some g \<and> gr_pool g = gr_pool (qs_graph s) \<and>
    queue_inv c log K D W U X (insert p F) (put_graph g s)"
proof -
  obtain E where E: "base_inv c U X F (\<lambda>x. own U x + own (held log D W) x) E (qs_graph s)" "in_order log D E"
    "\<forall>(x, y)\<in>E. pos log x < pos log y" "waits_ok K (U - F) E" using queue_inv_base[OF inv] .
  from base_marked[OF E(1) p(1,3)] obtain g where g: "task_mark_finished p (qs_graph s) = Some g"
    "base_inv c U X (insert p F) (\<lambda>x. own U x + own (held log D W) x) E g" "npred g = npred (qs_graph s)"
    "rest g = rest (qs_graph s)" by blast
  have wt: "waits_ok K (U - insert p F) E" using E(4) by (auto simp: waits_ok_def)
  have "queue_inv c log K D W U X (insert p F) (put_graph g s)"
    using queue_inv_sets[OF inv] p g(3) by (intro queue_inv_graph[OF inv g(2) E(2,3) wt]) auto
  then show ?thesis using g by (simp add: rest_def)
qed

lemma queue_finish:
  assumes inv: "queue_inv c log K D W U X F s" and p: "p \<in> F"
  shows "\<exists>g rs. kupl_task_finish p (qs_graph s) = Some g \<and> gr_pool g = gr_pool (qs_graph s) @ rs \<and> distinct rs \<and>
    set rs \<inter> X = {} \<and> queue_inv c log K D W (U - {p}) ((X - {p}) \<union> set rs) (F - {p}) (put_graph g s)"
proof -
  let ?R = "\<lambda>x. own U x + own (held log D W) x"
  obtain E where E: "base_inv c U X F ?R E (qs_graph s)" "in_order log D E"
    "\<forall>(x, y)\<in>E. pos log x < pos log y" "waits_ok K (U - F) E" using queue_inv_base[OF inv] .
  note S = queue_inv_sets[OF inv]
  have pX: "p \<in> X" "p \<in> U" "p \<in> D" using p S by auto
  have noE: "\<forall>x. (x, p) \<notin> E" using base_X_no_edge[OF E(1) pX(1)] by blast
  have "0 < ?R p" using pX(2) by simp
  from base_finish[OF E(1) p this] obtain g rs where g: "kupl_task_finish p (qs_graph s) = Some g"
    "base_inv c (U - {p}) ((X - {p}) \<union> set rs) (F - {p}) (?R(p := ?R p - 1)) (E - {p} \<times> UNIV) g"
    "distinct rs" "set rs \<subseteq> U" "set rs = {q \<in> U. 0 < npred (qs_graph s) q \<and> npred g q = 0}"
    "gr_pool g = gr_pool (qs_graph s) @ rs" by blast
  have R: "?R(p := ?R p - 1) = (\<lambda>x. own (U - {p}) x + own (held log D W) x)" using pX by auto
  have ord: "in_order log D (E - {p} \<times> UNIV)"
    using E(2) path_avoids[OF _ _ noE] pX(3) unfolding in_order_def by metis
  have wt: "waits_ok K (U - {p} - (F - {p})) (E - {p} \<times> UNIV)"
    using E(4) path_avoids[OF _ _ noE] unfolding waits_ok_def by blast
  have "x \<in> D" if "x \<in> tasks log" "x \<notin> U \<or> x = p" for x using that S pX by blast
  then have "queue_inv c log K D W (U - {p}) ((X - {p}) \<union> set rs) (F - {p}) (put_graph g s)"
    using S E(3) g(5) wt by (intro queue_inv_graph[OF inv g(2)[unfolded R] ord]) auto
  moreover have "set rs \<inter> X = {}" using g(5) base_no_pred[OF E(1)] by auto
  ultimately show ?thesis using g by blast
qed

end
