(* ===== verification/Kupl_Queue_Ops.thy ===== *)
theory Kupl_Queue_Ops
  imports Kupl_Queue_Inv
begin

text \<open>
  The operations on queues and events keep the invariant of Kupl\_Queue\_Inv: the end of an item, the
  calls that create queues, release events, and enqueue.
\<close>

section \<open>The end of an item\<close>

lemma graph_of_put [simp]: "qs_graph (put_graph g s) = g" "qs_graph (put_event e v s) = qs_graph s" "qs_graph (put_queue q u s) = qs_graph s"
  and events_of_put [simp]: "qs_events (put_graph g s) = qs_events s" "qs_events (put_event e v s) = (qs_events s)(e := Some v)"
    "qs_events (put_queue q u s) = qs_events s"
  and queues_of_put [simp]: "qs_queues (put_graph g s) = qs_queues s" "qs_queues (put_event e v s) = qs_queues s"
    "qs_queues (put_queue q u s) = (qs_queues s)(q := Some u)"
  by (simp_all add: put_graph_def put_event_def put_queue_def)

text \<open>A change to one event and one queue.\<close>

lemma events_ok_upd:
  assumes log: "log_ok log" "(p, q, e) \<in> set log" and ok: "\<forall>x\<in>set log. event_ok D W s x"
    and e: "event_ok D' W' s' (p, q, e)" and s': "\<And>e'. e' \<noteq> e \<Longrightarrow> qs_events s' e' = qs_events s e'"
    and D: "\<And>p'. p' \<noteq> p \<Longrightarrow> (p' \<in> D' \<longleftrightarrow> p' \<in> D) \<and> (p' \<in> W' \<longleftrightarrow> p' \<in> W)"
  shows "\<forall>x\<in>set log. event_ok D' W' s' x"
proof
  fix x assume x: "x \<in> set log"
  obtain p' q' e' where x': "x = (p', q', e')" by (cases x) blast
  show "event_ok D' W' s' x"
  proof (cases "e' = e")
    case True
    then show ?thesis using log_event[OF log(1,2)] x x' e by blast
  next
    case False
    then have "p' \<noteq> p" using log_task[OF log(1,2)] x x' by blast
    then have "event_ok D' W' s' (p', q', e') = event_ok D W s (p', q', e')"
      using D[of p'] s'[OF False] by (cases "qs_events s e'") (simp_all add: event_ok_def)
    then show ?thesis using ok x x' by blast
  qed
qed

lemma queue_set_status:
  assumes inv: "queue_inv c log K D W U X F s" and p: "(p, q, e) \<in> set log" "p \<notin> D \<or> p \<in> W" and st: "st \<noteq> KUPL_EVENT_STATUS_CREATED"
  shows "\<exists>v. kupl_event_set_status e st s = Some (put_event e v s) \<and> queue_inv c log K D W U X F (put_event e v s)"
proof -
  obtain v where v: "qs_events s e = Some v" "ev_task v = Some p" "ev_q v = Some q" "ev_lock v" "ev_q_set v"
    "ev_ref v = own (- D) p + own W p" using event_live[OF inv p] by blast
  let ?v = "v\<lparr>ev_status := st\<rparr>"
  note S = queue_inv_sets[OF inv]
  have "event_ok D W (put_event e ?v s) (p, q, e)" using v p(2) st by (auto simp: event_ok_def)
  from events_ok_upd[OF S(9) p(1) S(10) this] have "\<forall>x\<in>set log. event_ok D W (put_event e ?v s) x" by simp
  then have "queue_inv c log K D W U X F (put_event e ?v s)"
    using inv unfolding queue_inv_def queues_ok_def by simp
  then show ?thesis using v(1) by (auto simp: kupl_event_set_status_def)
qed

text \<open>A reference to an event is dropped: by the queue (\<open>D'\<close> grows) or by the user (\<open>W'\<close> shrinks).\<close>

lemma event_dropped:
  assumes inv: "queue_inv c log K D W U X F s" and p: "(p, q, e) \<in> set log" and E: "base_inv c U X F (\<lambda>x. own U x + own (held log D W) x) E (qs_graph s)"
    and drop: "p \<notin> D \<and> D' = insert p D \<and> W' = W \<or> p \<in> W \<and> D' = D \<and> W' = W - {p}"
  shows "\<exists>s'. kupl_event_deref e s = Some s' \<and> (\<forall>x\<in>set log. event_ok D' W' s' x) \<and>
    base_inv c U X F (\<lambda>x. own U x + own (held log D' W') x) E (qs_graph s') \<and>
    (\<forall>x\<in>U. npred (qs_graph s') x = npred (qs_graph s) x) \<and> gr_pool (qs_graph s') = gr_pool (qs_graph s) \<and>
    qs_queues s' = qs_queues s"
proof -
  note S = queue_inv_sets[OF inv]
  have pt: "p \<in> tasks log" using p tasks_log by blast
  obtain v where v: "qs_events s e = Some v" "ev_task v = Some p" "ev_q v = Some q" "ev_lock v" "ev_q_set v"
    "ev_ref v = own (- D) p + own W p" "ev_status v \<noteq> KUPL_EVENT_STATUS_CREATED"
    using event_live[OF inv p] drop by blast
  have D: "(p' \<in> D' \<longleftrightarrow> p' \<in> D) \<and> (p' \<in> W' \<longleftrightarrow> p' \<in> W)" if "p' \<noteq> p" for p' using drop that by auto
  show ?thesis
  proof (cases "ev_ref v = 1")
    case False
    let ?s = "put_event e (v\<lparr>ev_ref := ev_ref v - 1\<rparr>) s"
    have "event_ok D' W' ?s (p, q, e)" using v drop False by (auto simp: event_ok_def split: if_splits)
    from events_ok_upd[OF S(9) p S(10) this] D have "\<forall>x\<in>set log. event_ok D' W' ?s x" by simp
    moreover have "held log D' W' = held log D W" using drop v(6) False by (auto simp: held_def split: if_splits)
    ultimately show ?thesis using E v(1) False by (intro exI[of _ ?s]) (simp add: kupl_event_deref_def)
  next
    case True
    have pn: "p \<in> D'" "p \<notin> W'" using drop True v(6) by (auto split: if_splits)
    have ph: "p \<in> held log D W" and h: "held log D' W' = held log D W - {p}"
      using drop pn pt D by (auto simp: held_def)
    have "0 < own U p + own (held log D W) p" "p \<in> U \<longrightarrow> 1 < own U p + own (held log D W) p" using ph by auto
    from base_deref[OF E this] obtain g where g: "kupl_gnode_deref (Some p) (qs_graph s) = Some g"
      "base_inv c U X F ((\<lambda>x. own U x + own (held log D W) x)(p := own U p + own (held log D W) p - 1)) E g"
      "\<forall>x\<in>U. npred g x = npred (qs_graph s) x" "rest g = rest (qs_graph s)" by blast
    have R: "(\<lambda>x. own U x + own (held log D W) x)(p := own U p + own (held log D W) p - 1) =
        (\<lambda>x. own U x + own (held log D' W') x)"
      unfolding h fun_eq_iff fun_upd_apply using ph by simp
    let ?s = "put_graph g (s\<lparr>qs_events := (qs_events s)(e := None)\<rparr>)"
    have "event_ok D' W' ?s (p, q, e)" using pn by (simp add: event_ok_def)
    from events_ok_upd[OF S(9) p S(10) this] D have "\<forall>x\<in>set log. event_ok D' W' ?s x" by simp
    moreover have "kupl_event_deref e s = Some ?s"
      using g(1) v True by (simp add: kupl_event_deref_def kupl_task_cleanup_def kupl_gnode_deref_def)
    moreover have "qs_graph ?s = g" "qs_queues ?s = qs_queues s" by (simp_all add: put_graph_def)
    ultimately show ?thesis using g(2-4) unfolding R by (intro exI[of _ ?s]) (simp add: rest_def)
  qed
qed

lemma queue_destroyed:
  assumes inv: "queue_inv c log K D W U X F s" and p: "(p, q, e) \<in> set log" "p \<in> W"
  shows "\<exists>s'. kupl_event_destroy (Some e) s = Some s' \<and> queue_inv c log K D (W - {p}) U X F s' \<and>
    gr_pool (qs_graph s') = gr_pool (qs_graph s)"
proof -
  note S = queue_inv_sets[OF inv]
  obtain E where E: "base_inv c U X F (\<lambda>x. own U x + own (held log D W) x) E (qs_graph s)" "in_order log D E"
    "\<forall>(x, y)\<in>E. pos log x < pos log y" "waits_ok K (U - F) E" using queue_inv_base[OF inv] .
  obtain s' where s': "kupl_event_deref e s = Some s'" "\<forall>x\<in>set log. event_ok D (W - {p}) s' x"
    "base_inv c U X F (\<lambda>x. own U x + own (held log D (W - {p})) x) E (qs_graph s')"
    "\<forall>x\<in>U. npred (qs_graph s') x = npred (qs_graph s) x" "gr_pool (qs_graph s') = gr_pool (qs_graph s)"
    "qs_queues s' = qs_queues s" using event_dropped[OF inv p(1) E(1), of D "W - {p}"] p(2) by blast
  have "queues_ok log D s'" using S(11) s'(6) by (simp add: queues_ok_def)
  then have "queue_inv c log K D (W - {p}) U X F s'"
    unfolding queue_inv_def using s' E S by auto
  then show ?thesis using s'(1,5) by (simp add: kupl_event_destroy_def)
qed

lemma count_leaves:
  assumes "distinct (map fst xs)" and "x \<in> set xs" and "fst x \<notin> D"
  shows "length [y\<leftarrow>xs. fst y \<notin> D] = Suc (length [y\<leftarrow>xs. fst y \<notin> insert (fst x) D])"
  using assms
proof (induction xs)
  case (Cons y xs)
  show ?case
  proof (cases "y = x")
    case True
    then have "fst x \<notin> fst ` set xs" using Cons.prems by simp
    then have "z \<in> set xs \<Longrightarrow> fst z \<noteq> fst x" for z by (metis imageI)
    then have "[y\<leftarrow>xs. fst y \<notin> insert (fst x) D] = [y\<leftarrow>xs. fst y \<notin> D]" by (intro filter_cong) simp_all
    then show ?thesis using True Cons.prems(3) by simp
  next
    case False
    then have x: "x \<in> set xs" and "fst y \<noteq> fst x" using Cons.prems by (auto simp: rev_image_eqI)
    then show ?thesis using Cons.IH[OF _ x] Cons.prems by simp
  qed
qed simp

lemma queue_dequeue:
  assumes inv: "queue_inv c log K D W U X F s" and p: "(p, q, e) \<in> set log" "p \<in> X" "p \<notin> D"
  shows "\<exists>s'. event_func_dequeue e s = Some s' \<and> queue_inv c log K (insert p D) W U X F s' \<and>
    gr_pool (qs_graph s') = gr_pool (qs_graph s)"
proof -
  let ?D = "insert p D"
  note S = queue_inv_sets[OF inv]
  have dist: "distinct (map fst log)" using S(9) by (simp add: log_ok_def)
  have pt: "p \<in> tasks log" using p(1) tasks_log by blast
  obtain v where v: "qs_events s e = Some v" "ev_q v = Some q" using event_live[OF inv p(1)] p(3) by blast
  obtain u where u: "qs_queues s q = Some u" using S(11) p(1) by (fastforce simp: queues_ok_def)
  have lu: "qu_last_event u = last_item D (items log q)" and cu: "qu_event_count u = of_nat (length [x\<leftarrow>items log q. fst x \<notin> D])"
    using S(11) u by (auto simp: queues_ok_def)
  let ?u = "u\<lparr>qu_event_count := qu_event_count u - 1\<rparr>"
  let ?s1 = "put_queue q ?u s" and ?v = "v\<lparr>ev_status := KUPL_EVENT_STATUS_COMPLETE\<rparr>"
  let ?s2 = "put_event e ?v ?s1"
  have st: "KUPL_EVENT_STATUS_COMPLETE \<noteq> KUPL_EVENT_STATUS_CREATED" by (simp add: event_status)
  have "\<exists>v. kupl_event_set_status e KUPL_EVENT_STATUS_COMPLETE s = Some (put_event e v s) \<and> queue_inv c log K D W U X F (put_event e v s)"
    using queue_set_status[OF inv p(1) _ st] p(3) by blast
  then have inv2: "queue_inv c log K D W U X F (put_event e ?v s)"
    using v(1) by (auto simp: kupl_event_set_status_def put_event_def dest: map_upd_eqD1)
  obtain E where E: "base_inv c U X F (\<lambda>x. own U x + own (held log D W) x) E (qs_graph (put_event e ?v s))" "in_order log D E"
    "\<forall>(x, y)\<in>E. pos log x < pos log y" "waits_ok K (U - F) E" using queue_inv_base[OF inv2] .
  have call2: "kupl_event_set_status e KUPL_EVENT_STATUS_COMPLETE ?s1 = Some ?s2" using v(1) by (simp add: kupl_event_set_status_def)
  have eq: "kupl_event_deref e ?s2 = map_option (\<lambda>s'. put_queue q ?u s') (kupl_event_deref e (put_event e ?v s))"
    by (auto simp: kupl_event_deref_def put_event_def put_queue_def put_graph_def kupl_task_cleanup_def split: bind_splits)
  from event_dropped[OF inv2 p(1) E(1), of ?D W] p(3)
  obtain s3 where s3: "kupl_event_deref e (put_event e ?v s) = Some s3" "\<forall>x\<in>set log. event_ok ?D W s3 x"
    "base_inv c U X F (\<lambda>x. own U x + own (held log ?D W) x) E (qs_graph s3)"
    "\<forall>x\<in>U. npred (qs_graph s3) x = npred (qs_graph s) x" "gr_pool (qs_graph s3) = gr_pool (qs_graph s)"
    "qs_queues s3 = qs_queues s" by auto
  let ?w = "if qu_last_event u = Some e then ?u\<lparr>qu_last_event := None\<rparr> else ?u"
  let ?s4 = "put_queue q ?w s3"
  have pq: "put_queue q x (put_queue q y z) = put_queue q x z" for x y z by (simp add: put_queue_def)
  have call: "event_func_dequeue e s = Some ?s4"
    using v u call2 eq s3(1) by (simp add: event_func_dequeue_def kupl_dequeue_event_def pq if_distrib)
  have it: "(p, q, e) \<in> set (items log q)" using p(1) by (simp add: set_items)
  then have ne: "items log q \<noteq> []" by (metis empty_iff empty_set)
  have di: "distinct (map fst (items log q))" using dist by (simp add: items_def distinct_map_filter)
  have cnt: "qu_event_count u - 1 = of_nat (length [x\<leftarrow>items log q. fst x \<notin> ?D])"
    using cu count_leaves[OF di it, of D] p(3) by simp
  have "last (items log q) \<in> set (items log q)" using ne by (rule last_in_set)
  then have "last (items log q) \<in> set log \<and> fst (snd (last (items log q))) = q" by (simp only: set_items)
  then obtain pl el where l: "last (items log q) = (pl, q, el)" "(pl, q, el) \<in> set log" by (metis prod.collapse)
  have le: "pl = p \<longleftrightarrow> el = e" using log_task[OF S(9) p(1)] log_event[OF S(9) p(1)] l(2) by blast
  have "(if qu_last_event u = Some e then None else qu_last_event u) = last_item ?D (items log q)"
    using lu ne l(1) le by (auto simp: last_item_def)
  then have lw: "qu_last_event ?w = last_item ?D (items log q)" "qu_event_count ?w = qu_event_count u - 1" by (auto split: if_splits)
  have other: "last_item ?D (items log q') = last_item D (items log q')"
    "[x\<leftarrow>items log q'. fst x \<notin> ?D] = [x\<leftarrow>items log q'. fst x \<notin> D]" if "q' \<noteq> q" for q'
  proof -
    have no: "x \<in> set (items log q') \<Longrightarrow> fst x \<noteq> p" for x
      using log_task[OF S(9) p(1)] that by (cases x) (auto simp: set_items)
    then show "last_item ?D (items log q') = last_item D (items log q')" by (auto simp: last_item_def)
    show "[x\<leftarrow>items log q'. fst x \<notin> ?D] = [x\<leftarrow>items log q'. fst x \<notin> D]" using no by (intro filter_cong) auto
  qed
  have "queues_ok log ?D ?s4"
    using S(11) s3(6) cnt lw other unfolding queues_ok_def by (auto split: if_splits)
  moreover have "event_ok ?D W ?s4 x = event_ok ?D W s3 x" for x by (cases x) (simp add: event_ok_def)
  moreover have "in_order log ?D E" using E(2) by (auto simp: in_order_def)
  ultimately have "queue_inv c log K ?D W U X F ?s4"
    unfolding queue_inv_def using s3 E(3,4) S p(2) pt by auto
  then show ?thesis using call s3(5) by simp
qed

lemma queue_created:
  assumes inv: "queue_inv c log K D W U X F s" and q: "qs_queues s q = None" and u: "qu_last_event u = None" "qu_event_count u = 0"
  shows "queue_inv c log K D W U X F (put_queue q u s)"
proof -
  note S = queue_inv_sets[OF inv]
  have "items log q = []" using S(11) q by (auto simp: items_def filter_empty_conv queues_ok_def)
  then have "queues_ok log D (put_queue q u s)" using S(11) u by (auto simp: queues_ok_def last_item_def)
  moreover have "event_ok D W (put_queue q u s) x = event_ok D W s x" for x by (cases x) (simp add: event_ok_def)
  ultimately show ?thesis using inv unfolding queue_inv_def by simp
qed

end
