(* ===== verification/Kupl_Queue_Submit.thy ===== *)
theory Kupl_Queue_Submit
  imports Kupl_Queue_Ops
begin

text \<open>
  Creating an event and enqueueing it keeps the invariant of Kupl\_Queue\_Inv: the new item waits for
  the last one of its queue, if that one has not left it, and for the event it was told to wait for.
\<close>

section \<open>New events\<close>

definition new_task :: kupl_task where
  "new_task = zero_task\<lparr>tk_tb := zero_tb\<lparr>tb_type := KUPL_TB_TYPE_TASK, tb_ref := 1, tb_state := KUPL_TB_STATE_CREATED\<rparr>\<rparr>"

definition new_event :: "ptr \<Rightarrow> kupl_event" where
  "new_event p = zero_event\<lparr>ev_task := Some p, ev_ref := 1, ev_lock := True, ev_q_set := True\<rparr>"

definition env_ok_for :: "ptr \<Rightarrow> ptr \<Rightarrow> ptr \<Rightarrow> queue_env \<Rightarrow> bool" where
  "env_ok_for c p e en \<longleftrightarrow> qe_event_mem en = Some e \<and> qe_task_mem en = Some p \<and> qe_lock_ok en \<and> qe_req_ok en \<and>
     qe_managed en \<and> qe_graph en = Some c \<and> qe_node_lock_ok en"

definition with_event :: "ptr \<Rightarrow> kupl_event \<Rightarrow> ptr \<Rightarrow> kupl_task \<Rightarrow> queue_state \<Rightarrow> queue_state" where
  "with_event e v p t s = put_event e v (put_graph (store_task p t (qs_graph s)) s)"

lemma put_put [simp]: "put_event e v (put_event e w s) = put_event e v s" "put_graph g (put_graph h s) = put_graph g s"
    "put_queue q u (put_queue q u2 s) = put_queue q u s" "put_graph g (put_event e v s) = put_event e v (put_graph g s)"
    "put_graph g (put_queue q u s) = put_queue q u (put_graph g s)"
    "put_event e v (put_queue q u s) = put_queue q u (put_event e v s)"
  by (simp_all add: put_event_def put_graph_def put_queue_def)

lemma store_store [simp]: "store_task p t (store_task p u g) = store_task p t g"
  by (simp add: store_task_def)

lemma event_created:
  assumes "env_ok_for c p e en" and "n < KUPL_MAX_MALLOC_SIZE"
  shows "kupl_event_create_with_udata n en s = Some (Some e, with_event e (new_event p) p new_task s)"
  using assms
  by (simp add: env_ok_for_def kupl_event_create_with_udata_def kupl_event_ref_def kupl_task_create_with_udata_def Let_def
      kupl_event_set_status_def new_event_def new_task_def with_event_def zero_event_def zero_task_def event_status)

lemma event_inited:
  assumes env: "env_ok_for c p e en" and v: "ev_task v = Some p" and d: "td_flag desc = 0"
  shows "\<exists>t v'. kupl_event_init e q desc type en (with_event e v p new_task s) = Some (KUPL_OK, with_event e v' p t s) \<and>
    v' = v\<lparr>ev_func := td_func desc, ev_args := td_args desc, ev_graph := Some c, ev_type := type, ev_q := q\<rparr> \<and>
    task_ok c t \<and> tb_ref (tk_tb t) = 2 \<and> \<not> kupl_tb_is_finished (tk_tb t) \<and> gn_successors (tk_gnode t) = [] \<and>
    gn_n_predecessors (tk_gnode t) = 0 \<and> tb_func (tk_tb t) = Some EVENT_FUNC \<and> tb_args (tk_tb t) = Some e"
proof -
  let ?desc = "desc\<lparr>td_func := Some EVENT_FUNC, td_args := Some e\<rparr>"
  let ?super = "\<lparr>tp_type = KUPL_TB_TYPE_TASK, tp_user_desc = ?desc, tp_graph = Some c, tp_count = Some c\<rparr>"
  let ?n = "kupl_gnode_cleanup (tk_gnode new_task)"
  let ?tb = "kupl_tb_init ((tk_tb new_task)\<lparr>tb_ref := 2\<rparr>) ?super (qe_cp en)"
  let ?t = "new_task\<lparr>tk_tb := ?tb\<lparr>tb_state := KUPL_TB_STATE_INIT\<rparr>, tk_kind := KUPL_TASK_KIND_COMM_DYNAMIC,
      tk_gnode := snd (kupl_gnode_init True ?n)\<rparr>"
  have cm: "r\<lparr>tk_kind := k, tk_gnode := n, tk_tb := b\<rparr> = r\<lparr>tk_tb := b, tk_kind := k, tk_gnode := n\<rparr>"
    "r\<lparr>tk_gnode := n, tk_tb := b\<rparr> = r\<lparr>tk_tb := b, tk_gnode := n\<rparr>"
    for r :: kupl_task and k n b by (cases r; simp)+
  have vt: "v\<lparr>ev_func := a, ev_args := b, ev_task := Some p, ev_graph := g, ev_type := ty, ev_q := q\<rparr> =
      v\<lparr>ev_func := a, ev_args := b, ev_graph := g, ev_type := ty, ev_q := q\<rparr>" for a b g ty
    using v by (cases v) simp
  have flag: "tb_flag ?tb AND KUPL_TB_FLAG_REUSE = 0" and fa: "tb_func ?tb = Some EVENT_FUNC" "tb_args ?tb = Some e"
    using d by (simp_all add: kupl_tb_init_def Let_def KUPL_TB_FLAG_PRIORITY_def KUPL_TB_FLAG_REUSE_def)
  have "kupl_event_init e q desc type en (with_event e v p new_task s) =
      Some (KUPL_OK, with_event e (v\<lparr>ev_func := td_func desc, ev_args := td_args desc, ev_graph := Some c, ev_type := type, ev_q := q\<rparr>) p ?t s)"
    using env v
    by (simp add: env_ok_for_def kupl_event_init_def with_event_def load_task_def heap_store Let_def kupl_task_init_def
        kupl_gnode_init_def kupl_gnode_cleanup_def new_task_def zero_task_def zero_tb_def KUPL_OK_def KUPL_ERROR_def cm vt)
  moreover have "task_ok c ?t" using flag by (simp add: task_ok_def)
  ultimately show ?thesis using fa
    by (intro exI[of _ ?t] exI conjI) (assumption | simp add: kupl_gnode_init_def kupl_gnode_cleanup_def)+
qed

section \<open>Linking\<close>

lemma event_linked:
  assumes base: "base_inv c U X F R E (qs_graph s)" and l: "qs_events s l = Some lv" "ev_task lv = Some x"
    and e: "qs_events s e = Some v" "ev_task v = Some p" and x: "0 < R x" "x \<noteq> p" and p: "p \<in> U" "p \<notin> X"
    and b: "npred (qs_graph s) p + 1 < 2 ^ 32"
  shows "\<exists>n g E'. event_precede (Some l) e s = Some (of_nat n, put_graph g s) \<and> n \<le> 1 \<and> base_inv c U X F R E' g \<and>
    E \<subseteq> E' \<and> E' \<subseteq> insert (x, p) E \<and> (x \<in> U \<and> x \<notin> F \<longrightarrow> (x, p) \<in> E') \<and> npred g p = npred (qs_graph s) p + n \<and>
    rest g = rest (qs_graph s) \<and> frame p (qs_graph s) g"
proof (cases "x \<in> U \<and> x \<notin> F")
  case True
  then obtain g where g: "kupl_gnode_precede (Some x) (Some p) (qs_graph s) = Some (1, g)"
    "base_inv c U X F R (insert (x, p) E) g" "npred g p = npred (qs_graph s) p + 1" "rest g = rest (qs_graph s)"
    using base_link[OF base _ _ p x(2) b] by blast
  then show ?thesis using l e True frame_precede[OF g(1)]
    by (intro exI[of _ 1] exI[of _ g] exI[of _ "insert (x, p) E"]) (auto simp: event_precede_def)
next
  case False
  then have "kupl_gnode_precede (Some x) (Some p) (qs_graph s) = Some (0, qs_graph s)"
    using base_link_finished[OF base x(1)] by blast
  then show ?thesis using l e False base
    by (intro exI[of _ 0] exI[of _ "qs_graph s"] exI[of _ E]) (auto simp: event_precede_def)
qed

section \<open>Enqueueing\<close>

lemma base_new_item:
  assumes inv: "base_inv c U X F R E s" and p: "gr_heap s p = None"
    and t: "task_ok c t" "tb_ref (tk_tb t) = 2" "\<not> kupl_tb_is_finished (tk_tb t)"
      "gn_successors (tk_gnode t) = []" "gn_n_predecessors (tk_gnode t) = 0"
  shows "base_inv c (insert p U) X F (R(p := 2)) E (store_task p t s)" "npred (store_task p t s) p = 0"
    "\<forall>x\<in>U. npred (store_task p t s) x = npred s x"
proof -
  let ?t = "t\<lparr>tk_tb := (tk_tb t)\<lparr>tb_ref := 1\<rparr>\<rparr>"
  have n: "\<not> kupl_tb_is_finished ((tk_tb t)\<lparr>tb_ref := 1\<rparr>)" using t(3) by (simp add: kupl_tb_is_finished_def)
  have o: "task_ok c ?t" using t(1) by (simp add: task_ok_def)
  note new = base_new_task[OF inv p o, simplified, OF n t(4,5)]
  have u: "?t\<lparr>tk_tb := (tk_tb ?t)\<lparr>tb_ref := 2\<rparr>\<rparr> = t" using t(2) by simp
  have h: "gr_heap (store_task p ?t s) p = Some ?t" by (simp add: heap_store)
  note set = base_set_ref[OF new(1) h, of 2, unfolded u store_store]
  show "base_inv c (insert p U) X F (R(p := 2)) E (store_task p t s)" "npred (store_task p t s) p = 0"
    "\<forall>x\<in>U. npred (store_task p t s) x = npred s x"
    using set new(2,3) by simp_all
qed

text \<open>The link to the last item of the queue: every item of the queue that has not left it comes before the new one.\<close>

lemma last_linked:
  assumes inv: "queue_inv c log K D W U X F s" and base: "base_inv c (insert p U) X F R E (qs_graph s')"
    and ord: "in_order log D E" and Xe: "\<forall>x\<in>X. \<forall>y. (y, x) \<notin> E" and sub: "E \<subseteq> U \<times> U"
    and R: "\<forall>x\<in>held log D W. 0 < R x"
    and ev: "\<And>l. l \<noteq> e \<Longrightarrow> qs_events s' l = qs_events s l" "qs_events s' e = Some v" "ev_task v = Some p"
    and fresh: "e \<notin> snd ` snd ` set log" "p \<notin> tasks log" and n: "npred (qs_graph s') p = 0"
  shows "\<exists>n g E'. event_precede (last_item D (items log q)) e s' = Some (of_nat n, put_graph g s') \<and> n \<le> 1 \<and>
    base_inv c (insert p U) X F R E' g \<and> E \<subseteq> E' \<and> E' \<subseteq> E \<union> tasks log \<times> {p} \<and>
    (\<forall>x\<in>tasks log. queue_of log x = q \<and> x \<notin> D \<longrightarrow> (x, p) \<in> E'\<^sup>+) \<and> npred g p = n \<and>
    rest g = rest (qs_graph s') \<and> frame p (qs_graph s') g"
proof -
  note S = queue_inv_sets[OF inv]
  have dist: "distinct (map fst log)" using S(9) by (simp add: log_ok_def)
  have pX: "p \<notin> X" using S fresh(2) by blast
  have it: "(x, q, ex) \<in> set (items log q)" if "x \<in> tasks log" "queue_of log x = q" "(x, queue_of log x, ex) \<in> set log" for x ex
    using that by (simp add: set_items)
  have lg: "\<exists>ex. (x, queue_of log x, ex) \<in> set log" if "x \<in> tasks log" for x
    using that log_of(1)[OF S(9)] tasks_log by metis
  show ?thesis
  proof (cases "items log q = []")
    case True
    then have "\<forall>x\<in>tasks log. queue_of log x \<noteq> q" using it lg by (metis empty_iff empty_set)
    then show ?thesis using True base n
      by (intro exI[of _ 0] exI[of _ "qs_graph s'"] exI[of _ E]) (auto simp: last_item_def event_precede_def put_graph_def)
  next
    case False
    then have "last (items log q) \<in> set log \<and> fst (snd (last (items log q))) = q"
      using last_in_set[OF False] by (simp only: set_items)
    then obtain pl el where l: "last (items log q) = (pl, q, el)" "(pl, q, el) \<in> set log" by (metis prod.collapse)
    have plt: "pl \<in> tasks log" "queue_of log pl = q" using l(2) log_of[OF S(9)] tasks_log by blast+
    have before: "x = pl \<or> (x, pl) \<in> E\<^sup>+" if "x \<in> tasks log" "queue_of log x = q" "x \<notin> D" for x
    proof -
      have "\<exists>ex. (x, q, ex) \<in> set log" using lg[OF that(1)] that(2) by auto
      then obtain ex where "(x, q, ex) \<in> set log" by blast
      from last_item_pos[OF dist False this] have "x = pl \<or> pos log x < pos log pl" using l(1) by auto
      then show ?thesis using ord that plt unfolding in_order_def by metis
    qed
    show ?thesis
    proof (cases "pl \<in> D")
      case True
      have "x \<in> D" if "x \<in> tasks log" "queue_of log x = q" for x
      proof (rule ccontr)
        assume "x \<notin> D"
        then have "(x, pl) \<in> E\<^sup>+" using before that True by blast
        then obtain y where "(y, pl) \<in> E" by (metis tranclE)
        moreover then have "pl \<in> X" using sub True S(3) by blast
        ultimately show False using Xe by blast
      qed
      then show ?thesis using True l(1) base n
        by (intro exI[of _ 0] exI[of _ "qs_graph s'"] exI[of _ E]) (auto simp: last_item_def event_precede_def put_graph_def)
    next
      case plD: False
      obtain lv where lv: "qs_events s el = Some lv" "ev_task lv = Some pl" using event_live[OF inv l(2)] plD by blast
      have "snd (snd (pl, q, el)) \<in> snd ` snd ` set log" using l(2) by (intro imageI)
      then have ne: "el \<noteq> e" "pl \<noteq> p" using fresh plt(1) by auto
      have "pl \<in> held log D W" using plt plD by (simp add: held_def)
      then have Rl: "0 < R pl" using R by blast
      have lvs: "qs_events s' el = Some lv" using ev(1)[OF ne(1)] lv(1) by simp
      have b: "npred (qs_graph s') p + 1 < 2 ^ 32" using n by simp
      from event_linked[OF base lvs lv(2) ev(2,3) Rl ne(2) insertI1 pX b] obtain k g E' where
        k: "event_precede (Some el) e s' = Some (of_nat k, put_graph g s')" "k \<le> 1" "base_inv c (insert p U) X F R E' g"
        "E \<subseteq> E'" "E' \<subseteq> insert (pl, p) E" "pl \<in> insert p U \<and> pl \<notin> F \<longrightarrow> (pl, p) \<in> E'"
        "npred g p = npred (qs_graph s') p + k" "rest g = rest (qs_graph s')" "frame p (qs_graph s') g" by blast
      have "(pl, p) \<in> E'" using k(6) plt plD S by blast
      then have "(x, p) \<in> E'\<^sup>+" if "x \<in> tasks log" "queue_of log x = q" "x \<notin> D" for x
        using before[OF that] trancl_mono_subset[OF _ k(4)] by (metis r_into_trancl' trancl_into_trancl)
      then show ?thesis using k plt l(1) plD False n
        by (intro exI[of _ k] exI[of _ g] exI[of _ E']) (auto simp: last_item_def)
    qed
  qed
qed

lemma n_links: "n \<le> 1 \<Longrightarrow> m \<le> 1 \<Longrightarrow> (of_nat n + of_nat m = (0 :: u32)) \<longleftrightarrow> n + m = 0"
proof -
  assume "n \<le> 1" "m \<le> 1"
  then have "n = 0 \<or> n = 1" "m = 0 \<or> m = 1" by auto
  then show ?thesis by auto
qed

text \<open>The link to the event the item was told to wait for.\<close>

lemma wait_linked:
  assumes inv: "queue_inv c log K D W U X F s" and base: "base_inv c (insert p U) X F R E (qs_graph s')"
    and R: "\<forall>x\<in>held log D W. 0 < R x"
    and ev: "\<And>l. l \<noteq> e \<Longrightarrow> qs_events s' l = qs_events s l" "qs_events s' e = Some v" "ev_task v = Some p"
    and fresh: "e \<notin> snd ` snd ` set log" "p \<notin> tasks log" and n: "npred (qs_graph s') p \<le> 1"
    and w: "ev_type v = KUPL_EVENT_TYPE_WAIT \<longrightarrow> (\<exists>w pw qw. ev_wait v = Some w \<and> (pw, qw, w) \<in> set log \<and> pw \<in> W)"
    and K': "\<forall>(x, y)\<in>K'. (x, y) \<in> K \<or> y = p \<and> ev_type v = KUPL_EVENT_TYPE_WAIT \<and> (\<exists>w qw. ev_wait v = Some w \<and> (x, qw, w) \<in> set log)"
    and old: "waits_ok K (U - F) E"
  shows "\<exists>n g E'. (if ev_type v = KUPL_EVENT_TYPE_WAIT then do { w \<leftarrow> ev_wait v; event_precede (Some w) e s' } else Some (0, s')) =
      Some (of_nat n, put_graph g s') \<and> n \<le> 1 \<and> base_inv c (insert p U) X F R E' g \<and> E \<subseteq> E' \<and> E' \<subseteq> E \<union> tasks log \<times> {p} \<and>
    npred g p = npred (qs_graph s') p + n \<and> rest g = rest (qs_graph s') \<and> frame p (qs_graph s') g \<and> waits_ok K' (U - F) E'"
proof (cases "ev_type v = KUPL_EVENT_TYPE_WAIT")
  case False
  then have "waits_ok K' (U - F) E" using K' old by (fastforce simp: waits_ok_def)
  then show ?thesis using base False
    by (intro exI[of _ 0] exI[of _ "qs_graph s'"] exI[of _ E]) (auto simp: put_graph_def)
next
  case True
  note S = queue_inv_sets[OF inv]
  have pX: "p \<notin> X" using S fresh(2) by blast
  obtain w pw qw where w': "ev_wait v = Some w" "(pw, qw, w) \<in> set log" "pw \<in> W" using w True by blast
  obtain wv where wv: "qs_events s w = Some wv" "ev_task wv = Some pw" using event_live[OF inv w'(2)] w'(3) by blast
  have pt: "pw \<in> tasks log" using w'(2) tasks_log by blast
  have "snd (snd (pw, qw, w)) \<in> snd ` snd ` set log" using w'(2) by (intro imageI)
  then have ne: "w \<noteq> e" "pw \<noteq> p" using fresh pt by auto
  have "pw \<in> held log D W" using pt w'(3) by (simp add: held_def)
  then have Rl: "0 < R pw" using R by blast
  have wvs: "qs_events s' w = Some wv" using ev(1)[OF ne(1)] wv(1) by simp
  have b: "npred (qs_graph s') p + 1 < 2 ^ 32" using n by simp
  from event_linked[OF base wvs wv(2) ev(2,3) Rl ne(2) insertI1 pX b] obtain k g E' where
    "event_precede (Some w) e s' = Some (of_nat k, put_graph g s')" "k \<le> 1" "base_inv c (insert p U) X F R E' g"
    "E \<subseteq> E'" "E' \<subseteq> insert (pw, p) E" "pw \<in> insert p U \<and> pw \<notin> F \<longrightarrow> (pw, p) \<in> E'"
    "npred g p = npred (qs_graph s') p + k" "rest g = rest (qs_graph s')"
    "frame p (qs_graph s') g" by blast
  note link = this
  have "waits_ok K' (U - F) E'"
    unfolding waits_ok_def
  proof (clarify)
    fix x y assume xy: "(x, y) \<in> K'" "x \<in> U" "x \<notin> F"
    from K' xy(1) consider "(x, y) \<in> K" | qw' where "y = p" "(x, qw', w) \<in> set log" using w'(1) by auto
    then show "(x, y) \<in> E'\<^sup>+"
    proof cases
      case 1
      then have "(x, y) \<in> E\<^sup>+" using old xy(2,3) by (auto simp: waits_ok_def)
      then show ?thesis using link(4) by (rule trancl_mono_subset)
    next
      case 2
      then have "x = pw" using log_event[OF S(9) w'(2)] by blast
      then show ?thesis using 2(1) link(6) xy(2,3) by blast
    qed
  qed
  then show ?thesis using True w'(1) pt link
    by (intro exI[of _ k] exI[of _ g] exI[of _ E']) auto
qed

lemma in_order_new:
  assumes ord: "in_order log D E" and sub: "E \<subseteq> E'" and p: "p \<notin> tasks log"
    and new: "\<forall>x\<in>tasks log. queue_of log x = q \<and> x \<notin> D \<longrightarrow> (x, p) \<in> E'\<^sup>+"
  shows "in_order (log @ [(p, q, e)]) D E'"
  unfolding in_order_def
proof (intro ballI impI, elim conjE)
  let ?log = "log @ [(p, q, e)]"
  fix x y assume xy: "x \<in> tasks ?log" "y \<in> tasks ?log" "queue_of ?log x = queue_of ?log y" "pos ?log x < pos ?log y" "x \<notin> D"
  have old: "z \<in> tasks log \<Longrightarrow> pos ?log z = pos log z \<and> pos ?log z < length log" for z
    using pos_old[of z log] pos_less[of z log] by (simp add: tasks_def)
  have pp: "pos ?log p = length log" using pos_new[of p log] p by (simp add: tasks_def)
  have cs: "z = p \<or> z \<in> tasks log" if "z \<in> tasks ?log" for z using that by (auto simp: tasks_def)
  show "(x, y) \<in> E'\<^sup>+"
  proof (cases "y = p")
    case True
    then have "x \<noteq> p" using xy(4) by auto
    then show ?thesis using True cs[OF xy(1)] xy(3,5) new by (simp add: log_snoc[OF p])
  next
    case False
    then have y: "y \<in> tasks log" using cs[OF xy(2)] by blast
    then have "x \<noteq> p" using old[OF y] pp xy(4) by auto
    then have x: "x \<in> tasks log" using cs[OF xy(1)] by blast
    have "queue_of log x = queue_of log y" "pos log x < pos log y"
      using xy(3,4) old[OF x] old[OF y] False \<open>x \<noteq> p\<close> by (simp_all add: log_snoc[OF p])
    then have "(x, y) \<in> E\<^sup>+" using ord x y xy(5) unfolding in_order_def by blast
    then show ?thesis using sub by (rule trancl_mono_subset)
  qed
qed

lemma forward_new:
  assumes fw: "\<forall>(x, y)\<in>E. pos log x < pos log y" and sub: "E \<subseteq> tasks log \<times> tasks log" "E' \<subseteq> E \<union> tasks log \<times> {p}"
    and p: "p \<notin> tasks log"
  shows "\<forall>(x, y)\<in>E'. pos (log @ [(p, q, e)]) x < pos (log @ [(p, q, e)]) y"
proof (clarify)
  fix x y assume xy: "(x, y) \<in> E'"
  have old: "z \<in> tasks log \<Longrightarrow> pos (log @ [(p, q, e)]) z = pos log z \<and> pos (log @ [(p, q, e)]) z < length log" for z
    using pos_old[of z log] pos_less[of z log] by (simp add: tasks_def)
  have pp: "pos (log @ [(p, q, e)]) p = length log" using pos_new[of p log] p by (simp add: tasks_def)
  from xy sub(2) consider "(x, y) \<in> E" | "x \<in> tasks log" "y = p" by blast
  then show "pos (log @ [(p, q, e)]) x < pos (log @ [(p, q, e)]) y"
  proof cases
    case 1
    then have "x \<in> tasks log" "y \<in> tasks log" "pos log x < pos log y" using sub(1) fw by auto
    then show ?thesis using old by simp
  next
    case 2
    then show ?thesis using old[OF 2(1)] pp by metis
  qed
qed

text \<open>The records of the queues and the events.\<close>

lemma queues_ok_new:
  assumes ok: "queues_ok log D s" and u: "qs_queues s q = Some u" and p: "p \<notin> D"
    and s': "qs_queues s' = (qs_queues s)(q := Some (u\<lparr>qu_event_count := qu_event_count u + 1, qu_last_event := Some e\<rparr>))"
  shows "queues_ok (log @ [(p, q, e)]) D s'"
proof -
  have cu: "qu_event_count u = of_nat (length [x\<leftarrow>items log q. fst x \<notin> D])" using ok u by (simp add: queues_ok_def)
  have "last_item D (items log q @ [(p, q, e)]) = Some e" using p by (simp add: last_item_def)
  then show ?thesis using ok s' p unfolding queues_ok_def by (simp add: items_snoc cu)
qed

lemma events_ok_new:
  assumes ok: "\<forall>x\<in>set log. event_ok D W s x" and ev: "\<And>l. l \<noteq> e \<Longrightarrow> qs_events s' l = qs_events s l"
    and fresh: "e \<notin> snd ` snd ` set log" "p \<notin> tasks log" and W: "\<And>x. x \<noteq> p \<Longrightarrow> (x \<in> W' \<longleftrightarrow> x \<in> W)" and new: "event_ok D W' s' (p, q, e)"
  shows "\<forall>x\<in>set (log @ [(p, q, e)]). event_ok D W' s' x"
proof
  fix x assume x: "x \<in> set (log @ [(p, q, e)])"
  obtain p' q' e' where x': "x = (p', q', e')" by (cases x) blast
  show "event_ok D W' s' x"
  proof (cases "x \<in> set log")
    case True
    then have "snd (snd (p', q', e')) \<in> snd ` snd ` set log" using x' by (intro imageI) simp
    then have e: "e' \<noteq> e" using fresh(1) by auto
    have "p' \<noteq> p" using fresh(2) True x' tasks_log by blast
    then have "event_ok D W' s' x = event_ok D W s x"
      using W ev[OF e] x' by (cases "qs_events s e'") (simp_all add: event_ok_def)
    then show ?thesis using ok True by blast
  qed (use x new in simp)
qed

lemma enqueue_unfold:
  fixes v :: kupl_event and u :: kupl_queue and t :: kupl_task and s :: queue_state and e p q :: ptr
  assumes "qs_queues s q = Some u"
  defines "v' \<equiv> v\<lparr>ev_ref := ev_ref v + (if ev_type v = KUPL_EVENT_TYPE_KERNEL then 0 else 1), ev_status := KUPL_EVENT_STATUS_SUBMITTED\<rparr>"
  defines "s1 \<equiv> with_event e v' p t (put_queue q (u\<lparr>qu_event_count := qu_event_count u + 1\<rparr>) s)"
  shows "kupl_enqueue_event (Some q) e (with_event e v p t s) =
    do {
      s2 \<leftarrow> do {
        (n1, s) \<leftarrow> event_precede (qu_last_event u) e s1;
        v \<leftarrow> qs_events s e;
        (n2, s) \<leftarrow> (if ev_type v = KUPL_EVENT_TYPE_WAIT
                   then do { w \<leftarrow> ev_wait v; event_precede (Some w) e s } else Some (0, s));
        if n1 + n2 = 0
        then do { p \<leftarrow> ev_task v; g \<leftarrow> pool_add p (qs_graph s); Some (put_graph g s) }
        else Some s
      };
      u \<leftarrow> qs_queues s2 q;
      Some (put_queue q (u\<lparr>qu_last_event := Some e\<rparr>) s2)
    }"
proof -
  have cm: "v\<lparr>ev_status := b, ev_ref := a\<rparr> = v\<lparr>ev_ref := a, ev_status := b\<rparr>" "v\<lparr>ev_ref := ev_ref v\<rparr> = v" for a b v
    by (cases v; simp)+
  show ?thesis using assms(1)
    by (simp add: kupl_enqueue_event_def kupl_event_ref_def kupl_event_submit_def kupl_event_set_status_def with_event_def
        s1_def v'_def cm Let_def)
qed

lemma queue_enqueued:
  assumes inv: "queue_inv c log K D W U X F s" and u: "qs_queues s q = Some u"
    and fresh: "e \<notin> snd ` snd ` set log" "gr_heap (qs_graph s) p = None" "p \<notin> tasks log"
    and t: "task_ok c t" "tb_ref (tk_tb t) = 2" "\<not> kupl_tb_is_finished (tk_tb t)" "gn_successors (tk_gnode t) = []"
      "gn_n_predecessors (tk_gnode t) = 0"
    and v: "ev_task v = Some p" "ev_q v = Some q" "ev_lock v" "ev_q_set v" "ev_ref v = 1"
    and w: "ev_type v = KUPL_EVENT_TYPE_WAIT \<longrightarrow> (\<exists>w pw qw. ev_wait v = Some w \<and> (pw, qw, w) \<in> set log \<and> pw \<in> W)"
    and W': "W' = (if ev_type v = KUPL_EVENT_TYPE_KERNEL then W else insert p W)"
    and K': "\<forall>(x, y)\<in>K'. (x, y) \<in> K \<or> y = p \<and> ev_type v = KUPL_EVENT_TYPE_WAIT \<and> (\<exists>w qw. ev_wait v = Some w \<and> (x, qw, w) \<in> set log)"
    and KT: "K \<subseteq> tasks log \<times> tasks log"
  shows "\<exists>s' ps. kupl_enqueue_event (Some q) e (with_event e v p t s) = Some s' \<and>
    gr_pool (qs_graph s') = gr_pool (qs_graph s) @ ps \<and> (ps = [] \<or> ps = [p]) \<and>
    queue_inv c (log @ [(p, q, e)]) K' D W' (insert p U) (X \<union> set ps) F s'"
proof -
  let ?log = "log @ [(p, q, e)]" and ?U = "insert p U" and ?g = "store_task p t (qs_graph s)"
  let ?v = "v\<lparr>ev_ref := ev_ref v + (if ev_type v = KUPL_EVENT_TYPE_KERNEL then 0 else 1), ev_status := KUPL_EVENT_STATUS_SUBMITTED\<rparr>"
  let ?s1 = "with_event e ?v p t (put_queue q (u\<lparr>qu_event_count := qu_event_count u + 1\<rparr>) s)"
  let ?R = "\<lambda>x. own ?U x + own (held ?log D W') x"
  note S = queue_inv_sets[OF inv]
  obtain E where E: "base_inv c U X F (\<lambda>x. own U x + own (held log D W) x) E (qs_graph s)" "in_order log D E"
    "\<forall>(x, y)\<in>E. pos log x < pos log y" "waits_ok K (U - F) E" using queue_inv_base[OF inv] .
  note bs = base_sets[OF E(1)]
  have pn: "p \<notin> U" "p \<notin> D" "p \<notin> W" "p \<notin> F" "p \<notin> X" using S fresh(3) by blast+
  have tl: "tasks ?log = insert p (tasks log)" by (simp add: tasks_def)
  have ht: "held ?log D W' = insert p (held log D W)" using pn W' fresh(3) by (auto simp: held_def tl)
  have hp: "p \<notin> held log D W" using fresh(3) by (simp add: held_def)
  have R: "(\<lambda>x. own U x + own (held log D W) x)(p := 2) = ?R"
    unfolding ht fun_eq_iff fun_upd_apply by simp
  note new = base_new_item[OF E(1) fresh(2) t, unfolded R]
  have s1: "qs_graph ?s1 = ?g" "qs_events ?s1 e = Some ?v" "\<And>l. l \<noteq> e \<Longrightarrow> qs_events ?s1 l = qs_events s l"
    by (simp_all add: with_event_def)
  have Rh: "\<forall>x\<in>held log D W. 0 < ?R x" by (simp add: ht)
  have noX: "\<forall>x\<in>X. \<forall>y. (y, x) \<notin> E" using base_X_no_edge[OF E(1)] by blast
  have lu: "qu_last_event u = last_item D (items log q)" using S(11) u by (simp add: queues_ok_def)
  have b1: "base_inv c ?U X F ?R E (qs_graph ?s1)" "npred (qs_graph ?s1) p = 0" using new by (simp_all add: s1)
  have EU: "E \<subseteq> U \<times> U" using bs by blast
  have vp: "ev_task ?v = Some p" using v by simp
  from last_linked[OF inv b1(1) E(2) noX EU Rh s1(3,2) vp fresh(1,3) b1(2)]
  obtain n1 g1 E1 where 1: "event_precede (last_item D (items log q)) e ?s1 = Some (of_nat n1, put_graph g1 ?s1)" "n1 \<le> 1"
    "base_inv c ?U X F ?R E1 g1" "E \<subseteq> E1" "E1 \<subseteq> E \<union> tasks log \<times> {p}"
    "\<forall>x\<in>tasks log. queue_of log x = q \<and> x \<notin> D \<longrightarrow> (x, p) \<in> E1\<^sup>+" "npred g1 p = n1"
    "rest g1 = rest (qs_graph ?s1)" "frame p (qs_graph ?s1) g1" by blast
  let ?s2 = "put_graph g1 ?s1"
  have s2: "qs_graph ?s2 = g1" "qs_events ?s2 e = Some ?v" "\<And>l. l \<noteq> e \<Longrightarrow> qs_events ?s2 l = qs_events s l"
    using s1 by simp_all
  have b2: "base_inv c ?U X F ?R E1 (qs_graph ?s2)" "npred (qs_graph ?s2) p \<le> 1" using 1 by simp_all
  have wv: "ev_type ?v = KUPL_EVENT_TYPE_WAIT \<longrightarrow> (\<exists>w pw qw. ev_wait ?v = Some w \<and> (pw, qw, w) \<in> set log \<and> pw \<in> W)" using w by simp
  have Kv: "\<forall>(x, y)\<in>K'. (x, y) \<in> K \<or> y = p \<and> ev_type ?v = KUPL_EVENT_TYPE_WAIT \<and> (\<exists>w qw. ev_wait ?v = Some w \<and> (x, qw, w) \<in> set log)"
    using K' by simp
  have w1: "waits_ok K (U - F) E1"
    using E(4) trancl_mono_subset[OF _ 1(4)] unfolding waits_ok_def by blast
  from wait_linked[OF inv b2(1) Rh s2(3,2) vp fresh(1,3) b2(2) wv Kv w1]
  obtain n2 g2 E2 where 2: "(if ev_type ?v = KUPL_EVENT_TYPE_WAIT then do { w \<leftarrow> ev_wait ?v; event_precede (Some w) e ?s2 } else Some (0, ?s2)) =
      Some (of_nat n2, put_graph g2 ?s2)" "n2 \<le> 1" "base_inv c ?U X F ?R E2 g2" "E1 \<subseteq> E2" "E2 \<subseteq> E1 \<union> tasks log \<times> {p}"
    "npred g2 p = npred (qs_graph ?s2) p + n2" "rest g2 = rest (qs_graph ?s2)" "frame p (qs_graph ?s2) g2" "waits_ok K' (U - F) E2" by blast
  have N: "npred g2 x = npred (qs_graph s) x" if "x \<in> U" for x
  proof -
    have x: "x \<noteq> p" "x \<in> ?U" using that pn by auto
    have "gr_heap g1 x \<noteq> None" "gr_heap g2 x \<noteq> None" using base_live[OF 1(3) x(2)] base_live[OF 2(3) x(2)] by auto
    then have "npred g2 x = npred ?g x" using frame_npred[OF 1(9) x(1)] frame_npred[OF 2(8) x(1)] s1(1) by simp
    then show ?thesis using new(3) that by simp
  qed
  have order: "in_order ?log D E2"
  proof (rule in_order_new[OF E(2) _ fresh(3)])
    show "E \<subseteq> E2" using 1(4) 2(4) by blast
    show "\<forall>x\<in>tasks log. queue_of log x = q \<and> x \<notin> D \<longrightarrow> (x, p) \<in> E2\<^sup>+"
      using 1(6) trancl_mono_subset[OF _ 2(4)] by blast
  qed
  have "E \<subseteq> tasks log \<times> tasks log" "E2 \<subseteq> E \<union> tasks log \<times> {p}" using EU S(1) 1(5) 2(5) by blast+
  from forward_new[OF E(3) this fresh(3)] have forward: "\<forall>(x, y)\<in>E2. pos ?log x < pos ?log y" .
  let ?ready = "n1 + n2 = 0"
  have np: "npred g2 p = n1 + n2" using 2(6) 1(7) s2(1) by simp
  have pool2: "gr_pool g2 = gr_pool (qs_graph s)" using 2(7) 1(8) s1(1) s2(1) by (simp add: rest_def store_task_def)
  obtain g3 ps where 3: "(if ?ready then pool_add p g2 else Some g2) = Some g3" "base_inv c ?U (X \<union> set ps) F ?R E2 g3"
    "npred g3 = npred g2" "gr_pool g3 = gr_pool g2 @ ps" "ps = (if ?ready then [p] else [])"
  proof (cases ?ready)
    case True
    from base_pool_add[OF 2(3) insertI1 pn(4)] np True obtain g3 where "pool_add p g2 = Some g3"
      "base_inv c ?U (insert p X) F ?R E2 g3" "npred g3 = npred g2" "gr_pool g3 = gr_pool g2 @ [p]" by auto
    then show ?thesis using that[of g3 "[p]"] True by simp
  next
    case False
    show ?thesis by (rule that[of g2 "[]"]) (use False 2(3) in \<open>simp_all only: if_not_P if_False list.set Un_empty_right append_Nil2\<close>)
  qed
  let ?w = "u\<lparr>qu_event_count := qu_event_count u + 1, qu_last_event := Some e\<rparr>"
  let ?s = "put_queue q ?w (put_graph g3 ?s1)"
  have call: "kupl_enqueue_event (Some q) e (with_event e v p t s) = Some ?s"
  proof -
    have p2: "put_graph g3 ?s2 = put_graph g3 ?s1" "put_graph g2 ?s2 = put_graph g2 ?s1" by simp_all
    have q1: "qs_queues (put_graph g3 ?s1) q = Some (u\<lparr>qu_event_count := qu_event_count u + 1\<rparr>)"
      by (simp add: with_event_def)
    have vt: "ev_task ?v = Some p" using v(1) by simp
    show ?thesis
    proof (cases ?ready)
      case True
      have "pool_add p g2 = Some g3" using 3(1) unfolding if_P[OF True] .
      then show ?thesis
        unfolding enqueue_unfold[OF u] lu 1(1) Option.bind.simps case_prod_conv s2(2) 2(1) n_links[OF 1(2) 2(2)] if_P[OF True] vt
        using q1 by (simp add: p2)
    next
      case False
      have "g2 = g3" using 3(1) unfolding if_not_P[OF False] option.inject .
      then show ?thesis
        unfolding enqueue_unfold[OF u] lu 1(1) Option.bind.simps case_prod_conv s2(2) 2(1) n_links[OF 1(2) 2(2)] if_not_P[OF False]
        using q1 by (simp add: p2)
    qed
  qed
  have s: "qs_graph ?s = g3" "qs_queues ?s = (qs_queues s)(q := Some ?w)" "qs_events ?s e = Some ?v"
    "\<And>l. l \<noteq> e \<Longrightarrow> qs_events ?s l = qs_events s l" using s1(2,3) by (simp_all add: with_event_def put_queue_def put_graph_def put_event_def)
  have "event_ok D W' ?s (p, q, e)"
    using v pn W' s(3) unfolding event_ok_def by (auto simp: event_status)
  then have eok: "\<forall>x\<in>set ?log. event_ok D W' ?s x"
    using W' by (intro events_ok_new[OF S(10) s(4) fresh(1,3)]) auto
  have qok: "queues_ok ?log D ?s" by (rule queues_ok_new[OF S(11) u pn(2) s(2)])
  have lok: "log_ok ?log" using S(9) fresh(1,3) by (auto simp: log_ok_def tasks_def image_image comp_def)
  have pend: "\<forall>x\<in>?U - (X \<union> set ps). 0 < npred (qs_graph ?s) x"
  proof
    fix x assume x: "x \<in> ?U - (X \<union> set ps)"
    show "0 < npred (qs_graph ?s) x"
    proof (cases "x = p")
      case True
      then show ?thesis using x np 3(3,5) s(1) by (auto split: if_splits)
    next
      case False
      then show ?thesis using x S(12) N 3(3) s(1) by auto
    qed
  qed
  have wts: "waits_ok K' (?U - F) E2"
  proof -
    have "x \<noteq> p" if "(x, y) \<in> K'" for x y using that K' KT fresh(3) tasks_log[of x log] by blast
    then show ?thesis using 2(9) unfolding waits_ok_def by blast
  qed
  have "queue_inv c ?log K' D W' ?U (X \<union> set ps) F ?s"
    unfolding queue_inv_def
  proof (intro conjI)
    show "\<exists>E. base_inv c ?U (X \<union> set ps) F ?R E (qs_graph ?s) \<and> in_order ?log D E \<and> (\<forall>(x, y)\<in>E. pos ?log x < pos ?log y) \<and>
        waits_ok K' (?U - F) E"
      unfolding s(1) by (intro exI[of _ E2] conjI 3(2) order forward wts)
    show "D \<inter> ?U \<subseteq> X \<union> set ps" "tasks ?log - ?U \<subseteq> D" "W' \<subseteq> tasks ?log" "?U \<subseteq> tasks ?log" "D \<subseteq> tasks ?log" "F \<subseteq> D"
      using S pn W' by (auto simp: tl)
  qed (use pend eok qok lok in blast)+
  moreover have "gr_pool (qs_graph ?s) = gr_pool (qs_graph s) @ ps" using s(1) 3(4) pool2 by simp
  ultimately show ?thesis using call 3(5) by (intro exI[of _ ?s] exI[of _ ps]) simp
qed

end
