(* ===== verification/Kupl_Queue_Run.thy ===== *)
theory Kupl_Queue_Run
  imports Kupl_Queue_Submit
begin

text \<open>
  The runs of queues: any number of threads create queues, submit items, record events, let queues wait
  for events and release events, while executors take tasks from the scheduler, return from the functions
  of the items, take the items out of their queues and finish the tasks, in any order, each of these being
  one step.  An event is recorded once, right after it was made (what recording it again can do is in
  Kupl\_Queue\_Safety), and memory does not run out.
\<close>

section \<open>Events\<close>

datatype queue_event =
    QCreate ptr int
  | QSubmit queue_env ptr kupl_queue_item_desc ptr "ptr option"
  | QWaitFor queue_env ptr ptr
  | QRecord queue_env ptr
  | QStart ptr | QReturn ptr | QDequeue ptr | QMark ptr | QFinish ptr
  | QDestroy ptr

text \<open>
  The tasks whose item runs, whose item has returned, whose item has left its queue, and those that are
  marked finished; the log of the items; the tasks whose event the user holds; and the pairs of an item
  and one that waits for its event.
\<close>

record queue_run =
  qr_state :: queue_state
  qr_running :: "ptr list"
  qr_returned :: "ptr list"
  qr_left :: "ptr list"
  qr_done :: "ptr list"
  qr_log :: queue_log
  qr_owned :: "ptr list"
  qr_waits :: "(ptr \<times> ptr) list"

definition env_task :: "queue_env \<Rightarrow> ptr" where "env_task en = the (qe_task_mem en)"
definition env_event :: "queue_env \<Rightarrow> ptr" where "env_event en = the (qe_event_mem en)"

definition task_of_event :: "queue_log \<Rightarrow> ptr \<Rightarrow> ptr" where
  "task_of_event log e = (case [x\<leftarrow>log. snd (snd x) = e] of [] \<Rightarrow> 0 | x # xs \<Rightarrow> fst x)"

definition submitted :: "int \<Rightarrow> queue_env \<Rightarrow> ptr \<Rightarrow> bool \<Rightarrow> queue_run \<Rightarrow> queue_state \<Rightarrow> queue_run" where
  "submitted ret en q user r s =
     (if ret = KUPL_OK
      then r\<lparr>qr_state := s, qr_log := qr_log r @ [(env_task en, q, env_event en)],
             qr_owned := (if user then env_task en # qr_owned r else qr_owned r)\<rparr>
      else r\<lparr>qr_state := s\<rparr>)"

fun queue_step :: "(ptr \<Rightarrow> int) \<Rightarrow> queue_event \<Rightarrow> queue_run \<Rightarrow> queue_run option" where
  "queue_step master (QCreate q prio) r =
     do { (n, s) \<leftarrow> kupl_queue_create_with_priority prio True (Some q) (qr_state r); Some (r\<lparr>qr_state := s\<rparr>) }"
| "queue_step master (QSubmit en q d udata acq) r =
     do {
       (ret, s) \<leftarrow> kupl_queue_submit master (\<lambda>_. None) acq udata en (Some q) (Some d) (qr_state r);
       Some (submitted ret en q False r s)
     }"
| "queue_step master (QWaitFor en q w) r =
     do {
       (e, ret, s) \<leftarrow> queue_wait_enqueue en q w (qr_state r);
       Some ((submitted ret en q True r s)\<lparr>qr_waits := (task_of_event (qr_log r) w, env_task en) # qr_waits r\<rparr>)
     }"
| "queue_step master (QRecord en q) r =
     do {
       (e, s) \<leftarrow> kupl_event_create en (qr_state r);
       (ret, s) \<leftarrow> kupl_event_record e (Some q) en s;
       Some (submitted ret en q True r s)
     }"
| "queue_step master (QStart p) r =
     (let g = qs_graph (qr_state r)
      in Some (r\<lparr>qr_state := put_graph (g\<lparr>gr_pool := remove1 p (gr_pool g)\<rparr>) (qr_state r), qr_running := p # qr_running r\<rparr>))"
| "queue_step master (QReturn p) r =
     do {
       s \<leftarrow> kupl_event_set_status (event_of (qr_log r) p) KUPL_EVENT_STATUS_COMPLETE (qr_state r);
       Some (r\<lparr>qr_state := s, qr_running := remove1 p (qr_running r), qr_returned := p # qr_returned r\<rparr>)
     }"
| "queue_step master (QDequeue p) r =
     do {
       s \<leftarrow> event_func_dequeue (event_of (qr_log r) p) (qr_state r);
       Some (r\<lparr>qr_state := s, qr_returned := remove1 p (qr_returned r), qr_left := p # qr_left r\<rparr>)
     }"
| "queue_step master (QMark p) r =
     do {
       g \<leftarrow> task_mark_finished p (qs_graph (qr_state r));
       Some (r\<lparr>qr_state := put_graph g (qr_state r), qr_left := remove1 p (qr_left r), qr_done := p # qr_done r\<rparr>)
     }"
| "queue_step master (QFinish p) r =
     do {
       g \<leftarrow> kupl_task_finish p (qs_graph (qr_state r));
       Some (r\<lparr>qr_state := put_graph g (qr_state r), qr_done := remove1 p (qr_done r)\<rparr>)
     }"
| "queue_step master (QDestroy e) r =
     do {
       s \<leftarrow> kupl_event_destroy (Some e) (qr_state r);
       Some (r\<lparr>qr_state := s, qr_owned := [p\<leftarrow>qr_owned r. event_of (qr_log r) p \<noteq> e]\<rparr>)
     }"

text \<open>The memory of a new item was not used before, so that addresses name items.\<close>

definition fresh_env :: "ptr \<Rightarrow> queue_env \<Rightarrow> queue_run \<Rightarrow> bool" where
  "fresh_env c en r \<longleftrightarrow> env_ok_for c (env_task en) (env_event en) en \<and>
     gr_heap (qs_graph (qr_state r)) (env_task en) = None \<and> qs_events (qr_state r) (env_event en) = None \<and>
     env_task en \<notin> set (map fst (qr_log r)) \<and> env_event en \<notin> set (map (snd \<circ> snd) (qr_log r))"

fun queue_enabled :: "ptr \<Rightarrow> queue_event \<Rightarrow> queue_run \<Rightarrow> bool" where
  "queue_enabled c (QCreate q prio) r \<longleftrightarrow> qs_queues (qr_state r) q = None"
| "queue_enabled c (QSubmit en q d udata acq) r \<longleftrightarrow>
     fresh_env c en r \<and> qd_func d \<noteq> None \<and> (qd_field_mask d AND KUPL_QUEUE_ITEM_DESC_FIELD_NAME \<noteq> 0 \<longrightarrow> qd_name d \<noteq> None) \<and>
     (qd_field_mask d AND KUPL_QUEUE_ITEM_DESC_FIELD_ARGS_SIZE \<noteq> 0 \<longrightarrow> qd_args_size d < KUPL_MAX_MALLOC_SIZE) \<and>
     (case qs_queues (qr_state r) q of None \<Rightarrow> False | Some u \<Rightarrow> \<not> qu_sync u \<and> (qu_acquire u \<longrightarrow> acq \<noteq> None))"
| "queue_enabled c (QWaitFor en q w) r \<longleftrightarrow>
     fresh_env c en r \<and> qs_queues (qr_state r) q \<noteq> None \<and> w \<in> set (map (event_of (qr_log r)) (qr_owned r))"
| "queue_enabled c (QRecord en q) r \<longleftrightarrow> fresh_env c en r \<and> qs_queues (qr_state r) q \<noteq> None"
| "queue_enabled c (QStart p) r \<longleftrightarrow> p \<in> set (gr_pool (qs_graph (qr_state r)))"
| "queue_enabled c (QReturn p) r \<longleftrightarrow> p \<in> set (qr_running r)"
| "queue_enabled c (QDequeue p) r \<longleftrightarrow> p \<in> set (qr_returned r)"
| "queue_enabled c (QMark p) r \<longleftrightarrow> p \<in> set (qr_left r)"
| "queue_enabled c (QFinish p) r \<longleftrightarrow> p \<in> set (qr_done r)"
| "queue_enabled c (QDestroy e) r \<longleftrightarrow> e \<in> set (map (event_of (qr_log r)) (qr_owned r))"

fun queue_run_events :: "(ptr \<Rightarrow> int) \<Rightarrow> ptr \<Rightarrow> queue_event list \<Rightarrow> queue_run \<Rightarrow> queue_run option" where
  "queue_run_events master c [] r = Some r"
| "queue_run_events master c (e # es) r =
     (if queue_enabled c e r then Option.bind (queue_step master e r) (queue_run_events master c es) else None)"

definition queue_init :: queue_run where
  "queue_init = \<lparr>qr_state = \<lparr>qs_graph = rn_state graph_init, qs_events = (\<lambda>_. None), qs_queues = (\<lambda>_. None), qs_table = []\<rparr>,
     qr_running = [], qr_returned = [], qr_left = [], qr_done = [], qr_log = [], qr_owned = [], qr_waits = []\<rparr>"

section \<open>The invariant of a run\<close>

definition waiting :: "queue_run \<Rightarrow> ptr list" where
  "waiting r = gr_pool (qs_graph (qr_state r)) @ qr_running r @ qr_returned r @ qr_left r @ qr_done r"

definition qfinished :: "queue_event list \<Rightarrow> ptr set" where "qfinished evs = {p. QFinish p \<in> set evs}"
definition qdequeued :: "queue_event list \<Rightarrow> ptr set" where "qdequeued evs = {p. QDequeue p \<in> set evs}"
definition qreturned :: "queue_event list \<Rightarrow> ptr set" where "qreturned evs = {p. QReturn p \<in> set evs}"

definition queue_run_inv :: "ptr \<Rightarrow> queue_event list \<Rightarrow> queue_run \<Rightarrow> bool" where
  "queue_run_inv c evs r \<longleftrightarrow>
     queue_inv c (qr_log r) (set (qr_waits r)) (qdequeued evs) (set (qr_owned r)) (tasks (qr_log r) - qfinished evs) (set (waiting r))
       (set (qr_done r)) (qr_state r) \<and>
     distinct (waiting r) \<and> qdequeued evs = set (qr_left r) \<union> set (qr_done r) \<union> qfinished evs \<and>
     qreturned evs = set (qr_returned r) \<union> qdequeued evs \<and> qfinished evs \<subseteq> tasks (qr_log r) \<and>
     set (qr_waits r) \<subseteq> tasks (qr_log r) \<times> tasks (qr_log r)"

lemma queue_run_inv_parts:
  assumes "queue_run_inv c evs r"
  shows "queue_inv c (qr_log r) (set (qr_waits r)) (qdequeued evs) (set (qr_owned r)) (tasks (qr_log r) - qfinished evs) (set (waiting r))
       (set (qr_done r)) (qr_state r)"
    "distinct (waiting r)" "qdequeued evs = set (qr_left r) \<union> set (qr_done r) \<union> qfinished evs"
    "qreturned evs = set (qr_returned r) \<union> qdequeued evs" "qfinished evs \<subseteq> tasks (qr_log r)"
    "set (qr_waits r) \<subseteq> tasks (qr_log r) \<times> tasks (qr_log r)"
  using assms unfolding queue_run_inv_def by blast+

lemma queue_run_inv_init: "queue_run_inv c [] queue_init"
  by (auto simp: queue_run_inv_def queue_init_def queue_inv_def graph_init_def base_inv_def waiting_def tasks_def held_def
      qfinished_def qdequeued_def qreturned_def in_order_def log_ok_def queues_ok_def waits_ok_def intro!: exI[of _ "{}"])

lemma qevents_snoc:
  "qfinished (evs @ [e]) = (case e of QFinish p \<Rightarrow> insert p (qfinished evs) | _ \<Rightarrow> qfinished evs)"
  "qdequeued (evs @ [e]) = (case e of QDequeue p \<Rightarrow> insert p (qdequeued evs) | _ \<Rightarrow> qdequeued evs)"
  "qreturned (evs @ [e]) = (case e of QReturn p \<Rightarrow> insert p (qreturned evs) | _ \<Rightarrow> qreturned evs)"
  by (auto simp: qfinished_def qdequeued_def qreturned_def split: queue_event.splits)

text \<open>A task that waits for a step is in one list only.\<close>

lemma waiting_mset:
  assumes "mset (waiting r') = mset (waiting r)"
  shows "set (waiting r') = set (waiting r)" "distinct (waiting r') = distinct (waiting r)"
  using mset_eq_setD[OF assms] mset_eq_imp_distinct_iff[OF assms] by simp_all

lemma queue_inv_pool:
  assumes "queue_inv c log K D W U X F s"
  shows "queue_inv c log K D W U X F (put_graph ((qs_graph s)\<lparr>gr_pool := ps\<rparr>) s)"
proof -
  have n: "npred (g\<lparr>gr_pool := ps\<rparr>) = npred g" for g by (simp add: npred_def fun_eq_iff)
  have "base_inv c U X F R E (g\<lparr>gr_pool := ps\<rparr>) = base_inv c U X F R E g" for R E g
    by (simp add: base_inv_def n succs_def[abs_def])
  then show ?thesis
    using assms unfolding queue_inv_def queues_ok_def event_ok_def graph_of_put events_of_put queues_of_put n by simp
qed

lemma log_item: "p \<in> tasks log \<Longrightarrow> log_ok log \<Longrightarrow> (p, queue_of log p, event_of log p) \<in> set log"
  using log_of tasks_log by metis

lemma qrun_start:
  assumes inv: "queue_run_inv c evs r" and p: "p \<in> set (gr_pool (qs_graph (qr_state r)))"
  shows "\<exists>r'. queue_step m (QStart p) r = Some r' \<and> queue_run_inv c (evs @ [QStart p]) r'"
proof -
  let ?g = "qs_graph (qr_state r)"
  note P = queue_run_inv_parts[OF inv]
  let ?r = "r\<lparr>qr_state := put_graph (?g\<lparr>gr_pool := remove1 p (gr_pool ?g)\<rparr>) (qr_state r), qr_running := p # qr_running r\<rparr>"
  have "mset (waiting ?r) = mset (waiting r)" using p by (simp add: waiting_def)
  note w = waiting_mset[OF this]
  have "queue_run_inv c (evs @ [QStart p]) ?r"
    unfolding queue_run_inv_def w using queue_inv_pool[OF P(1)] P(2-) by (simp add: qevents_snoc)
  then show ?thesis by (simp add: Let_def)
qed

lemma qrun_return:
  assumes inv: "queue_run_inv c evs r" and p: "p \<in> set (qr_running r)"
  shows "\<exists>r'. queue_step m (QReturn p) r = Some r' \<and> queue_run_inv c (evs @ [QReturn p]) r'"
proof -
  let ?e = "event_of (qr_log r) p"
  note P = queue_run_inv_parts[OF inv]
  note qi = P(1) and d = P(2) and D = P(3)
  note S = queue_inv_sets[OF qi]
  have pw: "p \<in> set (waiting r)" using p by (simp add: waiting_def)
  then have pt: "p \<in> tasks (qr_log r)" "p \<notin> qfinished evs" using S(8) by auto
  then have pD: "p \<notin> qdequeued evs" using d p D by (auto simp: waiting_def)
  have st: "KUPL_EVENT_STATUS_COMPLETE \<noteq> KUPL_EVENT_STATUS_CREATED" by (simp add: event_status)
  obtain v where v: "kupl_event_set_status ?e KUPL_EVENT_STATUS_COMPLETE (qr_state r) = Some (put_event ?e v (qr_state r))"
    "queue_inv c (qr_log r) (set (qr_waits r)) (qdequeued evs) (set (qr_owned r)) (tasks (qr_log r) - qfinished evs) (set (waiting r))
       (set (qr_done r)) (put_event ?e v (qr_state r))"
    using queue_set_status[OF qi log_item[OF pt(1) S(9)] _ st] pD by blast
  let ?r = "r\<lparr>qr_state := put_event ?e v (qr_state r), qr_running := remove1 p (qr_running r), qr_returned := p # qr_returned r\<rparr>"
  have "mset (waiting ?r) = mset (waiting r)" using p by (simp add: waiting_def)
  note w = waiting_mset[OF this]
  have "queue_run_inv c (evs @ [QReturn p]) ?r"
    unfolding queue_run_inv_def w using v(2) P(2-) by (simp add: qevents_snoc)
  then show ?thesis using v(1) by simp
qed

lemma qrun_dequeue:
  assumes inv: "queue_run_inv c evs r" and p: "p \<in> set (qr_returned r)"
  shows "\<exists>r'. queue_step m (QDequeue p) r = Some r' \<and> queue_run_inv c (evs @ [QDequeue p]) r'"
proof -
  let ?e = "event_of (qr_log r) p"
  note P = queue_run_inv_parts[OF inv]
  note qi = P(1) and d = P(2) and D = P(3)
  note S = queue_inv_sets[OF qi]
  have pw: "p \<in> set (waiting r)" using p by (simp add: waiting_def)
  then have pt: "p \<in> tasks (qr_log r)" "p \<notin> qfinished evs" using S(8) by auto
  then have pD: "p \<notin> qdequeued evs" using d p D by (auto simp: waiting_def)
  from queue_dequeue[OF qi log_item[OF pt(1) S(9)] pw pD] obtain s' where s': "event_func_dequeue ?e (qr_state r) = Some s'"
    "queue_inv c (qr_log r) (set (qr_waits r)) (insert p (qdequeued evs)) (set (qr_owned r)) (tasks (qr_log r) - qfinished evs) (set (waiting r))
       (set (qr_done r)) s'" "gr_pool (qs_graph s') = gr_pool (qs_graph (qr_state r))" by blast
  let ?r = "r\<lparr>qr_state := s', qr_returned := remove1 p (qr_returned r), qr_left := p # qr_left r\<rparr>"
  have "mset (waiting ?r) = mset (waiting r)" using p s'(3) by (simp add: waiting_def)
  note w = waiting_mset[OF this]
  have "set (remove1 p (qr_returned r)) = set (qr_returned r) - {p}" using d by (simp add: waiting_def)
  then have "queue_run_inv c (evs @ [QDequeue p]) ?r"
    unfolding queue_run_inv_def w using s'(2) P(2-) p by (simp add: qevents_snoc) blast
  then show ?thesis using s'(1) by simp
qed

lemma qrun_mark:
  assumes inv: "queue_run_inv c evs r" and p: "p \<in> set (qr_left r)"
  shows "\<exists>r'. queue_step m (QMark p) r = Some r' \<and> queue_run_inv c (evs @ [QMark p]) r'"
proof -
  note P = queue_run_inv_parts[OF inv]
  note qi = P(1) and d = P(2) and D = P(3)
  have pw: "p \<in> set (waiting r)" "p \<in> qdequeued evs" "p \<notin> set (qr_done r)" using p D d by (auto simp: waiting_def)
  from queue_mark[OF qi pw] obtain g where g: "task_mark_finished p (qs_graph (qr_state r)) = Some g"
    "gr_pool g = gr_pool (qs_graph (qr_state r))"
    "queue_inv c (qr_log r) (set (qr_waits r)) (qdequeued evs) (set (qr_owned r)) (tasks (qr_log r) - qfinished evs) (set (waiting r))
       (insert p (set (qr_done r))) (put_graph g (qr_state r))" by blast
  let ?r = "r\<lparr>qr_state := put_graph g (qr_state r), qr_left := remove1 p (qr_left r), qr_done := p # qr_done r\<rparr>"
  have "mset (waiting ?r) = mset (waiting r)" using p g(2) by (simp add: waiting_def)
  note w = waiting_mset[OF this]
  have "set (remove1 p (qr_left r)) = set (qr_left r) - {p}" using d by (simp add: waiting_def)
  then have "queue_run_inv c (evs @ [QMark p]) ?r"
    unfolding queue_run_inv_def w using g(3) P(2-) p by (simp add: qevents_snoc) blast
  then show ?thesis using g(1) by simp
qed

lemma qrun_finish:
  assumes inv: "queue_run_inv c evs r" and p: "p \<in> set (qr_done r)"
  shows "\<exists>r'. queue_step m (QFinish p) r = Some r' \<and> queue_run_inv c (evs @ [QFinish p]) r'"
proof -
  let ?U = "tasks (qr_log r) - qfinished evs"
  note P = queue_run_inv_parts[OF inv]
  note qi = P(1) and d = P(2) and D = P(3)
  note S = queue_inv_sets[OF qi]
  from queue_finish[OF qi p] obtain g rs where g: "kupl_task_finish p (qs_graph (qr_state r)) = Some g"
    "gr_pool g = gr_pool (qs_graph (qr_state r)) @ rs" "distinct rs" "set rs \<inter> set (waiting r) = {}"
    "queue_inv c (qr_log r) (set (qr_waits r)) (qdequeued evs) (set (qr_owned r)) (?U - {p}) ((set (waiting r) - {p}) \<union> set rs)
       (set (qr_done r) - {p}) (put_graph g (qr_state r))" by blast
  let ?r = "r\<lparr>qr_state := put_graph g (qr_state r), qr_done := remove1 p (qr_done r)\<rparr>"
  have w: "set (waiting ?r) = (set (waiting r) - {p}) \<union> set rs" "distinct (waiting ?r)" "set (qr_done ?r) = set (qr_done r) - {p}"
    using d g(2-4) p by (auto simp: waiting_def)
  have u: "?U - {p} = tasks (qr_log ?r) - qfinished (evs @ [QFinish p])" by (auto simp: qevents_snoc)
  have pt: "p \<in> tasks (qr_log r)" using p S by blast
  have "queue_run_inv c (evs @ [QFinish p]) ?r"
    unfolding queue_run_inv_def w(1,3) using g(5)[unfolded u] w(2) P(3-) p pt by (simp add: qevents_snoc) blast
  then show ?thesis using g(1) by simp
qed

section \<open>Calls of the user\<close>

lemma qrun_item:
  assumes inv: "queue_run_inv c evs r" and fresh: "fresh_env c en r" and u: "qs_queues (qr_state r) q = Some u"
    and d: "td_flag desc = 0" and v: "ev_task v = Some (env_task en)" "ev_lock v" "ev_q_set v" "ev_ref v = 1"
    and w: "type = KUPL_EVENT_TYPE_WAIT \<longrightarrow> (\<exists>w. ev_wait v = Some w \<and> w \<in> set (map (event_of (qr_log r)) (qr_owned r)))"
    and user: "user = (type \<noteq> KUPL_EVENT_TYPE_KERNEL)"
    and ws: "\<forall>(x, y)\<in>set ws. (x, y) \<in> set (qr_waits r) \<or>
      y = env_task en \<and> type = KUPL_EVENT_TYPE_WAIT \<and> (\<exists>w qw. ev_wait v = Some w \<and> (x, qw, w) \<in> set (qr_log r))"
    and ev: "qfinished (evs @ [ev]) = qfinished evs" "qdequeued (evs @ [ev]) = qdequeued evs" "qreturned (evs @ [ev]) = qreturned evs"
  shows "\<exists>s1 s2. kupl_event_init (env_event en) (Some q) desc type en (with_event (env_event en) v (env_task en) new_task (qr_state r)) =
      Some (KUPL_OK, s1) \<and> kupl_enqueue_event (Some q) (env_event en) s1 = Some s2 \<and>
    queue_run_inv c (evs @ [ev]) ((submitted KUPL_OK en q user r s2)\<lparr>qr_waits := ws\<rparr>)"
proof -
  let ?p = "env_task en" and ?e = "env_event en" and ?log = "qr_log r"
  note P = queue_run_inv_parts[OF inv]
  note S = queue_inv_sets[OF P(1)]
  have env: "env_ok_for c ?p ?e en" and hp: "gr_heap (qs_graph (qr_state r)) ?p = None" and pn: "?p \<notin> tasks ?log"
    and en: "?e \<notin> snd ` snd ` set ?log" using fresh by (auto simp: fresh_env_def tasks_def image_image comp_def)
  obtain t v' where 1: "kupl_event_init ?e (Some q) desc type en (with_event ?e v ?p new_task (qr_state r)) =
      Some (KUPL_OK, with_event ?e v' ?p t (qr_state r))"
    "v' = v\<lparr>ev_func := td_func desc, ev_args := td_args desc, ev_graph := Some c, ev_type := type, ev_q := Some q\<rparr>"
    "task_ok c t" "tb_ref (tk_tb t) = 2" "\<not> kupl_tb_is_finished (tk_tb t)" "gn_successors (tk_gnode t) = []"
    "gn_n_predecessors (tk_gnode t) = 0" using event_inited[OF env v(1) d] by blast
  have w': "ev_type v' = KUPL_EVENT_TYPE_WAIT \<longrightarrow>
      (\<exists>w pw qw. ev_wait v' = Some w \<and> (pw, qw, w) \<in> set ?log \<and> pw \<in> set (qr_owned r))"
  proof
    assume "ev_type v' = KUPL_EVENT_TYPE_WAIT"
    then obtain pw where "ev_wait v' = Some (event_of ?log pw)" "pw \<in> set (qr_owned r)" using w 1(2) by auto
    moreover then have "(pw, queue_of ?log pw, event_of ?log pw) \<in> set ?log" using log_item S(6,9) by blast
    ultimately show "\<exists>w pw qw. ev_wait v' = Some w \<and> (pw, qw, w) \<in> set ?log \<and> pw \<in> set (qr_owned r)" by blast
  qed
  have vf: "ev_task v' = Some ?p" "ev_q v' = Some q" "ev_lock v'" "ev_q_set v'" "ev_ref v' = 1" "ev_type v' = type"
    using v 1(2) by simp_all
  have ws': "\<forall>(x, y)\<in>set ws. (x, y) \<in> set (qr_waits r) \<or>
      y = ?p \<and> ev_type v' = KUPL_EVENT_TYPE_WAIT \<and> (\<exists>w qw. ev_wait v' = Some w \<and> (x, qw, w) \<in> set ?log)"
    using ws 1(2) by simp
  from queue_enqueued[OF P(1) u en hp pn 1(3-7) vf(1-5) w' refl ws' P(6)] obtain s' ps where s':
    "kupl_enqueue_event (Some q) ?e (with_event ?e v' ?p t (qr_state r)) = Some s'"
    "gr_pool (qs_graph s') = gr_pool (qs_graph (qr_state r)) @ ps" "ps = [] \<or> ps = [?p]"
    "queue_inv c (?log @ [(?p, q, ?e)]) (set ws) (qdequeued evs)
       (if ev_type v' = KUPL_EVENT_TYPE_KERNEL then set (qr_owned r) else insert ?p (set (qr_owned r)))
       (insert ?p (tasks ?log - qfinished evs)) (set (waiting r) \<union> set ps) (set (qr_done r)) s'" by blast
  let ?r = "(submitted KUPL_OK en q user r s')\<lparr>qr_waits := ws\<rparr>"
  have r: "qr_state ?r = s'" "qr_log ?r = ?log @ [(?p, q, ?e)]" "qr_done ?r = qr_done r" "qr_left ?r = qr_left r"
    "qr_returned ?r = qr_returned r" "qr_running ?r = qr_running r" "qr_waits ?r = ws"
    "set (qr_owned ?r) = (if ev_type v' = KUPL_EVENT_TYPE_KERNEL then set (qr_owned r) else insert ?p (set (qr_owned r)))"
    using user vf(6) by (simp_all add: submitted_def)
  have pf: "?p \<notin> qfinished evs" using pn P(5) by blast
  then have U: "tasks (?log @ [(?p, q, ?e)]) - qfinished evs = insert ?p (tasks ?log - qfinished evs)" by (auto simp: tasks_def)
  have px: "?p \<notin> set (waiting r)" using S(1,8) pn by blast
  have ms: "mset (waiting ?r) = mset (waiting r) + mset ps" unfolding waiting_def r(1,3-6) s'(2) by simp
  have X: "set (waiting ?r) = set (waiting r) \<union> set ps" using arg_cong[OF ms, of set_mset] by simp
  have dist: "distinct (waiting ?r)"
    using mset_eq_imp_distinct_iff[of "waiting ?r" "waiting r @ ps"] ms P(2) px s'(3) by auto
  have "qfinished evs \<subseteq> tasks (?log @ [(?p, q, ?e)])" using P(5) by (auto simp: tasks_def)
  moreover have "set ws \<subseteq> tasks (?log @ [(?p, q, ?e)]) \<times> tasks (?log @ [(?p, q, ?e)])"
  proof (clarify)
    fix x y assume "(x, y) \<in> set ws"
    then have "(x, y) \<in> set (qr_waits r) \<or> y = ?p \<and> x \<in> tasks ?log" using ws tasks_log by fastforce
    then show "x \<in> tasks (?log @ [(?p, q, ?e)]) \<and> y \<in> tasks (?log @ [(?p, q, ?e)])" using P(6) by (auto simp: tasks_def)
  qed
  ultimately have "queue_run_inv c (evs @ [ev]) ?r"
    using s'(4) P(3,4) dist unfolding queue_run_inv_def ev r(1-5) r(7,8) U X by blast
  then show ?thesis using 1(1) s'(1) by blast
qed

lemma submitted_waits: "(submitted ret en q user r s)\<lparr>qr_waits := qr_waits r\<rparr> = submitted ret en q user r s"
  by (simp add: submitted_def)

lemma task_of_event:
  assumes "log_ok log" and "(p, q, e) \<in> set log"
  shows "task_of_event log e = p"
proof -
  have "(p, q, e) \<in> set [x\<leftarrow>log. snd (snd x) = e]" using assms(2) by simp
  then obtain x xs where x: "[x\<leftarrow>log. snd (snd x) = e] = x # xs" by (cases "[x\<leftarrow>log. snd (snd x) = e]") auto
  have "x \<in> set [x\<leftarrow>log. snd (snd x) = e]" unfolding x by simp
  then have "x \<in> set log \<and> snd (snd x) = e" by (simp only: set_filter mem_Collect_eq)
  then obtain p' q' where x': "x = (p', q', e)" "(p', q', e) \<in> set log" by (metis prod.collapse)
  have "fst x = p" using log_event[OF assms x'(2)] x'(1) by simp
  then show ?thesis by (simp add: task_of_event_def x)
qed

lemma qrun_create:
  assumes inv: "queue_run_inv c evs r" and q: "qs_queues (qr_state r) q = None"
  shows "\<exists>r'. queue_step m (QCreate q prio) r = Some r' \<and> queue_run_inv c (evs @ [QCreate q prio]) r'"
proof -
  note P = queue_run_inv_parts[OF inv]
  have ev: "qfinished (evs @ [QCreate q prio]) = qfinished evs" "qdequeued (evs @ [QCreate q prio]) = qdequeued evs"
    "qreturned (evs @ [QCreate q prio]) = qreturned evs" by (simp_all add: qevents_snoc)
  show ?thesis
  proof (cases "prio < KUPL_LEAST_PRIORITY \<or> prio > KUPL_GREATEST_PRIORITY")
    case True
    have "r\<lparr>qr_state := qr_state r\<rparr> = r" by simp
    then show ?thesis using True P unfolding queue_run_inv_def ev
      by (simp add: kupl_queue_create_with_priority_def)
  next
    case False
    let ?u = "\<lparr>qu_event_count = 0, qu_last_event = None, qu_priority = prio, qu_index = 0, qu_acquire = False, qu_sync = False\<rparr>"
    let ?r = "r\<lparr>qr_state := put_queue q ?u (qr_state r)\<rparr>"
    have "queue_step m (QCreate q prio) r = Some ?r"
      using False by (simp add: kupl_queue_create_with_priority_def kupl_queue_create_def)
    moreover have "waiting ?r = waiting r" by (simp add: waiting_def)
    then have "queue_run_inv c (evs @ [QCreate q prio]) ?r"
      using queue_created[OF P(1) q, of ?u] P(2-) unfolding queue_run_inv_def ev by simp
    ultimately show ?thesis by blast
  qed
qed

lemma qrun_destroy:
  assumes inv: "queue_run_inv c evs r" and e: "e \<in> set (map (event_of (qr_log r)) (qr_owned r))"
  shows "\<exists>r'. queue_step m (QDestroy e) r = Some r' \<and> queue_run_inv c (evs @ [QDestroy e]) r'"
proof -
  note P = queue_run_inv_parts[OF inv]
  note S = queue_inv_sets[OF P(1)]
  obtain p where p: "p \<in> set (qr_owned r)" "e = event_of (qr_log r) p" using e by auto
  then have pl: "(p, queue_of (qr_log r) p, e) \<in> set (qr_log r)" using log_item S(6,9) by blast
  from queue_destroyed[OF P(1) pl p(1)] obtain s' where s': "kupl_event_destroy (Some e) (qr_state r) = Some s'"
    "queue_inv c (qr_log r) (set (qr_waits r)) (qdequeued evs) (set (qr_owned r) - {p}) (tasks (qr_log r) - qfinished evs) (set (waiting r))
       (set (qr_done r)) s'" "gr_pool (qs_graph s') = gr_pool (qs_graph (qr_state r))" by blast
  let ?r = "r\<lparr>qr_state := s', qr_owned := [p\<leftarrow>qr_owned r. event_of (qr_log r) p \<noteq> e]\<rparr>"
  have "p' = p" if "p' \<in> set (qr_owned r)" "event_of (qr_log r) p' = e" for p'
    using log_event[OF S(9) pl] log_item[OF _ S(9), of p'] that S(6) by blast
  then have o: "set [p\<leftarrow>qr_owned r. event_of (qr_log r) p \<noteq> e] = set (qr_owned r) - {p}" using p by auto
  have w: "waiting ?r = waiting r" using s'(3) by (simp add: waiting_def)
  have "queue_run_inv c (evs @ [QDestroy e]) ?r"
    unfolding queue_run_inv_def w using s'(2) o P(2-) by (simp add: qevents_snoc)
  then show ?thesis using s'(1) by simp
qed

lemma new_event_fields: "ev_task (new_event p) = Some p" "ev_lock (new_event p)" "ev_q_set (new_event p)" "ev_ref (new_event p) = 1"
    "ev_status (new_event p) = KUPL_EVENT_STATUS_CREATED"
  by (simp_all add: new_event_def zero_event_def event_status)

lemma with_event_at: "qs_events (with_event e v p t s) e = Some v"
  by (simp add: with_event_def)

lemma with_event_put: "put_event e v' (with_event e v p t s) = with_event e v' p t s"
  by (simp add: with_event_def)

lemma qrun_record:
  assumes inv: "queue_run_inv c evs r" and en: "queue_enabled c (QRecord en q) r"
  shows "\<exists>r'. queue_step m (QRecord en q) r = Some r' \<and> queue_run_inv c (evs @ [QRecord en q]) r' \<and>
    qr_log r' = qr_log r @ [(env_task en, q, env_event en)]"
proof -
  let ?p = "env_task en" and ?e = "env_event en" and ?ev = "QRecord en q"
  have fresh: "fresh_env c en r" using en by simp
  have env: "env_ok_for c ?p ?e en" using fresh by (simp add: fresh_env_def)
  obtain u where u: "qs_queues (qr_state r) q = Some u" using en by auto
  let ?desc = "\<lparr>td_field_mask = 0, td_func = Some EVENT_FUNC_RECORD, td_args = Some ?e, td_name = [], td_priority = 0, td_flag = 0,
      td_executor_id = 0, td_egroup = None\<rparr>"
  from qrun_item[OF inv fresh u, of ?desc "new_event ?p" KUPL_EVENT_TYPE_RECORD True "qr_waits r" ?ev, unfolded submitted_waits]
  obtain s1 s2 where s: "kupl_event_init ?e (Some q) ?desc KUPL_EVENT_TYPE_RECORD en (with_event ?e (new_event ?p) ?p new_task (qr_state r)) =
      Some (KUPL_OK, s1)" "kupl_enqueue_event (Some q) ?e s1 = Some s2"
    "queue_run_inv c (evs @ [?ev]) (submitted KUPL_OK en q True r s2)"
    by (auto simp: new_event_fields qevents_snoc)
  have "queue_step m ?ev r = Some (submitted KUPL_OK en q True r s2)"
    using s(1,2) event_created[OF env, of 0]
    by (simp add: kupl_event_create_def KUPL_MAX_MALLOC_SIZE_def kupl_event_record_def kupl_event_query_def with_event_at
        new_event_fields event_status)
  then show ?thesis using s(3) by (simp add: submitted_def)
qed

lemma qrun_wait_for:
  assumes inv: "queue_run_inv c evs r" and en: "queue_enabled c (QWaitFor en q w) r"
  shows "\<exists>r'. queue_step m (QWaitFor en q w) r = Some r' \<and> queue_run_inv c (evs @ [QWaitFor en q w]) r' \<and>
    qr_log r' = qr_log r @ [(env_task en, q, env_event en)]"
proof -
  let ?p = "env_task en" and ?e = "env_event en" and ?ev = "QWaitFor en q w"
  let ?v = "(new_event ?p)\<lparr>ev_wait := Some w\<rparr>"
  have fresh: "fresh_env c en r" and w: "w \<in> set (map (event_of (qr_log r)) (qr_owned r))" using en by simp_all
  have env: "env_ok_for c ?p ?e en" using fresh by (simp add: fresh_env_def)
  obtain u where u: "qs_queues (qr_state r) q = Some u" using en by auto
  let ?desc = "\<lparr>td_field_mask = 0, td_func = Some EVENT_FUNC_WAIT, td_args = Some ?e, td_name = [], td_priority = 0, td_flag = 0,
      td_executor_id = 0, td_egroup = None\<rparr>"
  let ?ws = "(task_of_event (qr_log r) w, ?p) # qr_waits r"
  note S = queue_inv_sets[OF queue_run_inv_parts(1)[OF inv]]
  obtain pw where pw: "pw \<in> set (qr_owned r)" "w = event_of (qr_log r) pw" using w by auto
  then have wl: "(pw, queue_of (qr_log r) pw, w) \<in> set (qr_log r)" using log_item[OF _ S(9), of pw] S(6) by blast
  then have "\<exists>qw. (task_of_event (qr_log r) w, qw, w) \<in> set (qr_log r)" using task_of_event[OF S(9) wl] by auto
  with qrun_item[OF inv fresh u, of ?desc ?v KUPL_EVENT_TYPE_WAIT True ?ws ?ev] w
  obtain s1 s2 where s: "kupl_event_init ?e (Some q) ?desc KUPL_EVENT_TYPE_WAIT en (with_event ?e ?v ?p new_task (qr_state r)) =
      Some (KUPL_OK, s1)" "kupl_enqueue_event (Some q) ?e s1 = Some s2"
    "queue_run_inv c (evs @ [?ev]) ((submitted KUPL_OK en q True r s2)\<lparr>qr_waits := ?ws\<rparr>)"
    by (auto simp: new_event_fields qevents_snoc)
  have "queue_step m ?ev r = Some ((submitted KUPL_OK en q True r s2)\<lparr>qr_waits := ?ws\<rparr>)"
    using s(1,2) event_created[OF env, of 0]
    by (simp add: kupl_event_create_def KUPL_MAX_MALLOC_SIZE_def queue_wait_enqueue_def kupl_event_init_wait_def with_event_at
        with_event_put)
  then show ?thesis using s(3) by (simp add: submitted_def)
qed

lemma queue_tb_desc_flag [simp]: "td_flag (queue_tb_desc m a u d x) = 0"
  by (simp add: queue_tb_desc_def Let_def split: option.split)

lemma qrun_submit:
  assumes inv: "queue_run_inv c evs r" and en: "queue_enabled c (QSubmit en q d udata acq) r"
  shows "\<exists>r'. queue_step m (QSubmit en q d udata acq) r = Some r' \<and> queue_run_inv c (evs @ [QSubmit en q d udata acq]) r' \<and>
    qr_log r' = qr_log r @ [(env_task en, q, env_event en)]"
proof -
  let ?p = "env_task en" and ?e = "env_event en" and ?ev = "QSubmit en q d udata acq"
  let ?sized = "qd_field_mask d AND KUPL_QUEUE_ITEM_DESC_FIELD_ARGS_SIZE \<noteq> 0"
  have fresh: "fresh_env c en r" using en by simp
  have env: "env_ok_for c ?p ?e en" using fresh by (simp add: fresh_env_def)
  obtain u where u: "qs_queues (qr_state r) q = Some u" "\<not> qu_sync u" "qu_acquire u \<Longrightarrow> acq \<noteq> None"
    using en by (auto split: option.splits)
  let ?desc = "queue_tb_desc m (if qu_acquire u then acq else None) u d (if ?sized then Some udata else qd_args d)"
  from qrun_item[OF inv fresh u(1), of ?desc "new_event ?p" KUPL_EVENT_TYPE_KERNEL False "qr_waits r" ?ev, unfolded submitted_waits]
  obtain s1 s2 where s: "kupl_event_init ?e (Some q) ?desc KUPL_EVENT_TYPE_KERNEL en (with_event ?e (new_event ?p) ?p new_task (qr_state r)) =
      Some (KUPL_OK, s1)" "kupl_enqueue_event (Some q) ?e s1 = Some s2"
    "queue_run_inv c (evs @ [?ev]) (submitted KUPL_OK en q False r s2)"
    by (auto simp: new_event_fields qevents_snoc)
  have size: "(if ?sized then qd_args_size d else 0) < KUPL_MAX_MALLOC_SIZE" using en by (auto simp: KUPL_MAX_MALLOC_SIZE_def)
  have f: "qd_func d \<noteq> None" "\<not> (qd_field_mask d AND KUPL_QUEUE_ITEM_DESC_FIELD_NAME \<noteq> 0 \<and> qd_name d = None)"
    "\<not> (qu_acquire u \<and> acq = None)" using en u(3) by auto
  have "kupl_queue_submit m (\<lambda>_. None) acq udata en (Some q) (Some d) (qr_state r) = Some (KUPL_OK, s2)"
    unfolding kupl_queue_submit_def option.case prod.case if_not_P[OF f(1)] if_not_P[OF f(2)] u(1) Option.bind.simps if_not_P[OF u(2)]
      Let_def event_created[OF env size] case_prod_conv if_not_P[OF f(3)] s(1)
    using s(2) by simp
  then have "queue_step m ?ev r = Some (submitted KUPL_OK en q False r s2)" by simp
  then show ?thesis using s(3) by (simp add: submitted_def)
qed

text \<open>Every step of a run succeeds and keeps the invariant.\<close>

lemma qrun_step:
  assumes "queue_run_inv c evs r" and "queue_enabled c e r"
  shows "\<exists>r'. queue_step m e r = Some r' \<and> queue_run_inv c (evs @ [e]) r'"
proof (cases e)
  case (QSubmit en q d udata acq)
  then show ?thesis using qrun_submit[OF assms(1)] assms(2) by blast
next
  case (QWaitFor en q w)
  then show ?thesis using qrun_wait_for[OF assms(1)] assms(2) by blast
next
  case (QRecord en q)
  then show ?thesis using qrun_record[OF assms(1)] assms(2) by blast
qed (use qrun_create[OF assms(1)] qrun_destroy[OF assms(1)] qrun_start[OF assms(1)] qrun_return[OF assms(1)]
    qrun_dequeue[OF assms(1)] qrun_mark[OF assms(1)] qrun_finish[OF assms(1)] assms(2) in \<open>simp_all del: queue_step.simps\<close>)

end
