(* ===== verification/Kupl_Queue_Safety.thy ===== *)
theory Kupl_Queue_Safety
  imports Kupl_Queue_Run Kupl_Event_System
begin

text \<open>
  What the invariant of Kupl\_Queue\_Run gives for every run of queues: the items of a queue run in the
  order of their submission, no step touches a freed event or task, \<open>kupl_queue_wait\<close> waits for all items,
  and a run never gets stuck.  At the end, what goes wrong when an event is recorded again too early.
\<close>

section \<open>Every reachable state has the invariant\<close>

text \<open>The item that an event submits.\<close>

fun item_of :: "queue_event \<Rightarrow> queue_log" where
  "item_of (QSubmit en q d udata acq) = [(env_task en, q, env_event en)]"
| "item_of (QWaitFor en q w) = [(env_task en, q, env_event en)]"
| "item_of (QRecord en q) = [(env_task en, q, env_event en)]"
| "item_of _ = []"

lemma qrun_log:
  assumes inv: "queue_run_inv c evs r" and en: "queue_enabled c e r" and st: "queue_step m e r = Some r'"
  shows "qr_log r' = qr_log r @ item_of e"
proof (cases e)
  case (QSubmit en q d udata acq)
  then show ?thesis using qrun_submit[OF inv, of en q d udata acq m] en st by auto
next
  case (QWaitFor en q w)
  then show ?thesis using qrun_wait_for[OF inv, of en q w m] en st by auto
next
  case (QRecord en q)
  then show ?thesis using qrun_record[OF inv, of en q m] en st by auto
qed (use st in \<open>auto simp: Let_def split: bind_splits\<close>)

text \<open>Some item can make a step as long as one is not finished: the oldest one.\<close>

lemma waiting_nonempty:
  assumes inv: "queue_inv c log K D W U X F s" and p: "p \<in> U"
  shows "X \<noteq> {}"
proof -
  obtain E where E: "base_inv c U X F (\<lambda>x. own U x + own (held log D W) x) E (qs_graph s)" "\<forall>(x, y)\<in>E. pos log x < pos log y"
    using queue_inv_base[OF inv] by blast
  define x where "x = (ARG_MIN (pos log) x. x \<in> U)"
  have x: "x \<in> U" "\<And>y. y \<in> U \<Longrightarrow> pos log x \<le> pos log y"
    using arg_min_natI[of "\<lambda>x. x \<in> U" p "pos log"] arg_min_nat_le[of "\<lambda>x. x \<in> U" _ "pos log"] p by (auto simp: x_def)
  have "\<forall>y. (y, x) \<notin> E" using E x base_sets[OF E(1)] by fastforce
  then have "npred (qs_graph s) x = 0" using base_npred_0[OF E(1) x(1)] by blast
  then have "x \<in> X" using queue_inv_sets(12)[OF inv] x(1) by (metis DiffI less_irrefl)
  then show ?thesis by blast
qed

text \<open>How many steps of executors a run has left at most.\<close>

definition steps_done :: "queue_run \<Rightarrow> nat" where
  "steps_done r = length (qr_running r) + 2 * length (qr_returned r) + 3 * length (qr_left r) + 4 * length (qr_done r)"

definition steps_left :: "queue_event list \<Rightarrow> queue_run \<Rightarrow> nat" where
  "steps_left evs r = 5 * card (tasks (qr_log r) - qfinished evs) - steps_done r"

fun executor_step :: "queue_event \<Rightarrow> bool" where
  "executor_step (QStart p) = True"
| "executor_step (QReturn p) = True"
| "executor_step (QDequeue p) = True"
| "executor_step (QMark p) = True"
| "executor_step (QFinish p) = True"
| "executor_step _ = False"

lemma steps_bound:
  assumes inv: "queue_run_inv c evs r" and ne: "tasks (qr_log r) - qfinished evs \<noteq> {}"
  shows "steps_done r < 5 * card (tasks (qr_log r) - qfinished evs)"
proof -
  note P = queue_run_inv_parts[OF inv]
  let ?U = "tasks (qr_log r) - qfinished evs"
  have fin: "finite ?U" by (simp add: tasks_def)
  have "length (waiting r) = card (set (waiting r))" using P(2) by (simp add: distinct_card)
  also have "\<dots> \<le> card ?U" using queue_inv_sets(8)[OF P(1)] fin by (intro card_mono)
  finally have "steps_done r \<le> 4 * card ?U" by (simp add: steps_done_def waiting_def)
  moreover have "0 < card ?U" using fin ne by (simp add: card_gt_0_iff)
  ultimately show ?thesis by linarith
qed

lemma steps_decrease:
  assumes inv: "queue_run_inv c evs r" and en: "queue_enabled c e r" and st: "queue_step m e r = Some r'" and ex: "executor_step e"
    and ne: "tasks (qr_log r) - qfinished evs \<noteq> {}"
  shows "steps_left (evs @ [e]) r' < steps_left evs r"
proof -
  note P = queue_run_inv_parts[OF inv]
  note b = steps_bound[OF inv ne]
  have log: "qr_log r' = qr_log r" using qrun_log[OF inv en st] ex by (cases e) simp_all
  let ?U = "tasks (qr_log r) - qfinished evs"
  have pos: "p \<in> set xs \<Longrightarrow> 0 < length xs" for p and xs :: "ptr list" by (cases xs) simp_all
  show ?thesis
  proof (cases e)
    case (QFinish p)
    have p: "p \<in> set (qr_done r)" using en QFinish by simp
    then have pU: "p \<in> ?U" using queue_inv_sets(7,8)[OF P(1)] by blast
    have U: "tasks (qr_log r) - qfinished (evs @ [e]) = ?U - {p}" using QFinish by (auto simp: qevents_snoc)
    have "card (?U - {p}) = card ?U - 1" "0 < card ?U" using pU by (auto simp: tasks_def card_gt_0_iff)
    moreover obtain n where "length (qr_done r) = Suc n" using p by (cases "qr_done r") simp_all
    then have "steps_done r' + 4 = steps_done r"
      using st QFinish p by (auto simp: steps_done_def length_remove1 split: bind_splits)
    ultimately show ?thesis using b unfolding steps_left_def log U by linarith
  qed (use st en ex b pos in \<open>auto simp: steps_left_def steps_done_def log qevents_snoc length_remove1 Let_def split: bind_splits\<close>)
qed

lemma executor_can_step:
  assumes inv: "queue_run_inv c evs r" and ne: "tasks (qr_log r) - qfinished evs \<noteq> {}"
  shows "\<exists>e. queue_enabled c e r \<and> executor_step e"
proof -
  obtain y where "y \<in> tasks (qr_log r) - qfinished evs" using ne by blast
  from waiting_nonempty[OF queue_run_inv_parts(1)[OF inv] this] obtain x where "x \<in> set (waiting r)" by (metis ex_in_conv)
  then consider "queue_enabled c (QStart x) r" | "queue_enabled c (QReturn x) r" | "queue_enabled c (QDequeue x) r" |
    "queue_enabled c (QMark x) r" | "queue_enabled c (QFinish x) r" by (auto simp: waiting_def)
  then show ?thesis by cases (use executor_step.simps in blast)+
qed

interpretation queue_runs: ending_system "queue_enabled c" "queue_step m" "queue_run_events m c"
    "\<lambda>evs r. queue_run_inv c evs r \<and> qr_log r = concat (map item_of evs)" executor_step steps_left
    "\<lambda>evs r. tasks (qr_log r) - qfinished evs = {}" for m c
proof
  show "\<exists>s'. queue_step m e s = Some s' \<and> queue_run_inv c (es @ [e]) s' \<and> qr_log s' = concat (map item_of (es @ [e]))"
    if "queue_run_inv c es s \<and> qr_log s = concat (map item_of es)" "queue_enabled c e s" for es s e
    using qrun_step[of c es s e m] qrun_log[of c es s e m] that by fastforce
next
  fix es s e s'
  assume i: "queue_run_inv c es s \<and> qr_log s = concat (map item_of es)" and n: "\<not> tasks (qr_log s) - qfinished es = {}"
  show "\<exists>e. queue_enabled c e s \<and> executor_step e" using executor_can_step i n by blast
  show "queue_enabled c e s \<Longrightarrow> executor_step e \<Longrightarrow> queue_step m e s = Some s' \<Longrightarrow> steps_left (es @ [e]) s' < steps_left es s"
    using steps_decrease i n by blast
qed simp_all

lemma qrun_append:
  "queue_run_events m c (es @ fs) r = Option.bind (queue_run_events m c es r) (queue_run_events m c fs)"
  by (rule queue_runs.runs_append)

lemma qrun_snoc:
  "queue_run_events m c (es @ [e]) r = Some r'' \<longleftrightarrow>
     (\<exists>r'. queue_run_events m c es r = Some r' \<and> queue_enabled c e r' \<and> queue_step m e r' = Some r'')"
  by (rule queue_runs.runs_snoc)

lemma qrun_reach:
  assumes "queue_run_events m c evs queue_init = Some r"
  shows "queue_run_inv c evs r \<and> qr_log r = concat (map item_of evs)"
proof -
  have "qr_log queue_init = []" by (simp add: queue_init_def)
  then show ?thesis using queue_runs.runs_inv[OF assms, of "[]"] queue_run_inv_init by simp
qed

lemmas qrun_inv = qrun_reach[THEN conjunct1]

section \<open>Consequences of the invariant\<close>

text \<open>An item that can start has none before it in its queue.\<close>

lemma start_order:
  assumes inv: "queue_run_inv c evs r" and p2: "p2 \<in> set (waiting r)"
    and log: "qr_log r = xs @ (p1, q, x1) # ys @ (p2, q, x2) # zs"
  shows "p1 \<in> qdequeued evs"
proof -
  note P = queue_run_inv_parts[OF inv]
  note S = queue_inv_sets[OF P(1)]
  have dist: "distinct (map fst (qr_log r))" using S(9) by (simp add: log_ok_def)
  have "pos (qr_log r) p1 = length xs" "pos (qr_log r) p2 = length (xs @ (p1, q, x1) # ys)"
    using pos_nth[OF dist, of "length xs"] pos_nth[OF dist, of "length (xs @ (p1, q, x1) # ys)"]
    by (simp_all add: log nth_append)
  then have lt: "pos (qr_log r) p1 < pos (qr_log r) p2" by simp
  have m: "(p1, q, x1) \<in> set (qr_log r)" "(p2, q, x2) \<in> set (qr_log r)" by (simp_all add: log)
  then have "queue_of (qr_log r) p1 = queue_of (qr_log r) p2" "p1 \<in> tasks (qr_log r)"
    using log_of(1)[OF S(9)] tasks_log by auto
  with queue_order[OF P(1) p2 _ _ lt] show ?thesis by blast
qed

text \<open>What \<open>kupl_queue_wait\<close> does when the scheduler runs nothing for it.\<close>

lemma task_wait_blocks:
  assumes inv: "queue_inv c log K D W U X F s" and p: "p \<in> U" "p \<notin> F"
    and g: "kupl_task_ref (Some p) (qs_graph s) = Some g"
  shows "queue_task_wait (\<lambda>_. None) (Some p) (put_graph g s) \<noteq> Some (KUPL_OK, s')"
proof -
  obtain E where E: "base_inv c U X F (\<lambda>x. own U x + own (held log D W) x) E (qs_graph s)" using queue_inv_base[OF inv] by blast
  obtain t where t: "gr_heap (qs_graph s) p = Some t" "task_ok c t" using base_live[OF E p(1)] by blast
  have nf: "\<not> kupl_tb_is_finished (tk_tb t)" using base_heap[OF E t(1)] p by simp
  let ?t = "t\<lparr>tk_tb := (tk_tb t)\<lparr>tb_ref := tb_ref (tk_tb t) + 1\<rparr>\<rparr>"
  have g': "gr_heap g p = Some ?t" using g t(1) by (auto simp: kupl_task_ref_def load_task_def heap_store)
  have "\<not> kupl_tb_is_finished (tk_tb ?t)" using nf by (simp add: kupl_tb_is_finished_def)
  then have "kupl_tb_test (Some (tk_tb ?t)) = KUPL_AGAIN" by (simp only: kupl_tb_test_def option.case if_False)
  then have "queue_task_loop (\<lambda>_. None) p (put_graph g s) = None"
    by (subst queue_task_loop.simps) (simp add: load_task_def g')
  then show ?thesis by (auto simp: queue_task_wait_def load_task_def g' split: if_splits)
qed

lemma queue_wait_iff:
  assumes inv: "queue_inv c log K D W U X F s" and u: "qs_queues s q = Some u" and len: "length log < 2 ^ 64"
  shows "(\<exists>s'. kupl_queue_wait (\<lambda>_. None) (Some q) s = Some (KUPL_OK, s')) \<longleftrightarrow> (\<forall>x\<in>set (items log q). fst x \<in> D)"
proof -
  note S = queue_inv_sets[OF inv]
  have lu: "qu_last_event u = last_item D (items log q)" and cu: "qu_event_count u = of_nat (length [x\<leftarrow>items log q. fst x \<notin> D])"
    using S(11) u by (auto simp: queues_ok_def)
  let ?n = "length [x\<leftarrow>items log q. fst x \<notin> D]"
  have le: "?n \<le> length log" by (metis items_def le_trans length_filter_le)
  have "\<not> 2 ^ 64 dvd ?n" if "0 < ?n"
  proof
    assume "2 ^ 64 dvd ?n"
    then have "2 ^ 64 \<le> ?n" using that by (rule dvd_imp_le)
    then show False using len le by linarith
  qed
  then have "(of_nat ?n :: u64) = 0 \<longleftrightarrow> ?n = 0" by (auto simp: word_of_nat_eq_0_iff)
  then have c0: "qu_event_count u = 0 \<longleftrightarrow> (\<forall>x\<in>set (items log q). fst x \<in> D)"
    unfolding cu by (simp add: filter_empty_conv)
  show ?thesis
  proof (cases "qu_event_count u = 0")
    case True
    then show ?thesis using c0 u by (simp add: kupl_queue_wait_def)
  next
    case False
    then obtain x where x: "x \<in> set (items log q)" "fst x \<notin> D" using c0 by blast
    have ne: "items log q \<noteq> []" using x(1) by (metis empty_iff empty_set)
    have "last (items log q) \<in> set log \<and> fst (snd (last (items log q))) = q"
      using last_in_set[OF ne] by (simp only: set_items)
    then obtain pl el where l: "last (items log q) = (pl, q, el)" "(pl, q, el) \<in> set log" by (metis prod.collapse)
    have plt: "pl \<in> tasks log" "queue_of log pl = q" using l(2) log_of[OF S(9)] tasks_log by blast+
    have "pl \<notin> D"
    proof
      assume D: "pl \<in> D"
      obtain E where E: "base_inv c U X F (\<lambda>x. own U x + own (held log D W) x) E (qs_graph s)" "in_order log D E"
        using queue_inv_base[OF inv] by blast
      have xl: "x \<in> set log" "fst (snd x) = q" using x(1) by (simp_all add: set_items)
      have "distinct (map fst log)" using S(9) by (simp add: log_ok_def)
      from last_item_pos[OF this ne xl] have "x = (pl, q, el) \<or> pos log (fst x) < pos log pl" unfolding l(1) fst_conv .
      then have "pos log (fst x) < pos log pl" using x(2) D by auto
      moreover have "fst x \<in> tasks log" "queue_of log (fst x) = q"
        using \<open>x \<in> set log\<close> \<open>fst (snd x) = q\<close> log_of(1)[OF S(9)] by (auto simp: tasks_def) (metis prod.collapse)
      ultimately have "(fst x, pl) \<in> E\<^sup>+" using E(2) plt x(2) unfolding in_order_def by metis
      then obtain y where y: "(y, pl) \<in> E" by (metis tranclE)
      then have "pl \<in> U" using base_sets[OF E(1)] by blast
      then have "pl \<in> X" using S(3) D by blast
      then show False using base_X_no_edge[OF E(1)] y by blast
    qed
    then have le: "qu_last_event u = Some el" and pU: "pl \<in> U" "pl \<notin> F" using lu ne l(1) plt S by (auto simp: last_item_def)
    obtain v where v: "qs_events s el = Some v" "ev_task v = Some pl" using event_live[OF inv l(2)] \<open>pl \<notin> D\<close> by blast
    have "kupl_queue_wait (\<lambda>_. None) (Some q) s \<noteq> Some (KUPL_OK, s')" for s'
    proof
      assume w: "kupl_queue_wait (\<lambda>_. None) (Some q) s = Some (KUPL_OK, s')"
      obtain g s2 where "kupl_task_ref (Some pl) (qs_graph s) = Some g"
        "queue_task_wait (\<lambda>_. None) (Some pl) (put_graph g s) = Some (KUPL_OK, s2)"
        using w u le v False by (auto simp: kupl_queue_wait_def split: bind_splits)
      then show False using task_wait_blocks[OF inv pU] by blast
    qed
    then show ?thesis using x by blast
  qed
qed

text \<open>What the events say about the lists.\<close>

lemma qrun_waits:
  "queue_run_events m c evs r = Some r' \<Longrightarrow> set (qr_waits r) \<subseteq> set (qr_waits r')"
proof (induction evs arbitrary: r)
  case (Cons e evs)
  then obtain r1 where r1: "queue_step m e r = Some r1" "queue_run_events m c evs r1 = Some r'"
    by (auto split: if_splits bind_splits)
  have "set (qr_waits r) \<subseteq> set (qr_waits r1)"
    using r1(1) by (cases e) (auto simp: Let_def submitted_def split: bind_splits if_splits)
  then show ?case using Cons.IH[OF r1(2)] by blast
qed simp

lemma qrun_marked:
  "queue_run_events m c evs queue_init = Some r \<Longrightarrow> p \<in> set (qr_done r) \<or> p \<in> qfinished evs \<Longrightarrow> QMark p \<in> set evs"
proof (induction evs arbitrary: r rule: rev_induct)
  case Nil
  then show ?case by (auto simp: queue_init_def qfinished_def)
next
  case (snoc e evs)
  then obtain r' where r': "queue_run_events m c evs queue_init = Some r'" "queue_enabled c e r'" "queue_step m e r' = Some r"
    by (auto simp: qrun_snoc)
  have "p \<in> set (qr_done r') \<or> p \<in> qfinished evs \<or> e = QMark p"
    using snoc.prems(2) r'(2,3)
    by (cases e) (auto simp: Let_def submitted_def qevents_snoc split: bind_splits if_splits dest: set_remove1_subset[THEN subsetD])
  then show ?case using snoc.IH[OF r'(1)] by auto
qed

lemma items_all: "(\<forall>x\<in>set (items log q). fst x \<in> D) \<longleftrightarrow> (\<forall>p x. (p, q, x) \<in> set log \<longrightarrow> p \<in> D)"
proof
  assume "\<forall>x\<in>set (items log q). fst x \<in> D"
  moreover have "(p, q, x) \<in> set log \<Longrightarrow> (p, q, x) \<in> set (items log q)" for p x by (simp add: set_items)
  ultimately show "\<forall>p x. (p, q, x) \<in> set log \<longrightarrow> p \<in> D" by fastforce
next
  assume A: "\<forall>p x. (p, q, x) \<in> set log \<longrightarrow> p \<in> D"
  show "\<forall>x\<in>set (items log q). fst x \<in> D"
  proof
    fix x assume "x \<in> set (items log q)"
    then have "x \<in> set log \<and> fst (snd x) = q" by (simp only: set_items)
    then obtain p e where "x = (p, q, e)" "(p, q, e) \<in> set log" by (metis prod.collapse)
    then show "fst x \<in> D" using A by auto
  qed
qed

lemma items_length: "length (concat (map item_of evs)) \<le> length evs"
proof (induction evs)
  case (Cons e evs)
  have "length (item_of e) \<le> 1" by (cases e) simp_all
  then show ?case using Cons by simp
qed simp

section \<open>Properties of every run\<close>

text \<open>
  C9: The items of a queue run in the order of their submission: whenever the task of an item can start, the
  function of every item that was submitted to the queue before it has returned, and that item has left the
  queue, whatever the order in which threads submit, executors start, return and finish. The runs are those
  of \<open>queue_enabled\<close>: every event is recorded once, the allocations succeed, arguments are
  below 128 GB, queues are asynchronous. An event that is recorded a second time can be overtaken
  (\<open>record_again_overtakes\<close>).
\<close>

theorem queue_in_order:
  assumes run: "queue_run_events m c (es1 @ e1 # es2 @ e2 # es3 @ [QStart p2]) queue_init \<noteq> None"
    and items: "item_of e1 = [(p1, q, x1)]" "item_of e2 = [(p2, q, x2)]"
  shows "QReturn p1 \<in> set (es1 @ es2 @ es3) \<and> QDequeue p1 \<in> set (es1 @ es2 @ es3)"
proof -
  let ?evs = "es1 @ e1 # es2 @ e2 # es3"
  obtain r where r: "queue_run_events m c ?evs queue_init = Some r" "queue_enabled c (QStart p2) r"
    using run qrun_snoc[of m c ?evs "QStart p2" queue_init] by auto
  have inv: "queue_run_inv c ?evs r" and log: "qr_log r = concat (map item_of ?evs)" using qrun_reach[OF r(1)] by auto
  have "p2 \<in> set (waiting r)" using r(2) by (simp add: waiting_def)
  moreover have "qr_log r = concat (map item_of es1) @ (p1, q, x1) # concat (map item_of es2) @ (p2, q, x2) # concat (map item_of es3)"
    using log items by simp
  ultimately have "p1 \<in> qdequeued ?evs" using start_order[OF inv] by blast
  moreover then have "p1 \<in> qreturned ?evs" using queue_run_inv_parts(4)[OF inv] by blast
  ultimately have "QReturn p1 \<in> set ?evs" "QDequeue p1 \<in> set ?evs" by (simp_all add: qreturned_def qdequeued_def)
  moreover have "item_of (QReturn p1) = []" "item_of (QDequeue p1) = []" by simp_all
  then have "e1 \<noteq> QReturn p1" "e1 \<noteq> QDequeue p1" "e2 \<noteq> QReturn p1" "e2 \<noteq> QDequeue p1" using items by (metis list.distinct(1))+
  ultimately show ?thesis by auto
qed

text \<open>Sizes are compared as integers where runs are evaluated.\<close>

lemma size_code [code_unfold]:
  "KUPL_MAX_MALLOC_SIZE \<le> n \<longleftrightarrow> 137438953472 \<le> int n" "n < KUPL_MAX_MALLOC_SIZE \<longleftrightarrow> int n < 137438953472"
  by (auto simp: KUPL_MAX_MALLOC_SIZE_def)

text \<open>Two items on queue 5, the second submitted while the first waits.\<close>

definition qenv :: "ptr \<Rightarrow> queue_env" where
  "qenv p = \<lparr>qe_event_mem = Some (p + 50), qe_lock_ok = True, qe_task_mem = Some p, qe_req_ok = True, qe_managed = True,
     qe_graph = Some 9, qe_node_lock_ok = True, qe_cp = 0\<rparr>"

definition qitem :: kupl_queue_item_desc where
  "qitem = \<lparr>qd_field_mask = 0, qd_func = Some 7, qd_args = None, qd_name = None, qd_egroup = None, qd_args_size = 0\<rparr>"

definition qsub :: "ptr \<Rightarrow> queue_event" where
  "qsub p = QSubmit (qenv p) 5 qitem 0 None"

definition qrun0 :: "queue_event list" where
  "qrun0 = [QCreate 5 0, qsub 11, qsub 12, QStart 11, QReturn 11, QDequeue 11, QMark 11, QFinish 11]"

lemma qrun0_ok: "queue_run_events (\<lambda>_. 0) 9 (qrun0 @ [QStart 12]) queue_init \<noteq> None"
  by code_simp

theorem queue_in_order_witness: "QReturn 11 \<in> set ([QCreate 5 0] @ [] @ [QStart 11, QReturn 11, QDequeue 11, QMark 11, QFinish 11])"
proof -
  have "queue_run_events (\<lambda>_. 0) 9 ([QCreate 5 0] @ qsub 11 # [] @ qsub 12 #
      [QStart 11, QReturn 11, QDequeue 11, QMark 11, QFinish 11] @ [QStart 12]) queue_init \<noteq> None"
    using qrun0_ok by (simp add: qrun0_def)
  moreover have "item_of (qsub 11) = [(11, 5, 61)]" "item_of (qsub 12) = [(12, 5, 62)]"
    by (simp_all add: qsub_def env_task_def env_event_def qenv_def)
  ultimately show ?thesis by (rule queue_in_order[THEN conjunct1])
qed

text \<open>
  C10: An item of a queue that was submitted after the queue was told to wait for an event of another item,
  of this queue or of any other, can start only when the task of that other item is marked finished. The
  runs are those of \<open>queue_enabled\<close>: every event is recorded once, the allocations succeed,
  arguments are below 128 GB, queues are asynchronous.
\<close>

theorem queue_wait_event_order:
  assumes run: "queue_run_events m c (es1 @ e1 # es2 @ QWaitFor en q w # es3 @ e2 # es4 @ [QStart p2]) queue_init \<noteq> None"
    and items: "item_of e1 = [(p1, q1, w)]" "item_of e2 = [(p2, q, x2)]"
  shows "QMark p1 \<in> set (es1 @ es2 @ es3 @ es4)"
proof -
  let ?evs = "es1 @ e1 # es2 @ QWaitFor en q w # es3 @ e2 # es4" and ?p = "env_task en"
  obtain r where r: "queue_run_events m c ?evs queue_init = Some r" "queue_enabled c (QStart p2) r"
    using run qrun_snoc[of m c ?evs "QStart p2" queue_init] by auto
  have inv: "queue_run_inv c ?evs r" and log: "qr_log r = concat (map item_of ?evs)" using qrun_reach[OF r(1)] by auto
  have "p2 \<in> set (waiting r)" using r(2) by (simp add: waiting_def)
  moreover have "qr_log r = (concat (map item_of (es1 @ e1 # es2))) @ (?p, q, env_event en) # concat (map item_of es3) @
      (p2, q, x2) # concat (map item_of es4)"
    using log items by simp
  ultimately have pD: "?p \<in> qdequeued ?evs" using start_order[OF inv] by blast
  obtain r1 where r1: "queue_run_events m c (es1 @ e1 # es2) queue_init = Some r1" "queue_enabled c (QWaitFor en q w) r1"
    "queue_run_events m c (es3 @ e2 # es4) (the (queue_step m (QWaitFor en q w) r1)) = Some r"
    "queue_step m (QWaitFor en q w) r1 \<noteq> None"
    using r(1) qrun_append[of m c "es1 @ e1 # es2" "QWaitFor en q w # es3 @ e2 # es4" queue_init]
    by (auto split: bind_splits if_splits)
  have i1: "queue_run_inv c (es1 @ e1 # es2) r1" and l1: "qr_log r1 = concat (map item_of (es1 @ e1 # es2))" using qrun_reach[OF r1(1)] by auto
  have "(p1, q1, w) \<in> set (qr_log r1)" using l1 items(1) by simp
  then have "task_of_event (qr_log r1) w = p1" using task_of_event queue_inv_sets(9)[OF queue_run_inv_parts(1)[OF i1]] by blast
  then have "(p1, ?p) \<in> set (qr_waits (the (queue_step m (QWaitFor en q w) r1)))"
    using r1(4) by (auto split: bind_splits)
  then have K: "(p1, ?p) \<in> set (qr_waits r)" using qrun_waits[OF r1(3)] by blast
  note P = queue_run_inv_parts[OF inv]
  have "p1 \<notin> tasks (qr_log r) - qfinished ?evs - set (qr_done r)"
    using queue_waits[OF P(1) K] pD by blast
  moreover have "p1 \<in> tasks (qr_log r)" using P(6) K by auto
  ultimately have "p1 \<in> set (qr_done r) \<or> p1 \<in> qfinished ?evs" by blast
  then have "QMark p1 \<in> set ?evs" using qrun_marked[OF r(1)] by blast
  moreover have "item_of (QMark p1) = []" by simp
  then have "e1 \<noteq> QMark p1" "e2 \<noteq> QMark p1" using items by (metis list.distinct(1))+
  ultimately show ?thesis by auto
qed

text \<open>The item of queue 6 is submitted after queue 6 was told to wait for the event that queue 5 records after its item.\<close>

definition qrun1 :: "queue_event list" where
  "qrun1 = [QStart 11, QReturn 11, QDequeue 11, QMark 11, QFinish 11, QStart 13, QReturn 13, QDequeue 13, QMark 13, QFinish 13,
     QStart 14, QReturn 14, QDequeue 14, QMark 14, QFinish 14]"

definition qsub6 :: "ptr \<Rightarrow> queue_event" where
  "qsub6 p = QSubmit (qenv p) 6 qitem 0 None"

lemma qrun1_ok: "queue_run_events (\<lambda>_. 0) 9 ([QCreate 5 0, QCreate 6 3, qsub 11] @ QRecord (qenv 13) 5 # [] @ QWaitFor (qenv 14) 6 63 #
    [] @ qsub6 12 # qrun1 @ [QStart 12]) queue_init \<noteq> None"
  by code_simp

theorem queue_wait_event_order_witness: "QMark 13 \<in> set ([QCreate 5 0, QCreate 6 3, qsub 11] @ [] @ [] @ qrun1)"
proof -
  have "item_of (QRecord (qenv 13) 5) = [(13, 5, 63)]" "item_of (qsub6 12) = [(12, 6, 62)]"
    by (simp_all add: qsub6_def env_task_def env_event_def qenv_def)
  with qrun1_ok show ?thesis by (rule queue_wait_event_order)
qed

text \<open>
  C11: Every event of a run that is possible in \<open>queue_enabled\<close> succeeds, so no freed event or
  task is used: creating queues, submitting, recording an event once, telling a queue to wait for an event,
  releasing an event, and the steps of the executors. An event is freed exactly when its item has left the
  queue and the user has released it, and its count is the number of the two that still hold it. Recording
  an event again, failing allocations, arguments of 128 GB or more, waiting, and destroying or acquiring a
  queue are not among these events.
\<close>

theorem queue_run_safe:
  assumes run: "queue_run_events m c evs queue_init = Some r" and en: "queue_enabled c e r"
  shows "\<exists>r'. queue_step m e r = Some r' \<and>
    (\<forall>(p, q, x)\<in>set (qr_log r'). case qs_events (qr_state r') x of
        None \<Rightarrow> QDequeue p \<in> set (evs @ [e]) \<and> p \<notin> set (qr_owned r')
      | Some v \<Rightarrow> ev_task v = Some p \<and> ev_q v = Some q \<and>
          ev_ref v = (if QDequeue p \<in> set (evs @ [e]) then 0 else 1) + (if p \<in> set (qr_owned r') then 1 else 0) \<and> 0 < ev_ref v)"
proof -
  obtain r' where r': "queue_step m e r = Some r'" "queue_run_inv c (evs @ [e]) r'"
    using qrun_step[OF qrun_inv[OF run] en] by blast
  note P = queue_run_inv_parts[OF r'(2)]
  have "case qs_events (qr_state r') x of
        None \<Rightarrow> QDequeue p \<in> set (evs @ [e]) \<and> p \<notin> set (qr_owned r')
      | Some v \<Rightarrow> ev_task v = Some p \<and> ev_q v = Some q \<and>
          ev_ref v = (if QDequeue p \<in> set (evs @ [e]) then 0 else 1) + (if p \<in> set (qr_owned r') then 1 else 0) \<and> 0 < ev_ref v"
    if "(p, q, x) \<in> set (qr_log r')" for p q x
  proof -
    have "event_ok (qdequeued (evs @ [e])) (set (qr_owned r')) (qr_state r') (p, q, x)"
      using queue_inv_sets(10)[OF P(1)] that by blast
    moreover have "p \<in> qdequeued (evs @ [e]) \<longleftrightarrow> QDequeue p \<in> set (evs @ [e])" by (simp add: qdequeued_def)
    ultimately show ?thesis unfolding event_ok_def prod.case
      by (cases "qs_events (qr_state r') x"; cases "QDequeue p \<in> set (evs @ [e])"; cases "p \<in> set (qr_owned r')") simp_all
  qed
  then show ?thesis using r'(1) by blast
qed

theorem queue_run_safe_witness: "\<exists>r. queue_run_events (\<lambda>_. 0) 9 qrun0 queue_init = Some r \<and> queue_step (\<lambda>_. 0) (QStart 12) r \<noteq> None"
proof -
  obtain r where r: "queue_run_events (\<lambda>_. 0) 9 qrun0 queue_init = Some r" "queue_enabled 9 (QStart 12) r"
    using qrun0_ok qrun_snoc[of "\<lambda>_. 0" 9 qrun0 "QStart 12" queue_init] by auto
  from queue_run_safe[OF this] show ?thesis using r(1) by blast
qed

text \<open>
  C12: \<open>kupl_queue_wait\<close> returns at once, without letting the scheduler run a task, exactly
  when every item that was submitted to the queue has left it, after every run of fewer than \<open>2 ^
  64\<close> events. The runs are those of \<open>queue_enabled\<close>: every event is recorded once, the
  allocations succeed, arguments are below 128 GB, queues are asynchronous. When an event is recorded again,
  an item may still be pending.
\<close>

theorem queue_wait_complete:
  assumes run: "queue_run_events m c evs queue_init = Some r" and q: "qs_queues (qr_state r) q \<noteq> None" and len: "length evs < 2 ^ 64"
  shows "(\<exists>s'. kupl_queue_wait (\<lambda>_. None) (Some q) (qr_state r) = Some (KUPL_OK, s')) \<longleftrightarrow>
    (\<forall>p x. (p, q, x) \<in> set (concat (map item_of evs)) \<longrightarrow> QDequeue p \<in> set evs)"
proof -
  have inv: "queue_run_inv c evs r" and log: "qr_log r = concat (map item_of evs)" using qrun_reach[OF run] by auto
  obtain u where u: "qs_queues (qr_state r) q = Some u" using q by blast
  have "length (qr_log r) < 2 ^ 64" using len items_length[of evs] unfolding log by linarith
  from queue_wait_iff[OF queue_run_inv_parts(1)[OF inv] u this] show ?thesis
    unfolding items_all unfolding log qdequeued_def mem_Collect_eq .
qed

theorem queue_wait_complete_witness:
  "\<exists>r :: queue_run. (\<exists>s'. kupl_queue_wait (\<lambda>_. None) (Some 5) (qr_state r) = Some (KUPL_OK, s')) \<longleftrightarrow>
    (\<forall>p x. (p, 5, x) \<in> set (concat (map item_of qrun0)) \<longrightarrow> QDequeue p \<in> set qrun0)"
proof -
  have "case queue_run_events (\<lambda>_. 0) 9 qrun0 queue_init of None \<Rightarrow> False | Some r \<Rightarrow> \<not> Option.is_none (qs_queues (qr_state r) 5)"
    by code_simp
  then obtain r where r: "queue_run_events (\<lambda>_. 0) 9 qrun0 queue_init = Some r" "qs_queues (qr_state r) 5 \<noteq> None"
    by (auto simp: Option.is_none_def split: option.splits)
  have "length qrun0 < 2 ^ 64" by (simp add: qrun0_def)
  from queue_wait_complete[OF r this] show ?thesis by (rule exI)
qed

text \<open>
  C13: No run of queues gets stuck: with steps of the executors alone, at most five for each item, every
  reachable state can be continued until all items are executed and finished. The runs are those of
  \<open>queue_enabled\<close>: every event is recorded once, the allocations succeed, arguments are below
  128 GB, queues are asynchronous. When an event is recorded again, items may remain in the queue for ever.
\<close>

theorem queue_run_completes:
  assumes "queue_run_events m c evs queue_init = Some r"
  shows "\<exists>es. queue_run_events m c (evs @ es) queue_init \<noteq> None \<and> (\<forall>e\<in>set es. executor_step e) \<and>
    length es \<le> 5 * length evs \<and> (\<forall>(p, q, x)\<in>set (concat (map item_of evs)). QFinish p \<in> set (evs @ es))"
proof -
  obtain es r' where es': "queue_run_events m c es r = Some r'" "\<forall>e\<in>set es. executor_step e"
    "length es \<le> steps_left evs r" "tasks (qr_log r') - qfinished (evs @ es) = {}"
    using queue_runs.runs_complete[OF qrun_reach[OF assms], of m] by blast
  then have es: "queue_run_events m c (evs @ es) queue_init = Some r'" "\<forall>e\<in>set es. executor_step e"
    "length es \<le> steps_left evs r" "tasks (qr_log r') \<subseteq> qfinished (evs @ es)" using assms by (simp_all add: qrun_append)
  have "card (tasks (qr_log r) - qfinished evs) \<le> card (tasks (qr_log r))" by (intro card_mono) (auto simp: tasks_def)
  also have "\<dots> \<le> length (qr_log r)" unfolding tasks_def by (metis card_length image_set length_map)
  also have "\<dots> \<le> length evs" using items_length[of evs] qrun_reach[OF assms] by simp
  finally have "steps_left evs r \<le> 5 * length evs" by (simp add: steps_left_def)
  moreover have "qr_log r' = concat (map item_of evs) @ concat (map item_of es)" using qrun_reach[OF es(1)] by simp
  then have "\<forall>(p, q, x)\<in>set (concat (map item_of evs)). QFinish p \<in> set (evs @ es)"
    using es(4) by (force simp: tasks_def qfinished_def)
  ultimately show ?thesis using es(1-3) by (intro exI[of _ es]) auto
qed

theorem queue_run_completes_witness:
  "\<exists>es. queue_run_events (\<lambda>_. 0) 9 (qrun0 @ es) queue_init \<noteq> None \<and>
    (\<forall>(p, q, x)\<in>set (concat (map item_of qrun0)). QFinish p \<in> set (qrun0 @ es))"
proof -
  obtain r where "queue_run_events (\<lambda>_. 0) 9 qrun0 queue_init = Some r"
    using qrun0_ok qrun_snoc[of "\<lambda>_. 0" 9 qrun0 "QStart 12" queue_init] by auto
  from queue_run_completes[OF this] show ?thesis by blast
qed

section \<open>Recording an event again\<close>

text \<open>
  A client that records its event again as soon as \<open>kupl_event_query\<close> calls it complete, then submits an
  item: the executor is still between setting the status and finishing the task of the first recording.
\<close>

definition record_again :: "queue_state option" where
  "record_again =
     do {
       (q, s) \<leftarrow> kupl_queue_create_with_priority 0 True (Some 5) (qr_state queue_init);
       (e, s) \<leftarrow> kupl_event_create (qenv 11) s;
       (ret, s) \<leftarrow> kupl_event_record (Some 61) (Some 5) (qenv 11) s;
       let g = qs_graph s;
       s \<leftarrow> kupl_event_set_status 61 KUPL_EVENT_STATUS_COMPLETE (put_graph (g\<lparr>gr_pool := remove1 11 (gr_pool g)\<rparr>) s);
       (ret, s) \<leftarrow> kupl_event_record (Some 61) (Some 5) (qenv 11) s;
       s \<leftarrow> (if ret = KUPL_OK then Some s else None);
       (ret, s) \<leftarrow> kupl_queue_submit (\<lambda>_. 0) (\<lambda>_. None) None 0 (qenv 12) (Some 5) (Some qitem) s;
       s \<leftarrow> (if ret = KUPL_OK then Some s else None);
       s \<leftarrow> event_func_dequeue 61 s;
       g \<leftarrow> task_mark_finished 11 (qs_graph s);
       g \<leftarrow> kupl_task_finish 11 g;
       Some (put_graph g s)
     }"

text \<open>
  Recording an event again once its status is complete breaks the order of the queue: the end of the first
  recording releases the item that was submitted after the second one, ahead of the task of the second one, and
  makes the status of the event complete although the second recording was not executed.
\<close>

theorem record_again_overtakes:
  "map_option (\<lambda>s. (gr_pool (qs_graph s), kupl_event_query (Some 61) s)) record_again =
     Some ([12, 11], Some KUPL_EVENT_STATUS_COMPLETE)"
  by code_simp

end
