(* ===== verification/Kupl_Mpool_Normal.thy ===== *)
theory Kupl_Mpool_Normal
  imports Kupl_Prelude "HOL-Library.Monad_Syntax"
begin

text \<open>
  The normal layer of the memory pool (\<open>src/src/memory/mpool/kupl_mpool.cpp\<close>): chunks of 4 MB are cut
  into buffers with a descriptor in front of each (boundary tags); the free ones are in lists by size.
  Every executor has its own memory, and one of high bandwidth.

  Addresses are integers; the memory of the pool is a map from addresses to the descriptors at them.
  The intrusive lists (free lists, the list of buffers that other executors returned) are lists of
  addresses.  The operating system keeps the list of mapped regions and answers a request with a region
  that overlaps none of them, or refuses it.  Pinning for the SDMA engine
  and statistics are left out.  The memory of an executor is only used by that executor, except for
  the list of returned buffers, whose compare-and-swap loops are one step.
\<close>

unbundle bit_operations_syntax

section \<open>Data\<close>

type_synonym addr = int

definition HUGE_PAGE_SIZE :: int where "HUGE_PAGE_SIZE = 2 * 1024 * 1024"
definition KUPL_MALLOC_PAGESIZE :: int where "KUPL_MALLOC_PAGESIZE = 4096"
definition KUPL_MEMORY_BIN_INDEX_INIT :: int where "KUPL_MEMORY_BIN_INDEX_INIT = -1"
definition KUPL_MEM_BINS_THRESHOLD :: u32 where "KUPL_MEM_BINS_THRESHOLD = 4"
definition KUPL_CACHE_LINE :: int where "KUPL_CACHE_LINE = 64"

definition g_memory_bin_size :: "int list" where
  "g_memory_bin_size = [0, 512, 1024, 2 * 1024, 4 * 1024, 8 * 1024, 16 * 1024, 32 * 1024, 64 * 1024, 128 * 1024,
     256 * 1024, 512 * 1024, 1024 * 1024, 2 * 1024 * 1024, 4 * 1024 * 1024]"

definition MEM_BINS_COUNT :: nat where "MEM_BINS_COUNT = length g_memory_bin_size"

text \<open>\<open>sizeof(kupl_buffer_desc_t)\<close> with eight-byte alignment.\<close>

definition BUFFER_DESC :: int where "BUFFER_DESC = 48"
definition MEM_CHUNK_GROW_SIZE :: int where "MEM_CHUNK_GROW_SIZE = 4 * 1024 * 1024"
definition MEM_MAX_SIZE :: int where "MEM_MAX_SIZE = MEM_CHUNK_GROW_SIZE - 2 * BUFFER_DESC"

lemmas mem_sizes = HUGE_PAGE_SIZE_def KUPL_MALLOC_PAGESIZE_def BUFFER_DESC_def MEM_CHUNK_GROW_SIZE_def MEM_MAX_SIZE_def

text \<open>A negative \<open>bd_total\<close> marks a buffer in use.\<close>

record kupl_buffer_desc =
  bd_eid :: nat
  bd_ref :: "16 word"
  bd_bin :: int
  bd_total :: int
  bd_prev_free :: int

definition MEM_IS_WHOLE_CHUNK :: "kupl_buffer_desc \<Rightarrow> bool" where
  "MEM_IS_WHOLE_CHUNK d \<longleftrightarrow> bd_total d = MEM_CHUNK_GROW_SIZE - BUFFER_DESC"

record kupl_fast_desc =
  fd_eid :: nat
  fd_bin :: int
  fd_alloc_ptr :: addr

record kupl_mfc =
  fc_self :: "addr list"
  fc_sync :: "addr list"
  fc_other :: "addr list"
  fc_other_tail :: "addr option"
  fc_other_count :: u64

record kupl_memory =
  km_eid :: nat
  km_fast_bins :: "nat \<Rightarrow> kupl_mfc"
  km_alloc_chunks :: u32
  km_bins :: "nat \<Rightarrow> addr list"
  km_bins_count :: "nat \<Rightarrow> u32"
  km_sync_list :: "addr list"

text \<open>
  The pools: \<open>mp_mem False\<close> is \<open>g_kupl_memory_pool\<close>, \<open>mp_mem True\<close> that of high bandwidth.
  \<open>mp_align\<close> is the variable \<open>align_length\<close>, which keeps its value between calls.  \<open>mp_maps\<close> are the
  mapped regions, \<open>mp_mmap\<close> the addresses the system proposes.
\<close>

record mpool =
  mp_desc :: "addr \<Rightarrow> kupl_buffer_desc option"
  mp_fast :: "addr \<Rightarrow> kupl_fast_desc option"
  mp_mem :: "bool \<Rightarrow> nat \<Rightarrow> kupl_memory option"
  mp_maps :: "(addr \<times> int) list"
  mp_mmap :: "nat \<Rightarrow> addr option"
  mp_align :: u64

text \<open>A memory is named by its pool (high bandwidth or not) and its executor.\<close>

datatype mem_ref = Mem (mr_hbw: bool) (mr_eid: nat)

definition get_mem :: "mem_ref \<Rightarrow> mpool \<Rightarrow> kupl_memory option" where
  "get_mem k s = mp_mem s (mr_hbw k) (mr_eid k)"

definition put_mem :: "mem_ref \<Rightarrow> kupl_memory \<Rightarrow> mpool \<Rightarrow> mpool" where
  "put_mem k m s = s\<lparr>mp_mem := (mp_mem s)(mr_hbw k := (mp_mem s (mr_hbw k))(mr_eid k := Some m))\<rparr>"

definition put_desc :: "addr \<Rightarrow> kupl_buffer_desc \<Rightarrow> mpool \<Rightarrow> mpool" where
  "put_desc a d s = s\<lparr>mp_desc := (mp_desc s)(a := Some d)\<rparr>"

section \<open>Operating system\<close>

definition page_up :: "int \<Rightarrow> int" where
  "page_up n = (n + KUPL_MALLOC_PAGESIZE - 1) div KUPL_MALLOC_PAGESIZE * KUPL_MALLOC_PAGESIZE"

text \<open>A proposed address is taken when it is page aligned and the region overlaps no mapped one.\<close>

definition map_fresh :: "addr \<Rightarrow> int \<Rightarrow> mpool \<Rightarrow> bool" where
  "map_fresh a n s \<longleftrightarrow> a mod KUPL_MALLOC_PAGESIZE = 0 \<and> list_all (\<lambda>(b, l). a + n \<le> b \<or> b + l \<le> a) (mp_maps s)"

definition kupl_memory_mmap :: "int \<Rightarrow> mpool \<Rightarrow> addr option \<times> mpool" where
  "kupl_memory_mmap n s =
     (let s' = s\<lparr>mp_mmap := (\<lambda>i. mp_mmap s (Suc i))\<rparr>
      in case mp_mmap s 0 of
           None \<Rightarrow> (None, s')
         | Some a \<Rightarrow> if map_fresh a (page_up n) s then (Some a, s'\<lparr>mp_maps := (a, page_up n) # mp_maps s\<rparr>)
                     else (None, s'))"

text \<open>
  Regions are rounded up to pages of 4096 bytes.  Mappings with huge pages (\<open>MAP_HUGETLB\<close>), which the
  code tries first where the system has reserved some, are not modelled: none are reserved.
\<close>

text \<open>\<open>munmap\<close> works on whole pages from the start of a region; a length that is not positive is refused.\<close>

definition munmap :: "addr \<Rightarrow> int \<Rightarrow> mpool \<Rightarrow> mpool" where
  "munmap a n s =
     (if n \<le> 0 then s
      else s\<lparr>mp_desc := (\<lambda>x. if a \<le> x \<and> x < a + page_up n then None else mp_desc s x),
             mp_fast := (\<lambda>x. if a \<le> x \<and> x < a + page_up n then None else mp_fast s x),
             mp_maps := filter (\<lambda>(b, l). 0 < l)
               (map (\<lambda>(b, l). if b = a then (b + page_up n, l - page_up n) else (b, l)) (mp_maps s))\<rparr>)"

section \<open>Free lists\<close>

text \<open>The binary search for the bin of a size, over \<open>low\<close> and \<open>high\<close>.\<close>

function bin_search :: "int \<Rightarrow> int list \<Rightarrow> nat \<Rightarrow> nat \<Rightarrow> nat \<times> nat" where
  "bin_search sz bins low high =
     (if high - low > 1
      then (let mid = (high + low) div 2
            in if sz < bins ! mid then bin_search sz bins low (mid - 1) else bin_search sz bins mid high)
      else (low, high))"
  by pat_completeness auto
termination by (relation "measure (\<lambda>(sz, bins, low, high). high - low)") auto

declare bin_search.simps [simp del]

definition kupl_get_bin_index :: "int \<Rightarrow> int list \<Rightarrow> nat" where
  "kupl_get_bin_index sz bins =
     (let (low, high) = bin_search sz bins 0 (length bins - 1)
      in if high > low \<and> sz \<ge> bins ! high then high else low)"

definition mem_bin :: "int \<Rightarrow> nat" where
  "mem_bin sz = kupl_get_bin_index sz g_memory_bin_size"

definition count_bin :: "(u32 \<Rightarrow> u32) \<Rightarrow> nat \<Rightarrow> kupl_memory \<Rightarrow> kupl_memory" where
  "count_bin f i m = m\<lparr>km_bins_count := (km_bins_count m)(i := f (km_bins_count m i))\<rparr>"

definition kupl_normal_insert_into_freelist :: "mem_ref \<Rightarrow> addr \<Rightarrow> mpool \<Rightarrow> mpool option" where
  "kupl_normal_insert_into_freelist k a s =
     do {
       d \<leftarrow> mp_desc s a;
       m \<leftarrow> get_mem k s;
       let i = mem_bin (bd_total d);
       let m = m\<lparr>km_bins := (km_bins m)(i := a # km_bins m i)\<rparr>;
       Some (put_mem k (count_bin (\<lambda>n. n + 1) i m) (put_desc a (d\<lparr>bd_bin := int i\<rparr>) s))
     }"

text \<open>\<open>kupl_list_del\<close> takes an element out of the list it is in, whichever that is.\<close>

definition list_del :: "addr \<Rightarrow> kupl_memory \<Rightarrow> kupl_memory" where
  "list_del a m = m\<lparr>km_bins := (\<lambda>i. remove1 a (km_bins m i))\<rparr>"

definition del_free :: "mem_ref \<Rightarrow> addr \<Rightarrow> nat \<Rightarrow> mpool \<Rightarrow> mpool option" where
  "del_free k a index s =
     do { m \<leftarrow> get_mem k s; Some (put_mem k (count_bin (\<lambda>n. n - 1) index (list_del a m)) s) }"

text \<open>A buffer that is larger by 64 is cut, the user getting the end; a smaller one is handed out whole.\<close>

definition take_split :: "mem_ref \<Rightarrow> addr \<Rightarrow> kupl_buffer_desc \<Rightarrow> int \<Rightarrow> nat \<Rightarrow> mpool \<Rightarrow> (addr \<times> mpool) option" where
  "take_split k a d actual index s =
     do {
       let user = a + bd_total d - actual;
       let next = user + actual;
       let d = d\<lparr>bd_total := bd_total d - actual\<rparr>;
       let s = put_desc a d s;
       let s = put_desc user \<lparr>bd_eid = bd_eid d, bd_ref = 1, bd_bin = bd_bin d, bd_total = - actual,
                              bd_prev_free = bd_total d\<rparr> s;
       nd \<leftarrow> mp_desc s next;
       s \<leftarrow> del_free k a index (put_desc next (nd\<lparr>bd_prev_free := 0\<rparr>) s);
       s \<leftarrow> kupl_normal_insert_into_freelist k a s;
       Some (user + BUFFER_DESC, s)
     }"

definition take_whole :: "mem_ref \<Rightarrow> addr \<Rightarrow> kupl_buffer_desc \<Rightarrow> nat \<Rightarrow> mpool \<Rightarrow> (addr \<times> mpool) option" where
  "take_whole k a d index s =
     do {
       s \<leftarrow> del_free k a index s;
       nd \<leftarrow> mp_desc s (a + bd_total d);
       let s = put_desc (a + bd_total d) (nd\<lparr>bd_prev_free := 0\<rparr>) s;
       let s = put_desc a (d\<lparr>bd_total := - bd_total d, bd_prev_free := 0, bd_ref := 1\<rparr>) s;
       Some (a + BUFFER_DESC, s)
     }"

fun kupl_normal_travel_list :: "mem_ref \<Rightarrow> addr list \<Rightarrow> int \<Rightarrow> nat \<Rightarrow> mpool \<Rightarrow> (addr option \<times> mpool) option" where
  "kupl_normal_travel_list k [] actual index s = Some (None, s)"
| "kupl_normal_travel_list k (a # as) actual index s =
     do {
       d \<leftarrow> mp_desc s a;
       if bd_total d \<ge> actual
       then (if bd_total d - actual \<ge> BUFFER_DESC + 16
             then map_option (\<lambda>(p, s). (Some p, s)) (take_split k a d actual index s)
             else map_option (\<lambda>(p, s). (Some p, s)) (take_whole k a d index s))
       else kupl_normal_travel_list k as actual index s
     }"

section \<open>Returning a buffer\<close>

definition kupl_normal_sync_list_enqueue :: "mem_ref \<Rightarrow> addr \<Rightarrow> mpool \<Rightarrow> mpool option" where
  "kupl_normal_sync_list_enqueue k p s =
     do { m \<leftarrow> get_mem k s; Some (put_mem k (m\<lparr>km_sync_list := p # km_sync_list m\<rparr>) s) }"

text \<open>Merging with the free buffer before, if \<open>prev_free\<close> says so: the address that results.\<close>

definition merge_prev :: "mem_ref \<Rightarrow> addr \<Rightarrow> nat \<Rightarrow> mpool \<Rightarrow> (addr \<times> mpool) option" where
  "merge_prev k a index s =
     do {
       d \<leftarrow> mp_desc s a;
       if bd_prev_free d \<noteq> 0
       then do {
         let p = a - bd_prev_free d;
         pd \<leftarrow> mp_desc s p;
         s \<leftarrow> del_free k p index (put_desc p (pd\<lparr>bd_total := bd_total pd + bd_total d\<rparr>) s);
         Some (p, s)
       }
       else Some (a, s)
     }"

definition merge_next :: "mem_ref \<Rightarrow> addr \<Rightarrow> nat \<Rightarrow> mpool \<Rightarrow> mpool option" where
  "merge_next k a index s =
     do {
       d \<leftarrow> mp_desc s a;
       nd \<leftarrow> mp_desc s (a + bd_total d);
       if bd_total nd > 0
       then del_free k (a + bd_total d) index (put_desc a (d\<lparr>bd_total := bd_total d + bd_total nd\<rparr>) s)
       else Some s
     }"

definition kupl_normal_free :: "mem_ref \<Rightarrow> addr \<Rightarrow> mpool \<Rightarrow> mpool option" where
  "kupl_normal_free k p s =
     do {
       let a = p - BUFFER_DESC;
       d \<leftarrow> mp_desc s a;
       let d = d\<lparr>bd_ref := bd_ref d - 1\<rparr>;
       let s = put_desc a d s;
       if bd_ref d > 0 then Some s
       else if bd_bin d < 0 then Some (munmap a (bd_total d) s)
       else do {
         m \<leftarrow> get_mem k s;
         if bd_eid d \<noteq> km_eid m then kupl_normal_sync_list_enqueue (Mem (mr_hbw k) (bd_eid d)) p s
         else do {
           let s = put_desc a (d\<lparr>bd_total := - bd_total d\<rparr>) s;
           let index = nat (bd_bin d);
           if km_bins_count m index < KUPL_MEM_BINS_THRESHOLD then kupl_normal_insert_into_freelist k a s
           else do {
             (a, s) \<leftarrow> merge_prev k a index s;
             s \<leftarrow> merge_next k a index s;
             d \<leftarrow> mp_desc s a;
             nd \<leftarrow> mp_desc s (a + bd_total d);
             let s = put_desc (a + bd_total d) (nd\<lparr>bd_prev_free := bd_total d\<rparr>) s;
             m \<leftarrow> get_mem k s;
             if MEM_IS_WHOLE_CHUNK d \<and> km_alloc_chunks m \<ge> 2 then Some (munmap a (bd_total d) s)
             else kupl_normal_insert_into_freelist k a s
           }
         }
       }
     }"

fun free_list :: "mem_ref \<Rightarrow> addr list \<Rightarrow> mpool \<Rightarrow> mpool option" where
  "free_list k [] s = Some s"
| "free_list k (p # ps) s = do { s \<leftarrow> kupl_normal_free k p s; free_list k ps s }"

definition kupl_normal_sync_list_dequeue :: "mem_ref \<Rightarrow> mpool \<Rightarrow> mpool option" where
  "kupl_normal_sync_list_dequeue k s =
     do {
       m \<leftarrow> get_mem k s;
       free_list k (km_sync_list m) (put_mem k (m\<lparr>km_sync_list := []\<rparr>) s)
     }"

section \<open>Allocation\<close>

fun search_bins :: "mem_ref \<Rightarrow> nat list \<Rightarrow> int \<Rightarrow> mpool \<Rightarrow> (addr option \<times> mpool) option" where
  "search_bins k [] actual s = Some (None, s)"
| "search_bins k (i # is) actual s =
     do {
       m \<leftarrow> get_mem k s;
       (p, s) \<leftarrow> kupl_normal_travel_list k (km_bins m i) actual i s;
       if p \<noteq> None then Some (p, s) else search_bins k is actual s
     }"

text \<open>A fresh chunk is one free buffer and a dummy that is always in use.\<close>

definition new_chunk :: "mem_ref \<Rightarrow> addr \<Rightarrow> mpool \<Rightarrow> mpool option" where
  "new_chunk k a s =
     do {
       m \<leftarrow> get_mem k s;
       let s = put_mem k (m\<lparr>km_alloc_chunks := km_alloc_chunks m + 1\<rparr>) s;
       let total = MEM_CHUNK_GROW_SIZE - BUFFER_DESC;
       let s = put_desc a \<lparr>bd_eid = km_eid m, bd_ref = 1, bd_bin = 0, bd_total = total, bd_prev_free = 0\<rparr> s;
       let s = put_desc (a + total) \<lparr>bd_eid = km_eid m, bd_ref = 0, bd_bin = 0, bd_total = -1, bd_prev_free = total\<rparr> s;
       kupl_normal_insert_into_freelist k a s
     }"

partial_function (option) alloc_loop :: "mem_ref \<Rightarrow> int \<Rightarrow> mpool \<Rightarrow> (addr option \<times> mpool) option" where
  "alloc_loop k actual s =
     Option.bind (search_bins k [mem_bin actual..<MEM_BINS_COUNT] actual s) (\<lambda>r.
       if fst r \<noteq> None then Some r
       else (case kupl_memory_mmap MEM_CHUNK_GROW_SIZE (snd r) of
           (None, s) \<Rightarrow> Some (None, s)
         | (Some a, s) \<Rightarrow> Option.bind (new_chunk k a s) (alloc_loop k actual)))"

definition align_size :: "u64 \<Rightarrow> u64 \<Rightarrow> u64" where
  "align_size al n = (n + al - 1) AND NOT (al - 1)"

definition kupl_normal_alloc :: "mem_ref \<Rightarrow> u64 \<Rightarrow> bool \<Rightarrow> mpool \<Rightarrow> (addr option \<times> mpool) option" where
  "kupl_normal_alloc k sz is_win_alloc_hugepage s =
     do {
       s \<leftarrow> kupl_normal_sync_list_dequeue k s;
       let s = (if is_win_alloc_hugepage then s\<lparr>mp_align := word_of_int HUGE_PAGE_SIZE\<rparr> else s);
       let actual = uint (align_size (mp_align s) (sz + word_of_int BUFFER_DESC));
       m \<leftarrow> get_mem k s;
       if actual > MEM_MAX_SIZE
       then (case kupl_memory_mmap actual s of
           (None, s) \<Rightarrow> Some (None, s)
         | (Some a, s) \<Rightarrow> Some (Some (a + BUFFER_DESC), put_desc a \<lparr>bd_eid = km_eid m, bd_ref = 1,
             bd_bin = KUPL_MEMORY_BIN_INDEX_INIT, bd_total = sint (word_of_int actual :: u32), bd_prev_free = 0\<rparr> s))
       else alloc_loop k actual s
     }"

definition kupl_normal_init :: "kupl_memory \<Rightarrow> kupl_memory" where
  "kupl_normal_init m = m\<lparr>km_alloc_chunks := 0, km_sync_list := [], km_bins := (\<lambda>_. []), km_bins_count := (\<lambda>_. 0)\<rparr>"

text \<open>At the end the chunks that are free as a whole are given back.\<close>

fun cleanup_bin :: "mem_ref \<Rightarrow> nat \<Rightarrow> addr list \<Rightarrow> mpool \<Rightarrow> mpool option" where
  "cleanup_bin k i [] s = Some s"
| "cleanup_bin k i (a # as) s =
     do {
       d \<leftarrow> mp_desc s a;
       if \<not> MEM_IS_WHOLE_CHUNK d then cleanup_bin k i as s
       else do { s \<leftarrow> del_free k a i s; cleanup_bin k i as (munmap a (bd_total d) s) }
     }"

fun cleanup_bins :: "mem_ref \<Rightarrow> nat list \<Rightarrow> mpool \<Rightarrow> mpool option" where
  "cleanup_bins k [] s = Some s"
| "cleanup_bins k (i # is) s =
     do { m \<leftarrow> get_mem k s; s \<leftarrow> cleanup_bin k i (km_bins m i) s; cleanup_bins k is s }"

definition kupl_normal_cleanup :: "mem_ref \<Rightarrow> mpool \<Rightarrow> mpool option" where
  "kupl_normal_cleanup k s =
     do { s \<leftarrow> kupl_normal_sync_list_dequeue k s; cleanup_bins k [0..<MEM_BINS_COUNT] s }"

end
