(* ===== verification/Kupl_Mpool_Inv.thy ===== *)
theory Kupl_Mpool_Inv
  imports Kupl_Mpool_Normal
begin

text \<open>
  The invariant of the normal layer of the memory pool: every chunk is tiled by buffers, \<open>prev_free\<close>
  is 0 or the size of the free buffer in front, and the free lists hold exactly the free buffers.
\<close>

section \<open>The bin of a size\<close>

lemma bin_search_ok:
  assumes "sorted bins" and "low \<le> high" "high < length bins" and "bins ! low \<le> sz"
    and "high + 1 < length bins \<Longrightarrow> sz < bins ! (high + 1)"
  shows "case bin_search sz bins low high of (l, h) \<Rightarrow> l \<le> h \<and> h \<le> l + 1 \<and> h < length bins \<and> bins ! l \<le> sz \<and>
    (h + 1 < length bins \<longrightarrow> sz < bins ! (h + 1))"
  using assms
proof (induction sz bins low high rule: bin_search.induct)
  case (1 sz bins low high)
  let ?mid = "(high + low) div 2"
  show ?case
  proof (cases "high - low > 1")
    case True
    then have mid: "low < ?mid" "?mid < high" by auto
    show ?thesis
    proof (cases "sz < bins ! ?mid")
      case less: True
      have "case bin_search sz bins low (?mid - 1) of (l, h) \<Rightarrow> l \<le> h \<and> h \<le> l + 1 \<and> h < length bins \<and> bins ! l \<le> sz \<and>
          (h + 1 < length bins \<longrightarrow> sz < bins ! (h + 1))"
        using "1.IH"(1)[OF True refl less] "1.prems" mid less by auto
      then show ?thesis using True less by (simp add: bin_search.simps[of sz bins low high] Let_def)
    next
      case ge: False
      have "case bin_search sz bins ?mid high of (l, h) \<Rightarrow> l \<le> h \<and> h \<le> l + 1 \<and> h < length bins \<and> bins ! l \<le> sz \<and>
          (h + 1 < length bins \<longrightarrow> sz < bins ! (h + 1))"
        using "1.IH"(2)[OF True refl ge] "1.prems" mid ge by auto
      then show ?thesis using True ge by (simp add: bin_search.simps[of sz bins low high] Let_def)
    qed
  next
    case False
    then show ?thesis using "1.prems" by (simp add: bin_search.simps[of sz bins low high])
  qed
qed

text \<open>The bin of a size is the last one whose size is not larger.\<close>

lemma get_bin_index_ok:
  assumes "sorted bins" and "bins \<noteq> []" and "bins ! 0 \<le> sz"
  shows "kupl_get_bin_index sz bins < length bins" "bins ! kupl_get_bin_index sz bins \<le> sz"
    "kupl_get_bin_index sz bins + 1 < length bins \<Longrightarrow> sz < bins ! (kupl_get_bin_index sz bins + 1)"
proof -
  obtain l h where lh: "bin_search sz bins 0 (length bins - Suc 0) = (l, h)" by force
  have "l \<le> h \<and> h \<le> l + 1 \<and> h < length bins \<and> bins ! l \<le> sz \<and> (h + 1 < length bins \<longrightarrow> sz < bins ! (h + 1))"
    using bin_search_ok[OF assms(1) _ _ assms(3), of "length bins - Suc 0"] assms(2) lh by auto
  then have k: "l \<le> h" "h \<le> l + 1" "h < length bins" "bins ! l \<le> sz" "h + 1 < length bins \<Longrightarrow> sz < bins ! (h + 1)" by auto
  have i: "kupl_get_bin_index sz bins = (if h > l \<and> sz \<ge> bins ! h then h else l)"
    by (simp add: kupl_get_bin_index_def lh)
  show "kupl_get_bin_index sz bins < length bins" "bins ! kupl_get_bin_index sz bins \<le> sz" using k i by auto
  assume b: "kupl_get_bin_index sz bins + 1 < length bins"
  show "sz < bins ! (kupl_get_bin_index sz bins + 1)"
  proof (cases "h > l \<and> sz \<ge> bins ! h")
    case True
    then show ?thesis using k(5) b i by simp
  next
    case False
    then have "h = l \<or> h = l + 1 \<and> sz < bins ! h" using k(1,2) by linarith
    then show ?thesis using k(5) b i False by auto
  qed
qed

lemma mem_bins_sorted: "sorted g_memory_bin_size"
  by (simp add: g_memory_bin_size_def)

lemma mem_bin_ok:
  assumes "0 \<le> sz"
  shows "mem_bin sz < MEM_BINS_COUNT" "g_memory_bin_size ! mem_bin sz \<le> sz"
    "mem_bin sz + 1 < MEM_BINS_COUNT \<Longrightarrow> sz < g_memory_bin_size ! (mem_bin sz + 1)"
  using get_bin_index_ok[OF mem_bins_sorted, of sz] assms
  by (auto simp: mem_bin_def MEM_BINS_COUNT_def g_memory_bin_size_def)

lemma mem_bin_mono:
  assumes "0 \<le> x" and "x \<le> y"
  shows "mem_bin x \<le> mem_bin y"
proof (rule ccontr)
  assume "\<not> mem_bin x \<le> mem_bin y"
  then have lt: "mem_bin y + 1 \<le> mem_bin x" by simp
  have x: "mem_bin x < MEM_BINS_COUNT" "g_memory_bin_size ! mem_bin x \<le> x" using mem_bin_ok assms(1) by auto
  then have "y < g_memory_bin_size ! (mem_bin y + 1)" using mem_bin_ok(3)[of y] lt assms by simp
  also have "\<dots> \<le> g_memory_bin_size ! mem_bin x"
    using lt x(1) by (intro sorted_nth_mono[OF mem_bins_sorted]) (auto simp: MEM_BINS_COUNT_def)
  finally show False using x(2) assms(2) by simp
qed

section \<open>Tilings\<close>

type_synonym descs = "addr \<Rightarrow> kupl_buffer_desc option"

definition tot :: "descs \<Rightarrow> addr \<Rightarrow> int" where
  "tot d a = (case d a of None \<Rightarrow> 0 | Some x \<Rightarrow> bd_total x)"

text \<open>Buffers from \<open>a\<close> to \<open>e\<close>; \<open>pf\<close> is the size of the free buffer before \<open>a\<close>, or 0.\<close>

definition buffer_ok :: "descs \<Rightarrow> int \<Rightarrow> addr \<Rightarrow> bool" where
  "buffer_ok d pf b \<longleftrightarrow> (\<exists>x. d b = Some x \<and> BUFFER_DESC \<le> \<bar>bd_total x\<bar> \<and> (bd_prev_free x = 0 \<or> bd_prev_free x = pf))"

fun seg :: "descs \<Rightarrow> int \<Rightarrow> addr \<Rightarrow> addr list \<Rightarrow> int \<Rightarrow> addr \<Rightarrow> bool" where
  "seg d pf a [] pf' e \<longleftrightarrow> a = e \<and> pf = pf'"
| "seg d pf a (b # bs) pf' e \<longleftrightarrow> b = a \<and> buffer_ok d pf b \<and> seg d (max 0 (tot d b)) (a + \<bar>tot d b\<bar>) bs pf' e"

definition dummy_ok :: "descs \<Rightarrow> int \<Rightarrow> addr \<Rightarrow> bool" where
  "dummy_ok d pf e \<longleftrightarrow> (\<exists>x. d e = Some x \<and> bd_total x = -1 \<and> (bd_prev_free x = 0 \<or> bd_prev_free x = pf))"

fun tiles :: "descs \<Rightarrow> int \<Rightarrow> addr \<Rightarrow> addr list \<Rightarrow> addr \<Rightarrow> bool" where
  "tiles d pf a [] e \<longleftrightarrow> a = e \<and> dummy_ok d pf e"
| "tiles d pf a (b # bs) e \<longleftrightarrow> b = a \<and> buffer_ok d pf b \<and> tiles d (max 0 (tot d b)) (a + \<bar>tot d b\<bar>) bs e"

lemma buffer_ok_size: "buffer_ok d pf b \<Longrightarrow> BUFFER_DESC \<le> \<bar>tot d b\<bar>"
  by (auto simp: buffer_ok_def tot_def)

lemma tiles_append: "tiles d pf a (xs @ ys) e \<longleftrightarrow> (\<exists>p m. seg d pf a xs p m \<and> tiles d p m ys e)"
  by (induction xs arbitrary: pf a) auto

lemma seg_append: "seg d pf a (xs @ ys) p' e \<longleftrightarrow> (\<exists>p m. seg d pf a xs p m \<and> seg d p m ys p' e)"
  by (induction xs arbitrary: pf a) auto

lemma seg_cong: "\<forall>b\<in>set bs. d b = d' b \<Longrightarrow> seg d pf a bs p e = seg d' pf a bs p e"
  by (induction bs arbitrary: pf a) (auto simp: buffer_ok_def tot_def)

lemma tiles_cong: "\<forall>b\<in>insert e (set bs). d b = d' b \<Longrightarrow> tiles d pf a bs e = tiles d' pf a bs e"
  by (induction bs arbitrary: pf a) (auto simp: buffer_ok_def tot_def dummy_ok_def)

lemma seg_range:
  "seg d pf a bs p e \<Longrightarrow> a \<le> e \<and> (\<forall>b\<in>set bs. a \<le> b \<and> b + \<bar>tot d b\<bar> \<le> e \<and> BUFFER_DESC \<le> \<bar>tot d b\<bar>) \<and> distinct bs"
proof (induction bs arbitrary: pf a)
  case (Cons b bs)
  then have "b = a" "BUFFER_DESC \<le> \<bar>tot d b\<bar>" using buffer_ok_size by auto
  moreover have "seg d (max 0 (tot d b)) (a + \<bar>tot d b\<bar>) bs p e" using Cons.prems by auto
  note Cons.IH[OF this]
  ultimately show ?case by (fastforce simp: BUFFER_DESC_def)
qed simp

lemma tiles_range:
  "tiles d pf a bs e \<Longrightarrow> a \<le> e \<and> (\<forall>b\<in>set bs. a \<le> b \<and> b + \<bar>tot d b\<bar> \<le> e \<and> BUFFER_DESC \<le> \<bar>tot d b\<bar>) \<and> distinct bs"
proof -
  assume "tiles d pf a bs e"
  then have "tiles d pf a (bs @ []) e" by simp
  then obtain p m where "seg d pf a bs p m" "m = e" unfolding tiles_append by auto
  then show ?thesis using seg_range by blast
qed

lemma seg_pf: "seg d 0 a bs p e \<Longrightarrow> 0 \<le> p"
proof -
  have "seg d pf a bs p e \<Longrightarrow> 0 \<le> pf \<Longrightarrow> 0 \<le> p" for pf
    by (induction bs arbitrary: pf a) auto
  then show "seg d 0 a bs p e \<Longrightarrow> 0 \<le> p" by blast
qed

text \<open>Two buffers of a tiling do not overlap.\<close>

lemma seg_disjoint:
  "seg d pf a bs p e \<Longrightarrow> b \<in> set bs \<Longrightarrow> b' \<in> set bs \<Longrightarrow> b < b' \<Longrightarrow> b + \<bar>tot d b\<bar> \<le> b'"
proof (induction bs arbitrary: pf a)
  case (Cons x xs)
  then have r: "seg d (max 0 (tot d x)) (a + \<bar>tot d x\<bar>) xs p e" "x = a" by auto
  have "\<forall>c\<in>set xs. a + \<bar>tot d x\<bar> \<le> c" using seg_range[OF r(1)] by blast
  then show ?case using Cons.IH[OF r(1)] Cons.prems r(2) by fastforce
qed simp

lemma tiles_split:
  assumes "tiles d pf a bs e" and "b \<in> set bs"
  obtains xs ys p where "bs = xs @ b # ys" "seg d pf a xs p b" "buffer_ok d p b"
    "tiles d (max 0 (tot d b)) (b + \<bar>tot d b\<bar>) ys e" "b \<notin> set xs" "b \<notin> set ys"
    "\<forall>y\<in>insert e (set ys). b + \<bar>tot d b\<bar> \<le> y" "\<forall>x\<in>set xs. x + \<bar>tot d x\<bar> \<le> b"
proof -
  obtain xs ys where bs: "bs = xs @ b # ys" using split_list[OF assms(2)] by blast
  then obtain p m where 1: "seg d pf a xs p m" "tiles d p m (b # ys) e" using assms(1) tiles_append by blast
  then have t: "m = b" "buffer_ok d p b" "tiles d (max 0 (tot d b)) (b + \<bar>tot d b\<bar>) ys e" by auto
  have "distinct bs" using tiles_range[OF assms(1)] by blast
  then show ?thesis using that[of xs ys p] bs 1(1) t tiles_range[OF t(3)] seg_range[OF 1(1)] by auto
qed

section \<open>Local changes of a tiling\<close>

lemma tiles_hd: "tiles d pf a bs e \<Longrightarrow> \<exists>x. d a = Some x \<and> (bd_prev_free x = 0 \<or> bd_prev_free x = pf)"
  by (cases bs) (auto simp: buffer_ok_def dummy_ok_def)

text \<open>The descriptor at the front may get another \<open>prev_free\<close>, reference count or bin.\<close>

lemma tiles_set_hd:
  assumes t: "tiles d pf a bs e" and x: "d a = Some x" and v: "bd_prev_free y = 0 \<or> bd_prev_free y = pf'"
    "bd_total y = bd_total x"
  shows "tiles (d(a := Some y)) pf' a bs e"
proof (cases bs)
  case Nil
  then show ?thesis using t x v by (auto simp: dummy_ok_def)
next
  case (Cons b ys)
  then have b: "b = a" "buffer_ok d pf a" "tiles d (max 0 (tot d a)) (a + \<bar>tot d a\<bar>) ys e" using t by auto
  have "\<forall>c\<in>insert e (set ys). c \<noteq> a"
    using tiles_range[OF b(3)] buffer_ok_size[OF b(2)] by (force simp: BUFFER_DESC_def)
  then have "tiles (d(a := Some y)) (max 0 (tot d a)) (a + \<bar>tot d a\<bar>) ys e"
    using b(3) tiles_cong[of e ys d "d(a := Some y)"] by simp
  then show ?thesis using Cons b(1,2) x v by (auto simp: buffer_ok_def tot_def)
qed

lemma tiles_relax:
  assumes "tiles d pf a bs e" and "d a = Some x" and "bd_prev_free x = 0 \<or> bd_prev_free x = pf'"
  shows "tiles d pf' a bs e"
proof -
  have "d(a := Some x) = d" using assms(2) by auto
  then show ?thesis using tiles_set_hd[OF assms(1,2,3)] by simp
qed

lemma tiles_upd_other: "tiles d pf a bs e \<Longrightarrow> b \<notin> insert e (set bs) \<Longrightarrow> tiles (d(b := v)) pf a bs e"
  using tiles_cong[of e bs d "d(b := v)"] by auto

lemma seg_upd_other: "seg d pf a bs p e \<Longrightarrow> b \<notin> set bs \<Longrightarrow> seg (d(b := v)) pf a bs p e"
  using seg_cong[of bs d "d(b := v)"] by auto

text \<open>Only sizes and \<open>prev_free\<close> count.\<close>

definition tag :: "descs \<Rightarrow> addr \<Rightarrow> (int \<times> int) option" where
  "tag d b = map_option (\<lambda>x. (bd_total x, bd_prev_free x)) (d b)"

lemma tag_buffer_ok: "tag d b = tag d' b \<Longrightarrow> buffer_ok d pf b = buffer_ok d' pf b \<and> tot d b = tot d' b"
  by (cases "d b"; cases "d' b") (auto simp: tag_def buffer_ok_def tot_def)

lemma tag_dummy_ok: "tag d b = tag d' b \<Longrightarrow> dummy_ok d pf b = dummy_ok d' pf b"
  by (cases "d b"; cases "d' b") (auto simp: tag_def dummy_ok_def)

lemma tiles_tag: "\<forall>b\<in>insert e (set bs). tag d b = tag d' b \<Longrightarrow> tiles d pf a bs e = tiles d' pf a bs e"
proof (induction bs arbitrary: pf a)
  case (Cons b bs)
  have "buffer_ok d pf b = buffer_ok d' pf b" "tot d b = tot d' b" using tag_buffer_ok[of d b d' pf] Cons.prems by simp_all
  moreover have "tiles d pf' a' bs e = tiles d' pf' a' bs e" for pf' a' using Cons.IH Cons.prems by simp
  ultimately show ?case by simp
next
  case Nil
  then show ?case using tag_dummy_ok[of d e d' pf] by simp
qed

text \<open>Cutting a free buffer, the end being in use.\<close>

lemma tiles_cut:
  assumes t: "tiles d pf a (xs @ b # ys) e" and x: "d b = Some x" "bd_total x = T" and T: "BUFFER_DESC \<le> T - act" "BUFFER_DESC \<le> act"
    and y: "bd_total y = - act" "bd_prev_free y = T - act" and n: "d (b + T) = Some nd"
  defines "u \<equiv> b + T - act"
  shows "tiles (d(b := Some (x\<lparr>bd_total := T - act\<rparr>), u := Some y, b + T := Some (nd\<lparr>bd_prev_free := 0\<rparr>))) pf a (xs @ b # u # ys) e"
    "u \<notin> insert e (set (xs @ b # ys))"
proof -
  obtain p m where "seg d pf a xs p m" "tiles d p m (b # ys) e" using t tiles_append by blast
  moreover have "tot d b = T" "0 < T" using x T by (auto simp: tot_def BUFFER_DESC_def)
  ultimately have 1: "seg d pf a xs p b" "buffer_ok d p b" "tiles d T (b + T) ys e" by auto
  note r1 = seg_range[OF 1(1)] and r2 = tiles_range[OF 1(3)]
  have u: "b < u" "u < b + T" using T by (auto simp: u_def BUFFER_DESC_def)
  have xb: "\<forall>z\<in>set xs. z < b" using r1 by (force simp: BUFFER_DESC_def)
  have yb: "\<forall>z\<in>insert e (set ys). b + T \<le> z" using r2 by auto
  let ?d = "d(b := Some (x\<lparr>bd_total := T - act\<rparr>), u := Some y, b + T := Some (nd\<lparr>bd_prev_free := 0\<rparr>))"
  have "seg ?d pf a xs p b" using 1(1) xb u by (intro seg_upd_other) force+
  moreover have "buffer_ok ?d p b" using 1(2) x T u by (auto simp: buffer_ok_def)
  moreover have tb: "tot ?d b = T - act" "tot ?d u = - act" using u y by (simp_all add: tot_def)
  moreover have "buffer_ok ?d (T - act) u" using u y T by (auto simp: buffer_ok_def BUFFER_DESC_def)
  moreover have "tiles ?d 0 (b + T) ys e"
  proof -
    have "tiles (d(b + T := Some (nd\<lparr>bd_prev_free := 0\<rparr>))) 0 (b + T) ys e" by (rule tiles_set_hd[OF 1(3) n]) simp_all
    moreover have "\<forall>z\<in>insert e (set ys). (d(b + T := Some (nd\<lparr>bd_prev_free := 0\<rparr>))) z = ?d z" using yb u by auto
    ultimately show ?thesis using tiles_cong[of e ys "d(b + T := Some (nd\<lparr>bd_prev_free := 0\<rparr>))" ?d] by blast
  qed
  moreover have "max 0 (T - act) = T - act" "b + \<bar>T - act\<bar> = u" "max 0 (- act) = 0" "u + \<bar>- act\<bar> = b + T"
    using T by (auto simp: u_def BUFFER_DESC_def)
  ultimately have "tiles ?d p b (b # u # ys) e" by (simp only: tiles.simps simp_thms)
  then show "tiles ?d pf a (xs @ b # u # ys) e" using \<open>seg ?d pf a xs p b\<close> tiles_append by blast
  show "u \<notin> insert e (set (xs @ b # ys))" using u xb yb by fastforce
qed

text \<open>Handing out a whole buffer.\<close>

lemma tiles_use:
  assumes t: "tiles d pf a (xs @ b # ys) e" and x: "d b = Some x" "bd_total x = T" "0 < T"
    and y: "bd_total y = - T" "bd_prev_free y = 0" and n: "d (b + T) = Some nd"
  shows "tiles (d(b + T := Some (nd\<lparr>bd_prev_free := 0\<rparr>), b := Some y)) pf a (xs @ b # ys) e"
proof -
  obtain p m where "seg d pf a xs p m" "tiles d p m (b # ys) e" using t tiles_append by blast
  moreover have "tot d b = T" using x by (auto simp: tot_def)
  ultimately have 1: "seg d pf a xs p b" "buffer_ok d p b" "tiles d T (b + T) ys e" using x(3) by auto
  have xb: "\<forall>z\<in>set xs. z < b" using seg_range[OF 1(1)] by (force simp: BUFFER_DESC_def)
  have yb: "\<forall>z\<in>insert e (set ys). b < z" using tiles_range[OF 1(3)] x(3) by auto
  let ?d = "d(b + T := Some (nd\<lparr>bd_prev_free := 0\<rparr>), b := Some y)"
  have "seg ?d pf a xs p b" using 1(1) xb x(3) by (intro seg_upd_other) force+
  moreover have "tiles ?d 0 (b + T) ys e"
  proof (rule tiles_upd_other)
    show "tiles (d(b + T := Some (nd\<lparr>bd_prev_free := 0\<rparr>))) 0 (b + T) ys e" by (rule tiles_set_hd[OF 1(3) n]) simp_all
  qed (use yb in auto)
  moreover have "buffer_ok ?d p b" "tot ?d b = - T" using 1(2) x y by (auto simp: buffer_ok_def tot_def)
  moreover have "max 0 (- T) = 0" "b + \<bar>- T\<bar> = b + T" using x(3) by auto
  ultimately have "tiles ?d p b (b # ys) e" by (simp only: tiles.simps simp_thms)
  then show ?thesis using \<open>seg ?d pf a xs p b\<close> tiles_append by blast
qed

text \<open>A tiling around the buffer \<open>b\<close> whose follower may have a wrong \<open>prev_free\<close>.\<close>

definition around :: "descs \<Rightarrow> addr \<Rightarrow> addr list \<Rightarrow> addr \<Rightarrow> addr list \<Rightarrow> addr \<Rightarrow> bool" where
  "around d a xs b ys e \<longleftrightarrow> (\<exists>p pf. seg d 0 a xs p b \<and> buffer_ok d p b \<and> tiles d pf (b + \<bar>tot d b\<bar>) ys e)"

lemma around_tiles: "tiles d 0 a (xs @ b # ys) e \<Longrightarrow> around d a xs b ys e"
  unfolding tiles_append around_def by auto

lemma around_free:
  assumes ar: "around d a xs b ys e" and x: "d b = Some x" "bd_total x = - T" "0 < T" and y: "bd_total y = T" "bd_prev_free y = bd_prev_free x"
  shows "around (d(b := Some y)) a xs b ys e"
proof -
  obtain p pf where 1: "seg d 0 a xs p b" "buffer_ok d p b" "tiles d pf (b + T) ys e"
    using ar x unfolding around_def by (auto simp: tot_def)
  have "b \<notin> set xs" using seg_range[OF 1(1)] by (force simp: BUFFER_DESC_def)
  then have "seg (d(b := Some y)) 0 a xs p b" using 1(1) by (rule seg_upd_other[rotated])
  moreover have "b \<notin> insert e (set ys)" using tiles_range[OF 1(3)] x(3) by force
  then have "tiles (d(b := Some y)) pf (b + T) ys e" using 1(3) by (rule tiles_upd_other[rotated])
  moreover have "buffer_ok (d(b := Some y)) p b" using 1(2) x y by (auto simp: buffer_ok_def)
  moreover have "tot (d(b := Some y)) b = T" using y by (simp add: tot_def)
  ultimately show ?thesis using x(3) unfolding around_def by auto
qed

lemma around_close:
  assumes ar: "around d a xs b ys e" and T: "tot d b = T" "0 < T" and n: "d (b + T) = Some nd"
  shows "tiles (d(b + T := Some (nd\<lparr>bd_prev_free := T\<rparr>))) 0 a (xs @ b # ys) e"
proof -
  let ?d = "d(b + T := Some (nd\<lparr>bd_prev_free := T\<rparr>))"
  obtain p pf where 1: "seg d 0 a xs p b" "buffer_ok d p b" "tiles d pf (b + T) ys e"
    using ar T unfolding around_def by auto
  have "b + T \<notin> set xs" using seg_range[OF 1(1)] T(2) by (force simp: BUFFER_DESC_def)
  then have "seg ?d 0 a xs p b" using 1(1) by (rule seg_upd_other[rotated])
  moreover have "tiles ?d T (b + T) ys e" by (rule tiles_set_hd[OF 1(3) n]) simp_all
  moreover have "buffer_ok ?d p b" "tot ?d b = T" using 1(2) T by (auto simp: buffer_ok_def tot_def)
  ultimately show ?thesis unfolding tiles_append using T(2) by (intro exI[of _ p] exI[of _ b]) simp
qed

lemma seg_last:
  assumes "seg d 0 a xs p b" and "p \<noteq> 0"
  shows "\<exists>xs' z p'. xs = xs' @ [b - p] \<and> d (b - p) = Some z \<and> bd_total z = p \<and> 0 < p \<and> seg d 0 a xs' p' (b - p) \<and>
    buffer_ok d p' (b - p)"
proof (cases xs rule: rev_exhaust)
  case Nil
  then show ?thesis using assms by simp
next
  case (snoc xs' c)
  then obtain p' m where 1: "seg d 0 a xs' p' m" "seg d p' m [c] p b" using assms(1) seg_append by blast
  have c: "m = c" using 1(2) by simp
  have 2: "m = c" "buffer_ok d p' c" "b = c + \<bar>tot d c\<bar>" "p = max 0 (tot d c)" using 1(2) unfolding c by simp_all
  have 3: "tot d c = p" "0 < p" "c = b - p" using 2(3,4) assms(2) by linarith+
  obtain z where z: "d c = Some z" using 2(2) by (auto simp: buffer_ok_def)
  have "bd_total z = p" using 3(1) z by (simp add: tot_def)
  moreover have "seg d 0 a xs' p' c" using 1(1) 2(1) by simp
  ultimately show ?thesis using snoc 2(2) 3(2) z unfolding 3(3)[symmetric] by blast
qed

lemma around_prev:
  assumes ar: "around d a xs b ys e" and x: "d b = Some x" "bd_total x = T" "0 < T" "bd_prev_free x = q" "q \<noteq> 0"
  shows "\<exists>xs' z. xs = xs' @ [b - q] \<and> d (b - q) = Some z \<and> bd_total z = q \<and> 0 < q \<and>
    around (d(b - q := Some (z\<lparr>bd_total := q + T\<rparr>))) a xs' (b - q) ys e"
proof -
  obtain p pf where 1: "seg d 0 a xs p b" "buffer_ok d p b" "tiles d pf (b + T) ys e"
    using ar x(1-3) unfolding around_def by (auto simp: tot_def)
  have pq: "p = q" using 1(2) x by (auto simp: buffer_ok_def)
  then obtain xs' z p' where 2: "xs = xs' @ [b - q]" "d (b - q) = Some z" "bd_total z = q" "0 < q"
    "seg d 0 a xs' p' (b - q)" "buffer_ok d p' (b - q)" using seg_last[OF 1(1)] x(5) by blast
  let ?d = "d(b - q := Some (z\<lparr>bd_total := q + T\<rparr>))"
  have "b - q \<notin> set xs'" using seg_range[OF 2(5)] by (force simp: BUFFER_DESC_def)
  then have "seg ?d 0 a xs' p' (b - q)" using 2(5) by (rule seg_upd_other[rotated])
  moreover have "b - q \<notin> insert e (set ys)" using tiles_range[OF 1(3)] x(3) 2(4) by force
  then have "tiles ?d pf (b + T) ys e" using 1(3) by (rule tiles_upd_other[rotated])
  moreover have "buffer_ok ?d p' (b - q)" using 2 x(3) by (auto simp: buffer_ok_def)
  moreover have "tot ?d (b - q) = q + T" by (simp add: tot_def)
  ultimately have "around ?d a xs' (b - q) ys e" using 2(4) x(3) unfolding around_def
    by (intro exI[of _ p'] exI[of _ pf]) simp
  then show ?thesis using 2 by blast
qed

lemma around_next:
  assumes ar: "around d a xs b ys e" and x: "d b = Some x" "bd_total x = T" "0 < T" and n: "d (b + T) = Some nd" "0 < bd_total nd"
  shows "\<exists>ys'. ys = (b + T) # ys' \<and> around (d(b := Some (x\<lparr>bd_total := T + bd_total nd\<rparr>))) a xs b ys' e"
proof -
  obtain p pf where 1: "seg d 0 a xs p b" "buffer_ok d p b" "tiles d pf (b + T) ys e"
    using ar x unfolding around_def by (auto simp: tot_def)
  obtain ys' where ys: "ys = (b + T) # ys'" using 1(3) n by (cases ys) (auto simp: dummy_ok_def)
  let ?N = "bd_total nd" and ?d = "d(b := Some (x\<lparr>bd_total := T + bd_total nd\<rparr>))"
  have 2: "tiles d ?N (b + T + ?N) ys' e" using 1(3) ys n by (simp add: tot_def)
  have "b \<notin> set xs" using seg_range[OF 1(1)] by (force simp: BUFFER_DESC_def)
  then have "seg ?d 0 a xs p b" using 1(1) by (rule seg_upd_other[rotated])
  moreover have "b \<notin> insert e (set ys')" using tiles_range[OF 2] x(3) n(2) by force
  then have "tiles ?d ?N (b + T + ?N) ys' e" using 2 by (rule tiles_upd_other[rotated])
  moreover have "buffer_ok ?d p b" using 1(2) x n(2) by (auto simp: buffer_ok_def)
  moreover have "tot ?d b = T + ?N" by (simp add: tot_def)
  ultimately have "around ?d a xs b ys' e" using n(2) x(3) unfolding around_def
    by (intro exI[of _ p] exI[of _ ?N]) (simp add: add.assoc)
  then show ?thesis using ys by blast
qed

end
