(* ===== verification/Kupl_Mpool_Heap.thy ===== *)
theory Kupl_Mpool_Heap
  imports Kupl_Mpool_Inv
begin

text \<open>
  The regions the pool got from the operating system, the invariant of all its memories, and what
  every operation of the normal layer does to the set of buffers in use.
\<close>

section \<open>Regions\<close>

datatype region = Chunk mem_ref "addr list" | Direct int

fun reg_len :: "region \<Rightarrow> int" where
  "reg_len (Chunk k bs) = MEM_CHUNK_GROW_SIZE"
| "reg_len (Direct n) = n"

type_synonym regions = "addr \<Rightarrow> region option"

definition frees :: "descs \<Rightarrow> addr list \<Rightarrow> addr set" where
  "frees d bs = {b \<in> set bs. 0 < tot d b}"

definition used :: "descs \<Rightarrow> addr list \<Rightarrow> addr set" where
  "used d bs = {b \<in> set bs. tot d b < 0}"

definition free_of :: "regions \<Rightarrow> descs \<Rightarrow> mem_ref \<Rightarrow> addr set" where
  "free_of G d k = {b. \<exists>c bs. G c = Some (Chunk k bs) \<and> b \<in> frees d bs}"

definition live :: "regions \<Rightarrow> descs \<Rightarrow> addr set" where
  "live G d = {b. (\<exists>c k bs. G c = Some (Chunk k bs) \<and> b \<in> used d bs) \<or> (\<exists>n. G b = Some (Direct n))}"

definition extent :: "regions \<Rightarrow> descs \<Rightarrow> addr \<Rightarrow> int" where
  "extent G d b = (case G b of Some (Direct n) \<Rightarrow> n | _ \<Rightarrow> \<bar>tot d b\<bar>)"

definition bins_ok :: "descs \<Rightarrow> kupl_memory \<Rightarrow> addr set \<Rightarrow> bool" where
  "bins_ok d m FR \<longleftrightarrow> (\<forall>i. distinct (km_bins m i) \<and> set (km_bins m i) = {a \<in> FR. mem_bin (tot d a) = i})"

definition chunk_ok :: "descs \<Rightarrow> mem_ref \<Rightarrow> addr \<Rightarrow> addr list \<Rightarrow> bool" where
  "chunk_ok d k c bs \<longleftrightarrow> tiles d 0 c bs (c + (MEM_CHUNK_GROW_SIZE - BUFFER_DESC)) \<and>
     (\<forall>b\<in>set bs. \<exists>x. d b = Some x \<and> bd_eid x = mr_eid k \<and> 0 \<le> bd_bin x)"

text \<open>A buffer in the list of returned buffers is in use and its count is 0.\<close>

definition limbo :: "descs \<Rightarrow> addr \<Rightarrow> bool" where
  "limbo d b \<longleftrightarrow> (\<exists>x. d b = Some x \<and> bd_total x < 0 \<and> bd_ref x = 0)"

definition sync_ok :: "regions \<Rightarrow> descs \<Rightarrow> mem_ref \<Rightarrow> addr list \<Rightarrow> bool" where
  "sync_ok G d k ps \<longleftrightarrow> distinct ps \<and>
     (\<forall>p\<in>set ps. limbo d (p - BUFFER_DESC) \<and> (\<exists>c bs. G c = Some (Chunk k bs) \<and> p - BUFFER_DESC \<in> set bs))"

definition pool_inv :: "regions \<Rightarrow> mpool \<Rightarrow> bool" where
  "pool_inv G s \<longleftrightarrow>
     (\<forall>a a' r r'. G a = Some r \<and> G a' = Some r' \<and> a < a' \<longrightarrow> a + reg_len r \<le> a') \<and>
     (\<forall>a r. G a = Some r \<longrightarrow> (a, reg_len r) \<in> set (mp_maps s)) \<and>
     (\<forall>c k bs. G c = Some (Chunk k bs) \<longrightarrow> chunk_ok (mp_desc s) k c bs \<and> get_mem k s \<noteq> None) \<and>
     (\<forall>a n. G a = Some (Direct n) \<longrightarrow> 0 < n \<and>
        (\<exists>x. mp_desc s a = Some x \<and> bd_bin x < 0 \<and> 0 < bd_total x \<and> page_up (bd_total x) = n)) \<and>
     (\<forall>k m. get_mem k s = Some m \<longrightarrow> km_eid m = mr_eid k \<and> bins_ok (mp_desc s) m (free_of G (mp_desc s) k) \<and>
        sync_ok G (mp_desc s) k (km_sync_list m))"

lemma inv_regions: "pool_inv G s \<Longrightarrow> G a = Some r \<Longrightarrow> G a' = Some r' \<Longrightarrow> a < a' \<Longrightarrow> a + reg_len r \<le> a'"
  unfolding pool_inv_def by blast

lemma inv_maps: "pool_inv G s \<Longrightarrow> G a = Some r \<Longrightarrow> (a, reg_len r) \<in> set (mp_maps s)"
  unfolding pool_inv_def by blast

lemma inv_chunk: "pool_inv G s \<Longrightarrow> G c = Some (Chunk k bs) \<Longrightarrow> chunk_ok (mp_desc s) k c bs"
  unfolding pool_inv_def by blast

lemma inv_chunk_mem: "pool_inv G s \<Longrightarrow> G c = Some (Chunk k bs) \<Longrightarrow> \<exists>m. get_mem k s = Some m"
  unfolding pool_inv_def by blast

lemma inv_direct: "pool_inv G s \<Longrightarrow> G a = Some (Direct n) \<Longrightarrow>
    0 < n \<and> (\<exists>x. mp_desc s a = Some x \<and> bd_bin x < 0 \<and> 0 < bd_total x \<and> page_up (bd_total x) = n)"
  unfolding pool_inv_def by blast

lemma inv_mem: "pool_inv G s \<Longrightarrow> get_mem k s = Some m \<Longrightarrow>
    km_eid m = mr_eid k \<and> bins_ok (mp_desc s) m (free_of G (mp_desc s) k) \<and> sync_ok G (mp_desc s) k (km_sync_list m)"
  unfolding pool_inv_def by blast

lemma chunk_block:
  assumes "chunk_ok d k c bs" and "b \<in> set bs"
  shows "c \<le> b" "b + \<bar>tot d b\<bar> \<le> c + (MEM_CHUNK_GROW_SIZE - BUFFER_DESC)" "BUFFER_DESC \<le> \<bar>tot d b\<bar>"
    "b < c + MEM_CHUNK_GROW_SIZE"
  using assms tiles_range[of d 0 c bs "c + (MEM_CHUNK_GROW_SIZE - BUFFER_DESC)"]
  by (auto simp: chunk_ok_def BUFFER_DESC_def)

lemma reg_len_pos: "pool_inv G s \<Longrightarrow> G a = Some r \<Longrightarrow> 0 < reg_len r"
  using inv_direct by (cases r) (auto simp: MEM_CHUNK_GROW_SIZE_def)

text \<open>Addresses of one region are not in another.\<close>

lemma inv_apart:
  assumes "pool_inv G s" and "G a = Some r" and "G a' = Some r'" and "a \<le> x" "x < a + reg_len r" "a' \<le> x" "x < a' + reg_len r'"
  shows "a = a'"
proof (rule ccontr)
  assume "a \<noteq> a'"
  then have "a < a' \<or> a' < a" by auto
  then show False using inv_regions[OF assms(1,2,3)] inv_regions[OF assms(1,3,2)] assms by auto
qed

text \<open>The buffers in use never overlap.\<close>

lemma live_block:
  assumes inv: "pool_inv G s" and b: "b \<in> live G (mp_desc s)"
  shows "\<exists>a r. G a = Some r \<and> a \<le> b \<and> b + extent G (mp_desc s) b \<le> a + reg_len r \<and> 0 < extent G (mp_desc s) b \<and>
    (case r of Chunk k bs \<Rightarrow> b \<in> used (mp_desc s) bs \<and> extent G (mp_desc s) b = \<bar>tot (mp_desc s) b\<bar>
     | Direct n \<Rightarrow> a = b \<and> extent G (mp_desc s) b = n)"
proof (cases "\<exists>n. G b = Some (Direct n)")
  case True
  then obtain n where n: "G b = Some (Direct n)" by blast
  then show ?thesis using inv_direct[OF inv n] by (intro exI[of _ b] exI[of _ "Direct n"]) (simp add: extent_def)
next
  case False
  then obtain c k bs where c: "G c = Some (Chunk k bs)" "b \<in> used (mp_desc s) bs" using b by (auto simp: live_def)
  have e: "extent G (mp_desc s) b = \<bar>tot (mp_desc s) b\<bar>" using False
    by (auto simp: extent_def split: option.splits region.splits)
  have "b \<in> set bs" using c(2) by (simp add: used_def)
  from chunk_block[OF inv_chunk[OF inv c(1)] this] show ?thesis
    using c e by (intro exI[of _ c] exI[of _ "Chunk k bs"]) (simp add: BUFFER_DESC_def)
qed

lemma live_disjoint:
  assumes inv: "pool_inv G s" and b: "b \<in> live G (mp_desc s)" "b' \<in> live G (mp_desc s)" "b < b'"
  shows "b + extent G (mp_desc s) b \<le> b'"
proof -
  obtain a r where a: "G a = Some r" "a \<le> b" "b + extent G (mp_desc s) b \<le> a + reg_len r" "0 < extent G (mp_desc s) b"
    "case r of Chunk k bs \<Rightarrow> b \<in> used (mp_desc s) bs \<and> extent G (mp_desc s) b = \<bar>tot (mp_desc s) b\<bar>
     | Direct n \<Rightarrow> a = b \<and> extent G (mp_desc s) b = n" using live_block[OF inv b(1)] by blast
  obtain a' r' where a': "G a' = Some r'" "a' \<le> b'" "b' + extent G (mp_desc s) b' \<le> a' + reg_len r'" "0 < extent G (mp_desc s) b'"
    "case r' of Chunk k bs \<Rightarrow> b' \<in> used (mp_desc s) bs \<and> extent G (mp_desc s) b' = \<bar>tot (mp_desc s) b'\<bar>
     | Direct n \<Rightarrow> a' = b' \<and> extent G (mp_desc s) b' = n" using live_block[OF inv b(2)] by blast
  show ?thesis
  proof (cases "a = a'")
    case True
    then have r: "r = r'" using a(1) a'(1) by simp
    show ?thesis
    proof (cases r)
      case (Chunk k bs)
      have "tiles (mp_desc s) 0 a bs (a + (MEM_CHUNK_GROW_SIZE - BUFFER_DESC))"
        using inv_chunk[OF inv] a(1) Chunk by (simp add: chunk_ok_def)
      then obtain p m where sg: "seg (mp_desc s) 0 a bs p m" using tiles_append[of _ _ _ bs "[]"] by auto
      have "b \<in> set bs" "b' \<in> set bs" "extent G (mp_desc s) b = \<bar>tot (mp_desc s) b\<bar>"
        using a(5) a'(5) Chunk r by (auto simp: used_def)
      then show ?thesis using seg_disjoint[OF sg] b(3) by simp
    next
      case (Direct n)
      then show ?thesis using a(5) a'(5) r True b(3) by simp
    qed
  next
    case False
    then have "a < a' \<or> a' < a" by auto
    then show ?thesis
    proof
      assume "a < a'"
      then show ?thesis using inv_regions[OF inv a(1) a'(1)] a(3) a'(2) by linarith
    next
      assume "a' < a"
      then show ?thesis using inv_regions[OF inv a'(1) a(1)] a(2) a'(3,4) b(3) by linarith
    qed
  qed
qed

section \<open>Changing one chunk\<close>

lemma mem_simps [simp]:
  "mp_desc (put_mem k m s) = mp_desc s" "mp_desc (put_desc a x s) = (mp_desc s)(a := Some x)"
  "get_mem k (put_desc a x s) = get_mem k s" "get_mem k (put_mem k m s) = Some m"
  "get_mem k (s\<lparr>mp_desc := d\<rparr>) = get_mem k s" "mp_align (put_mem k m s) = mp_align s"
  "mp_maps (put_mem k m s) = mp_maps s" "mp_maps (put_desc a x s) = mp_maps s" "mp_mmap (put_mem k m s) = mp_mmap s" "mp_mmap (put_desc a x s) = mp_mmap s"
  "mp_align (put_desc a x s) = mp_align s" "put_mem k m (put_mem k m' s) = put_mem k m s"
  "put_mem k m (put_desc a x s) = put_desc a x (put_mem k m s)"
  by (simp_all add: put_mem_def put_desc_def get_mem_def fun_eq_iff)

lemma get_put_mem: "get_mem k' (put_mem k m s) = (if k' = k then Some m else get_mem k' s)"
  by (cases k; cases k') (auto simp: get_mem_def put_mem_def)

lemma tot_same: "d' b = d b \<Longrightarrow> tot d' b = tot d b"
  by (simp add: tot_def)

lemma ex_chunk_upd:
  "(\<exists>c0 bs0. (G(c \<mapsto> Chunk k bs')) c0 = Some (Chunk k' bs0) \<and> P bs0) \<longleftrightarrow>
     (\<exists>c' bs''. c' \<noteq> c \<and> G c' = Some (Chunk k' bs'') \<and> P bs'') \<or> k' = k \<and> P bs'"
proof
  assume "\<exists>c0 bs0. (G(c \<mapsto> Chunk k bs')) c0 = Some (Chunk k' bs0) \<and> P bs0"
  then obtain c0 bs0 where h: "(G(c \<mapsto> Chunk k bs')) c0 = Some (Chunk k' bs0)" "P bs0" by blast
  then show "(\<exists>c' bs''. c' \<noteq> c \<and> G c' = Some (Chunk k' bs'') \<and> P bs'') \<or> k' = k \<and> P bs'"
    by (cases "c0 = c") auto
next
  assume "(\<exists>c' bs''. c' \<noteq> c \<and> G c' = Some (Chunk k' bs'') \<and> P bs'') \<or> k' = k \<and> P bs'"
  then show "\<exists>c0 bs0. (G(c \<mapsto> Chunk k bs')) c0 = Some (Chunk k' bs0) \<and> P bs0"
  proof
    assume "\<exists>c' bs''. c' \<noteq> c \<and> G c' = Some (Chunk k' bs'') \<and> P bs''"
    then obtain c' bs'' where "c' \<noteq> c" "G c' = Some (Chunk k' bs'')" "P bs''" by blast
    then show ?thesis by (intro exI[of _ c'] exI[of _ bs'']) simp
  qed auto
qed

lemma chunk_step:
  assumes inv: "pool_inv G s" and c: "G c = Some (Chunk k bs)" and m: "get_mem k s = Some m"
    and out: "\<forall>a. \<not> (c \<le> a \<and> a < c + MEM_CHUNK_GROW_SIZE) \<longrightarrow> mp_desc s' a = mp_desc s a"
    and maps: "mp_maps s' = mp_maps s"
    and mem: "\<forall>k'. get_mem k' s' = (if k' = k then Some m' else get_mem k' s)"
    and ok: "chunk_ok (mp_desc s') k c bs'"
    and m': "km_eid m' = km_eid m" "km_sync_list m' = km_sync_list m"
    and bins: "bins_ok (mp_desc s') m' (free_of G (mp_desc s) k - frees (mp_desc s) bs \<union> frees (mp_desc s') bs')"
    and lim: "\<forall>b\<in>set bs. limbo (mp_desc s) b \<longrightarrow> b \<in> set bs' \<and> limbo (mp_desc s') b"
  shows "pool_inv (G(c \<mapsto> Chunk k bs')) s' \<and>
    live (G(c \<mapsto> Chunk k bs')) (mp_desc s') = live G (mp_desc s) - used (mp_desc s) bs \<union> used (mp_desc s') bs' \<and>
    (\<forall>b. \<not> (c \<le> b \<and> b < c + MEM_CHUNK_GROW_SIZE) \<longrightarrow> extent (G(c \<mapsto> Chunk k bs')) (mp_desc s') b = extent G (mp_desc s) b)"
proof -
  let ?d = "mp_desc s" and ?d' = "mp_desc s'" and ?G = "G(c \<mapsto> Chunk k bs')"
  have other: "?d' b = ?d b" if "G c' = Some (Chunk k' bs'')" "c' \<noteq> c" "c' \<le> b" "b < c' + MEM_CHUNK_GROW_SIZE" for c' k' bs'' b
  proof -
    have "\<not> (c \<le> b \<and> b < c + MEM_CHUNK_GROW_SIZE)" using inv_apart[OF inv c that(1)] that by auto
    then show ?thesis using out by blast
  qed
  have blk: "?d' b = ?d b" "b \<notin> set bs" "b \<notin> set bs'" if "G c' = Some (Chunk k' bs'')" "c' \<noteq> c" "b \<in> set bs''" for c' k' bs'' b
  proof -
    note r = chunk_block[OF inv_chunk[OF inv that(1)] that(3)]
    show "?d' b = ?d b" using other[OF that(1,2)] r by simp
    have nb: "\<not> (c \<le> b \<and> b < c + MEM_CHUNK_GROW_SIZE)" using inv_apart[OF inv c that(1), of b] that(2) r by auto
    show "b \<notin> set bs" "b \<notin> set bs'" using nb chunk_block(1,4)[OF inv_chunk[OF inv c], of b] chunk_block(1,4)[OF ok, of b] by blast+
  qed
  have fr: "frees ?d' bs'' = frees ?d bs''" "used ?d' bs'' = used ?d bs''" if "G c' = Some (Chunk k' bs'')" "c' \<noteq> c" for c' k' bs''
    using blk(1)[OF that] tot_same[of ?d' _ ?d] by (auto simp: frees_def used_def)
  have FR: "free_of ?G ?d' k' = (if k' = k then free_of G ?d k - frees ?d bs \<union> frees ?d' bs' else free_of G ?d k')" for k'
  proof -
    have "b \<in> free_of ?G ?d' k' \<longleftrightarrow> (\<exists>c' bs''. c' \<noteq> c \<and> G c' = Some (Chunk k' bs'') \<and> b \<in> frees ?d bs'') \<or>
        k' = k \<and> b \<in> frees ?d' bs'" for b
      unfolding free_of_def mem_Collect_eq ex_chunk_upd using fr(1) by blast
    moreover have "(\<exists>c' bs''. c' \<noteq> c \<and> G c' = Some (Chunk k' bs'') \<and> b \<in> frees ?d bs'') \<longleftrightarrow>
        b \<in> free_of G ?d k' \<and> \<not> (k' = k \<and> b \<in> frees ?d bs)" for b
    proof
      assume "\<exists>c' bs''. c' \<noteq> c \<and> G c' = Some (Chunk k' bs'') \<and> b \<in> frees ?d bs''"
      then show "b \<in> free_of G ?d k' \<and> \<not> (k' = k \<and> b \<in> frees ?d bs)"
        using blk(2) by (auto simp: free_of_def frees_def)
    next
      assume h: "b \<in> free_of G ?d k' \<and> \<not> (k' = k \<and> b \<in> frees ?d bs)"
      then obtain c0 bs0 where "G c0 = Some (Chunk k' bs0)" "b \<in> frees ?d bs0" by (auto simp: free_of_def)
      moreover then have "c0 \<noteq> c" using c h by auto
      ultimately show "\<exists>c' bs''. c' \<noteq> c \<and> G c' = Some (Chunk k' bs'') \<and> b \<in> frees ?d bs''" by blast
    qed
    ultimately show ?thesis by auto
  qed
  have R: "\<forall>a a' r r'. ?G a = Some r \<and> ?G a' = Some r' \<and> a < a' \<longrightarrow> a + reg_len r \<le> a'"
  proof (intro allI impI)
    fix a a' r r' assume h: "?G a = Some r \<and> ?G a' = Some r' \<and> a < a'"
    obtain r0 r1 where "G a = Some r0" "G a' = Some r1" "reg_len r0 = reg_len r"
      using h c by (auto split: if_splits)
    then show "a + reg_len r \<le> a'" using inv_regions[OF inv] h by metis
  qed
  have P: "\<forall>a r. ?G a = Some r \<longrightarrow> (a, reg_len r) \<in> set (mp_maps s')"
  proof (intro allI impI)
    fix a r assume h: "?G a = Some r"
    obtain r0 where "G a = Some r0" "reg_len r0 = reg_len r" using h c by (auto split: if_splits)
    then show "(a, reg_len r) \<in> set (mp_maps s')" using inv_maps[OF inv] maps by metis
  qed
  have C: "\<forall>c' k' bs''. ?G c' = Some (Chunk k' bs'') \<longrightarrow> chunk_ok ?d' k' c' bs'' \<and> get_mem k' s' \<noteq> None"
  proof (intro allI impI)
    fix c' k' bs'' assume h: "?G c' = Some (Chunk k' bs'')"
    show "chunk_ok ?d' k' c' bs'' \<and> get_mem k' s' \<noteq> None"
    proof (cases "c' = c")
      case True
      then show ?thesis using h ok mem by simp
    next
      case False
      then have g: "G c' = Some (Chunk k' bs'')" using h by simp
      have ck: "chunk_ok ?d k' c' bs''" by (rule inv_chunk[OF inv g])
      have "\<forall>b\<in>insert (c' + (MEM_CHUNK_GROW_SIZE - BUFFER_DESC)) (set bs''). ?d b = ?d' b"
      proof
        fix b assume "b \<in> insert (c' + (MEM_CHUNK_GROW_SIZE - BUFFER_DESC)) (set bs'')"
        then have "c' \<le> b" "b < c' + MEM_CHUNK_GROW_SIZE" using chunk_block[OF ck] by (auto simp: mem_sizes)
        then show "?d b = ?d' b" using other[OF g False] by simp
      qed
      then have "chunk_ok ?d' k' c' bs''" using ck tiles_cong[of _ bs'' ?d ?d'] by (auto simp: chunk_ok_def)
      then show ?thesis using mem inv_chunk_mem[OF inv g] by auto
    qed
  qed
  have D: "\<forall>a n. ?G a = Some (Direct n) \<longrightarrow> 0 < n \<and>
      (\<exists>x. ?d' a = Some x \<and> bd_bin x < 0 \<and> 0 < bd_total x \<and> page_up (bd_total x) = n)"
  proof (intro allI impI)
    fix a n assume h: "?G a = Some (Direct n)"
    then have g: "G a = Some (Direct n)" "a \<noteq> c" by (auto split: if_splits)
    have "0 < n" using inv_direct[OF inv g(1)] by blast
    then have "\<not> (c \<le> a \<and> a < c + MEM_CHUNK_GROW_SIZE)" using inv_apart[OF inv c g(1), of a] g(2) by auto
    then have "?d' a = ?d a" using out by blast
    then show "0 < n \<and> (\<exists>x. ?d' a = Some x \<and> bd_bin x < 0 \<and> 0 < bd_total x \<and> page_up (bd_total x) = n)" using inv_direct[OF inv g(1)] by simp
  qed
  have M: "\<forall>k' m0. get_mem k' s' = Some m0 \<longrightarrow> km_eid m0 = mr_eid k' \<and> bins_ok ?d' m0 (free_of ?G ?d' k') \<and>
      sync_ok ?G ?d' k' (km_sync_list m0)"
  proof (intro allI impI)
    fix k' m0 assume h: "get_mem k' s' = Some m0"
    obtain m1 where m1: "get_mem k' s = Some m1" "km_eid m0 = km_eid m1" "km_sync_list m0 = km_sync_list m1"
      "k' \<noteq> k \<Longrightarrow> m0 = m1" "k' = k \<Longrightarrow> m0 = m'"
      using h mem m m' by (cases "k' = k") auto
    note i = inv_mem[OF inv m1(1)]
    have "sync_ok ?G ?d' k' (km_sync_list m0)"
      unfolding sync_ok_def m1(3)
    proof (intro conjI ballI)
      show "distinct (km_sync_list m1)" using i by (simp add: sync_ok_def)
      fix p assume "p \<in> set (km_sync_list m1)"
      then obtain c' bs'' where p: "limbo ?d (p - BUFFER_DESC)" "G c' = Some (Chunk k' bs'')" "p - BUFFER_DESC \<in> set bs''"
        using i by (auto simp: sync_ok_def)
      have "limbo ?d' (p - BUFFER_DESC) \<and> (\<exists>bs0. ?G c' = Some (Chunk k' bs0) \<and> p - BUFFER_DESC \<in> set bs0)"
      proof (cases "c' = c")
        case True
        then show ?thesis using p c lim by auto
      next
        case False
        then show ?thesis using blk(1)[OF p(2) False p(3)] p by (auto simp: limbo_def)
      qed
      then show "limbo ?d' (p - BUFFER_DESC)" "\<exists>c bs. ?G c = Some (Chunk k' bs) \<and> p - BUFFER_DESC \<in> set bs" by blast+
    qed
    moreover have "bins_ok ?d' m0 (free_of ?G ?d' k')"
    proof (cases "k' = k")
      case True
      then show ?thesis using bins m1(5) by (simp add: FR)
    next
      case False
      have "tot ?d' a = tot ?d a" if a: "a \<in> free_of G ?d k'" for a
      proof -
        obtain c' bs'' where "G c' = Some (Chunk k' bs'')" "a \<in> set bs''" using a by (auto simp: free_of_def frees_def)
        moreover then have "c' \<noteq> c" using c False by auto
        ultimately show ?thesis using blk(1) tot_same by metis
      qed
      then have "{a \<in> free_of G ?d k'. mem_bin (tot ?d' a) = i} = {a \<in> free_of G ?d k'. mem_bin (tot ?d a) = i}" for i by auto
      then show ?thesis using i m1(4)[OF False] False by (simp add: FR bins_ok_def)
    qed
    ultimately show "km_eid m0 = mr_eid k' \<and> bins_ok ?d' m0 (free_of ?G ?d' k') \<and> sync_ok ?G ?d' k' (km_sync_list m0)"
      using i m1(2) by simp
  qed
  have L: "live ?G ?d' = live G ?d - used ?d bs \<union> used ?d' bs'"
  proof -
    have "b \<in> live ?G ?d' \<longleftrightarrow> (\<exists>c' k' bs''. c' \<noteq> c \<and> G c' = Some (Chunk k' bs'') \<and> b \<in> used ?d bs'') \<or>
        b \<in> used ?d' bs' \<or> (\<exists>n. G b = Some (Direct n))" for b
    proof -
      have A: "(\<exists>n. ?G b = Some (Direct n)) \<longleftrightarrow> (\<exists>n. G b = Some (Direct n))" using c by auto
      have "(\<exists>c0 k' bs0. ?G c0 = Some (Chunk k' bs0) \<and> b \<in> used ?d' bs0) \<longleftrightarrow>
          (\<exists>k' c0 bs0. ?G c0 = Some (Chunk k' bs0) \<and> b \<in> used ?d' bs0)" by blast
      also have "\<dots> \<longleftrightarrow> (\<exists>k'. (\<exists>c' bs''. c' \<noteq> c \<and> G c' = Some (Chunk k' bs'') \<and> b \<in> used ?d' bs'') \<or> k' = k \<and> b \<in> used ?d' bs')"
        by (simp only: ex_chunk_upd)
      also have "\<dots> \<longleftrightarrow> (\<exists>k'. (\<exists>c' bs''. c' \<noteq> c \<and> G c' = Some (Chunk k' bs'') \<and> b \<in> used ?d bs'') \<or> k' = k \<and> b \<in> used ?d' bs')"
      proof -
        have "(c' \<noteq> c \<and> G c' = Some (Chunk k' bs'') \<and> b \<in> used ?d' bs'') = (c' \<noteq> c \<and> G c' = Some (Chunk k' bs'') \<and> b \<in> used ?d bs'')" for k' c' bs''
          using fr(2) by (intro conj_cong refl) simp
        then show ?thesis by (simp only:)
      qed
      also have "\<dots> \<longleftrightarrow> (\<exists>c' k' bs''. c' \<noteq> c \<and> G c' = Some (Chunk k' bs'') \<and> b \<in> used ?d bs'') \<or> b \<in> used ?d' bs'" by blast
      finally have B: "(\<exists>c0 k' bs0. ?G c0 = Some (Chunk k' bs0) \<and> b \<in> used ?d' bs0) \<longleftrightarrow>
          (\<exists>c' k' bs''. c' \<noteq> c \<and> G c' = Some (Chunk k' bs'') \<and> b \<in> used ?d bs'') \<or> b \<in> used ?d' bs'" .
      show ?thesis unfolding live_def mem_Collect_eq A B by (simp only: disj_assoc)
    qed
    moreover have "(\<exists>c' k' bs''. c' \<noteq> c \<and> G c' = Some (Chunk k' bs'') \<and> b \<in> used ?d bs'') \<or> (\<exists>n. G b = Some (Direct n)) \<longleftrightarrow>
        b \<in> live G ?d \<and> b \<notin> used ?d bs" for b
    proof
      assume h: "(\<exists>c' k' bs''. c' \<noteq> c \<and> G c' = Some (Chunk k' bs'') \<and> b \<in> used ?d bs'') \<or> (\<exists>n. G b = Some (Direct n))"
      then show "b \<in> live G ?d \<and> b \<notin> used ?d bs"
      proof
        assume "\<exists>c' k' bs''. c' \<noteq> c \<and> G c' = Some (Chunk k' bs'') \<and> b \<in> used ?d bs''"
        then show ?thesis using blk(2) by (auto simp: live_def used_def)
      next
        assume "\<exists>n. G b = Some (Direct n)"
        then obtain n where n: "G b = Some (Direct n)" by blast
        have "b \<notin> set bs"
        proof
          assume "b \<in> set bs"
          note r = chunk_block[OF inv_chunk[OF inv c] this]
          have "b = c" using inv_apart[OF inv c n, of b] r inv_direct[OF inv n] by auto
          then show False using c n by simp
        qed
        then show ?thesis using n by (auto simp: live_def used_def)
      qed
    next
      assume h: "b \<in> live G ?d \<and> b \<notin> used ?d bs"
      then consider n where "G b = Some (Direct n)" | c0 k0 bs0 where "G c0 = Some (Chunk k0 bs0)" "b \<in> used ?d bs0"
        by (auto simp: live_def)
      then show "(\<exists>c' k' bs''. c' \<noteq> c \<and> G c' = Some (Chunk k' bs'') \<and> b \<in> used ?d bs'') \<or> (\<exists>n. G b = Some (Direct n))"
      proof cases
        case 2
        moreover then have "c0 \<noteq> c" using c h by auto
        ultimately show ?thesis by blast
      qed blast
    qed
    ultimately show ?thesis by blast
  qed
  have E: "extent ?G ?d' b = extent G ?d b" if "\<not> (c \<le> b \<and> b < c + MEM_CHUNK_GROW_SIZE)" for b
  proof -
    have "b \<noteq> c" "?d' b = ?d b" using that out by (auto simp: MEM_CHUNK_GROW_SIZE_def)
    then show ?thesis using tot_same[of ?d' b ?d] by (auto simp: extent_def split: option.split region.split)
  qed
  have "pool_inv ?G s'" unfolding pool_inv_def by (intro conjI) (rule R, rule P, rule C, rule D, rule M)
  then show ?thesis using L E by (intro conjI allI impI)
qed

end
