(* ===== verification/Kupl_Mpool_Ops.thy ===== *)
theory Kupl_Mpool_Ops
  imports Kupl_Mpool_Heap
begin

text \<open>
  What the operations of the normal layer do to the buffers in use: an allocation adds one, a return
  by the owner removes one, and nothing else changes.
\<close>

section \<open>Free lists\<close>

lemma bins_count [simp]: "bins_ok d (count_bin f i m) FR = bins_ok d m FR"
  by (simp add: bins_ok_def count_bin_def)

lemma count_simps [simp]:
  "km_eid (count_bin f i m) = km_eid m" "km_sync_list (count_bin f i m) = km_sync_list m" "km_bins (count_bin f i m) = km_bins m"
  "km_eid (list_del a m) = km_eid m" "km_sync_list (list_del a m) = km_sync_list m"
  by (simp_all add: count_bin_def list_del_def)

lemma bins_del:
  assumes "bins_ok d m FR" and "\<forall>a\<in>FR - {b}. tot d' a = tot d a"
  shows "bins_ok d' (list_del b m) (FR - {b})"
  using assms by (auto simp: bins_ok_def list_del_def)

lemma bins_ins:
  assumes "bins_ok d m FR" and "b \<notin> FR"
  shows "bins_ok d (m\<lparr>km_bins := (km_bins m)(mem_bin (tot d b) := b # km_bins m (mem_bin (tot d b)))\<rparr>) (insert b FR)"
  using assms by (auto simp: bins_ok_def)

lemma bins_cong: "bins_ok d m FR \<Longrightarrow> \<forall>a\<in>FR. tot d' a = tot d a \<Longrightarrow> bins_ok d' m FR"
  unfolding bins_ok_def by (metis (mono_tags, lifting) Collect_cong)

section \<open>Taking a free buffer\<close>

definition rf :: "descs \<Rightarrow> addr \<Rightarrow> 16 word" where
  "rf d b = (case d b of None \<Rightarrow> 0 | Some x \<Rightarrow> bd_ref x)"

text \<open>
  One more buffer in use, with at least \<open>act\<close> bytes.  Every buffer in use stays in a region of its
  pool (of high bandwidth or not): \<open>home\<close>.
\<close>

definition home :: "regions \<Rightarrow> bool \<Rightarrow> addr \<Rightarrow> bool" where
  "home G f z \<longleftrightarrow> (\<exists>c r. G c = Some r \<and> c \<le> z \<and> z < c + reg_len r \<and>
     (case r of Chunk k bs \<Rightarrow> mr_hbw k = f | Direct n \<Rightarrow> True))"

lemma home_chunk: "G c = Some (Chunk k bs) \<Longrightarrow> home G f z \<Longrightarrow> home (G(c \<mapsto> Chunk k bs')) f z"
  unfolding home_def
proof -
  assume c: "G c = Some (Chunk k bs)" and "\<exists>c r. G c = Some r \<and> c \<le> z \<and> z < c + reg_len r \<and>
     (case r of Chunk k bs \<Rightarrow> mr_hbw k = f | Direct n \<Rightarrow> True)"
  then obtain c0 r where 1: "G c0 = Some r" "c0 \<le> z" "z < c0 + reg_len r"
    "case r of Chunk k bs \<Rightarrow> mr_hbw k = f | Direct n \<Rightarrow> True" by blast
  show "\<exists>c0 r. (G(c \<mapsto> Chunk k bs')) c0 = Some r \<and> c0 \<le> z \<and> z < c0 + reg_len r \<and>
     (case r of Chunk k bs \<Rightarrow> mr_hbw k = f | Direct n \<Rightarrow> True)"
  proof (cases "c0 = c")
    case True
    then show ?thesis using 1 c by (intro exI[of _ c] exI[of _ "Chunk k bs'"]) auto
  next
    case False
    then show ?thesis using 1 by (intro exI[of _ c0] exI[of _ r]) simp
  qed
qed

lemma home_region: "G c = Some r \<Longrightarrow> c \<le> z \<Longrightarrow> z < c + reg_len r \<Longrightarrow>
    (case r of Chunk k bs \<Rightarrow> mr_hbw k = f | Direct n \<Rightarrow> True) \<Longrightarrow> home G f z"
  unfolding home_def by blast

lemma home_add: "G a = None \<Longrightarrow> home G f z \<Longrightarrow> home (G(a \<mapsto> r)) f z"
  unfolding home_def by (metis fun_upd_apply option.distinct(1))

definition grows :: "regions \<Rightarrow> mpool \<Rightarrow> bool \<Rightarrow> int \<Rightarrow> addr \<Rightarrow> regions \<Rightarrow> mpool \<Rightarrow> bool" where
  "grows G s f act u G' s' \<longleftrightarrow> pool_inv G' s' \<and> home G' f u \<and> (\<forall>g. \<forall>z\<in>live G (mp_desc s). home G g z \<longrightarrow> home G' g z) \<and> u \<notin> live G (mp_desc s) \<and>
     live G' (mp_desc s') = insert u (live G (mp_desc s)) \<and> act \<le> extent G' (mp_desc s') u \<and> rf (mp_desc s') u = 1 \<and>
     (\<forall>b\<in>live G (mp_desc s). extent G' (mp_desc s') b = extent G (mp_desc s) b \<and> rf (mp_desc s') b = rf (mp_desc s) b)"

lemma free_block:
  assumes inv: "pool_inv G s" and b: "b \<in> free_of G (mp_desc s) k"
  obtains c bs xs ys x where "G c = Some (Chunk k bs)" "bs = xs @ b # ys" "chunk_ok (mp_desc s) k c bs"
    "mp_desc s b = Some x" "0 < bd_total x" "bd_eid x = mr_eid k" "0 \<le> bd_bin x" "distinct bs"
    "\<exists>nd. mp_desc s (b + bd_total x) = Some nd" "c \<le> b" "b + bd_total x < c + MEM_CHUNK_GROW_SIZE"
    "free_of G (mp_desc s) k - frees (mp_desc s) bs \<union> frees (mp_desc s) bs = free_of G (mp_desc s) k"
proof -
  let ?d = "mp_desc s"
  obtain c bs where c: "G c = Some (Chunk k bs)" "b \<in> frees ?d bs" using b by (auto simp: free_of_def)
  then have bb: "b \<in> set bs" "0 < tot ?d b" by (simp_all add: frees_def)
  then obtain xs ys where bs: "bs = xs @ b # ys" using split_list by fast
  have ck: "chunk_ok ?d k c bs" by (rule inv_chunk[OF inv c(1)])
  then obtain x where x: "?d b = Some x" "bd_eid x = mr_eid k" "0 \<le> bd_bin x" using bb(1) unfolding chunk_ok_def by blast
  have T: "tot ?d b = bd_total x" using x by (simp add: tot_def)
  have "tiles ?d 0 c (xs @ b # ys) (c + (MEM_CHUNK_GROW_SIZE - BUFFER_DESC))" using ck bs by (simp add: chunk_ok_def)
  then obtain p m where "tiles ?d p m (b # ys) (c + (MEM_CHUNK_GROW_SIZE - BUFFER_DESC))" unfolding tiles_append by blast
  then have t: "tiles ?d (bd_total x) (b + bd_total x) ys (c + (MEM_CHUNK_GROW_SIZE - BUFFER_DESC))" using bb(2) T by simp
  then have n: "\<exists>nd. ?d (b + bd_total x) = Some nd" using tiles_hd by blast
  have r: "c \<le> b" "b + bd_total x < c + MEM_CHUNK_GROW_SIZE"
    using chunk_block[OF ck bb(1)] bb(2) T by (auto simp: mem_sizes)
  have "frees ?d bs \<subseteq> free_of G ?d k" using c(1) by (auto simp: free_of_def)
  moreover have "distinct bs" using ck tiles_range unfolding chunk_ok_def by blast
  ultimately show ?thesis using that[OF c(1) bs ck x(1)] x(2,3) bb(2) T n r by auto
qed

lemma extent_chunk:
  assumes "pool_inv G s" and "G c = Some (Chunk k bs)" and "b \<in> set bs"
  shows "extent G (mp_desc s) b = \<bar>tot (mp_desc s) b\<bar>"
proof -
  note r = chunk_block[OF inv_chunk[OF assms(1,2)] assms(3)]
  have "\<not> (\<exists>n. G b = Some (Direct n))"
  proof
    assume "\<exists>n. G b = Some (Direct n)"
    then obtain n where n: "G b = Some (Direct n)" by blast
    have "c = b" using inv_apart[OF assms(1,2) n, of b] r inv_direct[OF assms(1) n] by simp
    then show False using n assms(2) by simp
  qed
  then show ?thesis by (auto simp: extent_def split: option.split region.split)
qed

text \<open>The effect on the set in use, from the effect on one chunk.\<close>

lemma grows_chunk:
  assumes inv: "pool_inv G s" and c: "G c = Some (Chunk k bs)"
    and step: "pool_inv (G(c \<mapsto> Chunk k bs')) s' \<and>
      live (G(c \<mapsto> Chunk k bs')) (mp_desc s') = live G (mp_desc s) - used (mp_desc s) bs \<union> used (mp_desc s') bs' \<and>
      (\<forall>b. \<not> (c \<le> b \<and> b < c + MEM_CHUNK_GROW_SIZE) \<longrightarrow> extent (G(c \<mapsto> Chunk k bs')) (mp_desc s') b = extent G (mp_desc s) b)"
    and u: "u \<in> set bs'" "tot (mp_desc s') u < 0" "u \<notin> used (mp_desc s) bs" "act \<le> - tot (mp_desc s') u" "rf (mp_desc s') u = 1"
    and us: "used (mp_desc s') bs' = insert u (used (mp_desc s) bs)"
    and out: "\<forall>a. \<not> (c \<le> a \<and> a < c + MEM_CHUNK_GROW_SIZE) \<longrightarrow> mp_desc s' a = mp_desc s a"
    and same: "\<forall>b\<in>used (mp_desc s) bs. tot (mp_desc s') b = tot (mp_desc s) b \<and> rf (mp_desc s') b = rf (mp_desc s) b"
  shows "grows G s (mr_hbw k) act u (G(c \<mapsto> Chunk k bs')) s'"
proof -
  let ?G = "G(c \<mapsto> Chunk k bs')" and ?d = "mp_desc s" and ?d' = "mp_desc s'"
  have inv': "pool_inv ?G s'" using step by blast
  have L: "live ?G ?d' = live G ?d - used ?d bs \<union> used ?d' bs'" using step by blast
  have sub: "used ?d bs \<subseteq> live G ?d" using c by (auto simp: live_def)
  have L2: "live ?G ?d' = insert u (live G ?d)" using L us sub by blast
  have eu: "extent ?G ?d' u = - tot ?d' u" using extent_chunk[OF inv', of c k bs' u] u(1,2) by simp
  have uc: "c \<le> u" "u < c + MEM_CHUNK_GROW_SIZE"
    using chunk_block[OF inv_chunk[OF inv', of c k bs'] u(1)] by simp_all
  have inchunk: "b \<in> used ?d bs" if b: "b \<in> live G ?d" "c \<le> b" "b < c + MEM_CHUNK_GROW_SIZE" for b
  proof -
    obtain a r where a: "G a = Some r" "a \<le> b" "b + extent G ?d b \<le> a + reg_len r" "0 < extent G ?d b"
      "case r of Chunk k bs \<Rightarrow> b \<in> used ?d bs \<and> extent G ?d b = \<bar>tot ?d b\<bar> | Direct n \<Rightarrow> a = b \<and> extent G ?d b = n"
      using live_block[OF inv b(1)] by blast
    have "a = c" using inv_apart[OF inv a(1) c, of b] a b by simp
    then have "r = Chunk k bs" using a(1) c by simp
    then show ?thesis using a(5) by simp
  qed
  have "u \<notin> live G ?d" using inchunk uc u(3) by blast
  moreover have "extent ?G ?d' b = extent G ?d b \<and> rf ?d' b = rf ?d b" if b: "b \<in> live G ?d" for b
  proof (cases "c \<le> b \<and> b < c + MEM_CHUNK_GROW_SIZE")
    case True
    then have ub: "b \<in> used ?d bs" using inchunk b by blast
    then have "b \<in> set bs'" using us by (auto simp: used_def)
    then show ?thesis using ub same extent_chunk[OF inv c, of b] extent_chunk[OF inv', of c k bs' b] by (auto simp: used_def)
  next
    case False
    then have "?d' b = ?d b" using out by blast
    then show ?thesis using step False by (simp add: rf_def)
  qed
  moreover have "home ?G (mr_hbw k) u" by (rule home_region[of _ c "Chunk k bs'"]) (use uc in simp_all)
  ultimately show ?thesis unfolding grows_def using inv' L2 eu u(4,5) home_chunk[of G c k bs, OF c] by simp
qed

lemma take_split_ok:
  assumes inv: "pool_inv G s" and m: "get_mem k s = Some m" and b: "b \<in> free_of G (mp_desc s) k" and x: "mp_desc s b = Some x"
    and act: "BUFFER_DESC \<le> act" "BUFFER_DESC + 16 \<le> bd_total x - act"
  shows "\<exists>s' G'. take_split k b x act idx s = Some (b + bd_total x - act + BUFFER_DESC, s') \<and>
    grows G s (mr_hbw k) act (b + bd_total x - act) G' s'"
proof -
  let ?d = "mp_desc s" and ?T = "bd_total x"
  obtain c bs xs ys x' where c: "G c = Some (Chunk k bs)" "bs = xs @ b # ys" "chunk_ok ?d k c bs"
    "?d b = Some x'" "0 < bd_total x'" "bd_eid x' = mr_eid k" "0 \<le> bd_bin x'" "distinct bs"
    "\<exists>nd. ?d (b + bd_total x') = Some nd" "c \<le> b" "b + bd_total x' < c + MEM_CHUNK_GROW_SIZE"
    "free_of G ?d k - frees ?d bs \<union> frees ?d bs = free_of G ?d k" using free_block[OF inv b] .
  have xx: "x' = x" using c(4) x by simp
  obtain nd where nd: "?d (b + ?T) = Some nd" using c(9) xx by blast
  define u where "u = b + ?T - act"
  define y where "y = \<lparr>bd_eid = bd_eid x, bd_ref = 1, bd_bin = bd_bin x, bd_total = - act, bd_prev_free = ?T - act\<rparr>"
  define i where "i = mem_bin (?T - act)"
  have u: "b < u" "u < b + ?T" using act by (auto simp: u_def BUFFER_DESC_def)
  let ?d1 = "?d(b := Some (x\<lparr>bd_total := ?T - act\<rparr>), u := Some y, b + ?T := Some (nd\<lparr>bd_prev_free := 0\<rparr>))"
  define D where "D = ?d1(b := Some (x\<lparr>bd_total := ?T - act, bd_bin := int i\<rparr>))"
  let ?m1 = "count_bin (\<lambda>n. n - 1) idx (list_del b m)"
  let ?m2 = "count_bin (\<lambda>n. n + 1) i (?m1\<lparr>km_bins := (km_bins ?m1)(i := b # km_bins ?m1 i)\<rparr>)"
  let ?s = "(put_mem k ?m2 s)\<lparr>mp_desc := D\<rparr>"
  have pd: "put_desc a z w = w\<lparr>mp_desc := (mp_desc w)(a := Some z)\<rparr>" for a z w by (simp add: put_desc_def)
  have pm: "put_mem k n (w\<lparr>mp_desc := e\<rparr>) = (put_mem k n w)\<lparr>mp_desc := e\<rparr>" for n w e by (simp add: put_mem_def)
  have call: "take_split k b x act idx s = Some (u + BUFFER_DESC, ?s)"
  proof -
    have ua: "u + act = b + ?T" by (simp add: u_def)
    have ne: "b + ?T \<noteq> b" "b + ?T \<noteq> u" "u \<noteq> b" using u by auto
    let ?w = "put_desc u y (put_desc b (x\<lparr>bd_total := ?T - act\<rparr>) s)"
    have n0: "mp_desc ?w (b + ?T) = Some nd" using ne nd by simp
    have "take_split k b x act idx s = Option.bind (del_free k b idx (put_desc (b + ?T) (nd\<lparr>bd_prev_free := 0\<rparr>) ?w))
        (\<lambda>s. Option.bind (kupl_normal_insert_into_freelist k b s) (\<lambda>s. Some (u + BUFFER_DESC, s)))"
      unfolding take_split_def Let_def using n0 by (simp add: u_def[symmetric] ua y_def[symmetric] del: mem_simps)
    also have "\<dots> = Some (u + BUFFER_DESC, ?s)"
      using m ne fun_upd_twist[of b u ?d] fun_upd_twist[of b "b + ?T" "?d(u := Some y)"]
      by (simp add: del_free_def kupl_normal_insert_into_freelist_def Let_def i_def[symmetric] pd pm D_def)
    finally show ?thesis .
  qed
  have t: "tiles ?d 0 c (xs @ b # ys) (c + (MEM_CHUNK_GROW_SIZE - BUFFER_DESC))" using c(2,3) by (simp add: chunk_ok_def)
  have T1: "BUFFER_DESC \<le> ?T - act" using act by simp
  have cut: "tiles ?d1 0 c (xs @ b # u # ys) (c + (MEM_CHUNK_GROW_SIZE - BUFFER_DESC))"
    "u \<notin> insert (c + (MEM_CHUNK_GROW_SIZE - BUFFER_DESC)) (set (xs @ b # ys))"
    using tiles_cut[OF t x refl T1 act(1), of y nd] nd by (simp_all add: y_def u_def)
  let ?bs = "xs @ b # u # ys"
  have "\<forall>z. tag D z = tag ?d1 z" using u by (auto simp: tag_def D_def)
  then have t2: "tiles D 0 c ?bs (c + (MEM_CHUNK_GROW_SIZE - BUFFER_DESC))" using cut(1) tiles_tag[of _ ?bs D ?d1] by blast
  have ub: "u \<notin> set bs" using cut(2) c(2) by simp
  have tot2: "tot D z = (if z = b then ?T - act else if z = u then - act else tot ?d z)" for z
    using u nd by (simp add: tot_def y_def D_def)
  have tb: "tot ?d b = ?T" using x by (simp add: tot_def)
  have ok: "chunk_ok D k c ?bs"
  proof -
    have "\<exists>w. D z = Some w \<and> bd_eid w = mr_eid k \<and> 0 \<le> bd_bin w" if z: "z \<in> set ?bs" for z
    proof -
      have ex: "\<forall>z\<in>set bs. \<exists>w. ?d z = Some w \<and> bd_eid w = mr_eid k \<and> 0 \<le> bd_bin w" using c(3) by (simp add: chunk_ok_def)
      show ?thesis
      proof (cases "z = b + ?T")
        case True
        then have "z \<in> set bs" using z u c(2) by auto
        then have "bd_eid nd = mr_eid k \<and> 0 \<le> bd_bin nd" using ex nd True by auto
        then show ?thesis using True u by (simp add: D_def)
      next
        case False
        then show ?thesis using z ex c(2,6,7) xx u by (auto simp: y_def D_def)
      qed
    qed
    then show ?thesis using t2 by (simp add: chunk_ok_def)
  qed
  have pos: "0 < ?T - act" "0 < act" "0 < ?T" using act by (auto simp: BUFFER_DESC_def)
  have fr: "frees D ?bs = frees ?d bs" using ub pos tb by (auto simp: frees_def tot2 c(2))
  have us: "used D ?bs = insert u (used ?d bs)" using ub pos tb by (auto simp: used_def tot2 c(2))
  have bFR: "insert b (free_of G ?d k - {b}) = free_of G ?d k" using b by blast
  have uFR: "u \<notin> free_of G ?d k"
  proof
    assume "u \<in> free_of G ?d k"
    then obtain c' bs' where c': "G c' = Some (Chunk k bs')" "u \<in> set bs'" by (auto simp: free_of_def frees_def)
    note r = chunk_block[OF inv_chunk[OF inv c'(1)] c'(2)]
    have "c = c'" using inv_apart[OF inv c(1) c'(1), of u] r u c(10,11) xx by simp
    then show False using c' c(1) ub by simp
  qed
  have bins: "bins_ok D ?m2 (free_of G ?d k)"
  proof -
    have "bins_ok ?d m (free_of G ?d k)" using inv_mem[OF inv m] by blast
    moreover have "\<forall>a\<in>free_of G ?d k - {b}. tot D a = tot ?d a" using uFR by (auto simp: tot2)
    ultimately have "bins_ok D ?m1 (free_of G ?d k - {b})" using bins_del by simp
    from bins_ins[OF this, of b] show ?thesis using bFR by (simp add: tot2 i_def[symmetric] del: km_bins_def)
  qed
  have out: "\<forall>a. \<not> (c \<le> a \<and> a < c + MEM_CHUNK_GROW_SIZE) \<longrightarrow> mp_desc ?s a = ?d a"
    using u c(10,11) xx by (auto simp: D_def)
  have lim: "\<forall>z\<in>set bs. limbo ?d z \<longrightarrow> z \<in> set ?bs \<and> limbo D z"
  proof (intro ballI impI)
    fix z assume z: "z \<in> set bs" "limbo ?d z"
    then have "z \<noteq> b" "z \<noteq> u" using ub pos x by (auto simp: limbo_def)
    then show "z \<in> set ?bs \<and> limbo D z" using z nd by (auto simp: limbo_def c(2) D_def)
  qed
  have step: "pool_inv (G(c \<mapsto> Chunk k ?bs)) ?s \<and>
      live (G(c \<mapsto> Chunk k ?bs)) (mp_desc ?s) = live G ?d - used ?d bs \<union> used (mp_desc ?s) ?bs \<and>
      (\<forall>b. \<not> (c \<le> b \<and> b < c + MEM_CHUNK_GROW_SIZE) \<longrightarrow> extent (G(c \<mapsto> Chunk k ?bs)) (mp_desc ?s) b = extent G ?d b)"
  proof (rule chunk_step[OF inv c(1) m out])
    show "bins_ok (mp_desc ?s) ?m2 (free_of G ?d k - frees ?d bs \<union> frees (mp_desc ?s) ?bs)" using bins fr c(12) by simp
  qed (use ok lim in \<open>simp_all add: get_put_mem\<close>)
  have same: "\<forall>z\<in>used ?d bs. tot (mp_desc ?s) z = tot ?d z \<and> rf (mp_desc ?s) z = rf ?d z"
  proof
    fix z assume "z \<in> used ?d bs"
    then have z: "z \<noteq> b" "z \<noteq> u" using ub pos tb by (auto simp: used_def)
    then have "rf D z = rf ?d z" using nd by (simp add: rf_def D_def)
    then show "tot (mp_desc ?s) z = tot ?d z \<and> rf (mp_desc ?s) z = rf ?d z" using z by (simp add: tot2)
  qed
  have "grows G s (mr_hbw k) act u (G(c \<mapsto> Chunk k ?bs)) ?s"
  proof (rule grows_chunk[OF inv c(1) step _ _ _ _ _ _ out same])
    show "u \<notin> used ?d bs" using ub by (simp add: used_def)
    show "rf (mp_desc ?s) u = 1" using u by (simp add: rf_def y_def D_def)
  qed (use us pos u tot2[of u] in simp_all)
  then show ?thesis using call unfolding u_def by blast
qed

lemma take_whole_ok:
  assumes inv: "pool_inv G s" and m: "get_mem k s = Some m" and b: "b \<in> free_of G (mp_desc s) k" and x: "mp_desc s b = Some x"
    and act: "0 < act" "act \<le> bd_total x"
  shows "\<exists>s' G'. take_whole k b x idx s = Some (b + BUFFER_DESC, s') \<and> grows G s (mr_hbw k) act b G' s'"
proof -
  let ?d = "mp_desc s" and ?T = "bd_total x"
  obtain c bs xs ys x' where c: "G c = Some (Chunk k bs)" "bs = xs @ b # ys" "chunk_ok ?d k c bs"
    "?d b = Some x'" "0 < bd_total x'" "bd_eid x' = mr_eid k" "0 \<le> bd_bin x'" "distinct bs"
    "\<exists>nd. ?d (b + bd_total x') = Some nd" "c \<le> b" "b + bd_total x' < c + MEM_CHUNK_GROW_SIZE"
    "free_of G ?d k - frees ?d bs \<union> frees ?d bs = free_of G ?d k" using free_block[OF inv b] .
  have xx: "x' = x" using c(4) x by simp
  have pos: "0 < ?T" using c(5) xx by simp
  obtain nd where nd: "?d (b + ?T) = Some nd" using c(9) xx by blast
  define y where "y = x\<lparr>bd_total := - ?T, bd_prev_free := 0, bd_ref := 1\<rparr>"
  define D where "D = ?d(b + ?T := Some (nd\<lparr>bd_prev_free := 0\<rparr>), b := Some y)"
  let ?m1 = "count_bin (\<lambda>n. n - 1) idx (list_del b m)"
  let ?s = "(put_mem k ?m1 s)\<lparr>mp_desc := D\<rparr>"
  have call: "take_whole k b x idx s = Some (b + BUFFER_DESC, ?s)"
    using nd m by (simp add: take_whole_def del_free_def y_def[symmetric] D_def put_desc_def put_mem_def)
  have t: "tiles ?d 0 c (xs @ b # ys) (c + (MEM_CHUNK_GROW_SIZE - BUFFER_DESC))" using c(2,3) by (simp add: chunk_ok_def)
  have t2: "tiles D 0 c bs (c + (MEM_CHUNK_GROW_SIZE - BUFFER_DESC))"
    using tiles_use[OF t x refl pos, of y nd] nd c(2) by (simp add: y_def D_def)
  have tot2: "tot D z = (if z = b then - ?T else tot ?d z)" for z using nd pos by (simp add: tot_def y_def D_def)
  have tb: "tot ?d b = ?T" using x by (simp add: tot_def)
  have ok: "chunk_ok D k c bs"
  proof -
    have ex: "\<forall>z\<in>set bs. \<exists>w. ?d z = Some w \<and> bd_eid w = mr_eid k \<and> 0 \<le> bd_bin w" using c(3) by (simp add: chunk_ok_def)
    have "\<exists>w. D z = Some w \<and> bd_eid w = mr_eid k \<and> 0 \<le> bd_bin w" if z: "z \<in> set bs" for z
    proof (cases "z = b + ?T")
      case True
      then have "bd_eid nd = mr_eid k \<and> 0 \<le> bd_bin nd" using ex nd z by auto
      then show ?thesis using True pos by (simp add: D_def)
    next
      case False
      then show ?thesis using z ex c(6,7) xx by (auto simp: y_def D_def)
    qed
    then show ?thesis using t2 by (simp add: chunk_ok_def)
  qed
  have bbs: "b \<in> set bs" by (simp add: c(2))
  have fr: "frees D bs = frees ?d bs - {b}" using pos tb by (auto simp: frees_def tot2)
  have us: "used D bs = insert b (used ?d bs)" using pos tb bbs by (auto simp: used_def tot2)
  have bf: "b \<in> frees ?d bs" using pos tb bbs by (simp add: frees_def)
  have bins: "bins_ok D ?m1 (free_of G ?d k - frees ?d bs \<union> frees D bs)"
  proof -
    have "bins_ok ?d m (free_of G ?d k)" using inv_mem[OF inv m] by blast
    then have "bins_ok D ?m1 (free_of G ?d k - {b})" using bins_del[of ?d m "free_of G ?d k" b D] by (simp add: tot2)
    moreover have "free_of G ?d k - frees ?d bs \<union> frees D bs = free_of G ?d k - {b}" using fr bf c(12) by blast
    ultimately show ?thesis by simp
  qed
  have out: "\<forall>a. \<not> (c \<le> a \<and> a < c + MEM_CHUNK_GROW_SIZE) \<longrightarrow> mp_desc ?s a = ?d a"
    using c(10,11) xx pos by (auto simp: D_def)
  have lim: "\<forall>z\<in>set bs. limbo ?d z \<longrightarrow> z \<in> set bs \<and> limbo D z"
    using pos x nd by (auto simp: limbo_def D_def)
  have step: "pool_inv (G(c \<mapsto> Chunk k bs)) ?s \<and>
      live (G(c \<mapsto> Chunk k bs)) (mp_desc ?s) = live G ?d - used ?d bs \<union> used (mp_desc ?s) bs \<and>
      (\<forall>b. \<not> (c \<le> b \<and> b < c + MEM_CHUNK_GROW_SIZE) \<longrightarrow> extent (G(c \<mapsto> Chunk k bs)) (mp_desc ?s) b = extent G ?d b)"
  proof (rule chunk_step[OF inv c(1) m out])
    show "bins_ok (mp_desc ?s) ?m1 (free_of G ?d k - frees ?d bs \<union> frees (mp_desc ?s) bs)" using bins by simp
  qed (use ok lim in \<open>simp_all add: get_put_mem\<close>)
  have same: "\<forall>z\<in>used ?d bs. tot (mp_desc ?s) z = tot ?d z \<and> rf (mp_desc ?s) z = rf ?d z"
  proof
    fix z assume "z \<in> used ?d bs"
    then have z: "z \<noteq> b" using pos tb by (auto simp: used_def)
    then have "rf D z = rf ?d z" using nd by (simp add: rf_def D_def)
    then show "tot (mp_desc ?s) z = tot ?d z \<and> rf (mp_desc ?s) z = rf ?d z" using z by (simp add: tot2)
  qed
  have "grows G s (mr_hbw k) act b (G(c \<mapsto> Chunk k bs)) ?s"
  proof (rule grows_chunk[OF inv c(1) step _ _ _ _ _ _ out same])
    show "b \<notin> used ?d bs" using pos tb by (simp add: used_def)
    show "rf (mp_desc ?s) b = 1" by (simp add: rf_def y_def D_def)
  qed (use us pos act bbs tot2[of b] in simp_all)
  then show ?thesis using call by blast
qed

section \<open>Searching the free lists\<close>

lemma travel_list_ok:
  assumes inv: "pool_inv G s" and m: "get_mem k s = Some m" and act: "BUFFER_DESC \<le> act"
    and bs: "set bs \<subseteq> free_of G (mp_desc s) k"
  shows "\<exists>r s'. kupl_normal_travel_list k bs act i s = Some (r, s') \<and>
    (r = None \<longrightarrow> s' = s \<and> (\<forall>b\<in>set bs. tot (mp_desc s) b < act)) \<and>
    (\<forall>p. r = Some p \<longrightarrow> (\<exists>G'. grows G s (mr_hbw k) act (p - BUFFER_DESC) G' s'))"
  using bs
proof (induction bs)
  case (Cons b bs)
  then have b: "b \<in> free_of G (mp_desc s) k" by simp
  obtain x where x: "mp_desc s b = Some x" using free_block[OF inv b] by metis
  show ?case
  proof (cases "act \<le> bd_total x")
    case fits: True
    show ?thesis
    proof (cases "BUFFER_DESC + 16 \<le> bd_total x - act")
      case True
      from take_split_ok[OF inv m b x act True, of i] obtain s' G' where
        "take_split k b x act i s = Some (b + bd_total x - act + BUFFER_DESC, s')" "grows G s (mr_hbw k) act (b + bd_total x - act) G' s'" by blast
      then show ?thesis using x fits True by auto
    next
      case False
      have "0 < act" using act by (simp add: BUFFER_DESC_def)
      from take_whole_ok[OF inv m b x this fits, of i] obtain s' G' where
        "take_whole k b x i s = Some (b + BUFFER_DESC, s')" "grows G s (mr_hbw k) act b G' s'" by blast
      then show ?thesis using x fits False by auto
    qed
  next
    case False
    have "kupl_normal_travel_list k (b # bs) act i s = kupl_normal_travel_list k bs act i s" using x False by simp
    moreover have "tot (mp_desc s) b < act" using x False by (simp add: tot_def)
    ultimately show ?thesis using Cons by simp
  qed
qed simp

lemma search_bins_ok:
  assumes inv: "pool_inv G s" and m: "get_mem k s = Some m" and act: "BUFFER_DESC \<le> act"
  shows "\<exists>r s'. search_bins k is act s = Some (r, s') \<and>
    (r = None \<longrightarrow> s' = s \<and> (\<forall>b\<in>free_of G (mp_desc s) k. mem_bin (tot (mp_desc s) b) \<in> set is \<longrightarrow> tot (mp_desc s) b < act)) \<and>
    (\<forall>p. r = Some p \<longrightarrow> (\<exists>G'. grows G s (mr_hbw k) act (p - BUFFER_DESC) G' s'))"
proof (induction "is")
  case (Cons i "is")
  have bi: "set (km_bins m i) = {a \<in> free_of G (mp_desc s) k. mem_bin (tot (mp_desc s) a) = i}"
    using inv_mem[OF inv m] by (simp add: bins_ok_def)
  then have "set (km_bins m i) \<subseteq> free_of G (mp_desc s) k" by blast
  from travel_list_ok[OF inv m act this, of i] obtain r s' where
    t: "kupl_normal_travel_list k (km_bins m i) act i s = Some (r, s')"
    "r = None \<longrightarrow> s' = s \<and> (\<forall>b\<in>set (km_bins m i). tot (mp_desc s) b < act)"
    "\<forall>p. r = Some p \<longrightarrow> (\<exists>G'. grows G s (mr_hbw k) act (p - BUFFER_DESC) G' s')" by blast
  show ?case
  proof (cases r)
    case None
    then have "search_bins k (i # is) act s = search_bins k is act s" using t m by simp
    moreover have "\<forall>b\<in>free_of G (mp_desc s) k. mem_bin (tot (mp_desc s) b) = i \<longrightarrow> tot (mp_desc s) b < act"
      using t(2) None bi by blast
    ultimately show ?thesis using Cons.IH by fastforce
  next
    case (Some p)
    then show ?thesis using t m by auto
  qed
qed simp

end
