(* ===== verification/Kupl_Mpool_Alloc.thy ===== *)
theory Kupl_Mpool_Alloc
  imports Kupl_Mpool_Ops
begin

text \<open>
  Allocation in the normal layer: it returns, keeps the invariant, and the buffer it hands out is apart
  from all buffers in use.
\<close>

section \<open>A new region\<close>

definition new_frees :: "region \<Rightarrow> descs \<Rightarrow> mem_ref \<Rightarrow> addr set" where
  "new_frees r d k' = (case r of Chunk k bs \<Rightarrow> if k' = k then frees d bs else {} | Direct n \<Rightarrow> {})"

definition new_live :: "region \<Rightarrow> descs \<Rightarrow> addr \<Rightarrow> addr set" where
  "new_live r d a = (case r of Chunk k bs \<Rightarrow> used d bs | Direct n \<Rightarrow> {a})"

definition region_ok :: "region \<Rightarrow> mpool \<Rightarrow> addr \<Rightarrow> bool" where
  "region_ok r s a \<longleftrightarrow> (case r of Chunk k bs \<Rightarrow> chunk_ok (mp_desc s) k a bs \<and> get_mem k s \<noteq> None
     | Direct n \<Rightarrow> 0 < n \<and> (\<exists>x. mp_desc s a = Some x \<and> bd_bin x < 0 \<and> 0 < bd_total x \<and> page_up (bd_total x) = n))"

lemma inv_region_ok: "pool_inv G s \<Longrightarrow> G a = Some r \<Longrightarrow> region_ok r s a"
  unfolding region_ok_def using inv_chunk inv_chunk_mem inv_direct by (cases r) fastforce+

lemma region_ok_cong:
  assumes "region_ok r s a" and "\<forall>x. a \<le> x \<and> x < a + reg_len r \<longrightarrow> mp_desc s' x = mp_desc s x"
    and "\<forall>k. get_mem k s \<noteq> None \<longrightarrow> get_mem k s' \<noteq> None"
  shows "region_ok r s' a"
proof (cases r)
  case (Chunk k bs)
  then have ck: "chunk_ok (mp_desc s) k a bs" using assms(1) by (simp add: region_ok_def)
  have "\<forall>b\<in>insert (a + (MEM_CHUNK_GROW_SIZE - BUFFER_DESC)) (set bs). mp_desc s b = mp_desc s' b"
    using chunk_block[OF ck] assms(2) Chunk by (auto simp: mem_sizes)
  then have "chunk_ok (mp_desc s') k a bs" using ck tiles_cong[of _ bs "mp_desc s" "mp_desc s'"] by (auto simp: chunk_ok_def)
  then show ?thesis using Chunk assms(1,3) by (simp add: region_ok_def)
next
  case (Direct n)
  then show ?thesis using assms(1,2) by (auto simp: region_ok_def)
qed

lemma inv_same_bins:
  assumes "\<forall>b\<in>FR. d' b = d b" and "bins_ok d m FR"
  shows "bins_ok d' m FR"
  by (rule bins_cong[OF assms(2)]) (use assms(1) in \<open>simp add: tot_def\<close>)

lemma region_add:
  assumes inv: "pool_inv G s" and fresh: "\<forall>a' r'. G a' = Some r' \<longrightarrow> a + reg_len r \<le> a' \<or> a' + reg_len r' \<le> a"
    and len: "0 < reg_len r"
    and out: "\<forall>x. \<not> (a \<le> x \<and> x < a + reg_len r) \<longrightarrow> mp_desc s' x = mp_desc s x"
    and maps: "insert (a, reg_len r) (set (mp_maps s)) \<subseteq> set (mp_maps s')"
    and ok: "region_ok r s' a"
    and mem: "\<forall>k' m'. get_mem k' s' = Some m' \<longrightarrow> (\<exists>m. get_mem k' s = Some m \<and> km_eid m' = km_eid m \<and>
      km_sync_list m' = km_sync_list m \<and> bins_ok (mp_desc s') m' (free_of G (mp_desc s) k' \<union> new_frees r (mp_desc s') k'))"
    and mem2: "\<forall>k. get_mem k s \<noteq> None \<longrightarrow> get_mem k s' \<noteq> None"
  shows "pool_inv (G(a \<mapsto> r)) s' \<and> live (G(a \<mapsto> r)) (mp_desc s') = live G (mp_desc s) \<union> new_live r (mp_desc s') a \<and>
    (\<forall>b\<in>live G (mp_desc s). b \<noteq> a \<and> extent (G(a \<mapsto> r)) (mp_desc s') b = extent G (mp_desc s) b \<and> mp_desc s' b = mp_desc s b) \<and>
    (\<forall>k. free_of (G(a \<mapsto> r)) (mp_desc s') k = free_of G (mp_desc s) k \<union> new_frees r (mp_desc s') k) \<and> G a = None"
proof -
  let ?d = "mp_desc s" and ?d' = "mp_desc s'" and ?G = "G(a \<mapsto> r)"
  have same: "?d' x = ?d x" if "G a' = Some r'" "a' \<le> x" "x < a' + reg_len r'" for a' r' x
    using fresh that out by force
  have na: "G a = None"
  proof (rule ccontr)
    assume "G a \<noteq> None"
    then obtain r' where "G a = Some r'" by blast
    then show False using fresh reg_len_pos[OF inv] len by force
  qed
  have old: "?G a' = Some r'" if "G a' = Some r'" for a' r' using that na by auto
  have blk: "?d' b = ?d b" if "G c = Some (Chunk k bs)" "b \<in> set bs" for c k bs b
    using same[OF that(1)] chunk_block[OF inv_chunk[OF inv that(1)] that(2)] by simp
  have fr: "frees ?d' bs = frees ?d bs" "used ?d' bs = used ?d bs" if "G c = Some (Chunk k bs)" for c k bs
    using blk[OF that] tot_same[of ?d' _ ?d] by (auto simp: frees_def used_def)
  have FR: "free_of ?G ?d' k = free_of G ?d k \<union> new_frees r ?d' k" for k
  proof -
    have "free_of G ?d k \<subseteq> free_of ?G ?d' k" unfolding free_of_def using old fr(1) by blast
    moreover have "new_frees r ?d' k \<subseteq> free_of ?G ?d' k" by (auto simp: new_frees_def free_of_def split: region.splits if_splits)
    moreover have "b \<in> free_of G ?d k \<union> new_frees r ?d' k" if b: "b \<in> free_of ?G ?d' k" for b
    proof -
      obtain c bs where c: "?G c = Some (Chunk k bs)" "b \<in> frees ?d' bs" using b unfolding free_of_def by blast
      show ?thesis
      proof (cases "c = a")
        case True
        then show ?thesis using c by (simp add: new_frees_def)
      next
        case False
        then have g: "G c = Some (Chunk k bs)" using c(1) by simp
        then have "b \<in> free_of G ?d k" using c(2) fr(1)[OF g] by (auto simp: free_of_def)
        then show ?thesis by simp
      qed
    qed
    ultimately show ?thesis by blast
  qed
  have L: "live ?G ?d' = live G ?d \<union> new_live r ?d' a"
  proof -
    have "b \<in> live ?G ?d'" if b: "b \<in> live G ?d" for b
    proof -
      consider c k bs where "G c = Some (Chunk k bs)" "b \<in> used ?d bs" | n where "G b = Some (Direct n)"
        using b unfolding live_def by blast
      then show ?thesis
      proof cases
        case 1
        then show ?thesis using old fr(2) unfolding live_def by blast
      next
        case 2
        then show ?thesis using old unfolding live_def by blast
      qed
    qed
    moreover have "new_live r ?d' a \<subseteq> live ?G ?d'" by (cases r) (auto simp: new_live_def live_def)
    moreover have "b \<in> live G ?d \<union> new_live r ?d' a" if b: "b \<in> live ?G ?d'" for b
    proof -
      consider c k bs where "?G c = Some (Chunk k bs)" "b \<in> used ?d' bs" | n where "?G b = Some (Direct n)"
        using b unfolding live_def by blast
      then show ?thesis
      proof cases
        case 1
        show ?thesis
        proof (cases "c = a")
          case True
          then show ?thesis using 1 by (simp add: new_live_def)
        next
          case False
          then have g: "G c = Some (Chunk k bs)" using 1(1) by simp
          then have "b \<in> live G ?d" using 1(2) fr(2)[OF g] unfolding live_def by blast
          then show ?thesis by simp
        qed
      next
        case 2
        then show ?thesis by (cases "b = a") (auto simp: new_live_def live_def)
      qed
    qed
    ultimately show ?thesis by blast
  qed
  have E: "b \<noteq> a \<and> extent ?G ?d' b = extent G ?d b \<and> ?d' b = ?d b" if b: "b \<in> live G ?d" for b
  proof -
    obtain c r' where c: "G c = Some r'" "c \<le> b" "b + extent G ?d b \<le> c + reg_len r'" "0 < extent G ?d b"
      using live_block[OF inv b] by blast
    have "b \<noteq> a" using fresh c len by force
    moreover have "?d' b = ?d b" using same[OF c(1,2)] c(3,4) by simp
    moreover then have "tot ?d' b = tot ?d b" by (simp add: tot_def)
    ultimately show ?thesis by (auto simp: extent_def split: option.split region.split)
  qed
  have "pool_inv ?G s'" unfolding pool_inv_def
  proof (intro conjI)
    show "\<forall>b b' q q'. ?G b = Some q \<and> ?G b' = Some q' \<and> b < b' \<longrightarrow> b + reg_len q \<le> b'"
    proof (intro allI impI)
      fix b b' q q' assume h: "?G b = Some q \<and> ?G b' = Some q' \<and> b < b'"
      consider "b = a" "b' \<noteq> a" | "b \<noteq> a" "b' = a" | "b \<noteq> a" "b' \<noteq> a" using h by force
      then show "b + reg_len q \<le> b'"
      proof cases
        case 1
        then have "G b' = Some q'" "q = r" using h by auto
        then show ?thesis using fresh reg_len_pos[OF inv] h 1 by fastforce
      next
        case 2
        then have "G b = Some q" using h by auto
        then show ?thesis using fresh len h 2 by force
      next
        case 3
        then show ?thesis using inv_regions[OF inv] h by auto
      qed
    qed
    show "\<forall>b q. ?G b = Some q \<longrightarrow> (b, reg_len q) \<in> set (mp_maps s')"
      using inv_maps[OF inv] maps by auto
    have R: "region_ok q s' b" if "?G b = Some q" for b q
    proof (cases "b = a")
      case True
      then show ?thesis using ok that by simp
    next
      case False
      then have g: "G b = Some q" using that by simp
      show ?thesis using region_ok_cong[OF inv_region_ok[OF inv g]] same[OF g] mem2 by blast
    qed
    show "\<forall>c k bs. ?G c = Some (Chunk k bs) \<longrightarrow> chunk_ok ?d' k c bs \<and> get_mem k s' \<noteq> None"
      using R by (fastforce simp: region_ok_def)
    show "\<forall>b n. ?G b = Some (Direct n) \<longrightarrow> 0 < n \<and>
        (\<exists>x. ?d' b = Some x \<and> bd_bin x < 0 \<and> 0 < bd_total x \<and> page_up (bd_total x) = n)"
      using R by (fastforce simp: region_ok_def)
    show "\<forall>k m. get_mem k s' = Some m \<longrightarrow> km_eid m = mr_eid k \<and> bins_ok ?d' m (free_of ?G ?d' k) \<and>
        sync_ok ?G ?d' k (km_sync_list m)"
    proof (intro allI impI)
      fix k m assume h: "get_mem k s' = Some m"
      then obtain m0 where m0: "get_mem k s = Some m0" "km_eid m = km_eid m0" "km_sync_list m = km_sync_list m0"
        "bins_ok ?d' m (free_of G ?d k \<union> new_frees r ?d' k)" using mem by blast
      note i = inv_mem[OF inv m0(1)]
      have "limbo ?d' (p - BUFFER_DESC) \<and> (\<exists>c bs. ?G c = Some (Chunk k bs) \<and> p - BUFFER_DESC \<in> set bs)"
        if p: "p \<in> set (km_sync_list m0)" for p
      proof -
        obtain c bs where c: "limbo ?d (p - BUFFER_DESC)" "G c = Some (Chunk k bs)" "p - BUFFER_DESC \<in> set bs"
          using i p by (auto simp: sync_ok_def)
        have "limbo ?d' (p - BUFFER_DESC)" using c(1) blk[OF c(2,3)] by (simp add: limbo_def)
        then show ?thesis using old[OF c(2)] c(3) by blast
      qed
      then have "sync_ok ?G ?d' k (km_sync_list m)" using i m0(3) by (simp add: sync_ok_def)
      then show "km_eid m = mr_eid k \<and> bins_ok ?d' m (free_of ?G ?d' k) \<and> sync_ok ?G ?d' k (km_sync_list m)"
        using i m0 FR by simp
    qed
  qed
  then show ?thesis using L E FR na by blast
qed

section \<open>Changes that keep what is in use\<close>

text \<open>What an operation may do to the reference counts: only a returned buffer loses its zero.\<close>

definition keeps :: "regions \<Rightarrow> mpool \<Rightarrow> regions \<Rightarrow> mpool \<Rightarrow> bool" where
  "keeps G s G' s' \<longleftrightarrow> pool_inv G' s' \<and> (\<forall>f. \<forall>z\<in>live G (mp_desc s). home G f z \<longrightarrow> home G' f z) \<and> live G' (mp_desc s') = live G (mp_desc s) \<and>
     (\<forall>b\<in>live G (mp_desc s). extent G' (mp_desc s') b = extent G (mp_desc s) b \<and>
        (rf (mp_desc s) b \<noteq> 0 \<longrightarrow> rf (mp_desc s') b = rf (mp_desc s) b))"

text \<open>As \<open>grows\<close>, with such changes before.\<close>

definition adds :: "regions \<Rightarrow> mpool \<Rightarrow> bool \<Rightarrow> int \<Rightarrow> addr \<Rightarrow> regions \<Rightarrow> mpool \<Rightarrow> bool" where
  "adds G s f act u G' s' \<longleftrightarrow> pool_inv G' s' \<and> home G' f u \<and> (\<forall>g. \<forall>z\<in>live G (mp_desc s). home G g z \<longrightarrow> home G' g z) \<and> u \<notin> live G (mp_desc s) \<and>
     live G' (mp_desc s') = insert u (live G (mp_desc s)) \<and> act \<le> extent G' (mp_desc s') u \<and> rf (mp_desc s') u = 1 \<and>
     (\<forall>b\<in>live G (mp_desc s). extent G' (mp_desc s') b = extent G (mp_desc s) b \<and>
        (rf (mp_desc s) b \<noteq> 0 \<longrightarrow> rf (mp_desc s') b = rf (mp_desc s) b))"

lemma rkeeps_trans: "keeps G s G' s' \<Longrightarrow> keeps G' s' G'' s'' \<Longrightarrow> keeps G s G'' s''"
  by (auto simp: keeps_def)

lemma grows_adds: "grows G s f act u G' s' \<Longrightarrow> adds G s f act u G' s'"
  by (auto simp: grows_def adds_def)

lemma keeps_adds: "keeps G s G' s' \<Longrightarrow> adds G' s' f act u G'' s'' \<Longrightarrow> adds G s f act u G'' s''"
  by (auto simp: keeps_def adds_def)

lemma keeps_env:
  assumes "pool_inv G s" and "mp_desc s' = mp_desc s" "mp_mem s' = mp_mem s" "set (mp_maps s) \<subseteq> set (mp_maps s')"
  shows "keeps G s G s'"
proof -
  have "get_mem k s' = get_mem k s" for k using assms(3) by (simp add: get_mem_def)
  then have "pool_inv G s'" using assms(1,2,4) unfolding pool_inv_def by auto
  then show ?thesis using assms(2) by (simp add: keeps_def)
qed

section \<open>A new chunk\<close>

lemma page_up_chunk: "page_up MEM_CHUNK_GROW_SIZE = MEM_CHUNK_GROW_SIZE"
  by (simp add: page_up_def mem_sizes)

lemma map_fresh_regions:
  assumes "pool_inv G s" and "map_fresh a n s"
  shows "\<forall>a' r'. G a' = Some r' \<longrightarrow> a + n \<le> a' \<or> a' + reg_len r' \<le> a"
  using assms inv_maps[OF assms(1)] by (fastforce simp: map_fresh_def list_all_iff)

lemma mmap_ok:
  assumes "kupl_memory_mmap n s = (Some a, s1)"
  shows "map_fresh a (page_up n) s" "mp_desc s1 = mp_desc s" "mp_mem s1 = mp_mem s" "mp_maps s1 = (a, page_up n) # mp_maps s"
    "mp_align s1 = mp_align s"
  using assms by (auto simp: kupl_memory_mmap_def Let_def split: option.splits if_splits)

lemma mmap_none:
  assumes "kupl_memory_mmap n s = (None, s1)"
  shows "mp_desc s1 = mp_desc s" "mp_mem s1 = mp_mem s" "mp_maps s1 = mp_maps s" "mp_align s1 = mp_align s"
  using assms by (auto simp: kupl_memory_mmap_def Let_def split: option.splits if_splits)

lemma chunk_tiles:
  assumes "d a = Some x" "bd_total x = MEM_CHUNK_GROW_SIZE - BUFFER_DESC" "bd_prev_free x = 0"
    "d (a + (MEM_CHUNK_GROW_SIZE - BUFFER_DESC)) = Some y" "bd_total y = -1" "bd_prev_free y = MEM_CHUNK_GROW_SIZE - BUFFER_DESC"
  shows "tiles d 0 a [a] (a + (MEM_CHUNK_GROW_SIZE - BUFFER_DESC))"
  using assms by (simp add: buffer_ok_def dummy_ok_def tot_def mem_sizes)

lemma new_chunk_ok:
  assumes inv: "pool_inv G s" and m: "get_mem k s = Some m" and mm: "kupl_memory_mmap MEM_CHUNK_GROW_SIZE s = (Some a, s1)"
  shows "\<exists>s2 G2. new_chunk k a s1 = Some s2 \<and> keeps G s G2 s2 \<and> a \<in> free_of G2 (mp_desc s2) k \<and>
    tot (mp_desc s2) a = MEM_CHUNK_GROW_SIZE - BUFFER_DESC \<and> (\<exists>m2. get_mem k s2 = Some m2) \<and>
    (\<forall>k'. k' \<noteq> k \<longrightarrow> get_mem k' s2 = get_mem k' s)"
proof -
  let ?n = "MEM_CHUNK_GROW_SIZE" and ?T = "MEM_CHUNK_GROW_SIZE - BUFFER_DESC" and ?d = "mp_desc s"
  note mmap = mmap_ok[OF mm, unfolded page_up_chunk]
  have fresh: "\<forall>a' r'. G a' = Some r' \<longrightarrow> a + ?n \<le> a' \<or> a' + reg_len r' \<le> a" by (rule map_fresh_regions[OF inv mmap(1)])
  have m1: "get_mem k' s1 = get_mem k' s" for k' using mmap(3) by (simp add: get_mem_def)
  define i where "i = mem_bin ?T"
  define m2 where "m2 = count_bin (\<lambda>n. n + 1) i (m\<lparr>km_alloc_chunks := km_alloc_chunks m + 1, km_bins := (km_bins m)(i := a # km_bins m i)\<rparr>)"
  define x where "x = \<lparr>bd_eid = km_eid m, bd_ref = 1, bd_bin = int i, bd_total = ?T, bd_prev_free = 0\<rparr>"
  define y where "y = \<lparr>bd_eid = km_eid m, bd_ref = 0, bd_bin = 0, bd_total = -1, bd_prev_free = ?T\<rparr>"
  define s2 where "s2 = put_desc a x (put_desc (a + ?T) y (put_mem k m2 s1))"
  have ne: "a + ?T \<noteq> a" by (simp add: mem_sizes)
  have run: "new_chunk k a s1 = Some s2"
    using m m1 ne by (simp add: new_chunk_def kupl_normal_insert_into_freelist_def Let_def s2_def m2_def x_def y_def i_def put_desc_def
        count_bin_def put_mem_def get_mem_def fun_upd_twist)
  have d2: "mp_desc s2 = ?d(a + ?T := Some y, a := Some x)" by (simp add: s2_def mmap(2))
  have g2: "get_mem k' s2 = (if k' = k then Some m2 else get_mem k' s)" for k'
  proof -
    have "get_mem k' s2 = get_mem k' (put_mem k m2 s1)" by (simp add: s2_def put_desc_def get_mem_def)
    then show ?thesis by (simp only: get_put_mem m1)
  qed
  have ck: "chunk_ok (mp_desc s2) k a [a]"
  proof -
    have "tiles (mp_desc s2) 0 a [a] (a + ?T)" by (rule chunk_tiles[of _ _ x y]) (simp_all add: d2 x_def y_def mem_sizes)
    then show ?thesis using inv_mem[OF inv m] by (simp add: chunk_ok_def d2 x_def)
  qed
  have tx: "tot (mp_desc s2) a = ?T" by (simp add: tot_def d2 x_def)
  have fr: "frees (mp_desc s2) [a] = {a}" "used (mp_desc s2) [a] = {}" by (auto simp: frees_def used_def tx mem_sizes)
  have out: "\<forall>z. \<not> (a \<le> z \<and> z < a + ?n) \<longrightarrow> mp_desc s2 z = ?d z"
    by (auto simp: d2 mem_sizes)
  have oldFR: "z \<noteq> a \<and> mp_desc s2 z = ?d z" if z: "z \<in> free_of G ?d k'" for z k'
  proof -
    obtain c bs where c: "G c = Some (Chunk k' bs)" "z \<in> set bs" using z by (auto simp: free_of_def frees_def)
    have "c + ?n \<le> a \<or> a + ?n \<le> c" using fresh c(1) by force
    then have "\<not> (a \<le> z \<and> z < a + ?n)" using chunk_block[OF inv_chunk[OF inv c(1)] c(2)] by linarith
    then show ?thesis using out by (auto simp: mem_sizes)
  qed
  have step: "pool_inv (G(a \<mapsto> Chunk k [a])) s2 \<and>
    live (G(a \<mapsto> Chunk k [a])) (mp_desc s2) = live G ?d \<union> new_live (Chunk k [a]) (mp_desc s2) a \<and>
    (\<forall>b\<in>live G ?d. b \<noteq> a \<and> extent (G(a \<mapsto> Chunk k [a])) (mp_desc s2) b = extent G ?d b \<and> mp_desc s2 b = ?d b) \<and>
    (\<forall>k'. free_of (G(a \<mapsto> Chunk k [a])) (mp_desc s2) k' = free_of G ?d k' \<union> new_frees (Chunk k [a]) (mp_desc s2) k') \<and> G a = None"
  proof (rule region_add[OF inv])
    show "\<forall>k' m'. get_mem k' s2 = Some m' \<longrightarrow> (\<exists>m0. get_mem k' s = Some m0 \<and> km_eid m' = km_eid m0 \<and>
      km_sync_list m' = km_sync_list m0 \<and> bins_ok (mp_desc s2) m' (free_of G ?d k' \<union> new_frees (Chunk k [a]) (mp_desc s2) k'))"
    proof (intro allI impI)
      fix k' m' assume h: "get_mem k' s2 = Some m'"
      show "\<exists>m0. get_mem k' s = Some m0 \<and> km_eid m' = km_eid m0 \<and> km_sync_list m' = km_sync_list m0 \<and>
        bins_ok (mp_desc s2) m' (free_of G ?d k' \<union> new_frees (Chunk k [a]) (mp_desc s2) k')"
      proof (cases "k' = k")
        case True
        have "bins_ok (mp_desc s2) m (free_of G ?d k)"
          by (rule inv_same_bins[of _ _ ?d]) (use oldFR inv_mem[OF inv m] in auto)
        moreover have "a \<notin> free_of G ?d k" using oldFR by blast
        ultimately have "bins_ok (mp_desc s2) (m\<lparr>km_bins := (km_bins m)(i := a # km_bins m i)\<rparr>) (insert a (free_of G ?d k))"
          using bins_ins[of "mp_desc s2" m "free_of G ?d k" a] by (simp add: tx i_def)
        then have "bins_ok (mp_desc s2) m2 (insert a (free_of G ?d k))" by (simp add: bins_ok_def m2_def)
        then show ?thesis using True h g2 m fr by (auto simp: m2_def new_frees_def)
      next
        case False
        then have m': "get_mem k' s = Some m'" using h g2 by simp
        have "bins_ok (mp_desc s2) m' (free_of G ?d k')"
          by (rule inv_same_bins[of _ _ ?d]) (use oldFR inv_mem[OF inv m'] in auto)
        then show ?thesis using False m' by (auto simp: new_frees_def)
      qed
    qed
    show "\<forall>k. get_mem k s \<noteq> None \<longrightarrow> get_mem k s2 \<noteq> None" by (simp add: g2)
    show "insert (a, reg_len (Chunk k [a])) (set (mp_maps s)) \<subseteq> set (mp_maps s2)" by (simp add: s2_def mmap(4))
  qed (use fresh out ck g2 in \<open>simp_all add: region_ok_def mem_sizes\<close>)
  have "keeps G s (G(a \<mapsto> Chunk k [a])) s2" using step home_add[of G a] by (simp add: keeps_def new_live_def fr rf_def)
  moreover have "a \<in> free_of (G(a \<mapsto> Chunk k [a])) (mp_desc s2) k" using step by (simp add: new_frees_def fr)
  ultimately show ?thesis using run tx g2 by (intro exI[of _ s2] exI[of _ "G(a \<mapsto> Chunk k [a])"]) simp
qed

section \<open>The search\<close>

text \<open>After a new chunk the second search succeeds, so the loop ends.\<close>

lemma alloc_loop_ok:
  assumes inv: "pool_inv G s" and m: "get_mem k s = Some m" and act: "BUFFER_DESC \<le> act" "act \<le> MEM_MAX_SIZE"
  shows "\<exists>r s'. alloc_loop k act s = Some (r, s') \<and> (r = None \<longrightarrow> keeps G s G s') \<and>
    (\<forall>p. r = Some p \<longrightarrow> (\<exists>G'. adds G s (mr_hbw k) act (p - BUFFER_DESC) G' s'))"
proof -
  let ?L = "[mem_bin act..<MEM_BINS_COUNT]"
  obtain r s1 where 1: "search_bins k ?L act s = Some (r, s1)" "r = None \<longrightarrow> s1 = s"
    "\<forall>p. r = Some p \<longrightarrow> (\<exists>G'. grows G s (mr_hbw k) act (p - BUFFER_DESC) G' s1)" using search_bins_ok[OF inv m act(1), of ?L] by blast
  show ?thesis
  proof (cases r)
    case (Some p)
    then have "alloc_loop k act s = Some (Some p, s1)" using 1(1) by (simp add: alloc_loop.simps)
    then show ?thesis using 1(3) Some grows_adds by fastforce
  next
    case None
    then have s1: "s1 = s" using 1(2) by simp
    obtain q s2 where mm: "kupl_memory_mmap MEM_CHUNK_GROW_SIZE s = (q, s2)" by force
    show ?thesis
    proof (cases q)
      case None2: None
      have "alloc_loop k act s = Some (None, s2)" using 1(1) s1 None mm None2 by (simp add: alloc_loop.simps)
      moreover have "keeps G s G s2" using mmap_none[OF mm[unfolded None2]] keeps_env[OF inv, of s2] by simp
      ultimately show ?thesis by blast
    next
      case (Some a)
      obtain s3 G3 m3 where 3: "new_chunk k a s2 = Some s3" "keeps G s G3 s3" "a \<in> free_of G3 (mp_desc s3) k"
        "tot (mp_desc s3) a = MEM_CHUNK_GROW_SIZE - BUFFER_DESC" "get_mem k s3 = Some m3"
        using new_chunk_ok[OF inv m mm[unfolded Some]] by blast
      have inv3: "pool_inv G3 s3" using 3(2) by (simp add: keeps_def)
      obtain r4 s4 where 4: "search_bins k ?L act s3 = Some (r4, s4)"
        "r4 = None \<longrightarrow> s4 = s3 \<and> (\<forall>b\<in>free_of G3 (mp_desc s3) k. mem_bin (tot (mp_desc s3) b) \<in> set ?L \<longrightarrow> tot (mp_desc s3) b < act)"
        "\<forall>p. r4 = Some p \<longrightarrow> (\<exists>G'. grows G3 s3 (mr_hbw k) act (p - BUFFER_DESC) G' s4)"
        using search_bins_ok[OF inv3 3(5) act(1), of ?L] by blast
      have "0 \<le> act" "act \<le> MEM_CHUNK_GROW_SIZE - BUFFER_DESC" using act by (simp_all add: mem_sizes)
      then have "mem_bin (tot (mp_desc s3) a) \<in> set ?L" "\<not> tot (mp_desc s3) a < act"
        using mem_bin_mono[of act "MEM_CHUNK_GROW_SIZE - BUFFER_DESC"] mem_bin_ok(1)[of "MEM_CHUNK_GROW_SIZE - BUFFER_DESC"] 3(4) by auto
      then have "r4 \<noteq> None" using 4(2) 3(3) by blast
      then obtain p where p: "r4 = Some p" by blast
      have "alloc_loop k act s3 = Some (Some p, s4)" using 4(1) p by (simp add: alloc_loop.simps)
      then have "alloc_loop k act s = Some (Some p, s4)" using 1(1) s1 None mm Some 3(1) alloc_loop.simps[of k act s] by simp
      moreover obtain G' where "grows G3 s3 (mr_hbw k) act (p - BUFFER_DESC) G' s4" using 4(3) p by blast
      then have "adds G s (mr_hbw k) act (p - BUFFER_DESC) G' s4" using keeps_adds[OF 3(2)] grows_adds by blast
      ultimately show ?thesis by auto
    qed
  qed
qed

section \<open>What no operation changes\<close>

text \<open>The alignment, which memories there are, their fast lists; and the fast descriptors.\<close>

definition same_bins :: "mpool \<Rightarrow> mpool \<Rightarrow> bool" where
  "same_bins s s' \<longleftrightarrow> (\<forall>k. map_option km_fast_bins (get_mem k s') = map_option km_fast_bins (get_mem k s))"

definition frame0 :: "mpool \<Rightarrow> mpool \<Rightarrow> bool" where
  "frame0 s s' \<longleftrightarrow> mp_align s' = mp_align s \<and> same_bins s s'"

definition frame :: "mpool \<Rightarrow> mpool \<Rightarrow> bool" where
  "frame s s' \<longleftrightarrow> frame0 s s' \<and> mp_fast s' = mp_fast s"

lemmas frame_defs = frame_def frame0_def same_bins_def

lemma same_bins_mem: "same_bins s s' \<Longrightarrow> (get_mem k s' = None) = (get_mem k s = None)"
  unfolding same_bins_def by (metis option.map_disc_iff)

lemma km_fast_simps [simp]:
  "km_fast_bins (count_bin f i m) = km_fast_bins m" "km_fast_bins (list_del a m) = km_fast_bins m"
  by (simp_all add: count_bin_def list_del_def)

lemma frame0_trans: "frame0 s s' \<Longrightarrow> frame0 s' s'' \<Longrightarrow> frame0 s s''"
  by (simp add: frame0_def same_bins_def)

lemma frame_frame0: "frame s s' \<Longrightarrow> frame0 s s'"
  by (simp add: frame_defs)

named_theorems mpool_frame

lemma mframe_refl [simp]: "frame s s"
  by (simp add: frame_defs)

lemma mframe_trans: "frame s s' \<Longrightarrow> frame s' s'' \<Longrightarrow> frame s s''"
  by (simp add: frame_defs)

lemma mp_fast_simps [simp]: "mp_fast (put_mem k m s) = mp_fast s" "mp_fast (put_desc a x s) = mp_fast s"
  by (simp_all add: put_mem_def put_desc_def)

lemma frame_put_desc [simp]: "frame s (put_desc a x s)"
  by (simp add: frame_defs)

lemma frame_put_mem: "get_mem k s = Some m \<Longrightarrow> km_fast_bins m' = km_fast_bins m \<Longrightarrow> frame s (put_mem k m' s)"
  by (simp add: frame_defs get_put_mem)

lemma frame_munmap [simp]: "frame0 s (munmap a n s)"
  by (simp add: frame_defs munmap_def get_mem_def)

lemma frame_mmap: "kupl_memory_mmap n s = (r, s') \<Longrightarrow> frame s s'"
  by (auto simp: frame_defs kupl_memory_mmap_def Let_def get_mem_def split: option.splits if_splits)

lemma frame_insert [mpool_frame]: "kupl_normal_insert_into_freelist k a s = Some s' \<Longrightarrow> frame s s'"
  by (auto simp: kupl_normal_insert_into_freelist_def Let_def bind_eq_Some_conv frame_defs get_put_mem
      split: if_splits)

lemma frame_del_free [mpool_frame]: "del_free k a i s = Some s' \<Longrightarrow> frame s s'"
  by (auto simp: del_free_def bind_eq_Some_conv intro: frame_put_mem)

lemma frame_take_split [mpool_frame]: "take_split k a d act i s = Some (p, s') \<Longrightarrow> frame s s'"
  by (auto simp: take_split_def Let_def bind_eq_Some_conv dest!: frame_insert frame_del_free) (simp add: frame_defs)

lemma frame_take_whole [mpool_frame]: "take_whole k a d i s = Some (p, s') \<Longrightarrow> frame s s'"
  by (auto simp: take_whole_def Let_def bind_eq_Some_conv dest!: frame_del_free) (simp add: frame_defs)

lemma frame_travel: "kupl_normal_travel_list k bs act i s = Some (r, s') \<Longrightarrow> frame s s'"
  by (induction bs) (auto simp: bind_eq_Some_conv split: if_splits dest: frame_take_split frame_take_whole)

lemma frame_search: "search_bins k is act s = Some (r, s') \<Longrightarrow> frame s s'"
proof (induction "is" arbitrary: s)
  case (Cons i "is")
  then obtain m q s1 where 1: "get_mem k s = Some m" "kupl_normal_travel_list k (km_bins m i) act i s = Some (q, s1)"
    "(if q \<noteq> None then Some (q, s1) else search_bins k is act s1) = Some (r, s')"
    by (auto simp: bind_eq_Some_conv)
  then have "frame s1 s'" using Cons.IH by (auto split: if_splits)
  then show ?case using mframe_trans[OF frame_travel[OF 1(2)]] by blast
qed simp

lemma frame_new_chunk [mpool_frame]: "new_chunk k a s = Some s' \<Longrightarrow> frame s s'"
  by (auto simp: new_chunk_def Let_def bind_eq_Some_conv dest!: frame_insert) (simp add: frame_defs get_put_mem split: if_splits)

lemma frame_alloc_loop:
  assumes "alloc_loop k act s = Some (r, s')"
  shows "frame s s'"
proof -
  have "frame s (snd (r, s'))"
  proof (rule alloc_loop.raw_induct[of "\<lambda>k act s q. frame s (snd q)", OF _ assms])
    fix loop k act s q
    assume IH: "\<And>k act s q. loop k act s = Some q \<Longrightarrow> frame s (snd q)"
      and eq: "Option.bind (search_bins k [mem_bin act..<MEM_BINS_COUNT] act s) (\<lambda>r. if fst r \<noteq> None then Some r
         else (case kupl_memory_mmap MEM_CHUNK_GROW_SIZE (snd r) of (None, s) \<Rightarrow> Some (None, s)
           | (Some a, s) \<Rightarrow> Option.bind (new_chunk k a s) (loop k act))) = Some q"
    obtain q1 s1 where 2: "search_bins k [mem_bin act..<MEM_BINS_COUNT] act s = Some (q1, s1)"
      using eq by (cases "search_bins k [mem_bin act..<MEM_BINS_COUNT] act s") auto
    note f1 = frame_search[OF 2]
    show "frame s (snd q)"
    proof (cases q1)
      case (Some p)
      then have "q = (q1, s1)" using eq 2 by simp
      then show ?thesis using f1 by simp
    next
      case None
      obtain a s2 where 3: "kupl_memory_mmap MEM_CHUNK_GROW_SIZE s1 = (a, s2)" by force
      note f2 = mframe_trans[OF f1 frame_mmap[OF 3]]
      show ?thesis
      proof (cases a)
        case None2: None
        then have "q = (None, s2)" using eq 2 3 None by simp
        then show ?thesis using f2 by simp
      next
        case (Some b)
        then obtain s3 where 4: "new_chunk k b s2 = Some s3" "loop k act s3 = Some q"
          using eq 2 3 None by (auto simp: bind_eq_Some_conv)
        then show ?thesis using mframe_trans[OF f2 mframe_trans[OF frame_new_chunk[OF 4(1)] IH[OF 4(2)]]] by blast
      qed
    qed
  qed
  then show ?thesis by simp
qed

lemma frame_enqueue [mpool_frame]: "kupl_normal_sync_list_enqueue k p s = Some s' \<Longrightarrow> frame s s'"
  by (auto simp: kupl_normal_sync_list_enqueue_def bind_eq_Some_conv intro: frame_put_mem)

lemma frame_merge_prev: "merge_prev k a i s = Some (b, s') \<Longrightarrow> frame s s'"
  by (auto simp: merge_prev_def Let_def bind_eq_Some_conv split: if_splits dest!: frame_del_free) (simp add: frame_defs)

lemma frame_merge_next: "merge_next k a i s = Some s' \<Longrightarrow> frame s s'"
  by (auto simp: merge_next_def Let_def bind_eq_Some_conv split: if_splits dest!: frame_del_free) (simp add: frame_defs)

section \<open>The list of returned buffers\<close>

definition noref :: "kupl_buffer_desc option \<Rightarrow> kupl_buffer_desc option" where
  "noref = map_option (\<lambda>x. x\<lparr>bd_ref := 0\<rparr>)"

lemma noref_fields:
  "x\<lparr>bd_ref := 0\<rparr> = y\<lparr>bd_ref := 0\<rparr> \<Longrightarrow> bd_eid x = bd_eid y \<and> bd_bin x = bd_bin y \<and> bd_total x = bd_total y \<and> bd_prev_free x = bd_prev_free y"
  by (cases x; cases y) simp

lemma noref_eq: "noref (d' b) = noref (d b) \<Longrightarrow> tag d' b = tag d b \<and> tot d' b = tot d b \<and>
    (\<forall>x. d b = Some x \<longrightarrow> (\<exists>x'. d' b = Some x' \<and> bd_eid x' = bd_eid x \<and> bd_bin x' = bd_bin x \<and> bd_total x' = bd_total x))"
  by (cases "d b"; cases "d' b") (auto simp: noref_def tag_def tot_def dest: noref_fields)

lemma chunk_desc: "chunk_ok d k c bs \<Longrightarrow> b \<in> set bs \<Longrightarrow> \<exists>x. d b = Some x \<and> bd_eid x = mr_eid k \<and> 0 \<le> bd_bin x"
  by (simp add: chunk_ok_def)

text \<open>A change of reference counts alone.\<close>

lemma inv_refs:
  assumes inv: "pool_inv G s" and d: "\<forall>b. noref (mp_desc s' b) = noref (mp_desc s b)" and maps: "mp_maps s' = mp_maps s"
    and mem: "\<forall>k m'. get_mem k s' = Some m' \<longrightarrow> (\<exists>m. get_mem k s = Some m \<and> km_eid m' = km_eid m \<and> km_bins m' = km_bins m \<and>
       sync_ok G (mp_desc s') k (km_sync_list m'))"
    and mem2: "\<forall>k. get_mem k s \<noteq> None \<longrightarrow> get_mem k s' \<noteq> None"
  shows "pool_inv G s'" "live G (mp_desc s') = live G (mp_desc s)" "extent G (mp_desc s') = extent G (mp_desc s)"
proof -
  let ?d = "mp_desc s" and ?d' = "mp_desc s'"
  have eq: "tag ?d' b = tag ?d b \<and> tot ?d' b = tot ?d b \<and>
    (\<forall>x. ?d b = Some x \<longrightarrow> (\<exists>x'. ?d' b = Some x' \<and> bd_eid x' = bd_eid x \<and> bd_bin x' = bd_bin x \<and> bd_total x' = bd_total x))" for b
    using noref_eq[of ?d' b ?d] d by simp
  have t: "tot ?d' = tot ?d" using eq by blast
  have fr: "frees ?d' = frees ?d" "used ?d' = used ?d" by (simp_all add: frees_def used_def t fun_eq_iff)
  show "live G ?d' = live G ?d" by (simp add: live_def fr)
  show "extent G ?d' = extent G ?d" unfolding extent_def[abs_def] t ..
  have FR: "free_of G ?d' k = free_of G ?d k" for k by (simp add: free_of_def fr)
  show "pool_inv G s'" unfolding pool_inv_def
  proof (intro conjI)
    show "\<forall>a a' r r'. G a = Some r \<and> G a' = Some r' \<and> a < a' \<longrightarrow> a + reg_len r \<le> a'" using inv_regions[OF inv] by blast
    show "\<forall>a r. G a = Some r \<longrightarrow> (a, reg_len r) \<in> set (mp_maps s')" using inv_maps[OF inv] maps by simp
    show "\<forall>c k bs. G c = Some (Chunk k bs) \<longrightarrow> chunk_ok ?d' k c bs \<and> get_mem k s' \<noteq> None"
    proof (intro allI impI)
      fix c k bs assume g: "G c = Some (Chunk k bs)"
      have "tiles ?d' 0 c bs (c + (MEM_CHUNK_GROW_SIZE - BUFFER_DESC))"
        using inv_chunk[OF inv g] tiles_tag[of _ bs ?d' ?d] eq by (simp add: chunk_ok_def)
      moreover have "\<exists>x. ?d' b = Some x \<and> bd_eid x = mr_eid k \<and> 0 \<le> bd_bin x" if bb: "b \<in> set bs" for b
      proof -
        obtain x where x: "?d b = Some x" "bd_eid x = mr_eid k \<and> 0 \<le> bd_bin x" using chunk_desc[OF inv_chunk[OF inv g] bb] by metis
        obtain x' where "?d' b = Some x'" "bd_eid x' = bd_eid x" "bd_bin x' = bd_bin x" using eq[of b] x(1) by blast
        then show ?thesis using x(2) by simp
      qed
      ultimately show "chunk_ok ?d' k c bs \<and> get_mem k s' \<noteq> None" using inv_chunk_mem[OF inv g] mem2 by (simp add: chunk_ok_def)
    qed
    show "\<forall>a n. G a = Some (Direct n) \<longrightarrow> 0 < n \<and> (\<exists>x. ?d' a = Some x \<and> bd_bin x < 0 \<and> 0 < bd_total x \<and> page_up (bd_total x) = n)"
    proof (intro allI impI)
      fix a n assume g: "G a = Some (Direct n)"
      obtain x where x: "?d a = Some x" "bd_bin x < 0 \<and> 0 < bd_total x \<and> page_up (bd_total x) = n" "0 < n" using inv_direct[OF inv g] by blast
      obtain x' where "?d' a = Some x'" "bd_bin x' = bd_bin x" "bd_total x' = bd_total x" using eq[of a] x(1) by blast
      then show "0 < n \<and> (\<exists>x. ?d' a = Some x \<and> bd_bin x < 0 \<and> 0 < bd_total x \<and> page_up (bd_total x) = n)" using x(2,3) by simp
    qed
    show "\<forall>k m. get_mem k s' = Some m \<longrightarrow> km_eid m = mr_eid k \<and> bins_ok ?d' m (free_of G ?d' k) \<and> sync_ok G ?d' k (km_sync_list m)"
    proof (intro allI impI)
      fix k m assume "get_mem k s' = Some m"
      then obtain m0 where m0: "get_mem k s = Some m0" "km_eid m = km_eid m0" "km_bins m = km_bins m0" "sync_ok G ?d' k (km_sync_list m)"
        using mem by blast
      then show "km_eid m = mr_eid k \<and> bins_ok ?d' m (free_of G ?d' k) \<and> sync_ok G ?d' k (km_sync_list m)"
        using inv_mem[OF inv m0(1)] by (simp add: bins_ok_def t FR)
    qed
  qed
qed

text \<open>
  Every buffer in the list has the count 0, so the second decrement gives 65535 and returns before
  anything is freed.
\<close>

lemma minus_one_ref: "(0 :: 16 word) - 1 = 65535" "(- 1 :: 16 word) = 65535" "(0 :: 16 word) < 65535"
  by simp_all

lemma free_list_limbo:
  assumes "distinct ps" and "\<forall>p\<in>set ps. limbo (mp_desc s) (p - BUFFER_DESC)"
  shows "\<exists>s'. free_list k ps s = Some s' \<and> mp_mem s' = mp_mem s \<and> mp_maps s' = mp_maps s \<and> mp_align s' = mp_align s \<and>
    mp_fast s' = mp_fast s \<and> (\<forall>b. noref (mp_desc s' b) = noref (mp_desc s b)) \<and>
    (\<forall>b. b + BUFFER_DESC \<notin> set ps \<longrightarrow> mp_desc s' b = mp_desc s b) \<and>
    (\<forall>p\<in>set ps. rf (mp_desc s') (p - BUFFER_DESC) = 65535)"
  using assms
proof (induction ps arbitrary: s)
  case (Cons p ps)
  let ?a = "p - BUFFER_DESC"
  obtain x where x: "mp_desc s ?a = Some x" "bd_total x < 0" "bd_ref x = 0" using Cons.prems by (auto simp: limbo_def)
  let ?s = "put_desc ?a (x\<lparr>bd_ref := 65535\<rparr>) s"
  have f: "kupl_normal_free k p s = Some ?s" using x by (simp add: kupl_normal_free_def Let_def minus_one_ref)
  have "\<forall>q\<in>set ps. limbo (mp_desc ?s) (q - BUFFER_DESC)" using Cons.prems by (auto simp: limbo_def)
  from Cons.IH[OF _ this] Cons.prems(1) obtain s' where s': "free_list k ps ?s = Some s'" "mp_mem s' = mp_mem ?s" "mp_maps s' = mp_maps ?s"
    "mp_align s' = mp_align ?s" "\<forall>b. noref (mp_desc s' b) = noref (mp_desc ?s b)"
    "\<forall>b. b + BUFFER_DESC \<notin> set ps \<longrightarrow> mp_desc s' b = mp_desc ?s b" "\<forall>q\<in>set ps. rf (mp_desc s') (q - BUFFER_DESC) = 65535"
    "mp_fast s' = mp_fast ?s" by auto
  have n: "noref (mp_desc s' b) = noref (mp_desc s b)" for b using s'(5) x by (simp add: noref_def)
  have o: "mp_desc s' b = mp_desc s b" if "b + BUFFER_DESC \<notin> set (p # ps)" for b using s'(6) that by auto
  have "?a + BUFFER_DESC \<notin> set ps" using Cons.prems(1) by simp
  then have r: "rf (mp_desc s') ?a = 65535" using s'(6) by (simp add: rf_def)
  have c: "free_list k (p # ps) s = Some s'" "mp_mem s' = mp_mem s" "mp_maps s' = mp_maps s" "mp_align s' = mp_align s" "mp_fast s' = mp_fast s"
    using f s'(1-4,8) by (simp_all add: put_desc_def)
  show ?case using c n o r s'(7) by (intro exI[of _ s']) simp
qed simp

lemma sync_dequeue_ok:
  assumes inv: "pool_inv G s" and m: "get_mem k s = Some m"
  shows "\<exists>s' m'. kupl_normal_sync_list_dequeue k s = Some s' \<and> keeps G s G s' \<and> get_mem k s' = Some m' \<and> km_sync_list m' = [] \<and>
    frame s s' \<and> (\<forall>p\<in>set (km_sync_list m). rf (mp_desc s') (p - BUFFER_DESC) = 65535)"
proof -
  let ?s = "put_mem k (m\<lparr>km_sync_list := []\<rparr>) s"
  have so: "sync_ok G (mp_desc s) k (km_sync_list m)" using inv_mem[OF inv m] by blast
  then obtain s' where s': "free_list k (km_sync_list m) ?s = Some s'" "mp_mem s' = mp_mem ?s" "mp_maps s' = mp_maps ?s"
    "mp_align s' = mp_align ?s" "\<forall>b. noref (mp_desc s' b) = noref (mp_desc ?s b)"
    "\<forall>b. b + BUFFER_DESC \<notin> set (km_sync_list m) \<longrightarrow> mp_desc s' b = mp_desc ?s b"
    "\<forall>p\<in>set (km_sync_list m). rf (mp_desc s') (p - BUFFER_DESC) = 65535" "mp_fast s' = mp_fast ?s"
    using free_list_limbo[of "km_sync_list m" ?s k] unfolding sync_ok_def by auto
  have run: "kupl_normal_sync_list_dequeue k s = Some s'" using m s'(1) by (simp add: kupl_normal_sync_list_dequeue_def)
  have g: "get_mem k' s' = (if k' = k then Some (m\<lparr>km_sync_list := []\<rparr>) else get_mem k' s)" for k'
    using s'(2) get_put_mem[of k' k "m\<lparr>km_sync_list := []\<rparr>" s] by (simp add: get_mem_def)
  have other: "sync_ok G (mp_desc s') k' (km_sync_list m1)" if k': "k' \<noteq> k" "get_mem k' s = Some m1" for k' m1
  proof -
    have s1: "sync_ok G (mp_desc s) k' (km_sync_list m1)" using inv_mem[OF inv k'(2)] by blast
    have "limbo (mp_desc s') (p - BUFFER_DESC)" if p: "p \<in> set (km_sync_list m1)" for p
    proof -
      have "p \<notin> set (km_sync_list m)"
      proof
        assume "p \<in> set (km_sync_list m)"
        then obtain c bs c' bs' where c: "G c = Some (Chunk k bs)" "p - BUFFER_DESC \<in> set bs" "G c' = Some (Chunk k' bs')" "p - BUFFER_DESC \<in> set bs'"
          using so s1 p unfolding sync_ok_def by meson
        note r1 = chunk_block[OF inv_chunk[OF inv c(1)] c(2)]
        note r2 = chunk_block[OF inv_chunk[OF inv c(3)] c(4)]
        have "c = c'" using inv_apart[OF inv c(1) c(3), of "p - BUFFER_DESC"] r1 r2 by simp
        then show False using c k'(1) by simp
      qed
      then have "mp_desc s' (p - BUFFER_DESC) = mp_desc s (p - BUFFER_DESC)" using s'(6) by simp
      then show ?thesis using s1 p by (auto simp: sync_ok_def limbo_def)
    qed
    then show ?thesis using s1 by (simp add: sync_ok_def)
  qed
  have mem: "\<forall>k' m'. get_mem k' s' = Some m' \<longrightarrow> (\<exists>m. get_mem k' s = Some m \<and> km_eid m' = km_eid m \<and> km_bins m' = km_bins m \<and>
      sync_ok G (mp_desc s') k' (km_sync_list m'))"
  proof (intro allI impI)
    fix k' m' assume h: "get_mem k' s' = Some m'"
    show "\<exists>m. get_mem k' s = Some m \<and> km_eid m' = km_eid m \<and> km_bins m' = km_bins m \<and> sync_ok G (mp_desc s') k' (km_sync_list m')"
    proof (cases "k' = k")
      case True
      then have "m' = m\<lparr>km_sync_list := []\<rparr>" using h g[of k'] by simp
      then show ?thesis using m True by (simp add: sync_ok_def)
    next
      case False
      then have "get_mem k' s = Some m'" using h g[of k'] by simp
      then show ?thesis using other False by blast
    qed
  qed
  have R: "pool_inv G s'" "live G (mp_desc s') = live G (mp_desc s)" "extent G (mp_desc s') = extent G (mp_desc s)"
    using inv_refs[OF inv, of s'] s'(3,5) mem g by simp_all
  have "rf (mp_desc s') b = rf (mp_desc s) b" if "rf (mp_desc s) b \<noteq> 0" for b
  proof -
    have "b + BUFFER_DESC \<notin> set (km_sync_list m)"
      using that so unfolding sync_ok_def limbo_def rf_def by fastforce
    then show ?thesis using s'(6) by (simp add: rf_def)
  qed
  then have "keeps G s G s'" using R by (simp add: keeps_def)
  moreover have "frame s s'" using g m s'(4,8) by (simp add: frame_defs)
  ultimately show ?thesis using run g[of k] s'(7) by simp
qed

section \<open>Allocation\<close>

lemma and_not_mask_sub:
  fixes w :: u64
  shows "uint (w AND NOT (mask j)) = uint w - uint w mod 2 ^ j"
proof -
  have "w AND NOT (mask j) = push_bit j (drop_bit j w)" by (rule bit_eqI) (auto simp: bit_simps)
  moreover have "push_bit j (drop_bit j w) + take_bit j w = w" by (rule bits_ident)
  ultimately have e: "w AND NOT (mask j) = w - take_bit j w" by (simp add: eq_diff_eq)
  have u: "uint (take_bit j w) = uint w mod 2 ^ j" unfolding unsigned_take_bit_eq by (simp add: take_bit_eq_mod)
  then have "take_bit j w \<le> w" by (simp add: word_le_def) (simp add: zmod_le_nonneg_dividend)
  then show ?thesis using u by (simp add: e uint_minus_simple_alt)
qed

lemma align_size_ok:
  assumes al: "al = 2 ^ j" "j < 64" and no: "uint n + 2 ^ j < 2 ^ 64"
  shows "uint n \<le> uint (align_size al n)" "uint (align_size al n) < uint n + 2 ^ j"
    "uint (align_size al n) mod 2 ^ j = 0"
proof -
  have "(2 ^ j :: u64) - 1 = mask j" "n + 2 ^ j - 1 = n + mask j" by (simp_all add: mask_eq_exp_minus_1)
  then have a: "align_size al n = (n + mask j) AND NOT (mask j)" by (simp only: align_size_def al(1))
  have m: "uint (mask j :: u64) = 2 ^ j - 1" proof -
    have "uint (mask j :: u64) = take_bit 64 (mask j :: int)" by transfer simp
    also have "\<dots> = mask j" using al(2) by (simp add: take_bit_of_mask min_def)
    finally show ?thesis by (simp add: mask_eq_exp_minus_1)
  qed
  have "uint (n + mask j) = uint n + (2 ^ j - 1)"
    using no m uint_plus_simple_iff[of n "mask j"] by (simp add: uint_word_ariths)
  then have e: "uint (align_size al n) = uint n + (2 ^ j - 1) - (uint n + (2 ^ j - 1)) mod 2 ^ j" unfolding a and_not_mask_sub by simp
  have b: "0 \<le> (uint n + (2 ^ j - 1)) mod 2 ^ j" "(uint n + (2 ^ j - 1)) mod 2 ^ j < 2 ^ j" by simp_all
  then show "uint n \<le> uint (align_size al n)" "uint (align_size al n) < uint n + 2 ^ j" unfolding e by linarith+
  show "uint (align_size al n) mod 2 ^ j = 0" unfolding e by (simp add: mod_diff_eq)
qed

lemma adds_mono: "adds G s f act u G' s' \<Longrightarrow> act' \<le> act \<Longrightarrow> adds G s f act' u G' s'"
  by (auto simp: adds_def)

lemma page_up_ge: "n \<le> page_up n"
proof -
  have "n + 4096 - 1 = (n + 4096 - 1) div 4096 * 4096 + (n + 4096 - 1) mod 4096" by simp
  moreover have "(n + 4096 - 1) mod 4096 < 4096" by simp
  ultimately show ?thesis unfolding page_up_def KUPL_MALLOC_PAGESIZE_def by linarith
qed

lemma rf_cong: "d' b = d b \<Longrightarrow> rf d' b = rf d b"
  by (simp add: rf_def)

text \<open>A large buffer is a region of its own.\<close>

lemma direct_ok:
  assumes inv: "pool_inv G s" and mm: "kupl_memory_mmap act s = (Some a, s1)" and act: "0 < act"
    and x: "bd_bin x < 0" "bd_total x = act" "bd_ref x = 1"
  shows "\<exists>G'. adds G s f act a G' (put_desc a x s1)"
proof -
  let ?n = "page_up act" and ?s = "put_desc a x s1" and ?r = "Direct (page_up act)"
  note mmap = mmap_ok[OF mm]
  have n: "0 < ?n" using act page_up_ge[of act] by linarith
  have fresh: "\<forall>a' r'. G a' = Some r' \<longrightarrow> a + reg_len ?r \<le> a' \<or> a' + reg_len r' \<le> a"
    using map_fresh_regions[OF inv mmap(1)] by simp
  have g: "get_mem k ?s = get_mem k s" for k using mmap(3) by (simp add: get_mem_def put_desc_def)
  have d: "mp_desc ?s = (mp_desc s)(a := Some x)" by (simp add: mmap(2))
  have FRa: "z \<noteq> a" if z: "z \<in> free_of G (mp_desc s) k" for z k
  proof -
    obtain c bs where c: "G c = Some (Chunk k bs)" "z \<in> set bs" using z by (auto simp: free_of_def frees_def)
    have "a + ?n \<le> c \<or> c + MEM_CHUNK_GROW_SIZE \<le> a" using fresh c(1) by force
    then show ?thesis using chunk_block[OF inv_chunk[OF inv c(1)] c(2)] n by linarith
  qed
  have step: "pool_inv (G(a \<mapsto> ?r)) ?s \<and> live (G(a \<mapsto> ?r)) (mp_desc ?s) = live G (mp_desc s) \<union> new_live ?r (mp_desc ?s) a \<and>
    (\<forall>b\<in>live G (mp_desc s). b \<noteq> a \<and> extent (G(a \<mapsto> ?r)) (mp_desc ?s) b = extent G (mp_desc s) b \<and> mp_desc ?s b = mp_desc s b) \<and>
    (\<forall>k. free_of (G(a \<mapsto> ?r)) (mp_desc ?s) k = free_of G (mp_desc s) k \<union> new_frees ?r (mp_desc ?s) k) \<and> G a = None"
  proof (rule region_add[OF inv fresh])
    show "\<forall>k' m'. get_mem k' ?s = Some m' \<longrightarrow> (\<exists>m. get_mem k' s = Some m \<and> km_eid m' = km_eid m \<and>
      km_sync_list m' = km_sync_list m \<and> bins_ok (mp_desc ?s) m' (free_of G (mp_desc s) k' \<union> new_frees ?r (mp_desc ?s) k'))"
    proof (intro allI impI)
      fix k' m' assume "get_mem k' ?s = Some m'"
      then have m': "get_mem k' s = Some m'" using g by simp
      have "bins_ok (mp_desc ?s) m' (free_of G (mp_desc s) k')"
        by (rule inv_same_bins[of _ _ "mp_desc s"]) (use FRa inv_mem[OF inv m'] d in auto)
      then show "\<exists>m. get_mem k' s = Some m \<and> km_eid m' = km_eid m \<and> km_sync_list m' = km_sync_list m \<and>
        bins_ok (mp_desc ?s) m' (free_of G (mp_desc s) k' \<union> new_frees ?r (mp_desc ?s) k')"
        using m' by (simp add: new_frees_def)
    qed
    show "\<forall>k. get_mem k s \<noteq> None \<longrightarrow> get_mem k ?s \<noteq> None" using g by simp
    show "region_ok ?r ?s a" using x n act by (simp add: region_ok_def)
    show "\<forall>z. \<not> (a \<le> z \<and> z < a + reg_len ?r) \<longrightarrow> mp_desc ?s z = mp_desc s z" using n d by auto
    show "insert (a, reg_len ?r) (set (mp_maps s)) \<subseteq> set (mp_maps ?s)" using mmap(4) by simp
  qed (use n in simp)
  have "a \<notin> live G (mp_desc s)" using step by blast
  moreover have "extent (G(a \<mapsto> ?r)) (mp_desc ?s) a = ?n" by (simp add: extent_def)
  moreover have "rf (mp_desc ?s) a = 1" using x(3) by (simp add: rf_def d)
  moreover have "\<forall>b\<in>live G (mp_desc s). mp_desc ?s b = mp_desc s b"
    using step[THEN conjunct2, THEN conjunct2, THEN conjunct1] by blast
  then have "\<forall>b\<in>live G (mp_desc s). rf (mp_desc ?s) b = rf (mp_desc s) b" using rf_cong by blast
  ultimately have "adds G s f act a (G(a \<mapsto> ?r)) ?s"
    using step page_up_ge[of act] home_add[of G a] home_region[of "G(a \<mapsto> ?r)" a ?r a f] n
    by (simp add: adds_def new_live_def del: mem_simps)
  then show ?thesis by blast
qed

definition align_ok :: "mpool \<Rightarrow> bool" where
  "align_ok s \<longleftrightarrow> (\<exists>j\<le>21. mp_align s = 2 ^ j)"

lemma normal_alloc_ok:
  assumes inv: "pool_inv G s" and m: "get_mem k s = Some m" and al: "align_ok s" and sz: "uint sz < 2 ^ 31 - 2 ^ 22"
  shows "\<exists>r s'. kupl_normal_alloc k sz huge s = Some (r, s') \<and> align_ok s' \<and> same_bins s s' \<and> mp_fast s' = mp_fast s \<and>
    (r = None \<longrightarrow> keeps G s G s') \<and> (\<forall>p. r = Some p \<longrightarrow> (\<exists>G' act. adds G s (mr_hbw k) act (p - BUFFER_DESC) G' s' \<and>
       uint sz + BUFFER_DESC \<le> act \<and> uint (mp_align s') \<le> act)) \<and>
    mp_align s' = (if huge then word_of_int HUGE_PAGE_SIZE else mp_align s)"
proof -
  obtain s1 m1 where 1: "kupl_normal_sync_list_dequeue k s = Some s1" "keeps G s G s1" "get_mem k s1 = Some m1" "frame s s1"
    using sync_dequeue_ok[OF inv m] by blast
  let ?s = "if huge then s1\<lparr>mp_align := word_of_int HUGE_PAGE_SIZE\<rparr> else s1"
  define act where "act = uint (align_size (mp_align ?s) (sz + word_of_int BUFFER_DESC))"
  have inv1: "pool_inv G s1" using 1(2) by (simp add: keeps_def)
  have "keeps G s1 G ?s" by (rule keeps_env[OF inv1]) simp_all
  then have k2: "keeps G s G ?s" by (rule rkeeps_trans[OF 1(2)])
  then have inv2: "pool_inv G ?s" unfolding keeps_def by blast
  have gm: "get_mem k' ?s = get_mem k' s1" for k' by (simp add: get_mem_def)
  have m2: "get_mem k ?s = Some m1" using 1(3) gm by simp
  have al2: "align_ok ?s"
  proof (cases huge)
    case True
    have "(word_of_int HUGE_PAGE_SIZE :: u64) = 2 ^ 21" by (simp add: HUGE_PAGE_SIZE_def)
    then show ?thesis using True unfolding align_ok_def by (intro exI[of _ 21]) simp
  next
    case False
    then show ?thesis using al 1(4) by (simp add: align_ok_def frame_defs)
  qed
  then obtain j where j: "mp_align ?s = 2 ^ j" "j \<le> 21" by (auto simp: align_ok_def)
  have p: "(2::int) ^ j \<le> 2 ^ 21" using j(2) by (intro power_increasing) simp_all
  have u: "uint (sz + word_of_int BUFFER_DESC) = uint sz + BUFFER_DESC"
    using sz uint_plus_simple_iff[of sz "word_of_int BUFFER_DESC"] by (simp add: BUFFER_DESC_def uint_word_ariths)
  have "uint (sz + word_of_int BUFFER_DESC) + 2 ^ j < 2 ^ 64" unfolding u using p sz by (simp add: BUFFER_DESC_def)
  from align_size_ok[OF j(1) _ this] j(2) have a: "uint sz + BUFFER_DESC \<le> act" "act < uint sz + BUFFER_DESC + 2 ^ j" "act mod 2 ^ j = 0"
    by (simp_all add: act_def u)
  have "0 \<le> uint sz" by simp
  then have pos: "0 < act" using a(1) unfolding BUFFER_DESC_def by linarith
  have "uint (2 ^ j :: u64) = 2 ^ j"
  proof -
    have "uint (2 ^ j :: u64) = take_bit 64 (2 ^ j)" by transfer simp
    also have "\<dots> = 2 ^ j" using p by (intro take_bit_int_eq_self) simp_all
    finally show ?thesis .
  qed
  then have ma: "uint (mp_align ?s) \<le> act" unfolding j(1) using zdvd_imp_le[of "2 ^ j" act] a(3) pos by (simp add: dvd_eq_mod_eq_0)
  have "0 \<le> uint sz" by simp
  moreover have "(2::int) ^ j \<le> 2097152" "uint sz < 2143289344" using p sz by simp_all
  ultimately have "BUFFER_DESC \<le> act" "act < 2147483648" using a unfolding BUFFER_DESC_def by linarith+
  then have a2: "BUFFER_DESC \<le> act" "act < 2 ^ 31" by simp_all
  have run: "kupl_normal_alloc k sz huge s = (if act > MEM_MAX_SIZE
       then (case kupl_memory_mmap act ?s of
           (None, s) \<Rightarrow> Some (None, s)
         | (Some a, s) \<Rightarrow> Some (Some (a + BUFFER_DESC), put_desc a \<lparr>bd_eid = km_eid m1, bd_ref = 1,
             bd_bin = KUPL_MEMORY_BIN_INDEX_INIT, bd_total = sint (word_of_int act :: u32), bd_prev_free = 0\<rparr> s))
       else alloc_loop k act ?s)"
    by (simp only: kupl_normal_alloc_def Let_def 1(1) m2 Option.bind.simps act_def)
  have keep: "align_ok s' \<and> same_bins s s' \<and> mp_fast s' = mp_fast s \<and> uint (mp_align s') \<le> act \<and>
      mp_align s' = (if huge then word_of_int HUGE_PAGE_SIZE else mp_align s)" if f: "frame ?s s'" for s'
  proof (intro conjI)
    have al: "mp_align s' = mp_align ?s" using f unfolding frame_defs by blast
    show "uint (mp_align s') \<le> act" unfolding al by (rule ma)
    show "mp_align s' = (if huge then word_of_int HUGE_PAGE_SIZE else mp_align s)" unfolding al using 1(4) by (simp add: frame_defs)
    show "align_ok s'" using f al2 by (simp add: frame_defs align_ok_def)
    show "same_bins s s'" using f gm 1(4) by (simp add: frame_defs)
    have "mp_fast ?s = mp_fast s1" by simp
    then show "mp_fast s' = mp_fast s" using f 1(4) unfolding frame_defs by metis
  qed
  show ?thesis
  proof (cases "act > MEM_MAX_SIZE")
    case True
    obtain q s3 where mm: "kupl_memory_mmap act ?s = (q, s3)" by force
    note f = frame_mmap[OF mm]
    show ?thesis
    proof (cases q)
      case None
      have "kupl_normal_alloc k sz huge s = Some (None, s3)" unfolding run using True mm None by simp
      moreover have "keeps G s G s3" using mmap_none[OF mm[unfolded None]] keeps_env[OF inv2, of s3] rkeeps_trans[OF k2] by simp
      ultimately show ?thesis using keep[OF f] by blast
    next
      case (Some b)
      let ?x = "\<lparr>bd_eid = km_eid m1, bd_ref = 1, bd_bin = KUPL_MEMORY_BIN_INDEX_INIT, bd_total = sint (word_of_int act :: u32), bd_prev_free = 0\<rparr>"
      have "sint (word_of_int act :: u32) = signed_take_bit 31 act" by transfer simp
      then have "sint (word_of_int act :: u32) = act" using a2 by (simp add: signed_take_bit_int_eq_self BUFFER_DESC_def)
      then obtain G' where G': "adds G ?s (mr_hbw k) act b G' (put_desc b ?x s3)"
        using direct_ok[OF inv2 mm[unfolded Some], of ?x] a2 by (auto simp: BUFFER_DESC_def KUPL_MEMORY_BIN_INDEX_INIT_def)
      define sf where "sf = put_desc b ?x s3"
      have R: "kupl_normal_alloc k sz huge s = Some (Some (b + BUFFER_DESC), sf)" unfolding run sf_def using True mm Some by simp
      have "frame ?s sf" unfolding sf_def by (rule mframe_trans[OF f]) simp
      note K = keep[OF this]
      have "adds G s (mr_hbw k) act b G' sf" unfolding sf_def by (rule keeps_adds[OF k2 G'])
      moreover have "p - BUFFER_DESC = b" if "Some (b + BUFFER_DESC) = Some p" for p using that by simp
      ultimately have A: "\<exists>G' act. adds G s (mr_hbw k) act (p - BUFFER_DESC) G' sf \<and> uint sz + BUFFER_DESC \<le> act \<and>
          uint (mp_align sf) \<le> act" if "Some (b + BUFFER_DESC) = Some p" for p
        using that a(1) K by (intro exI[of _ G'] exI[of _ act]) metis
      show ?thesis by (rule exI[of _ "Some (b + BUFFER_DESC)"], rule exI[of _ sf]) (use R K A in blast)
    qed
  next
    case False
    then have "act \<le> MEM_MAX_SIZE" by simp
    from alloc_loop_ok[OF inv2 m2 a2(1) this] obtain r s' where
      r: "alloc_loop k act ?s = Some (r, s')" "r = None \<longrightarrow> keeps G ?s G s'"
      "\<forall>p. r = Some p \<longrightarrow> (\<exists>G'. adds G ?s (mr_hbw k) act (p - BUFFER_DESC) G' s')" by blast
    have "kupl_normal_alloc k sz huge s = Some (r, s')" unfolding run using False r(1) by simp
    moreover have "r = None \<longrightarrow> keeps G s G s'" using r(2) rkeeps_trans[OF k2] by blast
    moreover have "\<forall>p. r = Some p \<longrightarrow> (\<exists>G'. adds G s (mr_hbw k) act (p - BUFFER_DESC) G' s')"
      using r(3) keeps_adds[OF k2] by blast
    ultimately show ?thesis using keep[OF frame_alloc_loop[OF r(1)]] a(1)
      by (intro exI[of _ r] exI[of _ s']) blast
  qed
qed

end
