(* ===== verification/Kupl_Mpool_Free.thy ===== *)
theory Kupl_Mpool_Free
  imports Kupl_Mpool_Alloc
begin

text \<open>
  Returning a buffer to the normal layer: the owner puts it in a free list, merges it with its
  neighbours or gives the chunk back; another executor only puts it in the owner's list.
\<close>

section \<open>A region goes\<close>

lemma live_in_region:
  assumes inv: "pool_inv G s" and a: "G a = Some r" and b: "b \<in> live G (mp_desc s)" "a \<le> b" "b < a + reg_len r"
  shows "case r of Chunk k bs \<Rightarrow> b \<in> used (mp_desc s) bs | Direct n \<Rightarrow> b = a"
proof -
  obtain a' r' where a': "G a' = Some r'" "a' \<le> b" "b + extent G (mp_desc s) b \<le> a' + reg_len r'" "0 < extent G (mp_desc s) b"
    "case r' of Chunk k bs \<Rightarrow> b \<in> used (mp_desc s) bs \<and> extent G (mp_desc s) b = \<bar>tot (mp_desc s) b\<bar>
     | Direct n \<Rightarrow> a' = b \<and> extent G (mp_desc s) b = n" using live_block[OF inv b(1)] by blast
  have "a = a'" using inv_apart[OF inv a a'(1) b(2,3) a'(2)] a'(3,4) by simp
  then have "r' = r" using a a'(1) by simp
  then show ?thesis using a'(5) \<open>a = a'\<close> by (cases r) auto
qed

lemma region_del:
  assumes inv: "pool_inv G s" and a: "G a = Some r"
    and out: "\<forall>x. \<not> (a \<le> x \<and> x < a + reg_len r) \<longrightarrow> mp_desc s' x = mp_desc s x"
    and maps: "\<forall>a' r'. G a' = Some r' \<and> a' \<noteq> a \<longrightarrow> (a', reg_len r') \<in> set (mp_maps s')"
    and mem: "\<forall>k' m'. get_mem k' s' = Some m' \<longrightarrow> (\<exists>m. get_mem k' s = Some m \<and> km_eid m' = km_eid m \<and>
      km_sync_list m' = km_sync_list m \<and> bins_ok (mp_desc s') m' (free_of G (mp_desc s) k' - new_frees r (mp_desc s) k'))"
    and mem2: "\<forall>k. get_mem k s \<noteq> None \<longrightarrow> get_mem k s' \<noteq> None"
    and lim: "case r of Chunk k bs \<Rightarrow> \<forall>z\<in>set bs. \<not> limbo (mp_desc s) z | Direct n \<Rightarrow> True"
  shows "pool_inv (G(a := None)) s' \<and> live (G(a := None)) (mp_desc s') = live G (mp_desc s) - new_live r (mp_desc s) a \<and>
    (\<forall>b\<in>live G (mp_desc s) - new_live r (mp_desc s) a.
       extent (G(a := None)) (mp_desc s') b = extent G (mp_desc s) b \<and> mp_desc s' b = mp_desc s b)"
proof -
  let ?d = "mp_desc s" and ?d' = "mp_desc s'" and ?G = "G(a := None)"
  have same: "?d' x = ?d x" if g: "?G a' = Some r'" and x: "a' \<le> x" "x < a' + reg_len r'" for a' r' x
  proof -
    have g': "G a' = Some r'" "a' \<noteq> a" using g by (auto split: if_splits)
    have "\<not> (a \<le> x \<and> x < a + reg_len r)" using inv_apart[OF inv g'(1) a x] g'(2) by blast
    then show ?thesis using out by blast
  qed
  have old: "G a' = Some r'" if "?G a' = Some r'" for a' r' using that by (simp split: if_splits)
  have blk: "?d' b = ?d b" if c: "?G c = Some (Chunk k bs)" "b \<in> set bs" for c k bs b
    using same[OF c(1)] chunk_block[OF inv_chunk[OF inv old[OF c(1)]] c(2)] by simp
  have fr: "frees ?d' bs = frees ?d bs" "used ?d' bs = used ?d bs" if "?G c = Some (Chunk k bs)" for c k bs
    using blk[OF that] tot_same[of ?d' _ ?d] by (auto simp: frees_def used_def)
  have apart: "\<not> (a \<le> b \<and> b < a + reg_len r)" if c: "?G c = Some (Chunk k bs)" "b \<in> set bs" for c k bs b
  proof
    assume "a \<le> b \<and> b < a + reg_len r"
    then have "a = c" using inv_apart[OF inv a old[OF c(1)], of b] chunk_block[OF inv_chunk[OF inv old[OF c(1)]] c(2)] by simp
    then show False using c(1) by simp
  qed
  have inr: "a \<le> b \<and> b < a + reg_len r" if b: "r = Chunk k bs" "b \<in> set bs" for k bs b
    using chunk_block[OF inv_chunk[OF inv a[unfolded b(1)]] b(2)] b(1) by simp
  have FR: "free_of ?G ?d' k = free_of G ?d k - new_frees r ?d k" for k
  proof (rule set_eqI)
    fix b
    show "b \<in> free_of ?G ?d' k \<longleftrightarrow> b \<in> free_of G ?d k - new_frees r ?d k"
    proof
      assume "b \<in> free_of ?G ?d' k"
      then obtain c bs where c: "?G c = Some (Chunk k bs)" "b \<in> frees ?d' bs" unfolding free_of_def by blast
      then have b: "b \<in> frees ?d bs" "b \<in> set bs" using fr by (auto simp: frees_def)
      have "b \<in> free_of G ?d k" using old[OF c(1)] b(1) unfolding free_of_def by blast
      moreover have "b \<notin> new_frees r ?d k" using apart[OF c(1) b(2)] inr
        by (auto simp: new_frees_def frees_def split: region.splits if_splits)
      ultimately show "b \<in> free_of G ?d k - new_frees r ?d k" by blast
    next
      assume h: "b \<in> free_of G ?d k - new_frees r ?d k"
      then obtain c bs where c: "G c = Some (Chunk k bs)" "b \<in> frees ?d bs" unfolding free_of_def by blast
      have "c \<noteq> a" using h c a by (auto simp: new_frees_def)
      then have g: "?G c = Some (Chunk k bs)" using c(1) by simp
      then show "b \<in> free_of ?G ?d' k" using c(2) fr(1)[OF g] unfolding free_of_def by blast
    qed
  qed
  have L: "live ?G ?d' = live G ?d - new_live r ?d a"
  proof (rule set_eqI)
    fix b
    show "b \<in> live ?G ?d' \<longleftrightarrow> b \<in> live G ?d - new_live r ?d a"
    proof
      assume b: "b \<in> live ?G ?d'"
      then consider c k bs where "?G c = Some (Chunk k bs)" "b \<in> used ?d' bs" | n where "?G b = Some (Direct n)"
        unfolding live_def by blast
      then show "b \<in> live G ?d - new_live r ?d a"
      proof cases
        case 1
        have u1: "b \<in> used ?d bs" using 1(2) fr(2)[OF 1(1)] by simp
        then have u: "b \<in> used ?d bs" "b \<in> set bs" by (simp_all add: used_def)
        have "b \<in> live G ?d" using old[OF 1(1)] u(1) unfolding live_def by blast
        moreover have "b \<notin> new_live r ?d a" using apart[OF 1(1) u(2)] inr reg_len_pos[OF inv a]
          by (auto simp: new_live_def used_def split: region.splits)
        ultimately show ?thesis by blast
      next
        case 2
        have "b \<in> live G ?d" using old[OF 2] unfolding live_def by blast
        moreover have "b \<notin> new_live r ?d a"
        proof
          assume h: "b \<in> new_live r ?d a"
          show False
          proof (cases r)
            case (Chunk k bs)
            then have "a \<le> b \<and> b < a + reg_len r" using h inr by (simp add: new_live_def used_def)
            moreover have "0 < n" using inv_direct[OF inv old[OF 2]] by blast
            ultimately have "a = b" using inv_apart[OF inv a old[OF 2], of b] by simp
            then show False using 2 by simp
          qed (use h 2 in \<open>simp add: new_live_def\<close>)
        qed
        ultimately show ?thesis by blast
      qed
    next
      assume b: "b \<in> live G ?d - new_live r ?d a"
      then consider c k bs where "G c = Some (Chunk k bs)" "b \<in> used ?d bs" | n where "G b = Some (Direct n)"
        unfolding live_def by blast
      then show "b \<in> live ?G ?d'"
      proof cases
        case 1
        then have "c \<noteq> a" using b a by (auto simp: new_live_def)
        then have g: "?G c = Some (Chunk k bs)" using 1(1) by simp
        then show ?thesis using 1(2) fr(2)[OF g] unfolding live_def by blast
      next
        case 2
        then have "b \<noteq> a" using b a by (auto simp: new_live_def)
        then show ?thesis using 2 by (simp add: live_def)
      qed
    qed
  qed
  have E: "extent ?G ?d' b = extent G ?d b \<and> ?d' b = ?d b" if b: "b \<in> live G ?d - new_live r ?d a" for b
  proof -
    have nb: "\<not> (a \<le> b \<and> b < a + reg_len r)"
      using live_in_region[OF inv a, of b] b by (auto simp: new_live_def split: region.splits)
    then have "b \<noteq> a" using reg_len_pos[OF inv a] by auto
    moreover have "?d' b = ?d b" using out nb by blast
    moreover then have "tot ?d' b = tot ?d b" by (simp add: tot_def)
    ultimately show ?thesis by (auto simp: extent_def split: option.split region.split)
  qed
  have "pool_inv ?G s'" unfolding pool_inv_def
  proof (intro conjI)
    show "\<forall>b b' q q'. ?G b = Some q \<and> ?G b' = Some q' \<and> b < b' \<longrightarrow> b + reg_len q \<le> b'"
      using old inv_regions[OF inv] by blast
    show "\<forall>b q. ?G b = Some q \<longrightarrow> (b, reg_len q) \<in> set (mp_maps s')" using maps by (auto split: if_splits)
    have R: "region_ok q s' b" if "?G b = Some q" for b q
      using region_ok_cong[OF inv_region_ok[OF inv old[OF that]]] same[OF that] mem2 by blast
    show "\<forall>c k bs. ?G c = Some (Chunk k bs) \<longrightarrow> chunk_ok ?d' k c bs \<and> get_mem k s' \<noteq> None"
      using R by (fastforce simp: region_ok_def)
    show "\<forall>b n. ?G b = Some (Direct n) \<longrightarrow> 0 < n \<and>
        (\<exists>x. ?d' b = Some x \<and> bd_bin x < 0 \<and> 0 < bd_total x \<and> page_up (bd_total x) = n)"
      using R by (fastforce simp: region_ok_def)
    show "\<forall>k m. get_mem k s' = Some m \<longrightarrow> km_eid m = mr_eid k \<and> bins_ok ?d' m (free_of ?G ?d' k) \<and>
        sync_ok ?G ?d' k (km_sync_list m)"
    proof (intro allI impI)
      fix k m assume h: "get_mem k s' = Some m"
      then obtain m0 where m0: "get_mem k s = Some m0" "km_eid m = km_eid m0" "km_sync_list m = km_sync_list m0"
        "bins_ok ?d' m (free_of G ?d k - new_frees r ?d k)" using mem by blast
      note i = inv_mem[OF inv m0(1)]
      have "limbo ?d' (p - BUFFER_DESC) \<and> (\<exists>c bs. ?G c = Some (Chunk k bs) \<and> p - BUFFER_DESC \<in> set bs)"
        if p: "p \<in> set (km_sync_list m0)" for p
      proof -
        obtain c bs where c: "limbo ?d (p - BUFFER_DESC)" "G c = Some (Chunk k bs)" "p - BUFFER_DESC \<in> set bs"
          using i p by (auto simp: sync_ok_def)
        have "c \<noteq> a" using c a lim by auto
        then have g: "?G c = Some (Chunk k bs)" using c(2) by simp
        have "limbo ?d' (p - BUFFER_DESC)" using c(1) blk[OF g c(3)] by (simp add: limbo_def)
        then show ?thesis using g c(3) by blast
      qed
      then have "sync_ok ?G ?d' k (km_sync_list m)" using i m0(3) by (simp add: sync_ok_def)
      then show "km_eid m = mr_eid k \<and> bins_ok ?d' m (free_of ?G ?d' k) \<and> sync_ok ?G ?d' k (km_sync_list m)"
        using i m0 FR by simp
    qed
  qed
  then show ?thesis using L E by blast
qed

section \<open>A buffer leaves the ones in use\<close>

definition unmapped :: "regions \<Rightarrow> addr \<Rightarrow> bool" where
  "unmapped G x \<longleftrightarrow> (\<forall>a r. G a = Some r \<longrightarrow> \<not> (a \<le> x \<and> x < a + reg_len r))"

lemma unmapped_del:
  assumes "pool_inv G s" and "G a = Some r" and "a \<le> x" "x < a + reg_len r"
  shows "unmapped (G(a := None)) x"
  unfolding unmapped_def using inv_apart[OF assms(1) assms(2) _ assms(3,4)] by (auto split: if_splits)

definition drops :: "regions \<Rightarrow> mpool \<Rightarrow> addr \<Rightarrow> regions \<Rightarrow> mpool \<Rightarrow> bool" where
  "drops G s b G' s' \<longleftrightarrow> (\<forall>x. mp_fast s' x = mp_fast s x \<or> unmapped G' x) \<and> pool_inv G' s' \<and> (\<forall>f. \<forall>z\<in>live G (mp_desc s) - {b}. home G f z \<longrightarrow> home G' f z) \<and> live G' (mp_desc s') = live G (mp_desc s) - {b} \<and>
     (\<forall>z\<in>live G (mp_desc s) - {b}. extent G' (mp_desc s') z = extent G (mp_desc s) z \<and> rf (mp_desc s') z = rf (mp_desc s) z)"

lemma home_del:
  assumes inv: "pool_inv G s" and a: "G a = Some r" and z: "z \<in> live G (mp_desc s) - new_live r (mp_desc s) a" and h: "home G f z"
  shows "home (G(a := None)) f z"
proof -
  obtain c q where c: "G c = Some q" "c \<le> z" "z < c + reg_len q" "case q of Chunk k bs \<Rightarrow> mr_hbw k = f | Direct n \<Rightarrow> True"
    using h unfolding home_def by blast
  have "c \<noteq> a" using live_in_region[OF inv c(1) _ c(2,3)] z a c(1) by (auto simp: new_live_def split: region.splits)
  then show ?thesis using c by (intro home_region[of _ c q]) simp_all
qed

lemma direct_free_ok:
  assumes inv: "pool_inv G s" and g: "G b = Some (Direct n)" and x: "mp_desc s b = Some x"
  shows "drops G s b (G(b := None)) (munmap b (bd_total x) (put_desc b y s))"
proof -
  let ?s = "munmap b (bd_total x) (put_desc b y s)"
  have n: "0 < n" "0 < bd_total x" "page_up (bd_total x) = n" using inv_direct[OF inv g] x by auto
  have d: "mp_desc ?s z = (if b \<le> z \<and> z < b + n then None else mp_desc s z)" for z
    using n by (auto simp: munmap_def)
  have gm: "get_mem k ?s = get_mem k s" for k by (simp add: munmap_def get_mem_def put_desc_def)
  have nf: "z \<in> free_of G (mp_desc s) k \<Longrightarrow> mp_desc ?s z = mp_desc s z" for z k
  proof -
    assume "z \<in> free_of G (mp_desc s) k"
    then obtain c bs where c: "G c = Some (Chunk k bs)" "z \<in> set bs" by (auto simp: free_of_def frees_def)
    have "\<not> (b \<le> z \<and> z < b + n)"
    proof
      assume "b \<le> z \<and> z < b + n"
      then have "b = c" using inv_apart[OF inv g c(1), of z] chunk_block[OF inv_chunk[OF inv c(1)] c(2)] by simp
      then show False using g c(1) by simp
    qed
    then show "mp_desc ?s z = mp_desc s z" by (auto simp: d)
  qed
  have step: "pool_inv (G(b := None)) ?s \<and> live (G(b := None)) (mp_desc ?s) = live G (mp_desc s) - new_live (Direct n) (mp_desc s) b \<and>
    (\<forall>z\<in>live G (mp_desc s) - new_live (Direct n) (mp_desc s) b.
       extent (G(b := None)) (mp_desc ?s) z = extent G (mp_desc s) z \<and> mp_desc ?s z = mp_desc s z)"
  proof (rule region_del[OF inv g])
    show "\<forall>z. \<not> (b \<le> z \<and> z < b + reg_len (Direct n)) \<longrightarrow> mp_desc ?s z = mp_desc s z" by (auto simp: d)
    show "\<forall>a' r'. G a' = Some r' \<and> a' \<noteq> b \<longrightarrow> (a', reg_len r') \<in> set (mp_maps ?s)"
    proof (intro allI impI)
      fix a' r' assume h: "G a' = Some r' \<and> a' \<noteq> b"
      then have "(a', reg_len r') \<in> set (mp_maps s)" "0 < reg_len r'" using inv_maps[OF inv] reg_len_pos[OF inv] by auto
      then show "(a', reg_len r') \<in> set (mp_maps ?s)" using h n by (force simp: munmap_def)
    qed
    show "\<forall>k' m'. get_mem k' ?s = Some m' \<longrightarrow> (\<exists>m. get_mem k' s = Some m \<and> km_eid m' = km_eid m \<and>
      km_sync_list m' = km_sync_list m \<and> bins_ok (mp_desc ?s) m' (free_of G (mp_desc s) k' - new_frees (Direct n) (mp_desc s) k'))"
    proof (intro allI impI)
      fix k' m' assume "get_mem k' ?s = Some m'"
      then have m': "get_mem k' s = Some m'" using gm by simp
      have "bins_ok (mp_desc ?s) m' (free_of G (mp_desc s) k')"
        by (rule inv_same_bins[of _ _ "mp_desc s"]) (use nf inv_mem[OF inv m'] in auto)
      then show "\<exists>m. get_mem k' s = Some m \<and> km_eid m' = km_eid m \<and> km_sync_list m' = km_sync_list m \<and>
        bins_ok (mp_desc ?s) m' (free_of G (mp_desc s) k' - new_frees (Direct n) (mp_desc s) k')" using m' by (simp add: new_frees_def)
    qed
    show "\<forall>k. get_mem k s \<noteq> None \<longrightarrow> get_mem k ?s \<noteq> None" using gm by simp
  qed simp
  have "\<forall>z\<in>live G (mp_desc s) - {b}. rf (mp_desc ?s) z = rf (mp_desc s) z"
    using step[THEN conjunct2, THEN conjunct2] rf_cong[of "mp_desc ?s" _ "mp_desc s"] unfolding new_live_def by simp
  moreover have "\<forall>f. \<forall>z\<in>live G (mp_desc s) - {b}. home G f z \<longrightarrow> home (G(b := None)) f z"
    using home_del[OF inv g] by (simp add: new_live_def)
  moreover have "mp_fast ?s x' = mp_fast s x' \<or> unmapped (G(b := None)) x'" for x'
    using unmapped_del[OF inv g, of x'] n by (auto simp: munmap_def)
  ultimately show ?thesis using step by (simp add: drops_def new_live_def)
qed

section \<open>Merging\<close>

text \<open>A freed buffer is a free one whose neighbour does not know.\<close>

lemma tiles_release:
  assumes t: "tiles d pf a (xs @ b # ys) e" and x: "d b = Some x" "bd_total x = - T" "0 < T"
    and y: "bd_total y = T" "bd_prev_free y = bd_prev_free x"
  shows "tiles (d(b := Some y)) pf a (xs @ b # ys) e"
proof -
  obtain p m where "seg d pf a xs p m" "tiles d p m (b # ys) e" using t tiles_append by blast
  moreover have "tot d b = - T" using x by (simp add: tot_def)
  ultimately have 1: "seg d pf a xs p b" "buffer_ok d p b" "tiles d 0 (b + T) ys e" using x(3) by auto
  let ?d = "d(b := Some y)"
  have "b \<notin> set xs" using seg_range[OF 1(1)] by (force simp: BUFFER_DESC_def)
  then have "seg ?d pf a xs p b" using 1(1) by (rule seg_upd_other[rotated])
  moreover have "b \<notin> insert e (set ys)" using tiles_range[OF 1(3)] x(3) by force
  then have "tiles ?d 0 (b + T) ys e" using 1(3) by (rule tiles_upd_other[rotated])
  then have "tiles ?d T (b + T) ys e" using tiles_hd tiles_relax by blast
  moreover have "buffer_ok ?d p b" using 1(2) x y by (auto simp: buffer_ok_def)
  moreover have "tot ?d b = T" using y by (simp add: tot_def)
  ultimately show ?thesis using x(3) unfolding tiles_append by (intro exI[of _ p] exI[of _ b]) simp
qed

text \<open>
  The state while buffers are merged: the buffers \<open>ws\<close> of the chunk are one now, at \<open>a\<close>, and it is in
  no list.
\<close>

definition merging :: "regions \<Rightarrow> mpool \<Rightarrow> mem_ref \<Rightarrow> kupl_memory \<Rightarrow> addr \<Rightarrow> addr list \<Rightarrow> addr \<Rightarrow>
    addr list \<Rightarrow> addr list \<Rightarrow> addr \<Rightarrow> addr list \<Rightarrow> mpool \<Rightarrow> bool" where
  "merging G s k m c bs b xs ws a ys s1 \<longleftrightarrow>
     around (mp_desc s1) c xs a ys (c + (MEM_CHUNK_GROW_SIZE - BUFFER_DESC)) \<and> 0 < tot (mp_desc s1) a \<and>
     bs = xs @ ws @ ys \<and> a \<in> set ws \<and> b \<in> set ws \<and> (\<forall>z\<in>set ws - {b}. 0 < tot (mp_desc s) z) \<and>
     (\<forall>z. z \<notin> set ws \<longrightarrow> mp_desc s1 z = mp_desc s z) \<and> mp_fast s1 = mp_fast s \<and>
     (\<exists>x. mp_desc s1 a = Some x \<and> bd_eid x = mr_eid k \<and> 0 \<le> bd_bin x) \<and>
     mp_maps s1 = mp_maps s \<and>
     (\<exists>m1. (\<forall>k'. get_mem k' s1 = (if k' = k then Some m1 else get_mem k' s)) \<and> km_eid m1 = km_eid m \<and>
        km_sync_list m1 = km_sync_list m \<and> bins_ok (mp_desc s1) m1 (free_of G (mp_desc s) k - set ws))"

lemma del_free_simps:
  assumes "get_mem k s = Some m"
  shows "del_free k a i s = Some (put_mem k (count_bin (\<lambda>n. n - 1) i (list_del a m)) s)"
  using assms by (simp add: del_free_def)

lemma distinct_bs:
  assumes "pool_inv G s" and "G c = Some (Chunk k bs)"
  shows "distinct bs"
  using inv_chunk[OF assms] tiles_range unfolding chunk_ok_def by blast

lemma chunk_free_of: "G c = Some (Chunk k bs) \<Longrightarrow> z \<in> set bs \<Longrightarrow> 0 < tot d z \<Longrightarrow> z \<in> free_of G d k"
  by (auto simp: free_of_def frees_def)

lemma merge_prev_ok:
  assumes inv: "pool_inv G s" and c: "G c = Some (Chunk k bs)" and M: "merging G s k m c bs b xs [a] a ys s1"
  shows "\<exists>xs' ws' a' s2. merge_prev k a i s1 = Some (a', s2) \<and> merging G s k m c bs b xs' ws' a' ys s2"
proof -
  let ?d = "mp_desc s1"
  obtain x m1 where x: "?d a = Some x" "bd_eid x = mr_eid k" "0 \<le> bd_bin x" and
    m1: "\<forall>k'. get_mem k' s1 = (if k' = k then Some m1 else get_mem k' s)" "km_eid m1 = km_eid m" "km_sync_list m1 = km_sync_list m"
      "bins_ok ?d m1 (free_of G (mp_desc s) k - set [a])"
    using M unfolding merging_def by blast
  have ar: "around ?d c xs a ys (c + (MEM_CHUNK_GROW_SIZE - BUFFER_DESC))" and bs: "bs = xs @ [a] @ ys" and ab: "b = a"
    and T: "0 < bd_total x" and same: "\<forall>z. z \<noteq> a \<longrightarrow> ?d z = mp_desc s z" and maps: "mp_maps s1 = mp_maps s" "mp_fast s1 = mp_fast s"
    using M x(1) by (auto simp: merging_def tot_def)
  show ?thesis
  proof (cases "bd_prev_free x = 0")
    case True
    then have "merge_prev k a i s1 = Some (a, s1)" using x by (simp add: merge_prev_def)
    then show ?thesis using M by blast
  next
    case False
    let ?q = "bd_prev_free x" and ?p = "a - bd_prev_free x"
    obtain xs' z where z: "xs = xs' @ [?p]" "?d ?p = Some z" "bd_total z = ?q" "0 < ?q"
      "around (?d(?p := Some (z\<lparr>bd_total := ?q + bd_total x\<rparr>))) c xs' ?p ys (c + (MEM_CHUNK_GROW_SIZE - BUFFER_DESC))"
      using around_prev[OF ar x(1) refl T refl False] by blast
    let ?z = "z\<lparr>bd_total := ?q + bd_total x\<rparr>"
    let ?m2 = "count_bin (\<lambda>n. n - 1) i (list_del ?p m1)"
    let ?s2 = "put_mem k ?m2 (put_desc ?p ?z s1)"
    have pz: "mp_desc s ?p = Some z" using same z(2,4) by auto
    have run: "merge_prev k a i s1 = Some (?p, ?s2)"
      using x(1) z(2,3) False m1(1) del_free_simps[of k "put_desc ?p ?z s1" m1 ?p i] by (simp add: merge_prev_def Let_def)
    have g2: "get_mem k' ?s2 = (if k' = k then Some ?m2 else get_mem k' s)" for k'
      using m1(1) get_put_mem[of k' k ?m2 "put_desc ?p ?z s1"] by (simp add: get_mem_def put_desc_def)
    have "?p \<in> set bs" using bs z(1) by simp
    then obtain w where w: "mp_desc s ?p = Some w" "bd_eid w = mr_eid k" "0 \<le> bd_bin w"
      using chunk_desc[OF inv_chunk[OF inv c]] by metis
    have zw: "bd_eid z = mr_eid k" "0 \<le> bd_bin z" using w pz by simp_all
    have tz: "0 < tot (mp_desc s) ?p" using pz z(3,4) by (simp add: tot_def)
    have "bins_ok (?d(?p := Some ?z)) ?m2 (free_of G (mp_desc s) k - set [a] - {?p})"
      using bins_del[OF m1(4), of ?p "?d(?p := Some ?z)"] by (simp add: tot_def)
    moreover have "free_of G (mp_desc s) k - set [a] - {?p} = free_of G (mp_desc s) k - set [?p, a]" by auto
    ultimately have bins: "bins_ok (mp_desc ?s2) ?m2 (free_of G (mp_desc s) k - set [?p, a])" by simp
    have "merging G s k m c bs b xs' [?p, a] ?p ys ?s2"
      unfolding merging_def
    proof (intro conjI)
      show "\<exists>m1. (\<forall>k'. get_mem k' ?s2 = (if k' = k then Some m1 else get_mem k' s)) \<and> km_eid m1 = km_eid m \<and>
        km_sync_list m1 = km_sync_list m \<and> bins_ok (mp_desc ?s2) m1 (free_of G (mp_desc s) k - set [?p, a])"
        using g2 m1(2,3) bins by (intro exI[of _ ?m2]) simp
    qed (use z(1,4,5) bs ab tz same maps zw T in \<open>auto simp: tot_def\<close>)
    then show ?thesis using run by blast
  qed
qed

lemma merge_next_ok:
  assumes inv: "pool_inv G s" and c: "G c = Some (Chunk k bs)" and M: "merging G s k m c bs b xs ws a ys s1"
  shows "\<exists>ws' ys' s2. merge_next k a i s1 = Some s2 \<and> merging G s k m c bs b xs ws' a ys' s2"
proof -
  let ?d = "mp_desc s1" and ?e = "c + (MEM_CHUNK_GROW_SIZE - BUFFER_DESC)"
  obtain x m1 where x: "?d a = Some x" "bd_eid x = mr_eid k" "0 \<le> bd_bin x" and
    m1: "\<forall>k'. get_mem k' s1 = (if k' = k then Some m1 else get_mem k' s)" "km_eid m1 = km_eid m" "km_sync_list m1 = km_sync_list m"
      "bins_ok ?d m1 (free_of G (mp_desc s) k - set ws)"
    using M unfolding merging_def by blast
  have ar: "around ?d c xs a ys ?e" and bs: "bs = xs @ ws @ ys" and ws: "a \<in> set ws" "b \<in> set ws" "\<forall>z\<in>set ws - {b}. 0 < tot (mp_desc s) z"
    and T: "0 < bd_total x" and same: "\<forall>z. z \<notin> set ws \<longrightarrow> ?d z = mp_desc s z" and maps: "mp_maps s1 = mp_maps s" "mp_fast s1 = mp_fast s"
    using M x(1) unfolding merging_def by (simp_all add: tot_def)
  let ?n = "a + bd_total x"
  obtain pf where "tiles ?d pf ?n ys ?e" using ar x(1) T by (auto simp: around_def tot_def)
  then obtain nd where nd: "?d ?n = Some nd" using tiles_hd by blast
  show ?thesis
  proof (cases "0 < bd_total nd")
    case False
    then have "merge_next k a i s1 = Some s1" using x(1) nd by (simp add: merge_next_def)
    then show ?thesis using M by blast
  next
    case True
    let ?x = "x\<lparr>bd_total := bd_total x + bd_total nd\<rparr>"
    obtain ys' where ys: "ys = ?n # ys'" "around (?d(a := Some ?x)) c xs a ys' ?e"
      using around_next[OF ar x(1) refl T nd True] by blast
    let ?m2 = "count_bin (\<lambda>n. n - 1) i (list_del ?n m1)"
    let ?s2 = "put_mem k ?m2 (put_desc a ?x s1)"
    have run: "merge_next k a i s1 = Some ?s2"
      using x(1) nd True m1(1) del_free_simps[of k "put_desc a ?x s1" m1 ?n i] by (simp add: merge_next_def)
    have g2: "get_mem k' ?s2 = (if k' = k then Some ?m2 else get_mem k' s)" for k'
      using m1(1) get_put_mem[of k' k ?m2 "put_desc a ?x s1"] by (simp add: get_mem_def put_desc_def)
    have "distinct bs" by (rule distinct_bs[OF inv c])
    then have nw: "?n \<notin> set ws" using bs ys(1) by auto
    then have dn: "mp_desc s ?n = Some nd" using same nd by simp
    then have tn: "0 < tot (mp_desc s) ?n" using True by (simp add: tot_def)
    have "\<forall>z\<in>free_of G (mp_desc s) k - set ws - {?n}. tot (?d(a := Some ?x)) z = tot ?d z" using ws(1) by (auto simp: tot_def)
    from bins_del[OF m1(4) this] have "bins_ok (mp_desc ?s2) ?m2 (free_of G (mp_desc s) k - set ws - {?n})" by simp
    moreover have "free_of G (mp_desc s) k - set ws - {?n} = free_of G (mp_desc s) k - set (ws @ [?n])" by auto
    ultimately have bins: "bins_ok (mp_desc ?s2) ?m2 (free_of G (mp_desc s) k - set (ws @ [?n]))" by simp
    have "merging G s k m c bs b xs (ws @ [?n]) a ys' ?s2"
      unfolding merging_def
    proof (intro conjI)
      show "\<exists>m1. (\<forall>k'. get_mem k' ?s2 = (if k' = k then Some m1 else get_mem k' s)) \<and> km_eid m1 = km_eid m \<and>
        km_sync_list m1 = km_sync_list m \<and> bins_ok (mp_desc ?s2) m1 (free_of G (mp_desc s) k - set (ws @ [?n]))"
        using g2 m1(2,3) bins by (intro exI[of _ ?m2]) simp
      show "\<forall>z\<in>set (ws @ [?n]) - {b}. 0 < tot (mp_desc s) z" using ws(3) tn by auto
      show "\<forall>z. z \<notin> set (ws @ [?n]) \<longrightarrow> mp_desc ?s2 z = mp_desc s z" using same ws(1) by auto
    qed (use ys ws(1,2) bs maps x T True in \<open>auto simp: tot_def\<close>)
    then show ?thesis using run by blast
  qed
qed

lemma free_in_chunk:
  assumes inv: "pool_inv G s" and c: "G c = Some (Chunk k bs)" and z: "z \<in> free_of G (mp_desc s) k"
  shows "z \<in> frees (mp_desc s) bs \<or> \<not> (c \<le> z \<and> z < c + MEM_CHUNK_GROW_SIZE)"
proof -
  obtain c' bs' where c': "G c' = Some (Chunk k bs')" "z \<in> frees (mp_desc s) bs'" using z unfolding free_of_def by blast
  then have b: "z \<in> set bs'" by (simp add: frees_def)
  note r = chunk_block[OF inv_chunk[OF inv c'(1)] b]
  show ?thesis
  proof (cases "c \<le> z \<and> z < c + MEM_CHUNK_GROW_SIZE")
    case True
    then have "c = c'" using inv_apart[OF inv c c'(1), of z] r by simp
    then show ?thesis using c c' by simp
  qed simp
qed

text \<open>The merged buffer goes into a free list.\<close>

lemma insert_ok:
  assumes inv: "pool_inv G s" and c: "G c = Some (Chunk k bs)" and m: "get_mem k s = Some m"
    and b: "b \<in> set bs" "tot (mp_desc s) b < 0" "\<not> limbo (mp_desc s) b"
    and bs: "bs = xs @ ws @ ys" "a \<in> set ws" "b \<in> set ws" "\<forall>z\<in>set ws - {b}. 0 < tot (mp_desc s) z"
    and t: "tiles (mp_desc s3) 0 c (xs @ a # ys) (c + (MEM_CHUNK_GROW_SIZE - BUFFER_DESC))"
    and a: "mp_desc s3 a = Some x" "bd_eid x = mr_eid k" "0 < bd_total x"
    and oth: "\<forall>z\<in>set xs \<union> set ys. tot (mp_desc s3) z = tot (mp_desc s) z \<and> rf (mp_desc s3) z = rf (mp_desc s) z \<and>
      (\<exists>w. mp_desc s3 z = Some w \<and> bd_eid w = mr_eid k \<and> 0 \<le> bd_bin w)"
    and out: "\<forall>z. \<not> (c \<le> z \<and> z < c + MEM_CHUNK_GROW_SIZE) \<longrightarrow> mp_desc s3 z = mp_desc s z"
    and maps: "mp_maps s3 = mp_maps s" and fast: "mp_fast s3 = mp_fast s"
    and mem: "\<forall>k'. get_mem k' s3 = (if k' = k then Some m1 else get_mem k' s)" "km_eid m1 = km_eid m"
      "km_sync_list m1 = km_sync_list m" "bins_ok (mp_desc s3) m1 (free_of G (mp_desc s) k - set ws)"
  shows "\<exists>s4. kupl_normal_insert_into_freelist k a s3 = Some s4 \<and> drops G s b (G(c \<mapsto> Chunk k (xs @ a # ys))) s4"
proof -
  let ?d = "mp_desc s" and ?bs = "xs @ a # ys" and ?G = "G(c \<mapsto> Chunk k (xs @ a # ys))"
  define i where "i = mem_bin (bd_total x)"
  define D where "D = (mp_desc s3)(a := Some (x\<lparr>bd_bin := int i\<rparr>))"
  define m2 where "m2 = count_bin (\<lambda>n. n + 1) i (m1\<lparr>km_bins := (km_bins m1)(i := a # km_bins m1 i)\<rparr>)"
  let ?s4 = "put_mem k m2 (put_desc a (x\<lparr>bd_bin := int i\<rparr>) s3)"
  have run: "kupl_normal_insert_into_freelist k a s3 = Some ?s4"
    using a(1) mem(1) by (simp add: kupl_normal_insert_into_freelist_def Let_def i_def m2_def)
  have d4: "mp_desc ?s4 = D" by (simp add: D_def)
  have dist: "distinct bs" by (rule distinct_bs[OF inv c])
  then have an: "a \<notin> set xs" "a \<notin> set ys" "\<forall>z\<in>set ws. z \<notin> set xs \<and> z \<notin> set ys" using bs(1,2) by auto
  have totD: "tot D z = (if z = a then bd_total x else tot (mp_desc s3) z)" for z by (simp add: D_def tot_def)
  have rfD: "z \<noteq> a \<Longrightarrow> rf D z = rf (mp_desc s3) z" for z by (simp add: D_def rf_def)
  have othD: "tot D z = tot ?d z \<and> rf D z = rf ?d z" if "z \<in> set xs \<union> set ys" for z
    using oth that an totD[of z] rfD[of z] by auto
  have "\<forall>z. tag D z = tag (mp_desc s3) z" using a(1) by (auto simp: tag_def D_def)
  then have tD: "tiles D 0 c ?bs (c + (MEM_CHUNK_GROW_SIZE - BUFFER_DESC))" using t tiles_tag[of _ ?bs D "mp_desc s3"] by blast
  have "\<exists>w. D z = Some w \<and> bd_eid w = mr_eid k \<and> 0 \<le> bd_bin w" if z: "z \<in> set ?bs" for z
  proof (cases "z = a")
    case True
    then show ?thesis using a by (simp add: D_def)
  next
    case False
    then have "D z = mp_desc s3 z" "z \<in> set xs \<union> set ys" using z by (auto simp: D_def)
    then show ?thesis using oth by auto
  qed
  then have ok: "chunk_ok D k c ?bs" using tD by (simp add: chunk_ok_def)
  have fr: "frees D ?bs = insert a (frees ?d bs - set ws)"
    using othD an totD[of a] a(3) bs(1) by (auto simp: frees_def)
  have us: "used D ?bs = used ?d bs - {b}"
  proof (rule set_eqI)
    fix z
    show "z \<in> used D ?bs \<longleftrightarrow> z \<in> used ?d bs - {b}"
    proof (cases "z \<in> set xs \<union> set ys")
      case True
      then have "z \<noteq> a" "z \<noteq> b" using an bs(3) by auto
      then show ?thesis using True othD[OF True] bs(1) by (auto simp: used_def)
    next
      case False
      then have "z \<notin> used D ?bs" using totD[of z] a(3) by (auto simp: used_def)
      moreover have "z \<notin> used ?d bs - {b}" using False bs(1,4) by (force simp: used_def)
      ultimately show ?thesis by blast
    qed
  qed
  have FRsplit: "free_of G ?d k - frees ?d bs \<union> frees D ?bs = insert a (free_of G ?d k - set ws)"
  proof -
    have sub: "frees ?d bs \<subseteq> free_of G ?d k" using c unfolding free_of_def by blast
    have "z \<in> frees ?d bs" if z: "z \<in> free_of G ?d k" "z \<in> set ws" for z
    proof -
      have "z \<in> set bs" using z(2) bs(1) by simp
      then have "c \<le> z \<and> z < c + MEM_CHUNK_GROW_SIZE" using chunk_block[OF inv_chunk[OF inv c]] by blast
      then show ?thesis using free_in_chunk[OF inv c z(1)] by blast
    qed
    then show ?thesis using fr sub by blast
  qed
  have anF: "a \<notin> free_of G ?d k - set ws" using bs(2) by blast
  have "bins_ok D m1 (free_of G ?d k - set ws)"
  proof (rule bins_cong[OF mem(4)])
    show "\<forall>z\<in>free_of G ?d k - set ws. tot D z = tot (mp_desc s3) z" using totD bs(2) by auto
  qed
  from bins_ins[OF this anF] have "bins_ok D (m1\<lparr>km_bins := (km_bins m1)(i := a # km_bins m1 i)\<rparr>) (insert a (free_of G ?d k - set ws))"
    by (simp add: totD i_def)
  then have "bins_ok D m2 (insert a (free_of G ?d k - set ws))" by (simp add: m2_def)
  then have bins: "bins_ok (mp_desc ?s4) m2 (free_of G ?d k - frees ?d bs \<union> frees (mp_desc ?s4) ?bs)"
    unfolding d4 FRsplit .
  have outD: "\<forall>z. \<not> (c \<le> z \<and> z < c + MEM_CHUNK_GROW_SIZE) \<longrightarrow> mp_desc ?s4 z = ?d z"
  proof (intro allI impI)
    fix z assume z: "\<not> (c \<le> z \<and> z < c + MEM_CHUNK_GROW_SIZE)"
    have "a \<in> set bs" using bs(1,2) by simp
    then have "z \<noteq> a" using chunk_block[OF inv_chunk[OF inv c]] z by blast
    then show "mp_desc ?s4 z = ?d z" using out z unfolding d4 D_def by simp
  qed
  have g4: "\<forall>k'. get_mem k' ?s4 = (if k' = k then Some m2 else get_mem k' s)"
    using mem(1) get_put_mem[of _ k m2 "put_desc a (x\<lparr>bd_bin := int i\<rparr>) s3"] by (simp add: get_mem_def put_desc_def)
  have lim: "\<forall>z\<in>set bs. limbo ?d z \<longrightarrow> z \<in> set ?bs \<and> limbo (mp_desc ?s4) z"
  proof (intro ballI impI)
    fix z assume z: "z \<in> set bs" "limbo ?d z"
    then obtain w where w: "?d z = Some w" "bd_total w < 0" "bd_ref w = 0" by (auto simp: limbo_def)
    then have "tot ?d z < 0" by (simp add: tot_def)
    then have zx: "z \<in> set xs \<union> set ys" using z bs(1,4) b(3) by force
    then obtain w' where w': "mp_desc s3 z = Some w'" using oth by blast
    have "z \<noteq> a" using zx an by auto
    then have "D z = Some w'" using w' by (simp add: D_def)
    then have "limbo D z" using othD[OF zx] w by (simp add: limbo_def tot_def rf_def)
    then show "z \<in> set ?bs \<and> limbo (mp_desc ?s4) z" using zx d4 by auto
  qed
  have step: "pool_inv ?G ?s4 \<and> live ?G (mp_desc ?s4) = live G ?d - used ?d bs \<union> used (mp_desc ?s4) ?bs \<and>
      (\<forall>z. \<not> (c \<le> z \<and> z < c + MEM_CHUNK_GROW_SIZE) \<longrightarrow> extent ?G (mp_desc ?s4) z = extent G ?d z)"
  proof (rule chunk_step[OF inv c m outD _ g4 _ _ _ bins lim])
    show "mp_maps ?s4 = mp_maps s" using maps by simp
    show "chunk_ok (mp_desc ?s4) k c ?bs" using ok d4 by simp
  qed (use mem(2,3) in \<open>simp_all add: m2_def\<close>)
  have inv4: "pool_inv ?G ?s4" using step by blast
  have L: "live ?G (mp_desc ?s4) = live G ?d - {b}"
  proof -
    have "used ?d bs \<subseteq> live G ?d" using c unfolding live_def by blast
    moreover have "b \<in> used ?d bs" using b by (simp add: used_def)
    ultimately show ?thesis using step us unfolding d4 by blast
  qed
  have "extent ?G (mp_desc ?s4) z = extent G ?d z \<and> rf (mp_desc ?s4) z = rf ?d z" if z: "z \<in> live G ?d - {b}" for z
  proof (cases "c \<le> z \<and> z < c + MEM_CHUNK_GROW_SIZE")
    case True
    then have u: "z \<in> used ?d bs" using live_in_region[OF inv c, of z] z by simp
    then have zx: "z \<in> set xs \<union> set ys" using z bs(1,4) by (force simp: used_def)
    then have "z \<in> set bs" "z \<in> set ?bs" using bs(1) by auto
    then show ?thesis using extent_chunk[OF inv c, of z] extent_chunk[OF inv4, of c k ?bs z] othD[OF zx] d4 by simp
  next
    case False
    then show ?thesis using step outD rf_cong[of "mp_desc ?s4" z ?d] by blast
  qed
  moreover have "mp_fast ?s4 = mp_fast s" using fast by simp
  ultimately show ?thesis using run inv4 L home_chunk[of G c k bs, OF c] unfolding drops_def by metis
qed

text \<open>The whole chunk is free and goes back to the system.\<close>

lemma unmap_ok:
  assumes inv: "pool_inv G s" and c: "G c = Some (Chunk k bs)" and m: "get_mem k s = Some m"
    and b: "b \<in> set bs" "tot (mp_desc s) b < 0" "\<not> limbo (mp_desc s) b"
    and bs: "\<forall>z\<in>set bs - {b}. 0 < tot (mp_desc s) z"
    and out: "\<forall>z. \<not> (c \<le> z \<and> z < c + MEM_CHUNK_GROW_SIZE) \<longrightarrow> mp_desc s3 z = mp_desc s z"
    and maps: "mp_maps s3 = mp_maps s" and fast: "mp_fast s3 = mp_fast s"
    and mem: "\<forall>k'. get_mem k' s3 = (if k' = k then Some m1 else get_mem k' s)" "km_eid m1 = km_eid m"
      "km_sync_list m1 = km_sync_list m" "bins_ok (mp_desc s3) m1 (free_of G (mp_desc s) k - set bs)"
  shows "drops G s b (G(c := None)) (munmap c (MEM_CHUNK_GROW_SIZE - BUFFER_DESC) s3)"
proof -
  let ?d = "mp_desc s" and ?s = "munmap c (MEM_CHUNK_GROW_SIZE - BUFFER_DESC) s3"
  have pu: "page_up (MEM_CHUNK_GROW_SIZE - BUFFER_DESC) = MEM_CHUNK_GROW_SIZE" by (simp add: page_up_def mem_sizes)
  have pos: "\<not> MEM_CHUNK_GROW_SIZE - BUFFER_DESC \<le> 0" by (simp add: mem_sizes)
  have d4: "mp_desc ?s z = (if c \<le> z \<and> z < c + MEM_CHUNK_GROW_SIZE then None else ?d z)" for z
    using out pos by (simp add: munmap_def pu)
  have g4: "get_mem k' ?s = get_mem k' s3" for k' by (simp add: munmap_def get_mem_def)
  have frs: "frees ?d bs = set bs - {b}" using bs b(2) by (auto simp: frees_def)
  have nfr: "new_frees (Chunk k bs) ?d k' = (if k' = k then frees ?d bs else {})" for k' by (simp add: new_frees_def)
  have FRo: "free_of G ?d k - set bs = free_of G ?d k - frees ?d bs"
  proof -
    have "b \<notin> free_of G ?d k" using b(2) by (auto simp: free_of_def frees_def)
    then show ?thesis using frs by blast
  qed
  have outr: "\<not> (c \<le> z \<and> z < c + MEM_CHUNK_GROW_SIZE)" if z: "z \<in> free_of G ?d k' - new_frees (Chunk k bs) ?d k'" for z k'
  proof (cases "k' = k")
    case True
    then show ?thesis using z free_in_chunk[OF inv c, of z] by (auto simp: nfr)
  next
    case False
    have "z \<in> free_of G ?d k'" using z by blast
    then obtain c' bs' where c': "G c' = Some (Chunk k' bs')" "z \<in> frees ?d bs'" unfolding free_of_def by blast
    have zb: "z \<in> set bs'" using c'(2) by (simp add: frees_def)
    have "c' \<noteq> c" using c c'(1) False by auto
    then show ?thesis using inv_apart[OF inv c c'(1), of z] chunk_block[OF inv_chunk[OF inv c'(1)] zb] by auto
  qed
  have step: "pool_inv (G(c := None)) ?s \<and> live (G(c := None)) (mp_desc ?s) = live G ?d - new_live (Chunk k bs) ?d c \<and>
    (\<forall>z\<in>live G ?d - new_live (Chunk k bs) ?d c. extent (G(c := None)) (mp_desc ?s) z = extent G ?d z \<and> mp_desc ?s z = ?d z)"
  proof (rule region_del[OF inv c])
    show "\<forall>z. \<not> (c \<le> z \<and> z < c + reg_len (Chunk k bs)) \<longrightarrow> mp_desc ?s z = ?d z" by (simp add: d4)
    show "\<forall>a' r'. G a' = Some r' \<and> a' \<noteq> c \<longrightarrow> (a', reg_len r') \<in> set (mp_maps ?s)"
    proof (intro allI impI)
      fix a' r' assume h: "G a' = Some r' \<and> a' \<noteq> c"
      then have "(a', reg_len r') \<in> set (mp_maps s3)" "0 < reg_len r'" using inv_maps[OF inv] reg_len_pos[OF inv] maps by auto
      then show "(a', reg_len r') \<in> set (mp_maps ?s)" using h pos by (force simp: munmap_def)
    qed
    show "\<forall>k' m'. get_mem k' ?s = Some m' \<longrightarrow> (\<exists>m. get_mem k' s = Some m \<and> km_eid m' = km_eid m \<and>
      km_sync_list m' = km_sync_list m \<and> bins_ok (mp_desc ?s) m' (free_of G ?d k' - new_frees (Chunk k bs) ?d k'))"
    proof (intro allI impI)
      fix k' m' assume h: "get_mem k' ?s = Some m'"
      show "\<exists>m. get_mem k' s = Some m \<and> km_eid m' = km_eid m \<and>
        km_sync_list m' = km_sync_list m \<and> bins_ok (mp_desc ?s) m' (free_of G ?d k' - new_frees (Chunk k bs) ?d k')"
      proof (cases "k' = k")
        case True
        then have m': "m' = m1" using h mem(1) g4 by simp
        have "bins_ok (mp_desc ?s) m1 (free_of G ?d k - frees ?d bs)"
        proof (rule inv_same_bins[of _ _ "mp_desc s3"])
          show "\<forall>z\<in>free_of G ?d k - frees ?d bs. mp_desc ?s z = mp_desc s3 z"
          proof
            fix z assume "z \<in> free_of G ?d k - frees ?d bs"
            then have "\<not> (c \<le> z \<and> z < c + MEM_CHUNK_GROW_SIZE)" using outr[of z k] nfr[of k] by simp
            then show "mp_desc ?s z = mp_desc s3 z" using out d4[of z] by auto
          qed
          show "bins_ok (mp_desc s3) m1 (free_of G ?d k - frees ?d bs)" using mem(4) FRo by simp
        qed
        then show ?thesis using True m' m mem(2,3) nfr by simp
      next
        case False
        then have m': "get_mem k' s = Some m'" using h mem(1) g4 by simp
        have "bins_ok (mp_desc ?s) m' (free_of G ?d k')"
          by (rule inv_same_bins[of _ _ ?d]) (use outr[of _ k'] d4 nfr False inv_mem[OF inv m'] in auto)
        then show ?thesis using False m' nfr by simp
      qed
    qed
    show "\<forall>k'. get_mem k' s \<noteq> None \<longrightarrow> get_mem k' ?s \<noteq> None" using g4 mem(1) by simp
    show "case Chunk k bs of Chunk k bs \<Rightarrow> \<forall>z\<in>set bs. \<not> limbo ?d z | Direct n \<Rightarrow> True"
      using bs b(3) by (force simp: limbo_def tot_def)
  qed
  have "used ?d bs = {b}" using b bs by (force simp: used_def)
  then have nl: "new_live (Chunk k bs) ?d c = {b}" by (simp add: new_live_def)
  have "\<forall>z\<in>live G ?d - {b}. rf (mp_desc ?s) z = rf ?d z"
    using step[THEN conjunct2, THEN conjunct2] rf_cong[of "mp_desc ?s" _ ?d] unfolding nl by simp
  moreover have "\<forall>f. \<forall>z\<in>live G ?d - {b}. home G f z \<longrightarrow> home (G(c := None)) f z"
    using home_del[OF inv c] unfolding nl by simp
  moreover have "mp_fast ?s x' = mp_fast s x' \<or> unmapped (G(c := None)) x'" for x'
    using unmapped_del[OF inv c, of x'] fast pos by (auto simp: munmap_def pu)
  ultimately show ?thesis using step unfolding drops_def nl by simp
qed

section \<open>Return by the owner\<close>

lemma frame_merge:
  assumes "do {
         (a, s) \<leftarrow> merge_prev k b i s2;
         s \<leftarrow> merge_next k a i s;
         d \<leftarrow> mp_desc s a;
         nd \<leftarrow> mp_desc s (a + bd_total d);
         let s = put_desc (a + bd_total d) (nd\<lparr>bd_prev_free := bd_total d\<rparr>) s;
         m \<leftarrow> get_mem k s;
         if MEM_IS_WHOLE_CHUNK d \<and> km_alloc_chunks m \<ge> 2 then Some (munmap a (bd_total d) s)
         else kupl_normal_insert_into_freelist k a s
       } = Some s'"
  shows "frame0 s2 s'"
proof -
  obtain a s3 where 1: "merge_prev k b i s2 = Some (a, s3)" using assms by (cases "merge_prev k b i s2") auto
  obtain s4 where 2: "merge_next k a i s3 = Some s4" using assms 1 by (cases "merge_next k a i s3") auto
  obtain d where 3: "mp_desc s4 a = Some d" using assms 1 2 by (cases "mp_desc s4 a") auto
  obtain nd where 4: "mp_desc s4 (a + bd_total d) = Some nd" using assms 1 2 3 by (cases "mp_desc s4 (a + bd_total d)") auto
  let ?s5 = "put_desc (a + bd_total d) (nd\<lparr>bd_prev_free := bd_total d\<rparr>) s4"
  obtain m where 5: "get_mem k s4 = Some m" using assms 1 2 3 4 by (cases "get_mem k s4") (auto simp: Let_def)
  have "frame0 ?s5 s'"
  proof (cases "MEM_IS_WHOLE_CHUNK d \<and> km_alloc_chunks m \<ge> 2")
    case True
    then have "s' = munmap a (bd_total d) ?s5" using assms 1 2 3 4 5 by (simp add: Let_def)
    then show ?thesis by simp
  next
    case False
    then have "kupl_normal_insert_into_freelist k a ?s5 = Some s'" using assms 1 2 3 4 5 by (auto simp: Let_def)
    then show ?thesis by (rule frame_frame0[OF frame_insert])
  qed
  then show ?thesis
    using frame0_trans[OF frame_frame0[OF mframe_trans[OF frame_merge_prev[OF 1] mframe_trans[OF frame_merge_next[OF 2] frame_put_desc]]]] by blast
qed

lemma frame_free:
  assumes f: "kupl_normal_free k p s = Some s'"
  shows "frame0 s s'"
proof -
  let ?a = "p - BUFFER_DESC"
  obtain d where d: "mp_desc s ?a = Some d" using f by (cases "mp_desc s ?a") (auto simp: kupl_normal_free_def Let_def)
  define d1 where "d1 = d\<lparr>bd_ref := bd_ref d - 1\<rparr>"
  define s1 where "s1 = put_desc ?a d1 s"
  define s2 where "s2 = put_desc ?a (d1\<lparr>bd_total := - bd_total d1\<rparr>) s1"
  define i where "i = nat (bd_bin d1)"
  have f1: "frame s s1" "frame s s2" unfolding s2_def s1_def using mframe_trans[OF frame_put_desc frame_put_desc] by simp_all
  note run = f[unfolded kupl_normal_free_def Let_def d bind.simps option.case d1_def[symmetric] s1_def[symmetric] s2_def[symmetric] i_def[symmetric]]
  show ?thesis
  proof (cases "bd_ref d1 > 0 \<or> bd_bin d1 < 0")
    case True
    then have "s' = s1 \<or> s' = munmap ?a (bd_total d1) s1" using run by (auto split: if_splits)
    then show ?thesis using frame_frame0[OF f1(1)] frame0_trans[OF frame_frame0[OF f1(1)] frame_munmap] by blast
  next
    case False
    then obtain m where m: "get_mem k s1 = Some m" using run by (cases "get_mem k s1") auto
    show ?thesis
    proof (cases "bd_eid d1 \<noteq> km_eid m \<or> km_bins_count m i < KUPL_MEM_BINS_THRESHOLD")
      case True
      then consider "kupl_normal_sync_list_enqueue (Mem (mr_hbw k) (bd_eid d1)) p s1 = Some s'"
        | "kupl_normal_insert_into_freelist k ?a s2 = Some s'" using run False m by (auto split: if_splits)
      then show ?thesis using frame_frame0[OF mframe_trans[OF f1(1) frame_enqueue]] frame_frame0[OF mframe_trans[OF f1(2) frame_insert]] by cases blast+
    next
      case F2: False
      have "frame0 s2 s'" by (rule frame_merge[of k ?a i]) (use run False m F2 in \<open>simp add: Let_def\<close>)
      then show ?thesis by (rule frame0_trans[OF frame_frame0[OF f1(2)]])
    qed
  qed
qed

lemma merging_start:
  assumes inv: "pool_inv G s" and c: "G c = Some (Chunk k bs)" and m: "get_mem k s = Some m" and bs: "bs = xs @ b # ys"
    and x: "mp_desc s b = Some x" "bd_total x = - T" "0 < T"
    and y: "bd_total y = T" "bd_prev_free y = bd_prev_free x" "bd_eid y = bd_eid x" "bd_bin y = bd_bin x"
  shows "merging G s k m c bs b xs [b] b ys (put_desc b y s)"
proof -
  have "tiles (mp_desc s) 0 c (xs @ b # ys) (c + (MEM_CHUNK_GROW_SIZE - BUFFER_DESC))"
    using inv_chunk[OF inv c] bs by (simp add: chunk_ok_def)
  then have "around (mp_desc s) c xs b ys (c + (MEM_CHUNK_GROW_SIZE - BUFFER_DESC))" by (rule around_tiles)
  note ar = around_free[OF this x y(1,2)]
  have bb: "b \<in> set bs" by (simp add: bs)
  obtain w where w: "mp_desc s b = Some w" "bd_eid w = mr_eid k" "0 \<le> bd_bin w"
    using chunk_desc[OF inv_chunk[OF inv c] bb] by metis
  have "bins_ok ((mp_desc s)(b := Some y)) m (free_of G (mp_desc s) k)"
  proof (rule inv_same_bins[of _ _ "mp_desc s"])
    show "\<forall>z\<in>free_of G (mp_desc s) k. ((mp_desc s)(b := Some y)) z = mp_desc s z"
      using x by (auto simp: free_of_def frees_def tot_def)
  qed (use inv_mem[OF inv m] in blast)
  moreover have "b \<notin> free_of G (mp_desc s) k" using x by (auto simp: free_of_def frees_def tot_def)
  ultimately have "bins_ok (mp_desc (put_desc b y s)) m (free_of G (mp_desc s) k - set [b])" by simp
  then show ?thesis unfolding merging_def using ar bs x w y m by (auto simp: tot_def)
qed

lemma own_free_ok:
  assumes inv: "pool_inv G s" and c: "G c = Some (Chunk k bs)" and m: "get_mem k s = Some m"
    and b: "b \<in> set bs" and x: "mp_desc s b = Some x" "bd_total x < 0" "bd_ref x = 1"
  shows "\<exists>s' G'. kupl_normal_free k (b + BUFFER_DESC) s = Some s' \<and> drops G s b G' s'"
proof -
  let ?d = "mp_desc s" and ?T = "- bd_total x" and ?e = "c + (MEM_CHUNK_GROW_SIZE - BUFFER_DESC)"
  define y where "y = x\<lparr>bd_ref := 0, bd_total := - bd_total x\<rparr>"
  define s2 where "s2 = put_desc b y s"
  define i where "i = nat (bd_bin x)"
  obtain w where "?d b = Some w" "bd_eid w = mr_eid k" "0 \<le> bd_bin w" using chunk_desc[OF inv_chunk[OF inv c] b] by metis
  then have xe: "bd_eid x = mr_eid k" "0 \<le> bd_bin x" using x(1) by simp_all
  have T: "0 < ?T" "tot ?d b < 0" using x by (simp_all add: tot_def)
  have nl: "\<not> limbo ?d b" using x by (simp add: limbo_def)
  have me: "km_eid m = mr_eid k" using inv_mem[OF inv m] by blast
  have p2: "put_desc b z (put_desc b w s) = put_desc b z s" for z w by (simp add: put_desc_def)
  have run: "kupl_normal_free k (b + BUFFER_DESC) s =
      (if km_bins_count m i < KUPL_MEM_BINS_THRESHOLD then kupl_normal_insert_into_freelist k b s2
       else do {
         (a, s) \<leftarrow> merge_prev k b i s2;
         s \<leftarrow> merge_next k a i s;
         d \<leftarrow> mp_desc s a;
         nd \<leftarrow> mp_desc s (a + bd_total d);
         let s = put_desc (a + bd_total d) (nd\<lparr>bd_prev_free := bd_total d\<rparr>) s;
         m \<leftarrow> get_mem k s;
         if MEM_IS_WHOLE_CHUNK d \<and> km_alloc_chunks m \<ge> 2 then Some (munmap a (bd_total d) s)
         else kupl_normal_insert_into_freelist k a s
       })"
    using x(1,3) xe m me by (simp add: kupl_normal_free_def Let_def p2 s2_def y_def i_def)
  obtain xs ys where bs: "bs = xs @ b # ys" using split_list[OF b] by blast
  have dist: "distinct bs" by (rule distinct_bs[OF inv c])
  have ck: "chunk_ok ?d k c bs" by (rule inv_chunk[OF inv c])
  have outb: "\<not> (c \<le> z \<and> z < c + MEM_CHUNK_GROW_SIZE) \<Longrightarrow> z \<notin> set bs" for z using chunk_block[OF ck] by blast
  have exd: "\<forall>z\<in>set bs. \<exists>w. ?d z = Some w \<and> bd_eid w = mr_eid k \<and> 0 \<le> bd_bin w" using ck by (simp add: chunk_ok_def)
  have M0: "merging G s k m c bs b xs [b] b ys s2"
    unfolding s2_def by (rule merging_start[OF inv c m bs x(1) _ T(1)]) (simp_all add: y_def)
  show ?thesis
  proof (cases "km_bins_count m i < KUPL_MEM_BINS_THRESHOLD")
    case True
    have t: "tiles (mp_desc s2) 0 c (xs @ b # ys) ?e"
      using tiles_release[of ?d 0 c xs b ys ?e x ?T y] ck bs x(1) T(1) by (simp add: chunk_ok_def s2_def y_def)
    obtain m1 where m1: "\<forall>k'. get_mem k' s2 = (if k' = k then Some m1 else get_mem k' s)" "km_eid m1 = km_eid m"
      "km_sync_list m1 = km_sync_list m" "bins_ok (mp_desc s2) m1 (free_of G ?d k - set [b])"
      using M0 unfolding merging_def by blast
    have same: "z \<noteq> b \<Longrightarrow> mp_desc s2 z = ?d z" for z by (simp add: s2_def)
    have d2: "mp_desc s2 b = Some y" "bd_eid y = mr_eid k" "0 < bd_total y" using xe T(1) by (simp_all add: s2_def y_def)
    have "\<exists>s4. kupl_normal_insert_into_freelist k b s2 = Some s4 \<and> drops G s b (G(c \<mapsto> Chunk k (xs @ b # ys))) s4"
    proof (rule insert_ok[OF inv c m b T(2) nl _ _ _ _ t d2 _ _ _ _ m1])
      show "\<forall>z\<in>set xs \<union> set ys. tot (mp_desc s2) z = tot ?d z \<and> rf (mp_desc s2) z = rf ?d z \<and>
        (\<exists>w. mp_desc s2 z = Some w \<and> bd_eid w = mr_eid k \<and> 0 \<le> bd_bin w)"
      proof
        fix z assume z: "z \<in> set xs \<union> set ys"
        then have "z \<noteq> b" "z \<in> set bs" using dist bs by auto
        then have zb: "mp_desc s2 z = ?d z" "z \<in> set bs" using same by simp_all
        then show "tot (mp_desc s2) z = tot ?d z \<and> rf (mp_desc s2) z = rf ?d z \<and>
            (\<exists>w. mp_desc s2 z = Some w \<and> bd_eid w = mr_eid k \<and> 0 \<le> bd_bin w)" using exd by (simp add: tot_def rf_def)
      qed
      show "\<forall>z. \<not> (c \<le> z \<and> z < c + MEM_CHUNK_GROW_SIZE) \<longrightarrow> mp_desc s2 z = ?d z"
      proof (intro allI impI same)
        fix z assume "\<not> (c \<le> z \<and> z < c + MEM_CHUNK_GROW_SIZE)"
        then show "z \<noteq> b" using outb[of z] b by auto
      qed
    qed (use bs xe T(1) in \<open>simp_all add: s2_def y_def\<close>)
    then show ?thesis using run True by auto
  next
    case False
    obtain xs1 ws1 a s3 where 1: "merge_prev k b i s2 = Some (a, s3)" "merging G s k m c bs b xs1 ws1 a ys s3"
      using merge_prev_ok[OF inv c M0] by blast
    obtain ws ys1 s4 where 2: "merge_next k a i s3 = Some s4" "merging G s k m c bs b xs1 ws a ys1 s4"
      using merge_next_ok[OF inv c 1(2)] by blast
    obtain d m1 where d: "mp_desc s4 a = Some d" "bd_eid d = mr_eid k" "0 \<le> bd_bin d" and
      m1: "\<forall>k'. get_mem k' s4 = (if k' = k then Some m1 else get_mem k' s)" "km_eid m1 = km_eid m"
      "km_sync_list m1 = km_sync_list m" "bins_ok (mp_desc s4) m1 (free_of G ?d k - set ws)"
      using 2(2) unfolding merging_def by blast
    have ar: "around (mp_desc s4) c xs1 a ys1 ?e" and ws: "bs = xs1 @ ws @ ys1" "a \<in> set ws" "b \<in> set ws"
        "\<forall>z\<in>set ws - {b}. 0 < tot ?d z" "\<forall>z. z \<notin> set ws \<longrightarrow> mp_desc s4 z = ?d z" "mp_maps s4 = mp_maps s" "mp_fast s4 = mp_fast s"
      and D: "0 < bd_total d"
      using 2(2) d(1) unfolding merging_def by (simp_all add: tot_def)
    let ?n = "a + bd_total d"
    obtain pf where tp: "tiles (mp_desc s4) pf ?n ys1 ?e" using ar d(1) D by (auto simp: around_def tot_def)
    then obtain nd where nd: "mp_desc s4 ?n = Some nd" using tiles_hd by blast
    define s5 where "s5 = put_desc ?n (nd\<lparr>bd_prev_free := bd_total d\<rparr>) s4"
    have t5: "tiles (mp_desc s5) 0 c (xs1 @ a # ys1) ?e"
      using around_close[OF ar _ D nd] d(1) by (simp add: s5_def tot_def)
    have d5: "mp_desc s5 a = Some d" using d(1) D by (simp add: s5_def)
    have g5: "\<forall>k'. get_mem k' s5 = (if k' = k then Some m1 else get_mem k' s)" using m1(1) by (simp add: s5_def)
    have run2: "kupl_normal_free k (b + BUFFER_DESC) s =
        (if MEM_IS_WHOLE_CHUNK d \<and> km_alloc_chunks m1 \<ge> 2 then Some (munmap a (bd_total d) s5)
         else kupl_normal_insert_into_freelist k a s5)"
      using run False 1(1) 2(1) d(1) nd m1(1) by (simp add: s5_def Let_def)
    have tr: "tot (mp_desc s5) z = tot (mp_desc s4) z \<and> rf (mp_desc s5) z = rf (mp_desc s4) z" for z
      using nd by (simp add: s5_def tot_def rf_def)
    have nr: "c \<le> ?n" "?n < c + MEM_CHUNK_GROW_SIZE" "a \<le> ?n"
    proof -
      show "a \<le> ?n" using D by simp
      have "a \<in> set bs" using ws by simp
      then show "c \<le> ?n" using chunk_block[OF ck, of a] D by simp
      show "?n < c + MEM_CHUNK_GROW_SIZE" using tiles_range[OF tp] by (simp add: mem_sizes)
    qed
    have out5: "\<forall>z. \<not> (c \<le> z \<and> z < c + MEM_CHUNK_GROW_SIZE) \<longrightarrow> mp_desc s5 z = ?d z"
    proof (intro allI impI)
      fix z assume z: "\<not> (c \<le> z \<and> z < c + MEM_CHUNK_GROW_SIZE)"
      then have "z \<notin> set ws" "z \<noteq> ?n" using outb ws(1) nr by auto
      then show "mp_desc s5 z = ?d z" using ws(5) by (simp add: s5_def)
    qed
    have bins5: "bins_ok (mp_desc s5) m1 (free_of G ?d k - set ws)"
      by (rule bins_cong[OF m1(4)]) (use tr in blast)
    have maps5: "mp_maps s5 = mp_maps s" "mp_fast s5 = mp_fast s" using ws(6,7) by (simp_all add: s5_def)
    show ?thesis
    proof (cases "MEM_IS_WHOLE_CHUNK d \<and> km_alloc_chunks m1 \<ge> 2")
      case True
      then have tot: "bd_total d = MEM_CHUNK_GROW_SIZE - BUFFER_DESC" by (simp add: MEM_IS_WHOLE_CHUNK_def)
      have "?n \<le> ?e" using tiles_range[OF tp] by blast
      moreover obtain p where sg: "seg (mp_desc s4) 0 c xs1 p a" using ar unfolding around_def by blast
      then have "c \<le> a" using seg_range by blast
      ultimately have ac: "a = c" "?n = ?e" using tot by simp_all
      have "xs1 = []" using seg_range[OF sg] ac(1) by (cases xs1) (force simp: BUFFER_DESC_def)+
      moreover have "ys1 = []" using tiles_range[OF tp] ac(2) by (cases ys1) (force simp: BUFFER_DESC_def)+
      ultimately have wb: "ws = bs" using ws(1) by simp
      have "drops G s b (G(c := None)) (munmap c (MEM_CHUNK_GROW_SIZE - BUFFER_DESC) s5)"
        by (rule unmap_ok[OF inv c m b T(2) nl _ out5 maps5 g5 m1(2,3)]) (use ws(4) bins5 wb in simp_all)
      then show ?thesis using run2 True ac(1) tot by auto
    next
      case False
      have dj: "\<forall>z\<in>set xs1 \<union> set ys1. z \<notin> set ws" using dist ws(1) by auto
      have "\<forall>z\<in>set xs1 \<union> set ys1. tot (mp_desc s5) z = tot ?d z \<and> rf (mp_desc s5) z = rf ?d z \<and>
        (\<exists>w. mp_desc s5 z = Some w \<and> bd_eid w = mr_eid k \<and> 0 \<le> bd_bin w)"
      proof
        fix z assume z: "z \<in> set xs1 \<union> set ys1"
        then have zs: "mp_desc s4 z = ?d z" using dj ws(5) by blast
        have "z \<in> set bs" using z ws(1) by auto
        then obtain w where w: "?d z = Some w" "bd_eid w = mr_eid k" "0 \<le> bd_bin w" using exd by blast
        have "\<exists>w. mp_desc s5 z = Some w \<and> bd_eid w = mr_eid k \<and> 0 \<le> bd_bin w"
          using w zs nd by (cases "z = ?n") (auto simp: s5_def)
        then show "tot (mp_desc s5) z = tot ?d z \<and> rf (mp_desc s5) z = rf ?d z \<and>
            (\<exists>w. mp_desc s5 z = Some w \<and> bd_eid w = mr_eid k \<and> 0 \<le> bd_bin w)"
          using tr[of z] zs by (simp add: tot_def rf_def)
      qed
      from insert_ok[OF inv c m b T(2) nl ws(1-4) t5 d5 d(2) D this out5 maps5 g5 m1(2,3) bins5]
      show ?thesis using run2 False by auto
    qed
  qed
qed

end
