(* ===== verification/Kupl_Mpool_Safety.thy ===== *)
theory Kupl_Mpool_Safety
  imports Kupl_Mpool_Free
begin

text \<open>
  Runs of the normal layer: what a client that allocates and returns buffers on any executors can rely
  on, and what it cannot.
\<close>

section \<open>Every return\<close>

text \<open>A reference less, and nothing else.\<close>

lemma ref_step:
  fixes r :: "16 word"
  assumes inv: "pool_inv G s" and x: "mp_desc s b = Some x" "bd_ref x \<noteq> 0"
  defines "s1 \<equiv> put_desc b (x\<lparr>bd_ref := r\<rparr>) s"
  shows "pool_inv G s1" "live G (mp_desc s1) = live G (mp_desc s)" "extent G (mp_desc s1) = extent G (mp_desc s)"
    "\<forall>z. z \<noteq> b \<longrightarrow> rf (mp_desc s1) z = rf (mp_desc s) z" "rf (mp_desc s1) b = r"
    "\<forall>z. limbo (mp_desc s) z \<longrightarrow> z \<noteq> b \<and> limbo (mp_desc s1) z"
proof -
  have d: "\<forall>z. noref (mp_desc s1 z) = noref (mp_desc s z)" using x(1) by (simp add: s1_def noref_def)
  show lim: "\<forall>z. limbo (mp_desc s) z \<longrightarrow> z \<noteq> b \<and> limbo (mp_desc s1) z" using x by (auto simp: limbo_def s1_def)
  have g: "get_mem k s1 = get_mem k s" for k by (simp add: s1_def)
  have "sync_ok G (mp_desc s1) k (km_sync_list m)" if m: "get_mem k s = Some m" for k m
    using inv_mem[OF inv m] lim unfolding sync_ok_def by blast
  then have "\<forall>k m'. get_mem k s1 = Some m' \<longrightarrow> (\<exists>m. get_mem k s = Some m \<and> km_eid m' = km_eid m \<and> km_bins m' = km_bins m \<and>
       sync_ok G (mp_desc s1) k (km_sync_list m'))" using g by auto
  then show "pool_inv G s1" "live G (mp_desc s1) = live G (mp_desc s)" "extent G (mp_desc s1) = extent G (mp_desc s)"
    using inv_refs[OF inv d] g by (simp_all add: s1_def)
  show "\<forall>z. z \<noteq> b \<longrightarrow> rf (mp_desc s1) z = rf (mp_desc s) z" "rf (mp_desc s1) b = r" by (simp_all add: s1_def rf_def)
qed

text \<open>A buffer of another executor goes to that executor's list, with the count 0.\<close>

lemma enqueue_step:
  assumes inv: "pool_inv G s" and x: "mp_desc s b = Some x" "bd_ref x \<noteq> 0" "bd_total x < 0"
    and c: "G c = Some (Chunk k bs)" "b \<in> set bs"
  shows "\<exists>s'. kupl_normal_sync_list_enqueue k (b + BUFFER_DESC) (put_desc b (x\<lparr>bd_ref := 0\<rparr>) s) = Some s' \<and> pool_inv G s' \<and>
    mp_desc s' = (mp_desc s)(b := Some (x\<lparr>bd_ref := 0\<rparr>)) \<and>
    mp_fast s' = mp_fast s \<and> (\<exists>m. get_mem k s' = Some m \<and> b + BUFFER_DESC \<in> set (km_sync_list m))"
proof -
  let ?s1 = "put_desc b (x\<lparr>bd_ref := 0\<rparr>) s"
  note R = ref_step[OF inv x(1,2), of 0]
  obtain m where m: "get_mem k s = Some m" using inv_chunk_mem[OF inv c(1)] by blast
  let ?m = "m\<lparr>km_sync_list := (b + BUFFER_DESC) # km_sync_list m\<rparr>"
  let ?s = "put_mem k ?m ?s1"
  have run: "kupl_normal_sync_list_enqueue k (b + BUFFER_DESC) ?s1 = Some ?s"
    using m by (simp add: kupl_normal_sync_list_enqueue_def)
  have so: "sync_ok G (mp_desc s) k' (km_sync_list m')" if "get_mem k' s = Some m'" for k' m' using inv_mem[OF inv that] by blast
  have g: "get_mem k' ?s = (if k' = k then Some ?m else get_mem k' s)" for k'
    using get_put_mem[of k' k ?m ?s1] by (simp add: get_mem_def put_desc_def)
  have new: "sync_ok G (mp_desc ?s) k (km_sync_list ?m)"
  proof -
    have "b + BUFFER_DESC \<notin> set (km_sync_list m)" using so[OF m] x(1,2) by (auto simp: sync_ok_def limbo_def)
    moreover have "limbo (mp_desc ?s1) b" using x by (simp add: limbo_def)
    ultimately show ?thesis using so[OF m] c R(6) by (auto simp: sync_ok_def)
  qed
  have "pool_inv G ?s"
  proof (rule inv_refs(1)[OF R(1)])
    show "\<forall>k' m'. get_mem k' ?s = Some m' \<longrightarrow> (\<exists>m. get_mem k' ?s1 = Some m \<and> km_eid m' = km_eid m \<and> km_bins m' = km_bins m \<and>
       sync_ok G (mp_desc ?s) k' (km_sync_list m'))"
    proof (intro allI impI)
      fix k' m' assume h: "get_mem k' ?s = Some m'"
      show "\<exists>m. get_mem k' ?s1 = Some m \<and> km_eid m' = km_eid m \<and> km_bins m' = km_bins m \<and> sync_ok G (mp_desc ?s) k' (km_sync_list m')"
      proof (cases "k' = k")
        case True
        then have "m' = ?m" using h g[of k'] by simp
        then show ?thesis using m True new by simp
      next
        case False
        then have "get_mem k' s = Some m'" using h g[of k'] by simp
        then have "sync_ok G (mp_desc ?s) k' (km_sync_list m')" using so R(6) unfolding sync_ok_def by simp
        then show ?thesis using \<open>get_mem k' s = Some m'\<close> by simp
      qed
    qed
  qed (use m in \<open>simp_all add: get_put_mem\<close>)
  then show ?thesis using run g[of k] by simp
qed

definition releases :: "regions \<Rightarrow> mpool \<Rightarrow> addr \<Rightarrow> regions \<Rightarrow> mpool \<Rightarrow> bool" where
  "releases G s b G' s' \<longleftrightarrow> (\<forall>x. mp_fast s' x = mp_fast s x \<or> unmapped G' x) \<and> pool_inv G' s' \<and> live G' (mp_desc s') \<subseteq> live G (mp_desc s) \<and> live G (mp_desc s) - {b} \<subseteq> live G' (mp_desc s') \<and>
     (\<forall>z\<in>live G (mp_desc s) - {b}. extent G' (mp_desc s') z = extent G (mp_desc s) z \<and> rf (mp_desc s') z = rf (mp_desc s) z \<and>
        (\<forall>f. home G f z \<longrightarrow> home G' f z))"

lemma drops_releases: "drops G s b G' s' \<Longrightarrow> releases G s b G' s'"
  by (auto simp: drops_def releases_def)

lemma live_desc:
  assumes inv: "pool_inv G s" and b: "b \<in> live G (mp_desc s)"
  obtains c k bs x where "G c = Some (Chunk k bs)" "b \<in> set bs" "mp_desc s b = Some x" "bd_total x < 0" "bd_eid x = mr_eid k"
      "0 \<le> bd_bin x" "\<And>f. home G f b \<Longrightarrow> mr_hbw k = f"
    | n x where "G b = Some (Direct n)" "mp_desc s b = Some x" "bd_bin x < 0"
proof -
  consider c k bs where "G c = Some (Chunk k bs)" "b \<in> used (mp_desc s) bs" | n where "G b = Some (Direct n)"
    using b unfolding live_def by blast
  then show ?thesis
  proof cases
    case 1
    then have bb: "b \<in> set bs" "tot (mp_desc s) b < 0" by (simp_all add: used_def)
    obtain x where x: "mp_desc s b = Some x" "bd_eid x = mr_eid k" "0 \<le> bd_bin x"
      using chunk_desc[OF inv_chunk[OF inv 1(1)] bb(1)] by metis
    have h: "mr_hbw k = f" if "home G f b" for f
    proof -
      obtain c' r where r: "G c' = Some r" "c' \<le> b" "b < c' + reg_len r" "case r of Chunk k bs \<Rightarrow> mr_hbw k = f | Direct n \<Rightarrow> True"
        using \<open>home G f b\<close> unfolding home_def by blast
      note q = chunk_block[OF inv_chunk[OF inv 1(1)] bb(1)]
      have "c = c'" using inv_apart[OF inv 1(1) r(1), of b] q r(2,3) by simp
      then show ?thesis using r(1,4) 1(1) by simp
    qed
    have "bd_total x < 0" using bb(2) x(1) by (simp add: tot_def)
    then show ?thesis using that(1)[OF 1(1) bb(1) x(1) _ x(2,3) h] by blast
  next
    case 2
    then show ?thesis using inv_direct[OF inv 2] that(2) by blast
  qed
qed

lemma free_ok:
  assumes inv: "pool_inv G s" and m: "get_mem k s = Some m" and b: "b \<in> live G (mp_desc s)" "rf (mp_desc s) b \<noteq> 0"
    and h: "home G (mr_hbw k) b"
  shows "\<exists>s' G'. kupl_normal_free k (b + BUFFER_DESC) s = Some s' \<and> releases G s b G' s' \<and>
    (rf (mp_desc s) b \<noteq> 1 \<longrightarrow> b \<in> live G' (mp_desc s') \<and> rf (mp_desc s') b = rf (mp_desc s) b - 1 \<and>
       extent G' (mp_desc s') b = extent G (mp_desc s) b \<and> home G' (mr_hbw k) b) \<and>
    (rf (mp_desc s) b = 1 \<and> b \<in> live G' (mp_desc s') \<longrightarrow> rf (mp_desc s') b = 0)"
proof -
  obtain x where x: "mp_desc s b = Some x" "bd_ref x = rf (mp_desc s) b"
    using live_desc[OF inv b(1)] by (metis option.simps(5) rf_def)
  have x0: "bd_ref x \<noteq> 0" using x(2) b(2) by simp
  show ?thesis
  proof (cases "rf (mp_desc s) b = 1")
    case False
    let ?s = "put_desc b (x\<lparr>bd_ref := bd_ref x - 1\<rparr>) s"
    have "0 < bd_ref x - 1" using False x(2) x0 by (simp add: word_greater_zero_iff)
    then have run: "kupl_normal_free k (b + BUFFER_DESC) s = Some ?s" using x(1) by (simp add: kupl_normal_free_def Let_def)
    note R = ref_step[OF inv x(1) x0, of "bd_ref x - 1"]
    have "releases G s b G ?s" unfolding releases_def using R(1-4) by simp
    then show ?thesis using run False R(2,3,5) b(1) h x(2) by (intro exI[of _ ?s] exI[of _ G]) simp
  next
    case True
    then have x1: "bd_ref x = 1" using x(2) by simp
    from live_desc[OF inv b(1)] show ?thesis
    proof cases
      case (1 c k' bs x')
      have xx: "x' = x" using 1(3) x(1) by simp
      have hb: "mr_hbw k' = mr_hbw k" using 1(7) h by blast
      show ?thesis
      proof (cases "mr_eid k' = mr_eid k")
        case own: True
        then have "k' = k" using hb by (simp add: mem_ref.expand)
        then obtain s' G' where "kupl_normal_free k (b + BUFFER_DESC) s = Some s'" "drops G s b G' s'"
          using own_free_ok[OF inv _ m, of c bs b x] 1(1,2,4) xx x(1) x1 by auto
        then show ?thesis using True drops_releases unfolding drops_def
          by (intro exI[of _ s'] exI[of _ G']) (auto simp: drops_def)
      next
        case other: False
        have k': "Mem (mr_hbw k) (bd_eid x) = k'" using hb 1(5) xx by (simp add: mem_ref.expand)
        have me: "km_eid m = mr_eid k" using inv_mem[OF inv m] by blast
        obtain s' where s': "kupl_normal_sync_list_enqueue k' (b + BUFFER_DESC) (put_desc b (x\<lparr>bd_ref := 0\<rparr>) s) = Some s'"
          "pool_inv G s'" "mp_desc s' = (mp_desc s)(b := Some (x\<lparr>bd_ref := 0\<rparr>))" "mp_fast s' = mp_fast s"
          using enqueue_step[OF inv x(1) x0 _ 1(1,2)] 1(4) xx by blast
        have run: "kupl_normal_free k (b + BUFFER_DESC) s = Some s'"
          using x(1) x1 1(5,6) xx m me other s'(1) k' by (simp add: kupl_normal_free_def Let_def)
        note R = ref_step[OF inv x(1) x0, of 0]
        have "releases G s b G s'" unfolding releases_def using R(2-4) s'(2-4) by simp
        moreover have "rf (mp_desc s') b = 0" by (simp add: s'(3) rf_def)
        ultimately show ?thesis using run True by (intro exI[of _ s'] exI[of _ G]) simp
      qed
    next
      case (2 n x')
      have xx: "x' = x" using 2(2) x(1) by simp
      let ?s = "munmap b (bd_total x) (put_desc b (x\<lparr>bd_ref := 0\<rparr>) s)"
      have "kupl_normal_free k (b + BUFFER_DESC) s = Some ?s" using x(1) x1 2(3) xx by (simp add: kupl_normal_free_def Let_def)
      moreover have "drops G s b (G(b := None)) ?s" by (rule direct_free_ok[OF inv 2(1) x(1)])
      ultimately show ?thesis using True drops_releases by (intro exI[of _ ?s] exI[of _ "G(b := None)"]) (auto simp: drops_def)
    qed
  qed
qed

section \<open>Runs\<close>

text \<open>
  A client on any executor allocates, and returns a buffer it holds through any memory of the same pool
  (of high bandwidth or not).  Sizes are below 2 GB.
\<close>

datatype held = Held (h_ptr: addr) (h_hbw: bool) (h_size: int)

definition pool_start :: "mpool \<Rightarrow> bool" where
  "pool_start s \<longleftrightarrow> align_ok s \<and> (\<forall>k m. get_mem k s = Some m \<longrightarrow> km_eid m = mr_eid k \<and> km_bins m = (\<lambda>_. []) \<and> km_sync_list m = [])"

inductive pool_step :: "mpool \<Rightarrow> held list \<Rightarrow> mpool \<Rightarrow> held list \<Rightarrow> bool" where
  alloc: "get_mem k s \<noteq> None \<Longrightarrow> uint sz < 2 ^ 31 - 2 ^ 22 \<Longrightarrow> kupl_normal_alloc k sz huge s = Some (Some p, s') \<Longrightarrow>
    pool_step s H s' (Held p (mr_hbw k) (uint sz) # H)"
| alloc_none: "get_mem k s \<noteq> None \<Longrightarrow> uint sz < 2 ^ 31 - 2 ^ 22 \<Longrightarrow> kupl_normal_alloc k sz huge s = Some (None, s') \<Longrightarrow>
    pool_step s H s' H"
| free: "h \<in> set H \<Longrightarrow> get_mem k s \<noteq> None \<Longrightarrow> mr_hbw k = h_hbw h \<Longrightarrow> kupl_normal_free k (h_ptr h) s = Some s' \<Longrightarrow>
    pool_step s H s' (remove1 h H)"

inductive pool_steps :: "mpool \<Rightarrow> held list \<Rightarrow> mpool \<Rightarrow> held list \<Rightarrow> bool" where
  refl: "pool_steps s H s H"
| step: "pool_steps s H s' H' \<Longrightarrow> pool_step s' H' s'' H'' \<Longrightarrow> pool_steps s H s'' H''"

definition pool_run :: "mpool \<Rightarrow> held list \<Rightarrow> bool" where
  "pool_run s H \<longleftrightarrow> (\<exists>s0. pool_start s0 \<and> pool_steps s0 [] s H)"

definition hold_ok :: "regions \<Rightarrow> mpool \<Rightarrow> held \<Rightarrow> bool" where
  "hold_ok G s h \<longleftrightarrow> h_ptr h - BUFFER_DESC \<in> live G (mp_desc s) \<and> rf (mp_desc s) (h_ptr h - BUFFER_DESC) \<noteq> 0 \<and>
     0 \<le> h_size h \<and> h_size h + BUFFER_DESC \<le> extent G (mp_desc s) (h_ptr h - BUFFER_DESC) \<and> home G (h_hbw h) (h_ptr h - BUFFER_DESC)"

definition hold_inv :: "regions \<Rightarrow> mpool \<Rightarrow> held list \<Rightarrow> bool" where
  "hold_inv G s H \<longleftrightarrow> pool_inv G s \<and> align_ok s \<and> distinct (map h_ptr H) \<and> (\<forall>h\<in>set H. hold_ok G s h)"

text \<open>A buffer that is marked in use and that nobody holds is never touched again.\<close>

definition unheld_kept :: "regions \<Rightarrow> mpool \<Rightarrow> held list \<Rightarrow> regions \<Rightarrow> mpool \<Rightarrow> held list \<Rightarrow> bool" where
  "unheld_kept G s H G' s' H' \<longleftrightarrow> (\<forall>b\<in>live G (mp_desc s). b + BUFFER_DESC \<notin> h_ptr ` set H \<longrightarrow>
     b \<in> live G' (mp_desc s') \<and> extent G' (mp_desc s') b = extent G (mp_desc s) b \<and> b + BUFFER_DESC \<notin> h_ptr ` set H')"

lemma pool_start_inv: "pool_start s \<Longrightarrow> hold_inv Map.empty s []"
  by (simp add: pool_start_def hold_inv_def pool_inv_def bins_ok_def sync_ok_def free_of_def)

lemma hold_keeps: "keeps G s G' s' \<Longrightarrow> hold_ok G s h \<Longrightarrow> hold_ok G' s' h"
  unfolding keeps_def hold_ok_def by force

lemma hold_adds: "adds G s f act u G' s' \<Longrightarrow> hold_ok G s h \<Longrightarrow> hold_ok G' s' h"
  unfolding adds_def hold_ok_def by force

lemma step_inv:
  assumes "pool_step s H s' H'" and "hold_inv G s H"
  shows "\<exists>G'. hold_inv G' s' H' \<and> unheld_kept G s H G' s' H'"
  using assms
proof cases
  case (alloc k sz huge p)
  have inv: "pool_inv G s" "align_ok s" using assms(2) by (simp_all add: hold_inv_def)
  obtain m where m: "get_mem k s = Some m" using alloc by blast
  obtain r s1 where r: "kupl_normal_alloc k sz huge s = Some (r, s1)" "align_ok s1"
    "\<forall>p. r = Some p \<longrightarrow> (\<exists>G' act. adds G s (mr_hbw k) act (p - BUFFER_DESC) G' s1 \<and>
       uint sz + BUFFER_DESC \<le> act \<and> uint (mp_align s1) \<le> act)"
    using normal_alloc_ok[OF inv(1) m inv(2) alloc(3), of huge] by blast
  then have rr: "r = Some p" "s1 = s'" using alloc(4) by simp_all
  then obtain G' act where "adds G s (mr_hbw k) act (p - BUFFER_DESC) G' s'" "uint sz + BUFFER_DESC \<le> act" using r(3) by blast
  then have A: "adds G s (mr_hbw k) (uint sz + BUFFER_DESC) (p - BUFFER_DESC) G' s'" by (rule adds_mono)
  have new: "hold_ok G' s' (Held p (mr_hbw k) (uint sz))" using A by (simp add: adds_def hold_ok_def)
  have "h_ptr h \<noteq> p" if h: "h \<in> set H" for h
  proof -
    have "h_ptr h - BUFFER_DESC \<in> live G (mp_desc s)" using assms(2) h by (simp add: hold_inv_def hold_ok_def)
    then show ?thesis using A by (auto simp: adds_def)
  qed
  then have "hold_inv G' s' H'" using assms(2) new hold_adds[OF A] A r(2) rr(2) alloc(1)
    by (auto simp: hold_inv_def adds_def)
  moreover have "unheld_kept G s H G' s' H'" using A alloc(1) by (auto simp: unheld_kept_def adds_def)
  ultimately show ?thesis by blast
next
  case (alloc_none k sz huge)
  have inv: "pool_inv G s" "align_ok s" using assms(2) by (simp_all add: hold_inv_def)
  obtain m where m: "get_mem k s = Some m" using alloc_none by blast
  obtain r s1 where r: "kupl_normal_alloc k sz huge s = Some (r, s1)" "align_ok s1" "r = None \<longrightarrow> keeps G s G s1"
    using normal_alloc_ok[OF inv(1) m inv(2) alloc_none(3), of huge] by blast
  then have K: "keeps G s G s'" "align_ok s'" using alloc_none(4) by simp_all
  then have "hold_inv G s' H'" using assms(2) hold_keeps[OF K(1)] alloc_none(1) by (simp add: hold_inv_def keeps_def)
  moreover have "unheld_kept G s H G s' H'" using K alloc_none(1) by (simp add: unheld_kept_def keeps_def)
  ultimately show ?thesis by blast
next
  case (free h k)
  let ?b = "h_ptr h - BUFFER_DESC"
  have inv: "pool_inv G s" "align_ok s" "distinct (map h_ptr H)" using assms(2) by (simp_all add: hold_inv_def)
  obtain m where m: "get_mem k s = Some m" using free by blast
  have ho: "hold_ok G s h" using assms(2) free(2) by (simp add: hold_inv_def)
  then obtain s1 G' where f: "kupl_normal_free k (?b + BUFFER_DESC) s = Some s1" "releases G s ?b G' s1"
    using free_ok[OF inv(1) m, of ?b] free(4) by (auto simp: hold_ok_def)
  then have R: "releases G s ?b G' s'" using free(5) by simp
  have al: "align_ok s'" using frame_free[OF free(5)] inv(2) by (simp add: frame_defs align_ok_def)
  have sub: "distinct (map h_ptr H')" "set H' \<subseteq> set H" "h \<notin> set H'"
    using inv(3) free(1) by (auto simp: distinct_map inj_on_def distinct_remove1 dest: notin_set_remove1 in_set_remove1[THEN iffD1, rotated])
  have ne: "h_ptr h' \<noteq> h_ptr h" if "h' \<in> set H'" for h'
    using that sub inv(3) free(2) by (metis distinct_map inj_onD subsetD)
  have "hold_ok G' s' h'" if h': "h' \<in> set H'" for h'
  proof -
    have "hold_ok G s h'" using h' sub(2) assms(2) by (auto simp: hold_inv_def)
    then show ?thesis using R ne[OF h'] unfolding releases_def hold_ok_def by force
  qed
  then have "hold_inv G' s' H'" using R al sub(1) by (simp add: hold_inv_def releases_def)
  moreover have "unheld_kept G s H G' s' H'"
    unfolding unheld_kept_def
  proof (intro ballI impI)
    fix b assume b: "b \<in> live G (mp_desc s)" "b + BUFFER_DESC \<notin> h_ptr ` set H"
    then have "b \<noteq> ?b" using free(2) by force
    moreover have "b + BUFFER_DESC \<notin> h_ptr ` set H'" using b(2) sub(2) by blast
    ultimately show "b \<in> live G' (mp_desc s') \<and> extent G' (mp_desc s') b = extent G (mp_desc s) b \<and> b + BUFFER_DESC \<notin> h_ptr ` set H'"
      using R b(1) unfolding releases_def by blast
  qed
  ultimately show ?thesis by blast
qed

lemma unheld_trans: "unheld_kept G s H G' s' H' \<Longrightarrow> unheld_kept G' s' H' G'' s'' H'' \<Longrightarrow> unheld_kept G s H G'' s'' H''"
  unfolding unheld_kept_def by simp

lemma steps_inv:
  assumes "pool_steps s H s' H'" and "hold_inv G s H"
  shows "\<exists>G'. hold_inv G' s' H' \<and> unheld_kept G s H G' s' H'"
  using assms
proof (induction rule: pool_steps.induct)
  case (refl s H)
  then show ?case by (intro exI[of _ G]) (simp add: unheld_kept_def)
next
  case (step s H s' H' s'' H'')
  then obtain G' where G': "hold_inv G' s' H'" "unheld_kept G s H G' s' H'" by blast
  obtain G'' where "hold_inv G'' s'' H''" "unheld_kept G' s' H' G'' s'' H''" using step_inv[OF step(2) G'(1)] by blast
  then show ?case using unheld_trans[OF G'(2)] by blast
qed

lemma run_inv: "pool_run s H \<Longrightarrow> \<exists>G. hold_inv G s H"
  unfolding pool_run_def using steps_inv pool_start_inv by blast

lemma held_apart:
  assumes inv: "pool_inv G s" and h: "hold_ok G s h" "hold_ok G s h'" "h_ptr h < h_ptr h'"
  shows "h_ptr h + h_size h + BUFFER_DESC \<le> h_ptr h'"
proof -
  have "h_ptr h - BUFFER_DESC + extent G (mp_desc s) (h_ptr h - BUFFER_DESC) \<le> h_ptr h' - BUFFER_DESC"
    using live_disjoint[OF inv] h by (simp add: hold_ok_def)
  then show ?thesis using h(1) by (simp add: hold_ok_def BUFFER_DESC_def)
qed

lemma held_mapped:
  assumes inv: "pool_inv G s" and h: "hold_ok G s h"
  shows "\<exists>(a, l)\<in>set (mp_maps s). a + BUFFER_DESC \<le> h_ptr h \<and> h_ptr h + h_size h \<le> a + l"
proof -
  let ?b = "h_ptr h - BUFFER_DESC"
  obtain a r where a: "G a = Some r" "a \<le> ?b" "?b + extent G (mp_desc s) ?b \<le> a + reg_len r"
    using live_block[OF inv, of ?b] h by (auto simp: hold_ok_def)
  have "(a, reg_len r) \<in> set (mp_maps s)" by (rule inv_maps[OF inv a(1)])
  moreover have "a + BUFFER_DESC \<le> h_ptr h \<and> h_ptr h + h_size h \<le> a + reg_len r" using a h by (simp add: hold_ok_def BUFFER_DESC_def)
  ultimately show ?thesis by blast
qed

section \<open>An example run\<close>

definition mfc0 :: kupl_mfc where
  "mfc0 = \<lparr>fc_self = [], fc_sync = [], fc_other = [], fc_other_tail = None, fc_other_count = 0\<rparr>"

definition mem0 :: "nat \<Rightarrow> kupl_memory" where
  "mem0 e = \<lparr>km_eid = e, km_fast_bins = (\<lambda>_. mfc0), km_alloc_chunks = 0, km_bins = (\<lambda>_. []), km_bins_count = (\<lambda>_. 0), km_sync_list = []\<rparr>"

definition pool0 :: mpool where
  "pool0 = \<lparr>mp_desc = (\<lambda>_. None), mp_fast = (\<lambda>_. None), mp_mem = (\<lambda>h e. if e < 2 then Some (mem0 e) else None), mp_maps = [],
     mp_mmap = (\<lambda>n. Some (8388608 * (1 + int n))), mp_align = 8\<rparr>"

declare alloc_loop.simps [code]

lemma pool0_start: "pool_start pool0"
  unfolding pool_start_def align_ok_def
  by (intro conjI exI[of _ 3] allI impI) (auto simp: pool0_def get_mem_def mem0_def split: if_splits)

text \<open>Executor 0 allocates 100 bytes twice, executor 1 returns the first buffer.\<close>

definition pool1 :: mpool where "pool1 = snd (the (kupl_normal_alloc (Mem False 0) 100 False pool0))"
definition pool2 :: mpool where "pool2 = snd (the (kupl_normal_alloc (Mem False 0) 100 False pool1))"
definition pool3 :: mpool where "pool3 = the (kupl_normal_free (Mem False 1) 12582760 pool2)"
definition pool4 :: mpool where "pool4 = snd (the (kupl_normal_alloc (Mem False 0) 100 False pool3))"

lemma the_snd: "map_option fst x = Some r \<Longrightarrow> x = Some (r, snd (the x))"
  by (cases x) auto

lemma pool1: "kupl_normal_alloc (Mem False 0) 100 False pool0 = Some (Some 12582760, pool1)"
  unfolding pool1_def by (rule the_snd) code_simp

lemma pool2: "kupl_normal_alloc (Mem False 0) 100 False pool1 = Some (Some 12582608, pool2)"
  unfolding pool2_def by (rule the_snd) code_simp

lemma pool3: "kupl_normal_free (Mem False 1) 12582760 pool2 = Some pool3"
proof -
  have "kupl_normal_free (Mem False 1) 12582760 pool2 \<noteq> None" by code_simp
  from option.collapse[OF this] show ?thesis unfolding pool3_def by (rule sym)
qed

lemma pool4: "kupl_normal_alloc (Mem False 0) 100 False pool3 = Some (Some 12582456, pool4)"
  unfolding pool4_def by (rule the_snd) code_simp

lemma pool_mem: "map_option km_eid (get_mem (Mem False 0) pool1) = Some 0" "map_option km_eid (get_mem (Mem False 1) pool2) = Some 1"
  "map_option km_eid (get_mem (Mem False 0) pool3) = Some 0" "map_option km_eid (get_mem (Mem False 0) pool0) = Some 0"
  by code_simp+

lemma some_mem: "map_option km_eid x = Some e \<Longrightarrow> x \<noteq> None"
  by auto

lemma steps12: "pool_steps pool0 [] pool2 [Held 12582608 False 100, Held 12582760 False 100]"
proof -
  have "pool_step pool0 [] pool1 (Held 12582760 (mr_hbw (Mem False 0)) (uint (100 :: u64)) # [])"
    by (rule pool_step.alloc[OF some_mem[OF pool_mem(4)] _ pool1]) simp
  then have 1: "pool_steps pool0 [] pool1 [Held 12582760 False 100]"
    using pool_steps.step[OF pool_steps.refl] by simp
  have "pool_step pool1 [Held 12582760 False 100] pool2 (Held 12582608 (mr_hbw (Mem False 0)) (uint (100 :: u64)) # [Held 12582760 False 100])"
    by (rule pool_step.alloc[OF some_mem[OF pool_mem(1)] _ pool2]) simp
  then show ?thesis using pool_steps.step[OF 1] by simp
qed

lemma run2: "pool_run pool2 [Held 12582608 False 100, Held 12582760 False 100]"
  unfolding pool_run_def using pool0_start steps12 by blast

lemma run3: "pool_run pool3 [Held 12582608 False 100]"
proof -
  have "pool_step pool2 [Held 12582608 False 100, Held 12582760 False 100] pool3
      (remove1 (Held 12582760 False 100) [Held 12582608 False 100, Held 12582760 False 100])"
    by (rule pool_step.free[OF _ some_mem[OF pool_mem(2)]]) (simp_all add: pool3[simplified])
  then show ?thesis unfolding pool_run_def using pool0_start pool_steps.step[OF steps12] by auto
qed

lemma steps34: "pool_steps pool3 [Held 12582608 False 100] pool4 [Held 12582456 False 100, Held 12582608 False 100]"
proof -
  have "pool_step pool3 [Held 12582608 False 100] pool4 (Held 12582456 (mr_hbw (Mem False 0)) (uint (100 :: u64)) # [Held 12582608 False 100])"
    by (rule pool_step.alloc[OF some_mem[OF pool_mem(3)] _ pool4]) simp
  then show ?thesis using pool_steps.step[OF pool_steps.refl] by simp
qed

section \<open>What clients can rely on\<close>

text \<open>
  in every run, two buffers that clients hold never overlap, not even with each other's descriptors,
  and each lies with its descriptor in one mapped region.
\<close>

theorem pool_held_disjoint:
  assumes "pool_run s H" and "i < length H" and "j < length H" and "i \<noteq> j"
  shows "(h_ptr (H ! i) + h_size (H ! i) + BUFFER_DESC \<le> h_ptr (H ! j) \<or> h_ptr (H ! j) + h_size (H ! j) + BUFFER_DESC \<le> h_ptr (H ! i)) \<and>
    (\<exists>(a, l)\<in>set (mp_maps s). a + BUFFER_DESC \<le> h_ptr (H ! i) \<and> h_ptr (H ! i) + h_size (H ! i) \<le> a + l)"
proof -
  obtain G where G: "hold_inv G s H" using run_inv[OF assms(1)] by blast
  have inv: "pool_inv G s" and h: "hold_ok G s (H ! i)" "hold_ok G s (H ! j)" and d: "distinct (map h_ptr H)"
    using G assms(2,3) by (simp_all add: hold_inv_def)
  have "h_ptr (H ! i) \<noteq> h_ptr (H ! j)" using d assms(2-4) by (simp add: distinct_conv_nth)
  then have "h_ptr (H ! i) < h_ptr (H ! j) \<or> h_ptr (H ! j) < h_ptr (H ! i)" by auto
  then show ?thesis using held_apart[OF inv h(1,2)] held_apart[OF inv h(2,1)] held_mapped[OF inv h(1)] by blast
qed

theorem pool_held_disjoint_witness:
  "(h_ptr (Held 12582608 False 100) + 100 + BUFFER_DESC \<le> 12582760 \<or> 12582760 + 100 + BUFFER_DESC \<le> h_ptr (Held 12582608 False 100)) \<and>
   (\<exists>(a, l)\<in>set (mp_maps pool2). a + BUFFER_DESC \<le> 12582608 \<and> 12582608 + 100 \<le> a + l)"
  using pool_held_disjoint[OF run2, of 0 1] by simp

text \<open>
  in every run, each allocation below 2 GB returns (a buffer, or null when the system refuses
  memory), and each return of a held buffer does; no operation reads a descriptor that is not there and
  no loop is endless.
\<close>

theorem pool_operations_return:
  assumes "pool_run s H" and "get_mem k s = Some m"
  shows "(\<forall>sz huge. uint sz < 2 ^ 31 - 2 ^ 22 \<longrightarrow> (\<exists>r s'. kupl_normal_alloc k sz huge s = Some (r, s'))) \<and>
    (\<forall>h\<in>set H. h_hbw h = mr_hbw k \<longrightarrow> (\<exists>s'. kupl_normal_free k (h_ptr h) s = Some s'))"
proof -
  obtain G where G: "hold_inv G s H" using run_inv[OF assms(1)] by blast
  then have inv: "pool_inv G s" "align_ok s" by (simp_all add: hold_inv_def)
  have "\<exists>s'. kupl_normal_free k (h_ptr h) s = Some s'" if h: "h \<in> set H" "h_hbw h = mr_hbw k" for h
  proof -
    have "hold_ok G s h" using G h(1) by (simp add: hold_inv_def)
    then show ?thesis using free_ok[OF inv(1) assms(2), of "h_ptr h - BUFFER_DESC"] h(2) by (auto simp: hold_ok_def)
  qed
  then show ?thesis using normal_alloc_ok[OF inv(1) assms(2) inv(2)] by blast
qed

theorem pool_operations_return_witness:
  "\<exists>m s'. get_mem (Mem False 1) pool2 = Some m \<and> kupl_normal_free (Mem False 1) 12582760 pool2 = Some s'"
proof -
  obtain m where m: "get_mem (Mem False 1) pool2 = Some m" using some_mem[OF pool_mem(2)] by blast
  then show ?thesis using pool_operations_return[OF run2 m] by simp
qed

text \<open>
  A buffer in the list of returned buffers stays: the owner takes it from the list, but the second
  decrement of its count, from 0, is not zero.
\<close>

lemma sync_list_leaks:
  assumes "pool_run s H" and "get_mem k s = Some m" and "p \<in> set (km_sync_list m)" and "pool_steps s H s' H'"
  shows "\<exists>x. mp_desc s (p - BUFFER_DESC) = Some x \<and> bd_total x < 0 \<and>
    (\<exists>(a, l)\<in>set (mp_maps s'). a \<le> p - BUFFER_DESC \<and> p - BUFFER_DESC - bd_total x \<le> a + l) \<and>
    (\<forall>h\<in>set H'. h_ptr h + h_size h \<le> p - BUFFER_DESC \<or> p - bd_total x \<le> h_ptr h)"
proof -
  let ?b = "p - BUFFER_DESC"
  obtain G where G: "hold_inv G s H" using run_inv[OF assms(1)] by blast
  then have inv: "pool_inv G s" by (simp add: hold_inv_def)
  obtain c bs x where c: "G c = Some (Chunk k bs)" "?b \<in> set bs" "mp_desc s ?b = Some x" "bd_total x < 0" "bd_ref x = 0"
    using inv_mem[OF inv assms(2)] assms(3) by (auto simp: sync_ok_def limbo_def)
  have "?b \<in> used (mp_desc s) bs" using c by (simp add: used_def tot_def)
  then have b: "?b \<in> live G (mp_desc s)" using c(1) unfolding live_def by blast
  have e: "extent G (mp_desc s) ?b = - bd_total x" using extent_chunk[OF inv c(1,2)] c(3,4) by (simp add: tot_def)
  have "?b + BUFFER_DESC \<notin> h_ptr ` set H"
  proof
    assume "?b + BUFFER_DESC \<in> h_ptr ` set H"
    then obtain h where "h \<in> set H" "h_ptr h = p" by auto
    then have "rf (mp_desc s) ?b \<noteq> 0" using G by (auto simp: hold_inv_def hold_ok_def)
    then show False using c(3,5) by (simp add: rf_def)
  qed
  moreover obtain G' where G': "hold_inv G' s' H'" "unheld_kept G s H G' s' H'" using steps_inv[OF assms(4) G] by blast
  ultimately have b': "?b \<in> live G' (mp_desc s')" "extent G' (mp_desc s') ?b = - bd_total x" "p \<notin> h_ptr ` set H'"
    using b e by (auto simp: unheld_kept_def)
  have inv': "pool_inv G' s'" using G'(1) by (simp add: hold_inv_def)
  obtain a r where a: "G' a = Some r" "a \<le> ?b" "?b + extent G' (mp_desc s') ?b \<le> a + reg_len r" using live_block[OF inv' b'(1)] by blast
  have "\<exists>(a, l)\<in>set (mp_maps s'). a \<le> ?b \<and> ?b - bd_total x \<le> a + l"
    using inv_maps[OF inv' a(1)] a(2,3) b'(2) by (intro bexI[of _ "(a, reg_len r)"]) simp_all
  moreover have "h_ptr h + h_size h \<le> ?b \<or> p - bd_total x \<le> h_ptr h" if h: "h \<in> set H'" for h
  proof -
    have ho: "hold_ok G' s' h" using G'(1) h by (simp add: hold_inv_def)
    have "h_ptr h \<noteq> p" using b'(3) h by blast
    then have "h_ptr h - BUFFER_DESC < ?b \<or> ?b < h_ptr h - BUFFER_DESC" by auto
    then show ?thesis
      using live_disjoint[OF inv', of "h_ptr h - BUFFER_DESC" ?b] live_disjoint[OF inv', of ?b "h_ptr h - BUFFER_DESC"] b' ho
      by (auto simp: hold_ok_def)
  qed
  ultimately show ?thesis using c(3,4) by blast
qed

text \<open>
  C30: A buffer of a chunk that another executor than its owner returns is lost.  In every run of the
  normal layer, when an executor returns a held buffer that lies in a chunk of another executor,
  this ends, but in every further run the buffer stays mapped, with its descriptor and its whole
  size, and no buffer that is handed out later overlaps it.
\<close>

theorem remote_return_leaks:
  assumes "pool_run s H" and "h \<in> set H" and "mp_desc s (h_ptr h - BUFFER_DESC) = Some d"
    and "0 \<le> bd_bin d" and "bd_ref d = 1"
    and "get_mem k s = Some m" and "mr_hbw k = h_hbw h" and "bd_eid d \<noteq> km_eid m"
  shows "\<exists>s1. kupl_normal_free k (h_ptr h) s = Some s1 \<and>
    (\<forall>s' H'. pool_steps s1 (remove1 h H) s' H' \<longrightarrow>
       (\<exists>(a, l)\<in>set (mp_maps s'). a + BUFFER_DESC \<le> h_ptr h \<and> h_ptr h + h_size h \<le> a + l) \<and>
       (\<forall>h'\<in>set H'. h_ptr h' + h_size h' \<le> h_ptr h - BUFFER_DESC \<or> h_ptr h + h_size h + BUFFER_DESC \<le> h_ptr h'))"
proof -
  obtain G where G: "hold_inv G s H" using run_inv[OF assms(1)] by blast
  hence ho: "hold_ok G s h" and inv: "pool_inv G s" using assms(2) by (simp_all add: hold_inv_def)
  let ?b = "h_ptr h - BUFFER_DESC"
  have live: "?b \<in> live G (mp_desc s)" and ext: "h_size h + BUFFER_DESC \<le> extent G (mp_desc s) ?b"
    using ho by (simp_all add: hold_ok_def)
  obtain s1 where s1: "kupl_normal_free k (h_ptr h) s = Some s1"
    using free_ok[OF inv assms(6) live] ho assms(7) by (auto simp: hold_ok_def)
  have "pool_step s H s1 (remove1 h H)"
    by (rule pool_step.free[OF assms(2) _ assms(7) s1]) (simp add: assms(6))
  hence run1: "pool_run s1 (remove1 h H)" using assms(1) pool_steps.step unfolding pool_run_def by blast
  let ?o = "Mem (mr_hbw k) (bd_eid d)"
  have enq: "kupl_normal_sync_list_enqueue ?o (h_ptr h) (put_desc ?b (d\<lparr>bd_ref := 0\<rparr>) s) = Some s1"
    using s1 assms(3-6,8) by (simp add: kupl_normal_free_def Let_def)
  then obtain m1 where m1: "get_mem ?o s1 = Some m1" "h_ptr h \<in> set (km_sync_list m1)"
    and desc: "mp_desc s1 ?b = Some (d\<lparr>bd_ref := 0\<rparr>)"
    by (auto simp: kupl_normal_sync_list_enqueue_def get_put_mem split: Option.bind_splits)
  have tot: "- bd_total d = extent G (mp_desc s) ?b" "bd_total d < 0"
  proof -
    have "G ?b \<noteq> Some (Direct n)" for n using inv_direct[OF inv, of ?b n] assms(3,4) by auto
    then obtain c k' bs where c: "G c = Some (Chunk k' bs)" "?b \<in> used (mp_desc s) bs"
      using live unfolding live_def by blast
    thus "bd_total d < 0" "- bd_total d = extent G (mp_desc s) ?b"
      using extent_chunk[OF inv c(1)] assms(3) by (auto simp: used_def tot_def)
  qed
  have "(\<exists>(a, l)\<in>set (mp_maps s'). a + BUFFER_DESC \<le> h_ptr h \<and> h_ptr h + h_size h \<le> a + l) \<and>
       (\<forall>h'\<in>set H'. h_ptr h' + h_size h' \<le> ?b \<or> h_ptr h + h_size h + BUFFER_DESC \<le> h_ptr h')"
    if st: "pool_steps s1 (remove1 h H) s' H'" for s' H'
  proof -
    obtain x where x: "mp_desc s1 ?b = Some x"
      "\<exists>(a, l)\<in>set (mp_maps s'). a \<le> ?b \<and> ?b - bd_total x \<le> a + l"
      "\<forall>h'\<in>set H'. h_ptr h' + h_size h' \<le> ?b \<or> h_ptr h - bd_total x \<le> h_ptr h'"
      using sync_list_leaks[OF run1 m1 st] by blast
    have "bd_total x = bd_total d" using x(1) desc by auto
    hence t: "h_size h + BUFFER_DESC \<le> - bd_total x" using tot(1) ext by simp
    from x(2) obtain a l where "(a, l) \<in> set (mp_maps s')" "a \<le> ?b" "?b - bd_total x \<le> a + l" by blast
    hence "\<exists>(a, l)\<in>set (mp_maps s'). a + BUFFER_DESC \<le> h_ptr h \<and> h_ptr h + h_size h \<le> a + l"
      using t by (intro bexI[of _ "(a, l)"]) auto
    moreover have "h_ptr h' + h_size h' \<le> ?b \<or> h_ptr h + h_size h + BUFFER_DESC \<le> h_ptr h'" if "h' \<in> set H'" for h'
      using x(3) that t by fastforce
    ultimately show ?thesis by blast
  qed
  thus ?thesis using s1 by blast
qed

theorem remote_return_leaks_witness:
  "\<exists>(a, l)\<in>set (mp_maps pool4). a + BUFFER_DESC \<le> 12582760 \<and> 12582760 + 100 \<le> a + l"
proof -
  obtain m where m: "get_mem (Mem False 1) pool2 = Some m" "km_eid m = 1" using pool_mem(2) by auto
  have "map_option (\<lambda>d. (0 \<le> bd_bin d, bd_ref d, bd_eid d)) (mp_desc pool2 12582712) = Some (True, 1, 0)" by code_simp
  then obtain d where d: "mp_desc pool2 12582712 = Some d" "0 \<le> bd_bin d" "bd_ref d = 1" "bd_eid d = 0" by auto
  let ?H = "[Held 12582608 False 100, Held 12582760 False 100]"
  have "\<exists>s1. kupl_normal_free (Mem False 1) 12582760 pool2 = Some s1 \<and>
    (\<forall>s' H'. pool_steps s1 (remove1 (Held 12582760 False 100) ?H) s' H' \<longrightarrow>
       (\<exists>(a, l)\<in>set (mp_maps s'). a + BUFFER_DESC \<le> 12582760 \<and> 12582760 + 100 \<le> a + l) \<and>
       (\<forall>h'\<in>set H'. h_ptr h' + h_size h' \<le> 12582760 - BUFFER_DESC \<or> 12582760 + 100 + BUFFER_DESC \<le> h_ptr h'))"
    using remote_return_leaks[OF run2, of "Held 12582760 False 100" d "Mem False 1" m] d m
    by (simp add: BUFFER_DESC_def)
  thus ?thesis using pool3 steps34 by auto
qed

end
