(* ===== verification/Kupl_Mpool_Direct.thy ===== *)
theory Kupl_Mpool_Direct
  imports Kupl_Mpool_Safety
begin

text \<open>
  Large buffers of the normal layer, which are regions of their own: they are given back whole, unless
  their size does not fit in an \<open>int\<close>; and what one allocation with huge pages does to all later ones.
\<close>

section \<open>Large buffers\<close>

lemma put_mem_idem: "get_mem k s = Some m \<Longrightarrow> put_mem k m s = s"
  by (cases s) (simp add: put_mem_def get_mem_def fun_upd_idem)

lemma dequeue_empty:
  assumes "get_mem k s = Some m" and "km_sync_list m = []"
  shows "kupl_normal_sync_list_dequeue k s = Some s"
proof -
  have "m\<lparr>km_sync_list := []\<rparr> = m" using assms(2) by (cases m) simp
  then show ?thesis using assms put_mem_idem by (simp add: kupl_normal_sync_list_dequeue_def)
qed

text \<open>The allocation of a large buffer, in one equation.\<close>

lemma direct_alloc:
  assumes m: "get_mem k s = Some m" "km_sync_list m = []" and al: "mp_align s = 2 ^ j" "j \<le> 21"
    and sz: "MEM_MAX_SIZE < uint sz" "uint sz < 2 ^ 40" and a: "kupl_normal_alloc k sz False s = Some (Some p, s1)"
  shows "\<exists>act s0. kupl_memory_mmap act s = (Some (p - BUFFER_DESC), s0) \<and> uint sz + BUFFER_DESC \<le> act \<and> act < uint sz + BUFFER_DESC + 2 ^ j \<and>
    s1 = put_desc (p - BUFFER_DESC) \<lparr>bd_eid = km_eid m, bd_ref = 1, bd_bin = KUPL_MEMORY_BIN_INDEX_INIT,
      bd_total = sint (word_of_int act :: u32), bd_prev_free = 0\<rparr> s0"
proof -
  define act where "act = uint (align_size (mp_align s) (sz + word_of_int BUFFER_DESC))"
  have p: "(2::int) ^ j \<le> 2 ^ 21" using al(2) by (intro power_increasing) simp_all
  have u: "uint (sz + word_of_int BUFFER_DESC) = uint sz + BUFFER_DESC"
    using sz(2) uint_plus_simple_iff[of sz "word_of_int BUFFER_DESC"] by (simp add: BUFFER_DESC_def uint_word_ariths)
  have "uint (sz + word_of_int BUFFER_DESC) + 2 ^ j < 2 ^ 64" unfolding u using p sz(2) by (simp add: BUFFER_DESC_def)
  from align_size_ok[OF al(1) _ this] al(2) have b: "uint sz + BUFFER_DESC \<le> act" "act < uint sz + BUFFER_DESC + 2 ^ j"
    by (simp_all only: u act_def)
  then have big: "MEM_MAX_SIZE < act" using sz(1) by (simp add: BUFFER_DESC_def)
  have "kupl_normal_alloc k sz False s = (if act > MEM_MAX_SIZE
       then (case kupl_memory_mmap act s of
           (None, s) \<Rightarrow> Some (None, s)
         | (Some a, s) \<Rightarrow> Some (Some (a + BUFFER_DESC), put_desc a \<lparr>bd_eid = km_eid m, bd_ref = 1,
             bd_bin = KUPL_MEMORY_BIN_INDEX_INIT, bd_total = sint (word_of_int act :: u32), bd_prev_free = 0\<rparr> s))
       else alloc_loop k act s)"
    by (simp only: kupl_normal_alloc_def Let_def dequeue_empty[OF m] m(1) Option.bind.simps act_def if_False)
  then have "\<exists>a s0. kupl_memory_mmap act s = (Some a, s0) \<and> p = a + BUFFER_DESC \<and>
      s1 = put_desc a \<lparr>bd_eid = km_eid m, bd_ref = 1, bd_bin = KUPL_MEMORY_BIN_INDEX_INIT,
        bd_total = sint (word_of_int act :: u32), bd_prev_free = 0\<rparr> s0"
    using a big by (auto split: prod.splits option.splits)
  then obtain a s0 where "kupl_memory_mmap act s = (Some a, s0)" "a = p - BUFFER_DESC"
      "s1 = put_desc a \<lparr>bd_eid = km_eid m, bd_ref = 1, bd_bin = KUPL_MEMORY_BIN_INDEX_INIT,
        bd_total = sint (word_of_int act :: u32), bd_prev_free = 0\<rparr> s0" by (metis add_diff_cancel_right')
  then show ?thesis using b by blast
qed

lemma mmap_fast: "kupl_memory_mmap n s = (Some a, s1) \<Longrightarrow> mp_fast s1 = mp_fast s"
  by (auto simp: kupl_memory_mmap_def Let_def split: option.splits if_splits)

text \<open>
  C29: A buffer of the normal layer that is too large for a chunk and is below 2 GB less 4 MB is mapped
  for itself; whichever executor returns it, the whole mapping goes back to the system, and the
  mapped regions, the memories of all executors, the alignment and every descriptor outside the
  mapping are as before the allocation.  No returned buffers wait in the list of the allocating
  executor, which the allocation would take from it.
\<close>

theorem direct_roundtrip:
  assumes "get_mem k s = Some m" and "km_sync_list m = []" and "align_ok s"
    and "MEM_MAX_SIZE < uint sz" and "uint sz < 2 ^ 31 - 2 ^ 22" and "\<forall>(a, l)\<in>set (mp_maps s). 0 < l"
    and "kupl_normal_alloc k sz False s = Some (Some p, s1)"
  shows "\<exists>s2 l. kupl_normal_free k' p s1 = Some s2 \<and> mp_maps s1 = (p - BUFFER_DESC, l) # mp_maps s \<and> uint sz + BUFFER_DESC \<le> l \<and>
    mp_maps s2 = mp_maps s \<and> mp_mem s2 = mp_mem s \<and> mp_align s2 = mp_align s \<and>
    (\<forall>x. mp_desc s2 x = (if p - BUFFER_DESC \<le> x \<and> x < p - BUFFER_DESC + l then None else mp_desc s x) \<and>
         mp_fast s2 x = (if p - BUFFER_DESC \<le> x \<and> x < p - BUFFER_DESC + l then None else mp_fast s x))"
proof -
  let ?b = "p - BUFFER_DESC"
  obtain j where j: "mp_align s = 2 ^ j" "j \<le> 21" using assms(3) by (auto simp: align_ok_def)
  have "uint sz < 2 ^ 40" using assms(5) by simp
  from direct_alloc[OF assms(1,2) j assms(4) this assms(7)] obtain act s0 where
    a: "kupl_memory_mmap act s = (Some ?b, s0)" "uint sz + BUFFER_DESC \<le> act" "act < uint sz + BUFFER_DESC + 2 ^ j" and
    s1: "s1 = put_desc ?b \<lparr>bd_eid = km_eid m, bd_ref = 1, bd_bin = KUPL_MEMORY_BIN_INDEX_INIT,
      bd_total = sint (word_of_int act :: u32), bd_prev_free = 0\<rparr> s0" by blast
  note mm = mmap_ok[OF a(1)]
  have "(2::int) ^ j \<le> 2 ^ 21" using j(2) by (intro power_increasing) simp_all
  then have "(2::int) ^ j \<le> 2097152" "uint sz < 2143289344" "0 \<le> uint sz" using assms(5) by simp_all
  then have act: "0 < act" "act < 2147483648" using a(2,3) unfolding BUFFER_DESC_def by linarith+
  have "sint (word_of_int act :: u32) = signed_take_bit 31 act" by transfer simp
  then have t: "sint (word_of_int act :: u32) = act" using act by (simp add: signed_take_bit_int_eq_self)
  define l where "l = page_up act"
  have l: "uint sz + BUFFER_DESC \<le> l" "0 < l" using a(2) page_up_ge[of act] act by (simp_all add: l_def)
  have fresh: "b \<noteq> ?b" if "(b, k) \<in> set (mp_maps s)" for b k
    using mm(1) assms(6) that l(2) by (fastforce simp: map_fresh_def list_all_iff l_def)
  have f1: "map (\<lambda>(b, m). if b = ?b then (b + l, m - l) else (b, m)) (mp_maps s) = mp_maps s"
    using fresh by (intro map_idI) (auto split: prod.splits)
  have f2: "filter (\<lambda>(b, l). 0 < l) (mp_maps s) = mp_maps s" using assms(6) by (simp add: filter_id_conv)
  define s2 where "s2 = munmap ?b act (put_desc ?b \<lparr>bd_eid = km_eid m, bd_ref = 0, bd_bin = KUPL_MEMORY_BIN_INDEX_INIT,
      bd_total = act, bd_prev_free = 0\<rparr> s1)"
  have run: "kupl_normal_free k' p s1 = Some s2"
    unfolding s1 by (simp add: kupl_normal_free_def Let_def KUPL_MEMORY_BIN_INDEX_INIT_def t s2_def s1)
  have "mp_maps s2 = filter (\<lambda>(b, l). 0 < l) (map (\<lambda>(b, m). if b = ?b then (b + l, m - l) else (b, m)) ((?b, l) # mp_maps s))"
    unfolding s2_def munmap_def s1 l_def using act mm(4) by simp
  also have "\<dots> = mp_maps s" using f1 f2 by simp
  finally have "mp_maps s2 = mp_maps s" .
  moreover have "mp_maps s1 = (?b, l) # mp_maps s" using mm(4) by (simp add: s1 l_def)
  moreover have "mp_mem s2 = mp_mem s" using mm(3) act by (simp add: s2_def munmap_def s1 put_desc_def)
  moreover have "mp_desc s2 x = (if ?b \<le> x \<and> x < ?b + l then None else mp_desc s x)" for x
    using act mm(2) l(2) by (simp add: s2_def munmap_def s1 l_def)
  moreover have "mp_fast s2 x = (if ?b \<le> x \<and> x < ?b + l then None else mp_fast s x)" for x
    using act mmap_fast[OF a(1)] l(2) by (simp add: s2_def munmap_def s1 l_def put_desc_def)
  moreover have "mp_align s2 = mp_align s" using act mm(5) by (simp add: s2_def munmap_def s1 put_desc_def)
  ultimately show ?thesis using run l(1) by blast
qed

definition pool5 :: mpool where "pool5 = snd (the (kupl_normal_alloc (Mem False 0) 5000000 False pool0))"

lemma pool5: "kupl_normal_alloc (Mem False 0) 5000000 False pool0 = Some (Some 8388656, pool5)"
  unfolding pool5_def by (rule the_snd) code_simp

lemma pool0_mem: "get_mem (Mem False 0) pool0 = Some (mem0 0)" "km_sync_list (mem0 0) = []" "align_ok pool0" "mp_maps pool0 = []"
  using pool0_start by (simp_all add: get_mem_def pool0_def mem0_def pool_start_def)

theorem direct_roundtrip_witness:
  "\<exists>s2. kupl_normal_free (Mem False 1) 8388656 pool5 = Some s2 \<and> mp_maps s2 = []"
proof -
  have "MEM_MAX_SIZE < uint (5000000 :: u64)" "uint (5000000 :: u64) < 2 ^ 31 - 2 ^ 22" by (simp_all add: mem_sizes)
  then show ?thesis using direct_roundtrip[OF pool0_mem(1,2,3) _ _ _ pool5, of "Mem False 1"] pool0_mem(4) by auto
qed

text \<open>
  C31: the size of a large buffer is stored in an \<open>int\<close>. From 2 GB to 4 GB less 64 bytes, with
  the default alignment, it is negative, the system refuses the unmapping, and the returned buffer stays
  mapped for ever. No returned buffers wait in the list of the allocating executor.
\<close>

theorem direct_alloc_2gb_leaks:
  assumes "get_mem k s = Some m" and "km_sync_list m = []" and "mp_align s = 8"
    and "2 ^ 31 \<le> uint sz" and "uint sz < 2 ^ 32 - 64" and "kupl_normal_alloc k sz False s = Some (Some p, s1)"
  shows "\<exists>s2 l. kupl_normal_free k' p s1 = Some s2 \<and> mp_maps s2 = mp_maps s1 \<and> (p - BUFFER_DESC, l) \<in> set (mp_maps s2) \<and> uint sz \<le> l"
proof -
  let ?b = "p - BUFFER_DESC"
  have j: "mp_align s = 2 ^ 3" "(3::nat) \<le> 21" using assms(3) by simp_all
  have "MEM_MAX_SIZE < uint sz" "uint sz < 2 ^ 40" using assms(4,5) by (simp_all add: mem_sizes)
  from direct_alloc[OF assms(1,2) j this assms(6)] obtain act s0 where
    a: "kupl_memory_mmap act s = (Some ?b, s0)" "uint sz + BUFFER_DESC \<le> act" "act < uint sz + BUFFER_DESC + 2 ^ 3" and
    s1: "s1 = put_desc ?b \<lparr>bd_eid = km_eid m, bd_ref = 1, bd_bin = KUPL_MEMORY_BIN_INDEX_INIT,
      bd_total = sint (word_of_int act :: u32), bd_prev_free = 0\<rparr> s0" by blast
  note mm = mmap_ok[OF a(1)]
  have act: "2147483648 \<le> act" "act < 4294967296" using a(2,3) assms(4,5) by (simp_all add: BUFFER_DESC_def)
  have "sint (word_of_int act :: u32) = signed_take_bit 31 act" by transfer simp
  also have "\<dots> = signed_take_bit 31 (act - 4294967296)" by (simp add: signed_take_bit_eq_iff_take_bit_eq take_bit_eq_mod)
  also have "\<dots> = act - 4294967296" using act by (intro signed_take_bit_int_eq_self) simp_all
  finally have t: "sint (word_of_int act :: u32) = act - 4294967296" .
  define s2 where "s2 = munmap ?b (act - 4294967296) (put_desc ?b \<lparr>bd_eid = km_eid m, bd_ref = 0,
      bd_bin = KUPL_MEMORY_BIN_INDEX_INIT, bd_total = act - 4294967296, bd_prev_free = 0\<rparr> s1)"
  have "kupl_normal_free k' p s1 = Some s2"
    unfolding s1 s2_def by (simp add: kupl_normal_free_def Let_def KUPL_MEMORY_BIN_INDEX_INIT_def t)
  moreover have "mp_maps s1 = (?b, page_up act) # mp_maps s" using mm(4) by (simp add: s1)
  moreover have "uint sz \<le> page_up act" using page_up_ge[of act] a(2) by (simp add: BUFFER_DESC_def)
  ultimately show ?thesis using act by (intro exI[of _ s2] exI[of _ "page_up act"]) (simp add: s2_def munmap_def)
qed

definition pool6 :: mpool where "pool6 = snd (the (kupl_normal_alloc (Mem False 0) 3000000000 False pool0))"

lemma pool6: "kupl_normal_alloc (Mem False 0) 3000000000 False pool0 = Some (Some 8388656, pool6)"
  unfolding pool6_def by (rule the_snd) code_simp

theorem direct_alloc_2gb_leaks_witness:
  "\<exists>s2 l. kupl_normal_free (Mem False 0) 8388656 pool6 = Some s2 \<and> (8388608, l) \<in> set (mp_maps s2) \<and> 3000000000 \<le> l"
proof -
  have a: "mp_align pool0 = 8" "2 ^ 31 \<le> uint (3000000000 :: u64)" "uint (3000000000 :: u64) < 2 ^ 32 - 64"
    by (simp_all add: pool0_def)
  show ?thesis using direct_alloc_2gb_leaks[OF pool0_mem(1,2) a pool6, of "Mem False 0"] by (simp add: BUFFER_DESC_def) blast
qed

section \<open>The alignment\<close>

lemma step_align:
  assumes "pool_steps s H s' H'" and "hold_inv G s H" and "mp_align s = word_of_int HUGE_PAGE_SIZE"
  shows "mp_align s' = word_of_int HUGE_PAGE_SIZE \<and> (\<exists>G'. hold_inv G' s' H')"
  using assms
proof (induction rule: pool_steps.induct)
  case (step s H s' H' s'' H'')
  then obtain G' where G': "hold_inv G' s' H'" "mp_align s' = word_of_int HUGE_PAGE_SIZE" by blast
  then have inv: "pool_inv G' s'" "align_ok s'" by (simp_all add: hold_inv_def)
  have A: "mp_align s'' = word_of_int HUGE_PAGE_SIZE"
    if a: "get_mem k s' \<noteq> None" "uint sz < 2 ^ 31 - 2 ^ 22" "kupl_normal_alloc k sz huge s' = Some (r, s'')" for k sz huge r
  proof -
    obtain m where "get_mem k s' = Some m" using a(1) by blast
    from normal_alloc_ok[OF inv(1) this inv(2) a(2), of huge] show ?thesis using a(3) G'(2) by auto
  qed
  have "mp_align s'' = word_of_int HUGE_PAGE_SIZE"
    using step(2) by (cases rule: pool_step.cases) (use A G'(2) frame_free in \<open>auto simp: frame_defs\<close>)
  then show ?case using step_inv[OF step(2) G'(1)] by blast
qed blast

text \<open>
  \<open>align_length\<close> is a static variable.  After one allocation with huge pages, by any executor,
  every later buffer takes a multiple of 2 MB: the 2 MB from its descriptor on are mapped and hold no
  other buffer, however few bytes were asked for.
\<close>

theorem hugepage_alignment_sticks:
  assumes "pool_run s H" and "get_mem k s \<noteq> None" and "uint sz < 2 ^ 31 - 2 ^ 22" and "kupl_normal_alloc k sz True s = Some (Some p, s1)"
    and "pool_steps s1 (Held p (mr_hbw k) (uint sz) # H) s2 H2" and "get_mem k' s2 \<noteq> None" and "uint sz' < 2 ^ 31 - 2 ^ 22"
    and "kupl_normal_alloc k' sz' False s2 = Some (Some q, s3)"
  shows "(\<exists>(a, l)\<in>set (mp_maps s3). a \<le> q - BUFFER_DESC \<and> q - BUFFER_DESC + HUGE_PAGE_SIZE \<le> a + l) \<and>
    (\<forall>h\<in>set H2. h_ptr h + h_size h \<le> q - BUFFER_DESC \<or> q + HUGE_PAGE_SIZE \<le> h_ptr h)"
proof -
  obtain G where G: "hold_inv G s H" using run_inv[OF assms(1)] by blast
  then have inv: "pool_inv G s" "align_ok s" by (simp_all add: hold_inv_def)
  obtain m where m: "get_mem k s = Some m" using assms(2) by blast
  have al: "mp_align s1 = word_of_int HUGE_PAGE_SIZE" using normal_alloc_ok[OF inv(1) m inv(2) assms(3), of True] assms(4) by auto
  obtain G1 where G1: "hold_inv G1 s1 (Held p (mr_hbw k) (uint sz) # H)"
    using step_inv[OF pool_step.alloc[OF assms(2-4), of H] G] by blast
  obtain G2 where G2: "mp_align s2 = word_of_int HUGE_PAGE_SIZE" "hold_inv G2 s2 H2" using step_align[OF assms(5) G1 al] by blast
  then have inv2: "pool_inv G2 s2" "align_ok s2" by (simp_all add: hold_inv_def)
  obtain m' where m': "get_mem k' s2 = Some m'" using assms(6) by blast
  obtain r s4 where r: "kupl_normal_alloc k' sz' False s2 = Some (r, s4)" "mp_align s4 = (if False then word_of_int HUGE_PAGE_SIZE else mp_align s2)"
    "\<forall>p. r = Some p \<longrightarrow> (\<exists>G' act. adds G2 s2 (mr_hbw k') act (p - BUFFER_DESC) G' s4 \<and> uint sz' + BUFFER_DESC \<le> act \<and>
       uint (mp_align s4) \<le> act)"
    using normal_alloc_ok[OF inv2(1) m' inv2(2) assms(7), of False] by blast
  then have rr: "r = Some q" "s4 = s3" using assms(8) by simp_all
  then obtain G3 act where A: "adds G2 s2 (mr_hbw k') act (q - BUFFER_DESC) G3 s3" "uint (mp_align s3) \<le> act" using r(3) by blast
  have "uint (mp_align s3) = HUGE_PAGE_SIZE" using r(2) rr(2) G2(1) by (simp add: HUGE_PAGE_SIZE_def)
  then have e: "q - BUFFER_DESC \<in> live G3 (mp_desc s3)" "HUGE_PAGE_SIZE \<le> extent G3 (mp_desc s3) (q - BUFFER_DESC)" "pool_inv G3 s3"
    using A by (simp_all add: adds_def)
  obtain a r where a: "G3 a = Some r" "a \<le> q - BUFFER_DESC" "q - BUFFER_DESC + extent G3 (mp_desc s3) (q - BUFFER_DESC) \<le> a + reg_len r"
    using live_block[OF e(3,1)] by blast
  have "\<exists>(a, l)\<in>set (mp_maps s3). a \<le> q - BUFFER_DESC \<and> q - BUFFER_DESC + HUGE_PAGE_SIZE \<le> a + l"
    using inv_maps[OF e(3) a(1)] a(2,3) e(2) by (intro bexI[of _ "(a, reg_len r)"]) simp_all
  moreover have "h_ptr h + h_size h \<le> q - BUFFER_DESC \<or> q + HUGE_PAGE_SIZE \<le> h_ptr h" if h: "h \<in> set H2" for h
  proof -
    have h2: "hold_ok G2 s2 h" using G2(2) h by (simp add: hold_inv_def)
    then have h3: "hold_ok G3 s3 h" by (rule hold_adds[OF A(1)])
    have "h_ptr h - BUFFER_DESC \<noteq> q - BUFFER_DESC" using h2 A(1) by (auto simp: hold_ok_def adds_def)
    then have "h_ptr h - BUFFER_DESC < q - BUFFER_DESC \<or> q - BUFFER_DESC < h_ptr h - BUFFER_DESC" by linarith
    then show ?thesis
      using live_disjoint[OF e(3), of "h_ptr h - BUFFER_DESC" "q - BUFFER_DESC"]
        live_disjoint[OF e(3), of "q - BUFFER_DESC" "h_ptr h - BUFFER_DESC"] e h3
      by (auto simp: hold_ok_def)
  qed
  ultimately show ?thesis by blast
qed

definition pool7 :: mpool where "pool7 = snd (the (kupl_normal_alloc (Mem False 0) 100 True pool0))"
definition pool8 :: mpool where "pool8 = snd (the (kupl_normal_alloc (Mem False 0) 100 False pool7))"

lemma pool7: "kupl_normal_alloc (Mem False 0) 100 True pool0 = Some (Some 10485760, pool7)"
  unfolding pool7_def by (rule the_snd) code_simp

lemma pool8: "kupl_normal_alloc (Mem False 0) 100 False pool7 = Some (Some 18874368, pool8)"
  unfolding pool8_def by (rule the_snd) code_simp

theorem hugepage_alignment_sticks_witness:
  "\<exists>(a, l)\<in>set (mp_maps pool8). a \<le> 18874320 \<and> 18874320 + 2097152 \<le> a + l"
proof -
  have m: "get_mem (Mem False 0) pool0 \<noteq> None" by (rule some_mem[OF pool_mem(4)])
  have "map_option km_eid (get_mem (Mem False 0) pool7) = Some 0" by code_simp
  then have m7: "get_mem (Mem False 0) pool7 \<noteq> None" by (rule some_mem)
  have "pool_run pool0 []" unfolding pool_run_def using pool0_start pool_steps.refl by blast
  from hugepage_alignment_sticks[OF this m _ pool7 pool_steps.refl m7 _ pool8]
  show ?thesis by (simp add: BUFFER_DESC_def HUGE_PAGE_SIZE_def)
qed

end
