(* ===== verification/Kupl_Mpool_Fast.thy ===== *)
theory Kupl_Mpool_Fast
  imports Kupl_Mpool_Normal
begin

text \<open>
  The fast layer of the memory pool (\<open>src/src/memory/mpool/kupl_mpool.cpp\<close>): buffers of up to 1152 bytes
  are cut from normal buffers of 64 KB and kept in three lists per size and executor: \<open>self\<close> for the
  owner's buffers, \<open>other\<close> for those of another executor, which are handed over in batches, and \<open>sync\<close>
  for the batches that others handed over.

  The linked lists are lists of addresses; the word in a free buffer that links it to the next one has
  no field.  The compare-and-swap loops are one step.
\<close>

unbundle bit_operations_syntax

section \<open>Data\<close>

definition KUPL_FAST_MEMORY_OTHRE_QUEUE_LIMIT :: u64 where "KUPL_FAST_MEMORY_OTHRE_QUEUE_LIMIT = 16"
definition KUPL_NORMAL_MEMORY_FAST_GROW_SIZE :: u64 where "KUPL_NORMAL_MEMORY_FAST_GROW_SIZE = 65536"

definition g_fast_bin_size :: "int list" where
  "g_fast_bin_size = map (\<lambda>n. n * KUPL_CACHE_LINE) [1, 1, 2, 3, 4, 5, 6, 7, 8, 9, 10, 11, 12, 13, 14, 15, 16, 17, 18]"

definition FAST_BINS_COUNT :: nat where "FAST_BINS_COUNT = length g_fast_bin_size"

text \<open>\<open>sizeof(kupl_fast_desc_t)\<close>; the descriptor lies in front of its buffer.\<close>

definition FAST_DESC :: int where "FAST_DESC = 16"

definition put_fast :: "addr \<Rightarrow> kupl_fast_desc \<Rightarrow> mpool \<Rightarrow> mpool" where
  "put_fast p d s = s\<lparr>mp_fast := (mp_fast s)(p := Some d)\<rparr>"

definition put_bin :: "mem_ref \<Rightarrow> nat \<Rightarrow> kupl_mfc \<Rightarrow> mpool \<Rightarrow> mpool option" where
  "put_bin k i c s =
     do { m \<leftarrow> get_mem k s; Some (put_mem k (m\<lparr>km_fast_bins := (km_fast_bins m)(i := c)\<rparr>) s) }"

definition get_bin :: "mem_ref \<Rightarrow> nat \<Rightarrow> mpool \<Rightarrow> kupl_mfc option" where
  "get_bin k i s = (if i < FAST_BINS_COUNT then map_option (\<lambda>m. km_fast_bins m i) (get_mem k s) else None)"

definition kupl_sv_list_put :: "addr list \<Rightarrow> addr \<Rightarrow> addr list" where
  "kupl_sv_list_put xs x = x # xs"

fun kupl_sv_list_get :: "addr list \<Rightarrow> addr option \<times> addr list" where
  "kupl_sv_list_get [] = (None, [])"
| "kupl_sv_list_get (x # xs) = (Some x, xs)"

section \<open>Allocation\<close>

definition align_cache_line :: "int \<Rightarrow> int" where
  "align_cache_line a = (a + KUPL_CACHE_LINE - 1) AND NOT (KUPL_CACHE_LINE - 1)"

text \<open>Buffer number \<open>i\<close> of a block; the first one goes to the user, the others into \<open>self\<close>.\<close>

fun carve :: "mem_ref \<Rightarrow> nat \<Rightarrow> addr \<Rightarrow> addr \<Rightarrow> int \<Rightarrow> nat list \<Rightarrow> mpool \<Rightarrow> mpool option" where
  "carve k index alloc_ptr ptr step [] s = Some s"
| "carve k index alloc_ptr ptr step (i # is) s =
     do {
       m \<leftarrow> get_mem k s;
       let buf = ptr + step * int i;
       let s = put_fast buf \<lparr>fd_eid = km_eid m, fd_bin = int index, fd_alloc_ptr = alloc_ptr\<rparr> s;
       c \<leftarrow> get_bin k index s;
       s \<leftarrow> (if i > 0 then put_bin k index (c\<lparr>fc_self := kupl_sv_list_put (fc_self c) buf\<rparr>) s else Some s);
       carve k index alloc_ptr ptr step is s
     }"

definition kupl_get_memory_from_normal_memory :: "mem_ref \<Rightarrow> int \<Rightarrow> nat \<Rightarrow> bool \<Rightarrow> mpool \<Rightarrow> (addr option \<times> mpool) option" where
  "kupl_get_memory_from_normal_memory k actual index huge s =
     do {
       (r, s) \<leftarrow> kupl_normal_alloc k KUPL_NORMAL_MEMORY_FAST_GROW_SIZE huge s;
       case r of
         None \<Rightarrow> Some (None, s)
       | Some alloc_ptr \<Rightarrow> do {
           let delta = align_cache_line FAST_DESC;
           let count = (word_of_int (uint KUPL_NORMAL_MEMORY_FAST_GROW_SIZE div (actual + delta)) :: 16 word);
           d \<leftarrow> mp_desc s (alloc_ptr - BUFFER_DESC);
           let s = put_desc (alloc_ptr - BUFFER_DESC) (d\<lparr>bd_ref := count\<rparr>) s;
           let ptr = align_cache_line alloc_ptr;
           s \<leftarrow> carve k index alloc_ptr ptr (actual + delta) [0..<unat count] s;
           Some (Some ptr, s)
         }
     }"

definition kupl_fast_alloc :: "mem_ref \<Rightarrow> u64 \<Rightarrow> bool \<Rightarrow> mpool \<Rightarrow> (addr option \<times> mpool) option" where
  "kupl_fast_alloc k sz huge s =
     (if uint sz > g_fast_bin_size ! (FAST_BINS_COUNT - 1)
      then do {
        (r, s) \<leftarrow> kupl_normal_alloc k sz huge s;
        case r of
          None \<Rightarrow> Some (None, s)
        | Some p \<Rightarrow> do {
            m \<leftarrow> get_mem k s;
            Some (Some p, put_fast p \<lparr>fd_eid = km_eid m, fd_bin = KUPL_MEMORY_BIN_INDEX_INIT, fd_alloc_ptr = p\<rparr> s)
          }
      }
      else do {
        let index = nat ((uint sz + KUPL_CACHE_LINE - 1) div KUPL_CACHE_LINE);
        let actual = g_fast_bin_size ! index;
        c \<leftarrow> get_bin k index s;
        case kupl_sv_list_get (fc_self c) of
          (Some p, rest) \<Rightarrow> map_option (\<lambda>s. (Some p, s)) (put_bin k index (c\<lparr>fc_self := rest\<rparr>) s)
        | (None, _) \<Rightarrow>
            (case fc_sync c of
               p # rest \<Rightarrow> map_option (\<lambda>s. (Some p, s)) (put_bin k index (c\<lparr>fc_self := rest, fc_sync := []\<rparr>) s)
             | [] \<Rightarrow> kupl_get_memory_from_normal_memory k actual index huge s)
      })"

section \<open>Return\<close>

text \<open>The link in \<open>tail\<close> is set to the old \<open>sync\<close> list, and \<open>sync\<close> to the head of the other list.\<close>

definition splice :: "addr list \<Rightarrow> addr option \<Rightarrow> addr list \<Rightarrow> addr list" where
  "splice other tail sync =
     (case tail of None \<Rightarrow> other | Some t \<Rightarrow> if t \<in> set other then takeWhile (\<lambda>x. x \<noteq> t) other @ t # sync else other)"

definition kupl_fast_free :: "mem_ref \<Rightarrow> addr \<Rightarrow> mpool \<Rightarrow> mpool option" where
  "kupl_fast_free k p s =
     do {
       fd \<leftarrow> mp_fast s p;
       if fd_bin fd < 0 then kupl_normal_free k (fd_alloc_ptr fd) s
       else do {
         let index = nat (fd_bin fd);
         m \<leftarrow> get_mem k s;
         c \<leftarrow> get_bin k index s;
         if fd_eid fd = km_eid m then put_bin k index (c\<lparr>fc_self := kupl_sv_list_put (fc_self c) p\<rparr>) s
         else (case fc_other c of
             [] \<Rightarrow> put_bin k index (c\<lparr>fc_other := kupl_sv_list_put [] p, fc_other_tail := Some p\<rparr>) s
           | head # _ \<Rightarrow> do {
               hd \<leftarrow> mp_fast s head;
               if fd_eid fd = fd_eid hd \<and> fc_other_count c < KUPL_FAST_MEMORY_OTHRE_QUEUE_LIMIT
               then put_bin k index (c\<lparr>fc_other := kupl_sv_list_put (fc_other c) p, fc_other_count := fc_other_count c + 1\<rparr>) s
               else do {
                 s \<leftarrow> put_bin k index (c\<lparr>fc_other := [p], fc_other_tail := Some p, fc_other_count := 1\<rparr>) s;
                 let k' = Mem (mr_hbw k) (fd_eid hd);
                 c' \<leftarrow> get_bin k' index s;
                 put_bin k' index (c'\<lparr>fc_sync := splice (fc_other c) (fc_other_tail c) (fc_sync c')\<rparr>) s
               }
             })
       }
     }"

section \<open>Begin and end\<close>

definition kupl_fast_init :: "kupl_memory \<Rightarrow> kupl_memory" where
  "kupl_fast_init m = m\<lparr>km_fast_bins := (\<lambda>i. if i < FAST_BINS_COUNT
     then \<lparr>fc_self = [], fc_sync = [], fc_other = [], fc_other_tail = None, fc_other_count = 0\<rparr> else km_fast_bins m i)\<rparr>"

text \<open>The lists are walked, each buffer gives back a reference to its block; \<open>other\<close> through its owner.\<close>

fun cleanup_own :: "mem_ref \<Rightarrow> addr list \<Rightarrow> mpool \<Rightarrow> mpool option" where
  "cleanup_own k [] s = Some s"
| "cleanup_own k (p # ps) s =
     do { d \<leftarrow> mp_fast s p; s \<leftarrow> kupl_normal_free k (fd_alloc_ptr d) s; cleanup_own k ps s }"

fun cleanup_other :: "mem_ref \<Rightarrow> addr list \<Rightarrow> mpool \<Rightarrow> mpool option" where
  "cleanup_other k [] s = Some s"
| "cleanup_other k (p # ps) s =
     do {
       d \<leftarrow> mp_fast s p;
       s \<leftarrow> kupl_normal_free (Mem (mr_hbw k) (fd_eid d)) (fd_alloc_ptr d) s;
       cleanup_other k ps s
     }"

fun kupl_fast_cleanup_bins :: "mem_ref \<Rightarrow> nat list \<Rightarrow> mpool \<Rightarrow> mpool option" where
  "kupl_fast_cleanup_bins k [] s = Some s"
| "kupl_fast_cleanup_bins k (i # is) s =
     do {
       c \<leftarrow> get_bin k i s;
       s \<leftarrow> cleanup_own k (fc_self c) s;
       s \<leftarrow> cleanup_own k (fc_sync c) s;
       s \<leftarrow> cleanup_other k (fc_other c) s;
       kupl_fast_cleanup_bins k is s
     }"

definition kupl_fast_cleanup :: "mem_ref \<Rightarrow> mpool \<Rightarrow> mpool option" where
  "kupl_fast_cleanup k s = kupl_fast_cleanup_bins k [0..<FAST_BINS_COUNT] s"

end
