(* ===== verification/Kupl_Mpool_Fast_Inv.thy ===== *)
theory Kupl_Mpool_Fast_Inv
  imports Kupl_Mpool_Fast Kupl_Mpool_Safety
begin

text \<open>
  The invariant of the fast layer.  Ghost data: the normal buffers that the layer and its users hold,
  the blocks of small buffers among them, and the one place where each small buffer is.
\<close>

unbundle bit_operations_syntax

section \<open>Blocks of small buffers\<close>

lemma align_cache_line: "align_cache_line a = (a + 63) div 64 * 64"
proof -
  have "(a + 63) AND NOT (mask 6) = push_bit 6 (drop_bit 6 (a + 63))" by (rule bit_eqI) (auto simp: bit_simps)
  also have "\<dots> = (a + 63) div 64 * 64" by (simp add: push_bit_eq_mult drop_bit_eq_div)
  finally show ?thesis by (simp add: align_cache_line_def KUPL_CACHE_LINE_def mask_eq_exp_minus_1 add.commute)
qed

lemma align_range: "a \<le> align_cache_line a \<and> align_cache_line a < a + 64"
  unfolding align_cache_line using div_mult_mod_eq[of "a + 63" 64] pos_mod_bound[of 64 "a + 63"] pos_mod_sign[of 64 "a + 63"] by linarith

definition stp :: "nat \<Rightarrow> int" where
  "stp i = g_fast_bin_size ! i + align_cache_line FAST_DESC"

definition cnt :: "nat \<Rightarrow> nat" where
  "cnt i = nat (65536 div stp i)"

definition pieces :: "addr \<Rightarrow> nat \<Rightarrow> addr set" where
  "pieces ap i = {q. \<exists>j < cnt i. q = align_cache_line ap + stp i * int j}"

lemma fast_bins_count: "FAST_BINS_COUNT = 19"
  by (simp add: FAST_BINS_COUNT_def g_fast_bin_size_def)

lemma bin_cases: "i < FAST_BINS_COUNT \<Longrightarrow> g_fast_bin_size ! i = 64 * max 1 (int i)"
proof -
  have "\<forall>i\<in>set [0..<FAST_BINS_COUNT]. g_fast_bin_size ! i = 64 * max 1 (int i)" by code_simp
  then show "i < FAST_BINS_COUNT \<Longrightarrow> g_fast_bin_size ! i = 64 * max 1 (int i)" by simp
qed

lemma stp_val: "stp i = g_fast_bin_size ! i + 64"
  unfolding stp_def align_cache_line FAST_DESC_def by simp

lemma stp_pos: "i < FAST_BINS_COUNT \<Longrightarrow> 128 \<le> stp i \<and> stp i \<le> 1216"
  using bin_cases[of i] unfolding stp_val fast_bins_count by simp

lemma cnt_val:
  assumes "i < FAST_BINS_COUNT"
  shows "0 < cnt i" "cnt i < 2 ^ 16" "stp i * int (cnt i) \<le> 65536"
proof -
  note s = stp_pos[OF assms]
  have c: "int (cnt i) = 65536 div stp i" using s by (simp add: cnt_def pos_imp_zdiv_nonneg_iff)
  have "stp i * (65536 div stp i) = 65536 - 65536 mod stp i" by (simp add: minus_mod_eq_mult_div)
  moreover have "0 \<le> 65536 mod stp i" using s by simp
  ultimately have "stp i * (65536 div stp i) \<le> 65536" by linarith
  then show "stp i * int (cnt i) \<le> 65536" using c by simp
  have "1 \<le> 65536 div stp i" using s zdiv_mono2[of 65536 "stp i" 65536] by simp
  then show "0 < cnt i" using c by linarith
  have "65536 div stp i \<le> 65536 div 128" using s by (intro zdiv_mono2) simp_all
  then show "cnt i < 2 ^ 16" using c by simp
qed

lemma piece_range:
  assumes i: "i < FAST_BINS_COUNT" and q: "q \<in> pieces ap i"
  shows "ap \<le> q" "q + g_fast_bin_size ! i \<le> ap + 65536"
proof -
  obtain j where j: "j < cnt i" "q = align_cache_line ap + stp i * int j" using q by (auto simp: pieces_def)
  note s = stp_pos[OF i] and a = align_range[of ap]
  have "0 \<le> stp i * int j" using s by simp
  then show "ap \<le> q" using j(2) a by simp
  have "stp i * (int j + 1) \<le> stp i * int (cnt i)" using j(1) s by (intro mult_left_mono) simp_all
  then show "q + g_fast_bin_size ! i \<le> ap + 65536"
    using j(2) a cnt_val(3)[OF i] stp_val[of i] unfolding distrib_left by linarith
qed

lemma piece_apart:
  assumes i: "i < FAST_BINS_COUNT" and q: "q \<in> pieces ap i" "q' \<in> pieces ap i" "q < q'"
  shows "q + g_fast_bin_size ! i + 64 \<le> q'"
proof -
  obtain j j' where j: "q = align_cache_line ap + stp i * int j" "q' = align_cache_line ap + stp i * int j'"
    using q(1,2) by (auto simp: pieces_def)
  note s = stp_pos[OF i]
  then have "int j < int j'" using q(3) j by (simp add: mult_less_cancel_left_pos)
  then have "stp i * (int j + 1) \<le> stp i * int j'" using s by (intro mult_left_mono) simp_all
  then show ?thesis using j stp_val[of i] unfolding distrib_left by linarith
qed

section \<open>Places\<close>

datatype place = Self mem_ref nat | Sync mem_ref nat | Other mem_ref nat | User

type_synonym blocks = "addr \<Rightarrow> (mem_ref \<times> nat) option"

definition owned :: "blocks \<Rightarrow> mem_ref \<Rightarrow> nat \<Rightarrow> addr set" where
  "owned B k i = {q. \<exists>ap. B ap = Some (k, i) \<and> q \<in> pieces ap i}"

definition listed :: "(addr \<Rightarrow> place) \<Rightarrow> place \<Rightarrow> addr set \<Rightarrow> addr list \<Rightarrow> bool" where
  "listed loc pl A xs \<longleftrightarrow> distinct xs \<and> set xs \<subseteq> A \<and> (\<forall>q\<in>set xs. loc q = pl)"

text \<open>The buffers in \<open>other\<close> are of one owner, and the tail is where it should be.\<close>

definition mfc_ok :: "blocks \<Rightarrow> (addr \<Rightarrow> place) \<Rightarrow> mem_ref \<Rightarrow> nat \<Rightarrow> kupl_mfc \<Rightarrow> bool" where
  "mfc_ok B loc k i c \<longleftrightarrow> listed loc (Self k i) (owned B k i) (fc_self c) \<and> listed loc (Sync k i) (owned B k i) (fc_sync c) \<and>
     (\<exists>e. listed loc (Other k i) (owned B (Mem (mr_hbw k) e) i) (fc_other c)) \<and>
     (fc_other c \<noteq> [] \<longrightarrow> fc_other_tail c = Some (last (fc_other c)))"

definition lists_ok :: "blocks \<Rightarrow> (addr \<Rightarrow> place) \<Rightarrow> (mem_ref \<Rightarrow> nat \<Rightarrow> kupl_mfc option) \<Rightarrow> bool" where
  "lists_ok B loc F \<longleftrightarrow> (\<forall>k i c. F k i = Some c \<longrightarrow> mfc_ok B loc k i c)"

lemma listed_cong: "listed loc pl A xs \<Longrightarrow> \<forall>q. loc q = pl \<longrightarrow> loc' q = pl \<Longrightarrow> listed loc' pl A xs"
  unfolding listed_def by blast

lemma mfc_cong:
  assumes "mfc_ok B loc k i c" and "\<forall>q. loc' q \<noteq> loc q \<longrightarrow> loc q \<notin> {Self k i, Sync k i, Other k i}"
  shows "mfc_ok B loc' k i c"
proof -
  have 1: "\<forall>q. loc q = Self k i \<longrightarrow> loc' q = Self k i" "\<forall>q. loc q = Sync k i \<longrightarrow> loc' q = Sync k i"
      "\<forall>q. loc q = Other k i \<longrightarrow> loc' q = Other k i" using assms(2) by (metis insertCI)+
  obtain e where e: "listed loc (Other k i) (owned B (Mem (mr_hbw k) e) i) (fc_other c)" using assms(1) by (auto simp: mfc_ok_def)
  show ?thesis using assms(1) listed_cong[OF _ 1(1)] listed_cong[OF _ 1(2)] listed_cong[OF e 1(3)] by (auto simp: mfc_ok_def)
qed

text \<open>Buffers move between users and the lists of one size of one memory: the other lists stay.\<close>

lemma lists_update:
  assumes F: "lists_ok B loc F" and c: "mfc_ok B loc' k i c"
    and l: "\<forall>q. loc' q \<noteq> loc q \<longrightarrow> loc q \<in> {User, Self k i, Sync k i, Other k i}"
  shows "lists_ok B loc' (F(k := (F k)(i := Some c)))"
  unfolding lists_ok_def
proof (intro allI impI)
  fix k' i' c' assume h: "(F(k := (F k)(i := Some c))) k' i' = Some c'"
  show "mfc_ok B loc' k' i' c'"
  proof (cases "k' = k \<and> i' = i")
    case True
    then show ?thesis using h c by simp
  next
    case False
    then have "F k' i' = Some c'" using h by (auto split: if_splits)
    then have m: "mfc_ok B loc k' i' c'" using F by (simp add: lists_ok_def)
    show ?thesis by (rule mfc_cong[OF m]) (use l False in force)
  qed
qed

lemma lists_get: "lists_ok B loc F \<Longrightarrow> F k i = Some c \<Longrightarrow> mfc_ok B loc k i c"
  by (simp add: lists_ok_def)

section \<open>The invariant\<close>

definition blocks_ok :: "(mem_ref \<Rightarrow> bool) \<Rightarrow> regions \<Rightarrow> held list \<Rightarrow> blocks \<Rightarrow> mpool \<Rightarrow> bool" where
  "blocks_ok M G H B s \<longleftrightarrow> hold_inv G s H \<and> (\<forall>k. get_mem k s \<noteq> None \<longleftrightarrow> M k) \<and>
     (\<forall>ap k i. B ap = Some (k, i) \<longrightarrow> Held ap (mr_hbw k) 65536 \<in> set H \<and> get_mem k s \<noteq> None \<and> i < FAST_BINS_COUNT \<and>
        (\<forall>q\<in>pieces ap i. mp_fast s q = Some \<lparr>fd_eid = mr_eid k, fd_bin = int i, fd_alloc_ptr = ap\<rparr>))"

text \<open>A user holds a small buffer, or a normal buffer that has a descriptor of the fast layer.\<close>

definition small :: "blocks \<Rightarrow> (addr \<Rightarrow> place) \<Rightarrow> held \<Rightarrow> bool" where
  "small B loc u \<longleftrightarrow> loc (h_ptr u) = User \<and>
     (\<exists>k i. h_ptr u \<in> owned B k i \<and> mr_hbw k = h_hbw u \<and> h_size u \<le> g_fast_bin_size ! i)"

definition big :: "held list \<Rightarrow> blocks \<Rightarrow> mpool \<Rightarrow> held \<Rightarrow> bool" where
  "big H B s u \<longleftrightarrow> u \<in> set H \<and> 0 < h_size u \<and> B (h_ptr u) = None \<and>
     (\<exists>e. mp_fast s (h_ptr u) = Some \<lparr>fd_eid = e, fd_bin = KUPL_MEMORY_BIN_INDEX_INIT, fd_alloc_ptr = h_ptr u\<rparr>)"

definition users_ok :: "held list \<Rightarrow> blocks \<Rightarrow> (addr \<Rightarrow> place) \<Rightarrow> mpool \<Rightarrow> held list \<Rightarrow> bool" where
  "users_ok H B loc s U \<longleftrightarrow> distinct (map h_ptr U) \<and> (\<forall>u\<in>set U. small B loc u \<or> big H B s u)"

definition fast_inv :: "(mem_ref \<Rightarrow> bool) \<Rightarrow> mpool \<Rightarrow> held list \<Rightarrow> bool" where
  "fast_inv M s U \<longleftrightarrow> (\<exists>G H B loc. blocks_ok M G H B s \<and> lists_ok B loc (\<lambda>k i. get_bin k i s) \<and> users_ok H B loc s U)"

lemma block_held:
  assumes "blocks_ok M G H B s" and "B ap = Some (k, i)"
  shows "Held ap (mr_hbw k) 65536 \<in> set H" "get_mem k s \<noteq> None" "i < FAST_BINS_COUNT"
    "q \<in> pieces ap i \<Longrightarrow> mp_fast s q = Some \<lparr>fd_eid = mr_eid k, fd_bin = int i, fd_alloc_ptr = ap\<rparr>"
    "hold_ok G s (Held ap (mr_hbw k) 65536)"
  using assms unfolding blocks_ok_def hold_inv_def by blast+

lemma blocks_hold: "blocks_ok M G H B s \<Longrightarrow> hold_inv G s H"
  by (simp add: blocks_ok_def)

lemma held_apart2:
  assumes "hold_inv G s H" and "h \<in> set H" "h' \<in> set H" and "h_ptr h < h_ptr h'"
  shows "h_ptr h + h_size h + BUFFER_DESC \<le> h_ptr h'"
  using held_apart[of G s h h'] assms by (simp add: hold_inv_def)

lemma owned_block:
  assumes "blocks_ok M G H B s" and "q \<in> owned B k i"
  obtains ap where "B ap = Some (k, i)" "q \<in> pieces ap i" "ap \<le> q" "q + g_fast_bin_size ! i \<le> ap + 65536" "Held ap (mr_hbw k) 65536 \<in> set H"
  using assms(2) block_held(1,3)[OF assms(1)] piece_range unfolding owned_def by blast

lemma bin_pos: "i < FAST_BINS_COUNT \<Longrightarrow> 64 \<le> g_fast_bin_size ! i"
  using bin_cases[of i] by simp

text \<open>Two small buffers, and a small buffer and a normal one that is no block, are apart.\<close>

lemma owned_apart:
  assumes b: "blocks_ok M G H B s" and q: "q \<in> owned B k i" "q' \<in> owned B k' i'" "q < q'"
  shows "q + g_fast_bin_size ! i + FAST_DESC \<le> q'"
proof -
  from owned_block[OF b q(1)] obtain ap where a: "B ap = Some (k, i)" "q \<in> pieces ap i" "ap \<le> q" "q + g_fast_bin_size ! i \<le> ap + 65536"
    "Held ap (mr_hbw k) 65536 \<in> set H" .
  from owned_block[OF b q(2)] obtain ap' where a': "B ap' = Some (k', i')" "q' \<in> pieces ap' i'" "ap' \<le> q'" "q' + g_fast_bin_size ! i' \<le> ap' + 65536"
    "Held ap' (mr_hbw k') 65536 \<in> set H" .
  have pos: "64 \<le> g_fast_bin_size ! i" "64 \<le> g_fast_bin_size ! i'" using bin_pos block_held(3)[OF b] a(1) a'(1) by blast+
  consider "ap = ap'" | "ap < ap'" | "ap' < ap" by linarith
  then show ?thesis
  proof cases
    case 1
    then show ?thesis using piece_apart[OF block_held(3)[OF b a(1)] a(2) _ q(3)] a(1) a'(1,2) by (simp add: FAST_DESC_def)
  next
    case 2
    then have "ap + 65536 + BUFFER_DESC \<le> ap'" using held_apart2[OF blocks_hold[OF b] a(5) a'(5)] by simp
    then show ?thesis using a(4) a'(3) by (simp add: FAST_DESC_def BUFFER_DESC_def)
  next
    case 3
    then have "ap' + 65536 + BUFFER_DESC \<le> ap" using held_apart2[OF blocks_hold[OF b] a'(5) a(5)] by simp
    then show ?thesis using a(3) a'(4) q(3) pos by (simp add: BUFFER_DESC_def)
  qed
qed

lemma owned_big_apart:
  assumes b: "blocks_ok M G H B s" and q: "q \<in> owned B k i" and h: "h \<in> set H" "B (h_ptr h) = None"
  shows "q + g_fast_bin_size ! i + FAST_DESC \<le> h_ptr h \<or> h_ptr h + h_size h + FAST_DESC \<le> q"
proof -
  from owned_block[OF b q(1)] obtain ap where a: "B ap = Some (k, i)" "ap \<le> q" "q + g_fast_bin_size ! i \<le> ap + 65536"
    "Held ap (mr_hbw k) 65536 \<in> set H" .
  have "ap \<noteq> h_ptr h" using a(1) h(2) by auto
  then consider "ap < h_ptr h" | "h_ptr h < ap" by linarith
  then show ?thesis
  proof cases
    case 1
    then show ?thesis using held_apart2[OF blocks_hold[OF b] a(4) h(1)] a(3) by (simp add: FAST_DESC_def BUFFER_DESC_def)
  next
    case 2
    then show ?thesis using held_apart2[OF blocks_hold[OF b] h(1) a(4)] a(2) by (simp add: FAST_DESC_def BUFFER_DESC_def)
  qed
qed

lemma owned_unique:
  assumes b: "blocks_ok M G H B s" and q: "q \<in> owned B k i" "q \<in> owned B k' i'"
  shows "k' = k \<and> i' = i"
proof -
  from owned_block[OF b q(1)] obtain ap where a: "B ap = Some (k, i)" "ap \<le> q" "q + g_fast_bin_size ! i \<le> ap + 65536" "Held ap (mr_hbw k) 65536 \<in> set H" .
  from owned_block[OF b q(2)] obtain ap' where a': "B ap' = Some (k', i')" "ap' \<le> q" "q + g_fast_bin_size ! i' \<le> ap' + 65536"
    "Held ap' (mr_hbw k') 65536 \<in> set H" .
  have pos: "64 \<le> g_fast_bin_size ! i" "64 \<le> g_fast_bin_size ! i'" using bin_pos block_held(3)[OF b] a(1) a'(1) by blast+
  have "\<not> ap < ap'" "\<not> ap' < ap"
    using held_apart2[OF blocks_hold[OF b] a(4) a'(4)] held_apart2[OF blocks_hold[OF b] a'(4) a(4)] a a' pos by (auto simp: BUFFER_DESC_def)
  then have "ap = ap'" by simp
  then show ?thesis using a(1) a'(1) by simp
qed

lemma owned_fast:
  assumes b: "blocks_ok M G H B s" and q: "q \<in> owned B k i"
  shows "\<exists>ap. mp_fast s q = Some \<lparr>fd_eid = mr_eid k, fd_bin = int i, fd_alloc_ptr = ap\<rparr>" "i < FAST_BINS_COUNT" "get_mem k s \<noteq> None"
  using owned_block[OF b q] block_held(2-4)[OF b] by metis+

end
