(* ===== verification/Kupl_Mpool_Fast_Safety.thy ===== *)
theory Kupl_Mpool_Fast_Safety
  imports Kupl_Mpool_Fast_Inv
begin

text \<open>
  Every operation of the fast layer keeps its invariant: what users can rely on.
\<close>

section \<open>Changes of the fast lists and descriptors\<close>

definition same_normal :: "mpool \<Rightarrow> mpool \<Rightarrow> bool" where
  "same_normal s s' \<longleftrightarrow> mp_desc s' = mp_desc s \<and> mp_maps s' = mp_maps s \<and> mp_align s' = mp_align s \<and>
     (\<forall>k. map_option (\<lambda>m. (km_eid m, km_bins m, km_sync_list m)) (get_mem k s') =
        map_option (\<lambda>m. (km_eid m, km_bins m, km_sync_list m)) (get_mem k s))"

lemma same_normal_refl [simp]: "same_normal s s"
  by (simp add: same_normal_def)

lemma same_normal_trans: "same_normal s s' \<Longrightarrow> same_normal s' s'' \<Longrightarrow> same_normal s s''"
  by (simp add: same_normal_def)

lemma same_normal_map: "same_normal s s' \<Longrightarrow> map_option (\<lambda>m. (km_eid m, km_bins m, km_sync_list m)) (get_mem k s') =
    map_option (\<lambda>m. (km_eid m, km_bins m, km_sync_list m)) (get_mem k s)"
  unfolding same_normal_def by blast

lemma same_normal_mem: "same_normal s s' \<Longrightarrow> (get_mem k s' = None) = (get_mem k s = None)"
  using same_normal_map[of s s' k] by (cases "get_mem k s"; cases "get_mem k s'") simp_all

lemma same_normal_get:
  assumes "same_normal s s'" and "get_mem k s' = Some m'"
  shows "\<exists>m. get_mem k s = Some m \<and> km_eid m' = km_eid m \<and> km_bins m' = km_bins m \<and> km_sync_list m' = km_sync_list m"
proof -
  have "map_option (\<lambda>m. (km_eid m, km_bins m, km_sync_list m)) (get_mem k s) = Some (km_eid m', km_bins m', km_sync_list m')"
    using same_normal_map[OF assms(1), of k] by (simp add: assms(2))
  then show ?thesis by (cases "get_mem k s") simp_all
qed

lemma same_normal_eid: "same_normal s s' \<Longrightarrow> get_mem k s = Some m \<Longrightarrow> \<exists>m'. get_mem k s' = Some m' \<and> km_eid m' = km_eid m"
  using same_normal_mem same_normal_get by (metis option.exhaust option.inject option.distinct(1))

lemma same_normal_inv:
  assumes n: "same_normal s s'" and h: "hold_inv G s H"
  shows "hold_inv G s' H"
proof -
  have e: "mp_desc s' = mp_desc s" "mp_maps s' = mp_maps s" "mp_align s' = mp_align s" using n by (simp_all add: same_normal_def)
  have inv: "pool_inv G s" using h by (simp add: hold_inv_def)
  have 1: "km_eid m' = mr_eid k \<and> bins_ok (mp_desc s) m' (free_of G (mp_desc s) k) \<and> sync_ok G (mp_desc s) k (km_sync_list m')"
    if m': "get_mem k s' = Some m'" for k m'
  proof -
    obtain m where m: "get_mem k s = Some m" "km_eid m' = km_eid m" "km_bins m' = km_bins m" "km_sync_list m' = km_sync_list m"
      using same_normal_get[OF n m'] by blast
    show ?thesis using inv_mem[OF inv m(1)] unfolding bins_ok_def m(2-4) .
  qed
  have "pool_inv G s'"
    unfolding pool_inv_def e same_normal_mem[OF n]
    by (intro conjI) (use inv 1 in \<open>simp_all add: pool_inv_def\<close>)
  then show ?thesis using h e by (simp add: hold_inv_def hold_ok_def align_ok_def)
qed

lemma put_fast_simps [simp]:
  "get_mem k (put_fast p d s) = get_mem k s" "get_bin k i (put_fast p d s) = get_bin k i s"
  "mp_fast (put_fast p d s) = (mp_fast s)(p := Some d)" "mp_desc (put_fast p d s) = mp_desc s"
  "same_normal s (put_fast p d s)"
  by (simp_all add: put_fast_def get_mem_def get_bin_def same_normal_def)

lemma put_bin_ok:
  assumes "get_bin k i s = Some c0"
  shows "\<exists>s'. put_bin k i c s = Some s' \<and> same_normal s s' \<and> mp_fast s' = mp_fast s \<and>
    (\<lambda>k i. get_bin k i s') = (\<lambda>k i. get_bin k i s)(k := (\<lambda>i. get_bin k i s)(i := Some c))"
proof -
  obtain m where m: "get_mem k s = Some m" "i < FAST_BINS_COUNT" using assms by (auto simp: get_bin_def split: if_splits)
  let ?s = "put_mem k (m\<lparr>km_fast_bins := (km_fast_bins m)(i := c)\<rparr>) s"
  have "same_normal s ?s" using m by (simp add: same_normal_def get_put_mem)
  moreover have "(\<lambda>k i. get_bin k i ?s) = (\<lambda>k i. get_bin k i s)(k := (\<lambda>i. get_bin k i s)(i := Some c))"
    using m by (auto simp: get_bin_def get_put_mem fun_eq_iff)
  ultimately show ?thesis using m by (simp add: put_bin_def)
qed

lemma blocks_same_normal:
  assumes b: "blocks_ok M G H B s" and n: "same_normal s s'" and f: "mp_fast s' = mp_fast s"
  shows "blocks_ok M G H B s'"
  using b same_normal_inv[OF n] same_normal_mem[OF n] unfolding blocks_ok_def f by auto

text \<open>The carving of a block.\<close>

definition buf_at :: "addr \<Rightarrow> int \<Rightarrow> nat \<Rightarrow> addr" where
  "buf_at p st j = p + st * int j"

lemma carve_ok:
  assumes "get_bin k i s = Some c" and "get_mem k s = Some m"
  shows "\<exists>s'. carve k i ap p st js s = Some s' \<and> same_normal s s' \<and>
    mp_fast s' = (\<lambda>x. if x \<in> buf_at p st ` set js then Some \<lparr>fd_eid = km_eid m, fd_bin = int i, fd_alloc_ptr = ap\<rparr> else mp_fast s x) \<and>
    (\<lambda>k i. get_bin k i s') = (\<lambda>k i. get_bin k i s)(k := (\<lambda>i. get_bin k i s)(i := Some (c\<lparr>fc_self := rev (map (buf_at p st) (filter (\<lambda>j. 0 < j) js)) @ fc_self c\<rparr>)))"
  using assms
proof (induction js arbitrary: s c m)
  case Nil
  then show ?case by (auto simp: fun_eq_iff)
next
  case (Cons j js)
  let ?d = "\<lparr>fd_eid = km_eid m, fd_bin = int i, fd_alloc_ptr = ap\<rparr>"
  let ?s = "put_fast (buf_at p st j) ?d s"
  let ?c = "if 0 < j then c\<lparr>fc_self := buf_at p st j # fc_self c\<rparr> else c"
  have g: "get_bin k i ?s = Some c" using Cons.prems by simp
  obtain s1 where s1: "(if 0 < j then put_bin k i (c\<lparr>fc_self := kupl_sv_list_put (fc_self c) (p + st * int j)\<rparr>) ?s else Some ?s) = Some s1"
    "same_normal s s1" "mp_fast s1 = mp_fast ?s" "(\<lambda>k i. get_bin k i s1) = (\<lambda>k i. get_bin k i s)(k := (\<lambda>i. get_bin k i s)(i := Some ?c))"
  proof (cases "0 < j")
    case True
    then show ?thesis using put_bin_ok[OF g, of ?c] that same_normal_trans[OF put_fast_simps(5)]
      by (auto simp: kupl_sv_list_put_def buf_at_def)
  next
    case False
    then show ?thesis using Cons.prems(1) by (intro that[of ?s]) (auto simp: fun_eq_iff)
  qed
  obtain m1 where m1: "get_mem k s1 = Some m1" "km_eid m1 = km_eid m" using same_normal_eid[OF s1(2) Cons.prems(2)] by blast
  have pt: "get_bin k' i' s1 = (if k' = k \<and> i' = i then Some ?c else get_bin k' i' s)" for k' i'
    using fun_cong[OF fun_cong[OF s1(4)], of k' i'] by simp
  then have "get_bin k i s1 = Some ?c" by simp
  from Cons.IH[OF this m1(1)] obtain s' where
    s': "carve k i ap p st js s1 = Some s'" "same_normal s1 s'"
      "mp_fast s' = (\<lambda>x. if x \<in> buf_at p st ` set js then Some ?d else mp_fast s1 x)"
      "(\<lambda>k i. get_bin k i s') = (\<lambda>k i. get_bin k i s1)(k := (\<lambda>i. get_bin k i s1)(i := Some (?c\<lparr>fc_self := rev (map (buf_at p st) (filter (\<lambda>j. 0 < j) js)) @ fc_self ?c\<rparr>)))"
    unfolding m1(2) by blast
  have "carve k i ap p st (j # js) s = Some s'"
    using Cons.prems g s1(1) s'(1) by (cases "j = 0") (simp_all add: buf_at_def Let_def)
  moreover have "mp_fast s' = (\<lambda>x. if x \<in> buf_at p st ` set (j # js) then Some ?d else mp_fast s x)"
    unfolding s'(3) s1(3) by (auto simp: fun_eq_iff)
  moreover have "(\<lambda>k i. get_bin k i s') = (\<lambda>k i. get_bin k i s)(k := (\<lambda>i. get_bin k i s)(i := Some (c\<lparr>fc_self := rev (map (buf_at p st) (filter (\<lambda>j. 0 < j) (j # js))) @ fc_self c\<rparr>)))"
    unfolding s'(4) using pt by (auto simp: fun_eq_iff)
  ultimately show ?case using same_normal_trans[OF s1(2) s'(2)] by blast
qed

section \<open>Allocation\<close>

text \<open>A buffer leaves the lists of one size for a user.\<close>

lemma fast_take:
  assumes b: "blocks_ok M G H B s" and l: "lists_ok B loc (\<lambda>k i. get_bin k i s)" and u: "users_ok H B loc s U"
    and c: "get_bin k i s = Some c" and p: "p \<in> owned B k i" "loc p \<in> {Self k i, Sync k i}"
    and loc': "loc' p = User" "\<forall>q. q \<noteq> p \<and> loc' q \<noteq> loc q \<longrightarrow> loc q \<in> {Self k i, Sync k i, Other k i}"
    and c': "mfc_ok B loc' k i c'" and sz: "sz \<le> g_fast_bin_size ! i"
  shows "\<exists>s'. put_bin k i c' s = Some s' \<and> fast_inv M s' (Held p (mr_hbw k) sz # U)"
proof -
  obtain s' where s': "put_bin k i c' s = Some s'" "same_normal s s'" "mp_fast s' = mp_fast s"
    "(\<lambda>k i. get_bin k i s') = (\<lambda>k i. get_bin k i s)(k := (\<lambda>i. get_bin k i s)(i := Some c'))" using put_bin_ok[OF c] by blast
  have "loc q \<in> {User, Self k i, Sync k i, Other k i}" if "loc' q \<noteq> loc q" for q
    using that p(2) loc'(2) by (cases "q = p") auto
  then have "lists_ok B loc' (\<lambda>k i. get_bin k i s')" unfolding s'(4) by (intro lists_update[OF l c']) blast
  moreover have "users_ok H B loc' s' (Held p (mr_hbw k) sz # U)"
  proof -
    have "h_ptr v \<noteq> p \<and> (small B loc' v \<or> big H B s' v)" if v: "v \<in> set U" for v
    proof -
      consider "small B loc v" | "big H B s v" using u v by (auto simp: users_ok_def)
      then show ?thesis
      proof cases
        case 1
        then have "loc (h_ptr v) = User" by (simp add: small_def)
        moreover from this have "h_ptr v \<noteq> p" using p(2) by auto
        ultimately have "loc' (h_ptr v) = User" using loc'(2) by (metis empty_iff insert_iff place.distinct)
        then show ?thesis using 1 \<open>h_ptr v \<noteq> p\<close> by (simp add: small_def)
      next
        case 2
        then have "v \<in> set H" "B (h_ptr v) = None" by (simp_all add: big_def)
        moreover have "v \<in> set H \<Longrightarrow> 0 \<le> h_size v" using blocks_hold[OF b] by (simp add: hold_inv_def hold_ok_def)
        ultimately have "h_ptr v \<noteq> p" using owned_big_apart[OF b p(1)] bin_pos[OF owned_fast(2)[OF b p(1)]] by (force simp: FAST_DESC_def)
        then show ?thesis using 2 by (simp add: big_def s'(3))
      qed
    qed
    moreover have "small B loc' (Held p (mr_hbw k) sz)" using p(1) loc'(1) sz by (auto simp: small_def)
    ultimately show ?thesis using u by (auto simp: users_ok_def)
  qed
  ultimately have "fast_inv M s' (Held p (mr_hbw k) sz # U)"
    using blocks_same_normal[OF b s'(2,3)] unfolding fast_inv_def by blast
  then show ?thesis using s'(1) by blast
qed

lemma same_bins_get: "same_bins s s' \<Longrightarrow> get_bin k i s' = get_bin k i s"
  unfolding same_bins_def get_bin_def
  by (drule spec[of _ k], cases "get_mem k s"; cases "get_mem k s'") simp_all

lemma blocks_change0:
  assumes b: "blocks_ok M G H B s" and h: "hold_inv G' s' H'" and m: "\<forall>k. (get_mem k s' = None) = (get_mem k s = None)"
    and i: "\<forall>ap k i. B ap = Some (k, i) \<longrightarrow> Held ap (mr_hbw k) 65536 \<in> set H'"
    and f: "\<forall>k i. \<forall>q\<in>owned B k i. mp_fast s' q = mp_fast s q"
  shows "blocks_ok M G' H' B s'"
proof -
  have "Held ap (mr_hbw k) 65536 \<in> set H' \<and> get_mem k s' \<noteq> None \<and> j < FAST_BINS_COUNT \<and>
      (\<forall>q\<in>pieces ap j. mp_fast s' q = Some \<lparr>fd_eid = mr_eid k, fd_bin = int j, fd_alloc_ptr = ap\<rparr>)" if B: "B ap = Some (k, j)" for ap k j
  proof -
    have "mp_fast s' q = mp_fast s q" if "q \<in> pieces ap j" for q using f B that unfolding owned_def by blast
    then show ?thesis using block_held(2-4)[OF b B] i m B by auto
  qed
  moreover have "\<forall>k. get_mem k s' \<noteq> None \<longleftrightarrow> M k" using b m by (simp add: blocks_ok_def)
  ultimately show ?thesis using h by (simp add: blocks_ok_def)
qed

lemma blocks_change:
  assumes b: "blocks_ok M G H B s" and h: "hold_inv G' s' H'" and i: "set H \<subseteq> set H'" and m: "\<forall>k. (get_mem k s' = None) = (get_mem k s = None)"
    and f: "\<forall>k i. \<forall>q\<in>owned B k i. mp_fast s' q = mp_fast s q"
  shows "blocks_ok M G' H' B s'"
  by (rule blocks_change0[OF b h m _ f]) (use block_held(1)[OF b] i in blast)

lemma users_change:
  assumes u: "users_ok H B loc s U" and i: "set H \<subseteq> set H'" and f: "\<forall>h\<in>set H. B (h_ptr h) = None \<longrightarrow> mp_fast s' (h_ptr h) = mp_fast s (h_ptr h)"
  shows "users_ok H' B loc s' U"
  using u i f unfolding users_ok_def big_def by auto

lemma alloc_blocks:
  assumes b: "blocks_ok M G H B s" and m: "get_mem k s \<noteq> None" and sz: "uint sz < 2 ^ 31 - 2 ^ 22"
  shows "\<exists>r s'. kupl_normal_alloc k sz huge s = Some (r, s') \<and> mp_fast s' = mp_fast s \<and> (\<lambda>k i. get_bin k i s') = (\<lambda>k i. get_bin k i s) \<and>
    (\<forall>k. (get_mem k s' = None) = (get_mem k s = None)) \<and>
    (r = None \<longrightarrow> (\<exists>G'. blocks_ok M G' H B s')) \<and>
    (\<forall>p. r = Some p \<longrightarrow> p \<notin> h_ptr ` set H \<and> B p = None \<and> (\<exists>G'. blocks_ok M G' (Held p (mr_hbw k) (uint sz) # H) B s'))"
proof -
  have hi: "hold_inv G s H" "pool_inv G s" "align_ok s" using blocks_hold[OF b] by (simp_all add: hold_inv_def)
  obtain m' where m': "get_mem k s = Some m'" using m by blast
  obtain r s' where r: "kupl_normal_alloc k sz huge s = Some (r, s')" "same_bins s s'" "mp_fast s' = mp_fast s"
    using normal_alloc_ok[OF hi(2) m' hi(3) sz, of huge] by blast
  have mem: "\<forall>k. (get_mem k s' = None) = (get_mem k s = None)" using same_bins_mem[OF r(2)] by blast
  have "\<exists>G'. blocks_ok M G' H B s'" if "r = None"
  proof -
    have "pool_step s H s' H" by (rule pool_step.alloc_none[OF m sz]) (use r(1) that in simp)
    from step_inv[OF this hi(1)] show ?thesis using blocks_change[OF b _ _ mem] r(3) by auto
  qed
  moreover have "p \<notin> h_ptr ` set H \<and> B p = None \<and> (\<exists>G'. blocks_ok M G' (Held p (mr_hbw k) (uint sz) # H) B s')" if "r = Some p" for p
  proof -
    have "pool_step s H s' (Held p (mr_hbw k) (uint sz) # H)" by (rule pool_step.alloc[OF m sz]) (use r(1) that in simp)
    from step_inv[OF this hi(1)] obtain G' where G': "hold_inv G' s' (Held p (mr_hbw k) (uint sz) # H)" by blast
    then have "p \<notin> h_ptr ` set H" by (simp add: hold_inv_def)
    moreover have "blocks_ok M G' (Held p (mr_hbw k) (uint sz) # H) B s'" by (rule blocks_change[OF b G' _ mem]) (use r(3) in auto)
    moreover have "B p = None"
    proof (rule ccontr)
      assume "B p \<noteq> None"
      then obtain k0 i0 where "B p = Some (k0, i0)" by auto
      from block_held(1)[OF b this] show False using \<open>p \<notin> h_ptr ` set H\<close> by force
    qed
    ultimately show ?thesis by blast
  qed
  ultimately show ?thesis using r mem same_bins_get[OF r(2)] by simp
qed

text \<open>Giving a held buffer another count.\<close>

lemma hold_ref:
  assumes h: "hold_inv G s H" and v: "v \<in> set H" and x: "mp_desc s (h_ptr v - BUFFER_DESC) = Some x" and r: "r \<noteq> 0"
  shows "hold_inv G (put_desc (h_ptr v - BUFFER_DESC) (x\<lparr>bd_ref := r\<rparr>) s) H"
proof -
  let ?b = "h_ptr v - BUFFER_DESC" and ?s = "put_desc (h_ptr v - BUFFER_DESC) (x\<lparr>bd_ref := r\<rparr>) s"
  have "hold_ok G s v" using h v by (simp add: hold_inv_def)
  then have "bd_ref x \<noteq> 0" using x by (simp add: hold_ok_def rf_def)
  have inv: "pool_inv G s" using h by (simp add: hold_inv_def)
  note R = ref_step[OF inv x \<open>bd_ref x \<noteq> 0\<close>, of r]
  have "hold_ok G ?s w" if "w \<in> set H" for w
  proof -
    have "hold_ok G s w" using h that by (simp add: hold_inv_def)
    moreover have "rf (mp_desc ?s) (h_ptr w - BUFFER_DESC) \<noteq> 0"
      using \<open>hold_ok G s w\<close> R(4,5) r unfolding hold_ok_def by metis
    ultimately show ?thesis unfolding hold_ok_def R(2,3) by blast
  qed
  then show ?thesis using h R(1) by (simp add: hold_inv_def align_ok_def)
qed

text \<open>The buffers of a new block are none of the old ones.\<close>

lemma new_pieces:
  assumes b: "blocks_ok M G (Held ap f 65536 # H) B s" and n: "B ap = None" and i: "i < FAST_BINS_COUNT" and q: "q \<in> pieces ap i"
  shows "q \<notin> owned B k j" "h \<in> set H \<Longrightarrow> q \<noteq> h_ptr h"
proof -
  note r = piece_range[OF i q] and z = bin_pos[OF i]
  show "q \<notin> owned B k j"
  proof
    assume o: "q \<in> owned B k j"
    have "64 \<le> g_fast_bin_size ! j" by (rule bin_pos[OF owned_fast(2)[OF b o]])
    moreover have "q + g_fast_bin_size ! j + FAST_DESC \<le> ap \<or> ap + 65536 + FAST_DESC \<le> q"
      using owned_big_apart[OF b o, of "Held ap f 65536"] n by simp
    ultimately show False using r z unfolding FAST_DESC_def by linarith
  qed
  show "q \<noteq> h_ptr h" if h: "h \<in> set H"
  proof -
    have hi: "hold_inv G s (Held ap f 65536 # H)" by (rule blocks_hold[OF b])
    then have ne: "h_ptr h \<noteq> ap" and sz: "0 \<le> h_size h" using h by (auto simp: hold_inv_def hold_ok_def)
    then consider "h_ptr h < ap" | "ap < h_ptr h" by linarith
    then show ?thesis
    proof cases
      case 1
      then show ?thesis using r by simp
    next
      case 2
      then show ?thesis using held_apart2[OF hi, of "Held ap f 65536" h] h r z by (simp add: BUFFER_DESC_def)
    qed
  qed
qed

lemma lists_grow:
  assumes l: "lists_ok B loc F" and o: "\<forall>k i. owned B k i \<subseteq> owned B' k i" and loc: "\<forall>k i. \<forall>q\<in>owned B k i. loc' q = loc q"
  shows "lists_ok B' loc' F"
proof -
  have li: "listed loc' pl (owned B' k i) xs" if "listed loc pl (owned B k i) xs" for pl k i xs
    using that o loc unfolding listed_def by (metis subset_iff)
  have "mfc_ok B' loc' k i c" if "mfc_ok B loc k i c" for k i c
    using that li unfolding mfc_ok_def by blast
  then show ?thesis using l by (simp add: lists_ok_def)
qed

definition carved_loc :: "(addr \<Rightarrow> place) \<Rightarrow> addr \<Rightarrow> mem_ref \<Rightarrow> nat \<Rightarrow> addr \<Rightarrow> place" where
  "carved_loc loc ap k i q = (if q \<in> pieces ap i then if q = align_cache_line ap then User else Self k i else loc q)"

lemma pieces_at: "pieces ap i = buf_at (align_cache_line ap) (stp i) ` set [0..<cnt i]"
  by (auto simp: pieces_def buf_at_def)

lemma carved_self:
  assumes i: "i < FAST_BINS_COUNT"
  shows "listed (carved_loc loc ap k i) (Self k i) (pieces ap i) (rev (map (buf_at (align_cache_line ap) (stp i)) (filter (\<lambda>j. 0 < j) [0..<cnt i])))"
proof -
  let ?b = "buf_at (align_cache_line ap) (stp i)"
  note s = stp_pos[OF i]
  have inj: "inj_on ?b A" for A using s by (auto simp: inj_on_def buf_at_def)
  have d: "distinct (map ?b (filter (\<lambda>j. 0 < j) [0..<cnt i]))" by (simp add: distinct_map inj)
  have "?b j \<in> pieces ap i" "?b j \<noteq> align_cache_line ap" if "0 < j" "j < cnt i" for j
    using that s by (auto simp: pieces_at) (simp add: buf_at_def)
  then show ?thesis using d by (auto simp: listed_def carved_loc_def)
qed

lemma owned_upd:
  assumes "B ap = None"
  shows "owned (B(ap \<mapsto> (k, i))) k' j = (if k' = k \<and> j = i then pieces ap i else {}) \<union> owned B k' j"
proof (rule set_eqI)
  fix q
  have o: "x \<noteq> ap" if "B x = Some z" for x z using that assms by auto
  show "q \<in> owned (B(ap \<mapsto> (k, i))) k' j \<longleftrightarrow> q \<in> (if k' = k \<and> j = i then pieces ap i else {}) \<union> owned B k' j"
    using o by (cases "k' = k \<and> j = i") (auto simp: owned_def split: if_splits)
qed

text \<open>A block that was just allocated becomes small buffers, the first of them the user's.\<close>

lemma carve_inv:
  assumes b: "blocks_ok M G (Held ap (mr_hbw k) 65536 # H) B s" and l: "lists_ok B loc (\<lambda>k i. get_bin k i s)" and u: "users_ok H B loc s U"
    and c: "get_bin k i s = Some c" "fc_self c = []" and nB: "B ap = None" and sz: "sz \<le> g_fast_bin_size ! i"
  shows "\<exists>s'. carve k i ap (align_cache_line ap) (stp i) [0..<cnt i] s = Some s' \<and> fast_inv M s' (Held (align_cache_line ap) (mr_hbw k) sz # U)"
proof -
  let ?H = "Held ap (mr_hbw k) 65536 # H" and ?B = "B(ap \<mapsto> (k, i))" and ?loc = "carved_loc loc ap k i"
  let ?xs = "rev (map (buf_at (align_cache_line ap) (stp i)) (filter (\<lambda>j. 0 < j) [0..<cnt i]))"
  have hi: "hold_inv G s ?H" by (rule blocks_hold[OF b])
  then have inv: "pool_inv G s" by (simp add: hold_inv_def)
  obtain m where m: "get_mem k s = Some m" and i: "i < FAST_BINS_COUNT" using c by (auto simp: get_bin_def split: if_splits)
  have e: "km_eid m = mr_eid k" using inv_mem[OF inv m] by blast
  note upd = owned_upd[of B ap, OF nB]
  have new: "q \<notin> owned B k' j" "h \<in> set H \<Longrightarrow> q \<noteq> h_ptr h" if "q \<in> pieces ap i" for q k' j h
    using new_pieces[OF b nB i that] by blast+
  obtain s' where s': "carve k i ap (align_cache_line ap) (stp i) [0..<cnt i] s = Some s'" "same_normal s s'"
    "mp_fast s' = (\<lambda>x. if x \<in> pieces ap i then Some \<lparr>fd_eid = mr_eid k, fd_bin = int i, fd_alloc_ptr = ap\<rparr> else mp_fast s x)"
    "(\<lambda>k i. get_bin k i s') = (\<lambda>k i. get_bin k i s)(k := (\<lambda>i. get_bin k i s)(i := Some (c\<lparr>fc_self := ?xs\<rparr>)))"
    using carve_ok[OF c(1) m, of ap "align_cache_line ap" "stp i" "[0..<cnt i]"] unfolding pieces_at c(2) e append_Nil2 by blast
  have first: "align_cache_line ap \<in> pieces ap i" using cnt_val(1)[OF i] by (auto simp: pieces_def intro!: exI[of _ 0])
  have bl: "blocks_ok M G ?H ?B s'"
  proof -
    have "blocks_ok M G ?H B s'"
      by (rule blocks_change[OF b same_normal_inv[OF s'(2) hi]]) (use new(1) same_normal_mem[OF s'(2)] in \<open>auto simp: s'(3)\<close>)
    then show ?thesis using m i same_normal_mem[OF s'(2), of k] by (auto simp: blocks_ok_def s'(3))
  qed
  have li: "lists_ok ?B ?loc (\<lambda>k i. get_bin k i s')"
  proof -
    have 1: "lists_ok ?B ?loc (\<lambda>k i. get_bin k i s)"
      by (rule lists_grow[OF l]) (use new(1) in \<open>auto simp: upd carved_loc_def\<close>)
    have "listed ?loc (Self k i) (owned ?B k i) ?xs" using carved_self[OF i] unfolding upd listed_def by (simp, blast)
    then have "mfc_ok ?B ?loc k i (c\<lparr>fc_self := ?xs\<rparr>)" using lists_get[OF 1 c(1)] by (simp add: mfc_ok_def)
    then show ?thesis unfolding s'(4) by (rule lists_update[OF 1]) simp
  qed
  have "h_ptr v \<notin> pieces ap i \<and> (small ?B ?loc v \<or> big ?H ?B s' v)" if v: "v \<in> set U" for v
  proof -
    consider "small B loc v" | "big H B s v" using u v by (auto simp: users_ok_def)
    then show ?thesis
    proof cases
      case 1
      then have "h_ptr v \<notin> pieces ap i" using new(1) by (auto simp: small_def)
      then show ?thesis using 1 by (auto simp: small_def carved_loc_def upd)
    next
      case 2
      then have "h_ptr v \<notin> pieces ap i" using new(2) by (auto simp: big_def)
      moreover have "h_ptr v \<noteq> ap" using 2 hi by (auto simp: big_def hold_inv_def)
      ultimately show ?thesis using 2 by (simp add: big_def s'(3))
    qed
  qed
  moreover have "small ?B ?loc (Held (align_cache_line ap) (mr_hbw k) sz)"
    using first sz by (auto simp: small_def carved_loc_def upd)
  ultimately have "users_ok ?H ?B ?loc s' (Held (align_cache_line ap) (mr_hbw k) sz # U)"
    using u first by (auto simp: users_ok_def)
  then show ?thesis using s'(1) bl li unfolding fast_inv_def by blast
qed

lemma unat_cnt:
  assumes "i < FAST_BINS_COUNT"
  shows "unat (word_of_int (uint KUPL_NORMAL_MEMORY_FAST_GROW_SIZE div stp i) :: 16 word) = cnt i"
proof -
  note c = cnt_val[OF assms] and s = stp_pos[OF assms]
  have "int (cnt i) = 65536 div stp i" using s by (simp add: cnt_def pos_imp_zdiv_nonneg_iff)
  then have e: "uint KUPL_NORMAL_MEMORY_FAST_GROW_SIZE div stp i = int (cnt i)" by (simp add: KUPL_NORMAL_MEMORY_FAST_GROW_SIZE_def)
  have "uint (word_of_int (int (cnt i)) :: 16 word) = int (cnt i) mod 2 ^ 16" by (simp only: uint_word_of_int) simp
  also have "\<dots> = int (cnt i)" using c(2) by simp
  finally show ?thesis unfolding e unat_eq_nat_uint by simp
qed

lemma fast_grow:
  assumes b: "blocks_ok M G H B s" and l: "lists_ok B loc (\<lambda>k i. get_bin k i s)" and u: "users_ok H B loc s U"
    and c: "get_bin k i s = Some c" "fc_self c = []" and sz: "sz \<le> g_fast_bin_size ! i"
  shows "\<exists>r s'. kupl_get_memory_from_normal_memory k (g_fast_bin_size ! i) i huge s = Some (r, s') \<and>
    fast_inv M s' (case r of None \<Rightarrow> U | Some p \<Rightarrow> Held p (mr_hbw k) sz # U)"
proof -
  have i: "i < FAST_BINS_COUNT" and m: "get_mem k s \<noteq> None" using c(1) by (auto simp: get_bin_def split: if_splits)
  let ?count = "word_of_int (uint KUPL_NORMAL_MEMORY_FAST_GROW_SIZE div stp i) :: 16 word"
  have g: "uint KUPL_NORMAL_MEMORY_FAST_GROW_SIZE = 65536" by (simp add: KUPL_NORMAL_MEMORY_FAST_GROW_SIZE_def)
  have "uint KUPL_NORMAL_MEMORY_FAST_GROW_SIZE < 2 ^ 31 - 2 ^ 22" by (simp add: g)
  from alloc_blocks[OF b m this, of huge] obtain r s1 where a: "kupl_normal_alloc k KUPL_NORMAL_MEMORY_FAST_GROW_SIZE huge s = Some (r, s1)"
    "mp_fast s1 = mp_fast s" "(\<lambda>k i. get_bin k i s1) = (\<lambda>k i. get_bin k i s)" "r = None \<longrightarrow> (\<exists>G'. blocks_ok M G' H B s1)"
    "\<forall>p. r = Some p \<longrightarrow> p \<notin> h_ptr ` set H \<and> B p = None \<and> (\<exists>G'. blocks_ok M G' (Held p (mr_hbw k) 65536 # H) B s1)" unfolding g by blast
  show ?thesis
  proof (cases r)
    case None
    then obtain G' where "blocks_ok M G' H B s1" using a(4) by blast
    moreover have "users_ok H B loc s1 U" by (rule users_change[OF u]) (simp_all add: a(2))
    ultimately have "fast_inv M s1 U" using l a(3) unfolding fast_inv_def by metis
    then show ?thesis using a(1) None by (simp add: kupl_get_memory_from_normal_memory_def)
  next
    case (Some ap)
    let ?b = "ap - BUFFER_DESC"
    obtain G' where b1: "blocks_ok M G' (Held ap (mr_hbw k) 65536 # H) B s1" and nB: "B ap = None" using a(5) Some by blast
    have hi: "hold_inv G' s1 (Held ap (mr_hbw k) 65536 # H)" by (rule blocks_hold[OF b1])
    then have "pool_inv G' s1" "?b \<in> live G' (mp_desc s1)" by (simp_all add: hold_inv_def hold_ok_def)
    then obtain x where x: "mp_desc s1 ?b = Some x" using live_desc by metis
    let ?s2 = "put_desc ?b (x\<lparr>bd_ref := ?count\<rparr>) s1"
    have "?count \<noteq> 0" using unat_cnt[OF i] cnt_val(1)[OF i] by (metis unat_0 less_irrefl)
    from hold_ref[OF hi, of "Held ap (mr_hbw k) 65536" x, OF _ _ this] x have h2: "hold_inv G' ?s2 (Held ap (mr_hbw k) 65536 # H)" by simp
    have gm: "get_mem k' ?s2 = get_mem k' s1" "get_bin k' j ?s2 = get_bin k' j s1" for k' j by (simp_all add: get_mem_def get_bin_def put_desc_def)
    have f2: "mp_fast ?s2 = mp_fast s" using a(2) by (simp add: put_desc_def)
    have b2: "blocks_ok M G' (Held ap (mr_hbw k) 65536 # H) B ?s2"
      by (rule blocks_change[OF b1 h2]) (simp_all add: gm put_desc_def)
    have l2: "lists_ok B loc (\<lambda>k i. get_bin k i ?s2)" using l unfolding gm a(3) .
    have u2: "users_ok H B loc ?s2 U" by (rule users_change[OF u]) (simp_all add: a(2))
    have c2: "get_bin k i ?s2 = Some c" using c(1) fun_cong[OF fun_cong[OF a(3)], of k i] by (simp add: gm)
    obtain s' where s': "carve k i ap (align_cache_line ap) (stp i) [0..<cnt i] ?s2 = Some s'"
      "fast_inv M s' (Held (align_cache_line ap) (mr_hbw k) sz # U)" using carve_inv[OF b2 l2 u2 c2 c(2) nB sz] by blast
    have "kupl_get_memory_from_normal_memory k (g_fast_bin_size ! i) i huge s = Some (Some (align_cache_line ap), s')"
      using a(1) Some x s'(1) unat_cnt[OF i] by (simp add: kupl_get_memory_from_normal_memory_def Let_def flip: stp_def)
    then show ?thesis using s'(2) by simp
  qed
qed

lemma users_big:
  assumes b: "blocks_ok M G (h # H) B s" and u: "users_ok H B loc s U" and n: "h_ptr h \<notin> h_ptr ` set H" "B (h_ptr h) = None" "0 < h_size h"
    and s': "s' = put_fast (h_ptr h) \<lparr>fd_eid = e, fd_bin = KUPL_MEMORY_BIN_INDEX_INIT, fd_alloc_ptr = h_ptr h\<rparr> s"
  shows "blocks_ok M G (h # H) B s'" "users_ok (h # H) B loc s' (h # U)"
proof -
  have ow: "q \<noteq> h_ptr h" if q: "q \<in> owned B k i" for q k i
  proof -
    have "0 \<le> h_size h" using blocks_hold[OF b] by (simp add: hold_inv_def hold_ok_def)
    then show ?thesis using owned_big_apart[OF b q, of h] n(2) bin_pos[OF owned_fast(2)[OF b q]] by (auto simp: FAST_DESC_def)
  qed
  have ne: "h_ptr g \<noteq> h_ptr h" if "g \<in> set H" for g using n(1) that by (metis image_eqI)
  show "blocks_ok M G (h # H) B s'"
    by (rule blocks_change[OF b same_normal_inv[OF _ blocks_hold[OF b]]]) (use ow in \<open>auto simp: s'\<close>)
  have "users_ok (h # H) B loc s' U" by (rule users_change[OF u]) (auto simp: s' ne)
  moreover have "h_ptr v \<noteq> h_ptr h" if v: "v \<in> set U" for v
  proof -
    from u v consider "small B loc v" | "big H B s v" unfolding users_ok_def by blast
    then show ?thesis using ow ne unfolding small_def big_def by cases blast+
  qed
  moreover have "big (h # H) B s' h" using n(2,3) by (simp add: big_def s')
  ultimately have "h_ptr h \<notin> h_ptr ` set U" "big (h # H) B s' h" "users_ok (h # H) B loc s' U" by force+
  then show "users_ok (h # H) B loc s' (h # U)" by (simp add: users_ok_def)
qed

lemma fast_alloc_ok:
  assumes inv: "fast_inv M s U" and m: "get_mem k s \<noteq> None" and sz: "uint sz < 2 ^ 31 - 2 ^ 22"
  shows "\<exists>r s'. kupl_fast_alloc k sz huge s = Some (r, s') \<and> fast_inv M s' (case r of None \<Rightarrow> U | Some p \<Rightarrow> Held p (mr_hbw k) (uint sz) # U)"
proof -
  obtain G H B loc where b: "blocks_ok M G H B s" and l: "lists_ok B loc (\<lambda>k i. get_bin k i s)" and u: "users_ok H B loc s U"
    using inv by (auto simp: fast_inv_def)
  have last: "g_fast_bin_size ! (FAST_BINS_COUNT - Suc 0) = 1152" using bin_cases[of 18] by (simp add: fast_bins_count)
  show ?thesis
  proof (cases "uint sz > 1152")
    case True
    obtain r s1 where a: "kupl_normal_alloc k sz huge s = Some (r, s1)"
      "mp_fast s1 = mp_fast s" "(\<lambda>k i. get_bin k i s1) = (\<lambda>k i. get_bin k i s)" "\<forall>k. (get_mem k s1 = None) = (get_mem k s = None)"
      "r = None \<longrightarrow> (\<exists>G'. blocks_ok M G' H B s1)"
      "\<forall>p. r = Some p \<longrightarrow> p \<notin> h_ptr ` set H \<and> B p = None \<and> (\<exists>G'. blocks_ok M G' (Held p (mr_hbw k) (uint sz) # H) B s1)"
      using alloc_blocks[OF b m sz, of huge] by blast
    have u1: "users_ok H B loc s1 U" by (rule users_change[OF u]) (simp_all add: a(2))
    have l1: "lists_ok B loc (\<lambda>k i. get_bin k i s1)" using l unfolding a(3) .
    show ?thesis
    proof (cases r)
      case None
      then have "fast_inv M s1 U" using a(5) u1 l1 unfolding fast_inv_def by blast
      then show ?thesis using a(1) None True by (simp add: kupl_fast_alloc_def last)
    next
      case (Some p)
      let ?h = "Held p (mr_hbw k) (uint sz)"
      obtain G' where b1: "blocks_ok M G' (?h # H) B s1" and n: "h_ptr ?h \<notin> h_ptr ` set H" "B (h_ptr ?h) = None" "0 < h_size ?h" using a(6) Some True by auto
      obtain m1 where m1: "get_mem k s1 = Some m1" using a(4) m by (cases "get_mem k s1") auto
      let ?s = "put_fast p \<lparr>fd_eid = km_eid m1, fd_bin = KUPL_MEMORY_BIN_INDEX_INIT, fd_alloc_ptr = p\<rparr> s1"
      note ub = users_big[OF b1 u1 n, of ?s "km_eid m1", simplified]
      have "lists_ok B loc (\<lambda>k i. get_bin k i ?s)" using l1 by simp
      then have "fast_inv M ?s (?h # U)" using ub unfolding fast_inv_def by blast
      then show ?thesis using a(1) Some m1 True by (simp add: kupl_fast_alloc_def last)
    qed
  next
    case False
    define i where "i = nat ((uint sz + KUPL_CACHE_LINE - 1) div KUPL_CACHE_LINE)"
    have d: "int i = (uint sz + 63) div 64" by (simp add: i_def KUPL_CACHE_LINE_def pos_imp_zdiv_nonneg_iff)
    then have i: "i < FAST_BINS_COUNT" using False by (simp add: fast_bins_count)
    have fit: "uint sz \<le> g_fast_bin_size ! i"
      using d bin_cases[OF i] pos_mod_bound[of 64 "uint sz + 63"] div_mult_mod_eq[of "uint sz + 63" 64] by linarith
    obtain c where c: "get_bin k i s = Some c" using m i by (auto simp: get_bin_def)
    note mf = lists_get[OF l c]
    show ?thesis
    proof (cases "fc_self c")
      case (Cons p ps)
      let ?c = "c\<lparr>fc_self := ps\<rparr>" and ?loc = "loc(p := User)"
      have p: "p \<in> owned B k i" "loc p = Self k i" "p \<notin> set ps" using mf Cons by (auto simp: mfc_ok_def listed_def)
      have "mfc_ok B ?loc k i ?c" using mf Cons p unfolding mfc_ok_def listed_def by (auto split: if_splits)
      moreover have "\<forall>q. q \<noteq> p \<and> ?loc q \<noteq> loc q \<longrightarrow> loc q \<in> {Self k i, Sync k i, Other k i}" by simp
      ultimately have "\<exists>s'. put_bin k i ?c s = Some s' \<and> fast_inv M s' (Held p (mr_hbw k) (uint sz) # U)"
        by (intro fast_take[OF b l u c p(1) _ _ _ _ fit]) (simp_all add: p(2))
      then
      obtain s' where "put_bin k i ?c s = Some s'" "fast_inv M s' (Held p (mr_hbw k) (uint sz) # U)" by auto
      then show ?thesis using c Cons False by (simp add: kupl_fast_alloc_def last Let_def flip: i_def)
    next
      case Nil
      show ?thesis
      proof (cases "fc_sync c")
        case (Cons p ps)
        let ?c = "c\<lparr>fc_self := ps, fc_sync := []\<rparr>" and ?loc = "\<lambda>q. if q = p then User else if q \<in> set ps then Self k i else loc q"
        have p: "p \<in> owned B k i" "loc p = Sync k i" "p \<notin> set ps" "\<forall>q\<in>set ps. loc q = Sync k i"
          using mf Cons by (auto simp: mfc_ok_def listed_def)
        have "mfc_ok B ?loc k i ?c" using mf Cons Nil p unfolding mfc_ok_def listed_def by (auto split: if_splits)
        moreover have "\<forall>q. q \<noteq> p \<and> ?loc q \<noteq> loc q \<longrightarrow> loc q \<in> {Self k i, Sync k i, Other k i}" using p(4) by auto
        ultimately have "\<exists>s'. put_bin k i ?c s = Some s' \<and> fast_inv M s' (Held p (mr_hbw k) (uint sz) # U)"
          by (intro fast_take[OF b l u c p(1) _ _ _ _ fit]) (simp_all add: p(2))
        then
        obtain s' where "put_bin k i ?c s = Some s'" "fast_inv M s' (Held p (mr_hbw k) (uint sz) # U)" by auto
        then show ?thesis using c Nil Cons False by (simp add: kupl_fast_alloc_def last Let_def flip: i_def)
      next
        case nil: Nil
        from fast_grow[OF b l u c Nil fit, of huge] show ?thesis
          using c Nil nil False by (simp add: kupl_fast_alloc_def last Let_def flip: i_def)
      qed
    qed
  qed
qed

section \<open>Return\<close>

lemma users_remove:
  assumes u: "users_ok H B loc s U" and v: "v \<in> set U" and w: "w \<in> set (remove1 v U)"
  shows "h_ptr w \<noteq> h_ptr v" "w \<in> set U"
proof -
  have d: "distinct (map h_ptr U)" using u by (simp add: users_ok_def)
  then have "w \<noteq> v" using w by (auto simp: distinct_map)
  moreover show wu: "w \<in> set U" using w by (meson notin_set_remove1)
  ultimately show "h_ptr w \<noteq> h_ptr v" using d v by (metis distinct_map inj_onD)
qed

text \<open>A user's buffer enters the lists of one size of one memory.\<close>

lemma fast_put:
  assumes b: "blocks_ok M G H B s" and l: "lists_ok B loc F" and u: "users_ok H B loc s U"
    and v: "v \<in> set U" "loc (h_ptr v) = User" "h_ptr v \<in> owned B k' i"
    and loc': "\<forall>q. q \<noteq> h_ptr v \<and> loc' q \<noteq> loc q \<longrightarrow> loc q \<in> {Self k i, Sync k i, Other k i}"
    and c': "mfc_ok B loc' k i c'"
  shows "lists_ok B loc' (F(k := (F k)(i := Some c')))" "users_ok H B loc' s (remove1 v U)"
proof -
  have "loc q \<in> {User, Self k i, Sync k i, Other k i}" if "loc' q \<noteq> loc q" for q
    using that v(2) loc' by (cases "q = h_ptr v") auto
  then show "lists_ok B loc' (F(k := (F k)(i := Some c')))" by (intro lists_update[OF l c']) blast
  have "small B loc' w \<or> big H B s w" if w: "w \<in> set (remove1 v U)" for w
  proof -
    note r = users_remove[OF u v(1) w]
    from u r(2) consider "small B loc w" | "big H B s w" unfolding users_ok_def by blast
    then show ?thesis
    proof cases
      case 1
      then have "loc (h_ptr w) = User" by (simp add: small_def)
      then have "loc' (h_ptr w) = loc (h_ptr w)" using loc' r(1) by (metis empty_iff insert_iff place.distinct)
      then show ?thesis using 1 by (simp add: small_def)
    qed simp
  qed
  then show "users_ok H B loc' s (remove1 v U)" using u by (auto simp: users_ok_def distinct_map distinct_remove1 inj_on_def dest: notin_set_remove1 in_set_remove1[THEN iffD1, rotated])
qed

text \<open>A normal buffer goes back to the normal layer; the others and the blocks stay.\<close>

lemma big_free:
  assumes b: "blocks_ok M G H B s" and u: "users_ok H B loc s U" and v: "v \<in> set U" "big H B s v" and m: "get_mem k s \<noteq> None" "mr_hbw k = h_hbw v"
  shows "\<exists>s' G'. kupl_normal_free k (h_ptr v) s = Some s' \<and> blocks_ok M G' (remove1 v H) B s' \<and> users_ok (remove1 v H) B loc s' (remove1 v U) \<and>
    (\<lambda>k i. get_bin k i s') = (\<lambda>k i. get_bin k i s)"
proof -
  have hi: "hold_inv G s H" by (rule blocks_hold[OF b])
  then have inv: "pool_inv G s" by (simp add: hold_inv_def)
  have vH: "v \<in> set H" "B (h_ptr v) = None" using v(2) by (simp_all add: big_def)
  obtain m' where m': "get_mem k s = Some m'" using m(1) by blast
  have ho: "hold_ok G s h" if "h \<in> set H" for h using hi that by (simp add: hold_inv_def)
  let ?b = "h_ptr v - BUFFER_DESC"
  obtain s' G1 where f: "kupl_normal_free k (?b + BUFFER_DESC) s = Some s'" and R: "releases G s ?b G1 s'"
    using free_ok[OF inv m', of ?b] ho[OF vH(1)] m(2) by (auto simp: hold_ok_def)
  have f': "kupl_normal_free k (h_ptr v) s = Some s'" using f by simp
  have "pool_step s H s' (remove1 v H)" by (rule pool_step.free[OF vH(1) m f'])
  from step_inv[OF this hi] obtain G' where h': "hold_inv G' s' (remove1 v H)" by blast
  have bins: "same_bins s s'" using frame_free[OF f'] by (simp add: frame_defs)
  have other: "h_ptr h \<noteq> h_ptr v \<Longrightarrow> h \<in> set (remove1 v H)" if "h \<in> set H" for h
    using that by (metis in_set_remove1)
  have keep: "mp_fast s' x = mp_fast s x" if h: "h \<in> set H" "h_ptr h \<noteq> h_ptr v" and x: "h_ptr h \<le> x" "x < h_ptr h + h_size h" for h x
  proof -
    let ?c = "h_ptr h - BUFFER_DESC"
    have e: "?c \<in> live G (mp_desc s) - {?b}" "h_size h + BUFFER_DESC \<le> extent G (mp_desc s) ?c" using ho[OF h(1)] h(2) by (simp_all add: hold_ok_def)
    have pi: "pool_inv G1 s'" and li: "?c \<in> live G1 (mp_desc s')" and ex: "extent G1 (mp_desc s') ?c = extent G (mp_desc s) ?c"
      using R e(1) unfolding releases_def by blast+
    obtain a r where a: "G1 a = Some r" "a \<le> ?c" "?c + extent G1 (mp_desc s') ?c \<le> a + reg_len r" using live_block[OF pi li] by blast
    then have "a \<le> x \<and> x < a + reg_len r" using x e(2) ex by (simp add: BUFFER_DESC_def)
    then have "\<not> unmapped G1 x" using a(1) unfolding unmapped_def by blast
    then show ?thesis using R unfolding releases_def by blast
  qed
  have ow: "mp_fast s' q = mp_fast s q" if q: "q \<in> owned B k' j" for q k' j
  proof -
    from owned_block[OF b q] obtain ap where a: "B ap = Some (k', j)" "ap \<le> q" "q + g_fast_bin_size ! j \<le> ap + 65536"
      "Held ap (mr_hbw k') 65536 \<in> set H" .
    then have "ap \<noteq> h_ptr v" using vH(2) by auto
    then show ?thesis using keep[OF a(4), of q] a(2,3) bin_pos[OF owned_fast(2)[OF b q]] by simp
  qed
  have "Held ap (mr_hbw k') 65536 \<in> set (remove1 v H)" if "B ap = Some (k', j)" for ap k' j
    using other[OF block_held(1)[OF b that]] that vH(2) by force
  then have bl: "blocks_ok M G' (remove1 v H) B s'"
    by (intro blocks_change0[OF b h']) (use ow same_bins_mem[OF bins] in blast)+
  have "small B loc w \<or> big (remove1 v H) B s' w" if w: "w \<in> set (remove1 v U)" for w
  proof -
    note r = users_remove[OF u v(1) w]
    from u r(2) consider "small B loc w" | "big H B s w" unfolding users_ok_def by blast
    then show ?thesis
    proof cases
      case 2
      then have w: "w \<in> set H" "0 < h_size w" by (simp_all add: big_def)
      then have "mp_fast s' (h_ptr w) = mp_fast s (h_ptr w)" using keep[OF w(1) r(1)] by simp
      then show ?thesis using 2 other[OF w(1) r(1)] by (simp add: big_def)
    qed simp
  qed
  then have "users_ok (remove1 v H) B loc s' (remove1 v U)"
    using u by (auto simp: users_ok_def distinct_map distinct_remove1 inj_on_def dest: notin_set_remove1 in_set_remove1[THEN iffD1, rotated])
  then show ?thesis using f' bl same_bins_get[OF bins] by (intro exI[of _ s'] exI[of _ G']) simp
qed

lemma splice_last:
  assumes "distinct xs" and "xs \<noteq> []"
  shows "splice xs (Some (last xs)) ys = xs @ ys"
proof -
  obtain zs z where z: "xs = zs @ [z]" "z \<notin> set zs" using assms by (cases xs rule: rev_cases) auto
  then have "\<forall>x\<in>set zs. x \<noteq> z" by blast
  then have "takeWhile (\<lambda>x. x \<noteq> z) xs = zs" by (simp add: z(1) takeWhile_append2)
  then show ?thesis using z(1) by (simp add: splice_def)
qed

text \<open>One list of one size of one memory receives the buffer.\<close>

lemma put_one:
  assumes b: "blocks_ok M G H B s" and l: "lists_ok B loc (\<lambda>k i. get_bin k i s)" and u: "users_ok H B loc s U"
    and v: "v \<in> set U" "loc (h_ptr v) = User" "h_ptr v \<in> owned B k' i"
    and c: "get_bin k i s = Some c" and pl: "pl \<in> {Self k i, Sync k i, Other k i}" and c': "mfc_ok B (loc(h_ptr v := pl)) k i c'"
  shows "\<exists>s'. put_bin k i c' s = Some s' \<and> fast_inv M s' (remove1 v U)"
proof -
  obtain s' where s': "put_bin k i c' s = Some s'" "same_normal s s'" "mp_fast s' = mp_fast s"
    "(\<lambda>k i. get_bin k i s') = (\<lambda>k i. get_bin k i s)(k := (\<lambda>i. get_bin k i s)(i := Some c'))" using put_bin_ok[OF c] by blast
  have lc: "\<forall>q. q \<noteq> h_ptr v \<and> (loc(h_ptr v := pl)) q \<noteq> loc q \<longrightarrow> loc q \<in> {Self k i, Sync k i, Other k i}" by simp
  note P = fast_put[OF b l u v lc c']
  have "users_ok H B (loc(h_ptr v := pl)) s' (remove1 v U)" by (rule users_change[OF P(2)]) (simp_all add: s'(3))
  then have "fast_inv M s' (remove1 v U)" using blocks_same_normal[OF b s'(2,3)] P(1) s'(4) unfolding fast_inv_def by metis
  then show ?thesis using s'(1) by blast
qed

text \<open>The list of another executor's buffers is handed over, and a new one begun.\<close>

lemma flush_ok:
  assumes b: "blocks_ok M G H B s" and l: "lists_ok B loc (\<lambda>k i. get_bin k i s)" and u: "users_ok H B loc s U"
    and v: "v \<in> set U" "loc (h_ptr v) = User" "h_ptr v \<in> owned B k0 i" "mr_hbw k0 = mr_hbw k" and c: "get_bin k i s = Some c"
    and e: "listed loc (Other k i) (owned B (Mem (mr_hbw k) e) i) (fc_other c)" and ne: "fc_other c \<noteq> []"
    and tl: "fc_other_tail c = Some (last (fc_other c))" and gk: "get_mem (Mem (mr_hbw k) e) s \<noteq> None"
  shows "\<exists>s1 c' s'. put_bin k i (c\<lparr>fc_other := [h_ptr v], fc_other_tail := Some (h_ptr v), fc_other_count := 1\<rparr>) s = Some s1 \<and>
    get_bin (Mem (mr_hbw k) e) i s1 = Some c' \<and>
    put_bin (Mem (mr_hbw k) e) i (c'\<lparr>fc_sync := splice (fc_other c) (fc_other_tail c) (fc_sync c')\<rparr>) s1 = Some s' \<and>
    fast_inv M s' (remove1 v U)"
proof -
  let ?p = "h_ptr v" and ?k = "Mem (mr_hbw k) e" and ?xs = "fc_other c"
  let ?loc = "\<lambda>q. if q = ?p then Other k i else if q \<in> set ?xs then Sync ?k i else loc q"
  let ?c = "c\<lparr>fc_other := [?p], fc_other_tail := Some ?p, fc_other_count := 1\<rparr>"
  have i: "i < FAST_BINS_COUNT" using c by (auto simp: get_bin_def split: if_splits)
  have xs: "distinct ?xs" "set ?xs \<subseteq> owned B ?k i" "\<forall>q\<in>set ?xs. loc q = Other k i" using e by (simp_all add: listed_def)
  then have px: "?p \<notin> set ?xs" using v(2) by auto
  note mf = lists_get[OF l c]
  have k0: "Mem (mr_hbw k) (mr_eid k0) = k0" using v(4) by (simp add: mem_ref.expand)
  have "listed ?loc (Other k i) (owned B (Mem (mr_hbw k) (mr_eid k0)) i) [?p]" using v(3) k0 by (simp add: listed_def)
  moreover have "listed ?loc (Self k i) (owned B k i) (fc_self c)" "listed ?loc (Sync k i) (owned B k i) (fc_sync c)"
    using mf v(2) xs(3) by (auto simp: mfc_ok_def listed_def)
  ultimately have mc: "mfc_ok B ?loc k i ?c" by (auto simp: mfc_ok_def)
  have lc: "\<forall>q. q \<noteq> ?p \<and> ?loc q \<noteq> loc q \<longrightarrow> loc q \<in> {Self k i, Sync k i, Other k i}" using xs(3) by auto
  note P = fast_put[OF b l u v(1-3) lc mc]
  obtain s1 where s1: "put_bin k i ?c s = Some s1" "same_normal s s1" "mp_fast s1 = mp_fast s"
    "(\<lambda>k i. get_bin k i s1) = (\<lambda>k i. get_bin k i s)(k := (\<lambda>i. get_bin k i s)(i := Some ?c))" using put_bin_ok[OF c] by blast
  have b1: "blocks_ok M G H B s1" by (rule blocks_same_normal[OF b s1(2,3)])
  have l1: "lists_ok B ?loc (\<lambda>k i. get_bin k i s1)" using P(1) unfolding s1(4) .
  obtain c' where c': "get_bin ?k i s1 = Some c'" using gk same_normal_mem[OF s1(2)] i by (cases "get_mem ?k s1") (auto simp: get_bin_def)
  have sy: "\<forall>q\<in>set (fc_sync c'). loc q = Sync ?k i"
  proof -
    obtain c0 where "get_bin ?k i s = Some c0" "fc_sync c' = fc_sync c0"
      using c' fun_cong[OF fun_cong[OF s1(4)], of ?k i] c by (cases "?k = k") auto
    then show ?thesis using lists_get[OF l] by (fastforce simp: mfc_ok_def listed_def)
  qed
  note mf' = lists_get[OF l1 c']
  let ?c' = "c'\<lparr>fc_sync := ?xs @ fc_sync c'\<rparr>"
  have "listed ?loc (Sync ?k i) (owned B ?k i) (?xs @ fc_sync c')"
    using mf' xs px sy by (fastforce simp: mfc_ok_def listed_def)
  then have mc': "mfc_ok B ?loc ?k i ?c'" using mf' by (simp add: mfc_ok_def)
  obtain s' where s': "put_bin ?k i ?c' s1 = Some s'" "same_normal s1 s'" "mp_fast s' = mp_fast s1"
    "(\<lambda>k i. get_bin k i s') = (\<lambda>k i. get_bin k i s1)(?k := (\<lambda>i. get_bin ?k i s1)(i := Some ?c'))" using put_bin_ok[OF c'] by blast
  have "lists_ok B ?loc (\<lambda>k i. get_bin k i s')" unfolding s'(4) by (rule lists_update[OF l1 mc']) simp
  moreover have "users_ok H B ?loc s' (remove1 v U)" by (rule users_change[OF P(2)]) (simp_all add: s'(3) s1(3))
  ultimately have "fast_inv M s' (remove1 v U)" using blocks_same_normal[OF b1 s'(2,3)] unfolding fast_inv_def by blast
  then show ?thesis using s1(1) c' s'(1) splice_last[OF xs(1) ne] tl by (intro exI[of _ s1] exI[of _ c'] exI[of _ s']) simp
qed

lemma fast_free_ok:
  assumes inv: "fast_inv M s U" and v: "v \<in> set U" and m: "get_mem k s = Some m" "mr_hbw k = h_hbw v"
  shows "\<exists>s'. kupl_fast_free k (h_ptr v) s = Some s' \<and> fast_inv M s' (remove1 v U)"
proof -
  obtain G H B loc where b: "blocks_ok M G H B s" and l: "lists_ok B loc (\<lambda>k i. get_bin k i s)" and u: "users_ok H B loc s U"
    using inv by (auto simp: fast_inv_def)
  have "pool_inv G s" using blocks_hold[OF b] by (simp add: hold_inv_def)
  then have me: "km_eid m = mr_eid k" using inv_mem m(1) by blast
  let ?p = "h_ptr v"
  from u v consider "small B loc v" | "big H B s v" unfolding users_ok_def by blast
  then show ?thesis
  proof cases
    case 2
    obtain s' G' where f: "kupl_normal_free k ?p s = Some s'" "blocks_ok M G' (remove1 v H) B s'" "users_ok (remove1 v H) B loc s' (remove1 v U)"
      "(\<lambda>k i. get_bin k i s') = (\<lambda>k i. get_bin k i s)" using big_free[OF b u v 2 _ m(2)] m(1) by blast
    have "lists_ok B loc (\<lambda>k i. get_bin k i s')" using l unfolding f(4) .
    then have "fast_inv M s' (remove1 v U)" using f(2,3) unfolding fast_inv_def by blast
    moreover have "kupl_fast_free k ?p s = Some s'"
      using 2 f(1) by (auto simp: kupl_fast_free_def big_def KUPL_MEMORY_BIN_INDEX_INIT_def)
    ultimately show ?thesis by blast
  next
    case 1
    then obtain k0 i where o: "?p \<in> owned B k0 i" "mr_hbw k0 = mr_hbw k" and lp: "loc ?p = User" using m(2) by (auto simp: small_def)
    obtain ap where fd: "mp_fast s ?p = Some \<lparr>fd_eid = mr_eid k0, fd_bin = int i, fd_alloc_ptr = ap\<rparr>" and i: "i < FAST_BINS_COUNT"
      using owned_fast[OF b o(1)] by blast
    obtain c where c: "get_bin k i s = Some c" using m(1) i by (auto simp: get_bin_def)
    note mf = lists_get[OF l c]
    have lists: "?p \<notin> set (fc_self c) \<and> ?p \<notin> set (fc_sync c) \<and> ?p \<notin> set (fc_other c)"
      using mf lp by (auto simp: mfc_ok_def listed_def)
    show ?thesis
    proof (cases "mr_eid k0 = mr_eid k")
      case own: True
      then have "k0 = k" using o(2) by (simp add: mem_ref.expand)
      then have "mfc_ok B (loc(?p := Self k i)) k i (c\<lparr>fc_self := ?p # fc_self c\<rparr>)"
        using mf lists o(1) by (auto simp: mfc_ok_def listed_def)
      from put_one[OF b l u v lp o(1) c _ this] show ?thesis
        using m(1) me fd c own by (simp add: kupl_fast_free_def Let_def kupl_sv_list_put_def)
    next
      case other: False
      have k0: "Mem (mr_hbw k) (mr_eid k0) = k0" using o(2) by (simp add: mem_ref.expand)
      show ?thesis
      proof (cases "fc_other c")
        case Nil
        have "listed (loc(?p := Other k i)) (Other k i) (owned B (Mem (mr_hbw k) (mr_eid k0)) i) [?p]" using o(1) k0 by (simp add: listed_def)
        then have "mfc_ok B (loc(?p := Other k i)) k i (c\<lparr>fc_other := [?p], fc_other_tail := Some ?p\<rparr>)"
          using mf lists by (auto simp: mfc_ok_def listed_def)
        from put_one[OF b l u v lp o(1) c _ this] show ?thesis
          using m(1) me fd c other Nil by (simp add: kupl_fast_free_def Let_def kupl_sv_list_put_def)
      next
        case (Cons h hs)
        obtain e where e: "listed loc (Other k i) (owned B (Mem (mr_hbw k) e) i) (fc_other c)" using mf by (auto simp: mfc_ok_def)
        let ?k = "Mem (mr_hbw k) e"
        have ho: "h \<in> owned B ?k i" using e Cons by (simp add: listed_def)
        obtain ap' where hd: "mp_fast s h = Some \<lparr>fd_eid = e, fd_bin = int i, fd_alloc_ptr = ap'\<rparr>" and gk: "get_mem ?k s \<noteq> None"
          using owned_fast[OF b ho] by auto
        have tl: "fc_other_tail c = Some (last (fc_other c))" using mf Cons by (simp add: mfc_ok_def)
        show ?thesis
        proof (cases "mr_eid k0 = e \<and> fc_other_count c < KUPL_FAST_MEMORY_OTHRE_QUEUE_LIMIT")
          case True
          have "listed (loc(?p := Other k i)) (Other k i) (owned B ?k i) (?p # fc_other c)"
            using e o(1) k0 True lists by (auto simp: listed_def)
          then have "mfc_ok B (loc(?p := Other k i)) k i (c\<lparr>fc_other := ?p # fc_other c, fc_other_count := fc_other_count c + 1\<rparr>)"
            using mf lists tl Cons by (auto simp: mfc_ok_def listed_def)
          from put_one[OF b l u v lp o(1) c _ this] show ?thesis
            using m(1) me fd hd c other Cons True by (simp add: kupl_fast_free_def Let_def kupl_sv_list_put_def)
        next
          case flush: False
          from flush_ok[OF b l u v lp o c e _ tl gk] Cons show ?thesis
            using m(1) me fd hd c other flush by (auto simp: kupl_fast_free_def Let_def)
        qed
      qed
    qed
  qed
qed

end
