(* ===== verification/Kupl_Mpool.thy ===== *)
theory Kupl_Mpool
  imports Kupl_Mpool_Fast_Safety
begin

text \<open>
  The memory pool as the rest of the library sees it (\<open>src/src/memory/mpool/kupl_mpool.cpp\<close>): beginning
  and end, executors that come and go, \<open>kupl_malloc\<close> and \<open>kupl_free\<close>, and what their users can rely on.

  The executor number of the calling thread is an argument.  The start of the library in the first
  \<open>kupl_malloc\<close> is a parameter.  \<open>calloc\<close> is a predicate that says which of its calls succeed.
\<close>

section \<open>State\<close>

record kupl_mpool =
  ma_pool :: mpool
  ma_size :: int
  ma_max :: int
  ma_default_hbw :: bool
  ma_core_inited :: bool

definition KUPL_MEM_DEFAULT :: int where "KUPL_MEM_DEFAULT = 0"
definition KUPL_MEM_LARGE_CAP :: int where "KUPL_MEM_LARGE_CAP = 1"
definition KUPL_MEM_HIGH_BW :: int where "KUPL_MEM_HIGH_BW = 2"

lemmas mem_kinds = KUPL_MEM_DEFAULT_def KUPL_MEM_LARGE_CAP_def KUPL_MEM_HIGH_BW_def

definition KUPL_MAX_MALLOC_INNER_SIZE :: u64 where "KUPL_MAX_MALLOC_INNER_SIZE = 2 ^ 37"
definition KUPL_MAX_MALLOC_SIZE :: u64 where "KUPL_MAX_MALLOC_SIZE = 2 ^ 37"

definition with_pool :: "kupl_mpool \<Rightarrow> ('a \<times> mpool) option \<Rightarrow> ('a \<times> kupl_mpool) option" where
  "with_pool a r = map_option (\<lambda>(x, s). (x, a\<lparr>ma_pool := s\<rparr>)) r"

section \<open>Allocation and return\<close>

definition geid_ok :: "kupl_mpool \<Rightarrow> int \<Rightarrow> bool" where
  "geid_ok a geid \<longleftrightarrow> \<not> (geid < 0 \<or> geid \<ge> ma_size a)"

definition kupl_memory_alloc_inner :: "u64 \<Rightarrow> int \<Rightarrow> kupl_mpool \<Rightarrow> (addr option \<times> kupl_mpool) option" where
  "kupl_memory_alloc_inner sz geid a =
     (if sz = 0 \<or> sz > KUPL_MAX_MALLOC_INNER_SIZE \<or> \<not> geid_ok a geid then Some (None, a)
      else with_pool a (kupl_fast_alloc (Mem False (nat geid)) sz False (ma_pool a)))"

text \<open>This one looks nothing up before it takes the memory of the executor.\<close>

definition kupl_memory_hbw_alloc_inner :: "u64 \<Rightarrow> int \<Rightarrow> kupl_mpool \<Rightarrow> (addr option \<times> kupl_mpool) option" where
  "kupl_memory_hbw_alloc_inner sz geid a =
     (if geid < 0 then None else with_pool a (kupl_fast_alloc (Mem True (nat geid)) sz False (ma_pool a)))"

definition kupl_memory_free_inner :: "addr option \<Rightarrow> int \<Rightarrow> kupl_mpool \<Rightarrow> kupl_mpool option" where
  "kupl_memory_free_inner p geid a =
     (case p of None \<Rightarrow> Some a
      | Some p \<Rightarrow> if \<not> geid_ok a geid then Some a
          else map_option (\<lambda>s. a\<lparr>ma_pool := s\<rparr>) (kupl_fast_free (Mem False (nat geid)) p (ma_pool a)))"

definition kupl_memory_hbw_free_inner :: "addr option \<Rightarrow> int \<Rightarrow> kupl_mpool \<Rightarrow> kupl_mpool option" where
  "kupl_memory_hbw_free_inner p geid a =
     (case p of None \<Rightarrow> Some a
      | Some p \<Rightarrow> if \<not> geid_ok a geid then Some a
          else map_option (\<lambda>s. a\<lparr>ma_pool := s\<rparr>) (kupl_fast_free (Mem True (nat geid)) p (ma_pool a)))"

definition kupl_malloc :: "(kupl_mpool \<Rightarrow> kupl_mpool option) \<Rightarrow> int \<Rightarrow> u64 \<Rightarrow> int \<Rightarrow> kupl_mpool \<Rightarrow> (addr option \<times> kupl_mpool) option" where
  "kupl_malloc kupl_init kind sz geid a =
     (case (if \<not> ma_core_inited a then kupl_init a else Some a) of
        None \<Rightarrow> Some (None, a)
      | Some a \<Rightarrow>
          if sz > KUPL_MAX_MALLOC_SIZE then Some (None, a)
          else if kind = KUPL_MEM_LARGE_CAP then kupl_memory_alloc_inner sz geid a
          else if kind = KUPL_MEM_HIGH_BW then kupl_memory_hbw_alloc_inner sz geid a
          else if kind = KUPL_MEM_DEFAULT then
            (if ma_default_hbw a then kupl_memory_hbw_alloc_inner sz geid a else kupl_memory_alloc_inner sz geid a)
          else Some (None, a))"

definition kupl_free :: "int \<Rightarrow> addr option \<Rightarrow> int \<Rightarrow> kupl_mpool \<Rightarrow> kupl_mpool option" where
  "kupl_free kind p geid a =
     (if kind = KUPL_MEM_LARGE_CAP then kupl_memory_free_inner p geid a
      else if kind = KUPL_MEM_HIGH_BW then kupl_memory_hbw_free_inner p geid a
      else if kind = KUPL_MEM_DEFAULT then
        (if ma_default_hbw a then kupl_memory_hbw_free_inner p geid a else kupl_memory_free_inner p geid a)
      else Some a)"

section \<open>Begin and end\<close>

definition zero_memory :: kupl_memory where
  "zero_memory = \<lparr>km_eid = 0, km_fast_bins = (\<lambda>_. \<lparr>fc_self = [], fc_sync = [], fc_other = [], fc_other_tail = None, fc_other_count = 0\<rparr>),
     km_alloc_chunks = 0, km_bins = (\<lambda>_. []), km_bins_count = (\<lambda>_. 0), km_sync_list = []\<rparr>"

definition new_memory :: "nat \<Rightarrow> kupl_memory" where
  "new_memory i = kupl_normal_init (kupl_fast_init (zero_memory\<lparr>km_eid := nat (int i mod 65536)\<rparr>))"

text \<open>The loop over the executors of one pool: whether every \<open>calloc\<close> succeeded.\<close>

fun init_memories :: "(nat \<Rightarrow> bool) \<Rightarrow> bool \<Rightarrow> nat list \<Rightarrow> mpool \<Rightarrow> bool \<times> mpool" where
  "init_memories calloc hbw [] s = (True, s)"
| "init_memories calloc hbw (i # is) s =
     (if \<not> calloc i then (False, s) else init_memories calloc hbw is (put_mem (Mem hbw i) (new_memory i) s))"

definition kupl_memory_pool_free :: "kupl_mpool \<Rightarrow> kupl_mpool" where
  "kupl_memory_pool_free a = a\<lparr>ma_pool := (ma_pool a)\<lparr>mp_mem := (\<lambda>_ _. None)\<rparr>\<rparr>"

text \<open>
  \<open>calloc\<close> has the outcome of each allocation: of the two arrays (\<open>Inl\<close>) and of the memories (\<open>Inr\<close>).
  \<open>align_length\<close> is initialised by the first \<open>kupl_normal_alloc\<close>, after this.
\<close>

definition kupl_memory_init :: "nat \<Rightarrow> nat \<Rightarrow> u64 \<Rightarrow> (bool + bool \<times> nat \<Rightarrow> bool) \<Rightarrow> kupl_mpool \<Rightarrow> int \<times> kupl_mpool" where
  "kupl_memory_init pu_cnt avail_pu_cnt align calloc a =
     (let a = a\<lparr>ma_max := int pu_cnt, ma_size := int avail_pu_cnt, ma_pool := (ma_pool a)\<lparr>mp_mem := (\<lambda>_ _. None)\<rparr>\<rparr> in
      if \<not> calloc (Inl False) then (KUPL_ERROR, a)
      else case init_memories (\<lambda>i. calloc (Inr (False, i))) False [0..<avail_pu_cnt] (ma_pool a) of
        (False, s) \<Rightarrow> (KUPL_ERROR, kupl_memory_pool_free (a\<lparr>ma_pool := s\<rparr>))
      | (True, s) \<Rightarrow>
          if \<not> calloc (Inl True) then (KUPL_ERROR, kupl_memory_pool_free (a\<lparr>ma_pool := s\<rparr>))
          else case init_memories (\<lambda>i. calloc (Inr (True, i))) True [0..<avail_pu_cnt] s of
            (False, s) \<Rightarrow> (KUPL_ERROR, kupl_memory_pool_free (a\<lparr>ma_pool := s\<rparr>))
          | (True, s) \<Rightarrow> (KUPL_OK, a\<lparr>ma_pool := s\<lparr>mp_align := align\<rparr>\<rparr>))"

definition kupl_memory_expand :: "(bool \<Rightarrow> bool) \<Rightarrow> kupl_mpool \<Rightarrow> int \<times> kupl_mpool" where
  "kupl_memory_expand calloc a =
     (let i = nat (ma_size a); s = ma_pool a in
      if ma_size a \<ge> ma_max a then (KUPL_ERROR, a)
      else if \<not> calloc False then (KUPL_ERROR, a)
      else if \<not> calloc True then (KUPL_ERROR, a)
      else (KUPL_OK, a\<lparr>ma_pool := put_mem (Mem True i) (new_memory i) (put_mem (Mem False i) (new_memory i) s),
                       ma_size := ma_size a + 1\<rparr>))"

definition drop_mem :: "mem_ref \<Rightarrow> mpool \<Rightarrow> mpool" where
  "drop_mem k s = s\<lparr>mp_mem := (mp_mem s)(mr_hbw k := (mp_mem s (mr_hbw k))(mr_eid k := None))\<rparr>"

definition fini_memory :: "mem_ref \<Rightarrow> mpool \<Rightarrow> mpool option" where
  "fini_memory k s =
     (case get_mem k s of None \<Rightarrow> Some s
      | Some _ \<Rightarrow> do { s \<leftarrow> kupl_fast_cleanup k s; s \<leftarrow> kupl_normal_cleanup k s; Some (drop_mem k s) })"

definition kupl_memory_expand_fini :: "kupl_mpool \<Rightarrow> kupl_mpool option" where
  "kupl_memory_expand_fini a =
     do {
       let i = nat (ma_size a - 1);
       s \<leftarrow> fini_memory (Mem False i) (ma_pool a);
       s \<leftarrow> fini_memory (Mem True i) s;
       Some (a\<lparr>ma_pool := s, ma_size := ma_size a - 1\<rparr>)
     }"

fun each_memory :: "(mem_ref \<Rightarrow> mpool \<Rightarrow> mpool option) \<Rightarrow> bool \<Rightarrow> nat list \<Rightarrow> mpool \<Rightarrow> mpool option" where
  "each_memory f hbw [] s = Some s"
| "each_memory f hbw (i # is) s =
     do { s \<leftarrow> (if get_mem (Mem hbw i) s = None then Some s else f (Mem hbw i) s); each_memory f hbw is s }"

definition kupl_memory_fini :: "kupl_mpool \<Rightarrow> kupl_mpool option" where
  "kupl_memory_fini a =
     do {
       let is = [0..<nat (ma_size a)];
       s \<leftarrow> each_memory kupl_fast_cleanup False is (ma_pool a);
       s \<leftarrow> each_memory kupl_normal_cleanup False is s;
       s \<leftarrow> each_memory kupl_fast_cleanup True is s;
       s \<leftarrow> each_memory kupl_normal_cleanup True is s;
       Some (kupl_memory_pool_free (a\<lparr>ma_pool := s\<rparr>))
     }"

section \<open>The invariant\<close>

definition size_mems :: "kupl_mpool \<Rightarrow> mem_ref \<Rightarrow> bool" where
  "size_mems a k \<longleftrightarrow> int (mr_eid k) < ma_size a"

definition mpool_inv :: "kupl_mpool \<Rightarrow> held list \<Rightarrow> bool" where
  "mpool_inv a U \<longleftrightarrow> 0 \<le> ma_size a \<and> ma_max a \<le> 2 ^ 16 \<and> fast_inv (size_mems a) (ma_pool a) U"

lemma fast_inv_mem:
  assumes "fast_inv M s U"
  shows "get_mem k s \<noteq> None \<longleftrightarrow> M k"
proof -
  obtain G H B where "blocks_ok M G H B s" using assms by (auto simp: fast_inv_def)
  then have "\<forall>k. get_mem k s \<noteq> None \<longleftrightarrow> M k" unfolding blocks_ok_def by blast
  then show ?thesis by blast
qed

lemma geid_mem: "mpool_inv a U \<Longrightarrow> geid_ok a geid \<Longrightarrow> get_mem (Mem h (nat geid)) (ma_pool a) \<noteq> None"
  using fast_inv_mem[of "size_mems a" "ma_pool a" U "Mem h (nat geid)"] by (simp add: mpool_inv_def geid_ok_def size_mems_def)

lemma mpool_inv_pool: "mpool_inv a U \<Longrightarrow> fast_inv (size_mems a) s U' \<Longrightarrow> mpool_inv (a\<lparr>ma_pool := s\<rparr>) U'"
  by (simp add: mpool_inv_def size_mems_def[abs_def])

lemma new_memory_simps [simp]:
  "km_bins (new_memory i) = (\<lambda>_. [])" "km_sync_list (new_memory i) = []" "km_eid (new_memory i) = i mod 65536"
  "km_fast_bins (new_memory i) = (\<lambda>_. \<lparr>fc_self = [], fc_sync = [], fc_other = [], fc_other_tail = None, fc_other_count = 0\<rparr>)"
  by (simp_all add: new_memory_def kupl_normal_init_def kupl_fast_init_def zero_memory_def fun_eq_iff nat_mod_distrib)

text \<open>The first state: every executor has two empty memories.\<close>

lemma fresh_inv:
  assumes mem: "\<forall>k. get_mem k s = (if M k then Some (new_memory (mr_eid k)) else None)" and e: "\<forall>k. M k \<longrightarrow> mr_eid k < 2 ^ 16"
    and al: "align_ok s"
  shows "fast_inv M s []"
proof -
  have "pool_start s" using mem e al by (auto simp: pool_start_def split: if_splits)
  then have "hold_inv Map.empty s []" by (rule pool_start_inv)
  then have "blocks_ok M Map.empty [] Map.empty s" using mem by (simp add: blocks_ok_def)
  moreover have "lists_ok Map.empty (\<lambda>_. User) (\<lambda>k i. get_bin k i s)"
    using mem by (auto simp: lists_ok_def mfc_ok_def listed_def get_bin_def split: if_splits)
  moreover have "users_ok [] Map.empty (\<lambda>_. User) s []" by (simp add: users_ok_def)
  ultimately show ?thesis unfolding fast_inv_def by blast
qed

lemma init_memories_ok:
  assumes "init_memories c h is s = (True, s')"
  shows "get_mem k s' = (if mr_hbw k = h \<and> mr_eid k \<in> set is then Some (new_memory (mr_eid k)) else get_mem k s)"
  using assms
proof (induction "is" arbitrary: s)
  case (Cons i "is")
  then have "init_memories c h is (put_mem (Mem h i) (new_memory i) s) = (True, s')" by (simp split: if_splits)
  from Cons.IH[OF this] show ?case by (cases k) (auto simp: get_put_mem)
qed simp

lemma memory_init_inv:
  assumes i: "kupl_memory_init pu avail (2 ^ j) calloc a0 = (KUPL_OK, a)" and pu: "avail \<le> pu" "pu \<le> 2 ^ 16" and j: "j \<le> 21"
  shows "mpool_inv a []"
proof -
  define a1 where "a1 = a0\<lparr>ma_max := int pu, ma_size := int avail, ma_pool := (ma_pool a0)\<lparr>mp_mem := (\<lambda>_ _. None)\<rparr>\<rparr>"
  obtain s1 s2 where s: "init_memories (\<lambda>i. calloc (Inr (False, i))) False [0..<avail] (ma_pool a1) = (True, s1)"
    "init_memories (\<lambda>i. calloc (Inr (True, i))) True [0..<avail] s1 = (True, s2)"
    "a = a1\<lparr>ma_pool := s2\<lparr>mp_align := 2 ^ j\<rparr>\<rparr>"
    using i unfolding kupl_memory_init_def Let_def a1_def[symmetric] by (auto split: if_splits prod.splits bool.splits)
  have "mp_mem (ma_pool a1) h e = None" for h e by (simp add: a1_def)
  then have "get_mem k (ma_pool a) = (if int (mr_eid k) < int avail then Some (new_memory (mr_eid k)) else None)" for k
    using init_memories_ok[OF s(1), of k] init_memories_ok[OF s(2), of k] by (cases k) (auto simp: s(3) get_mem_def)
  moreover have "align_ok (ma_pool a)" using j by (auto simp: align_ok_def s(3))
  ultimately have "fast_inv (\<lambda>k. int (mr_eid k) < int avail) (ma_pool a) []" using pu by (intro fresh_inv) auto
  then show ?thesis using pu by (simp add: mpool_inv_def s(3) a1_def size_mems_def[abs_def])
qed

text \<open>An executor that comes later.\<close>

lemma pool_add_mem:
  assumes inv: "pool_inv G s" and k: "get_mem k s = None" "mr_eid k < 2 ^ 16"
  shows "pool_inv G (put_mem k (new_memory (mr_eid k)) s)"
proof -
  let ?s = "put_mem k (new_memory (mr_eid k)) s"
  have g: "get_mem k' ?s = (if k' = k then Some (new_memory (mr_eid k)) else get_mem k' s)" for k' by (simp add: get_put_mem)
  have e: "mp_desc ?s = mp_desc s" "mp_maps ?s = mp_maps s" by simp_all
  have "free_of G (mp_desc s) k = {}" using inv_chunk_mem[OF inv, of _ k] k(1) by (fastforce simp: free_of_def)
  then have "km_eid m = mr_eid k' \<and> bins_ok (mp_desc s) m (free_of G (mp_desc s) k') \<and> sync_ok G (mp_desc s) k' (km_sync_list m)"
    if "get_mem k' ?s = Some m" for k' m
    using that inv_mem[OF inv, of k' m] k(2) unfolding g by (auto simp: bins_ok_def sync_ok_def split: if_splits)
  then show ?thesis
    unfolding pool_inv_def e by (intro conjI) (use inv in \<open>auto simp: pool_inv_def g\<close>)
qed

lemma fast_add_mem:
  assumes f: "fast_inv M s U" and k: "\<not> M k" "mr_eid k < 2 ^ 16"
  shows "fast_inv (M(k := True)) (put_mem k (new_memory (mr_eid k)) s) U"
proof -
  let ?s = "put_mem k (new_memory (mr_eid k)) s"
  obtain G H B loc where b: "blocks_ok M G H B s" and l: "lists_ok B loc (\<lambda>k i. get_bin k i s)" and u: "users_ok H B loc s U"
    using f by (auto simp: fast_inv_def)
  have hi: "hold_inv G s H" by (rule blocks_hold[OF b])
  have n: "get_mem k s = None" using fast_inv_mem[OF f, of k] k(1) by simp
  have g: "get_mem k' ?s = (if k' = k then Some (new_memory (mr_eid k)) else get_mem k' s)" for k' by (simp add: get_put_mem)
  have "hold_inv G ?s H" using hi pool_add_mem[OF _ n k(2), of G] by (simp add: hold_inv_def hold_ok_def align_ok_def put_mem_def)
  moreover have "get_mem k' ?s \<noteq> None \<longleftrightarrow> (M(k := True)) k'" for k' using fast_inv_mem[OF f, of k'] unfolding g by simp
  moreover have "mp_fast ?s = mp_fast s" by (simp add: put_mem_def)
  ultimately have b': "blocks_ok (M(k := True)) G H B ?s"
    unfolding blocks_ok_def using block_held(1-4)[OF b] fast_inv_mem[OF f] by (auto simp: g)
  have "mfc_ok B loc k i c" if "get_bin k i ?s = Some c" for i c
    using that by (auto simp: get_bin_def g mfc_ok_def listed_def split: if_splits)
  moreover have "get_bin k' i ?s = get_bin k' i s" if "k' \<noteq> k" for k' i using that by (simp add: get_bin_def g)
  ultimately have "lists_ok B loc (\<lambda>k i. get_bin k i ?s)" using l unfolding lists_ok_def by metis
  moreover have "users_ok H B loc ?s U" by (rule users_change[OF u]) (simp_all add: put_mem_def)
  ultimately show ?thesis using b' unfolding fast_inv_def by blast
qed

lemma expand_inv:
  assumes inv: "mpool_inv a U" and e: "kupl_memory_expand calloc a = (r, a')"
  shows "mpool_inv a' U"
proof (cases "a' = a")
  case False
  let ?i = "nat (ma_size a)"
  have a': "a' = a\<lparr>ma_pool := put_mem (Mem True ?i) (new_memory ?i) (put_mem (Mem False ?i) (new_memory ?i) (ma_pool a)), ma_size := ma_size a + 1\<rparr>"
    and lt: "ma_size a < ma_max a" using e False by (auto simp: kupl_memory_expand_def Let_def split: if_splits)
  have i: "?i < 2 ^ 16" "int ?i = ma_size a" using lt inv by (auto simp: mpool_inv_def)
  have f: "fast_inv (size_mems a) (ma_pool a) U" using inv by (simp add: mpool_inv_def)
  have "fast_inv ((size_mems a)(Mem False ?i := True)) (put_mem (Mem False ?i) (new_memory ?i) (ma_pool a)) U"
    using fast_add_mem[OF f, of "Mem False ?i"] i by (simp add: size_mems_def)
  from fast_add_mem[OF this, of "Mem True ?i"]
  have "fast_inv ((size_mems a)(Mem False ?i := True, Mem True ?i := True)) (ma_pool a') U" using i a' by (simp add: size_mems_def)
  moreover have "(size_mems a)(Mem False ?i := True, Mem True ?i := True) = size_mems a'"
  proof
    fix k
    show "((size_mems a)(Mem False ?i := True, Mem True ?i := True)) k = size_mems a' k"
      using i(2) by (cases k) (auto simp: size_mems_def a' less_le)
  qed
  ultimately have "fast_inv (size_mems a') (ma_pool a') U" by simp
  then show ?thesis using inv by (simp add: mpool_inv_def a')
qed (use inv in simp)

section \<open>Runs\<close>

text \<open>
  Threads, each with the number of an executor, allocate and return buffers of less than 2 GB in any order;
  a buffer may be returned by another thread than the one that allocated it, with a kind that names
  the same pool.  Executors may be added.
\<close>

definition kind_hbw :: "kupl_mpool \<Rightarrow> int \<Rightarrow> bool" where
  "kind_hbw a kind \<longleftrightarrow> kind = KUPL_MEM_HIGH_BW \<or> kind = KUPL_MEM_DEFAULT \<and> ma_default_hbw a"

definition kind_ok :: "int \<Rightarrow> bool" where
  "kind_ok kind \<longleftrightarrow> kind = KUPL_MEM_LARGE_CAP \<or> kind = KUPL_MEM_HIGH_BW \<or> kind = KUPL_MEM_DEFAULT"

definition mpool_start :: "kupl_mpool \<Rightarrow> bool" where
  "mpool_start a \<longleftrightarrow> (\<exists>pu avail j calloc a0 a1. avail \<le> pu \<and> pu \<le> 2 ^ 16 \<and> j \<le> 21 \<and>
     kupl_memory_init pu avail (2 ^ j) calloc a0 = (KUPL_OK, a1) \<and> a = a1\<lparr>ma_core_inited := True\<rparr>)"

inductive mpool_step :: "kupl_mpool \<Rightarrow> held list \<Rightarrow> kupl_mpool \<Rightarrow> held list \<Rightarrow> bool" where
  malloc: "geid_ok a geid \<Longrightarrow> uint sz < 2 ^ 31 - 2 ^ 22 \<Longrightarrow> kupl_malloc kupl_init kind sz geid a = Some (Some p, a') \<Longrightarrow>
    mpool_step a U a' (Held p (kind_hbw a kind) (uint sz) # U)"
| malloc_none: "geid_ok a geid \<Longrightarrow> uint sz < 2 ^ 31 - 2 ^ 22 \<Longrightarrow> kupl_malloc kupl_init kind sz geid a = Some (None, a') \<Longrightarrow>
    mpool_step a U a' U"
| free: "u \<in> set U \<Longrightarrow> geid_ok a geid \<Longrightarrow> kind_ok kind \<Longrightarrow> kind_hbw a kind = h_hbw u \<Longrightarrow>
    kupl_free kind (Some (h_ptr u)) geid a = Some a' \<Longrightarrow> mpool_step a U a' (remove1 u U)"
| expand: "kupl_memory_expand calloc a = (r, a') \<Longrightarrow> mpool_step a U a' U"

inductive mpool_run :: "kupl_mpool \<Rightarrow> held list \<Rightarrow> bool" where
  start: "mpool_start a \<Longrightarrow> mpool_run a []"
| step: "mpool_run a U \<Longrightarrow> mpool_step a U a' U' \<Longrightarrow> mpool_run a' U'"

lemma malloc_ok:
  assumes inv: "mpool_inv a U" and c: "ma_core_inited a" and g: "geid_ok a geid" and sz: "uint sz < 2 ^ 31 - 2 ^ 22"
  shows "\<exists>r a'. kupl_malloc kupl_init kind sz geid a = Some (r, a') \<and> ma_core_inited a' \<and>
    mpool_inv a' (case r of None \<Rightarrow> U | Some p \<Rightarrow> Held p (kind_hbw a kind) (uint sz) # U)"
proof -
  have f: "fast_inv (size_mems a) (ma_pool a) U" using inv by (simp add: mpool_inv_def)
  have z: "\<not> sz > KUPL_MAX_MALLOC_SIZE" "\<not> sz > KUPL_MAX_MALLOC_INNER_SIZE"
    using sz by (simp_all add: KUPL_MAX_MALLOC_SIZE_def KUPL_MAX_MALLOC_INNER_SIZE_def word_less_def)
  have n: "\<not> geid < 0" using g by (simp add: geid_ok_def)
  have al: "\<exists>r a'. with_pool a (kupl_fast_alloc (Mem h (nat geid)) sz False (ma_pool a)) = Some (r, a') \<and> ma_core_inited a' \<and>
    mpool_inv a' (case r of None \<Rightarrow> U | Some p \<Rightarrow> Held p h (uint sz) # U)" for h
  proof -
    obtain r s' where r: "kupl_fast_alloc (Mem h (nat geid)) sz False (ma_pool a) = Some (r, s')"
      "fast_inv (size_mems a) s' (case r of None \<Rightarrow> U | Some p \<Rightarrow> Held p h (uint sz) # U)"
      using fast_alloc_ok[OF f geid_mem[OF inv g, of h] sz, of False] unfolding mem_ref.sel by blast
    then show ?thesis using mpool_inv_pool[OF inv r(2)] c by (simp add: with_pool_def)
  qed
  have lo: "\<exists>r a'. kupl_memory_alloc_inner sz geid a = Some (r, a') \<and> ma_core_inited a' \<and>
    mpool_inv a' (case r of None \<Rightarrow> U | Some p \<Rightarrow> Held p False (uint sz) # U)"
    using al[of False] inv c g z(2) by (auto simp: kupl_memory_alloc_inner_def)
  have hi: "\<exists>r a'. kupl_memory_hbw_alloc_inner sz geid a = Some (r, a') \<and> ma_core_inited a' \<and>
    mpool_inv a' (case r of None \<Rightarrow> U | Some p \<Rightarrow> Held p True (uint sz) # U)"
    using al[of True] n by (simp add: kupl_memory_hbw_alloc_inner_def)
  have no: "\<exists>r a'. Some (None, a) = Some (r, a') \<and> ma_core_inited a' \<and>
    mpool_inv a' (case r of None \<Rightarrow> U | Some p \<Rightarrow> Held p h (uint sz) # U)" for h using inv c by simp
  consider "kind = KUPL_MEM_LARGE_CAP" | "kind = KUPL_MEM_HIGH_BW" | "kind = KUPL_MEM_DEFAULT" "ma_default_hbw a"
    | "kind = KUPL_MEM_DEFAULT" "\<not> ma_default_hbw a" | "\<not> kind_ok kind" unfolding kind_ok_def by blast
  then show ?thesis
    by cases (use lo hi no c z(1) in \<open>simp_all add: kupl_malloc_def kind_hbw_def kind_ok_def mem_kinds cong: option.case_cong\<close>)
qed

lemma free_inner_ok:
  assumes inv: "mpool_inv a U" and c: "ma_core_inited a" and g: "geid_ok a geid" and u: "u \<in> set U"
    and k: "kind_ok kind" "kind_hbw a kind = h_hbw u"
  shows "\<exists>a'. kupl_free kind (Some (h_ptr u)) geid a = Some a' \<and> ma_core_inited a' \<and> mpool_inv a' (remove1 u U)"
proof -
  have f: "fast_inv (size_mems a) (ma_pool a) U" using inv by (simp add: mpool_inv_def)
  obtain m where m: "get_mem (Mem (h_hbw u) (nat geid)) (ma_pool a) = Some m" using geid_mem[OF inv g, of "h_hbw u"] by blast
  obtain s' where s': "kupl_fast_free (Mem (h_hbw u) (nat geid)) (h_ptr u) (ma_pool a) = Some s'" "fast_inv (size_mems a) s' (remove1 u U)"
    using fast_free_ok[OF f u m] by auto
  have "kupl_free kind (Some (h_ptr u)) geid a = Some (a\<lparr>ma_pool := s'\<rparr>)"
    using k s'(1) g by (auto simp: kupl_free_def kind_ok_def kind_hbw_def mem_kinds kupl_memory_free_inner_def kupl_memory_hbw_free_inner_def)
  then show ?thesis using mpool_inv_pool[OF inv s'(2)] c by simp
qed

lemma mpool_run_inv: "mpool_run a U \<Longrightarrow> mpool_inv a U \<and> ma_core_inited a"
proof (induction rule: mpool_run.induct)
  case (start a)
  then obtain pu avail j calloc a0 a1 where "avail \<le> pu" "pu \<le> 2 ^ 16" "j \<le> 21"
    "kupl_memory_init pu avail (2 ^ j) calloc a0 = (KUPL_OK, a1)" "a = a1\<lparr>ma_core_inited := True\<rparr>" by (auto simp: mpool_start_def)
  then show ?case using memory_init_inv[of pu avail j calloc a0 a1] by (simp add: mpool_inv_def size_mems_def[abs_def])
next
  case (step a U a' U')
  then have inv: "mpool_inv a U" "ma_core_inited a" by blast+
  from step(2) show ?case
  proof cases
    case (malloc geid sz kupl_init kind p)
    from malloc_ok[OF inv malloc(2,3), of kupl_init kind] show ?thesis using malloc(1,4) by simp
  next
    case (malloc_none geid sz kupl_init kind)
    from malloc_ok[OF inv malloc_none(2,3), of kupl_init kind] show ?thesis using malloc_none(1,4) by simp
  next
    case (free u geid kind)
    from free_inner_ok[OF inv free(3,2,4,5)] show ?thesis using free(1,6) by simp
  next
    case (expand calloc r)
    then show ?thesis using expand_inv[OF inv(1) expand(2)] inv(2) by (auto simp: kupl_memory_expand_def Let_def split: if_splits)
  qed
qed

section \<open>What users can rely on\<close>

lemma users_apart:
  assumes b: "blocks_ok M G H B s" and u: "small B loc u \<or> big H B s u" "small B loc v \<or> big H B s v" and l: "h_ptr u < h_ptr v"
  shows "h_ptr u + h_size u + FAST_DESC \<le> h_ptr v"
proof -
  have bg: "0 \<le> h_size w" if "big H B s w" for w using that by (simp add: big_def)
  have sm: "\<exists>k i. h_ptr w \<in> owned B k i \<and> h_size w \<le> g_fast_bin_size ! i" if "small B loc w" for w using that by (auto simp: small_def)
  from u consider "small B loc u" "small B loc v" | "small B loc u" "big H B s v" | "big H B s u" "small B loc v" | "big H B s u" "big H B s v" by blast
  then show ?thesis
  proof cases
    case 1
    then show ?thesis using sm[OF 1(1)] sm[OF 1(2)] owned_apart[OF b _ _ l] by fastforce
  next
    case 2
    then show ?thesis using sm[OF 2(1)] owned_big_apart[OF b, of "h_ptr u" _ _ v] l bg[OF 2(2)] by (fastforce simp: big_def FAST_DESC_def)
  next
    case 3
    then obtain k i where o: "h_ptr v \<in> owned B k i" using sm by blast
    have "64 \<le> g_fast_bin_size ! i" by (rule bin_pos[OF owned_fast(2)[OF b o]])
    then show ?thesis using owned_big_apart[OF b o, of u] 3(1) l by (simp add: big_def FAST_DESC_def)
  next
    case 4
    then show ?thesis using held_apart2[OF blocks_hold[OF b], of u v] l by (simp add: big_def FAST_DESC_def BUFFER_DESC_def)
  qed
qed

lemma users_mapped:
  assumes b: "blocks_ok M G H B s" and u: "small B loc u \<or> big H B s u"
  shows "\<exists>(x, l)\<in>set (mp_maps s). x \<le> h_ptr u \<and> h_ptr u + h_size u \<le> x + l"
proof -
  have inv: "pool_inv G s" and ok: "\<forall>h\<in>set H. hold_ok G s h" using blocks_hold[OF b] by (simp_all add: hold_inv_def)
  obtain h where h: "h \<in> set H" "h_ptr h \<le> h_ptr u" "h_ptr u + h_size u \<le> h_ptr h + h_size h"
  proof (cases "big H B s u")
    case True
    then show ?thesis using that[of u] by (simp add: big_def)
  next
    case False
    then obtain k i where o: "h_ptr u \<in> owned B k i" "h_size u \<le> g_fast_bin_size ! i" using u by (auto simp: small_def)
    from owned_block[OF b o(1)] obtain ap where "ap \<le> h_ptr u" "h_ptr u + g_fast_bin_size ! i \<le> ap + 65536" "Held ap (mr_hbw k) 65536 \<in> set H" by metis
    then show ?thesis using that[of "Held ap (mr_hbw k) 65536"] o(2) by simp
  qed
  have "hold_ok G s h" using ok h(1) by blast
  from held_mapped[OF inv this] obtain x l where "(x, l) \<in> set (mp_maps s)" "x + BUFFER_DESC \<le> h_ptr h" "h_ptr h + h_size h \<le> x + l" by blast
  then show ?thesis using h by (intro bexI[of _ "(x, l)"]) (simp_all add: BUFFER_DESC_def)
qed

section \<open>An example run\<close>

text \<open>Two executors; executor 0 allocates 2000 and 3000 bytes.\<close>

definition apool0 :: kupl_mpool where
  "apool0 = \<lparr>ma_pool = pool0, ma_size = 0, ma_max = 0, ma_default_hbw = False, ma_core_inited = True\<rparr>"

definition apool1 :: kupl_mpool where "apool1 = snd (kupl_memory_init 2 2 8 (\<lambda>_. True) apool0)"
definition apool2 :: kupl_mpool where "apool2 = snd (the (kupl_malloc (\<lambda>_. None) KUPL_MEM_LARGE_CAP 2000 0 apool1))"
definition apool3 :: kupl_mpool where "apool3 = snd (the (kupl_malloc (\<lambda>_. None) KUPL_MEM_LARGE_CAP 3000 0 apool2))"

lemma apool1: "kupl_memory_init 2 2 (2 ^ 3) (\<lambda>_. True) apool0 = (KUPL_OK, apool1)"
proof -
  have "fst (kupl_memory_init 2 2 8 (\<lambda>_. True) apool0) = KUPL_OK" by code_simp
  then have "kupl_memory_init 2 2 8 (\<lambda>_. True) apool0 = (KUPL_OK, apool1)" unfolding apool1_def by (metis prod.collapse)
  then show ?thesis by simp
qed

lemma apool2: "kupl_malloc (\<lambda>_. None) KUPL_MEM_LARGE_CAP 2000 0 apool1 = Some (Some 12580864, apool2)"
  unfolding apool2_def by (rule the_snd) code_simp

lemma apool3: "kupl_malloc (\<lambda>_. None) KUPL_MEM_LARGE_CAP 3000 0 apool2 = Some (Some 12577816, apool3)"
  unfolding apool3_def by (rule the_snd) code_simp

lemma apool_sizes: "ma_size apool1 = 2" "ma_size apool2 = 2" "ma_size apool3 = 2" "ma_core_inited apool1"
  by code_simp+

lemma apool1_run: "mpool_run apool1 []"
proof -
  have "apool1 = apool1\<lparr>ma_core_inited := True\<rparr>" using apool_sizes(4) by (cases apool1) simp
  then have "mpool_start apool1" unfolding mpool_start_def using apool1
    by (intro exI[of _ 2] exI[of _ 3] exI[of _ "\<lambda>_. True"] exI[of _ apool0] exI[of _ apool1]) simp
  then show ?thesis by (rule mpool_run.start)
qed

lemma apool_run: "mpool_run apool3 [Held 12577816 False 3000, Held 12580864 False 2000]"
proof -
  have k: "kind_hbw a KUPL_MEM_LARGE_CAP = False" for a by (simp add: kind_hbw_def mem_kinds)
  have "mpool_step apool1 [] apool2 (Held 12580864 (kind_hbw apool1 KUPL_MEM_LARGE_CAP) (uint (2000 :: u64)) # [])"
    by (rule mpool_step.malloc[OF _ _ apool2]) (simp_all add: geid_ok_def apool_sizes)
  then have 2: "mpool_run apool2 [Held 12580864 False 2000]" using mpool_run.step[OF apool1_run] by (simp add: k)
  have "mpool_step apool2 [Held 12580864 False 2000] apool3 (Held 12577816 (kind_hbw apool2 KUPL_MEM_LARGE_CAP) (uint (3000 :: u64)) # [Held 12580864 False 2000])"
    by (rule mpool_step.malloc[OF _ _ apool3]) (simp_all add: geid_ok_def apool_sizes)
  then show ?thesis using mpool_run.step[OF 2] by (simp add: k)
qed

section \<open>Properties\<close>

text \<open>
  C7: in every run of \<open>kupl_malloc\<close>, \<open>kupl_free\<close> and added executors, from the end of
  \<open>kupl_memory_init\<close>, two buffers that users hold never overlap, nor does one overlap the descriptor
  in front of the other, and every byte of a held buffer is mapped.
\<close>

theorem malloc_held_disjoint:
  assumes "mpool_run a U" and "i < length U" and "j < length U" and "i \<noteq> j"
  shows "(h_ptr (U ! i) + h_size (U ! i) + FAST_DESC \<le> h_ptr (U ! j) \<or> h_ptr (U ! j) + h_size (U ! j) + FAST_DESC \<le> h_ptr (U ! i)) \<and>
    (\<exists>(x, l)\<in>set (mp_maps (ma_pool a)). x \<le> h_ptr (U ! i) \<and> h_ptr (U ! i) + h_size (U ! i) \<le> x + l)"
proof -
  obtain G H B loc where b: "blocks_ok (size_mems a) G H B (ma_pool a)" and u: "users_ok H B loc (ma_pool a) U"
    using mpool_run_inv[OF assms(1)] unfolding mpool_inv_def fast_inv_def by blast
  have m: "small B loc (U ! n) \<or> big H B (ma_pool a) (U ! n)" if "n < length U" for n
    using u that by (simp add: users_ok_def)
  have "h_ptr (U ! i) \<noteq> h_ptr (U ! j)"
    using u assms(2-4) nth_eq_iff_index_eq[of "map h_ptr U" i j] by (simp add: users_ok_def)
  then show ?thesis using users_apart[OF b m m, of i j] users_apart[OF b m m, of j i] users_mapped[OF b m, of i] assms(2,3) by linarith
qed

theorem malloc_held_disjoint_witness:
  "12577816 + 3000 + FAST_DESC \<le> 12580864 \<and> (\<exists>(x, l)\<in>set (mp_maps (ma_pool apool3)). x \<le> 12577816 \<and> 12577816 + 3000 \<le> x + l)"
  using malloc_held_disjoint[OF apool_run, of 0 1] by (simp add: FAST_DESC_def)

text \<open>
  C8: in every such run, \<open>kupl_malloc\<close> of any kind and of a size below 2 GB less 4 MB returns
  on every executor, and so does \<open>kupl_free\<close> of a held buffer on whichever executor, with a
  kind that names the pool of the buffer.
\<close>

theorem malloc_free_return:
  assumes "mpool_run a U" and "geid_ok a geid"
  shows "(\<forall>kind sz. uint sz < 2 ^ 31 - 2 ^ 22 \<longrightarrow> (\<exists>r a'. kupl_malloc kupl_init kind sz geid a = Some (r, a'))) \<and>
    (\<forall>u\<in>set U. \<forall>kind. kind_ok kind \<and> kind_hbw a kind = h_hbw u \<longrightarrow> (\<exists>a'. kupl_free kind (Some (h_ptr u)) geid a = Some a'))"
proof -
  note inv = mpool_run_inv[OF assms(1)]
  show ?thesis using malloc_ok[OF _ _ assms(2)] free_inner_ok[OF _ _ assms(2)] inv by blast
qed

theorem malloc_free_return_witness:
  "\<exists>a'. kupl_free KUPL_MEM_LARGE_CAP (Some 12580864) 1 apool3 = Some a'"
proof -
  have g: "geid_ok apool3 1" by (simp add: geid_ok_def apool_sizes)
  have "kind_ok KUPL_MEM_LARGE_CAP" "kind_hbw apool3 KUPL_MEM_LARGE_CAP = False" by (simp_all add: kind_ok_def kind_hbw_def mem_kinds)
  then show ?thesis using malloc_free_return[OF apool_run g] by auto
qed

lemma put_mem_same: "get_mem k s = Some m \<Longrightarrow> put_mem k m (put_mem k m' s) = s"
  by (cases s) (auto simp: put_mem_def get_mem_def fun_eq_iff)

lemma fast_free_alloc:
  assumes f: "mp_fast s p = Some fd" "0 \<le> fd_bin fd" and m: "get_mem k s = Some m" "km_eid m = fd_eid fd"
    and sz: "(uint sz + 63) div 64 = fd_bin fd" and r: "kupl_fast_free k p s = Some s1"
  shows "kupl_fast_alloc k sz huge s1 = Some (Some p, s)"
proof -
  let ?i = "nat (fd_bin fd)"
  have i: "?i < FAST_BINS_COUNT" using r f m by (auto simp: kupl_fast_free_def Let_def get_bin_def split: if_splits)
  let ?c = "km_fast_bins m ?i"
  let ?m = "m\<lparr>km_fast_bins := (km_fast_bins m)(?i := ?c\<lparr>fc_self := p # fc_self ?c\<rparr>)\<rparr>"
  have s1: "s1 = put_mem k ?m s"
    using r f m i by (simp add: kupl_fast_free_def Let_def get_bin_def put_bin_def kupl_sv_list_put_def)
  have last: "g_fast_bin_size ! (FAST_BINS_COUNT - Suc 0) = 1152" using bin_cases[of 18] by (simp add: fast_bins_count)
  have "fd_bin fd < 19" using i f(2) by (simp add: fast_bins_count)
  then have "\<not> uint sz > 1152" using sz by linarith
  moreover have idx: "nat ((uint sz + KUPL_CACHE_LINE - 1) div KUPL_CACHE_LINE) = ?i" using sz by (simp add: KUPL_CACHE_LINE_def)
  moreover have "get_mem k s1 = Some ?m" by (simp add: s1 get_put_mem)
  moreover have "?m\<lparr>km_fast_bins := (km_fast_bins ?m)(?i := (?c\<lparr>fc_self := p # fc_self ?c\<rparr>)\<lparr>fc_self := fc_self ?c\<rparr>)\<rparr> = m" by simp
  ultimately show ?thesis
    using i put_mem_same[OF m(1)] by (simp add: kupl_fast_alloc_def last Let_def get_bin_def put_bin_def s1)
qed

text \<open>
  C28: when an executor returns a small buffer (a class of 64 to 1152 bytes, in steps of 64) that it cut
  itself, and asks again for a size of the same class, it gets this buffer, and the pool is as it was
  before the return.  A buffer that another executor cut goes to the list of foreign buffers instead.
\<close>

theorem free_malloc_roundtrip:
  assumes "mp_fast (ma_pool a) p = Some fd" and "0 \<le> fd_bin fd" and "get_mem (Mem (kind_hbw a kind) (nat geid)) (ma_pool a) = Some m"
    and "km_eid m = fd_eid fd" and "geid_ok a geid" and "kind_ok kind" and "ma_core_inited a"
    and "sz \<noteq> 0" and "(uint sz + 63) div 64 = fd_bin fd" and "kupl_free kind (Some p) geid a = Some a1"
  shows "kupl_malloc kupl_init kind sz geid a1 = Some (Some p, a)"
proof -
  let ?k = "Mem (kind_hbw a kind) (nat geid)"
  have "map_option (\<lambda>s. a\<lparr>ma_pool := s\<rparr>) (kupl_fast_free ?k p (ma_pool a)) = Some a1"
    using assms(5,6,10) by (auto simp: kupl_free_def kind_ok_def kind_hbw_def mem_kinds kupl_memory_free_inner_def kupl_memory_hbw_free_inner_def split: if_splits)
  then obtain s1 where s1: "kupl_fast_free ?k p (ma_pool a) = Some s1" "a1 = a\<lparr>ma_pool := s1\<rparr>" by auto
  have "kupl_fast_alloc ?k sz False s1 = Some (Some p, ma_pool a)" by (rule fast_free_alloc[OF assms(1-4,9) s1(1)])
  then have al: "with_pool a1 (kupl_fast_alloc ?k sz False (ma_pool a1)) = Some (Some p, a)" by (simp add: with_pool_def s1(2))
  have "nat (fd_bin fd) < FAST_BINS_COUNT" using s1(1) assms(1-4) by (auto simp: kupl_fast_free_def Let_def get_bin_def split: if_splits)
  then have "uint sz < 2 ^ 31" using assms(2,9) by (simp add: fast_bins_count)
  then have "\<not> sz > KUPL_MAX_MALLOC_SIZE" "\<not> sz > KUPL_MAX_MALLOC_INNER_SIZE"
    by (simp_all add: KUPL_MAX_MALLOC_SIZE_def KUPL_MAX_MALLOC_INNER_SIZE_def word_less_def)
  moreover have "ma_core_inited a1" "geid_ok a1 geid" "ma_default_hbw a1 = ma_default_hbw a" "\<not> geid < 0"
    using assms(5,7) by (simp_all add: s1(2) geid_ok_def)
  ultimately show ?thesis using al assms(6,8)
    by (auto simp: kupl_malloc_def kind_ok_def kind_hbw_def mem_kinds kupl_memory_alloc_inner_def kupl_memory_hbw_alloc_inner_def)
qed

text \<open>Executor 0 of the pool \<open>apool1\<close> asks for 128 bytes, the first buffer of a new block of 64 KB.\<close>

definition block1 :: mpool where
  "block1 = snd (the (kupl_normal_alloc (Mem False 0) KUPL_NORMAL_MEMORY_FAST_GROW_SIZE False (ma_pool apool1)))"

lemma block1: "kupl_normal_alloc (Mem False 0) KUPL_NORMAL_MEMORY_FAST_GROW_SIZE False (ma_pool apool1) = Some (Some 12517328, block1)"
  unfolding block1_def by (rule the_snd) code_simp

lemma first_small_buffer:
  "\<exists>p a fd m. kupl_malloc (\<lambda>_. None) KUPL_MEM_LARGE_CAP 128 0 apool1 = Some (Some p, a) \<and> ma_size a = 2 \<and> ma_core_inited a \<and>
     mp_fast (ma_pool a) p = Some fd \<and> fd_eid fd = 0 \<and> fd_bin fd = 2 \<and> get_mem (Mem False 0) (ma_pool a) = Some m \<and> km_eid m = 0"
proof -
  let ?k = "Mem False 0"
  have "map_option km_eid (get_mem ?k block1) = Some 0" by code_simp
  moreover have "get_bin ?k 2 block1 \<noteq> None" by code_simp
  moreover have "mp_desc block1 (12517328 - BUFFER_DESC) \<noteq> None" by code_simp
  moreover have "map_option fc_self (get_bin ?k 2 (ma_pool apool1)) = Some []" by code_simp
  moreover have "map_option fc_sync (get_bin ?k 2 (ma_pool apool1)) = Some []" by code_simp
  ultimately obtain m c d c0 where m: "get_mem ?k block1 = Some m" "km_eid m = 0" and c: "get_bin ?k 2 block1 = Some c"
    and d: "mp_desc block1 (12517328 - BUFFER_DESC) = Some d" and c0: "get_bin ?k 2 (ma_pool apool1) = Some c0" "fc_self c0 = []" "fc_sync c0 = []" by auto
  let ?s = "put_desc (12517328 - BUFFER_DESC) (d\<lparr>bd_ref := word_of_int (uint KUPL_NORMAL_MEMORY_FAST_GROW_SIZE div stp 2)\<rparr>) block1"
  have b: "2 < FAST_BINS_COUNT" by (simp add: fast_bins_count)
  note cnt = unat_cnt[OF b] cnt_val(1)[OF b]
  have gm: "get_mem k (put_desc x y t) = get_mem k t" for k x y t by (simp add: get_mem_def put_desc_def)
  have "get_bin ?k 2 ?s = Some c" "get_mem ?k ?s = Some m" using c m b gm by (simp_all add: get_bin_def)
  from carve_ok[OF this, of 12517328 "align_cache_line 12517328" "stp 2" "[0..<cnt 2]"] obtain s' where
    s': "carve ?k 2 12517328 (align_cache_line 12517328) (stp 2) [0..<cnt 2] ?s = Some s'" "same_normal ?s s'"
    and f: "mp_fast s' = (\<lambda>x. if x \<in> buf_at (align_cache_line 12517328) (stp 2) ` set [0..<cnt 2]
              then Some \<lparr>fd_eid = km_eid m, fd_bin = int 2, fd_alloc_ptr = 12517328\<rparr> else mp_fast ?s x)" by blast
  have "align_cache_line 12517328 \<in> buf_at (align_cache_line 12517328) (stp 2) ` set [0..<cnt 2]"
    using cnt(2) by (intro image_eqI[of _ _ 0]) (simp_all add: buf_at_def)
  then have fd: "mp_fast s' (align_cache_line 12517328) = Some \<lparr>fd_eid = 0, fd_bin = 2, fd_alloc_ptr = 12517328\<rparr>"
    unfolding f by (simp only: if_True m(2)) simp
  have "kupl_get_memory_from_normal_memory ?k (g_fast_bin_size ! 2) 2 False (ma_pool apool1) = Some (Some (align_cache_line 12517328), s')"
    using block1 d s'(1) cnt(1) by (simp add: kupl_get_memory_from_normal_memory_def Let_def flip: stp_def)
  moreover have "g_fast_bin_size ! (FAST_BINS_COUNT - 1) = 1152" using bin_cases[of 18] by (simp add: fast_bins_count)
  ultimately have "kupl_fast_alloc ?k 128 False (ma_pool apool1) = Some (Some (align_cache_line 12517328), s')"
    using c0 by (simp add: kupl_fast_alloc_def Let_def KUPL_CACHE_LINE_def)
  then have al: "kupl_malloc (\<lambda>_. None) KUPL_MEM_LARGE_CAP 128 0 apool1 = Some (Some (align_cache_line 12517328), apool1\<lparr>ma_pool := s'\<rparr>)"
    using apool_sizes by (simp add: geid_ok_def kupl_malloc_def kupl_memory_alloc_inner_def with_pool_def mem_kinds KUPL_MAX_MALLOC_SIZE_def KUPL_MAX_MALLOC_INNER_SIZE_def)
  obtain m' where "get_mem ?k s' = Some m'" "km_eid m' = 0"
    using same_normal_eid[OF s'(2), of ?k m] m by (auto simp: gm)
  then show ?thesis using al fd apool_sizes by (intro exI[of _ "align_cache_line 12517328"] exI[of _ "apool1\<lparr>ma_pool := s'\<rparr>"]) auto
qed

theorem free_malloc_roundtrip_witness:
  "\<exists>p a a1. kupl_malloc (\<lambda>_. None) KUPL_MEM_LARGE_CAP 128 0 apool1 = Some (Some p, a) \<and>
     kupl_free KUPL_MEM_LARGE_CAP (Some p) 0 a = Some a1 \<and>
     kupl_malloc (\<lambda>_. None) KUPL_MEM_LARGE_CAP 128 0 a1 = Some (Some p, a)"
proof -
  obtain p a fd m where al: "kupl_malloc (\<lambda>_. None) KUPL_MEM_LARGE_CAP 128 0 apool1 = Some (Some p, a)"
    and a: "ma_size a = 2" "ma_core_inited a" and fd: "mp_fast (ma_pool a) p = Some fd" "fd_eid fd = 0" "fd_bin fd = 2"
    and m: "get_mem (Mem False 0) (ma_pool a) = Some m" "km_eid m = 0" using first_small_buffer by blast
  have k: "kind_hbw b KUPL_MEM_LARGE_CAP = False" "kind_ok KUPL_MEM_LARGE_CAP" for b by (simp_all add: kind_hbw_def kind_ok_def mem_kinds)
  have g: "geid_ok apool1 0" "geid_ok a 0" using a by (simp_all add: geid_ok_def apool_sizes)
  have "mpool_step apool1 [] a (Held p (kind_hbw apool1 KUPL_MEM_LARGE_CAP) (uint (128 :: u64)) # [])"
    by (rule mpool_step.malloc[OF g(1) _ al]) simp
  then have inv: "mpool_inv a [Held p False 128]" using mpool_run_inv[OF mpool_run.step[OF apool1_run]] by (simp add: k)
  then obtain a1 where f: "kupl_free KUPL_MEM_LARGE_CAP (Some p) 0 a = Some a1"
    using free_inner_ok[OF inv a(2) g(2) _ k(2), of "Held p False 128"] by (auto simp: k)
  have "get_mem (Mem (kind_hbw a KUPL_MEM_LARGE_CAP) (nat 0)) (ma_pool a) = Some m" using m by (simp add: k)
  from free_malloc_roundtrip[OF fd(1) _ this _ g(2) k(2) a(2) _ _ f, of 128] have
    "kupl_malloc (\<lambda>_. None) KUPL_MEM_LARGE_CAP 128 0 a1 = Some (Some p, a)" using fd m by simp
  then show ?thesis using al f by blast
qed

end
