(* ===== verification/Kupl_Shm_Halving.thy ===== *)
theory Kupl_Shm_Halving
  imports Kupl_Prelude
begin

text \<open>
  The index arithmetic of the collective operations in shared memory
  (\<open>memory/shm/allreduce/kupl_allreduce.cpp\<close>): which half of the elements a rank owns after
  each step of recursive halving (\<open>calc_offset\<close>), the number of steps (\<open>calc_hibit\<close>), and the
  numbering of the ranks that take part when their number is no power of two (\<open>calc_vrank\<close>).
  The functions are those of the code, on 32-bit words.  The second half relates them to natural
  numbers: after \<open>k\<close> halvings the ranks with the same \<open>k\<close> low bits own the same range, and for
  each element the owners are those that agree with the code of the element on these bits.
\<close>

section \<open>The functions of the code\<close>

definition offset_round :: "u32 \<Rightarrow> nat \<Rightarrow> u32 \<times> u32 \<Rightarrow> u32 \<times> u32" where
  "offset_round rank_u i se = (case se of (start, end') \<Rightarrow>
     let mask = push_bit i 1;
         dest = xor rank_u mask;
         mid = (start + end') div 2
     in if rank_u < dest then (start, mid) else (mid + 1, end'))"

text \<open>\<open>step\<close> counts from 0: the loop runs \<open>step + 1\<close> times.\<close>

definition calc_offset :: "u32 \<Rightarrow> u32 \<Rightarrow> nat \<Rightarrow> u32 \<times> u32" where
  "calc_offset rank_u cnt step = fold (offset_round rank_u) [0..<Suc step] (0, cnt - 1)"

fun hibit_loop :: "u32 \<Rightarrow> nat \<Rightarrow> u32" where
  "hibit_loop v 0 = - 1"
| "hibit_loop v (Suc start) = (if bit v start then of_nat start else hibit_loop v start)"

definition calc_hibit :: "u32 \<Rightarrow> u32" where
  "calc_hibit v = hibit_loop v 32"

definition calc_vrank :: "int \<Rightarrow> int \<Rightarrow> int" where
  "calc_vrank rank nprocs_rem =
     (if rank < 2 * nprocs_rem
      then (if rank mod 2 \<noteq> 0 then - 1 else rank div 2)
      else rank - nprocs_rem)"

text \<open>The rank behind a virtual rank, as the steps compute it for their partner.\<close>

definition calc_rank :: "int \<Rightarrow> int \<Rightarrow> int" where
  "calc_rank vdest nprocs_rem =
     (if vdest < nprocs_rem then vdest * 2 else vdest + nprocs_rem)"

section \<open>Virtual ranks\<close>

lemma vrank_rank [simp]: "0 \<le> v \<Longrightarrow> 0 \<le> m \<Longrightarrow> calc_vrank (calc_rank v m) m = v"
  by (auto simp: calc_vrank_def calc_rank_def)

lemma rank_vrank: "0 \<le> r \<Longrightarrow> 0 \<le> m \<Longrightarrow> calc_vrank r m \<noteq> - 1 \<Longrightarrow> calc_rank (calc_vrank r m) m = r"
  by (auto simp: calc_vrank_def calc_rank_def split: if_splits)

lemma vrank_range:
  "0 \<le> r \<Longrightarrow> r < p + m \<Longrightarrow> 0 \<le> m \<Longrightarrow> m < p \<Longrightarrow> calc_vrank r m \<noteq> - 1 \<Longrightarrow>
   0 \<le> calc_vrank r m \<and> calc_vrank r m < p"
  by (auto simp: calc_vrank_def split: if_splits)

section \<open>The highest bit\<close>

lemma hibit_loop_spec:
  "v < 2 ^ n \<Longrightarrow> n \<le> 32 \<Longrightarrow> 0 < v \<Longrightarrow>
   \<exists>h < n. hibit_loop (of_nat v) n = of_nat h \<and> 2 ^ h \<le> v \<and> v < 2 ^ Suc h"
proof (induction n)
  case (Suc n)
  have b: "bit (of_nat v :: u32) n \<longleftrightarrow> bit v n" using Suc.prems by (simp add: bit_simps)
  show ?case
  proof (cases "bit v n")
    case True
    have "2 ^ n \<le> v"
    proof (rule ccontr)
      assume "\<not> 2 ^ n \<le> v"
      hence "v div 2 ^ n = 0" by simp
      thus False using True by (simp add: bit_iff_odd)
    qed
    thus ?thesis using True b Suc.prems by (intro exI[of _ n]) simp
  next
    case False
    have "v div 2 ^ n < 2" using Suc.prems(1) by (simp add: less_mult_imp_div_less)
    moreover have "even (v div 2 ^ n)" using False by (simp add: bit_iff_odd)
    ultimately have "v div 2 ^ n = 0" by (cases "v div 2 ^ n = 1") auto
    hence "v < 2 ^ n" by (simp add: div_eq_0_iff)
    then obtain h where "h < n" "hibit_loop (of_nat v) n = of_nat h" "2 ^ h \<le> v" "v < 2 ^ Suc h"
      using Suc.IH Suc.prems by auto
    thus ?thesis using False b by (intro exI[of _ h]) simp
  qed
qed simp

lemma calc_hibit_spec:
  assumes "0 < v" "v < 2 ^ 32"
  obtains h where "h < 32" "calc_hibit (of_nat v) = of_nat h" "2 ^ h \<le> v" "v < 2 ^ Suc h"
  using hibit_loop_spec[of v 32] assms by (auto simp: calc_hibit_def)

section \<open>Halving on natural numbers\<close>

text \<open>
  \<open>half cnt v k\<close> is the range a rank owns after \<open>k\<close> halvings, from its first element up to but
  not including its second component.
\<close>

fun half :: "nat \<Rightarrow> nat \<Rightarrow> nat \<Rightarrow> nat \<times> nat" where
  "half cnt v 0 = (0, cnt)"
| "half cnt v (Suc k) = (let (l, h) = half cnt v k; m = (l + h + 1) div 2
                         in if bit v k then (m, h) else (l, m))"

lemma half_bounds:
  "0 < cnt \<Longrightarrow> half cnt v k = (l, h) \<Longrightarrow> l \<le> h \<and> 0 < h \<and> h \<le> cnt"
proof (induction k arbitrary: l h)
  case (Suc k)
  obtain l' h' where 1: "half cnt v k = (l', h')" by force
  show ?case using Suc.IH[OF Suc.prems(1) 1] Suc.prems(2) 1 by (auto simp: Let_def split: if_splits)
qed simp

lemma xor_exp_greater:
  fixes v k :: nat
  assumes "v < 2 ^ 31" "k < 31"
  shows "(of_nat v :: u32) < xor (of_nat v) (push_bit k 1) \<longleftrightarrow> \<not> bit v k"
    and "xor (of_nat v :: u32) (push_bit k 1) = of_nat (flip_bit k v)"
    and "flip_bit k v < 2 ^ 31"
proof -
  have b: "bit v i \<Longrightarrow> i < 31" for i
    using assms(1) by (metis bit_take_bit_iff take_bit_nat_eq_self)
  have "flip_bit k v = take_bit 31 (flip_bit k v)"
    by (rule bit_eqI) (use assms b in \<open>auto simp: bit_simps\<close>)
  thus lt: "flip_bit k v < 2 ^ 31" by (metis take_bit_nat_less_exp)
  show eq: "xor (of_nat v :: u32) (push_bit k 1) = of_nat (flip_bit k v)"
    by (rule bit_word_eqI) (auto simp: bit_simps)
  have "(of_nat v :: u32) < of_nat (flip_bit k v) \<longleftrightarrow> v < flip_bit k v"
    using assms(1) lt by (simp add: word_less_nat_alt unat_of_nat take_bit_nat_eq_self)
  also have "\<dots> \<longleftrightarrow> \<not> bit v k"
  proof (cases "bit v k")
    case True
    have "v = set_bit k (unset_bit k v)" by (rule bit_eqI) (use True in \<open>auto simp: bit_simps\<close>)
    hence "unset_bit k v \<le> v" by (metis le_add1 set_bit_eq)
    thus ?thesis using True by (simp add: flip_bit_eq_if)
  qed (simp add: flip_bit_eq_if set_bit_eq)
  finally show "(of_nat v :: u32) < xor (of_nat v) (push_bit k 1) \<longleftrightarrow> \<not> bit v k"
    by (simp only: eq)
qed

lemma offset_round_half:
  assumes "0 < cnt" "cnt < 2 ^ 31" "v < 2 ^ 31" "k < 31" "half cnt v k = (l, h)"
  shows "offset_round (of_nat v) k (of_nat l, of_nat h - 1)
         = (case half cnt v (Suc k) of (l', h') \<Rightarrow> (of_nat l', of_nat h' - 1))"
proof -
  have lh: "l \<le> h" "0 < h" "h \<le> cnt" using half_bounds[OF assms(1,5)] by auto
  have h1: "(of_nat h - 1 :: u32) = of_nat (h - 1)" using lh by (simp add: of_nat_diff)
  have "l + (h - 1) < 2 ^ 32" using lh assms(2) by simp
  hence mid: "(of_nat l + of_nat (h - 1)) div 2 = (of_nat ((l + (h - 1)) div 2) :: u32)"
    by (subst word_arith_nat_div) (simp add: unat_of_nat take_bit_nat_eq_self flip: of_nat_add)
  have m1: "Suc (h + l) div 2 = Suc ((l + (h - Suc 0)) div 2)" using lh by simp
  show ?thesis
    unfolding offset_round_def h1 Let_def prod.case xor_exp_greater(1)[OF assms(3,4)] mid
    using assms(5) h1 by (simp add: Let_def m1 add.commute del: of_nat_add)
qed

lemma calc_offset_half:
  assumes "0 < cnt" "cnt < 2 ^ 31" "v < 2 ^ 31" "k < 31" "half cnt v (Suc k) = (l, h)"
  shows "calc_offset (of_nat v) (of_nat cnt) k = (of_nat l, of_nat h - 1)"
proof -
  have "fold (offset_round (of_nat v)) [0..<n] (0, of_nat cnt - 1)
        = (case half cnt v n of (l', h') \<Rightarrow> (of_nat l', of_nat h' - 1))" if "n \<le> 31" for n
    using that
  proof (induction n)
    case (Suc n)
    obtain l' h' where 1: "half cnt v n = (l', h')" by force
    show ?case using Suc offset_round_half[OF assms(1-3) _ 1] 1 by simp
  qed simp
  from this[of "Suc k"] show ?thesis using assms(4,5) by (simp add: calc_offset_def)
qed

lemma calc_offset_range:
  assumes "0 < cnt" "cnt < 2 ^ 31" "v < 2 ^ 31" "k < 31" "half cnt v (Suc k) = (l, h)"
    and "calc_offset (of_nat v) (of_nat cnt) k = (s, e)"
  shows "unat s = l" "unat (e - s + 1) = h - l" "unat (s + (e - s + 1)) = h"
proof -
  have se: "s = of_nat l" "e = of_nat h - 1" using calc_offset_half[OF assms(1-5)] assms(6) by auto
  have lh: "l \<le> h" "h \<le> cnt" using half_bounds[OF assms(1,5)] by auto
  show "unat s = l" using se lh assms(2) by (simp add: unat_of_nat take_bit_nat_eq_self)
  have len: "e - s + 1 = of_nat (h - l)" using se lh by (simp add: of_nat_diff)
  have "h - l < 2 ^ 32" using lh assms(2) by simp
  thus "unat (e - s + 1) = h - l"
    unfolding len by (simp only: unat_of_nat take_bit_nat_eq_self flip: take_bit_eq_mod) (simp add: take_bit_nat_eq_self)
  have "s + (e - s + 1) = of_nat h" using se by simp
  thus "unat (s + (e - s + 1)) = h"
    using lh assms(2) by (simp add: unat_of_nat take_bit_nat_eq_self)
qed

section \<open>The code of an element\<close>

definition in_half :: "nat \<Rightarrow> nat \<Rightarrow> nat \<Rightarrow> nat \<Rightarrow> bool" where
  "in_half cnt v k j \<longleftrightarrow> (case half cnt v k of (l, h) \<Rightarrow> l \<le> j \<and> j < h)"

fun elem_code :: "nat \<Rightarrow> nat \<Rightarrow> nat \<Rightarrow> nat" where
  "elem_code cnt j 0 = 0"
| "elem_code cnt j (Suc k) = (let c = elem_code cnt j k
                              in if in_half cnt c (Suc k) j then c else set_bit k c)"

lemma half_take_bit: "half cnt (take_bit k v) k = half cnt v k"
proof -
  have "n \<le> k \<Longrightarrow> half cnt (take_bit k v) n = half cnt v n" for n
    by (induction n) (auto simp: bit_take_bit_iff)
  thus ?thesis by simp
qed

lemma elem_code_less: "elem_code cnt j k < 2 ^ k"
proof (induction k)
  case (Suc k)
  thus ?case by (auto simp: Let_def set_bit_eq)
qed simp

lemma code_bit: "\<not> bit (elem_code cnt j k) k"
  using elem_code_less[of cnt j k] by (metis bit_take_bit_iff less_irrefl take_bit_nat_eq_self)

lemma in_half_code:
  assumes "j < cnt"
  shows "in_half cnt v k j \<longleftrightarrow> take_bit k v = elem_code cnt j k"
proof (induction k arbitrary: v)
  case 0
  show ?case using assms by (simp add: in_half_def)
next
  case (Suc k)
  let ?c = "elem_code cnt j k"
  obtain l h where lh: "half cnt v k = (l, h)" by force
  define m where "m = (l + h + 1) div 2"
  have step: "in_half cnt v (Suc k) j \<longleftrightarrow> (if bit v k then m \<le> j \<and> j < h else l \<le> j \<and> j < m)"
    by (simp add: in_half_def lh m_def Let_def)
  have inner: "in_half cnt v k j \<longleftrightarrow> l \<le> j \<and> j < h" by (simp add: in_half_def lh)
  have mid: "l \<le> h \<Longrightarrow> l \<le> m" "l \<le> h \<Longrightarrow> m \<le> h" by (auto simp: m_def)
  have ll: "l \<le> h" using half_bounds[OF _ lh] assms by auto
  have tb: "take_bit (Suc k) v = (if bit v k then set_bit k (take_bit k v) else take_bit k v)"
    by (rule bit_eqI) (auto simp: bit_simps less_Suc_eq)
  show ?case
  proof (cases "take_bit k v = ?c")
    case True
    hence hc: "half cnt ?c k = (l, h)" using half_take_bit[of cnt k v] lh by simp
    have cin: "in_half cnt ?c (Suc k) j \<longleftrightarrow> l \<le> j \<and> j < m"
      using hc code_bit[of cnt j k] by (simp add: in_half_def m_def Let_def)
    have jin: "l \<le> j \<and> j < h" using True Suc.IH[of v] inner by simp
    have ne: "set_bit k ?c \<noteq> ?c" using code_bit[of cnt j k] by (simp add: set_bit_eq)
    show ?thesis using step cin jin ne True tb mid ll by (auto simp: Let_def not_less)
  next
    case False
    hence "\<not> in_half cnt v k j" using Suc.IH by simp
    hence 1: "\<not> in_half cnt v (Suc k) j" using step inner mid ll by auto
    have "take_bit k (take_bit (Suc k) v) = take_bit k v"
      by (simp add: min_def)
    moreover have "take_bit k (elem_code cnt j (Suc k)) = ?c"
      using elem_code_less[of cnt j k] by (simp add: Let_def take_bit_set_bit_eq take_bit_nat_eq_self)
    ultimately show ?thesis using False 1 by metis
  qed
qed

lemma elem_code_take: "k \<le> n \<Longrightarrow> take_bit k (elem_code cnt j n) = elem_code cnt j k"
proof (induction n)
  case (Suc n)
  show ?case
  proof (cases "k = Suc n")
    case True thus ?thesis by (metis elem_code_less take_bit_nat_eq_self)
  next
    case False
    hence "k \<le> n" using Suc.prems by simp
    thus ?thesis using Suc.IH by (auto simp: Let_def take_bit_set_bit_eq)
  qed
qed simp

text \<open>
  \<open>level\<close> is the number of halvings after which a rank still owns the element: it owns it after
  \<open>k\<close> halvings exactly when \<open>k\<close> is at most its level.
\<close>

fun level :: "nat \<Rightarrow> nat \<Rightarrow> nat \<Rightarrow> nat \<Rightarrow> nat" where
  "level cnt j v 0 = 0"
| "level cnt j v (Suc n) =
     (if take_bit (Suc n) v = elem_code cnt j (Suc n) then Suc n else level cnt j v n)"

lemma level_le: "level cnt j v n \<le> n"
  by (induction n) (auto simp: le_SucI)

lemma agree_below:
  assumes "take_bit n v = elem_code cnt j n" "k \<le> n"
  shows "take_bit k v = elem_code cnt j k"
proof -
  have "take_bit k (take_bit n v) = take_bit k v" using assms(2) by (simp add: min_def)
  thus ?thesis using elem_code_take[OF assms(2), of cnt j] assms(1) by simp
qed

lemma level_spec:
  "k \<le> n \<Longrightarrow> take_bit k v = elem_code cnt j k \<longleftrightarrow> k \<le> level cnt j v n"
proof (induction n)
  case (Suc n)
  show ?case
  proof (cases "take_bit (Suc n) v = elem_code cnt j (Suc n)")
    case True
    thus ?thesis using agree_below[OF True] Suc.prems by simp
  next
    case False
    show ?thesis
    proof (cases "k = Suc n")
      case True
      thus ?thesis using False level_le[of cnt j v n] by (simp del: elem_code.simps)
    next
      case kn: False
      thus ?thesis using Suc False by (simp del: elem_code.simps)
    qed
  qed
qed simp

lemma take_bit_flip [simp]: "take_bit k (flip_bit k v) = take_bit k (v :: nat)"
  by (simp add: take_bit_flip_bit_eq)

lemma flip_flip [simp]: "flip_bit k (flip_bit k v) = (v :: nat)"
  by (rule bit_eqI) (auto simp: bit_simps)

lemma flip_less: "v < 2 ^ n \<Longrightarrow> k < n \<Longrightarrow> flip_bit k v < (2 :: nat) ^ n"
  by (metis take_bit_flip_bit_eq leD take_bit_nat_eq_self take_bit_nat_eq_self_iff take_bit_nat_less_exp)

lemma take_bit_Suc_eq_iff:
  "take_bit (Suc k) u = take_bit (Suc k) w \<longleftrightarrow> take_bit k u = take_bit k w \<and> (bit u k \<longleftrightarrow> bit w k)"
  for u w :: nat
  unfolding bit_eq_iff[of "take_bit (Suc k) u"] bit_eq_iff[of "take_bit k u"]
  by (auto simp: bit_take_bit_iff less_Suc_eq)

text \<open>Of two partners that own an element before the round exactly one owns it afterwards.\<close>

lemma level_flip:
  assumes "k < n"
  shows "Suc k \<le> level cnt j (flip_bit k v) n \<longleftrightarrow> level cnt j v n = k"
proof -
  let ?c = "elem_code cnt j"
  have bits: "take_bit (Suc k) u = ?c (Suc k) \<longleftrightarrow> take_bit k u = ?c k \<and> (bit u k \<longleftrightarrow> bit (?c (Suc k)) k)" for u
  proof -
    have "take_bit (Suc k) u = ?c (Suc k) \<longleftrightarrow> take_bit (Suc k) u = take_bit (Suc k) (?c (Suc k))"
      by (simp only: elem_code_take le_refl)
    also have "\<dots> \<longleftrightarrow> take_bit k u = take_bit k (?c (Suc k)) \<and> (bit u k \<longleftrightarrow> bit (?c (Suc k)) k)"
      by (rule take_bit_Suc_eq_iff)
    also have "take_bit k (?c (Suc k)) = ?c k" by (rule elem_code_take) simp
    finally show ?thesis .
  qed
  have "Suc k \<le> level cnt j (flip_bit k v) n \<longleftrightarrow> take_bit (Suc k) (flip_bit k v) = ?c (Suc k)"
    by (rule level_spec[symmetric]) (use assms in simp)
  also have "\<dots> \<longleftrightarrow> take_bit k v = ?c k \<and> \<not> take_bit (Suc k) v = ?c (Suc k)"
    unfolding bits by (auto simp: bit_simps simp del: elem_code.simps)
  also have "\<dots> \<longleftrightarrow> k \<le> level cnt j v n \<and> \<not> Suc k \<le> level cnt j v n"
    using level_spec[of k n v cnt j] level_spec[of "Suc k" n v cnt j] assms
    by (simp del: elem_code.simps)
  finally show ?thesis by auto
qed

lemma level_full:
  assumes "v < 2 ^ n" "level cnt j v n = n"
  shows "v = elem_code cnt j n"
  using level_spec[of n n v cnt j] assms by (simp add: take_bit_nat_eq_self)

text \<open>Numbers that agree from bit \<open>k\<close> on form the blocks that are combined in round \<open>k\<close>.\<close>

lemma block_Suc:
  "{u. drop_bit (Suc k) u = drop_bit (Suc k) v} =
   {u. drop_bit k u = drop_bit k v} \<union> {u. drop_bit k u = drop_bit k (flip_bit k (v :: nat))}"
  "{u. drop_bit k u = drop_bit k v} \<inter> {u. drop_bit k u = drop_bit k (flip_bit k v)} = {}"
proof -
  have d: "drop_bit i u = drop_bit i w \<longleftrightarrow> (\<forall>b \<ge> i. bit u b \<longleftrightarrow> bit w b)" for i and u w :: nat
    unfolding bit_eq_iff by (auto simp: bit_drop_bit_eq le_iff_add)
  have s: "(\<forall>b \<ge> k. P b) \<longleftrightarrow> P k \<and> (\<forall>b \<ge> Suc k. P b)" for P
    by (metis Suc_leD Suc_leI le_neq_implies_less le_refl)
  have f: "bit (flip_bit k v) b \<longleftrightarrow> (if b = k then \<not> bit v k else bit v b)" for b
    by (auto simp: bit_simps)
  show "{u. drop_bit (Suc k) u = drop_bit (Suc k) v} =
     {u. drop_bit k u = drop_bit k v} \<union> {u. drop_bit k u = drop_bit k (flip_bit k v)}"
    unfolding d s[of "\<lambda>b. bit _ b \<longleftrightarrow> _ b"] f by auto
  show "{u. drop_bit k u = drop_bit k v} \<inter> {u. drop_bit k u = drop_bit k (flip_bit k v)} = {}"
    unfolding d f by auto
qed

lemma block_cases:
  "drop_bit (Suc k) u = drop_bit (Suc k) v \<longleftrightarrow>
   drop_bit k u = drop_bit k v \<or> drop_bit k u = drop_bit k (flip_bit k v)" for u v :: nat
  using block_Suc(1)[of k v] by blast

lemma block_mono: "drop_bit i u = drop_bit i v \<Longrightarrow> i \<le> k \<Longrightarrow> drop_bit k u = drop_bit k v" for u v :: nat
  by (metis drop_bit_drop_bit le_Suc_ex add.commute)

end
