(* ===== verification/Kupl_Allreduce.thy ===== *)
theory Kupl_Allreduce
  imports Kupl_Shm_Halving
begin

text \<open>
  The collective sum of \<open>memory/shm/allreduce/kupl_allreduce.cpp\<close>.  Every rank is a process
  that runs \<open>kupl_do_allreduce\<close> on buffers all ranks can address: \<open>Sendbuf q\<close> and
  \<open>Recvbuf q\<close> are the buffers of rank \<open>q\<close> behind the two windows of the request, as lists of
  elements.  A rank proceeds in phases, each one loop iteration or straight-line part between two
  synchronisations; a state holds the buffers and the phase every rank has reached, and
  \<open>ar_step\<close> lets one rank execute its next phase if the fence in front of it lets it pass.  A
  run is a list of ranks in the order in which they get to execute, so a theorem about all lists
  is a theorem about all interleavings.

  Fences: \<open>kupl_shm_fence\<close> lets a rank pass when all ranks have reached the same phase,
  \<open>kupl_shm_peer_fence\<close> when the partner has reached the same phase or a later one (the fences
  themselves are the subject of \<open>Kupl_Shm_Fence\<close>).  \<open>kupl_shm_win_query\<close> succeeds for a rank
  of the communicator, which is proved for every partner; \<open>kupl_memcpy\<close> copies.  The sum of two
  elements of a datatype is the parameter \<open>adds\<close>: addition of floating point numbers is not
  associative, that of the integer types is.
\<close>

section \<open>Arguments and buffers\<close>

datatype shm_datatype = DT_CHAR | DT_INT | DT_LONG | DT_FLOAT | DT_DOUBLE | DT_OTHER

fun kupl_shm_type_size :: "shm_datatype \<Rightarrow> int" where
  "kupl_shm_type_size DT_CHAR = 1"
| "kupl_shm_type_size DT_INT = 4"
| "kupl_shm_type_size DT_LONG = 8"
| "kupl_shm_type_size DT_FLOAT = 4"
| "kupl_shm_type_size DT_DOUBLE = 8"
| "kupl_shm_type_size DT_OTHER = - 1"

datatype allreduce_algo = ALGO_AUTO | ALGO_LINEAR | ALGO_RB_RH_RD

record ar_args =
  ar_count :: int
  ar_datatype :: shm_datatype
  ar_algo :: allreduce_algo

datatype shm_buf = Sendbuf nat | Recvbuf nat

type_synonym 'a shm_mem = "shm_buf \<Rightarrow> 'a list"

definition reduce_op ::
  "('a \<Rightarrow> 'a \<Rightarrow> 'a) \<Rightarrow> shm_buf \<Rightarrow> shm_buf \<Rightarrow> shm_buf \<Rightarrow> u32 \<Rightarrow> u32 \<Rightarrow> 'a shm_mem \<Rightarrow> 'a shm_mem" where
  "reduce_op add result_buf buf1 buf2 offset copy_count m =
     fold (\<lambda>i m. m(result_buf := (m result_buf)[i := add (m buf1 ! i) (m buf2 ! i)]))
       [unat offset..<unat (offset + copy_count)] m"

definition dispatch_by_datatype ::
  "(shm_datatype \<Rightarrow> 'a \<Rightarrow> 'a \<Rightarrow> 'a) \<Rightarrow> shm_datatype \<Rightarrow> shm_buf \<Rightarrow> shm_buf \<Rightarrow> shm_buf \<Rightarrow> u32 \<Rightarrow> u32
   \<Rightarrow> 'a shm_mem \<Rightarrow> 'a shm_mem" where
  "dispatch_by_datatype adds datatype result_buf buf1 buf2 offset copy_count m =
     (if datatype = DT_OTHER then m
      else reduce_op (adds datatype) result_buf buf1 buf2 offset copy_count m)"

definition copy_elems :: "shm_buf \<Rightarrow> shm_buf \<Rightarrow> nat \<Rightarrow> nat \<Rightarrow> 'a shm_mem \<Rightarrow> 'a shm_mem" where
  "copy_elems dst src offset n m =
     fold (\<lambda>i m. m(dst := (m dst)[i := m src ! i])) [offset..<offset + n] m"

text \<open>
  The check divides in 64 bits; the number of bytes is a product of 32 bits, which for large buffers is
  less than the check looks at.
\<close>

definition copied_elems :: "u32 \<Rightarrow> u32 \<Rightarrow> nat" where
  "copied_elems cnt type_size = unat (cnt * type_size) div unat type_size"

definition kupl_shm_send ::
  "shm_buf \<Rightarrow> shm_buf \<Rightarrow> u32 \<Rightarrow> u32 \<Rightarrow> u32 \<Rightarrow> 'a shm_mem \<Rightarrow> int \<times> 'a shm_mem" where
  "kupl_shm_send buf destbuf offset cnt type_size m =
     (if cnt = 0 then (KUPL_OK, m)
      else if SIZE_MAX div ucast cnt < ucast type_size then (KUPL_ERROR, m)
      else (KUPL_OK, copy_elems destbuf buf (unat offset) (copied_elems cnt type_size) m))"

definition kupl_shm_recv ::
  "shm_buf \<Rightarrow> shm_buf \<Rightarrow> u32 \<Rightarrow> u32 \<Rightarrow> u32 \<Rightarrow> 'a shm_mem \<Rightarrow> int \<times> 'a shm_mem" where
  "kupl_shm_recv buf source_buf offset cnt type_size m =
     (if cnt = 0 then (KUPL_OK, m)
      else if SIZE_MAX div ucast cnt < ucast type_size then (KUPL_ERROR, m)
      else (KUPL_OK, copy_elems buf source_buf (unat offset) (copied_elems cnt type_size) m))"

section \<open>The steps of one rank\<close>

definition nsteps :: "nat \<Rightarrow> nat" where
  "nsteps comm_size = unat (calc_hibit (of_nat comm_size))"

definition nprocs_pof2 :: "nat \<Rightarrow> nat" where
  "nprocs_pof2 comm_size = push_bit (nsteps comm_size) 1"

definition nprocs_rem :: "nat \<Rightarrow> int" where
  "nprocs_rem comm_size = int comm_size - int (nprocs_pof2 comm_size)"

definition ar_vrank :: "nat \<Rightarrow> nat \<Rightarrow> int" where
  "ar_vrank comm_size rank = calc_vrank (int rank) (nprocs_rem comm_size)"

text \<open>The partner of a rank in the round with the mask \<open>2 ^ k\<close>, as a virtual rank and as a rank.\<close>

definition ar_vdest :: "nat \<Rightarrow> nat \<Rightarrow> nat \<Rightarrow> u32" where
  "ar_vdest comm_size rank k = xor (of_int (ar_vrank comm_size rank)) (push_bit k 1)"

definition ar_dest :: "nat \<Rightarrow> nat \<Rightarrow> nat \<Rightarrow> nat" where
  "ar_dest comm_size rank k =
     nat (calc_rank (sint (ar_vdest comm_size rank k)) (nprocs_rem comm_size))"

definition do_pre_reduce ::
  "(shm_datatype \<Rightarrow> 'a \<Rightarrow> 'a \<Rightarrow> 'a) \<Rightarrow> ar_args \<Rightarrow> nat \<Rightarrow> 'a shm_mem \<Rightarrow> 'a shm_mem" where
  "do_pre_reduce adds a rank m =
     (let (curr_start, curr_end) = calc_offset (of_nat rank) (of_int (ar_count a)) 0;
          n = curr_end - curr_start + 1
      in if rank mod 2 \<noteq> 0
         then dispatch_by_datatype adds (ar_datatype a)
                (Recvbuf (rank - 1)) (Sendbuf rank) (Sendbuf (rank - 1)) curr_start n m
         else dispatch_by_datatype adds (ar_datatype a)
                (Recvbuf rank) (Sendbuf rank) (Sendbuf (rank + 1)) curr_start n m)"

definition reduce_scatter_round ::
  "(shm_datatype \<Rightarrow> 'a \<Rightarrow> 'a \<Rightarrow> 'a) \<Rightarrow> ar_args \<Rightarrow> nat \<Rightarrow> nat \<Rightarrow> nat \<Rightarrow> 'a shm_mem \<Rightarrow> 'a shm_mem" where
  "reduce_scatter_round adds a comm_size rank k m =
     (let dest = ar_dest comm_size rank k;
          rb_process_num = 2 * nprocs_rem comm_size;
          destbuf = (if k = 0 \<and> rb_process_num \<le> int dest then Sendbuf dest else Recvbuf dest);
          local_buf = (if k = 0 \<and> rb_process_num \<le> int rank then Sendbuf rank else Recvbuf rank);
          (curr_start, curr_end) =
            calc_offset (of_int (ar_vrank comm_size rank)) (of_int (ar_count a)) k
      in dispatch_by_datatype adds (ar_datatype a) (Recvbuf rank) local_buf destbuf
           curr_start (curr_end - curr_start + 1) m)"

definition allgather_round ::
  "ar_args \<Rightarrow> nat \<Rightarrow> nat \<Rightarrow> nat \<Rightarrow> 'a shm_mem \<Rightarrow> 'a shm_mem" where
  "allgather_round a comm_size rank k m =
     (let dest = ar_dest comm_size rank k;
          (curr_start, curr_end) =
            calc_offset (ar_vdest comm_size rank k) (of_int (ar_count a)) k
      in snd (kupl_shm_recv (Recvbuf rank) (Recvbuf dest) curr_start (curr_end - curr_start + 1)
                (of_int (kupl_shm_type_size (ar_datatype a))) m))"

definition do_post_allgather :: "ar_args \<Rightarrow> nat \<Rightarrow> 'a shm_mem \<Rightarrow> 'a shm_mem" where
  "do_post_allgather a rank m =
     (if rank mod 2 = 0
      then snd (kupl_shm_send (Recvbuf rank) (Recvbuf (rank + 1)) 0 (of_int (ar_count a))
                  (of_int (kupl_shm_type_size (ar_datatype a))) m)
      else m)"

definition linear_sum ::
  "(shm_datatype \<Rightarrow> 'a \<Rightarrow> 'a \<Rightarrow> 'a) \<Rightarrow> ar_args \<Rightarrow> nat \<Rightarrow> nat \<Rightarrow> 'a shm_mem \<Rightarrow> 'a shm_mem" where
  "linear_sum adds a comm_size rank m =
     fold (\<lambda>i m. if rank = i then m
                 else dispatch_by_datatype adds (ar_datatype a)
                        (Recvbuf rank) (Recvbuf rank) (Sendbuf i) 0 (of_int (ar_count a)) m)
       [0..<comm_size] m"

section \<open>Phases and runs\<close>

datatype ar_phase =
  Copy_Self | Pre_Reduce | Fence_All | Reduce_Round nat | Gather_Round nat | Post_Gather
  | Linear_Sum | Finished

text \<open>
  The phases of \<open>do_allreduce_with_linear\<close> and of \<open>do_allreduce_with_rb_rh_rd\<close>.  The masks
  \<open>1, 2, 4, ...\<close> of the first loop are the rounds \<open>0, ..., nsteps - 1\<close>; the second loop runs
  through them backwards.  The code does not look at the results of the four parts of the
  recursive algorithm; for buffers of the communicator they are \<open>KUPL_OK\<close>.
\<close>

definition do_allreduce_with_linear :: "nat \<Rightarrow> ar_phase" where
  "do_allreduce_with_linear pc =
     (if pc = 0 then Copy_Self
      else if pc = 1 then Fence_All
      else if pc = 2 then Linear_Sum
      else if pc = 3 then Fence_All
      else Finished)"

definition do_allreduce_with_rb_rh_rd :: "nat \<Rightarrow> nat \<Rightarrow> ar_phase" where
  "do_allreduce_with_rb_rh_rd comm_size pc =
     (if comm_size = 1 then (if pc = 0 then Copy_Self else Finished)
      else (let n = nsteps comm_size in
        if pc = 0 then Pre_Reduce
        else if pc = 1 then Fence_All
        else if pc < n + 2 then Reduce_Round (pc - 2)
        else if pc < 2 * n + 2 then Gather_Round (2 * n + 1 - pc)
        else if pc = 2 * n + 2 then Post_Gather
        else if pc = 2 * n + 3 then Fence_All
        else Finished))"

definition ar_phase_of :: "ar_args \<Rightarrow> nat \<Rightarrow> nat \<Rightarrow> ar_phase" where
  "ar_phase_of a comm_size pc =
     (case ar_algo a of
        ALGO_AUTO \<Rightarrow> do_allreduce_with_rb_rh_rd comm_size pc
      | ALGO_LINEAR \<Rightarrow> do_allreduce_with_linear pc
      | ALGO_RB_RH_RD \<Rightarrow> do_allreduce_with_rb_rh_rd comm_size pc)"

lemma ar_phase_of_if:
  "ar_phase_of a comm_size pc =
     (if ar_algo a = ALGO_LINEAR then
        (if pc = 0 then Copy_Self else if pc = 2 then Linear_Sum
         else if pc < 4 then Fence_All else Finished)
      else if comm_size = 1 then (if pc = 0 then Copy_Self else Finished)
      else (let n = nsteps comm_size in
        if pc = 0 then Pre_Reduce
        else if pc = 1 then Fence_All
        else if pc < n + 2 then Reduce_Round (pc - 2)
        else if pc < 2 * n + 2 then Gather_Round (2 * n + 1 - pc)
        else if pc = 2 * n + 2 then Post_Gather
        else if pc = 2 * n + 3 then Fence_All
        else Finished))"
  by (cases "ar_algo a")
    (auto simp: ar_phase_of_def do_allreduce_with_linear_def do_allreduce_with_rb_rh_rd_def Let_def)

definition ar_end :: "ar_args \<Rightarrow> nat \<Rightarrow> nat" where
  "ar_end a comm_size =
     (if ar_algo a = ALGO_LINEAR then 4 else if comm_size = 1 then 1 else 2 * nsteps comm_size + 4)"

record 'a ar_state =
  ar_mem :: "'a shm_mem"
  ar_pc :: "nat \<Rightarrow> nat"

definition ar_ready :: "ar_args \<Rightarrow> nat \<Rightarrow> (nat \<Rightarrow> nat) \<Rightarrow> nat \<Rightarrow> bool" where
  "ar_ready a comm_size pc rank =
     (case ar_phase_of a comm_size (pc rank) of
        Fence_All \<Rightarrow> (\<forall>q < comm_size. pc rank \<le> pc q)
      | Reduce_Round k \<Rightarrow>
          ar_vrank comm_size rank \<noteq> - 1 \<longrightarrow> pc rank \<le> pc (ar_dest comm_size rank k)
      | Gather_Round k \<Rightarrow>
          ar_vrank comm_size rank \<noteq> - 1 \<longrightarrow> pc rank \<le> pc (ar_dest comm_size rank k)
      | Finished \<Rightarrow> False
      | _ \<Rightarrow> True)"

definition ar_action ::
  "(shm_datatype \<Rightarrow> 'a \<Rightarrow> 'a \<Rightarrow> 'a) \<Rightarrow> ar_args \<Rightarrow> nat \<Rightarrow> nat \<Rightarrow> ar_phase \<Rightarrow> 'a shm_mem \<Rightarrow> 'a shm_mem" where
  "ar_action adds a comm_size rank ph m =
     (case ph of
        Copy_Self \<Rightarrow> copy_elems (Recvbuf rank) (Sendbuf rank) 0 (nat (ar_count a)) m
      | Pre_Reduce \<Rightarrow>
          if int rank < 2 * nprocs_rem comm_size then do_pre_reduce adds a rank m else m
      | Reduce_Round k \<Rightarrow>
          if ar_vrank comm_size rank \<noteq> - 1
          then reduce_scatter_round adds a comm_size rank k m else m
      | Gather_Round k \<Rightarrow>
          if ar_vrank comm_size rank \<noteq> - 1 then allgather_round a comm_size rank k m else m
      | Post_Gather \<Rightarrow>
          if int rank < 2 * nprocs_rem comm_size then do_post_allgather a rank m else m
      | Linear_Sum \<Rightarrow> linear_sum adds a comm_size rank m
      | _ \<Rightarrow> m)"

definition ar_step ::
  "(shm_datatype \<Rightarrow> 'a \<Rightarrow> 'a \<Rightarrow> 'a) \<Rightarrow> ar_args \<Rightarrow> nat \<Rightarrow> nat \<Rightarrow> 'a ar_state \<Rightarrow> 'a ar_state" where
  "ar_step adds a comm_size rank s =
     (if rank < comm_size \<and> ar_ready a comm_size (ar_pc s) rank
      then \<lparr>ar_mem = ar_action adds a comm_size rank
                       (ar_phase_of a comm_size (ar_pc s rank)) (ar_mem s),
            ar_pc = (ar_pc s)(rank := Suc (ar_pc s rank))\<rparr>
      else s)"

definition kupl_do_allreduce ::
  "(shm_datatype \<Rightarrow> 'a \<Rightarrow> 'a \<Rightarrow> 'a) \<Rightarrow> ar_args \<Rightarrow> nat \<Rightarrow> 'a shm_mem \<Rightarrow> nat list \<Rightarrow> 'a ar_state" where
  "kupl_do_allreduce adds a comm_size m sched =
     fold (ar_step adds a comm_size) sched \<lparr>ar_mem = m, ar_pc = \<lambda>q. 0\<rparr>"

text \<open>
  What \<open>kupl_allreduce_request_check\<close> and the creation of the communicator guarantee, and that a buffer has
  less than 2 GB: above, the number of bytes that is passed to \<open>kupl_memcpy\<close> overflows.
\<close>

definition ar_type_fits :: "ar_args \<Rightarrow> bool" where
  "ar_type_fits a \<longleftrightarrow> ar_datatype a \<noteq> DT_OTHER \<and> ar_count a * kupl_shm_type_size (ar_datatype a) < 2 ^ 31"

lemma ar_type_fitsD: "ar_type_fits a \<Longrightarrow> ar_datatype a \<noteq> DT_OTHER"
  by (simp add: ar_type_fits_def)

definition KUPL_SHM_COMM_MAX_SIZE :: nat where "KUPL_SHM_COMM_MAX_SIZE = 1024"

definition ar_valid :: "ar_args \<Rightarrow> nat \<Rightarrow> 'a shm_mem \<Rightarrow> bool" where
  "ar_valid a comm_size m \<longleftrightarrow>
     0 < comm_size \<and> comm_size \<le> KUPL_SHM_COMM_MAX_SIZE \<and>
     0 < ar_count a \<and> ar_count a < 2 ^ 31 \<and> ar_type_fits a \<and>
     (\<forall>q < comm_size. length (m (Sendbuf q)) = nat (ar_count a) \<and>
                      length (m (Recvbuf q)) = nat (ar_count a))"

definition ar_all_done :: "ar_args \<Rightarrow> nat \<Rightarrow> 'a ar_state \<Rightarrow> bool" where
  "ar_all_done a comm_size s \<longleftrightarrow> (\<forall>q < comm_size. ar_end a comm_size \<le> ar_pc s q)"

section \<open>Buffers\<close>

text \<open>
  A loop that writes one buffer, each element from elements with the same index: afterwards the
  elements of the range have their new values and all others the old ones.
\<close>

definition write_elems ::
  "shm_buf \<Rightarrow> ('a shm_mem \<Rightarrow> nat \<Rightarrow> 'a) \<Rightarrow> nat \<Rightarrow> nat \<Rightarrow> 'a shm_mem \<Rightarrow> 'a shm_mem" where
  "write_elems b g lo hi m = fold (\<lambda>i m. m(b := (m b)[i := g m i])) [lo..<hi] m"

lemma write_elems_cells:
  assumes local: "\<And>m m' i. (\<And>c. m c ! i = m' c ! i) \<Longrightarrow> g m i = g m' i"
  shows "length (write_elems b g lo hi m c) = length (m c) \<and>
         (hi \<le> length (m b) \<longrightarrow>
          write_elems b g lo hi m c ! j = (if c = b \<and> lo \<le> j \<and> j < hi then g m j else m c ! j))"
proof (induction hi arbitrary: c j)
  case 0
  show ?case by (simp add: write_elems_def)
next
  case (Suc hi)
  show ?case
  proof (cases "lo \<le> hi")
    case False
    thus ?thesis by (auto simp: write_elems_def)
  next
    case True
    let ?m = "write_elems b g lo hi m"
    have step: "write_elems b g lo (Suc hi) m = ?m(b := (?m b)[hi := g ?m hi])"
      using True by (simp add: write_elems_def)
    have "g ?m hi = g m hi" if "Suc hi \<le> length (m b)"
      by (rule local) (use Suc.IH that in auto)
    thus ?thesis using True Suc.IH by (auto simp: step nth_list_update less_Suc_eq)
  qed
qed

lemma reduce_op_write:
  "reduce_op add r b1 b2 off n = write_elems r (\<lambda>m i. add (m b1 ! i) (m b2 ! i)) (unat off) (unat (off + n))"
  by (simp add: reduce_op_def write_elems_def fun_eq_iff)

lemma copy_elems_write:
  "copy_elems d s off n = write_elems d (\<lambda>m i. m s ! i) off (off + n)"
  by (simp add: copy_elems_def write_elems_def fun_eq_iff)

lemma reduce_op_length [simp]: "length (reduce_op add r b1 b2 off n m c) = length (m c)"
  unfolding reduce_op_write by (rule write_elems_cells[THEN conjunct1]) simp

lemma copy_elems_length [simp]: "length (copy_elems d s off n m c) = length (m c)"
  unfolding copy_elems_write by (rule write_elems_cells[THEN conjunct1]) simp

lemma reduce_op_cell:
  assumes "unat (off + n) \<le> length (m r)"
  shows "reduce_op add r b1 b2 off n m c ! j =
         (if c = r \<and> unat off \<le> j \<and> j < unat (off + n) then add (m b1 ! j) (m b2 ! j) else m c ! j)"
  unfolding reduce_op_write using assms
  by (intro write_elems_cells[THEN conjunct2, rule_format]) simp_all

lemma copy_elems_cell:
  assumes "off + n \<le> length (m d)"
  shows "copy_elems d s off n m c ! j =
         (if c = d \<and> off \<le> j \<and> j < off + n then m s ! j else m c ! j)"
  unfolding copy_elems_write using assms
  by (intro write_elems_cells[THEN conjunct2, rule_format]) simp_all

text \<open>The size check of \<open>kupl_shm_send\<close> and \<open>kupl_shm_recv\<close> never fails.\<close>

lemma size_check_passes:
  assumes "dt \<noteq> DT_OTHER" "n \<noteq> 0"
  shows "\<not> SIZE_MAX div ucast (n :: u32) < (ucast (of_int (kupl_shm_type_size dt) :: u32) :: u64)"
proof -
  have n: "0 < unat n" "unat n < 2 ^ 32"
    using assms(2) unsigned_less[of n, where ?'a = nat] by (simp_all add: unat_gt_0)
  have t: "unat (ucast (of_int (kupl_shm_type_size dt) :: u32) :: u64) \<le> 8"
    using assms(1) by (cases dt) (simp_all add: unsigned_ucast_eq)
  have "8 * unat n \<le> 2 ^ 64 - 1" using n by simp
  hence "8 \<le> (2 ^ 64 - 1) div unat n" using n by (simp add: less_eq_div_iff_mult_less_eq)
  thus ?thesis using t
    using n by (simp add: word_less_nat_alt unat_div_distrib unsigned_ucast_eq take_bit_nat_eq_self not_less)
qed

lemma copied_elems_exact:
  assumes "dt \<noteq> DT_OTHER" "int (unat n) * kupl_shm_type_size dt < 2 ^ 32"
  shows "copied_elems n (of_int (kupl_shm_type_size dt)) = unat n"
proof -
  let ?t = "of_int (kupl_shm_type_size dt) :: u32"
  have t: "int (unat ?t) = kupl_shm_type_size dt" "0 < unat ?t" using assms(1) by (cases dt; simp)+
  have key: "x < 2 ^ 32" if "int x < 2 ^ 32" for x :: nat using that by simp
  have "int (unat n * unat ?t) = int (unat n) * kupl_shm_type_size dt" by (simp only: of_nat_mult t(1))
  hence "unat n * unat ?t < 2 ^ 32" using assms(2) key by presburger
  hence "unat n * unat ?t < 2 ^ LENGTH(32)" by simp
  hence "unat (n * ?t) = unat n * unat ?t" by (simp add: unat_mult_lem[THEN iffD1])
  thus ?thesis using t(2) by (simp add: copied_elems_def)
qed

lemma kupl_shm_recv_ok:
  assumes "dt \<noteq> DT_OTHER" "int (unat n) * kupl_shm_type_size dt < 2 ^ 32"
  shows "kupl_shm_recv b c off n (of_int (kupl_shm_type_size dt)) m
         = (KUPL_OK, copy_elems b c (unat off) (unat n) m)"
  using size_check_passes[OF assms(1), of n] copied_elems_exact[OF assms] by (auto simp: kupl_shm_recv_def copy_elems_def)

lemma kupl_shm_send_ok:
  assumes "dt \<noteq> DT_OTHER" "int (unat n) * kupl_shm_type_size dt < 2 ^ 32"
  shows "kupl_shm_send b c off n (of_int (kupl_shm_type_size dt)) m
         = (KUPL_OK, copy_elems c b (unat off) (unat n) m)"
  using size_check_passes[OF assms(1), of n] copied_elems_exact[OF assms] by (auto simp: kupl_shm_send_def copy_elems_def)

text \<open>For 512 million elements of 8 bytes the call succeeds and copies nothing.\<close>

theorem shm_send_wraps:
  "kupl_shm_send b c 0 (2 ^ 29) (of_int (kupl_shm_type_size DT_DOUBLE)) m = (KUPL_OK, m)"
  using size_check_passes[of DT_DOUBLE "2 ^ 29"] by (simp add: kupl_shm_send_def copied_elems_def copy_elems_def)

end
