(* ===== verification/Kupl_Allreduce_Cells.thy ===== *)
theory Kupl_Allreduce_Cells
  imports Kupl_Allreduce
begin

text \<open>
  What one phase does to the elements of one index: which rank writes which element from which
  others.  The ranks that take part in the rounds are numbered by their virtual ranks; \<open>rk m v\<close>
  is the rank behind the virtual rank \<open>v\<close> when \<open>m\<close> ranks are left over.
\<close>

section \<open>Numbers of ranks\<close>

definition rk :: "nat \<Rightarrow> nat \<Rightarrow> nat" where
  "rk m v = (if v < m then 2 * v else v + m)"

definition left_over :: "nat \<Rightarrow> nat" where
  "left_over comm_size = comm_size - 2 ^ nsteps comm_size"

lemma nsteps_spec:
  assumes "1 < comm_size" "comm_size \<le> KUPL_SHM_COMM_MAX_SIZE"
  shows "2 ^ nsteps comm_size \<le> comm_size" "comm_size < 2 * 2 ^ nsteps comm_size"
    "0 < nsteps comm_size" "nsteps comm_size \<le> 10"
proof -
  have lt: "0 < comm_size" "comm_size < 2 ^ 32" using assms by (auto simp: KUPL_SHM_COMM_MAX_SIZE_def)
  obtain h where h: "h < 32" "calc_hibit (of_nat comm_size) = of_nat h"
    "2 ^ h \<le> comm_size" "comm_size < 2 ^ Suc h" using calc_hibit_spec[OF lt] .
  have n: "nsteps comm_size = h" using h(1,2) by (simp add: nsteps_def unat_of_nat take_bit_nat_eq_self)
  show "2 ^ nsteps comm_size \<le> comm_size" "comm_size < 2 * 2 ^ nsteps comm_size" using h n by auto
  show "0 < nsteps comm_size" using h(4) n assms(1) by (cases h) auto
  have "(2 :: nat) ^ h < 2 ^ 11" using h(3) assms(2) by (simp add: KUPL_SHM_COMM_MAX_SIZE_def)
  hence "h < 11" by (rule power_less_imp_less_exp[rotated]) simp
  thus "nsteps comm_size \<le> 10" using n by simp
qed

lemma nprocs_rem_eq:
  assumes "1 < comm_size" "comm_size \<le> KUPL_SHM_COMM_MAX_SIZE"
  shows "nprocs_rem comm_size = int (left_over comm_size)"
  using nsteps_spec[OF assms]
  by (simp add: nprocs_rem_def left_over_def nprocs_pof2_def push_bit_eq_mult of_nat_diff)

lemma left_over_less:
  assumes "1 < comm_size" "comm_size \<le> KUPL_SHM_COMM_MAX_SIZE"
  shows "left_over comm_size < 2 ^ nsteps comm_size" "comm_size = 2 ^ nsteps comm_size + left_over comm_size"
  using nsteps_spec[OF assms] by (auto simp: left_over_def)

lemma rk_less: "v < 2 ^ n \<Longrightarrow> m < 2 ^ n \<Longrightarrow> rk m v < 2 ^ n + m"
  by (auto simp: rk_def)

lemma rk_inj: "rk m v = rk m w \<longleftrightarrow> v = w"
  by (auto simp: rk_def split: if_splits)

lemma calc_rank_rk: "calc_rank (int v) (int m) = int (rk m v)"
  by (auto simp: calc_rank_def rk_def)

lemma ar_vrank_rk:
  assumes "1 < comm_size" "comm_size \<le> KUPL_SHM_COMM_MAX_SIZE"
  shows "ar_vrank comm_size (rk (left_over comm_size) v) = int v"
  using vrank_rank[of "int v" "int (left_over comm_size)"]
  by (simp add: ar_vrank_def nprocs_rem_eq[OF assms] calc_rank_rk)

text \<open>A rank takes part exactly if it is the rank of a virtual rank; the others are odd.\<close>

lemma rank_cases:
  assumes "1 < comm_size" "comm_size \<le> KUPL_SHM_COMM_MAX_SIZE" "rank < comm_size"
  obtains v where "v < 2 ^ nsteps comm_size" "rank = rk (left_over comm_size) v"
      "ar_vrank comm_size rank = int v"
  | v where "v < left_over comm_size" "rank = 2 * v + 1" "ar_vrank comm_size rank = - 1"
proof -
  let ?m = "left_over comm_size"
  note sz = left_over_less[OF assms(1,2)]
  show thesis
  proof (cases "rank < 2 * ?m \<and> odd rank")
    case True
    hence "rank div 2 < ?m" "rank = 2 * (rank div 2) + 1" "ar_vrank comm_size rank = - 1"
      by (auto simp: ar_vrank_def calc_vrank_def nprocs_rem_eq[OF assms(1,2)] zmod_int[symmetric] odd_iff_mod_2_eq_one simp flip: of_nat_mult)
    thus thesis using that(2) by blast
  next
    case False
    define v where "v = (if rank < 2 * ?m then rank div 2 else rank - ?m)"
    have "rank = rk ?m v" using False by (auto simp: v_def rk_def)
    moreover have "v < 2 ^ nsteps comm_size" using sz assms(3) by (auto simp: v_def)
    ultimately show thesis using that(1) ar_vrank_rk[OF assms(1,2)] by metis
  qed
qed

lemma pow_le_31:
  fixes v :: nat
  assumes "1 < comm_size" "comm_size \<le> KUPL_SHM_COMM_MAX_SIZE" "v < 2 ^ nsteps comm_size"
  shows "v < 2 ^ 31"
proof -
  have "(2 :: nat) ^ nsteps comm_size \<le> 2 ^ 10" using nsteps_spec(4)[OF assms(1,2)]
    by (intro power_increasing) auto
  thus ?thesis using assms(3) by simp
qed

lemma ar_dest_rk:
  assumes "1 < comm_size" "comm_size \<le> KUPL_SHM_COMM_MAX_SIZE" "v < 2 ^ nsteps comm_size" "k < nsteps comm_size"
  shows "ar_vdest comm_size (rk (left_over comm_size) v) k = of_nat (flip_bit k v)"
    and "ar_dest comm_size (rk (left_over comm_size) v) k = rk (left_over comm_size) (flip_bit k v)"
proof -
  have v: "v < 2 ^ 31" and k: "k < 31"
    using pow_le_31[OF assms(1-3)] nsteps_spec(4)[OF assms(1,2)] assms(4) by auto
  show 1: "ar_vdest comm_size (rk (left_over comm_size) v) k = of_nat (flip_bit k v)"
    unfolding ar_vdest_def ar_vrank_rk[OF assms(1,2)] using xor_exp_greater(2)[OF v k]
    by (simp del: push_bit_of_1)
  have "sint (of_nat (flip_bit k v) :: u32) = int (flip_bit k v)"
    using xor_exp_greater(3)[OF v k]
    by (simp add: signed_of_nat signed_take_bit_int_eq_self)
  thus "ar_dest comm_size (rk (left_over comm_size) v) k = rk (left_over comm_size) (flip_bit k v)"
    by (simp add: ar_dest_def 1 nprocs_rem_eq[OF assms(1,2)] calc_rank_rk)
qed

section \<open>The effect of a phase on one index\<close>

lemma dispatch_cell:
  assumes "0 < cnt" "cnt < 2 ^ 31" "v < 2 ^ 31" "k < 31" "j < cnt" "length (m r) = cnt"
    and "dt \<noteq> DT_OTHER" "calc_offset (of_nat v) (of_nat cnt) k = (s, e)"
  shows "dispatch_by_datatype adds dt r b1 b2 s (e - s + 1) m c ! j =
         (if c = r \<and> take_bit (Suc k) v = elem_code cnt j (Suc k)
          then adds dt (m b1 ! j) (m b2 ! j) else m c ! j)"
proof -
  obtain l h where lh: "half cnt v (Suc k) = (l, h)" by force
  note se = calc_offset_range[OF assms(1-4) lh assms(8)]
  have "h \<le> cnt" using half_bounds[OF assms(1) lh] by simp
  moreover have "take_bit (Suc k) v = elem_code cnt j (Suc k) \<longleftrightarrow> l \<le> j \<and> j < h"
    using in_half_code[OF assms(5), of v "Suc k"] lh by (simp add: in_half_def)
  ultimately show ?thesis using assms(6,7) se
    by (simp add: dispatch_by_datatype_def reduce_op_cell del: half.simps elem_code.simps)
qed

lemma recv_cell:
  assumes "0 < cnt" "cnt < 2 ^ 31" "v < 2 ^ 31" "k < 31" "j < cnt" "length (m b) = cnt"
    and "calc_offset (of_nat v) (of_nat cnt) k = (s, e)"
  shows "copy_elems b src (unat s) (unat (e - s + 1)) m c ! j =
         (if c = b \<and> take_bit (Suc k) v = elem_code cnt j (Suc k) then m src ! j else m c ! j)"
proof -
  obtain l h where lh: "half cnt v (Suc k) = (l, h)" by force
  note se = calc_offset_range[OF assms(1-4) lh assms(7)]
  have hl: "h \<le> cnt" "l \<le> h" using half_bounds[OF assms(1) lh] by simp_all
  moreover have "take_bit (Suc k) v = elem_code cnt j (Suc k) \<longleftrightarrow> l \<le> j \<and> j < h"
    using in_half_code[OF assms(5), of v "Suc k"] lh by (simp add: in_half_def)
  ultimately show ?thesis using assms(6) se
    by (simp add: copy_elems_cell del: half.simps elem_code.simps)
qed

text \<open>A request on buffers of \<open>cnt\<close> elements.\<close>

lemma ar_valid_count:
  assumes "ar_valid a comm_size m"
  obtains cnt where "ar_count a = int cnt" "0 < cnt" "cnt < 2 ^ 31"
    "\<And>q. q < comm_size \<Longrightarrow> length (m (Sendbuf q)) = cnt \<and> length (m (Recvbuf q)) = cnt"
  using assms by (auto simp: ar_valid_def intro!: that[of "nat (ar_count a)"])

lemma recv_exact:
  assumes "ar_count a = int cnt" "0 < cnt" "cnt < 2 ^ 31" "ar_type_fits a" "v < 2 ^ 31" "k < 31"
    and se: "calc_offset (of_nat v) (of_nat cnt) k = (s, e)"
  shows "kupl_shm_recv b c s (e - s + 1) (of_int (kupl_shm_type_size (ar_datatype a))) m
         = (KUPL_OK, copy_elems b c (unat s) (unat (e - s + 1)) m)"
proof (rule kupl_shm_recv_ok)
  obtain l h where lh: "half cnt v (Suc k) = (l, h)" by force
  note se = calc_offset_range[OF assms(2,3,5,6) lh se]
  have "int (unat (e - s + 1)) \<le> int cnt" using half_bounds[OF assms(2) lh] se by simp
  moreover have "0 \<le> kupl_shm_type_size (ar_datatype a)"
    using ar_type_fitsD[OF assms(4)] by (cases "ar_datatype a") simp_all
  ultimately have "int (unat (e - s + 1)) * kupl_shm_type_size (ar_datatype a) \<le> ar_count a * kupl_shm_type_size (ar_datatype a)"
    using assms(1) by (intro mult_right_mono) simp_all
  thus "int (unat (e - s + 1)) * kupl_shm_type_size (ar_datatype a) < 2 ^ 32"
    using assms(4) by (simp add: ar_type_fits_def)
qed (rule ar_type_fitsD[OF assms(4)])

lemma send_exact:
  assumes "ar_count a = int cnt" "cnt < 2 ^ 31" "ar_type_fits a"
  shows "kupl_shm_send b c 0 (of_nat cnt) (of_int (kupl_shm_type_size (ar_datatype a))) m
         = (KUPL_OK, copy_elems c b 0 cnt m)"
proof -
  have n: "unat (of_nat cnt :: u32) = cnt" using assms(2) by (simp add: unat_of_nat take_bit_nat_eq_self)
  have "int (unat (of_nat cnt :: u32)) * kupl_shm_type_size (ar_datatype a) < 2 ^ 32"
    using assms(1,3) unfolding n by (simp add: ar_type_fits_def)
  from kupl_shm_send_ok[OF ar_type_fitsD[OF assms(3)] this, of b c 0 m] show ?thesis unfolding n by simp
qed

lemma pre_reduce_cell:
  assumes "ar_count a = int cnt" "0 < cnt" "cnt < 2 ^ 31" "ar_type_fits a" "j < cnt"
    and "v < 2 ^ 30" "length (m (Recvbuf (2 * v))) = cnt"
  shows "do_pre_reduce adds a (2 * v) m c ! j =
           (if c = Recvbuf (2 * v) \<and> elem_code cnt j 1 = 0
            then adds (ar_datatype a) (m (Sendbuf (2 * v)) ! j) (m (Sendbuf (2 * v + 1)) ! j)
            else m c ! j)"
    and "do_pre_reduce adds a (2 * v + 1) m c ! j =
           (if c = Recvbuf (2 * v) \<and> elem_code cnt j 1 \<noteq> 0
            then adds (ar_datatype a) (m (Sendbuf (2 * v + 1)) ! j) (m (Sendbuf (2 * v)) ! j)
            else m c ! j)"
proof -
  have code: "elem_code cnt j 1 \<le> 1" using elem_code_less[of cnt j 1] by simp
  have dispatch: "do_pre_reduce adds a r m c ! j =
      (if c = Recvbuf (2 * v) \<and> r mod 2 = elem_code cnt j 1
       then adds (ar_datatype a) (m (Sendbuf r) ! j) (m (Sendbuf r') ! j) else m c ! j)"
    if r: "r = 2 * v \<and> r' = 2 * v + 1 \<or> r = 2 * v + 1 \<and> r' = 2 * v" for r r'
  proof -
    obtain s e where se: "calc_offset (of_nat r) (of_nat cnt) 0 = (s, e)" by force
    have lt: "r < 2 ^ 31" using assms(6) r by auto
    have "do_pre_reduce adds a r m = dispatch_by_datatype adds (ar_datatype a)
            (Recvbuf (2 * v)) (Sendbuf r) (Sendbuf r') s (e - s + 1) m"
      using r by (auto simp: do_pre_reduce_def assms(1) se simp del: of_nat_mult of_nat_add of_nat_Suc)
    moreover have "take_bit (Suc 0) r = r mod 2" by (simp add: take_bit_eq_mod)
    ultimately show ?thesis
      using dispatch_cell[where m = m and r = "Recvbuf (2 * v)", OF assms(2,3) lt _ assms(5,7) ar_type_fitsD[OF assms(4)] se, of adds "Sendbuf r" "Sendbuf r'" c] by simp
  qed
  show "do_pre_reduce adds a (2 * v) m c ! j =
           (if c = Recvbuf (2 * v) \<and> elem_code cnt j 1 = 0
            then adds (ar_datatype a) (m (Sendbuf (2 * v)) ! j) (m (Sendbuf (2 * v + 1)) ! j)
            else m c ! j)"
    by (subst dispatch[of _ "2 * v + 1"]) auto
  show "do_pre_reduce adds a (2 * v + 1) m c ! j =
           (if c = Recvbuf (2 * v) \<and> elem_code cnt j 1 \<noteq> 0
            then adds (ar_datatype a) (m (Sendbuf (2 * v + 1)) ! j) (m (Sendbuf (2 * v)) ! j)
            else m c ! j)"
    using code by (subst dispatch[of _ "2 * v"]) auto
qed

text \<open>The source of a summand in a round: the send buffer in round 0 of a rank without a pair.\<close>

definition src_buf :: "nat \<Rightarrow> nat \<Rightarrow> nat \<Rightarrow> shm_buf" where
  "src_buf m v k = (if k = 0 \<and> m \<le> v then Sendbuf (v + m) else Recvbuf (rk m v))"

lemma src_buf_rk: "(if k = 0 \<and> 2 * int m \<le> int (rk m v) then Sendbuf (rk m v) else Recvbuf (rk m v)) = src_buf m v k"
  by (auto simp: src_buf_def rk_def)

lemma reduce_round_cell:
  assumes sz: "1 < comm_size" "comm_size \<le> KUPL_SHM_COMM_MAX_SIZE"
    and v: "v < 2 ^ nsteps comm_size" "k < nsteps comm_size"
    and a: "ar_count a = int cnt" "0 < cnt" "cnt < 2 ^ 31" "ar_type_fits a" "j < cnt"
    and len: "length (m (Recvbuf (rk (left_over comm_size) v))) = cnt"
  shows "reduce_scatter_round adds a comm_size (rk (left_over comm_size) v) k m c ! j =
         (if c = Recvbuf (rk (left_over comm_size) v) \<and> Suc k \<le> level cnt j v (nsteps comm_size)
          then adds (ar_datatype a) (m (src_buf (left_over comm_size) v k) ! j)
                 (m (src_buf (left_over comm_size) (flip_bit k v) k) ! j)
          else m c ! j)"
proof -
  let ?m = "left_over comm_size"
  obtain s e where se: "calc_offset (of_nat v) (of_nat cnt) k = (s, e)" by force
  have k: "k < 31" using nsteps_spec(4)[OF sz] v(2) by simp
  have "reduce_scatter_round adds a comm_size (rk ?m v) k m =
        dispatch_by_datatype adds (ar_datatype a) (Recvbuf (rk ?m v))
          (src_buf ?m v k) (src_buf ?m (flip_bit k v) k) s (e - s + 1) m"
    by (simp add: reduce_scatter_round_def ar_dest_rk[OF sz v] ar_vrank_rk[OF sz] nprocs_rem_eq[OF sz]
        a(1) se src_buf_rk)
  thus ?thesis
    using dispatch_cell[where m = m and r = "Recvbuf (rk ?m v)", OF a(2,3) pow_le_31[OF sz v(1)] k a(5) len ar_type_fitsD[OF a(4)] se]
      level_spec[of "Suc k" "nsteps comm_size" v cnt j] v(2) by (simp del: elem_code.simps)
qed

lemma gather_round_cell:
  assumes sz: "1 < comm_size" "comm_size \<le> KUPL_SHM_COMM_MAX_SIZE"
    and v: "v < 2 ^ nsteps comm_size" "k < nsteps comm_size"
    and a: "ar_count a = int cnt" "0 < cnt" "cnt < 2 ^ 31" "ar_type_fits a" "j < cnt"
    and len: "length (m (Recvbuf (rk (left_over comm_size) v))) = cnt"
  shows "allgather_round a comm_size (rk (left_over comm_size) v) k m c ! j =
         (if c = Recvbuf (rk (left_over comm_size) v) \<and> level cnt j v (nsteps comm_size) = k
          then m (Recvbuf (rk (left_over comm_size) (flip_bit k v))) ! j else m c ! j)"
proof -
  let ?m = "left_over comm_size" and ?w = "flip_bit k v"
  obtain s e where se: "calc_offset (of_nat ?w) (of_nat cnt) k = (s, e)" by force
  have k: "k < 31" using nsteps_spec(4)[OF sz] v(2) by simp
  have w: "?w < 2 ^ nsteps comm_size" by (rule flip_less[OF v])
  have "allgather_round a comm_size (rk ?m v) k m =
        copy_elems (Recvbuf (rk ?m v)) (Recvbuf (rk ?m ?w)) (unat s) (unat (e - s + 1)) m"
    by (simp add: allgather_round_def ar_dest_rk[OF sz v] a(1) se recv_exact[OF a(1-4) pow_le_31[OF sz w] k se])
  thus ?thesis
    using recv_cell[where m = m and b = "Recvbuf (rk ?m v)", OF a(2,3) pow_le_31[OF sz w] k a(5) len se]
      level_spec[of "Suc k" "nsteps comm_size" ?w cnt j] level_flip[OF v(2), of cnt j v] v(2)
    by (simp del: elem_code.simps)
qed

lemma post_cell:
  assumes "ar_count a = int cnt" "cnt < 2 ^ 31" "ar_type_fits a" "j < cnt"
    and "length (m (Recvbuf (2 * v + 1))) = cnt"
  shows "do_post_allgather a (2 * v) m c ! j =
           (if c = Recvbuf (2 * v + 1) then m (Recvbuf (2 * v)) ! j else m c ! j)"
    and "do_post_allgather a (2 * v + 1) m = m"
  using assms(1,4,5) by (simp_all add: do_post_allgather_def copy_elems_cell send_exact[OF assms(1-3)])

lemma dispatch_length [simp]: "length (dispatch_by_datatype adds dt r b1 b2 off n m c) = length (m c)"
  by (simp add: dispatch_by_datatype_def)

lemma linear_sum_length [simp]: "length (linear_sum adds a comm_size rank m c) = length (m c)"
proof -
  have "length (fold (\<lambda>i m. if rank = i then m
          else dispatch_by_datatype adds (ar_datatype a) (Recvbuf rank) (Recvbuf rank) (Sendbuf i) 0
                 (of_int (ar_count a)) m) is m c) = length (m c)" for "is"
    by (induction "is" arbitrary: m) simp_all
  thus ?thesis by (simp add: linear_sum_def)
qed

lemma ar_action_length [simp]: "length (ar_action adds a comm_size rank ph m c) = length (m c)"
  by (cases ph)
    (simp_all add: ar_action_def do_pre_reduce_def reduce_scatter_round_def allgather_round_def
      do_post_allgather_def kupl_shm_recv_def kupl_shm_send_def Let_def split: prod.split)

end
