(* ===== verification/Kupl_Allreduce_Inv.thy ===== *)
theory Kupl_Allreduce_Inv
  imports Kupl_Allreduce_Cells
begin

text \<open>
  The invariant of the recursive algorithm.  The fences order the phases of the ranks
  (\<open>ar_fences\<close>); given that order, the element with index \<open>j\<close> in the receive buffer of a rank
  is a function of the phase the rank has reached alone (\<open>cell_val\<close>): the sum over the block of
  ranks it has combined so far, and the total once the round of its level has copied it.  Nothing
  is assumed of the addition.
\<close>

section \<open>The order that the fences keep\<close>

definition ar_fences :: "nat \<Rightarrow> nat \<Rightarrow> (nat \<Rightarrow> nat) \<Rightarrow> bool" where
  "ar_fences n m pc \<longleftrightarrow>
     (\<forall>p < 2 ^ n + m. \<forall>q < 2 ^ n + m. (1 < pc p \<longrightarrow> 1 \<le> pc q) \<and>
                                  (2 * n + 3 < pc p \<longrightarrow> 2 * n + 3 \<le> pc q)) \<and>
     (\<forall>v < 2 ^ n. \<forall>k < n.
        (k + 2 < pc (rk m v) \<longrightarrow> k + 2 \<le> pc (rk m (flip_bit k v))) \<and>
        (2 * n + 1 - k < pc (rk m v) \<longrightarrow> 2 * n + 1 - k \<le> pc (rk m (flip_bit k v))))"

lemma ar_fencesD:
  assumes "ar_fences n m pc"
  shows "p < 2 ^ n + m \<Longrightarrow> q < 2 ^ n + m \<Longrightarrow> 1 < pc p \<Longrightarrow> 1 \<le> pc q"
    and "p < 2 ^ n + m \<Longrightarrow> q < 2 ^ n + m \<Longrightarrow> 2 * n + 3 < pc p \<Longrightarrow> 2 * n + 3 \<le> pc q"
    and "v < 2 ^ n \<Longrightarrow> k < n \<Longrightarrow> k + 2 < pc (rk m v) \<Longrightarrow> k + 2 \<le> pc (rk m (flip_bit k v))"
    and "v < 2 ^ n \<Longrightarrow> k < n \<Longrightarrow> 2 * n + 1 - k < pc (rk m v) \<Longrightarrow>
         2 * n + 1 - k \<le> pc (rk m (flip_bit k v))"
  using assms by (auto simp: ar_fences_def)

text \<open>A rank may go on when the fence of its phase lets it pass.\<close>

definition may_pass :: "nat \<Rightarrow> nat \<Rightarrow> (nat \<Rightarrow> nat) \<Rightarrow> nat \<Rightarrow> bool" where
  "may_pass n m pc p \<longleftrightarrow>
     p < 2 ^ n + m \<and> pc p < 2 * n + 4 \<and>
     (pc p = 1 \<or> pc p = 2 * n + 3 \<longrightarrow> (\<forall>q < 2 ^ n + m. pc p \<le> pc q)) \<and>
     (\<forall>v < 2 ^ n. \<forall>k < n. p = rk m v \<and> (pc p = k + 2 \<or> pc p = 2 * n + 1 - k) \<longrightarrow>
        pc p \<le> pc (rk m (flip_bit k v)))"

lemma fences_step:
  assumes f: "ar_fences n m pc" and p: "may_pass n m pc p"
  shows "ar_fences n m (pc(p := Suc (pc p)))"
  unfolding ar_fences_def
proof (intro conjI allI impI)
  let ?pc = "pc(p := Suc (pc p))"
  have mono: "pc q \<le> ?pc q" for q by simp
  have pp: "\<And>q. q < 2 ^ n + m \<Longrightarrow> pc p = 1 \<or> pc p = 2 * n + 3 \<Longrightarrow> pc p \<le> pc q"
    "\<And>v k. v < 2 ^ n \<Longrightarrow> k < n \<Longrightarrow> p = rk m v \<Longrightarrow> pc p = k + 2 \<or> pc p = 2 * n + 1 - k \<Longrightarrow>
       pc p \<le> pc (rk m (flip_bit k v))"
    using p by (auto simp: may_pass_def)
  fix r q assume r: "r < 2 ^ n + m" "q < 2 ^ n + m"
  show "1 \<le> ?pc q" if "1 < ?pc r"
  proof -
    have "1 < pc r \<or> r = p \<and> pc p = 1" using that by (auto split: if_splits)
    hence "1 \<le> pc q" using ar_fencesD(1)[OF f r] pp(1)[OF r(2)] by auto
    thus ?thesis using mono[of q] by linarith
  qed
  show "2 * n + 3 \<le> ?pc q" if "2 * n + 3 < ?pc r"
  proof -
    have "2 * n + 3 < pc r \<or> r = p \<and> pc p = 2 * n + 3" using that by (auto split: if_splits)
    hence "2 * n + 3 \<le> pc q" using ar_fencesD(2)[OF f r] pp(1)[OF r(2)] by auto
    thus ?thesis using mono[of q] by linarith
  qed
next
  let ?pc = "pc(p := Suc (pc p))"
  have mono: "pc q \<le> ?pc q" for q by simp
  have pp: "\<And>v k. v < 2 ^ n \<Longrightarrow> k < n \<Longrightarrow> p = rk m v \<Longrightarrow> pc p = k + 2 \<or> pc p = 2 * n + 1 - k \<Longrightarrow>
       pc p \<le> pc (rk m (flip_bit k v))"
    using p by (auto simp: may_pass_def)
  fix v k :: nat assume v: "v < 2 ^ n" "k < n"
  show "k + 2 \<le> ?pc (rk m (flip_bit k v))" if "k + 2 < ?pc (rk m v)"
  proof -
    have "k + 2 < pc (rk m v) \<or> p = rk m v \<and> pc p = k + 2" using that by (auto split: if_splits)
    hence "k + 2 \<le> pc (rk m (flip_bit k v))" using ar_fencesD(3)[OF f v] pp[OF v] by auto
    thus ?thesis using mono[of "rk m (flip_bit k v)"] by linarith
  qed
  show "2 * n + 1 - k \<le> ?pc (rk m (flip_bit k v))" if "2 * n + 1 - k < ?pc (rk m v)"
  proof -
    have "2 * n + 1 - k < pc (rk m v) \<or> p = rk m v \<and> pc p = 2 * n + 1 - k"
      using that by (auto split: if_splits)
    hence "2 * n + 1 - k \<le> pc (rk m (flip_bit k v))" using ar_fencesD(4)[OF f v] pp[OF v] by auto
    thus ?thesis using mono[of "rk m (flip_bit k v)"] by linarith
  qed
qed

section \<open>The value of an element\<close>

definition pre_sum :: "('a \<Rightarrow> 'a \<Rightarrow> 'a) \<Rightarrow> nat \<Rightarrow> nat \<Rightarrow> nat \<Rightarrow> (nat \<Rightarrow> 'a) \<Rightarrow> nat \<Rightarrow> 'a" where
  "pre_sum add cnt j m S v =
     (if v < m then (if elem_code cnt j 1 = 0 then add (S (2 * v)) (S (2 * v + 1))
                     else add (S (2 * v + 1)) (S (2 * v)))
      else S (v + m))"

fun part_sum :: "('a \<Rightarrow> 'a \<Rightarrow> 'a) \<Rightarrow> (nat \<Rightarrow> 'a) \<Rightarrow> nat \<Rightarrow> nat \<Rightarrow> 'a" where
  "part_sum add x v 0 = x v"
| "part_sum add x v (Suc k) = add (part_sum add x v k) (part_sum add x (flip_bit k v) k)"

definition cell_total :: "('a \<Rightarrow> 'a \<Rightarrow> 'a) \<Rightarrow> (nat \<Rightarrow> 'a) \<Rightarrow> nat \<Rightarrow> nat \<Rightarrow> nat \<Rightarrow> 'a" where
  "cell_total add x cnt j n = part_sum add x (elem_code cnt j n) n"

text \<open>Whether a rank with the level \<open>l\<close> has got the element by a copy, and what it holds.\<close>

definition copied :: "nat \<Rightarrow> nat \<Rightarrow> nat \<Rightarrow> bool" where
  "copied n l pc \<longleftrightarrow> l < n \<and> 2 * n + 1 - l < pc"

definition cell_val ::
  "('a \<Rightarrow> 'a \<Rightarrow> 'a) \<Rightarrow> (nat \<Rightarrow> 'a) \<Rightarrow> nat \<Rightarrow> nat \<Rightarrow> nat \<Rightarrow> nat \<Rightarrow> nat \<Rightarrow> 'a" where
  "cell_val add x cnt j n v pc =
     (if copied n (level cnt j v n) pc then cell_total add x cnt j n
      else part_sum add x v (min (pc - 2) (level cnt j v n)))"

definition cell_known :: "nat \<Rightarrow> nat \<Rightarrow> nat \<Rightarrow> nat \<Rightarrow> nat \<Rightarrow> nat \<Rightarrow> bool" where
  "cell_known cnt j n m v pc \<longleftrightarrow>
     2 \<le> pc \<and> (v < m \<or> copied n (level cnt j v n) pc \<or> 0 < min (pc - 2) (level cnt j v n))"

definition cell_inv ::
  "('a \<Rightarrow> 'a \<Rightarrow> 'a) \<Rightarrow> nat \<Rightarrow> nat \<Rightarrow> nat \<Rightarrow> nat \<Rightarrow> (nat \<Rightarrow> 'a) \<Rightarrow> (nat \<Rightarrow> 'a) \<Rightarrow> (nat \<Rightarrow> nat) \<Rightarrow> bool" where
  "cell_inv add cnt j n m x R pc \<longleftrightarrow>
     (\<forall>v < 2 ^ n. cell_known cnt j n m v (pc (rk m v)) \<longrightarrow>
        R (rk m v) = cell_val add x cnt j n v (pc (rk m v))) \<and>
     (\<forall>v < m. (pc (2 * v) = 1 \<and> elem_code cnt j 1 = 0 \<longrightarrow> R (2 * v) = x v) \<and>
              (pc (2 * v) \<le> 1 \<and> 1 \<le> pc (2 * v + 1) \<and> elem_code cnt j 1 \<noteq> 0 \<longrightarrow> R (2 * v) = x v) \<and>
              (2 * n + 3 \<le> pc (2 * v) \<longrightarrow> R (2 * v + 1) = cell_total add x cnt j n))"

lemma cell_invD:
  assumes "cell_inv add cnt j n m x R pc"
  shows "v < 2 ^ n \<Longrightarrow> cell_known cnt j n m v (pc (rk m v)) \<Longrightarrow>
           R (rk m v) = cell_val add x cnt j n v (pc (rk m v))"
    and "v < m \<Longrightarrow> pc (2 * v) = 1 \<Longrightarrow> elem_code cnt j 1 = 0 \<Longrightarrow> R (2 * v) = x v"
    and "v < m \<Longrightarrow> pc (2 * v) \<le> 1 \<Longrightarrow> 1 \<le> pc (2 * v + 1) \<Longrightarrow> elem_code cnt j 1 \<noteq> 0 \<Longrightarrow> R (2 * v) = x v"
    and "v < m \<Longrightarrow> 2 * n + 3 \<le> pc (2 * v) \<Longrightarrow> R (2 * v + 1) = cell_total add x cnt j n"
  using assms unfolding cell_inv_def by blast+

lemma cell_total_full:
  assumes "v < 2 ^ n" "level cnt j v n = n"
  shows "part_sum add x v n = cell_total add x cnt j n"
  using level_full[OF assms] by (simp add: cell_total_def)

text \<open>From the round of its level on, a rank holds the total.\<close>

lemma cell_val_total:
  assumes "v < 2 ^ n" "0 < n" "2 * n + 1 - k \<le> pc" "k < level cnt j v n \<or> level cnt j v n = n" "k < n"
  shows "cell_val add x cnt j n v pc = cell_total add x cnt j n" "cell_known cnt j n m v pc"
proof -
  note l = level_le[of cnt j v n]
  show "cell_val add x cnt j n v pc = cell_total add x cnt j n"
  proof (cases "level cnt j v n = n")
    case True
    have "min (pc - 2) n = n" using assms(3,5) by auto
    thus ?thesis using True cell_total_full[OF assms(1) True] by (simp add: cell_val_def copied_def)
  next
    case False
    hence "copied n (level cnt j v n) pc" using l assms(3,4) by (auto simp: copied_def)
    thus ?thesis by (simp add: cell_val_def)
  qed
  show "cell_known cnt j n m v pc"
    using assms l by (auto simp: cell_known_def copied_def)
qed

section \<open>The phases keep the values\<close>

text \<open>A rank that only passes a phase without writing: the values that depend on it stay.\<close>

lemma cell_val_pass:
  assumes "\<not> copied n (level cnt j v n) (Suc pc)"
    and "min (pc - 2) (level cnt j v n) = min (Suc pc - 2) (level cnt j v n)"
  shows "cell_val add x cnt j n v (Suc pc) = cell_val add x cnt j n v pc"
  using assms by (auto simp: cell_val_def copied_def)

lemma pair_cases:
  fixes p :: nat
  obtains "p = 2 * v" | "p = 2 * v + 1" | w where "w < m" "w \<noteq> v" "p = 2 * w \<or> p = 2 * w + 1"
  | "2 * m \<le> p"
proof (cases "p < 2 * m")
  case True
  hence w: "p div 2 < m" "p = 2 * (p div 2) \<or> p = 2 * (p div 2) + 1" by presburger+
  show thesis
  proof (cases "p div 2 = v")
    case True
    thus thesis using w(2) that(1,2) by blast
  next
    case False
    thus thesis using w that(3) by blast
  qed
next
  case False
  thus thesis using that(4) by simp
qed

lemma cell_pre:
  assumes f: "ar_fences n m pc" and inv: "cell_inv add cnt j n m x R pc"
    and p: "p < 2 ^ n + m" "pc p = 0" "m < 2 ^ n"
    and R': "\<And>v. v < m \<Longrightarrow> p = 2 * v \<Longrightarrow>
        R' = (if elem_code cnt j 1 = 0 then R(2 * v := x v) else R)"
      "\<And>v. v < m \<Longrightarrow> p = 2 * v + 1 \<Longrightarrow>
        R' = (if elem_code cnt j 1 \<noteq> 0 then R(2 * v := x v) else R)"
      "2 * m \<le> p \<Longrightarrow> R' = R"
  shows "cell_inv add cnt j n m x R' (pc(p := Suc (pc p)))"
proof -
  let ?pc = "pc(p := Suc (pc p))"
  have low: "pc q \<le> 1" if "q < 2 ^ n + m" for q
    using ar_fencesD(1)[OF f that p(1)] p(2) by (cases "1 < pc q") auto
  have lowv: "pc (2 * v) \<le> 1" "pc (2 * v + 1) \<le> 1" if "v < m" for v
    using low[of "2 * v"] low[of "2 * v + 1"] that p(3) by auto
  have rkl: "rk m v < 2 ^ n + m" if "v < 2 ^ n" for v using rk_less[OF that p(3)] .
  show ?thesis
    unfolding cell_inv_def
  proof (intro conjI allI impI)
    fix v assume v: "v < 2 ^ n" "cell_known cnt j n m v ((pc(p := Suc (pc p))) (rk m v))"
    have "(pc(p := Suc (pc p))) (rk m v) \<le> 1" using low[OF rkl[OF v(1)]] p(2) by auto
    thus "R' (rk m v) = cell_val add x cnt j n v ((pc(p := Suc (pc p))) (rk m v))"
      using v(2) by (simp add: cell_known_def)
  next
    fix v assume v: "v < m"
    have val: "R' (2 * v) = (if p = 2 * v \<and> elem_code cnt j 1 = 0 \<or> p = 2 * v + 1 \<and> elem_code cnt j 1 \<noteq> 0
                            then x v else R (2 * v))"
    proof (rule pair_cases[where p = p and v = v and m = m])
      assume "p = 2 * v"
      with R'(1)[OF v] show ?thesis by simp
    next
      assume "p = 2 * v + 1"
      with R'(2)[OF v] show ?thesis by simp
    next
      fix w assume w: "w < m" "w \<noteq> v" "p = 2 * w \<or> p = 2 * w + 1"
      hence "R' (2 * v) = R (2 * v)" using R'(1)[OF w(1)] R'(2)[OF w(1)] by auto
      moreover have "p \<noteq> 2 * v" "p \<noteq> 2 * v + 1" using w(2,3) by presburger+
      ultimately show ?thesis by simp
    next
      assume "2 * m \<le> p"
      with R'(3) v show ?thesis by simp
    qed
    {
      assume "?pc (2 * v) = 1 \<and> elem_code cnt j 1 = 0"
      thus "R' (2 * v) = x v" using val cell_invD(2)[OF inv v] by (simp split: if_splits)
    next
      assume "?pc (2 * v) \<le> 1 \<and> 1 \<le> ?pc (2 * v + 1) \<and> elem_code cnt j 1 \<noteq> 0"
      thus "R' (2 * v) = x v" using val cell_invD(3)[OF inv v] lowv[OF v] by (simp split: if_splits)
    next
      assume "2 * n + 3 \<le> ?pc (2 * v)"
      thus "R' (2 * v + 1) = cell_total add x cnt j n" using lowv[OF v] p(2) by (auto split: if_splits)
    }
  qed
qed

lemma cell_fence1:
  assumes f: "ar_fences n m pc" and inv: "cell_inv add cnt j n m x R pc"
    and p: "may_pass n m pc p" "pc p = 1" "m < 2 ^ n" "0 < n"
  shows "cell_inv add cnt j n m x R (pc(p := Suc (pc p)))"
proof -
  let ?pc = "pc(p := Suc (pc p))"
  have one: "1 \<le> pc q" if "q < 2 ^ n + m" for q using p that by (auto simp: may_pass_def)
  show ?thesis
    unfolding cell_inv_def
  proof (intro conjI allI impI)
    fix v assume v: "v < 2 ^ n" "cell_known cnt j n m v (?pc (rk m v))"
    show "R (rk m v) = cell_val add x cnt j n v (?pc (rk m v))"
    proof (cases "rk m v = p")
      case False
      thus ?thesis using cell_invD(1)[OF inv v(1)] v(2) by simp
    next
      case True
      hence nc: "\<not> copied n (level cnt j v n) 2" using p(4) level_le[of cnt j v n] by (auto simp: copied_def)
      have vm: "v < m" using v(2) True p(2) nc by (auto simp: cell_known_def numeral_2_eq_2)
      hence rk: "p = 2 * v" using True by (simp add: rk_def)
      have "R (2 * v) = x v"
        using cell_invD(2,3)[OF inv vm] one[of "2 * v + 1"] p(2,3) rk vm by (cases "elem_code cnt j 1 = 0") auto
      thus ?thesis using True rk p(2) nc by (simp add: cell_val_def numeral_2_eq_2)
    qed
  next
    fix v assume v: "v < m"
    {
      assume "?pc (2 * v) = 1 \<and> elem_code cnt j 1 = 0"
      thus "R (2 * v) = x v" using cell_invD(2)[OF inv v] p(2) by (auto split: if_splits)
    next
      assume "?pc (2 * v) \<le> 1 \<and> 1 \<le> ?pc (2 * v + 1) \<and> elem_code cnt j 1 \<noteq> 0"
      thus "R (2 * v) = x v" using cell_invD(3)[OF inv v] p(2) by (auto split: if_splits)
    next
      assume "2 * n + 3 \<le> ?pc (2 * v)"
      thus "R (2 * v + 1) = cell_total add x cnt j n"
        using cell_invD(4)[OF inv v] p(2) by (auto split: if_splits)
    }
  qed
qed

lemma rk_not_odd [simp]: "u < m \<Longrightarrow> rk m v \<noteq> Suc (2 * u)" "u < m \<Longrightarrow> Suc (2 * u) \<noteq> rk m v"
  by (simp_all add: rk_def, presburger+)

lemma rk_even: "u < m \<Longrightarrow> rk m v = 2 * u \<longleftrightarrow> v = u"
  by (auto simp: rk_def)

lemma cell_passive:
  assumes inv: "cell_inv add cnt j n m x R pc" and u: "u < m" "1 \<le> pc (2 * u + 1)"
  shows "cell_inv add cnt j n m x R (pc(2 * u + 1 := c))"
proof -
  have "2 * v \<noteq> Suc (2 * u)" for v by presburger
  thus ?thesis using inv u unfolding cell_inv_def by (auto simp: rk_not_odd)
qed

lemma cell_active:
  assumes inv: "cell_inv add cnt j n m x R pc" and v: "v < 2 ^ n"
    and pc: "2 \<le> pc (rk m v)" "pc (rk m v) \<noteq> 2 * n + 2"
    and R': "\<And>q. q \<noteq> rk m v \<Longrightarrow> R' q = R q"
    and val: "cell_known cnt j n m v (Suc (pc (rk m v))) \<Longrightarrow>
              R' (rk m v) = cell_val add x cnt j n v (Suc (pc (rk m v)))"
  shows "cell_inv add cnt j n m x R' (pc(rk m v := Suc (pc (rk m v))))"
proof -
  let ?pc = "pc(rk m v := Suc (pc (rk m v)))"
  show ?thesis
    unfolding cell_inv_def
  proof (intro conjI allI impI)
    fix w assume "w < 2 ^ n" "cell_known cnt j n m w (?pc (rk m w))"
    thus "R' (rk m w) = cell_val add x cnt j n w (?pc (rk m w))"
      using cell_invD(1)[OF inv] val R' by (cases "w = v") (auto simp: rk_inj)
  next
    fix u assume u: "u < m"
    have o: "?pc (2 * u + 1) = pc (2 * u + 1)" "R' (2 * u + 1) = R (2 * u + 1)" using u R' by auto
    {
      assume a: "?pc (2 * u) = 1 \<and> elem_code cnt j 1 = 0"
      hence "2 * u \<noteq> rk m v" using pc(1) by auto
      thus "R' (2 * u) = x u" using a R' cell_invD(2)[OF inv u] by simp
    next
      assume a: "?pc (2 * u) \<le> 1 \<and> 1 \<le> ?pc (2 * u + 1) \<and> elem_code cnt j 1 \<noteq> 0"
      hence "2 * u \<noteq> rk m v" using pc(1) by auto
      thus "R' (2 * u) = x u" using a o R' cell_invD(3)[OF inv u] by simp
    next
      assume "2 * n + 3 \<le> ?pc (2 * u)"
      hence "2 * n + 3 \<le> pc (2 * u)" using pc(2) by (cases "2 * u = rk m v") auto
      thus "R' (2 * u + 1) = cell_total add x cnt j n" using o cell_invD(4)[OF inv u] by simp
    }
  qed
qed

text \<open>The value a partner offers in round \<open>k\<close>.\<close>

lemma cell_offer:
  assumes inv: "cell_inv add cnt j n m x R pc" and v: "v < 2 ^ n" "k < n"
    and pc: "k + 2 \<le> pc (rk m v)" "pc (rk m v) \<le> 2 * n + 1 - k"
    and l: "level cnt j v n = k \<or> k \<le> level cnt j v n \<and> pc (rk m v) = k + 2"
    and S: "\<And>u. m \<le> u \<Longrightarrow> x u = S (u + m)"
  shows "(if k = 0 \<and> m \<le> v then S (v + m) else R (rk m v)) = part_sum add x v k"
proof (cases "k = 0 \<and> m \<le> v")
  case True
  thus ?thesis using S[of v] by simp
next
  case False
  have nc: "\<not> copied n (level cnt j v n) (pc (rk m v))" using l pc v(2) by (auto simp: copied_def)
  have mn: "min (pc (rk m v) - 2) (level cnt j v n) = k" using l pc by auto
  have "cell_known cnt j n m v (pc (rk m v))" using False mn pc by (auto simp: cell_known_def)
  thus ?thesis using False cell_invD(1)[OF inv v(1)] nc mn by (auto simp: cell_val_def)
qed

lemma cell_reduce:
  assumes f: "ar_fences n m pc" and inv: "cell_inv add cnt j n m x R pc"
    and v: "v < 2 ^ n" "k < n" and pc: "pc (rk m v) = k + 2" "k + 2 \<le> pc (rk m (flip_bit k v))"
    and S: "\<And>u. m \<le> u \<Longrightarrow> x u = S (u + m)"
    and R': "\<And>q. R' q = (if q = rk m v \<and> Suc k \<le> level cnt j v n
        then add (if k = 0 \<and> m \<le> v then S (v + m) else R (rk m v))
                 (if k = 0 \<and> m \<le> flip_bit k v then S (flip_bit k v + m) else R (rk m (flip_bit k v)))
        else R q)"
  shows "cell_inv add cnt j n m x R' (pc(rk m v := Suc (pc (rk m v))))"
proof (rule cell_active[OF inv v(1)])
  show "2 \<le> pc (rk m v)" "pc (rk m v) \<noteq> 2 * n + 2" using pc v(2) by auto
  show "R' q = R q" if "q \<noteq> rk m v" for q using that by (simp add: R')
  assume kn: "cell_known cnt j n m v (Suc (pc (rk m v)))"
  have nc: "\<not> copied n (level cnt j v n) (Suc (pc (rk m v)))"
    using pc v(2) level_le[of cnt j v n] by (auto simp: copied_def)
  show "R' (rk m v) = cell_val add x cnt j n v (Suc (pc (rk m v)))"
  proof (cases "Suc k \<le> level cnt j v n")
    case False
    have mn: "min (pc (rk m v) - 2) (level cnt j v n) = min (Suc (pc (rk m v)) - 2) (level cnt j v n)"
      using False pc(1) by simp
    have "cell_known cnt j n m v (pc (rk m v))" using kn nc mn pc(1) by (auto simp: cell_known_def)
    thus ?thesis using cell_invD(1)[OF inv v(1)] cell_val_pass[where add = add and x = x, OF nc mn] False by (simp add: R')
  next
    case True
    let ?w = "flip_bit k v"
    have w: "?w < 2 ^ n" by (rule flip_less[OF v])
    have lw: "level cnt j ?w n = k" using level_flip[OF v(2), of cnt j ?w] True by simp
    have "\<not> 2 * n + 1 - k < pc (rk m ?w)" using ar_fencesD(4)[OF f w v(2)] pc(1) v(2) by auto
    hence pw: "pc (rk m ?w) \<le> 2 * n + 1 - k" by simp
    have "R' (rk m v) = add (part_sum add x v k) (part_sum add x ?w k)"
      using True cell_offer[OF inv v(1) v(2) _ _ _ S] cell_offer[OF inv w v(2) pc(2) pw _ S] lw pc(1) v(2)
      by (simp add: R')
    also have "\<dots> = cell_val add x cnt j n v (Suc (pc (rk m v)))"
      using nc True pc(1) by (simp add: cell_val_def min_def)
    finally show ?thesis .
  qed
qed

lemma cell_gather:
  assumes inv: "cell_inv add cnt j n m x R pc"
    and v: "v < 2 ^ n" "k < n" and pc: "pc (rk m v) = 2 * n + 1 - k" "2 * n + 1 - k \<le> pc (rk m (flip_bit k v))"
    and R': "\<And>q. R' q = (if q = rk m v \<and> level cnt j v n = k then R (rk m (flip_bit k v)) else R q)"
  shows "cell_inv add cnt j n m x R' (pc(rk m v := Suc (pc (rk m v))))"
proof (rule cell_active[OF inv v(1)])
  have n: "0 < n" using v(2) by simp
  show "2 \<le> pc (rk m v)" "pc (rk m v) \<noteq> 2 * n + 2" using pc v(2) by auto
  show "R' q = R q" if "q \<noteq> rk m v" for q using that by (simp add: R')
  assume kn: "cell_known cnt j n m v (Suc (pc (rk m v)))"
  show "R' (rk m v) = cell_val add x cnt j n v (Suc (pc (rk m v)))"
  proof (cases "level cnt j v n = k")
    case True
    let ?w = "flip_bit k v"
    have w: "?w < 2 ^ n" by (rule flip_less[OF v])
    have lw: "k < level cnt j ?w n" using level_flip[OF v(2), of cnt j v] True by simp
    note tot = cell_val_total[OF w n pc(2) disjI1[OF lw] v(2)]
    have "R' (rk m v) = cell_total add x cnt j n"
      using True cell_invD(1)[OF inv w tot(2)] tot(1) by (simp add: R')
    moreover have "copied n (level cnt j v n) (Suc (pc (rk m v)))"
      using True pc(1) v(2) by (auto simp: copied_def)
    ultimately show ?thesis by (simp add: cell_val_def)
  next
    case False
    have l: "level cnt j v n \<le> n" by (rule level_le)
    have c: "copied n (level cnt j v n) (Suc (pc (rk m v))) \<longleftrightarrow> copied n (level cnt j v n) (pc (rk m v))"
      using False pc(1) v(2) l by (auto simp: copied_def)
    have mn: "min (pc (rk m v) - 2) (level cnt j v n) = min (Suc (pc (rk m v)) - 2) (level cnt j v n)"
      using pc(1) v(2) l by auto
    have "cell_known cnt j n m v (pc (rk m v))" using kn c mn pc(1) v(2) by (auto simp: cell_known_def)
    moreover have "cell_val add x cnt j n v (Suc (pc (rk m v))) = cell_val add x cnt j n v (pc (rk m v))"
      by (simp only: cell_val_def c mn)
    ultimately show ?thesis using cell_invD(1)[OF inv v(1)] False by (simp add: R')
  qed
qed

lemma cell_end:
  assumes "v < 2 ^ n" "0 < n" "2 * n + 2 \<le> pc"
  shows "cell_val add x cnt j n v pc = cell_total add x cnt j n" "cell_known cnt j n m v pc"
proof -
  have l: "level cnt j v n \<le> n" by (rule level_le)
  show "cell_val add x cnt j n v pc = cell_total add x cnt j n"
  proof (cases "level cnt j v n = n")
    case True
    moreover have "min (pc - 2) n = n" using assms(3) by simp
    ultimately show ?thesis using cell_total_full[where add = add and x = x, OF assms(1) True]
      by (simp add: cell_val_def copied_def)
  next
    case False
    thus ?thesis using l assms(3) by (auto simp: cell_val_def copied_def)
  qed
  show "cell_known cnt j n m v pc" using assms l by (auto simp: cell_known_def copied_def)
qed

lemma cell_post:
  assumes inv: "cell_inv add cnt j n m x R pc" and v: "v < 2 ^ n" "0 < n" "m < 2 ^ n"
    and pc: "pc (rk m v) = 2 * n + 2"
    and R': "\<And>q. R' q = (if v < m \<and> q = 2 * v + 1 then R (2 * v) else R q)"
  shows "cell_inv add cnt j n m x R' (pc(rk m v := Suc (pc (rk m v))))"
proof -
  let ?pc = "pc(rk m v := Suc (pc (rk m v)))"
  have even: "R' (rk m w) = R (rk m w)" for w by (auto simp: R')
  have tot: "R (rk m v) = cell_total add x cnt j n"
    using cell_end(1)[where add = add and x = x and cnt = cnt and j = j, OF v(1,2), of "pc (rk m v)"] cell_end(2)[OF v(1,2), of "pc (rk m v)"] cell_invD(1)[OF inv v(1)] pc by simp
  show ?thesis
    unfolding cell_inv_def
  proof (intro conjI allI impI)
    fix w assume w: "w < 2 ^ n" "cell_known cnt j n m w (?pc (rk m w))"
    show "R' (rk m w) = cell_val add x cnt j n w (?pc (rk m w))"
    proof (cases "w = v")
      case True
      thus ?thesis using even tot cell_end(1)[where add = add and x = x and cnt = cnt and j = j, OF v(1,2), of "Suc (pc (rk m v))"] pc by simp
    next
      case False
      thus ?thesis using even cell_invD(1)[OF inv w(1)] w(2) by (simp add: rk_inj)
    qed
  next
    fix u assume u: "u < m"
    have ru: "rk m u = 2 * u" using u by (simp add: rk_def)
    have o: "?pc (2 * u + 1) = pc (2 * u + 1)" using u by simp
    have e: "R' (2 * u) = R (2 * u)" using even[of u] ru by simp
    have d: "?pc (2 * u) \<le> 1 \<Longrightarrow> ?pc (2 * u) = pc (2 * u)" using pc by (cases "2 * u = rk m v") auto
    {
      assume a: "?pc (2 * u) = 1 \<and> elem_code cnt j 1 = 0"
      hence "pc (2 * u) = 1" using d by simp
      thus "R' (2 * u) = x u" using a e cell_invD(2)[OF inv u] by simp
    next
      assume a: "?pc (2 * u) \<le> 1 \<and> 1 \<le> ?pc (2 * u + 1) \<and> elem_code cnt j 1 \<noteq> 0"
      hence "pc (2 * u) \<le> 1" "1 \<le> pc (2 * u + 1)" using d o by simp_all
      thus "R' (2 * u) = x u" using a e cell_invD(3)[OF inv u] by simp
    next
      assume a: "2 * n + 3 \<le> ?pc (2 * u)"
      show "R' (2 * u + 1) = cell_total add x cnt j n"
      proof (cases "u = v")
        case True
        thus ?thesis using tot ru u by (simp add: R')
      next
        case False
        hence "2 * u \<noteq> rk m v" using rk_even[OF u, of v] by auto
        thus ?thesis using a False cell_invD(4)[OF inv u] by (simp add: R')
      qed
    }
  qed
qed

lemma cell_fence2:
  assumes "cell_inv add cnt j n m x R pc" "v < 2 ^ n" "0 < n" "pc (rk m v) = 2 * n + 3"
  shows "cell_inv add cnt j n m x R (pc(rk m v := Suc (pc (rk m v))))"
proof (rule cell_active[OF assms(1,2)])
  show "2 \<le> pc (rk m v)" "pc (rk m v) \<noteq> 2 * n + 2" using assms(4) by auto
  show "R (rk m v) = cell_val add x cnt j n v (Suc (pc (rk m v)))"
    using cell_end(2)[OF assms(2,3), of "pc (rk m v)"]
      cell_end(1)[where add = add and x = x and cnt = cnt and j = j, OF assms(2,3), of "pc (rk m v)"]
      cell_end(1)[where add = add and x = x and cnt = cnt and j = j, OF assms(2,3), of "Suc (pc (rk m v))"]
      cell_invD(1)[OF assms(1,2)] assms(4) by simp
qed simp

section \<open>The invariant of a run\<close>

definition ar_cells ::
  "(shm_datatype \<Rightarrow> 'a \<Rightarrow> 'a \<Rightarrow> 'a) \<Rightarrow> ar_args \<Rightarrow> nat \<Rightarrow> 'a shm_mem \<Rightarrow> nat \<Rightarrow> nat \<Rightarrow> 'a" where
  "ar_cells adds a comm_size m0 j =
     pre_sum (adds (ar_datatype a)) (nat (ar_count a)) j (left_over comm_size)
       (\<lambda>q. m0 (Sendbuf q) ! j)"

definition ar_inv ::
  "(shm_datatype \<Rightarrow> 'a \<Rightarrow> 'a \<Rightarrow> 'a) \<Rightarrow> ar_args \<Rightarrow> nat \<Rightarrow> 'a shm_mem \<Rightarrow> 'a ar_state \<Rightarrow> bool" where
  "ar_inv adds a comm_size m0 s \<longleftrightarrow>
     ar_fences (nsteps comm_size) (left_over comm_size) (ar_pc s) \<and>
     (\<forall>q. ar_mem s (Sendbuf q) = m0 (Sendbuf q)) \<and>
     (\<forall>c. length (ar_mem s c) = length (m0 c)) \<and>
     (\<forall>j < nat (ar_count a).
        cell_inv (adds (ar_datatype a)) (nat (ar_count a)) j (nsteps comm_size) (left_over comm_size)
          (ar_cells adds a comm_size m0 j) (\<lambda>q. ar_mem s (Recvbuf q) ! j) (ar_pc s))"

lemma write_elems_other: "c \<noteq> b \<Longrightarrow> write_elems b g lo hi m c = m c"
proof (induction hi)
  case (Suc hi)
  thus ?case by (cases "lo \<le> hi") (simp_all add: write_elems_def)
qed (simp add: write_elems_def)

lemma dispatch_other: "c \<noteq> r \<Longrightarrow> dispatch_by_datatype adds dt r b1 b2 off n m c = m c"
  by (simp add: dispatch_by_datatype_def reduce_op_write write_elems_other)

lemma copy_other: "c \<noteq> d \<Longrightarrow> copy_elems d b off n m c = m c"
  by (simp add: copy_elems_write write_elems_other)

lemma linear_sum_other:
  assumes "c \<noteq> Recvbuf rank"
  shows "linear_sum adds a comm_size rank m c = m c"
proof -
  have "fold (\<lambda>i m. if rank = i then m
          else dispatch_by_datatype adds (ar_datatype a) (Recvbuf rank) (Recvbuf rank) (Sendbuf i) 0
                 (of_int (ar_count a)) m) is m c = m c" for "is"
    using assms by (induction "is" arbitrary: m) (simp_all add: dispatch_other)
  thus ?thesis by (simp add: linear_sum_def)
qed

text \<open>No phase writes a send buffer.\<close>

lemma ar_action_send [simp]: "ar_action adds a comm_size rank ph m (Sendbuf q) = m (Sendbuf q)"
  by (cases ph)
    (simp_all add: ar_action_def do_pre_reduce_def reduce_scatter_round_def allgather_round_def
      do_post_allgather_def kupl_shm_recv_def kupl_shm_send_def Let_def dispatch_other copy_other
      linear_sum_other split: prod.split)

lemma ready_may_pass:
  assumes sz: "1 < comm_size" "comm_size \<le> KUPL_SHM_COMM_MAX_SIZE" and algo: "ar_algo a \<noteq> ALGO_LINEAR"
    and r: "rank < comm_size" "ar_ready a comm_size pc rank"
  shows "may_pass (nsteps comm_size) (left_over comm_size) pc rank"
proof -
  let ?n = "nsteps comm_size" and ?m = "left_over comm_size"
  note N = left_over_less[OF sz]
  have lt: "pc rank < 2 * ?n + 4"
    using r(2) sz algo by (auto simp: ar_ready_def ar_phase_of_if Let_def split: if_splits)
  have fence: "pc rank \<le> pc q" if "pc rank = 1 \<or> pc rank = 2 * ?n + 3" "q < comm_size" for q
    using r(2) sz algo that nsteps_spec(3)[OF sz]
    by (auto simp: ar_ready_def ar_phase_of_if Let_def split: if_splits)
  have peer: "pc rank \<le> pc (rk ?m (flip_bit k v))"
    if v: "v < 2 ^ ?n" "k < ?n" "rank = rk ?m v" "pc rank = k + 2 \<or> pc rank = 2 * ?n + 1 - k" for v k
  proof -
    have "ar_phase_of a comm_size (pc rank) = Reduce_Round k \<or>
          ar_phase_of a comm_size (pc rank) = Gather_Round k"
      using v sz algo by (auto simp: ar_phase_of_if Let_def)
    thus ?thesis
      using r(2) v ar_vrank_rk[OF sz] ar_dest_rk(2)[OF sz v(1,2)] by (auto simp: ar_ready_def)
  qed
  show ?thesis unfolding may_pass_def using r(1) N lt fence peer by auto
qed

end
