(* ===== verification/Kupl_Allreduce_Run.thy ===== *)
theory Kupl_Allreduce_Run
  imports Kupl_Allreduce_Inv
begin

text \<open>
  Every phase a rank executes keeps the invariant of the recursive algorithm, so it holds in all
  runs, and at the end every rank holds the total.  The last section treats the runs in which a
  rank writes its own buffer from the send buffers alone: the linear algorithm, and a single rank.
\<close>

section \<open>Every step keeps the invariant\<close>

lemma phase_cases:
  assumes "1 < comm_size" "comm_size \<le> KUPL_SHM_COMM_MAX_SIZE" "ar_algo a \<noteq> ALGO_LINEAR"
    and "pc < 2 * nsteps comm_size + 4"
  obtains "pc = 0" "ar_phase_of a comm_size pc = Pre_Reduce"
  | "pc = 1" "ar_phase_of a comm_size pc = Fence_All"
  | k where "k < nsteps comm_size" "pc = k + 2" "ar_phase_of a comm_size pc = Reduce_Round k"
  | k where "k < nsteps comm_size" "pc = 2 * nsteps comm_size + 1 - k"
      "ar_phase_of a comm_size pc = Gather_Round k"
  | "pc = 2 * nsteps comm_size + 2" "ar_phase_of a comm_size pc = Post_Gather"
  | "pc = 2 * nsteps comm_size + 3" "ar_phase_of a comm_size pc = Fence_All"
proof -
  let ?n = "nsteps comm_size"
  have n0: "0 < ?n" by (rule nsteps_spec(3)[OF assms(1,2)])
  have ph: "comm_size \<noteq> 1" using assms(1) by simp
  consider "pc < 2" | "2 \<le> pc" "pc < ?n + 2" | "?n + 2 \<le> pc" "pc < 2 * ?n + 2" | "2 * ?n + 2 \<le> pc"
    by linarith
  thus thesis
  proof cases
    case 1
    thus thesis using that(1,2) ph assms(3) by (cases "pc = 0") (auto simp: ar_phase_of_if Let_def)
  next
    case 2
    show thesis by (rule that(3)[of "pc - 2"]) (use 2 ph assms(3) in \<open>auto simp: ar_phase_of_if Let_def\<close>)
  next
    case 3
    show thesis by (rule that(4)[of "2 * ?n + 1 - pc"])
        (use 3 n0 ph assms(3) in \<open>auto simp: ar_phase_of_if Let_def\<close>)
  next
    case 4
    hence "pc = 2 * ?n + 2 \<or> pc = 2 * ?n + 3" using assms(4) by auto
    thus thesis using that(5,6) ph assms(3) n0 by (auto simp: ar_phase_of_if Let_def)
  qed
qed

text \<open>It is the turn of a rank that is ready, in a run with the invariant.\<close>

definition ar_turn ::
  "(shm_datatype \<Rightarrow> 'a \<Rightarrow> 'a \<Rightarrow> 'a) \<Rightarrow> ar_args \<Rightarrow> nat \<Rightarrow> nat \<Rightarrow> 'a shm_mem \<Rightarrow> 'a ar_state \<Rightarrow> nat \<Rightarrow> nat \<Rightarrow> bool" where
  "ar_turn adds a comm_size cnt m0 s rank j \<longleftrightarrow>
     1 < comm_size \<and> comm_size \<le> KUPL_SHM_COMM_MAX_SIZE \<and> ar_algo a \<noteq> ALGO_LINEAR \<and>
     ar_count a = int cnt \<and> 0 < cnt \<and> cnt < 2 ^ 31 \<and> ar_type_fits a \<and> j < cnt \<and>
     (\<forall>q < comm_size. length (m0 (Recvbuf q)) = cnt) \<and>
     rank < comm_size \<and> ar_ready a comm_size (ar_pc s) rank \<and> ar_inv adds a comm_size m0 s"

definition ar_cell_inv ::
  "(shm_datatype \<Rightarrow> 'a \<Rightarrow> 'a \<Rightarrow> 'a) \<Rightarrow> ar_args \<Rightarrow> nat \<Rightarrow> nat \<Rightarrow> 'a shm_mem \<Rightarrow> nat \<Rightarrow> 'a shm_mem \<Rightarrow> (nat \<Rightarrow> nat) \<Rightarrow> bool" where
  "ar_cell_inv adds a comm_size cnt m0 j m pc \<longleftrightarrow>
     cell_inv (adds (ar_datatype a)) cnt j (nsteps comm_size) (left_over comm_size)
       (ar_cells adds a comm_size m0 j) (\<lambda>q. m (Recvbuf q) ! j) pc"

lemma ar_turnD:
  assumes "ar_turn adds a comm_size cnt m0 s rank j"
  shows "1 < comm_size" "comm_size \<le> KUPL_SHM_COMM_MAX_SIZE" "ar_algo a \<noteq> ALGO_LINEAR"
    and "ar_count a = int cnt" "0 < cnt" "cnt < 2 ^ 31" "ar_type_fits a" "j < cnt"
    and "rank < comm_size" "ar_fences (nsteps comm_size) (left_over comm_size) (ar_pc s)"
    and "ar_cell_inv adds a comm_size cnt m0 j (ar_mem s) (ar_pc s)"
    and "may_pass (nsteps comm_size) (left_over comm_size) (ar_pc s) rank"
  using assms ready_may_pass by (auto simp: ar_turn_def ar_inv_def ar_cell_inv_def)

lemma ar_turn_mem:
  assumes "ar_turn adds a comm_size cnt m0 s rank j"
  shows "ar_mem s (Sendbuf q) = m0 (Sendbuf q)"
    and "q < comm_size \<Longrightarrow> length (ar_mem s (Recvbuf q)) = cnt"
    and "int rank < 2 * nprocs_rem comm_size \<longleftrightarrow> rank < 2 * left_over comm_size"
  using assms nprocs_rem_eq[of comm_size] by (auto simp: ar_turn_def ar_inv_def)

lemma ar_cells_single: "left_over comm_size \<le> u \<Longrightarrow>
    ar_cells adds a comm_size m0 j u = m0 (Sendbuf (u + left_over comm_size)) ! j"
  by (simp add: ar_cells_def pre_sum_def)

text \<open>A rank that does not take part keeps all values once it has passed the first phase.\<close>

lemma turn_passive:
  assumes t: "ar_turn adds a comm_size cnt m0 s rank j"
    and u: "u < left_over comm_size" "rank = 2 * u + 1" and pc: "ar_pc s rank \<noteq> 0"
    and m: "m = ar_mem s"
  shows "ar_cell_inv adds a comm_size cnt m0 j m ((ar_pc s)(rank := Suc (ar_pc s rank)))"
  using cell_passive[OF ar_turnD(11)[OF t, unfolded ar_cell_inv_def] u(1), of "Suc (ar_pc s rank)"] u(2) pc
  by (simp add: ar_cell_inv_def m)

lemma turn_pre:
  assumes t: "ar_turn adds a comm_size cnt m0 s rank j" and pc: "ar_pc s rank = 0"
  shows "ar_cell_inv adds a comm_size cnt m0 j (ar_action adds a comm_size rank Pre_Reduce (ar_mem s))
           ((ar_pc s)(rank := Suc (ar_pc s rank)))"
proof -
  note sz = ar_turnD(1,2)[OF t]
  note N = left_over_less[OF sz]
  have rN: "rank < 2 ^ nsteps comm_size + left_over comm_size" using ar_turnD(9)[OF t] N by simp
  have v: "v < 2 ^ 30 \<and> 2 * v < comm_size" if "v < left_over comm_size" for v
    using that N sz(2) by (auto simp: KUPL_SHM_COMM_MAX_SIZE_def)
  note pre = pre_reduce_cell[where m = "ar_mem s", OF ar_turnD(4-8)[OF t] _ ar_turn_mem(2)[OF t]]
  show ?thesis
    unfolding ar_cell_inv_def
  proof (rule cell_pre[OF ar_turnD(10,11)[OF t, unfolded ar_cell_inv_def] rN pc N(1)], goal_cases)
    case (1 u)
    thus ?case using v[of u] pre(1)[of u adds] ar_turn_mem(3)[OF t]
      by (auto simp: ar_action_def fun_eq_iff ar_cells_def pre_sum_def ar_turnD(4)[OF t] ar_turn_mem(1)[OF t])
  next
    case (2 u)
    thus ?case using v[of u] pre(2)[of u adds] ar_turn_mem(3)[OF t]
      by (auto simp: ar_action_def fun_eq_iff ar_cells_def pre_sum_def ar_turnD(4)[OF t] ar_turn_mem(1)[OF t])
  next
    case 3
    thus ?case using ar_turn_mem(3)[OF t] by (simp add: ar_action_def)
  qed
qed

lemma turn_reduce:
  assumes t: "ar_turn adds a comm_size cnt m0 s rank j"
    and k: "k < nsteps comm_size" "ar_pc s rank = k + 2"
  shows "ar_cell_inv adds a comm_size cnt m0 j (ar_action adds a comm_size rank (Reduce_Round k) (ar_mem s))
           ((ar_pc s)(rank := Suc (ar_pc s rank)))"
proof -
  note sz = ar_turnD(1,2)[OF t]
  let ?m = "left_over comm_size"
  from rank_cases[OF sz ar_turnD(9)[OF t]] show ?thesis
  proof cases
    case (1 v)
    have pc: "ar_pc s (rk ?m v) = k + 2" "k + 2 \<le> ar_pc s (rk ?m (flip_bit k v))"
      using ar_turnD(12)[OF t] 1 k by (auto simp: may_pass_def)
    have len: "length (ar_mem s (Recvbuf (rk ?m v))) = cnt"
      using ar_turn_mem(2)[OF t] ar_turnD(9)[OF t] 1 by simp
    show ?thesis
      unfolding 1(2) ar_cell_inv_def
      by (rule cell_reduce[OF ar_turnD(10,11)[OF t, unfolded ar_cell_inv_def] 1(1) k(1) pc ar_cells_single])
        (use 1 reduce_round_cell[where m = "ar_mem s", OF sz 1(1) k(1) ar_turnD(4-8)[OF t] len, of adds]
         in \<open>auto simp: ar_action_def src_buf_def ar_turn_mem(1)[OF t]\<close>)
  next
    case (2 u)
    thus ?thesis using turn_passive[OF t 2(1,2)] k by (simp add: ar_action_def)
  qed
qed

lemma turn_gather:
  assumes t: "ar_turn adds a comm_size cnt m0 s rank j"
    and k: "k < nsteps comm_size" "ar_pc s rank = 2 * nsteps comm_size + 1 - k"
  shows "ar_cell_inv adds a comm_size cnt m0 j (ar_action adds a comm_size rank (Gather_Round k) (ar_mem s))
           ((ar_pc s)(rank := Suc (ar_pc s rank)))"
proof -
  note sz = ar_turnD(1,2)[OF t]
  let ?m = "left_over comm_size" and ?n = "nsteps comm_size"
  from rank_cases[OF sz ar_turnD(9)[OF t]] show ?thesis
  proof cases
    case (1 v)
    have pc: "ar_pc s (rk ?m v) = 2 * ?n + 1 - k" "2 * ?n + 1 - k \<le> ar_pc s (rk ?m (flip_bit k v))"
      using ar_turnD(12)[OF t] 1 k by (auto simp: may_pass_def)
    have len: "length (ar_mem s (Recvbuf (rk ?m v))) = cnt"
      using ar_turn_mem(2)[OF t] ar_turnD(9)[OF t] 1 by simp
    show ?thesis
      unfolding 1(2) ar_cell_inv_def
      by (rule cell_gather[OF ar_turnD(11)[OF t, unfolded ar_cell_inv_def] 1(1) k(1) pc])
        (use 1 gather_round_cell[where m = "ar_mem s", OF sz 1(1) k(1) ar_turnD(4-8)[OF t] len] in \<open>simp add: ar_action_def\<close>)
  next
    case (2 u)
    thus ?thesis using turn_passive[OF t 2(1,2)] k by (simp add: ar_action_def)
  qed
qed

lemma turn_post:
  assumes t: "ar_turn adds a comm_size cnt m0 s rank j" and pc: "ar_pc s rank = 2 * nsteps comm_size + 2"
  shows "ar_cell_inv adds a comm_size cnt m0 j (ar_action adds a comm_size rank Post_Gather (ar_mem s))
           ((ar_pc s)(rank := Suc (ar_pc s rank)))"
proof -
  note sz = ar_turnD(1,2)[OF t]
  let ?m = "left_over comm_size" and ?n = "nsteps comm_size"
  note N = left_over_less[OF sz]
  have len: "length (ar_mem s (Recvbuf (2 * v + 1))) = cnt" if "v < ?m" for v
    by (rule ar_turn_mem(2)[OF t]) (use that N in simp)
  note post = post_cell[where m = "ar_mem s", OF ar_turnD(4,6,7,8)[OF t] len]
  from rank_cases[OF sz ar_turnD(9)[OF t]] show ?thesis
  proof cases
    case (1 v)
    show ?thesis
      unfolding 1(2) ar_cell_inv_def
    proof (rule cell_post[OF ar_turnD(11)[OF t, unfolded ar_cell_inv_def] 1(1) nsteps_spec(3)[OF sz] N(1)])
      show "ar_pc s (rk ?m v) = 2 * ?n + 2" using pc 1 by simp
      show "ar_action adds a comm_size (rk ?m v) Post_Gather (ar_mem s) (Recvbuf q) ! j =
          (if v < ?m \<and> q = 2 * v + 1 then ar_mem s (Recvbuf (2 * v)) ! j else ar_mem s (Recvbuf q) ! j)" for q
        using 1 ar_turn_mem(3)[OF t] post(1)[of v] by (cases "v < ?m") (simp_all add: ar_action_def rk_def)
    qed
  next
    case (2 u)
    thus ?thesis using turn_passive[OF t 2(1,2)] pc post(2)[OF 2(1)] by (simp add: ar_action_def)
  qed
qed

lemma turn_fence:
  assumes t: "ar_turn adds a comm_size cnt m0 s rank j"
    and pc: "ar_pc s rank = 1 \<or> ar_pc s rank = 2 * nsteps comm_size + 3"
  shows "ar_cell_inv adds a comm_size cnt m0 j (ar_mem s) ((ar_pc s)(rank := Suc (ar_pc s rank)))"
proof -
  note sz = ar_turnD(1,2)[OF t]
  note n0 = nsteps_spec(3)[OF sz]
  note inv = ar_turnD(11)[OF t, unfolded ar_cell_inv_def]
  from pc show ?thesis
  proof
    assume "ar_pc s rank = 1"
    from cell_fence1[OF ar_turnD(10)[OF t] inv ar_turnD(12)[OF t] this left_over_less(1)[OF sz] n0]
    show ?thesis by (simp add: ar_cell_inv_def)
  next
    assume p: "ar_pc s rank = 2 * nsteps comm_size + 3"
    from rank_cases[OF sz ar_turnD(9)[OF t]] show ?thesis
    proof cases
      case (1 v)
      thus ?thesis using cell_fence2[OF inv 1(1) n0] p by (simp add: ar_cell_inv_def)
    next
      case (2 u)
      thus ?thesis using turn_passive[OF t 2(1,2)] p by simp
    qed
  qed
qed

lemma turn_step:
  assumes t: "ar_turn adds a comm_size cnt m0 s rank j"
  shows "ar_cell_inv adds a comm_size cnt m0 j
           (ar_action adds a comm_size rank (ar_phase_of a comm_size (ar_pc s rank)) (ar_mem s))
           ((ar_pc s)(rank := Suc (ar_pc s rank)))"
proof -
  have "ar_pc s rank < 2 * nsteps comm_size + 4" using ar_turnD(12)[OF t] by (simp add: may_pass_def)
  from phase_cases[OF ar_turnD(1-3)[OF t] this] show ?thesis
  proof cases
    case 1 thus ?thesis using turn_pre[OF t] by simp
  next
    case 2 thus ?thesis using turn_fence[OF t] by (simp add: ar_action_def)
  next
    case (3 k) thus ?thesis using turn_reduce[OF t] by simp
  next
    case (4 k) thus ?thesis using turn_gather[OF t] by simp
  next
    case 5 thus ?thesis using turn_post[OF t] by simp
  next
    case 6 thus ?thesis using turn_fence[OF t] by (simp add: ar_action_def)
  qed
qed

section \<open>Runs\<close>

lemma ar_step_inv:
  assumes v: "ar_valid a comm_size m0" and sz: "1 < comm_size" and algo: "ar_algo a \<noteq> ALGO_LINEAR"
    and inv: "ar_inv adds a comm_size m0 s"
  shows "ar_inv adds a comm_size m0 (ar_step adds a comm_size rank s)"
proof (cases "rank < comm_size \<and> ar_ready a comm_size (ar_pc s) rank")
  case False
  thus ?thesis using inv by (auto simp: ar_step_def)
next
  case True
  obtain cnt where c: "ar_count a = int cnt" "0 < cnt" "cnt < 2 ^ 31"
    "\<And>q. q < comm_size \<Longrightarrow> length (m0 (Sendbuf q)) = cnt \<and> length (m0 (Recvbuf q)) = cnt"
    using ar_valid_count[OF v] by blast
  have mx: "comm_size \<le> KUPL_SHM_COMM_MAX_SIZE" "ar_type_fits a"
    using v by (auto simp: ar_valid_def)
  have t: "ar_turn adds a comm_size cnt m0 s rank j" if "j < cnt" for j
    using that c mx sz algo True inv by (simp add: ar_turn_def)
  have "ar_fences (nsteps comm_size) (left_over comm_size) ((ar_pc s)(rank := Suc (ar_pc s rank)))"
    using fences_step ar_turnD(10,12)[OF t[OF c(2)]] by blast
  moreover have "cell_inv (adds (ar_datatype a)) cnt j (nsteps comm_size) (left_over comm_size)
      (ar_cells adds a comm_size m0 j)
      (\<lambda>q. ar_action adds a comm_size rank (ar_phase_of a comm_size (ar_pc s rank)) (ar_mem s) (Recvbuf q) ! j)
      ((ar_pc s)(rank := Suc (ar_pc s rank)))" if "j < cnt" for j
    using turn_step[OF t[OF that]] by (simp add: ar_cell_inv_def)
  ultimately show ?thesis using inv True c(1) by (simp add: ar_step_def ar_inv_def)
qed

lemma ar_inv_init: "ar_inv adds a comm_size m0 \<lparr>ar_mem = m0, ar_pc = \<lambda>q. 0\<rparr>"
  by (simp add: ar_inv_def ar_fences_def cell_inv_def cell_known_def)

lemma ar_run_inv:
  assumes "ar_valid a comm_size m0" "1 < comm_size" "ar_algo a \<noteq> ALGO_LINEAR"
  shows "ar_inv adds a comm_size m0 (kupl_do_allreduce adds a comm_size m0 sched)"
proof -
  have "ar_inv adds a comm_size m0 s \<Longrightarrow> ar_inv adds a comm_size m0 (fold (ar_step adds a comm_size) sched s)" for s
    by (induction sched arbitrary: s) (simp_all add: ar_step_inv[OF assms])
  thus ?thesis using ar_inv_init[of adds a comm_size m0] by (simp add: kupl_do_allreduce_def)
qed

text \<open>At the end every rank holds the total, the ranks without rounds by the final copy.\<close>

lemma ar_done_total:
  assumes v: "ar_valid a comm_size m0" "1 < comm_size" "ar_algo a \<noteq> ALGO_LINEAR"
    and fin: "ar_all_done a comm_size (kupl_do_allreduce adds a comm_size m0 sched)"
    and r: "rank < comm_size" and j: "j < nat (ar_count a)"
  shows "ar_mem (kupl_do_allreduce adds a comm_size m0 sched) (Recvbuf rank) ! j =
         cell_total (adds (ar_datatype a)) (ar_cells adds a comm_size m0 j) (nat (ar_count a)) j (nsteps comm_size)"
proof -
  let ?s = "kupl_do_allreduce adds a comm_size m0 sched" and ?n = "nsteps comm_size"
  have sz: "1 < comm_size" "comm_size \<le> KUPL_SHM_COMM_MAX_SIZE" using v by (auto simp: ar_valid_def)
  note N = left_over_less[OF sz]
  have c: "cell_inv (adds (ar_datatype a)) (nat (ar_count a)) j ?n (left_over comm_size)
      (ar_cells adds a comm_size m0 j) (\<lambda>q. ar_mem ?s (Recvbuf q) ! j) (ar_pc ?s)"
    using ar_run_inv[OF v, of adds sched] j by (simp add: ar_inv_def)
  have e: "2 * ?n + 4 \<le> ar_pc ?s q" if "q < comm_size" for q
    using fin that v(2,3) by (simp add: ar_all_done_def ar_end_def)
  from rank_cases[OF sz r] show ?thesis
  proof cases
    case (1 v)
    have p: "2 * ?n + 2 \<le> ar_pc ?s (rk (left_over comm_size) v)" using e[OF r] 1 by simp
    show ?thesis
      using cell_invD(1)[OF c 1(1)] cell_end(2)[OF 1(1) nsteps_spec(3)[OF sz] p] 1
        cell_end(1)[where add = "adds (ar_datatype a)" and x = "ar_cells adds a comm_size m0 j"
          and cnt = "nat (ar_count a)" and j = j, OF 1(1) nsteps_spec(3)[OF sz] p]
      by simp
  next
    case (2 v)
    have "2 * v < comm_size" using 2 N by simp
    thus ?thesis using cell_invD(4)[OF c 2(1)] e[of "2 * v"] 2 by simp
  qed
qed

section \<open>The linear algorithm\<close>

definition linear_val :: "('a \<Rightarrow> 'a \<Rightarrow> 'a) \<Rightarrow> nat \<Rightarrow> nat \<Rightarrow> (nat \<Rightarrow> 'a) \<Rightarrow> 'a" where
  "linear_val add comm_size rank S =
     fold (\<lambda>i acc. if rank = i then acc else add acc (S i)) [0..<comm_size] (S rank)"

lemma linear_sum_fold:
  assumes a: "ar_count a = int cnt" "cnt < 2 ^ 31" "ar_datatype a \<noteq> DT_OTHER" "j < cnt"
    and len: "length (m (Recvbuf rank)) = cnt" and S: "\<And>q. m (Sendbuf q) ! j = S q"
  shows "linear_sum adds a comm_size rank m (Recvbuf rank) ! j
         = fold (\<lambda>i acc. if rank = i then acc else adds (ar_datatype a) acc (S i)) [0..<comm_size]
             (m (Recvbuf rank) ! j)"
proof -
  let ?f = "\<lambda>i m. if rank = i then m
          else dispatch_by_datatype adds (ar_datatype a) (Recvbuf rank) (Recvbuf rank) (Sendbuf i) 0
                 (of_int (ar_count a)) m"
  have cnt: "unat (0 + of_int (int cnt) :: u32) = cnt"
    using a(2) by (simp add: unat_of_nat take_bit_nat_eq_self)
  have "length (m (Recvbuf rank)) = cnt \<Longrightarrow> (\<And>q. m (Sendbuf q) ! j = S q) \<Longrightarrow>
      fold ?f is m (Recvbuf rank) ! j =
      fold (\<lambda>i acc. if rank = i then acc else adds (ar_datatype a) acc (S i)) is (m (Recvbuf rank) ! j)" for "is" m
  proof (induction "is" arbitrary: m)
    case (Cons i "is")
    show ?case
    proof (cases "rank = i")
      case True
      thus ?thesis using Cons by simp
    next
      case False
      have "?f i m (Recvbuf rank) ! j = adds (ar_datatype a) (m (Recvbuf rank) ! j) (S i)"
        using False Cons.prems a cnt by (simp add: dispatch_by_datatype_def reduce_op_cell)
      moreover have "length (?f i m (Recvbuf rank)) = cnt" using Cons.prems(1) False by simp
      moreover have "\<And>q. ?f i m (Sendbuf q) ! j = S q" using Cons.prems(2) by (simp add: dispatch_other)
      ultimately show ?thesis using Cons.IH[of "?f i m"] False by simp
    qed
  qed simp
  from this[OF len S] show ?thesis by (simp add: linear_sum_def)
qed

lemma linear_sum_cell:
  assumes a: "ar_count a = int cnt" "cnt < 2 ^ 31" "ar_datatype a \<noteq> DT_OTHER" "j < cnt"
    and len: "length (m (Recvbuf rank)) = cnt"
    and S: "\<And>q. m (Sendbuf q) ! j = S q" and own: "m (Recvbuf rank) ! j = S rank"
  shows "linear_sum adds a comm_size rank m (Recvbuf rank) ! j
         = linear_val (adds (ar_datatype a)) comm_size rank S"
  using linear_sum_fold[OF a len S, where adds = adds and comm_size = comm_size] own
  by (simp add: linear_val_def)

text \<open>The runs in which every rank writes its own buffer alone.\<close>

definition solo :: "ar_args \<Rightarrow> nat \<Rightarrow> bool" where
  "solo a comm_size \<longleftrightarrow> ar_algo a = ALGO_LINEAR \<or> comm_size = 1"

definition solo_inv ::
  "(shm_datatype \<Rightarrow> 'a \<Rightarrow> 'a \<Rightarrow> 'a) \<Rightarrow> ar_args \<Rightarrow> nat \<Rightarrow> 'a shm_mem \<Rightarrow> 'a ar_state \<Rightarrow> bool" where
  "solo_inv adds a comm_size m0 s \<longleftrightarrow>
     (\<forall>q. ar_mem s (Sendbuf q) = m0 (Sendbuf q)) \<and>
     (\<forall>c. length (ar_mem s c) = length (m0 c)) \<and>
     (\<forall>r < comm_size. \<forall>j < nat (ar_count a).
        (ar_algo a = ALGO_LINEAR \<and> 1 \<le> ar_pc s r \<and> ar_pc s r \<le> 2 \<longrightarrow>
           ar_mem s (Recvbuf r) ! j = m0 (Sendbuf r) ! j) \<and>
        ((if ar_algo a = ALGO_LINEAR then 3 else 1) \<le> ar_pc s r \<longrightarrow>
           ar_mem s (Recvbuf r) ! j =
           linear_val (adds (ar_datatype a)) comm_size r (\<lambda>q. m0 (Sendbuf q) ! j)))"

lemma solo_phases:
  assumes "solo a comm_size" "ar_ready a comm_size pc rank"
  obtains "pc rank = 0" "ar_phase_of a comm_size (pc rank) = Copy_Self"
  | "ar_algo a = ALGO_LINEAR" "pc rank = 2" "ar_phase_of a comm_size (pc rank) = Linear_Sum"
  | "ar_algo a = ALGO_LINEAR" "pc rank = 1 \<or> pc rank = 3" "ar_phase_of a comm_size (pc rank) = Fence_All"
proof (cases "ar_algo a = ALGO_LINEAR")
  case True
  have "pc rank < 4" using assms(2) True by (auto simp: ar_ready_def ar_phase_of_if split: if_splits)
  hence "pc rank = 0 \<or> pc rank = 2 \<or> pc rank = 1 \<or> pc rank = 3" by arith
  thus thesis using that True by (auto simp: ar_phase_of_if)
next
  case False
  have "pc rank = 0" using assms False by (auto simp: solo_def ar_ready_def ar_phase_of_if split: if_splits)
  thus thesis using that(1) False assms(1) by (auto simp: solo_def ar_phase_of_if)
qed

lemma linear_val_single [simp]: "linear_val add (Suc 0) 0 S = S 0"
  by (simp add: linear_val_def)

lemma solo_other:
  assumes "solo a comm_size" "ar_ready a comm_size pc rank" "q \<noteq> rank"
  shows "ar_action adds a comm_size rank (ar_phase_of a comm_size (pc rank)) m (Recvbuf q) = m (Recvbuf q)"
  using solo_phases[OF assms(1,2)]
  by cases (use assms(3) in \<open>simp_all add: ar_action_def copy_other linear_sum_other\<close>)

lemma solo_step:
  assumes v: "ar_valid a comm_size m0" "solo a comm_size" and inv: "solo_inv adds a comm_size m0 s"
  shows "solo_inv adds a comm_size m0 (ar_step adds a comm_size rank s)"
proof (cases "rank < comm_size \<and> ar_ready a comm_size (ar_pc s) rank")
  case False
  thus ?thesis using inv by (auto simp: ar_step_def)
next
  case True
  obtain cnt where c: "ar_count a = int cnt" "0 < cnt" "cnt < 2 ^ 31"
    "\<And>q. q < comm_size \<Longrightarrow> length (m0 (Sendbuf q)) = cnt \<and> length (m0 (Recvbuf q)) = cnt"
    using ar_valid_count[OF v(1)] by blast
  have dt: "ar_datatype a \<noteq> DT_OTHER" using v(1) by (simp add: ar_valid_def ar_type_fits_def)
  let ?ph = "ar_phase_of a comm_size (ar_pc s rank)" and ?mem = "ar_mem s"
  let ?m = "ar_action adds a comm_size rank ?ph ?mem"
  have old: "\<And>q. ?mem (Sendbuf q) = m0 (Sendbuf q)" "\<And>c. length (?mem c) = length (m0 c)"
    "\<And>r j. r < comm_size \<Longrightarrow> j < cnt \<Longrightarrow> ar_algo a = ALGO_LINEAR \<Longrightarrow> 1 \<le> ar_pc s r \<Longrightarrow> ar_pc s r \<le> 2 \<Longrightarrow>
       ?mem (Recvbuf r) ! j = m0 (Sendbuf r) ! j"
    "\<And>r j. r < comm_size \<Longrightarrow> j < cnt \<Longrightarrow> (if ar_algo a = ALGO_LINEAR then 3 else 1) \<le> ar_pc s r \<Longrightarrow>
       ?mem (Recvbuf r) ! j = linear_val (adds (ar_datatype a)) comm_size r (\<lambda>q. m0 (Sendbuf q) ! j)"
    using inv c(1) by (auto simp: solo_inv_def)
  have len: "length (?mem (Recvbuf rank)) = cnt" using old(2) c(4) True by simp
  have new: "(ar_algo a = ALGO_LINEAR \<and> 1 \<le> Suc (ar_pc s rank) \<and> Suc (ar_pc s rank) \<le> 2 \<longrightarrow>
         ?m (Recvbuf rank) ! j = m0 (Sendbuf rank) ! j) \<and>
      ((if ar_algo a = ALGO_LINEAR then 3 else 1) \<le> Suc (ar_pc s rank) \<longrightarrow>
         ?m (Recvbuf rank) ! j = linear_val (adds (ar_datatype a)) comm_size rank (\<lambda>q. m0 (Sendbuf q) ! j))"
    if j: "j < cnt" for j
  proof -
    from solo_phases[OF v(2) conjunct2[OF True]] show ?thesis
    proof cases
      case 1
      have "?m (Recvbuf rank) ! j = m0 (Sendbuf rank) ! j"
        using 1 j len old(1) by (simp add: ar_action_def copy_elems_cell c(1))
      thus ?thesis using 1 v(2) True by (auto simp: solo_def)
    next
      case 2
      have "?m (Recvbuf rank) ! j = linear_val (adds (ar_datatype a)) comm_size rank (\<lambda>q. m0 (Sendbuf q) ! j)"
        unfolding 2(3) using linear_sum_cell[where m = ?mem and rank = rank, OF c(1,3) dt j len, of "\<lambda>q. m0 (Sendbuf q) ! j" adds comm_size]
          old(1,3) 2 True j by (simp add: ar_action_def)
      thus ?thesis using 2 by simp
    next
      case 3
      thus ?thesis using old(3,4)[of rank j] True j by (auto simp: ar_action_def)
    qed
  qed
  show ?thesis
    unfolding solo_inv_def
  proof (intro conjI allI impI, goal_cases)
    case (3 r j)
    thus ?case using new[of j] old(3)[of r j] solo_other[OF v(2) conjunct2[OF True], of r adds ?mem] True c(1)
      by (cases "r = rank") (simp_all add: ar_step_def)
  next
    case (4 r j)
    thus ?case using new[of j] old(4)[of r j] solo_other[OF v(2) conjunct2[OF True], of r adds ?mem] True c(1)
      by (cases "r = rank") (simp_all add: ar_step_def)
  qed (use old(1,2) True in \<open>simp_all add: ar_step_def\<close>)
qed

lemma solo_run_inv:
  assumes "ar_valid a comm_size m0" "solo a comm_size"
  shows "solo_inv adds a comm_size m0 (kupl_do_allreduce adds a comm_size m0 sched)"
proof -
  have "solo_inv adds a comm_size m0 s \<Longrightarrow> solo_inv adds a comm_size m0 (fold (ar_step adds a comm_size) sched s)" for s
    by (induction sched arbitrary: s) (simp_all add: solo_step[OF assms])
  moreover have "solo_inv adds a comm_size m0 \<lparr>ar_mem = m0, ar_pc = \<lambda>q. 0\<rparr>" by (simp add: solo_inv_def)
  ultimately show ?thesis by (simp add: kupl_do_allreduce_def)
qed

lemma solo_done:
  assumes "ar_valid a comm_size m0" "solo a comm_size"
    and "ar_all_done a comm_size (kupl_do_allreduce adds a comm_size m0 sched)"
    and "rank < comm_size" "j < nat (ar_count a)"
  shows "ar_mem (kupl_do_allreduce adds a comm_size m0 sched) (Recvbuf rank) ! j =
         linear_val (adds (ar_datatype a)) comm_size rank (\<lambda>q. m0 (Sendbuf q) ! j)"
  using solo_run_inv[OF assms(1,2), of adds sched] assms(3-5) assms(2)
  by (auto simp: solo_inv_def ar_all_done_def ar_end_def solo_def split: if_splits)

end
