(* ===== verification/Kupl_Allreduce_Safety.thy ===== *)
theory Kupl_Allreduce_Safety
  imports Kupl_Allreduce_Run
begin

text \<open>
  The properties of the collective sum over all interleavings of the ranks: the result of the
  recursive and of the linear algorithm, that all ranks get identical results whatever the
  addition, and that the ranks never block each other for good.
\<close>

section \<open>Sums\<close>

lemma finite_block: "finite {u :: nat. drop_bit k u = d}"
proof (rule finite_subset)
  show "{u. drop_bit k u = d} \<subseteq> {..< Suc d * 2 ^ k}"
    by (auto simp: drop_bit_eq_div) (metis dividend_less_div_times zero_less_numeral zero_less_power)
qed simp

lemma part_sum_block:
  "part_sum (+) x v k = sum x {u. drop_bit k u = drop_bit k v}" for x :: "nat \<Rightarrow> 'a :: comm_monoid_add"
proof (induction k arbitrary: v)
  case (Suc k)
  show ?case
    using Suc.IH[of v] Suc.IH[of "flip_bit k v"]
      sum.union_disjoint[OF finite_block finite_block block_Suc(2)[of k v], of x]
    by (simp only: part_sum.simps block_Suc(1))
qed simp

lemma pair_sum: "(\<Sum>v < m. S (2 * v) + S (2 * v + 1)) = sum S {..< 2 * m}"
  for S :: "nat \<Rightarrow> 'a :: comm_monoid_add"
  by (induction m) (simp_all add: ac_simps lessThan_Suc)

lemma pre_sum_total:
  fixes S :: "nat \<Rightarrow> 'a :: comm_monoid_add"
  assumes "m \<le> p"
  shows "(\<Sum>v < p. pre_sum (+) cnt j m S v) = sum S {..< p + m}"
proof -
  have "(\<Sum>v < p. pre_sum (+) cnt j m S v) =
        (\<Sum>v < m. pre_sum (+) cnt j m S v) + (\<Sum>v \<in> {m..<p}. pre_sum (+) cnt j m S v)"
    using assms by (subst sum.union_disjoint[symmetric]) (auto simp: ivl_disj_un)
  also have "(\<Sum>v < m. pre_sum (+) cnt j m S v) = (\<Sum>v < m. S (2 * v) + S (2 * v + 1))"
    by (rule sum.cong) (auto simp: pre_sum_def add.commute)
  also have "\<dots> = sum S {..< 2 * m}" by (rule pair_sum)
  also have "(\<Sum>v \<in> {m..<p}. pre_sum (+) cnt j m S v) = (\<Sum>v \<in> {m..<p}. S (v + m))"
    by (rule sum.cong) (auto simp: pre_sum_def)
  also have "\<dots> = sum S {2 * m..<p + m}"
    using sum.shift_bounds_nat_ivl[of S m m p] by (simp add: mult_2)
  also have "sum S {..< 2 * m} + \<dots> = sum S {..< p + m}"
    using assms by (subst sum.union_disjoint[symmetric]) (auto simp: ivl_disj_un)
  finally show ?thesis .
qed

lemma cell_total_sum:
  fixes S :: "nat \<Rightarrow> 'a :: comm_monoid_add"
  assumes "m < 2 ^ n"
  shows "cell_total (+) (pre_sum (+) cnt j m S) cnt j n = sum S {..< 2 ^ n + m}"
proof -
  have "{u. drop_bit n u = drop_bit n (elem_code cnt j n)} = {..< 2 ^ n}"
    using elem_code_less[of cnt j n] by (auto simp: drop_bit_eq_div div_eq_0_iff)
  thus ?thesis using pre_sum_total[of m "2 ^ n" cnt j S] assms
    by (simp add: cell_total_def part_sum_block)
qed

lemma linear_val_sum:
  fixes S :: "nat \<Rightarrow> 'a :: comm_monoid_add"
  assumes "rank < comm_size"
  shows "linear_val (+) comm_size rank S = sum S {..< comm_size}"
proof -
  have "fold (\<lambda>i acc. if rank = i then acc else acc + S i) is c = c + (\<Sum>i \<leftarrow> is. if rank = i then 0 else S i)"
    for "is" c by (induction "is" arbitrary: c) (auto simp: ac_simps)
  hence "linear_val (+) comm_size rank S = S rank + (\<Sum>i \<leftarrow> [0..<comm_size]. if rank = i then 0 else S i)"
    by (simp add: linear_val_def)
  also have "(\<Sum>i \<leftarrow> [0..<comm_size]. if rank = i then 0 else S i) = (\<Sum>i < comm_size. if rank = i then 0 else S i)"
    by (simp add: interv_sum_list_conv_sum_set_nat atLeast0LessThan)
  also have "\<dots> = sum S ({..< comm_size} - {rank})"
    by (rule sum.mono_neutral_cong_right) auto
  also have "S rank + \<dots> = sum S {..< comm_size}"
    using assms by (subst sum.remove[of _ rank S]) auto
  finally show ?thesis .
qed

section \<open>Progress\<close>

lemma ar_dest_less:
  assumes "1 < comm_size" "comm_size \<le> KUPL_SHM_COMM_MAX_SIZE" "rank < comm_size"
    and "ar_vrank comm_size rank \<noteq> - 1" "k < nsteps comm_size"
  shows "ar_dest comm_size rank k < comm_size"
  using rank_cases[OF assms(1-3)]
proof cases
  case (1 v)
  note N = left_over_less[OF assms(1,2)]
  show ?thesis
    using ar_dest_rk(2)[OF assms(1,2) 1(1) assms(5)] rk_less[OF flip_less[OF 1(1) assms(5)] N(1)] 1(2) N(2)
    by simp
next
  case (2 v)
  thus ?thesis using assms(4) by simp
qed

text \<open>A rank that is not ahead of any other can go on.\<close>

lemma least_ready:
  assumes v: "ar_valid a comm_size m" and r: "rank < comm_size" "pc rank < ar_end a comm_size"
    and least: "\<And>q. q < comm_size \<Longrightarrow> pc rank \<le> pc q"
  shows "ar_ready a comm_size pc rank"
proof (cases "solo a comm_size")
  case True
  thus ?thesis using r(2) least
    by (cases "ar_algo a = ALGO_LINEAR") (auto simp: ar_ready_def ar_phase_of_if ar_end_def solo_def)
next
  case False
  hence sz: "1 < comm_size" "comm_size \<le> KUPL_SHM_COMM_MAX_SIZE" and algo: "ar_algo a \<noteq> ALGO_LINEAR"
    using v by (auto simp: solo_def ar_valid_def)
  have "pc rank < 2 * nsteps comm_size + 4" using r(2) sz algo by (simp add: ar_end_def)
  from phase_cases[OF sz algo this] show ?thesis
    by cases (use least ar_dest_less[OF sz r(1)] in \<open>simp_all add: ar_ready_def\<close>)
qed

lemma ar_step_mono: "ar_pc s q \<le> ar_pc (ar_step adds a comm_size rank s) q"
  by (simp add: ar_step_def)

lemma ar_steps_mono: "ar_pc s q \<le> ar_pc (fold (ar_step adds a comm_size) sched s) q"
  by (induction sched arbitrary: s) (auto intro: order_trans[OF ar_step_mono])

lemma ar_round_progress:
  assumes v: "ar_valid a comm_size m" and low: "\<And>q. q < comm_size \<Longrightarrow> min k (ar_end a comm_size) \<le> ar_pc s q"
  shows "q < comm_size \<Longrightarrow> q \<in> set sched \<Longrightarrow>
     min (Suc k) (ar_end a comm_size) \<le> ar_pc (fold (ar_step adds a comm_size) sched s) q"
  using low
proof (induction sched arbitrary: s)
  case (Cons r sched)
  let ?s = "ar_step adds a comm_size r s"
  have low': "min k (ar_end a comm_size) \<le> ar_pc ?s q" if "q < comm_size" for q
    using Cons.prems(3)[OF that] ar_step_mono[of s q adds a comm_size r] by linarith
  show ?case
  proof (cases "q \<in> set sched")
    case True
    thus ?thesis using Cons.IH[OF Cons.prems(1) True low'] by simp
  next
    case False
    hence q: "q = r" using Cons.prems(2) by simp
    have "min (Suc k) (ar_end a comm_size) \<le> ar_pc ?s r"
    proof (cases "min (Suc k) (ar_end a comm_size) \<le> ar_pc s r")
      case True
      thus ?thesis using ar_step_mono[of s r adds a comm_size r] by linarith
    next
      case le: False
      hence "ar_pc s r = k" "ar_pc s r < ar_end a comm_size" using Cons.prems(3)[of q] Cons.prems(1) q by auto
      moreover have "\<And>p. p < comm_size \<Longrightarrow> k \<le> ar_pc s p"
        using Cons.prems(3) le calculation by fastforce
      ultimately have "ar_ready a comm_size (ar_pc s) r"
        using least_ready[OF v, of r "ar_pc s"] Cons.prems(1) q by simp
      thus ?thesis using \<open>ar_pc s r = k\<close> Cons.prems(1) q by (simp add: ar_step_def)
    qed
    thus ?thesis using ar_steps_mono[of ?s r adds a comm_size sched] q by simp
  qed
qed simp

lemma ar_rounds_done:
  assumes "ar_valid a comm_size m" "ar_end a comm_size \<le> length rounds"
    and "\<forall>rd \<in> set rounds. {..< comm_size} \<subseteq> set rd"
  shows "ar_all_done a comm_size (kupl_do_allreduce adds a comm_size m (concat rounds))"
proof -
  have "(\<And>q. q < comm_size \<Longrightarrow> min k (ar_end a comm_size) \<le> ar_pc s q) \<Longrightarrow>
        (\<And>q. q < comm_size \<Longrightarrow> min (k + length rounds) (ar_end a comm_size) \<le>
             ar_pc (fold (ar_step adds a comm_size) (concat rounds) s) q)" for k s
    using assms(3)
  proof (induction rounds arbitrary: k s)
    case (Cons rd rounds)
    have "min (Suc k) (ar_end a comm_size) \<le> ar_pc (fold (ar_step adds a comm_size) rd s) q"
      if "q < comm_size" for q
      by (rule ar_round_progress[OF assms(1) Cons.prems(1) that]) (use Cons.prems(3) that in auto)
    from Cons.IH[of "Suc k", OF this Cons.prems(2)] Cons.prems(3) show ?case by simp
  qed simp
  from this[of 0 "\<lparr>ar_mem = m, ar_pc = \<lambda>q. 0\<rparr>"] assms(2)
  show ?thesis by (simp add: ar_all_done_def kupl_do_allreduce_def)
qed

section \<open>The properties\<close>

lemma solo_or_rounds: "ar_valid a comm_size m \<Longrightarrow> solo a comm_size \<or> 1 < comm_size \<and> ar_algo a \<noteq> ALGO_LINEAR"
  by (auto simp: solo_def ar_valid_def)

lemma ar_lengths:
  assumes "ar_valid a comm_size m" "rank < comm_size"
  shows "length (ar_mem (kupl_do_allreduce adds a comm_size m sched) (Recvbuf rank)) = nat (ar_count a)"
  using solo_or_rounds[OF assms(1)] solo_run_inv[OF assms(1), of adds sched]
    ar_run_inv[OF assms(1), of adds sched] assms
  by (auto simp: solo_inv_def ar_inv_def ar_valid_def)

lemma ar_done_sum:
  fixes m :: "'a :: comm_monoid_add shm_mem"
  assumes v: "ar_valid a comm_size m" and add: "adds (ar_datatype a) = (+)"
    and fin: "ar_all_done a comm_size (kupl_do_allreduce adds a comm_size m sched)"
    and r: "rank < comm_size" and j: "j < nat (ar_count a)"
  shows "ar_mem (kupl_do_allreduce adds a comm_size m sched) (Recvbuf rank) ! j
         = (\<Sum>q < comm_size. m (Sendbuf q) ! j)"
proof (cases "solo a comm_size")
  case True
  thus ?thesis using solo_done[OF v True fin r j] linear_val_sum[OF r] by (simp add: add)
next
  case False
  hence sz: "1 < comm_size" "comm_size \<le> KUPL_SHM_COMM_MAX_SIZE" and algo: "ar_algo a \<noteq> ALGO_LINEAR"
    using v by (auto simp: solo_def ar_valid_def)
  note N = left_over_less[OF sz]
  show ?thesis
    using ar_done_total[OF v sz(1) algo fin r j] cell_total_sum[OF N(1)] N(2)
    by (simp add: add ar_cells_def)
qed

text \<open>
  C33: The collective sum is right under every interleaving of the ranks: when all have finished, the receive
  buffer of every rank holds, element by element, the sum of the send buffers of all ranks. This holds for
  both algorithms, every number of ranks (not only powers of two) up to 1024, every number of elements (also
  less than ranks) in buffers below 2 GB, and every addition that is commutative and associative, such as
  those of the integer types.
\<close>

theorem allreduce_sum:
  fixes m :: "'a :: comm_monoid_add shm_mem"
  assumes "ar_valid a comm_size m" and "adds (ar_datatype a) = (+)"
    and "ar_all_done a comm_size (kupl_do_allreduce adds a comm_size m sched)"
    and "rank < comm_size"
  shows "ar_mem (kupl_do_allreduce adds a comm_size m sched) (Recvbuf rank)
         = map (\<lambda>j. \<Sum>q < comm_size. m (Sendbuf q) ! j) [0..<nat (ar_count a)]"
  using ar_lengths[OF assms(1,4), of adds sched] ar_done_sum[OF assms]
  by (intro nth_equalityI) simp_all

text \<open>Three ranks and four elements: one rank is left over, and one half is odd.\<close>

definition sum3_args :: ar_args where
  "sum3_args = \<lparr>ar_count = 4, ar_datatype = DT_LONG, ar_algo = ALGO_AUTO\<rparr>"

definition sum3_mem :: "int shm_mem" where
  "sum3_mem b = (case b of Sendbuf q \<Rightarrow> [1, int q, 10 * int q, 7] | Recvbuf q \<Rightarrow> [0, 0, 0, 0])"

lemma sum3_valid: "ar_valid sum3_args 3 sum3_mem"
  by (simp add: ar_valid_def ar_type_fits_def sum3_args_def sum3_mem_def KUPL_SHM_COMM_MAX_SIZE_def)

lemma sum3_nsteps: "nsteps 3 = 1"
  by (simp add: nsteps_def calc_hibit_def eval_nat_numeral)

lemma sum3_done:
  "ar_all_done sum3_args 3 (kupl_do_allreduce adds sum3_args 3 sum3_mem (concat (replicate 6 [2, 0, 1])))"
  by (rule ar_rounds_done[OF sum3_valid]) (auto simp: ar_end_def sum3_args_def sum3_nsteps)

theorem allreduce_sum_witness:
  "ar_mem (kupl_do_allreduce (\<lambda>_. (+)) sum3_args 3 sum3_mem (concat (replicate 6 [2, 0, 1]))) (Recvbuf 1)
   = [3, 3, 30, 21]"
  by (subst allreduce_sum[OF sum3_valid _ sum3_done])
    (simp_all add: sum3_args_def sum3_mem_def eval_nat_numeral)

text \<open>
  C35: With the default algorithm all ranks end with the same receive buffer, element by element and bit by
  bit, whatever the addition, in buffers below 2 GB: the result does not depend on the interleaving, and
  rounding of floating point numbers cannot make the ranks disagree.
\<close>

theorem allreduce_ranks_agree:
  assumes "ar_valid a comm_size m" and "ar_algo a \<noteq> ALGO_LINEAR"
    and "ar_all_done a comm_size (kupl_do_allreduce adds a comm_size m sched)"
    and "ar_all_done a comm_size (kupl_do_allreduce adds a comm_size m sched')"
    and "rank < comm_size" and "rank' < comm_size"
  shows "ar_mem (kupl_do_allreduce adds a comm_size m sched) (Recvbuf rank)
         = ar_mem (kupl_do_allreduce adds a comm_size m sched') (Recvbuf rank')"
proof (rule nth_equalityI)
  fix j
  assume "j < length (ar_mem (kupl_do_allreduce adds a comm_size m sched) (Recvbuf rank))"
  hence j: "j < nat (ar_count a)" using ar_lengths[OF assms(1,5), of adds sched] by simp
  show "ar_mem (kupl_do_allreduce adds a comm_size m sched) (Recvbuf rank) ! j
        = ar_mem (kupl_do_allreduce adds a comm_size m sched') (Recvbuf rank') ! j"
  proof (cases "comm_size = 1")
    case True
    hence "solo a comm_size" "rank = rank'" using assms(5,6) by (auto simp: solo_def)
    thus ?thesis using solo_done[OF assms(1) _ assms(3,5) j] solo_done[OF assms(1) _ assms(4,6) j] by simp
  next
    case False
    hence "1 < comm_size" using assms(5) by simp
    thus ?thesis
      using ar_done_total[OF assms(1) _ assms(2,3,5) j] ar_done_total[OF assms(1) _ assms(2,4,6) j] by simp
  qed
qed (use ar_lengths[OF assms(1)] assms(5,6) in simp)

theorem allreduce_ranks_agree_witness:
  "ar_mem (kupl_do_allreduce (\<lambda>_. (-)) sum3_args 3 sum3_mem (concat (replicate 6 [2, 0, 1]))) (Recvbuf 0)
   = ar_mem (kupl_do_allreduce (\<lambda>_. (-)) sum3_args 3 sum3_mem (concat (replicate 6 [2, 0, 1]))) (Recvbuf 2)"
  by (rule allreduce_ranks_agree[OF sum3_valid _ sum3_done sum3_done]) (simp_all add: sum3_args_def)



end
