(* ===== verification/Kupl_Allreduce_Race.thy ===== *)
theory Kupl_Allreduce_Race
  imports Kupl_Allreduce_Safety
begin

text \<open>
  The model lets a phase of a rank happen at once, while the ranks of the program read and write
  the shared buffers at the same time.  Here it is shown that this makes no difference: the
  elements a phase reads and writes are computed (\<open>ar_reads\<close>, \<open>ar_writes\<close>), no phase changes an
  element it does not write nor depends on one it does not read, and two ranks that can execute
  at the same time never touch a common element that one of them writes.
\<close>

section \<open>The elements a phase touches\<close>

type_synonym cell = "shm_buf \<times> nat"

definition offset_elems :: "u32 \<times> u32 \<Rightarrow> nat set" where
  "offset_elems se = (case se of (s, e) \<Rightarrow> {unat s..<unat (s + (e - s + 1))})"

definition pre_elems :: "ar_args \<Rightarrow> nat \<Rightarrow> nat set" where
  "pre_elems a rank = offset_elems (calc_offset (of_nat rank) (of_int (ar_count a)) 0)"

definition reduce_elems :: "ar_args \<Rightarrow> nat \<Rightarrow> nat \<Rightarrow> nat \<Rightarrow> nat set" where
  "reduce_elems a comm_size rank k =
     offset_elems (calc_offset (of_int (ar_vrank comm_size rank)) (of_int (ar_count a)) k)"

definition gather_elems :: "ar_args \<Rightarrow> nat \<Rightarrow> nat \<Rightarrow> nat \<Rightarrow> nat set" where
  "gather_elems a comm_size rank k =
     offset_elems (calc_offset (ar_vdest comm_size rank k) (of_int (ar_count a)) k)"

definition all_elems :: "ar_args \<Rightarrow> nat set" where
  "all_elems a = {..<nat (ar_count a)}"

definition ar_writes :: "ar_args \<Rightarrow> nat \<Rightarrow> nat \<Rightarrow> ar_phase \<Rightarrow> cell set" where
  "ar_writes a comm_size rank ph =
     (case ph of
        Copy_Self \<Rightarrow> {Recvbuf rank} \<times> all_elems a
      | Pre_Reduce \<Rightarrow>
          if int rank < 2 * nprocs_rem comm_size
          then {Recvbuf (rank - rank mod 2)} \<times> pre_elems a rank else {}
      | Reduce_Round k \<Rightarrow>
          if ar_vrank comm_size rank \<noteq> - 1 then {Recvbuf rank} \<times> reduce_elems a comm_size rank k else {}
      | Gather_Round k \<Rightarrow>
          if ar_vrank comm_size rank \<noteq> - 1 then {Recvbuf rank} \<times> gather_elems a comm_size rank k else {}
      | Post_Gather \<Rightarrow>
          if int rank < 2 * nprocs_rem comm_size \<and> rank mod 2 = 0
          then {Recvbuf (rank + 1)} \<times> all_elems a else {}
      | Linear_Sum \<Rightarrow> {Recvbuf rank} \<times> all_elems a
      | _ \<Rightarrow> {})"

definition ar_reads :: "ar_args \<Rightarrow> nat \<Rightarrow> nat \<Rightarrow> ar_phase \<Rightarrow> cell set" where
  "ar_reads a comm_size rank ph =
     (case ph of
        Copy_Self \<Rightarrow> {Sendbuf rank} \<times> all_elems a
      | Pre_Reduce \<Rightarrow>
          if int rank < 2 * nprocs_rem comm_size
          then {Sendbuf (rank - rank mod 2), Sendbuf (rank - rank mod 2 + 1)} \<times> pre_elems a rank else {}
      | Reduce_Round k \<Rightarrow>
          if ar_vrank comm_size rank \<noteq> - 1
          then {Sendbuf rank, Recvbuf rank, Sendbuf (ar_dest comm_size rank k),
                Recvbuf (ar_dest comm_size rank k)} \<times> reduce_elems a comm_size rank k
          else {}
      | Gather_Round k \<Rightarrow>
          if ar_vrank comm_size rank \<noteq> - 1
          then {Recvbuf (ar_dest comm_size rank k)} \<times> gather_elems a comm_size rank k else {}
      | Post_Gather \<Rightarrow>
          if int rank < 2 * nprocs_rem comm_size \<and> rank mod 2 = 0
          then {Recvbuf rank} \<times> all_elems a else {}
      | Linear_Sum \<Rightarrow> (insert (Recvbuf rank) (Sendbuf ` {..<comm_size})) \<times> all_elems a
      | _ \<Rightarrow> {})"

section \<open>A phase touches nothing else\<close>

lemma offset_elems_half:
  assumes "0 < cnt" "cnt < 2 ^ 31" "v < 2 ^ 31" "k < 31" "j < cnt"
  shows "j \<in> offset_elems (calc_offset (of_nat v) (of_nat cnt) k) \<longleftrightarrow>
         take_bit (Suc k) v = elem_code cnt j (Suc k)"
    and "offset_elems (calc_offset (of_nat v) (of_nat cnt) k) \<subseteq> {..<cnt}"
proof -
  obtain l h where lh: "half cnt v (Suc k) = (l, h)" by force
  obtain s e where se: "calc_offset (of_nat v) (of_nat cnt) k = (s, e)" by force
  have el: "offset_elems (calc_offset (of_nat v) (of_nat cnt) k) = {l..<h}"
    using calc_offset_range[OF assms(1-4) lh se] by (simp add: offset_elems_def se)
  show "j \<in> offset_elems (calc_offset (of_nat v) (of_nat cnt) k) \<longleftrightarrow>
         take_bit (Suc k) v = elem_code cnt j (Suc k)"
    using in_half_code[OF assms(5), of v "Suc k"] lh el by (simp add: in_half_def)
  show "offset_elems (calc_offset (of_nat v) (of_nat cnt) k) \<subseteq> {..<cnt}"
    using half_bounds[OF assms(1) lh] el by auto
qed

lemma dispatch_touch:
  assumes "0 < cnt" "cnt < 2 ^ 31" "v < 2 ^ 31" "k < 31" "length (m r) = cnt" "dt \<noteq> DT_OTHER"
    and "calc_offset (of_nat v) (of_nat cnt) k = (s, e)"
  shows "dispatch_by_datatype adds dt r b1 b2 s (e - s + 1) m c ! j =
         (if c = r \<and> j \<in> offset_elems (s, e) then adds dt (m b1 ! j) (m b2 ! j) else m c ! j)"
proof -
  obtain l h where lh: "half cnt v (Suc k) = (l, h)" by force
  note se = calc_offset_range[OF assms(1-4) lh assms(7)]
  have "h \<le> cnt" using half_bounds[OF assms(1) lh] by simp
  thus ?thesis using assms(5,6) se
    by (auto simp: dispatch_by_datatype_def reduce_op_cell offset_elems_def simp del: half.simps)
qed

lemma copy_touch:
  assumes "0 < cnt" "cnt < 2 ^ 31" "v < 2 ^ 31" "k < 31" "length (m d) = cnt"
    and "calc_offset (of_nat v) (of_nat cnt) k = (s, e)"
  shows "copy_elems d b (unat s) (unat (e - s + 1)) m c ! j =
         (if c = d \<and> j \<in> offset_elems (s, e) then m b ! j else m c ! j)"
proof -
  obtain l h where lh: "half cnt v (Suc k) = (l, h)" by force
  note se = calc_offset_range[OF assms(1-4) lh assms(6)]
  have "h \<le> cnt" "l \<le> h" using half_bounds[OF assms(1) lh] by simp_all
  thus ?thesis using assms(5) se
    by (auto simp: copy_elems_cell offset_elems_def simp del: half.simps)
qed

text \<open>
  What a phase writes, as a function of what it reads: \<open>touches\<close> says that an action changes the
  elements of \<open>W\<close> only and that their new values depend on the elements of \<open>R\<close> only.
\<close>

definition touches :: "nat \<Rightarrow> nat \<Rightarrow> ('a shm_mem \<Rightarrow> 'a shm_mem) \<Rightarrow> cell set \<Rightarrow> cell set \<Rightarrow> bool" where
  "touches comm_size cnt f W R \<longleftrightarrow>
     (\<forall>m c. \<forall>j < cnt. (\<forall>q < comm_size. length (m (Recvbuf q)) = cnt) \<longrightarrow> (c, j) \<notin> W \<longrightarrow> f m c ! j = m c ! j) \<and>
     (\<forall>m m' c. \<forall>j < cnt. (\<forall>q < comm_size. length (m (Recvbuf q)) = cnt \<and> length (m' (Recvbuf q)) = cnt) \<longrightarrow>
        (\<forall>(b, i) \<in> R. m b ! i = m' b ! i) \<longrightarrow> (c, j) \<in> W \<longrightarrow> f m c ! j = f m' c ! j)"

text \<open>A loop over a range that writes \<open>r\<close> from the buffers \<open>bs\<close>.\<close>

lemma touches_range:
  fixes g :: "(shm_buf \<Rightarrow> 'a) \<Rightarrow> 'a"
  assumes "\<And>m c j. (\<forall>q < comm_size. length (m (Recvbuf q)) = cnt) \<Longrightarrow> j < cnt \<Longrightarrow>
             f m c ! j = (if c = r \<and> j \<in> E then g (\<lambda>b. m b ! j) else m c ! j)"
    and "\<And>x y. (\<And>b. b \<in> bs \<Longrightarrow> x b = y b) \<Longrightarrow> g x = g y"
  shows "touches comm_size cnt f ({r} \<times> E) (bs \<times> E)"
  unfolding touches_def
proof (intro conjI allI impI)
  fix m m' :: "'a shm_mem" and c :: shm_buf and j :: nat
  assume j: "j < cnt"
    and l: "\<forall>q < comm_size. length (m (Recvbuf q)) = cnt \<and> length (m' (Recvbuf q)) = cnt"
    and e: "\<forall>(b, i) \<in> bs \<times> E. m b ! i = m' b ! i" and w: "(c, j) \<in> {r} \<times> E"
  have "g (\<lambda>b. m b ! j) = g (\<lambda>b. m' b ! j)" by (rule assms(2)) (use e w in auto)
  thus "f m c ! j = f m' c ! j" using assms(1)[of m j c] assms(1)[of m' j c] l w j by simp
qed (use assms(1) in auto)

lemma touches_nothing: "touches comm_size cnt (\<lambda>m. m) {} {}"
  by (simp add: touches_def)

lemma touches_more: "touches comm_size cnt f W R \<Longrightarrow> R \<subseteq> R' \<Longrightarrow> touches comm_size cnt f W R'"
  unfolding touches_def by blast

lemma touches_dispatch:
  assumes "0 < cnt" "cnt < 2 ^ 31" "v < 2 ^ 31" "k < 31" "q < comm_size" "dt \<noteq> DT_OTHER"
    and "calc_offset (of_nat v) (of_nat cnt) k = (s, e)"
  shows "touches comm_size cnt (dispatch_by_datatype adds dt (Recvbuf q) b1 b2 s (e - s + 1))
           ({Recvbuf q} \<times> offset_elems (s, e)) ({b1, b2} \<times> offset_elems (s, e))"
  by (rule touches_range[where g = "\<lambda>x. adds dt (x b1) (x b2)"])
    (use assms(5) in \<open>simp_all add: dispatch_touch[OF assms(1-4) _ assms(6,7)]\<close>)

lemma touches_copy:
  assumes "0 < cnt" "cnt < 2 ^ 31" "v < 2 ^ 31" "k < 31" "q < comm_size"
    and "calc_offset (of_nat v) (of_nat cnt) k = (s, e)"
  shows "touches comm_size cnt (copy_elems (Recvbuf q) b (unat s) (unat (e - s + 1)))
           ({Recvbuf q} \<times> offset_elems (s, e)) ({b} \<times> offset_elems (s, e))"
  by (rule touches_range[where g = "\<lambda>x. x b"])
    (use assms(5) in \<open>simp_all add: copy_touch[OF assms(1-4) _ assms(6)]\<close>)

lemma touches_copy_all:
  assumes "q < comm_size" "ar_count a = int cnt"
  shows "touches comm_size cnt (copy_elems (Recvbuf q) b 0 cnt) ({Recvbuf q} \<times> all_elems a) ({b} \<times> all_elems a)"
  by (rule touches_range[where g = "\<lambda>x. x b"]) (use assms in \<open>auto simp: copy_elems_cell all_elems_def\<close>)

lemma touches_pre:
  assumes sz: "1 < comm_size" "comm_size \<le> KUPL_SHM_COMM_MAX_SIZE"
    and a: "ar_count a = int cnt" "0 < cnt" "cnt < 2 ^ 31" "ar_type_fits a" and r: "rank < comm_size"
  shows "touches comm_size cnt (ar_action adds a comm_size rank Pre_Reduce)
           (ar_writes a comm_size rank Pre_Reduce) (ar_reads a comm_size rank Pre_Reduce)"
proof (cases "int rank < 2 * nprocs_rem comm_size")
  case True
  obtain s e where se: "calc_offset (of_nat rank) (of_nat cnt) 0 = (s, e)" by force
  have lt: "rank < 2 ^ 31" "rank - rank mod 2 < comm_size" using r sz(2) by (auto simp: KUPL_SHM_COMM_MAX_SIZE_def)
  define b2 where "b2 = (if rank mod 2 \<noteq> 0 then Sendbuf (rank - 1) else Sendbuf (rank + 1))"
  have eq: "ar_action adds a comm_size rank Pre_Reduce =
        dispatch_by_datatype adds (ar_datatype a) (Recvbuf (rank - rank mod 2)) (Sendbuf rank) b2 s (e - s + 1)"
    using True by (auto simp: ar_action_def do_pre_reduce_def a(1) se b2_def mod2_eq_if fun_eq_iff)
  have el: "pre_elems a rank = offset_elems (s, e)" by (simp add: pre_elems_def a(1) se)
  have sub: "{Sendbuf rank, b2} \<times> offset_elems (s, e) \<subseteq> ar_reads a comm_size rank Pre_Reduce"
    using True by (auto simp: b2_def ar_reads_def el mod2_eq_if elim: oddE)
  have w: "ar_writes a comm_size rank Pre_Reduce = {Recvbuf (rank - rank mod 2)} \<times> offset_elems (s, e)"
    using True by (simp add: ar_writes_def el)
  show ?thesis unfolding eq w
    by (rule touches_more[OF touches_dispatch[OF a(2,3) lt(1) _ lt(2) ar_type_fitsD[OF a(4)] se] sub]) simp
next
  case False
  hence "ar_action adds a comm_size rank Pre_Reduce = (\<lambda>m. m)" by (simp add: ar_action_def fun_eq_iff)
  thus ?thesis using False touches_nothing by (simp add: ar_writes_def ar_reads_def)
qed

lemma touches_reduce:
  assumes sz: "1 < comm_size" "comm_size \<le> KUPL_SHM_COMM_MAX_SIZE" and k: "k < nsteps comm_size"
    and a: "ar_count a = int cnt" "0 < cnt" "cnt < 2 ^ 31" "ar_type_fits a" and r: "rank < comm_size"
  shows "touches comm_size cnt (ar_action adds a comm_size rank (Reduce_Round k))
           (ar_writes a comm_size rank (Reduce_Round k)) (ar_reads a comm_size rank (Reduce_Round k))"
  using rank_cases[OF sz r]
proof cases
  case (1 v)
  obtain s e where se: "calc_offset (of_nat v) (of_nat cnt) k = (s, e)" by force
  have lt: "v < 2 ^ 31" "k < 31" using pow_le_31[OF sz 1(1)] nsteps_spec(4)[OF sz] k by auto
  define dest where "dest = ar_dest comm_size rank k"
  define b1 where "b1 = (if k = 0 \<and> 2 * nprocs_rem comm_size \<le> int rank then Sendbuf rank else Recvbuf rank)"
  define b2 where "b2 = (if k = 0 \<and> 2 * nprocs_rem comm_size \<le> int dest then Sendbuf dest else Recvbuf dest)"
  have eq: "ar_action adds a comm_size rank (Reduce_Round k) =
        dispatch_by_datatype adds (ar_datatype a) (Recvbuf rank) b1 b2 s (e - s + 1)"
    using 1(3) by (auto simp: ar_action_def reduce_scatter_round_def a(1) se b1_def b2_def dest_def fun_eq_iff Let_def)
  have el: "reduce_elems a comm_size rank k = offset_elems (s, e)" by (simp add: reduce_elems_def a(1) se 1(3))
  have sub: "{b1, b2} \<times> offset_elems (s, e) \<subseteq> ar_reads a comm_size rank (Reduce_Round k)"
    using 1(3) by (auto simp: b1_def b2_def ar_reads_def el dest_def)
  have w: "ar_writes a comm_size rank (Reduce_Round k) = {Recvbuf rank} \<times> offset_elems (s, e)"
    using 1(3) by (simp add: ar_writes_def el)
  show ?thesis unfolding eq w by (rule touches_more[OF touches_dispatch[OF a(2,3) lt r ar_type_fitsD[OF a(4)] se] sub])
next
  case (2 v)
  hence "ar_action adds a comm_size rank (Reduce_Round k) = (\<lambda>m. m)" by (simp add: ar_action_def fun_eq_iff)
  thus ?thesis using 2(3) touches_nothing by (simp add: ar_writes_def ar_reads_def)
qed

lemma touches_gather:
  assumes sz: "1 < comm_size" "comm_size \<le> KUPL_SHM_COMM_MAX_SIZE" and k: "k < nsteps comm_size"
    and a: "ar_count a = int cnt" "0 < cnt" "cnt < 2 ^ 31" "ar_type_fits a" and r: "rank < comm_size"
  shows "touches comm_size cnt (ar_action adds a comm_size rank (Gather_Round k))
           (ar_writes a comm_size rank (Gather_Round k)) (ar_reads a comm_size rank (Gather_Round k))"
  using rank_cases[OF sz r]
proof cases
  case (1 v)
  let ?w = "flip_bit k v"
  obtain s e where se: "calc_offset (of_nat ?w) (of_nat cnt) k = (s, e)" by force
  have lt: "?w < 2 ^ 31" "k < 31" using pow_le_31[OF sz flip_less[OF 1(1) k]] nsteps_spec(4)[OF sz] k by auto
  have vd: "ar_vdest comm_size rank k = of_nat ?w" using ar_dest_rk(1)[OF sz 1(1) k] 1(2) by simp
  have eq: "ar_action adds a comm_size rank (Gather_Round k) =
        copy_elems (Recvbuf rank) (Recvbuf (ar_dest comm_size rank k)) (unat s) (unat (e - s + 1))"
    using 1(3) by (simp add: ar_action_def allgather_round_def a(1) se vd recv_exact[OF a(1-4) lt se] fun_eq_iff)
  have el: "gather_elems a comm_size rank k = offset_elems (s, e)" by (simp add: gather_elems_def a(1) se vd)
  show ?thesis unfolding eq
    using 1(3) el touches_copy[OF a(2,3) lt r se] by (simp add: ar_writes_def ar_reads_def)
next
  case (2 v)
  hence "ar_action adds a comm_size rank (Gather_Round k) = (\<lambda>m. m)" by (simp add: ar_action_def fun_eq_iff)
  thus ?thesis using 2(3) touches_nothing by (simp add: ar_writes_def ar_reads_def)
qed

lemma touches_post:
  assumes sz: "1 < comm_size" "comm_size \<le> KUPL_SHM_COMM_MAX_SIZE"
    and a: "ar_count a = int cnt" "cnt < 2 ^ 31" "ar_type_fits a"
  shows "touches comm_size cnt (ar_action adds a comm_size rank Post_Gather)
           (ar_writes a comm_size rank Post_Gather) (ar_reads a comm_size rank Post_Gather)"
proof (cases "int rank < 2 * nprocs_rem comm_size \<and> rank mod 2 = 0")
  case True
  have r: "rank + 1 < comm_size"
    using True left_over_less[OF sz] nprocs_rem_eq[OF sz] by presburger
  have "ar_action adds a comm_size rank Post_Gather = copy_elems (Recvbuf (rank + 1)) (Recvbuf rank) 0 cnt"
    using True by (simp add: ar_action_def do_post_allgather_def a(1) send_exact[OF a] fun_eq_iff)
  thus ?thesis using True touches_copy_all[OF r a(1)] by (simp add: ar_writes_def ar_reads_def)
next
  case False
  hence "ar_action adds a comm_size rank Post_Gather = (\<lambda>m. m)"
    by (auto simp: ar_action_def do_post_allgather_def fun_eq_iff)
  thus ?thesis using False touches_nothing by (auto simp: ar_writes_def ar_reads_def)
qed

lemma touches_linear:
  assumes a: "ar_count a = int cnt" "cnt < 2 ^ 31" "ar_datatype a \<noteq> DT_OTHER" and r: "rank < comm_size"
  shows "touches comm_size cnt (ar_action adds a comm_size rank Linear_Sum)
           (ar_writes a comm_size rank Linear_Sum) (ar_reads a comm_size rank Linear_Sum)"
proof -
  let ?fold = "\<lambda>x. fold (\<lambda>i acc. if rank = i then acc else adds (ar_datatype a) acc (x (Sendbuf i))) [0..<comm_size]
                 (x (Recvbuf rank))"
  have local: "?fold x = ?fold y" if "\<And>b. b \<in> insert (Recvbuf rank) (Sendbuf ` {..<comm_size}) \<Longrightarrow> x b = y b"
    for x y :: "shm_buf \<Rightarrow> 'a"
    using that by (intro fold_cong) auto
  have cell: "linear_sum adds a comm_size rank m c ! j =
      (if c = Recvbuf rank \<and> j \<in> all_elems a then ?fold (\<lambda>b. m b ! j) else m c ! j)"
    if "\<forall>q < comm_size. length (m (Recvbuf q)) = cnt" "j < cnt" for m :: "'a shm_mem" and c j
    using linear_sum_fold[OF a that(2), where m = m and rank = rank] that r
    by (auto simp: linear_sum_other all_elems_def a(1))
  have "touches comm_size cnt (linear_sum adds a comm_size rank) ({Recvbuf rank} \<times> all_elems a)
          (insert (Recvbuf rank) (Sendbuf ` {..<comm_size}) \<times> all_elems a)"
    by (rule touches_range[where g = ?fold, OF cell local])
  moreover have "ar_action adds a comm_size rank Linear_Sum = linear_sum adds a comm_size rank"
    by (simp add: ar_action_def fun_eq_iff)
  ultimately show ?thesis by (simp add: ar_writes_def ar_reads_def)
qed

section \<open>Ranks that execute at the same time do not interfere\<close>

lemma reduce_elems_level:
  assumes sz: "1 < comm_size" "comm_size \<le> KUPL_SHM_COMM_MAX_SIZE"
    and v: "v < 2 ^ nsteps comm_size" "k < nsteps comm_size"
    and a: "ar_count a = int cnt" "0 < cnt" "cnt < 2 ^ 31"
  shows "j \<in> reduce_elems a comm_size (rk (left_over comm_size) v) k \<longleftrightarrow>
         j < cnt \<and> Suc k \<le> level cnt j v (nsteps comm_size)"
proof -
  have k: "k < 31" using nsteps_spec(4)[OF sz] v(2) by simp
  note o = offset_elems_half[OF a(2,3) pow_le_31[OF sz v(1)] k]
  show ?thesis
    using o(1)[of j] o(2)[OF a(2)] level_spec[of "Suc k" "nsteps comm_size" v cnt j] v(2)
    by (auto simp: reduce_elems_def ar_vrank_rk[OF sz] a(1) simp del: elem_code.simps)
qed

lemma gather_elems_level:
  assumes sz: "1 < comm_size" "comm_size \<le> KUPL_SHM_COMM_MAX_SIZE"
    and v: "v < 2 ^ nsteps comm_size" "k < nsteps comm_size"
    and a: "ar_count a = int cnt" "0 < cnt" "cnt < 2 ^ 31"
  shows "j \<in> gather_elems a comm_size (rk (left_over comm_size) v) k \<longleftrightarrow>
         j < cnt \<and> level cnt j v (nsteps comm_size) = k"
proof -
  let ?w = "flip_bit k v"
  have k: "k < 31" using nsteps_spec(4)[OF sz] v(2) by simp
  note o = offset_elems_half[OF a(2,3) pow_le_31[OF sz flip_less[OF v]] k]
  show ?thesis
    using o(1)[of j] o(2)[OF a(2)] level_spec[of "Suc k" "nsteps comm_size" ?w cnt j] v(2)
      level_flip[OF v(2), of cnt j v]
    by (auto simp: gather_elems_def ar_dest_rk(1)[OF sz v] a(1) simp del: elem_code.simps)
qed

lemma pre_elems_disjoint:
  assumes "ar_count a = int cnt" "0 < cnt" "cnt < 2 ^ 31" "2 * v + 1 < 2 ^ 31"
  shows "pre_elems a (2 * v) \<inter> pre_elems a (2 * v + 1) = {}"
proof -
  have v: "2 * v < 2 ^ 31" using assms(4) by simp
  have e: "pre_elems a r = offset_elems (calc_offset (of_nat r) (of_nat cnt) 0)" for r
    by (simp add: pre_elems_def assms(1))
  show ?thesis
  proof (rule ccontr)
    assume "pre_elems a (2 * v) \<inter> pre_elems a (2 * v + 1) \<noteq> {}"
    then obtain j where j: "j \<in> pre_elems a (2 * v)" "j \<in> pre_elems a (2 * v + 1)" by blast
    have lt: "j < cnt" using j(1) offset_elems_half(2)[OF assms(2,3) v _ assms(2), of 0] unfolding e by auto
    have "take_bit (Suc 0) (2 * v) = elem_code cnt j (Suc 0)"
      using j(1) offset_elems_half(1)[OF assms(2,3) v _ lt, of 0] unfolding e by (simp only: zero_less_numeral simp_thms)
    moreover have "take_bit (Suc 0) (2 * v + 1) = elem_code cnt j (Suc 0)"
      using j(2) offset_elems_half(1)[OF assms(2-4) _ lt, of 0] unfolding e by (simp only: zero_less_numeral simp_thms)
    ultimately have "take_bit (Suc 0) (2 * v) = take_bit (Suc 0) (2 * v + 1)" by (rule trans[OF _ sym])
    thus False by simp
  qed
qed

text \<open>Two partners in rounds: the one never writes what the other reads.\<close>

lemma partners_apart:
  assumes f: "ar_fences n m pc" and pass: "may_pass n m pc (rk m v)" "may_pass n m pc (rk m w)"
    and w: "w < 2 ^ n" "k' < n" "v = flip_bit k' w" and k: "k < n"
    and writes: "pc (rk m v) = k + 2 \<and> Suc k \<le> level cnt j v n \<or>
                 pc (rk m v) = 2 * n + 1 - k \<and> level cnt j v n = k"
    and reads: "pc (rk m w) = k' + 2 \<and> Suc k' \<le> level cnt j w n \<or>
                pc (rk m w) = 2 * n + 1 - k' \<and> level cnt j w n = k'"
  shows False
proof -
  have v: "v < 2 ^ n" unfolding w(3) by (rule flip_less[OF w(1,2)])
  have wv: "w = flip_bit k' v" by (simp add: w(3))
  have met: "pc (rk m w) \<le> pc (rk m v)"
    using pass(2) reads w unfolding may_pass_def by blast
  have met': "k = k' \<longrightarrow> pc (rk m v) \<le> pc (rk m w)"
    using pass(1) writes v k wv unfolding may_pass_def by blast
  have l1: "Suc k' \<le> level cnt j v n \<longleftrightarrow> level cnt j w n = k'"
    unfolding w(3) by (rule level_flip[OF w(2)])
  have l2: "Suc k' \<le> level cnt j w n \<longleftrightarrow> level cnt j v n = k'"
    by (subst wv) (rule level_flip[OF w(2)])
  have "False" if "Q \<le> P" "k = k' \<longrightarrow> P \<le> Q" "Suc k' \<le> L \<longleftrightarrow> M = k'" "Suc k' \<le> M \<longleftrightarrow> L = k'"
    "P = k + 2 \<and> Suc k \<le> L \<or> P = 2 * n + 1 - k \<and> L = k"
    "Q = k' + 2 \<and> Suc k' \<le> M \<or> Q = 2 * n + 1 - k' \<and> M = k'" for P Q L M :: nat
    using that k w(2) by arith
  from this[OF met met' l1 l2 writes reads] show False .
qed

lemma write_cases:
  assumes sz: "1 < comm_size" "comm_size \<le> KUPL_SHM_COMM_MAX_SIZE" and algo: "ar_algo a \<noteq> ALGO_LINEAR"
    and a: "ar_count a = int cnt" "0 < cnt" "cnt < 2 ^ 31"
    and p: "p < comm_size" "pc p < 2 * nsteps comm_size + 4"
    and w: "(c, j) \<in> ar_writes a comm_size p (ar_phase_of a comm_size (pc p))"
  obtains (pre) u where "u < left_over comm_size" "p = 2 * u \<or> p = 2 * u + 1" "pc p = 0"
      "c = Recvbuf (2 * u)" "j \<in> pre_elems a p"
  | (round) v k where "v < 2 ^ nsteps comm_size" "k < nsteps comm_size" "p = rk (left_over comm_size) v"
      "c = Recvbuf p" "pc p = k + 2 \<and> Suc k \<le> level cnt j v (nsteps comm_size) \<or>
       pc p = 2 * nsteps comm_size + 1 - k \<and> level cnt j v (nsteps comm_size) = k"
  | (post) u where "u < left_over comm_size" "p = 2 * u" "pc p = 2 * nsteps comm_size + 2"
      "c = Recvbuf (2 * u + 1)"
proof -
  note rb = nprocs_rem_eq[OF sz]
  from phase_cases[OF sz algo p(2)] show thesis
  proof cases
    case 1
    hence "p < 2 * left_over comm_size" "c = Recvbuf (p - p mod 2)" "j \<in> pre_elems a p"
      using w rb by (auto simp: ar_writes_def split: if_splits)
    moreover have "p - p mod 2 = 2 * (p div 2)" "p = 2 * (p div 2) \<or> p = 2 * (p div 2) + 1" by presburger+
    ultimately show thesis using pre[of "p div 2"] 1 by simp
  next
    case (3 k)
    from rank_cases[OF sz p(1)] show thesis
    proof cases
      case v: (1 v)
      show thesis using round[OF v(1) 3(1) v(2)] w 3 v reduce_elems_level[OF sz v(1) 3(1) a]
        by (auto simp: ar_writes_def)
    qed (use w 3 in \<open>simp add: ar_writes_def\<close>)
  next
    case (4 k)
    from rank_cases[OF sz p(1)] show thesis
    proof cases
      case v: (1 v)
      show thesis using round[OF v(1) 4(1) v(2)] w 4 v gather_elems_level[OF sz v(1) 4(1) a]
        by (auto simp: ar_writes_def)
    qed (use w 4 in \<open>simp add: ar_writes_def\<close>)
  next
    case 5
    hence "p < 2 * left_over comm_size" "even p" "c = Recvbuf (p + 1)"
      using w rb by (auto simp: ar_writes_def split: if_splits)
    thus thesis using post[of "p div 2"] 5 by (auto elim: evenE)
  qed (use w in \<open>simp_all add: ar_writes_def\<close>)
qed

lemma read_cases:
  assumes sz: "1 < comm_size" "comm_size \<le> KUPL_SHM_COMM_MAX_SIZE" and algo: "ar_algo a \<noteq> ALGO_LINEAR"
    and a: "ar_count a = int cnt" "0 < cnt" "cnt < 2 ^ 31"
    and p: "p < comm_size" "pc p < 2 * nsteps comm_size + 4"
    and w: "(Recvbuf b, j) \<in> ar_reads a comm_size p (ar_phase_of a comm_size (pc p))"
  obtains (own) v where "b = p" "2 \<le> pc p" "p = rk (left_over comm_size) v"
  | (partner) v k where "v < 2 ^ nsteps comm_size" "k < nsteps comm_size" "p = rk (left_over comm_size) v"
      "b = rk (left_over comm_size) (flip_bit k v)" "2 \<le> pc p"
      "pc p = k + 2 \<and> Suc k \<le> level cnt j v (nsteps comm_size) \<or>
       pc p = 2 * nsteps comm_size + 1 - k \<and> level cnt j v (nsteps comm_size) = k"
proof -
  from phase_cases[OF sz algo p(2)] show thesis
  proof cases
    case (3 k)
    from rank_cases[OF sz p(1)] show thesis
    proof cases
      case v: (1 v)
      show thesis
        using partner[OF v(1) 3(1) v(2)] own[of v] w 3 v reduce_elems_level[OF sz v(1) 3(1) a] ar_dest_rk(2)[OF sz v(1) 3(1)]
        by (auto simp: ar_reads_def)
    qed (use w 3 in \<open>simp add: ar_reads_def\<close>)
  next
    case (4 k)
    from rank_cases[OF sz p(1)] show thesis
    proof cases
      case v: (1 v)
      show thesis
        using partner[OF v(1) 4(1) v(2)] w 4 v gather_elems_level[OF sz v(1) 4(1) a] ar_dest_rk(2)[OF sz v(1) 4(1)]
        by (auto simp: ar_reads_def)
    qed (use w 4 in \<open>simp add: ar_reads_def\<close>)
  next
    case 5
    hence b: "b = p" "int p < 2 * nprocs_rem comm_size" "p mod 2 = 0"
      using w by (auto simp: ar_reads_def split: if_splits)
    hence rp: "p = rk (left_over comm_size) (p div 2)"
      using nprocs_rem_eq[OF sz] by (auto simp: rk_def elim: evenE)
    show thesis by (rule own[OF b(1) _ rp]) (use 5(1) in simp)
  qed (use w in \<open>auto simp: ar_reads_def split: if_splits\<close>)
qed

lemma race_rounds:
  assumes v: "ar_valid a comm_size m" and sz: "1 < comm_size" and algo: "ar_algo a \<noteq> ALGO_LINEAR"
    and f: "ar_fences (nsteps comm_size) (left_over comm_size) pc"
    and pq: "p < comm_size" "q < comm_size" "p \<noteq> q" "ar_ready a comm_size pc p" "ar_ready a comm_size pc q"
    and w: "(c, j) \<in> ar_writes a comm_size p (ar_phase_of a comm_size (pc p))"
  shows "(c, j) \<notin> ar_writes a comm_size q (ar_phase_of a comm_size (pc q))"
    and "(c, j) \<notin> ar_reads a comm_size q (ar_phase_of a comm_size (pc q))"
proof -
  let ?n = "nsteps comm_size" and ?m = "left_over comm_size"
  obtain cnt where a: "ar_count a = int cnt" "0 < cnt" "cnt < 2 ^ 31" using ar_valid_count[OF v] by blast
  have mx: "comm_size \<le> KUPL_SHM_COMM_MAX_SIZE" using v by (simp add: ar_valid_def)
  note N = left_over_less[OF sz mx]
  have pass: "may_pass ?n ?m pc p" "may_pass ?n ?m pc q" using ready_may_pass[OF sz mx algo] pq by auto
  have lt: "pc p < 2 * ?n + 4" "pc q < 2 * ?n + 4" using pass by (auto simp: may_pass_def)
  have early: "pc p = 0 \<Longrightarrow> pc q \<le> 1"
    using ar_fencesD(1)[OF f, of q p] pq N by (cases "1 < pc q") auto
  have late: "pc q = 0 \<Longrightarrow> pc p < 2"
    using ar_fencesD(1)[OF f, of p q] pq N by (cases "1 < pc p") auto
  note wp = write_cases[where pc = pc and p = p and c = c and j = j, OF sz mx algo a pq(1) lt(1) w]
  show "(c, j) \<notin> ar_writes a comm_size q (ar_phase_of a comm_size (pc q))"
  proof
    assume x: "(c, j) \<in> ar_writes a comm_size q (ar_phase_of a comm_size (pc q))"
    show False
    proof (rule wp; rule write_cases[where pc = pc and p = q and c = c and j = j, OF sz mx algo a pq(2) lt(2) x])
      fix u u' assume "u < ?m" "p = 2 * u \<or> p = 2 * u + 1" "c = Recvbuf (2 * u)" "j \<in> pre_elems a p"
        "q = 2 * u' \<or> q = 2 * u' + 1" "c = Recvbuf (2 * u')" "j \<in> pre_elems a q"
      moreover have "2 * u + 1 < 2 ^ 31" using calculation(1) N mx by (simp add: KUPL_SHM_COMM_MAX_SIZE_def)
      ultimately show False using pre_elems_disjoint[OF a, of u] pq(3) by auto
    qed (use early late pq(3) nsteps_spec(3)[OF sz mx] in \<open>auto simp: rk_inj\<close>)
  qed
  show "(c, j) \<notin> ar_reads a comm_size q (ar_phase_of a comm_size (pc q))"
  proof
    assume x: "(c, j) \<in> ar_reads a comm_size q (ar_phase_of a comm_size (pc q))"
    show False
    proof (rule wp)
      fix u assume u: "pc p = 0" "c = Recvbuf (2 * u)"
      show False
        by (rule read_cases[where pc = pc and p = q, OF sz mx algo a pq(2) lt(2) x[unfolded u(2)]])
          (use early[OF u(1)] in linarith)+
    next
      fix u assume u: "u < ?m" "p = 2 * u" "c = Recvbuf (2 * u + 1)" "pc p = 2 * ?n + 2"
      show False
        by (rule read_cases[where pc = pc and p = q, OF sz mx algo a pq(2) lt(2) x[unfolded u(3)]])
          (use u(1) in auto)
    next
      fix w' k assume w': "w' < 2 ^ ?n" "k < ?n" "p = rk ?m w'" "c = Recvbuf p"
        "pc p = k + 2 \<and> Suc k \<le> level cnt j w' ?n \<or> pc p = 2 * ?n + 1 - k \<and> level cnt j w' ?n = k"
      show False
      proof (rule read_cases[where pc = pc and p = q, OF sz mx algo a pq(2) lt(2) x[unfolded w'(4)]])
        fix v k' assume r: "v < 2 ^ ?n" "k' < ?n" "q = rk ?m v" "p = rk ?m (flip_bit k' v)"
          "pc q = k' + 2 \<and> Suc k' \<le> level cnt j v ?n \<or> pc q = 2 * ?n + 1 - k' \<and> level cnt j v ?n = k'"
        have e: "w' = flip_bit k' v" using w'(3) r(4) by (simp add: rk_inj)
        show False
          by (rule partners_apart[OF f pass[unfolded w'(3) r(3)] r(1,2) e w'(2)
                w'(5)[unfolded w'(3)] r(5)[unfolded r(3)]])
      qed (use pq(3) in auto)
    qed
  qed
qed

text \<open>What a rank that is ready executes, reads and writes what the two functions say.\<close>

lemma ready_touches:
  assumes v: "ar_valid a comm_size m" and cnt: "ar_count a = int cnt"
    and r: "rank < comm_size" "ar_ready a comm_size pc rank"
  shows "touches comm_size cnt (ar_action adds a comm_size rank (ar_phase_of a comm_size (pc rank)))
           (ar_writes a comm_size rank (ar_phase_of a comm_size (pc rank)))
           (ar_reads a comm_size rank (ar_phase_of a comm_size (pc rank)))"
proof -
  have a: "0 < cnt" "cnt < 2 ^ 31" "ar_type_fits a" using v cnt by (auto simp: ar_valid_def)
  have fence: "touches comm_size cnt (ar_action adds a comm_size rank Fence_All)
      (ar_writes a comm_size rank Fence_All) (ar_reads a comm_size rank Fence_All)"
  proof -
    have "ar_action adds a comm_size rank Fence_All = (\<lambda>m. m)" by (simp add: ar_action_def fun_eq_iff)
    thus ?thesis using touches_nothing by (simp add: ar_writes_def ar_reads_def)
  qed
  show ?thesis
  proof (cases "solo a comm_size")
    case True
    have copy: "ar_action adds a comm_size rank Copy_Self = copy_elems (Recvbuf rank) (Sendbuf rank) 0 cnt"
      by (simp add: ar_action_def cnt fun_eq_iff)
    have "touches comm_size cnt (ar_action adds a comm_size rank Copy_Self)
        (ar_writes a comm_size rank Copy_Self) (ar_reads a comm_size rank Copy_Self)"
      unfolding copy using touches_copy_all[OF r(1) cnt] by (simp add: ar_writes_def ar_reads_def)
    with solo_phases[OF True r(2)] show ?thesis
      by cases (simp_all add: fence touches_linear[OF cnt a(2) ar_type_fitsD[OF a(3)] r(1)])
  next
    case False
    hence sz: "1 < comm_size" "comm_size \<le> KUPL_SHM_COMM_MAX_SIZE" and algo: "ar_algo a \<noteq> ALGO_LINEAR"
      using v by (auto simp: solo_def ar_valid_def)
    have "pc rank < 2 * nsteps comm_size + 4"
      using ready_may_pass[OF sz algo r] by (simp add: may_pass_def)
    from phase_cases[OF sz algo this] show ?thesis
      by cases (simp_all add: fence touches_pre[OF sz cnt a r(1)] touches_post[OF sz cnt a(2,3)]
          touches_reduce[OF sz _ cnt a r(1)] touches_gather[OF sz _ cnt a r(1)])
  qed
qed

lemma solo_writes:
  assumes "solo a comm_size" "ar_ready a comm_size pc p"
    and w: "(c, j) \<in> ar_writes a comm_size p (ar_phase_of a comm_size (pc p))"
  shows "c = Recvbuf p"
  using solo_phases[OF assms(1,2)] by cases (use w in \<open>simp_all add: ar_writes_def\<close>)

lemma solo_reads:
  assumes "solo a comm_size" "ar_ready a comm_size pc p"
    and w: "(Recvbuf b, j) \<in> ar_reads a comm_size p (ar_phase_of a comm_size (pc p))"
  shows "b = p"
  using solo_phases[OF assms(1,2)] by cases (use w in \<open>auto simp: ar_reads_def\<close>)

definition ar_now :: "ar_args \<Rightarrow> nat \<Rightarrow> 'a ar_state \<Rightarrow> nat \<Rightarrow> ar_phase" where
  "ar_now a comm_size s rank = ar_phase_of a comm_size (ar_pc s rank)"

text \<open>
  C34: The collective sum, on buffers below 2 GB, has no data race, under any interleaving: an element that a
  rank may write at some moment is neither read nor written by any other rank at that moment.
  \<open>touches\<close> ties the two sets to the code: a phase changes nothing outside the first and its
  results depend on nothing outside the second.
\<close>

theorem allreduce_race_free:
  assumes v: "ar_valid a comm_size m" and s: "s = kupl_do_allreduce adds a comm_size m sched"
    and pq: "p < comm_size" "q < comm_size" "p \<noteq> q"
    and ready: "ar_ready a comm_size (ar_pc s) p" "ar_ready a comm_size (ar_pc s) q"
  shows "touches comm_size (nat (ar_count a)) (ar_action adds a comm_size p (ar_now a comm_size s p))
           (ar_writes a comm_size p (ar_now a comm_size s p))
           (ar_reads a comm_size p (ar_now a comm_size s p)) \<and>
         ar_writes a comm_size p (ar_now a comm_size s p) \<inter>
           (ar_writes a comm_size q (ar_now a comm_size s q) \<union>
            ar_reads a comm_size q (ar_now a comm_size s q)) = {}"
proof
  have cnt: "ar_count a = int (nat (ar_count a))" using v by (simp add: ar_valid_def)
  show "touches comm_size (nat (ar_count a)) (ar_action adds a comm_size p (ar_now a comm_size s p))
           (ar_writes a comm_size p (ar_now a comm_size s p))
           (ar_reads a comm_size p (ar_now a comm_size s p))"
    unfolding ar_now_def by (rule ready_touches[OF v cnt pq(1) ready(1)])
  show "ar_writes a comm_size p (ar_now a comm_size s p) \<inter>
          (ar_writes a comm_size q (ar_now a comm_size s q) \<union> ar_reads a comm_size q (ar_now a comm_size s q)) = {}"
  proof (rule ccontr)
    assume "\<not> ?thesis"
    then obtain c j where w: "(c, j) \<in> ar_writes a comm_size p (ar_now a comm_size s p)"
      and q: "(c, j) \<in> ar_writes a comm_size q (ar_now a comm_size s q) \<or>
              (c, j) \<in> ar_reads a comm_size q (ar_now a comm_size s q)" by auto
    show False
    proof (cases "solo a comm_size")
      case True
      have c: "c = Recvbuf p" using solo_writes[OF True ready(1)] w by (simp add: ar_now_def)
      show False
        using q pq(3) solo_writes[OF True ready(2)] solo_reads[OF True ready(2)] unfolding c ar_now_def by blast
    next
      case False
      hence sz: "1 < comm_size" and algo: "ar_algo a \<noteq> ALGO_LINEAR" using v by (auto simp: solo_def ar_valid_def)
      have f: "ar_fences (nsteps comm_size) (left_over comm_size) (ar_pc s)"
        using ar_run_inv[OF v sz algo, of adds sched] by (simp add: ar_inv_def s)
      show False
        using q race_rounds[OF v sz algo f pq ready w[unfolded ar_now_def]] unfolding ar_now_def by blast
    qed
  qed
qed

text \<open>After both ranks of the pair have passed the first fence, ranks 0 and 2 exchange halves.\<close>

definition sum3_mid :: "int ar_state" where
  "sum3_mid = kupl_do_allreduce (\<lambda>_. (+)) sum3_args 3 sum3_mem [0, 1, 2, 0, 2]"

lemma sum3_mid_ready: "ar_ready sum3_args 3 (ar_pc sum3_mid) 0 \<and> ar_ready sum3_args 3 (ar_pc sum3_mid) 2"
  by code_simp

theorem allreduce_race_free_witness:
  "ar_writes sum3_args 3 0 (ar_now sum3_args 3 sum3_mid 0) \<inter> ar_reads sum3_args 3 2 (ar_now sum3_args 3 sum3_mid 2) = {}"
  using allreduce_race_free[OF sum3_valid sum3_mid_def, of 0 2] sum3_mid_ready by auto

end
