(* ===== verification/Kupl_Shm_Fence.thy ===== *)
theory Kupl_Shm_Fence
  imports Kupl_Prelude
begin

text \<open>
  The fences between processes (\<open>memory/shm/fence\<close>): \<open>kupl_fence_peer_wait\<close> lets two processes
  meet, \<open>kupl_fence_linear_wait\<close> all processes of a window.  Every process has one window of flags,
  each in a cache line of its own, that it alone writes and all read: for the peer fence three flags
  per partner, behind them three for the fence of all (\<open>kupl_shm_fence_create\<close> has a picture).  A
  process toggles one of its flags and waits until the flags of the others have the same value;
  the next time it takes the next flag.

  A run is a list of events; an event that its process cannot execute, because it is elsewhere or
  must wait, makes the run undefined.  So the theorems hold for all interleavings of all
  processes, each of which may use both fences in any order and with any partners.
\<close>

section \<open>Flags\<close>

definition KUPL_SHM_FENCE_FLAG_WIN_SIZE :: nat where "KUPL_SHM_FENCE_FLAG_WIN_SIZE = 3"

text \<open>The cache line of a flag within the window of its process.\<close>

definition flag_line :: "bool \<Rightarrow> nat \<Rightarrow> nat \<Rightarrow> nat \<Rightarrow> nat" where
  "flag_line is_comm_fence nproc rank flag_idx =
     (if is_comm_fence then KUPL_SHM_FENCE_FLAG_WIN_SIZE * nproc else 0)
     + flag_idx * (if is_comm_fence then 1 else nproc) + rank"

type_synonym flag_mem = "nat \<Rightarrow> nat \<Rightarrow> int"

definition kupl_fence_set_flag :: "bool \<Rightarrow> nat \<Rightarrow> nat \<Rightarrow> int \<Rightarrow> nat \<Rightarrow> nat \<Rightarrow> flag_mem \<Rightarrow> flag_mem" where
  "kupl_fence_set_flag is_comm_fence nproc ident flag_val rank flag_idx m =
     (if ident < nproc
      then m(ident := (m ident)(flag_line is_comm_fence nproc rank flag_idx := flag_val))
      else m)"

definition kupl_fence_get_flag :: "bool \<Rightarrow> nat \<Rightarrow> nat \<Rightarrow> nat \<Rightarrow> nat \<Rightarrow> flag_mem \<Rightarrow> int" where
  "kupl_fence_get_flag is_comm_fence nproc ident rank flag_idx m =
     (if ident < nproc then m ident (flag_line is_comm_fence nproc rank flag_idx) else KUPL_ERROR)"

text \<open>The number of lines \<open>kupl_shm_fence_create\<close> allocates.\<close>

definition fence_win_lines :: "nat \<Rightarrow> nat" where
  "fence_win_lines nproc = KUPL_SHM_FENCE_FLAG_WIN_SIZE * (nproc + 1)"

lemma flag_line_bound:
  "rank < nproc \<Longrightarrow> flag_idx < KUPL_SHM_FENCE_FLAG_WIN_SIZE \<Longrightarrow> flag_line False nproc rank flag_idx < KUPL_SHM_FENCE_FLAG_WIN_SIZE * nproc"
  "flag_idx < KUPL_SHM_FENCE_FLAG_WIN_SIZE \<Longrightarrow> flag_line True nproc 0 flag_idx < fence_win_lines nproc"
proof -
  assume "rank < nproc" "flag_idx < KUPL_SHM_FENCE_FLAG_WIN_SIZE"
  hence "flag_idx * nproc + rank < flag_idx * nproc + nproc" "Suc flag_idx \<le> KUPL_SHM_FENCE_FLAG_WIN_SIZE" by auto
  moreover have "Suc flag_idx * nproc \<le> KUPL_SHM_FENCE_FLAG_WIN_SIZE * nproc"
    using calculation(2) by (rule mult_le_mono1)
  ultimately show "flag_line False nproc rank flag_idx < KUPL_SHM_FENCE_FLAG_WIN_SIZE * nproc"
    by (simp add: flag_line_def)
qed (simp add: flag_line_def fence_win_lines_def)

lemma flag_line_inj:
  "r < nproc \<Longrightarrow> r' < nproc \<Longrightarrow> flag_line False nproc r i = flag_line False nproc r' i' \<longleftrightarrow> r = r' \<and> i = i'"
proof -
  assume r: "r < nproc" "r' < nproc"
  have "(i * nproc + r) mod nproc = r" "(i' * nproc + r') mod nproc = r'"
    "(i * nproc + r) div nproc = i" "(i' * nproc + r') div nproc = i'" using r by auto
  thus ?thesis by (auto simp: flag_line_def)
qed

lemma flag_line_disjoint:
  "r < nproc \<Longrightarrow> i < KUPL_SHM_FENCE_FLAG_WIN_SIZE \<Longrightarrow> flag_line False nproc r i \<noteq> flag_line True nproc 0 i'"
  "r < nproc \<Longrightarrow> i < KUPL_SHM_FENCE_FLAG_WIN_SIZE \<Longrightarrow> flag_line True nproc 0 i' \<noteq> flag_line False nproc r i"
  using flag_line_bound(1)[of r nproc i] by (simp_all add: flag_line_def)

lemma flag_line_comm_inj [simp]: "flag_line True nproc 0 i = flag_line True nproc 0 i' \<longleftrightarrow> i = i'"
  by (simp add: flag_line_def)

section \<open>Processes\<close>

datatype fence_pc = F_Idle | F_Peer nat int | F_All nat int

record fence_state =
  fs_flags :: flag_mem
  fs_flag_idx :: "nat \<Rightarrow> nat"
  fs_flag_peer_idx :: "nat \<Rightarrow> nat \<Rightarrow> nat"
  fs_pc :: "nat \<Rightarrow> fence_pc"

datatype fence_event = Enter_Peer nat nat | Leave_Peer nat nat | Enter_All nat | Scan nat | Leave_All nat

text \<open>\<open>kupl_fence_peer_wait\<close> up to its loop, and one test of the loop that succeeds.\<close>

definition peer_enter :: "nat \<Rightarrow> nat \<Rightarrow> nat \<Rightarrow> fence_state \<Rightarrow> fence_state" where
  "peer_enter nproc local_id remote_id s =
     (let cur_flag_idx = fs_flag_peer_idx s local_id remote_id;
          this_val = 1 - kupl_fence_get_flag False nproc local_id remote_id cur_flag_idx (fs_flags s)
      in s\<lparr>fs_flags := kupl_fence_set_flag False nproc local_id this_val remote_id cur_flag_idx (fs_flags s),
           fs_pc := (fs_pc s)(local_id := F_Peer remote_id this_val)\<rparr>)"

definition peer_leave :: "nat \<Rightarrow> nat \<Rightarrow> nat \<Rightarrow> int \<Rightarrow> fence_state \<Rightarrow> fence_state option" where
  "peer_leave nproc local_id remote_id this_val s =
     (let cur_flag_idx = fs_flag_peer_idx s local_id remote_id in
      if kupl_fence_get_flag False nproc remote_id local_id cur_flag_idx (fs_flags s) \<noteq> this_val then None
      else Some (s\<lparr>fs_flag_peer_idx := (fs_flag_peer_idx s)(local_id := (fs_flag_peer_idx s local_id)
                     (remote_id := (cur_flag_idx + 1) mod KUPL_SHM_FENCE_FLAG_WIN_SIZE)),
                   fs_pc := (fs_pc s)(local_id := F_Idle)\<rparr>))"

text \<open>\<open>kupl_fence_linear_wait\<close>: before the loop, one process found at the fence, after the loop.\<close>

definition linear_enter :: "nat \<Rightarrow> nat \<Rightarrow> fence_state \<Rightarrow> fence_state" where
  "linear_enter nproc local_id s =
     (let this_flag_idx = fs_flag_idx s local_id;
          this_flag_val = 1 - kupl_fence_get_flag True nproc local_id 0 this_flag_idx (fs_flags s)
      in s\<lparr>fs_flags := kupl_fence_set_flag True nproc local_id this_flag_val 0 this_flag_idx (fs_flags s),
           fs_pc := (fs_pc s)(local_id := F_All 0 this_flag_val)\<rparr>)"

definition linear_scan :: "nat \<Rightarrow> nat \<Rightarrow> nat \<Rightarrow> int \<Rightarrow> fence_state \<Rightarrow> fence_state option" where
  "linear_scan nproc local_id p_i this_flag_val s =
     (if p_i < nproc \<and>
         kupl_fence_get_flag True nproc p_i 0 (fs_flag_idx s local_id) (fs_flags s) = this_flag_val
      then Some (s\<lparr>fs_pc := (fs_pc s)(local_id := F_All (p_i + 1) this_flag_val)\<rparr>)
      else None)"

definition linear_leave :: "nat \<Rightarrow> nat \<Rightarrow> nat \<Rightarrow> fence_state \<Rightarrow> fence_state option" where
  "linear_leave nproc local_id p_i s =
     (if p_i < nproc then None
      else Some (s\<lparr>fs_flag_idx := (fs_flag_idx s)(local_id := 1 - fs_flag_idx s local_id),
                   fs_pc := (fs_pc s)(local_id := F_Idle)\<rparr>))"

definition fence_step :: "nat \<Rightarrow> fence_event \<Rightarrow> fence_state \<Rightarrow> fence_state option" where
  "fence_step nproc ev s =
     (case ev of
        Enter_Peer p q \<Rightarrow>
          if p < nproc \<and> q < nproc \<and> p \<noteq> q \<and> fs_pc s p = F_Idle then Some (peer_enter nproc p q s) else None
      | Leave_Peer p q \<Rightarrow>
          (case fs_pc s p of F_Peer q' v \<Rightarrow> if p < nproc \<and> q' = q then peer_leave nproc p q v s else None
           | _ \<Rightarrow> None)
      | Enter_All p \<Rightarrow> if p < nproc \<and> fs_pc s p = F_Idle then Some (linear_enter nproc p s) else None
      | Scan p \<Rightarrow>
          (case fs_pc s p of F_All i v \<Rightarrow> if p < nproc then linear_scan nproc p i v s else None | _ \<Rightarrow> None)
      | Leave_All p \<Rightarrow>
          (case fs_pc s p of F_All i v \<Rightarrow> if p < nproc then linear_leave nproc p i s else None | _ \<Rightarrow> None))"

fun fence_run :: "nat \<Rightarrow> fence_event list \<Rightarrow> fence_state \<Rightarrow> fence_state option" where
  "fence_run nproc [] s = Some s"
| "fence_run nproc (ev # evs) s =
     (case fence_step nproc ev s of None \<Rightarrow> None | Some s' \<Rightarrow> fence_run nproc evs s')"

text \<open>\<open>kupl_shm_fence_create\<close> clears the flags, \<open>kupl_fence_create\<close> and the peer fence the indices.\<close>

definition fence_init :: fence_state where
  "fence_init = \<lparr>fs_flags = \<lambda>p l. 0, fs_flag_idx = \<lambda>p. 0, fs_flag_peer_idx = \<lambda>p q. 0, fs_pc = \<lambda>p. F_Idle\<rparr>"

section \<open>The invariant\<close>

text \<open>
  How often a process has entered and left a fence decides its flags: flag \<open>i\<close> of \<open>w\<close> flags that
  are toggled in turn has been toggled \<open>(e + w - 1 - i) div w\<close> times after \<open>e\<close> entries.
\<close>

definition flag_at :: "nat \<Rightarrow> nat \<Rightarrow> nat \<Rightarrow> int" where
  "flag_at w i e = int ((e + w - 1 - i) div w mod 2)"

definition inside_peer :: "fence_state \<Rightarrow> nat \<Rightarrow> nat \<Rightarrow> nat" where
  "inside_peer s p q = (case fs_pc s p of F_Peer q' v \<Rightarrow> if q' = q then 1 else 0 | _ \<Rightarrow> 0)"

definition inside_all :: "fence_state \<Rightarrow> nat \<Rightarrow> nat" where
  "inside_all s p = (case fs_pc s p of F_All i v \<Rightarrow> 1 | _ \<Rightarrow> 0)"

text \<open>\<open>le p q\<close> and \<open>la p\<close> are the numbers of peer fences and of fences of all a process has left.\<close>

definition fence_inv :: "nat \<Rightarrow> fence_state \<Rightarrow> (nat \<Rightarrow> nat \<Rightarrow> nat) \<Rightarrow> (nat \<Rightarrow> nat) \<Rightarrow> bool" where
  "fence_inv nproc s le la \<longleftrightarrow>
     (\<forall>p < nproc. \<forall>q < nproc.
        fs_flag_peer_idx s p q = le p q mod 3 \<and>
        (\<forall>i < 3. fs_flags s p (flag_line False nproc q i) = flag_at 3 i (le p q + inside_peer s p q)) \<and>
        (\<forall>v. fs_pc s p = F_Peer q v \<longrightarrow> v = int ((le p q div 3 + 1) mod 2)) \<and>
        le p q \<le> le q p + inside_peer s q p) \<and>
     (\<forall>p < nproc. fs_flag_idx s p = la p mod 2 \<and>
        (\<forall>i < 2. fs_flags s p (flag_line True nproc 0 i) = flag_at 2 i (la p + inside_all s p)) \<and>
        (\<forall>i v. fs_pc s p = F_All i v \<longrightarrow> v = int ((la p div 2 + 1) mod 2) \<and>
           (\<forall>q < i. q < nproc \<longrightarrow> la p + 1 \<le> la q + inside_all s q)) \<and>
        (\<forall>q < nproc. la p \<le> la q + inside_all s q))"

lemma flip_parity: "1 - int (n mod 2) = int (Suc n mod 2)"
  by (cases "even n") (simp_all add: mod2_eq_if)

lemma shifted_mod_zero:
  fixes w :: nat
  assumes "i < w"
  shows "(e + (w - i)) mod w = 0 \<longleftrightarrow> i = e mod w"
proof -
  have r: "e mod w < w" using assms by simp
  have "(e + (w - i)) mod w = (e mod w + (w - i)) mod w" by (simp add: mod_simps)
  also have "\<dots> = 0 \<longleftrightarrow> i = e mod w"
  proof (cases "e mod w < i")
    case True
    hence "e mod w + (w - i) < w" "0 < e mod w + (w - i)" using assms by auto
    thus ?thesis using True assms by auto
  next
    case False
    hence eq: "e mod w + (w - i) = w + (e mod w - i)" using assms by simp
    have "(w + (e mod w - i)) mod w = e mod w - i" using r by simp
    thus ?thesis using False eq by auto
  qed
  finally show ?thesis .
qed

lemma flag_at_next:
  assumes "i < w"
  shows "flag_at w i (Suc e) = (if i = e mod w then 1 - flag_at w i e else flag_at w i e)"
proof -
  have x: "Suc e + w - 1 - i = Suc (e + w - 1 - i)" "Suc (e + w - 1 - i) = e + (w - i)" using assms by auto
  have "Suc (e + w - 1 - i) div w = (if i = e mod w then Suc ((e + w - 1 - i) div w) else (e + w - 1 - i) div w)"
    using shifted_mod_zero[OF assms, of e] unfolding div_Suc x(2)[symmetric] by simp
  thus ?thesis unfolding flag_at_def x(1) by (simp add: flip_parity)
qed

text \<open>The value a process waits for is shown by those that have entered the same fence.\<close>

lemma flag_at_meet:
  assumes "2 \<le> w" "n \<le> e" "e \<le> n + 2"
  shows "flag_at w (n mod w) e = int ((n div w + 1) mod 2) \<longleftrightarrow> Suc n \<le> e"
proof -
  have n: "n = w * (n div w) + n mod w" "n mod w < w" using assms(1) by auto
  have le: "n mod w \<le> n" by simp
  have d: "(w * (n div w) + k) div w = n div w + k div w" for k using assms(1) by simp
  have x: "n + w - 1 - n mod w = w * (n div w) + (w - 1)" "n + 1 + w - 1 - n mod w = w * (n div w) + w"
    "n + 2 + w - 1 - n mod w = w * (n div w) + (w + 1)" using n by linarith+
  have f: "flag_at w (n mod w) n = int (n div w mod 2)" "flag_at w (n mod w) (n + 1) = int ((n div w + 1) mod 2)"
    "flag_at w (n mod w) (n + 2) = int ((n div w + 1) mod 2)"
    using assms(1) unfolding flag_at_def x d by (simp_all add: div_Suc mod_Suc)
  have "e = n \<or> e = n + 1 \<or> e = n + 2" using assms by auto
  moreover have "int (n div w mod 2) \<noteq> int ((n div w + 1) mod 2)" by (simp add: mod2_eq_if)
  ultimately show ?thesis using f by auto
qed

lemma flag_at_meet3: "n \<le> e \<Longrightarrow> e \<le> n + 2 \<Longrightarrow> flag_at 3 (n mod 3) e = int ((n div 3 + 1) mod 2) \<longleftrightarrow> Suc n \<le> e"
  and flag_at_meet2: "n \<le> e \<Longrightarrow> e \<le> n + 2 \<Longrightarrow> flag_at 2 (n mod 2) e = int ((n div 2 + 1) mod 2) \<longleftrightarrow> Suc n \<le> e"
  using flag_at_meet[of 3 n e] flag_at_meet[of 2 n e] by simp_all

text \<open>The value a process sets when it enters.\<close>

lemma flag_at_enter: "2 \<le> w \<Longrightarrow> 1 - flag_at w (n mod w) n = int ((n div w + 1) mod 2)"
proof -
  assume w: "2 \<le> w"
  have "flag_at w (n mod w) (Suc n) = 1 - flag_at w (n mod w) n"
    using flag_at_next[of "n mod w" w n] w by simp
  thus ?thesis using flag_at_meet[OF w, of n "Suc n"] by simp
qed

lemma fence_invD:
  assumes "fence_inv nproc s le la" "p < nproc"
  shows "q < nproc \<Longrightarrow> fs_flag_peer_idx s p q = le p q mod 3"
    and "q < nproc \<Longrightarrow> i < 3 \<Longrightarrow> fs_flags s p (flag_line False nproc q i) = flag_at 3 i (le p q + inside_peer s p q)"
    and "q < nproc \<Longrightarrow> fs_pc s p = F_Peer q v \<Longrightarrow> v = int ((le p q div 3 + 1) mod 2)"
    and "q < nproc \<Longrightarrow> le p q \<le> le q p + inside_peer s q p"
    and "fs_flag_idx s p = la p mod 2"
    and "i < 2 \<Longrightarrow> fs_flags s p (flag_line True nproc 0 i) = flag_at 2 i (la p + inside_all s p)"
    and "fs_pc s p = F_All j v \<Longrightarrow> v = int ((la p div 2 + 1) mod 2)"
    and "fs_pc s p = F_All j v \<Longrightarrow> q < j \<Longrightarrow> q < nproc \<Longrightarrow> la p + 1 \<le> la q + inside_all s q"
    and "q < nproc \<Longrightarrow> la p \<le> la q + inside_all s q"
  using assms unfolding fence_inv_def by blast+

lemma fence_inv_init: "fence_inv nproc fence_init (\<lambda>p q. 0) (\<lambda>p. 0)"
  by (auto simp: fence_inv_def fence_init_def flag_at_def inside_peer_def inside_all_def)

lemma inside_peer_upd [simp]:
  "inside_peer (s\<lparr>fs_flags := f, fs_pc := (fs_pc s)(p := x)\<rparr>) r q =
     (if r = p then (case x of F_Peer q' v \<Rightarrow> if q' = q then 1 else 0 | _ \<Rightarrow> 0) else inside_peer s r q)"
  "inside_peer (s\<lparr>fs_pc := (fs_pc s)(p := x)\<rparr>) r q =
     (if r = p then (case x of F_Peer q' v \<Rightarrow> if q' = q then 1 else 0 | _ \<Rightarrow> 0) else inside_peer s r q)"
  "inside_peer (s\<lparr>fs_flag_peer_idx := g, fs_pc := (fs_pc s)(p := x)\<rparr>) r q =
     (if r = p then (case x of F_Peer q' v \<Rightarrow> if q' = q then 1 else 0 | _ \<Rightarrow> 0) else inside_peer s r q)"
  "inside_peer (s\<lparr>fs_flag_idx := h, fs_pc := (fs_pc s)(p := x)\<rparr>) r q =
     (if r = p then (case x of F_Peer q' v \<Rightarrow> if q' = q then 1 else 0 | _ \<Rightarrow> 0) else inside_peer s r q)"
  by (simp_all add: inside_peer_def)

lemma inside_all_upd [simp]:
  "inside_all (s\<lparr>fs_flags := f, fs_pc := (fs_pc s)(p := x)\<rparr>) r =
     (if r = p then (case x of F_All i v \<Rightarrow> 1 | _ \<Rightarrow> 0) else inside_all s r)"
  "inside_all (s\<lparr>fs_pc := (fs_pc s)(p := x)\<rparr>) r =
     (if r = p then (case x of F_All i v \<Rightarrow> 1 | _ \<Rightarrow> 0) else inside_all s r)"
  "inside_all (s\<lparr>fs_flag_peer_idx := g, fs_pc := (fs_pc s)(p := x)\<rparr>) r =
     (if r = p then (case x of F_All i v \<Rightarrow> 1 | _ \<Rightarrow> 0) else inside_all s r)"
  "inside_all (s\<lparr>fs_flag_idx := h, fs_pc := (fs_pc s)(p := x)\<rparr>) r =
     (if r = p then (case x of F_All i v \<Rightarrow> 1 | _ \<Rightarrow> 0) else inside_all s r)"
  by (simp_all add: inside_all_def)

lemma idle_outside [simp]: "fs_pc s p = F_Idle \<Longrightarrow> inside_peer s p q = 0"
  "fs_pc s p = F_Idle \<Longrightarrow> inside_all s p = 0"
  "fs_pc s p = F_Peer q' v \<Longrightarrow> inside_peer s p q = (if q' = q then 1 else 0)"
  "fs_pc s p = F_Peer q' v \<Longrightarrow> inside_all s p = 0"
  "fs_pc s p = F_All i w \<Longrightarrow> inside_peer s p q = 0"
  "fs_pc s p = F_All i w \<Longrightarrow> inside_all s p = 1"
  by (simp_all add: inside_peer_def inside_all_def)

lemma peer_enter_inv:
  assumes inv: "fence_inv nproc s le la" and p: "p < nproc" "q < nproc" "p \<noteq> q" "fs_pc s p = F_Idle"
  shows "fence_inv nproc (peer_enter nproc p q s) le la"
proof -
  let ?i = "le p q mod 3" and ?v = "int ((le p q div 3 + 1) mod 2)"
  have v: "1 - fs_flags s p (flag_line False nproc q ?i) = ?v"
    using fence_invD(2)[OF inv p(1,2), of ?i] p(4) flag_at_enter[of 3 "le p q"] by simp
  have eq: "peer_enter nproc p q s = s\<lparr>fs_flags := (fs_flags s)(p := (fs_flags s p)(flag_line False nproc q ?i := ?v)),
      fs_pc := (fs_pc s)(p := F_Peer q ?v)\<rparr>"
    using p v fence_invD(1)[OF inv p(1,2)]
    by (simp add: peer_enter_def kupl_fence_get_flag_def kupl_fence_set_flag_def Let_def)
  have new: "flag_at 3 i (Suc (le p q)) = (if i = ?i then ?v else flag_at 3 i (le p q))" if "i < 3" for i
    using flag_at_next[OF that, of "le p q"] flag_at_enter[of 3 "le p q"] by auto
  have old: "fs_flags s r (flag_line False nproc u i) = flag_at 3 i (le r u + inside_peer s r u)"
    if "r < nproc" "u < nproc" "i < 3" for r u i using fence_invD(2)[OF inv] that by blast
  show ?thesis
    unfolding fence_inv_def
  proof (intro conjI allI impI, goal_cases)
    case (1 r u) thus ?case using fence_invD(1)[OF inv] by (simp add: eq)
  next
    case (2 r u i)
    thus ?case using old[of r u i] new[of i] p by (auto simp: eq flag_line_inj)
  next
    case (3 r u w) thus ?case using fence_invD(3)[OF inv 3(1,2)] p by (auto simp: eq split: if_splits)
  next
    case (4 r u) thus ?case using fence_invD(4)[OF inv 4] p by (auto simp: eq)
  next
    case (5 r) thus ?case using fence_invD(5)[OF inv] by (simp add: eq)
  next
    case (6 r i)
    thus ?case using fence_invD(6)[OF inv 6] p flag_line_disjoint(2)[of q nproc ?i i]
      by (auto simp: eq KUPL_SHM_FENCE_FLAG_WIN_SIZE_def)
  next
    case (7 r i w) thus ?case using fence_invD(7)[OF inv 7(1)] by (auto simp: eq split: if_splits)
  next
    case (8 r i w u) thus ?case using fence_invD(8)[OF inv 8(1) _ 8(3,4)] p by (auto simp: eq split: if_splits)
  next
    case (9 r u) thus ?case using fence_invD(9)[OF inv 9] p by (auto simp: eq)
  qed
qed

lemma inside_le: "inside_peer s p q \<le> 1" "inside_all s p \<le> 1"
  by (auto simp: inside_peer_def inside_all_def split: fence_pc.split)

text \<open>A process that waits for a partner can leave exactly if the partner has entered as often.\<close>

lemma peer_guard:
  assumes inv: "fence_inv nproc s le la" and p: "p < nproc" "q < nproc" "fs_pc s p = F_Peer q v"
  shows "kupl_fence_get_flag False nproc q p (fs_flag_peer_idx s p q) (fs_flags s) = v \<longleftrightarrow>
         Suc (le p q) \<le> le q p + inside_peer s q p"
proof -
  have "le q p \<le> le p q + 1" using fence_invD(4)[OF inv p(2,1)] p(3) by simp
  hence e: "le p q \<le> le q p + inside_peer s q p" "le q p + inside_peer s q p \<le> le p q + 2"
    using fence_invD(4)[OF inv p(1,2)] inside_le(1)[of s q p] by auto
  show ?thesis
    using fence_invD(1)[OF inv p(1,2)] fence_invD(2)[OF inv p(2,1), of "le p q mod 3"]
      fence_invD(3)[OF inv p(1,2,3)] flag_at_meet3[OF e] p(2)
    by (simp add: kupl_fence_get_flag_def)
qed

lemma peer_leave_inv:
  assumes inv: "fence_inv nproc s le la" and p: "p < nproc" "q < nproc" "p \<noteq> q" "fs_pc s p = F_Peer q v"
    and leave: "peer_leave nproc p q v s = Some s'"
  shows "fence_inv nproc s' (le(p := (le p)(q := Suc (le p q)))) la"
proof -
  have met: "Suc (le p q) \<le> le q p + inside_peer s q p"
    using leave peer_guard[OF inv p(1,2,4)] by (auto simp: peer_leave_def Let_def split: if_splits)
  have eq: "s' = s\<lparr>fs_flag_peer_idx := (fs_flag_peer_idx s)(p := (fs_flag_peer_idx s p)(q := Suc (le p q) mod 3)),
      fs_pc := (fs_pc s)(p := F_Idle)\<rparr>"
    using leave fence_invD(1)[OF inv p(1,2)]
    by (auto simp: peer_leave_def Let_def KUPL_SHM_FENCE_FLAG_WIN_SIZE_def mod_simps split: if_splits)
  show ?thesis
    unfolding fence_inv_def
  proof (intro conjI allI impI, goal_cases)
    case (1 r u) thus ?case using fence_invD(1)[OF inv] by (simp add: eq)
  next
    case (2 r u i) thus ?case using fence_invD(2)[OF inv 2] p by (auto simp: eq)
  next
    case (3 r u w) thus ?case using fence_invD(3)[OF inv 3(1,2)] by (auto simp: eq split: if_splits)
  next
    case (4 r u) thus ?case using fence_invD(4)[OF inv 4] p met by (auto simp: eq)
  next
    case (5 r) thus ?case using fence_invD(5)[OF inv] by (simp add: eq)
  next
    case (6 r i) thus ?case using fence_invD(6)[OF inv 6] p by (auto simp: eq)
  next
    case (7 r i w) thus ?case using fence_invD(7)[OF inv 7(1)] by (auto simp: eq split: if_splits)
  next
    case (8 r i w u) thus ?case using fence_invD(8)[OF inv 8(1) _ 8(3,4)] p by (auto simp: eq split: if_splits)
  next
    case (9 r u) thus ?case using fence_invD(9)[OF inv 9] p by (auto simp: eq)
  qed
qed

lemma linear_enter_inv:
  assumes inv: "fence_inv nproc s le la" and p: "p < nproc" "fs_pc s p = F_Idle"
  shows "fence_inv nproc (linear_enter nproc p s) le la"
proof -
  let ?i = "la p mod 2" and ?v = "int ((la p div 2 + 1) mod 2)"
  have v: "1 - fs_flags s p (flag_line True nproc 0 ?i) = ?v"
    using fence_invD(6)[OF inv p(1), of ?i] p(2) flag_at_enter[of 2 "la p"] by simp
  have eq: "linear_enter nproc p s = s\<lparr>fs_flags := (fs_flags s)(p := (fs_flags s p)(flag_line True nproc 0 ?i := ?v)),
      fs_pc := (fs_pc s)(p := F_All 0 ?v)\<rparr>"
    using p v fence_invD(5)[OF inv p(1)]
    by (simp add: linear_enter_def kupl_fence_get_flag_def kupl_fence_set_flag_def Let_def)
  have new: "flag_at 2 i (Suc (la p)) = (if i = ?i then ?v else flag_at 2 i (la p))" if "i < 2" for i
    using flag_at_next[OF that, of "la p"] flag_at_enter[of 2 "la p"] by auto
  show ?thesis
    unfolding fence_inv_def
  proof (intro conjI allI impI, goal_cases)
    case (1 r u) thus ?case using fence_invD(1)[OF inv] by (simp add: eq)
  next
    case (2 r u i)
    thus ?case using fence_invD(2)[OF inv 2] p flag_line_disjoint(1)[of u nproc i ?i]
      by (auto simp: eq KUPL_SHM_FENCE_FLAG_WIN_SIZE_def)
  next
    case (3 r u w) thus ?case using fence_invD(3)[OF inv 3(1,2)] by (auto simp: eq split: if_splits)
  next
    case (4 r u) thus ?case using fence_invD(4)[OF inv 4] p by (auto simp: eq)
  next
    case (5 r) thus ?case using fence_invD(5)[OF inv] by (simp add: eq)
  next
    case (6 r i) thus ?case using fence_invD(6)[OF inv 6] new[OF 6(2)] p by (auto simp: eq)
  next
    case (7 r i w) thus ?case using fence_invD(7)[OF inv 7(1)] by (auto simp: eq split: if_splits)
  next
    case (8 r i w u) thus ?case using fence_invD(8)[OF inv 8(1) _ 8(3,4)] p by (auto simp: eq split: if_splits)
  next
    case (9 r u) thus ?case using fence_invD(9)[OF inv 9] p by (auto simp: eq)
  qed
qed

lemma linear_guard:
  assumes inv: "fence_inv nproc s le la" and p: "p < nproc" "i < nproc" "fs_pc s p = F_All i v"
  shows "kupl_fence_get_flag True nproc i 0 (fs_flag_idx s p) (fs_flags s) = v \<longleftrightarrow>
         Suc (la p) \<le> la i + inside_all s i"
proof -
  have "la i \<le> la p + 1" using fence_invD(9)[OF inv p(2,1)] p(3) by simp
  hence e: "la p \<le> la i + inside_all s i" "la i + inside_all s i \<le> la p + 2"
    using fence_invD(9)[OF inv p(1,2)] inside_le(2)[of s i] by auto
  show ?thesis
    using fence_invD(5)[OF inv p(1)] fence_invD(6)[OF inv p(2), of "la p mod 2"]
      fence_invD(7)[OF inv p(1,3)] flag_at_meet2[OF e] p(2)
    by (simp add: kupl_fence_get_flag_def)
qed

lemma linear_scan_inv:
  assumes inv: "fence_inv nproc s le la" and p: "p < nproc" "fs_pc s p = F_All i v"
    and scan: "linear_scan nproc p i v s = Some s'"
  shows "fence_inv nproc s' le la"
proof -
  have i: "i < nproc" and eq: "s' = s\<lparr>fs_pc := (fs_pc s)(p := F_All (Suc i) v)\<rparr>"
    using scan by (auto simp: linear_scan_def split: if_splits)
  have met: "Suc (la p) \<le> la i + inside_all s i"
    using scan linear_guard[OF inv p(1) i p(2)] by (auto simp: linear_scan_def split: if_splits)
  show ?thesis
    unfolding fence_inv_def
  proof (intro conjI allI impI, goal_cases)
    case (1 r u) thus ?case using fence_invD(1)[OF inv] by (simp add: eq)
  next
    case (2 r u i) thus ?case using fence_invD(2)[OF inv 2] p by (auto simp: eq)
  next
    case (3 r u w) thus ?case using fence_invD(3)[OF inv 3(1,2)] by (auto simp: eq split: if_splits)
  next
    case (4 r u) thus ?case using fence_invD(4)[OF inv 4] p by (auto simp: eq)
  next
    case (5 r) thus ?case using fence_invD(5)[OF inv] by (simp add: eq)
  next
    case (6 r i) thus ?case using fence_invD(6)[OF inv 6] p by (auto simp: eq)
  next
    case (7 r j w) thus ?case using fence_invD(7)[OF inv 7(1)] p by (auto simp: eq split: if_splits)
  next
    case (8 r j w u)
    thus ?case using fence_invD(8)[OF inv 8(1) _ _ 8(4)] p met
      by (auto simp: eq less_Suc_eq split: if_splits)
  next
    case (9 r u) thus ?case using fence_invD(9)[OF inv 9] p by (auto simp: eq)
  qed
qed

lemma linear_leave_inv:
  assumes inv: "fence_inv nproc s le la" and p: "p < nproc" "fs_pc s p = F_All i v"
    and leave: "linear_leave nproc p i s = Some s'"
  shows "fence_inv nproc s' le (la(p := Suc (la p)))"
proof -
  have i: "nproc \<le> i" and eq: "s' = s\<lparr>fs_flag_idx := (fs_flag_idx s)(p := Suc (la p) mod 2),
      fs_pc := (fs_pc s)(p := F_Idle)\<rparr>"
    using leave fence_invD(5)[OF inv p(1)] by (auto simp: linear_leave_def mod2_eq_if split: if_splits)
  have met: "Suc (la p) \<le> la q + inside_all s q" if "q < nproc" for q
    using fence_invD(8)[OF inv p(1,2) _ that] that i by simp
  show ?thesis
    unfolding fence_inv_def
  proof (intro conjI allI impI, goal_cases)
    case (1 r u) thus ?case using fence_invD(1)[OF inv] by (simp add: eq)
  next
    case (2 r u i) thus ?case using fence_invD(2)[OF inv 2] p by (auto simp: eq)
  next
    case (3 r u w) thus ?case using fence_invD(3)[OF inv 3(1,2)] by (auto simp: eq split: if_splits)
  next
    case (4 r u) thus ?case using fence_invD(4)[OF inv 4] p by (auto simp: eq)
  next
    case (5 r) thus ?case using fence_invD(5)[OF inv] by (simp add: eq)
  next
    case (6 r i) thus ?case using fence_invD(6)[OF inv 6] p by (auto simp: eq)
  next
    case (7 r j w) thus ?case using fence_invD(7)[OF inv 7(1)] p by (auto simp: eq split: if_splits)
  next
    case (8 r j w u)
    thus ?case using fence_invD(8)[OF inv 8(1) _ 8(3,4)] p met[OF 8(4)] by (auto simp: eq split: if_splits)
  next
    case (9 r u) thus ?case using fence_invD(9)[OF inv 9] p met[OF 9(2)] by (auto simp: eq)
  qed
qed

section \<open>Runs\<close>

lemma fence_run_append:
  "fence_run nproc (evs @ evs') s =
     (case fence_run nproc evs s of None \<Rightarrow> None | Some s' \<Rightarrow> fence_run nproc evs' s')"
  by (induction evs arbitrary: s) (auto split: option.splits)

definition partner_ok :: "nat \<Rightarrow> fence_state \<Rightarrow> bool" where
  "partner_ok nproc s \<longleftrightarrow> (\<forall>p q v. fs_pc s p = F_Peer q v \<longrightarrow> q < nproc \<and> p \<noteq> q)"

text \<open>The numbers of the invariant are those of the events.\<close>

definition run_inv :: "nat \<Rightarrow> fence_event list \<Rightarrow> fence_state \<Rightarrow> bool" where
  "run_inv nproc evs s \<longleftrightarrow>
     fence_inv nproc s (\<lambda>p q. count_list evs (Leave_Peer p q)) (\<lambda>p. count_list evs (Leave_All p)) \<and>
     partner_ok nproc s \<and>
     (\<forall>p q. count_list evs (Enter_Peer p q) = count_list evs (Leave_Peer p q) + inside_peer s p q) \<and>
     (\<forall>p. count_list evs (Enter_All p) = count_list evs (Leave_All p) + inside_all s p)"

lemma peer_leave_pc:
  "peer_leave nproc p q v s = Some s' \<Longrightarrow>
     \<exists>g. s' = s\<lparr>fs_flag_peer_idx := g, fs_pc := (fs_pc s)(p := F_Idle)\<rparr>"
  by (auto simp: peer_leave_def Let_def split: if_splits)

lemma linear_leave_pc:
  "linear_leave nproc p i s = Some s' \<Longrightarrow>
     \<exists>h. s' = s\<lparr>fs_flag_idx := h, fs_pc := (fs_pc s)(p := F_Idle)\<rparr>"
  by (auto simp: linear_leave_def split: if_splits)

lemma linear_scan_pc:
  "linear_scan nproc p i v s = Some s' \<Longrightarrow> s' = s\<lparr>fs_pc := (fs_pc s)(p := F_All (i + 1) v)\<rparr>"
  by (auto simp: linear_scan_def split: if_splits)

lemma enter_pc:
  "\<exists>f v. peer_enter nproc p q s = s\<lparr>fs_flags := f, fs_pc := (fs_pc s)(p := F_Peer q v)\<rparr>"
  "\<exists>f v. linear_enter nproc p s = s\<lparr>fs_flags := f, fs_pc := (fs_pc s)(p := F_All 0 v)\<rparr>"
  by (auto simp: peer_enter_def linear_enter_def Let_def)

lemma run_inv_step:
  assumes inv: "run_inv nproc evs s" and step: "fence_step nproc ev s = Some s'"
  shows "run_inv nproc (evs @ [ev]) s'"
proof -
  let ?le = "\<lambda>p q. count_list evs (Leave_Peer p q)" and ?la = "\<lambda>p. count_list evs (Leave_All p)"
  have f: "fence_inv nproc s ?le ?la" and po: "partner_ok nproc s"
    and cp: "\<And>p q. count_list evs (Enter_Peer p q) = ?le p q + inside_peer s p q"
    and ca: "\<And>p. count_list evs (Enter_All p) = ?la p + inside_all s p"
    using inv by (auto simp: run_inv_def)
  show ?thesis
  proof (cases ev)
    case (Enter_Peer p q)
    hence st: "p < nproc" "q < nproc" "p \<noteq> q" "fs_pc s p = F_Idle" "s' = peer_enter nproc p q s"
      using step by (auto simp: fence_step_def split: if_splits)
    obtain g v where eq: "s' = s\<lparr>fs_flags := g, fs_pc := (fs_pc s)(p := F_Peer q v)\<rparr>"
      using enter_pc(1)[of nproc p q s] st(5) by auto
    have "fence_inv nproc s' ?le ?la" unfolding st(5) by (rule peer_enter_inv[OF f st(1-4)])
    thus ?thesis using Enter_Peer po cp ca st(1-4) by (auto simp: run_inv_def partner_ok_def eq)
  next
    case (Leave_Peer p q)
    then obtain v where st: "fs_pc s p = F_Peer q v" "p < nproc" "peer_leave nproc p q v s = Some s'"
      using step by (auto simp: fence_step_def split: fence_pc.splits if_splits)
    obtain g where eq: "s' = s\<lparr>fs_flag_peer_idx := g, fs_pc := (fs_pc s)(p := F_Idle)\<rparr>"
      using peer_leave_pc[OF st(3)] by blast
    have q: "q < nproc" "p \<noteq> q" using po st(1) by (auto simp: partner_ok_def)
    have "(\<lambda>r u. count_list (evs @ [ev]) (Leave_Peer r u)) = ?le(p := (?le p)(q := Suc (?le p q)))"
      by (auto simp: fun_eq_iff Leave_Peer)
    hence "fence_inv nproc s' (\<lambda>r u. count_list (evs @ [ev]) (Leave_Peer r u)) ?la"
      using peer_leave_inv[OF f st(2) q st(1,3)] by simp
    thus ?thesis using Leave_Peer po cp ca st(1) by (auto simp: run_inv_def partner_ok_def eq)
  next
    case (Enter_All p)
    hence st: "p < nproc" "fs_pc s p = F_Idle" "s' = linear_enter nproc p s"
      using step by (auto simp: fence_step_def split: if_splits)
    obtain g v where eq: "s' = s\<lparr>fs_flags := g, fs_pc := (fs_pc s)(p := F_All 0 v)\<rparr>"
      using enter_pc(2)[of nproc p s] st(3) by auto
    have "fence_inv nproc s' ?le ?la" unfolding st(3) by (rule linear_enter_inv[OF f st(1,2)])
    thus ?thesis using Enter_All po cp ca st(1,2) by (auto simp: run_inv_def partner_ok_def eq)
  next
    case (Scan p)
    then obtain i v where st: "fs_pc s p = F_All i v" "p < nproc" "linear_scan nproc p i v s = Some s'"
      using step by (auto simp: fence_step_def split: fence_pc.splits if_splits)
    note eq = linear_scan_pc[OF st(3)]
    have "fence_inv nproc s' ?le ?la" by (rule linear_scan_inv[OF f st(2,1,3)])
    thus ?thesis using Scan po cp ca st(1) by (auto simp: run_inv_def partner_ok_def eq)
  next
    case (Leave_All p)
    then obtain i v where st: "fs_pc s p = F_All i v" "p < nproc" "linear_leave nproc p i s = Some s'"
      using step by (auto simp: fence_step_def split: fence_pc.splits if_splits)
    obtain h where eq: "s' = s\<lparr>fs_flag_idx := h, fs_pc := (fs_pc s)(p := F_Idle)\<rparr>"
      using linear_leave_pc[OF st(3)] by blast
    have "(\<lambda>r. count_list (evs @ [ev]) (Leave_All r)) = ?la(p := Suc (?la p))"
      by (auto simp: fun_eq_iff Leave_All)
    hence "fence_inv nproc s' ?le (\<lambda>r. count_list (evs @ [ev]) (Leave_All r))"
      using linear_leave_inv[OF f st(2,1,3)] by simp
    thus ?thesis using Leave_All po cp ca st(1) by (auto simp: run_inv_def partner_ok_def eq)
  qed
qed

lemma run_inv_run: "fence_run nproc evs fence_init = Some s \<Longrightarrow> run_inv nproc evs s"
proof (induction evs arbitrary: s rule: rev_induct)
  case Nil
  hence s: "s = fence_init" by simp
  show ?case
    using fence_inv_init[of nproc]
    by (simp add: run_inv_def s partner_ok_def fence_init_def inside_peer_def inside_all_def)
next
  case (snoc ev evs)
  from snoc.prems obtain s1 where "fence_run nproc evs fence_init = Some s1" "fence_step nproc ev s1 = Some s"
    by (auto simp: fence_run_append split: option.splits)
  thus ?case using snoc.IH run_inv_step by blast
qed

section \<open>The properties\<close>

text \<open>
  C37: The fences synchronise.  Under every interleaving of processes that use them in any order, a
  process leaves its \<open>n\<close>-th meeting with a partner only after the partner has entered its \<open>n\<close>-th
  meeting with it, and its \<open>n\<close>-th fence of all only after every process has entered its \<open>n\<close>-th.
\<close>

theorem fences_meet:
  assumes "fence_run nproc evs fence_init = Some s" and "p < nproc" and "q < nproc"
  shows "count_list evs (Leave_Peer p q) \<le> count_list evs (Enter_Peer q p) \<and>
         count_list evs (Leave_All p) \<le> count_list evs (Enter_All q)"
  using run_inv_run[OF assms(1)] fence_invD(4,9)[OF _ assms(2,3)] by (auto simp: run_inv_def)

definition fence_example :: "fence_event list" where
  "fence_example = [Enter_Peer 0 1, Enter_Peer 1 0, Leave_Peer 0 1, Enter_All 0, Leave_Peer 1 0,
     Scan 0, Enter_All 1, Scan 0, Leave_All 0, Enter_Peer 0 1]"

lemma fence_example_runs: "\<exists>s. fence_run 2 fence_example fence_init = Some s"
proof -
  have "fence_run 2 fence_example fence_init \<noteq> None" by code_simp
  thus ?thesis by auto
qed

theorem fences_meet_witness:
  "count_list fence_example (Leave_Peer 0 1) \<le> count_list fence_example (Enter_Peer 1 0) \<and>
   count_list fence_example (Leave_All 0) \<le> count_list fence_example (Enter_All 1)"
  using fences_meet[of 2 fence_example _ 0 1] fence_example_runs by auto

lemma scan_to_end:
  assumes "\<And>q. q < nproc \<Longrightarrow> kupl_fence_get_flag True nproc q 0 (fs_flag_idx s p) (fs_flags s) = v"
    and "fs_pc s p = F_All i v" "p < nproc"
  shows "\<exists>s'. fence_run nproc (replicate (nproc - i) (Scan p) @ [Leave_All p]) s = Some s' \<and> fs_pc s' p = F_Idle"
  using assms
proof (induction "nproc - i" arbitrary: i s)
  case 0
  thus ?case by (simp add: fence_step_def linear_leave_def)
next
  case (Suc n)
  let ?s = "s\<lparr>fs_pc := (fs_pc s)(p := F_All (i + 1) v)\<rparr>"
  have i: "i < nproc" "n = nproc - (i + 1)" using Suc.hyps(2) by auto
  have "fence_step nproc (Scan p) s = Some ?s"
    using Suc.prems i by (simp add: fence_step_def linear_scan_def)
  moreover have "replicate (nproc - i) (Scan p) = Scan p # replicate (nproc - (i + 1)) (Scan p)"
    using Suc.hyps(2) i(2) by (metis replicate_Suc)
  ultimately show ?case using Suc.hyps(1)[OF i(2), of ?s] Suc.prems by simp
qed

text \<open>
  C38: The fences open.  A process that waits for a partner can leave as soon as the partner has
  entered as many meetings with it, and one that waits for all as soon as all have entered as many
  fences: the flags it waits for then have the value it waits for, and keep it.
\<close>

theorem fences_open:
  assumes run: "fence_run nproc evs fence_init = Some s" and p: "p < nproc"
  shows "(fs_pc s p = F_Peer q v \<and> count_list evs (Enter_Peer p q) \<le> count_list evs (Enter_Peer q p) \<longrightarrow>
            (\<exists>s'. fence_step nproc (Leave_Peer p q) s = Some s')) \<and>
         (fs_pc s p = F_All i v \<and> (\<forall>r < nproc. count_list evs (Enter_All p) \<le> count_list evs (Enter_All r)) \<longrightarrow>
            (\<exists>s'. fence_run nproc (replicate (nproc - i) (Scan p) @ [Leave_All p]) s = Some s' \<and>
                  fs_pc s' p = F_Idle))"
proof (intro conjI impI)
  have inv: "run_inv nproc evs s" by (rule run_inv_run[OF run])
  hence f: "fence_inv nproc s (\<lambda>p q. count_list evs (Leave_Peer p q)) (\<lambda>p. count_list evs (Leave_All p))"
    by (simp add: run_inv_def)
  {
    assume a: "fs_pc s p = F_Peer q v \<and> count_list evs (Enter_Peer p q) \<le> count_list evs (Enter_Peer q p)"
    hence q: "q < nproc" using inv by (auto simp: run_inv_def partner_ok_def)
    have "Suc (count_list evs (Leave_Peer p q)) \<le> count_list evs (Leave_Peer q p) + inside_peer s q p"
      using inv a by (auto simp: run_inv_def)
    thus "\<exists>s'. fence_step nproc (Leave_Peer p q) s = Some s'"
      using peer_guard[OF f p q conjunct1[OF a]] a p by (simp add: fence_step_def peer_leave_def Let_def)
  next
    assume a: "fs_pc s p = F_All i v \<and> (\<forall>r < nproc. count_list evs (Enter_All p) \<le> count_list evs (Enter_All r))"
    have pc: "fs_pc s p = F_All i v" using a by simp
    have "kupl_fence_get_flag True nproc r 0 (fs_flag_idx s p) (fs_flags s) = v" if r: "r < nproc" for r
    proof -
      have "Suc (count_list evs (Leave_All p)) \<le> count_list evs (Leave_All r) + inside_all s r"
        using inv a r by (auto simp: run_inv_def)
      moreover have "count_list evs (Leave_All r) \<le> count_list evs (Leave_All p) + 1"
        using fence_invD(9)[OF f r p] pc by simp
      ultimately show ?thesis
        using fence_invD(5)[OF f p] fence_invD(6)[OF f r, of "count_list evs (Leave_All p) mod 2"]
          fence_invD(7)[OF f p pc] r inside_le(2)[of s r]
          flag_at_meet2[of "count_list evs (Leave_All p)" "count_list evs (Leave_All r) + inside_all s r"]
        by (simp add: kupl_fence_get_flag_def)
    qed
    from scan_to_end[OF this pc p]
    show "\<exists>s'. fence_run nproc (replicate (nproc - i) (Scan p) @ [Leave_All p]) s = Some s' \<and> fs_pc s' p = F_Idle" .
  }
qed

lemma fence_example2:
  "case fence_run 2 [Enter_Peer 0 1, Enter_Peer 1 0] fence_init of None \<Rightarrow> False | Some s \<Rightarrow> fs_pc s 0 = F_Peer 1 1"
  by code_simp

theorem fences_open_witness:
  "\<exists>s s'. fence_run 2 [Enter_Peer 0 1, Enter_Peer 1 0] fence_init = Some s \<and>
          fence_step 2 (Leave_Peer 0 1) s = Some s'"
proof -
  obtain s where "fence_run 2 [Enter_Peer 0 1, Enter_Peer 1 0] fence_init = Some s" "fs_pc s 0 = F_Peer 1 1"
    using fence_example2 by (auto split: option.splits)
  thus ?thesis using fences_open[of 2 "[Enter_Peer 0 1, Enter_Peer 1 0]" s 0 1 1] by auto
qed

end
