(* ===== verification/Kupl_Shm_Fence_Rd.thy ===== *)
theory Kupl_Shm_Fence_Rd
  imports Kupl_Shm_Fence Kupl_Shm_Halving
begin

text \<open>
  The default fence of all processes, recursive doubling (\<open>memory/shm/fence/kupl_fence_rd.cpp\<close>).
  The first \<open>2 ^ n\<close> processes exchange their arrival in \<open>n\<close> stages with partners at the distances
  1, 2, 4, ...; each of the others meets one of these before the stages and once more after them.
  A process counts its stages in one of three flags; the flag of the fence before is cleared when
  the stages are over.

  The meetings are the peer fences of \<open>Kupl_Shm_Fence\<close>, here by what is proved of them there: a
  process can leave its \<open>n\<close>-th meeting exactly when its partner has entered as many; no other peer
  fence is called between two processes while one of them is in the fence of all.  \<open>rd_flags s p i\<close> is
  the flag \<open>flag_line True nproc 0 i\<close> in the window of process \<open>p\<close>.  The fields \<open>rd_in\<close> and
  \<open>rd_out\<close> count the calls of a process and their ends.
\<close>

section \<open>The functions of the code\<close>

text \<open>The loop of \<open>kupl_fence_rd_create\<close>.\<close>

fun rd_create_loop :: "nat \<Rightarrow> nat \<Rightarrow> nat \<Rightarrow> nat \<times> nat" where
  "rd_create_loop tmp near loops =
     (if tmp > 1 then rd_create_loop (tmp div 2) (2 * near) (loops + 1) else (near, loops))"

declare rd_create_loop.simps [simp del]

definition kupl_fence_rd_create :: "nat \<Rightarrow> nat \<times> nat" where
  "kupl_fence_rd_create nproc = rd_create_loop nproc 1 0"

definition near_poweroftwo :: "nat \<Rightarrow> nat" where "near_poweroftwo nproc = fst (kupl_fence_rd_create nproc)"
definition loop_times :: "nat \<Rightarrow> nat" where "loop_times nproc = snd (kupl_fence_rd_create nproc)"

definition rd_paired :: "nat \<Rightarrow> nat \<Rightarrow> bool" where
  "rd_paired nproc local_id \<longleftrightarrow>
     int nproc - (int nproc - int (near_poweroftwo nproc)) * 2 \<le> int local_id"

definition rd_partner :: "nat \<Rightarrow> nat \<Rightarrow> nat" where
  "rd_partner nproc local_id =
     (if local_id < near_poweroftwo nproc then local_id + (nproc - near_poweroftwo nproc)
      else local_id - (nproc - near_poweroftwo nproc))"

definition rd_peer_idx :: "nat \<Rightarrow> nat \<Rightarrow> nat" where
  "rd_peer_idx local_id i =
     (let leap = 2 ^ i in
      if local_id div leap mod 2 = 0 then local_id + leap else local_id - leap)"

datatype rd_pc = R_Idle | R_Pre | R_Next nat | R_Stage nat int | R_Last | R_Post

record rd_state =
  rd_flags :: "nat \<Rightarrow> nat \<Rightarrow> int"
  rd_flag_idx :: "nat \<Rightarrow> nat"
  rd_meets :: "nat \<Rightarrow> nat"
  rd_pc_of :: "nat \<Rightarrow> rd_pc"
  rd_in :: "nat \<Rightarrow> nat"
  rd_out :: "nat \<Rightarrow> nat"

text \<open>The loop test of stage \<open>i\<close>: its flag is counted up, or the stages are over.\<close>

definition rd_stage :: "nat \<Rightarrow> nat \<Rightarrow> nat \<Rightarrow> rd_state \<Rightarrow> rd_state" where
  "rd_stage nproc p i s =
     (let this_flag_idx = rd_flag_idx s p in
      if i < loop_times nproc then
        (let this_flag_val = 1 + rd_flags s p this_flag_idx in
         s\<lparr>rd_flags := (rd_flags s)(p := (rd_flags s p)(this_flag_idx := this_flag_val)),
           rd_pc_of := (rd_pc_of s)(p := R_Stage i this_flag_val)\<rparr>)
      else
        (let s' = s\<lparr>rd_flags := (rd_flags s)(p := (rd_flags s p)((2 + this_flag_idx) mod 3 := 0)),
                    rd_flag_idx := (rd_flag_idx s)(p := (1 + this_flag_idx) mod 3)\<rparr>
         in if rd_paired nproc p
            then s'\<lparr>rd_pc_of := (rd_pc_of s)(p := R_Last)\<rparr>
            else s'\<lparr>rd_pc_of := (rd_pc_of s)(p := R_Idle), rd_out := (rd_out s)(p := rd_out s p + 1)\<rparr>))"

definition rd_enter :: "nat \<Rightarrow> nat \<Rightarrow> rd_state \<Rightarrow> rd_state" where
  "rd_enter nproc p s =
     (let s' = s\<lparr>rd_in := (rd_in s)(p := rd_in s p + 1)\<rparr> in
      if rd_paired nproc p
      then s'\<lparr>rd_meets := (rd_meets s)(p := rd_meets s p + 1), rd_pc_of := (rd_pc_of s)(p := R_Pre)\<rparr>
      else s'\<lparr>rd_pc_of := (rd_pc_of s)(p := R_Next 0)\<rparr>)"

text \<open>Whether a stage may be left: a peer beyond the last process is not waited for.\<close>

definition rd_passes :: "nat \<Rightarrow> nat \<Rightarrow> nat \<Rightarrow> int \<Rightarrow> rd_state \<Rightarrow> bool" where
  "rd_passes nproc p i v s \<longleftrightarrow>
     (rd_peer_idx p i < nproc \<longrightarrow> v \<le> rd_flags s (rd_peer_idx p i) (rd_flag_idx s p))"

text \<open>
  Each event of process \<open>p\<close> is at most one access to memory that others use: it enters or leaves a
  meeting, writes its flag, or reads that of its peer.
\<close>

datatype rd_event = Rd_Enter nat | Rd_Met nat | Rd_Write nat | Rd_Pass nat | Rd_Meet nat | Rd_Leave nat

definition kupl_fence_rd_wait :: "nat \<Rightarrow> rd_event \<Rightarrow> rd_state \<Rightarrow> rd_state option" where
  "kupl_fence_rd_wait nproc ev s =
     (case ev of
        Rd_Enter p \<Rightarrow> if p < nproc \<and> rd_pc_of s p = R_Idle then Some (rd_enter nproc p s) else None
      | Rd_Met p \<Rightarrow>
          if p < nproc \<and> rd_pc_of s p = R_Pre \<and> rd_meets s p \<le> rd_meets s (rd_partner nproc p)
          then Some (s\<lparr>rd_pc_of := (rd_pc_of s)(p := R_Next 0)\<rparr>) else None
      | Rd_Write p \<Rightarrow>
          (case rd_pc_of s p of R_Next i \<Rightarrow> if p < nproc then Some (rd_stage nproc p i s) else None | _ \<Rightarrow> None)
      | Rd_Pass p \<Rightarrow>
          (case rd_pc_of s p of
             R_Stage i v \<Rightarrow>
               if p < nproc \<and> rd_passes nproc p i v s then Some (s\<lparr>rd_pc_of := (rd_pc_of s)(p := R_Next (i + 1))\<rparr>) else None
           | _ \<Rightarrow> None)
      | Rd_Meet p \<Rightarrow>
          if p < nproc \<and> rd_pc_of s p = R_Last
          then Some (s\<lparr>rd_meets := (rd_meets s)(p := rd_meets s p + 1), rd_pc_of := (rd_pc_of s)(p := R_Post)\<rparr>) else None
      | Rd_Leave p \<Rightarrow>
          if p < nproc \<and> rd_pc_of s p = R_Post \<and> rd_meets s p \<le> rd_meets s (rd_partner nproc p)
          then Some (s\<lparr>rd_pc_of := (rd_pc_of s)(p := R_Idle), rd_out := (rd_out s)(p := rd_out s p + 1)\<rparr>)
          else None)"

fun rd_run :: "nat \<Rightarrow> rd_event list \<Rightarrow> rd_state \<Rightarrow> rd_state option" where
  "rd_run nproc [] s = Some s"
| "rd_run nproc (ev # evs) s =
     (case kupl_fence_rd_wait nproc ev s of None \<Rightarrow> None | Some s' \<Rightarrow> rd_run nproc evs s')"

definition fence_rd_init :: rd_state where
  "fence_rd_init = \<lparr>rd_flags = \<lambda>p i. 0, rd_flag_idx = \<lambda>p. 0, rd_meets = \<lambda>p. 0, rd_pc_of = \<lambda>p. R_Idle,
              rd_in = \<lambda>p. 0, rd_out = \<lambda>p. 0\<rparr>"

section \<open>Numbers\<close>

lemma rd_create_spec:
  "0 < t \<Longrightarrow> \<exists>l. rd_create_loop t (c * 1) k = (c * 2 ^ l, k + l) \<and> 2 ^ l \<le> t \<and> t < 2 * 2 ^ l"
proof (induction t arbitrary: c k rule: less_induct)
  case (less t)
  show ?case
  proof (cases "t > 1")
    case True
    hence "0 < t div 2" "t div 2 < t" by auto
    from less.IH[OF this(2,1), of "2 * c" "k + 1"] obtain l where l:
      "rd_create_loop (t div 2) (2 * c) (k + 1) = (2 * c * 2 ^ l, k + 1 + l)" "2 ^ l \<le> t div 2" "t div 2 < 2 * 2 ^ l"
      by auto
    have "rd_create_loop t (c * 1) k = (c * 2 ^ Suc l, k + Suc l)"
      using True l(1) by (subst rd_create_loop.simps) simp
    moreover have "2 ^ Suc l \<le> t" "t < 2 * 2 ^ Suc l" using l(2,3) by auto
    ultimately show ?thesis by blast
  next
    case False
    hence "t = 1" using less.prems by simp
    thus ?thesis by (intro exI[of _ 0]) (simp add: rd_create_loop.simps)
  qed
qed

lemma near_spec:
  assumes "0 < nproc"
  shows "near_poweroftwo nproc = 2 ^ loop_times nproc" "near_poweroftwo nproc \<le> nproc"
    "nproc < 2 * near_poweroftwo nproc"
  using rd_create_spec[OF assms, of 1 0]
  by (auto simp: near_poweroftwo_def loop_times_def kupl_fence_rd_create_def)

lemma rd_peer_flip: "rd_peer_idx p i = flip_bit i p"
proof -
  have "bit p i \<longleftrightarrow> p div 2 ^ i mod 2 \<noteq> 0" by (simp add: bit_iff_odd odd_iff_mod_2_eq_one)
  moreover have "bit p i \<Longrightarrow> unset_bit i p = p - 2 ^ i"
  proof -
    assume b: "bit p i"
    have "p = set_bit i (unset_bit i p)" by (rule bit_eqI) (use b in \<open>auto simp: bit_simps\<close>)
    also have "\<dots> = unset_bit i p + 2 ^ i" by (simp add: set_bit_eq bit_simps)
    finally show "unset_bit i p = p - 2 ^ i" by simp
  qed
  ultimately show ?thesis by (auto simp: rd_peer_idx_def Let_def flip_bit_eq_if set_bit_eq)
qed

lemma rd_pairs:
  assumes "0 < nproc" "p < nproc"
  shows "near_poweroftwo nproc \<le> p \<Longrightarrow> rd_paired nproc p \<and> rd_partner nproc p < near_poweroftwo nproc"
    and "rd_paired nproc p \<Longrightarrow> rd_paired nproc (rd_partner nproc p) \<and> rd_partner nproc p < nproc \<and>
           rd_partner nproc (rd_partner nproc p) = p \<and> rd_partner nproc p \<noteq> p"
  using near_spec(2,3)[OF assms(1)] assms(2)
  by (auto simp: rd_paired_def rd_partner_def split: if_splits)

section \<open>The invariant\<close>

definition in_stages :: "rd_state \<Rightarrow> nat \<Rightarrow> bool" where
  "in_stages s p \<longleftrightarrow> rd_pc_of s p \<notin> {R_Idle, R_Last, R_Post}"

text \<open>The number of stages a process has begun in its last call, and the stages it has begun ever.\<close>

definition stages :: "nat \<Rightarrow> rd_state \<Rightarrow> nat \<Rightarrow> nat" where
  "stages n s p = (case rd_pc_of s p of R_Pre \<Rightarrow> 0 | R_Next i \<Rightarrow> i | R_Stage i v \<Rightarrow> i + 1 | _ \<Rightarrow> n + 1)"

text \<open>It knows of the processes of its block of size \<open>2 ^ level\<close> that they have begun.\<close>

definition level_of :: "nat \<Rightarrow> rd_state \<Rightarrow> nat \<Rightarrow> nat" where
  "level_of n s p = (case rd_pc_of s p of R_Next i \<Rightarrow> i | R_Stage i v \<Rightarrow> i | _ \<Rightarrow> n)"

definition began :: "nat \<Rightarrow> rd_state \<Rightarrow> nat \<Rightarrow> nat \<Rightarrow> nat \<Rightarrow> bool" where
  "began n s q i c \<longleftrightarrow> c < rd_in s q \<or> c = rd_in s q \<and> i < stages n s q"

definition rd_local :: "nat \<Rightarrow> rd_state \<Rightarrow> nat \<Rightarrow> bool" where
  "rd_local nproc s p \<longleftrightarrow>
     rd_in s p = rd_out s p + (if rd_pc_of s p = R_Idle then 0 else 1) \<and>
     rd_flag_idx s p = (if in_stages s p then (rd_in s p + 2) mod 3 else rd_in s p mod 3) \<and>
     rd_flags s p (rd_in s p mod 3) = 0 \<and>
     (if in_stages s p then rd_flags s p ((rd_in s p + 2) mod 3) = int (stages (loop_times nproc) s p)
      else rd_flags s p ((rd_in s p + 1) mod 3) = 0 \<and>
        (1 \<le> rd_in s p \<longrightarrow> rd_flags s p ((rd_in s p + 2) mod 3) = int (loop_times nproc))) \<and>
     (\<forall>i v. rd_pc_of s p = R_Stage i v \<longrightarrow> v = int (i + 1) \<and> i < loop_times nproc) \<and>
     (\<forall>i. rd_pc_of s p = R_Next i \<longrightarrow> i \<le> loop_times nproc) \<and>
     (rd_pc_of s p \<in> {R_Pre, R_Last, R_Post} \<longrightarrow> rd_paired nproc p) \<and>
     (rd_paired nproc p \<longrightarrow> rd_meets s p + (if in_stages s p \<or> rd_pc_of s p = R_Last then 1 else 0) = 2 * rd_in s p)"

definition rd_known :: "nat \<Rightarrow> rd_state \<Rightarrow> nat \<Rightarrow> bool" where
  "rd_known nproc s p \<longleftrightarrow>
     (let n = loop_times nproc; near = near_poweroftwo nproc; c = rd_in s p in
      (p < near \<and> 1 \<le> c \<and> rd_pc_of s p \<noteq> R_Pre \<longrightarrow>
         (\<forall>q < near. q \<noteq> p \<longrightarrow> drop_bit (level_of n s p) q = drop_bit (level_of n s p) p \<longrightarrow> began n s q 0 c) \<and>
         (rd_paired nproc p \<longrightarrow> c \<le> rd_in s (rd_partner nproc p))))"

definition rd_all :: "nat \<Rightarrow> rd_state \<Rightarrow> nat \<Rightarrow> bool" where
  "rd_all nproc s c \<longleftrightarrow>
     (\<forall>q < near_poweroftwo nproc. began (loop_times nproc) s q 0 c) \<and> (\<forall>q < nproc. c \<le> rd_in s q)"

definition rd_inv :: "nat \<Rightarrow> rd_state \<Rightarrow> bool" where
  "rd_inv nproc s \<longleftrightarrow>
     (\<forall>p < nproc. rd_local nproc s p \<and> rd_known nproc s p \<and> (\<forall>c. 1 \<le> c \<and> c \<le> rd_out s p \<longrightarrow> rd_all nproc s c))"

lemma rd_invD:
  assumes "rd_inv nproc s" "p < nproc"
  shows "rd_local nproc s p" "rd_known nproc s p" "1 \<le> c \<Longrightarrow> c \<le> rd_out s p \<Longrightarrow> rd_all nproc s c"
  using assms by (auto simp: rd_inv_def)

text \<open>A step of one process: the others keep what they know.\<close>

definition same_at :: "rd_state \<Rightarrow> rd_state \<Rightarrow> nat \<Rightarrow> bool" where
  "same_at s s' r \<longleftrightarrow> rd_flags s' r = rd_flags s r \<and> rd_flag_idx s' r = rd_flag_idx s r \<and>
     rd_meets s' r = rd_meets s r \<and> rd_pc_of s' r = rd_pc_of s r \<and> rd_in s' r = rd_in s r \<and> rd_out s' r = rd_out s r"

lemma same_at_fields:
  assumes "same_at s s' r"
  shows "stages n s' r = stages n s r" "in_stages s' r = in_stages s r" "began n s' r i c = began n s r i c"
    "rd_local nproc s' r = rd_local nproc s r"
    "level_of n s' r = level_of n s r"
  using assms by (simp_all add: level_of_def same_at_def stages_def in_stages_def began_def rd_local_def)

lemma began_mono:
  assumes same: "\<And>r. r \<noteq> p \<Longrightarrow> same_at s s' r"
    and more: "\<And>i c. began n s p i c \<Longrightarrow> began n s' p i c"
  shows "began n s q i c \<Longrightarrow> began n s' q i c"
  using more same_at_fields(3)[OF same] by (cases "q = p") auto

lemma rd_inv_update:
  assumes inv: "rd_inv nproc s" and same: "\<And>r. r \<noteq> p \<Longrightarrow> same_at s s' r"
    and more: "\<And>i c. began (loop_times nproc) s p i c \<Longrightarrow> began (loop_times nproc) s' p i c"
    and le: "rd_in s p \<le> rd_in s' p"
    and p: "rd_local nproc s' p" "rd_known nproc s' p"
      "\<And>c. 1 \<le> c \<Longrightarrow> c \<le> rd_out s' p \<Longrightarrow> rd_all nproc s c \<or> rd_all nproc s' c"
  shows "rd_inv nproc s'"
proof -
  let ?n = "loop_times nproc"
  have b: "began ?n s q i c \<Longrightarrow> began ?n s' q i c" for q i c by (rule began_mono[OF same more])
  have i: "rd_in s q \<le> rd_in s' q" for q using le same[of q] by (cases "q = p") (auto simp: same_at_def)
  have all: "rd_all nproc s c \<Longrightarrow> rd_all nproc s' c" for c
    unfolding rd_all_def using b i le_trans by blast
  have known: "rd_known nproc s' r" if r: "r \<noteq> p" "rd_known nproc s r" for r
    using r(2) b i same_at_fields(5)[OF same[OF r(1)]] same[OF r(1)]
    unfolding rd_known_def Let_def same_at_def by (metis le_trans)
  show ?thesis
    unfolding rd_inv_def
  proof (intro allI impI conjI)
    fix r assume r: "r < nproc"
    show "rd_local nproc s' r"
      using p(1) rd_invD(1)[OF inv r] same_at_fields(4)[OF same] by (cases "r = p") auto
    show "rd_known nproc s' r" using p(2) known rd_invD(2)[OF inv r] by (cases "r = p") auto
    fix c assume c: "1 \<le> c \<and> c \<le> rd_out s' r"
    show "rd_all nproc s' c"
    proof (cases "r = p")
      case True
      thus ?thesis using p(3)[of c] c all by blast
    next
      case False
      hence "c \<le> rd_out s r" using c same[OF False] by (simp add: same_at_def)
      thus ?thesis using rd_invD(3)[OF inv r, of c] c all by blast
    qed
  qed
qed

text \<open>When the first processes have all begun, everybody has entered: the others by their partners.\<close>

lemma near_all:
  assumes n0: "0 < nproc" and near: "\<And>q. q < near_poweroftwo nproc \<Longrightarrow> began (loop_times nproc) s q 0 c"
    and c: "1 \<le> c"
    and r: "\<And>r. r < near_poweroftwo nproc \<Longrightarrow> rd_paired nproc r \<Longrightarrow>
              c \<le> rd_in s (rd_partner nproc r)"
  shows "rd_all nproc s c"
  unfolding rd_all_def
proof (intro conjI allI impI)
  fix q assume q: "q < nproc"
  show "c \<le> rd_in s q"
  proof (cases "q < near_poweroftwo nproc")
    case True
    thus ?thesis using near[of q] by (auto simp: began_def)
  next
    case False
    thus ?thesis using rd_pairs[OF n0 q] r[of "rd_partner nproc q"] by auto
  qed
qed (use near in blast)

lemma partner_entered:
  assumes inv: "rd_inv nproc s" and n0: "0 < nproc" and r: "r < near_poweroftwo nproc" "rd_paired nproc r"
    and b: "began (loop_times nproc) s r 0 c" and c: "1 \<le> c"
  shows "c \<le> rd_in s (rd_partner nproc r)"
proof -
  have rN: "r < nproc" using r(1) near_spec(2)[OF n0] by simp
  have pN: "rd_partner nproc r < nproc" using rd_pairs(2)[OF n0 rN r(2)] by simp
  show ?thesis
  proof (cases "c \<le> rd_out s r")
    case True
    thus ?thesis using rd_invD(3)[OF inv rN c] pN by (auto simp: rd_all_def)
  next
    case False
    hence "c = rd_in s r" "0 < stages (loop_times nproc) s r"
      using b rd_invD(1)[OF inv rN] by (auto simp: began_def rd_local_def split: if_splits)
    hence "c = rd_in s r" "rd_pc_of s r \<noteq> R_Pre" by (auto simp: stages_def)
    thus ?thesis using rd_invD(2)[OF inv rN] r c by (auto simp: rd_known_def Let_def)
  qed
qed

section \<open>The steps\<close>

text \<open>Process \<open>p\<close> is about to begin stage \<open>i\<close> of its call, or to leave the stages.\<close>

definition rd_ready :: "nat \<Rightarrow> rd_state \<Rightarrow> nat \<Rightarrow> nat \<Rightarrow> bool" where
  "rd_ready nproc s p i \<longleftrightarrow>
     (let c = rd_in s p in
      c = rd_out s p + 1 \<and> rd_flag_idx s p = (c + 2) mod 3 \<and> rd_flags s p (c mod 3) = 0 \<and>
      rd_flags s p ((c + 2) mod 3) = int i \<and> i \<le> loop_times nproc \<and>
      (rd_paired nproc p \<longrightarrow> rd_meets s p + 1 = 2 * c) \<and>
      (p < near_poweroftwo nproc \<longrightarrow>
         (rd_paired nproc p \<longrightarrow> c \<le> rd_in s (rd_partner nproc p)) \<and>
         (\<forall>q < near_poweroftwo nproc. q \<noteq> p \<longrightarrow> drop_bit i q = drop_bit i p \<longrightarrow>
            began (loop_times nproc) s q 0 c)))"

lemma flag_slots:
  "(c + 2) mod 3 \<noteq> c mod (3::nat)" "(c + 1) mod 3 \<noteq> c mod (3::nat)" "(c + 2) mod 3 \<noteq> (c + 1) mod (3::nat)"
  "(2 + (c + 2) mod 3) mod 3 = (c + 1) mod (3::nat)" "(1 + (c + 2) mod 3) mod 3 = c mod (3::nat)"
  "Suc ((c + 2) mod 3) mod 3 = c mod (3::nat)"
  by presburger+

lemma rd_stage_same: "r \<noteq> p \<Longrightarrow> same_at s (rd_stage nproc p i s) r"
  by (simp add: same_at_def rd_stage_def Let_def)

lemma rd_stage_in: "rd_in (rd_stage nproc p i s) = rd_in s"
  by (simp add: rd_stage_def Let_def)

lemma rd_stage_began:
  "r \<noteq> p \<Longrightarrow> began n (rd_stage nproc p i s) r j c = began n s r j c"
  by (rule same_at_fields(3)[OF rd_stage_same])

lemma rd_stage_local:
  assumes ready: "rd_ready nproc s p i"
  shows "rd_local nproc (rd_stage nproc p i s) p"
proof -
  obtain c where c: "c = rd_in s p" by simp
  have e: "c = rd_out s p + 1" using ready unfolding c rd_ready_def Let_def by blast
  have r: "rd_in s p = c" "rd_out s p = c - 1" "1 \<le> c" using c e by simp_all
  have f: "rd_flag_idx s p = (c + 2) mod 3" "rd_flags s p (c mod 3) = 0"
    "rd_flags s p ((c + 2) mod 3) = int i" "i \<le> loop_times nproc"
    "rd_paired nproc p \<Longrightarrow> rd_meets s p + 1 = 2 * c"
    using ready unfolding c rd_ready_def Let_def by blast+
  note r = r f
  show ?thesis
  proof (cases "i < loop_times nproc")
    case True
    thus ?thesis using r flag_slots(1)[of c]
      by (simp add: rd_local_def rd_stage_def Let_def in_stages_def stages_def del: add_2_eq_Suc add_2_eq_Suc')
  next
    case False
    show ?thesis
    proof (cases "rd_paired nproc p")
      case True
      thus ?thesis using r False flag_slots(2,3,4,5)[of c]
        by (simp add: rd_local_def rd_stage_def Let_def in_stages_def stages_def del: add_2_eq_Suc add_2_eq_Suc')
    next
      case unpaired: False
      thus ?thesis using r False flag_slots(2,3,4,5)[of c]
        by (simp add: rd_local_def rd_stage_def Let_def in_stages_def stages_def del: add_2_eq_Suc add_2_eq_Suc')
    qed
  qed
qed

lemma stages_stage:
  "stages (loop_times nproc) (rd_stage nproc p i s) p = (if i < loop_times nproc then i + 1 else loop_times nproc + 1)"
  by (simp add: rd_stage_def Let_def stages_def)

lemma rd_stage_known:
  assumes ready: "rd_ready nproc s p i"
  shows "rd_known nproc (rd_stage nproc p i s) p"
proof -
  have "level_of (loop_times nproc) (rd_stage nproc p i s) p = i"
    using ready by (auto simp: level_of_def rd_stage_def rd_ready_def Let_def)
  thus ?thesis using ready by (auto simp: rd_known_def Let_def rd_stage_in rd_stage_began rd_ready_def)
qed

lemma drop_near:
  assumes "0 < nproc" "q < near_poweroftwo nproc" "loop_times nproc \<le> i"
  shows "drop_bit i q = 0"
proof -
  have "q < 2 ^ i"
    using assms(2) near_spec(1)[OF assms(1)] power_increasing[OF assms(3), of "2 :: nat"] by linarith
  thus ?thesis by (simp add: drop_bit_eq_div)
qed

lemma rd_stage_out:
  assumes ready: "rd_ready nproc s p i" and n0: "0 < nproc" and p: "p < nproc"
    and all: "\<And>r. r \<noteq> p \<Longrightarrow> r < near_poweroftwo nproc \<Longrightarrow> rd_paired nproc r \<Longrightarrow>
                began (loop_times nproc) s r 0 (rd_in s p) \<Longrightarrow> rd_in s p \<le> rd_in s (rd_partner nproc r)"
    and c: "c \<le> rd_out (rd_stage nproc p i s) p"
  shows "c \<le> rd_out s p \<or> rd_all nproc (rd_stage nproc p i s) c"
proof (cases "c \<le> rd_out s p")
  case False
  let ?s = "rd_stage nproc p i s" and ?n = "loop_times nproc"
  have i: "\<not> i < ?n" "\<not> rd_paired nproc p" "c = rd_in s p"
    using False c ready by (auto simp: rd_stage_def rd_ready_def Let_def split: if_splits)
  have near: "p < near_poweroftwo nproc" using rd_pairs(1)[OF n0 p] i(2) by force
  have b: "began ?n ?s q 0 c" if q: "q < near_poweroftwo nproc" for q
  proof (cases "q = p")
    case True
    thus ?thesis using i by (simp add: began_def rd_stage_in stages_stage)
  next
    case False
    thus ?thesis
      using ready q near i drop_near[OF n0 q, of i] drop_near[OF n0 near, of i]
      by (auto simp: rd_stage_began rd_ready_def Let_def)
  qed
  have "rd_all nproc ?s c"
  proof (rule near_all[OF n0 b])
    show "1 \<le> c" using ready i(3) by (simp add: rd_ready_def Let_def)
    fix r assume r: "r < near_poweroftwo nproc" "rd_paired nproc r"
    hence "r \<noteq> p" using i(2) by blast
    thus "c \<le> rd_in ?s (rd_partner nproc r)"
      using all[OF _ r] b[OF r(1)] by (simp add: i(3) rd_stage_in rd_stage_began)
  qed
  thus ?thesis by blast
qed simp

lemma rd_stage_inv:
  assumes inv: "rd_inv nproc s" and ready: "rd_ready nproc s p i" and p: "p < nproc" and pc: "rd_pc_of s p = R_Next i"
  shows "rd_inv nproc (rd_stage nproc p i s)"
proof (rule rd_inv_update[OF inv rd_stage_same])
  have n0: "0 < nproc" using p by simp
  show "rd_local nproc (rd_stage nproc p i s) p" by (rule rd_stage_local[OF ready])
  show "rd_known nproc (rd_stage nproc p i s) p" by (rule rd_stage_known[OF ready])
  show "began (loop_times nproc) (rd_stage nproc p i s) p j c" if "began (loop_times nproc) s p j c" for j c
  proof -
    have "stages (loop_times nproc) s p = i" using pc by (simp add: stages_def)
    moreover have "i \<le> loop_times nproc" using ready by (simp add: rd_ready_def Let_def)
    ultimately show ?thesis using that by (auto simp: began_def rd_stage_in stages_stage)
  qed
  show "rd_all nproc s c \<or> rd_all nproc (rd_stage nproc p i s) c"
    if c: "1 \<le> c" "c \<le> rd_out (rd_stage nproc p i s) p" for c
  proof -
    have "1 \<le> rd_in s p" using ready by (simp add: rd_ready_def Let_def)
    hence "c \<le> rd_out s p \<or> rd_all nproc (rd_stage nproc p i s) c"
      by (intro rd_stage_out[OF ready n0 p partner_entered[OF inv n0] c(2)])
    thus ?thesis using rd_invD(3)[OF inv p c(1)] by auto
  qed
qed (simp_all add: rd_stage_in)

lemma rd_local_facts:
  assumes "rd_local nproc s p"
  shows "rd_in s p = rd_out s p + (if rd_pc_of s p = R_Idle then 0 else 1)"
    "rd_flag_idx s p = (if in_stages s p then (rd_in s p + 2) mod 3 else rd_in s p mod 3)"
    "rd_flags s p (rd_in s p mod 3) = 0"
    "in_stages s p \<Longrightarrow> rd_flags s p ((rd_in s p + 2) mod 3) = int (stages (loop_times nproc) s p)"
    "\<not> in_stages s p \<Longrightarrow> rd_flags s p ((rd_in s p + 1) mod 3) = 0 \<and>
       (1 \<le> rd_in s p \<longrightarrow> rd_flags s p ((rd_in s p + 2) mod 3) = int (loop_times nproc))"
    "rd_pc_of s p = R_Stage i v \<Longrightarrow> v = int (i + 1) \<and> i < loop_times nproc"
    "rd_pc_of s p = R_Next i \<Longrightarrow> i \<le> loop_times nproc"
    "rd_pc_of s p \<in> {R_Pre, R_Last, R_Post} \<Longrightarrow> rd_paired nproc p"
    "rd_paired nproc p \<Longrightarrow> rd_meets s p + (if in_stages s p \<or> rd_pc_of s p = R_Last then 1 else 0) = 2 * rd_in s p"
  using assms unfolding rd_local_def by (blast | metis)+

lemma slot_next: "(c + 1 + 2) mod 3 = c mod (3 :: nat)"
  by presburger

lemma rd_write_inv:
  assumes inv: "rd_inv nproc s" and p: "p < nproc" and pc: "rd_pc_of s p = R_Next i"
  shows "rd_inv nproc (rd_stage nproc p i s)"
proof (rule rd_stage_inv[OF inv _ p pc])
  note l = rd_local_facts[OF rd_invD(1)[OF inv p]]
  have ins: "in_stages s p" using pc by (simp add: in_stages_def)
  have "rd_flags s p ((rd_in s p + 2) mod 3) = int i" using l(4)[OF ins] pc by (simp add: stages_def)
  moreover have "rd_in s p = rd_out s p + 1" "rd_flag_idx s p = (rd_in s p + 2) mod 3" using l(1,2) ins pc by simp_all
  moreover have "rd_paired nproc p \<longrightarrow> rd_meets s p + 1 = 2 * rd_in s p" using l(9) ins by auto
  moreover have "p < near_poweroftwo nproc \<longrightarrow>
      (rd_paired nproc p \<longrightarrow> rd_in s p \<le> rd_in s (rd_partner nproc p)) \<and>
      (\<forall>q < near_poweroftwo nproc. q \<noteq> p \<longrightarrow> drop_bit i q = drop_bit i p \<longrightarrow> began (loop_times nproc) s q 0 (rd_in s p))"
    using rd_invD(2)[OF inv p] l(1) pc by (auto simp: rd_known_def Let_def level_of_def)
  ultimately show "rd_ready nproc s p i" using l(3) l(7)[OF pc] unfolding rd_ready_def Let_def by blast
qed

text \<open>An event of \<open>p\<close> that leaves its number of ended fences as it is.\<close>

lemma rd_inv_same_out:
  assumes inv: "rd_inv nproc s" and p: "p < nproc" and same: "\<And>r. r \<noteq> p \<Longrightarrow> same_at s s' r"
    and out: "rd_out s' p = rd_out s p" and le: "rd_in s p \<le> rd_in s' p"
    and st: "rd_in s' p = rd_in s p \<Longrightarrow> stages (loop_times nproc) s p \<le> stages (loop_times nproc) s' p"
    and l: "rd_local nproc s' p" and k: "rd_known nproc s' p"
  shows "rd_inv nproc s'"
proof (rule rd_inv_update[OF inv same _ le l k])
  show "began (loop_times nproc) s p j c \<Longrightarrow> began (loop_times nproc) s' p j c" for j c
    using le st by (cases "rd_in s' p = rd_in s p") (auto simp: began_def)
  show "1 \<le> c \<Longrightarrow> c \<le> rd_out s' p \<Longrightarrow> rd_all nproc s c \<or> rd_all nproc s' c" for c
    using rd_invD(3)[OF inv p] out by simp
qed

lemma rd_enter_inv:
  assumes inv: "rd_inv nproc s" and p: "p < nproc" and idle: "rd_pc_of s p = R_Idle"
  shows "rd_inv nproc (rd_enter nproc p s)"
proof (rule rd_inv_same_out[OF inv p])
  note l = rd_local_facts[OF rd_invD(1)[OF inv p]]
  have ns: "\<not> in_stages s p" using idle by (simp add: in_stages_def)
  show "rd_local nproc (rd_enter nproc p s) p"
    using l(1,2,3) l(5)[OF ns] l(9) ns idle slot_next[of "rd_in s p"]
    by (simp add: rd_local_def rd_enter_def Let_def in_stages_def stages_def)
  show "rd_known nproc (rd_enter nproc p s) p"
    using rd_pairs(1)[OF _ p] by (auto simp: rd_known_def rd_enter_def level_of_def Let_def)
qed (auto simp: rd_enter_def Let_def same_at_def split: if_splits)

lemma rd_met_inv:
  assumes inv: "rd_inv nproc s" and p: "p < nproc" and pre: "rd_pc_of s p = R_Pre"
    and m: "rd_meets s p \<le> rd_meets s (rd_partner nproc p)"
  shows "rd_inv nproc (s\<lparr>rd_pc_of := (rd_pc_of s)(p := R_Next 0)\<rparr>)" (is "rd_inv nproc ?s")
proof (rule rd_inv_same_out[OF inv p])
  note l = rd_local_facts[OF rd_invD(1)[OF inv p]]
  have ins: "in_stages s p" and pa: "rd_paired nproc p" using pre l(8) by (simp_all add: in_stages_def)
  define q where "q = rd_partner nproc p"
  have q: "rd_paired nproc q" "q < nproc" using rd_pairs(2)[OF _ p pa] p by (auto simp: q_def)
  have "rd_meets s q \<le> 2 * rd_in s q" using rd_local_facts(9)[OF rd_invD(1)[OF inv q(2)] q(1)] by linarith
  hence le: "rd_in s p \<le> rd_in s q" using l(9)[OF pa] ins m by (simp flip: q_def)
  show "rd_local nproc ?s p"
    using l(1,2,3) l(4)[OF ins] l(9) ins pre by (simp add: rd_local_def in_stages_def stages_def)
  show "rd_known nproc ?s p" using le by (simp add: rd_known_def level_of_def Let_def q_def)
qed (use pre in \<open>simp_all add: same_at_def stages_def\<close>)

text \<open>
  A process that has begun all its stages knows of everybody; one that has begun stage \<open>i\<close>
  knows of its block of \<open>2 ^ i\<close> processes.
\<close>

lemma known_block:
  assumes "rd_known nproc s p" "p < near_poweroftwo nproc" "1 \<le> rd_in s p" "Suc i \<le> stages (loop_times nproc) s p"
    and "q < near_poweroftwo nproc" "drop_bit i q = drop_bit i p"
  shows "began (loop_times nproc) s q 0 (rd_in s p)"
proof (cases "q = p")
  case True
  thus ?thesis using assms(4) by (simp add: began_def)
next
  case False
  have "rd_pc_of s p \<noteq> R_Pre" "i \<le> level_of (loop_times nproc) s p"
    using assms(4) by (auto simp: stages_def level_of_def split: rd_pc.splits)
  thus ?thesis using block_mono[OF assms(6)] False assms(1-3,5) by (auto simp: rd_known_def Let_def)
qed

lemma all_known:
  assumes inv: "rd_inv nproc s" and n0: "0 < nproc" and r: "r < near_poweroftwo nproc" "1 \<le> rd_in s r"
    and st: "Suc (loop_times nproc) \<le> stages (loop_times nproc) s r"
  shows "rd_all nproc s (rd_in s r)"
proof -
  have rN: "r < nproc" using r(1) near_spec(2)[OF n0] by simp
  have b: "began (loop_times nproc) s q 0 (rd_in s r)" if q: "q < near_poweroftwo nproc" for q
    using drop_near[OF n0 q, of "loop_times nproc"] drop_near[OF n0 r(1), of "loop_times nproc"]
    by (intro known_block[OF rd_invD(2)[OF inv rN] r st q]) simp
  show ?thesis by (rule near_all[OF n0 b r(2)]) (use partner_entered[OF inv n0 _ _ b r(2)] in auto)
qed

text \<open>What the flag of the peer says: it has begun the stage, or the fence is known to be over.\<close>

lemma peer_flag:
  assumes inv: "rd_inv nproc s" and p: "p < nproc" and q: "q < nproc"
    and c: "rd_in s p = rd_out s p + 1" and v: "0 < v" "v \<le> rd_flags s q ((rd_in s p + 2) mod 3)" "v \<le> int (loop_times nproc)"
  shows "rd_all nproc s (rd_in s p) \<or> rd_in s q = rd_in s p \<and> v \<le> int (stages (loop_times nproc) s q)"
proof (cases "rd_in s p \<le> rd_out s q")
  case True
  thus ?thesis using rd_invD(3)[OF inv q, of "rd_in s p"] c by simp
next
  case False
  note l = rd_local_facts[OF rd_invD(1)[OF inv q]]
  have le: "rd_in s q \<le> rd_in s p" using False l(1) by (auto split: if_splits)
  have ge: "rd_out s p \<le> rd_in s q"
  proof (cases "rd_out s p = 0")
    case False
    thus ?thesis using rd_invD(3)[OF inv p, of "rd_out s p"] q by (auto simp: rd_all_def)
  qed simp
  show ?thesis
  proof (cases "rd_in s q = rd_in s p")
    case True
    hence "rd_pc_of s q \<noteq> R_Idle" using False l(1) by auto
    show ?thesis
    proof (cases "in_stages s q")
      case ins: True
      thus ?thesis using l(4)[OF ins] v(2) True by simp
    next
      case False
      hence "rd_pc_of s q = R_Post \<or> rd_pc_of s q = R_Last" using \<open>rd_pc_of s q \<noteq> R_Idle\<close> by (auto simp: in_stages_def)
      thus ?thesis using True v(3) by (auto simp: stages_def)
    qed
  next
    case False
    hence "rd_in s p = rd_in s q + 1" using le ge c by simp
    hence "rd_flags s q ((rd_in s p + 2) mod 3) = 0" using l(3) slot_next[of "rd_in s q"] by simp
    thus ?thesis using v by simp
  qed
qed

lemma rd_pass_inv:
  assumes inv: "rd_inv nproc s" and p: "p < nproc" and pc: "rd_pc_of s p = R_Stage i v" and pass: "rd_passes nproc p i v s"
  shows "rd_inv nproc (s\<lparr>rd_pc_of := (rd_pc_of s)(p := R_Next (i + 1))\<rparr>)" (is "rd_inv nproc ?s")
proof (rule rd_inv_same_out[OF inv p])
  let ?n = "loop_times nproc" and ?c = "rd_in s p"
  note l = rd_local_facts[OF rd_invD(1)[OF inv p]]
  have n0: "0 < nproc" using p by simp
  have ins: "in_stages s p" using pc by (simp add: in_stages_def)
  have st: "stages ?n s p = i + 1" using pc by (simp add: stages_def)
  have iv: "v = int (i + 1)" "i < ?n" using l(6)[OF pc] by blast+
  have c: "?c = rd_out s p + 1" "1 \<le> ?c" using l(1) pc by simp_all
  have kn: "rd_paired nproc p \<longrightarrow> ?c \<le> rd_in s (rd_partner nproc p)" if "p < near_poweroftwo nproc"
    using rd_invD(2)[OF inv p] that pc c(2) by (simp add: rd_known_def Let_def)
  have b: "began ?n s q 0 ?c"
    if pn: "p < near_poweroftwo nproc" and q: "q < near_poweroftwo nproc" "drop_bit (i + 1) q = drop_bit (i + 1) p" for q
  proof (cases "drop_bit i q = drop_bit i p")
    case True
    thus ?thesis using known_block[OF rd_invD(2)[OF inv p] pn c(2) _ q(1), of i] st by simp
  next
    case False
    hence fl: "drop_bit i q = drop_bit i (rd_peer_idx p i)" using q(2) block_cases[of i q p] by (simp add: rd_peer_flip)
    have near: "rd_peer_idx p i < near_poweroftwo nproc"
      using pn iv(2) flip_less[of p ?n i] by (simp add: rd_peer_flip near_spec(1)[OF n0])
    hence pN: "rd_peer_idx p i < nproc" using near_spec(2)[OF n0] by simp
    have "v \<le> rd_flags s (rd_peer_idx p i) ((?c + 2) mod 3)" using pass pN l(2) ins by (simp add: rd_passes_def)
    from peer_flag[OF inv p pN c(1) _ this] iv consider "rd_all nproc s ?c"
      | "rd_in s (rd_peer_idx p i) = ?c" "Suc i \<le> stages ?n s (rd_peer_idx p i)" by force
    thus ?thesis
    proof cases
      case 1
      thus ?thesis using q(1) by (simp add: rd_all_def)
    next
      case 2
      thus ?thesis using known_block[OF rd_invD(2)[OF inv pN] near _ 2(2) q(1) fl] c(2) by simp
    qed
  qed
  have be: "began ?n s q 0 ?c \<Longrightarrow> began ?n (s\<lparr>rd_pc_of := (rd_pc_of s)(p := R_Next (Suc i))\<rparr>) q 0 ?c" for q
    by (auto simp: began_def stages_def)
  show "rd_known nproc ?s p"
    unfolding rd_known_def Let_def using kn be[OF b] by (simp add: level_of_def)
  show "rd_local nproc ?s p"
    using l(1,2,3) l(4)[OF ins] l(9) ins pc st iv(2) by (simp add: rd_local_def in_stages_def stages_def)
  show "stages ?n s p \<le> stages ?n ?s p" using pc by (simp add: stages_def)
qed (simp_all add: same_at_def)

lemma rd_meet_inv:
  assumes inv: "rd_inv nproc s" and p: "p < nproc" and pc: "rd_pc_of s p = R_Last"
  shows "rd_inv nproc (s\<lparr>rd_meets := (rd_meets s)(p := rd_meets s p + 1), rd_pc_of := (rd_pc_of s)(p := R_Post)\<rparr>)" (is "rd_inv nproc ?s")
proof (rule rd_inv_same_out[OF inv p])
  note l = rd_local_facts[OF rd_invD(1)[OF inv p]]
  have np: "\<not> in_stages s p" using pc by (simp add: in_stages_def)
  show "rd_local nproc ?s p"
    using l(1,2,3) l(5)[OF np] l(8,9) np pc by (simp add: rd_local_def in_stages_def)
  have be: "began (loop_times nproc) ?s q j c = began (loop_times nproc) s q j c" for q j c
    using pc by (auto simp: began_def stages_def)
  show "rd_known nproc ?s p"
    using rd_invD(2)[OF inv p] pc unfolding rd_known_def Let_def be by (simp add: level_of_def)
qed (use pc in \<open>simp_all add: same_at_def stages_def\<close>)

lemma rd_post_all:
  assumes inv: "rd_inv nproc s" and p: "p < nproc" and pc: "rd_pc_of s p = R_Post"
    and m: "rd_meets s p \<le> rd_meets s (rd_partner nproc p)"
  shows "rd_all nproc s (rd_in s p)"
proof -
  let ?n = "loop_times nproc" and ?q = "rd_partner nproc p"
  note l = rd_local_facts[OF rd_invD(1)[OF inv p]]
  have n0: "0 < nproc" using p by simp
  have pa: "rd_paired nproc p" using l(8) pc by simp
  note q = rd_pairs(2)[OF n0 p pa]
  have qN: "?q < nproc" and qp: "rd_paired nproc ?q" using q by simp_all
  note k = rd_local_facts[OF rd_invD(1)[OF inv qN]]
  have np: "\<not> in_stages s p" "stages ?n s p = ?n + 1" using pc by (simp_all add: in_stages_def stages_def)
  have c: "1 \<le> rd_in s p" using l(1) pc by simp
  have mq: "2 * rd_in s p + (if in_stages s ?q \<or> rd_pc_of s ?q = R_Last then 1 else 0) \<le> 2 * rd_in s ?q" using m l(9)[OF pa] k(9)[OF qp] np(1) pc by simp
  show ?thesis
  proof (cases "rd_in s p \<le> rd_out s ?q")
    case True
    thus ?thesis using rd_invD(3)[OF inv qN c] by blast
  next
    case False
    hence e: "rd_in s ?q = rd_in s p" using mq k(1) by (auto split: if_splits)
    hence "\<not> in_stages s ?q" using mq by (auto split: if_splits)
    hence sq: "stages ?n s ?q = ?n + 1" by (auto simp: in_stages_def stages_def split: rd_pc.splits)
    show ?thesis
    proof (cases "p < near_poweroftwo nproc")
      case True
      show ?thesis by (rule all_known[OF inv n0 True c]) (simp add: np)
    next
      case far: False
      hence "?q < near_poweroftwo nproc" using rd_pairs(1)[OF n0 p] by simp
      from all_known[OF inv n0 this] sq c e show ?thesis by simp
    qed
  qed
qed

lemma rd_leave_inv:
  assumes inv: "rd_inv nproc s" and p: "p < nproc" and pc: "rd_pc_of s p = R_Post"
    and m: "rd_meets s p \<le> rd_meets s (rd_partner nproc p)"
  shows "rd_inv nproc (s\<lparr>rd_pc_of := (rd_pc_of s)(p := R_Idle), rd_out := (rd_out s)(p := rd_out s p + 1)\<rparr>)"
    (is "rd_inv nproc ?s")
proof (rule rd_inv_update[OF inv])
  note l = rd_local_facts[OF rd_invD(1)[OF inv p]]
  have np: "\<not> in_stages s p" using pc by (simp add: in_stages_def)
  show "rd_local nproc ?s p"
    using l(1,2,3) l(5)[OF np] l(9) np pc by (simp add: rd_local_def in_stages_def)
  have st: "stages (loop_times nproc) ?s q = stages (loop_times nproc) s q" for q using pc by (simp add: stages_def)
  have be: "began (loop_times nproc) ?s q j c = began (loop_times nproc) s q j c" for q j c unfolding began_def st by simp
  show "rd_known nproc ?s p" using rd_invD(2)[OF inv p] pc unfolding rd_known_def Let_def be by (simp add: level_of_def)
  show "began (loop_times nproc) s p j c \<Longrightarrow> began (loop_times nproc) ?s p j c" for j c unfolding be .
  show "rd_all nproc s c \<or> rd_all nproc ?s c" if "1 \<le> c" "c \<le> rd_out ?s p" for c
  proof (cases "c = rd_out s p + 1")
    case True
    thus ?thesis using rd_post_all[OF inv p pc m] l(1) pc by simp
  next
    case False
    thus ?thesis using rd_invD(3)[OF inv p that(1)] that(2) by simp
  qed
qed (simp_all add: same_at_def)

lemma rd_wait_inv:
  assumes "rd_inv nproc s" and "kupl_fence_rd_wait nproc ev s = Some s'"
  shows "rd_inv nproc s'"
  using assms rd_enter_inv rd_met_inv rd_write_inv rd_pass_inv rd_meet_inv rd_leave_inv
  by (auto simp: kupl_fence_rd_wait_def split: rd_event.splits rd_pc.splits if_splits)

lemma fence_rd_init_inv: "rd_inv nproc fence_rd_init"
  by (simp add: rd_inv_def rd_local_def rd_known_def fence_rd_init_def in_stages_def Let_def)

lemma rd_run_inv: "rd_inv nproc s \<Longrightarrow> rd_run nproc evs s = Some s' \<Longrightarrow> rd_inv nproc s'"
  by (induction evs arbitrary: s) (auto split: option.splits dest: rd_wait_inv)

section \<open>Property\<close>

text \<open>
  C39: the default fence of all processes: in every interleaving of its steps, for any number of
  processes and any number of fences, no process leaves a fence before all have entered it.  The
  meetings of two processes are the peer fences of \<open>Kupl_Shm_Fence\<close>.
\<close>

theorem fence_rd_meets:
  assumes run: "rd_run nproc evs fence_rd_init = Some s" and p: "p < nproc" and q: "q < nproc"
  shows "rd_out s p \<le> rd_in s q"
proof (cases "rd_out s p = 0")
  case False
  thus ?thesis using rd_invD(3)[OF rd_run_inv[OF fence_rd_init_inv run] p, of "rd_out s p"] q by (simp add: rd_all_def)
qed simp

section \<open>The fence opens\<close>

text \<open>What a process has left of its call, and of all calls together.\<close>

definition rd_todo :: "nat \<Rightarrow> rd_state \<Rightarrow> nat \<Rightarrow> nat" where
  "rd_todo n s p =
     (case rd_pc_of s p of
        R_Pre \<Rightarrow> 2 * n + 4 | R_Next i \<Rightarrow> 2 * (n - i) + 3 | R_Stage i v \<Rightarrow> 2 * (n - i) + 2
      | R_Last \<Rightarrow> 2 | R_Post \<Rightarrow> 1 | R_Idle \<Rightarrow> 0)"

definition is_enter :: "rd_event \<Rightarrow> bool" where
  "is_enter ev \<longleftrightarrow> (case ev of Rd_Enter p \<Rightarrow> True | _ \<Rightarrow> False)"

definition rd_all_todo :: "nat \<Rightarrow> rd_state \<Rightarrow> nat" where
  "rd_all_todo nproc s = (\<Sum>p < nproc. rd_todo (loop_times nproc) s p)"

lemma rd_step_todo:
  assumes inv: "rd_inv nproc s" and st: "kupl_fence_rd_wait nproc ev s = Some s'" and ev: "\<not> is_enter ev"
  shows "rd_all_todo nproc s' < rd_all_todo nproc s \<and> rd_in s' = rd_in s"
proof -
  let ?n = "loop_times nproc"
  obtain p where p: "p < nproc" "rd_todo ?n s' p < rd_todo ?n s p" "\<And>q. q \<noteq> p \<Longrightarrow> rd_pc_of s' q = rd_pc_of s q"
    and i: "rd_in s' = rd_in s"
  proof (cases ev)
    case (Rd_Write p)
    then obtain i where i: "rd_pc_of s p = R_Next i" "p < nproc" "s' = rd_stage nproc p i s"
      using st by (auto simp: kupl_fence_rd_wait_def split: rd_pc.splits if_splits)
    show ?thesis
      by (rule that[of p]) (use i in \<open>auto simp: rd_todo_def rd_stage_def Let_def\<close>)
  next
    case (Rd_Pass p)
    then obtain i v where i: "rd_pc_of s p = R_Stage i v" "p < nproc" "s' = s\<lparr>rd_pc_of := (rd_pc_of s)(p := R_Next (i + 1))\<rparr>"
      using st by (auto simp: kupl_fence_rd_wait_def split: rd_pc.splits if_splits)
    moreover have "i < ?n" using rd_local_facts(6)[OF rd_invD(1)[OF inv i(2)] i(1)] by simp
    ultimately show ?thesis by (intro that[of p]) (auto simp: rd_todo_def)
  next
    case (Rd_Met p)
    thus ?thesis using st by (intro that[of p]) (auto simp: kupl_fence_rd_wait_def rd_todo_def split: if_splits)
  next
    case (Rd_Meet p)
    thus ?thesis using st by (intro that[of p]) (auto simp: kupl_fence_rd_wait_def rd_todo_def split: if_splits)
  next
    case (Rd_Leave p)
    thus ?thesis using st by (intro that[of p]) (auto simp: kupl_fence_rd_wait_def rd_todo_def split: if_splits)
  qed (use ev in \<open>simp add: is_enter_def\<close>)
  have "rd_todo ?n s' q \<le> rd_todo ?n s q" for q using p(2) p(3)[of q] by (cases "q = p") (auto simp: rd_todo_def)
  hence "rd_all_todo nproc s' < rd_all_todo nproc s"
    using p(1,2) unfolding rd_all_todo_def by (intro sum_strict_mono_ex1) auto
  thus ?thesis using i by simp
qed

lemma rd_run_todo:
  assumes "rd_inv nproc s" and "rd_run nproc evs s = Some s'" and "\<forall>ev \<in> set evs. \<not> is_enter ev"
  shows "length evs + rd_all_todo nproc s' \<le> rd_all_todo nproc s \<and> rd_in s' = rd_in s"
  using assms
proof (induction evs arbitrary: s)
  case (Cons ev evs)
  then obtain s1 where s1: "kupl_fence_rd_wait nproc ev s = Some s1" "rd_run nproc evs s1 = Some s'"
    by (auto split: option.splits)
  from Cons.IH[OF rd_wait_inv[OF Cons.prems(1) s1(1)] s1(2)] rd_step_todo[OF Cons.prems(1) s1(1)] Cons.prems(3)
  show ?case by simp
qed simp

text \<open>When all have entered equally often, the one that is the least advanced can go on.\<close>

lemma rd_some_step:
  assumes inv: "rd_inv nproc s" and all: "\<forall>q < nproc. rd_in s q = c" and p: "p < nproc" "rd_pc_of s p \<noteq> R_Idle"
    and least: "\<And>q. q < nproc \<Longrightarrow> rd_todo (loop_times nproc) s q \<le> rd_todo (loop_times nproc) s p"
  shows "\<exists>ev s'. \<not> is_enter ev \<and> kupl_fence_rd_wait nproc ev s = Some s'"
proof -
  let ?n = "loop_times nproc" and ?q = "rd_partner nproc p"
  note l = rd_local_facts[OF rd_invD(1)[OF inv p(1)]]
  have n0: "0 < nproc" using p by simp
  have c1: "1 \<le> c" using all p l(1) by auto
  have meets: "rd_meets s p \<le> rd_meets s ?q" if pc: "rd_pc_of s p = R_Pre \<or> rd_pc_of s p = R_Post"
  proof -
    have pa: "rd_paired nproc p" using l(8) pc by auto
    note q = rd_pairs(2)[OF n0 p(1) pa]
    have qN: "?q < nproc" using q by simp
    note k = rd_local_facts[OF rd_invD(1)[OF inv qN]]
    have lq: "rd_todo ?n s ?q \<le> rd_todo ?n s p" using least q by blast
    have c: "rd_in s ?q = c" "rd_in s p = c" using all p q by simp_all
    show ?thesis
      using k(9) q l(9)[OF pa] c pc lq
      by (cases "rd_pc_of s ?q") (auto simp: in_stages_def rd_todo_def)
  qed
  show ?thesis
  proof (cases "rd_pc_of s p")
    case R_Pre
    thus ?thesis using meets p by (intro exI[of _ "Rd_Met p"]) (simp add: is_enter_def kupl_fence_rd_wait_def)
  next
    case (R_Next i)
    thus ?thesis using p by (intro exI[of _ "Rd_Write p"]) (simp add: is_enter_def kupl_fence_rd_wait_def)
  next
    case R_Last
    thus ?thesis using p by (intro exI[of _ "Rd_Meet p"]) (simp add: is_enter_def kupl_fence_rd_wait_def)
  next
    case R_Post
    thus ?thesis using meets p by (intro exI[of _ "Rd_Leave p"]) (simp add: is_enter_def kupl_fence_rd_wait_def)
  next
    case (R_Stage i v)
    have iv: "v = int (i + 1)" "i < ?n" using l(6)[OF R_Stage] by blast+
    have "rd_passes nproc p i v s"
      unfolding rd_passes_def
    proof
      assume q: "rd_peer_idx p i < nproc"
      let ?r = "rd_peer_idx p i"
      note k = rd_local_facts[OF rd_invD(1)[OF inv q]]
      have c: "rd_in s ?r = c" "rd_in s p = c" using all p q by simp_all
      have idx: "rd_flag_idx s p = (c + 2) mod 3" using l(2) R_Stage c(2) by (simp add: in_stages_def)
      show "v \<le> rd_flags s ?r (rd_flag_idx s p)"
      proof (cases "in_stages s ?r")
        case True
        have "i + 1 \<le> stages ?n s ?r"
          using least[OF q] True R_Stage iv(2) k(6,7)
          by (auto simp: rd_todo_def stages_def in_stages_def split: rd_pc.splits)
        thus ?thesis using k(4)[OF True] c(1) iv(1) by (simp add: idx)
      next
        case False
        thus ?thesis using k(5)[OF False] c c1 iv by (simp add: idx)
      qed
    qed
    thus ?thesis using R_Stage p by (intro exI[of _ "Rd_Pass p"]) (simp add: is_enter_def kupl_fence_rd_wait_def)
  qed (use p in simp)
qed

lemma rd_finish:
  assumes "rd_inv nproc s" and "\<forall>q < nproc. rd_in s q = c"
  shows "\<exists>es s'. (\<forall>ev \<in> set es. \<not> is_enter ev) \<and> rd_run nproc es s = Some s' \<and>
           (\<forall>q < nproc. rd_pc_of s' q = R_Idle \<and> rd_out s' q = c)"
  using assms
proof (induction "rd_all_todo nproc s" arbitrary: s rule: less_induct)
  case less
  show ?case
  proof (cases "\<forall>q < nproc. rd_pc_of s q = R_Idle")
    case True
    hence "rd_out s q = c" if "q < nproc" for q
      using rd_local_facts(1)[OF rd_invD(1)[OF less.prems(1) that]] less.prems(2) that by simp
    thus ?thesis using True by (intro exI[of _ "[]"]) simp
  next
    case False
    then obtain q0 where q0: "q0 < nproc" "rd_pc_of s q0 \<noteq> R_Idle" by blast
    let ?T = "rd_todo (loop_times nproc) s ` {..<nproc}"
    have "Max ?T \<in> ?T" using q0(1) by (intro Max_in) auto
    then obtain p where p: "p < nproc" "Max ?T = rd_todo (loop_times nproc) s p" by auto
    have max: "rd_todo (loop_times nproc) s q \<le> rd_todo (loop_times nproc) s p" if "q < nproc" for q
      using that p(2) by (metis Max_ge finite_imageI finite_lessThan imageI lessThan_iff)
    have "0 < rd_todo (loop_times nproc) s q0" using q0(2) by (cases "rd_pc_of s q0") (simp_all add: rd_todo_def)
    hence "rd_pc_of s p \<noteq> R_Idle" using max[OF q0(1)] by (auto simp: rd_todo_def)
    from rd_some_step[OF less.prems p(1) this max] obtain ev s1 where
      st: "\<not> is_enter ev" "kupl_fence_rd_wait nproc ev s = Some s1" by blast
    note t = rd_step_todo[OF less.prems(1) st(2,1)]
    have "\<forall>q < nproc. rd_in s1 q = c" using t less.prems(2) by simp
    from less.hyps[OF conjunct1[OF t] rd_wait_inv[OF less.prems(1) st(2)] this] obtain es s' where
      "\<forall>ev \<in> set es. \<not> is_enter ev" "rd_run nproc es s1 = Some s'" "\<forall>q < nproc. rd_pc_of s' q = R_Idle \<and> rd_out s' q = c" by blast
    thus ?thesis using st by (intro exI[of _ "ev # es"] exI[of _ s']) simp
  qed
qed

lemma rd_run_append:
  "rd_run nproc (evs @ es) s = (case rd_run nproc evs s of None \<Rightarrow> None | Some s' \<Rightarrow> rd_run nproc es s')"
  by (induction evs arbitrary: s) (simp_all split: option.split)

lemma rd_todo_bound: "rd_all_todo nproc s \<le> nproc * (2 * loop_times nproc + 4)"
proof -
  have "rd_todo (loop_times nproc) s q \<le> 2 * loop_times nproc + 4" for q
    by (cases "rd_pc_of s q") (simp_all add: rd_todo_def)
  thus ?thesis using sum_bounded_above[of "{..<nproc}" "rd_todo (loop_times nproc) s"] by (simp add: rd_all_todo_def)
qed

text \<open>
  C40: The default fence cannot block for ever.  Once all processes have entered equally often, every run
  without another entry is bounded by \<open>2 log p + 4\<close> events for each of the \<open>p\<close> processes, and every
  such run can be continued until all processes have left the fence.
\<close>

theorem fence_rd_opens:
  assumes run: "rd_run nproc evs fence_rd_init = Some s" and all: "\<forall>q < nproc. rd_in s q = c"
  shows "(\<forall>es. (\<forall>ev \<in> set es. \<not> is_enter ev) \<and> rd_run nproc (evs @ es) fence_rd_init \<noteq> None \<longrightarrow>
            length es \<le> nproc * (2 * loop_times nproc + 4)) \<and>
         (\<exists>es s'. (\<forall>ev \<in> set es. \<not> is_enter ev) \<and> rd_run nproc (evs @ es) fence_rd_init = Some s' \<and>
            (\<forall>q < nproc. rd_pc_of s' q = R_Idle \<and> rd_out s' q = c))"
proof (intro conjI allI impI)
  have inv: "rd_inv nproc s" by (rule rd_run_inv[OF fence_rd_init_inv run])
  fix es assume es: "(\<forall>ev \<in> set es. \<not> is_enter ev) \<and> rd_run nproc (evs @ es) fence_rd_init \<noteq> None"
  then obtain s' where "rd_run nproc es s = Some s'" using run by (auto simp: rd_run_append)
  from rd_run_todo[OF inv this] es rd_todo_bound[of nproc s]
  show "length es \<le> nproc * (2 * loop_times nproc + 4)" by simp
next
  show "\<exists>es s'. (\<forall>ev \<in> set es. \<not> is_enter ev) \<and> rd_run nproc (evs @ es) fence_rd_init = Some s' \<and>
            (\<forall>q < nproc. rd_pc_of s' q = R_Idle \<and> rd_out s' q = c)"
    using rd_finish[OF rd_run_inv[OF fence_rd_init_inv run] all] run by (simp add: rd_run_append)
qed

text \<open>Three processes: 0 and 1 exchange one stage; 1 and 2 meet before and after it.\<close>

definition rd_three :: "rd_event list" where
  "rd_three = [Rd_Enter 2, Rd_Enter 0, Rd_Enter 1, Rd_Met 1, Rd_Write 0, Rd_Write 1, Rd_Pass 0, Rd_Pass 1, Rd_Write 1, Rd_Meet 1,
     Rd_Met 2, Rd_Write 2, Rd_Pass 2, Rd_Write 2, Rd_Meet 2, Rd_Write 0, Rd_Leave 2, Rd_Enter 0]"

theorem fence_rd_meets_witness:
  "\<exists>s. rd_run 3 rd_three fence_rd_init = Some s \<and> rd_out s 2 = 1 \<and> rd_out s 2 \<le> rd_in s 1"
proof -
  have "map_option (\<lambda>s. rd_out s 2) (rd_run 3 rd_three fence_rd_init) = Some 1" by code_simp
  then obtain s where s: "rd_run 3 rd_three fence_rd_init = Some s" "rd_out s 2 = 1" by auto
  show ?thesis using s fence_rd_meets[OF s(1), of 2 1] by simp
qed

theorem fence_rd_opens_witness:
  "\<exists>es s'. rd_run 3 ([Rd_Enter 2, Rd_Enter 0, Rd_Enter 1] @ es) fence_rd_init = Some s' \<and> (\<forall>q < 3. rd_out s' q = 1)"
proof -
  have "map_option (\<lambda>s. list_all (\<lambda>q. rd_in s q = 1) [0..<3]) (rd_run 3 [Rd_Enter 2, Rd_Enter 0, Rd_Enter 1] fence_rd_init) = Some True"
    by code_simp
  then obtain s where s: "rd_run 3 [Rd_Enter 2, Rd_Enter 0, Rd_Enter 1] fence_rd_init = Some s" "\<forall>q < 3. rd_in s q = 1"
    by (auto simp: list_all_iff)
  show ?thesis using conjunct2[OF fence_rd_opens[OF s]] by blast
qed

end
