(* ===== verification/Spec2Isabelle.thy ===== *)
theory Spec2Isabelle
  imports Kupl_Prelude Kupl_Vector Kupl_Taskbase Kupl_Sched_Queue Kupl_Sched_Plugin Kupl_Sched_Mq
    Kupl_Executor Kupl_Egroup Kupl_Range Kupl_Range_Bounds Kupl_Policy Kupl_Flag_Barrier Kupl_Reduce Kupl_Parallel_For
    Kupl_Sched_Hybrid Kupl_Sched_Load Kupl_Sched Kupl_Taskloop
    Kupl_Dag Kupl_Task Kupl_Graph Kupl_Dag_Inv Kupl_Dag_Add Kupl_Graph_Run Kupl_Graph_Safety Kupl_Dag_Race
    Kupl_Event_System Kupl_Queue Kupl_Queue_Inv Kupl_Queue_Ops Kupl_Queue_Submit Kupl_Queue_Run Kupl_Queue_Safety
    Kupl_Mpool_Normal Kupl_Mpool_Inv Kupl_Mpool_Heap Kupl_Mpool_Ops Kupl_Mpool_Alloc Kupl_Mpool_Free Kupl_Mpool_Safety Kupl_Mpool_Direct Kupl_Mpool_Fast Kupl_Mpool_Fast_Inv Kupl_Mpool_Fast_Safety Kupl_Mpool
    Kupl_Shm_Halving Kupl_Allreduce Kupl_Allreduce_Cells Kupl_Allreduce_Inv Kupl_Allreduce_Run Kupl_Allreduce_Safety
    Kupl_Allreduce_Race Kupl_Shm_Fence Kupl_Shm_Fence_Rd
begin

text \<open>
  KUPL is a runtime library for multi-threaded programs: it owns a table of executors (threads), schedules
  tasks on them through a scheduler plugin, divides loops among the executors of a group
  (\<open>kupl_parallel_for\<close>), builds graphs of tasks with dependencies, runs work in queues, gives its
  components and users memory from a pool with one memory per executor, and lets processes that share
  memory wait for and compute with each other.  This development models these parts
  of \<open>src/src\<close>, each as executable definitions that follow the code, and proves what they promise.

  How the parts interact.  A task (Kupl\_Taskbase, Kupl\_Task) is handed to the scheduler (Kupl\_Sched),
  which calls a plugin through its table of functions (Kupl\_Sched\_Load, Kupl\_Sched\_Hybrid); the plugins
  (Kupl\_Sched\_Plugin, Kupl\_Sched\_Mq) keep tasks in queues (Kupl\_Sched\_Queue), which are ring buffers
  (Kupl\_Vector).  A loop is checked (Kupl\_Range), its group resolved (Kupl\_Egroup) over the table of
  executors (Kupl\_Executor), its range divided by a policy (Kupl\_Policy), and the region begun and ended by
  the flag barrier (Kupl\_Flag\_Barrier), after which the private results of a reduction are combined
  (Kupl\_Reduce); Kupl\_Parallel\_For is the entry point.  A graph (Kupl\_Graph) finds the predecessors of a
  task from the addresses it reads and writes (Kupl\_Dag); a task loop (Kupl\_Taskloop) submits one task per
  block.  Queues and events (Kupl\_Queue) are tasks of the global graph that precede one another.  The memory
  pool (Kupl\_Mpool) is a layer of small buffers (Kupl\_Mpool\_Fast) over one of 4 MB chunks
  (Kupl\_Mpool\_Normal).  Processes with common memory windows combine their buffers (Kupl\_Allreduce)
  and wait for one another at fences (Kupl\_Shm\_Fence, Kupl\_Shm\_Fence\_Rd).

  Theories and code.  Kupl\_Prelude holds the status codes, the C integers and what all share;
  Kupl\_Event\_System the runs of concurrent components as a locale.
  \<^item> Kupl\_Vector: \<open>tools/struct/kupl_vector.h\<close> and \<open>.cpp\<close>; the ring buffer refines a list.
  \<^item> Kupl\_Taskbase: \<open>mt/kupl_taskbase.h\<close>; Kupl\_Task: \<open>mt/kupl_task.cpp\<close>.
  \<^item> Kupl\_Sched\_Queue, Kupl\_Sched\_Plugin, Kupl\_Sched\_Mq, Kupl\_Sched\_Hybrid, Kupl\_Sched\_Load,
    Kupl\_Sched: \<open>mt/scheduler\<close>.  The locales \<open>fifo\<close>, \<open>sched_plugin\<close> and \<open>slot_plugin\<close> are the contracts of the
    queues and of the plugins, interpreted on every plugin; from them follows that no scheduler loses or
    duplicates a task.
  \<^item> Kupl\_Executor, Kupl\_Egroup: \<open>executor/kupl_executor.cpp\<close>, \<open>kupl_executor_group.cpp\<close>.
  \<^item> Kupl\_Range: \<open>mt/kupl_check.cpp\<close> and the chunks of \<open>mt/kupl_parallel_for.cpp\<close>; Kupl\_Policy,
    Kupl\_Reduce, Kupl\_Parallel\_For: \<open>mt/kupl_parallel_for.cpp\<close>; Kupl\_Range\_Bounds has the chunks in
    checked 64-bit arithmetic and what the check guarantees for them; Kupl\_Flag\_Barrier:
    \<open>mt/barrier/kupl_barrier.cpp\<close>.  The static policy executes every iteration once; the dynamic policy is a
    step relation of threads that draw chunks, safe under every interleaving and ending.
  \<^item> Kupl\_Dag: \<open>mt/kupl_dag.h\<close>, \<open>kupl_dag.cpp\<close>; Kupl\_Graph, Kupl\_Taskloop: \<open>mt/kupl_graph.cpp\<close>.
    Kupl\_Dag\_Inv has the invariant (reference counts, predecessor counts, the table of addresses),
    Kupl\_Dag\_Add submission, Kupl\_Graph\_Run the runs with atomic submissions, Kupl\_Graph\_Safety what
    follows for them, Kupl\_Dag\_Race a submission in its steps and what others can do in between.
  \<^item> Kupl\_Queue: \<open>mt/kupl_queue.cpp\<close>, \<open>kupl_event.cpp\<close>.  Kupl\_Queue\_Inv has the invariant, Kupl\_Queue\_Ops
    and Kupl\_Queue\_Submit what each operation does to it, Kupl\_Queue\_Run the runs, Kupl\_Queue\_Safety what
    follows: order, memory safety, waiting, and that runs end.
  \<^item> Kupl\_Mpool\_Normal, Kupl\_Mpool\_Fast, Kupl\_Mpool: \<open>memory/mpool/kupl_mpool.cpp\<close>.  Kupl\_Mpool\_Inv and
    Kupl\_Mpool\_Heap have the invariant of the chunks (tiling by boundary tags, free lists) and of all memories,
    Kupl\_Mpool\_Ops, Kupl\_Mpool\_Alloc and Kupl\_Mpool\_Free the operations, Kupl\_Mpool\_Safety and
    Kupl\_Mpool\_Direct the runs of this layer and its large buffers; Kupl\_Mpool\_Fast\_Inv and
    Kupl\_Mpool\_Fast\_Safety the same for the small buffers, and Kupl\_Mpool the runs of \<open>kupl_malloc\<close> and
    \<open>kupl_free\<close>.
  \<^item> Kupl\_Shm\_Halving, Kupl\_Allreduce: \<open>memory/shm/allreduce/kupl_allreduce.cpp\<close>, the index arithmetic and
    the collective sum.  Kupl\_Allreduce\_Cells has the effect of a phase on one element, Kupl\_Allreduce\_Inv
    the invariant of the ranks and of one element, Kupl\_Allreduce\_Run its preservation,
    Kupl\_Allreduce\_Safety the results, Kupl\_Allreduce\_Race that no two ranks touch an element at the same
    time.
  \<^item> Kupl\_Shm\_Fence, Kupl\_Shm\_Fence\_Rd: \<open>memory/shm/fence\<close>, the fence of two processes, the linear
    fence, and recursive doubling, the default: nobody leaves before all have entered, and all can leave.

  State and atomicity.  Structures of the code are records, heaps are maps from addresses, a null pointer is
  \<open>None\<close>, and a call that reads freed or null memory, overflows a signed integer, or does not return is the
  value \<open>None\<close>; theorems that a call succeeds exclude all of these.  What the code does under a lock, or with
  one atomic instruction, is one step.  Submission to a graph is one step in Kupl\_Graph\_Run and many in
  Kupl\_Dag\_Race.  The runs of graphs and queues are restricted by \<open>graph_enabled\<close> and \<open>queue_enabled\<close>:
  the allocations succeed, no task names an address twice among its dependencies unless it also depends on
  everything, an event is recorded once, arguments are below 128 GB, queues are asynchronous, and a queue is
  not destroyed or acquired.  Outside them there are errors of the code, some of which are theorems here
  (\<open>graph_self_dependency\<close>, \<open>rm_dup_merged_count\<close>, \<open>record_again_overtakes\<close>, \<open>submission_race\<close>).  A rank of
  the collective sum does the work between two fences in one step, which Kupl\_Allreduce\_Race justifies, and
  passes a fence when the contract of the fences allows it, which the two theories of fences prove of the
  code; there each event is one access to the flags, and the recursive doubling uses the fence of two
  processes by its contract.  In the runs of queues an item takes five steps: start, return (the status), leaving the
  queue, the finished mark, the release of its successors.

  Bounds and fuel.  Counters keep their width (words of 16, 32, 64 bits); where a theorem needs that one does
  not wrap around, it says so (fewer than \<open>2 ^ 32\<close> tasks, fewer than \<open>2 ^ 64\<close> events).  Executors are at most
  1024.  Sizes in the runs of the memory pool are below 2 GB, because the code keeps them in an \<open>int\<close>
  (Kupl\_Mpool\_Direct shows what happens above); the page size is 4096.  The loop of \<open>kupl_normal_alloc\<close>
  needs two rounds at most: when the first finds nothing it maps a chunk, which the second finds.  Loops that
  wait for other threads are partial functions with the runs of the scheduler as a parameter; that they end is
  stated as such (\<open>queue_run_completes\<close>, \<open>graph_run_completes\<close>).

  Parameters: the functions of users, the first initialisation of the library, the outcomes of \<open>malloc\<close>,
  \<open>mmap\<close> and lock creation, floating-point arithmetic and the sum of two elements of a datatype, and random
  numbers.

  Not modelled: the SDMA engine and everything that needs it (\<open>dm/\<close>, the requests of queues and events,
  the pinning of memory), which is a library outside the repository; of \<open>memory/shm\<close>
  the windows and requests, whose queries and copies are taken to succeed, the broadcast and the all-to-all,
  and the algorithms compiled for tests only; huge-page mappings of the memory pool; the matrix kernels
  (\<open>mma\<close>), assembler and intrinsics of one processor; places and hardware discovery (\<open>executor/kupl_places.cpp\<close>,
  \<open>utils\<close>), which read the machine; profiling, logging, configuration and locks; static graphs and user level
  threads; the distributed barrier.
\<close>

end
